(* ===== verification/Prelude.thy ===== *)
theory Prelude
  imports Main "HOL-Library.Word"
begin

text \<open>
  Shared material of the development: the collections of rewrite rules the
  component theories extend, and the generic facts on lists, maps and words
  that more than one component needs.
\<close>

unbundle bit_operations_syntax

type_synonym i64 = "64 word"

named_theorems sat_simps \<open>evaluation of the SAT solver's accessors\<close>
named_theorems gate_simps \<open>unfolding of the bit-blaster's contexts\<close>
named_theorems lin_simps \<open>values of linear forms\<close>

section \<open>Association lists updated in place\<close>

text \<open>
  The C code keeps most of its environments as arrays of (name, value) pairs
  that are searched from the front; binding a known name overwrites its slot,
  binding a new name appends a slot.
\<close>

fun alist_put :: "('k \<times> 'v) list \<Rightarrow> 'k \<Rightarrow> 'v \<Rightarrow> ('k \<times> 'v) list" where
  "alist_put [] k v = [(k, v)]"
| "alist_put ((k', v') # xs) k v =
     (if k' = k then (k, v) # xs else (k', v') # alist_put xs k v)"

lemma map_of_alist_put [simp]:
  "map_of (alist_put xs k v) = (map_of xs)(k \<mapsto> v)"
  by (induction xs) (auto simp: fun_eq_iff)

lemma fst_alist_put:
  "map fst (alist_put xs k v) =
     (if k \<in> fst ` set xs then map fst xs else map fst xs @ [k])"
  by (induction xs) (auto simp: rev_image_eqI)

lemma length_alist_put:
  "length (alist_put xs k v) =
     (if k \<in> fst ` set xs then length xs else Suc (length xs))"
  using arg_cong [OF fst_alist_put, of length xs k v] by (auto split: if_splits)

lemma set_alist_put_subset:
  "set (alist_put xs k v) \<subseteq> insert (k, v) (set xs)"
  by (induction xs) (auto split: if_splits)

lemma length_alist_put_ge: "length xs \<le> length (alist_put xs k v)"
  by (simp add: length_alist_put)

lemma take_fst_alist_put:
  "n \<le> length xs \<Longrightarrow> map fst (take n (alist_put xs k v)) = map fst (take n xs)"
  by (simp add: take_map [symmetric] fst_alist_put)

section \<open>Chains of conditionals\<close>

lemma if_eqE:
  "z = (if A then x else y) \<Longrightarrow> (A \<Longrightarrow> z = x \<Longrightarrow> P) \<Longrightarrow> (\<not> A \<Longrightarrow> z = y \<Longrightarrow> P) \<Longrightarrow> P"
  by (cases A) auto

lemma if_pairE:
  "(r, d) = (if A then (x, c) else y) \<Longrightarrow> (A \<Longrightarrow> r = x \<Longrightarrow> d = c \<Longrightarrow> P) \<Longrightarrow>
   (\<not> A \<Longrightarrow> (r, d) = y \<Longrightarrow> P) \<Longrightarrow> P"
  by (cases A) auto

section \<open>Lists\<close>

lemma nth_take_le: "i < n \<Longrightarrow> n \<le> length xs \<Longrightarrow> take n xs ! i = xs ! i"
  by simp

lemma distinct_map_nth_eq:
  "distinct (map f xs) \<Longrightarrow> i < length xs \<Longrightarrow> j < length xs \<Longrightarrow>
   f (xs ! i) = f (xs ! j) \<Longrightarrow> i = j"
  by (metis length_map nth_eq_iff_index_eq nth_map)

lemma set_take_mono: "m \<le> n \<Longrightarrow> set (take m xs) \<subseteq> set (take n xs)"
  by (rule set_take_subset_set_take)

lemma in_set_takeI: "i < n \<Longrightarrow> i < length xs \<Longrightarrow> xs ! i \<in> set (take n xs)"
  by (auto simp: in_set_conv_nth)

section \<open>Words\<close>

lemma and_63_eq_mod: "unat (x AND 63 :: i64) = unat x mod 64"
proof -
  have "(63 :: i64) = mask 6" by (simp add: mask_eq_exp_minus_1)
  then have "unat (x AND 63) = take_bit 6 (unat x)"
    by (metis take_bit_eq_mask unsigned_take_bit_eq)
  then show ?thesis by (simp add: take_bit_eq_mod)
qed

lemma and_63_less: "unat (x AND 63 :: i64) < 64"
  by (simp add: and_63_eq_mod)

end
