(* ===== verification/BvSat.thy ===== *)
theory BvSat
  imports Prelude
begin

text \<open>
  The SAT solver of the bit-vector oracle (\<open>src/verify_bv_sat.c\<close>): its state,
  clause store, trail, unit propagation through occurrence lists, conflict
  analysis and the search loop, in the order of the file.

  The C arrays indexed by a variable are total functions here: every slot the
  code can reach is zero until it is written (\<open>calloc\<close>, and \<open>memset\<close> after
  each growth), so their capacities need no model. \<open>n_trail\<close> and \<open>n_lim\<close> are the lengths of
  the two stacks, \<open>n_cl\<close> the length of the clause list. The scratch buffer
  \<open>learn_buf\<close> is local to the analysis.
  The loops without an evident bound return an option: \<open>None\<close> is divergence,
  excluded in \<open>BvSatProofs\<close> for every well-formed state.
\<close>

section \<open>State\<close>

record bvsat =
  n_vars :: nat
  assign :: "nat \<Rightarrow> int"
  level :: "nat \<Rightarrow> nat"
  trail :: "int list"
  trail_lim :: "nat list"
  flipped :: "bool list"
  reason :: "nat \<Rightarrow> nat"
  q_head :: nat
  phase_mode :: nat
  cl :: "int list list"
  occ :: "nat \<Rightarrow> nat list"
  conflicts :: int
  budget :: int
  cdcl :: bool
  conflict_cl :: int
  seen :: "nat \<Rightarrow> bool"

datatype bvsat_result = BV_SAT_SAT | BV_SAT_UNSAT | BV_SAT_UNDECIDED

abbreviation n_lim :: "bvsat \<Rightarrow> nat" where
  "n_lim s \<equiv> length (trail_lim s)"

abbreviation n_trail :: "bvsat \<Rightarrow> nat" where
  "n_trail s \<equiv> length (trail s)"

abbreviation n_cl :: "bvsat \<Rightarrow> nat" where
  "n_cl s \<equiv> length (cl s)"

definition occ_slot :: "int \<Rightarrow> nat" where
  "occ_slot lit = (if lit > 0 then nat (2 * lit) else nat (2 * (- lit) + 1))"

text \<open>The variable of a literal: \<open>lit > 0 ? lit : -lit\<close> in the code.\<close>

definition lit_var :: "int \<Rightarrow> nat" where
  "lit_var lit = nat (if lit > 0 then lit else - lit)"

definition BV_SAT_DEFAULT_BUDGET :: int where
  "BV_SAT_DEFAULT_BUDGET = 30000"

definition bv_sat_init :: "int \<Rightarrow> bvsat" where
  "bv_sat_init conflict_budget =
     \<lparr>n_vars = 0, assign = (\<lambda>_. 0), level = (\<lambda>_. 0), trail = [], trail_lim = [],
      flipped = [], reason = (\<lambda>_. 0), q_head = 0, phase_mode = 0, cl = [],
      occ = (\<lambda>_. []), conflicts = 0,
      budget = (if conflict_budget > 0 then conflict_budget else BV_SAT_DEFAULT_BUDGET),
      cdcl = False, conflict_cl = 0, seen = (\<lambda>_. False)\<rparr>"

definition bv_sat_new_var :: "bvsat \<Rightarrow> nat \<times> bvsat" where
  "bv_sat_new_var s = (Suc (n_vars s), s\<lparr>n_vars := Suc (n_vars s)\<rparr>)"

fun occ_add :: "(nat \<Rightarrow> nat list) \<Rightarrow> nat \<Rightarrow> int list \<Rightarrow> (nat \<Rightarrow> nat list)" where
  "occ_add oc ci [] = oc"
| "occ_add oc ci (l # ls) =
     occ_add (oc(occ_slot l := oc (occ_slot l) @ [ci])) ci ls"

definition bv_sat_add_clause :: "bvsat \<Rightarrow> int list \<Rightarrow> bvsat" where
  "bv_sat_add_clause s lits =
     s\<lparr>cl := cl s @ [lits], occ := occ_add (occ s) (n_cl s) lits\<rparr>"

section \<open>Literal values and the trail\<close>

definition lit_value :: "bvsat \<Rightarrow> int \<Rightarrow> int" where
  "lit_value s lit =
     (let v = lit_var lit in
      if v > n_vars s \<or> assign s v = 0 then 0
      else
        let val = (if assign s v > 0 then 1 else -1)
        in if lit > 0 then val else - val)"

definition trail_push :: "bvsat \<Rightarrow> int \<Rightarrow> nat \<Rightarrow> bvsat" where
  "trail_push s lit lvl =
     (let v = lit_var lit in
      s\<lparr>trail := trail s @ [lit],
        assign := (assign s)(v := if lit > 0 then 1 else -1),
        level := (level s)(v := lvl),
        reason := (reason s)(v := 0)\<rparr>)"

definition trail_push_reason :: "bvsat \<Rightarrow> int \<Rightarrow> nat \<Rightarrow> nat \<Rightarrow> bvsat" where
  "trail_push_reason s lit lvl clause_idx =
     (let s1 = trail_push s lit lvl
      in s1\<lparr>reason := (reason s1)(lit_var lit := clause_idx + 1)\<rparr>)"

text \<open>The loop body of \<open>trail_pop_to\<close>, and the loop.\<close>

definition trail_pop :: "bvsat \<Rightarrow> bvsat" where
  "trail_pop s =
     (let v = lit_var (last (trail s)) in
      s\<lparr>trail := butlast (trail s),
        assign := (assign s)(v := 0),
        reason := (reason s)(v := 0)\<rparr>)"

fun trail_pop_n :: "nat \<Rightarrow> bvsat \<Rightarrow> bvsat" where
  "trail_pop_n 0 s = s"
| "trail_pop_n (Suc k) s = trail_pop_n k (trail_pop s)"

definition trail_pop_to :: "bvsat \<Rightarrow> nat \<Rightarrow> bvsat" where
  "trail_pop_to s start = trail_pop_n (n_trail s - start) s"

section \<open>Unit propagation\<close>

text \<open>
  One scan of a clause: stops at the first true literal (\<open>sat\<close>) or at the
  second unassigned one; otherwise counts the unassigned literals and keeps
  the last of them.
\<close>

fun scan_clause :: "bvsat \<Rightarrow> int list \<Rightarrow> nat \<Rightarrow> int \<Rightarrow> bool \<times> nat \<times> int" where
  "scan_clause s [] un ul = (False, un, ul)"
| "scan_clause s (l # ls) un ul =
     (let lv = lit_value s l in
      if lv > 0 then (True, un, ul)
      else if lv = 0 then
        (if un + 1 > 1 then (False, un + 1, l) else scan_clause s ls (un + 1) l)
      else scan_clause s ls un ul)"

fun propagate_occ :: "bvsat \<Rightarrow> nat list \<Rightarrow> bool \<times> bvsat" where
  "propagate_occ s [] = (False, s)"
| "propagate_occ s (ci # cis) =
     (case scan_clause s (cl s ! ci) 0 0 of (sat, un, ul) \<Rightarrow>
        if sat then propagate_occ s cis
        else if un = 0 then (True, s\<lparr>conflict_cl := int ci\<rparr>)
        else if un = 1 then propagate_occ (trail_push_reason s ul (n_lim s) ci) cis
        else propagate_occ s cis)"

partial_function (option) sat_propagate :: "bvsat \<Rightarrow> (bool \<times> bvsat) option" where
  "sat_propagate s =
     (if q_head s < n_trail s then
        let lit = trail s ! q_head s;
            s1 = s\<lparr>q_head := Suc (q_head s)\<rparr>;
            r = propagate_occ s1 (occ s1 (occ_slot (- lit)))
        in if fst r then Some (True, snd r) else sat_propagate (snd r)
      else Some (False, s))"

declare sat_propagate.simps [code]

definition sat_decide_var :: "bvsat \<Rightarrow> nat" where
  "sat_decide_var s =
     (case find (\<lambda>v. assign s v = 0) [1 ..< Suc (n_vars s)] of None \<Rightarrow> 0 | Some v \<Rightarrow> v)"

section \<open>Conflict analysis\<close>

text \<open>
  The working variables of \<open>cdcl_analyze\<close>: the marks \<open>seen\<close>, the literals
  learned so far, the number of marked literals of the current level, and the
  backjump level.
\<close>

record ana =
  a_seen :: "nat \<Rightarrow> bool"
  a_learn :: "int list"
  a_counter :: int
  a_bj :: nat

fun analyze_lits :: "bvsat \<Rightarrow> nat \<Rightarrow> int \<Rightarrow> int list \<Rightarrow> ana \<Rightarrow> ana" where
  "analyze_lits s cur_level p [] a = a"
| "analyze_lits s cur_level p (q # qs) a =
     (if q = p then analyze_lits s cur_level p qs a
      else
        let v = lit_var q in
        if a_seen a v \<or> level s v = 0 then analyze_lits s cur_level p qs a
        else
          let a1 = a\<lparr>a_seen := (a_seen a)(v := True)\<rparr> in
          analyze_lits s cur_level p qs
            (if level s v \<ge> cur_level then a1\<lparr>a_counter := a_counter a1 + 1\<rparr>
             else a1\<lparr>a_learn := a_learn a1 @ [q],
                     a_bj := (if level s v > a_bj a1 then level s v else a_bj a1)\<rparr>))"

text \<open>
  The walk down the trail to the next marked literal of the current level. The
  argument is \<open>index + 1\<close>, so that 0 stands for the \<open>index = -1\<close> of the code.
\<close>

fun analyze_index :: "bvsat \<Rightarrow> nat \<Rightarrow> (nat \<Rightarrow> bool) \<Rightarrow> nat \<Rightarrow> nat" where
  "analyze_index s cur_level sn 0 = 0"
| "analyze_index s cur_level sn (Suc i) =
     (let tv = lit_var (trail s ! i) in
      if sn tv \<and> level s tv \<ge> cur_level then Suc i
      else analyze_index s cur_level sn i)"

lemma analyze_index_le: "analyze_index s cur sn k \<le> k"
  by (induction k) (auto simp: Let_def)

function analyze_loop ::
  "bvsat \<Rightarrow> nat \<Rightarrow> int list \<Rightarrow> int \<Rightarrow> nat \<Rightarrow> ana \<Rightarrow> int \<times> ana" where
  "analyze_loop s cur_level c p k a =
     (let a1 = analyze_lits s cur_level p c a;
          k1 = analyze_index s cur_level (a_seen a1) k
      in if k1 = 0 \<or> a_counter a1 \<le> 0 then (p, a1)
         else
           let p1 = trail s ! (k1 - 1);
               r = reason s (lit_var p1);
               a2 = a1\<lparr>a_seen := (a_seen a1)(lit_var p1 := False),
                       a_counter := a_counter a1 - 1\<rparr>
           in if r = 0 then (p1, a2)
              else analyze_loop s cur_level (cl s ! (r - 1)) p1 (k1 - 1) a2)"
  by pat_completeness auto
termination
proof (relation "measure (\<lambda>(s, cur, c, p, k, a). k)", goal_cases)
  case (2 s cur_level c p k a a1 k1)
  then show ?case
    using analyze_index_le [of s cur_level "a_seen a1" k] by auto
qed simp

declare analyze_loop.simps [simp del]

text \<open>The guard against a tautological learned clause.\<close>

fun has_tautology :: "int list \<Rightarrow> bool" where
  "has_tautology [] = False"
| "has_tautology (l # ls) = ((\<exists>m \<in> set ls. l = - m) \<or> has_tautology ls)"

definition cdcl_analyze :: "bvsat \<Rightarrow> nat \<Rightarrow> nat \<Rightarrow> nat option \<times> nat \<times> bvsat" where
  "cdcl_analyze s conflict bj =
     (let r = analyze_loop s (n_lim s) (cl s ! conflict) 0 (n_trail s)
                \<lparr>a_seen = seen s, a_learn = [], a_counter = 0, a_bj = bj\<rparr>;
          p = fst r; a = snd r;
          s1 = s\<lparr>seen := fold (\<lambda>t sn. sn(lit_var t := False)) (trail s) (a_seen a)\<rparr>
      in if p = 0 then (None, a_bj a, s1)
         else
           let buf = - p # a_learn a;
               bj1 = (if length buf = 1 then 0 else a_bj a)
           in if has_tautology buf then (None, bj1, s1)
              else (Some (n_cl s1), bj1, bv_sat_add_clause s1 buf))"

section \<open>Search\<close>

text \<open>Undoing whole decision levels until \<open>n_lim = bj\<close>.\<close>

fun pop_levels :: "nat \<Rightarrow> bvsat \<Rightarrow> bvsat" where
  "pop_levels 0 s = s"
| "pop_levels (Suc k) s =
     (let top = n_lim s - 1;
          s1 = trail_pop_to s (trail_lim s ! top)
      in pop_levels k (s1\<lparr>trail_lim := take top (trail_lim s1),
                          flipped := take top (flipped s1)\<rparr>))"

definition backjump :: "bvsat \<Rightarrow> nat \<Rightarrow> bvsat" where
  "backjump s bj = pop_levels (n_lim s - bj) s"

text \<open>
  The chronological branch (\<open>cdcl = 0\<close>): flip the last decision, or drop its
  level when both phases have been tried.
\<close>

definition chrono_backtrack :: "bvsat \<Rightarrow> bvsat" where
  "chrono_backtrack s =
     (let top = n_lim s - 1;
          start = trail_lim s ! top;
          dec = trail s ! start;
          s1 = trail_pop_to s start
      in if \<not> flipped s1 ! top then
           let s2 = s1\<lparr>flipped := (flipped s1)[top := True],
                       trail_lim := (trail_lim s1)[top := n_trail s1]\<rparr>;
               s3 = trail_push s2 (- dec) (n_lim s2)
           in s3\<lparr>q_head := n_trail s3 - 1\<rparr>
         else s1\<lparr>trail_lim := take top (trail_lim s1),
                 flipped := take top (flipped s1),
                 q_head := n_trail s1\<rparr>)"

text \<open>
  The CDCL branch up to its propagation: learn, jump back and push the
  asserting literal. \<open>None\<close>: the analysis failed, which the code answers with
  \<open>BV_SAT_UNSAT\<close>.
\<close>

definition cdcl_learn :: "bvsat \<Rightarrow> bvsat option" where
  "cdcl_learn s =
     (if conflict_cl s < 0 \<or> conflict_cl s \<ge> int (n_cl s) then None
      else
        (case cdcl_analyze s (nat (conflict_cl s)) 0 of (learned, bj, s1) \<Rightarrow>
           (case learned of
              None \<Rightarrow> None
            | Some li \<Rightarrow>
                let s2 = backjump s1 bj;
                    uip = cl s2 ! li ! 0;
                    s3 = trail_push_reason s2 uip (n_lim s2) li
                in Some (s3\<lparr>q_head := n_trail s3 - 1\<rparr>))))"

text \<open>
  The inner loop \<open>while (sat_propagate(s))\<close>. Its result is a verdict to
  return, or \<open>None\<close> to go on with the next decision.
\<close>

partial_function (option) conflict_loop ::
  "bvsat \<Rightarrow> (bvsat_result option \<times> bvsat) option" where
  "conflict_loop s =
     (case sat_propagate s of
        None \<Rightarrow> None
      | Some r \<Rightarrow>
          if \<not> fst r then Some (None, snd r)
          else
            let s2 = (snd r)\<lparr>conflicts := conflicts (snd r) + 1\<rparr> in
            if conflicts s2 > budget s2 then Some (Some BV_SAT_UNDECIDED, s2)
            else if n_lim s2 = 0 then Some (Some BV_SAT_UNSAT, s2)
            else if cdcl s2 then
              (case cdcl_learn s2 of
                 None \<Rightarrow> Some (Some BV_SAT_UNSAT, s2)
               | Some s3 \<Rightarrow>
                   (case sat_propagate s3 of
                      None \<Rightarrow> None
                    | Some r' \<Rightarrow>
                        if fst r' then
                          (if n_lim (snd r') = 0 then Some (Some BV_SAT_UNSAT, snd r')
                           else conflict_loop (snd r'))
                        else Some (None, snd r')))
            else conflict_loop (chrono_backtrack s2))"

declare conflict_loop.simps [code]

definition sat_decide :: "bvsat \<Rightarrow> nat \<Rightarrow> bvsat" where
  "sat_decide s v =
     (let s1 = s\<lparr>trail_lim := trail_lim s @ [n_trail s],
                 flipped := flipped s @ [False]\<rparr>;
          lit = (if phase_mode s1 = 1 then - int v
                 else if phase_mode s1 = 2 \<and> n_lim s1 mod 2 = 0 then - int v
                 else int v);
          s2 = trail_push s1 lit (n_lim s1)
      in s2\<lparr>q_head := n_trail s2 - 1\<rparr>)"

partial_function (option) decide_loop :: "bvsat \<Rightarrow> (bvsat_result \<times> bvsat) option" where
  "decide_loop s =
     (let v = sat_decide_var s in
      if v = 0 then Some (BV_SAT_SAT, s)
      else
        (case conflict_loop (sat_decide s v) of
           None \<Rightarrow> None
         | Some r \<Rightarrow>
             (case fst r of
                Some verdict \<Rightarrow> Some (verdict, snd r)
              | None \<Rightarrow> decide_loop (snd r))))"

declare decide_loop.simps [code]

text \<open>Level 0: the fixed point of unit scans and propagation.\<close>

fun scan_units :: "bvsat \<Rightarrow> int list list \<Rightarrow> bool \<Rightarrow> bool \<times> bool \<times> bvsat" where
  "scan_units s [] progressed = (False, progressed, s)"
| "scan_units s (c # cs) progressed =
     (case scan_clause s c 0 0 of (sat, un, ul) \<Rightarrow>
        if sat then scan_units s cs progressed
        else if un = 0 then (True, progressed, s)
        else if un = 1 then scan_units (trail_push s ul 0) cs True
        else scan_units s cs progressed)"

partial_function (option) level0_loop :: "bvsat \<Rightarrow> (bool \<times> bvsat) option" where
  "level0_loop s =
     (let r = scan_units s (cl s) False in
      if fst r then Some (True, snd (snd r))
      else if \<not> fst (snd r) then Some (False, snd (snd r))
      else
        (case sat_propagate ((snd (snd r))\<lparr>q_head := 0\<rparr>) of
           None \<Rightarrow> None
         | Some r' \<Rightarrow> if fst r' then Some (True, snd r') else level0_loop (snd r')))"

declare level0_loop.simps [code]

definition bv_sat_solve :: "bvsat \<Rightarrow> (bvsat_result \<times> bvsat) option" where
  "bv_sat_solve s =
     (case level0_loop (s\<lparr>q_head := 0\<rparr>) of
        None \<Rightarrow> None
      | Some (conflict, s1) \<Rightarrow>
          if conflict then Some (BV_SAT_UNSAT, s1)
          else
            (case sat_propagate s1 of
               None \<Rightarrow> None
             | Some (conflict2, s2) \<Rightarrow>
                 if conflict2 then Some (BV_SAT_UNSAT, s2) else decide_loop s2))"

definition bv_sat_var_value :: "bvsat \<Rightarrow> nat \<Rightarrow> bool" where
  "bv_sat_var_value s v = (if v \<le> 0 \<or> v > n_vars s then False else assign s v > 0)"

definition bv_sat_reset :: "bvsat \<Rightarrow> bvsat" where
  "bv_sat_reset s =
     s\<lparr>assign := fold (\<lambda>l f. f(lit_var l := 0)) (trail s) (assign s),
       reason := fold (\<lambda>l f. f(lit_var l := 0)) (trail s) (reason s),
       trail := [], trail_lim := [], flipped := [], q_head := 0, conflicts := 0\<rparr>"

end
