(* ===== verification/Ast.thy ===== *)
theory Ast
  imports Prelude
begin

text \<open>
  The abstract syntax of the Baga compiler (\<open>include/baga.h\<close>): operators,
  the tagged union \<open>struct Node\<close>, and the shift helpers whose masked-count
  semantics both backends and the verifier share.
  A child pointer that may be NULL is an \<open>option\<close>; a \<open>NodeVec\<close> is a list.
  The checker's \<open>type\<close> slot and the source position of a node are not part of
  this model: no modelled operation reads them.
\<close>

section \<open>Operators\<close>

datatype binop =
    OP_ADD | OP_SUB | OP_MUL | OP_DIV | OP_MOD
  | OP_EQ | OP_NEQ | OP_LT | OP_GT | OP_LE | OP_GE
  | OP_AND | OP_OR
  | OP_BIT_AND | OP_BIT_OR | OP_BIT_XOR
  | OP_LSHIFT | OP_RSHIFT | OP_URSHIFT

datatype unop = UOP_NEG | UOP_NOT | UOP_REF | UOP_DEREF

section \<open>Nodes\<close>

text \<open>
  \<open>struct Node\<close> is one tagged union; the model splits its kinds by the places
  the grammar lets them stand in: type expressions, expressions and statements,
  and declarations. The constructors keep the names of the \<open>NodeKind\<close> values,
  in the order of the enumeration, with the fields of their member of the
  union. \<open>NODE_CALL\<close> carries the address of its node, because the verifier
  compares call nodes by pointer. A float literal is kept as the bit pattern
  of its double.
\<close>

datatype (plugins only: code size) tnode =
    NODE_TYPE string "tnode option" "tnode option" "tnode list"
  | NODE_TYPE_REF tnode
  | NODE_TYPE_ARRAY tnode
  | NODE_TYPE_EFFECT tnode "(string \<times> tnode option) list"
  | NODE_TYPE_FN "tnode list" tnode

type_synonym param = "string \<times> tnode option"

datatype (plugins only: code size) node =
    NODE_INT_LIT i64
  | NODE_FLOAT_LIT "64 word"
  | NODE_STR_LIT string
  | NODE_BYTES_LIT string
  | NODE_BOOL_LIT bool
  | NODE_IDENT string
  | NODE_PATH string string
  | NODE_BINARY binop node node
  | NODE_UNARY unop node
  | NODE_CALL nat node "node list" "tnode list"
  | NODE_IF node node "node option"
  | NODE_BLOCK "node list"
  | NODE_INDEX node node
  | NODE_ELEM_REF node
  | NODE_FIELD node string
  | NODE_ASSIGN node node
  | NODE_RANGE node node
  | NODE_STRUCT_LIT string "(string \<times> node) list" "tnode list"
  | NODE_TRY node
  | NODE_CATCH node string node "string option"
  | NODE_RAISE string "node option"
  | NODE_TO_STR node
  | NODE_LAMBDA "string list" "param list" "tnode option" node
  | NODE_LET string bool "tnode option" "node option"
  | NODE_RETURN "node option"
  | NODE_WHILE node node "node list"
  | NODE_FOR string node node
  | NODE_MATCH node "(node option \<times> string option \<times> node) list"
  | NODE_BREAK
  | NODE_CONTINUE
  | NODE_EXPR_STMT node
  | NODE_INVARIANT "node list"

text \<open>
  The declarations the modelled code reads: a function (\<open>NODE_FN\<close>) and its
  specification (\<open>NODE_SPEC\<close>), whose \<open>NODE_ENSURE\<close> items are pairs of the
  source text and the expression.
\<close>

record fn_decl =
  fn_name :: string
  params :: "param list"
  ret_type :: "tnode option"
  fn_body :: "node option"
  is_extern :: bool

record spec_decl =
  spec_name :: string
  spec_inputs :: "param list"
  spec_output :: "tnode option"
  spec_guarantees :: "string list"
  spec_ensures :: "(string \<times> node) list"
  spec_requires :: "(string \<times> node) list"
  spec_decreases :: "node option"

text \<open>
  The statement list of a block: the code reads \<open>n->stmts\<close> of a node it knows
  to be a \<open>NODE_BLOCK\<close> (the parser builds branches and bodies with
  \<open>parse_block\<close> only).
\<close>

fun node_stmts :: "node \<Rightarrow> node list" where
  "node_stmts (NODE_BLOCK ss) = ss"
| "node_stmts s = [s]"

lemma size_node_stmts:
  "2 * size s + 2 \<le> k \<Longrightarrow> 2 * size_list size (node_stmts s) \<le> k"
  by (cases s) auto

section \<open>Shifts with a masked count\<close>

text \<open>
  \<open>baga_ashr_i64\<close> assembles the arithmetic shift from two logical ones, since
  C's \<open>>>\<close> on a negative value is implementation-defined.
\<close>

definition baga_ashr_i64 :: "i64 \<Rightarrow> i64 \<Rightarrow> i64" where
  "baga_ashr_i64 a b =
     (let m = b AND 63 in
      if m = 0 then a
      else
        let u = a;
            s = (if sint a < 0 then NOT 0 else 0)
        in drop_bit (unat m) u OR push_bit (64 - unat m) s)"

definition baga_shl_i64 :: "i64 \<Rightarrow> i64 \<Rightarrow> i64" where
  "baga_shl_i64 a b = push_bit (unat (b AND 63)) a"

definition baga_lshr_i64 :: "i64 \<Rightarrow> i64 \<Rightarrow> i64" where
  "baga_lshr_i64 a b = drop_bit (unat (b AND 63)) a"

text \<open>The assembled shift is the arithmetic shift by the masked count.\<close>

lemma bit_63_iff_sint_neg: "bit (a :: i64) 63 \<longleftrightarrow> sint a < 0"
  using bit_last_iff [of a] by simp

lemma baga_ashr_i64_eq:
  "baga_ashr_i64 a b = signed_drop_bit (unat (b AND 63)) a"
proof (cases "b AND 63 = 0")
  case True
  then show ?thesis by (simp add: baga_ashr_i64_def)
next
  case False
  let ?m = "unat (b AND 63)"
  have m: "0 < ?m" "?m < 64"
    using False by (simp_all add: unat_gt_0 and_63_less)
  have "drop_bit ?m a OR push_bit (64 - ?m) (if sint a < 0 then NOT 0 else 0)
      = signed_drop_bit ?m a"
  proof (rule bit_eqI)
    fix n assume "possible_bit TYPE(i64) n"
    then have n: "n < 64" by simp
    show "bit (drop_bit ?m a OR push_bit (64 - ?m) (if sint a < 0 then NOT 0 else 0)) n
        = bit (signed_drop_bit ?m a) n"
      using n m bit_63_iff_sint_neg [of a]
      by (auto simp: bit_or_iff bit_drop_bit_eq bit_push_bit_iff bit_signed_drop_bit_iff
          bit_not_iff dest: bit_imp_le_length)
  qed
  with False show ?thesis by (simp add: baga_ashr_i64_def)
qed

end
