(* ===== verification/Interp.thy ===== *)
theory Interp
  imports Ast "HOL-Library.Signed_Division"
begin

text \<open>
  The direct interpreter of the verifier (\<open>eval_i64\<close>, \<open>eval_bool\<close> of
  \<open>src/verify_obl.c\<close>, \<open>bv_interp\<close> of \<open>src/verify_bv.c\<close>), which re-checks
  every counterexample before it is reported, and the type test the
  verifier uses to find its scalar parameters.

  Signed overflow of \<open>+\<close>, \<open>-\<close>, \<open>*\<close> is modelled as wrap-around, \<open>>>\<close> of a
  negative value as the arithmetic shift; the quotient is C's truncated one.
\<close>

section \<open>Types\<close>

fun unwrap_type :: "tnode option \<Rightarrow> tnode option" where
  "unwrap_type (Some (NODE_TYPE_EFFECT t effs)) = unwrap_type (Some t)"
| "unwrap_type t = t"

definition type_is_i64 :: "tnode option \<Rightarrow> bool" where
  "type_is_i64 t =
     (case unwrap_type t of Some (NODE_TYPE n _ _ _) \<Rightarrow> n = ''i64'' | _ \<Rightarrow> False)"

section \<open>Environments\<close>

type_synonym ienv = "(string \<times> i64) list"

text \<open>The C functions return a value and an \<open>ok\<close> flag; the model returns the pair.\<close>

definition ienv_get :: "ienv \<Rightarrow> string \<Rightarrow> bool \<times> i64" where
  "ienv_get e name = (case map_of e name of Some v \<Rightarrow> (True, v) | None \<Rightarrow> (False, 0))"

definition ienv_bind_local :: "ienv \<Rightarrow> string \<Rightarrow> i64 \<Rightarrow> ienv" where
  "ienv_bind_local env name val = alist_put env name val"

section \<open>Expressions\<close>

definition is_cmp :: "binop \<Rightarrow> bool" where
  "is_cmp op = (op = OP_LT \<or> op = OP_LE \<or> op = OP_GT \<or> op = OP_GE)"

definition i64_sdiv :: "i64 \<Rightarrow> i64 \<Rightarrow> i64" where
  "i64_sdiv l r = word_of_int (sint l sdiv sint r)"

definition i64_smod :: "i64 \<Rightarrow> i64 \<Rightarrow> i64" where
  "i64_smod l r = word_of_int (sint l smod sint r)"

definition eval_binop :: "binop \<Rightarrow> i64 \<Rightarrow> i64 \<Rightarrow> bool \<times> i64" where
  "eval_binop op l r =
     (case op of
        OP_ADD \<Rightarrow> (True, l + r)
      | OP_SUB \<Rightarrow> (True, l - r)
      | OP_MUL \<Rightarrow> (True, l * r)
      | OP_DIV \<Rightarrow> if r = 0 then (False, 0) else (True, i64_sdiv l r)
      | OP_MOD \<Rightarrow> if r = 0 then (False, 0) else (True, i64_smod l r)
      | OP_BIT_AND \<Rightarrow> (True, l AND r)
      | OP_BIT_OR \<Rightarrow> (True, l OR r)
      | OP_BIT_XOR \<Rightarrow> (True, l XOR r)
      | OP_LSHIFT \<Rightarrow> (True, push_bit (unat (r AND 63)) l)
      | OP_RSHIFT \<Rightarrow> (True, signed_drop_bit (unat (r AND 63)) l)
      | OP_URSHIFT \<Rightarrow> (True, drop_bit (unat (r AND 63)) l)
      | _ \<Rightarrow> (False, 0))"

definition eval_cmp :: "binop \<Rightarrow> i64 \<Rightarrow> i64 \<Rightarrow> bool" where
  "eval_cmp op l r =
     (case op of
        OP_LT \<Rightarrow> sint l < sint r
      | OP_LE \<Rightarrow> sint l \<le> sint r
      | OP_GT \<Rightarrow> sint l > sint r
      | OP_GE \<Rightarrow> sint l \<ge> sint r
      | OP_EQ \<Rightarrow> l = r
      | OP_NEQ \<Rightarrow> l \<noteq> r
      | _ \<Rightarrow> False)"

text \<open>
  Unary minus is written \<open>return -*ok ? 0 : -v;\<close>, which C reads as
  \<open>(-*ok) ? 0 : -v\<close>: 0 whenever the operand evaluates.
\<close>

fun eval_i64 :: "node \<Rightarrow> ienv \<Rightarrow> bool \<times> i64"
  and eval_bool :: "node \<Rightarrow> ienv \<Rightarrow> bool" where
  "eval_i64 (NODE_INT_LIT n) env = (True, n)"
| "eval_i64 (NODE_IDENT x) env = ienv_get env x"
| "eval_i64 (NODE_UNARY op e) env =
     (if op = UOP_NEG then
        (case eval_i64 e env of (ok, v) \<Rightarrow> (ok, if ok then 0 else - v))
      else if op = UOP_NOT then (True, if eval_bool e env then 0 else 1)
      else (False, 0))"
| "eval_i64 (NODE_BINARY op a b) env =
     (case eval_i64 a env of (lo, l) \<Rightarrow>
      case eval_i64 b env of (ro, r) \<Rightarrow>
        if \<not> lo \<or> \<not> ro then (False, 0) else eval_binop op l r)"
| "eval_i64 _ env = (False, 0)"
| "eval_bool (NODE_BOOL_LIT b) env = b"
| "eval_bool (NODE_UNARY op e) env = (if op = UOP_NOT then \<not> eval_bool e env else False)"
| "eval_bool (NODE_BINARY op a b) env =
     (if is_cmp op \<or> op = OP_EQ \<or> op = OP_NEQ then
        (case eval_i64 a env of (lo, l) \<Rightarrow>
         case eval_i64 b env of (ro, r) \<Rightarrow>
           if \<not> lo \<or> \<not> ro then False else eval_cmp op l r)
      else if op = OP_AND then eval_bool a env \<and> eval_bool b env
      else if op = OP_OR then eval_bool a env \<or> eval_bool b env
      else False)"
| "eval_bool _ env = False"

section \<open>Statements\<close>

text \<open>
  \<open>bv_interp\<close> returns 0 for a statement outside the fragment (\<open>None\<close>); else
  the environment and the returned value, if a \<open>return\<close> was reached.
\<close>

function (sequential) bv_interp_stmt :: "node \<Rightarrow> ienv \<Rightarrow> (ienv \<times> i64 option) option"
  and bv_interp :: "node list \<Rightarrow> ienv \<Rightarrow> (ienv \<times> i64 option) option" where
  "bv_interp_stmt (NODE_BLOCK ss) env = bv_interp ss env"
| "bv_interp_stmt (NODE_LET x m t init) env =
     (case (case init of Some e \<Rightarrow> eval_i64 e env | None \<Rightarrow> (True, 0)) of (ok, v) \<Rightarrow>
        if \<not> ok then None else Some (ienv_bind_local env x v, None))"
| "bv_interp_stmt (NODE_ASSIGN tgt val) env =
     (case tgt of
        NODE_IDENT x \<Rightarrow>
          (case eval_i64 val env of (ok, v) \<Rightarrow>
             if \<not> ok then None else Some (ienv_bind_local env x v, None))
      | _ \<Rightarrow> None)"
| "bv_interp_stmt (NODE_IF c th el) env =
     (if eval_bool c env then bv_interp (node_stmts th) env
      else (case el of None \<Rightarrow> Some (env, None) | Some b \<Rightarrow> bv_interp (node_stmts b) env))"
| "bv_interp_stmt (NODE_RETURN val) env =
     (case (case val of Some e \<Rightarrow> eval_i64 e env | None \<Rightarrow> (True, 0)) of (ok, v) \<Rightarrow>
        if val \<noteq> None \<and> \<not> ok then None else Some (env, Some v))"
| "bv_interp_stmt _ env = None"
| "bv_interp [] env = Some (env, None)"
| "bv_interp (s # ss) env =
     (case bv_interp_stmt s env of
        None \<Rightarrow> None
      | Some (env', ret) \<Rightarrow> if ret \<noteq> None then Some (env', ret) else bv_interp ss env')"
  by pat_completeness auto
termination
  by (relation "measure (\<lambda>x. case x of Inl (s, env) \<Rightarrow> Suc (2 * size s)
        | Inr (ss, env) \<Rightarrow> 2 * size_list size ss)")
    (auto simp: less_Suc_eq_le intro: size_node_stmts)

end
