(* ===== verification/Bv.thy ===== *)
theory Bv
  imports BvSat Interp
begin

text \<open>
  The bit-vector oracle (\<open>src/verify_bv.c\<close>): Tseytin gates with structural
  collapsing, 64-bit words of literals, the translation of expressions and of
  straight-line statements, and \<open>bv_verify_ensures\<close>, which decides one
  \<open>ensures\<close> clause with the SAT solver and re-checks a counterexample with the
  direct interpreter.

  C leaves the order in which the arguments of a call are evaluated open; the
  model evaluates them from left to right, which fixes the numbering of the
  SAT variables and nothing else. The operand table of the gates is a function
  of the gate's variable (kind 0: not recorded).
\<close>

section \<open>Context\<close>

definition BV_T :: int where "BV_T = 1"
definition BV_F :: int where "BV_F = 2"
definition BV_VAR_BUDGET :: nat where "BV_VAR_BUDGET = 40000"
definition BV_GATE_BUDGET :: int where "BV_GATE_BUDGET = 60000"

text \<open>
  A word: 64 literals, the least significant first. The last field of the
  context, \<open>mux_true\<close>, is a ghost the code does not have and nothing reads:
  \<open>g_ite\<close> sets it when it takes one of its two branches for a constant-true
  arm, whose disjunctions have the polarity of the selector the wrong way
  round (\<open>BvProps.true_arm_mux_unsound\<close>).
\<close>

type_synonym bvword = "int list"

record bvctx =
  sat :: bvsat
  gates :: int
  failed :: bool
  env :: "(string \<times> bvword) list"
  ret :: bvword
  ret_cond :: int
  has_ret :: bool
  pc :: int
  op_kind :: "int \<Rightarrow> nat"
  op_a :: "int \<Rightarrow> int"
  op_b :: "int \<Rightarrow> int"
  mux_true :: bool

definition bv_bad :: bvword where "bv_bad = replicate 64 0"

definition bv_ctx_init :: bvctx where
  "bv_ctx_init =
     \<lparr>sat = bv_sat_init 0, gates = 0, failed = False, env = [], ret = bv_bad,
      ret_cond = BV_F, has_ret = False, pc = BV_T,
      op_kind = (\<lambda>_. 0), op_a = (\<lambda>_. 0), op_b = (\<lambda>_. 0), mux_true = False\<rparr>"

definition bv_fail :: "bvctx \<Rightarrow> bvctx" where
  "bv_fail c = c\<lparr>failed := True\<rparr>"

definition bv_add_clause :: "bvctx \<Rightarrow> int list \<Rightarrow> bvctx" where
  "bv_add_clause c lits = c\<lparr>sat := bv_sat_add_clause (sat c) lits\<rparr>"

definition bv_assert_lit :: "bvctx \<Rightarrow> int \<Rightarrow> bvctx" where
  "bv_assert_lit c lit = bv_add_clause c [lit]"

definition bv_new_var :: "bvctx \<Rightarrow> int \<times> bvctx" where
  "bv_new_var c =
     (case bv_sat_new_var (sat c) of (v, s) \<Rightarrow> (int v, c\<lparr>sat := s\<rparr>))"

definition op_record :: "bvctx \<Rightarrow> int \<Rightarrow> nat \<Rightarrow> int \<Rightarrow> int \<Rightarrow> bvctx" where
  "op_record c g kind a b =
     c\<lparr>op_kind := (op_kind c)(g := kind), op_a := (op_a c)(g := a), op_b := (op_b c)(g := b)\<rparr>"

definition op_match :: "bvctx \<Rightarrow> int \<Rightarrow> nat \<Rightarrow> int \<Rightarrow> int" where
  "op_match c a kind b =
     (if a \<le> 0 \<or> op_kind c a \<noteq> kind then 0
      else if op_a c a = b then op_b c a
      else if op_b c a = b then op_a c a
      else 0)"

definition bv_env_bind :: "bvctx \<Rightarrow> string \<Rightarrow> bvword \<Rightarrow> bvctx" where
  "bv_env_bind c name w = c\<lparr>env := alist_put (env c) name w\<rparr>"

definition bv_env_find :: "bvctx \<Rightarrow> string \<Rightarrow> bvword option" where
  "bv_env_find c name = map_of (env c) name"

section \<open>Gates\<close>

definition bv_budget_ok :: "bvctx \<Rightarrow> int \<Rightarrow> bool \<times> bvctx" where
  "bv_budget_ok c add =
     (if failed c then (False, c)
      else
        let c1 = c\<lparr>gates := gates c + add\<rparr> in
        if gates c1 > BV_GATE_BUDGET \<or> n_vars (sat c1) > BV_VAR_BUDGET
        then (False, bv_fail c1) else (True, c1))"

definition g_not :: "int \<Rightarrow> int" where
  "g_not a = - a"

definition g_and :: "bvctx \<Rightarrow> int \<Rightarrow> int \<Rightarrow> int \<times> bvctx" where
  "g_and c a b =
     (if failed c then (BV_F, c)
      else if a = BV_F \<or> b = BV_F then (BV_F, c)
      else if a = BV_T then (b, c)
      else if b = BV_T then (a, c)
      else if a = b then (a, c)
      else if a = - b then (BV_F, c)
      else if op_match c a 2 b \<noteq> 0 then (b, c)
      else if op_match c b 2 a \<noteq> 0 then (a, c)
      else
        (case bv_budget_ok c 1 of (ok, c1) \<Rightarrow>
           if \<not> ok then (BV_F, c1)
           else
             (case bv_new_var c1 of (g, c2) \<Rightarrow>
                let c3 = bv_add_clause c2 [- g, a];
                    c4 = bv_add_clause c3 [- g, b];
                    c5 = bv_add_clause c4 [g, - a, - b]
                in (g, op_record c5 g 1 a b))))"

definition g_or :: "bvctx \<Rightarrow> int \<Rightarrow> int \<Rightarrow> int \<times> bvctx" where
  "g_or c a b =
     (if failed c then (BV_F, c)
      else if a = BV_T \<or> b = BV_T then (BV_T, c)
      else if a = BV_F then (b, c)
      else if b = BV_F then (a, c)
      else if a = b then (a, c)
      else if a = - b then (BV_T, c)
      else if op_match c a 1 b \<noteq> 0 then (b, c)
      else if op_match c b 1 a \<noteq> 0 then (a, c)
      else
        (case bv_budget_ok c 1 of (ok, c1) \<Rightarrow>
           if \<not> ok then (BV_F, c1)
           else
             (case bv_new_var c1 of (g, c2) \<Rightarrow>
                let c3 = bv_add_clause c2 [g, - a];
                    c4 = bv_add_clause c3 [g, - b];
                    c5 = bv_add_clause c4 [- g, a, b]
                in (g, op_record c5 g 2 a b))))"

definition g_xor :: "bvctx \<Rightarrow> int \<Rightarrow> int \<Rightarrow> int \<times> bvctx" where
  "g_xor c a b =
     (if failed c then (BV_F, c)
      else if a = BV_F then (b, c)
      else if b = BV_F then (a, c)
      else if a = BV_T then (g_not b, c)
      else if b = BV_T then (g_not a, c)
      else if a = b then (BV_F, c)
      else if a = - b then (BV_T, c)
      else if op_match c a 3 b \<noteq> 0 then (op_match c a 3 b, c)
      else if op_match c b 3 a \<noteq> 0 then (op_match c b 3 a, c)
      else
        (case bv_budget_ok c 1 of (ok, c1) \<Rightarrow>
           if \<not> ok then (BV_F, c1)
           else
             (case bv_new_var c1 of (g, c2) \<Rightarrow>
                let c3 = bv_add_clause c2 [- g, - a, - b];
                    c4 = bv_add_clause c3 [- g, a, b];
                    c5 = bv_add_clause c4 [g, - a, b];
                    c6 = bv_add_clause c5 [g, a, - b]
                in (g, op_record c6 g 3 a b))))"

definition g_ite :: "bvctx \<Rightarrow> int \<Rightarrow> int \<Rightarrow> int \<Rightarrow> int \<times> bvctx" where
  "g_ite c s a b =
     (if failed c then (BV_F, c)
      else if s = BV_T then (a, c)
      else if s = BV_F then (b, c)
      else if a = b then (a, c)
      else if a = BV_F then g_and c (- s) b
      else if b = BV_F then g_and c s a
      else if a = BV_T then g_or (c\<lparr>mux_true := True\<rparr>) (- s) b
      else if b = BV_T then g_or (c\<lparr>mux_true := True\<rparr>) s a
      else
        (case bv_budget_ok c 1 of (ok, c1) \<Rightarrow>
           if \<not> ok then (BV_F, c1)
           else
             (case bv_new_var c1 of (g, c2) \<Rightarrow>
                let c3 = bv_add_clause c2 [- s, - g, a];
                    c4 = bv_add_clause c3 [- s, g, - a];
                    c5 = bv_add_clause c4 [s, - g, b];
                    c6 = bv_add_clause c5 [s, g, - b]
                in (g, c6))))"

section \<open>Words\<close>

definition w_const :: "i64 \<Rightarrow> bvword" where
  "w_const v = map (\<lambda>i. if bit v i then BV_T else BV_F) [0 ..< 64]"

text \<open>The loop of \<open>w_fresh\<close> counts down: the most significant bit comes first.\<close>

fun fresh_bits :: "nat \<Rightarrow> bvctx \<Rightarrow> bvword \<Rightarrow> bvword \<times> bvctx" where
  "fresh_bits 0 c w = (w, c)"
| "fresh_bits (Suc k) c w = (case bv_new_var c of (v, c1) \<Rightarrow> fresh_bits k c1 (v # w))"

definition w_fresh :: "bvctx \<Rightarrow> bvword \<times> bvctx" where
  "w_fresh c =
     (case bv_budget_ok c 64 of (ok, c1) \<Rightarrow>
        if \<not> ok then (bv_bad, c1) else fresh_bits 64 c1 [])"

text \<open>The common loop \<open>for (i = 0; i < 64; i++) r.lit[i] = g(c, a.lit[i], b.lit[i])\<close>.\<close>

fun bits2 :: "(bvctx \<Rightarrow> int \<Rightarrow> int \<Rightarrow> int \<times> bvctx) \<Rightarrow> bvctx \<Rightarrow> bvword \<Rightarrow> bvword \<Rightarrow>
    bvword \<times> bvctx" where
  "bits2 g c (a # as) (b # bs) =
     (case g c a b of (r, c1) \<Rightarrow>
      case bits2 g c1 as bs of (rs, c2) \<Rightarrow> (r # rs, c2))"
| "bits2 g c _ _ = ([], c)"

definition w_not :: "bvword \<Rightarrow> bvword" where
  "w_not a = map g_not a"

definition w_and :: "bvctx \<Rightarrow> bvword \<Rightarrow> bvword \<Rightarrow> bvword \<times> bvctx" where
  "w_and c a b = bits2 g_and c a b"

definition w_or :: "bvctx \<Rightarrow> bvword \<Rightarrow> bvword \<Rightarrow> bvword \<times> bvctx" where
  "w_or c a b = bits2 g_or c a b"

definition w_xor :: "bvctx \<Rightarrow> bvword \<Rightarrow> bvword \<Rightarrow> bvword \<times> bvctx" where
  "w_xor c a b = bits2 g_xor c a b"

definition w_ite :: "bvctx \<Rightarrow> int \<Rightarrow> bvword \<Rightarrow> bvword \<Rightarrow> bvword \<times> bvctx" where
  "w_ite c s a b = bits2 (\<lambda>c x y. g_ite c s x y) c a b"

definition add_bit :: "bvctx \<Rightarrow> int \<Rightarrow> int \<Rightarrow> int \<Rightarrow> int \<times> int \<times> bvctx" where
  "add_bit c a b carry =
     (case g_xor c a b of (x, c1) \<Rightarrow>
      case g_xor c1 x carry of (r, c2) \<Rightarrow>
      case g_and c2 a b of (p, c3) \<Rightarrow>
      case g_and c3 x carry of (q, c4) \<Rightarrow>
      case g_or c4 p q of (carry', c5) \<Rightarrow> (r, carry', c5))"

fun add_bits :: "bvctx \<Rightarrow> bvword \<Rightarrow> bvword \<Rightarrow> int \<Rightarrow> bvword \<times> bvctx" where
  "add_bits c (a # as) (b # bs) carry =
     (case add_bit c a b carry of (r, carry', c1) \<Rightarrow>
      case add_bits c1 as bs carry' of (rs, c2) \<Rightarrow> (r # rs, c2))"
| "add_bits c _ _ carry = ([], c)"

definition w_add :: "bvctx \<Rightarrow> bvword \<Rightarrow> bvword \<Rightarrow> int \<Rightarrow> bvword \<times> bvctx" where
  "w_add c a b cin = add_bits c a b cin"

definition w_sub :: "bvctx \<Rightarrow> bvword \<Rightarrow> bvword \<Rightarrow> bvword \<times> bvctx" where
  "w_sub c a b = w_add c a (w_not b) BV_T"

definition w_neg :: "bvctx \<Rightarrow> bvword \<Rightarrow> bvword \<times> bvctx" where
  "w_neg c a = w_sub c (w_const 0) a"

fun eq_bits :: "bvctx \<Rightarrow> bvword \<Rightarrow> bvword \<Rightarrow> int \<Rightarrow> int \<times> bvctx" where
  "eq_bits c (a # as) (b # bs) e =
     (case g_xor c a b of (x, c1) \<Rightarrow>
      case g_and c1 e (g_not x) of (e', c2) \<Rightarrow> eq_bits c2 as bs e')"
| "eq_bits c _ _ e = (e, c)"

definition w_eq_lit :: "bvctx \<Rightarrow> bvword \<Rightarrow> bvword \<Rightarrow> int \<times> bvctx" where
  "w_eq_lit c a b = eq_bits c a b BV_T"

definition w_slt_lit :: "bvctx \<Rightarrow> bvword \<Rightarrow> bvword \<Rightarrow> int \<times> bvctx" where
  "w_slt_lit c a b =
     (case w_sub c a b of (d, c1) \<Rightarrow>
        let sign = d ! 63 in
        case g_xor c1 (a ! 63) (b ! 63) of (x, c2) \<Rightarrow>
        case g_xor c2 (d ! 63) (a ! 63) of (y, c3) \<Rightarrow>
        case g_and c3 x y of (ovf, c4) \<Rightarrow>
        g_xor c4 sign ovf)"

definition w_shlc :: "bvword \<Rightarrow> nat \<Rightarrow> bvword" where
  "w_shlc a k0 =
     (let k = k0 mod 64 in map (\<lambda>i. if i \<ge> k then a ! (i - k) else BV_F) [0 ..< 64])"

definition w_ashrc :: "bvword \<Rightarrow> nat \<Rightarrow> bvword" where
  "w_ashrc a k0 =
     (let k = k0 mod 64 in map (\<lambda>i. if i + k < 64 then a ! (i + k) else a ! 63) [0 ..< 64])"

definition w_lshrc :: "bvword \<Rightarrow> nat \<Rightarrow> bvword" where
  "w_lshrc a k0 =
     (let k = k0 mod 64 in map (\<lambda>i. if i + k < 64 then a ! (i + k) else BV_F) [0 ..< 64])"

text \<open>\<open>kind\<close>: 0 for \<open><<\<close>, 1 for \<open>>>\<close>, 2 for \<open>>>>\<close>.\<close>

definition w_shiftc :: "nat \<Rightarrow> bvword \<Rightarrow> nat \<Rightarrow> bvword" where
  "w_shiftc kind a k =
     (if kind = 0 then w_shlc a k else if kind = 1 then w_ashrc a k else w_lshrc a k)"

fun shift_layers :: "bvctx \<Rightarrow> nat \<Rightarrow> bvword \<Rightarrow> nat list \<Rightarrow> bvword \<Rightarrow> bvword \<times> bvctx" where
  "shift_layers c kind m [] out = (out, c)"
| "shift_layers c kind m (j # js) out =
     (case w_ite c (m ! j) (w_shiftc kind out (2 ^ j)) out of (out', c1) \<Rightarrow>
        shift_layers c1 kind m js out')"

definition w_shift_var :: "bvctx \<Rightarrow> bvword \<Rightarrow> bvword \<Rightarrow> nat \<Rightarrow> bvword \<times> bvctx" where
  "w_shift_var c a cnt kind =
     (case w_and c cnt (w_const 63) of (m, c1) \<Rightarrow> shift_layers c1 kind m [0 ..< 6] a)"

end
