(* ===== verification/BvOracle.thy ===== *)
theory BvOracle
  imports Bv
begin

text \<open>
  The second half of \<open>src/verify_bv.c\<close>: expressions, statements, and the
  oracle \<open>bv_verify_ensures\<close>.
\<close>

section \<open>Expressions\<close>

definition w_bit0 :: "int \<Rightarrow> bvword" where
  "w_bit0 l = (w_const 0)[0 := l]"

definition w_arith :: "binop \<Rightarrow> bvctx \<Rightarrow> bvword \<Rightarrow> bvword \<Rightarrow> bvword \<times> bvctx" where
  "w_arith op c a b =
     (case op of
        OP_ADD \<Rightarrow> w_add c a b BV_F
      | OP_SUB \<Rightarrow> w_sub c a b
      | OP_BIT_AND \<Rightarrow> w_and c a b
      | OP_BIT_OR \<Rightarrow> w_or c a b
      | OP_BIT_XOR \<Rightarrow> w_xor c a b
      | _ \<Rightarrow> (bv_bad, bv_fail c))"

definition w_compare :: "binop \<Rightarrow> bvctx \<Rightarrow> bvword \<Rightarrow> bvword \<Rightarrow> int \<times> bvctx" where
  "w_compare op c a b =
     (case op of
        OP_EQ \<Rightarrow> w_eq_lit c a b
      | OP_NEQ \<Rightarrow> (case w_eq_lit c a b of (l, c1) \<Rightarrow> (g_not l, c1))
      | OP_LT \<Rightarrow> w_slt_lit c a b
      | OP_GT \<Rightarrow> w_slt_lit c b a
      | OP_LE \<Rightarrow> (case w_slt_lit c b a of (l, c1) \<Rightarrow> (g_not l, c1))
      | OP_GE \<Rightarrow> (case w_slt_lit c a b of (l, c1) \<Rightarrow> (g_not l, c1))
      | _ \<Rightarrow> (BV_F, bv_fail c))"

definition is_shift :: "binop \<Rightarrow> bool" where
  "is_shift op = (op = OP_LSHIFT \<or> op = OP_RSHIFT \<or> op = OP_URSHIFT)"

definition shift_kind :: "binop \<Rightarrow> nat" where
  "shift_kind op = (if op = OP_LSHIFT then 0 else if op = OP_RSHIFT then 1 else 2)"

fun int_lit_of :: "node \<Rightarrow> i64 option" where
  "int_lit_of (NODE_INT_LIT n) = Some n"
| "int_lit_of _ = None"

fun bv_eval_i64 :: "bvctx \<Rightarrow> node \<Rightarrow> bvword \<times> bvctx"
  and bv_eval_bool :: "bvctx \<Rightarrow> node \<Rightarrow> int \<times> bvctx" where
  "bv_eval_i64 c (NODE_INT_LIT n) =
     (if failed c then (bv_bad, c) else (w_const n, c))"
| "bv_eval_i64 c (NODE_BOOL_LIT b) =
     (if failed c then (bv_bad, c) else (w_bit0 (if b then BV_T else BV_F), c))"
| "bv_eval_i64 c (NODE_IDENT x) =
     (if failed c then (bv_bad, c)
      else (case bv_env_find c x of Some w \<Rightarrow> (w, c) | None \<Rightarrow> (bv_bad, bv_fail c)))"
| "bv_eval_i64 c (NODE_UNARY op e) =
     (if failed c then (bv_bad, c)
      else if op = UOP_NEG then (case bv_eval_i64 c e of (w, c1) \<Rightarrow> w_neg c1 w)
      else if op = UOP_NOT then (case bv_eval_bool c e of (l, c1) \<Rightarrow> (w_bit0 (g_not l), c1))
      else (bv_bad, bv_fail c))"
| "bv_eval_i64 c (NODE_BINARY op l r) =
     (if failed c then (bv_bad, c)
      else if is_shift op then
        (case bv_eval_i64 c l of (a, c1) \<Rightarrow>
           if failed c1 then (bv_bad, c1)
           else
             (case int_lit_of r of
                Some n \<Rightarrow> (w_shiftc (shift_kind op) a (unat (n AND 63)), c1)
              | None \<Rightarrow>
                  (case bv_eval_i64 c1 r of (b, c2) \<Rightarrow>
                     if failed c2 then (bv_bad, c2)
                     else w_shift_var c2 a b (shift_kind op))))
      else
        (case bv_eval_i64 c l of (a, c1) \<Rightarrow>
         case bv_eval_i64 c1 r of (b, c2) \<Rightarrow>
           if failed c2 then (bv_bad, c2) else w_arith op c2 a b))"
| "bv_eval_i64 c _ = (if failed c then (bv_bad, c) else (bv_bad, bv_fail c))"
| "bv_eval_bool c (NODE_BOOL_LIT b) =
     (if failed c then (BV_F, c) else (if b then BV_T else BV_F, c))"
| "bv_eval_bool c (NODE_IDENT x) =
     (if failed c then (BV_F, c)
      else (case bv_env_find c x of Some w \<Rightarrow> (w ! 0, c) | None \<Rightarrow> (BV_F, bv_fail c)))"
| "bv_eval_bool c (NODE_UNARY op e) =
     (if failed c then (BV_F, c)
      else if op = UOP_NOT then (case bv_eval_bool c e of (l, c1) \<Rightarrow> (g_not l, c1))
      else (BV_F, bv_fail c))"
| "bv_eval_bool c (NODE_BINARY op l r) =
     (if failed c then (BV_F, c)
      else if op = OP_AND then
        (case bv_eval_bool c l of (a, c1) \<Rightarrow> case bv_eval_bool c1 r of (b, c2) \<Rightarrow> g_and c2 a b)
      else if op = OP_OR then
        (case bv_eval_bool c l of (a, c1) \<Rightarrow> case bv_eval_bool c1 r of (b, c2) \<Rightarrow> g_or c2 a b)
      else
        (case bv_eval_i64 c l of (a, c1) \<Rightarrow>
         case bv_eval_i64 c1 r of (b, c2) \<Rightarrow>
           if failed c2 then (BV_F, c2) else w_compare op c2 a b))"
| "bv_eval_bool c _ = (if failed c then (BV_F, c) else (BV_F, bv_fail c))"

section \<open>Statements\<close>

text \<open>
  \<open>w_ite\<close> over the values of the names bound before a conditional:
  \<open>for (i < mark) vals[i] = w_ite(cond, then_vals[i], vals[i])\<close>.
\<close>

fun merge_env :: "bvctx \<Rightarrow> int \<Rightarrow> (string \<times> bvword) list \<Rightarrow> (string \<times> bvword) list \<Rightarrow>
    (string \<times> bvword) list \<times> bvctx" where
  "merge_env c cond ((x, t) # ts) ((y, e) # es) =
     (case w_ite c cond t e of (w, c1) \<Rightarrow>
      case merge_env c1 cond ts es of (rest, c2) \<Rightarrow> ((y, w) # rest, c2))"
| "merge_env c cond _ _ = ([], c)"

text \<open>
  The conditional is split at its branches: \<open>if_else\<close> prepares the context of
  the else branch, \<open>if_merge\<close> joins both, the returned word by \<open>merge_ret\<close>.
\<close>

definition if_else :: "bvctx \<Rightarrow> int \<Rightarrow> bvctx \<Rightarrow> bvctx" where
  "if_else c0 cond ct =
     (case g_and (ct\<lparr>env := env c0\<rparr>) (pc c0) (g_not cond) of (p, c1) \<Rightarrow>
        c1\<lparr>pc := p, ret := ret c0, ret_cond := ret_cond c0, has_ret := has_ret c0\<rparr>)"

definition merge_ret :: "bvctx \<Rightarrow> int \<Rightarrow> bvctx \<Rightarrow> bvctx \<Rightarrow> bvctx" where
  "merge_ret c0 cond ct ce =
     (if has_ret ct \<or> has_ret ce then
        (case w_ite ce cond (if has_ret ct then ret ct else ret c0)
                (if has_ret ce then ret ce else ret c0) of (w, c1) \<Rightarrow>
         case g_or c1 (ret_cond ct) (ret_cond c1) of (rc, c2) \<Rightarrow>
           c2\<lparr>ret := w, ret_cond := rc, has_ret := True\<rparr>)
      else ce)"

definition if_merge :: "bvctx \<Rightarrow> int \<Rightarrow> bvctx \<Rightarrow> bvctx \<Rightarrow> bvctx" where
  "if_merge c0 cond ct ce =
     (let mark = length (env c0) in
      case merge_env ce cond (take mark (env ct)) (take mark (env ce)) of (merged, c1) \<Rightarrow>
        (merge_ret c0 cond ct (c1\<lparr>env := merged\<rparr>))\<lparr>pc := pc c0\<rparr>)"

definition bv_return :: "bvctx \<Rightarrow> bvword \<Rightarrow> bvctx" where
  "bv_return c w =
     (if \<not> has_ret c then c\<lparr>ret := w, ret_cond := pc c, has_ret := True\<rparr>
      else
        (case w_ite c (pc c) w (ret c) of (r, c1) \<Rightarrow>
         case g_or c1 (ret_cond c1) (pc c1) of (rc, c2) \<Rightarrow>
           c2\<lparr>ret := r, ret_cond := rc\<rparr>))"

definition bv_eval_opt :: "bvctx \<Rightarrow> node option \<Rightarrow> bvword \<times> bvctx" where
  "bv_eval_opt c e = (case e of Some x \<Rightarrow> bv_eval_i64 c x | None \<Rightarrow> (w_const 0, c))"

definition is_return :: "node \<Rightarrow> bool" where
  "is_return s = (case s of NODE_RETURN v \<Rightarrow> True | _ \<Rightarrow> False)"

text \<open>
  The two functions return whether the path definitely returns. \<open>bv_stmts_from\<close>
  is the loop of \<open>bv_stmts\<close> with its variable \<open>def_ret\<close>.
\<close>

function (sequential) bv_stmt :: "bvctx \<Rightarrow> node \<Rightarrow> bool \<times> bvctx"
  and bv_stmts_from :: "bool \<Rightarrow> bvctx \<Rightarrow> node list \<Rightarrow> bool \<times> bvctx" where
  "bv_stmt c (NODE_BLOCK ss) = (if failed c then (False, c) else bv_stmts_from False c ss)"
| "bv_stmt c (NODE_LET x m t init) =
     (if failed c then (False, c)
      else
        (case bv_eval_opt c init of (w, c1) \<Rightarrow>
           if failed c1 then (False, c1) else (False, bv_env_bind c1 x w)))"
| "bv_stmt c (NODE_ASSIGN tgt val) =
     (if failed c then (False, c)
      else
        (case tgt of
           NODE_IDENT x \<Rightarrow>
             if bv_env_find c x = None then (False, bv_fail c)
             else
               (case bv_eval_i64 c val of (w, c1) \<Rightarrow>
                  if failed c1 then (False, c1) else (False, bv_env_bind c1 x w))
         | _ \<Rightarrow> (False, bv_fail c)))"
| "bv_stmt c (NODE_IF cd th el) =
     (if failed c then (False, c)
      else
        (case bv_eval_bool c cd of (cond, c0) \<Rightarrow>
           if failed c0 then (False, c0)
           else
             (case g_and c0 (pc c0) cond of (p, c1) \<Rightarrow>
              case bv_stmts_from False (c1\<lparr>pc := p\<rparr>) (node_stmts th) of (then_d, ct) \<Rightarrow>
              case (case el of
                      None \<Rightarrow> (False, if_else c0 cond ct)
                    | Some b \<Rightarrow> bv_stmts_from False (if_else c0 cond ct) (node_stmts b))
                of (else_d, ce) \<Rightarrow>
                (then_d \<and> else_d, if_merge c0 cond ct ce))))"
| "bv_stmt c (NODE_RETURN val) =
     (if failed c then (False, c)
      else
        (case bv_eval_opt c val of (w, c1) \<Rightarrow>
           if failed c1 then (False, c1) else (True, bv_return c1 w)))"
| "bv_stmt c _ = (if failed c then (False, c) else (False, bv_fail c))"
| "bv_stmts_from def_ret c [] = (def_ret, c)"
| "bv_stmts_from def_ret c (s # ss) =
     (if failed c then (False, c)
      else
        (case bv_stmt c s of (r, c1) \<Rightarrow>
           if is_return s \<and> ss \<noteq> [] then (False, bv_fail c1)
           else bv_stmts_from (def_ret \<or> r) c1 ss))"
  by pat_completeness auto
termination
  by (relation "measure (\<lambda>x. case x of Inl (c, s) \<Rightarrow> Suc (2 * size s)
        | Inr (d, c, ss) \<Rightarrow> 2 * size_list size ss)")
    (auto simp: less_Suc_eq_le intro: size_node_stmts)

definition bv_stmts :: "bvctx \<Rightarrow> node list \<Rightarrow> bool \<times> bvctx" where
  "bv_stmts c ss = bv_stmts_from False c ss"

section \<open>The oracle\<close>

text \<open>The parameters become fresh words; only \<open>i64\<close> is in the fragment.\<close>

fun bv_params :: "bvctx \<Rightarrow> param list \<Rightarrow> bvctx option" where
  "bv_params c [] = Some c"
| "bv_params c ((x, t) # ps) =
     (if \<not> type_is_i64 t then None
      else
        (case w_fresh c of (w, c1) \<Rightarrow>
           if failed c1 then None else bv_params (bv_env_bind c1 x w) ps))"

fun bv_requires :: "bvctx \<Rightarrow> node list \<Rightarrow> bvctx option" where
  "bv_requires c [] = Some c"
| "bv_requires c (r # rs) =
     (case bv_eval_bool c r of (lit, c1) \<Rightarrow>
        if failed c1 then None else bv_requires (bv_assert_lit c1 lit) rs)"

text \<open>
  The restarts through the phase modes, while the verdict is undecided. The
  loop is generic in the solver it drives (\<open>BvSound\<close> states what it needs).
\<close>

fun solve_modes ::
  "('s \<Rightarrow> (bvsat_result \<times> 's) option) \<Rightarrow> ('s \<Rightarrow> 's) \<Rightarrow> (nat \<Rightarrow> 's \<Rightarrow> 's) \<Rightarrow>
   nat list \<Rightarrow> bvsat_result \<Rightarrow> 's \<Rightarrow> (bvsat_result \<times> 's) option" where
  "solve_modes solve reset set_mode [] r s = Some (r, s)"
| "solve_modes solve reset set_mode (mode # modes) r s =
     (if r \<noteq> BV_SAT_UNDECIDED then Some (r, s)
      else
        let s1 = (if mode \<noteq> 0 then reset s else s) in
        case solve (set_mode mode s1) of
          None \<Rightarrow> None
        | Some (r', s2) \<Rightarrow> solve_modes solve reset set_mode modes r' s2)"

definition bv_set_mode :: "nat \<Rightarrow> bvsat \<Rightarrow> bvsat" where
  "bv_set_mode mode s = s\<lparr>phase_mode := mode, cdcl := True\<rparr>"

definition bv_solve_modes :: "bvsat \<Rightarrow> (bvsat_result \<times> bvsat) option" where
  "bv_solve_modes s =
     solve_modes bv_sat_solve bv_sat_reset bv_set_mode [0, 1, 2] BV_SAT_UNDECIDED s"

definition bv_word_value :: "bvsat \<Rightarrow> bvword \<Rightarrow> i64" where
  "bv_word_value s w =
     fold (\<lambda>b u. if bv_sat_var_value s (nat (w ! b)) then u OR push_bit b 1 else u) [0 ..< 64] 0"

definition bv_witness :: "bvctx \<Rightarrow> bvsat \<Rightarrow> param list \<Rightarrow> (string \<times> i64) list" where
  "bv_witness c s ps =
     map (\<lambda>(x, t). (x, bv_word_value s (the (bv_env_find c x)))) ps"

text \<open>The re-check of a model: run the body and look at the clauses.\<close>

definition bv_recheck :: "node list \<Rightarrow> node list \<Rightarrow> node \<Rightarrow> (string \<times> i64) list \<Rightarrow> bool" where
  "bv_recheck body reqs ens wit =
     (let ienv0 = fold (\<lambda>(x, v) e. ienv_bind_local e x v) wit [] in
      case bv_interp body ienv0 of
        Some (e, Some r) \<Rightarrow>
          let e1 = ienv_bind_local e ''output'' r
          in (\<forall>q \<in> set reqs. eval_bool q e1) \<and> \<not> eval_bool ens e1
      | _ \<Rightarrow> False)"

text \<open>
  The context before solving: \<open>None\<close> is one of the early exits with verdict 0.
\<close>

definition bv_goal :: "fn_decl \<Rightarrow> spec_decl \<Rightarrow> nat \<Rightarrow> bvctx option" where
  "bv_goal fn spec ens_idx =
     (if ens_idx \<ge> length (spec_ensures spec) then None
      else
        (case fn_body fn of
           None \<Rightarrow> None
         | Some body \<Rightarrow>
             (case bv_new_var bv_ctx_init of (t, c1) \<Rightarrow>
              case bv_new_var c1 of (f, c2) \<Rightarrow>
                if t \<noteq> BV_T \<or> f \<noteq> BV_F then None
                else
                  (case bv_params (bv_assert_lit (bv_assert_lit c2 BV_T) (- BV_F)) (params fn) of
                     None \<Rightarrow> None
                   | Some c3 \<Rightarrow>
                       (case bv_requires c3 (map snd (spec_requires spec)) of
                          None \<Rightarrow> None
                        | Some c4 \<Rightarrow>
                            (case bv_stmts c4 (node_stmts body) of (dret, c5) \<Rightarrow>
                               if failed c5 \<or> \<not> has_ret c5 \<or> \<not> dret then None
                               else
                                 (case bv_eval_bool (bv_env_bind c5 ''output'' (ret c5))
                                         (snd (spec_ensures spec ! ens_idx)) of (elit, c6) \<Rightarrow>
                                    if failed c6 then None
                                    else Some (bv_assert_lit c6 (g_not elit)))))))))"

text \<open>
  The verdict: 0 unknown, 1 proven, 2 refuted with a re-checked witness.
  \<open>None\<close> would be a search that does not return.
\<close>

definition bv_verify_ensures ::
  "fn_decl \<Rightarrow> spec_decl \<Rightarrow> nat \<Rightarrow> (nat \<times> (string \<times> i64) list) option" where
  "bv_verify_ensures fn spec ens_idx =
     (case bv_goal fn spec ens_idx of
        None \<Rightarrow> Some (0, [])
      | Some c \<Rightarrow>
          (case bv_solve_modes (sat c) of
             None \<Rightarrow> None
           | Some (BV_SAT_UNDECIDED, s) \<Rightarrow> Some (0, [])
           | Some (BV_SAT_UNSAT, s) \<Rightarrow> Some (1, [])
           | Some (BV_SAT_SAT, s) \<Rightarrow>
               let wit = bv_witness c s (params fn) in
               if bv_recheck (node_stmts (the (fn_body fn))) (map snd (spec_requires spec))
                    (snd (spec_ensures spec ! ens_idx)) wit
               then Some (2, wit) else Some (0, [])))"

end
