(* ===== verification/BvSatInv.thy ===== *)
theory BvSatInv
  imports BvSat
begin

text \<open>
  The invariant of the SAT solver and the facts its operations share: the
  propositional meaning of clauses, what a trail, a level and a recorded
  reason stand for, and the effect of pushing a literal or scanning a clause.
\<close>

section \<open>Propositional semantics\<close>

definition lit_true :: "(nat \<Rightarrow> bool) \<Rightarrow> int \<Rightarrow> bool" where
  "lit_true \<sigma> l = (if l > 0 then \<sigma> (lit_var l) else \<not> \<sigma> (lit_var l))"

definition clause_true :: "(nat \<Rightarrow> bool) \<Rightarrow> int list \<Rightarrow> bool" where
  "clause_true \<sigma> c = (\<exists>l \<in> set c. lit_true \<sigma> l)"

definition cnf_true :: "(nat \<Rightarrow> bool) \<Rightarrow> int list list \<Rightarrow> bool" where
  "cnf_true \<sigma> F = (\<forall>c \<in> set F. clause_true \<sigma> c)"

definition entails :: "int list list \<Rightarrow> int list \<Rightarrow> bool" where
  "entails F c = (\<forall>\<sigma>. cnf_true \<sigma> F \<longrightarrow> clause_true \<sigma> c)"

definition unsat :: "int list list \<Rightarrow> bool" where
  "unsat F = (\<forall>\<sigma>. \<not> cnf_true \<sigma> F)"

definition lit_ok :: "nat \<Rightarrow> int \<Rightarrow> bool" where
  "lit_ok n l \<longleftrightarrow> l \<noteq> 0 \<and> lit_var l \<le> n"

lemma lit_var_neg [simp]: "lit_var (- l) = lit_var l"
  by (auto simp: lit_var_def)

lemma lit_ok_neg [simp]: "lit_ok n (- l) = lit_ok n l"
  by (simp add: lit_ok_def)

lemma lit_true_neg: "l \<noteq> 0 \<Longrightarrow> lit_true \<sigma> (- l) = (\<not> lit_true \<sigma> l)"
  by (auto simp: lit_true_def)

lemma lit_var_eq: "lit_var l = lit_var m \<longleftrightarrow> l = m \<or> l = - m"
  by (auto simp: lit_var_def)

lemma lit_var_pos: "l \<noteq> 0 \<Longrightarrow> 0 < lit_var l"
  by (auto simp: lit_var_def)

lemma int_lit_var: "int (lit_var l) = \<bar>l\<bar>"
  by (auto simp: lit_var_def)

lemma lit_var_int [simp]: "lit_var (int v) = v"
  by (auto simp: lit_var_def)

lemma entailsI_mem: "c \<in> set F \<Longrightarrow> entails F c"
  by (auto simp: entails_def cnf_true_def)

lemma clause_true_Cons: "clause_true \<sigma> (l # c) \<longleftrightarrow> lit_true \<sigma> l \<or> clause_true \<sigma> c"
  by (auto simp: clause_true_def)

lemma clause_true_Nil [simp]: "\<not> clause_true \<sigma> []"
  by (simp add: clause_true_def)

lemma entails_lit: "entails F [l] \<Longrightarrow> cnf_true \<sigma> F \<Longrightarrow> lit_true \<sigma> l"
  by (auto simp: entails_def clause_true_def)

section \<open>The invariant\<close>

text \<open>The assignment a trail stands for.\<close>

definition asg :: "int list \<Rightarrow> nat \<Rightarrow> int" where
  "asg tr v = (if int v \<in> set tr then 1 else if - int v \<in> set tr then -1 else 0)"

definition trail_ok :: "bvsat \<Rightarrow> bool" where
  "trail_ok s \<longleftrightarrow>
     (\<forall>l \<in> set (trail s). lit_ok (n_vars s) l) \<and>
     distinct (map lit_var (trail s)) \<and> assign s = asg (trail s)"

text \<open>The decision level of trail position \<open>i\<close>: the decisions at or before it.\<close>

definition lev :: "nat list \<Rightarrow> nat \<Rightarrow> nat" where
  "lev lims i = length (filter (\<lambda>t. t \<le> i) lims)"

definition level_ok :: "bvsat \<Rightarrow> bool" where
  "level_ok s \<longleftrightarrow>
     sorted_wrt (<) (trail_lim s) \<and> (\<forall>t \<in> set (trail_lim s). t < n_trail s) \<and>
     (\<forall>i < n_trail s. level s (lit_var (trail s ! i)) = lev (trail_lim s) i)"

text \<open>
  A recorded reason is a clause that was unit when its literal was pushed; a
  literal without a reason is at level 0 or opens a level.
\<close>

definition implied_at :: "bvsat \<Rightarrow> nat \<Rightarrow> int \<Rightarrow> nat \<Rightarrow> bool" where
  "implied_at s i l ci \<longleftrightarrow>
     ci < n_cl s \<and> l \<in> set (cl s ! ci) \<and>
     (\<forall>m \<in> set (cl s ! ci). m \<noteq> l \<longrightarrow> - m \<in> set (take i (trail s)))"

definition reason_ok :: "bvsat \<Rightarrow> bool" where
  "reason_ok s \<longleftrightarrow>
     (\<forall>i < n_trail s. reason s (lit_var (trail s ! i)) \<noteq> 0 \<longrightarrow>
        implied_at s i (trail s ! i) (reason s (lit_var (trail s ! i)) - 1)) \<and>
     (\<forall>i < n_trail s. reason s (lit_var (trail s ! i)) = 0 \<longrightarrow>
        level s (lit_var (trail s ! i)) = 0 \<or> i \<in> set (trail_lim s))"

definition occ_ok :: "bvsat \<Rightarrow> bool" where
  "occ_ok s \<longleftrightarrow>
     (\<forall>l ci. l \<noteq> 0 \<longrightarrow>
        (ci \<in> set (occ s (occ_slot l)) \<longleftrightarrow> ci < n_cl s \<and> l \<in> set (cl s ! ci)))"

definition cls_ok :: "bvsat \<Rightarrow> bool" where
  "cls_ok s \<longleftrightarrow> (\<forall>c \<in> set (cl s). \<forall>l \<in> set c. lit_ok (n_vars s) l)"

definition ent_ok :: "int list list \<Rightarrow> bvsat \<Rightarrow> bool" where
  "ent_ok F s \<longleftrightarrow>
     (\<forall>c \<in> set (cl s). entails F c) \<and>
     (\<forall>l \<in> set (trail s). level s (lit_var l) = 0 \<longrightarrow> entails F [l])"

text \<open>The clause store alone, and the whole invariant.\<close>

definition store_ok :: "int list list \<Rightarrow> bvsat \<Rightarrow> bool" where
  "store_ok F s \<longleftrightarrow>
     occ_ok s \<and> cls_ok s \<and> (\<forall>c \<in> set (cl s). entails F c) \<and> (\<forall>v. \<not> seen s v)"

definition sat_core :: "int list list \<Rightarrow> bvsat \<Rightarrow> bool" where
  "sat_core F s \<longleftrightarrow>
     trail_ok s \<and> level_ok s \<and> reason_ok s \<and> store_ok F s \<and> ent_ok F s \<and>
     length (flipped s) = n_lim s"

definition head_ok :: "bvsat \<Rightarrow> bool" where
  "head_ok s \<longleftrightarrow>
     q_head s \<le> n_trail s \<and>
     (\<forall>i. q_head s \<le> i \<and> i < n_trail s \<longrightarrow> level s (lit_var (trail s ! i)) = n_lim s)"

definition sat_inv :: "int list list \<Rightarrow> bvsat \<Rightarrow> bool" where
  "sat_inv F s \<longleftrightarrow> sat_core F s \<and> head_ok s"

text \<open>A conflict the propagation reports.\<close>

definition conflict_ok :: "bvsat \<Rightarrow> bool" where
  "conflict_ok s \<longleftrightarrow>
     (\<exists>ci. conflict_cl s = int ci \<and> ci < n_cl s \<and>
        (\<forall>l \<in> set (cl s ! ci). - l \<in> set (trail s)) \<and>
        (\<exists>l \<in> set (cl s ! ci). level s (lit_var l) = n_lim s))"

section \<open>Trails\<close>

lemma trail_consistent:
  "trail_ok s \<Longrightarrow> l \<in> set (trail s) \<Longrightarrow> - l \<notin> set (trail s)"
proof
  assume ok: "trail_ok s" and l: "l \<in> set (trail s)" and nl: "- l \<in> set (trail s)"
  from ok l have "l \<noteq> 0" by (auto simp: trail_ok_def lit_ok_def)
  moreover from ok l nl have "l = - l"
    using inj_onD [of lit_var "set (trail s)" l "- l"] by (simp add: trail_ok_def distinct_map)
  ultimately show False by simp
qed

lemma trail_same_var:
  assumes "trail_ok s" "- l \<in> set (trail s)" "- m \<in> set (trail s)" "lit_var l = lit_var m"
  shows "l = m"
  using assms trail_consistent [OF assms(1,3)] by (auto simp: lit_var_eq)

lemma lit_value_trail:
  assumes "trail_ok s" "lit_ok (n_vars s) l"
  shows "lit_value s l =
    (if l \<in> set (trail s) then 1 else if - l \<in> set (trail s) then -1 else 0)"
proof -
  have a: "assign s (lit_var l) = asg (trail s) (lit_var l)" and "lit_var l \<le> n_vars s" "l \<noteq> 0"
    using assms by (auto simp: trail_ok_def lit_ok_def)
  then show ?thesis
    using trail_consistent [OF assms(1), of l]
    by (auto simp: lit_value_def asg_def int_lit_var abs_if)
qed

lemma asg_nonzero_iff: "asg tr v \<noteq> 0 \<longleftrightarrow> v \<in> lit_var ` set tr"
proof -
  have "v = lit_var l \<longleftrightarrow> l = int v \<or> l = - int v" for l
    using lit_var_eq [of "int v" l] by (auto simp: minus_equation_iff)
  then show ?thesis by (auto simp: asg_def image_iff)
qed

lemma asg_append:
  "l \<noteq> 0 \<Longrightarrow> lit_var l \<notin> lit_var ` set tr \<Longrightarrow>
   asg (tr @ [l]) = (asg tr)(lit_var l := if l > 0 then 1 else -1)"
proof
  fix v
  assume l: "l \<noteq> 0" "lit_var l \<notin> lit_var ` set tr"
  show "asg (tr @ [l]) v = ((asg tr)(lit_var l := if l > 0 then 1 else -1)) v"
  proof (cases "v = lit_var l")
    case True
    have "asg tr v = 0" using l True asg_nonzero_iff [of tr v] by auto
    then show ?thesis using l True
      by (auto simp: asg_def int_lit_var abs_if split: if_splits)
  next
    case False
    then have "int v \<noteq> l" "- int v \<noteq> l" using lit_var_int [of v] lit_var_neg [of "int v"] by auto
    with False show ?thesis by (auto simp: asg_def)
  qed
qed

lemma trail_vars_bound:
  assumes "trail_ok s" shows "n_trail s \<le> n_vars s"
proof -
  have "set (map lit_var (trail s)) \<subseteq> {1 .. n_vars s}"
    using assms lit_var_pos by (force simp: trail_ok_def lit_ok_def)
  then have "card (set (map lit_var (trail s))) \<le> n_vars s"
    using card_mono [of "{1 .. n_vars s}"] by fastforce
  then show ?thesis
    using assms distinct_card [of "map lit_var (trail s)"] by (simp add: trail_ok_def)
qed

lemma unassigned_not_in_trail:
  "- l \<notin> set tr \<Longrightarrow> l \<notin> set tr \<Longrightarrow> lit_var l \<notin> lit_var ` set tr"
  by (auto simp: lit_var_eq image_iff)

section \<open>Levels\<close>

lemma lev_le: "lev lims i \<le> length lims"
  by (simp add: lev_def)

lemma lev_all: "\<forall>t \<in> set lims. t \<le> i \<Longrightarrow> lev lims i = length lims"
  by (simp add: lev_def)

lemma lev_append_gt: "i < t \<Longrightarrow> lev (lims @ [t]) i = lev lims i"
  by (simp add: lev_def)

lemma lev_sorted_less:
  assumes "sorted_wrt (<) lims" "j < length lims"
  shows "i < lims ! j \<longleftrightarrow> lev lims i \<le> j"
proof
  assume i: "i < lims ! j"
  have "filter (\<lambda>t. t \<le> i) (drop j lims) = []"
  proof -
    have "lims ! j \<le> t" if t: "t \<in> set (drop j lims)" for t
    proof -
      from t obtain k where "k < length (drop j lims)" "t = drop j lims ! k"
        by (auto simp: in_set_conv_nth)
      then show ?thesis
        using assms by (cases k) (auto simp: sorted_wrt_iff_nth_less less_imp_le)
    qed
    with i show ?thesis by (force simp: filter_empty_conv)
  qed
  then have "lev lims i = length (filter (\<lambda>t. t \<le> i) (take j lims))"
    unfolding lev_def by (metis append_Nil2 append_take_drop_id filter_append)
  also have "\<dots> \<le> j" by (metis length_filter_le length_take min.cobounded2 le_trans)
  finally show "lev lims i \<le> j" .
next
  assume l: "lev lims i \<le> j"
  show "i < lims ! j"
  proof (rule ccontr)
    assume "\<not> i < lims ! j"
    then have "filter (\<lambda>t. t \<le> i) (take (Suc j) lims) = take (Suc j) lims"
      using assms
      by (auto simp: filter_id_conv in_set_conv_nth sorted_wrt_iff_nth_less)
        (metis le_less_trans less_Suc_eq less_imp_le not_less)
    then have "Suc j \<le> lev lims i"
      unfolding lev_def
      by (metis append_take_drop_id assms(2) filter_append length_append length_take
          le_add1 min.absorb2 Suc_leI)
    with l show False by simp
  qed
qed

lemma lev_take:
  assumes "sorted_wrt (<) lims" "j < length lims" "i < lims ! j"
  shows "lev (take j lims) i = lev lims i"
proof -
  have "filter (\<lambda>t. t \<le> i) (drop j lims) = []"
  proof -
    have "i < t" if t: "t \<in> set (drop j lims)" for t
    proof -
      from t obtain k where "k < length (drop j lims)" "t = drop j lims ! k"
        by (auto simp: in_set_conv_nth)
      then show ?thesis
        using assms by (cases k) (auto simp: sorted_wrt_iff_nth_less intro: less_trans)
    qed
    then show ?thesis by (force simp: filter_empty_conv)
  qed
  then show ?thesis
    unfolding lev_def by (metis append_Nil2 append_take_drop_id filter_append)
qed

lemma level_le_n_lim:
  "level_ok s \<Longrightarrow> l \<in> set (trail s) \<Longrightarrow> level s (lit_var l) \<le> n_lim s"
  by (auto simp: level_ok_def in_set_conv_nth lev_le)

section \<open>Pushing a literal\<close>

lemma trail_push_simps [sat_simps]:
  "n_vars (trail_push s l k) = n_vars s"
  "trail (trail_push s l k) = trail s @ [l]"
  "trail_lim (trail_push s l k) = trail_lim s"
  "flipped (trail_push s l k) = flipped s"
  "cl (trail_push s l k) = cl s"
  "occ (trail_push s l k) = occ s"
  "seen (trail_push s l k) = seen s"
  "q_head (trail_push s l k) = q_head s"
  "conflicts (trail_push s l k) = conflicts s"
  "budget (trail_push s l k) = budget s"
  "cdcl (trail_push s l k) = cdcl s"
  "phase_mode (trail_push s l k) = phase_mode s"
  "level (trail_push s l k) = (level s)(lit_var l := k)"
  "reason (trail_push s l k) = (reason s)(lit_var l := 0)"
  "assign (trail_push s l k) = (assign s)(lit_var l := if l > 0 then 1 else -1)"
  by (simp_all add: trail_push_def Let_def)

lemma trail_push_reason_eq:
  "trail_push_reason s l k ci =
     (trail_push s l k)\<lparr>reason := (reason s)(lit_var l := Suc ci)\<rparr>"
  by (simp add: trail_push_reason_def trail_push_def Let_def)

text \<open>
  One lemma covers every push: the literal is unassigned, its level is the
  current one, its reason (if any) was unit, and at level 0 it is entailed.
\<close>

lemma push_core:
  assumes inv: "sat_core F s"
    and l: "lit_ok (n_vars s) l" "l \<notin> set (trail s)" "- l \<notin> set (trail s)"
    and r: "r \<noteq> 0 \<longrightarrow> implied_at s (n_trail s) l (r - 1)"
    and z: "n_lim s = 0 \<longrightarrow> entails F [l]" and d: "r = 0 \<longrightarrow> n_lim s = 0"
  shows "sat_core F ((trail_push s l (n_lim s))\<lparr>reason := (reason s)(lit_var l := r)\<rparr>)"
    (is "sat_core F ?s")
proof -
  have fresh: "lit_var l \<notin> lit_var ` set (trail s)"
    using l by (intro unassigned_not_in_trail) auto
  then have old: "lit_var (trail s ! i) \<noteq> lit_var l" if "i < n_trail s" for i
    using that by (metis image_eqI nth_mem)
  have oldm: "lit_var m \<noteq> lit_var l" if "m \<in> set (trail s)" for m
    using fresh that by (metis image_eqI)
  have t: "trail_ok ?s"
    using inv l fresh asg_append [of l "trail s"]
    by (auto simp: sat_core_def trail_ok_def sat_simps lit_ok_def)
  have lv: "level_ok ?s"
    using inv old
    by (auto simp: sat_core_def level_ok_def sat_simps nth_append less_Suc_eq lev_all
        less_imp_le)
  have "reason_ok ?s"
    unfolding reason_ok_def
  proof (intro conjI allI impI)
    fix i assume i: "i < n_trail ?s" and e: "reason ?s (lit_var (trail ?s ! i)) = 0"
    show "level ?s (lit_var (trail ?s ! i)) = 0 \<or> i \<in> set (trail_lim ?s)"
      using inv i e d old [of i]
      by (cases "i < n_trail s") (auto simp: sat_core_def reason_ok_def sat_simps nth_append)
  next
    fix i assume i: "i < n_trail ?s" and ne: "reason ?s (lit_var (trail ?s ! i)) \<noteq> 0"
    show "implied_at ?s i (trail ?s ! i) (reason ?s (lit_var (trail ?s ! i)) - 1)"
    proof (cases "i < n_trail s")
      case True
      then have "implied_at s i (trail s ! i) (reason s (lit_var (trail s ! i)) - 1)"
        using inv ne old [OF True] by (auto simp: sat_core_def reason_ok_def sat_simps nth_append)
      then show ?thesis using True old [OF True]
        by (simp add: implied_at_def sat_simps nth_append)
    next
      case False
      then have "i = n_trail s" using i by (simp add: sat_simps)
      then show ?thesis using r ne by (auto simp: implied_at_def sat_simps)
    qed
  qed
  moreover have "ent_ok F ?s"
    using inv z oldm by (auto simp: sat_core_def ent_ok_def sat_simps)
  moreover have "store_ok F ?s"
    using inv by (auto simp: sat_core_def store_ok_def occ_ok_def cls_ok_def sat_simps)
  ultimately show ?thesis
    using t lv inv by (simp add: sat_core_def sat_simps)
qed

lemma push_plain:
  assumes "sat_core F s" "lit_ok (n_vars s) l" "l \<notin> set (trail s)" "- l \<notin> set (trail s)"
    "entails F [l]" "n_lim s = 0"
  shows "sat_core F (trail_push s l (n_lim s))"
proof -
  have "(trail_push s l (n_lim s))\<lparr>reason := (reason s)(lit_var l := 0)\<rparr> =
      trail_push s l (n_lim s)"
    by (simp add: trail_push_def Let_def)
  then show ?thesis using push_core [OF assms(1-4), of 0] assms(5,6) by simp
qed

text \<open>A unit clause entails its literal when everything is at level 0.\<close>

lemma level0_all:
  assumes "sat_core F s" "n_lim s = 0" "m \<in> set (trail s)"
  shows "entails F [m]"
proof -
  have "level s (lit_var m) = 0"
    using assms level_le_n_lim [of s m] by (auto simp: sat_core_def)
  with assms show ?thesis by (auto simp: sat_core_def ent_ok_def)
qed

lemma unit_entailed:
  assumes inv: "sat_core F s" and n: "n_lim s = 0" and c: "entails F c"
    and m: "\<forall>m \<in> set c. m \<noteq> l \<longrightarrow> m \<noteq> 0 \<and> - m \<in> set (trail s)"
  shows "entails F [l]"
  unfolding entails_def
proof (intro allI impI)
  fix \<sigma> assume F: "cnf_true \<sigma> F"
  then obtain k where k: "k \<in> set c" "lit_true \<sigma> k"
    using c by (auto simp: entails_def clause_true_def)
  have "k = l"
  proof (rule ccontr)
    assume "k \<noteq> l"
    with k m have "k \<noteq> 0" "- k \<in> set (trail s)" by auto
    then have "lit_true \<sigma> (- k)"
      using level0_all [OF inv n] entails_lit F by blast
    with \<open>k \<noteq> 0\<close> k show False by (simp add: lit_true_neg)
  qed
  with k show "clause_true \<sigma> [l]" by (simp add: clause_true_def)
qed

lemma falsified_level0_unsat:
  assumes inv: "sat_core F s" and n: "n_lim s = 0" and c: "entails F c"
    and m: "\<forall>m \<in> set c. m \<noteq> 0 \<and> - m \<in> set (trail s)"
  shows "unsat F"
  unfolding unsat_def
proof (intro allI notI)
  fix \<sigma> assume F: "cnf_true \<sigma> F"
  then obtain k where k: "k \<in> set c" "lit_true \<sigma> k"
    using c by (auto simp: entails_def clause_true_def)
  then have "lit_true \<sigma> (- k)"
    using m level0_all [OF inv n] entails_lit F by blast
  with m k show False by (simp add: lit_true_neg)
qed

section \<open>Scanning a clause\<close>

lemma scan_clause_neg:
  "scan_clause s c un ul = (False, un', ul') \<Longrightarrow> un' \<le> 1 \<Longrightarrow> un \<le> 1 \<Longrightarrow>
   un \<le> un' \<and>
   (un' = un \<longrightarrow> ul' = ul \<and> (\<forall>l \<in> set c. lit_value s l < 0)) \<and>
   (un < un' \<longrightarrow> ul' \<in> set c \<and> lit_value s ul' = 0 \<and>
      (\<forall>l \<in> set c. l \<noteq> ul' \<longrightarrow> lit_value s l < 0))"
proof (induction c arbitrary: un ul)
  case Nil
  then show ?case by simp
next
  case (Cons l ls)
  show ?case
  proof (cases "lit_value s l < 0")
    case True
    then have "scan_clause s ls un ul = (False, un', ul')"
      using Cons.prems by (simp add: Let_def split: if_splits)
    from Cons.IH [OF this Cons.prems(2,3)] True show ?thesis by auto
  next
    case False
    then have z: "lit_value s l = 0" and un: "un = 0"
      and sc: "scan_clause s ls 1 l = (False, un', ul')"
      using Cons.prems by (auto simp: Let_def split: if_splits)
    from Cons.IH [OF sc Cons.prems(2)] Cons.prems(2) z un show ?thesis by auto
  qed
qed

lemma lit_value_neg_trail:
  "trail_ok s \<Longrightarrow> lit_ok (n_vars s) l \<Longrightarrow> lit_value s l < 0 \<Longrightarrow> - l \<in> set (trail s)"
  by (simp add: lit_value_trail split: if_splits)

lemma lit_value_zero_trail:
  "trail_ok s \<Longrightarrow> lit_ok (n_vars s) l \<Longrightarrow> lit_value s l = 0 \<Longrightarrow>
   l \<notin> set (trail s) \<and> - l \<notin> set (trail s)"
  by (simp add: lit_value_trail split: if_splits)

lemma scan_clause_unit:
  assumes ok: "trail_ok s" "\<forall>l \<in> set c. lit_ok (n_vars s) l"
    and sc: "scan_clause s c 0 0 = (False, 1, ul)"
  shows "ul \<in> set c" "ul \<notin> set (trail s)" "- ul \<notin> set (trail s)"
    "\<forall>l \<in> set c. l \<noteq> ul \<longrightarrow> - l \<in> set (trail s)"
proof -
  have n: "ul \<in> set c" "lit_value s ul = 0" "\<forall>l \<in> set c. l \<noteq> ul \<longrightarrow> lit_value s l < 0"
    using scan_clause_neg [OF sc] by simp_all
  show "ul \<in> set c" by (rule n(1))
  show "ul \<notin> set (trail s)" "- ul \<notin> set (trail s)"
    using lit_value_zero_trail [OF ok(1) _ n(2)] ok(2) n(1) by auto
  show "\<forall>l \<in> set c. l \<noteq> ul \<longrightarrow> - l \<in> set (trail s)"
    using n(3) ok lit_value_neg_trail by blast
qed

lemma scan_clause_false:
  assumes ok: "trail_ok s" "\<forall>l \<in> set c. lit_ok (n_vars s) l"
    and sc: "scan_clause s c 0 0 = (False, 0, ul)"
  shows "\<forall>l \<in> set c. - l \<in> set (trail s)"
proof -
  have "\<forall>l \<in> set c. lit_value s l < 0" using scan_clause_neg [OF sc] by simp
  then show ?thesis using ok lit_value_neg_trail by blast
qed

end
