(* ===== verification/BvSatStep.thy ===== *)
theory BvSatStep
  imports BvSatInv
begin

text \<open>
  The single steps of the SAT solver keep its invariant: unit propagation
  (which also always returns), adding a clause, undoing decision levels and
  taking a decision.
\<close>

section \<open>Propagation\<close>

definition grows :: "bvsat \<Rightarrow> bvsat \<Rightarrow> bool" where
  "grows s t \<longleftrightarrow>
     n_vars t = n_vars s \<and> cl t = cl s \<and> trail_lim t = trail_lim s \<and>
     budget t = budget s \<and> cdcl t = cdcl s \<and> conflicts t = conflicts s \<and>
     (\<exists>tr. trail t = trail s @ tr)"

lemma grows_refl: "grows s s"
  by (simp add: grows_def)

lemma grows_trans: "grows s t \<Longrightarrow> grows t u \<Longrightarrow> grows s u"
  by (auto simp: grows_def)

lemma head_ok_push:
  assumes "head_ok s" "lit_var l \<notin> lit_var ` set (trail s)"
  shows "head_ok ((trail_push s l (n_lim s))\<lparr>reason := r\<rparr>)"
proof -
  have "lit_var (trail s ! i) \<noteq> lit_var l" if "i < n_trail s" for i
    using that assms(2) by (metis image_eqI nth_mem)
  then show ?thesis
    using assms(1) by (auto simp: head_ok_def sat_simps nth_append less_Suc_eq)
qed

lemma sat_inv_conflict_cl [simp]:
  "sat_inv F (s\<lparr>conflict_cl := c\<rparr>) = sat_inv F s"
  by (simp add: sat_inv_def sat_core_def head_ok_def trail_ok_def level_ok_def reason_ok_def
      implied_at_def store_ok_def occ_ok_def cls_ok_def ent_ok_def)

lemma sat_core_q_head [simp]: "sat_core F (s\<lparr>q_head := c\<rparr>) = sat_core F s"
  by (simp add: sat_core_def trail_ok_def level_ok_def reason_ok_def
      implied_at_def store_ok_def occ_ok_def cls_ok_def ent_ok_def)

lemma sat_inv_conflicts [simp]:
  "sat_inv F (s\<lparr>conflicts := c\<rparr>) = sat_inv F s"
  by (simp add: sat_inv_def sat_core_def head_ok_def trail_ok_def level_ok_def reason_ok_def
      implied_at_def store_ok_def occ_ok_def cls_ok_def ent_ok_def)

lemma sat_inv_clause:
  "sat_inv F s \<Longrightarrow> ci < n_cl s \<Longrightarrow>
   trail_ok s \<and> (\<forall>l \<in> set (cl s ! ci). lit_ok (n_vars s) l) \<and> entails F (cl s ! ci)"
  by (auto simp: sat_inv_def sat_core_def store_ok_def cls_ok_def)

lemma propagate_occ_inv:
  "sat_inv F s \<Longrightarrow> \<forall>ci \<in> set cis. ci < n_cl s \<Longrightarrow> propagate_occ s cis = (conf, t) \<Longrightarrow>
   sat_inv F t \<and> grows s t \<and> q_head t = q_head s \<and>
   (conf \<longrightarrow> (\<exists>ci \<in> set cis. conflict_cl t = int ci \<and>
                 (\<forall>l \<in> set (cl t ! ci). - l \<in> set (trail t))))"
proof (induction cis arbitrary: s)
  case Nil
  then show ?case by (simp add: grows_refl)
next
  case (Cons ci cis)
  obtain sat un ul where sc: "scan_clause s (cl s ! ci) 0 0 = (sat, un, ul)"
    by (cases "scan_clause s (cl s ! ci) 0 0") auto
  have c: "trail_ok s" "\<forall>l \<in> set (cl s ! ci). lit_ok (n_vars s) l" "entails F (cl s ! ci)"
    and ci: "ci < n_cl s"
    using sat_inv_clause [OF Cons.prems(1)] Cons.prems(2) by auto
  consider (skip) "sat \<or> un > 1" | (conf) "\<not> sat" "un = 0" | (unit) "\<not> sat" "un = 1"
    by force
  then show ?case
  proof cases
    case skip
    then have "propagate_occ s cis = (conf, t)"
      using Cons.prems(3) sc by (auto split: if_splits)
    then show ?thesis using Cons.IH [OF Cons.prems(1)] Cons.prems(2) by auto
  next
    case conf
    then have "conf" "t = s\<lparr>conflict_cl := int ci\<rparr>" using Cons.prems(3) sc by auto
    moreover have "\<forall>l \<in> set (cl s ! ci). - l \<in> set (trail s)"
      using scan_clause_false [OF c(1,2)] sc conf by simp
    ultimately show ?thesis using Cons.prems(1) by (auto simp: grows_def)
  next
    case unit
    let ?s = "trail_push_reason s ul (n_lim s) ci"
    have p: "propagate_occ ?s cis = (conf, t)" using Cons.prems(3) sc unit by auto
    have sc': "scan_clause s (cl s ! ci) 0 0 = (False, 1, ul)" using sc unit by simp
    note u = scan_clause_unit [OF c(1,2) sc']
    have core: "sat_core F s" and head: "head_ok s"
      using Cons.prems(1) by (auto simp: sat_inv_def)
    have "n_lim s = 0 \<longrightarrow> entails F [ul]"
      using unit_entailed [OF core _ c(3)] u c(2) by (auto simp: lit_ok_def)
    then have "sat_core F ?s"
      using push_core [OF core, of ul "Suc ci"] u c(2) ci
      by (auto simp: trail_push_reason_eq implied_at_def)
    moreover have "head_ok ?s"
      using head_ok_push [OF head] unassigned_not_in_trail [OF u(3,2)]
      by (simp add: trail_push_reason_eq)
    ultimately have "sat_inv F ?s" by (simp add: sat_inv_def)
    moreover have "grows s ?s" "q_head ?s = q_head s" "cl ?s = cl s"
      by (simp_all add: grows_def trail_push_reason_eq sat_simps)
    ultimately show ?thesis
      using Cons.IH [of ?s] p Cons.prems(2) grows_trans [of s ?s t] by auto
  qed
qed

lemma sat_propagate_total:
  "sat_inv F s \<Longrightarrow>
   \<exists>conf t. sat_propagate s = Some (conf, t) \<and> sat_inv F t \<and> grows s t \<and>
     (conf \<longrightarrow> conflict_ok t) \<and> (\<not> conf \<longrightarrow> q_head t = n_trail t)"
proof (induction "n_vars s - q_head s" arbitrary: s rule: less_induct)
  case less
  show ?case
  proof (cases "q_head s < n_trail s")
    case False
    then have "sat_propagate s = Some (False, s)" by (subst sat_propagate.simps) simp
    with less.prems False show ?thesis by (auto simp: grows_refl sat_inv_def head_ok_def)
  next
    case True
    let ?lit = "trail s ! q_head s" and ?s1 = "s\<lparr>q_head := Suc (q_head s)\<rparr>"
    let ?cis = "occ ?s1 (occ_slot (- ?lit))"
    obtain conf s2 where r: "propagate_occ ?s1 ?cis = (conf, s2)" by fastforce
    have i1: "sat_inv F ?s1" using less.prems True by (auto simp: sat_inv_def head_ok_def)
    have lit: "?lit \<in> set (trail s)" "?lit \<noteq> 0"
      using True less.prems by (auto simp: sat_inv_def sat_core_def trail_ok_def lit_ok_def)
    have occ: "\<forall>ci \<in> set ?cis. ci < n_cl s \<and> - ?lit \<in> set (cl s ! ci)"
      using less.prems lit(2) by (auto simp: sat_inv_def sat_core_def store_ok_def occ_ok_def)
    note p = propagate_occ_inv [OF i1 _ r]
    have p: "sat_inv F s2" "grows s s2" "q_head s2 = Suc (q_head s)"
      "conf \<Longrightarrow> \<exists>ci \<in> set ?cis. conflict_cl s2 = int ci \<and>
                 (\<forall>l \<in> set (cl s2 ! ci). - l \<in> set (trail s2))"
      using p occ by (auto simp: grows_def)
    show ?thesis
    proof (cases conf)
      case True
      then obtain ci where ci: "ci \<in> set ?cis" "conflict_cl s2 = int ci"
        "\<forall>l \<in> set (cl s2 ! ci). - l \<in> set (trail s2)" using p(4) by auto
      have "level s (lit_var ?lit) = n_lim s"
        using less.prems \<open>q_head s < n_trail s\<close> by (auto simp: sat_inv_def head_ok_def)
      moreover have "level s2 (lit_var ?lit) = level s (lit_var ?lit)"
      proof -
        obtain tr where tr: "trail s2 = trail s @ tr" "trail_lim s2 = trail_lim s"
          using p(2) by (auto simp: grows_def)
        have "level_ok s" "level_ok s2"
          using less.prems p(1) by (auto simp: sat_inv_def sat_core_def)
        then have "level s (lit_var ?lit) = lev (trail_lim s) (q_head s)"
          "level s2 (lit_var (trail s2 ! q_head s)) = lev (trail_lim s) (q_head s)"
          using \<open>q_head s < n_trail s\<close> tr by (auto simp: level_ok_def)
        then show ?thesis using \<open>q_head s < n_trail s\<close> tr by (simp add: nth_append)
      qed
      ultimately have "conflict_ok s2"
        using ci occ p(2) by (auto simp: conflict_ok_def grows_def intro!: bexI [of _ "- ?lit"])
      moreover have "sat_propagate s = Some (True, s2)"
        using r True \<open>q_head s < n_trail s\<close> by (subst sat_propagate.simps) (simp add: Let_def)
      ultimately show ?thesis using p by auto
    next
      case False
      have "q_head s < n_vars s"
        using \<open>q_head s < n_trail s\<close> trail_vars_bound [of s] less.prems
        by (auto simp: sat_inv_def sat_core_def)
      then have "n_vars s2 - q_head s2 < n_vars s - q_head s"
        using p(2,3) by (auto simp: grows_def)
      from less.hyps [OF this p(1)] obtain c t where
        t: "sat_propagate s2 = Some (c, t)" "sat_inv F t" "grows s2 t"
          "c \<longrightarrow> conflict_ok t" "\<not> c \<longrightarrow> q_head t = n_trail t"
        by auto
      moreover have "sat_propagate s = sat_propagate s2"
        using r False \<open>q_head s < n_trail s\<close> by (subst sat_propagate.simps) (simp add: Let_def)
      ultimately show ?thesis using p(2) grows_trans by metis
    qed
  qed
qed

section \<open>Clauses\<close>

lemma int_occ_slot: "l \<noteq> 0 \<Longrightarrow> int (occ_slot l) = 2 * \<bar>l\<bar> + (if l > 0 then 0 else 1)"
  by (simp add: occ_slot_def)

lemma occ_slot_inj:
  assumes "l \<noteq> 0" "m \<noteq> 0" shows "occ_slot l = occ_slot m \<longleftrightarrow> l = m"
proof
  assume "occ_slot l = occ_slot m"
  then have e: "int (occ_slot l) = int (occ_slot m)" by simp
  have "l > 0 \<longleftrightarrow> even (int (occ_slot l))" "m > 0 \<longleftrightarrow> even (int (occ_slot m))"
    using assms int_occ_slot by simp_all
  with e have "l > 0 \<longleftrightarrow> m > 0" by simp
  with e show "l = m" using int_occ_slot [OF assms(1)] int_occ_slot [OF assms(2)] assms
    by (simp split: if_splits)
qed simp

lemma set_occ_add:
  "l \<noteq> 0 \<Longrightarrow> \<forall>m \<in> set c. m \<noteq> 0 \<Longrightarrow>
   set (occ_add oc ci c (occ_slot l)) =
     set (oc (occ_slot l)) \<union> (if l \<in> set c then {ci} else {})"
  by (induction c arbitrary: oc) (auto simp: occ_slot_inj)

lemma store_ok_add_clause:
  assumes "store_ok F s" "\<forall>l \<in> set c. lit_ok (n_vars s) l" "entails F c"
  shows "store_ok F (bv_sat_add_clause s c)"
proof -
  have "\<forall>m \<in> set c. m \<noteq> 0" using assms(2) by (auto simp: lit_ok_def)
  then have "occ_ok (bv_sat_add_clause s c)"
    using assms(1)
    by (auto simp: store_ok_def occ_ok_def bv_sat_add_clause_def set_occ_add nth_append
        less_Suc_eq)
  then show ?thesis
    using assms by (auto simp: store_ok_def cls_ok_def bv_sat_add_clause_def)
qed

lemma sat_core_add_clause:
  assumes "sat_core F s" "\<forall>l \<in> set c. lit_ok (n_vars s) l" "entails F c"
  shows "sat_core F (bv_sat_add_clause s c)"
proof -
  have "store_ok F (bv_sat_add_clause s c)"
    using assms store_ok_add_clause by (simp add: sat_core_def)
  moreover have "reason_ok (bv_sat_add_clause s c)"
    using assms(1)
    by (auto simp: sat_core_def reason_ok_def bv_sat_add_clause_def implied_at_def nth_append)
  ultimately show ?thesis
    using assms by (auto simp: sat_core_def trail_ok_def level_ok_def ent_ok_def
        bv_sat_add_clause_def)
qed

section \<open>Undoing levels\<close>

lemma trail_pop_n_eq:
  assumes "trail_ok s" "k \<le> n_trail s"
  shows "\<exists>r. trail_pop_n k s = s\<lparr>trail := take (n_trail s - k) (trail s),
               assign := asg (take (n_trail s - k) (trail s)), reason := r\<rparr> \<and>
             (\<forall>l \<in> set (take (n_trail s - k) (trail s)). r (lit_var l) = reason s (lit_var l))"
  using assms
proof (induction k arbitrary: s)
  case 0
  then show ?case by (auto simp: trail_ok_def intro!: exI [of _ "reason s"])
next
  case (Suc k)
  obtain tr l where tr: "trail s = tr @ [l]"
    using Suc.prems by (cases "trail s" rule: rev_cases) auto
  have ok: "l \<noteq> 0" "lit_var l \<notin> lit_var ` set tr" "assign s = asg (tr @ [l])"
    using Suc.prems(1) tr by (auto simp: trail_ok_def lit_ok_def)
  have as: "(asg (tr @ [l]))(lit_var l := 0) = asg tr"
    using asg_append [OF ok(1,2)] asg_nonzero_iff [of tr "lit_var l"] ok(2)
    by (auto simp: fun_eq_iff)
  have pop: "trail_pop s = s\<lparr>trail := tr, assign := asg tr, reason := (reason s)(lit_var l := 0)\<rparr>"
    using tr ok as by (simp add: trail_pop_def Let_def)
  have "trail_ok (trail_pop s)" using Suc.prems(1) tr pop by (auto simp: trail_ok_def)
  moreover have "k \<le> n_trail (trail_pop s)" using Suc.prems tr pop by simp
  ultimately obtain r where r: "trail_pop_n k (trail_pop s) =
      s\<lparr>trail := take (length tr - k) tr, assign := asg (take (length tr - k) tr), reason := r\<rparr>"
    "\<forall>m \<in> set (take (length tr - k) tr). r (lit_var m) = reason (trail_pop s) (lit_var m)"
    using Suc.IH [of "trail_pop s"] unfolding pop by auto
  have "\<forall>m \<in> set (take (length tr - k) tr). r (lit_var m) = reason s (lit_var m)"
    using r(2) ok(2) pop in_set_takeD by (fastforce simp: image_iff)
  with r(1) pop tr show ?case by (auto intro!: exI [of _ r])
qed

lemma trail_pop_to_eq:
  assumes "trail_ok s" "m \<le> n_trail s"
  obtains r where
    "trail_pop_to s m = s\<lparr>trail := take m (trail s), assign := asg (take m (trail s)), reason := r\<rparr>"
    "\<forall>l \<in> set (take m (trail s)). r (lit_var l) = reason s (lit_var l)"
  using trail_pop_n_eq [OF assms(1), of "n_trail s - m"] assms(2)
  by (auto simp: trail_pop_to_def)

text \<open>What undoing levels keeps of the state.\<close>

definition undone :: "bvsat \<Rightarrow> nat \<Rightarrow> nat \<Rightarrow> bvsat \<Rightarrow> bool" where
  "undone s m j t \<longleftrightarrow>
     trail t = take m (trail s) \<and> trail_lim t = take j (trail_lim s) \<and>
     n_vars t = n_vars s \<and> cl t = cl s \<and> level t = level s \<and>
     budget t = budget s \<and> cdcl t = cdcl s \<and> conflicts t = conflicts s"

lemma truncate_core:
  assumes core: "sat_core F s" and j: "j < n_lim s" "m = trail_lim s ! j"
    and r: "\<forall>l \<in> set (take m (trail s)). r (lit_var l) = reason s (lit_var l)"
  shows "sat_core F (s\<lparr>trail := take m (trail s), assign := asg (take m (trail s)), reason := r,
           trail_lim := take j (trail_lim s), flipped := take j (flipped s)\<rparr>)"
    (is "sat_core F ?t")
proof -
  have m: "m < n_trail s" and srt: "sorted_wrt (<) (trail_lim s)"
    using core j by (auto simp: sat_core_def level_ok_def)
  have "trail_ok ?t"
    using core by (auto simp: sat_core_def trail_ok_def take_map [symmetric] dest: in_set_takeD)
  moreover have "level_ok ?t"
  proof -
    have "t < m" if "t \<in> set (take j (trail_lim s))" for t
      using that j srt by (auto simp: in_set_conv_nth sorted_wrt_iff_nth_less)
    moreover have "sorted_wrt (<) (take j (trail_lim s))" using srt by (rule sorted_wrt_take)
    moreover have "level s (lit_var (trail s ! i)) = lev (take j (trail_lim s)) i" if "i < m" for i
      using core m lev_take [OF srt j(1)] that j(2) by (auto simp: sat_core_def level_ok_def)
    ultimately show ?thesis using m by (simp add: level_ok_def)
  qed
  moreover have "reason_ok ?t"
    unfolding reason_ok_def
  proof (intro conjI allI impI)
    fix i assume i: "i < n_trail ?t" and e: "reason ?t (lit_var (trail ?t ! i)) = 0"
    then have im: "i < m" "trail ?t ! i = trail s ! i" by auto
    have "trail s ! i \<in> set (take m (trail s))" using im m by (auto simp: in_set_conv_nth)
    then have "level s (lit_var (trail s ! i)) = 0 \<or> i \<in> set (trail_lim s)"
      using core im m e r by (auto simp: sat_core_def reason_ok_def)
    moreover have "i \<in> set (take j (trail_lim s))" if i: "i \<in> set (trail_lim s)"
    proof -
      obtain x where x: "x < n_lim s" "trail_lim s ! x = i" using i by (auto simp: in_set_conv_nth)
      then have "x < j" using im j srt
        by (metis linorder_neqE_nat not_less_iff_gr_or_eq sorted_wrt_iff_nth_less)
      with x show ?thesis by (auto simp: in_set_conv_nth)
    qed
    ultimately show "level ?t (lit_var (trail ?t ! i)) = 0 \<or> i \<in> set (trail_lim ?t)"
      using im by auto
  next
    fix i assume i: "i < n_trail ?t" and ne: "reason ?t (lit_var (trail ?t ! i)) \<noteq> 0"
    then have im: "i < m" "trail ?t ! i = trail s ! i" by auto
    have "trail s ! i \<in> set (take m (trail s))" using im m by (auto simp: in_set_conv_nth)
    with r have req: "r (lit_var (trail s ! i)) = reason s (lit_var (trail s ! i))" by blast
    have "implied_at s i (trail s ! i) (reason s (lit_var (trail s ! i)) - 1)"
      using core ne im req m by (auto simp: sat_core_def reason_ok_def)
    then show "implied_at ?t i (trail ?t ! i) (reason ?t (lit_var (trail ?t ! i)) - 1)"
      using im req by (simp add: implied_at_def min_def)
  qed
  moreover have "ent_ok F ?t" using core by (auto simp: sat_core_def ent_ok_def dest: in_set_takeD)
  moreover have "store_ok F ?t" using core by (simp add: sat_core_def store_ok_def occ_ok_def cls_ok_def)
  ultimately show ?thesis using core by (simp add: sat_core_def)
qed

lemma pop_levels_undone:
  "sat_core F s \<Longrightarrow> k < n_lim s \<Longrightarrow>
   sat_core F (pop_levels (Suc k) s) \<and>
   undone s (trail_lim s ! (n_lim s - Suc k)) (n_lim s - Suc k) (pop_levels (Suc k) s)"
proof (induction k arbitrary: s)
  case 0
  let ?j = "n_lim s - 1" and ?m = "trail_lim s ! (n_lim s - 1)"
  have "trail_ok s" "?m \<le> n_trail s"
    using 0 by (auto simp: sat_core_def level_ok_def intro: less_imp_le)
  then obtain r where
    "trail_pop_to s ?m = s\<lparr>trail := take ?m (trail s), assign := asg (take ?m (trail s)), reason := r\<rparr>"
    "\<forall>l \<in> set (take ?m (trail s)). r (lit_var l) = reason s (lit_var l)"
    by (rule trail_pop_to_eq)
  then show ?case
    using truncate_core [OF 0(1), of ?j ?m r] 0(2) by (simp add: undone_def Let_def)
next
  case (Suc k)
  let ?j = "n_lim s - 1" and ?m = "trail_lim s ! (n_lim s - 1)"
  have "trail_ok s" "?m \<le> n_trail s"
    using Suc.prems by (auto simp: sat_core_def level_ok_def intro: less_imp_le)
  then obtain r where r:
    "trail_pop_to s ?m = s\<lparr>trail := take ?m (trail s), assign := asg (take ?m (trail s)), reason := r\<rparr>"
    "\<forall>l \<in> set (take ?m (trail s)). r (lit_var l) = reason s (lit_var l)"
    by (rule trail_pop_to_eq)
  define t where "t = s\<lparr>trail := take ?m (trail s), assign := asg (take ?m (trail s)), reason := r,
           trail_lim := take ?j (trail_lim s), flipped := take ?j (flipped s)\<rparr>"
  have t: "sat_core F t" using truncate_core [OF Suc.prems(1), of ?j ?m r] Suc.prems(2) r t_def by simp
  have lt: "n_lim t = n_lim s - 1" using Suc.prems(2) by (simp add: t_def)
  have pt: "pop_levels (Suc (Suc k)) s = pop_levels (Suc k) t"
    using r by (simp add: t_def Let_def)
  let ?i = "n_lim s - Suc (Suc k)"
  have "sorted_wrt (<) (trail_lim s)" using Suc.prems(1) by (simp add: sat_core_def level_ok_def)
  then have "trail_lim s ! ?i < ?m"
    using Suc.prems(2) by (simp add: sorted_wrt_iff_nth_less)
  then have tt: "take (trail_lim s ! ?i) (take ?m (trail s)) = take (trail_lim s ! ?i) (trail s)"
    "take ?i (take ?j (trail_lim s)) = take ?i (trail_lim s)"
    by (simp_all add: min_def)
  have ti: "trail_lim t ! ?i = trail_lim s ! ?i" "n_lim t - Suc k = ?i"
    using Suc.prems(2) lt by (auto simp: t_def)
  have u: "sat_core F (pop_levels (Suc k) t)"
    "undone t (trail_lim s ! ?i) ?i (pop_levels (Suc k) t)"
    using Suc.IH [OF t] Suc.prems(2) lt ti by auto
  have "trail t = take ?m (trail s)" "trail_lim t = take ?j (trail_lim s)"
    "n_vars t = n_vars s" "cl t = cl s" "level t = level s" "budget t = budget s"
    "cdcl t = cdcl s" "conflicts t = conflicts s"
    by (simp_all add: t_def)
  with u tt show ?case
    unfolding pt undone_def by (simp del: pop_levels.simps take_take)
qed

lemma backjump_undone:
  assumes "sat_core F s" "bj < n_lim s"
  shows "sat_core F (backjump s bj)" "undone s (trail_lim s ! bj) bj (backjump s bj)"
proof -
  obtain k where k: "n_lim s - bj = Suc k" using assms(2) by (cases "n_lim s - bj") auto
  then have "k < n_lim s" "n_lim s - Suc k = bj" using assms(2) by auto
  then show "sat_core F (backjump s bj)" "undone s (trail_lim s ! bj) bj (backjump s bj)"
    using pop_levels_undone [OF assms(1), of k] k by (auto simp: backjump_def simp del: pop_levels.simps)
qed

section \<open>Decisions\<close>

lemma sat_decide_var_cases:
  "sat_decide_var s = 0 \<and> (\<forall>v. 1 \<le> v \<and> v \<le> n_vars s \<longrightarrow> assign s v \<noteq> 0) \<or>
   1 \<le> sat_decide_var s \<and> sat_decide_var s \<le> n_vars s \<and> assign s (sat_decide_var s) = 0"
proof (cases "find (\<lambda>v. assign s v = 0) [1 ..< Suc (n_vars s)]")
  case None
  then have "\<not> (\<exists>v. v \<in> set [1 ..< Suc (n_vars s)] \<and> assign s v = 0)"
    by (simp add: find_None_iff)
  with None show ?thesis by (auto simp: sat_decide_var_def simp del: upt_Suc)
next
  case (Some v)
  then obtain i where "i < length [1 ..< Suc (n_vars s)]" "assign s v = 0"
    "[1 ..< Suc (n_vars s)] ! i = v" by (auto simp: find_Some_iff simp del: upt_Suc)
  with Some show ?thesis by (auto simp: sat_decide_var_def simp del: upt_Suc)
qed

text \<open>Opening a level with an unassigned literal, whatever its phase.\<close>

lemma open_level_inv:
  assumes inv: "sat_core F s" and lv: "lit_ok (n_vars s) l" and as: "assign s (lit_var l) = 0"
  shows "sat_inv F ((trail_push (s\<lparr>trail_lim := trail_lim s @ [n_trail s],
            flipped := flipped s @ [b]\<rparr>) l (Suc (n_lim s)))\<lparr>q_head := n_trail s\<rparr>)"
    (is "sat_inv F (?t\<lparr>q_head := _\<rparr>)")
proof -
  have l0: "l \<noteq> 0" using lv by (simp add: lit_ok_def)
  have fresh: "lit_var l \<notin> lit_var ` set (trail s)"
    using as inv asg_nonzero_iff [of "trail s" "lit_var l"] by (simp add: sat_core_def trail_ok_def)
  then have old: "lit_var (trail s ! i) \<noteq> lit_var l" if "i < n_trail s" for i
    using that by (metis image_eqI nth_mem)
  have "trail_ok ?t"
    using inv lv l0 fresh asg_append [of l "trail s"]
    by (auto simp: sat_core_def trail_ok_def sat_simps)
  moreover have "level_ok ?t"
    using inv old
    by (auto simp: sat_core_def level_ok_def sat_simps nth_append less_Suc_eq lev_append_gt
        sorted_wrt_append lev_all less_imp_le)
  moreover have "reason_ok ?t"
    using inv old
    by (auto simp: sat_core_def reason_ok_def implied_at_def sat_simps nth_append less_Suc_eq)
  moreover have "ent_ok F ?t"
    using inv fresh by (auto simp: sat_core_def ent_ok_def sat_simps image_iff)
  moreover have "store_ok F ?t"
    using inv by (simp add: sat_core_def store_ok_def occ_ok_def cls_ok_def sat_simps)
  ultimately have "sat_core F ?t" using inv by (simp add: sat_core_def sat_simps)
  moreover have "head_ok (?t\<lparr>q_head := n_trail s\<rparr>)"
    by (simp add: head_ok_def sat_simps nth_append)
  ultimately show ?thesis by (simp add: sat_inv_def)
qed

lemma sat_decide_inv:
  assumes inv: "sat_core F s" and v: "1 \<le> v" "v \<le> n_vars s" "assign s v = 0"
  shows "sat_inv F (sat_decide s v)" "n_trail (sat_decide s v) = Suc (n_trail s)"
    "n_vars (sat_decide s v) = n_vars s" "budget (sat_decide s v) = budget s"
    "conflicts (sat_decide s v) = conflicts s"
proof -
  define l where "l = (if phase_mode s = 1 then - int v
      else if phase_mode s = 2 \<and> Suc (n_lim s) mod 2 = 0 then - int v else int v)"
  then have l: "l = int v \<or> l = - int v" by auto
  have e: "sat_decide s v = (trail_push (s\<lparr>trail_lim := trail_lim s @ [n_trail s],
              flipped := flipped s @ [False]\<rparr>) l (Suc (n_lim s)))\<lparr>q_head := n_trail s\<rparr>"
    by (simp add: sat_decide_def Let_def sat_simps l_def)
  have lv: "lit_var l = v" "l \<noteq> 0" using l v lit_var_int [of v] by auto
  show "sat_inv F (sat_decide s v)"
    unfolding e by (rule open_level_inv [OF inv]) (use lv v in \<open>auto simp: lit_ok_def\<close>)
  show "n_trail (sat_decide s v) = Suc (n_trail s)" "n_vars (sat_decide s v) = n_vars s"
    "budget (sat_decide s v) = budget s" "conflicts (sat_decide s v) = conflicts s"
    by (simp_all add: e sat_simps)
qed

end
