(* ===== verification/BvSatAnalyze.thy ===== *)
theory BvSatAnalyze
  imports BvSatStep
begin

text \<open>
  Conflict analysis learns only clauses the formula entails: the loop invariant
  of \<open>cdcl_analyze\<close> says that the literals learned so far, the marked
  literals of the current level and the rest of the clause at hand are never
  all false in a model.
\<close>

definition pending :: "bvsat \<Rightarrow> ana \<Rightarrow> nat set" where
  "pending s a = {v. a_seen a v \<and> n_lim s \<le> level s v}"

definition ana_ok ::
  "int list list \<Rightarrow> bvsat \<Rightarrow> nat \<Rightarrow> int \<Rightarrow> int list \<Rightarrow> ana \<Rightarrow> bool" where
  "ana_ok F s k p qs a \<longleftrightarrow>
     (\<forall>v. a_seen a v \<longrightarrow> v \<in> lit_var ` set (trail s)) \<and>
     (\<forall>q \<in> set (a_learn a). - q \<in> set (trail s) \<and> 0 < level s (lit_var q) \<and>
        level s (lit_var q) < n_lim s \<and> level s (lit_var q) \<le> a_bj a) \<and>
     a_bj a < n_lim s \<and>
     (\<forall>v. a_seen a v \<and> level s v < n_lim s \<longrightarrow> (\<exists>q \<in> set (a_learn a). lit_var q = v)) \<and>
     a_counter a = int (card (pending s a)) \<and>
     (\<forall>i < n_trail s. lit_var (trail s ! i) \<in> pending s a \<longrightarrow> i < k) \<and>
     (\<forall>q \<in> set qs. q \<noteq> p \<longrightarrow> (\<exists>i < k. trail s ! i = - q)) \<and>
     (\<forall>\<sigma>. cnf_true \<sigma> F \<longrightarrow>
        (\<exists>q \<in> set (a_learn a). lit_true \<sigma> q) \<or>
        (\<exists>l \<in> set (trail s). lit_var l \<in> pending s a \<and> \<not> lit_true \<sigma> l) \<or>
        (\<exists>q \<in> set qs. q \<noteq> p \<and> lit_true \<sigma> q))"

lemma ana_ok_pending_finite: "ana_ok F s k p qs a \<Longrightarrow> finite (pending s a)"
  by (rule finite_subset [of _ "lit_var ` set (trail s)"]) (auto simp: ana_ok_def pending_def)

lemma ana_ok_drop:
  assumes "ana_ok F s k p (q # qs) a"
    and "\<And>\<sigma>. cnf_true \<sigma> F \<Longrightarrow> q \<noteq> p \<Longrightarrow> lit_true \<sigma> q \<Longrightarrow>
      (\<exists>q \<in> set (a_learn a). lit_true \<sigma> q) \<or>
      (\<exists>l \<in> set (trail s). lit_var l \<in> pending s a \<and> \<not> lit_true \<sigma> l)"
  shows "ana_ok F s k p qs a"
proof -
  have "\<forall>\<sigma>. cnf_true \<sigma> F \<longrightarrow>
        (\<exists>q \<in> set (a_learn a). lit_true \<sigma> q) \<or>
        (\<exists>l \<in> set (trail s). lit_var l \<in> pending s a \<and> \<not> lit_true \<sigma> l) \<or>
        (\<exists>q \<in> set qs. q \<noteq> p \<and> lit_true \<sigma> q)"
    using assms unfolding ana_ok_def by (metis set_ConsD)
  then show ?thesis using assms(1) by (simp add: ana_ok_def)
qed

lemma ana_ok_false_lit:
  assumes "sat_core F s" "ana_ok F s k p (q # qs) a" "q \<noteq> p" "k \<le> n_trail s"
  shows "- q \<in> set (trail s)" "q \<noteq> 0"
proof -
  obtain i where i: "i < k" "trail s ! i = - q" using assms by (auto simp: ana_ok_def)
  then show t: "- q \<in> set (trail s)" using assms(4) by (metis nth_mem order_less_le_trans)
  show "q \<noteq> 0" using t assms(1) by (auto simp: sat_core_def trail_ok_def lit_ok_def)
qed

lemma ana_ok_seen:
  assumes core: "sat_core F s" and a: "ana_ok F s k p (q # qs) a" and k: "k \<le> n_trail s"
    and seen: "a_seen a (lit_var q) \<or> level s (lit_var q) = 0"
  shows "ana_ok F s k p qs a"
proof (rule ana_ok_drop [OF a])
  fix \<sigma> assume F: "cnf_true \<sigma> F" and qp: "q \<noteq> p" and t: "lit_true \<sigma> q"
  have f: "- q \<in> set (trail s)" "q \<noteq> 0" using ana_ok_false_lit [OF core a qp k] .
  have "level s (lit_var q) \<noteq> 0"
  proof
    assume "level s (lit_var q) = 0"
    then have "entails F [- q]" using core f by (auto simp: sat_core_def ent_ok_def)
    then show False using entails_lit F t f lit_true_neg by blast
  qed
  then have sn: "a_seen a (lit_var q)" using seen by simp
  show "(\<exists>q \<in> set (a_learn a). lit_true \<sigma> q) \<or>
      (\<exists>l \<in> set (trail s). lit_var l \<in> pending s a \<and> \<not> lit_true \<sigma> l)"
  proof (cases "level s (lit_var q) < n_lim s")
    case True
    then obtain q' where q': "q' \<in> set (a_learn a)" "lit_var q' = lit_var q" "- q' \<in> set (trail s)"
      using a sn unfolding ana_ok_def by meson
    have "trail_ok s" using core by (simp add: sat_core_def)
    then have "q' = q" using trail_same_var q' f by metis
    with q' t show ?thesis by auto
  next
    case False
    then have "lit_var (- q) \<in> pending s a" using sn by (simp add: pending_def)
    moreover have "\<not> lit_true \<sigma> (- q)" using t f by (simp add: lit_true_neg)
    ultimately show ?thesis using f(1) by blast
  qed
qed

lemma ana_ok_mark_cur:
  assumes core: "sat_core F s" and a: "ana_ok F s k p (q # qs) a" and k: "k \<le> n_trail s"
    and qp: "q \<noteq> p" and ns: "\<not> a_seen a (lit_var q)" and lv: "n_lim s \<le> level s (lit_var q)"
  shows "ana_ok F s k p qs
    (a\<lparr>a_seen := (a_seen a)(lit_var q := True), a_counter := a_counter a + 1\<rparr>)"
    (is "ana_ok F s k p qs ?a")
proof -
  have f: "- q \<in> set (trail s)" "q \<noteq> 0" using ana_ok_false_lit [OF core a qp k] .
  have p: "pending s ?a = insert (lit_var q) (pending s a)"
    using lv by (auto simp: pending_def)
  have c: "card (pending s ?a) = Suc (card (pending s a))"
    using ana_ok_pending_finite [OF a] ns by (simp add: p) (simp add: pending_def)
  obtain i where i: "i < k" "trail s ! i = - q" using a qp by (auto simp: ana_ok_def)
  have dist: "distinct (map lit_var (trail s))" using core by (simp add: sat_core_def trail_ok_def)
  have "j < k" if "j < n_trail s" "lit_var (trail s ! j) = lit_var q" for j
    using distinct_map_nth_eq [OF dist that(1), of i] i that k by simp
  moreover have o: "\<forall>i < n_trail s. lit_var (trail s ! i) \<in> pending s a \<longrightarrow> i < k"
    using a unfolding ana_ok_def by blast
  ultimately have 1: "\<forall>i < n_trail s. lit_var (trail s ! i) \<in> pending s ?a \<longrightarrow> i < k"
    unfolding p by blast
  have 2: "\<forall>\<sigma>. cnf_true \<sigma> F \<longrightarrow>
        (\<exists>q \<in> set (a_learn a). lit_true \<sigma> q) \<or>
        (\<exists>l \<in> set (trail s). lit_var l \<in> pending s ?a \<and> \<not> lit_true \<sigma> l) \<or>
        (\<exists>q \<in> set qs. q \<noteq> p \<and> lit_true \<sigma> q)"
  proof (intro allI impI)
    fix \<sigma> assume F: "cnf_true \<sigma> F"
    have d: "(\<exists>q \<in> set (a_learn a). lit_true \<sigma> q) \<or>
        (\<exists>l \<in> set (trail s). lit_var l \<in> pending s a \<and> \<not> lit_true \<sigma> l) \<or>
        (\<exists>r \<in> set (q # qs). r \<noteq> p \<and> lit_true \<sigma> r)"
      using a F unfolding ana_ok_def by blast
    have "\<not> lit_true \<sigma> (- q) \<or> \<not> lit_true \<sigma> q" using f by (simp add: lit_true_neg)
    moreover have "lit_var (- q) \<in> pending s ?a" by (simp add: p)
    ultimately show "(\<exists>q \<in> set (a_learn a). lit_true \<sigma> q) \<or>
        (\<exists>l \<in> set (trail s). lit_var l \<in> pending s ?a \<and> \<not> lit_true \<sigma> l) \<or>
        (\<exists>q \<in> set qs. q \<noteq> p \<and> lit_true \<sigma> q)"
      using d f(1) p by auto
  qed
  have 3: "\<forall>v. a_seen ?a v \<longrightarrow> v \<in> lit_var ` set (trail s)"
    using a f(1) by (auto simp: ana_ok_def image_iff intro: bexI [of _ "- q"])
  have 4: "\<forall>v. a_seen ?a v \<and> level s v < n_lim s \<longrightarrow> (\<exists>q \<in> set (a_learn ?a). lit_var q = v)"
    using a lv by (auto simp: ana_ok_def)
  show ?thesis
    unfolding ana_ok_def using a 1 2 3 4 c by (simp add: ana_ok_def)
qed

lemma ana_ok_mark_low:
  assumes core: "sat_core F s" and a: "ana_ok F s k p (q # qs) a" and k: "k \<le> n_trail s"
    and qp: "q \<noteq> p" and ns: "\<not> a_seen a (lit_var q)"
    and lv: "level s (lit_var q) < n_lim s" "level s (lit_var q) \<noteq> 0"
  shows "ana_ok F s k p qs
    (a\<lparr>a_seen := (a_seen a)(lit_var q := True), a_learn := a_learn a @ [q],
       a_bj := (if level s (lit_var q) > a_bj a then level s (lit_var q) else a_bj a)\<rparr>)"
    (is "ana_ok F s k p qs ?a")
proof -
  have f: "- q \<in> set (trail s)" "q \<noteq> 0" using ana_ok_false_lit [OF core a qp k] .
  have p: "pending s ?a = pending s a" using lv by (auto simp: pending_def)
  have 2: "\<forall>\<sigma>. cnf_true \<sigma> F \<longrightarrow>
        (\<exists>q \<in> set (a_learn ?a). lit_true \<sigma> q) \<or>
        (\<exists>l \<in> set (trail s). lit_var l \<in> pending s ?a \<and> \<not> lit_true \<sigma> l) \<or>
        (\<exists>q \<in> set qs. q \<noteq> p \<and> lit_true \<sigma> q)"
    using a unfolding p ana_ok_def by auto
  have 3: "\<forall>v. a_seen ?a v \<longrightarrow> v \<in> lit_var ` set (trail s)"
    using a f(1) by (auto simp: ana_ok_def image_iff intro: bexI [of _ "- q"])
  have 4: "\<forall>v. a_seen ?a v \<and> level s v < n_lim s \<longrightarrow> (\<exists>q \<in> set (a_learn ?a). lit_var q = v)"
    using a by (auto simp: ana_ok_def)
  have 5: "\<forall>r \<in> set (a_learn ?a). - r \<in> set (trail s) \<and> 0 < level s (lit_var r) \<and>
        level s (lit_var r) < n_lim s \<and> level s (lit_var r) \<le> a_bj ?a"
    using a f(1) lv by (auto simp: ana_ok_def)
  show ?thesis
    unfolding ana_ok_def p using a 2 3 4 5 lv(1) unfolding p by (simp add: ana_ok_def)
qed

lemma analyze_lits_ok:
  "sat_core F s \<Longrightarrow> k \<le> n_trail s \<Longrightarrow> ana_ok F s k p qs a \<Longrightarrow>
   ana_ok F s k p [] (analyze_lits s (n_lim s) p qs a) \<and>
   (\<forall>v. a_seen a v \<longrightarrow> a_seen (analyze_lits s (n_lim s) p qs a) v) \<and>
   (\<forall>q \<in> set qs. q \<noteq> p \<and> level s (lit_var q) \<noteq> 0 \<longrightarrow>
      a_seen (analyze_lits s (n_lim s) p qs a) (lit_var q))"
proof (induction qs arbitrary: a)
  case Nil
  then show ?case by simp
next
  case (Cons q qs)
  note IH = Cons.IH [OF Cons.prems(1,2)]
  consider (p) "q = p"
    | (seen) "q \<noteq> p" "a_seen a (lit_var q) \<or> level s (lit_var q) = 0"
    | (cur) "q \<noteq> p" "\<not> a_seen a (lit_var q)" "level s (lit_var q) \<noteq> 0"
        "n_lim s \<le> level s (lit_var q)"
    | (low) "q \<noteq> p" "\<not> a_seen a (lit_var q)" "level s (lit_var q) \<noteq> 0"
        "level s (lit_var q) < n_lim s"
    by force
  then show ?case
  proof cases
    case p
    have "ana_ok F s k p qs a" by (rule ana_ok_drop [OF Cons.prems(3)]) (simp add: p)
    from IH [OF this] p show ?thesis by auto
  next
    case seen
    have "ana_ok F s k p qs a"
      by (rule ana_ok_seen [OF Cons.prems(1,3,2) seen(2)])
    from IH [OF this] seen show ?thesis by auto
  next
    case cur
    note IH [OF ana_ok_mark_cur [OF Cons.prems(1,3,2) cur(1,2,4)]]
    with cur show ?thesis by (auto simp: Let_def)
  next
    case low
    note IH [OF ana_ok_mark_low [OF Cons.prems(1,3,2) low(1,2,4,3)]]
    with low show ?thesis by (auto simp: Let_def)
  qed
qed

lemma analyze_index_spec:
  "(\<forall>i. analyze_index s cur sn k \<le> i \<and> i < k \<longrightarrow>
      \<not> (sn (lit_var (trail s ! i)) \<and> cur \<le> level s (lit_var (trail s ! i)))) \<and>
   (analyze_index s cur sn k \<noteq> 0 \<longrightarrow>
      sn (lit_var (trail s ! (analyze_index s cur sn k - 1))) \<and>
      cur \<le> level s (lit_var (trail s ! (analyze_index s cur sn k - 1))))"
proof (induction k)
  case (Suc k)
  show ?case
  proof (cases "sn (lit_var (trail s ! k)) \<and> cur \<le> level s (lit_var (trail s ! k))")
    case True
    then show ?thesis by (auto simp: Let_def)
  next
    case False
    then have "analyze_index s cur sn (Suc k) = analyze_index s cur sn k" by (auto simp: Let_def)
    with Suc False show ?thesis by (auto simp: less_Suc_eq simp del: analyze_index.simps)
  qed
qed simp

text \<open>
  The result of the loop: \<open>p\<close> is a literal of the current level and
  \<open>\<not>p \<or> learned\<close> is entailed.
\<close>

definition ana_result :: "int list list \<Rightarrow> bvsat \<Rightarrow> int \<Rightarrow> ana \<Rightarrow> bool" where
  "ana_result F s p a \<longleftrightarrow>
     p \<in> set (trail s) \<and> level s (lit_var p) = n_lim s \<and>
     (\<forall>v. a_seen a v \<longrightarrow> v \<in> lit_var ` set (trail s)) \<and>
     (\<forall>q \<in> set (a_learn a). - q \<in> set (trail s) \<and> 0 < level s (lit_var q) \<and>
        level s (lit_var q) \<le> a_bj a) \<and>
     a_bj a < n_lim s \<and> entails F (- p # a_learn a)"

lemma ana_ok_no_pending:
  assumes a: "ana_ok F s k p [] a" and none: "pending s a = {}"
  shows "entails F (a_learn a)"
  using a none by (auto simp: ana_ok_def entails_def clause_true_def)

lemma ana_result_no_pending:
  assumes core: "sat_core F s" and a: "ana_ok F s k p [] a" and none: "pending s a = {}"
    and p: "p \<in> set (trail s)" "level s (lit_var p) = n_lim s"
  shows "ana_result F s p a"
  using ana_ok_no_pending [OF a none] a p
  by (auto simp: ana_result_def ana_ok_def entails_def clause_true_Cons)

lemma analyze_loop_result:
  "sat_core F s \<Longrightarrow> k \<le> n_trail s \<Longrightarrow> cur = n_lim s \<Longrightarrow> ana_ok F s k p c a \<Longrightarrow>
   (p = 0 \<longrightarrow> (\<exists>q \<in> set c. q \<noteq> 0 \<and> level s (lit_var q) = n_lim s)) \<Longrightarrow>
   (p \<noteq> 0 \<longrightarrow> p \<in> set (trail s) \<and> level s (lit_var p) = n_lim s) \<Longrightarrow>
   analyze_loop s cur c p k a = (p', a') \<Longrightarrow> ana_result F s p' a'"
proof (induction s cur c p k a rule: analyze_loop.induct)
  case (1 s cur c p k a)
  define a1 where "a1 = analyze_lits s cur p c a"
  define k1 where "k1 = analyze_index s cur (a_seen a1) k"
  have core: "sat_core F s" and k: "k \<le> n_trail s" and cur: "cur = n_lim s" using 1 by auto
  have nl: "0 < n_lim s" using "1.prems"(4) by (auto simp: ana_ok_def)
  have ok: "ana_ok F s k p [] a1"
    and sn: "\<forall>q \<in> set c. q \<noteq> p \<and> level s (lit_var q) \<noteq> 0 \<longrightarrow> a_seen a1 (lit_var q)"
    using analyze_lits_ok [OF core k "1.prems"(4)] cur by (auto simp: a1_def)
  have card: "a_counter a1 = int (card (pending s a1))" using ok unfolding ana_ok_def by blast
  have below: "\<forall>i < n_trail s. lit_var (trail s ! i) \<in> pending s a1 \<longrightarrow> i < k"
    using ok unfolding ana_ok_def by blast
  have k1k: "k1 \<le> k" by (simp add: k1_def analyze_index_le)
  have above: "\<not> lit_var (trail s ! i) \<in> pending s a1" if "k1 \<le> i" "i < n_trail s" for i
  proof (cases "i < k")
    case True
    then show ?thesis
      using analyze_index_spec [of s cur "a_seen a1" k] that cur by (auto simp: k1_def pending_def)
  next
    case False
    then show ?thesis using below that by auto
  qed
  have none: "pending s a1 = {}" if "k1 = 0 \<or> a_counter a1 \<le> 0"
  proof (rule ccontr)
    assume ne: "pending s a1 \<noteq> {}"
    then have "0 < a_counter a1" using card ana_ok_pending_finite [OF ok] by (simp add: card_gt_0_iff)
    moreover have "k1 \<noteq> 0"
    proof
      assume "k1 = 0"
      then have "lit_var l \<notin> pending s a1" if "l \<in> set (trail s)" for l
        using above that by (auto simp: in_set_conv_nth)
      moreover have "pending s a1 \<subseteq> lit_var ` set (trail s)"
        using ok by (auto simp: ana_ok_def pending_def)
      ultimately show False using ne by auto
    qed
    ultimately show False using that by simp
  qed
  have loop: "analyze_loop s cur c p k a =
      (if k1 = 0 \<or> a_counter a1 \<le> 0 then (p, a1)
       else let p1 = trail s ! (k1 - 1); r = reason s (lit_var p1);
              a2 = a1\<lparr>a_seen := (a_seen a1)(lit_var p1 := False), a_counter := a_counter a1 - 1\<rparr>
            in if r = 0 then (p1, a2)
               else analyze_loop s cur (cl s ! (r - 1)) p1 (k1 - 1) a2)"
    by (subst analyze_loop.simps) (simp only: Let_def a1_def k1_def)
  show ?case
  proof (cases "k1 = 0 \<or> a_counter a1 \<le> 0")
    case True
    have "p \<noteq> 0"
    proof
      assume "p = 0"
      then obtain q where "q \<in> set c" "q \<noteq> 0" "level s (lit_var q) = n_lim s"
        using "1.prems"(5) by auto
      then have "lit_var q \<in> pending s a1" using sn \<open>p = 0\<close> nl by (auto simp: pending_def)
      then show False using none [OF True] by auto
    qed
    then show ?thesis
      using ana_result_no_pending [OF core ok none [OF True]] "1.prems"(6,7) loop True by simp
  next
    case False
    let ?p = "trail s ! (k1 - 1)"
    let ?r = "reason s (lit_var ?p)"
    define a2 where
      "a2 = a1\<lparr>a_seen := (a_seen a1)(lit_var ?p := False), a_counter := a_counter a1 - 1\<rparr>"
    have k1: "0 < k1" "k1 - 1 < n_trail s" "k1 - 1 < k" using False k1k k by auto
    have pin: "?p \<in> set (trail s)" using k1 by auto
    have pp: "lit_var ?p \<in> pending s a1"
      using analyze_index_spec [of s cur "a_seen a1" k] False cur by (simp add: k1_def pending_def)
    have plv: "level s (lit_var ?p) = n_lim s"
      using pp level_le_n_lim [OF _ pin] core by (auto simp: pending_def sat_core_def)
    have p0: "?p \<noteq> 0" using pin core by (auto simp: sat_core_def trail_ok_def lit_ok_def)
    have pend2: "pending s a2 = pending s a1 - {lit_var ?p}" by (auto simp: a2_def pending_def)
    have ent: "(\<exists>q \<in> set (a_learn a1). lit_true \<sigma> q) \<or>
        (\<exists>l \<in> set (trail s). lit_var l \<in> pending s a2 \<and> \<not> lit_true \<sigma> l) \<or> \<not> lit_true \<sigma> ?p"
      if F: "cnf_true \<sigma> F" for \<sigma>
    proof -
      have "(\<exists>q \<in> set (a_learn a1). lit_true \<sigma> q) \<or>
        (\<exists>l \<in> set (trail s). lit_var l \<in> pending s a1 \<and> \<not> lit_true \<sigma> l)"
        using ok F unfolding ana_ok_def by auto
      moreover have "l = ?p" if "l \<in> set (trail s)" "lit_var l = lit_var ?p" for l
        using that pin core by (auto simp: sat_core_def trail_ok_def distinct_map dest: inj_onD)
      ultimately show ?thesis unfolding pend2 by blast
    qed
    have seen2: "\<forall>v. a_seen a2 v \<longrightarrow> v \<in> lit_var ` set (trail s)"
      using ok by (auto simp: ana_ok_def a2_def)
    have learn: "\<forall>q \<in> set (a_learn a2). - q \<in> set (trail s) \<and> 0 < level s (lit_var q) \<and>
        level s (lit_var q) < n_lim s \<and> level s (lit_var q) \<le> a_bj a2" "a_bj a2 < n_lim s"
      "a_learn a2 = a_learn a1"
      using ok unfolding ana_ok_def by (simp_all add: a2_def)
    have below2: "i < k1 - 1" if "i < n_trail s" "lit_var (trail s ! i) \<in> pending s a2" for i
    proof -
      have "i < k1" using above [of i] that pend2 by (metis DiffE not_le)
      moreover have "i \<noteq> k1 - 1" using that pend2 by auto
      ultimately show ?thesis by simp
    qed
    show ?thesis
    proof (cases "?r = 0")
      case True
      have "analyze_loop s cur c p k a = (?p, a2)"
        using loop \<open>\<not> (k1 = 0 \<or> a_counter a1 \<le> 0)\<close> True
        by (simp only: Let_def a2_def if_False if_True simp_thms)
      then have "p' = ?p" "a' = a2" using "1.prems"(7) by simp_all
      moreover have "pending s a2 = {}"
      proof (rule ccontr)
        assume "pending s a2 \<noteq> {}"
        then obtain v where v: "v \<in> pending s a2" by auto
        then obtain l where "l \<in> set (trail s)" "lit_var l = v" using seen2 by (auto simp: pending_def)
        then obtain i where i: "i < n_trail s" "lit_var (trail s ! i) \<in> pending s a2"
          using v by (metis in_set_conv_nth)
        have lok: "level_ok s" using core by (simp add: sat_core_def)
        have "k1 - 1 \<in> set (trail_lim s)"
          using core True plv nl k1 by (auto simp: sat_core_def reason_ok_def)
        then obtain j where j: "j < n_lim s" "trail_lim s ! j = k1 - 1"
          by (auto simp: in_set_conv_nth)
        have "lev (trail_lim s) i \<le> j"
          using lev_sorted_less [of "trail_lim s" j i] lok j below2 [OF i] by (simp add: level_ok_def)
        moreover have "level s (lit_var (trail s ! i)) = lev (trail_lim s) i"
          using lok i by (simp add: level_ok_def)
        ultimately show False using i j by (simp add: pending_def)
      qed
      then have "entails F (- ?p # a_learn a2)"
        using ent p0 learn(3) by (auto simp: entails_def clause_true_def lit_true_neg)
      then have "ana_result F s ?p a2"
        using pin plv seen2 learn by (auto simp: ana_result_def)
      ultimately show ?thesis by simp
    next
      case False
      let ?c = "cl s ! (?r - 1)"
      have "implied_at s (k1 - 1) ?p (?r - 1)"
        using core k1 False by (auto simp: sat_core_def reason_ok_def)
      then have im: "?r - 1 < n_cl s" "?p \<in> set ?c"
        "\<forall>m \<in> set ?c. m \<noteq> ?p \<longrightarrow> - m \<in> set (take (k1 - 1) (trail s))"
        by (auto simp: implied_at_def)
      have "entails F ?c" using core im(1) by (simp add: sat_core_def ent_ok_def)
      then have ent2: "(\<exists>q \<in> set (a_learn a2). lit_true \<sigma> q) \<or>
        (\<exists>l \<in> set (trail s). lit_var l \<in> pending s a2 \<and> \<not> lit_true \<sigma> l) \<or>
        (\<exists>q \<in> set ?c. q \<noteq> ?p \<and> lit_true \<sigma> q)" if "cnf_true \<sigma> F" for \<sigma>
        using ent [OF that] that learn(3) unfolding entails_def clause_true_def by metis
      have pos: "\<forall>q \<in> set ?c. q \<noteq> ?p \<longrightarrow> (\<exists>i < k1 - 1. trail s ! i = - q)"
        using im(3) k1 by (fastforce simp: in_set_conv_nth)
      have cnt: "a_counter a2 = int (card (pending s a2))"
      proof -
        have "card (pending s a1) = Suc (card (pending s a2))"
          using ana_ok_pending_finite [OF ok] pp unfolding pend2 by (rule card.remove)
        then show ?thesis using card by (simp add: a2_def)
      qed
      have low: "\<forall>v. a_seen a2 v \<and> level s v < n_lim s \<longrightarrow> (\<exists>q \<in> set (a_learn a2). lit_var q = v)"
        using ok by (auto simp: ana_ok_def a2_def)
      have ok2: "ana_ok F s (k1 - 1) ?p ?c a2"
        unfolding ana_ok_def using seen2 learn(1,2) low cnt below2 pos ent2 by blast
      have eq: "analyze_loop s cur ?c ?p (k1 - 1) a2 = (p', a')"
        using "1.prems"(7) loop \<open>\<not> (k1 = 0 \<or> a_counter a1 \<le> 0)\<close> False
        by (simp only: Let_def a2_def if_False)
      show ?thesis
        by (rule "1.IH" [OF a1_def k1_def \<open>\<not> (k1 = 0 \<or> a_counter a1 \<le> 0)\<close> refl refl a2_def False
              core _ cur ok2 _ _ eq]) (use k1 p0 pin plv in auto)
    qed
  qed
qed

section \<open>The whole analysis\<close>

lemma fold_unsee: "fold (\<lambda>t sn. sn(lit_var t := False)) tr sn v \<longleftrightarrow> sn v \<and> v \<notin> lit_var ` set tr"
  by (induction tr arbitrary: sn) auto

lemma has_tautology_trail:
  assumes "trail_ok s" "\<forall>q \<in> set c. - q \<in> set (trail s)"
  shows "\<not> has_tautology c"
  using assms(2)
proof (induction c)
  case (Cons l ls)
  then show ?case using trail_consistent [OF assms(1)] by fastforce
qed simp

lemma ana_ok_init:
  assumes core: "sat_core F s" and ci: "ci < n_cl s"
    and f: "\<forall>l \<in> set (cl s ! ci). - l \<in> set (trail s)" and n: "0 < n_lim s"
  shows "ana_ok F s (n_trail s) 0 (cl s ! ci)
    \<lparr>a_seen = seen s, a_learn = [], a_counter = 0, a_bj = 0\<rparr>"
proof -
  have none: "\<not> seen s v" for v using core by (simp add: sat_core_def store_ok_def)
  have e: "\<exists>q \<in> set (cl s ! ci). q \<noteq> 0 \<and> lit_true \<sigma> q" if "cnf_true \<sigma> F" for \<sigma>
  proof -
    have c: "cl s ! ci \<in> set (cl s)" using ci by simp
    then have "entails F (cl s ! ci)" "\<forall>l \<in> set (cl s ! ci). l \<noteq> 0"
      using core by (auto simp: sat_core_def store_ok_def cls_ok_def lit_ok_def)
    then show ?thesis using that unfolding entails_def clause_true_def by blast
  qed
  have i: "\<exists>i < n_trail s. trail s ! i = - q" if "q \<in> set (cl s ! ci)" for q
    using f that by (auto simp: in_set_conv_nth)
  show ?thesis using n i e by (simp add: ana_ok_def pending_def none)
qed

lemma cdcl_analyze_result:
  assumes core: "sat_core F s" and ci: "ci < n_cl s"
    and f: "\<forall>l \<in> set (cl s ! ci). - l \<in> set (trail s)"
    and cur: "\<exists>l \<in> set (cl s ! ci). level s (lit_var l) = n_lim s" and n: "0 < n_lim s"
  obtains p learn bj where
    "cdcl_analyze s ci 0 = (Some (n_cl s), bj, bv_sat_add_clause s (- p # learn))"
    "p \<in> set (trail s)" "level s (lit_var p) = n_lim s" "bj < n_lim s"
    "\<forall>q \<in> set learn. - q \<in> set (trail s) \<and> 0 < level s (lit_var q) \<and> level s (lit_var q) \<le> bj"
    "entails F (- p # learn)"
proof -
  let ?a0 = "\<lparr>a_seen = seen s, a_learn = [], a_counter = 0, a_bj = 0\<rparr>"
  obtain p a where r: "analyze_loop s (n_lim s) (cl s ! ci) 0 (n_trail s) ?a0 = (p, a)"
    by fastforce
  have lit: "l \<noteq> 0" if "l \<in> set (cl s ! ci)" for l
    using core ci that by (auto simp: sat_core_def store_ok_def cls_ok_def lit_ok_def)
  have "ana_result F s p a"
    by (rule analyze_loop_result [OF core le_refl refl ana_ok_init [OF core ci f n] _ _ r])
      (use cur lit in auto)
  then have a: "p \<in> set (trail s)" "level s (lit_var p) = n_lim s"
    "\<forall>v. a_seen a v \<longrightarrow> v \<in> lit_var ` set (trail s)"
    "\<forall>q \<in> set (a_learn a). - q \<in> set (trail s) \<and> 0 < level s (lit_var q) \<and>
        level s (lit_var q) \<le> a_bj a"
    "a_bj a < n_lim s" "entails F (- p # a_learn a)"
    by (auto simp: ana_result_def)
  have tok: "trail_ok s" using core by (simp add: sat_core_def)
  have p0: "p \<noteq> 0" using a(1) tok by (auto simp: trail_ok_def lit_ok_def)
  have none: "seen s = (\<lambda>_. False)" using core by (auto simp: sat_core_def store_ok_def)
  have s1: "s\<lparr>seen := fold (\<lambda>t sn. sn(lit_var t := False)) (trail s) (a_seen a)\<rparr> = s"
  proof -
    have "fold (\<lambda>t sn. sn(lit_var t := False)) (trail s) (a_seen a) = seen s"
      using a(3) by (auto simp: fun_eq_iff fold_unsee none)
    then show ?thesis by simp
  qed
  have taut: "\<not> has_tautology (- p # a_learn a)"
    by (rule has_tautology_trail [OF tok]) (use a in auto)
  define bj where "bj = (if a_learn a = [] then 0 else a_bj a)"
  have "cdcl_analyze s ci 0 = (Some (n_cl s), bj, bv_sat_add_clause s (- p # a_learn a))"
    using p0 taut by (simp add: cdcl_analyze_def r s1 Let_def bj_def del: has_tautology.simps)
  moreover have "bj < n_lim s" using a(5) n by (simp only: bj_def split: if_splits) simp
  moreover have "\<forall>q \<in> set (a_learn a). - q \<in> set (trail s) \<and> 0 < level s (lit_var q) \<and>
      level s (lit_var q) \<le> bj"
    using a(4) by (auto simp: bj_def)
  ultimately show ?thesis using that a by blast
qed

end
