(* ===== verification/BvSatSolve.thy ===== *)
theory BvSatSolve
  imports BvSatAnalyze
begin

text \<open>
  The search loop of the SAT solver: learning with backjumping and the
  chronological mode keep the invariant, every loop returns, and the verdict
  \<open>UNSAT\<close> is given only for an unsatisfiable formula.
\<close>

section \<open>Backtracking\<close>

lemma take_level_iff:
  assumes core: "sat_core F s" and j: "j < n_lim s" and m: "m \<in> set (trail s)"
  shows "m \<in> set (take (trail_lim s ! j) (trail s)) \<longleftrightarrow> level s (lit_var m) \<le> j"
proof -
  have ok: "level_ok s" "distinct (trail s)"
    using core by (auto simp: sat_core_def trail_ok_def distinct_map)
  obtain i where i: "i < n_trail s" "m = trail s ! i" using m by (auto simp: in_set_conv_nth)
  have "m \<in> set (take (trail_lim s ! j) (trail s)) \<longleftrightarrow> i < trail_lim s ! j"
    using i ok(2) by (auto simp: in_set_conv_nth nth_eq_iff_index_eq)
  also have "\<dots> \<longleftrightarrow> lev (trail_lim s) i \<le> j"
    using ok(1) j by (intro lev_sorted_less) (auto simp: level_ok_def)
  finally show ?thesis using ok(1) i by (simp add: level_ok_def)
qed

definition same_search :: "bvsat \<Rightarrow> bvsat \<Rightarrow> bool" where
  "same_search s t \<longleftrightarrow> n_vars t = n_vars s \<and> budget t = budget s \<and> cdcl t = cdcl s \<and>
     conflicts t = conflicts s"

lemma cdcl_learn_inv:
  assumes core: "sat_core F s" and conf: "conflict_ok s" and n: "0 < n_lim s"
  obtains t where "cdcl_learn s = Some t" "sat_inv F t" "same_search s t"
proof -
  obtain ci where ci: "conflict_cl s = int ci" "ci < n_cl s"
    "\<forall>l \<in> set (cl s ! ci). - l \<in> set (trail s)"
    "\<exists>l \<in> set (cl s ! ci). level s (lit_var l) = n_lim s"
    using conf unfolding conflict_ok_def by blast
  obtain p learn bj where a:
    "cdcl_analyze s ci 0 = (Some (n_cl s), bj, bv_sat_add_clause s (- p # learn))"
    "p \<in> set (trail s)" "level s (lit_var p) = n_lim s" "bj < n_lim s"
    "\<forall>q \<in> set learn. - q \<in> set (trail s) \<and> 0 < level s (lit_var q) \<and> level s (lit_var q) \<le> bj"
    "entails F (- p # learn)"
    by (rule cdcl_analyze_result [OF core ci(2-4) n])
  define s1 where "s1 = bv_sat_add_clause s (- p # learn)"
  define s2 where "s2 = backjump s1 bj"
  have tok: "trail_ok s" using core by (simp add: sat_core_def)
  have lits: "\<forall>l \<in> set (- p # learn). lit_ok (n_vars s) l"
    using a(2,5) tok lit_ok_neg by (auto simp: trail_ok_def simp del: lit_ok_neg)
  have c1: "sat_core F s1" unfolding s1_def by (rule sat_core_add_clause [OF core lits a(6)])
  have e1: "trail s1 = trail s" "trail_lim s1 = trail_lim s" "level s1 = level s"
    "n_vars s1 = n_vars s" "cl s1 ! n_cl s = - p # learn" "n_cl s1 = Suc (n_cl s)"
    "same_search s s1"
    by (simp_all add: s1_def bv_sat_add_clause_def same_search_def)
  have c2: "sat_core F s2" and u: "undone s1 (trail_lim s1 ! bj) bj s2"
    using backjump_undone [OF c1, of bj] a(4) e1 by (auto simp: s2_def)
  have e2: "trail s2 = take (trail_lim s ! bj) (trail s)" "n_lim s2 = bj" "cl s2 = cl s1"
    "n_vars s2 = n_vars s" "same_search s s2"
    using u e1 a(4) by (auto simp: undone_def same_search_def)
  have pout: "p \<notin> set (trail s2)"
    using take_level_iff [OF core a(4,2)] a(3,4) by (simp add: e2)
  have npout: "- p \<notin> set (trail s2)"
    using trail_consistent [OF tok a(2)] by (auto simp: e2 dest: in_set_takeD)
  have im: "implied_at s2 (n_trail s2) (- p) (n_cl s)"
    unfolding implied_at_def
  proof (intro conjI ballI impI)
    fix m assume "m \<in> set (cl s2 ! n_cl s)" "m \<noteq> - p"
    then have m: "m \<in> set learn" by (simp add: e2 e1)
    then have "- m \<in> set (trail s)" "level s (lit_var (- m)) \<le> bj" using a(5) by auto
    then show "- m \<in> set (take (n_trail s2) (trail s2))"
      using take_level_iff [OF core a(4)] unfolding take_all [OF le_refl] by (simp add: e2)
  qed (simp_all add: e2 e1)
  have ent: "n_lim s2 = 0 \<longrightarrow> entails F [- p]"
  proof
    assume "n_lim s2 = 0"
    then have "learn = []" using a(5) by (cases learn) (auto simp: e2)
    then show "entails F [- p]" using a(6) by simp
  qed
  let ?t = "trail_push_reason s2 (- p) bj (n_cl s)"
  have "sat_core F ?t"
    using push_core [OF c2, of "- p" "Suc (n_cl s)"] lits pout npout im ent
    by (simp add: trail_push_reason_eq e2)
  moreover have "head_ok (?t\<lparr>q_head := n_trail ?t - 1\<rparr>)"
    using e2(2) by (simp add: head_ok_def sat_simps trail_push_reason_eq nth_append)
  ultimately have "sat_inv F (?t\<lparr>q_head := n_trail ?t - 1\<rparr>)" by (simp add: sat_inv_def)
  moreover have "cdcl_learn s = Some (?t\<lparr>q_head := n_trail ?t - 1\<rparr>)"
    using ci(1,2) a(1) by (simp add: cdcl_learn_def s1_def [symmetric] s2_def [symmetric] e1 e2 Let_def)
  moreover have "same_search s (?t\<lparr>q_head := n_trail ?t - 1\<rparr>)"
    using e2 by (simp add: same_search_def trail_push_reason_eq sat_simps)
  ultimately show ?thesis using that by blast
qed

lemma chrono_backtrack_inv:
  assumes core: "sat_core F s" and n: "0 < n_lim s"
  shows "sat_inv F (chrono_backtrack s)" "same_search s (chrono_backtrack s)"
proof -
  let ?top = "n_lim s - 1"
  define start where "start = trail_lim s ! ?top"
  have st: "trail_lim s ! (n_lim s - Suc 0) = start" by (simp add: start_def)
  have start: "start < n_trail s" using core n by (simp add: sat_core_def level_ok_def start_def)
  have tok: "trail_ok s" using core by (simp add: sat_core_def)
  have fl: "length (flipped s) = Suc ?top" using core n by (simp add: sat_core_def)
  obtain r where r:
    "trail_pop_to s start = s\<lparr>trail := take start (trail s), assign := asg (take start (trail s)),
       reason := r\<rparr>"
    "\<forall>l \<in> set (take start (trail s)). r (lit_var l) = reason s (lit_var l)"
    using trail_pop_to_eq [OF tok, of start] start by auto
  define t where "t = s\<lparr>trail := take start (trail s), assign := asg (take start (trail s)),
      reason := r, trail_lim := take ?top (trail_lim s), flipped := take ?top (flipped s)\<rparr>"
  have t: "sat_core F t"
    unfolding t_def by (rule truncate_core [OF core _ start_def r(2)]) (use n in simp)
  let ?dec = "trail s ! start"
  have "sat_inv F (chrono_backtrack s) \<and> same_search s (chrono_backtrack s)"
  proof (cases "flipped s ! ?top")
    case True
    then have e: "chrono_backtrack s = t\<lparr>q_head := start\<rparr>"
      using start by (simp add: chrono_backtrack_def st r(1) t_def Let_def)
    have "head_ok (t\<lparr>q_head := start\<rparr>)" using start by (simp add: head_ok_def t_def)
    then show ?thesis using t by (simp add: e sat_inv_def) (simp add: same_search_def t_def)
  next
    case False
    have up: "(trail_lim s)[?top := start] = take ?top (trail_lim s) @ [start]"
      "(flipped s)[?top := True] = take ?top (flipped s) @ [True]"
      using n fl by (simp_all add: upd_conv_take_nth_drop)
    have swap: "u\<lparr>flipped := f, trail_lim := l\<rparr> = u\<lparr>trail_lim := l, flipped := f\<rparr>" for u :: bvsat and f l
      by simp
    have e: "chrono_backtrack s = (trail_push (t\<lparr>trail_lim := trail_lim t @ [n_trail t],
            flipped := flipped t @ [True]\<rparr>) (- ?dec) (Suc (n_lim t)))\<lparr>q_head := n_trail t\<rparr>"
      using False start n
      by (simp add: chrono_backtrack_def st r(1) t_def Let_def up [unfolded One_nat_def] sat_simps)
        (subst swap, rule refl)
    have dec: "lit_ok (n_vars t) (- ?dec)"
      using tok start by (simp add: trail_ok_def t_def)
    have dist: "distinct (map lit_var (trail s))" using tok by (simp add: trail_ok_def)
    have "lit_var (trail s ! i) \<noteq> lit_var ?dec" if "i < start" for i
      using distinct_map_nth_eq [OF dist, of i start] that start by auto
    then have "lit_var ?dec \<notin> lit_var ` set (take start (trail s))"
      using start by (force simp: in_set_conv_nth image_iff)
    then have "assign t (lit_var (- ?dec)) = 0"
      using asg_nonzero_iff [of "take start (trail s)" "lit_var ?dec"] by (simp add: t_def)
    then show ?thesis
      unfolding e using open_level_inv [OF t dec]
      by (simp add: same_search_def sat_simps) (simp add: t_def)
  qed
  then show "sat_inv F (chrono_backtrack s)" "same_search s (chrono_backtrack s)" by auto
qed

section \<open>The loops\<close>

definition loop_post :: "int list list \<Rightarrow> bvsat \<Rightarrow> bvsat_result option \<Rightarrow> bvsat \<Rightarrow> bool" where
  "loop_post F s v t \<longleftrightarrow>
     n_vars t = n_vars s \<and> budget t = budget s \<and> sat_core F t \<and>
     (v = None \<longrightarrow> sat_inv F t \<and>
        (conflicts t = conflicts s \<and> n_trail s \<le> n_trail t \<or>
         conflicts s < conflicts t \<and> conflicts t \<le> budget t)) \<and>
     (v = Some BV_SAT_UNSAT \<longrightarrow> unsat F) \<and> v \<noteq> Some BV_SAT_SAT"

lemma conflict_level0_unsat:
  assumes "sat_core F s" "conflict_ok s" "n_lim s = 0"
  shows "unsat F"
proof -
  obtain ci where ci: "ci < n_cl s" "\<forall>l \<in> set (cl s ! ci). - l \<in> set (trail s)"
    using assms(2) by (auto simp: conflict_ok_def)
  have c: "cl s ! ci \<in> set (cl s)" using ci by simp
  then have e: "entails F (cl s ! ci)" and "\<forall>l \<in> set (cl s ! ci). l \<noteq> 0"
    using assms(1) by (auto simp: sat_core_def store_ok_def cls_ok_def lit_ok_def)
  then show ?thesis using falsified_level0_unsat [OF assms(1,3) e] ci by auto
qed

lemma grows_trail: "grows s t \<Longrightarrow> n_trail s \<le> n_trail t"
  by (auto simp: grows_def)

lemma conflict_loop_total:
  "sat_inv F s \<Longrightarrow> \<exists>v t. conflict_loop s = Some (v, t) \<and> loop_post F s v t"
proof (induction "nat (budget s - conflicts s)" arbitrary: s rule: less_induct)
  case less
  obtain conf s1 where p: "sat_propagate s = Some (conf, s1)" "sat_inv F s1" "grows s s1"
    "conf \<longrightarrow> conflict_ok s1"
    using sat_propagate_total [OF less.prems] by blast
  define s2 where "s2 = s1\<lparr>conflicts := conflicts s1 + 1\<rparr>"
  have s2: "sat_inv F s2" "n_vars s2 = n_vars s" "budget s2 = budget s"
    "conflicts s2 = conflicts s + 1" "conf \<Longrightarrow> conflict_ok s2"
    using p by (auto simp: s2_def grows_def conflict_ok_def)
  then have core2: "sat_core F s2" by (simp add: sat_inv_def)
  note unf = conflict_loop.simps [of s] p(1)
  show ?case
  proof (cases "\<not> conf \<or> conflicts s2 > budget s2 \<or> n_lim s2 = 0")
    case True
    consider "\<not> conf" | "conf" "conflicts s2 > budget s2"
      | "conf" "\<not> conflicts s2 > budget s2" "n_lim s2 = 0" using True by blast
    then show ?thesis
    proof cases
      case 1
      have "loop_post F s None s1"
        using p(2,3) grows_trail [OF p(3)] by (auto simp: loop_post_def grows_def sat_inv_def)
      then show ?thesis using 1 by (simp add: unf)
    next
      case 2
      then show ?thesis using s2 core2 by (simp add: unf s2_def [symmetric] loop_post_def Let_def)
    next
      case 3
      have "unsat F" using conflict_level0_unsat [OF core2 s2(5) [OF 3(1)] 3(3)] .
      then show ?thesis using 3 s2 core2
        by (simp add: unf s2_def [symmetric] loop_post_def Let_def)
    qed
  next
    case False
    then have conf: "conf" "conflict_ok s2" "0 < n_lim s2" "conflicts s2 \<le> budget s2"
      using s2 by auto
    have again: "\<exists>v t. conflict_loop u = Some (v, t) \<and> loop_post F s v t"
      if u: "sat_inv F u" "same_search s2 u" for u
    proof -
      have e: "n_vars u = n_vars s" "budget u = budget s" "conflicts u = conflicts s + 1"
        using u s2 by (auto simp: same_search_def)
      then have "nat (budget u - conflicts u) < nat (budget s - conflicts s)"
        using conf(4) s2 by simp
      from less.hyps [OF this u(1)] obtain v t where
        t: "conflict_loop u = Some (v, t)" "loop_post F u v t" by blast
      then have "loop_post F s v t" using e conf(4) s2 by (auto simp: loop_post_def)
      with t(1) show ?thesis by blast
    qed
    show ?thesis
    proof (cases "cdcl s2")
      case False
      have "conflict_loop s = conflict_loop (chrono_backtrack s2)"
        using conf False by (simp add: unf s2_def [symmetric] Let_def)
      then show ?thesis using again chrono_backtrack_inv [OF core2 conf(3)] by simp
    next
      case True
      obtain s3 where l: "cdcl_learn s2 = Some s3" "sat_inv F s3" "same_search s2 s3"
        by (rule cdcl_learn_inv [OF core2 conf(2,3)])
      obtain conf' s4 where q: "sat_propagate s3 = Some (conf', s4)" "sat_inv F s4" "grows s3 s4"
        "conf' \<longrightarrow> conflict_ok s4"
        using sat_propagate_total [OF l(2)] by blast
      have s4: "same_search s2 s4" using l(3) q(3) by (auto simp: same_search_def grows_def)
      have core4: "sat_core F s4" using q(2) by (simp add: sat_inv_def)
      have eq: "conflict_loop s =
          (if conf' then (if n_lim s4 = 0 then Some (Some BV_SAT_UNSAT, s4) else conflict_loop s4)
           else Some (None, s4))"
        using conf True l(1) q(1) by (simp add: unf s2_def [symmetric] Let_def)
      show ?thesis
      proof (cases "conf' \<and> n_lim s4 \<noteq> 0")
        case True
        then show ?thesis using again [OF q(2) s4] eq by simp
      next
        case False
        have "conf' \<Longrightarrow> unsat F" using False q(4) conflict_level0_unsat [OF core4] by simp
        then show ?thesis using False eq s2 s4 core4 q(2) conf(4)
          by (auto simp: loop_post_def same_search_def)
      qed
    qed
  qed
qed

lemma decide_loop_total:
  "sat_core F s \<Longrightarrow> \<exists>r t. decide_loop s = Some (r, t) \<and> n_vars t = n_vars s \<and>
     budget t = budget s \<and> sat_core F t \<and> (r = BV_SAT_UNSAT \<longrightarrow> unsat F) \<and>
     (r = BV_SAT_SAT \<longrightarrow> (\<forall>v. 1 \<le> v \<and> v \<le> n_vars s \<longrightarrow> assign t v \<noteq> 0))"
proof (induction s rule: wf_induct_rule [OF wf_measures [of
    "[\<lambda>s. nat (budget s - conflicts s), \<lambda>s. n_vars s - n_trail s]"]])
  case (1 s)
  note unf = decide_loop.simps [of s]
  show ?case
  proof (cases "sat_decide_var s = 0")
    case True
    then show ?thesis using "1.prems" sat_decide_var_cases [of s] by (auto simp: unf Let_def)
  next
    case False
    define d where "d = sat_decide s (sat_decide_var s)"
    have v: "1 \<le> sat_decide_var s" "sat_decide_var s \<le> n_vars s" "assign s (sat_decide_var s) = 0"
      using False sat_decide_var_cases [of s] by auto
    note dec = sat_decide_inv [OF "1.prems" v, folded d_def]
    obtain vd t where t: "conflict_loop d = Some (vd, t)" "loop_post F d vd t"
      using conflict_loop_total [OF dec(1)] by blast
    note tp = t(2) [unfolded loop_post_def]
    show ?thesis
    proof (cases vd)
      case (Some r)
      then have "decide_loop s = Some (r, t)" using False t(1) by (simp add: unf Let_def d_def [symmetric])
      then show ?thesis using tp Some dec(3,4) by auto
    next
      case None
      then have eq: "decide_loop s = decide_loop t"
        using False t(1) by (simp add: unf Let_def d_def [symmetric])
      have inv: "sat_inv F t" using tp None by simp
      then have core: "sat_core F t" by (simp add: sat_inv_def)
      have "n_trail t \<le> n_vars t" "n_trail s < n_vars s"
        using trail_vars_bound [of t] core trail_vars_bound [of d] dec
        by (auto simp: sat_core_def sat_inv_def)
      then have "(t, s) \<in> measures [\<lambda>s. nat (budget s - conflicts s), \<lambda>s. n_vars s - n_trail s]"
        using tp None dec by auto
      from "1.IH" [OF this core] show ?thesis unfolding eq using tp dec(3,4) by simp
    qed
  qed
qed

section \<open>Level 0\<close>

lemma head_ok_level0:
  "sat_core F s \<Longrightarrow> n_lim s = 0 \<Longrightarrow> head_ok (s\<lparr>q_head := 0\<rparr>)"
  by (auto simp: head_ok_def sat_core_def level_ok_def lev_def)

lemma scan_units_progressed: "fst (snd (scan_units s cs True))"
  by (induction cs arbitrary: s) (auto simp: case_prod_beta)

lemma scan_units_inv:
  "sat_core F s \<Longrightarrow> n_lim s = 0 \<Longrightarrow> \<forall>c \<in> set cs. c \<in> set (cl s) \<Longrightarrow>
   scan_units s cs pr = (conf, pr', t) \<Longrightarrow>
   sat_core F t \<and> grows s t \<and> q_head t = q_head s \<and> (conf \<longrightarrow> unsat F) \<and>
   (pr' \<longrightarrow> pr \<or> n_trail s < n_trail t) \<and> (\<not> pr' \<longrightarrow> t = s)"
proof (induction cs arbitrary: s pr)
  case Nil
  then show ?case by (auto simp: grows_refl)
next
  case (Cons c cs)
  obtain sat un ul where sc: "scan_clause s c 0 0 = (sat, un, ul)"
    by (cases "scan_clause s c 0 0") auto
  have c: "trail_ok s" "\<forall>l \<in> set c. lit_ok (n_vars s) l" "entails F c"
    using Cons.prems(1,3) by (auto simp: sat_core_def store_ok_def cls_ok_def)
  consider (skip) "sat \<or> un > 1" | (conf) "\<not> sat" "un = 0" | (unit) "\<not> sat" "un = 1" by force
  then show ?case
  proof cases
    case skip
    then have "scan_units s cs pr = (conf, pr', t)"
      using Cons.prems(4) sc by (auto split: if_splits)
    then show ?thesis using Cons.IH [OF Cons.prems(1,2)] Cons.prems(3) by auto
  next
    case conf
    have "unsat F"
      by (rule falsified_level0_unsat [OF Cons.prems(1,2) c(3)])
        (use scan_clause_false [OF c(1,2)] sc conf c(2) in \<open>auto simp: lit_ok_def\<close>)
    then show ?thesis using Cons.prems(1,4) sc conf by (auto simp: grows_refl)
  next
    case unit
    let ?s = "trail_push s ul 0"
    have p: "scan_units ?s cs True = (conf, pr', t)" using Cons.prems(4) sc unit by auto
    have sc': "scan_clause s c 0 0 = (False, 1, ul)" using sc unit by simp
    note u = scan_clause_unit [OF c(1,2) sc']
    have "entails F [ul]"
      using unit_entailed [OF Cons.prems(1,2) c(3)] u(4) c(2) by (auto simp: lit_ok_def)
    then have core: "sat_core F ?s"
      using push_plain [OF Cons.prems(1) _ u(2,3)] c(2) u(1) Cons.prems(2) by simp
    have g: "grows s ?s" by (simp add: grows_def sat_simps)
    have sq: "n_lim ?s = 0" "\<forall>c \<in> set cs. c \<in> set (cl ?s)" "n_trail ?s = Suc (n_trail s)"
      "q_head ?s = q_head s"
      using Cons.prems(2,3) by (auto simp: sat_simps)
    have t: "sat_core F t \<and> grows ?s t \<and> q_head t = q_head ?s \<and> (conf \<longrightarrow> unsat F) \<and>
        (\<not> pr' \<longrightarrow> t = ?s)"
      using Cons.IH [OF core sq(1,2) p] by blast
    have "pr'" using scan_units_progressed [of ?s cs] p by simp
    with t sq g show ?thesis using grows_trans [OF g] grows_trail [of ?s t] by auto
  qed
qed

lemma level0_loop_total:
  "sat_core F s \<Longrightarrow> n_lim s = 0 \<Longrightarrow> head_ok s \<Longrightarrow>
   \<exists>conf t. level0_loop s = Some (conf, t) \<and> sat_inv F t \<and> grows s t \<and> (conf \<longrightarrow> unsat F)"
proof (induction "n_vars s - n_trail s" arbitrary: s rule: less_induct)
  case less
  obtain conf pr t where sc: "scan_units s (cl s) False = (conf, pr, t)"
    by (cases "scan_units s (cl s) False") auto
  have t: "sat_core F t" "grows s t" "q_head t = q_head s" "conf \<longrightarrow> unsat F"
    "pr \<longrightarrow> n_trail s < n_trail t" "\<not> pr \<longrightarrow> t = s"
    using scan_units_inv [OF less.prems(1,2) _ sc] by auto
  have n0: "n_lim t = 0" using t(2) less.prems(2) by (auto simp: grows_def)
  have head: "head_ok t"
    using less.prems(3) grows_trail [OF t(2)] t(1,3) n0
    by (auto simp: head_ok_def sat_core_def level_ok_def lev_def)
  note unf = level0_loop.simps [of s]
  consider (stop) "conf \<or> \<not> pr" | (again) "\<not> conf" "pr" by blast
  then show ?case
  proof cases
    case stop
    then have "level0_loop s = Some (conf, t)" using stop sc by (auto simp: unf Let_def)
    then show ?thesis using t head by (simp add: sat_inv_def)
  next
    case again
    let ?t = "t\<lparr>q_head := 0\<rparr>"
    have "sat_inv F ?t" using head_ok_level0 [OF t(1) n0] t(1) by (simp add: sat_inv_def)
    then obtain conf' u where u: "sat_propagate ?t = Some (conf', u)" "sat_inv F u" "grows ?t u"
      "conf' \<longrightarrow> conflict_ok u"
      using sat_propagate_total by blast
    have core: "sat_core F u" and hd: "head_ok u" using u(2) by (auto simp: sat_inv_def)
    have nu: "n_lim u = 0" using u(3) n0 by (auto simp: grows_def)
    have g: "grows s u" using u(3) t(2) by (auto simp: grows_def)
    have eq: "level0_loop s = (if conf' then Some (True, u) else level0_loop u)"
      using again sc u(1) by (simp add: unf Let_def)
    show ?thesis
    proof (cases conf')
      case True
      then have "unsat F" using conflict_level0_unsat [OF core _ nu] u(4) by simp
      then show ?thesis using True eq u(2) g by auto
    next
      case False
      have "n_trail s < n_trail u" using t(5) again grows_trail [OF u(3)] by simp
      moreover have "n_trail u \<le> n_vars s"
        using trail_vars_bound [of u] core g by (auto simp: sat_core_def grows_def)
      ultimately have "n_vars u - n_trail u < n_vars s - n_trail s" using g by (auto simp: grows_def)
      from less.hyps [OF this core nu hd] show ?thesis
        unfolding eq using False g grows_trans [OF g] by auto
    qed
  qed
qed

section \<open>The solver\<close>

text \<open>A state ready to be solved: a well-formed store and an empty trail.\<close>

definition sat_ready :: "int list list \<Rightarrow> bvsat \<Rightarrow> bool" where
  "sat_ready F s \<longleftrightarrow> store_ok F s \<and> trail s = [] \<and> trail_lim s = [] \<and> flipped s = [] \<and>
     assign s = (\<lambda>_. 0)"

lemma sat_ready_core: "sat_ready F s \<Longrightarrow> sat_core F (s\<lparr>q_head := 0\<rparr>)"
  by (auto simp: sat_ready_def sat_core_def trail_ok_def level_ok_def reason_ok_def ent_ok_def
      store_ok_def occ_ok_def cls_ok_def asg_def)

lemma bv_sat_solve_total:
  assumes "sat_ready F s"
  shows "\<exists>r t. bv_sat_solve s = Some (r, t) \<and> n_vars t = n_vars s \<and> budget t = budget s \<and>
    sat_core F t \<and> (r = BV_SAT_UNSAT \<longrightarrow> unsat F) \<and>
    (r = BV_SAT_SAT \<longrightarrow> (\<forall>v. 1 \<le> v \<and> v \<le> n_vars s \<longrightarrow> assign t v \<noteq> 0))"
proof -
  let ?s = "s\<lparr>q_head := 0\<rparr>"
  have core: "sat_core F ?s" by (rule sat_ready_core [OF assms])
  have n0: "n_lim ?s = 0" "head_ok ?s" using assms by (auto simp: sat_ready_def head_ok_def)
  obtain c t where t: "level0_loop ?s = Some (c, t)" "sat_inv F t" "grows ?s t" "c \<longrightarrow> unsat F"
    using level0_loop_total [OF core n0] by blast
  obtain c' u where u: "sat_propagate t = Some (c', u)" "sat_inv F u" "grows t u"
    "c' \<longrightarrow> conflict_ok u"
    using sat_propagate_total [OF t(2)] by blast
  have cu: "sat_core F u" "sat_core F t" using u t by (auto simp: sat_inv_def)
  have e: "n_vars u = n_vars s" "budget u = budget s" "n_vars t = n_vars s" "budget t = budget s"
    "n_lim u = 0"
    using u(3) t(3) n0 by (auto simp: grows_def)
  obtain r w where w: "decide_loop u = Some (r, w)" "n_vars w = n_vars u" "budget w = budget u"
    "sat_core F w" "r = BV_SAT_UNSAT \<longrightarrow> unsat F"
    "r = BV_SAT_SAT \<longrightarrow> (\<forall>v. 1 \<le> v \<and> v \<le> n_vars u \<longrightarrow> assign w v \<noteq> 0)"
    using decide_loop_total [OF cu(1)] by blast
  have "bv_sat_solve s = (if c then Some (BV_SAT_UNSAT, t) else if c' then Some (BV_SAT_UNSAT, u)
      else Some (r, w))"
    by (simp add: bv_sat_solve_def t(1) u(1) w(1))
  moreover have "c' \<Longrightarrow> unsat F" using conflict_level0_unsat [OF cu(1) _ e(5)] u(4) by simp
  ultimately show ?thesis using t(4) w(2-6) e cu by (cases c; cases c') auto
qed

text \<open>A restart forgets the assignment and keeps the clauses, learned ones included.\<close>

lemma fold_zero: "fold (\<lambda>l f. f(lit_var l := 0)) tr f v =
    (if v \<in> lit_var ` set tr then 0 else f v)"
  by (induction tr arbitrary: f) auto

lemma bv_sat_reset_ready:
  assumes "sat_core F s" shows "sat_ready F (bv_sat_reset s)"
proof -
  have "assign s v = 0" if "v \<notin> lit_var ` set (trail s)" for v
    using assms that asg_nonzero_iff [of "trail s" v] by (auto simp: sat_core_def trail_ok_def)
  then have "assign (bv_sat_reset s) = (\<lambda>_. 0)"
    by (auto simp: bv_sat_reset_def fun_eq_iff fold_zero)
  then show ?thesis
    using assms
    by (auto simp: sat_ready_def bv_sat_reset_def sat_core_def store_ok_def occ_ok_def cls_ok_def)
qed

text \<open>The clauses given to a fresh solver are the formula it decides.\<close>

lemma store_ok_weaken: "store_ok F s \<Longrightarrow> set F \<subseteq> set G \<Longrightarrow> store_ok G s"
  by (simp add: store_ok_def entails_def cnf_true_def) blast

lemma bv_sat_init_ready: "sat_ready [] (bv_sat_init b)"
  by (simp add: sat_ready_def store_ok_def occ_ok_def cls_ok_def bv_sat_init_def)

lemma bv_sat_new_var_ready:
  "sat_ready F s \<Longrightarrow> sat_ready F (snd (bv_sat_new_var s))"
  by (fastforce simp: sat_ready_def bv_sat_new_var_def store_ok_def occ_ok_def cls_ok_def lit_ok_def)

lemma bv_sat_add_clause_ready:
  assumes "sat_ready F s" "\<forall>l \<in> set c. lit_ok (n_vars s) l"
  shows "sat_ready (F @ [c]) (bv_sat_add_clause s c)"
proof -
  have "store_ok (F @ [c]) s" using assms store_ok_weaken [of F s "F @ [c]"] by (auto simp: sat_ready_def)
  then have "store_ok (F @ [c]) (bv_sat_add_clause s c)"
    using assms by (intro store_ok_add_clause) (auto intro: entailsI_mem)
  then show ?thesis using assms(1) by (simp add: sat_ready_def bv_sat_add_clause_def)
qed

end
