(* ===== verification/BvWord.thy ===== *)
theory BvWord
  imports BvGate
begin

text \<open>
  Correctness of the word operations: for words of 64 literals, each
  operation's result denotes the value \<open>64 word\<close> arithmetic gives, in every
  model of the extended formula.
\<close>

section \<open>The value of a word\<close>

definition wf_w :: "bvctx \<Rightarrow> bvword \<Rightarrow> bool" where
  "wf_w c w \<longleftrightarrow> length w = 64 \<and> (\<forall>l \<in> set w. lit_ok (nv c) l)"

definition wval :: "(nat \<Rightarrow> bool) \<Rightarrow> bvword \<Rightarrow> i64" where
  "wval \<sigma> w = horner_sum of_bool 2 (map (lit_true \<sigma>) w)"

definition wgate :: "bvctx \<Rightarrow> bvctx \<Rightarrow> bvword \<Rightarrow> ((nat \<Rightarrow> bool) \<Rightarrow> i64) \<Rightarrow> bool" where
  "wgate c d r f \<longleftrightarrow> ext c d \<and> wf_w d r \<and> (\<forall>\<sigma>. models d \<sigma> \<longrightarrow> wval \<sigma> r = f \<sigma>)"

lemma bit_wval: "length w = 64 \<Longrightarrow> n < 64 \<Longrightarrow> bit (wval \<sigma> w) n = lit_true \<sigma> (w ! n)"
  by (simp add: wval_def bit_horner_sum_bit_iff)

lemma wval_eqI:
  assumes "length w = 64" "\<And>n. n < 64 \<Longrightarrow> lit_true \<sigma> (w ! n) = bit x n"
  shows "wval \<sigma> w = x"
  by (rule bit_eqI) (use assms in \<open>simp add: bit_wval\<close>)

lemma wf_w_ext: "ext c d \<Longrightarrow> wf_w c w \<Longrightarrow> wf_w d w"
  using ext_lit_ok by (auto simp: wf_w_def)

lemma wf_w_nth: "wf_w c w \<Longrightarrow> n < 64 \<Longrightarrow> lit_ok (nv c) (w ! n)"
  by (simp add: wf_w_def)

lemma gate_chain: "gate c d r f \<Longrightarrow> ext d e \<Longrightarrow> gate c e r f"
  using ext_trans ext_lit_ok ext_models unfolding gate_def by blast

lemma ext_gate: "ext c d \<Longrightarrow> gate d e r f \<Longrightarrow> gate c e r f"
  using ext_trans by (auto simp: gate_def)

lemma wgate_ext: "wgate c d r f \<Longrightarrow> ext c d"
  by (simp add: wgate_def)

lemma wgate_wfc: "wgate c d r f \<Longrightarrow> wfc d"
  by (simp add: wgate_def ext_def)

lemma wgate_chain: "wgate c d r f \<Longrightarrow> ext d e \<Longrightarrow> wgate c e r f"
  using ext_trans wf_w_ext ext_models unfolding wgate_def by blast

lemma ext_wgate: "ext c d \<Longrightarrow> wgate d e r f \<Longrightarrow> wgate c e r f"
  using ext_trans by (auto simp: wgate_def)

lemma wgate_cong: "wgate c d r f \<Longrightarrow> (\<And>\<sigma>. models d \<sigma> \<Longrightarrow> f \<sigma> = g \<sigma>) \<Longrightarrow> wgate c d r g"
  by (simp add: wgate_def)

lemma wgate_same:
  "wfc c \<Longrightarrow> wf_w c r \<Longrightarrow> (\<And>\<sigma>. models c \<sigma> \<Longrightarrow> wval \<sigma> r = f \<sigma>) \<Longrightarrow> wgate c c r f"
  by (simp add: wgate_def ext_refl)

text \<open>Bits of a word, as a gate of its own.\<close>

lemma wgate_bit:
  "wgate c d r f \<Longrightarrow> n < 64 \<Longrightarrow> gate c d (r ! n) (\<lambda>\<sigma>. bit (f \<sigma>) n)"
  by (auto simp: wgate_def gate_def wf_w_def bit_wval [symmetric])

lemmas gate_frame = gate_frames g_ite_frame

section \<open>Bitwise operations\<close>

text \<open>
  The interface between the loop over the bits and the gate it applies: \<open>pre\<close>
  is what the gate needs of its context beside its two operands.
\<close>

locale bit_gate =
  fixes g :: "bvctx \<Rightarrow> int \<Rightarrow> int \<Rightarrow> int \<times> bvctx"
    and pre :: "bvctx \<Rightarrow> bool"
    and P :: "(nat \<Rightarrow> bool) \<Rightarrow> bool \<Rightarrow> bool \<Rightarrow> bool"
  assumes g_gate: "wfc c \<Longrightarrow> pre c \<Longrightarrow> lit_ok (nv c) a \<Longrightarrow> lit_ok (nv c) b \<Longrightarrow>
      g c a b = (r, d) \<Longrightarrow> clean d \<Longrightarrow>
      gate c d r (\<lambda>\<sigma>. P \<sigma> (lit_true \<sigma> a) (lit_true \<sigma> b))"
    and g_frame: "frame c (snd (g c a b))"
    and pre_ext: "pre c \<Longrightarrow> ext c d \<Longrightarrow> pre d"
begin

lemma bits2_frame: "frame c (snd (bits2 g c as bs))"
proof (induction as arbitrary: c bs)
  case (Cons a as)
  show ?case
  proof (cases bs)
    case (Cons b bs')
    then show ?thesis
      using frame_trans [OF g_frame [of c a b] Cons.IH [of "snd (g c a b)" bs']]
      by (simp add: case_prod_beta)
  qed simp
qed simp

lemma bits2_gate:
  "wfc c \<Longrightarrow> pre c \<Longrightarrow> \<forall>l \<in> set as. lit_ok (nv c) l \<Longrightarrow> \<forall>l \<in> set bs. lit_ok (nv c) l \<Longrightarrow>
   length as = length bs \<Longrightarrow> bits2 g c as bs = (rs, d) \<Longrightarrow> clean d \<Longrightarrow>
   ext c d \<and> length rs = length as \<and> (\<forall>l \<in> set rs. lit_ok (nv d) l) \<and>
   (\<forall>\<sigma> i. models d \<sigma> \<longrightarrow> i < length as \<longrightarrow>
      lit_true \<sigma> (rs ! i) = P \<sigma> (lit_true \<sigma> (as ! i)) (lit_true \<sigma> (bs ! i)))"
proof (induction as arbitrary: c bs rs)
  case Nil
  then show ?case by (simp add: ext_refl)
next
  case (Cons a as)
  obtain b bs' where bs: "bs = b # bs'" using Cons.prems(5) by (cases bs) auto
  obtain r c1 where r: "g c a b = (r, c1)" by fastforce
  obtain rs' where rs: "bits2 g c1 as bs' = (rs', d)" "rs = r # rs'"
    using Cons.prems(6) r by (auto simp: bs split: prod.splits)
  have cl1: "clean c1" using frame_clean [of c1 d] bits2_frame [of c1 as bs'] rs Cons.prems(7) by simp
  have g1: "gate c c1 r (\<lambda>\<sigma>. P \<sigma> (lit_true \<sigma> a) (lit_true \<sigma> b))"
    using g_gate [OF Cons.prems(1,2) _ _ r cl1] Cons.prems(3,4) bs by simp
  have e1: "ext c c1" by (rule gate_ext [OF g1])
  have t: "ext c1 d \<and> length rs' = length as \<and> (\<forall>l \<in> set rs'. lit_ok (nv d) l) \<and>
     (\<forall>\<sigma> i. models d \<sigma> \<longrightarrow> i < length as \<longrightarrow>
        lit_true \<sigma> (rs' ! i) = P \<sigma> (lit_true \<sigma> (as ! i)) (lit_true \<sigma> (bs' ! i)))"
    using Cons.prems(3,4,5) bs ext_lit_ok [OF e1]
    by (intro Cons.IH [OF ext_wfc [OF e1] pre_ext [OF Cons.prems(2) e1] _ _ _ rs(1) Cons.prems(7)]) auto
  have g2: "gate c d r (\<lambda>\<sigma>. P \<sigma> (lit_true \<sigma> a) (lit_true \<sigma> b))" using gate_chain [OF g1] t by blast
  show ?case
    using t g2 unfolding gate_def bs rs(2) by (auto simp: nth_Cons split: nat.split)
qed

end

interpretation and_gate: bit_gate g_and "\<lambda>_. True" "\<lambda>_ x y. x \<and> y"
  by unfold_locales (auto intro: g_and_gate gate_frame simp: clean_def)

interpretation or_gate: bit_gate g_or "\<lambda>_. True" "\<lambda>_ x y. x \<or> y"
  by unfold_locales (auto intro: g_or_gate gate_frame simp: clean_def)

interpretation xor_gate: bit_gate g_xor "\<lambda>_. True" "\<lambda>_ x y. x \<noteq> y"
proof unfold_locales
  fix c a b r d
  assume "wfc c" "lit_ok (nv c) a" "lit_ok (nv c) b" "g_xor c a b = (r, d)" "clean d"
  then show "gate c d r (\<lambda>\<sigma>. lit_true \<sigma> a \<noteq> lit_true \<sigma> b)"
    by (intro g_xor_gate clean_not_failed)
qed (simp_all add: gate_frame)

interpretation ite_gate: bit_gate "\<lambda>c x y. g_ite c s x y" "\<lambda>c. lit_ok (nv c) s"
    "\<lambda>\<sigma> x y. if lit_true \<sigma> s then x else y" for s
proof unfold_locales
  fix c a b r d
  assume "wfc c" "lit_ok (nv c) s" "lit_ok (nv c) a" "lit_ok (nv c) b"
    "g_ite c s a b = (r, d)" "clean d"
  then show "gate c d r (\<lambda>\<sigma>. if lit_true \<sigma> s then lit_true \<sigma> a else lit_true \<sigma> b)"
    by (intro g_ite_gate)
qed (simp_all add: gate_frame ext_lit_ok)

lemma w_and_gate:
  assumes "wfc c" "wf_w c a" "wf_w c b" "w_and c a b = (r, d)" "clean d"
  shows "wgate c d r (\<lambda>\<sigma>. wval \<sigma> a AND wval \<sigma> b)"
  using and_gate.bits2_gate [of c a b r d] assms
  by (auto simp: w_and_def wgate_def wf_w_def bit_wval bit_and_iff intro!: wval_eqI)

lemma w_or_gate:
  assumes "wfc c" "wf_w c a" "wf_w c b" "w_or c a b = (r, d)" "clean d"
  shows "wgate c d r (\<lambda>\<sigma>. wval \<sigma> a OR wval \<sigma> b)"
  using or_gate.bits2_gate [of c a b r d] assms
  by (auto simp: w_or_def wgate_def wf_w_def bit_wval bit_or_iff intro!: wval_eqI)

lemma w_xor_gate:
  assumes "wfc c" "wf_w c a" "wf_w c b" "w_xor c a b = (r, d)" "clean d"
  shows "wgate c d r (\<lambda>\<sigma>. wval \<sigma> a XOR wval \<sigma> b)"
  using xor_gate.bits2_gate [of c a b r d] assms
  by (auto simp: w_xor_def wgate_def wf_w_def bit_wval bit_xor_iff intro!: wval_eqI)

lemma w_ite_gate:
  assumes "wfc c" "lit_ok (nv c) s" "wf_w c a" "wf_w c b" "w_ite c s a b = (r, d)" "clean d"
  shows "wgate c d r (\<lambda>\<sigma>. if lit_true \<sigma> s then wval \<sigma> a else wval \<sigma> b)"
  using ite_gate.bits2_gate [of c s a b r d] assms
  by (auto simp: w_ite_def wgate_def wf_w_def bit_wval intro!: wval_eqI)

lemma w_frames:
  "frame c (snd (w_and c a b))" "frame c (snd (w_or c a b))" "frame c (snd (w_xor c a b))"
  "frame c (snd (w_ite c s a b))"
  by (simp_all add: w_and_def w_or_def w_xor_def w_ite_def and_gate.bits2_frame
      or_gate.bits2_frame xor_gate.bits2_frame ite_gate.bits2_frame)

section \<open>Constants and negation\<close>

lemma w_const_wf: "wfc c \<Longrightarrow> wf_w c (w_const v)"
  using lit_ok_consts [of c] by (auto simp: w_const_def wf_w_def)

lemma w_const_val:
  assumes "wfc c" "models c \<sigma>" shows "wval \<sigma> (w_const v) = v"
  by (rule wval_eqI) (use wfc_consts [OF assms] in \<open>auto simp: w_const_def\<close>)

lemma w_not_wf: "wf_w c a \<Longrightarrow> wf_w c (w_not a)"
  by (auto simp: w_not_def wf_w_def g_not_def)

lemma w_not_val:
  assumes "wf_w c a" shows "wval \<sigma> (w_not a) = NOT (wval \<sigma> a)"
proof (rule wval_eqI)
  fix n :: nat assume n: "n < 64"
  then have "a ! n \<noteq> 0" using wf_w_nth [OF assms n] by (simp add: lit_ok_def)
  then show "lit_true \<sigma> (w_not a ! n) = bit (NOT (wval \<sigma> a)) n"
    using assms n by (simp add: w_not_def wf_w_def g_not_def lit_true_neg bit_not_iff bit_wval)
qed (use assms in \<open>simp add: w_not_def wf_w_def\<close>)

section \<open>Addition\<close>

lemma add_bit_frame: "frame c (snd (snd (add_bit c a b carry)))"
  by (simp add: add_bit_def case_prod_beta)
    (intro frame_trans [OF _ gate_frame(1)] frame_trans [OF _ gate_frame(2)]
      frame_trans [OF _ gate_frame(3)] frame_refl)

lemma add_bit_gate:
  assumes c: "wfc c" and l: "lit_ok (nv c) a" "lit_ok (nv c) b" "lit_ok (nv c) k"
    and r: "add_bit c a b k = (r, k', d)" and cd: "clean d"
  shows "gate c d r (\<lambda>\<sigma>. (lit_true \<sigma> a \<noteq> lit_true \<sigma> b) \<noteq> lit_true \<sigma> k)"
    "gate c d k' (\<lambda>\<sigma>. lit_true \<sigma> a \<and> lit_true \<sigma> b \<or> (lit_true \<sigma> a \<noteq> lit_true \<sigma> b) \<and> lit_true \<sigma> k)"
proof -
  obtain x c1 where x: "g_xor c a b = (x, c1)" by fastforce
  obtain y c2 where y: "g_xor c1 x k = (y, c2)" by fastforce
  obtain p c3 where p: "g_and c2 a b = (p, c3)" by fastforce
  obtain q c4 where q: "g_and c3 x k = (q, c4)" by fastforce
  have o: "g_or c4 p q = (k', d)" "y = r" using r by (auto simp: add_bit_def x y p q split: prod.splits)
  have cl: "clean c4" "clean c3" "clean c2" "clean c1"
  proof -
    show 4: "clean c4" using frame_clean [OF gate_frame(2) [of c4 p q]] cd o by simp
    show 3: "clean c3" using frame_clean [OF gate_frame(1) [of c3 x k]] 4 q by simp
    show 2: "clean c2" using frame_clean [OF gate_frame(1) [of c2 a b]] 3 p by simp
    show "clean c1" using frame_clean [OF gate_frame(3) [of c1 x k]] 2 y by simp
  qed
  note nf = cl [THEN clean_not_failed] clean_not_failed [OF cd]
  note gx = g_xor_gate [OF c l(1,2) x nf(4)]
  have e1: "ext c c1" and x1: "lit_ok (nv c1) x" using gx by (auto simp: gate_def)
  note gy = g_xor_gate [OF ext_wfc [OF e1] x1 ext_lit_ok [OF e1 l(3)] y nf(3)]
  have e2: "ext c1 c2" by (rule gate_ext [OF gy])
  have ce2: "ext c c2" by (rule ext_trans [OF e1 e2])
  note gp = g_and_gate [OF ext_wfc [OF e2] ext_lit_ok [OF ce2 l(1)] ext_lit_ok [OF ce2 l(2)] p nf(2)]
  have e3: "ext c2 c3" by (rule gate_ext [OF gp])
  have ce3: "ext c c3" "ext c1 c3" using ext_trans ce2 e2 e3 by blast+
  note gq = g_and_gate [OF ext_wfc [OF e3] ext_lit_ok [OF ce3(2) x1] ext_lit_ok [OF ce3(1) l(3)] q nf(1)]
  have e4: "ext c3 c4" by (rule gate_ext [OF gq])
  have p4: "lit_ok (nv c4) p" "lit_ok (nv c4) q" using gate_chain [OF gp e4] gq by (auto simp: gate_def)
  note go = g_or_gate [OF ext_wfc [OF e4] p4 o(1) nf(5)]
  have e5: "ext c4 d" by (rule gate_ext [OF go])
  have d1: "ext c1 d" "ext c2 d" "ext c3 d" "ext c d"
    using ext_trans e1 e2 e3 e4 e5 by blast+
  have vx: "lit_true \<sigma> x = (lit_true \<sigma> a \<noteq> lit_true \<sigma> b)"
    and vy: "lit_true \<sigma> y = (lit_true \<sigma> x \<noteq> lit_true \<sigma> k)"
    and vp: "lit_true \<sigma> p = (lit_true \<sigma> a \<and> lit_true \<sigma> b)"
    and vq: "lit_true \<sigma> q = (lit_true \<sigma> x \<and> lit_true \<sigma> k)" if "models d \<sigma>" for \<sigma>
    using ext_models that gate_chain [OF gx d1(1)] gate_chain [OF gy d1(2)]
      gate_chain [OF gp d1(3)] gate_chain [OF gq e5] by (auto simp: gate_def)
  show "gate c d r (\<lambda>\<sigma>. (lit_true \<sigma> a \<noteq> lit_true \<sigma> b) \<noteq> lit_true \<sigma> k)"
    using gate_chain [OF gy d1(2)] d1(4) vx vy by (auto simp: gate_def o(2))
  show "gate c d k' (\<lambda>\<sigma>. lit_true \<sigma> a \<and> lit_true \<sigma> b \<or> (lit_true \<sigma> a \<noteq> lit_true \<sigma> b) \<and> lit_true \<sigma> k)"
    using go d1(4) vx vp vq by (auto simp: gate_def)
qed

lemma add_bits_frame: "frame c (snd (add_bits c as bs k))"
proof (induction as arbitrary: c bs k)
  case (Cons a as)
  show ?case
  proof (cases bs)
    case (Cons b bs')
    then show ?thesis
      using frame_trans [OF add_bit_frame [of c a b k] Cons.IH]
      by (simp add: case_prod_beta)
  qed simp
qed simp

lemma full_adder:
  "(of_bool ((x \<noteq> y) \<noteq> z) :: 'a :: comm_ring_1) + 2 * of_bool (x \<and> y \<or> (x \<noteq> y) \<and> z) =
   of_bool x + of_bool y + of_bool z"
  by (cases x; cases y; cases z) auto

text \<open>The ripple-carry loop: sum and final carry are the sum of the operands.\<close>

lemma add_bits_gate:
  "wfc c \<Longrightarrow> \<forall>l \<in> set as. lit_ok (nv c) l \<Longrightarrow> \<forall>l \<in> set bs. lit_ok (nv c) l \<Longrightarrow>
   lit_ok (nv c) k \<Longrightarrow> length as = length bs \<Longrightarrow> add_bits c as bs k = (rs, d) \<Longrightarrow> clean d \<Longrightarrow>
   ext c d \<and> length rs = length as \<and> (\<forall>l \<in> set rs. lit_ok (nv d) l) \<and>
   (\<forall>\<sigma>. models d \<sigma> \<longrightarrow>
     (\<exists>z. horner_sum of_bool 2 (map (lit_true \<sigma>) rs) + 2 ^ length as * z =
       (horner_sum of_bool 2 (map (lit_true \<sigma>) as) + horner_sum of_bool 2 (map (lit_true \<sigma>) bs) +
        of_bool (lit_true \<sigma> k) :: i64)))"
proof (induction as arbitrary: c bs rs k)
  case Nil
  then show ?case by (auto simp: ext_refl)
next
  case (Cons a as)
  obtain b bs' where bs: "bs = b # bs'" using Cons.prems(5) by (cases bs) auto
  obtain r k' c1 where r: "add_bit c a b k = (r, k', c1)" by (cases "add_bit c a b k") auto
  obtain rs' where rs: "add_bits c1 as bs' k' = (rs', d)" "rs = r # rs'"
    using Cons.prems(6) r by (auto simp: bs split: prod.splits)
  have cl1: "clean c1"
    using frame_clean [of c1 d] add_bits_frame [of c1 as bs' k'] rs Cons.prems(7) by simp
  have lits: "lit_ok (nv c) a" "lit_ok (nv c) b" using Cons.prems(2,3) bs by auto
  note g = add_bit_gate [OF Cons.prems(1) lits Cons.prems(4) r cl1]
  have e1: "ext c c1" by (rule gate_ext [OF g(1)])
  have t: "ext c1 d \<and> length rs' = length as \<and> (\<forall>l \<in> set rs'. lit_ok (nv d) l) \<and>
     (\<forall>\<sigma>. models d \<sigma> \<longrightarrow>
     (\<exists>z. horner_sum of_bool 2 (map (lit_true \<sigma>) rs') + 2 ^ length as * z =
       (horner_sum of_bool 2 (map (lit_true \<sigma>) as) + horner_sum of_bool 2 (map (lit_true \<sigma>) bs') +
        of_bool (lit_true \<sigma> k') :: i64)))"
    using Cons.prems(2,3,5) bs ext_lit_ok [OF e1] g(2)
    by (intro Cons.IH [OF ext_wfc [OF e1] _ _ _ _ rs(1) Cons.prems(7)]) (auto simp: gate_def)
  then have e: "ext c1 d" by blast
  have s: "\<exists>z. horner_sum of_bool 2 (map (lit_true \<sigma>) rs) + 2 ^ length (a # as) * z =
       (horner_sum of_bool 2 (map (lit_true \<sigma>) (a # as)) + horner_sum of_bool 2 (map (lit_true \<sigma>) bs) +
        of_bool (lit_true \<sigma> k) :: i64)" if m: "models d \<sigma>" for \<sigma>
  proof -
    let ?h = "\<lambda>xs. horner_sum of_bool 2 (map (lit_true \<sigma>) xs) :: i64"
    obtain z where z: "?h rs' + 2 ^ length as * z = ?h as + ?h bs' + of_bool (lit_true \<sigma> k')"
      using t m by blast
    have vr: "lit_true \<sigma> r = ((lit_true \<sigma> a \<noteq> lit_true \<sigma> b) \<noteq> lit_true \<sigma> k)"
      "lit_true \<sigma> k' = (lit_true \<sigma> a \<and> lit_true \<sigma> b \<or> (lit_true \<sigma> a \<noteq> lit_true \<sigma> b) \<and> lit_true \<sigma> k)"
      using g [THEN gate_chain, OF e] m unfolding gate_def by blast+
    have "?h rs + 2 ^ length (a # as) * z = of_bool (lit_true \<sigma> r) + 2 * (?h rs' + 2 ^ length as * z)"
      by (simp add: rs(2) algebra_simps)
    also have "\<dots> = of_bool (lit_true \<sigma> r) + 2 * of_bool (lit_true \<sigma> k') + 2 * (?h as + ?h bs')"
      unfolding z by (simp add: algebra_simps)
    also have "of_bool (lit_true \<sigma> r) + 2 * of_bool (lit_true \<sigma> k') =
        (of_bool (lit_true \<sigma> a) + of_bool (lit_true \<sigma> b) + of_bool (lit_true \<sigma> k) :: i64)"
      unfolding vr by (rule full_adder)
    finally have "?h rs + 2 ^ length (a # as) * z = ?h (a # as) + ?h bs + of_bool (lit_true \<sigma> k)"
      by (simp add: bs algebra_simps)
    then show ?thesis by blast
  qed
  have "lit_ok (nv d) r" using gate_chain [OF g(1) e] by (simp add: gate_def)
  then show ?case using s t ext_trans [OF e1 e] rs(2) by auto
qed

lemma w_add_gate:
  assumes c: "wfc c" and w: "wf_w c a" "wf_w c b" and k: "lit_ok (nv c) k"
    and r: "w_add c a b k = (r, d)" and cd: "clean d"
  shows "wgate c d r (\<lambda>\<sigma>. wval \<sigma> a + wval \<sigma> b + of_bool (lit_true \<sigma> k))"
proof -
  have "(18446744073709551616 :: i64) = 0" by simp
  then have z: "18446744073709551616 * z = 0" for z :: i64 by (metis mult_zero_left)
  show ?thesis
    using add_bits_gate [OF c _ _ k _ _ cd, of a b r] w r
    by (auto simp: w_add_def wgate_def wf_w_def wval_def z)
qed

lemma w_add_frame: "frame c (snd (w_add c a b k))"
  by (simp add: w_add_def add_bits_frame)

lemma w_sub_frame: "frame c (snd (w_sub c a b))"
  by (simp add: w_sub_def w_add_frame)

lemma w_neg_frame: "frame c (snd (w_neg c a))"
  by (simp add: w_neg_def w_sub_frame)

lemma w_sub_gate:
  assumes c: "wfc c" and w: "wf_w c a" "wf_w c b" and r: "w_sub c a b = (r, d)" and cd: "clean d"
  shows "wgate c d r (\<lambda>\<sigma>. wval \<sigma> a - wval \<sigma> b)"
proof -
  have t: "wgate c d r (\<lambda>\<sigma>. wval \<sigma> a + wval \<sigma> (w_not b) + of_bool (lit_true \<sigma> BV_T))"
    using w_add_gate [OF c w(1) w_not_wf [OF w(2)] lit_ok_consts(1) [OF c] _ cd] r
    by (simp add: w_sub_def)
  show ?thesis
    by (rule wgate_cong [OF t])
      (use wfc_consts(1) [OF wgate_wfc [OF t]] in \<open>simp add: w_not_val [OF w(2)] not_eq_complement\<close>)
qed

lemma w_neg_gate:
  assumes c: "wfc c" and w: "wf_w c a" and r: "w_neg c a = (r, d)" and cd: "clean d"
  shows "wgate c d r (\<lambda>\<sigma>. - wval \<sigma> a)"
proof -
  have t: "wgate c d r (\<lambda>\<sigma>. wval \<sigma> (w_const 0) - wval \<sigma> a)"
    using w_sub_gate [OF c w_const_wf [OF c] w _ cd] r by (simp add: w_neg_def)
  show ?thesis
    by (rule wgate_cong [OF t]) (use w_const_val [OF wgate_wfc [OF t]] in simp)
qed

section \<open>Comparison\<close>

lemma eq_bits_frame: "frame c (snd (eq_bits c as bs e))"
proof (induction as arbitrary: c bs e)
  case (Cons a as)
  show ?case
  proof (cases bs)
    case (Cons b bs')
    let ?c1 = "snd (g_xor c a b)" and ?x = "fst (g_xor c a b)"
    have "frame c (snd (g_and ?c1 e (g_not ?x)))"
      using frame_trans [OF gate_frame(3) gate_frame(1)] by blast
    then show ?thesis using Cons Cons.IH frame_trans
      by (simp add: case_prod_beta)
  qed simp
qed simp

lemma eq_bits_gate:
  "wfc c \<Longrightarrow> \<forall>l \<in> set as. lit_ok (nv c) l \<Longrightarrow> \<forall>l \<in> set bs. lit_ok (nv c) l \<Longrightarrow>
   lit_ok (nv c) e \<Longrightarrow> length as = length bs \<Longrightarrow> eq_bits c as bs e = (r, d) \<Longrightarrow> clean d \<Longrightarrow>
   gate c d r (\<lambda>\<sigma>. lit_true \<sigma> e \<and> map (lit_true \<sigma>) as = map (lit_true \<sigma>) bs)"
proof (induction as arbitrary: c bs e)
  case Nil
  then show ?case by (auto intro: gate_same)
next
  case (Cons a as)
  obtain b bs' where bs: "bs = b # bs'" using Cons.prems(5) by (cases bs) auto
  obtain x c1 where x: "g_xor c a b = (x, c1)" by fastforce
  obtain e' c2 where e: "g_and c1 e (- x) = (e', c2)" by fastforce
  have rs: "eq_bits c2 as bs' e' = (r, d)"
    using Cons.prems(6) x e by (simp add: bs g_not_def)
  have cl2: "clean c2" using frame_clean [of c2 d] eq_bits_frame [of c2 as bs' e'] rs Cons.prems(7) by simp
  have cl1: "clean c1" using frame_clean [OF gate_frame(1) [of c1 e "- x"]] cl2 e by simp
  have lits: "lit_ok (nv c) a" "lit_ok (nv c) b" using Cons.prems(2,3) bs by auto
  note gx = g_xor_gate [OF Cons.prems(1) lits x clean_not_failed [OF cl1]]
  have e1: "ext c c1" and nx: "lit_ok (nv c1) (- x)" "x \<noteq> 0"
    using gx by (auto simp: gate_def lit_ok_def)
  note ge = g_and_gate [OF ext_wfc [OF e1] ext_lit_ok [OF e1 Cons.prems(4)] nx(1) e
      clean_not_failed [OF cl2]]
  have e2: "ext c1 c2" and le: "lit_ok (nv c2) e'" using ge by (auto simp: gate_def)
  have ce2: "ext c c2" by (rule ext_trans [OF e1 e2])
  have t: "gate c2 d r (\<lambda>\<sigma>. lit_true \<sigma> e' \<and> map (lit_true \<sigma>) as = map (lit_true \<sigma>) bs')"
    using Cons.prems(2,3,5) bs ext_lit_ok [OF ce2]
    by (intro Cons.IH [OF ext_wfc [OF e2] _ _ le _ rs Cons.prems(7)]) auto
  have e3: "ext c2 d" by (rule gate_ext [OF t])
  note gx' = gate_chain [OF gx ext_trans [OF e2 e3]] and ge' = gate_chain [OF ge e3]
  show ?case
    by (rule gate_cong [OF ext_gate [OF ce2 t]])
      (use gx' ge' nx(2) in \<open>auto simp: gate_def bs lit_true_neg\<close>)
qed

lemma wval_eq_iff:
  assumes "length a = 64" "length b = 64"
  shows "wval \<sigma> a = wval \<sigma> b \<longleftrightarrow> map (lit_true \<sigma>) a = map (lit_true \<sigma>) b"
proof
  assume e: "wval \<sigma> a = wval \<sigma> b"
  show "map (lit_true \<sigma>) a = map (lit_true \<sigma>) b"
    by (rule nth_equalityI)
      (use assms e bit_wval [OF assms(1), of _ \<sigma>] bit_wval [OF assms(2), of _ \<sigma>] in auto)
qed (simp add: wval_def)

lemma w_eq_lit_frame: "frame c (snd (w_eq_lit c a b))"
  by (simp add: w_eq_lit_def eq_bits_frame)

lemma w_eq_lit_gate:
  assumes c: "wfc c" and w: "wf_w c a" "wf_w c b" and r: "w_eq_lit c a b = (r, d)" and cd: "clean d"
  shows "gate c d r (\<lambda>\<sigma>. wval \<sigma> a = wval \<sigma> b)"
proof -
  have t: "gate c d r (\<lambda>\<sigma>. lit_true \<sigma> BV_T \<and> map (lit_true \<sigma>) a = map (lit_true \<sigma>) b)"
    using w r lit_ok_consts(1) [OF c]
    by (intro eq_bits_gate [OF c _ _ _ _ _ cd]) (auto simp: w_eq_lit_def wf_w_def)
  show ?thesis
    by (rule gate_cong [OF t])
      (use wfc_consts(1) [OF ext_wfc [OF gate_ext [OF t]]] w in \<open>simp add: wval_eq_iff wf_w_def\<close>)
qed

text \<open>Signed comparison: sign of the difference, corrected by the overflow.\<close>

lemma bit_63_of_int: "bit (word_of_int z :: i64) 63 \<longleftrightarrow> odd (z div 2 ^ 63)"
proof -
  have "bit (word_of_int z :: i64) 63 \<longleftrightarrow> bit z 63" by (simp add: bit_word_of_int_iff)
  then show ?thesis by (simp only: bit_iff_odd)
qed

lemma slt_sign_overflow:
  fixes a b :: i64
  shows "(bit (a - b) 63 \<noteq> ((bit a 63 \<noteq> bit b 63) \<and> (bit (a - b) 63 \<noteq> bit a 63))) \<longleftrightarrow>
    sint a < sint b"
proof -
  let ?x = "sint a" and ?y = "sint b"
  have r: "- (2 ^ 63) \<le> ?x" "?x < 2 ^ 63" "- (2 ^ 63) \<le> ?y" "?y < 2 ^ 63"
    using sint_range_size [of a] sint_range_size [of b] by (simp_all add: word_size)
  have "a - b = word_of_int (?x - ?y)" by simp
  then have d: "bit (a - b) 63 \<longleftrightarrow> odd ((?x - ?y) div 2 ^ 63)" using bit_63_of_int by metis
  have s: "bit a 63 \<longleftrightarrow> ?x < 0" "bit b 63 \<longleftrightarrow> ?y < 0" by (simp_all only: bit_63_iff_sint_neg)
  have q: "(?x - ?y) div 2 ^ 63 =
      (if ?x - ?y < - (2 ^ 63) then - 2 else if ?x - ?y < 0 then - 1
       else if ?x - ?y < 2 ^ 63 then 0 else 1)"
    using r by (auto intro!: div_pos_pos_trivial simp: div_eq_minus1)
  show ?thesis unfolding d s q using r by auto
qed

lemma w_slt_lit_frame: "frame c (snd (w_slt_lit c a b))"
  by (simp add: w_slt_lit_def case_prod_beta Let_def)
    (intro frame_trans [OF _ gate_frame(1)] frame_trans [OF _ gate_frame(3)] w_sub_frame)

lemma w_slt_lit_gate:
  assumes c: "wfc c" and w: "wf_w c a" "wf_w c b" and r: "w_slt_lit c a b = (r, e)" and cd: "clean e"
  shows "gate c e r (\<lambda>\<sigma>. sint (wval \<sigma> a) < sint (wval \<sigma> b))"
proof -
  obtain d c1 where d: "w_sub c a b = (d, c1)" by fastforce
  obtain x c2 where x: "g_xor c1 (a ! 63) (b ! 63) = (x, c2)" by fastforce
  obtain y c3 where y: "g_xor c2 (d ! 63) (a ! 63) = (y, c3)" by fastforce
  obtain o' c4 where o: "g_and c3 x y = (o', c4)" by fastforce
  have z: "g_xor c4 (d ! 63) o' = (r, e)" using r by (simp add: w_slt_lit_def d x y o Let_def)
  have c4: "clean c4" using frame_clean [OF gate_frame(3) [of c4 "d ! 63" o']] cd z by simp
  have c3: "clean c3" using frame_clean [OF gate_frame(1) [of c3 x y]] c4 o by simp
  have c2: "clean c2" using frame_clean [OF gate_frame(3) [of c2 "d ! 63" "a ! 63"]] c3 y by simp
  have c1: "clean c1" using frame_clean [OF gate_frame(3) [of c1 "a ! 63" "b ! 63"]] c2 x by simp
  note gd = w_sub_gate [OF c w d c1]
  have e1: "ext c c1" by (rule wgate_ext [OF gd])
  note a1 = wf_w_nth [OF wf_w_ext [OF e1 w(1)], of 63, simplified]
  note b1 = wf_w_nth [OF wf_w_ext [OF e1 w(2)], of 63, simplified]
  note gx = g_xor_gate [OF ext_wfc [OF e1] a1 b1 x clean_not_failed [OF c2]]
  have e2: "ext c1 c2" by (rule gate_ext [OF gx])
  have d1: "lit_ok (nv c1) (d ! 63)" using gd by (auto simp: wgate_def wf_w_def)
  note gy = g_xor_gate [OF ext_wfc [OF e2] ext_lit_ok [OF e2 d1] ext_lit_ok [OF e2 a1] y
      clean_not_failed [OF c3]]
  have e3: "ext c2 c3" by (rule gate_ext [OF gy])
  have xy: "lit_ok (nv c3) x" "lit_ok (nv c3) y" using gate_chain [OF gx e3] gy by (auto simp: gate_def)
  note go = g_and_gate [OF ext_wfc [OF e3] xy o clean_not_failed [OF c4]]
  have e4: "ext c3 c4" by (rule gate_ext [OF go])
  have e14: "ext c1 c4" using ext_trans e2 e3 e4 by blast
  have ol: "lit_ok (nv c4) o'" using go by (simp add: gate_def)
  note gz = g_xor_gate [OF ext_wfc [OF e4] ext_lit_ok [OF e14 d1] ol z clean_not_failed [OF cd]]
  have e5: "ext c4 e" by (rule gate_ext [OF gz])
  have es: "ext c1 e" "ext c2 e" "ext c3 e" using ext_trans e14 e3 e4 e5 by blast+
  have "gate c1 e r (\<lambda>\<sigma>. sint (wval \<sigma> a) < sint (wval \<sigma> b))"
  proof -
    have v: "lit_true \<sigma> r = (sint (wval \<sigma> a) < sint (wval \<sigma> b))" if m: "models e \<sigma>" for \<sigma>
    proof -
      have "lit_true \<sigma> (d ! 63) = bit (wval \<sigma> a - wval \<sigma> b) 63"
        using gate_chain [OF wgate_bit [OF gd, of 63] es(1)] m by (simp add: gate_def)
      moreover have "lit_true \<sigma> (a ! 63) = bit (wval \<sigma> a) 63" "lit_true \<sigma> (b ! 63) = bit (wval \<sigma> b) 63"
        using w by (simp_all add: wf_w_def bit_wval)
      moreover have "lit_true \<sigma> x = (lit_true \<sigma> (a ! 63) \<noteq> lit_true \<sigma> (b ! 63))"
        "lit_true \<sigma> y = (lit_true \<sigma> (d ! 63) \<noteq> lit_true \<sigma> (a ! 63))"
        "lit_true \<sigma> o' = (lit_true \<sigma> x \<and> lit_true \<sigma> y)"
        "lit_true \<sigma> r = (lit_true \<sigma> (d ! 63) \<noteq> lit_true \<sigma> o')"
        using gate_chain [OF gx es(2)] gate_chain [OF gy es(3)] gate_chain [OF go e5] gz m
        unfolding gate_def by blast+
      ultimately show ?thesis using slt_sign_overflow [of "wval \<sigma> a" "wval \<sigma> b"] by simp
    qed
    then show ?thesis using gz es(1) by (simp add: gate_def)
  qed
  then show ?thesis by (rule ext_gate [OF e1])
qed

section \<open>Shifts\<close>

text \<open>What a shift kind computes.\<close>

definition shift_sem :: "nat \<Rightarrow> nat \<Rightarrow> i64 \<Rightarrow> i64" where
  "shift_sem kind k x =
     (if kind = 0 then push_bit k x else if kind = 1 then signed_drop_bit k x else drop_bit k x)"

lemma w_shiftc_wf: "wfc c \<Longrightarrow> wf_w c a \<Longrightarrow> wf_w c (w_shiftc kind a k)"
  using lit_ok_consts [of c]
  by (auto simp: w_shiftc_def w_shlc_def w_ashrc_def w_lshrc_def wf_w_def Let_def)

lemma bit_signed_drop_bit_cases:
  fixes x :: "'a :: len word"
  assumes "n < LENGTH('a)"
  shows "bit (signed_drop_bit k x) n = bit x (if n + k < LENGTH('a) then n + k else LENGTH('a) - 1)"
  using assms by (auto simp: bit_signed_drop_bit_iff ac_simps)

lemma bit_ashr:
  fixes x :: i64
  shows "n < 64 \<Longrightarrow> bit (signed_drop_bit k x) n = bit x (if n + k < 64 then n + k else 63)"
  using bit_signed_drop_bit_cases [of n k x] by simp

lemma w_shiftc_val:
  assumes c: "wfc c" "models c \<sigma>" and a: "length a = 64" and k: "k < 64"
  shows "wval \<sigma> (w_shiftc kind a k) = shift_sem kind k (wval \<sigma> a)"
proof (rule wval_eqI)
  fix n :: nat assume "n < 64"
  then show "lit_true \<sigma> (w_shiftc kind a k ! n) = bit (shift_sem kind k (wval \<sigma> a)) n"
    using k a wfc_consts [OF c] bit_wval [OF a, of _ \<sigma>]
    by (auto simp: w_shiftc_def w_shlc_def w_ashrc_def w_lshrc_def Let_def shift_sem_def
        bit_push_bit_iff bit_drop_bit_eq bit_ashr add.commute
        dest: bit_imp_le_length)
qed (simp add: w_shiftc_def w_shlc_def w_ashrc_def w_lshrc_def Let_def)

lemma signed_drop_bit_add:
  "signed_drop_bit m (signed_drop_bit n (x :: i64)) = signed_drop_bit (m + n) x"
  by (rule bit_eqI) (auto simp: bit_signed_drop_bit_iff ac_simps)

lemma shift_sem_add: "shift_sem kind m (shift_sem kind n x) = shift_sem kind (m + n) x"
  by (simp add: shift_sem_def signed_drop_bit_add ac_simps)

lemma shift_sem_0 [simp]: "shift_sem kind 0 x = x"
  by (simp add: shift_sem_def)

lemma shift_layers_frame: "frame c (snd (shift_layers c kind m js out))"
proof (induction js arbitrary: c out)
  case (Cons j js)
  then show ?case
    using frame_trans [OF w_frames(4) Cons.IH] by (simp add: case_prod_beta)
qed simp

lemma shift_layers_gate:
  "wfc c \<Longrightarrow> wf_w c m \<Longrightarrow> wf_w c out \<Longrightarrow> \<forall>j \<in> set js. j < 6 \<Longrightarrow>
   shift_layers c kind m js out = (r, d) \<Longrightarrow> clean d \<Longrightarrow>
   wgate c d r (\<lambda>\<sigma>. shift_sem kind
     (sum_list (map (\<lambda>j. if lit_true \<sigma> (m ! j) then 2 ^ j else 0) js)) (wval \<sigma> out))"
proof (induction js arbitrary: c out)
  case Nil
  then show ?case by (simp add: wgate_same)
next
  case (Cons j js)
  obtain w c1 where w: "w_ite c (m ! j) (w_shiftc kind out (2 ^ j)) out = (w, c1)" by fastforce
  have rs: "shift_layers c1 kind m js w = (r, d)" using Cons.prems(5) w by simp
  have cl1: "clean c1"
    using frame_clean [of c1 d] shift_layers_frame [of c1 kind m js w] rs Cons.prems(6) by simp
  have j: "j < 6" using Cons.prems(4) by simp
  then have "(2::nat) ^ j \<le> 2 ^ 5" by (intro power_increasing) auto
  then have p: "(2::nat) ^ j < 64" by simp
  have lj: "lit_ok (nv c) (m ! j)" using wf_w_nth [OF Cons.prems(2)] j by simp
  note g = w_ite_gate [OF Cons.prems(1) lj w_shiftc_wf [OF Cons.prems(1,3)] Cons.prems(3) w cl1]
  have e1: "ext c c1" and w1: "wf_w c1 w" using g by (auto simp: wgate_def)
  note t = Cons.IH [OF ext_wfc [OF e1] wf_w_ext [OF e1 Cons.prems(2)] w1 _ rs Cons.prems(6)]
  have t: "wgate c1 d r (\<lambda>\<sigma>. shift_sem kind
     (sum_list (map (\<lambda>j. if lit_true \<sigma> (m ! j) then 2 ^ j else 0) js)) (wval \<sigma> w))"
    using t Cons.prems(4) by simp
  have len: "length out = 64" using Cons.prems(3) by (simp add: wf_w_def)
  have v: "wval \<sigma> w = shift_sem kind (if lit_true \<sigma> (m ! j) then 2 ^ j else 0) (wval \<sigma> out)"
    if md: "models d \<sigma>" for \<sigma>
  proof -
    have "models c \<sigma>" using ext_models [OF ext_trans [OF e1 wgate_ext [OF t]] md] .
    then show ?thesis
      using g ext_models [OF wgate_ext [OF t] md] w_shiftc_val [OF Cons.prems(1) _ len p]
      by (simp add: wgate_def)
  qed
  show ?case
    by (rule wgate_cong [OF ext_wgate [OF e1 t]]) (simp add: v shift_sem_add add.commute)
qed

lemma low_bits_sum:
  "sum_list (map (\<lambda>j. if bit (x :: i64) j then 2 ^ j else 0) [0 ..< k]) = unat (take_bit k x)"
  if "k \<le> 64"
proof -
  have "sum_list (map (\<lambda>j. if bit x j then 2 ^ j else 0) [0 ..< k]) =
      sum_list (map (\<lambda>j. if bit (unat x) j then 2 ^ j else 0) [0 ..< k])"
    using that by (intro arg_cong [of _ _ sum_list] map_cong) (auto simp: bit_unsigned_iff)
  also have "\<dots> = take_bit k (unat x)"
  proof (induction k)
    case (Suc k)
    then show ?case by (auto simp: take_bit_Suc_from_most)
  qed simp
  finally show ?thesis by (simp add: unsigned_take_bit_eq)
qed

lemma w_shift_var_frame: "frame c (snd (w_shift_var c a cnt kind))"
  by (simp add: w_shift_var_def case_prod_beta frame_trans [OF w_frames(1) shift_layers_frame])

lemma w_shift_var_gate:
  assumes c: "wfc c" and w: "wf_w c a" "wf_w c cnt" and r: "w_shift_var c a cnt kind = (r, d)"
    and cd: "clean d"
  shows "wgate c d r (\<lambda>\<sigma>. shift_sem kind (unat (wval \<sigma> cnt AND 63)) (wval \<sigma> a))"
proof -
  obtain m c1 where m: "w_and c cnt (w_const 63) = (m, c1)" by fastforce
  have rs: "shift_layers c1 kind m [0 ..< 6] a = (r, d)" using r m by (simp add: w_shift_var_def)
  have cl1: "clean c1"
    using frame_clean [of c1 d] shift_layers_frame [of c1 kind m "[0 ..< 6]" a] rs cd by simp
  note gm = w_and_gate [OF c w(2) w_const_wf [OF c] m cl1]
  have e1: "ext c c1" and m1: "wf_w c1 m" using gm by (auto simp: wgate_def)
  have t: "wgate c1 d r (\<lambda>\<sigma>. shift_sem kind
     (sum_list (map (\<lambda>j. if lit_true \<sigma> (m ! j) then 2 ^ j else 0) [0 ..< 6])) (wval \<sigma> a))"
    by (rule shift_layers_gate [OF ext_wfc [OF e1] m1 wf_w_ext [OF e1 w(1)] _ rs cd]) simp
  have "sum_list (map (\<lambda>j. if lit_true \<sigma> (m ! j) then 2 ^ j else 0) [0 ..< 6]) =
      unat (wval \<sigma> cnt AND 63)" if md: "models d \<sigma>" for \<sigma>
  proof -
    have "models c1 \<sigma>" "models c \<sigma>"
      using ext_models md wgate_ext [OF t] e1 by blast+
    then have v: "wval \<sigma> m = wval \<sigma> cnt AND 63" using gm w_const_val [OF c] by (simp add: wgate_def)
    have "sum_list (map (\<lambda>j. if lit_true \<sigma> (m ! j) then 2 ^ j else 0) [0 ..< 6]) =
        sum_list (map (\<lambda>j. if bit (wval \<sigma> m) j then 2 ^ j else 0) [0 ..< 6])"
      using m1 by (intro arg_cong [of _ _ sum_list] map_cong) (auto simp: wf_w_def bit_wval)
    also have "\<dots> = unat (take_bit 6 (wval \<sigma> m))" by (rule low_bits_sum) simp
    also have "take_bit 6 (wval \<sigma> m) = wval \<sigma> m"
    proof -
      have "(63 :: i64) = mask 6" by (simp add: mask_eq_exp_minus_1)
      then show ?thesis unfolding v by (simp add: take_bit_eq_mask ac_simps)
    qed
    finally show ?thesis by (simp add: v)
  qed
  then show ?thesis by (intro wgate_cong [OF ext_wgate [OF e1 t]]) simp
qed

end
