(* ===== verification/BvExpr.thy ===== *)
theory BvExpr
  imports BvOracle BvWord
begin

text \<open>
  The reference semantics of the fragment - two's complement arithmetic, the
  masked shifts of \<open>baga.h\<close>, early return - and the correctness of the
  translation of expressions against it.
\<close>

section \<open>Reference semantics\<close>

type_synonym renv = "(string \<times> i64) list"

definition ref_shift :: "binop \<Rightarrow> i64 \<Rightarrow> i64 \<Rightarrow> i64" where
  "ref_shift op a b =
     (if op = OP_LSHIFT then baga_shl_i64 a b
      else if op = OP_RSHIFT then baga_ashr_i64 a b else baga_lshr_i64 a b)"

definition ref_arith :: "binop \<Rightarrow> i64 \<Rightarrow> i64 \<Rightarrow> i64 option" where
  "ref_arith op a b =
     (case op of
        OP_ADD \<Rightarrow> Some (a + b) | OP_SUB \<Rightarrow> Some (a - b)
      | OP_BIT_AND \<Rightarrow> Some (a AND b) | OP_BIT_OR \<Rightarrow> Some (a OR b)
      | OP_BIT_XOR \<Rightarrow> Some (a XOR b)
      | OP_LSHIFT \<Rightarrow> Some (ref_shift op a b) | OP_RSHIFT \<Rightarrow> Some (ref_shift op a b)
      | OP_URSHIFT \<Rightarrow> Some (ref_shift op a b) | _ \<Rightarrow> None)"

definition ref_compare :: "binop \<Rightarrow> i64 \<Rightarrow> i64 \<Rightarrow> bool option" where
  "ref_compare op a b =
     (case op of
        OP_EQ \<Rightarrow> Some (a = b) | OP_NEQ \<Rightarrow> Some (a \<noteq> b)
      | OP_LT \<Rightarrow> Some (sint a < sint b) | OP_GT \<Rightarrow> Some (sint a > sint b)
      | OP_LE \<Rightarrow> Some (sint a \<le> sint b) | OP_GE \<Rightarrow> Some (sint a \<ge> sint b)
      | _ \<Rightarrow> None)"

fun ref_i64 :: "renv \<Rightarrow> node \<Rightarrow> i64 option"
  and ref_bool :: "renv \<Rightarrow> node \<Rightarrow> bool option" where
  "ref_i64 \<rho> (NODE_INT_LIT n) = Some n"
| "ref_i64 \<rho> (NODE_BOOL_LIT b) = Some (of_bool b)"
| "ref_i64 \<rho> (NODE_IDENT x) = map_of \<rho> x"
| "ref_i64 \<rho> (NODE_UNARY op e) =
     (if op = UOP_NEG then map_option uminus (ref_i64 \<rho> e)
      else if op = UOP_NOT then map_option (\<lambda>b. of_bool (\<not> b)) (ref_bool \<rho> e)
      else None)"
| "ref_i64 \<rho> (NODE_BINARY op l r) =
     (case (ref_i64 \<rho> l, ref_i64 \<rho> r) of
        (Some a, Some b) \<Rightarrow> ref_arith op a b | _ \<Rightarrow> None)"
| "ref_i64 \<rho> _ = None"
| "ref_bool \<rho> (NODE_BOOL_LIT b) = Some b"
| "ref_bool \<rho> (NODE_IDENT x) = map_option (\<lambda>v. bit v 0) (map_of \<rho> x)"
| "ref_bool \<rho> (NODE_UNARY op e) =
     (if op = UOP_NOT then map_option Not (ref_bool \<rho> e) else None)"
| "ref_bool \<rho> (NODE_BINARY op l r) =
     (if op = OP_AND \<or> op = OP_OR then
        (case (ref_bool \<rho> l, ref_bool \<rho> r) of
           (Some a, Some b) \<Rightarrow> Some (if op = OP_AND then a \<and> b else a \<or> b) | _ \<Rightarrow> None)
      else
        (case (ref_i64 \<rho> l, ref_i64 \<rho> r) of
           (Some a, Some b) \<Rightarrow> ref_compare op a b | _ \<Rightarrow> None))"
| "ref_bool \<rho> _ = None"

lemma ref_shift_sem: "is_shift op \<Longrightarrow> ref_shift op a b = shift_sem (shift_kind op) (unat (b AND 63)) a"
  by (auto simp: ref_shift_def is_shift_def shift_kind_def shift_sem_def baga_shl_i64_def
      baga_lshr_i64_def baga_ashr_i64_eq)

section \<open>Expressions\<close>

text \<open>The values a context's environment has in a model.\<close>

definition renv_of :: "(nat \<Rightarrow> bool) \<Rightarrow> (string \<times> bvword) list \<Rightarrow> renv" where
  "renv_of \<sigma> e = map (\<lambda>(x, w). (x, wval \<sigma> w)) e"

definition wf_env :: "bvctx \<Rightarrow> bool" where
  "wf_env c \<longleftrightarrow> (\<forall>(x, w) \<in> set (env c). wf_w c w)"

definition wexp :: "bvctx \<Rightarrow> bvctx \<Rightarrow> bvword \<Rightarrow> (renv \<Rightarrow> i64 option) \<Rightarrow> bool" where
  "wexp c d w f \<longleftrightarrow> ext c d \<and> wf_w d w \<and>
     (\<forall>\<sigma>. models d \<sigma> \<longrightarrow> f (renv_of \<sigma> (env c)) = Some (wval \<sigma> w))"

definition bexp :: "bvctx \<Rightarrow> bvctx \<Rightarrow> int \<Rightarrow> (renv \<Rightarrow> bool option) \<Rightarrow> bool" where
  "bexp c d l f \<longleftrightarrow> ext c d \<and> lit_ok (nv d) l \<and>
     (\<forall>\<sigma>. models d \<sigma> \<longrightarrow> f (renv_of \<sigma> (env c)) = Some (lit_true \<sigma> l))"

lemma map_of_renv_of: "map_of (renv_of \<sigma> e) x = map_option (wval \<sigma>) (map_of e x)"
  by (induction e) (auto simp: renv_of_def)

lemma wf_env_find: "wf_env c \<Longrightarrow> map_of (env c) x = Some w \<Longrightarrow> wf_w c w"
  by (auto simp: wf_env_def dest: map_of_SomeD)

lemma wf_env_ext: "wf_env c \<Longrightarrow> ext c d \<Longrightarrow> env d = env c \<Longrightarrow> wf_env d"
  using wf_w_ext by (fastforce simp: wf_env_def)

lemma frame_env: "frame c d \<Longrightarrow> env d = env c"
  by (simp add: frame_def)

lemma bv_fail_not_clean [simp]: "\<not> clean (bv_fail c)"
  by (simp add: clean_def bv_fail_def)

lemma w_bit0_wf: "wfc c \<Longrightarrow> lit_ok (nv c) l \<Longrightarrow> wf_w c (w_bit0 l)"
  using w_const_wf [of c 0] set_update_subset_insert [of "w_const 0" 0 l]
  by (auto simp: w_bit0_def wf_w_def)

lemma w_bit0_val:
  assumes "wfc c" "models c \<sigma>" shows "wval \<sigma> (w_bit0 l) = of_bool (lit_true \<sigma> l)"
  by (rule wval_eqI)
    (use wfc_consts [OF assms] in
      \<open>auto simp: w_bit0_def w_const_def nth_list_update bit_of_bool_iff simp flip: bit_0\<close>)

lemma w_bit0_exp:
  assumes "bexp c d l f" shows "wexp c d (w_bit0 l) (\<lambda>e. map_option of_bool (f e))"
proof -
  have w: "wfc d" and l: "lit_ok (nv d) l" using assms ext_wfc by (auto simp: bexp_def)
  show ?thesis
    using assms w_bit0_wf [OF w l] w_bit0_val [OF w] by (simp add: wexp_def bexp_def)
qed

lemma w_arith_frame: "frame c (snd (w_arith op c a b))"
  by (cases op) (simp_all add: w_arith_def w_frames w_add_frame w_sub_frame frame_steps)

lemma w_compare_frame: "frame c (snd (w_compare op c a b))"
  by (cases op) (simp_all add: w_compare_def w_eq_lit_frame w_slt_lit_frame frame_steps case_prod_beta)

lemma w_arith_gate:
  assumes c: "wfc c" and w: "wf_w c a" "wf_w c b" and r: "w_arith op c a b = (r, d)" and cd: "clean d"
    and sh: "\<not> is_shift op"
  shows "ext c d \<and> wf_w d r \<and>
    (\<forall>\<sigma>. models d \<sigma> \<longrightarrow> ref_arith op (wval \<sigma> a) (wval \<sigma> b) = Some (wval \<sigma> r))"
proof (cases op)
  case OP_ADD
  then have "w_add c a b BV_F = (r, d)" using r by (simp add: w_arith_def)
  note t = w_add_gate [OF c w lit_ok_consts(2) [OF c] this cd]
  show ?thesis using t OP_ADD wfc_consts(2) [OF wgate_wfc [OF t]] by (simp add: wgate_def ref_arith_def)
qed (use r cd sh w_sub_gate [OF c w] w_and_gate [OF c w] w_or_gate [OF c w] w_xor_gate [OF c w]
    in \<open>auto simp: w_arith_def wgate_def ref_arith_def is_shift_def\<close>)

lemma gate_not: "gate c d l f \<Longrightarrow> gate c d (g_not l) (\<lambda>\<sigma>. \<not> f \<sigma>)"
  by (auto simp: gate_def g_not_def lit_ok_def lit_true_neg)

lemma w_compare_gate:
  assumes c: "wfc c" and w: "wf_w c a" "wf_w c b" and r: "w_compare op c a b = (r, d)" and cd: "clean d"
  shows "ext c d \<and> lit_ok (nv d) r \<and>
    (\<forall>\<sigma>. models d \<sigma> \<longrightarrow> ref_compare op (wval \<sigma> a) (wval \<sigma> b) = Some (lit_true \<sigma> r))"
proof -
  have "\<exists>f. gate c d r f \<and> (\<forall>\<sigma>. ref_compare op (wval \<sigma> a) (wval \<sigma> b) = Some (f \<sigma>))"
    using r cd gate_not [OF w_eq_lit_gate [OF c w]] gate_not [OF w_slt_lit_gate [OF c w]]
      gate_not [OF w_slt_lit_gate [OF c w(2,1)]] w_eq_lit_gate [OF c w] w_slt_lit_gate [OF c w]
      w_slt_lit_gate [OF c w(2,1)]
    by (cases op)
      (fastforce simp: w_compare_def ref_compare_def not_less split: prod.splits)+
  then show ?thesis by (auto simp: gate_def)
qed

lemma frame_snd: "f = (r, d) \<Longrightarrow> frame c (snd f) \<Longrightarrow> frame c d"
  by simp

lemma bv_eval_frames: "frame c (snd (bv_eval_i64 c e)) \<and> frame c (snd (bv_eval_bool c e))"
proof (induction e arbitrary: c)
  case (NODE_UNARY op e)
  then show ?case
    using frame_trans [OF _ w_neg_frame] by (auto simp: case_prod_beta frame_steps)
next
  case (NODE_BINARY op l r)
  have i: "frame c (snd (bv_eval_i64 c l))" and
    ii: "frame c (snd (bv_eval_i64 (snd (bv_eval_i64 c l)) r))" and
    bb: "frame c (snd (bv_eval_bool (snd (bv_eval_bool c l)) r))"
    using NODE_BINARY.IH frame_trans by blast+
  show ?case
    using i ii bb frame_trans [OF ii w_shift_var_frame] frame_trans [OF ii w_arith_frame]
      frame_trans [OF ii w_compare_frame] frame_trans [OF bb gate_frame(1)]
      frame_trans [OF bb gate_frame(2)]
    by (simp add: case_prod_beta split: option.split)
qed (auto simp: frame_steps split: option.split)

lemma bv_eval_frame: "frame c (snd (bv_eval_i64 c e))" "frame c (snd (bv_eval_bool c e))"
  using bv_eval_frames by blast+

text \<open>The expression translation, both functions at once.\<close>

lemma int_lit_of_Some: "int_lit_of e = Some n \<Longrightarrow> e = NODE_INT_LIT n"
  by (cases e) auto

lemma bexp_chain: "bexp c d l f \<Longrightarrow> ext d e \<Longrightarrow> bexp c e l f"
  using ext_trans ext_lit_ok ext_models unfolding bexp_def by blast

lemma wexp_chain: "wexp c d w f \<Longrightarrow> ext d e \<Longrightarrow> wexp c e w f"
  using ext_trans wf_w_ext ext_models unfolding wexp_def by blast

lemma wexp_start: "ext b c \<Longrightarrow> env c = env b \<Longrightarrow> wexp c d w f \<Longrightarrow> wexp b d w f"
  using ext_trans by (auto simp: wexp_def)

lemma bexp_start: "ext b c \<Longrightarrow> env c = env b \<Longrightarrow> bexp c d w f \<Longrightarrow> bexp b d w f"
  using ext_trans by (auto simp: bexp_def)

definition exp_ok :: "node \<Rightarrow> bool" where
  "exp_ok e \<longleftrightarrow>
     (\<forall>c w d. wfc c \<longrightarrow> wf_env c \<longrightarrow> bv_eval_i64 c e = (w, d) \<longrightarrow> clean d \<longrightarrow>
        wexp c d w (\<lambda>\<rho>. ref_i64 \<rho> e)) \<and>
     (\<forall>c l d. wfc c \<longrightarrow> wf_env c \<longrightarrow> bv_eval_bool c e = (l, d) \<longrightarrow> clean d \<longrightarrow>
        bexp c d l (\<lambda>\<rho>. ref_bool \<rho> e))"

lemma exp_okD:
  assumes "exp_ok e" "wfc c" "wf_env c"
  shows "bv_eval_i64 c e = (w, d) \<Longrightarrow> clean d \<Longrightarrow>
      wexp c d w (\<lambda>\<rho>. ref_i64 \<rho> e) \<and> env d = env c \<and> wfc d \<and> wf_env d"
    "bv_eval_bool c e = (l, d) \<Longrightarrow> clean d \<Longrightarrow>
      bexp c d l (\<lambda>\<rho>. ref_bool \<rho> e) \<and> env d = env c \<and> wfc d \<and> wf_env d"
proof -
  assume r: "bv_eval_i64 c e = (w, d)" "clean d"
  then have "wexp c d w (\<lambda>\<rho>. ref_i64 \<rho> e)" using assms by (simp add: exp_ok_def)
  moreover have "env d = env c" using frame_env [OF frame_snd [OF r(1) bv_eval_frame(1)]] .
  ultimately show "wexp c d w (\<lambda>\<rho>. ref_i64 \<rho> e) \<and> env d = env c \<and> wfc d \<and> wf_env d"
    using wf_env_ext [OF assms(3)] by (auto simp: wexp_def ext_wfc)
next
  assume r: "bv_eval_bool c e = (l, d)" "clean d"
  then have "bexp c d l (\<lambda>\<rho>. ref_bool \<rho> e)" using assms by (simp add: exp_ok_def)
  moreover have "env d = env c" using frame_env [OF frame_snd [OF r(1) bv_eval_frame(2)]] .
  ultimately show "bexp c d l (\<lambda>\<rho>. ref_bool \<rho> e) \<and> env d = env c \<and> wfc d \<and> wf_env d"
    using wf_env_ext [OF assms(3)] by (auto simp: bexp_def ext_wfc)
qed

lemma failed_not_clean: "failed c \<Longrightarrow> \<not> clean c"
  by (simp add: clean_def)

lemma exp_ok_ident: "exp_ok (NODE_IDENT x)"
  using wf_env_find
  by (auto simp: exp_ok_def wexp_def bexp_def bv_env_find_def map_of_renv_of ext_refl
      failed_not_clean wf_w_nth wf_w_def bit_wval
      simp flip: bit_0 split: if_splits option.splits)

lemma exp_ok_unary:
  assumes e: "exp_ok e" shows "exp_ok (NODE_UNARY op e)"
  unfolding exp_ok_def
proof (intro conjI allI impI)
  fix c w d
  assume c: "wfc c" "wf_env c" and r: "bv_eval_i64 c (NODE_UNARY op e) = (w, d)" and cd: "clean d"
  consider (neg) w' c1 where "op = UOP_NEG" "bv_eval_i64 c e = (w', c1)" "w_neg c1 w' = (w, d)"
    | (not) l where "op = UOP_NOT" "op \<noteq> UOP_NEG" "bv_eval_bool c e = (l, d)" "w = w_bit0 (g_not l)"
    using r cd by (auto simp: failed_not_clean split: if_splits prod.splits)
  then show "wexp c d w (\<lambda>\<rho>. ref_i64 \<rho> (NODE_UNARY op e))"
  proof cases
    case neg
    have c1: "clean c1" using frame_clean [OF frame_snd [OF neg(3) w_neg_frame] cd] .
    note t = exp_okD(1) [OF e c neg(2) c1]
    then have w': "wf_w c1 w'" by (simp add: wexp_def)
    note g = w_neg_gate [OF conjunct1 [OF conjunct2 [OF conjunct2 [OF t]]] w' neg(3) cd]
    show ?thesis
      using wexp_chain [OF conjunct1 [OF t] wgate_ext [OF g]] g neg(1) by (auto simp: wexp_def wgate_def)
  next
    case not
    note t = exp_okD(2) [OF e c not(3) cd]
    have "bexp c d (g_not l) (\<lambda>\<rho>. map_option Not (ref_bool \<rho> e))"
      using conjunct1 [OF t] by (auto simp: bexp_def g_not_def lit_ok_def lit_true_neg)
    from w_bit0_exp [OF this] show ?thesis using not
      by (auto simp: wexp_def option.map_comp comp_def split: option.splits)
  qed
next
  fix c l d
  assume c: "wfc c" "wf_env c" and r: "bv_eval_bool c (NODE_UNARY op e) = (l, d)" and cd: "clean d"
  obtain l' where o: "op = UOP_NOT" "bv_eval_bool c e = (l', d)" "l = g_not l'"
    using r cd by (auto simp: failed_not_clean split: if_splits prod.splits)
  show "bexp c d l (\<lambda>\<rho>. ref_bool \<rho> (NODE_UNARY op e))"
    using exp_okD(2) [OF e c o(2) cd] o by (auto simp: bexp_def g_not_def lit_ok_def lit_true_neg)
qed

lemma exp_ok_binary:
  assumes l: "exp_ok l" and r: "exp_ok r" shows "exp_ok (NODE_BINARY op l r)"
  unfolding exp_ok_def
proof (intro conjI allI impI)
  fix c w d
  assume c: "wfc c" "wf_env c" and ev: "bv_eval_i64 c (NODE_BINARY op l r) = (w, d)" and cd: "clean d"
  obtain a c1 where a: "bv_eval_i64 c l = (a, c1)" by fastforce
  obtain b c2 where b: "bv_eval_i64 c1 r = (b, c2)" by fastforce
  have nf: "\<not> failed c" using ev cd by (auto simp: failed_not_clean)
  show "wexp c d w (\<lambda>\<rho>. ref_i64 \<rho> (NODE_BINARY op l r))"
  proof (cases "is_shift op \<and> int_lit_of r \<noteq> None")
    case True
    then obtain n where n: "int_lit_of r = Some n" "r = NODE_INT_LIT n" using int_lit_of_Some by auto
    have e: "d = c1" "w = w_shiftc (shift_kind op) a (unat (n AND 63))"
      using ev nf True n cd by (auto simp: a failed_not_clean split: if_splits)
    note t = exp_okD(1) [OF l c a cd [unfolded e(1)]]
    then have t1: "wexp c d a (\<lambda>\<rho>. ref_i64 \<rho> l)" "wfc d" by (auto simp: e)
    have wa: "wf_w d a" using t1 by (simp add: wexp_def)
    then have "length a = 64" by (simp add: wf_w_def)
    note v = w_shiftc_val [OF t1(2) _ this and_63_less [of n], of _ "shift_kind op"]
    have "ref_arith op x n = Some (shift_sem (shift_kind op) (unat (n AND 63)) x)" for x
      using True ref_shift_sem [of op x n] by (auto simp: ref_arith_def is_shift_def)
    then show ?thesis
      using t1 v w_shiftc_wf [OF t1(2) wa] by (simp add: wexp_def e(2) n(2))
  next
    case False
    have c2: "clean c2" and o: "if is_shift op then w_shift_var c2 a b (shift_kind op) = (w, d)
        else w_arith op c2 a b = (w, d)"
    proof -
      show o: "if is_shift op then w_shift_var c2 a b (shift_kind op) = (w, d)
          else w_arith op c2 a b = (w, d)"
        using ev nf False cd by (auto simp: a b failed_not_clean split: if_splits)
      then show "clean c2"
        using frame_clean [OF frame_snd [OF _ w_shift_var_frame] cd]
          frame_clean [OF frame_snd [OF _ w_arith_frame] cd] by (auto split: if_splits)
    qed
    have c1: "clean c1" by (rule frame_clean [OF frame_snd [OF b bv_eval_frame(1)] c2])
    note ta = exp_okD(1) [OF l c a c1]
    then have t1: "wexp c c1 a (\<lambda>\<rho>. ref_i64 \<rho> l)" "wfc c1" "wf_env c1" "env c1 = env c" by auto
    note tb = exp_okD(1) [OF r t1(2,3) b c2]
    then have t2: "wexp c1 c2 b (\<lambda>\<rho>. ref_i64 \<rho> r)" "wfc c2" by auto
    have e2: "ext c1 c2" using t2 by (simp add: wexp_def)
    have wab: "wf_w c2 a" "wf_w c2 b" using t1 t2 wf_w_ext [OF e2] by (auto simp: wexp_def)
    have o': "ext c2 d \<and> wf_w d w \<and>
        (\<forall>\<sigma>. models d \<sigma> \<longrightarrow> ref_arith op (wval \<sigma> a) (wval \<sigma> b) = Some (wval \<sigma> w))"
    proof (cases "is_shift op")
      case True
      then have s: "w_shift_var c2 a b (shift_kind op) = (w, d)" using o by simp
      have "ref_arith op x y = Some (shift_sem (shift_kind op) (unat (y AND 63)) x)" for x y
        using True ref_shift_sem [of op x y] by (auto simp: ref_arith_def is_shift_def)
      then show ?thesis
        using w_shift_var_gate [OF t2(2) wab s cd] by (simp add: wgate_def)
    next
      case False
      then show ?thesis using w_arith_gate [OF t2(2) wab _ cd False] o by simp
    qed
    have fa: "wexp c d a (\<lambda>\<rho>. ref_i64 \<rho> l)" and fb: "wexp c1 d b (\<lambda>\<rho>. ref_i64 \<rho> r)"
      using wexp_chain [OF t1(1) e2] wexp_chain o' t2(1) by blast+
    then show ?thesis using o' t1(4) by (auto simp: wexp_def)
  qed
next
  fix c k d
  assume c: "wfc c" "wf_env c" and ev: "bv_eval_bool c (NODE_BINARY op l r) = (k, d)" and cd: "clean d"
  have nf: "\<not> failed c" using ev cd by (auto simp: failed_not_clean)
  show "bexp c d k (\<lambda>\<rho>. ref_bool \<rho> (NODE_BINARY op l r))"
  proof (cases "op = OP_AND \<or> op = OP_OR")
    case True
    obtain a c1 where a: "bv_eval_bool c l = (a, c1)" by fastforce
    obtain b c2 where b: "bv_eval_bool c1 r = (b, c2)" by fastforce
    have o: "if op = OP_AND then g_and c2 a b = (k, d) else g_or c2 a b = (k, d)"
      using ev nf True by (auto simp: a b)
    then have c2: "clean c2"
      using frame_clean [OF frame_snd [OF _ gate_frame(1)] cd]
        frame_clean [OF frame_snd [OF _ gate_frame(2)] cd] by (auto split: if_splits)
    have c1: "clean c1" by (rule frame_clean [OF frame_snd [OF b bv_eval_frame(2)] c2])
    have t1: "bexp c c1 a (\<lambda>\<rho>. ref_bool \<rho> l)" "wfc c1" "wf_env c1" "env c1 = env c"
      using exp_okD(2) [OF l c a c1] by auto
    have t2: "bexp c1 c2 b (\<lambda>\<rho>. ref_bool \<rho> r)" "wfc c2"
      using exp_okD(2) [OF r t1(2,3) b c2] by auto
    have e2: "ext c1 c2" using t2 by (simp add: bexp_def)
    have ab: "lit_ok (nv c2) a" "lit_ok (nv c2) b"
      using t1 t2 ext_lit_ok [OF e2] by (auto simp: bexp_def)
    have g: "gate c2 d k (\<lambda>\<sigma>. if op = OP_AND then lit_true \<sigma> a \<and> lit_true \<sigma> b
        else lit_true \<sigma> a \<or> lit_true \<sigma> b)"
      using o g_and_gate [OF t2(2) ab _ clean_not_failed [OF cd]]
        g_or_gate [OF t2(2) ab _ clean_not_failed [OF cd]] by (auto split: if_splits)
    have fa: "bexp c d a (\<lambda>\<rho>. ref_bool \<rho> l)" and fb: "bexp c1 d b (\<lambda>\<rho>. ref_bool \<rho> r)"
      using bexp_chain [OF t1(1) e2] bexp_chain [OF _ gate_ext [OF g]] t2(1) by blast+
    then show ?thesis using g True t1(4) by (auto simp: bexp_def gate_def)
  next
    case False
    obtain a c1 where a: "bv_eval_i64 c l = (a, c1)" by fastforce
    obtain b c2 where b: "bv_eval_i64 c1 r = (b, c2)" by fastforce
    have o: "w_compare op c2 a b = (k, d)"
      using ev nf False cd by (auto simp: a b failed_not_clean split: if_splits)
    have c2: "clean c2" by (rule frame_clean [OF frame_snd [OF o w_compare_frame] cd])
    have c1: "clean c1" by (rule frame_clean [OF frame_snd [OF b bv_eval_frame(1)] c2])
    have t1: "wexp c c1 a (\<lambda>\<rho>. ref_i64 \<rho> l)" "wfc c1" "wf_env c1" "env c1 = env c"
      using exp_okD(1) [OF l c a c1] by auto
    have t2: "wexp c1 c2 b (\<lambda>\<rho>. ref_i64 \<rho> r)" "wfc c2"
      using exp_okD(1) [OF r t1(2,3) b c2] by auto
    have e2: "ext c1 c2" using t2 by (simp add: wexp_def)
    have wab: "wf_w c2 a" "wf_w c2 b" using t1 t2 wf_w_ext [OF e2] by (auto simp: wexp_def)
    note g = w_compare_gate [OF t2(2) wab o cd]
    have fa: "wexp c d a (\<lambda>\<rho>. ref_i64 \<rho> l)" and fb: "wexp c1 d b (\<lambda>\<rho>. ref_i64 \<rho> r)"
      using wexp_chain [OF t1(1) e2] wexp_chain g t2(1) by blast+
    then show ?thesis using g False t1(4) by (auto simp: wexp_def bexp_def)
  qed
qed

lemma bv_eval_ok: "exp_ok e"
proof (induction e)
  case (NODE_INT_LIT n)
  then show ?case
    using w_const_wf w_const_val
    by (auto simp: exp_ok_def wexp_def ext_refl failed_not_clean split: if_splits)
next
  case (NODE_BOOL_LIT b)
  then show ?case
    using w_bit0_wf w_bit0_val wfc_consts lit_ok_consts
    by (auto simp: exp_ok_def wexp_def bexp_def ext_refl failed_not_clean split: if_splits)
next
  case (NODE_IDENT x)
  show ?case by (rule exp_ok_ident)
next
  case (NODE_UNARY op e)
  then show ?case by (intro exp_ok_unary)
next
  case (NODE_BINARY op l r)
  then show ?case by (intro exp_ok_binary)
qed (auto simp: exp_ok_def failed_not_clean split: if_splits)

end
