(* ===== verification/BvStmt.thy ===== *)
theory BvStmt
  imports BvExpr
begin

text \<open>
  The reference semantics of statements and the correctness of their
  translation, for bodies whose returns all stand in tail position: there the
  multiplexing by branch conditions is the early return of the language.
\<close>

section \<open>Reference semantics of statements\<close>

text \<open>
  \<open>None\<close>: outside the fragment. A \<open>let\<close> of a name that is already bound
  overwrites it, as in \<open>bv_interp\<close>; names bound in a branch end with it.
\<close>

definition ref_opt :: "renv \<Rightarrow> node option \<Rightarrow> i64 option" where
  "ref_opt \<rho> e = (case e of Some x \<Rightarrow> ref_i64 \<rho> x | None \<Rightarrow> Some 0)"

function (sequential) ref_stmt :: "renv \<Rightarrow> node \<Rightarrow> (renv \<times> i64 option) option"
  and ref_stmts :: "renv \<Rightarrow> node list \<Rightarrow> (renv \<times> i64 option) option" where
  "ref_stmt \<rho> (NODE_BLOCK ss) = ref_stmts \<rho> ss"
| "ref_stmt \<rho> (NODE_LET x m t init) =
     map_option (\<lambda>v. (alist_put \<rho> x v, None)) (ref_opt \<rho> init)"
| "ref_stmt \<rho> (NODE_ASSIGN tgt val) =
     (case tgt of
        NODE_IDENT x \<Rightarrow>
          if map_of \<rho> x = None then None
          else map_option (\<lambda>v. (alist_put \<rho> x v, None)) (ref_i64 \<rho> val)
      | _ \<Rightarrow> None)"
| "ref_stmt \<rho> (NODE_IF cd th el) =
     (case ref_bool \<rho> cd of
        None \<Rightarrow> None
      | Some b \<Rightarrow>
          map_option (\<lambda>(\<rho>', r). (take (length \<rho>) \<rho>', r))
            (if b then ref_stmts \<rho> (node_stmts th)
             else (case el of None \<Rightarrow> Some (\<rho>, None) | Some e \<Rightarrow> ref_stmts \<rho> (node_stmts e))))"
| "ref_stmt \<rho> (NODE_RETURN val) = map_option (\<lambda>v. (\<rho>, Some v)) (ref_opt \<rho> val)"
| "ref_stmt \<rho> _ = None"
| "ref_stmts \<rho> [] = Some (\<rho>, None)"
| "ref_stmts \<rho> (s # ss) =
     (case ref_stmt \<rho> s of
        None \<Rightarrow> None
      | Some (\<rho>', Some v) \<Rightarrow> Some (\<rho>', Some v)
      | Some (\<rho>', None) \<Rightarrow> ref_stmts \<rho>' ss)"
  by pat_completeness auto
termination
  by (relation "measure (\<lambda>x. case x of Inl (\<rho>, s) \<Rightarrow> Suc (2 * size s)
        | Inr (\<rho>, ss) \<Rightarrow> 2 * size_list size ss)")
    (auto simp: less_Suc_eq_le intro: size_node_stmts)

text \<open>No return at all, and returns in tail position only.\<close>

function (sequential) no_ret :: "node \<Rightarrow> bool" and no_rets :: "node list \<Rightarrow> bool" where
  "no_ret (NODE_BLOCK ss) = no_rets ss"
| "no_ret (NODE_IF cd th el) =
     (no_rets (node_stmts th) \<and> (case el of None \<Rightarrow> True | Some e \<Rightarrow> no_rets (node_stmts e)))"
| "no_ret (NODE_RETURN val) = False"
| "no_ret (NODE_LET x m t init) = True"
| "no_ret (NODE_ASSIGN tgt val) = True"
| "no_ret _ = True"
| "no_rets [] = True"
| "no_rets (s # ss) = (no_ret s \<and> no_rets ss)"
  by pat_completeness auto
termination
  by (relation "measure (\<lambda>x. case x of Inl s \<Rightarrow> Suc (2 * size s) | Inr ss \<Rightarrow> 2 * size_list size ss)")
    (auto simp: less_Suc_eq_le intro: size_node_stmts)

function (sequential) tail_ret :: "node \<Rightarrow> bool" and tail_rets :: "node list \<Rightarrow> bool" where
  "tail_ret (NODE_BLOCK ss) = tail_rets ss"
| "tail_ret (NODE_IF cd th el) =
     (tail_rets (node_stmts th) \<and>
      (case el of None \<Rightarrow> True | Some e \<Rightarrow> tail_rets (node_stmts e)))"
| "tail_ret _ = True"
| "tail_rets [] = True"
| "tail_rets (s # ss) = (if ss = [] then tail_ret s else no_ret s \<and> tail_rets ss)"
  by pat_completeness auto
termination
  by (relation "measure (\<lambda>x. case x of Inl s \<Rightarrow> Suc (2 * size s) | Inr ss \<Rightarrow> 2 * size_list size ss)")
    (auto simp: less_Suc_eq_le intro: size_node_stmts)

section \<open>The invariant of the translation\<close>

definition st_ok :: "bvctx \<Rightarrow> bool" where
  "st_ok c \<longleftrightarrow> wfc c \<and> wf_env c \<and> lit_ok (nv c) (pc c) \<and> lit_ok (nv c) (ret_cond c) \<and>
     (has_ret c \<longrightarrow> wf_w c (ret c))"

definition names_ok :: "bvctx \<Rightarrow> bvctx \<Rightarrow> bool" where
  "names_ok c d \<longleftrightarrow> (\<exists>xs. map fst (env d) = map fst (env c) @ xs)"

definition ret_val :: "(nat \<Rightarrow> bool) \<Rightarrow> bvctx \<Rightarrow> i64 option" where
  "ret_val \<sigma> d = (if has_ret d then Some (wval \<sigma> (ret d)) else None)"

text \<open>\<open>d\<close> is what statements of meaning \<open>f\<close> make of \<open>c\<close>.\<close>

definition sim :: "bvctx \<Rightarrow> bvctx \<Rightarrow> (renv \<Rightarrow> (renv \<times> i64 option) option) \<Rightarrow> bool" where
  "sim c d f \<longleftrightarrow> ext c d \<and> st_ok d \<and> names_ok c d \<and> pc d = pc c \<and>
     (\<forall>\<sigma>. models d \<sigma> \<longrightarrow> f (renv_of \<sigma> (env c)) = Some (renv_of \<sigma> (env d), ret_val \<sigma> d))"

lemma wfc_upd [simp]:
  "wfc (c\<lparr>env := e\<rparr>) = wfc c" "wfc (c\<lparr>pc := p\<rparr>) = wfc c" "wfc (c\<lparr>ret := r\<rparr>) = wfc c"
  "wfc (c\<lparr>ret_cond := l\<rparr>) = wfc c" "wfc (c\<lparr>has_ret := h\<rparr>) = wfc c"
  by (rule wfc_cong; simp)+

lemma models_upd [simp]:
  "models (c\<lparr>env := e\<rparr>) = models c" "models (c\<lparr>pc := p\<rparr>) = models c"
  "models (c\<lparr>ret := r\<rparr>) = models c" "models (c\<lparr>ret_cond := l\<rparr>) = models c"
  "models (c\<lparr>has_ret := h\<rparr>) = models c"
  by (simp_all add: models_def fun_eq_iff)

lemma ext_upd [simp]:
  "ext c (d\<lparr>env := e\<rparr>) = ext c d" "ext c (d\<lparr>pc := p\<rparr>) = ext c d"
  "ext c (d\<lparr>ret := r\<rparr>) = ext c d" "ext c (d\<lparr>ret_cond := l\<rparr>) = ext c d"
  "ext c (d\<lparr>has_ret := h\<rparr>) = ext c d"
  "ext (c\<lparr>env := e\<rparr>) d = ext c d" "ext (c\<lparr>pc := p\<rparr>) d = ext c d"
  "ext (c\<lparr>ret := r\<rparr>) d = ext c d" "ext (c\<lparr>ret_cond := l\<rparr>) d = ext c d"
  "ext (c\<lparr>has_ret := h\<rparr>) d = ext c d"
  by (simp_all add: ext_def)

lemma wf_w_upd [simp]:
  "wf_w (c\<lparr>env := e\<rparr>) w = wf_w c w" "wf_w (c\<lparr>pc := p\<rparr>) w = wf_w c w"
  "wf_w (c\<lparr>ret := r\<rparr>) w = wf_w c w" "wf_w (c\<lparr>ret_cond := l\<rparr>) w = wf_w c w"
  "wf_w (c\<lparr>has_ret := h\<rparr>) w = wf_w c w"
  by (simp_all add: wf_w_def)

lemma clean_upd [simp]:
  "clean (c\<lparr>env := e\<rparr>) = clean c" "clean (c\<lparr>pc := p\<rparr>) = clean c" "clean (c\<lparr>ret := r\<rparr>) = clean c"
  "clean (c\<lparr>ret_cond := l\<rparr>) = clean c" "clean (c\<lparr>has_ret := h\<rparr>) = clean c"
  by (simp_all add: clean_def)

lemma gate_upd [simp]:
  "gate (c\<lparr>env := e\<rparr>) d r f = gate c d r f" "gate (c\<lparr>pc := p\<rparr>) d r f = gate c d r f"
  by (simp_all add: gate_def)

section \<open>Failure is final\<close>

lemma clean_back:
  "g_and c a b = (r, d) \<Longrightarrow> clean d \<Longrightarrow> clean c"
  "g_or c a b = (r, d) \<Longrightarrow> clean d \<Longrightarrow> clean c"
  "w_ite c s x y = (w, d) \<Longrightarrow> clean d \<Longrightarrow> clean c"
  "bv_eval_i64 c e = (w, d) \<Longrightarrow> clean d \<Longrightarrow> clean c"
  "bv_eval_bool c e = (l, d) \<Longrightarrow> clean d \<Longrightarrow> clean c"
  by (rule frame_clean [OF frame_snd [OF _ gate_frame(1)]], assumption+)
    (rule frame_clean [OF frame_snd [OF _ gate_frame(2)]], assumption+,
     rule frame_clean [OF frame_snd [OF _ w_frames(4)]], assumption+,
     rule frame_clean [OF frame_snd [OF _ bv_eval_frame(1)]], assumption+,
     rule frame_clean [OF frame_snd [OF _ bv_eval_frame(2)]], assumption+)

lemma merge_env_frame: "frame c (snd (merge_env c cond ts es))"
proof (induction ts arbitrary: c es)
  case (Cons xt ts)
  obtain x t where xt: "xt = (x, t)" by fastforce
  show ?case
  proof (cases es)
    case (Cons ye es')
    obtain y e where "ye = (y, e)" by fastforce
    then show ?thesis
      using Cons xt frame_trans [OF w_frames(4) Cons.IH] by (simp add: case_prod_beta)
  qed simp
qed simp

lemma merge_env_clean: "merge_env c cond ts es = (m, d) \<Longrightarrow> clean d \<Longrightarrow> clean c"
  using frame_clean [OF frame_snd [OF _ merge_env_frame]] by blast

lemma merge_ret_clean: "clean (merge_ret c0 cond ct ce) \<Longrightarrow> clean ce"
  by (auto simp: merge_ret_def split: if_splits prod.splits dest: clean_back)

lemma if_merge_clean: "clean (if_merge c0 cond ct ce) \<Longrightarrow> clean ce"
proof -
  assume a: "clean (if_merge c0 cond ct ce)"
  obtain m c1 where m: "merge_env ce cond (take (length (env c0)) (env ct))
      (take (length (env c0)) (env ce)) = (m, c1)" by fastforce
  then have "clean (merge_ret c0 cond ct (c1\<lparr>env := m\<rparr>))" using a by (simp add: if_merge_def)
  then have "clean c1" using merge_ret_clean by fastforce
  then show "clean ce" using merge_env_clean [OF m] by simp
qed

lemma if_else_clean: "clean (if_else c0 cond ct) \<Longrightarrow> clean ct"
  using clean_back(1) [of "ct\<lparr>env := env c0\<rparr>"]
  by (auto simp: if_else_def split: prod.splits)

lemma bv_eval_opt_clean: "bv_eval_opt c e = (w, d) \<Longrightarrow> clean d \<Longrightarrow> clean c"
  using clean_back(4) by (auto simp: bv_eval_opt_def split: option.splits)

lemma bv_return_clean: "clean (bv_return c w) \<Longrightarrow> clean c"
  by (auto simp: bv_return_def split: if_splits prod.splits dest: clean_back)

lemma bv_env_bind_clean [simp]: "clean (bv_env_bind c x w) = clean c"
  by (simp add: bv_env_bind_def)

text \<open>The equation of a conditional in one piece.\<close>

lemma bv_stmt_if:
  assumes "clean d" "bv_stmt c (NODE_IF cd th el) = (r, d)"
  obtains cond c0 p c1 td ct ed ce where "bv_eval_bool c cd = (cond, c0)" "\<not> failed c" "\<not> failed c0"
    "g_and c0 (pc c0) cond = (p, c1)"
    "bv_stmts_from False (c1\<lparr>pc := p\<rparr>) (node_stmts th) = (td, ct)"
    "(case el of None \<Rightarrow> (False, if_else c0 cond ct)
      | Some b \<Rightarrow> bv_stmts_from False (if_else c0 cond ct) (node_stmts b)) = (ed, ce)"
    "r = (td \<and> ed)" "d = if_merge c0 cond ct ce"
proof -
  obtain cond c0 where cond: "bv_eval_bool c cd = (cond, c0)" by fastforce
  obtain p c1 where p: "g_and c0 (pc c0) cond = (p, c1)" by fastforce
  obtain td ct where ct: "bv_stmts_from False (c1\<lparr>pc := p\<rparr>) (node_stmts th) = (td, ct)" by fastforce
  obtain ed ce where ce: "(case el of None \<Rightarrow> (False, if_else c0 cond ct)
      | Some b \<Rightarrow> bv_stmts_from False (if_else c0 cond ct) (node_stmts b)) = (ed, ce)" by fastforce
  have nf: "\<not> failed c" "\<not> failed c0"
    using assms cond by (auto simp: failed_not_clean split: if_splits)
  have "(td \<and> ed, if_merge c0 cond ct ce) = (r, d)"
    using assms(2) nf by (simp only: bv_stmt.simps cond p ct ce if_False prod.case)
  then show ?thesis using that cond nf p ct ce by blast
qed

lemma bv_stmt_clean:
  "bv_stmt c s = (r, d) \<Longrightarrow> clean d \<Longrightarrow> clean c"
  "bv_stmts_from dr c ss = (r, d) \<Longrightarrow> clean d \<Longrightarrow> clean c"
proof (induction c s and dr c ss arbitrary: r d and r d rule: bv_stmt_bv_stmts_from.induct)
  case (2 c x m t init)
  then show ?case using bv_eval_opt_clean [of c init]
    by (auto split: if_splits prod.splits)
next
  case (3 c tgt val)
  then show ?case using clean_back(4)
    by (auto split: if_splits prod.splits node.splits)
next
  case (4 c cd th el)
  show ?case
  proof (rule bv_stmt_if [OF "4.prems"(2,1)])
    fix cond c0 p c1 td ct ed ce
    assume e: "bv_eval_bool c cd = (cond, c0)" "\<not> failed c" "\<not> failed c0"
      "g_and c0 (pc c0) cond = (p, c1)"
      "bv_stmts_from False (c1\<lparr>pc := p\<rparr>) (node_stmts th) = (td, ct)"
      "(case el of None \<Rightarrow> (False, if_else c0 cond ct)
        | Some b \<Rightarrow> bv_stmts_from False (if_else c0 cond ct) (node_stmts b)) = (ed, ce)"
      "r = (td \<and> ed)" "d = if_merge c0 cond ct ce"
    have "clean ce" using if_merge_clean "4.prems"(2) e(8) by blast
    then have "clean (if_else c0 cond ct)"
      using "4.IH"(2) e by (auto split: option.splits)
    then have "clean ct" by (rule if_else_clean)
    then have "clean (c1\<lparr>pc := p\<rparr>)" using "4.IH"(1) e by auto
    then show "clean c" using clean_back(1) [OF e(4)] clean_back(5) [OF e(1)] by simp
  qed
next
  case (5 c val)
  then show ?case using bv_eval_opt_clean [of c val]
    by (auto split: if_splits prod.splits dest: bv_return_clean)
next
  case (8 dr c s ss)
  then show ?case by (auto split: if_splits prod.splits)
qed (auto simp: failed_not_clean split: if_splits)

section \<open>Simulation\<close>

lemma ret_val_pc [simp]: "ret_val \<sigma> (c\<lparr>pc := p\<rparr>) = ret_val \<sigma> c"
  by (simp add: ret_val_def)

lemma names_ok_refl: "env d = env c \<Longrightarrow> names_ok c d"
  by (simp add: names_ok_def)

lemma names_ok_trans: "names_ok c d \<Longrightarrow> names_ok d e \<Longrightarrow> names_ok c e"
  by (auto simp: names_ok_def)

lemma renv_of_alist_put: "renv_of \<sigma> (alist_put e x w) = alist_put (renv_of \<sigma> e) x (wval \<sigma> w)"
  by (induction e) (auto simp: renv_of_def)

lemma length_renv_of [simp]: "length (renv_of \<sigma> e) = length e"
  by (simp add: renv_of_def)

lemma take_renv_of: "take n (renv_of \<sigma> e) = renv_of \<sigma> (take n e)"
  by (simp add: renv_of_def take_map)

lemma st_ok_frame:
  assumes "st_ok c" "ext c d" "frame c d" shows "st_ok d"
  using assms wf_env_ext [of c d] wf_w_ext [OF assms(2)] ext_lit_ok [OF assms(2)] ext_wfc
  by (auto simp: st_ok_def frame_def)

lemma st_ok_bind:
  assumes "st_ok c" "wf_w c w" shows "st_ok (bv_env_bind c x w)"
proof -
  have "set (alist_put (env c) x w) \<subseteq> insert (x, w) (set (env c))" by (rule set_alist_put_subset)
  then show ?thesis
    using assms unfolding st_ok_def wf_env_def bv_env_bind_def by (auto 0 3)
qed

lemma names_ok_bind: "names_ok c (bv_env_bind c x w)"
  by (auto simp: names_ok_def bv_env_bind_def fst_alist_put)

lemma bv_eval_opt_ok:
  assumes "wfc c" "wf_env c" "bv_eval_opt c e = (w, d)" "clean d"
  shows "wexp c d w (\<lambda>\<rho>. ref_opt \<rho> e) \<and> frame c d"
proof (cases e)
  case None
  then show ?thesis using assms w_const_wf w_const_val
    by (auto simp: bv_eval_opt_def ref_opt_def wexp_def ext_refl)
next
  case (Some x)
  then show ?thesis
    using exp_okD(1) [OF bv_eval_ok assms(1,2)] assms frame_snd [OF _ bv_eval_frame(1)]
    by (auto simp: bv_eval_opt_def ref_opt_def)
qed

text \<open>Binding the value of an expression.\<close>

lemma sim_bind:
  assumes c: "st_ok c" and w: "wexp c d w f" and fr: "frame c d" and nr: "\<not> has_ret c"
  shows "sim c (bv_env_bind d x w) (\<lambda>\<rho>. map_option (\<lambda>v. (alist_put \<rho> x v, None)) (f \<rho>))"
proof -
  have e: "ext c d" "wf_w d w" using w by (auto simp: wexp_def)
  have d: "st_ok d" by (rule st_ok_frame [OF c e(1) fr])
  have "names_ok c (bv_env_bind d x w)"
    using names_ok_trans [OF names_ok_refl names_ok_bind] frame_env [OF fr] by blast
  moreover have "ext c (bv_env_bind d x w)" "pc (bv_env_bind d x w) = pc c"
    "\<not> has_ret (bv_env_bind d x w)"
    "env (bv_env_bind d x w) = alist_put (env c) x w" "models (bv_env_bind d x w) = models d"
    using e fr nr by (simp_all add: bv_env_bind_def frame_def)
  ultimately show ?thesis
    using st_ok_bind [OF d e(2)] w by (auto simp: sim_def wexp_def ret_val_def renv_of_alist_put)
qed

lemma sim_return:
  assumes c: "st_ok c" and w: "wexp c d w f" and fr: "frame c d" and nr: "\<not> has_ret c"
  shows "sim c (bv_return d w) (\<lambda>\<rho>. map_option (\<lambda>v. (\<rho>, Some v)) (f \<rho>)) \<and> has_ret (bv_return d w)"
proof -
  have e: "ext c d" "wf_w d w" using w by (auto simp: wexp_def)
  have d: "st_ok d" by (rule st_ok_frame [OF c e(1) fr])
  have r: "bv_return d w = d\<lparr>ret := w, ret_cond := pc d, has_ret := True\<rparr>"
    using nr fr by (simp add: bv_return_def frame_def)
  have "st_ok (bv_return d w)" using d e(2) by (simp add: r st_ok_def wf_env_def)
  moreover have "names_ok c (bv_return d w)" using frame_env [OF fr] by (simp add: names_ok_def r)
  ultimately show ?thesis
    using e w fr by (simp add: sim_def wexp_def ret_val_def r frame_def)
qed

lemma sim_trans:
  assumes f: "sim c d f" and nr: "\<not> has_ret d" and g: "sim d e g"
  shows "sim c e (\<lambda>\<rho>. case f \<rho> of None \<Rightarrow> None | Some (\<rho>', Some v) \<Rightarrow> Some (\<rho>', Some v)
      | Some (\<rho>', None) \<Rightarrow> g \<rho>')"
proof -
  have "ext c e" "names_ok c e" "ext d e"
    using f g ext_trans names_ok_trans by (auto simp: sim_def)
  then show ?thesis using f g nr ext_models [of d e] by (simp add: sim_def ret_val_def)
qed

lemma sim_refl: "st_ok c \<Longrightarrow> \<not> has_ret c \<Longrightarrow> sim c c (\<lambda>\<rho>. Some (\<rho>, None))"
  by (simp add: sim_def st_ok_def ext_refl names_ok_refl ret_val_def)

section \<open>Conditionals\<close>

lemma merge_env_gate:
  "wfc c \<Longrightarrow> lit_ok (nv c) cond \<Longrightarrow> \<forall>(x, w) \<in> set ts. wf_w c w \<Longrightarrow> \<forall>(x, w) \<in> set es. wf_w c w \<Longrightarrow>
   map fst ts = map fst es \<Longrightarrow> merge_env c cond ts es = (m, d) \<Longrightarrow> clean d \<Longrightarrow>
   ext c d \<and> (\<forall>(x, w) \<in> set m. wf_w d w) \<and> map fst m = map fst es \<and>
   (\<forall>\<sigma>. models d \<sigma> \<longrightarrow>
      renv_of \<sigma> m = (if lit_true \<sigma> cond then renv_of \<sigma> ts else renv_of \<sigma> es))"
proof (induction ts arbitrary: c es m)
  case Nil
  then show ?case by (auto simp: ext_refl renv_of_def)
next
  case (Cons xt ts)
  obtain x t where xt: "xt = (x, t)" by fastforce
  obtain e es' where es: "es = (x, e) # es'" using Cons.prems(5) xt by (cases es) auto
  obtain w c1 where w: "w_ite c cond t e = (w, c1)" by fastforce
  obtain m' where m: "merge_env c1 cond ts es' = (m', d)" "m = (x, w) # m'"
    using Cons.prems(6) w by (auto simp: xt es split: prod.splits)
  have cl1: "clean c1" by (rule merge_env_clean [OF m(1) Cons.prems(7)])
  have wte: "wf_w c t" "wf_w c e" using Cons.prems(3,4) xt es by auto
  note g = w_ite_gate [OF Cons.prems(1,2) wte w cl1]
  have e1: "ext c c1" by (rule wgate_ext [OF g])
  have t: "ext c1 d \<and> (\<forall>(x, w) \<in> set m'. wf_w d w) \<and> map fst m' = map fst es' \<and>
     (\<forall>\<sigma>. models d \<sigma> \<longrightarrow>
      renv_of \<sigma> m' = (if lit_true \<sigma> cond then renv_of \<sigma> ts else renv_of \<sigma> es'))"
    using Cons.prems(3,4,5) xt es wf_w_ext [OF e1]
    by (intro Cons.IH [OF ext_wfc [OF e1] ext_lit_ok [OF e1 Cons.prems(2)] _ _ _ m(1) Cons.prems(7)])
      auto
  have "wgate c d w (\<lambda>\<sigma>. if lit_true \<sigma> cond then wval \<sigma> t else wval \<sigma> e)"
    using wgate_chain [OF g] t by blast
  then show ?case
    using t by (auto simp: m(2) es xt renv_of_def wgate_def)
qed

lemma if_else_ok:
  assumes c0: "st_ok c0" and cond: "lit_ok (nv c0) cond" and ct: "ext c0 ct" and cl: "clean (if_else c0 cond ct)"
  shows "ext ct (if_else c0 cond ct) \<and> st_ok (if_else c0 cond ct) \<and>
    env (if_else c0 cond ct) = env c0 \<and> has_ret (if_else c0 cond ct) = has_ret c0"
proof -
  let ?c = "ct\<lparr>env := env c0\<rparr>"
  obtain p c1 where p: "g_and ?c (pc c0) (- cond) = (p, c1)" by fastforce
  have e: "if_else c0 cond ct =
      c1\<lparr>pc := p, ret := ret c0, ret_cond := ret_cond c0, has_ret := has_ret c0\<rparr>"
    by (simp add: if_else_def g_not_def p)
  have cl1: "clean c1" using cl by (simp add: e)
  have w: "wfc ct" using ct by (rule ext_wfc)
  have l: "lit_ok (nv ct) (pc c0)" "lit_ok (nv ct) (- cond)"
    using c0 cond ext_lit_ok [OF ct] by (auto simp: st_ok_def)
  have g: "gate ct c1 p (\<lambda>\<sigma>. lit_true \<sigma> (pc c0) \<and> lit_true \<sigma> (- cond))"
    using g_and_gate [of ?c "pc c0" "- cond" p c1] w l p clean_not_failed [OF cl1] by simp
  have x: "ext c0 c1" "lit_ok (nv c1) p" "wfc c1"
    using ext_trans [OF ct gate_ext [OF g]] g ext_wfc by (auto simp: gate_def)
  have en: "env c1 = env c0" using frame_env [OF frame_snd [OF p gate_frame(1)]] by simp
  have "wf_env c1" using wf_env_ext [OF _ x(1) en] c0 by (simp add: st_ok_def)
  then have "st_ok (if_else c0 cond ct)"
    using x c0 ext_lit_ok [OF x(1)] wf_w_ext [OF x(1)] by (simp add: e st_ok_def wf_env_def)
  then show ?thesis using g en by (simp add: e gate_def)
qed

lemma merge_ret_ok:
  assumes w: "wfc ce" and l: "lit_ok (nv ce) cond" "lit_ok (nv ce) (ret_cond ct)" "lit_ok (nv ce) (ret_cond ce)"
    and h: "has_ret ct = has_ret ce" and r: "has_ret ce \<longrightarrow> wf_w ce (ret ct) \<and> wf_w ce (ret ce)"
    and cl: "clean (merge_ret c0 cond ct ce)" (is "clean ?d")
  shows "ext ce ?d \<and> env ?d = env ce \<and> has_ret ?d = has_ret ce \<and> lit_ok (nv ?d) (ret_cond ?d) \<and>
    (has_ret ce \<longrightarrow> wf_w ?d (ret ?d)) \<and>
    (\<forall>\<sigma>. models ?d \<sigma> \<longrightarrow>
       ret_val \<sigma> ?d = (if lit_true \<sigma> cond then ret_val \<sigma> ct else ret_val \<sigma> ce))"
proof (cases "has_ret ce")
  case False
  then show ?thesis using w l h by (simp add: merge_ret_def ext_refl ret_val_def)
next
  case True
  obtain v c1 where v: "w_ite ce cond (ret ct) (ret ce) = (v, c1)" by fastforce
  obtain rc c2 where rc: "g_or c1 (ret_cond ct) (ret_cond c1) = (rc, c2)" by fastforce
  have d: "?d = c2\<lparr>ret := v, ret_cond := rc, has_ret := True\<rparr>"
    using True h v rc by (simp add: merge_ret_def)
  have c2: "clean c2" using cl by (simp add: d)
  have c1: "clean c1" by (rule clean_back(2) [OF rc c2])
  have wr: "wf_w ce (ret ct)" "wf_w ce (ret ce)" using r True by auto
  note g = w_ite_gate [OF w l(1) wr v c1]
  have e1: "ext ce c1" by (rule wgate_ext [OF g])
  have rcc: "ret_cond c1 = ret_cond ce" "env c1 = env ce"
    using frame_snd [OF v w_frames(4)] by (auto simp: frame_def)
  have l1: "lit_ok (nv c1) (ret_cond ct)" "lit_ok (nv c1) (ret_cond c1)"
    using l ext_lit_ok [OF e1] by (auto simp: rcc)
  note o = g_or_gate [OF ext_wfc [OF e1] l1 rc clean_not_failed [OF c2]]
  have e2: "ext c1 c2" by (rule gate_ext [OF o])
  have "env c2 = env ce" using frame_env [OF frame_snd [OF rc gate_frame(2)]] rcc by simp
  then show ?thesis
    using wgate_chain [OF g e2] o True h by (simp add: d wgate_def gate_def ret_val_def)
qed

lemma if_merge_ok:
  assumes c0: "st_ok c0" "lit_ok (nv c0) cond" and ct: "ext c0 ct" "st_ok ct" "names_ok c0 ct"
    and ce: "ext ct ce" "st_ok ce" "names_ok c0 ce" and h: "has_ret ct = has_ret ce"
    and cl: "clean (if_merge c0 cond ct ce)" (is "clean ?d")
  shows "ext ce ?d \<and> st_ok ?d \<and> names_ok c0 ?d \<and> pc ?d = pc c0 \<and> has_ret ?d = has_ret ce \<and>
    (\<forall>\<sigma>. models ?d \<sigma> \<longrightarrow>
       renv_of \<sigma> (env ?d) = take (length (env c0)) (renv_of \<sigma> (env (if lit_true \<sigma> cond then ct else ce))) \<and>
       ret_val \<sigma> ?d = ret_val \<sigma> (if lit_true \<sigma> cond then ct else ce))"
proof -
  let ?n = "length (env c0)"
  obtain m c1 where m: "merge_env ce cond (take ?n (env ct)) (take ?n (env ce)) = (m, c1)" by fastforce
  let ?c = "c1\<lparr>env := m\<rparr>" and ?r = "merge_ret c0 cond ct (c1\<lparr>env := m\<rparr>)"
  have d: "?d = ?r\<lparr>pc := pc c0\<rparr>" by (simp add: if_merge_def m)
  have clr: "clean ?r" using cl by (simp add: d)
  have cl1: "clean c1" using merge_ret_clean [OF clr] by simp
  have e0: "ext c0 ce" by (rule ext_trans [OF ct(1) ce(1)])
  have w: "wfc ce" "lit_ok (nv ce) cond" using ext_wfc e0 ext_lit_ok [OF e0 c0(2)] by auto
  have nm: "map fst (take ?n (env ct)) = map fst (env c0)" "map fst (take ?n (env ce)) = map fst (env c0)"
    using ct(3) ce(3) by (auto simp: names_ok_def take_map [symmetric])
  have ws: "\<forall>(x, w) \<in> set (take ?n (env ct)). wf_w ce w" "\<forall>(x, w) \<in> set (take ?n (env ce)). wf_w ce w"
    using ct(2) ce(2) wf_w_ext [OF ce(1)] by (fastforce simp: st_ok_def wf_env_def dest: in_set_takeD)+
  have g: "ext ce c1" "\<forall>(x, w) \<in> set m. wf_w c1 w" "map fst m = map fst (env c0)"
    "\<And>\<sigma>. models c1 \<sigma> \<Longrightarrow> renv_of \<sigma> m =
       (if lit_true \<sigma> cond then renv_of \<sigma> (take ?n (env ct)) else renv_of \<sigma> (take ?n (env ce)))"
    using merge_env_gate [OF w ws _ m cl1] nm by auto
  have fr: "frame ce c1" by (rule frame_snd [OF m merge_env_frame])
  have e1: "ext ct c1" by (rule ext_trans [OF ce(1) g(1)])
  have rt: "has_ret ct \<longrightarrow> wf_w c1 (ret ct)" "lit_ok (nv c1) (ret_cond ct)"
    using ct(2) wf_w_ext [OF e1] ext_lit_ok [OF e1] by (auto simp: st_ok_def)
  have re: "has_ret c1 = has_ret ce" "ret c1 = ret ce" "ret_cond c1 = ret_cond ce"
    using fr by (auto simp: frame_def)
  have re2: "has_ret ce \<longrightarrow> wf_w c1 (ret ce)" "lit_ok (nv c1) (ret_cond ce)"
    using ce(2) wf_w_ext [OF g(1)] ext_lit_ok [OF g(1)] by (auto simp: st_ok_def)
  have rv: "ret_val \<sigma> ?c = ret_val \<sigma> ce" for \<sigma> using re by (simp add: ret_val_def)
  have r: "ext c1 ?r \<and> env ?r = m \<and> has_ret ?r = has_ret ce \<and> lit_ok (nv ?r) (ret_cond ?r) \<and>
    (has_ret ce \<longrightarrow> wf_w ?r (ret ?r)) \<and>
    (\<forall>\<sigma>. models ?r \<sigma> \<longrightarrow>
       ret_val \<sigma> ?r = (if lit_true \<sigma> cond then ret_val \<sigma> ct else ret_val \<sigma> ce))"
    using merge_ret_ok [of ?c cond ct c0] ext_wfc [OF g(1)] ext_lit_ok [OF g(1) w(2)] rt re re2 h clr
    by (simp add: rv)
  have er: "ext ce ?r" using ext_trans [OF g(1)] r by blast
  have e0r: "ext c0 ?r" by (rule ext_trans [OF e0 er])
  have "wf_env ?r" using g(2) r wf_w_ext [of c1 ?r] by (auto simp: wf_env_def)
  then have "st_ok ?d"
    using r ext_wfc [OF er] c0(1) ext_lit_ok [OF e0r] by (auto simp: d st_ok_def wf_env_def)
  moreover have "names_ok c0 ?d" using r g(3) by (simp add: d names_ok_def)
  moreover have "renv_of \<sigma> (env ?d) = take ?n (renv_of \<sigma> (env (if lit_true \<sigma> cond then ct else ce)))"
    if "models ?d \<sigma>" for \<sigma>
    using that r g(4) ext_models [of c1 ?r \<sigma>] by (simp add: d take_renv_of)
  ultimately show ?thesis using er r by (simp add: d)
qed

section \<open>Statements\<close>

text \<open>
  What the translation of a statement list guarantees: with no return in it,
  it falls through; with returns in tail position only and a definite return,
  it returns.
\<close>

definition stmts_ok :: "bvctx \<Rightarrow> bool \<Rightarrow> bvctx \<Rightarrow> bool \<Rightarrow> bool \<Rightarrow> (renv \<Rightarrow> (renv \<times> i64 option) option) \<Rightarrow> bool"
  where
  "stmts_ok c r d n t f \<longleftrightarrow>
     (n \<longrightarrow> \<not> r \<and> \<not> has_ret d \<and> sim c d f) \<and> (t \<and> r \<longrightarrow> has_ret d \<and> sim c d f)"

lemma stmts_okI:
  "sim c d f \<Longrightarrow> r = has_ret d \<Longrightarrow> (n \<Longrightarrow> \<not> r) \<Longrightarrow> stmts_ok c r d n t f"
  by (auto simp: stmts_ok_def)

lemma sim_cong: "sim c d f \<Longrightarrow> (\<And>\<rho>. f \<rho> = g \<rho>) \<Longrightarrow> sim c d g"
  by (simp add: sim_def)

lemma bv_stmt_if_ok:
  assumes c: "st_ok c" "\<not> has_ret c" and st: "bv_stmt c (NODE_IF cd th el) = (r, d)" and cd: "clean d"
    and th: "\<And>c r d. st_ok c \<Longrightarrow> \<not> has_ret c \<Longrightarrow> bv_stmts_from False c (node_stmts th) = (r, d) \<Longrightarrow>
      clean d \<Longrightarrow> stmts_ok c r d (no_rets (node_stmts th)) (tail_rets (node_stmts th))
        (\<lambda>\<rho>. ref_stmts \<rho> (node_stmts th))"
    and el: "\<And>c r d e. el = Some e \<Longrightarrow> st_ok c \<Longrightarrow> \<not> has_ret c \<Longrightarrow>
      bv_stmts_from False c (node_stmts e) = (r, d) \<Longrightarrow>
      clean d \<Longrightarrow> stmts_ok c r d (no_rets (node_stmts e)) (tail_rets (node_stmts e))
        (\<lambda>\<rho>. ref_stmts \<rho> (node_stmts e))"
  shows "stmts_ok c r d (no_ret (NODE_IF cd th el)) (tail_ret (NODE_IF cd th el))
    (\<lambda>\<rho>. ref_stmt \<rho> (NODE_IF cd th el))"
proof (rule bv_stmt_if [OF cd st])
  fix cond c0 p c1 td ct ed ce
  assume e: "bv_eval_bool c cd = (cond, c0)" "\<not> failed c" "\<not> failed c0"
    "g_and c0 (pc c0) cond = (p, c1)"
    "bv_stmts_from False (c1\<lparr>pc := p\<rparr>) (node_stmts th) = (td, ct)"
    "(case el of None \<Rightarrow> (False, if_else c0 cond ct)
      | Some b \<Rightarrow> bv_stmts_from False (if_else c0 cond ct) (node_stmts b)) = (ed, ce)"
    "r = (td \<and> ed)" "d = if_merge c0 cond ct ce"
  have clce: "clean ce" using if_merge_clean cd e(8) by blast
  then have clie: "clean (if_else c0 cond ct)"
    using e(6) bv_stmt_clean(2) by (auto split: option.splits)
  have clct: "clean ct" by (rule if_else_clean [OF clie])
  have cl1: "clean c1" using bv_stmt_clean(2) [OF e(5) clct] by simp
  have cl0: "clean c0" by (rule clean_back(1) [OF e(4) cl1])
  have fr0: "frame c c0" by (rule frame_snd [OF e(1) bv_eval_frame(2)])
  have be: "bexp c c0 cond (\<lambda>\<rho>. ref_bool \<rho> cd)"
    using exp_okD(2) [OF bv_eval_ok _ _ e(1) cl0] c(1) by (simp add: st_ok_def)
  have e0: "ext c c0" and lc: "lit_ok (nv c0) cond" using be by (auto simp: bexp_def)
  have st0: "st_ok c0" by (rule st_ok_frame [OF c(1) e0 fr0])
  have en0: "env c0 = env c" "pc c0 = pc c" "\<not> has_ret c0" using fr0 c(2) by (auto simp: frame_def)
  have g: "gate c0 c1 p (\<lambda>\<sigma>. lit_true \<sigma> (pc c0) \<and> lit_true \<sigma> cond)"
    using g_and_gate [OF _ _ lc e(4) clean_not_failed [OF cl1]] st0 by (simp add: st_ok_def)
  have e1: "ext c0 c1" by (rule gate_ext [OF g])
  have fr1: "frame c0 c1" by (rule frame_snd [OF e(4) gate_frame(1)])
  let ?c1 = "c1\<lparr>pc := p\<rparr>"
  have st1: "st_ok ?c1" "\<not> has_ret ?c1" "env ?c1 = env c0"
    using st_ok_frame [OF st0 e1 fr1] g fr1 en0 by (auto simp: st_ok_def gate_def wf_env_def frame_def)
  note t = th [OF st1(1,2) e(5) clct]
  have fin: "stmts_ok c r d n m (\<lambda>\<rho>. ref_stmt \<rho> (NODE_IF cd th el))"
    if tsim: "sim ?c1 ct (\<lambda>\<rho>. ref_stmts \<rho> (node_stmts th))"
      and esim: "sim (if_else c0 cond ct) ce (\<lambda>\<rho>. case el of None \<Rightarrow> Some (\<rho>, None)
        | Some b \<Rightarrow> ref_stmts \<rho> (node_stmts b))"
      and h: "has_ret ct = has_ret ce" "r = has_ret ce" "n \<Longrightarrow> \<not> r" for n m
  proof -
    have ect: "ext c0 ct" "st_ok ct" "names_ok c0 ct"
      using tsim ext_trans [OF e1] st1(3) by (auto simp: sim_def names_ok_def)
    note ie = if_else_ok [OF st0 lc ect(1) clie]
    have ece: "ext ct ce" "st_ok ce" "names_ok c0 ce"
      using esim ext_trans ie unfolding sim_def names_ok_def by metis+
    note mg = if_merge_ok [OF st0 lc ect ece h(1) cd [unfolded e(8)], folded e(8)]
    have dd: "ext c d" "names_ok c d" "pc d = pc c" "st_ok d" "has_ret d = has_ret ce"
      using mg ext_trans [OF e0 ext_trans [OF ect(1) ext_trans [OF ece(1)]]] en0
      by (auto simp: names_ok_def)
    have "ref_stmt (renv_of \<sigma> (env c)) (NODE_IF cd th el) = Some (renv_of \<sigma> (env d), ret_val \<sigma> d)"
      if m: "models d \<sigma>" for \<sigma>
    proof -
      have mce: "models ce \<sigma>" using ext_models m mg by blast
      have mct: "models ct \<sigma>" using ext_models [OF ece(1) mce] .
      have m0: "models c0 \<sigma>" using ext_models [OF ect(1) mct] .
      have b: "ref_bool (renv_of \<sigma> (env c)) cd = Some (lit_true \<sigma> cond)"
        using be m0 by (simp add: bexp_def)
      have tv: "ref_stmts (renv_of \<sigma> (env c)) (node_stmts th) = Some (renv_of \<sigma> (env ct), ret_val \<sigma> ct)"
        using tsim mct st1(3) en0 by (simp add: sim_def)
      have ev: "(case el of None \<Rightarrow> Some (renv_of \<sigma> (env c), None)
          | Some b \<Rightarrow> ref_stmts (renv_of \<sigma> (env c)) (node_stmts b)) = Some (renv_of \<sigma> (env ce), ret_val \<sigma> ce)"
      proof -
        have "env (if_else c0 cond ct) = env c" using ie en0 by simp
        then show ?thesis using esim mce unfolding sim_def by metis
      qed
      show ?thesis using mg m b tv ev en0(1) by (cases "lit_true \<sigma> cond") simp_all
    qed
    then have "sim c d (\<lambda>\<rho>. ref_stmt \<rho> (NODE_IF cd th el))" using dd by (simp add: sim_def)
    then show ?thesis using h dd(5) by (intro stmts_okI) auto
  qed
  have "\<not> has_ret (if_else c0 cond ct)" by (simp add: if_else_def case_prod_beta en0)
  note el' = el [OF _ _ this, of _ ed ce]
  show "stmts_ok c r d (no_ret (NODE_IF cd th el)) (tail_ret (NODE_IF cd th el))
    (\<lambda>\<rho>. ref_stmt \<rho> (NODE_IF cd th el))"
  proof (cases el)
    case None
    then have ed: "\<not> ed" "ce = if_else c0 cond ct" using e(6) by auto
    show ?thesis
    proof (cases "no_rets (node_stmts th)")
      case True
      then have ts: "\<not> has_ret ct" "sim ?c1 ct (\<lambda>\<rho>. ref_stmts \<rho> (node_stmts th))"
        using t by (auto simp: stmts_ok_def)
      have "ext c0 ct" using ts(2) ext_trans [OF e1] by (auto simp: sim_def)
      then have "st_ok ce" "\<not> has_ret ce" using if_else_ok [OF st0 lc _ clie] en0 ed by auto
      then show ?thesis using fin [OF ts(2)] sim_refl [of ce] ts(1) ed e(7) None by simp
    next
      case False
      then show ?thesis using None ed e(7) by (simp add: stmts_ok_def)
    qed
  next
    case (Some b)
    then have eb: "bv_stmts_from False (if_else c0 cond ct) (node_stmts b) = (ed, ce)" using e(6) by simp
    have sti: "st_ok (if_else c0 cond ct)" if "sim ?c1 ct (\<lambda>\<rho>. ref_stmts \<rho> (node_stmts th))"
      using if_else_ok [OF st0 lc _ clie] ext_trans [OF e1] that by (auto simp: sim_def)
    show ?thesis
      unfolding stmts_ok_def
    proof (intro conjI [of "_ \<longrightarrow> _"] impI)
      assume n: "no_ret (NODE_IF cd th el)"
      then have ts: "\<not> td" "\<not> has_ret ct" "sim ?c1 ct (\<lambda>\<rho>. ref_stmts \<rho> (node_stmts th))"
        using t by (auto simp: stmts_ok_def)
      have "\<not> ed \<and> \<not> has_ret ce \<and> sim (if_else c0 cond ct) ce (\<lambda>\<rho>. ref_stmts \<rho> (node_stmts b))"
        using el' [OF Some sti [OF ts(3)] eb clce] n Some by (simp add: stmts_ok_def)
      then show "\<not> r \<and> \<not> has_ret d \<and> sim c d (\<lambda>\<rho>. ref_stmt \<rho> (NODE_IF cd th el))"
        using fin [OF ts(3), of True True] ts e(7) Some by (simp add: stmts_ok_def)
    next
      assume tr: "tail_ret (NODE_IF cd th el) \<and> r"
      then have ts: "has_ret ct" "sim ?c1 ct (\<lambda>\<rho>. ref_stmts \<rho> (node_stmts th))"
        using t e(7) by (auto simp: stmts_ok_def)
      have "has_ret ce \<and> sim (if_else c0 cond ct) ce (\<lambda>\<rho>. ref_stmts \<rho> (node_stmts b))"
        using el' [OF Some sti [OF ts(2)] eb clce] tr Some e(7) by (simp add: stmts_ok_def)
      then show "has_ret d \<and> sim c d (\<lambda>\<rho>. ref_stmt \<rho> (NODE_IF cd th el))"
        using fin [OF ts(2), of False True] ts e(7) Some tr by (simp add: stmts_ok_def)
    qed
  qed
qed

lemma bv_stmt_ok:
  "st_ok c \<Longrightarrow> \<not> has_ret c \<Longrightarrow> bv_stmt c s = (r, d) \<Longrightarrow> clean d \<Longrightarrow>
     stmts_ok c r d (no_ret s) (tail_ret s) (\<lambda>\<rho>. ref_stmt \<rho> s)"
  "st_ok c \<Longrightarrow> \<not> has_ret c \<Longrightarrow> bv_stmts_from dr c ss = (r, d) \<Longrightarrow> clean d \<Longrightarrow>
     (no_rets ss \<longrightarrow> r = dr \<and> \<not> has_ret d \<and> sim c d (\<lambda>\<rho>. ref_stmts \<rho> ss)) \<and>
     (tail_rets ss \<and> r \<and> \<not> dr \<longrightarrow> has_ret d \<and> sim c d (\<lambda>\<rho>. ref_stmts \<rho> ss))"
proof (induction s and ss arbitrary: c r d and dr c r d rule: no_ret_no_rets.induct)
  case (1 ss)
  have "bv_stmts_from False c ss = (r, d)"
    using 1(4,5) by (auto simp: failed_not_clean split: if_splits)
  from 1(1) [OF 1(2,3) this 1(5)] show ?case by (simp add: stmts_ok_def)
next
  case (2 cd th el)
  show ?case
  proof (rule bv_stmt_if_ok [OF 2(3-6)])
    fix c' r' d'
    assume "st_ok c'" "\<not> has_ret c'" "bv_stmts_from False c' (node_stmts th) = (r', d')" "clean d'"
    from 2(1) [OF this]
    show "stmts_ok c' r' d' (no_rets (node_stmts th)) (tail_rets (node_stmts th))
        (\<lambda>\<rho>. ref_stmts \<rho> (node_stmts th))" by (simp add: stmts_ok_def)
  next
    fix c' r' d' e
    assume "el = Some e" "st_ok c'" "\<not> has_ret c'"
      "bv_stmts_from False c' (node_stmts e) = (r', d')" "clean d'"
    from 2(2) [OF this]
    show "stmts_ok c' r' d' (no_rets (node_stmts e)) (tail_rets (node_stmts e))
        (\<lambda>\<rho>. ref_stmts \<rho> (node_stmts e))" by (simp add: stmts_ok_def)
  qed
next
  case (3 val)
  then obtain w c1 where w: "bv_eval_opt c val = (w, c1)" "d = bv_return c1 w" "r" "clean c1"
    by (auto simp: failed_not_clean split: if_splits prod.splits dest: bv_return_clean)
  have o: "wexp c c1 w (\<lambda>\<rho>. ref_opt \<rho> val)" "frame c c1"
    using bv_eval_opt_ok [OF _ _ w(1,4)] 3(1) by (auto simp: st_ok_def)
  show ?case using sim_return [OF 3(1) o 3(2)] w by (intro stmts_okI) auto
next
  case (4 x m t init)
  then obtain w c1 where w: "bv_eval_opt c init = (w, c1)" "d = bv_env_bind c1 x w" "\<not> r" "clean c1"
    by (auto simp: failed_not_clean split: if_splits prod.splits)
  have o: "wexp c c1 w (\<lambda>\<rho>. ref_opt \<rho> init)" "frame c c1"
    using bv_eval_opt_ok [OF _ _ w(1,4)] 4(1) by (auto simp: st_ok_def)
  have "\<not> has_ret d" using o(2) w(2) 4(2) by (simp add: frame_def bv_env_bind_def)
  then show ?case using sim_bind [OF 4(1) o 4(2), of x] w by (intro stmts_okI) auto
next
  case (5 tgt val)
  then obtain x w c1 where w: "tgt = NODE_IDENT x" "map_of (env c) x \<noteq> None"
    "bv_eval_i64 c val = (w, c1)" "d = bv_env_bind c1 x w" "\<not> r" "clean c1"
    by (auto simp: failed_not_clean bv_env_find_def split: if_splits prod.splits node.splits)
  have o: "wexp c c1 w (\<lambda>\<rho>. ref_i64 \<rho> val)" "frame c c1"
    using exp_okD(1) [OF bv_eval_ok _ _ w(3,6)] 5(1) frame_snd [OF w(3) bv_eval_frame(1)]
    by (auto simp: st_ok_def)
  have "\<not> has_ret d" using o(2) w(4) 5(2) by (simp add: frame_def bv_env_bind_def)
  moreover have "sim c d (\<lambda>\<rho>. ref_stmt \<rho> (NODE_ASSIGN tgt val))"
    using sim_bind [OF 5(1) o 5(2), of x] w(1,2,4)
    by (auto simp: sim_def map_of_renv_of)
  ultimately show ?case using w(5) by (intro stmts_okI) auto
next
  case 7
  then show ?case using sim_refl by auto
next
  case (8 s ss)
  obtain r1 c1 where s: "bv_stmt c s = (r1, c1)" by fastforce
  have nf: "\<not> failed c" using 8(5,6) by (auto simp: failed_not_clean)
  have rest: "bv_stmts_from (dr \<or> r1) c1 ss = (r, d)"
    using 8(5,6) nf s by (auto split: if_splits)
  have c1: "clean c1" by (rule bv_stmt_clean(2) [OF rest 8(6)])
  note h = 8(1) [OF 8(3,4) s c1]
  have seq: "sim c d (\<lambda>\<rho>. ref_stmts \<rho> (s # ss))"
    if "sim c c1 (\<lambda>\<rho>. ref_stmt \<rho> s)" "\<not> has_ret c1" "sim c1 d (\<lambda>\<rho>. ref_stmts \<rho> ss)"
    by (rule sim_cong [OF sim_trans [OF that]]) simp
  have next_ok: "st_ok c1" if "sim c c1 (\<lambda>\<rho>. ref_stmt \<rho> s)" using that by (simp add: sim_def)
  show ?case
  proof (intro conjI [of "_ \<longrightarrow> _"] impI)
    assume n: "no_rets (s # ss)"
    then have a: "\<not> r1" "\<not> has_ret c1" "sim c c1 (\<lambda>\<rho>. ref_stmt \<rho> s)"
      using h by (auto simp: stmts_ok_def)
    show "r = dr \<and> \<not> has_ret d \<and> sim c d (\<lambda>\<rho>. ref_stmts \<rho> (s # ss))"
      using 8(2) [OF next_ok [OF a(3)] a(2) rest 8(6)] seq [OF a(3,2)] n a(1) by simp
  next
    assume t: "tail_rets (s # ss) \<and> r \<and> \<not> dr"
    show "has_ret d \<and> sim c d (\<lambda>\<rho>. ref_stmts \<rho> (s # ss))"
    proof (cases "ss = []")
      case True
      then have e: "d = c1" "r1" "tail_ret s" using rest t by auto
      then have a: "has_ret c1" "sim c c1 (\<lambda>\<rho>. ref_stmt \<rho> s)" using h by (auto simp: stmts_ok_def)
      have "sim c c1 (\<lambda>\<rho>. ref_stmts \<rho> (s # ss))"
        by (rule sim_cong [OF a(2)]) (simp add: True split: option.split prod.split)
      with a e show ?thesis by simp
    next
      case False
      then have n: "no_ret s" "tail_rets ss" using t by auto
      then have a: "\<not> r1" "\<not> has_ret c1" "sim c c1 (\<lambda>\<rho>. ref_stmt \<rho> s)"
        using h by (auto simp: stmts_ok_def)
      show ?thesis
        using 8(2) [OF next_ok [OF a(3)] a(2) rest 8(6)] seq [OF a(3,2)] n t a(1) by simp
    qed
  qed
qed (auto simp: failed_not_clean split: if_splits)

end
