(* ===== verification/BvSound.thy ===== *)
theory BvSound
  imports BvStmt
begin

text \<open>
  Soundness of the oracle: a verdict 1 means that the clause holds for every
  argument, and the oracle always answers - for goals translated without a
  true-arm multiplexer and bodies whose returns stand in tail position.
\<close>

section \<open>The restart loop\<close>

text \<open>
  What the oracle needs of a solver: from a ready state it answers, an
  \<open>UNSAT\<close> answer is right, and after a reset it is ready again.
\<close>

locale restartable_solver =
  fixes solve :: "'s \<Rightarrow> (bvsat_result \<times> 's) option"
    and reset :: "'s \<Rightarrow> 's"
    and set_mode :: "nat \<Rightarrow> 's \<Rightarrow> 's"
    and ready :: "int list list \<Rightarrow> 's \<Rightarrow> bool"
  assumes answers: "ready F s \<Longrightarrow> \<exists>r t. solve s = Some (r, t) \<and> ready F (reset t)"
    and unsat_right: "ready F s \<Longrightarrow> solve s = Some (BV_SAT_UNSAT, t) \<Longrightarrow> unsat F"
    and mode_ready: "ready F s \<Longrightarrow> ready F (set_mode m s)"
begin

lemma solve_modes_later:
  "ready F (reset s) \<Longrightarrow> \<forall>m \<in> set modes. m \<noteq> 0 \<Longrightarrow> (r = BV_SAT_UNSAT \<longrightarrow> unsat F) \<Longrightarrow>
   \<exists>r' t. solve_modes solve reset set_mode modes r s = Some (r', t) \<and>
     (r' = BV_SAT_UNSAT \<longrightarrow> unsat F)"
proof (induction modes arbitrary: r s)
  case (Cons m modes)
  obtain r' t where t: "solve (set_mode m (reset s)) = Some (r', t)" "ready F (reset t)"
    using answers [OF mode_ready [OF Cons.prems(1)]] by blast
  have "r' = BV_SAT_UNSAT \<longrightarrow> unsat F" using unsat_right [OF mode_ready [OF Cons.prems(1)]] t(1) by blast
  then show ?case using Cons.IH [OF t(2)] Cons.prems t(1) by auto
qed simp

lemma solve_modes_sound:
  assumes "ready F s" "\<forall>m \<in> set modes. m \<noteq> 0"
  shows "\<exists>r t. solve_modes solve reset set_mode (0 # modes) BV_SAT_UNDECIDED s = Some (r, t) \<and>
    (r = BV_SAT_UNSAT \<longrightarrow> unsat F)"
proof -
  obtain r t where t: "solve (set_mode 0 s) = Some (r, t)" "ready F (reset t)"
    using answers [OF mode_ready [OF assms(1)]] by blast
  have "r = BV_SAT_UNSAT \<longrightarrow> unsat F" using unsat_right [OF mode_ready [OF assms(1)]] t(1) by blast
  then show ?thesis using solve_modes_later [OF t(2) assms(2)] t(1) by simp
qed

end

interpretation bv_solver: restartable_solver bv_sat_solve bv_sat_reset bv_set_mode sat_ready
proof unfold_locales
  fix F s assume "sat_ready F s"
  then show "\<exists>r t. bv_sat_solve s = Some (r, t) \<and> sat_ready F (bv_sat_reset t)"
    using bv_sat_solve_total bv_sat_reset_ready by blast
next
  fix F s t assume "sat_ready F s" "bv_sat_solve s = Some (BV_SAT_UNSAT, t)"
  then show "unsat F" using bv_sat_solve_total by fastforce
next
  fix F s m assume "sat_ready F s"
  then show "sat_ready F (bv_set_mode m s)"
    by (simp add: sat_ready_def store_ok_def occ_ok_def cls_ok_def bv_set_mode_def)
qed

section \<open>Parameters\<close>

lemma renv_of_agree:
  "wf_env c \<Longrightarrow> agree (nv c) \<sigma> \<tau> \<Longrightarrow> renv_of \<tau> (env c) = renv_of \<sigma> (env c)"
proof -
  assume e: "wf_env c" and a: "agree (nv c) \<sigma> \<tau>"
  have "wval \<tau> w = wval \<sigma> w" if "(x, w) \<in> set (env c)" for x w
  proof -
    have "lit_ok (nv c) l" if "l \<in> set w" for l
      using e \<open>(x, w) \<in> set (env c)\<close> that by (fastforce simp: wf_env_def wf_w_def)
    then have "map (lit_true \<tau>) w = map (lit_true \<sigma>) w" using agree_lit [OF a] by (intro map_cong) auto
    then show ?thesis unfolding wval_def by (rule arg_cong)
  qed
  then show ?thesis by (auto simp: renv_of_def)
qed

lemma new_var_wfc:
  assumes "wfc c" "n = Suc (nv c)"
  shows "wfc (c\<lparr>sat := (sat c)\<lparr>n_vars := n\<rparr>\<rparr>)" (is "wfc ?d")
proof -
  have m: "models ?d = models c" by (simp add: models_def fun_eq_iff)
  have "sat_ready (cl (sat c)) (snd (bv_sat_new_var (sat c)))"
    using assms(1) bv_sat_new_var_ready by (simp add: wfc_def)
  moreover have "ops_ok ?d"
    using assms unfolding ops_ok_def m wfc_def
    by (auto intro: lit_ok_mono [of "nv c"] le_SucI)
  ultimately show ?thesis
    using assms unfolding wfc_def m by (simp add: bv_sat_new_var_def)
qed

lemma fresh_bits_ok:
  "wfc c \<Longrightarrow> fresh_bits k c w = (r, d) \<Longrightarrow>
   wfc d \<and> frame c d \<and> cl (sat d) = cl (sat c) \<and> nv d = nv c + k \<and> failed d = failed c \<and>
   mux_true d = mux_true c \<and>
   r = map (\<lambda>i. int (nv c + k - i)) [0 ..< k] @ w"
proof (induction k arbitrary: c w)
  case (Suc k)
  let ?c = "c\<lparr>sat := (sat c)\<lparr>n_vars := Suc (nv c)\<rparr>\<rparr>"
  have "fresh_bits k ?c (int (Suc (nv c)) # w) = (r, d)" using Suc.prems(2) by (simp add: bv_new_var_eq)
  from Suc.IH [OF new_var_wfc [OF Suc.prems(1) refl] this]
  show ?case by (auto simp: frame_def upt_Suc_append)
qed simp

lemma w_fresh_ok:
  assumes c: "wfc c" and f: "w_fresh c = (w, d)" and cd: "\<not> failed d" and m: "models c \<sigma>"
  shows "wfc d \<and> frame c d \<and> (mux_true d \<longrightarrow> mux_true c) \<and> wf_w d w \<and> nv c \<le> nv d \<and>
    (\<exists>\<tau>. agree (nv c) \<sigma> \<tau> \<and> models d \<tau> \<and> wval \<tau> w = v)"
proof -
  obtain ok c1 where b: "bv_budget_ok c 64 = (ok, c1)" by fastforce
  note bs = bv_budget_ok_simps [OF b]
  have fb: "fresh_bits 64 c1 [] = (w, d)" "ok" using f cd bs by (auto simp: w_fresh_def b split: if_splits)
  have "wfc c1" using wfc_cong [of c1 c] bs c by simp
  note r = fresh_bits_ok [OF this fb(1)]
  have len: "length w = 64" using r by simp
  have w: "w ! i = int (nv c + 64 - i)" if "i < 64" for i
    using r bs that by simp
  have nd: "nv d = nv c + 64" "models d = models c"
    using r bs by (auto simp: models_def fun_eq_iff)
  have "lit_ok (nv d) l" if "l \<in> set w" for l
    using that w len nd by (auto simp: in_set_conv_nth lit_ok_def simp del: of_nat_add of_nat_diff)
  then have wf: "wf_w d w" using len by (simp add: wf_w_def)
  let ?t = "\<lambda>x. if x \<le> nv c then \<sigma> x else bit v (nv c + 64 - x)"
  have a: "agree (nv c) \<sigma> ?t" by (simp add: agree_def)
  have "models c ?t"
    using c m a agree_lit
    by (fastforce simp: models_def cnf_true_def clause_true_def wfc_def sat_ready_def store_ok_def cls_ok_def)
  moreover have "wval ?t w = v"
    by (rule wval_eqI)
      (use len w in \<open>auto simp: lit_true_def simp del: of_nat_add of_nat_diff\<close>)
  moreover have "mux_true d \<longrightarrow> mux_true c"
    using b r by (auto simp: bv_budget_ok_def bv_fail_def Let_def split: if_splits)
  ultimately show ?thesis
    using a r frame_trans [of c c1 d] bs wf nd by auto
qed

text \<open>The environment the arguments make, as \<open>bv_params\<close> binds the parameters.\<close>

definition ref_args :: "param list \<Rightarrow> i64 list \<Rightarrow> renv \<Rightarrow> renv" where
  "ref_args ps vs \<rho> = fold (\<lambda>((x, t), v) \<rho>. alist_put \<rho> x v) (zip ps vs) \<rho>"

lemma bv_params_ok:
  "bv_params c ps = Some d \<Longrightarrow> st_ok c \<Longrightarrow> \<not> has_ret c \<Longrightarrow> length vs = length ps \<Longrightarrow> models c \<sigma> \<Longrightarrow>
   st_ok d \<and> \<not> has_ret d \<and>
   (\<exists>\<tau>. models d \<tau> \<and> renv_of \<tau> (env d) = ref_args ps vs (renv_of \<sigma> (env c)))"
proof (induction ps arbitrary: c vs \<sigma>)
  case Nil
  then show ?case by (auto simp: ref_args_def)
next
  case (Cons p ps)
  obtain x t where p: "p = (x, t)" by fastforce
  obtain v vs' where vs: "vs = v # vs'" using Cons.prems(4) by (cases vs) auto
  obtain w c1 where w: "w_fresh c = (w, c1)" "\<not> failed c1" "bv_params (bv_env_bind c1 x w) ps = Some d"
    using Cons.prems(1) p by (auto split: if_splits prod.splits)
  have c: "wfc c" "wf_env c" using Cons.prems(2) by (auto simp: st_ok_def)
  note f = w_fresh_ok [OF c(1) w(1,2) Cons.prems(5), of v]
  then obtain \<tau> where \<tau>: "agree (nv c) \<sigma> \<tau>" "models c1 \<tau>" "wval \<tau> w = v" by blast
  have fr: "env c1 = env c" "pc c1 = pc c" "ret_cond c1 = ret_cond c" "has_ret c1 = has_ret c"
    using f by (auto simp: frame_def)
  have "wf_env c1" using c(2) f by (fastforce simp: wf_env_def fr wf_w_def intro: lit_ok_mono)
  then have s1: "st_ok c1" using f Cons.prems(2,3) fr by (auto simp: st_ok_def intro: lit_ok_mono)
  then have "st_ok (bv_env_bind c1 x w)" using f by (intro st_ok_bind) auto
  moreover have "models (bv_env_bind c1 x w) \<tau>" using \<tau> by (simp add: bv_env_bind_def)
  moreover have "renv_of \<tau> (env (bv_env_bind c1 x w)) = alist_put (renv_of \<sigma> (env c)) x v"
    using \<tau> renv_of_agree [OF c(2) \<tau>(1)] by (simp add: bv_env_bind_def renv_of_alist_put fr)
  ultimately show ?case
    using Cons.IH [OF w(3), of vs' \<tau>] Cons.prems(3,4) fr
    by (simp add: p vs ref_args_def bv_env_bind_def)
qed

section \<open>Asserted literals\<close>

lemma bv_assert_wfc:
  assumes c: "wfc c" and l: "lit_ok (nv c) l"
  shows "wfc (bv_assert_lit c l)" "models (bv_assert_lit c l) \<sigma> \<longleftrightarrow> models c \<sigma> \<and> lit_true \<sigma> l"
proof -
  show m: "models (bv_assert_lit c l) \<sigma> \<longleftrightarrow> models c \<sigma> \<and> lit_true \<sigma> l" for \<sigma>
    by (auto simp: models_def bv_assert_lit_def bv_add_clause_def bv_sat_add_clause_def cnf_true_def
        clause_true_def)
  have "sat_ready (cl (sat c) @ [[l]]) (bv_sat_add_clause (sat c) [l])"
    using c l by (intro bv_sat_add_clause_ready) (auto simp: wfc_def)
  moreover have "ops_ok (bv_assert_lit c l)"
    using c unfolding ops_ok_def m wfc_def
    by (simp add: bv_assert_lit_def bv_add_clause_def bv_sat_add_clause_def)
  ultimately show "wfc (bv_assert_lit c l)"
    using c unfolding wfc_def m
    by (simp add: bv_assert_lit_def bv_add_clause_def bv_sat_add_clause_def)
qed

lemma bv_assert_simps [simp]:
  "env (bv_assert_lit c l) = env c" "pc (bv_assert_lit c l) = pc c"
  "ret_cond (bv_assert_lit c l) = ret_cond c" "has_ret (bv_assert_lit c l) = has_ret c"
  "ret (bv_assert_lit c l) = ret c" "clean (bv_assert_lit c l) = clean c"
  "nv (bv_assert_lit c l) = nv c" "failed (bv_assert_lit c l) = failed c"
  "mux_true (bv_assert_lit c l) = mux_true c"
  by (simp_all add: bv_assert_lit_def bv_add_clause_def bv_sat_add_clause_def clean_def)

lemma bv_assert_st_ok:
  "st_ok c \<Longrightarrow> lit_ok (nv c) l \<Longrightarrow> st_ok (bv_assert_lit c l)"
  using bv_assert_wfc(1) by (auto simp: st_ok_def wf_env_def wf_w_def)

lemma bv_requires_clean: "bv_requires c rs = Some d \<Longrightarrow> clean d \<Longrightarrow> clean c"
proof (induction rs arbitrary: c)
  case (Cons r rs)
  obtain l c1 where l: "bv_eval_bool c r = (l, c1)" "bv_requires (bv_assert_lit c1 l) rs = Some d"
    using Cons.prems(1) by (auto split: if_splits prod.splits)
  then have "clean c1" using Cons.IH [OF l(2) Cons.prems(2)] by simp
  then show ?case by (rule clean_back(5) [OF l(1)])
qed simp

lemma bv_requires_ok:
  "bv_requires c rs = Some d \<Longrightarrow> clean d \<Longrightarrow> st_ok c \<Longrightarrow> \<not> has_ret c \<Longrightarrow>
   st_ok d \<and> \<not> has_ret d \<and> env d = env c \<and>
   (\<forall>\<sigma>. models c \<sigma> \<longrightarrow> (\<forall>r \<in> set rs. ref_bool (renv_of \<sigma> (env c)) r = Some True) \<longrightarrow>
      (\<exists>\<tau>. models d \<tau> \<and> renv_of \<tau> (env d) = renv_of \<sigma> (env c)))"
proof (induction rs arbitrary: c)
  case Nil
  then show ?case by auto
next
  case (Cons r rs)
  obtain l c1 where l: "bv_eval_bool c r = (l, c1)" "bv_requires (bv_assert_lit c1 l) rs = Some d"
    using Cons.prems(1) by (auto split: if_splits prod.splits)
  have c1: "clean c1" using bv_requires_clean [OF l(2) Cons.prems(2)] by simp
  have c: "wfc c" "wf_env c" using Cons.prems(3) by (auto simp: st_ok_def)
  have b: "bexp c c1 l (\<lambda>\<rho>. ref_bool \<rho> r)" "env c1 = env c"
    using exp_okD(2) [OF bv_eval_ok c l(1) c1] by auto
  have e: "ext c c1" "lit_ok (nv c1) l" using b by (auto simp: bexp_def)
  have fr: "frame c c1" by (rule frame_snd [OF l(1) bv_eval_frame(2)])
  have s: "st_ok (bv_assert_lit c1 l)" by (rule bv_assert_st_ok [OF st_ok_frame [OF Cons.prems(3) e(1) fr] e(2)])
  have nr: "\<not> has_ret (bv_assert_lit c1 l)" using fr Cons.prems(4) by (simp add: frame_def)
  note ih = Cons.IH [OF l(2) Cons.prems(2) s nr]
  have "\<exists>\<tau>. models d \<tau> \<and> renv_of \<tau> (env d) = renv_of \<sigma> (env c)"
    if m: "models c \<sigma>" and r: "\<forall>r \<in> set (r # rs). ref_bool (renv_of \<sigma> (env c)) r = Some True" for \<sigma>
  proof -
    obtain \<tau> where t: "agree (nv c) \<sigma> \<tau>" "models c1 \<tau>" using e(1) m by (auto simp: ext_def)
    have re: "renv_of \<tau> (env c) = renv_of \<sigma> (env c)" by (rule renv_of_agree [OF c(2) t(1)])
    have "ref_bool (renv_of \<tau> (env c)) r = Some (lit_true \<tau> l)" using b(1) t(2) unfolding bexp_def by blast
    then have "lit_true \<tau> l" using r re by simp
    then have m1: "models (bv_assert_lit c1 l) \<tau>" using bv_assert_wfc(2) [OF ext_wfc [OF e(1)] e(2)] t by simp
    have "(\<forall>r \<in> set rs. ref_bool (renv_of \<tau> (env c)) r = Some True) \<longrightarrow>
        (\<exists>\<upsilon>. models d \<upsilon> \<and> renv_of \<upsilon> (env d) = renv_of \<tau> (env c))"
      using ih m1 unfolding bv_assert_simps b(2) by blast
    then show ?thesis using r unfolding re by simp
  qed
  then show ?case using ih b(2) by auto
qed

section \<open>The goal and the verdict\<close>

definition bv_start :: bvctx where
  "bv_start = bv_assert_lit (bv_assert_lit (snd (bv_new_var (snd (bv_new_var bv_ctx_init)))) BV_T) (- BV_F)"

lemma bv_start_ok:
  "st_ok bv_start \<and> \<not> has_ret bv_start \<and> env bv_start = [] \<and> clean bv_start \<and> (\<exists>\<sigma>. models bv_start \<sigma>)"
proof -
  let ?s = "snd (bv_sat_new_var (snd (bv_sat_new_var (bv_sat_init 0))))"
  have s: "sat bv_start = bv_sat_add_clause (bv_sat_add_clause ?s [BV_T]) [- BV_F]"
    by (simp add: bv_start_def bv_assert_lit_def bv_add_clause_def bv_new_var_def bv_sat_new_var_def
        bv_ctx_init_def)
  have n: "n_vars ?s = 2" "cl ?s = []" by (simp_all add: bv_sat_new_var_def bv_sat_init_def)
  have cl: "cl (sat bv_start) = [[BV_T], [- BV_F]]" "nv bv_start = 2"
    using n by (simp_all add: s bv_sat_add_clause_def)
  have "sat_ready [] ?s" by (intro bv_sat_new_var_ready bv_sat_init_ready)
  then have "sat_ready ([] @ [[BV_T]]) (bv_sat_add_clause ?s [BV_T])"
    using n by (intro bv_sat_add_clause_ready) (auto simp: lit_ok_def lit_var_def BV_T_def)
  then have "sat_ready (([] @ [[BV_T]]) @ [[- BV_F]]) (sat bv_start)"
    unfolding s by (rule bv_sat_add_clause_ready)
      (use n in \<open>auto simp: lit_ok_def lit_var_def BV_F_def bv_sat_add_clause_def\<close>)
  then have rd: "sat_ready (cl (sat bv_start)) (sat bv_start)" by (simp add: cl)
  have m: "models bv_start \<sigma> \<longleftrightarrow> lit_true \<sigma> BV_T \<and> \<not> lit_true \<sigma> BV_F" for \<sigma>
    by (simp add: models_def cl cnf_true_def clause_true_def lit_true_neg BV_F_def)
  have k: "op_kind bv_start = (\<lambda>_. 0)" "env bv_start = []" "pc bv_start = BV_T" "ret_cond bv_start = BV_F"
    "\<not> has_ret bv_start" "clean bv_start"
    by (simp_all add: bv_start_def bv_assert_lit_def bv_add_clause_def bv_new_var_def bv_sat_new_var_def
        bv_ctx_init_def clean_def)
  have "wfc bv_start" using rd m k by (simp add: wfc_def cl(2) ops_ok_def)
  then have "st_ok bv_start" using k lit_ok_consts by (auto simp: st_ok_def wf_env_def)
  moreover have "models bv_start (\<lambda>v. v = 1)" by (simp add: m lit_true_def lit_var_def BV_T_def BV_F_def)
  ultimately show ?thesis using k by blast
qed

text \<open>What a verdict 1 claims of the arguments \<open>vs\<close>.\<close>

definition ensures_holds :: "fn_decl \<Rightarrow> spec_decl \<Rightarrow> nat \<Rightarrow> i64 list \<Rightarrow> bool" where
  "ensures_holds fn spec k vs \<longleftrightarrow>
     ((\<forall>r \<in> set (spec_requires spec). ref_bool (ref_args (params fn) vs []) (snd r) = Some True) \<longrightarrow>
      (\<exists>\<rho> v. ref_stmts (ref_args (params fn) vs []) (node_stmts (the (fn_body fn))) = Some (\<rho>, Some v) \<and>
         ref_bool (alist_put \<rho> ''output'' v) (snd (spec_ensures spec ! k)) = Some True))"

definition tail_body :: "fn_decl \<Rightarrow> bool" where
  "tail_body fn = (case fn_body fn of None \<Rightarrow> False | Some b \<Rightarrow> tail_rets (node_stmts b))"

lemma bv_goal_cases:
  assumes "bv_goal fn spec k = Some c"
  obtains body c3 c4 c5 elit c6 where "fn_body fn = Some body"
    "bv_params bv_start (params fn) = Some c3"
    "bv_requires c3 (map snd (spec_requires spec)) = Some c4"
    "bv_stmts c4 (node_stmts body) = (True, c5)" "\<not> failed c5" "has_ret c5"
    "bv_eval_bool (bv_env_bind c5 ''output'' (ret c5)) (snd (spec_ensures spec ! k)) = (elit, c6)"
    "\<not> failed c6" "c = bv_assert_lit c6 (- elit)"
proof -
  obtain body where b: "fn_body fn = Some body"
    using assms by (auto simp: bv_goal_def split: if_splits option.splits)
  have st: "bv_new_var bv_ctx_init = (t, c1) \<Longrightarrow> bv_new_var c1 = (f, c2) \<Longrightarrow>
      bv_assert_lit (bv_assert_lit c2 BV_T) (- BV_F) = bv_start" for t c1 f c2
    by (simp add: bv_start_def)
  obtain c3 where c3: "bv_params bv_start (params fn) = Some c3"
    using assms by (auto simp: bv_goal_def b st split: if_splits option.splits prod.splits)
  obtain c4 where c4: "bv_requires c3 (map snd (spec_requires spec)) = Some c4"
    using assms by (auto simp: bv_goal_def b st c3 split: if_splits option.splits prod.splits)
  obtain r c5 where c5: "bv_stmts c4 (node_stmts body) = (r, c5)" by fastforce
  obtain elit c6 where c6:
    "bv_eval_bool (bv_env_bind c5 ''output'' (ret c5)) (snd (spec_ensures spec ! k)) = (elit, c6)"
    by fastforce
  show ?thesis
    using assms that [OF b c3 c4 _ _ _ c6]
    by (auto simp: bv_goal_def b st c3 c4 c5 c6 g_not_def split: if_splits prod.splits)
qed

lemma bv_goal_sound:
  assumes g: "bv_goal fn spec k = Some c" and cc: "\<not> mux_true c" and tl: "tail_body fn"
  shows "wfc c" "length vs = length (params fn) \<Longrightarrow> unsat (cl (sat c)) \<Longrightarrow> ensures_holds fn spec k vs"
proof -
  obtain body c3 c4 c5 elit c6 where b: "fn_body fn = Some body"
    "bv_params bv_start (params fn) = Some c3"
    "bv_requires c3 (map snd (spec_requires spec)) = Some c4"
    "bv_stmts c4 (node_stmts body) = (True, c5)" "\<not> failed c5" "has_ret c5"
    "bv_eval_bool (bv_env_bind c5 ''output'' (ret c5)) (snd (spec_ensures spec ! k)) = (elit, c6)"
    "\<not> failed c6" "c = bv_assert_lit c6 (- elit)"
    by (rule bv_goal_cases [OF g])
  have c6: "clean c6" using cc b(8,9) by (simp add: clean_def)
  have c5: "clean c5" using clean_back(5) [OF b(7) c6] by simp
  have st: "bv_stmts_from False c4 (node_stmts body) = (True, c5)" using b(4) by (simp add: bv_stmts_def)
  have c4: "clean c4" by (rule bv_stmt_clean(2) [OF st c5])
  have tb: "tail_rets (node_stmts body)" using tl b(1) by (simp add: tail_body_def)
  obtain \<sigma>0 where s0: "models bv_start \<sigma>0" using bv_start_ok by blast
  have p3: "st_ok c3 \<and> \<not> has_ret c3 \<and>
      (\<exists>\<tau>. models c3 \<tau> \<and> renv_of \<tau> (env c3) = ref_args (params fn) vs [])"
    if "length vs = length (params fn)" for vs
    using bv_params_ok [OF b(2) _ _ that s0] bv_start_ok by (simp add: renv_of_def)
  then have st3: "st_ok c3" "\<not> has_ret c3" using p3 [of "replicate (length (params fn)) 0"] by auto
  note p4 = bv_requires_ok [OF b(3) c4 st3]
  have sm: "sim c4 c5 (\<lambda>\<rho>. ref_stmts \<rho> (node_stmts body))"
    using bv_stmt_ok(2) [OF _ _ st c5] p4 tb by simp
  let ?c = "bv_env_bind c5 ''output'' (ret c5)"
  have s5: "st_ok c5" using sm by (simp add: sim_def)
  then have sc: "st_ok ?c" using b(6) by (intro st_ok_bind) (auto simp: st_ok_def)
  have ex: "bexp ?c c6 elit (\<lambda>\<rho>. ref_bool \<rho> (snd (spec_ensures spec ! k)))"
    using exp_okD(2) [OF bv_eval_ok _ _ b(7) c6] sc by (simp add: st_ok_def)
  have e6: "ext ?c c6" "lit_ok (nv c6) (- elit)" "elit \<noteq> 0" using ex by (auto simp: bexp_def lit_ok_def)
  show "wfc c" unfolding b(9) by (rule bv_assert_wfc(1) [OF ext_wfc [OF e6(1)] e6(2)])
  assume len: "length vs = length (params fn)" and un: "unsat (cl (sat c))"
  show "ensures_holds fn spec k vs"
    unfolding ensures_holds_def
  proof
    let ?\<rho> = "ref_args (params fn) vs []"
    assume req: "\<forall>r \<in> set (spec_requires spec). ref_bool ?\<rho> (snd r) = Some True"
    obtain \<tau>3 where t3: "models c3 \<tau>3" "renv_of \<tau>3 (env c3) = ?\<rho>" using p3 [OF len] by blast
    obtain \<tau>4 where t4: "models c4 \<tau>4" "renv_of \<tau>4 (env c4) = ?\<rho>"
      using p4 t3 req by fastforce
    obtain \<tau>5 where t5: "agree (nv c4) \<tau>4 \<tau>5" "models c5 \<tau>5" using sm t4 by (auto simp: sim_def ext_def)
    have "wf_env c4" using p4 by (simp add: st_ok_def)
    then have r4: "renv_of \<tau>5 (env c4) = ?\<rho>" using renv_of_agree t5(1) t4(2) by metis
    have run: "ref_stmts ?\<rho> (node_stmts body) = Some (renv_of \<tau>5 (env c5), Some (wval \<tau>5 (ret c5)))"
      using sm t5(2) r4 b(6) by (auto simp: sim_def ret_val_def)
    have "models ?c \<tau>5" using t5(2) by (simp add: bv_env_bind_def)
    then obtain \<tau>6 where t6: "agree (nv ?c) \<tau>5 \<tau>6" "models c6 \<tau>6" using e6(1) by (auto simp: ext_def)
    have "renv_of \<tau>6 (env ?c) = renv_of \<tau>5 (env ?c)"
      using renv_of_agree [OF _ t6(1)] sc by (simp add: st_ok_def)
    also have "\<dots> = alist_put (renv_of \<tau>5 (env c5)) ''output'' (wval \<tau>5 (ret c5))"
      by (simp add: bv_env_bind_def renv_of_alist_put)
    finally have fin: "renv_of \<tau>6 (env ?c) =
        alist_put (renv_of \<tau>5 (env c5)) ''output'' (wval \<tau>5 (ret c5))" .
    have "ref_bool (renv_of \<tau>6 (env ?c)) (snd (spec_ensures spec ! k)) = Some (lit_true \<tau>6 elit)"
      using ex t6(2) unfolding bexp_def by blast
    then have en: "ref_bool (alist_put (renv_of \<tau>5 (env c5)) ''output'' (wval \<tau>5 (ret c5)))
        (snd (spec_ensures spec ! k)) = Some (lit_true \<tau>6 elit)"
      unfolding fin .
    have "lit_true \<tau>6 elit"
    proof (rule ccontr)
      assume "\<not> lit_true \<tau>6 elit"
      then have "models c \<tau>6"
        using bv_assert_wfc(2) [OF ext_wfc [OF e6(1)] e6(2)] t6(2) e6(3) b(9) by (simp add: lit_true_neg)
      then show False using un by (simp add: unsat_def models_def)
    qed
    with en run b(1) show "\<exists>\<rho> v. ref_stmts ?\<rho> (node_stmts (the (fn_body fn))) = Some (\<rho>, Some v) \<and>
         ref_bool (alist_put \<rho> ''output'' v) (snd (spec_ensures spec ! k)) = Some True"
      by auto
  qed
qed

lemma bv_verify_ensures_run:
  assumes g: "bv_goal fn spec k = Some c" and cc: "\<not> mux_true c" and tl: "tail_body fn"
  obtains r s where "bv_solve_modes (sat c) = Some (r, s)" "r = BV_SAT_UNSAT \<longrightarrow> unsat (cl (sat c))"
proof -
  have "sat_ready (cl (sat c)) (sat c)" using bv_goal_sound(1) [OF assms] by (simp add: wfc_def)
  from bv_solver.solve_modes_sound [OF this, of "[1, 2]"] show ?thesis
    using that by (auto simp: bv_solve_modes_def)
qed

end
