(* ===== verification/BvSatProps.thy ===== *)
theory BvSatProps
  imports BvSatSolve
begin

text \<open>
  The properties of the SAT solver with their witnesses on a small formula.
\<close>

lemmas bvsat_eval = bv_sat_init_def bv_sat_add_clause_def occ_slot_def lit_var_def lit_value_def
  trail_push_def trail_push_reason_def trail_pop_def trail_pop_to_def sat_decide_var_def
  cdcl_analyze_def backjump_def chrono_backtrack_def cdcl_learn_def sat_decide_def bv_sat_solve_def
  sat_propagate.simps analyze_loop.simps conflict_loop.simps decide_loop.simps level0_loop.simps
  BV_SAT_DEFAULT_BUDGET_def Let_def upt_conv_Cons bv_sat_new_var_def bv_sat_reset_def
  bv_sat_var_value_def

text \<open>A chain of implications from variable 1 to a conflict, over four variables.\<close>

definition chain_cnf :: "int list list" where
  "chain_cnf = [[- 1, 2], [- 2, 3], [- 2, 4], [- 3, - 4]]"

definition chain_start :: bvsat where
  "chain_start = (fold (\<lambda>c s. bv_sat_add_clause s c) chain_cnf
     (snd (bv_sat_new_var (snd (bv_sat_new_var (snd (bv_sat_new_var (snd (bv_sat_new_var
        (bv_sat_init 0))))))))))\<lparr>cdcl := True\<rparr>"

lemma chain_ready: "sat_ready chain_cnf chain_start"
proof -
  let ?s = "snd (bv_sat_new_var (snd (bv_sat_new_var (snd (bv_sat_new_var (snd (bv_sat_new_var
        (bv_sat_init 0))))))))"
  have n: "n_vars ?s = 4" by (simp add: bv_sat_new_var_def bv_sat_init_def)
  have "sat_ready [] ?s" by (intro bv_sat_new_var_ready bv_sat_init_ready)
  then have "sat_ready ([] @ [[- 1, 2]]) (bv_sat_add_clause ?s [- 1, 2])"
    by (rule bv_sat_add_clause_ready) (simp add: n lit_ok_def lit_var_def)
  then have "sat_ready (([] @ [[- 1, 2]]) @ [[- 2, 3]])
      (bv_sat_add_clause (bv_sat_add_clause ?s [- 1, 2]) [- 2, 3])"
    by (rule bv_sat_add_clause_ready) (simp add: n lit_ok_def lit_var_def bv_sat_add_clause_def)
  then have "sat_ready ((([] @ [[- 1, 2]]) @ [[- 2, 3]]) @ [[- 2, 4]])
      (bv_sat_add_clause (bv_sat_add_clause (bv_sat_add_clause ?s [- 1, 2]) [- 2, 3]) [- 2, 4])"
    by (rule bv_sat_add_clause_ready) (simp add: n lit_ok_def lit_var_def bv_sat_add_clause_def)
  then have "sat_ready (((([] @ [[- 1, 2]]) @ [[- 2, 3]]) @ [[- 2, 4]]) @ [[- 3, - 4]])
      (bv_sat_add_clause (bv_sat_add_clause (bv_sat_add_clause (bv_sat_add_clause ?s
         [- 1, 2]) [- 2, 3]) [- 2, 4]) [- 3, - 4])"
    by (rule bv_sat_add_clause_ready) (simp add: n lit_ok_def lit_var_def bv_sat_add_clause_def)
  then show ?thesis
    by (simp add: chain_cnf_def chain_start_def sat_ready_def store_ok_def occ_ok_def cls_ok_def)
qed

lemma chain_ready0: "sat_core chain_cnf (chain_start\<lparr>q_head := 0\<rparr>)"
  by (rule sat_ready_core [OF chain_ready])

text \<open>The state after deciding variable 1, and after the propagation that follows.\<close>

definition chain_decided :: bvsat where
  "chain_decided = sat_decide (chain_start\<lparr>q_head := 0\<rparr>) 1"

lemma chain_decided_inv: "sat_inv chain_cnf chain_decided"
  unfolding chain_decided_def
  by (rule sat_decide_inv(1) [OF chain_ready0]) (simp_all add: chain_start_def chain_cnf_def bvsat_eval)

definition chain_conflict :: bvsat where
  "chain_conflict = snd (the (sat_propagate chain_decided))"

lemma chain_propagate: "\<exists>s. sat_propagate chain_decided = Some (True, s)"
  by (simp add: chain_decided_def chain_start_def chain_cnf_def bvsat_eval eval_nat_numeral)

lemma chain_conflict_ok:
  "sat_core chain_cnf chain_conflict" "conflict_ok chain_conflict" "n_lim chain_conflict = 1"
proof -
  obtain s where s: "sat_propagate chain_decided = Some (True, s)" using chain_propagate by blast
  then have e: "chain_conflict = s" by (simp add: chain_conflict_def)
  have t: "sat_inv chain_cnf s" "grows chain_decided s" "conflict_ok s"
    using sat_propagate_total [OF chain_decided_inv] s by auto
  then show "sat_core chain_cnf chain_conflict" "conflict_ok chain_conflict"
    by (auto simp: e sat_inv_def)
  have "n_lim chain_decided = 1"
    by (simp add: chain_decided_def chain_start_def chain_cnf_def bvsat_eval)
  then show "n_lim chain_conflict = 1" using t(2) by (simp add: e grows_def)
qed

section \<open>Properties\<close>



text \<open>
  C8. Unit propagation ends, keeps the solver's invariant (assignment,
  levels, recorded reasons, occurrence lists, entailed clauses) and only
  extends the trail; a reported conflict is a clause whose literals are all
  false, one of them at the current level; otherwise the queue is empty.
\<close>

theorem sat_propagate_correct:
  assumes "sat_inv F s"
  shows "\<exists>conf t. sat_propagate s = Some (conf, t) \<and> sat_inv F t \<and> grows s t \<and>
    (conf \<longrightarrow> conflict_ok t) \<and> (\<not> conf \<longrightarrow> q_head t = n_trail t)"
  by (rule sat_propagate_total [OF assms])

theorem sat_propagate_correct_witness:
  "\<exists>conf t. sat_propagate chain_decided = Some (conf, t) \<and> sat_inv chain_cnf t \<and>
    (conf \<longrightarrow> conflict_ok t)"
  using sat_propagate_correct [OF chain_decided_inv] by blast

text \<open>
  C9. Conflict analysis learns an entailed clause: it never fails on a
  conflict above level 0, the first literal of the learned clause negates a
  trail literal of the current level, the others are false below it, and the
  backjump level is above theirs.
\<close>

theorem cdcl_analyze_learns:
  assumes "sat_core F s" "ci < n_cl s" "\<forall>l \<in> set (cl s ! ci). - l \<in> set (trail s)"
    and "\<exists>l \<in> set (cl s ! ci). level s (lit_var l) = n_lim s" "0 < n_lim s"
  shows "\<exists>p learn bj. cdcl_analyze s ci 0 = (Some (n_cl s), bj, bv_sat_add_clause s (- p # learn)) \<and>
    p \<in> set (trail s) \<and> level s (lit_var p) = n_lim s \<and> bj < n_lim s \<and>
    (\<forall>q \<in> set learn. - q \<in> set (trail s) \<and> level s (lit_var q) \<le> bj) \<and> entails F (- p # learn)"
proof -
  obtain p learn bj where
    "cdcl_analyze s ci 0 = (Some (n_cl s), bj, bv_sat_add_clause s (- p # learn))"
    "p \<in> set (trail s)" "level s (lit_var p) = n_lim s" "bj < n_lim s"
    "\<forall>q \<in> set learn. - q \<in> set (trail s) \<and> 0 < level s (lit_var q) \<and> level s (lit_var q) \<le> bj"
    "entails F (- p # learn)"
    by (rule cdcl_analyze_result [OF assms])
  then show ?thesis by blast
qed

theorem cdcl_analyze_learns_witness:
  "\<exists>ci p learn. entails chain_cnf (- p # learn) \<and> p \<in> set (trail chain_conflict) \<and>
     conflict_cl chain_conflict = int ci"
proof -
  obtain ci where ci: "conflict_cl chain_conflict = int ci" "ci < n_cl chain_conflict"
    "\<forall>l \<in> set (cl chain_conflict ! ci). - l \<in> set (trail chain_conflict)"
    "\<exists>l \<in> set (cl chain_conflict ! ci). level chain_conflict (lit_var l) = n_lim chain_conflict"
    using chain_conflict_ok(2) unfolding conflict_ok_def by blast
  have "0 < n_lim chain_conflict" using chain_conflict_ok(3) by simp
  then show ?thesis
    using cdcl_analyze_learns [OF chain_conflict_ok(1) ci(2-4)] ci(1) by blast
qed

text \<open>
  The CDCL step after a conflict - learn, jump back, assert - succeeds
  and leads to a state of the invariant, so the loop can propagate again.
\<close>

lemma cdcl_learn_keeps_invariant:
  assumes "sat_core F s" "conflict_ok s" "0 < n_lim s"
  shows "\<exists>t. cdcl_learn s = Some t \<and> sat_inv F t \<and> same_search s t"
proof -
  obtain t where "cdcl_learn s = Some t" "sat_inv F t" "same_search s t"
    by (rule cdcl_learn_inv [OF assms])
  then show ?thesis by blast
qed

lemma cdcl_learn_keeps_invariant_witness:
  "\<exists>t. cdcl_learn chain_conflict = Some t \<and> sat_inv chain_cnf t"
  using cdcl_learn_keeps_invariant [OF chain_conflict_ok(1,2)] chain_conflict_ok(3) by auto

text \<open>
  The analysis does not stop at the first unique implication point, as
  its comment says, but goes on to the decision: on the chain the first such
  point is variable 2, and the learned clause is \<open>\<not>1\<close>.
\<close>

lemma analysis_reaches_the_decision:
  "cl (snd (snd (cdcl_analyze chain_conflict (nat (conflict_cl chain_conflict)) 0))) =
     chain_cnf @ [[- 1]]"
  by (simp add: chain_conflict_def chain_decided_def chain_start_def chain_cnf_def bvsat_eval
      eval_nat_numeral)

end
