(* ===== verification/BvProps.thy ===== *)
theory BvProps
  imports BvSound BvSatProps
begin

text \<open>
  The properties of the SAT solver and of the bit-vector oracle, with their
  witnesses, and the inputs on which the oracle is wrong.
\<close>

section \<open>Concrete programs and evaluation\<close>

definition i64_type :: "tnode option" where
  "i64_type = Some (NODE_TYPE ''i64'' None None [])"

definition fn_of :: "string list \<Rightarrow> node list \<Rightarrow> fn_decl" where
  "fn_of ps body =
     \<lparr>fn_name = ''f'', params = map (\<lambda>p. (p, i64_type)) ps, ret_type = i64_type,
      fn_body = Some (NODE_BLOCK body), is_extern = False\<rparr>"

definition spec_of :: "node list \<Rightarrow> node \<Rightarrow> spec_decl" where
  "spec_of reqs ens =
     \<lparr>spec_name = ''f'', spec_inputs = [], spec_output = None, spec_guarantees = [],
      spec_ensures = [([], ens)], spec_requires = map (\<lambda>r. ([], r)) reqs,
      spec_decreases = None\<rparr>"

lemmas bv_eval = bv_verify_ensures_def bv_goal_def bv_ctx_init_def bv_new_var_eq
  bv_assert_lit_def bv_add_clause_def BV_T_def BV_F_def BV_VAR_BUDGET_def BV_GATE_BUDGET_def
  bv_bad_def bv_fail_def op_record_def op_match_def bv_env_bind_def bv_env_find_def
  bv_budget_ok_def g_not_def g_and_def g_or_def g_xor_def g_ite_def w_const_def w_fresh_def
  w_not_def w_and_def w_or_def w_xor_def w_ite_def add_bit_def w_add_def w_sub_def w_neg_def
  w_eq_lit_def w_slt_lit_def w_bit0_def w_arith_def w_compare_def is_shift_def shift_kind_def
  if_else_def merge_ret_def if_merge_def bv_return_def bv_eval_opt_def is_return_def
  bv_stmts_def bv_solve_modes_def bv_set_mode_def type_is_i64_def eval_nat_numeral
  fn_of_def spec_of_def i64_type_def

text \<open>A goal translated without a true-arm multiplexer.\<close>

definition bv_clean :: "fn_decl \<Rightarrow> spec_decl \<Rightarrow> nat \<Rightarrow> bool" where
  "bv_clean fn spec k = (case bv_goal fn spec k of None \<Rightarrow> True | Some c \<Rightarrow> \<not> mux_true c)"

definition prog_id :: fn_decl where
  "prog_id = fn_of [''x''] [NODE_RETURN (Some (NODE_IDENT ''x''))]"

definition spec_id :: spec_decl where
  "spec_id = spec_of [] (NODE_BINARY OP_EQ (NODE_IDENT ''output'') (NODE_IDENT ''x''))"

lemma prog_id_verdict: "bv_verify_ensures prog_id spec_id 0 = Some (1, [])"
  by (simp add: prog_id_def spec_id_def bv_eval bvsat_eval)

lemma prog_id_clean: "bv_clean prog_id spec_id 0"
  by (simp add: bv_clean_def prog_id_def spec_id_def bv_eval bvsat_eval)

lemma prog_id_tail: "tail_body prog_id"
  by (simp add: prog_id_def fn_of_def tail_body_def)

section \<open>The oracle\<close>





text \<open>
  C3. A verdict 2 (refuted) is never the solver's word alone: it comes with
  one value per parameter, on which the direct interpreter runs the body to a
  return, finds every requires clause true and the ensures clause false.
\<close>

theorem bv_refuted_rechecked:
  assumes "bv_verify_ensures fn spec k = Some (2, wit)"
  shows "map fst wit = map fst (params fn) \<and>
    (\<exists>e r. bv_interp (node_stmts (the (fn_body fn)))
        (fold (\<lambda>(x, v) e. ienv_bind_local e x v) wit []) = Some (e, Some r) \<and>
      (\<forall>q \<in> set (spec_requires spec). eval_bool (snd q) (ienv_bind_local e ''output'' r)) \<and>
      \<not> eval_bool (snd (spec_ensures spec ! k)) (ienv_bind_local e ''output'' r))"
proof -
  obtain c s where c: "wit = bv_witness c s (params fn)"
    "bv_recheck (node_stmts (the (fn_body fn))) (map snd (spec_requires spec))
       (snd (spec_ensures spec ! k)) wit"
    using assms by (auto simp: bv_verify_ensures_def Let_def split: option.splits prod.splits
        bvsat_result.splits if_splits)
  have "map fst wit = map fst (params fn)" by (auto simp: c(1) bv_witness_def)
  then show ?thesis using c(2) by (auto simp: bv_recheck_def Let_def split: option.splits)
qed

definition spec_false :: spec_decl where
  "spec_false = spec_of [] (NODE_BOOL_LIT False)"

definition spec_no :: spec_decl where
  "spec_no = spec_of [] (NODE_BINARY OP_EQ (NODE_IDENT ''output'') (NODE_INT_LIT 2))"

definition prog_one :: fn_decl where
  "prog_one = fn_of [] [NODE_RETURN (Some (NODE_INT_LIT 1))]"

lemma prog_one_refuted: "bv_verify_ensures prog_one spec_false 0 = Some (2, [])"
  by (simp add: prog_one_def spec_false_def bv_eval bvsat_eval bv_recheck_def bv_witness_def
      ienv_bind_local_def ienv_get_def eval_cmp_def is_cmp_def)

theorem bv_refuted_rechecked_witness:
  "\<exists>e r. bv_interp (node_stmts (the (fn_body prog_one))) [] = Some (e, Some r) \<and>
    \<not> eval_bool (snd (spec_ensures spec_false ! 0)) (ienv_bind_local e ''output'' r)"
  using bv_refuted_rechecked [OF prog_one_refuted] by auto

section \<open>Where the oracle is wrong\<close>

definition prog_early :: fn_decl where
  "prog_early = fn_of []
     [NODE_IF (NODE_BOOL_LIT True) (NODE_BLOCK [NODE_RETURN (Some (NODE_INT_LIT 1))]) None,
      NODE_RETURN (Some (NODE_INT_LIT 2))]"

text \<open>
  An early return that is not in tail position is lost: for
  \<open>if true { return 1; } return 2;\<close> the oracle proves \<open>output == 2\<close>, which is
  false: the path condition is restored after the conditional, so the second
  return overwrites the first.
\<close>

theorem early_return_lost:
  "bv_verify_ensures prog_early spec_no 0 = Some (1, []) \<and> \<not> ensures_holds prog_early spec_no 0 []"
  by (simp add: prog_early_def spec_no_def bv_eval bvsat_eval ensures_holds_def ref_args_def
      ref_opt_def ref_compare_def)

definition prog_mux :: fn_decl where
  "prog_mux = fn_of [''x'']
     [NODE_IF (NODE_UNARY UOP_NOT (NODE_BOOL_LIT False))
        (NODE_BLOCK [NODE_RETURN (Some (NODE_INT_LIT 1))])
        (Some (NODE_BLOCK [NODE_RETURN (Some (NODE_IDENT ''x''))]))]"

definition spec_mux :: spec_decl where
  "spec_mux = spec_of []
     (NODE_BINARY OP_EQ (NODE_IDENT ''output'')
        (NODE_BINARY OP_BIT_AND (NODE_IDENT ''x'') (NODE_INT_LIT 1)))"

text \<open>
  C4. The multiplexer with a constant-true arm is built with the selector's
  polarity reversed: the oracle proves \<open>output == (x & 1)\<close> of
  \<open>if !false { return 1; } else { return x; }\<close>, whose result is 1 for every x.
\<close>

theorem true_arm_mux_unsound:
  "bv_verify_ensures prog_mux spec_mux 0 = Some (1, []) \<and> tail_body prog_mux \<and>
   \<not> ensures_holds prog_mux spec_mux 0 [0]"
proof (intro conjI)
  show "bv_verify_ensures prog_mux spec_mux 0 = Some (1, [])"
    by (simp add: prog_mux_def spec_mux_def bv_eval bvsat_eval)
  show "tail_body prog_mux" by (simp add: prog_mux_def fn_of_def tail_body_def)
  show "\<not> ensures_holds prog_mux spec_mux 0 [0]"
    by (simp add: prog_mux_def spec_mux_def fn_of_def spec_of_def ensures_holds_def ref_args_def
        ref_opt_def ref_compare_def ref_arith_def)
qed

section \<open>Statements and words\<close>



lemma start_wfc: "wfc bv_start" "clean bv_start"
  using bv_start_ok by (auto simp: st_ok_def)

text \<open>
  C6. The signed comparison - sign of the difference corrected by its
  overflow - is \<open>a < b\<close> on the signed values.
\<close>

theorem w_slt_correct:
  assumes "wfc c" "wf_w c a" "wf_w c b" "w_slt_lit c a b = (r, d)" "clean d"
  shows "ext c d \<and> (\<forall>\<sigma>. models d \<sigma> \<longrightarrow> (lit_true \<sigma> r \<longleftrightarrow> sint (wval \<sigma> a) < sint (wval \<sigma> b)))"
  using w_slt_lit_gate [OF assms] by (simp add: gate_def)

lemma start_slt: "\<exists>r d. w_slt_lit bv_start (w_const (- 1)) (w_const 0) = (r, d) \<and> clean d"
  by (simp add: bv_start_def bv_eval bvsat_eval clean_def)

theorem w_slt_correct_witness:
  "\<exists>r d. w_slt_lit bv_start (w_const (- 1)) (w_const 0) = (r, d) \<and> (\<forall>\<sigma>. models d \<sigma> \<longrightarrow> lit_true \<sigma> r)"
proof -
  obtain r d where r: "w_slt_lit bv_start (w_const (- 1)) (w_const 0) = (r, d)" "clean d"
    using start_slt by blast
  have t: "ext bv_start d \<and> (\<forall>\<sigma>. models d \<sigma> \<longrightarrow>
      (lit_true \<sigma> r \<longleftrightarrow> sint (wval \<sigma> (w_const (- 1))) < sint (wval \<sigma> (w_const 0))))"
    by (rule w_slt_correct [OF start_wfc(1) _ _ r]) (simp_all add: w_const_wf start_wfc)
  have "lit_true \<sigma> r" if "models d \<sigma>" for \<sigma>
    using t that ext_models [of bv_start d \<sigma>] w_const_val [OF start_wfc(1), of \<sigma>] by simp
  with r(1) show ?thesis by blast
qed

text \<open>
  The six-layer barrel shifter agrees with the shifts of \<open>baga.h\<close>, masked
  count and sign extension included.
\<close>

lemma w_shift_var_correct:
  assumes "wfc c" "wf_w c a" "wf_w c n" "is_shift op"
    and "w_shift_var c a n (shift_kind op) = (r, d)" "clean d"
  shows "ext c d \<and> wf_w d r \<and>
    (\<forall>\<sigma>. models d \<sigma> \<longrightarrow> wval \<sigma> r = ref_shift op (wval \<sigma> a) (wval \<sigma> n))"
  using w_shift_var_gate [OF assms(1-3,5,6)] ref_shift_sem [OF assms(4)] by (simp add: wgate_def)

lemma shift_by_const:
  assumes "\<not> failed c" "length a = 64"
  shows "snd (w_shift_var c a (w_const n) kind) = c"
proof -
  have "bits2 g_and c (map (\<lambda>i. if P i then BV_T else BV_F) js) (map (\<lambda>i. if Q i then BV_T else BV_F) js) =
      (map (\<lambda>i. if P i \<and> Q i then BV_T else BV_F) js, c)" for P Q and js :: "nat list"
    by (induction js) (use assms(1) in \<open>auto simp: g_and_def BV_T_def BV_F_def\<close>)
  then have m: "w_and c (w_const n) (w_const 63) = (map (\<lambda>i. if bit n i \<and> bit (63 :: i64) i then BV_T else BV_F) [0 ..< 64], c)"
    by (simp add: w_and_def w_const_def)
  have ite: "bits2 (\<lambda>c x y. g_ite c s x y) c as bs = (if s = BV_T then as else bs, c)"
    if "s = BV_T \<or> s = BV_F" "length as = length bs" for s as bs
    using that(2,1) by (induction as bs rule: list_induct2)
      (use assms(1) in \<open>auto simp: g_ite_def BV_T_def BV_F_def\<close>)
  have "snd (shift_layers c kind (map (\<lambda>i. if R i then BV_T else BV_F) [0 ..< 64]) js out) = c"
    if "\<forall>j \<in> set js. j < 64" "length out = 64" for R js out
    using that
  proof (induction js arbitrary: out)
    case (Cons j js)
    have len: "length (w_shiftc kind out (2 ^ j)) = 64"
      by (simp add: w_shiftc_def w_shlc_def w_ashrc_def w_lshrc_def Let_def)
    then show ?case using Cons ite [of "if R j then BV_T else BV_F"] by (simp add: w_ite_def)
  qed simp
  then show ?thesis using assms(2) by (simp add: w_shift_var_def m)
qed

lemma start_shift:
  "\<exists>r d. w_shift_var bv_start (w_const (- 8)) (w_const 65) (shift_kind OP_RSHIFT) = (r, d) \<and> clean d"
proof -
  have "snd (w_shift_var bv_start (w_const (- 8)) (w_const 65) (shift_kind OP_RSHIFT)) = bv_start"
    by (rule shift_by_const) (use start_wfc in \<open>auto simp: clean_def w_const_def\<close>)
  then show ?thesis using start_wfc(2) by (metis prod.collapse)
qed

lemma w_shift_var_correct_witness:
  "\<exists>r d. w_shift_var bv_start (w_const (- 8)) (w_const 65) (shift_kind OP_RSHIFT) = (r, d) \<and>
     (\<forall>\<sigma>. models d \<sigma> \<longrightarrow> wval \<sigma> r = - 4)"
proof -
  obtain r d where r: "w_shift_var bv_start (w_const (- 8)) (w_const 65) (shift_kind OP_RSHIFT) = (r, d)"
    "clean d" using start_shift by blast
  have t: "ext bv_start d \<and> wf_w d r \<and> (\<forall>\<sigma>. models d \<sigma> \<longrightarrow>
      wval \<sigma> r = ref_shift OP_RSHIFT (wval \<sigma> (w_const (- 8))) (wval \<sigma> (w_const 65)))"
    by (rule w_shift_var_correct [OF start_wfc(1) _ _ _ r]) (simp_all add: w_const_wf start_wfc is_shift_def)
  have "wval \<sigma> r = - 4" if "models d \<sigma>" for \<sigma>
    using t that ext_models [of bv_start d \<sigma>] w_const_val [OF start_wfc(1), of \<sigma>]
    by (simp add: ref_shift_def baga_ashr_i64_eq)
  with r(1) show ?thesis by blast
qed

end
