(* ===== verification/Lexer.thy ===== *)
theory Lexer
  imports Prelude
begin

text \<open>
  The lexer (\<open>src/lexer.c\<close>): token kinds, the cursor over the source bytes and
  the functions that read one token. A byte is a \<open>char\<close>; the length of the
  source is the length of the list, and the lexeme of a token is the byte
  buffer the code allocates for it. The value of a float literal is kept as the
  text handed to \<open>strtod\<close>.
\<close>

section \<open>Tokens\<close>

definition utf8 :: "nat list \<Rightarrow> string" where
  "utf8 bs = map char_of bs"

datatype (plugins only:) token_kind =
  TOK_EOF | TOK_ERROR | TOK_IDENT | TOK_INT_LIT | TOK_FLOAT_LIT | TOK_STR_LIT
  | TOK_CHAR_LIT | TOK_BYTES_LIT | TOK_FN | TOK_LET | TOK_MUT | TOK_IF | TOK_ELSE | TOK_WHILE
  | TOK_FOR | TOK_IN | TOK_RETURN | TOK_MATCH | TOK_STRUCT | TOK_IMPL | TOK_SPEC | TOK_ENUM
  | TOK_TRUE | TOK_FALSE | TOK_CATCH | TOK_BREAK | TOK_CONTINUE | TOK_IMPORT | TOK_AS
  | TOK_EXTERN | TOK_RAISE | TOK_TRAIT | TOK_LPAREN | TOK_RPAREN | TOK_LBRACE | TOK_RBRACE
  | TOK_LBRACKET | TOK_RBRACKET | TOK_COMMA | TOK_COLON | TOK_COLONCOLON | TOK_DOT
  | TOK_SEMICOLON | TOK_ARROW | TOK_BANG | TOK_QUESTION | TOK_AMP | TOK_PIPE | TOK_UNDERSCORE
  | TOK_DOTDOT | TOK_FAT_ARROW | TOK_PLUS | TOK_MINUS | TOK_STAR | TOK_SLASH | TOK_PERCENT
  | TOK_EQ | TOK_NEQ | TOK_LT | TOK_GT | TOK_LE | TOK_GE | TOK_ASSIGN | TOK_PLUS_ASSIGN
  | TOK_MINUS_ASSIGN | TOK_STAR_ASSIGN | TOK_SLASH_ASSIGN | TOK_AND | TOK_OR | TOK_NOT
  | TOK_LSHIFT | TOK_RSHIFT | TOK_URSHIFT | TOK_CARET

definition kind_names :: "(token_kind \<times> string) list" where
  "kind_names =
     [(TOK_EOF, ''EOF''),
      (TOK_ERROR, utf8 [208,147,208,160,208,149,208,168,208,154,208,144]),
      (TOK_IDENT, utf8 [208,184,208,180,208,181,208,189,209,130,208,184,209,132,208,184,208,186,208,176,209,130,208,190,209,128]),
      (TOK_INT_LIT, utf8 [209,134,209,143,208,187,208,190,32,209,135,208,184,209,129,208,187,208,190]),
      (TOK_FLOAT_LIT, utf8 [208,180,209,128,208,190,208,177,208,189,208,190,32,209,135,208,184,209,129,208,187,208,190]),
      (TOK_STR_LIT, utf8 [208,189,208,184,208,183]),
      (TOK_CHAR_LIT, utf8 [209,129,208,184,208,188,208,178,208,190,208,187]),
      (TOK_BYTES_LIT, utf8 [98,121,116,101,115,32,208,187,208,184,209,130,208,181,209,128,208,176,208,187]),
      (TOK_FN, ''fn''), (TOK_LET, ''let''), (TOK_MUT, ''mut''), (TOK_IF, ''if''),
      (TOK_ELSE, ''else''), (TOK_WHILE, ''while''), (TOK_FOR, ''for''), (TOK_IN, ''in''),
      (TOK_RETURN, ''return''), (TOK_MATCH, ''match''), (TOK_STRUCT, ''struct''),
      (TOK_IMPL, ''impl''), (TOK_SPEC, ''spec''), (TOK_ENUM, ''enum''),
      (TOK_TRUE, ''true''), (TOK_FALSE, ''false''), (TOK_CATCH, ''catch''),
      (TOK_BREAK, ''break''), (TOK_CONTINUE, ''continue''), (TOK_IMPORT, ''import''),
      (TOK_AS, ''as''), (TOK_EXTERN, ''extern''), (TOK_RAISE, ''raise''),
      (TOK_TRAIT, ''trait''), (TOK_LPAREN, ''(''), (TOK_RPAREN, '')''),
      (TOK_LBRACE, ''{''), (TOK_RBRACE, ''}''), (TOK_LBRACKET, ''[''),
      (TOK_RBRACKET, '']''), (TOK_COMMA, '',''), (TOK_COLON, '':''),
      (TOK_COLONCOLON, ''::''), (TOK_DOT, ''.''), (TOK_SEMICOLON, '';''),
      (TOK_ARROW, ''->''), (TOK_BANG, ''!''), (TOK_QUESTION, ''?''), (TOK_AMP, ''&''),
      (TOK_PIPE, ''|''), (TOK_UNDERSCORE, ''_''), (TOK_DOTDOT, ''..''),
      (TOK_FAT_ARROW, ''=>''), (TOK_PLUS, ''+''), (TOK_MINUS, ''-''), (TOK_STAR, ''*''),
      (TOK_SLASH, ''/''), (TOK_PERCENT, ''%''), (TOK_EQ, ''==''), (TOK_NEQ, ''!=''),
      (TOK_LT, ''<''), (TOK_GT, ''>''), (TOK_LE, ''<=''), (TOK_GE, ''>=''),
      (TOK_ASSIGN, ''=''), (TOK_PLUS_ASSIGN, ''+=''), (TOK_MINUS_ASSIGN, ''-=''),
      (TOK_STAR_ASSIGN, ''*=''), (TOK_SLASH_ASSIGN, ''/=''), (TOK_AND, ''&&''),
      (TOK_OR, ''||''), (TOK_NOT, ''!''), (TOK_LSHIFT, ''<<''), (TOK_RSHIFT, ''>>''),
      (TOK_URSHIFT, ''>>>''), (TOK_CARET, ''^'')]"

definition token_kind_str :: "token_kind \<Rightarrow> string" where
  "token_kind_str k =
     (case map_of kind_names k of
        Some s \<Rightarrow> s
      | None \<Rightarrow> utf8 [208, 189, 208, 181, 208, 191, 208, 190, 208, 183, 208, 189, 208, 176, 209, 130])"

record src_pos =
  p_line :: nat
  p_col :: nat
  p_file :: string

record token =
  tk_kind :: token_kind
  tk_pos :: src_pos
  tk_text :: "string option"
  tk_int :: i64
  tk_float :: string

section \<open>The cursor\<close>

record lexer =
  l_src :: string
  l_pos :: nat
  l_line :: nat
  l_col :: nat
  l_filename :: string

definition lexer_init :: "string \<Rightarrow> string \<Rightarrow> lexer" where
  "lexer_init src fname =
     \<lparr>l_src = src, l_pos = 0, l_line = 1, l_col = 1, l_filename = fname\<rparr>"

definition lex_end :: "lexer \<Rightarrow> bool" where
  "lex_end l \<longleftrightarrow> l_pos l \<ge> length (l_src l)"

definition lex_peek :: "lexer \<Rightarrow> char" where
  "lex_peek l = (if l_pos l \<ge> length (l_src l) then CHR 0x00 else l_src l ! l_pos l)"

definition lex_peek2 :: "lexer \<Rightarrow> char" where
  "lex_peek2 l = (if l_pos l + 1 \<ge> length (l_src l) then CHR 0x00 else l_src l ! (l_pos l + 1))"

definition lex_advance :: "lexer \<Rightarrow> char \<times> lexer" where
  "lex_advance l =
     (let c = l_src l ! l_pos l in
      (c, if c = CHR 0x0A
          then l\<lparr>l_pos := Suc (l_pos l), l_line := Suc (l_line l), l_col := 1\<rparr>
          else l\<lparr>l_pos := Suc (l_pos l), l_col := Suc (l_col l)\<rparr>))"

abbreviation adv :: "lexer \<Rightarrow> lexer" where
  "adv l \<equiv> snd (lex_advance l)"

definition left :: "lexer \<Rightarrow> nat" where
  "left l = length (l_src l) - l_pos l"

definition cbyte :: "char \<Rightarrow> nat" where
  "cbyte c = of_char c"

definition is_ident_start :: "char \<Rightarrow> bool" where
  "is_ident_start c \<longleftrightarrow>
     (97 \<le> cbyte c \<and> cbyte c \<le> 122) \<or> (65 \<le> cbyte c \<and> cbyte c \<le> 90) \<or>
     c = CHR ''_'' \<or> cbyte c \<ge> 128"

definition is_ident_char :: "char \<Rightarrow> bool" where
  "is_ident_char c \<longleftrightarrow> is_ident_start c \<or> (48 \<le> cbyte c \<and> cbyte c \<le> 57)"

definition is_digit :: "char \<Rightarrow> bool" where
  "is_digit c \<longleftrightarrow> 48 \<le> cbyte c \<and> cbyte c \<le> 57"

definition lex_slice :: "lexer \<Rightarrow> nat \<Rightarrow> nat \<Rightarrow> string" where
  "lex_slice l start end_pos = take (end_pos - start) (drop start (l_src l))"

definition make_token :: "token_kind \<Rightarrow> src_pos \<Rightarrow> string option \<Rightarrow> token" where
  "make_token k p txt = \<lparr>tk_kind = k, tk_pos = p, tk_text = txt, tk_int = 0, tk_float = []\<rparr>"

text \<open>The message is copied as a C string: up to its first NUL.\<close>

definition make_error :: "src_pos \<Rightarrow> string \<Rightarrow> token" where
  "make_error p msg = make_token TOK_ERROR p (Some (takeWhile (\<lambda>c. c \<noteq> CHR 0x00) msg))"

abbreviation getc :: "lexer \<Rightarrow> char" where
  "getc l \<equiv> fst (lex_advance l)"

lemma left_adv [simp]: "left (adv l) = left l - 1"
  by (simp add: left_def lex_advance_def Let_def)

lemma left_pos_iff: "0 < left l \<longleftrightarrow> \<not> lex_end l"
  by (auto simp: left_def lex_end_def)

lemma peek_not_end: "lex_peek l \<noteq> CHR 0x00 \<Longrightarrow> \<not> lex_end l"
  by (auto simp: lex_peek_def lex_end_def)

lemma peek2_not_end: "lex_peek2 l \<noteq> CHR 0x00 \<Longrightarrow> \<not> lex_end (adv l)"
  by (auto simp: lex_peek2_def lex_end_def lex_advance_def Let_def)

lemma adv_not_end: "\<not> lex_end (adv l) \<Longrightarrow> \<not> lex_end l"
  by (auto simp: lex_end_def lex_advance_def Let_def split: if_splits)

text \<open>
  Every loop of the lexer moves the cursor forward by reads inside the source:
  the relation carries termination, the bounds and the positions at once.
\<close>

inductive moves :: "lexer \<Rightarrow> lexer \<Rightarrow> bool" where
  moves_refl [intro!, simp]: "moves l l"
| moves_step: "\<not> lex_end l \<Longrightarrow> moves (adv l) l' \<Longrightarrow> moves l l'"

lemma moves_trans [trans]: "moves a b \<Longrightarrow> moves b c \<Longrightarrow> moves a c"
  by (induction rule: moves.induct) (auto intro: moves_step)

lemma moves_adv [intro]: "\<not> lex_end l \<Longrightarrow> moves l (adv l)"
  by (rule moves_step) auto

lemma moves_then_adv: "moves l l' \<Longrightarrow> \<not> lex_end l' \<Longrightarrow> moves l (adv l')"
  using moves_trans by blast

lemma moves_two: "\<not> lex_end (adv l) \<Longrightarrow> moves (adv (adv l)) l' \<Longrightarrow> moves l l'"
  by (blast intro: moves_step dest: adv_not_end)

lemma moves_left: "moves l l' \<Longrightarrow> left l' \<le> left l"
  by (induction rule: moves.induct) auto

lemma moves_left_less: "moves (adv l) l' \<Longrightarrow> \<not> lex_end l \<Longrightarrow> left l' < left l"
  using moves_left [of "adv l" l'] left_pos_iff [of l] by simp

lemma moves_left_less2: "moves (adv (adv l)) l' \<Longrightarrow> \<not> lex_end l \<Longrightarrow> left l' < left l"
  using moves_left [of "adv (adv l)" l'] left_pos_iff [of l] by simp

lemma peek_slash: "lex_peek l = CHR ''/'' \<Longrightarrow> \<not> lex_end l"
  by (rule peek_not_end) simp

lemma peek2_comment:
  "lex_peek2 l = CHR ''*'' \<Longrightarrow> \<not> lex_end (adv l)" "lex_peek2 l = CHR ''/'' \<Longrightarrow> \<not> lex_end (adv l)"
  by (rule peek2_not_end; simp)+

text \<open>
  The loops \<open>while (l->pos < l->len && P(lex_peek(l))) lex_advance(l)\<close>.
\<close>

function advance_while :: "(char \<Rightarrow> bool) \<Rightarrow> lexer \<Rightarrow> lexer" where
  "advance_while P l =
     (if \<not> lex_end l \<and> P (lex_peek l) then advance_while P (adv l) else l)"
  by pat_completeness auto
termination
  by (relation "measure (\<lambda>x. left (snd x))") (auto simp: left_pos_iff)

declare advance_while.simps [simp del]

lemma moves_advance_while [intro!, simp]: "moves l (advance_while P l)"
proof (induction P l rule: advance_while.induct)
  case (1 P l)
  then show ?case by (auto simp: advance_while.simps [of P l] intro: moves_step)
qed

section \<open>White space and comments\<close>

text \<open>The body of a nested block comment, \<open>depth\<close> comments deep.\<close>

function skip_block :: "nat \<Rightarrow> lexer \<Rightarrow> lexer" where
  "skip_block depth l =
     (if \<not> lex_end l \<and> depth > 0 then
        if lex_peek l = CHR ''/'' \<and> lex_peek2 l = CHR ''*''
        then skip_block (depth + 1) (adv (adv l))
        else if lex_peek l = CHR ''*'' \<and> lex_peek2 l = CHR ''/''
        then skip_block (depth - 1) (adv (adv l))
        else skip_block depth (adv l)
      else l)"
  by pat_completeness auto
termination
  by (relation "measure (\<lambda>x. left (snd x))") (auto simp: left_pos_iff)

declare skip_block.simps [simp del]

lemma moves_skip_block [intro!, simp]: "moves l (skip_block d l)"
proof (induction d l rule: skip_block.induct)
  case (1 d l)
  then show ?case
    by (auto simp: skip_block.simps [of d l] intro: moves_step moves_two dest: peek2_comment)
qed

definition is_space :: "char \<Rightarrow> bool" where
  "is_space c \<longleftrightarrow> c = CHR 0x20 \<or> c = CHR 0x09 \<or> c = CHR 0x0D \<or> c = CHR 0x0A"

lemma space_not_end: "is_space (lex_peek l) \<Longrightarrow> \<not> lex_end l"
  by (rule peek_not_end) (auto simp: is_space_def)

lemma line_comment_first:
  "lex_peek l = CHR ''/'' \<Longrightarrow>
   advance_while (\<lambda>d. d \<noteq> CHR 0x0A) l = advance_while (\<lambda>d. d \<noteq> CHR 0x0A) (adv l)"
  using peek_not_end [of l] by (simp add: advance_while.simps [of _ l])

function skip_ws :: "lexer \<Rightarrow> lexer" where
  "skip_ws l =
     (if is_space (lex_peek l) then skip_ws (adv l)
      else if lex_peek l = CHR ''/'' \<and> lex_peek2 l = CHR ''/''
      then skip_ws (advance_while (\<lambda>d. d \<noteq> CHR 0x0A) l)
      else if lex_peek l = CHR ''/'' \<and> lex_peek2 l = CHR ''*''
      then skip_ws (skip_block 1 (adv (adv l)))
      else l)"
  by pat_completeness auto
termination
proof (relation "measure left", goal_cases)
  case (2 l)
  then show ?case using moves_left_less [OF moves_refl, of l] space_not_end [of l] by simp
next
  case (3 l)
  then show ?case
    using moves_left_less [OF moves_advance_while] peek_slash [of l] by (simp add: line_comment_first)
next
  case (4 l)
  then show ?case using moves_left_less2 [OF moves_skip_block] peek_slash [of l] by simp
qed simp

declare skip_ws.simps [simp del]

lemma moves_skip_ws [intro!, simp]: "moves l (skip_ws l)"
proof (induction l rule: skip_ws.induct)
  case (1 l)
  consider "is_space (lex_peek l)"
    | "\<not> is_space (lex_peek l)" "lex_peek l = CHR ''/''" "lex_peek2 l = CHR ''/''"
    | "\<not> is_space (lex_peek l)" "lex_peek l = CHR ''/''" "lex_peek2 l = CHR ''*''"
    | "\<not> is_space (lex_peek l)" "\<not> (lex_peek l = CHR ''/'' \<and> lex_peek2 l = CHR ''/'')"
      "\<not> (lex_peek l = CHR ''/'' \<and> lex_peek2 l = CHR ''*'')"
    by blast
  then show ?case
  proof cases
    case 1
    then have "skip_ws l = skip_ws (adv l)" by (subst skip_ws.simps) simp
    with "1.IH"(1) [OF 1] space_not_end [OF 1] show ?thesis by (metis moves_step)
  next
    case 2
    then have "skip_ws l = skip_ws (advance_while (\<lambda>d. d \<noteq> CHR 0x0A) l)"
      by (subst skip_ws.simps) simp
    with "1.IH"(2) 2 show ?thesis by (metis moves_trans moves_advance_while)
  next
    case 3
    then have eq: "skip_ws l = skip_ws (skip_block 1 (adv (adv l)))"
      by (subst skip_ws.simps) simp
    have "moves (adv (adv l)) (skip_ws (skip_block 1 (adv (adv l))))"
      by (rule moves_trans [OF moves_skip_block]) (use "1.IH"(3) 3 in simp)
    with eq show ?thesis by (metis moves_two peek2_comment(1) 3(3))
  next
    case 4
    then have "skip_ws l = l" by (subst skip_ws.simps) auto
    then show ?thesis by simp
  qed
qed

section \<open>Keywords\<close>

definition kw_table :: "(string \<times> token_kind) list" where
  "kw_table =
     [(''fn'', TOK_FN), (''let'', TOK_LET), (''mut'', TOK_MUT), (''if'', TOK_IF),
      (''else'', TOK_ELSE), (''while'', TOK_WHILE), (''for'', TOK_FOR), (''in'', TOK_IN),
      (''return'', TOK_RETURN), (''match'', TOK_MATCH), (''struct'', TOK_STRUCT),
      (''impl'', TOK_IMPL), (''spec'', TOK_SPEC), (''enum'', TOK_ENUM),
      (''true'', TOK_TRUE), (''false'', TOK_FALSE), (''catch'', TOK_CATCH),
      (''break'', TOK_BREAK), (''continue'', TOK_CONTINUE), (''import'', TOK_IMPORT),
      (''as'', TOK_AS), (''extern'', TOK_EXTERN), (''raise'', TOK_RAISE),
      (''trait'', TOK_TRAIT)]"

definition keyword_kind :: "string \<Rightarrow> token_kind" where
  "keyword_kind s = (case map_of kw_table s of None \<Rightarrow> TOK_IDENT | Some k \<Rightarrow> k)"

section \<open>Error messages\<close>

definition msg_unclosed_str :: string where
  "msg_unclosed_str =
     utf8 [208, 189, 208, 181, 208, 183, 208, 176, 209, 130, 208, 178, 208, 190, 209, 128,
      208, 181, 208, 189, 32, 208, 189, 208, 184, 208, 183]"
definition msg_nul_in_str :: string where
  "msg_nul_in_str =
     utf8 [92, 48, 32, 208, 178, 32, 115, 116, 114, 32, 208, 187, 208, 184, 209, 130, 208,
      181, 209, 128, 208, 176, 208, 187, 32, 226, 128, 148, 32, 115, 116, 114, 32, 208,
      189, 208, 181, 32, 208, 191, 208, 190, 208, 189, 208, 176, 209, 129, 209, 143, 32,
      78, 85, 76, 59, 32, 208, 183, 208, 176, 32, 209, 129, 209, 131, 209, 128, 208, 190,
      208, 178, 208, 184, 32, 208, 177, 208, 176, 208, 185, 209, 130, 208, 190, 208, 178,
      208, 181, 32, 208, 191, 208, 190, 208, 187, 208, 183, 208, 178, 208, 176, 208, 185,
      32, 98, 121, 116, 101, 115, 32, 40, 120, 34, 46, 46, 46, 34, 41]"
definition msg_unknown_escape :: string where
  "msg_unknown_escape =
     utf8 [208, 189, 208, 181, 208, 191, 208, 190, 208, 183, 208, 189, 208, 176, 209, 130,
      208, 176, 32, 101, 115, 99, 97, 112, 101, 32, 208, 191, 208, 190, 209, 129, 208,
      187, 208, 181, 208, 180, 208, 190, 208, 178, 208, 176, 209, 130, 208, 181, 208,
      187, 208, 189, 208, 190, 209, 129, 209, 130]"
definition msg_unclosed_char :: string where
  "msg_unclosed_char =
     utf8 [208, 189, 208, 181, 208, 183, 208, 176, 209, 130, 208, 178, 208, 190, 209, 128,
      208, 181, 208, 189, 32, 209, 129, 208, 184, 208, 188, 208, 178, 208, 190, 208, 187]"
definition msg_unclosed_bytes :: string where
  "msg_unclosed_bytes =
     utf8 [208, 189, 208, 181, 208, 183, 208, 176, 209, 130, 208, 178, 208, 190, 209, 128,
      208, 181, 208, 189, 32, 98, 121, 116, 101, 115, 32, 208, 187, 208, 184, 209, 130,
      208, 181, 209, 128, 208, 176, 208, 187]"
definition msg_unknown_char :: string where
  "msg_unknown_char =
     utf8 [208, 189, 208, 181, 208, 191, 208, 190, 208, 183, 208, 189, 208, 176, 209, 130, 32,
      209, 129, 208, 184, 208, 188, 208, 178, 208, 190, 208, 187]"

section \<open>String literals\<close>

text \<open>
  The growing buffer: its contents, its capacity, and a ghost flag that records
  a write at or past the capacity. \<open>sb_put\<close> is \<open>buf[len++] = c\<close>; \<open>sb_push\<close> is the
  same after the capacity check.
\<close>

record strbuf =
  sb_buf :: string
  sb_cap :: nat
  sb_oob :: bool

definition sb_init :: strbuf where
  "sb_init = \<lparr>sb_buf = [], sb_cap = 64, sb_oob = False\<rparr>"

definition sb_put :: "char \<Rightarrow> strbuf \<Rightarrow> strbuf" where
  "sb_put c b = b\<lparr>sb_buf := sb_buf b @ [c], sb_oob := (sb_oob b \<or> length (sb_buf b) \<ge> sb_cap b)\<rparr>"

definition sb_grow :: "strbuf \<Rightarrow> strbuf" where
  "sb_grow b = (if length (sb_buf b) + 1 \<ge> sb_cap b then b\<lparr>sb_cap := sb_cap b * 2\<rparr> else b)"

definition sb_push :: "char \<Rightarrow> strbuf \<Rightarrow> strbuf" where
  "sb_push c b = sb_put c (sb_grow b)"

text \<open>A string nested in an interpolation, up to its closing quote.\<close>

function str_nested :: "lexer \<Rightarrow> strbuf \<Rightarrow> lexer \<times> strbuf" where
  "str_nested l b =
     (if lex_end l then (l, b)
      else if getc l = CHR 0x5C then
        (if \<not> lex_end (adv l)
         then str_nested (adv (adv l)) (sb_push (getc (adv l)) (sb_push (getc l) b))
         else str_nested (adv l) (sb_push (getc l) b))
      else if getc l = CHR 0x22 then (adv l, sb_push (getc l) b)
      else str_nested (adv l) (sb_push (getc l) b))"
  by pat_completeness auto
termination
  by (relation "measure (\<lambda>x. left (fst x))") (auto simp: left_pos_iff)

declare str_nested.simps [simp del]

lemma moves_str_nested [intro!, simp]: "moves l (fst (str_nested l b))"
proof (induction l b rule: str_nested.induct)
  case (1 l b)
  then show ?case by (auto simp: str_nested.simps [of l b] intro: moves_step moves_two)
qed

text \<open>The rest of an interpolation \<open>${...}\<close>, \<open>depth\<close> braces deep.\<close>

function str_interp :: "nat \<Rightarrow> lexer \<Rightarrow> strbuf \<Rightarrow> lexer \<times> strbuf" where
  "str_interp depth l b =
     (if depth > 0 \<and> \<not> lex_end l then
        if getc l = CHR 0x7B then str_interp (depth + 1) (adv l) (sb_push (getc l) b)
        else if getc l = CHR 0x7D then str_interp (depth - 1) (adv l) (sb_push (getc l) b)
        else if getc l = CHR 0x22 then
          str_interp depth (fst (str_nested (adv l) (sb_push (getc l) b)))
            (snd (str_nested (adv l) (sb_push (getc l) b)))
        else str_interp depth (adv l) (sb_push (getc l) b)
      else (l, b))"
  by pat_completeness auto
termination
  by (relation "measure (\<lambda>x. left (fst (snd x)))")
    (auto simp: left_pos_iff intro!: moves_left_less)

declare str_interp.simps [simp del]

lemma moves_str_interp [intro!, simp]: "moves l (fst (str_interp d l b))"
proof (induction d l b rule: str_interp.induct)
  case (1 d l b)
  then show ?case
    by (auto simp: str_interp.simps [of d l b]
        intro: moves_step moves_step [OF _ moves_trans [OF moves_str_nested]])
qed

text \<open>The escape sequences of a string literal; \<open>Inl\<close> is the error message.\<close>

definition str_escape :: "char \<Rightarrow> string + char" where
  "str_escape e =
     (if e = CHR ''n'' then Inr (CHR 0x0A)
      else if e = CHR ''t'' then Inr (CHR 0x09)
      else if e = CHR ''r'' then Inr (CHR 0x0D)
      else if e = CHR 0x5C then Inr (CHR 0x5C)
      else if e = CHR 0x22 then Inr (CHR 0x22)
      else if e = CHR ''0'' then Inl msg_nul_in_str
      else Inl msg_unknown_escape)"

text \<open>
  The loop of \<open>lex_string\<close>: the message of an error, if any, the cursor and the
  buffer.
\<close>

function str_loop :: "lexer \<Rightarrow> strbuf \<Rightarrow> string option \<times> lexer \<times> strbuf" where
  "str_loop l b =
     (if lex_end l then (Some msg_unclosed_str, l, b)
      else if getc l = CHR 0x22 then (None, adv l, b)
      else if getc l = CHR ''$'' \<and> \<not> lex_end (adv l) \<and> lex_peek (adv l) = CHR 0x7B then
        (let r = str_interp 1 (adv (adv l)) (sb_put (getc (adv l)) (sb_put (getc l) b))
         in str_loop (fst r) (snd r))
      else if getc l = CHR 0x5C then
        (if lex_end (adv l) then (Some msg_unclosed_str, adv l, b)
         else
           (case str_escape (getc (adv l)) of
              Inl msg \<Rightarrow> (Some msg, adv (adv l), b)
            | Inr e \<Rightarrow> str_loop (adv (adv l)) (sb_push e b)))
      else str_loop (adv l) (sb_push (getc l) b))"
  by pat_completeness auto
termination
  by (relation "measure (\<lambda>x. left (fst x))")
    (auto simp: left_pos_iff intro!: moves_left_less2)

declare str_loop.simps [simp del]

lemma moves_str_loop [intro!, simp]: "moves l (fst (snd (str_loop l b)))"
proof (induction l b rule: str_loop.induct)
  case (1 l b)
  let ?r = "str_interp 1 (adv (adv l)) (sb_put (getc (adv l)) (sb_put (getc l) b))"
  show ?case
  proof (cases "lex_end l \<or> getc l = CHR 0x22")
    case True
    then show ?thesis by (auto simp: str_loop.simps [of l b])
  next
    case end_F: False
    show ?thesis
    proof (cases "getc l = CHR ''$'' \<and> \<not> lex_end (adv l) \<and> lex_peek (adv l) = CHR 0x7B")
      case True
      have "moves (adv (adv l)) (fst (snd (str_loop (fst ?r) (snd ?r))))"
        by (rule moves_trans [OF moves_str_interp]) (use 1(1) end_F True in simp)
      moreover from True end_F have "str_loop l b = str_loop (fst ?r) (snd ?r)"
        by (subst str_loop.simps) (simp add: Let_def)
      ultimately show ?thesis using True by (metis moves_two)
    next
      case plain: False
      show ?thesis
      proof (cases "getc l = CHR 0x5C")
        case True
        have a: "moves l (adv (adv l))" if "\<not> lex_end (adv l)" using that by (blast intro: moves_two)
        have b: "moves l (adv l)" using end_F by blast
        show ?thesis
        proof (cases "lex_end (adv l)")
          case True
          with \<open>getc l = CHR 0x5C\<close> end_F b show ?thesis by (subst str_loop.simps) simp
        next
          case False
          show ?thesis
          proof (cases "str_escape (getc (adv l))")
            case (Inl msg)
            with \<open>getc l = CHR 0x5C\<close> end_F a False show ?thesis by (subst str_loop.simps) simp
          next
            case (Inr e)
            with \<open>getc l = CHR 0x5C\<close> end_F False
            have "str_loop l b = str_loop (adv (adv l)) (sb_push e b)"
              by (subst str_loop.simps) simp
            moreover have "moves (adv (adv l)) (fst (snd (str_loop (adv (adv l)) (sb_push e b))))"
              using 1(2) \<open>getc l = CHR 0x5C\<close> end_F False Inr by simp
            ultimately show ?thesis using False by (metis moves_two)
          qed
        qed
      next
        case False
        with plain end_F 1(3) have "moves (adv l) (fst (snd (str_loop (adv l) (sb_push (getc l) b))))"
          by blast
        moreover from False plain end_F have "str_loop l b = str_loop (adv l) (sb_push (getc l) b)"
          by (subst str_loop.simps) auto
        ultimately show ?thesis using end_F by (metis moves_step)
      qed
    qed
  qed
qed

text \<open>The terminating NUL is one more write at \<open>len\<close>.\<close>

definition lex_string_buf :: "lexer \<Rightarrow> string option \<times> lexer \<times> strbuf" where
  "lex_string_buf l =
     (case str_loop l sb_init of
        (Some msg, l1, b) \<Rightarrow> (Some msg, l1, b)
      | (None, l1, b) \<Rightarrow> (None, l1, b\<lparr>sb_oob := (sb_oob b \<or> length (sb_buf b) \<ge> sb_cap b)\<rparr>))"

definition lex_string :: "lexer \<Rightarrow> src_pos \<Rightarrow> token \<times> lexer" where
  "lex_string l start =
     (case lex_string_buf l of
        (Some msg, l1, b) \<Rightarrow> (make_error start msg, l1)
      | (None, l1, b) \<Rightarrow> (make_token TOK_STR_LIT start (Some (sb_buf b)), l1))"

section \<open>Character literals\<close>

definition char_escape :: "char \<Rightarrow> char option" where
  "char_escape e =
     (if e = CHR ''n'' then Some (CHR 0x0A)
      else if e = CHR ''t'' then Some (CHR 0x09)
      else if e = CHR ''r'' then Some (CHR 0x0D)
      else if e = CHR 0x5C then Some (CHR 0x5C)
      else if e = CHR 0x27 then Some (CHR 0x27)
      else if e = CHR ''0'' then Some (CHR 0x00)
      else None)"

definition lex_char_close :: "lexer \<Rightarrow> src_pos \<Rightarrow> char \<Rightarrow> token \<times> lexer" where
  "lex_char_close l start c =
     (if lex_end l \<or> lex_peek l \<noteq> CHR 0x27 then (make_error start msg_unclosed_char, l)
      else ((make_token TOK_CHAR_LIT start (Some [c]))\<lparr>tk_int := of_nat (cbyte c)\<rparr>, adv l))"

definition lex_char :: "lexer \<Rightarrow> src_pos \<Rightarrow> token \<times> lexer" where
  "lex_char l start =
     (if lex_end l then (make_error start msg_unclosed_char, l)
      else
        if getc l = CHR 0x5C then
          (if lex_end (adv l) then (make_error start msg_unclosed_char, adv l)
           else
             (case char_escape (getc (adv l)) of
                None \<Rightarrow> (make_error start msg_unknown_escape, adv (adv l))
              | Some d \<Rightarrow> lex_char_close (adv (adv l)) start d))
        else lex_char_close (adv l) start (getc l))"

section \<open>Numbers\<close>

text \<open>
  \<open>strtoll\<close> of C17 on a text that begins with a digit: only base 16 skips a
  prefix, the value stops at the first character that is not a digit of the
  base, and a value out of range is \<open>LLONG_MAX\<close>.
\<close>

definition digit_val :: "char \<Rightarrow> nat" where
  "digit_val c =
     (let n = cbyte c in
      if 48 \<le> n \<and> n \<le> 57 then n - 48
      else if 97 \<le> n \<and> n \<le> 122 then n - 87
      else if 65 \<le> n \<and> n \<le> 90 then n - 55
      else 36)"

definition digits_value :: "nat \<Rightarrow> string \<Rightarrow> nat" where
  "digits_value base s =
     foldl (\<lambda>v c. v * base + digit_val c) 0 (takeWhile (\<lambda>c. digit_val c < base) s)"

fun strip_0x :: "string \<Rightarrow> string" where
  "strip_0x (z # x # h # s) =
     (if z = CHR ''0'' \<and> (x = CHR ''x'' \<or> x = CHR ''X'') \<and> digit_val h < 16
      then h # s else z # x # h # s)"
| "strip_0x s = s"

definition LLONG_MAX :: nat where
  "LLONG_MAX = 9223372036854775807"

definition strtoll :: "string \<Rightarrow> nat \<Rightarrow> i64" where
  "strtoll s base =
     of_nat (min LLONG_MAX (digits_value base (if base = 16 then strip_0x s else s)))"

definition int_token :: "lexer \<Rightarrow> nat \<Rightarrow> src_pos \<Rightarrow> nat \<Rightarrow> token \<times> lexer" where
  "int_token l start_pos start base =
     (let txt = lex_slice l start_pos (l_pos l)
      in ((make_token TOK_INT_LIT start (Some txt))\<lparr>tk_int := strtoll txt base\<rparr>, l))"

definition is_hex :: "char \<Rightarrow> bool" where
  "is_hex c \<longleftrightarrow> digit_val c < 16 \<or> c = CHR ''_''"

definition is_bin :: "char \<Rightarrow> bool" where
  "is_bin c \<longleftrightarrow> c = CHR ''0'' \<or> c = CHR ''1'' \<or> c = CHR ''_''"

definition is_oct :: "char \<Rightarrow> bool" where
  "is_oct c \<longleftrightarrow> (48 \<le> cbyte c \<and> cbyte c \<le> 55) \<or> c = CHR ''_''"

definition is_dec :: "char \<Rightarrow> bool" where
  "is_dec c \<longleftrightarrow> is_digit c \<or> c = CHR ''_''"

text \<open>A fraction and an exponent, each with whether it was there.\<close>

definition lex_fraction :: "lexer \<Rightarrow> bool \<times> lexer" where
  "lex_fraction l =
     (if \<not> lex_end l \<and> lex_peek l = CHR ''.'' \<and> is_digit (lex_peek2 l)
      then (True, advance_while is_dec (adv l))
      else (False, l))"

definition lex_exponent :: "lexer \<Rightarrow> bool \<times> lexer" where
  "lex_exponent l =
     (if \<not> lex_end l \<and> (lex_peek l = CHR ''e'' \<or> lex_peek l = CHR ''E'') then
        let l1 = adv l;
            l2 = (if \<not> lex_end l1 \<and> (lex_peek l1 = CHR ''+'' \<or> lex_peek l1 = CHR ''-'')
                  then adv l1 else l1)
        in (True, advance_while is_digit l2)
      else (False, l))"

definition clean_digits :: "string \<Rightarrow> string" where
  "clean_digits txt = take 255 (filter (\<lambda>c. c \<noteq> CHR ''_'') txt)"

definition lex_decimal :: "lexer \<Rightarrow> src_pos \<Rightarrow> token \<times> lexer" where
  "lex_decimal l start =
     (let start_pos = l_pos l;
          l1 = advance_while is_dec l;
          f = lex_fraction l1;
          e = lex_exponent (snd f);
          l3 = snd e;
          txt = lex_slice l3 start_pos (l_pos l3);
          clean = clean_digits txt
      in if fst f \<or> fst e
         then ((make_token TOK_FLOAT_LIT start (Some txt))\<lparr>tk_float := clean\<rparr>, l3)
         else ((make_token TOK_INT_LIT start (Some txt))\<lparr>tk_int := strtoll clean 10\<rparr>, l3))"

definition lex_number :: "lexer \<Rightarrow> src_pos \<Rightarrow> token \<times> lexer" where
  "lex_number l start =
     (let start_pos = l_pos l; nxt = lex_peek2 l; l2 = adv (adv l) in
      if lex_peek l = CHR ''0'' \<and> l_pos l + 1 < length (l_src l) then
        if nxt = CHR ''x'' \<or> nxt = CHR ''X''
        then int_token (advance_while is_hex l2) start_pos start 16
        else if nxt = CHR ''b'' \<or> nxt = CHR ''B''
        then int_token (advance_while is_bin l2) start_pos start 2
        else if nxt = CHR ''o'' \<or> nxt = CHR ''O''
        then int_token (advance_while is_oct l2) start_pos start 8
        else lex_decimal l start
      else lex_decimal l start)"

section \<open>One token\<close>

definition lex_bytes :: "lexer \<Rightarrow> src_pos \<Rightarrow> token \<times> lexer" where
  "lex_bytes l start =
     (let l1 = adv l;
          l2 = advance_while (\<lambda>c. c \<noteq> CHR 0x22) l1;
          hex = lex_slice l2 (l_pos l1) (l_pos l2)
      in if lex_end l2 then (make_error start msg_unclosed_bytes, l2)
         else (make_token TOK_BYTES_LIT start (Some hex), adv l2))"

definition lex_ident :: "lexer \<Rightarrow> src_pos \<Rightarrow> token \<times> lexer" where
  "lex_ident l start =
     (let l1 = advance_while is_ident_char l;
          txt = lex_slice l1 (l_pos l) (l_pos l1)
      in if txt = ''x'' \<and> \<not> lex_end l1 \<and> lex_peek l1 = CHR 0x22 then lex_bytes l1 start
         else if txt = ''_'' then (make_token TOK_UNDERSCORE start (Some txt), l1)
         else (make_token (keyword_kind txt) start (Some txt), l1))"

text \<open>
  The operators of two characters, in the order the code tries them, and those
  of one. \<open>>>\<close> stands between the two-character ones and looks one character
  further.
\<close>

definition two_char_ops :: "(string \<times> token_kind) list" where
  "two_char_ops =
     [(''->'', TOK_ARROW), (''=='', TOK_EQ), (''!='', TOK_NEQ), (''<='', TOK_LE),
      (''>='', TOK_GE), (''&&'', TOK_AND), (''||'', TOK_OR), (''<<'', TOK_LSHIFT),
      (''+='', TOK_PLUS_ASSIGN), (''-='', TOK_MINUS_ASSIGN), (''*='', TOK_STAR_ASSIGN),
      (''/='', TOK_SLASH_ASSIGN), (''..'', TOK_DOTDOT), (''=>'', TOK_FAT_ARROW),
      (''::'', TOK_COLONCOLON)]"

definition one_char_ops :: "(char \<times> token_kind) list" where
  "one_char_ops =
     [(CHR ''('', TOK_LPAREN), (CHR '')'', TOK_RPAREN), (CHR ''{'', TOK_LBRACE),
      (CHR ''}'', TOK_RBRACE), (CHR ''['', TOK_LBRACKET), (CHR '']'', TOK_RBRACKET),
      (CHR '','', TOK_COMMA), (CHR '':'', TOK_COLON), (CHR ''.'', TOK_DOT),
      (CHR '';'', TOK_SEMICOLON), (CHR ''!'', TOK_BANG), (CHR ''?'', TOK_QUESTION),
      (CHR ''&'', TOK_AMP), (CHR ''|'', TOK_PIPE), (CHR ''^'', TOK_CARET),
      (CHR ''+'', TOK_PLUS), (CHR ''-'', TOK_MINUS), (CHR ''*'', TOK_STAR),
      (CHR ''/'', TOK_SLASH), (CHR ''%'', TOK_PERCENT), (CHR ''<'', TOK_LT),
      (CHR ''>'', TOK_GT), (CHR ''='', TOK_ASSIGN)]"

definition hex_digit :: "nat \<Rightarrow> char" where
  "hex_digit n = char_of (if n < 10 then n + 48 else n + 87)"

definition unknown_char :: "char \<Rightarrow> string" where
  "unknown_char c =
     take 63 (msg_unknown_char @ [CHR 0x20, CHR 0x27, c, CHR 0x27] @ '' (0x'' @
       [hex_digit (cbyte c div 16), hex_digit (cbyte c mod 16)] @ '')'')"

definition lex_operator :: "lexer \<Rightarrow> src_pos \<Rightarrow> token \<times> lexer" where
  "lex_operator l start =
     (let c = lex_peek l; c2 = lex_peek2 l in
      if c = CHR ''>'' \<and> c2 = CHR ''>'' then
        (if l_pos l + 2 < length (l_src l) \<and> l_src l ! (l_pos l + 2) = CHR ''>''
         then (make_token TOK_URSHIFT start (Some ''>>>''), adv (adv (adv l)))
         else (make_token TOK_RSHIFT start (Some ''>>''), adv (adv l)))
      else
        (case map_of two_char_ops [c, c2] of
           Some k \<Rightarrow> (make_token k start (Some [c, c2]), adv (adv l))
         | None \<Rightarrow>
             (case map_of one_char_ops c of
                Some k \<Rightarrow> (make_token k start (Some [c]), adv l)
              | None \<Rightarrow> (make_error start (unknown_char c), adv l))))"

definition lexer_next :: "lexer \<Rightarrow> token \<times> lexer" where
  "lexer_next l0 =
     (let l = skip_ws l0;
          start = \<lparr>p_line = l_line l, p_col = l_col l, p_file = l_filename l\<rparr>;
          c = lex_peek l
      in if lex_end l then (make_token TOK_EOF start None, l)
         else if is_ident_start c then lex_ident l start
         else if is_digit c then lex_number l start
         else if c = CHR 0x22 then lex_string (adv l) start
         else if c = CHR 0x27 then lex_char (adv l) start
         else lex_operator l start)"

end
