(* ===== verification/LexerStep.thy ===== *)
theory LexerStep
  imports Lexer
begin

text \<open>
  The lexer seen through the rest of its input: what each reader consumes, the
  position invariant, and progress, which gives the tokenizer loop of
  \<open>main.c\<close> its termination.
\<close>

section \<open>The rest of the input\<close>

definition rest :: "lexer \<Rightarrow> string" where
  "rest l = drop (l_pos l) (l_src l)"

named_theorems rest_simps \<open>the readers in terms of the rest of the input\<close>

lemma lex_end_rest [rest_simps]: "lex_end l \<longleftrightarrow> rest l = []"
  by (simp add: lex_end_def rest_def)

lemma lex_peek_rest [rest_simps]: "lex_peek l = (case rest l of [] \<Rightarrow> CHR 0x00 | c # cs \<Rightarrow> c)"
  by (auto simp: lex_peek_def rest_def Cons_nth_drop_Suc [symmetric] not_le split: list.split)

lemma lex_peek2_rest [rest_simps]:
  "lex_peek2 l = (case rest l of c # d # cs \<Rightarrow> d | _ \<Rightarrow> CHR 0x00)"
proof (cases "l_pos l + 1 < length (l_src l)")
  case True
  then have "rest l = l_src l ! l_pos l # l_src l ! Suc (l_pos l) # drop (Suc (Suc (l_pos l))) (l_src l)"
    by (simp add: rest_def Cons_nth_drop_Suc)
  with True show ?thesis by (simp add: lex_peek2_def)
next
  case False
  then have "length (rest l) \<le> 1" by (simp add: rest_def)
  with False show ?thesis by (auto simp: lex_peek2_def split: list.split)
qed

lemma getc_rest [rest_simps]: "rest l = c # cs \<Longrightarrow> getc l = c"
  by (simp add: rest_def lex_advance_def Let_def)
    (metis drop_eq_Nil2 hd_drop_conv_nth list.distinct(1) list.sel(1) not_le)

lemma rest_adv [rest_simps]: "rest (adv l) = tl (rest l)"
  by (simp add: rest_def lex_advance_def Let_def drop_Suc tl_drop)

lemma adv_fields [simp]:
  "l_src (adv l) = l_src l" "l_pos (adv l) = Suc (l_pos l)" "l_filename (adv l) = l_filename l"
  by (simp_all add: lex_advance_def Let_def)

lemma rest_Cons_pos: "rest l = c # cs \<Longrightarrow> l_pos l < length (l_src l)"
  by (metis drop_eq_Nil2 list.distinct(1) not_le rest_def)

lemma third_char [rest_simps]:
  "l_pos l + 2 < length (l_src l) \<and> l_src l ! (l_pos l + 2) = d \<longleftrightarrow>
   (case rest l of a # b # c # cs \<Rightarrow> c = d | _ \<Rightarrow> False)"
proof -
  have "(case xs of a # b # c # cs \<Rightarrow> c = d | _ \<Rightarrow> False) \<longleftrightarrow> 2 < length xs \<and> xs ! 2 = d" for xs :: string
    by (auto simp: numeral_2_eq_2 split: list.split)
  from this [of "rest l"] show ?thesis by (auto simp: rest_def add.commute less_diff_conv)
qed

lemmas third_char' = third_char [unfolded add_2_eq_Suc']

lemma second_char [rest_simps]:
  "Suc (l_pos l) < length (l_src l) \<longleftrightarrow> Suc 0 < length (rest l)"
  by (auto simp: rest_def)

section \<open>Moves keep the positions\<close>

text \<open>
  What the reported positions mean: the line is one more than the newlines
  before the cursor, the column counts from the last of them.
\<close>

definition line_of :: "string \<Rightarrow> nat \<Rightarrow> nat" where
  "line_of src n = Suc (count_list (take n src) (CHR 0x0A))"

definition col_of :: "string \<Rightarrow> nat \<Rightarrow> nat" where
  "col_of src n = Suc (length (takeWhile (\<lambda>c. c \<noteq> CHR 0x0A) (rev (take n src))))"

definition lexer_ok :: "lexer \<Rightarrow> bool" where
  "lexer_ok l \<longleftrightarrow>
     l_pos l \<le> length (l_src l) \<and>
     l_line l = line_of (l_src l) (l_pos l) \<and> l_col l = col_of (l_src l) (l_pos l)"

lemma lexer_ok_init: "lexer_ok (lexer_init src f)"
  by (simp add: lexer_ok_def lexer_init_def line_of_def col_of_def)

lemma count_list_snoc: "count_list (xs @ [x]) y = count_list xs y + (if x = y then 1 else 0)"
  by (induction xs) auto

lemma lexer_ok_adv:
  assumes "lexer_ok l" "\<not> lex_end l"
  shows "lexer_ok (adv l)"
proof -
  have p: "l_pos l < length (l_src l)" using assms(2) by (simp add: lex_end_def)
  then have t: "take (Suc (l_pos l)) (l_src l) = take (l_pos l) (l_src l) @ [l_src l ! l_pos l]"
    by (rule take_Suc_conv_app_nth)
  show ?thesis
    using assms(1) p t
    by (auto simp: lexer_ok_def lex_advance_def Let_def line_of_def col_of_def count_list_snoc)
qed

lemma moves_ok: "moves l l' \<Longrightarrow> lexer_ok l \<Longrightarrow> lexer_ok l'"
  by (induction rule: moves.induct) (auto intro: lexer_ok_adv)

lemma moves_same:
  "moves l l' \<Longrightarrow> l_src l' = l_src l \<and> l_filename l' = l_filename l \<and> l_pos l \<le> l_pos l'"
  by (induction rule: moves.induct) auto

section \<open>What the readers return\<close>

lemma tk_make_token [simp]:
  "tk_kind (make_token k p t) = k" "tk_text (make_token k p t) = t"
  "tk_pos (make_token k p t) = p" "tk_int (make_token k p t) = 0"
  "tk_kind (make_error p m) = TOK_ERROR" "tk_pos (make_error p m) = p"
  by (simp_all add: make_token_def make_error_def)

lemma advance_while_first:
  "\<not> lex_end l \<Longrightarrow> P (lex_peek l) \<Longrightarrow> advance_while P l = advance_while P (adv l)"
  by (subst advance_while.simps) simp

lemma moves_adv_while: "\<not> lex_end l \<Longrightarrow> P (lex_peek l) \<Longrightarrow> moves (adv l) (advance_while P l)"
  by (simp add: advance_while_first)

lemma lex_bytes_moves: "\<not> lex_end l \<Longrightarrow> moves l (snd (lex_bytes l st))"
  by (auto simp: lex_bytes_def Let_def
      intro: moves_step moves_then_adv [OF moves_step])

lemma lex_ident_moves:
  "\<not> lex_end l \<Longrightarrow> is_ident_start (lex_peek l) \<Longrightarrow> moves (adv l) (snd (lex_ident l st))"
  using moves_adv_while [of l is_ident_char]
  by (auto simp: lex_ident_def Let_def is_ident_char_def
      intro: moves_trans [OF _ lex_bytes_moves])

lemma lex_fraction_moves [intro!, simp]: "moves l (snd (lex_fraction l))"
  by (auto simp: lex_fraction_def intro: moves_step)

lemma lex_exponent_moves [intro!, simp]: "moves l (snd (lex_exponent l))"
  by (auto simp: lex_exponent_def Let_def intro: moves_step moves_two)

lemma lex_decimal_moves:
  assumes "\<not> lex_end l" "is_digit (lex_peek l)"
  shows "moves (adv l) (snd (lex_decimal l st))"
proof -
  have "moves (adv l) (advance_while is_dec l)"
    using assms by (intro moves_adv_while) (simp_all add: is_dec_def)
  from moves_trans [OF this moves_trans [OF lex_fraction_moves lex_exponent_moves]]
  show ?thesis by (simp add: lex_decimal_def Let_def)
qed

lemma int_token_snd [simp]: "snd (int_token l p st b) = l"
  by (simp add: int_token_def Let_def)

lemma lex_number_moves:
  assumes "\<not> lex_end l" "is_digit (lex_peek l)"
  shows "moves (adv l) (snd (lex_number l st))"
  using lex_decimal_moves [OF assms, of st]
  by (auto simp: lex_number_def Let_def lex_end_def intro!: moves_step [of "adv l"])

lemma lex_string_moves: "moves l (snd (lex_string l st))"
  using moves_str_loop [of l sb_init]
  by (cases "str_loop l sb_init") (auto simp: lex_string_def lex_string_buf_def split: option.splits)

lemma lex_char_close_moves [intro!, simp]: "moves l (snd (lex_char_close l st c))"
  by (auto simp: lex_char_close_def)

lemma lex_char_moves: "moves l (snd (lex_char l st))"
  by (auto simp: lex_char_def split: option.split
      intro: moves_step moves_two)

lemma two_char_not_end:
  "map_of two_char_ops [c, lex_peek2 l] = Some k \<Longrightarrow> \<not> lex_end (adv l)"
  by (rule peek2_not_end) (auto simp: two_char_ops_def split: if_splits)

lemma greater_not_end: "lex_peek2 l = CHR ''>'' \<Longrightarrow> \<not> lex_end (adv l)"
  by (rule peek2_not_end) simp

lemma third_not_end: "l_pos l + 2 < length (l_src l) \<Longrightarrow> \<not> lex_end (adv (adv l))"
  by (simp add: lex_end_def)

lemma lex_operator_moves: "\<not> lex_end l \<Longrightarrow> moves (adv l) (snd (lex_operator l st))"
  by (auto simp: lex_operator_def Let_def two_char_not_end greater_not_end third_not_end
      split: option.split intro!: moves_step [of "adv l"] moves_step [of "adv (adv l)"])

lemma lexer_next_moves: "moves (skip_ws l) (snd (lexer_next l))"
  and lexer_next_progress:
    "\<not> lex_end (skip_ws l) \<Longrightarrow> moves (adv (skip_ws l)) (snd (lexer_next l))"
proof -
  show p: "moves (adv (skip_ws l)) (snd (lexer_next l))" if "\<not> lex_end (skip_ws l)"
    using that lex_ident_moves lex_number_moves lex_operator_moves lex_string_moves lex_char_moves
    by (simp add: lexer_next_def Let_def)
  show "moves (skip_ws l) (snd (lexer_next l))"
  proof (cases "lex_end (skip_ws l)")
    case True
    then show ?thesis by (simp add: lexer_next_def Let_def)
  next
    case False
    with p show ?thesis by (blast intro: moves_step)
  qed
qed

lemma keyword_kind_not_special:
  "keyword_kind s \<noteq> TOK_EOF" "keyword_kind s \<noteq> TOK_ERROR"
  by (auto simp: keyword_kind_def kw_table_def split: option.split if_splits)

lemma op_kind_not_special:
  "map_of two_char_ops s = Some k \<Longrightarrow> k \<noteq> TOK_EOF \<and> k \<noteq> TOK_ERROR"
  "map_of one_char_ops c = Some k \<Longrightarrow> k \<noteq> TOK_EOF \<and> k \<noteq> TOK_ERROR"
  by (auto simp: two_char_ops_def one_char_ops_def split: if_splits)

lemma reader_kinds:
  "tk_kind (fst (lex_bytes l st)) \<noteq> TOK_EOF" "tk_kind (fst (lex_string l st)) \<noteq> TOK_EOF"
  "tk_kind (fst (lex_char_close l st c)) \<noteq> TOK_EOF" "tk_kind (fst (int_token l n st b)) = TOK_INT_LIT"
  "tk_kind (fst (lex_decimal l st)) \<in> {TOK_INT_LIT, TOK_FLOAT_LIT}"
  by (auto simp: lex_bytes_def lex_string_def lex_char_close_def int_token_def lex_decimal_def Let_def
      split: prod.split option.split)

lemma lex_ident_kind: "tk_kind (fst (lex_ident l st)) \<noteq> TOK_EOF"
  by (simp add: lex_ident_def Let_def keyword_kind_not_special reader_kinds)

lemma lex_number_kind: "tk_kind (fst (lex_number l st)) \<in> {TOK_INT_LIT, TOK_FLOAT_LIT}"
  using reader_kinds(5) [of l st] by (simp add: lex_number_def Let_def reader_kinds)

lemma lex_number_not_eof: "tk_kind (fst (lex_number l st)) \<noteq> TOK_EOF"
  using lex_number_kind [of l st] by auto

lemma lex_char_kind: "tk_kind (fst (lex_char l st)) \<noteq> TOK_EOF"
  by (simp add: lex_char_def reader_kinds split: option.split)

lemma lex_operator_kind: "tk_kind (fst (lex_operator l st)) \<noteq> TOK_EOF"
  by (auto simp: lex_operator_def Let_def split: option.split dest: op_kind_not_special)

lemma lexer_next_eof_iff: "tk_kind (fst (lexer_next l)) = TOK_EOF \<longleftrightarrow> lex_end (skip_ws l)"
  by (simp add: lexer_next_def Let_def lex_ident_kind lex_char_kind lex_operator_kind reader_kinds
      lex_number_not_eof)

section \<open>The tokens of a file\<close>

text \<open>
  The loop of \<open>main.c\<close>: tokens up to the end of the file, or the first error
  token, on which the compiler exits.
\<close>

function tokenize :: "lexer \<Rightarrow> token + token list" where
  "tokenize l =
     (if tk_kind (fst (lexer_next l)) = TOK_EOF then Inr [fst (lexer_next l)]
      else if tk_kind (fst (lexer_next l)) = TOK_ERROR then Inl (fst (lexer_next l))
      else
        (case tokenize (snd (lexer_next l)) of
           Inl e \<Rightarrow> Inl e
         | Inr ts \<Rightarrow> Inr (fst (lexer_next l) # ts)))"
  by pat_completeness auto

lemma lexer_next_left:
  "tk_kind (fst (lexer_next l)) \<noteq> TOK_EOF \<Longrightarrow> left (snd (lexer_next l)) < left l"
  using moves_left_less [OF lexer_next_progress] moves_left [OF moves_skip_ws, of l]
  by (fastforce simp: lexer_next_eof_iff)

termination tokenize
  by (relation "measure left") (auto intro: lexer_next_left)

declare tokenize.simps [simp del]

end
