(* ===== verification/LexerRead.thy ===== *)
theory LexerRead
  imports LexerStep "HOL-Library.Sublist"
begin

text \<open>
  What each reader of the lexer makes of a known input: identifiers, numbers,
  operators, string literals with their buffer, and comments. These lemmas
  carry the properties of \<open>LexerProps\<close>.
\<close>

section \<open>Consumed text\<close>

lemma moves_split:
  assumes "moves l l'"
  shows "rest l = lex_slice l' (l_pos l) (l_pos l') @ rest l'"
proof -
  from moves_same [OF assms] have s: "l_src l' = l_src l" and p: "l_pos l \<le> l_pos l'" by auto
  have "rest l' = drop (l_pos l' - l_pos l) (rest l)" using s p by (simp add: rest_def)
  moreover have "lex_slice l' (l_pos l) (l_pos l') = take (l_pos l' - l_pos l) (rest l)"
    using s by (simp add: rest_def lex_slice_def)
  ultimately show ?thesis by simp
qed

lemma rest_advance_while [rest_simps]: "rest (advance_while P l) = dropWhile P (rest l)"
proof (induction P l rule: advance_while.induct)
  case (1 P l)
  then show ?case
    by (cases "rest l") (auto simp: advance_while.simps [of P l] rest_simps)
qed

lemma slice_advance_while [rest_simps]:
  "lex_slice (advance_while P l) (l_pos l) (l_pos (advance_while P l)) = takeWhile P (rest l)"
proof -
  have "rest l = lex_slice (advance_while P l) (l_pos l) (l_pos (advance_while P l)) @ dropWhile P (rest l)"
    using moves_split [OF moves_advance_while, of l P] by (simp add: rest_simps)
  then show ?thesis by (metis append_same_eq takeWhile_dropWhile_id)
qed

lemma while_prefix:
  assumes "list_all P x" "\<not> P d"
  shows "takeWhile P (x @ d # r) = x" "dropWhile P (x @ d # r) = d # r"
  using assms by (induction x) auto

section \<open>Operators\<close>

definition operators :: "(string \<times> token_kind) list" where
  "operators =
     [(''>>>'', TOK_URSHIFT), (''>>'', TOK_RSHIFT)] @ two_char_ops @
     map (\<lambda>(c, k). ([c], k)) one_char_ops"

lemma operator_lengths: "list_all (\<lambda>(x, k). length x = 2 \<and> x \<noteq> ''>>'') two_char_ops"
  by (simp add: two_char_ops_def)

lemma two_char_length: "x \<in> fst ` set two_char_ops \<Longrightarrow> length x = 2"
  using operator_lengths by (auto simp: list_all_iff)

lemma operator_names: "list_all (\<lambda>(x, k). token_kind_str k = x) operators"
  by (simp add: operators_def two_char_ops_def one_char_ops_def token_kind_str_def kind_names_def
      map_of_Cons_code del: map_of.simps)

lemma operator_forms:
  assumes "x \<in> fst ` set operators"
  shows "x = ''>>>'' \<or> x = ''>>'' \<or> (length x = 2 \<and> x \<in> fst ` set two_char_ops) \<or> length x = 1"
proof -
  from assms consider "x = ''>>>''" | "x = ''>>''" | "x \<in> fst ` set two_char_ops"
    | c where "x = [c]"
    by (auto simp: operators_def)
  then show ?thesis using operator_lengths by cases (auto simp: list_all_iff)
qed

lemma two_char_in: "map_of two_char_ops x = Some k \<Longrightarrow> (x, k) \<in> set operators"
  by (auto simp: operators_def dest: map_of_SomeD)

lemma one_char_in: "map_of one_char_ops c = Some k \<Longrightarrow> ([c], k) \<in> set operators"
  by (force simp: operators_def dest: map_of_SomeD)

lemma longer_prefix:
  assumes "prefix y xs" "y \<in> fst ` set operators"
  shows "length y \<le> 1 \<or> take 2 xs = ''>>'' \<and> (length y = 3 \<longrightarrow> take 3 xs = ''>>>'') \<and> length y \<le> 3 \<or>
    length y = 2 \<and> take 2 xs \<in> fst ` set two_char_ops"
proof -
  have t: "take n xs = y" if "length y = n" for n using assms(1) that by (auto simp: prefix_def)
  from operator_forms [OF assms(2)] show ?thesis
  proof (elim disjE)
    assume "y = ''>>>''"
    then show ?thesis using t [of 3] assms(1) by (auto simp: prefix_def)
  next
    assume "length y = 2 \<and> y \<in> fst ` set two_char_ops"
    then show ?thesis using t [of 2] by metis
  qed (use t [of 2] in auto)
qed

text \<open>Three characters, two or one: which operator is taken, and why no longer one fits.\<close>

definition op_result :: "lexer \<Rightarrow> token \<times> lexer \<Rightarrow> string \<Rightarrow> bool" where
  "op_result l r x \<longleftrightarrow>
     (x, tk_kind (fst r)) \<in> set operators \<and> tk_text (fst r) = Some x \<and>
     rest l = x @ rest (snd r) \<and>
     (\<forall>y \<in> fst ` set operators. prefix y (rest l) \<longrightarrow> length y \<le> length x)"

lemma lex_operator_longest:
  assumes r: "rest l = c # cs" and k: "tk_kind (fst (lex_operator l st)) \<noteq> TOK_ERROR"
  shows "\<exists>x. op_result l (lex_operator l st) x"
proof (cases "take 2 (rest l) = ''>>''")
  case True
  then obtain ds where ds: "rest l = CHR ''>'' # CHR ''>'' # ds"
    using r by (cases cs) auto
  show ?thesis
  proof (cases "take 3 (rest l) = ''>>>''")
    case True
    then obtain es where "rest l = CHR ''>'' # CHR ''>'' # CHR ''>'' # es" using ds by (cases ds) auto
    then have "op_result l (lex_operator l st) ''>>>''"
      by (auto simp: op_result_def lex_operator_def Let_def third_char third_char' lex_peek_rest
          lex_peek2_rest rest_adv dest!: longer_prefix) (simp_all add: operators_def)
    then show ?thesis ..
  next
    case False
    then have n: "\<not> (case rest l of a # b # c # cs \<Rightarrow> c = CHR ''>'' | _ \<Rightarrow> False)"
      using ds by (cases ds) auto
    have "op_result l (lex_operator l st) ''>>''"
      using ds n False
      by (auto simp: op_result_def lex_operator_def Let_def third_char third_char' lex_peek_rest
          lex_peek2_rest rest_adv
          dest!: longer_prefix) (simp_all add: operators_def)
    then show ?thesis ..
  qed
next
  case no3: False
  define d where "d = lex_peek2 l"
  have gt: "\<not> (lex_peek l = CHR ''>'' \<and> d = CHR ''>'')"
    using no3 r by (auto simp: d_def rest_simps split: list.splits)
  show ?thesis
  proof (cases "map_of two_char_ops [c, d]")
    case (Some k2)
    then have "d \<noteq> CHR 0x00" by (auto simp: two_char_ops_def split: if_splits)
    then obtain ds where ds: "rest l = c # d # ds"
      using r by (auto simp: d_def rest_simps split: list.splits)
    then have "op_result l (lex_operator l st) [c, d]"
      using gt Some no3 two_char_in [OF Some]
      by (auto simp: op_result_def lex_operator_def Let_def d_def [symmetric] lex_peek_rest rest_adv
          dest!: longer_prefix)
    then show ?thesis ..
  next
    case None
    then obtain k1 where k1: "map_of one_char_ops c = Some k1"
      using k gt r by (auto simp: lex_operator_def Let_def d_def lex_peek_rest split: option.splits)
    have "take 2 (rest l) \<notin> fst ` set two_char_ops"
    proof (cases cs)
      case Nil
      then have "length (take 2 (rest l)) = 1" using r by simp
      then show ?thesis using two_char_length [of "take 2 (rest l)"] by linarith
    next
      case (Cons e es)
      then show ?thesis using None r by (simp add: d_def rest_simps map_of_eq_None_iff)
    qed
    then have "\<forall>y \<in> fst ` set operators. prefix y (rest l) \<longrightarrow> length y \<le> 1"
      using longer_prefix no3 by blast
    then have "op_result l (lex_operator l st) [c]"
      using gt None k1 r one_char_in [OF k1]
      by (simp add: op_result_def lex_operator_def Let_def d_def [symmetric] lex_peek_rest rest_adv)
    then show ?thesis ..
  qed
qed

section \<open>White space and comments\<close>

text \<open>Characters at which \<open>skip_ws\<close> stops, given the character after.\<close>

definition starts_token :: "string \<Rightarrow> bool" where
  "starts_token xs =
     (case xs of
        [] \<Rightarrow> True
      | c # cs \<Rightarrow> \<not> is_space c \<and>
          (c = CHR ''/'' \<longrightarrow> (case cs of [] \<Rightarrow> True | d # ds \<Rightarrow> d \<noteq> CHR ''/'' \<and> d \<noteq> CHR ''*'')))"

lemma skip_ws_stop: "starts_token (rest l) \<Longrightarrow> skip_ws l = l"
  by (subst skip_ws.simps) (auto simp: starts_token_def rest_simps is_space_def split: list.splits)

lemma skip_ws_space: "rest l = c # cs \<Longrightarrow> is_space c \<Longrightarrow> skip_ws l = skip_ws (adv l)"
  by (subst skip_ws.simps) (simp add: rest_simps)

lemma skip_ws_stops: "starts_token (rest (skip_ws l))"
proof (induction l rule: skip_ws.induct)
  case (1 l)
  consider "is_space (lex_peek l)"
    | "\<not> is_space (lex_peek l)" "lex_peek l = CHR ''/''" "lex_peek2 l = CHR ''/''"
    | "\<not> is_space (lex_peek l)" "lex_peek l = CHR ''/''" "lex_peek2 l = CHR ''*''"
    | "\<not> is_space (lex_peek l)" "\<not> (lex_peek l = CHR ''/'' \<and> lex_peek2 l = CHR ''/'')"
      "\<not> (lex_peek l = CHR ''/'' \<and> lex_peek2 l = CHR ''*'')"
    by blast
  then show ?case
  proof cases
    case a: 1
    then have "skip_ws l = skip_ws (adv l)" by (subst skip_ws.simps) simp
    with 1(1) [OF a] show ?thesis by simp
  next
    case a: 2
    then have "skip_ws l = skip_ws (advance_while (\<lambda>d. d \<noteq> CHR 0x0A) l)"
      by (subst skip_ws.simps) simp
    with 1(2) a show ?thesis by simp
  next
    case a: 3
    then have "skip_ws l = skip_ws (skip_block 1 (adv (adv l)))" by (subst skip_ws.simps) simp
    with 1(3) a show ?thesis by simp
  next
    case 4
    then show ?thesis
      by (subst skip_ws.simps) (auto simp: starts_token_def rest_simps is_space_def split: list.splits)
  qed
qed

text \<open>A block comment with well-nested comments inside.\<close>

inductive comment_body :: "string \<Rightarrow> bool" where
  body_nil: "comment_body []"
| body_char: "comment_body s \<Longrightarrow> c \<noteq> CHR ''/'' \<Longrightarrow> c \<noteq> CHR ''*'' \<Longrightarrow> comment_body (c # s)"
| body_nest: "comment_body s \<Longrightarrow> comment_body t \<Longrightarrow>
    comment_body (CHR ''/'' # CHR ''*'' # s @ CHR ''*'' # CHR ''/'' # t)"

lemma skip_block_body:
  "comment_body s \<Longrightarrow> rest l = s @ CHR ''*'' # u \<Longrightarrow> 0 < d \<Longrightarrow>
   \<exists>l'. moves l l' \<and> rest l' = CHR ''*'' # u \<and> skip_block d l = skip_block d l'"
proof (induction s arbitrary: l d u rule: comment_body.induct)
  case body_nil
  then show ?case by auto
next
  case (body_char s c)
  from body_char.IH [of "adv l" u d] body_char.prems
  obtain l' where l': "moves (adv l) l'" "rest l' = CHR ''*'' # u" "skip_block d (adv l) = skip_block d l'"
    by (auto simp: rest_simps)
  moreover have "skip_block d l = skip_block d (adv l)"
    using body_char.hyps body_char.prems by (subst skip_block.simps) (auto simp: rest_simps)
  moreover have "\<not> lex_end l" using body_char.prems by (simp add: rest_simps)
  ultimately show ?case by (metis moves_step)
next
  case (body_nest s t)
  let ?v = "CHR ''/'' # t @ CHR ''*'' # u"
  from body_nest.IH(1) [of "adv (adv l)" ?v "Suc d"] body_nest.prems
  obtain l1 where l1: "moves (adv (adv l)) l1" "rest l1 = CHR ''*'' # ?v"
      "skip_block (Suc d) (adv (adv l)) = skip_block (Suc d) l1"
    by (auto simp: rest_simps)
  from body_nest.IH(2) [of "adv (adv l1)" u d] body_nest.prems l1(2)
  obtain l2 where l2: "moves (adv (adv l1)) l2" "rest l2 = CHR ''*'' # u"
      "skip_block d (adv (adv l1)) = skip_block d l2"
    by (auto simp: rest_simps)
  have "skip_block d l = skip_block (Suc d) (adv (adv l))"
    using body_nest.prems by (subst skip_block.simps) (simp add: rest_simps)
  moreover have "skip_block (Suc d) l1 = skip_block d (adv (adv l1))"
    using l1(2) by (subst skip_block.simps) (simp add: rest_simps)
  moreover have "moves l l2"
  proof (rule moves_two [OF _ moves_trans [OF l1(1)]])
    show "moves l1 l2" using l1(2) by (intro moves_two [OF _ l2(1)]) (simp add: rest_simps)
  qed (use body_nest.prems in \<open>simp add: rest_simps\<close>)
  ultimately show ?case using l1(3) l2(2,3) by metis
qed

section \<open>String literals\<close>

text \<open>
  The buffer invariant: no write has been out of bounds, and there is room for
  the byte a push writes and for the final NUL.
\<close>

definition sb_ok :: "strbuf \<Rightarrow> bool" where
  "sb_ok b \<longleftrightarrow> \<not> sb_oob b \<and> length (sb_buf b) < sb_cap b"

lemma sb_ok_init: "sb_ok sb_init"
  by (simp add: sb_ok_def sb_init_def)

lemma sb_ok_push: "sb_ok b \<Longrightarrow> 2 \<le> sb_cap b \<Longrightarrow> sb_ok (sb_push c b) \<and> 2 \<le> sb_cap (sb_push c b)"
  by (auto simp: sb_ok_def sb_push_def sb_grow_def sb_put_def)

lemma sb_push_buf [simp]: "sb_buf (sb_push c b) = sb_buf b @ [c]"
  by (simp add: sb_push_def sb_grow_def sb_put_def)

lemma sb_push_small:
  "length (sb_buf b) + 1 < sb_cap b \<Longrightarrow> \<not> sb_oob b \<Longrightarrow> sb_push c b = b\<lparr>sb_buf := sb_buf b @ [c]\<rparr>"
  by (simp add: sb_push_def sb_grow_def sb_put_def)

lemma sb_oob_mono: "sb_oob b \<Longrightarrow> sb_oob (sb_push c b)" "sb_oob b \<Longrightarrow> sb_oob (sb_put c b)"
  by (simp_all add: sb_push_def sb_grow_def sb_put_def)

lemma sb_oob_nested: "sb_oob b \<Longrightarrow> sb_oob (snd (str_nested l b))"
proof (induction l b rule: str_nested.induct)
  case (1 l b)
  then show ?case by (subst str_nested.simps) (simp add: sb_oob_mono)
qed

lemma sb_oob_interp: "sb_oob b \<Longrightarrow> sb_oob (snd (str_interp d l b))"
proof (induction d l b rule: str_interp.induct)
  case (1 d l b)
  then show ?case by (subst str_interp.simps) (simp add: sb_oob_mono sb_oob_nested)
qed

lemma sb_oob_loop: "sb_oob b \<Longrightarrow> sb_oob (snd (snd (str_loop l b)))"
proof (induction l b rule: str_loop.induct)
  case (1 l b)
  then show ?case
    by (subst str_loop.simps) (simp add: sb_oob_mono sb_oob_interp Let_def split: sum.split)
qed

text \<open>Without an interpolation every write of the loop is checked.\<close>

lemma str_loop_ok:
  "CHR ''$'' \<notin> set (rest l) \<Longrightarrow> sb_ok b \<Longrightarrow> 2 \<le> sb_cap b \<Longrightarrow> sb_ok (snd (snd (str_loop l b)))"
proof (induction l b rule: str_loop.induct)
  case (1 l b)
  show ?case
  proof (cases "rest l")
    case Nil
    then show ?thesis using 1(5) by (subst str_loop.simps) (simp add: rest_simps)
  next
    case (Cons c cs)
    then have c: "getc l = c" "c \<noteq> CHR ''$''" "rest (adv l) = cs" "CHR ''$'' \<notin> set cs"
      using 1(4) by (auto simp: rest_simps)
    have cs: "CHR ''$'' \<notin> set (rest (adv (adv l)))"
      using c(3,4) by (cases cs) (auto simp: rest_simps)
    show ?thesis
      using 1(2,3,5,6) c cs Cons sb_ok_push [OF 1(5,6)]
      by (subst str_loop.simps) (simp add: lex_end_rest split: sum.split)
  qed
qed

text \<open>A string written with the escapes of the language.\<close>

definition str_esc :: "char \<Rightarrow> string" where
  "str_esc c =
     (if c = CHR 0x0A then [CHR 0x5C, CHR ''n'']
      else if c = CHR 0x09 then [CHR 0x5C, CHR ''t'']
      else if c = CHR 0x0D then [CHR 0x5C, CHR ''r'']
      else if c = CHR 0x5C then [CHR 0x5C, CHR 0x5C]
      else if c = CHR 0x22 then [CHR 0x5C, CHR 0x22]
      else [c])"

fun no_interp :: "string \<Rightarrow> bool" where
  "no_interp (a # b # s) = (\<not> (a = CHR ''$'' \<and> b = CHR 0x7B) \<and> no_interp (b # s))"
| "no_interp _ = True"

lemma str_esc_head: "str_esc c = CHR 0x7B # xs \<Longrightarrow> c = CHR 0x7B"
  by (auto simp: str_esc_def split: if_splits)

lemma str_esc_not_Nil [simp]: "str_esc c \<noteq> []"
  by (simp add: str_esc_def)

text \<open>One written character is read back; \<open>u\<close> must not make it an interpolation.\<close>

lemma str_loop_esc:
  assumes "rest l = str_esc c @ u" "c = CHR ''$'' \<Longrightarrow> hd u \<noteq> CHR 0x7B"
  shows "\<exists>l'. rest l' = u \<and> str_loop l b = str_loop l' (sb_push c b)"
proof (cases "str_esc c = [c]")
  case True
  then have "c \<noteq> CHR 0x22" "c \<noteq> CHR 0x5C" by (auto simp: str_esc_def split: if_splits)
  moreover have "\<not> (c = CHR ''$'' \<and> \<not> lex_end (adv l) \<and> lex_peek (adv l) = CHR 0x7B)"
    using assms True by (cases u) (auto simp: rest_simps)
  ultimately have "str_loop l b = str_loop (adv l) (sb_push c b)"
    using assms(1) True by (subst str_loop.simps) (auto simp: rest_simps)
  then show ?thesis using assms(1) True by (intro exI [of _ "adv l"]) (simp add: rest_simps)
next
  case False
  then obtain e where e: "str_esc c = [CHR 0x5C, e]" "str_escape e = Inr c"
    by (auto simp: str_esc_def str_escape_def split: if_splits)
  then have "getc l = CHR 0x5C" "getc (adv l) = e" "\<not> lex_end l" "\<not> lex_end (adv l)"
    "rest (adv (adv l)) = u"
    using assms(1) getc_rest [of "adv l" e u] getc_rest [of l] by (simp_all add: rest_simps)
  then have "str_loop l b = str_loop (adv (adv l)) (sb_push c b)"
    using e(2) by (subst str_loop.simps) simp
  then show ?thesis using \<open>rest (adv (adv l)) = u\<close> by blast
qed

lemma str_loop_escs:
  "rest l = concat (map str_esc s) @ CHR 0x22 # u \<Longrightarrow> no_interp s \<Longrightarrow>
   \<exists>l' b'. rest l' = u \<and> sb_buf b' = sb_buf b @ s \<and> str_loop l b = (None, l', b')"
proof (induction s arbitrary: l b)
  case Nil
  then have "str_loop l b = (None, adv l, b)" by (subst str_loop.simps) (simp add: rest_simps)
  with Nil show ?case by (intro exI [of _ "adv l"] exI [of _ b]) (simp add: rest_simps)
next
  case (Cons c s)
  let ?v = "concat (map str_esc s) @ CHR 0x22 # u"
  have "hd ?v \<noteq> CHR 0x7B" if "c = CHR ''$''"
  proof (cases s)
    case (Cons d ds)
    then have "d \<noteq> CHR 0x7B" using that Cons.prems(2) by simp
    then have "hd (str_esc d) \<noteq> CHR 0x7B" by (auto simp: str_esc_def)
    then show ?thesis using Cons by simp
  qed simp
  then obtain l1 where l1: "rest l1 = ?v" "str_loop l b = str_loop l1 (sb_push c b)"
    using str_loop_esc [of l c ?v b] Cons.prems(1) by auto
  have "no_interp s" using Cons.prems(2) by (cases s) auto
  from Cons.IH [OF l1(1) this, of "sb_push c b"] l1(2) show ?case by auto
qed

text \<open>Characters that stand for themselves, as long as the buffer need not grow.\<close>

definition plain_char :: "char \<Rightarrow> bool" where
  "plain_char c \<longleftrightarrow> c \<noteq> CHR 0x22 \<and> c \<noteq> CHR ''$'' \<and> c \<noteq> CHR 0x5C"

lemma str_loop_plain:
  "rest l = s @ u \<Longrightarrow> list_all plain_char s \<Longrightarrow> length (sb_buf b) + length s < sb_cap b \<Longrightarrow>
   \<not> sb_oob b \<Longrightarrow>
   \<exists>l'. rest l' = u \<and> str_loop l b = str_loop l' (b\<lparr>sb_buf := sb_buf b @ s\<rparr>)"
proof (induction s arbitrary: l b)
  case Nil
  then show ?case by auto
next
  case (Cons c s)
  let ?b = "b\<lparr>sb_buf := sb_buf b @ [c]\<rparr>"
  have "str_loop l b = str_loop (adv l) (sb_push c b)"
    using Cons.prems(1,2) by (subst str_loop.simps) (simp add: rest_simps plain_char_def)
  also have "sb_push c b = ?b" using Cons.prems(3,4) by (intro sb_push_small) simp_all
  finally have "str_loop l b = str_loop (adv l) ?b" .
  with Cons.IH [of "adv l" ?b] Cons.prems show ?case by (auto simp: rest_simps)
qed

end
