(* ===== verification/LexerProps.thy ===== *)
theory LexerProps
  imports LexerRead
begin

text \<open>
  The properties of the lexer: printing a token list and reading it back,
  source positions, progress to the end of the file, longest match, the values
  of integer literals, and the bounds of the buffer of a string literal.
\<close>

section \<open>Readers on known input\<close>

lemma lexer_next_end: "lex_end (skip_ws l) \<Longrightarrow> tk_kind (fst (lexer_next l)) = TOK_EOF \<and>
    tk_text (fst (lexer_next l)) = None \<and> snd (lexer_next l) = skip_ws l"
  by (simp add: lexer_next_def Let_def)

lemma lexer_next_skip: "skip_ws l = skip_ws m \<Longrightarrow> lexer_next l = lexer_next m"
  by (simp add: lexer_next_def Let_def)

lemma reader_pos [simp]:
  "tk_pos (fst (lex_bytes l st)) = st" "tk_pos (fst (lex_ident l st)) = st"
  "tk_pos (fst (lex_string l st)) = st" "tk_pos (fst (lex_char_close l st c)) = st"
  "tk_pos (fst (int_token l n st b)) = st" "tk_pos (fst (lex_decimal l st)) = st"
  by (auto simp: lex_bytes_def lex_ident_def lex_string_def lex_char_close_def int_token_def
      lex_decimal_def Let_def split: prod.split option.split)

lemma reader_pos' [simp]:
  "tk_pos (fst (lex_char l st)) = st" "tk_pos (fst (lex_number l st)) = st"
  "tk_pos (fst (lex_operator l st)) = st"
  by (auto simp: lex_char_def lex_number_def lex_operator_def Let_def split: option.split)

lemma lexer_next_pos:
  "tk_pos (fst (lexer_next l)) =
     \<lparr>p_line = l_line (skip_ws l), p_col = l_col (skip_ws l), p_file = l_filename (skip_ws l)\<rparr>"
  by (simp add: lexer_next_def Let_def)

text \<open>What a character can begin.\<close>

lemma char_classes:
  "is_ident_start c \<Longrightarrow> \<not> is_space c" "is_digit c \<Longrightarrow> \<not> is_space c" "is_ident_start c \<Longrightarrow> \<not> is_digit c"
  "is_ident_start c \<Longrightarrow> c \<noteq> CHR ''/''" "is_digit c \<Longrightarrow> c \<noteq> CHR ''/''" "is_digit c \<Longrightarrow> is_ident_char c"
  by (auto simp: is_ident_start_def is_digit_def is_space_def is_ident_char_def cbyte_def)

lemma quote_class: "\<not> is_ident_start (CHR 0x22)" "\<not> is_digit (CHR 0x22)" "\<not> is_space (CHR 0x22)"
  by (auto simp: is_ident_start_def is_digit_def is_space_def cbyte_def)

lemma lex_ident_text:
  assumes r: "rest l = x @ d # r" and x: "list_all is_ident_char x" and d: "\<not> is_ident_char d" "d \<noteq> CHR 0x22"
  shows "\<exists>l'. rest l' = d # r \<and>
    lex_ident l st = (make_token (if x = ''_'' then TOK_UNDERSCORE else keyword_kind x) st (Some x), l')"
  using while_prefix [OF x d(1), of r] r d(2)
  by (intro exI [of _ "advance_while is_ident_char l"]) (auto simp: lex_ident_def Let_def rest_simps)

lemma not_ident_char:
  assumes "\<not> is_ident_char d"
  shows "\<not> is_dec d" "\<not> is_digit d" "d \<notin> {CHR ''e'', CHR ''E'', CHR ''x'', CHR ''X'', CHR ''b'', CHR ''B'',
    CHR ''o'', CHR ''O'', CHR ''_''}" "\<not> is_hex d"
  using assms by (auto simp: is_dec_def is_hex_def is_digit_def is_ident_char_def is_ident_start_def
      cbyte_def digit_val_def Let_def split: if_splits)

lemma digit_not_prefix:
  "is_digit c \<Longrightarrow> c \<notin> {CHR ''x'', CHR ''X'', CHR ''b'', CHR ''B'', CHR ''o'', CHR ''O''}"
  by (auto simp: is_digit_def cbyte_def)

lemma lex_number_text:
  assumes r: "rest l = x @ d # r" and x: "x \<noteq> []" "list_all is_digit x"
    and d: "\<not> is_ident_char d" "d \<noteq> CHR ''.''"
  shows "\<exists>l'. rest l' = d # r \<and> lex_number l st =
    ((make_token TOK_INT_LIT st (Some x))\<lparr>tk_int := strtoll (take 255 x) 10\<rparr>, l')"
proof -
  note nd = not_ident_char [OF d(1)]
  have xd: "list_all is_dec x" using x(2) by (simp add: list_all_iff is_dec_def)
  let ?l = "advance_while is_dec l"
  have rl: "rest ?l = d # r" using while_prefix [OF xd nd(1)] r by (simp add: rest_simps)
  have "lex_fraction ?l = (False, ?l)" "lex_exponent ?l = (False, ?l)"
    using rl d(2) nd(3) by (simp_all add: lex_fraction_def lex_exponent_def rest_simps)
  moreover have "lex_slice ?l (l_pos l) (l_pos ?l) = x"
    using slice_advance_while [of is_dec l] while_prefix [OF xd nd(1)] r by simp
  moreover have "clean_digits x = take 255 x"
  proof -
    have "\<forall>c \<in> set x. c \<noteq> CHR ''_''" using x(2) by (auto simp: list_all_iff is_digit_def cbyte_def)
    then show ?thesis by (simp add: clean_digits_def)
  qed
  ultimately have dec: "lex_decimal l st =
      ((make_token TOK_INT_LIT st (Some x))\<lparr>tk_int := strtoll (take 255 x) 10\<rparr>, ?l)"
    by (simp add: lex_decimal_def Let_def)
  obtain a y where y: "x = a # y" using x(1) by (cases x) auto
  have "lex_peek2 l \<notin> {CHR ''x'', CHR ''X'', CHR ''b'', CHR ''B'', CHR ''o'', CHR ''O''}"
    using r y x(2) nd(3) digit_not_prefix by (cases y) (auto simp: rest_simps)
  then have "lex_number l st = lex_decimal l st" by (simp add: lex_number_def Let_def)
  with dec rl show ?thesis by auto
qed

section \<open>Printing and reading\<close>

definition tok_text :: "token_kind \<times> string \<Rightarrow> string" where
  "tok_text = (\<lambda>(k, x). if k = TOK_STR_LIT then CHR 0x22 # concat (map str_esc x) @ [CHR 0x22] else x)"

definition tok_print :: "(token_kind \<times> string) list \<Rightarrow> string" where
  "tok_print ts = concat (map (\<lambda>t. tok_text t @ [CHR 0x20]) ts)"

text \<open>
  The tokens with a written form: names and keywords, decimal integers,
  operators, and strings without an interpolation.
\<close>

definition printable :: "token_kind \<times> string \<Rightarrow> bool" where
  "printable = (\<lambda>(k, x).
     x \<noteq> [] \<and> is_ident_start (hd x) \<and> list_all is_ident_char x \<and>
       k = (if x = ''_'' then TOK_UNDERSCORE else keyword_kind x) \<or>
     k = TOK_INT_LIT \<and> x \<noteq> [] \<and> list_all is_digit x \<or>
     (x, k) \<in> set operators \<or>
     k = TOK_STR_LIT \<and> no_interp x)"

lemma operator_shape:
  "list_all (\<lambda>(x, k). x \<noteq> [] \<and> \<not> is_ident_start (hd x) \<and> \<not> is_digit (hd x) \<and> \<not> is_space (hd x) \<and>
     hd x \<noteq> CHR 0x22 \<and> hd x \<noteq> CHR 0x27 \<and> CHR 0x20 \<notin> set x \<and>
     (hd x = CHR ''/'' \<longrightarrow> tl x = [] \<or> tl x = ''='') \<and> k \<noteq> TOK_STR_LIT) operators"
  by (simp add: operators_def two_char_ops_def one_char_ops_def is_ident_start_def is_digit_def
      is_space_def cbyte_def)

lemma operator_keys: "distinct (map fst operators)"
  by (simp add: operators_def two_char_ops_def one_char_ops_def)

lemma operator_kind_unique: "(x, k) \<in> set operators \<Longrightarrow> (x, k') \<in> set operators \<Longrightarrow> k' = k"
  using operator_keys by (metis map_of_is_SomeI option.inject)

lemma operator_no_error:
  assumes "(x, k) \<in> set operators" "rest l = x @ u"
  shows "tk_kind (fst (lex_operator l st)) \<noteq> TOK_ERROR"
proof -
  from assms(1) consider "x = ''>>>''" | "x = ''>>''" | "(x, k) \<in> set two_char_ops"
    | c where "x = [c]" "(c, k) \<in> set one_char_ops"
    by (auto simp: operators_def)
  then show ?thesis
  proof cases
    case 3
    then have "x \<in> fst ` set two_char_ops" by force
    then have "length x = 2" "map_of two_char_ops x \<noteq> None"
      by (simp_all add: two_char_length map_of_eq_None_iff)
    then obtain a b where "x = [a, b]" "map_of two_char_ops [a, b] \<noteq> None"
      by (auto simp: numeral_2_eq_2 length_Suc_conv)
    with assms(2) show ?thesis
      by (auto simp: lex_operator_def Let_def rest_simps dest: op_kind_not_special)
  next
    case 4
    then have "c \<in> fst ` set one_char_ops" by force
    then have "map_of one_char_ops c \<noteq> None" by (simp add: map_of_eq_None_iff)
    with 4(1) assms(2) show ?thesis
      by (auto simp: lex_operator_def Let_def lex_peek_rest split: option.split dest: op_kind_not_special)
  qed (use assms(2) in \<open>simp_all add: lex_operator_def Let_def rest_simps\<close>)
qed

lemma next_operator:
  assumes op: "(x, k) \<in> set operators" and r: "rest l = x @ CHR 0x20 # u"
  shows "tk_kind (fst (lexer_next l)) = k \<and> tk_text (fst (lexer_next l)) = Some x \<and>
    rest (snd (lexer_next l)) = CHR 0x20 # u"
proof -
  have shape: "x \<noteq> []" "\<not> is_ident_start (hd x)" "\<not> is_digit (hd x)" "\<not> is_space (hd x)"
    "hd x \<noteq> CHR 0x22" "hd x \<noteq> CHR 0x27" "hd x = CHR ''/'' \<longrightarrow> tl x = [] \<or> tl x = ''=''"
    using operator_shape op by (auto simp: list_all_iff)
  then obtain c y where x: "x = c # y" by (cases x) auto
  then have "starts_token (rest l)"
    using shape r by (auto simp: starts_token_def split: list.split)
  then have sk: "skip_ws l = l" by (rule skip_ws_stop)
  let ?st = "\<lparr>p_line = l_line l, p_col = l_col l, p_file = l_filename l\<rparr>"
  have nx: "lexer_next l = lex_operator l ?st"
    using shape x r by (simp add: lexer_next_def Let_def sk rest_simps)
  obtain z where z: "op_result l (lex_operator l ?st) z"
    using lex_operator_longest [of l c "y @ CHR 0x20 # u"] r x operator_no_error [OF op r] by auto
  have zop: "(z, tk_kind (fst (lex_operator l ?st))) \<in> set operators"
    and zr: "rest l = z @ rest (snd (lex_operator l ?st))" and zt: "tk_text (fst (lex_operator l ?st)) = Some z"
    using z by (simp_all add: op_result_def)
  have "x \<in> fst ` set operators" "prefix x (rest l)" using op r by (force, simp)
  then have zl: "length x \<le> length z" using z unfolding op_result_def by blast
  have "CHR 0x20 \<notin> set z" using operator_shape zop by (auto simp: list_all_iff)
  moreover have "x @ CHR 0x20 # u = z @ rest (snd (lex_operator l ?st))" using zr r by simp
  ultimately have "z = x" using zl by (auto simp: append_eq_append_conv2 Cons_eq_append_conv)
  with zop zr zt op r nx operator_kind_unique show ?thesis by auto
qed

lemma next_printable:
  assumes p: "printable (k, x)" and r: "rest l = tok_text (k, x) @ CHR 0x20 # u"
  shows "tk_kind (fst (lexer_next l)) = k \<and> tk_text (fst (lexer_next l)) = Some x \<and>
    rest (snd (lexer_next l)) = CHR 0x20 # u"
proof -
  let ?st = "\<lparr>p_line = l_line l, p_col = l_col l, p_file = l_filename l\<rparr>"
  have sp: "\<not> is_ident_char (CHR 0x20)"
    by (simp add: is_ident_char_def is_ident_start_def cbyte_def)
  consider (name) "x \<noteq> []" "is_ident_start (hd x)" "list_all is_ident_char x"
      "k = (if x = ''_'' then TOK_UNDERSCORE else keyword_kind x)"
    | (int) "k = TOK_INT_LIT" "x \<noteq> []" "list_all is_digit x"
    | (op) "(x, k) \<in> set operators"
    | (str) "k = TOK_STR_LIT" "no_interp x"
    using p by (auto simp: printable_def)
  then show ?thesis
  proof cases
    case name
    then have k: "k \<noteq> TOK_STR_LIT"
      by (auto simp: keyword_kind_def kw_table_def split: option.split if_splits)
    with r have r': "rest l = x @ CHR 0x20 # u" by (simp add: tok_text_def)
    obtain c y where x: "x = c # y" "is_ident_start c" using name by (cases x) auto
    then have sk: "skip_ws l = l"
      using r' char_classes by (intro skip_ws_stop) (auto simp: starts_token_def)
    have "lexer_next l = lex_ident l ?st"
      using x r' by (simp add: lexer_next_def Let_def sk rest_simps)
    with lex_ident_text [OF r' name(3) sp, of ?st] name(4) show ?thesis by auto
  next
    case int
    with r have r': "rest l = x @ CHR 0x20 # u" by (simp add: tok_text_def)
    obtain c y where x: "x = c # y" "is_digit c" using int by (cases x) auto
    then have sk: "skip_ws l = l"
      using r' char_classes by (intro skip_ws_stop) (auto simp: starts_token_def)
    have "lexer_next l = lex_number l ?st"
      using x r' char_classes(3) [of c] by (simp add: lexer_next_def Let_def sk rest_simps) blast
    with lex_number_text [OF r' int(2,3) sp, of ?st] int(1) show ?thesis by auto
  next
    case op
    then have "k \<noteq> TOK_STR_LIT" using operator_shape by (auto simp: list_all_iff)
    with next_operator [OF op] r show ?thesis by (simp add: tok_text_def)
  next
    case str
    with r have r': "rest l = CHR 0x22 # concat (map str_esc x) @ CHR 0x22 # CHR 0x20 # u"
      by (simp add: tok_text_def)
    then have sk: "skip_ws l = l"
      using quote_class by (intro skip_ws_stop) (auto simp: starts_token_def)
    have "rest (adv l) = concat (map str_esc x) @ CHR 0x22 # CHR 0x20 # u"
      using r' by (simp add: rest_simps)
    from str_loop_escs [OF this str(2), of sb_init]
    obtain l' b' where "rest l' = CHR 0x20 # u" "sb_buf b' = x" "str_loop (adv l) sb_init = (None, l', b')"
      by (auto simp: sb_init_def)
    moreover have "lexer_next l = lex_string (adv l) ?st"
      using r' quote_class by (simp add: lexer_next_def Let_def sk rest_simps)
    ultimately show ?thesis using str(1) by (simp add: lex_string_def lex_string_buf_def)
  qed
qed

lemma operator_kinds: "list_all (\<lambda>(x, k). k \<noteq> TOK_EOF \<and> k \<noteq> TOK_ERROR) operators"
  by (simp add: operators_def two_char_ops_def one_char_ops_def)

lemma printable_not_special: "printable (k, x) \<Longrightarrow> k \<noteq> TOK_EOF \<and> k \<noteq> TOK_ERROR"
  using keyword_kind_not_special [of x] operator_kinds by (auto simp: printable_def list_all_iff split: if_splits)

text \<open>The tokens of a printed list, from a cursor before it.\<close>

lemma tokenize_printed:
  "skip_ws l = skip_ws m \<Longrightarrow> rest m = tok_print ts \<Longrightarrow> list_all printable ts \<Longrightarrow>
   \<exists>us. tokenize l = Inr us \<and>
     map (\<lambda>t. (tk_kind t, tk_text t)) us = map (\<lambda>(k, x). (k, Some x)) ts @ [(TOK_EOF, None)]"
proof (induction ts arbitrary: l m)
  case Nil
  then have "skip_ws m = m" by (intro skip_ws_stop) (simp add: tok_print_def starts_token_def)
  with Nil have "lex_end (skip_ws l)" by (simp add: lex_end_rest tok_print_def)
  from lexer_next_end [OF this] show ?case by (subst tokenize.simps) simp
next
  case (Cons t ts)
  obtain k x where t: "t = (k, x)" by (cases t)
  note nx = lexer_next_skip [OF Cons.prems(1)]
  have "rest m = tok_text (k, x) @ CHR 0x20 # tok_print ts"
    using Cons.prems(2) t by (simp add: tok_print_def)
  then have n: "tk_kind (fst (lexer_next l)) = k" "tk_text (fst (lexer_next l)) = Some x"
      "rest (snd (lexer_next l)) = CHR 0x20 # tok_print ts"
    using next_printable [of k x m "tok_print ts"] Cons.prems(3) t nx by auto
  have sp: "skip_ws (snd (lexer_next l)) = skip_ws (adv (snd (lexer_next l)))"
    using n(3) by (rule skip_ws_space) (simp add: is_space_def)
  have "rest (adv (snd (lexer_next l))) = tok_print ts" using n(3) by (simp add: rest_adv)
  from Cons.IH [OF sp this] Cons.prems(3) obtain us where us:
    "tokenize (snd (lexer_next l)) = Inr us"
    "map (\<lambda>t. (tk_kind t, tk_text t)) us = map (\<lambda>(k, x). (k, Some x)) ts @ [(TOK_EOF, None)]"
    by auto
  have "k \<noteq> TOK_EOF" "k \<noteq> TOK_ERROR" using printable_not_special [of k x] Cons.prems(3) t by auto
  with n us t show ?case by (subst tokenize.simps) simp
qed



section \<open>Positions and progress\<close>

text \<open>
  C11. Source positions are right: from a cursor whose line and column count
  the newlines before it, the next token is stamped with the line, column and
  file of its first character, which lies between the cursor and the new
  cursor, and the new cursor counts the newlines before it too and is inside
  the source.
\<close>

theorem lexer_positions:
  assumes "lexer_ok l"
  shows "lexer_ok (snd (lexer_next l)) \<and> l_src (snd (lexer_next l)) = l_src l \<and>
    tk_pos (fst (lexer_next l)) =
      \<lparr>p_line = line_of (l_src l) (l_pos (skip_ws l)), p_col = col_of (l_src l) (l_pos (skip_ws l)),
       p_file = l_filename l\<rparr> \<and>
    starts_token (drop (l_pos (skip_ws l)) (l_src l)) \<and>
    l_pos l \<le> l_pos (skip_ws l) \<and> l_pos (skip_ws l) \<le> l_pos (snd (lexer_next l)) \<and>
    l_pos (snd (lexer_next l)) \<le> length (l_src l)"
proof -
  note a = moves_same [OF moves_skip_ws, of l] and b = moves_same [OF lexer_next_moves, of l]
  have "lexer_ok (skip_ws l)" "lexer_ok (snd (lexer_next l))"
    using moves_ok [OF moves_skip_ws assms] moves_ok [OF lexer_next_moves] by auto
  with a b skip_ws_stops [of l] show ?thesis
    by (simp add: lexer_ok_def lexer_next_pos rest_def)
qed

lemma lexer_positions_witness:
  "lexer_ok (snd (lexer_next (lexer_init [CHR 0x0A, CHR 0x20, CHR ''x''] [])))"
  using lexer_positions [OF lexer_ok_init] by blast

text \<open>
  The tokenizer loop ends on every source: with the tokens up to the end
  of the file, none of them an error and at most one per byte, or with an error
  token.
\<close>

lemma tokenize_complete:
  "case tokenize l of
     Inl e \<Rightarrow> tk_kind e = TOK_ERROR
   | Inr ts \<Rightarrow> length ts \<le> Suc (left l) \<and>
       (\<exists>us t. ts = us @ [t] \<and> tk_kind t = TOK_EOF \<and>
          list_all (\<lambda>u. tk_kind u \<noteq> TOK_EOF \<and> tk_kind u \<noteq> TOK_ERROR) us)"
proof (induction l rule: tokenize.induct)
  case (1 l)
  let ?t = "fst (lexer_next l)" and ?m = "snd (lexer_next l)"
  consider "tk_kind ?t = TOK_EOF" | "tk_kind ?t = TOK_ERROR"
    | "tk_kind ?t \<noteq> TOK_EOF" "tk_kind ?t \<noteq> TOK_ERROR" by blast
  then show ?case
  proof cases
    case 1
    then have "tokenize l = Inr ([] @ [?t])" by (subst tokenize.simps) simp
    with 1 show ?thesis by fastforce
  next
    case 2
    then have "tokenize l = Inl ?t" by (subst tokenize.simps) simp
    with 2 show ?thesis by simp
  next
    case 3
    then have e: "tokenize l = (case tokenize ?m of Inl e \<Rightarrow> Inl e | Inr ts \<Rightarrow> Inr (?t # ts))"
      by (subst tokenize.simps) simp
    have ih: "case tokenize ?m of Inl e \<Rightarrow> tk_kind e = TOK_ERROR
      | Inr ts \<Rightarrow> length ts \<le> Suc (left ?m) \<and> (\<exists>us t. ts = us @ [t] \<and> tk_kind t = TOK_EOF \<and>
          list_all (\<lambda>u. tk_kind u \<noteq> TOK_EOF \<and> tk_kind u \<noteq> TOK_ERROR) us)"
      using 1 3 by simp
    show ?thesis
    proof (cases "tokenize ?m")
      case (Inl e')
      with ih e show ?thesis by simp
    next
      case (Inr ts)
      with ih obtain us t where us: "ts = us @ [t]" "tk_kind t = TOK_EOF"
        "list_all (\<lambda>u. tk_kind u \<noteq> TOK_EOF \<and> tk_kind u \<noteq> TOK_ERROR) us" "length ts \<le> Suc (left ?m)"
        by auto
      have e2: "tokenize l = Inr ((?t # us) @ [t])" using e Inr us(1) by simp
      have len: "length ((?t # us) @ [t]) \<le> Suc (left l)"
        using us(1,4) lexer_next_left [OF 3(1)] by simp
      have "list_all (\<lambda>u. tk_kind u \<noteq> TOK_EOF \<and> tk_kind u \<noteq> TOK_ERROR) (?t # us)"
        using us(3) 3 by simp
      then have "\<exists>vs v. (?t # us) @ [t] = vs @ [v] \<and> tk_kind v = TOK_EOF \<and>
          list_all (\<lambda>u. tk_kind u \<noteq> TOK_EOF \<and> tk_kind u \<noteq> TOK_ERROR) vs"
        using us(2) by blast
      with len show ?thesis by (simp only: e2 sum.case simp_thms)
    qed
  qed
qed

section \<open>Lexemes\<close>

text \<open>
  Operators are read by longest match: when the token at the cursor is an
  operator, its text is an operator of the language, it is what was consumed,
  it is the name of its kind, and no longer operator fits the input.
\<close>

lemma operator_longest_match:
  assumes "rest l = c # cs" "tk_kind (fst (lex_operator l st)) \<noteq> TOK_ERROR"
  shows "\<exists>x. tk_text (fst (lex_operator l st)) = Some x \<and>
    token_kind_str (tk_kind (fst (lex_operator l st))) = x \<and>
    rest l = x @ rest (snd (lex_operator l st)) \<and> x \<in> fst ` set operators \<and>
    (\<forall>y \<in> fst ` set operators. prefix y (rest l) \<longrightarrow> length y \<le> length x)"
proof -
  obtain x where x: "op_result l (lex_operator l st) x"
    using lex_operator_longest [OF assms] by blast
  then have "(x, tk_kind (fst (lex_operator l st))) \<in> set operators" by (simp add: op_result_def)
  then have "x \<in> fst ` set operators" "token_kind_str (tk_kind (fst (lex_operator l st))) = x"
    using operator_names by (force, auto simp: list_all_iff)
  with x show ?thesis unfolding op_result_def by blast
qed

lemma operator_longest_match_witness:
  "\<exists>x. tk_text (fst (lex_operator (lexer_init ''>>=1'' []) \<lparr>p_line = 1, p_col = 1, p_file = []\<rparr>)) = Some x \<and>
    rest (lexer_init ''>>=1'' []) = x @ rest (snd (lex_operator (lexer_init ''>>=1'' []) \<lparr>p_line = 1, p_col = 1, p_file = []\<rparr>))"
proof -
  have "rest (lexer_init ''>>=1'' []) = CHR ''>'' # ''>=1''" by (simp add: rest_def lexer_init_def)
  moreover have "tk_kind (fst (lex_operator (lexer_init ''>>=1'' []) \<lparr>p_line = 1, p_col = 1, p_file = []\<rparr>)) \<noteq> TOK_ERROR"
    by (simp add: lex_operator_def lexer_init_def lex_peek_def lex_peek2_def Let_def)
  ultimately show ?thesis using operator_longest_match by blast
qed

lemma slice_moves: "moves l m \<Longrightarrow> rest l = lex_slice m (l_pos l) (l_pos m) @ rest m"
  by (rule moves_split)

text \<open>
  The text of a name, a keyword, a number or an operator is exactly the
  part of the source it was read from, and it is not empty.
\<close>

lemma lexeme_is_consumed:
  assumes "tk_kind (fst (lexer_next l)) \<notin> {TOK_EOF, TOK_ERROR, TOK_STR_LIT, TOK_CHAR_LIT, TOK_BYTES_LIT}"
  shows "\<exists>x. x \<noteq> [] \<and> tk_text (fst (lexer_next l)) = Some x \<and>
    rest (skip_ws l) = x @ rest (snd (lexer_next l))"
proof -
  let ?m = "skip_ws l"
  let ?st = "\<lparr>p_line = l_line ?m, p_col = l_col ?m, p_file = l_filename ?m\<rparr>"
  have ne: "\<not> lex_end ?m" using assms lexer_next_eof_iff [of l] by auto
  then have "length (rest (snd (lexer_next l))) < length (rest ?m)"
    using moves_left_less [OF lexer_next_progress [OF ne] ne] by (simp add: left_def rest_def)
  then have nonempty: "rest ?m = x @ rest (snd (lexer_next l)) \<Longrightarrow> x \<noteq> []" for x by auto
  have split: "rest ?m = lex_slice (snd (lexer_next l)) (l_pos ?m) (l_pos (snd (lexer_next l))) @
      rest (snd (lexer_next l))"
    by (rule moves_split [OF lexer_next_moves])
  have char: "tk_kind (fst (lex_char_close k st c)) \<in> {TOK_ERROR, TOK_CHAR_LIT}" for k st c
    by (simp add: lex_char_close_def)
  consider (ident) "is_ident_start (lex_peek ?m)" "lexer_next l = lex_ident ?m ?st"
    | (number) "is_digit (lex_peek ?m)" "lexer_next l = lex_number ?m ?st"
    | (op) "lexer_next l = lex_operator ?m ?st"
    using assms ne char
    by (auto simp: lexer_next_def Let_def lex_string_def lex_char_def split: if_splits prod.splits option.splits)
  then show ?thesis
  proof cases
    case ident
    have "tk_kind (fst (lex_bytes k st)) \<in> {TOK_ERROR, TOK_BYTES_LIT}" for k st
      by (simp add: lex_bytes_def Let_def)
    from this [of "advance_while is_ident_char ?m" ?st]
    have "tk_text (fst (lexer_next l)) =
        Some (lex_slice (snd (lexer_next l)) (l_pos ?m) (l_pos (snd (lexer_next l))))"
      using assms ident(2) by (auto simp: lex_ident_def Let_def split: if_splits)
    with split nonempty show ?thesis by blast
  next
    case number
    have "tk_text (fst (lexer_next l)) =
        Some (lex_slice (snd (lexer_next l)) (l_pos ?m) (l_pos (snd (lexer_next l))))"
      using number(2) by (auto simp: lex_number_def lex_decimal_def int_token_def Let_def)
    with split nonempty show ?thesis by blast
  next
    case op
    obtain c cs where "rest ?m = c # cs" using ne by (cases "rest ?m") (auto simp: lex_end_rest)
    from lex_operator_longest [OF this] op assms obtain x where "op_result ?m (lexer_next l) x" by auto
    with nonempty show ?thesis by (auto simp: op_result_def)
  qed
qed

lemma lexeme_is_consumed_witness:
  "\<exists>x. x \<noteq> [] \<and> tk_text (fst (lexer_next (lexer_init ''if'' []))) = Some x \<and>
     rest (skip_ws (lexer_init ''if'' [])) = x @ rest (snd (lexer_next (lexer_init ''if'' [])))"
proof (rule lexeme_is_consumed)
  let ?l = "lexer_init ''if'' []"
  have r: "rest ?l = ''if''" by (simp add: rest_def lexer_init_def)
  then have "skip_ws ?l = ?l" by (intro skip_ws_stop) (simp add: starts_token_def is_space_def)
  moreover have "dropWhile is_ident_char ''if'' = []" "takeWhile is_ident_char ''if'' = ''if''"
    by (simp_all add: is_ident_char_def is_ident_start_def cbyte_def)
  moreover have "is_ident_start (CHR ''i'')" by (simp add: is_ident_start_def cbyte_def)
  ultimately show "tk_kind (fst (lexer_next ?l)) \<notin>
      {TOK_EOF, TOK_ERROR, TOK_STR_LIT, TOK_CHAR_LIT, TOK_BYTES_LIT}"
    using r by (simp add: lexer_next_def Let_def rest_simps lex_ident_def keyword_kind_def kw_table_def)
qed

section \<open>Integer literals\<close>

text \<open>The numeral of a number in a base.\<close>

fun numeral_of :: "nat \<Rightarrow> nat \<Rightarrow> string" where
  "numeral_of base n =
     (if n < base \<or> base < 2 then [hex_digit n]
      else numeral_of base (n div base) @ [hex_digit (n mod base)])"

declare numeral_of.simps [simp del]

lemma digit_val_hex_digit: "k < 16 \<Longrightarrow> digit_val (hex_digit k) = k"
  by (auto simp: digit_val_def hex_digit_def cbyte_def Let_def of_char_of)

lemma is_digit_hex_digit: "k < 10 \<Longrightarrow> is_digit (hex_digit k)"
  by (auto simp: is_digit_def hex_digit_def cbyte_def of_char_of)

lemma numeral_digits:
  assumes "2 \<le> base" "base \<le> 16"
  shows "\<forall>c \<in> set (numeral_of base n). \<exists>k < base. c = hex_digit k"
  using assms
proof (induction base n rule: numeral_of.induct)
  case (1 base n)
  have "\<exists>k < base. hex_digit (n mod base) = hex_digit k"
    using 1(2) by (intro exI [of _ "n mod base"]) simp
  with 1 show ?case by (subst numeral_of.simps) auto
qed

lemma numeral_value:
  assumes "2 \<le> base" "base \<le> 16"
  shows "foldl (\<lambda>v c. v * base + digit_val c) 0 (numeral_of base n) = n"
  using assms
proof (induction base n rule: numeral_of.induct)
  case (1 base n)
  have "n mod base < 16" by (rule order.strict_trans2 [OF mod_less_divisor]) (use 1(2,3) in simp_all)
  then show ?case using 1 by (subst numeral_of.simps) (auto simp: digit_val_hex_digit)
qed

lemma numeral_length: "2 \<le> base \<Longrightarrow> n < base ^ k \<Longrightarrow> 0 < k \<Longrightarrow> length (numeral_of base n) \<le> k"
proof (induction base n arbitrary: k rule: numeral_of.induct)
  case (1 base n)
  show ?case
  proof (cases "n < base")
    case True
    then show ?thesis using 1(4) by (subst numeral_of.simps) simp
  next
    case False
    then obtain j where j: "k = Suc j" "0 < j"
      using 1(3,4) by (cases k; cases "k - 1") auto
    then have "n div base < base ^ j"
      using 1(3) by (simp add: less_mult_imp_div_less mult.commute)
    with 1(1) [of j] 1(2) False j show ?thesis by (subst numeral_of.simps) simp
  qed
qed

lemma numeral_not_Nil: "numeral_of base n \<noteq> []"
  by (subst numeral_of.simps) simp

lemma digits_value_numeral:
  assumes "2 \<le> base" "base \<le> 16"
  shows "digits_value base (numeral_of base n) = n"
proof -
  have "takeWhile (\<lambda>c. digit_val c < base) (numeral_of base n) = numeral_of base n"
    using numeral_digits [OF assms, of n] assms(2) by (auto simp: takeWhile_eq_all_conv digit_val_hex_digit)
  then show ?thesis by (metis digits_value_def numeral_value [OF assms])
qed

text \<open>How the language writes a number: in decimal, or in hexadecimal after \<open>0x\<close>.\<close>

definition int_text :: "nat \<Rightarrow> nat \<Rightarrow> string" where
  "int_text base n = (if base = 16 then ''0x'' @ numeral_of 16 n else numeral_of 10 n)"

lemma hex_lit:
  assumes "rest l = ''0x'' @ x @ d # r" "list_all is_hex x" "\<not> is_ident_char d"
  shows "\<exists>l'. rest l' = d # r \<and> lex_number l st =
    ((make_token TOK_INT_LIT st (Some (''0x'' @ x)))\<lparr>tk_int := strtoll (''0x'' @ x) 16\<rparr>, l')"
proof -
  let ?m = "adv (adv l)" let ?e = "advance_while is_hex ?m"
  have m: "rest ?m = x @ d # r" using assms(1) by (simp add: rest_simps)
  note w = while_prefix [OF assms(2) not_ident_char(4) [OF assms(3)], of r]
  have "moves l ?e" using assms(1) by (intro moves_two [OF _ moves_advance_while]) (simp add: rest_simps)
  from moves_split [OF this] have "lex_slice ?e (l_pos l) (l_pos ?e) = ''0x'' @ x"
    using assms(1) w m by (simp add: rest_advance_while)
  then show ?thesis
    using assms(1) w m
    by (intro exI [of _ ?e]) (auto simp: lex_number_def Let_def rest_simps int_token_def)
qed

text \<open>
  Integer literals have their value: a number written in decimal or after
  \<open>0x\<close>, followed by a character that cannot continue a literal, is read whole and
  its value is the number, or \<open>LLONG_MAX\<close> when it is out of range.
\<close>

lemma int_literal_value:
  assumes "base = 10 \<or> base = 16" "n < 10 ^ 255"
    and "rest l = int_text base n @ d # r" "\<not> is_ident_char d" "d \<noteq> CHR ''.''"
  shows "tk_kind (fst (lexer_next l)) = TOK_INT_LIT \<and>
    unat (tk_int (fst (lexer_next l))) = min LLONG_MAX n \<and>
    tk_text (fst (lexer_next l)) = Some (int_text base n) \<and> rest (snd (lexer_next l)) = d # r"
proof -
  let ?st = "\<lparr>p_line = l_line l, p_col = l_col l, p_file = l_filename l\<rparr>"
  let ?x = "int_text base n"
  have dig: "list_all is_digit (numeral_of 10 n)"
    using numeral_digits [of 10 n] is_digit_hex_digit by (auto simp: list_all_iff)
  then have first: "?x \<noteq> [] \<and> is_digit (hd ?x)"
    using numeral_not_Nil [of 10 n] by (cases "numeral_of 10 n") (auto simp: int_text_def is_digit_def cbyte_def)
  then obtain c y where c: "?x = c # y" "is_digit c" by (cases ?x) auto
  then have sk: "skip_ws l = l"
    using assms(3) char_classes by (intro skip_ws_stop) (auto simp: starts_token_def)
  have nx: "lexer_next l = lex_number l ?st"
    using c assms(3) char_classes(3) [of c] by (simp add: lexer_next_def Let_def sk rest_simps) blast
  have big: "unat (of_nat (min LLONG_MAX n) :: i64) = min LLONG_MAX n"
    by (simp add: unat_of_nat LLONG_MAX_def take_bit_nat_eq_self_iff min_def)
  show ?thesis
  proof (cases "base = 16")
    case True
    have hex: "list_all is_hex (numeral_of 16 n)"
      using numeral_digits [of 16 n] by (auto simp: list_all_iff is_hex_def digit_val_hex_digit)
    have "strip_0x (''0x'' @ numeral_of 16 n) = numeral_of 16 n"
      using numeral_digits [of 16 n] numeral_not_Nil [of 16 n]
      by (cases "numeral_of 16 n") (auto simp: digit_val_hex_digit)
    then have "strtoll ?x 16 = of_nat (min LLONG_MAX n)"
      using True digits_value_numeral [of 16 n] by (simp add: strtoll_def int_text_def)
    moreover have "rest l = ''0x'' @ numeral_of 16 n @ d # r"
      using assms(3) True by (simp add: int_text_def)
    ultimately show ?thesis
      using hex_lit [OF _ hex assms(4), of l r ?st] nx True big by (auto simp: int_text_def)
  next
    case False
    with assms(1) have b: "base = 10" by simp
    have "strtoll (take 255 (numeral_of 10 n)) 10 = of_nat (min LLONG_MAX n)"
      using numeral_length [of 10 n 255] assms(2) digits_value_numeral [of 10 n] by (simp add: strtoll_def)
    moreover have "rest l = numeral_of 10 n @ d # r" using assms(3) b by (simp add: int_text_def)
    ultimately show ?thesis
      using lex_number_text [OF _ numeral_not_Nil dig assms(4,5), of l r ?st] nx b big
      by (auto simp: int_text_def)
  qed
qed

lemma int_literal_value_witness:
  "unat (tk_int (fst (lexer_next (lexer_init (int_text 16 9223372036854775808 @ '';'') [])))) = LLONG_MAX"
proof -
  have "\<not> is_ident_char (CHR '';'')" by (simp add: is_ident_char_def is_ident_start_def cbyte_def)
  then show ?thesis
    using int_literal_value [of 16 9223372036854775808 "lexer_init (int_text 16 9223372036854775808 @ '';'') []" "CHR '';''" "[]"]
    by (simp add: rest_def lexer_init_def LLONG_MAX_def)
qed

lemma radix_letters:
  "digit_val (CHR ''0'') = 0" "digit_val (CHR ''b'') = 11" "digit_val (CHR ''B'') = 11"
  "digit_val (CHR ''o'') = 24" "digit_val (CHR ''O'') = 24"
  by (simp_all add: digit_val_def cbyte_def)

text \<open>
  The other two radix prefixes are lexed but not read: \<open>strtoll\<close> is given
  the text with its prefix, stops at the letter, and every binary or octal
  literal has the value 0. A hexadecimal literal is cut at its first
  underscore, which a decimal one may contain.
\<close>

lemma radix_prefix_ignored:
  assumes "lex_peek l = CHR ''0''" "lex_peek2 l \<in> {CHR ''b'', CHR ''B'', CHR ''o'', CHR ''O''}"
  shows "tk_kind (fst (lex_number l st)) = TOK_INT_LIT \<and> tk_int (fst (lex_number l st)) = 0 \<and>
    strtoll ''0xFF_FF'' 16 = 255 \<and> strtoll (clean_digits ''1_000'') 10 = 1000"
proof -
  obtain d cs where r: "rest l = CHR ''0'' # d # cs" "d \<in> {CHR ''b'', CHR ''B'', CHR ''o'', CHR ''O''}"
    using assms by (auto simp: rest_simps split: list.splits)
  let ?s = "\<lambda>P. lex_slice (advance_while P (adv (adv l))) (l_pos l) (l_pos (advance_while P (adv (adv l))))"
  have "strtoll (?s P) b = 0"
    if "b = 2 \<and> d \<in> {CHR ''b'', CHR ''B''} \<or> b = 8 \<and> d \<in> {CHR ''o'', CHR ''O''}" for b P
  proof -
    have "moves l (advance_while P (adv (adv l)))"
      using r(1) by (intro moves_two [OF _ moves_advance_while]) (simp add: rest_simps)
    from moves_split [OF this] r(1) have sl: "CHR ''0'' # d # cs = ?s P @ dropWhile P cs"
      by (simp add: rest_simps)
    have "length (dropWhile P cs) \<le> length cs" by (rule length_dropWhile_le)
    then have "2 \<le> length (?s P)" using arg_cong [OF sl, of length] by simp
    then have "take 2 (?s P) = [CHR ''0'', d]" using arg_cong [OF sl, of "take 2"] by simp
    then have eq: "?s P = CHR ''0'' # d # drop 2 (?s P)" by (metis append_Cons append_Nil append_take_drop_id)
    have z: "strtoll (CHR ''0'' # d # x) b = 0" for x
      using that by (auto simp: strtoll_def digits_value_def radix_letters)
    show ?thesis by (rule trans [OF arg_cong [OF eq, of "\<lambda>x. strtoll x b"] z])
  qed
  then have "tk_int (fst (lex_number l st)) = 0" "tk_kind (fst (lex_number l st)) = TOK_INT_LIT"
    using r by (auto simp: lex_number_def Let_def rest_simps int_token_def)
  then show ?thesis
    by (simp add: strtoll_def digits_value_def digit_val_def cbyte_def Let_def LLONG_MAX_def clean_digits_def)
qed

lemma radix_prefix_ignored_witness:
  "tk_int (fst (lex_number (lexer_init ''0b101'' []) \<lparr>p_line = 1, p_col = 1, p_file = []\<rparr>)) = 0"
  using radix_prefix_ignored [of "lexer_init ''0b101'' []" "\<lparr>p_line = 1, p_col = 1, p_file = []\<rparr>"]
  by (simp add: lexer_init_def lex_peek_def lex_peek2_def)

section \<open>The buffer of a string literal\<close>



text \<open>
  The two characters \<open>${\<close> that open an interpolation are stored without
  the capacity check: after 63 plain characters the second one is written past
  the end of the 64-byte buffer.
\<close>

theorem interpolation_overflows:
  assumes "rest l = s @ CHR ''$'' # CHR 0x7B # u" "list_all plain_char s" "length s = 63"
  shows "sb_oob (snd (snd (lex_string_buf l)))"
proof -
  obtain m where m: "rest m = CHR ''$'' # CHR 0x7B # u"
    "str_loop l sb_init = str_loop m (sb_init\<lparr>sb_buf := s\<rparr>)"
    using str_loop_plain [OF assms(1,2), of sb_init] assms(3) by (auto simp: sb_init_def)
  let ?b = "sb_put (CHR 0x7B) (sb_put (CHR ''$'') (sb_init\<lparr>sb_buf := s\<rparr>))"
  have "sb_oob ?b" using assms(3) by (simp add: sb_put_def sb_init_def)
  then have "sb_oob (snd (str_interp 1 (adv (adv m)) ?b))" by (rule sb_oob_interp)
  moreover have "getc m = CHR ''$''" "getc (adv m) = CHR 0x7B" "\<not> lex_end m" "\<not> lex_end (adv m)"
    "lex_peek (adv m) = CHR 0x7B"
    using m(1) getc_rest [of "adv m"] by (simp_all add: rest_simps)
  then have "str_loop m (sb_init\<lparr>sb_buf := s\<rparr>) =
      str_loop (fst (str_interp 1 (adv (adv m)) ?b)) (snd (str_interp 1 (adv (adv m)) ?b))"
    by (subst str_loop.simps) (simp add: Let_def)
  ultimately have "sb_oob (snd (snd (str_loop l sb_init)))" using m(2) sb_oob_loop by metis
  then show ?thesis
    by (cases "str_loop l sb_init") (auto simp: lex_string_buf_def split: option.split)
qed

lemma interpolation_overflows_witness:
  "sb_oob (snd (snd (lex_string_buf (lexer_init (replicate 63 (CHR ''a'') @ [CHR ''$'', CHR 0x7B, CHR 0x7D, CHR 0x22]) []))))"
  by (rule interpolation_overflows [of _ "replicate 63 (CHR ''a'')"])
    (simp_all add: rest_def lexer_init_def plain_char_def list_all_iff)

section \<open>Comments\<close>

text \<open>
  Block comments nest: a comment whose inner comments are well nested is
  skipped to its own end, not to the first \<open>*/\<close>.
\<close>

lemma nested_comment_skipped:
  assumes "rest l = CHR ''/'' # CHR ''*'' # s @ CHR ''*'' # CHR ''/'' # u" "comment_body s"
  shows "\<exists>m. moves l m \<and> rest m = u \<and> lexer_next l = lexer_next m"
proof -
  let ?l2 = "adv (adv l)"
  have "rest ?l2 = s @ CHR ''*'' # CHR ''/'' # u" using assms(1) by (simp add: rest_simps)
  from skip_block_body [OF assms(2) this, of 1]
  obtain k where k: "moves ?l2 k" "rest k = CHR ''*'' # CHR ''/'' # u" "skip_block 1 ?l2 = skip_block 1 k"
    by auto
  have "skip_block 1 k = skip_block 0 (adv (adv k))"
    using k(2) by (subst skip_block.simps) (simp add: rest_simps)
  also have "\<dots> = adv (adv k)" by (subst skip_block.simps) simp
  finally have e: "skip_block 1 ?l2 = adv (adv k)" using k(3) by simp
  have "skip_ws l = skip_ws (adv (adv k))"
    using assms(1) e by (subst skip_ws.simps) (simp add: rest_simps is_space_def)
  moreover have "moves l (adv (adv k))"
  proof (rule moves_two [OF _ moves_trans [OF k(1)]])
    show "moves k (adv (adv k))" using k(2) by (intro moves_two [OF _ moves_refl]) (simp add: rest_simps)
  qed (use assms(1) in \<open>simp add: rest_simps\<close>)
  moreover have "rest (adv (adv k)) = u" using k(2) by (simp add: rest_simps)
  ultimately show ?thesis using lexer_next_skip by blast
qed

end
