(* ===== verification/ParseCore.thy ===== *)
theory ParseCore
  imports Ast LexerStep "HOL-Library.Monad_Syntax"
begin

text \<open>
  The parser (\<open>parser_core.c\<close>): its state, the token cursor, and type expressions.
  A parsing function takes the state and returns the tree and the new state. The
  recursive functions and the loops take fuel, and \<open>None\<close> is the lack of fuel only: the
  code reports errors in the state and goes on. \<open>ParseTotal\<close> shows which fuel is enough.
\<close>

section \<open>The state\<close>

text \<open>
  \<open>ps_errors\<close> holds the positions of the reported errors (their texts are not modelled,
  and \<open>None\<close> stands for the position of a node, which the model of the tree does not have);
  \<open>ps_w32_ctr\<close> is the static counter of \<open>parser_decl.c\<close>. Three fields are not in the code:
  \<open>ps_strtod\<close> is the conversion of the C library that
  the lexer applies to the text of a float, \<open>ps_heap\<close> counts the nodes of calls that have
  been allocated, so that each has an address of its own, and \<open>ps_fault\<close> records an access
  through NULL or outside of an array, or a node that is left without its children, which
  a later pass reads through NULL.
\<close>

record Parser =
  ps_tokens :: "token list"
  ps_pos :: nat
  ps_filename :: string
  ps_gt_pending :: nat
  ps_type_depth :: nat
  ps_in_catch :: bool
  ps_errors :: "src_pos option list"
  ps_w32_ctr :: nat
  ps_strtod :: "string \<Rightarrow> 64 word"
  ps_heap :: nat
  ps_fault :: bool

definition BAGA_MAX_ERRORS :: nat where
  "BAGA_MAX_ERRORS = 64"

text \<open>A parser at the start of a token list.\<close>

definition parser_init :: "(string \<Rightarrow> 64 word) \<Rightarrow> token list \<Rightarrow> string \<Rightarrow> Parser" where
  "parser_init fl ts fname =
     \<lparr>ps_tokens = ts, ps_pos = 0, ps_filename = fname, ps_gt_pending = 0, ps_type_depth = 0,
      ps_in_catch = False, ps_errors = [], ps_w32_ctr = 0, ps_strtod = fl, ps_heap = 0,
      ps_fault = False\<rparr>"

section \<open>The cursor\<close>

definition cur :: "Parser \<Rightarrow> token" where
  "cur p =
     (if ps_pos p < length (ps_tokens p) then ps_tokens p ! ps_pos p
      else ps_tokens p ! (length (ps_tokens p) - 1))"

definition peek_kind :: "Parser \<Rightarrow> token_kind" where
  "peek_kind p = tk_kind (cur p)"

definition advance :: "Parser \<Rightarrow> Parser" where
  "advance p = (if ps_pos p < length (ps_tokens p) - 1 then p\<lparr>ps_pos := ps_pos p + 1\<rparr> else p)"

definition check_tok :: "Parser \<Rightarrow> token_kind \<Rightarrow> bool" where
  "check_tok p k \<longleftrightarrow> peek_kind p = k"

definition match_tok :: "token_kind \<Rightarrow> Parser \<Rightarrow> bool \<times> Parser" where
  "match_tok k p = (if check_tok p k then (True, advance p) else (False, p))"

definition parser_error_at :: "src_pos option \<Rightarrow> Parser \<Rightarrow> Parser" where
  "parser_error_at sp p =
     (if length (ps_errors p) \<ge> BAGA_MAX_ERRORS then p else p\<lparr>ps_errors := ps_errors p @ [sp]\<rparr>)"

definition parser_error :: "Parser \<Rightarrow> Parser" where
  "parser_error p = parser_error_at (Some (tk_pos (cur p))) p"

text \<open>\<open>expect\<close> returns the token at the cursor, whether it is the expected one or not.\<close>

definition expect_tok :: "token_kind \<Rightarrow> Parser \<Rightarrow> token \<times> Parser" where
  "expect_tok k p = (cur p, if check_tok p k then advance p else parser_error p)"

abbreviation skip :: "token_kind \<Rightarrow> Parser \<Rightarrow> Parser" where
  "skip k p \<equiv> snd (expect_tok k p)"

definition text_or :: "string \<Rightarrow> token \<Rightarrow> string" where
  "text_or d t = (case tk_text t of None \<Rightarrow> d | Some x \<Rightarrow> x)"

definition err_name :: string where
  "err_name = utf8 [60, 0x433, 0x440, 0x435, 0x448, 0x43A, 0x430, 62]"

definition expect_ident :: "Parser \<Rightarrow> string \<times> Parser" where
  "expect_ident p = (text_or err_name (cur p), skip TOK_IDENT p)"

text \<open>The kind of the token \<open>i\<close> places after the cursor, when there is one.\<close>

definition kind_at :: "Parser \<Rightarrow> nat \<Rightarrow> token_kind option" where
  "kind_at p i =
     (if ps_pos p + i < length (ps_tokens p) then Some (tk_kind (ps_tokens p ! (ps_pos p + i))) else None)"

text \<open>The cursor stands at a name with the given text.\<close>

definition at_word :: "Parser \<Rightarrow> string \<Rightarrow> bool" where
  "at_word p w \<longleftrightarrow> check_tok p TOK_IDENT \<and> tk_text (cur p) = Some w"

section \<open>Loops\<close>

text \<open>\<open>do { x = f(p); } while (match(p, TOK_COMMA))\<close>, collecting the results.\<close>

fun comma_sep :: "nat \<Rightarrow> (Parser \<Rightarrow> ('a \<times> Parser) option) \<Rightarrow> Parser \<Rightarrow> ('a list \<times> Parser) option" where
  "comma_sep 0 f p = None"
| "comma_sep (Suc n) f p = do {
     (x, p) \<leftarrow> f p;
     (if check_tok p TOK_COMMA then do {
        (xs, p) \<leftarrow> comma_sep n f (advance p);
        Some (x # xs, p)
      } else Some ([x], p))
   }"

text \<open>\<open>while (c(p)) x = f(p);\<close>, collecting the results.\<close>

fun collect_while :: "nat \<Rightarrow> (Parser \<Rightarrow> bool) \<Rightarrow> (Parser \<Rightarrow> ('a \<times> Parser) option) \<Rightarrow> Parser \<Rightarrow>
    ('a list \<times> Parser) option" where
  "collect_while 0 c f p = None"
| "collect_while (Suc n) c f p =
     (if c p then do {
        (x, p) \<leftarrow> f p;
        (xs, p) \<leftarrow> collect_while n c f p;
        Some (x # xs, p)
      } else Some ([], p))"

text \<open>A list in brackets that may be empty: \<open>if (!check(p, k)) { comma_sep }\<close>.\<close>

definition opt_list :: "nat \<Rightarrow> token_kind \<Rightarrow> (Parser \<Rightarrow> ('a \<times> Parser) option) \<Rightarrow> Parser \<Rightarrow>
    ('a list \<times> Parser) option" where
  "opt_list n k f p = (if \<not> check_tok p k then comma_sep n f p else Some ([], p))"

section \<open>Types\<close>

text \<open>
  The closing \<open>>\<close> of type arguments. The lexer reads \<open>>>\<close> and \<open>>>>\<close> as one token: it is
  consumed whole and \<open>ps_gt_pending\<close> counts the brackets it still closes.
\<close>

definition expect_gt_split :: "Parser \<Rightarrow> Parser" where
  "expect_gt_split p =
     (if ps_gt_pending p > 0 then p\<lparr>ps_gt_pending := ps_gt_pending p - 1\<rparr>
      else if peek_kind p = TOK_URSHIFT then (advance p)\<lparr>ps_gt_pending := 2\<rparr>
      else if peek_kind p = TOK_RSHIFT then (advance p)\<lparr>ps_gt_pending := 1\<rparr>
      else skip TOK_GT p)"

text \<open>
  One effect \<open>!E\<close> or \<open>!E(T)\<close>. The code keeps names and payloads in two arrays of which
  the first is shorter when a name is missing; the pairs are those it reads by index.
\<close>

definition effect_item :: "(Parser \<Rightarrow> (tnode \<times> Parser) option) \<Rightarrow> Parser \<Rightarrow>
    ((string option \<times> tnode option) \<times> Parser) option" where
  "effect_item ty p = do {
     let (t, p) = expect_tok TOK_IDENT (advance p);
     (if check_tok p TOK_LPAREN then do {
        (u, p) \<leftarrow> ty (advance p);
        Some ((tk_text t, Some u), skip TOK_RPAREN p)
      } else Some ((tk_text t, None), p))
   }"

definition effect_pairs :: "(string option \<times> tnode option) list \<Rightarrow> (string \<times> tnode option) list" where
  "effect_pairs es = zip (List.map_filter fst es) (map snd es)"

definition parse_type_with_effects :: "nat \<Rightarrow> (Parser \<Rightarrow> (tnode \<times> Parser) option) \<Rightarrow> tnode \<Rightarrow> Parser \<Rightarrow>
    (tnode \<times> Parser) option" where
  "parse_type_with_effects n ty base p =
     (if \<not> check_tok p TOK_BANG then Some (base, p)
      else do {
        (es, p) \<leftarrow> collect_while n (\<lambda>p. check_tok p TOK_BANG) (effect_item ty) p;
        Some (NODE_TYPE_EFFECT base (effect_pairs es), p)
      })"

text \<open>A function type \<open>fn(T, ...) -> R !E\<close>, after the keyword.\<close>

definition parse_fn_type :: "nat \<Rightarrow> (Parser \<Rightarrow> (tnode \<times> Parser) option) \<Rightarrow> Parser \<Rightarrow> (tnode \<times> Parser) option" where
  "parse_fn_type n ty p = do {
     (ps, p) \<leftarrow> opt_list n TOK_RPAREN ty (skip TOK_LPAREN p);
     let p = skip TOK_RPAREN p;
     (r, p) \<leftarrow> (if check_tok p TOK_ARROW then ty (advance p) else Some (NODE_TYPE ''void'' None None [], p));
     (r, p) \<leftarrow> parse_type_with_effects n ty r p;
     Some (NODE_TYPE_FN ps r, p)
   }"

text \<open>The name of a type, with its module when a dot follows.\<close>

definition parse_type_name :: "Parser \<Rightarrow> string \<times> Parser" where
  "parse_type_name p =
     (let (t, p) = expect_tok TOK_IDENT p; x = text_or ''i32'' t
      in if check_tok p TOK_DOT then
           (let (m, p) = expect_tok TOK_IDENT (advance p) in (x @ ''.'' @ text_or [] m, p))
         else (x, p))"

definition parse_named_type :: "nat \<Rightarrow> (Parser \<Rightarrow> (tnode \<times> Parser) option) \<Rightarrow> Parser \<Rightarrow> (tnode \<times> Parser) option" where
  "parse_named_type n ty p = do {
     let (x, p) = parse_type_name p;
     (i1, p) \<leftarrow> (if x = ''Vec'' \<and> check_tok p TOK_LT then do {
          (u, p) \<leftarrow> ty (advance p);
          Some (Some u, expect_gt_split p)
        } else Some (None, p));
     ((i1, i2), p) \<leftarrow> (if x = ''Map'' \<and> check_tok p TOK_LT then do {
          (u, p) \<leftarrow> ty (advance p);
          (v, p) \<leftarrow> ty (skip TOK_COMMA p);
          Some ((Some u, Some v), expect_gt_split p)
        } else Some ((i1, None), p));
     (if check_tok p TOK_LT then do {
        (us, p) \<leftarrow> comma_sep n ty (advance p);
        Some (NODE_TYPE x i1 i2 us, expect_gt_split p)
      } else Some (NODE_TYPE x i1 i2 [], p))
   }"

definition parse_type_rec :: "nat \<Rightarrow> (Parser \<Rightarrow> (tnode \<times> Parser) option) \<Rightarrow> Parser \<Rightarrow> (tnode \<times> Parser) option" where
  "parse_type_rec n ty p =
     (if check_tok p TOK_FN then parse_fn_type n ty (advance p)
      else if check_tok p TOK_AMP then do {
        (u, p) \<leftarrow> ty (advance p);
        Some (NODE_TYPE_REF u, p)
      }
      else if check_tok p TOK_LBRACKET then do {
        (u, p) \<leftarrow> ty (advance p);
        Some (NODE_TYPE_ARRAY u, skip TOK_RBRACKET p)
      }
      else parse_named_type n ty p)"

text \<open>The depth counts nested types; outside of all of them nothing is pending.\<close>

fun parse_type :: "nat \<Rightarrow> Parser \<Rightarrow> (tnode \<times> Parser) option" where
  "parse_type 0 p = None"
| "parse_type (Suc n) p = do {
     (t, q) \<leftarrow> parse_type_rec n (parse_type n) (p\<lparr>ps_type_depth := ps_type_depth p + 1\<rparr>);
     let q = q\<lparr>ps_type_depth := ps_type_depth q - 1\<rparr>;
     Some (t, if ps_type_depth q = 0 then q\<lparr>ps_gt_pending := 0\<rparr> else q)
   }"

end
