(* ===== verification/ParseWorld.thy ===== *)
theory ParseWorld
  imports ParseCore
begin

text \<open>
  The lowering of \<open>world g { ... }\<close> blocks (\<open>parser_decl.c\<close>): the block becomes a binding
  \<open>let g = world_new()\<close>, its statements with \<open>world_free(g)\<close> in front of the exits that
  leave the block, and a last \<open>world_free(g)\<close> when control can reach the end.
\<close>

section \<open>Small nodes\<close>

fun dec_str :: "nat \<Rightarrow> string" where
  "dec_str n = (if n < 10 then [] else dec_str (n div 10)) @ [char_of (48 + n mod 10)]"

declare dec_str.simps [simp del]

definition w32_ident :: "string \<Rightarrow> node" where
  "w32_ident x = NODE_IDENT x"

text \<open>A new call node takes the next address.\<close>

definition alloc_call :: "node \<Rightarrow> node list \<Rightarrow> tnode list \<Rightarrow> Parser \<Rightarrow> node \<times> Parser" where
  "alloc_call f as ts p = (NODE_CALL (ps_heap p) f as ts, p\<lparr>ps_heap := ps_heap p + 1\<rparr>)"

definition w32_call1 :: "string \<Rightarrow> node option \<Rightarrow> Parser \<Rightarrow> node \<times> Parser" where
  "w32_call1 f a p = alloc_call (w32_ident f) (case a of None \<Rightarrow> [] | Some e \<Rightarrow> [e]) [] p"

definition w32_free_stmt :: "string \<Rightarrow> Parser \<Rightarrow> node \<times> Parser" where
  "w32_free_stmt x p =
     (let (c, p) = w32_call1 ''world_free'' (Some (w32_ident x)) p in (NODE_EXPR_STMT c, p))"

definition w32_temp :: "Parser \<Rightarrow> string \<times> Parser" where
  "w32_temp p = (''__w32t'' @ dec_str (ps_w32_ctr p), p\<lparr>ps_w32_ctr := ps_w32_ctr p + 1\<rparr>)"

section \<open>What the lowering asks of an expression\<close>

text \<open>The program may not release the world of a block by hand: each such call is an error.\<close>

fun w32_check_free :: "string \<Rightarrow> node \<Rightarrow> Parser \<Rightarrow> Parser" where
  "w32_check_free x (NODE_CALL i f as ts) p =
     fold (w32_check_free x) as
       (if f = NODE_IDENT ''world_free'' \<and> as = [NODE_IDENT x] then parser_error_at None p else p)"
| "w32_check_free x (NODE_BINARY b l r) p = w32_check_free x r (w32_check_free x l p)"
| "w32_check_free x (NODE_UNARY u e) p = w32_check_free x e p"
| "w32_check_free x (NODE_IF c t e) p =
     (let q = w32_check_free x t (w32_check_free x c p)
      in case e of None \<Rightarrow> q | Some e \<Rightarrow> w32_check_free x e q)"
| "w32_check_free x (NODE_BLOCK ss) p = fold (w32_check_free x) ss p"
| "w32_check_free x (NODE_LET y m t e) p = (case e of None \<Rightarrow> p | Some e \<Rightarrow> w32_check_free x e p)"
| "w32_check_free x (NODE_ASSIGN l r) p = w32_check_free x r (w32_check_free x l p)"
| "w32_check_free x (NODE_RETURN e) p = (case e of None \<Rightarrow> p | Some e \<Rightarrow> w32_check_free x e p)"
| "w32_check_free x (NODE_WHILE c b vs) p = w32_check_free x b (w32_check_free x c p)"
| "w32_check_free x (NODE_FOR y i b) p = w32_check_free x b (w32_check_free x i p)"
| "w32_check_free x (NODE_EXPR_STMT e) p = w32_check_free x e p"
| "w32_check_free x (NODE_RAISE y e) p = (case e of None \<Rightarrow> p | Some e \<Rightarrow> w32_check_free x e p)"
| "w32_check_free x (NODE_MATCH e arms) p =
     fold (\<lambda>(pat, bn, b) q. w32_check_free x b (case pat of None \<Rightarrow> q | Some pt \<Rightarrow> w32_check_free x pt q))
       arms (w32_check_free x e p)"
| "w32_check_free x e p = p"

text \<open>Whether an expression mentions a name; unknown nodes count as mentioning it.\<close>

fun w32_uses :: "string \<Rightarrow> node \<Rightarrow> bool" where
  "w32_uses x (NODE_IDENT y) = (y = x)"
| "w32_uses x (NODE_PATH a b) = False"
| "w32_uses x (NODE_INT_LIT i) = False"
| "w32_uses x (NODE_FLOAT_LIT f) = False"
| "w32_uses x (NODE_STR_LIT s) = False"
| "w32_uses x (NODE_BYTES_LIT s) = False"
| "w32_uses x (NODE_BOOL_LIT b) = False"
| "w32_uses x (NODE_LAMBDA cs ps r b) = False"
| "w32_uses x (NODE_BINARY b l r) \<longleftrightarrow> w32_uses x l \<or> w32_uses x r"
| "w32_uses x (NODE_UNARY u e) = w32_uses x e"
| "w32_uses x (NODE_CALL i f as ts) = list_ex (w32_uses x) as"
| "w32_uses x (NODE_IF c t e) \<longleftrightarrow>
     w32_uses x c \<or> w32_uses x t \<or> (case e of None \<Rightarrow> False | Some e \<Rightarrow> w32_uses x e)"
| "w32_uses x (NODE_INDEX e i) \<longleftrightarrow> w32_uses x e \<or> w32_uses x i"
| "w32_uses x (NODE_ELEM_REF e) = w32_uses x e"
| "w32_uses x (NODE_FIELD e f) = w32_uses x e"
| "w32_uses x (NODE_RANGE l h) \<longleftrightarrow> w32_uses x l \<or> w32_uses x h"
| "w32_uses x (NODE_STRUCT_LIT y fs ts) = list_ex (\<lambda>(f, e). w32_uses x e) fs"
| "w32_uses x (NODE_TRY e) = w32_uses x e"
| "w32_uses x (NODE_CATCH e y h bn) \<longleftrightarrow> w32_uses x e \<or> w32_uses x h"
| "w32_uses x (NODE_RAISE y e) = (case e of None \<Rightarrow> False | Some e \<Rightarrow> w32_uses x e)"
| "w32_uses x (NODE_TO_STR e) = w32_uses x e"
| "w32_uses x (NODE_MATCH e arms) \<longleftrightarrow> w32_uses x e \<or>
     list_ex (\<lambda>(pat, bn, b). (case pat of None \<Rightarrow> False | Some pt \<Rightarrow> w32_uses x pt) \<or> w32_uses x b) arms"
| "w32_uses x e = True"

text \<open>The value of a match arm: what its last statement returns or evaluates.\<close>

definition arm_value :: "node \<Rightarrow> node option" where
  "arm_value b =
     (case b of
        NODE_BLOCK ss \<Rightarrow>
          if ss = [] then Some b
          else (case last ss of NODE_RETURN v \<Rightarrow> v | NODE_EXPR_STMT v \<Rightarrow> Some v | _ \<Rightarrow> None)
      | _ \<Rightarrow> Some b)"

lemma size_arm_value [termination_simp]: "arm_value b = Some v \<Longrightarrow> size v \<le> size b"
proof (cases b)
  case (NODE_BLOCK ss)
  assume v: "arm_value b = Some v"
  show ?thesis
  proof (cases ss rule: rev_cases)
    case (snoc ts t)
    have "size v \<le> size t"
      using v NODE_BLOCK snoc by (cases t) (auto simp: arm_value_def split: option.splits)
    then show ?thesis using NODE_BLOCK snoc by simp
  qed (use v NODE_BLOCK in \<open>simp add: arm_value_def\<close>)
qed (simp_all add: arm_value_def)

lemma arm_size [termination_simp]: "(pat, bn, b) \<in> set arms \<Longrightarrow>
    size b < size_list (size_prod (size_option size) (size_prod (\<lambda>_. 0) size)) arms"
  by (induction arms) auto

text \<open>Whether a returned expression is the name itself, on each of its branches.\<close>

fun w32_yields_ident :: "string \<Rightarrow> node \<Rightarrow> bool" where
  "w32_yields_ident x (NODE_IDENT y) = (y = x)"
| "w32_yields_ident x (NODE_MATCH e arms) \<longleftrightarrow> arms \<noteq> [] \<and>
     list_all (\<lambda>(pat, bn, b). case arm_value b of None \<Rightarrow> False | Some v \<Rightarrow> w32_yields_ident x v) arms"
| "w32_yields_ident x e = False"

section \<open>Releases in front of the exits\<close>

text \<open>
  A returned value, or the payload of a raise, that mentions the world is bound to a
  temporary before the world is released.
\<close>

definition w32_early :: "string \<Rightarrow> node option \<Rightarrow> (node option \<Rightarrow> node) \<Rightarrow> Parser \<Rightarrow> node list \<times> Parser" where
  "w32_early x v mk p =
     (case v of
        Some e \<Rightarrow>
          if w32_uses x e then
            (let (tn, p) = w32_temp p; (fr, p) = w32_free_stmt x p
             in ([NODE_LET tn False None (Some e), fr, mk (Some (w32_ident tn))], p))
          else (let (fr, p) = w32_free_stmt x p in ([fr, mk v], p))
      | None \<Rightarrow> (let (fr, p) = w32_free_stmt x p in ([fr, mk v], p)))"

text \<open>
  A statement becomes a list of statements. \<open>in_loop\<close> tells that the statement is in a
  loop of the block, so that \<open>break\<close> and \<open>continue\<close> do not leave the block. The bodies of
  loops and arms are blocks, as the parser builds them; the last \<open>return\<close> of an arm of a
  match is its value.
\<close>

fun w32_inject_stmt :: "string \<Rightarrow> bool \<Rightarrow> node \<Rightarrow> Parser \<Rightarrow> node list \<times> Parser"
  and w32_inject_vec :: "string \<Rightarrow> bool \<Rightarrow> node list \<Rightarrow> Parser \<Rightarrow> node list \<times> Parser"
  and w32_inject_arm :: "string \<Rightarrow> bool \<Rightarrow> node \<Rightarrow> Parser \<Rightarrow> node \<times> Parser"
  and w32_inject_match :: "string \<Rightarrow> bool \<Rightarrow> node list \<Rightarrow> Parser \<Rightarrow> node list \<times> Parser"
  and w32_inject_arms :: "string \<Rightarrow> bool \<Rightarrow> (node option \<times> string option \<times> node) list \<Rightarrow> Parser \<Rightarrow>
    (node option \<times> string option \<times> node) list \<times> Parser" where
  "w32_inject_stmt x l s p =
     (case s of
        NODE_RETURN v \<Rightarrow>
          if case v of None \<Rightarrow> False | Some e \<Rightarrow> w32_yields_ident x e then ([s], p)
          else w32_early x v NODE_RETURN p
      | NODE_BREAK \<Rightarrow>
          if \<not> l then (let (fr, p) = w32_free_stmt x p in ([fr, s], p)) else ([s], p)
      | NODE_CONTINUE \<Rightarrow>
          if \<not> l then (let (fr, p) = w32_free_stmt x p in ([fr, s], p)) else ([s], p)
      | NODE_RAISE y v \<Rightarrow> w32_early x v (NODE_RAISE y) p
      | NODE_EXPR_STMT e \<Rightarrow>
          (case e of
             NODE_RAISE y v \<Rightarrow> w32_early x v (\<lambda>v. NODE_EXPR_STMT (NODE_RAISE y v)) p
           | _ \<Rightarrow> ([s], p))
      | NODE_BLOCK ss \<Rightarrow> (let (us, p) = w32_inject_vec x l ss p in ([NODE_BLOCK us], p))
      | NODE_IF c t e \<Rightarrow>
          (let (t, p) = w32_inject_arm x l t p
           in case e of
                None \<Rightarrow> ([NODE_IF c t None], p)
              | Some e \<Rightarrow> (let (e, p) = w32_inject_arm x l e p in ([NODE_IF c t (Some e)], p)))
      | NODE_WHILE c b vs \<Rightarrow>
          (case b of
             NODE_BLOCK ss \<Rightarrow> (let (us, p) = w32_inject_vec x True ss p in ([NODE_WHILE c (NODE_BLOCK us) vs], p))
           | _ \<Rightarrow> ([s], p))
      | NODE_FOR y i b \<Rightarrow>
          (case b of
             NODE_BLOCK ss \<Rightarrow> (let (us, p) = w32_inject_vec x True ss p in ([NODE_FOR y i (NODE_BLOCK us)], p))
           | _ \<Rightarrow> ([s], p))
      | NODE_MATCH e arms \<Rightarrow> (let (arms, p) = w32_inject_arms x l arms p in ([NODE_MATCH e arms], p))
      | _ \<Rightarrow> ([s], p))"
| "w32_inject_vec x l [] p = ([], p)"
| "w32_inject_vec x l (s # ss) p =
     (let (us, p) = w32_inject_stmt x l s p; (vs, p) = w32_inject_vec x l ss p in (us @ vs, p))"
| "w32_inject_arm x l a p =
     (case a of
        NODE_BLOCK ss \<Rightarrow> (let (us, p) = w32_inject_vec x l ss p in (NODE_BLOCK us, p))
      | NODE_IF c t e \<Rightarrow>
          (let (t, p) = w32_inject_arm x l t p
           in case e of
                None \<Rightarrow> (NODE_IF c t None, p)
              | Some e \<Rightarrow> (let (e, p) = w32_inject_arm x l e p in (NODE_IF c t (Some e), p)))
      | _ \<Rightarrow> (a, p))"
| "w32_inject_match x l [] p = ([], p)"
| "w32_inject_match x l (s # ss) p =
     (if ss = [] \<and> (case s of NODE_RETURN v \<Rightarrow> True | _ \<Rightarrow> False) then ([s], p)
      else (let (us, p) = w32_inject_stmt x l s p; (vs, p) = w32_inject_match x l ss p in (us @ vs, p)))"
| "w32_inject_arms x l [] p = ([], p)"
| "w32_inject_arms x l ((pat, bn, b) # arms) p =
     (let (b, p) = (case b of
          NODE_BLOCK ss \<Rightarrow> (let (us, p) = w32_inject_match x l ss p in (NODE_BLOCK us, p))
        | _ \<Rightarrow> (b, p));
          (arms, p) = w32_inject_arms x l arms p
      in ((pat, bn, b) # arms, p))"

declare w32_inject_stmt.simps [simp del] w32_inject_arm.simps [simp del]

section \<open>The lowered block\<close>

lemma size_last [termination_simp]: "ss \<noteq> [] \<Longrightarrow> size (last ss) \<le> size_list size ss"
  by (induction ss) (auto simp: neq_Nil_conv)

text \<open>Whether control cannot pass a statement.\<close>

fun w32_stmt_exits :: "node \<Rightarrow> bool"
  and w32_arm_exits :: "node \<Rightarrow> bool" where
  "w32_stmt_exits (NODE_RETURN v) = True"
| "w32_stmt_exits NODE_BREAK = True"
| "w32_stmt_exits NODE_CONTINUE = True"
| "w32_stmt_exits (NODE_RAISE y v) = True"
| "w32_stmt_exits (NODE_EXPR_STMT e) = (case e of NODE_RAISE y v \<Rightarrow> True | _ \<Rightarrow> False)"
| "w32_stmt_exits (NODE_BLOCK ss) = (if ss = [] then False else w32_stmt_exits (last ss))"
| "w32_stmt_exits (NODE_IF c t e) \<longleftrightarrow>
     w32_arm_exits t \<and> (case e of None \<Rightarrow> False | Some e \<Rightarrow> w32_arm_exits e)"
| "w32_stmt_exits s = False"
| "w32_arm_exits (NODE_BLOCK ss) = (if ss = [] then False else w32_stmt_exits (last ss))"
| "w32_arm_exits (NODE_IF c t e) = w32_stmt_exits (NODE_IF c t e)"
| "w32_arm_exits s = False"

definition w32_vec_exits :: "node list \<Rightarrow> bool" where
  "w32_vec_exits ss \<longleftrightarrow> ss \<noteq> [] \<and> w32_stmt_exits (last ss)"

definition w32_lower :: "string \<Rightarrow> node list \<Rightarrow> Parser \<Rightarrow> node \<times> Parser" where
  "w32_lower x ss p =
     (let (c, p) = w32_call1 ''world_new'' None p;
          (ss, p) = w32_inject_vec x False ss p
      in if w32_vec_exits ss then (NODE_BLOCK (NODE_LET x False None (Some c) # ss), p)
         else
           (let (fr, p) = w32_free_stmt x p
            in (NODE_BLOCK (NODE_LET x False None (Some c) # ss @ [fr]), p)))"

end
