(* ===== verification/ParseWorldRun.thy ===== *)
theory ParseWorldRun
  imports ParseWorld
begin

text \<open>
  The runs of a lowered world block, as far as the world is concerned: where it is used,
  where it is released, and how the block is left. The condition of a branch or a loop is
  not interpreted, so that each path is a run.
\<close>

section \<open>Runs\<close>

datatype wev = W_USE | W_FREE
datatype wout = W_NEXT | W_BRK | W_CONT | W_LEAVE | W_EXPORT

text \<open>Whether the evaluation of an expression reads a name.\<close>

fun mentions :: "string \<Rightarrow> node \<Rightarrow> bool" where
  "mentions g e =
     (case e of
        NODE_IDENT y \<Rightarrow> y = g
      | NODE_BINARY b l r \<Rightarrow> mentions g l \<or> mentions g r
      | NODE_UNARY u e \<Rightarrow> mentions g e
      | NODE_CALL i f as ts \<Rightarrow> mentions g f \<or> list_ex (mentions g) as
      | NODE_INDEX e i \<Rightarrow> mentions g e \<or> mentions g i
      | NODE_ELEM_REF e \<Rightarrow> mentions g e
      | NODE_FIELD e f \<Rightarrow> mentions g e
      | NODE_ASSIGN l r \<Rightarrow> mentions g l \<or> mentions g r
      | NODE_RANGE l h \<Rightarrow> mentions g l \<or> mentions g h
      | NODE_STRUCT_LIT y fs ts \<Rightarrow> list_ex (\<lambda>(f, e). mentions g e) fs
      | NODE_TO_STR e \<Rightarrow> mentions g e
      | NODE_TRY e \<Rightarrow> mentions g e
      | NODE_LAMBDA cs ps r b \<Rightarrow> g \<in> set cs
      | _ \<Rightarrow> False)"

declare mentions.simps [simp del]

lemmas mentions_eqs [simp] =
  mentions.simps [of g "NODE_INT_LIT i" for g i, simplified]
  mentions.simps [of g "NODE_FLOAT_LIT f" for g f, simplified]
  mentions.simps [of g "NODE_STR_LIT s" for g s, simplified]
  mentions.simps [of g "NODE_BYTES_LIT s" for g s, simplified]
  mentions.simps [of g "NODE_BOOL_LIT b" for g b, simplified]
  mentions.simps [of g "NODE_IDENT y" for g y, simplified]
  mentions.simps [of g "NODE_PATH a b" for g a b, simplified]
  mentions.simps [of g "NODE_BINARY b l r" for g b l r, simplified]
  mentions.simps [of g "NODE_UNARY u e" for g u e, simplified]
  mentions.simps [of g "NODE_CALL i f as ts" for g i f as ts, simplified]
  mentions.simps [of g "NODE_IF c t e" for g c t e, simplified]
  mentions.simps [of g "NODE_BLOCK ss" for g ss, simplified]
  mentions.simps [of g "NODE_INDEX e i" for g e i, simplified]
  mentions.simps [of g "NODE_ELEM_REF e" for g e, simplified]
  mentions.simps [of g "NODE_FIELD e f" for g e f, simplified]
  mentions.simps [of g "NODE_ASSIGN l r" for g l r, simplified]
  mentions.simps [of g "NODE_RANGE l h" for g l h, simplified]
  mentions.simps [of g "NODE_STRUCT_LIT y fs ts" for g y fs ts, simplified]
  mentions.simps [of g "NODE_TRY e" for g e, simplified]
  mentions.simps [of g "NODE_CATCH e y h bn" for g e y h bn, simplified]
  mentions.simps [of g "NODE_RAISE y v" for g y v, simplified]
  mentions.simps [of g "NODE_TO_STR e" for g e, simplified]
  mentions.simps [of g "NODE_LAMBDA cs ps r b" for g cs ps r b, simplified]
  mentions.simps [of g "NODE_LET y m t v" for g y m t v, simplified]
  mentions.simps [of g "NODE_RETURN v" for g v, simplified]
  mentions.simps [of g "NODE_WHILE c b vs" for g c b vs, simplified]
  mentions.simps [of g "NODE_FOR y i b" for g y i b, simplified]
  mentions.simps [of g "NODE_MATCH e arms" for g e arms, simplified]
  mentions.simps [of g "NODE_BREAK" for g, simplified]
  mentions.simps [of g "NODE_CONTINUE" for g, simplified]
  mentions.simps [of g "NODE_EXPR_STMT e" for g e, simplified]
  mentions.simps [of g "NODE_INVARIANT vs" for g vs, simplified]

definition reads :: "string \<Rightarrow> node option \<Rightarrow> wev list" where
  "reads g v = (case v of None \<Rightarrow> [] | Some e \<Rightarrow> if mentions g e then [W_USE] else [])"

definition is_free :: "string \<Rightarrow> node \<Rightarrow> bool" where
  "is_free g e = (case e of NODE_CALL i f as ts \<Rightarrow> f = NODE_IDENT ''world_free'' \<and> as = [NODE_IDENT g] | _ \<Rightarrow> False)"

text \<open>The last \<open>return\<close> of an arm of a match is the value of the arm.\<close>

definition arm_stmts :: "node list \<Rightarrow> node list" where
  "arm_stmts ss =
     (if ss = [] then []
      else case last ss of
             NODE_RETURN (Some v) \<Rightarrow> butlast ss @ [NODE_EXPR_STMT v]
           | _ \<Rightarrow> ss)"

definition is_raise :: "node \<Rightarrow> bool" where
  "is_raise e = (case e of NODE_RAISE y v \<Rightarrow> True | _ \<Rightarrow> False)"

definition is_match :: "node \<Rightarrow> bool" where
  "is_match e = (case e of NODE_MATCH m arms \<Rightarrow> True | _ \<Rightarrow> False)"

inductive stm :: "string \<Rightarrow> node \<Rightarrow> wev list \<Rightarrow> wout \<Rightarrow> bool"
  and stms :: "string \<Rightarrow> node list \<Rightarrow> wev list \<Rightarrow> wout \<Rightarrow> bool"
  and iters :: "string \<Rightarrow> node option \<Rightarrow> node \<Rightarrow> wev list \<Rightarrow> wout \<Rightarrow> bool"
  for g :: string where
  ret_world: "v = Some (NODE_IDENT g) \<Longrightarrow> stm g (NODE_RETURN v) [] W_EXPORT"
| ret: "v \<noteq> Some (NODE_IDENT g) \<Longrightarrow> stm g (NODE_RETURN v) (reads g v) W_LEAVE"
| brk: "stm g NODE_BREAK [] W_BRK"
| cont: "stm g NODE_CONTINUE [] W_CONT"
| raise: "stm g (NODE_EXPR_STMT (NODE_RAISE y v)) (reads g v) W_LEAVE"
| free: "is_free g e \<Longrightarrow> stm g (NODE_EXPR_STMT e) [W_FREE] W_NEXT"
| expr: "\<not> is_free g e \<Longrightarrow> \<not> is_raise e \<Longrightarrow> \<not> is_match e \<Longrightarrow> stm g (NODE_EXPR_STMT e) (reads g (Some e)) W_NEXT"
| arm: "(pat, bn, NODE_BLOCK ss) \<in> set arms \<Longrightarrow> stms g (arm_stmts ss) tr r \<Longrightarrow>
    stm g (NODE_EXPR_STMT (NODE_MATCH e arms)) (reads g (Some e) @ tr) r"
| bind: "stm g (NODE_LET y m t v) (reads g v) W_NEXT"
| block: "stms g ss tr r \<Longrightarrow> stm g (NODE_BLOCK ss) tr r"
| if_then: "stm g t tr r \<Longrightarrow> stm g (NODE_IF c t e) (reads g (Some c) @ tr) r"
| if_else: "stm g e tr r \<Longrightarrow> stm g (NODE_IF c t (Some e)) (reads g (Some c) @ tr) r"
| if_none: "stm g (NODE_IF c t None) (reads g (Some c)) W_NEXT"
| while_loop: "iters g (Some c) b tr r \<Longrightarrow> stm g (NODE_WHILE c b vs) tr r"
| for_loop: "iters g None b tr r \<Longrightarrow> stm g (NODE_FOR y i b) (reads g (Some i) @ tr) r"
| nil: "stms g [] [] W_NEXT"
| cons_next: "stm g s t1 W_NEXT \<Longrightarrow> stms g ss t2 r \<Longrightarrow> stms g (s # ss) (t1 @ t2) r"
| cons_out: "stm g s tr r \<Longrightarrow> r \<noteq> W_NEXT \<Longrightarrow> stms g (s # ss) tr r"
| iters_end: "iters g c b (reads g c) W_NEXT"
| iters_next: "stm g b t1 r1 \<Longrightarrow> r1 \<in> {W_NEXT, W_CONT} \<Longrightarrow> iters g c b t2 r \<Longrightarrow>
    iters g c b (reads g c @ t1 @ t2) r"
| iters_brk: "stm g b tr W_BRK \<Longrightarrow> iters g c b (reads g c @ tr) W_NEXT"
| iters_out: "stm g b tr r \<Longrightarrow> r \<in> {W_LEAVE, W_EXPORT} \<Longrightarrow> iters g c b (reads g c @ tr) r"

inductive_cases stm_returnE: "stm g (NODE_RETURN v) tr r"
inductive_cases stm_breakE: "stm g NODE_BREAK tr r"
inductive_cases stm_continueE: "stm g NODE_CONTINUE tr r"
inductive_cases stm_raiseE: "stm g (NODE_RAISE y v) tr r"
inductive_cases stm_exprE: "stm g (NODE_EXPR_STMT e) tr r"
inductive_cases stm_letE: "stm g (NODE_LET y m t v) tr r"
inductive_cases stm_blockE: "stm g (NODE_BLOCK ss) tr r"
inductive_cases stm_ifE: "stm g (NODE_IF c t e) tr r"
inductive_cases stm_whileE: "stm g (NODE_WHILE c b vs) tr r"
inductive_cases stm_forE: "stm g (NODE_FOR y i b) tr r"
inductive_cases stms_consE: "stms g (s # ss) tr r"
inductive_simps stms_nil [simp]: "stms g [] tr r"
inductive_simps stms_cons: "stms g (s # ss) tr r"
inductive_simps stm_return: "stm g (NODE_RETURN v) tr r"
inductive_simps stm_break: "stm g NODE_BREAK tr r"
inductive_simps stm_expr: "stm g (NODE_EXPR_STMT e) tr r"
inductive_simps stm_let: "stm g (NODE_LET y m t v) tr r"
inductive_simps stm_block: "stm g (NODE_BLOCK ss) tr r"
inductive_simps stm_if: "stm g (NODE_IF c t e) tr r"

lemmas run_simps = stms_cons stm_return stm_break stm_expr stm_let stm_block stm_if

lemma stms_append:
  "stms g (us @ vs) tr r \<longleftrightarrow>
     (\<exists>t1 t2. stms g us t1 W_NEXT \<and> stms g vs t2 r \<and> tr = t1 @ t2) \<or> (r \<noteq> W_NEXT \<and> stms g us tr r)"
  (is "?L us tr \<longleftrightarrow> ?R us tr")
proof (induction us arbitrary: tr)
  case (Cons u us)
  show ?case
  proof
    assume "?L (u # us) tr"
    then show "?R (u # us) tr"
      using Cons by (auto elim!: stms_consE) (metis append_assoc cons_next cons_out)+
  next
    assume "?R (u # us) tr"
    then show "?L (u # us) tr"
      using Cons by (auto elim!: stms_consE intro: cons_next cons_out) (metis append_assoc cons_next)
  qed
qed auto

section \<open>Bodies in the scope of the theorem\<close>

text \<open>
  Expressions that are evaluated without leaving the function in between, with calls of
  named functions only.
\<close>

fun flat :: "string \<Rightarrow> node \<Rightarrow> bool" where
  "flat g e =
     (case e of
        NODE_INT_LIT i \<Rightarrow> True | NODE_FLOAT_LIT f \<Rightarrow> True | NODE_STR_LIT s \<Rightarrow> True
      | NODE_BYTES_LIT s \<Rightarrow> True | NODE_BOOL_LIT b \<Rightarrow> True | NODE_IDENT y \<Rightarrow> True | NODE_PATH a b \<Rightarrow> True
      | NODE_BINARY b l r \<Rightarrow> flat g l \<and> flat g r
      | NODE_UNARY u e \<Rightarrow> flat g e
      | NODE_CALL i f as ts \<Rightarrow> (case f of NODE_IDENT h \<Rightarrow> h \<noteq> g | _ \<Rightarrow> False) \<and> list_all (flat g) as
      | NODE_INDEX e i \<Rightarrow> flat g e \<and> flat g i
      | NODE_ELEM_REF e \<Rightarrow> flat g e
      | NODE_FIELD e f \<Rightarrow> flat g e
      | NODE_ASSIGN l r \<Rightarrow> flat g l \<and> flat g r
      | NODE_RANGE l h \<Rightarrow> flat g l \<and> flat g h
      | NODE_STRUCT_LIT y fs ts \<Rightarrow> list_all (\<lambda>(f, e). flat g e) fs
      | NODE_TO_STR e \<Rightarrow> flat g e
      | _ \<Rightarrow> False)"

declare flat.simps [simp del]

lemmas flat_eqs [simp] =
  flat.simps [of g "NODE_INT_LIT i" for g i, simplified]
  flat.simps [of g "NODE_FLOAT_LIT f" for g f, simplified]
  flat.simps [of g "NODE_STR_LIT s" for g s, simplified]
  flat.simps [of g "NODE_BYTES_LIT s" for g s, simplified]
  flat.simps [of g "NODE_BOOL_LIT b" for g b, simplified]
  flat.simps [of g "NODE_IDENT y" for g y, simplified]
  flat.simps [of g "NODE_PATH a b" for g a b, simplified]
  flat.simps [of g "NODE_BINARY b l r" for g b l r, simplified]
  flat.simps [of g "NODE_UNARY u e" for g u e, simplified]
  flat.simps [of g "NODE_CALL i f as ts" for g i f as ts, simplified]
  flat.simps [of g "NODE_IF c t e" for g c t e, simplified]
  flat.simps [of g "NODE_BLOCK ss" for g ss, simplified]
  flat.simps [of g "NODE_INDEX e i" for g e i, simplified]
  flat.simps [of g "NODE_ELEM_REF e" for g e, simplified]
  flat.simps [of g "NODE_FIELD e f" for g e f, simplified]
  flat.simps [of g "NODE_ASSIGN l r" for g l r, simplified]
  flat.simps [of g "NODE_RANGE l h" for g l h, simplified]
  flat.simps [of g "NODE_STRUCT_LIT y fs ts" for g y fs ts, simplified]
  flat.simps [of g "NODE_TRY e" for g e, simplified]
  flat.simps [of g "NODE_CATCH e y h bn" for g e y h bn, simplified]
  flat.simps [of g "NODE_RAISE y v" for g y v, simplified]
  flat.simps [of g "NODE_TO_STR e" for g e, simplified]
  flat.simps [of g "NODE_LAMBDA cs ps r b" for g cs ps r b, simplified]
  flat.simps [of g "NODE_LET y m t v" for g y m t v, simplified]
  flat.simps [of g "NODE_RETURN v" for g v, simplified]
  flat.simps [of g "NODE_WHILE c b vs" for g c b vs, simplified]
  flat.simps [of g "NODE_FOR y i b" for g y i b, simplified]
  flat.simps [of g "NODE_MATCH e arms" for g e arms, simplified]
  flat.simps [of g "NODE_BREAK" for g, simplified]
  flat.simps [of g "NODE_CONTINUE" for g, simplified]
  flat.simps [of g "NODE_EXPR_STMT e" for g e, simplified]
  flat.simps [of g "NODE_INVARIANT vs" for g vs, simplified]

definition flat_opt :: "string \<Rightarrow> node option \<Rightarrow> bool" where
  "flat_opt g v = (case v of None \<Rightarrow> True | Some e \<Rightarrow> flat g e)"

text \<open>Statements that neither rebind the world nor release it by hand.\<close>

fun plain :: "string \<Rightarrow> node \<Rightarrow> bool"
  and plain_body :: "string \<Rightarrow> node \<Rightarrow> bool" where
  "plain g s =
     (case s of
        NODE_RETURN v \<Rightarrow> flat_opt g v
      | NODE_BREAK \<Rightarrow> True
      | NODE_CONTINUE \<Rightarrow> True
      | NODE_EXPR_STMT e \<Rightarrow> (case e of NODE_RAISE y v \<Rightarrow> flat_opt g v | _ \<Rightarrow> flat g e \<and> \<not> is_free g e)
      | NODE_LET y m t v \<Rightarrow> y \<noteq> g \<and> flat_opt g v
      | NODE_BLOCK ss \<Rightarrow> list_all (plain g) ss
      | NODE_IF c t e \<Rightarrow> flat g c \<and> plain_body g t \<and> (case e of None \<Rightarrow> True | Some e \<Rightarrow> plain_body g e)
      | NODE_WHILE c b vs \<Rightarrow> flat g c \<and> plain_body g b
      | NODE_FOR y i b \<Rightarrow> y \<noteq> g \<and> flat g i \<and> plain_body g b
      | _ \<Rightarrow> False)"
| "plain_body g s = (case s of NODE_BLOCK ss \<Rightarrow> list_all (plain g) ss | _ \<Rightarrow> False)"

declare plain.simps [simp del] plain_body.simps [simp del]

lemmas plain_eqs [simp] =
  plain.simps [of g "NODE_INT_LIT i" for g i, simplified]
  plain.simps [of g "NODE_FLOAT_LIT f" for g f, simplified]
  plain.simps [of g "NODE_STR_LIT s" for g s, simplified]
  plain.simps [of g "NODE_BYTES_LIT s" for g s, simplified]
  plain.simps [of g "NODE_BOOL_LIT b" for g b, simplified]
  plain.simps [of g "NODE_IDENT y" for g y, simplified]
  plain.simps [of g "NODE_PATH a b" for g a b, simplified]
  plain.simps [of g "NODE_BINARY b l r" for g b l r, simplified]
  plain.simps [of g "NODE_UNARY u e" for g u e, simplified]
  plain.simps [of g "NODE_CALL i f as ts" for g i f as ts, simplified]
  plain.simps [of g "NODE_IF c t e" for g c t e, simplified]
  plain.simps [of g "NODE_BLOCK ss" for g ss, simplified]
  plain.simps [of g "NODE_INDEX e i" for g e i, simplified]
  plain.simps [of g "NODE_ELEM_REF e" for g e, simplified]
  plain.simps [of g "NODE_FIELD e f" for g e f, simplified]
  plain.simps [of g "NODE_ASSIGN l r" for g l r, simplified]
  plain.simps [of g "NODE_RANGE l h" for g l h, simplified]
  plain.simps [of g "NODE_STRUCT_LIT y fs ts" for g y fs ts, simplified]
  plain.simps [of g "NODE_TRY e" for g e, simplified]
  plain.simps [of g "NODE_CATCH e y h bn" for g e y h bn, simplified]
  plain.simps [of g "NODE_RAISE y v" for g y v, simplified]
  plain.simps [of g "NODE_TO_STR e" for g e, simplified]
  plain.simps [of g "NODE_LAMBDA cs ps r b" for g cs ps r b, simplified]
  plain.simps [of g "NODE_LET y m t v" for g y m t v, simplified]
  plain.simps [of g "NODE_RETURN v" for g v, simplified]
  plain.simps [of g "NODE_WHILE c b vs" for g c b vs, simplified]
  plain.simps [of g "NODE_FOR y i b" for g y i b, simplified]
  plain.simps [of g "NODE_MATCH e arms" for g e arms, simplified]
  plain.simps [of g "NODE_BREAK" for g, simplified]
  plain.simps [of g "NODE_CONTINUE" for g, simplified]
  plain.simps [of g "NODE_EXPR_STMT e" for g e, simplified]
  plain.simps [of g "NODE_INVARIANT vs" for g vs, simplified]

lemmas plain_body_eqs [simp] =
  plain_body.simps [of g "NODE_INT_LIT i" for g i, simplified]
  plain_body.simps [of g "NODE_FLOAT_LIT f" for g f, simplified]
  plain_body.simps [of g "NODE_STR_LIT s" for g s, simplified]
  plain_body.simps [of g "NODE_BYTES_LIT s" for g s, simplified]
  plain_body.simps [of g "NODE_BOOL_LIT b" for g b, simplified]
  plain_body.simps [of g "NODE_IDENT y" for g y, simplified]
  plain_body.simps [of g "NODE_PATH a b" for g a b, simplified]
  plain_body.simps [of g "NODE_BINARY b l r" for g b l r, simplified]
  plain_body.simps [of g "NODE_UNARY u e" for g u e, simplified]
  plain_body.simps [of g "NODE_CALL i f as ts" for g i f as ts, simplified]
  plain_body.simps [of g "NODE_IF c t e" for g c t e, simplified]
  plain_body.simps [of g "NODE_BLOCK ss" for g ss, simplified]
  plain_body.simps [of g "NODE_INDEX e i" for g e i, simplified]
  plain_body.simps [of g "NODE_ELEM_REF e" for g e, simplified]
  plain_body.simps [of g "NODE_FIELD e f" for g e f, simplified]
  plain_body.simps [of g "NODE_ASSIGN l r" for g l r, simplified]
  plain_body.simps [of g "NODE_RANGE l h" for g l h, simplified]
  plain_body.simps [of g "NODE_STRUCT_LIT y fs ts" for g y fs ts, simplified]
  plain_body.simps [of g "NODE_TRY e" for g e, simplified]
  plain_body.simps [of g "NODE_CATCH e y h bn" for g e y h bn, simplified]
  plain_body.simps [of g "NODE_RAISE y v" for g y v, simplified]
  plain_body.simps [of g "NODE_TO_STR e" for g e, simplified]
  plain_body.simps [of g "NODE_LAMBDA cs ps r b" for g cs ps r b, simplified]
  plain_body.simps [of g "NODE_LET y m t v" for g y m t v, simplified]
  plain_body.simps [of g "NODE_RETURN v" for g v, simplified]
  plain_body.simps [of g "NODE_WHILE c b vs" for g c b vs, simplified]
  plain_body.simps [of g "NODE_FOR y i b" for g y i b, simplified]
  plain_body.simps [of g "NODE_MATCH e arms" for g e arms, simplified]
  plain_body.simps [of g "NODE_BREAK" for g, simplified]
  plain_body.simps [of g "NODE_CONTINUE" for g, simplified]
  plain_body.simps [of g "NODE_EXPR_STMT e" for g e, simplified]
  plain_body.simps [of g "NODE_INVARIANT vs" for g vs, simplified]

end
