(* ===== verification/ParseWorldSound.thy ===== *)
theory ParseWorldSound
  imports ParseWorldRun
begin

text \<open>The lowering of a world block releases the world once on every path, after its last use.\<close>

lemma mentions_uses: "flat g e \<Longrightarrow> mentions g e \<Longrightarrow> w32_uses g e"
proof (induction e rule: flat.induct)
  case (1 g e)
  then show ?case
    by (cases e) (auto simp: list_ex_iff list_all_iff split: node.splits, fastforce)
qed

lemma flat_yields: "flat g e \<Longrightarrow> w32_yields_ident g e \<longleftrightarrow> e = NODE_IDENT g"
  by (cases e) auto

lemma flat_not_special: "flat g e \<Longrightarrow> \<not> is_raise e \<and> \<not> is_match e"
  by (cases e) (auto simp: is_raise_def is_match_def)

section \<open>Traces\<close>

definition released :: "wev list \<Rightarrow> bool" where
  "released tr \<longleftrightarrow> (\<exists>us. tr = us @ [W_FREE] \<and> W_FREE \<notin> set us)"

definition good :: "bool \<Rightarrow> wev list \<Rightarrow> wout \<Rightarrow> bool" where
  "good l tr r \<longleftrightarrow>
     (if r = W_LEAVE \<or> (r = W_BRK \<or> r = W_CONT) \<and> \<not> l then released tr else W_FREE \<notin> set tr)"

lemma released_append: "W_FREE \<notin> set us \<Longrightarrow> released (us @ tr) \<longleftrightarrow> released tr"
proof (cases tr rule: rev_cases)
  case (snoc vs v)
  assume "W_FREE \<notin> set us"
  with snoc show ?thesis by (auto simp: released_def)
qed (auto simp: released_def)

lemma good_append: "W_FREE \<notin> set us \<Longrightarrow> good l (us @ tr) r \<longleftrightarrow> good l tr r"
  by (auto simp: good_def released_append)

lemma reads_no_free [simp]: "W_FREE \<notin> set (reads g v)"
  by (auto simp: reads_def split: option.splits)

lemma free_stmt_eq: "\<exists>i q. w32_free_stmt g p = (NODE_EXPR_STMT (NODE_CALL i (NODE_IDENT ''world_free'') [NODE_IDENT g] []), q)"
  by (simp add: w32_free_stmt_def w32_call1_def alloc_call_def w32_ident_def)

lemma stm_free: "stm g (NODE_EXPR_STMT (NODE_CALL i (NODE_IDENT ''world_free'') [NODE_IDENT g] [])) tr r \<longleftrightarrow>
    tr = [W_FREE] \<and> r = W_NEXT"
  by (auto elim!: stm_exprE intro: free simp: is_free_def)

lemma stm_raise: "stm g (NODE_EXPR_STMT (NODE_RAISE y v)) tr r \<longleftrightarrow> tr = reads g v \<and> r = W_LEAVE"
  by (auto elim!: stm_exprE intro: raise simp: is_free_def is_raise_def)

text \<open>The release in front of an exit, for a value that is evaluated.\<close>

lemma early_good:
  assumes g: "take 6 g \<noteq> ''__w32t''" and v: "flat_opt g v"
    and mk: "\<And>w tr r. stm g (mk w) tr r \<Longrightarrow> w = v \<or> reads g w = [] \<Longrightarrow> w \<noteq> Some (NODE_IDENT g) \<Longrightarrow>
      tr = reads g w \<and> r = W_LEAVE"
    and vg: "v \<noteq> Some (NODE_IDENT g) \<or> (\<forall>w. mk w \<noteq> NODE_RETURN w)"
    and run: "stms g (fst (w32_early g v mk p)) tr r"
  shows "r = W_LEAVE \<and> released tr"
proof (cases "\<exists>e. v = Some e \<and> w32_uses g e")
  case True
  then obtain e where e: "v = Some e" "w32_uses g e" by blast
  obtain n where n: "fst (w32_temp p) = ''__w32t'' @ n" by (simp add: w32_temp_def)
  then have ng: "fst (w32_temp p) \<noteq> g" using g by auto
  let ?w = "Some (w32_ident (fst (w32_temp p)))"
  have w: "reads g ?w = []" "?w \<noteq> Some (NODE_IDENT g)"
    using ng by (simp_all add: reads_def w32_ident_def)
  obtain i q where f: "w32_free_stmt g (snd (w32_temp p)) = (NODE_EXPR_STMT (NODE_CALL i (NODE_IDENT ''world_free'') [NODE_IDENT g] []), q)"
    using free_stmt_eq by blast
  have "fst (w32_early g v mk p) = [NODE_LET (fst (w32_temp p)) False None (Some e),
      NODE_EXPR_STMT (NODE_CALL i (NODE_IDENT ''world_free'') [NODE_IDENT g] []), mk ?w]"
    using e f by (cases "w32_temp p") (simp add: w32_early_def Let_def)
  with run obtain t2 where "tr = reads g (Some e) @ [W_FREE] @ t2" "stm g (mk ?w) t2 r"
    by (auto elim!: stms_consE stm_letE simp: stm_free)
  with mk [of ?w] w show ?thesis by (auto simp: released_def intro: exI [of _ "reads g (Some e)"])
next
  case False
  then have v0: "reads g v = []" using v mentions_uses by (auto simp: reads_def flat_opt_def split: option.splits)
  then have "v \<noteq> Some (NODE_IDENT g)" by (auto simp: reads_def)
  obtain i q where f: "w32_free_stmt g p = (NODE_EXPR_STMT (NODE_CALL i (NODE_IDENT ''world_free'') [NODE_IDENT g] []), q)"
    using free_stmt_eq by blast
  have "fst (w32_early g v mk p) = [NODE_EXPR_STMT (NODE_CALL i (NODE_IDENT ''world_free'') [NODE_IDENT g] []), mk v]"
    using False f by (cases v) (auto simp: w32_early_def Let_def)
  with run obtain t2 where "tr = W_FREE # t2" "stm g (mk v) t2 r"
    by (auto elim!: stms_consE simp: stm_free)
  with mk [of v] v0 \<open>v \<noteq> Some (NODE_IDENT g)\<close> show ?thesis by (auto simp: released_def intro: exI [of _ "[]"])
qed

section \<open>Loops\<close>

lemma iters_good:
  "iters g c b tr r \<Longrightarrow> (\<And>tr r. stm g b tr r \<Longrightarrow> good True tr r) \<Longrightarrow>
   good l tr r \<and> r \<noteq> W_BRK \<and> r \<noteq> W_CONT"
proof (induction rule: stm_stms_iters.inducts(3) [where ?P1.0 = "\<lambda>_ _ _. True" and ?P2.0 = "\<lambda>_ _ _. True"])
  case (iters_next b t1 r1 c t2 r)
  then have "W_FREE \<notin> set t1" using iters_next.prems [of t1 r1] by (auto simp: good_def)
  with iters_next show ?case by (simp add: good_append)
next
  case (iters_brk b tr c)
  then show ?case using iters_brk.prems [of tr W_BRK] by (simp add: good_append) (simp add: good_def)
next
  case (iters_out b tr r c)
  then show ?case using iters_out.prems [of tr r] by (auto simp: good_append) (auto simp: good_def)
qed (simp_all add: good_def)

section \<open>Statements\<close>

lemma vec_good:
  assumes "\<And>s l p tr r. s \<in> set ss \<Longrightarrow> plain g s \<Longrightarrow> stms g (fst (w32_inject_stmt g l s p)) tr r \<Longrightarrow> good l tr r"
  shows "list_all (plain g) ss \<Longrightarrow> stms g (fst (w32_inject_vec g l ss p)) tr r \<Longrightarrow> good l tr r"
  using assms
proof (induction ss arbitrary: p tr)
  case Nil
  then show ?case by (simp add: good_def)
next
  case (Cons s ss)
  obtain us q vs u where e: "w32_inject_stmt g l s p = (us, q)" "w32_inject_vec g l ss q = (vs, u)" by fastforce
  with Cons.prems(2) consider t1 t2 where "stms g us t1 W_NEXT" "stms g vs t2 r" "tr = t1 @ t2"
    | "r \<noteq> W_NEXT" "stms g us tr r"
    by (auto simp: stms_append)
  then show ?case
  proof cases
    case 1
    have "good l t1 W_NEXT" using Cons.prems(3) [of s l p t1] Cons.prems(1) e 1 by simp
    moreover have "good l t2 r"
    proof (rule Cons.IH [of q])
      show "list_all (plain g) ss" "stms g (fst (w32_inject_vec g l ss q)) t2 r"
        using Cons.prems(1) e 1 by simp_all
    qed (rule Cons.prems(3), simp_all)
    moreover from calculation(1) have "W_FREE \<notin> set t1" by (simp add: good_def)
    ultimately show ?thesis using 1(3) by (simp add: good_append)
  next
    case 2
    then show ?thesis using Cons.prems(3) [of s l p tr] Cons.prems(1) e by simp
  qed
qed

lemma arm_of_body: "w32_inject_arm g l (NODE_BLOCK ss) p = (NODE_BLOCK (fst (w32_inject_vec g l ss p)), snd (w32_inject_vec g l ss p))"
  by (simp add: w32_inject_arm.simps split: prod.splits)

lemma plain_bodyE: "plain_body g b \<Longrightarrow> (\<And>ss. b = NODE_BLOCK ss \<Longrightarrow> list_all (plain g) ss \<Longrightarrow> P) \<Longrightarrow> P"
  by (cases b) auto

lemma inject_stmt_good:
  assumes g: "take 6 g \<noteq> ''__w32t''"
  shows "plain g s \<Longrightarrow> stms g (fst (w32_inject_stmt g l s p)) tr r \<Longrightarrow> good l tr r"
proof (induction s arbitrary: l p tr r rule: measure_induct_rule [of size])
  case (less s)
  have vec: "list_all (plain g) ss \<Longrightarrow> stms g (fst (w32_inject_vec g l ss p)) tr r \<Longrightarrow> good l tr r"
    if "size_list size ss < size s" for ss l p tr r
  proof (rule vec_good)
    fix z l p tr r
    assume z: "z \<in> set ss" "plain g z" "stms g (fst (w32_inject_stmt g l z p)) tr r"
    have "size z < size_list size ss" using z(1) by (induction ss) auto
    with that have "size z < size s" by simp
    from less.IH [OF this z(2,3)] show "good l tr r" .
  qed
  note run = less.prems(2) [unfolded w32_inject_stmt.simps [of g l s p]]
  show ?case
  proof (cases s)
    case (NODE_RETURN v)
    show ?thesis
    proof (cases "v = Some (NODE_IDENT g)")
      case True
      with run NODE_RETURN have "r = W_EXPORT" "tr = []" by (auto elim!: stms_consE stm_returnE)
      then show ?thesis by (simp add: good_def)
    next
      case False
      then have "\<not> (case v of None \<Rightarrow> False | Some e \<Rightarrow> w32_yields_ident g e)"
        using less.prems(1) NODE_RETURN flat_yields by (auto simp: flat_opt_def split: option.splits)
      with run NODE_RETURN have "stms g (fst (w32_early g v NODE_RETURN p)) tr r" by simp
      from early_good [OF g _ _ _ this] False less.prems(1) NODE_RETURN
      have "r = W_LEAVE \<and> released tr" by (auto elim!: stm_returnE)
      then show ?thesis by (simp add: good_def)
    qed
  next
    case (NODE_EXPR_STMT e)
    show ?thesis
    proof (cases "\<exists>y v. e = NODE_RAISE y v")
      case True
      then obtain y v where e: "e = NODE_RAISE y v" by blast
      with run NODE_EXPR_STMT have "stms g (fst (w32_early g v (\<lambda>v. NODE_EXPR_STMT (NODE_RAISE y v)) p)) tr r" by simp
      from early_good [OF g _ _ _ this] less.prems(1) NODE_EXPR_STMT e
      have "r = W_LEAVE \<and> released tr" by (simp add: stm_raise)
      then show ?thesis by (simp add: good_def)
    next
      case False
      then have f: "flat g e" "\<not> is_free g e" using less.prems(1) NODE_EXPR_STMT by (auto split: node.splits)
      have "stms g [s] tr r" using run NODE_EXPR_STMT False by (auto split: node.splits)
      then have "r = W_NEXT \<and> W_FREE \<notin> set tr"
        using f flat_not_special [OF f(1)] NODE_EXPR_STMT
        by (auto elim!: stms_consE stm_exprE simp: is_match_def is_raise_def)
      then show ?thesis by (simp add: good_def)
    qed
  next
    case NODE_BREAK
    with run free_stmt_eq [of g p] show ?thesis
      by (auto simp: good_def stm_free released_def elim!: stms_consE stm_breakE split: if_splits intro: exI [of _ "[]"])
  next
    case NODE_CONTINUE
    with run free_stmt_eq [of g p] show ?thesis
      by (auto simp: good_def stm_free released_def elim!: stms_consE stm_continueE split: if_splits intro: exI [of _ "[]"])
  next
    case (NODE_LET y m t v)
    with run show ?thesis by (auto simp: good_def elim!: stms_consE stm_letE)
  next
    case (NODE_BLOCK ss)
    with run have "stms g (fst (w32_inject_vec g l ss p)) tr r"
      by (auto elim!: stms_consE stm_blockE split: prod.splits)
    then show ?thesis using vec [of ss l p tr r] less.prems(1) NODE_BLOCK by simp
  next
    case (NODE_IF c t e)
    have ct: "plain_body g t" using less.prems(1) NODE_IF by simp
    then obtain ts where t: "t = NODE_BLOCK ts" "list_all (plain g) ts" by (rule plain_bodyE)
    have gt: "good l tr' r'" if "stms g (fst (w32_inject_vec g l ts p)) tr' r'" for tr' r'
      using vec [of ts l p tr' r'] that t NODE_IF by simp
    show ?thesis
    proof (cases e)
      case None
      with run NODE_IF t show ?thesis
        by (auto simp: arm_of_body good_append intro: gt elim!: stms_consE stm_ifE stm_blockE) (auto simp: good_def)
    next
      case (Some b)
      then obtain bs where b: "b = NODE_BLOCK bs" "list_all (plain g) bs"
        using less.prems(1) NODE_IF by (auto elim: plain_bodyE)
      have gb: "good l tr' r'" if "stms g (fst (w32_inject_vec g l bs q)) tr' r'" for tr' r' q
        using vec [of bs l q tr' r'] that b NODE_IF Some by simp
      from run NODE_IF t Some b show ?thesis
        by (auto simp: arm_of_body good_append intro: gt gb elim!: stms_consE stm_ifE stm_blockE)
    qed
  next
    case (NODE_WHILE c b vs)
    then obtain bs where b: "b = NODE_BLOCK bs" "list_all (plain g) bs"
      using less.prems(1) by (auto elim: plain_bodyE)
    let ?us = "fst (w32_inject_vec g True bs p)"
    have body: "good True tr' r'" if "stm g (NODE_BLOCK ?us) tr' r'" for tr' r'
      using vec [of bs True p tr' r'] that b NODE_WHILE by (auto elim!: stm_blockE)
    have "iters g (Some c) (NODE_BLOCK ?us) tr r"
      using run NODE_WHILE b by (auto elim!: stms_consE stm_whileE split: prod.splits)
    then show ?thesis using iters_good [OF _ body] by blast
  next
    case (NODE_FOR y i b)
    then obtain bs where b: "b = NODE_BLOCK bs" "list_all (plain g) bs"
      using less.prems(1) by (auto elim: plain_bodyE)
    let ?us = "fst (w32_inject_vec g True bs p)"
    have body: "good True tr' r'" if "stm g (NODE_BLOCK ?us) tr' r'" for tr' r'
      using vec [of bs True p tr' r'] that b NODE_FOR by (auto elim!: stm_blockE)
    have "\<exists>t2. tr = reads g (Some i) @ t2 \<and> iters g None (NODE_BLOCK ?us) t2 r"
      using run NODE_FOR b by (auto elim!: stms_consE stm_forE split: prod.splits)
    then show ?thesis using iters_good [OF _ body] by (auto simp: good_append)
  qed (use less.prems(1) in simp_all)
qed

section \<open>The lowered block\<close>

lemma last_exits: "(\<And>tr. \<not> stm g (last ss) tr W_NEXT) \<Longrightarrow> ss \<noteq> [] \<Longrightarrow> \<not> stms g ss tr W_NEXT"
  by (cases ss rule: rev_cases) (auto simp: stms_append elim!: stms_consE)

lemma exits_no_next:
  "w32_stmt_exits s \<Longrightarrow> \<not> stm g s tr W_NEXT"
  "w32_arm_exits s \<Longrightarrow> \<not> stm g s tr W_NEXT"
proof (induction s and s arbitrary: tr and tr rule: w32_stmt_exits_w32_arm_exits.induct)
  case (5 e)
  then show ?case by (auto simp: stm_raise split: node.splits)
qed (auto elim: stm_returnE stm_breakE stm_raiseE stm_continueE stm_ifE stm_blockE dest: last_exits [rotated -1]
    split: option.splits if_splits)

lemma lower_good:
  assumes g: "take 6 g \<noteq> ''__w32t''" and n: "g \<noteq> ''world_new''" and b: "list_all (plain g) ss"
    and l: "fst (w32_lower g ss p) = NODE_BLOCK bs" and run: "stms g bs tr r"
  shows "if r = W_EXPORT then W_FREE \<notin> set tr else released tr"
proof -
  obtain c q where c: "w32_call1 ''world_new'' None p = (c, q)" by fastforce
  have c0: "reads g (Some c) = []"
    using c n by (auto simp: w32_call1_def alloc_call_def w32_ident_def reads_def)
  obtain us q' where u: "w32_inject_vec g False ss q = (us, q')" by fastforce
  have good: "good False tr' r'" if "stms g us tr' r'" for tr' r'
  proof -
    have "stms g (fst (w32_inject_vec g False ss q)) tr' r'" using that u by simp
    from vec_good [OF inject_stmt_good [OF g] b this] show ?thesis .
  qed
  show ?thesis
  proof (cases "w32_vec_exits us")
    case True
    then have "\<not> stms g us tr W_NEXT" using last_exits exits_no_next(1) by (auto simp: w32_vec_exits_def)
    moreover have "stms g us tr r"
      using l run True c u c0 by (auto simp: w32_lower_def elim!: stms_consE stm_letE)
    ultimately show ?thesis using good [of tr r] by (cases r) (auto simp: good_def)
  next
    case False
    obtain i q2 where f: "w32_free_stmt g q' = (NODE_EXPR_STMT (NODE_CALL i (NODE_IDENT ''world_free'') [NODE_IDENT g] []), q2)"
      using free_stmt_eq by blast
    have "stms g (us @ [fst (w32_free_stmt g q')]) tr r"
      using l run False c u c0 f by (auto simp: w32_lower_def elim!: stms_consE stm_letE)
    then consider t1 where "stms g us t1 W_NEXT" "tr = t1 @ [W_FREE]" "r = W_NEXT"
      | "r \<noteq> W_NEXT" "stms g us tr r"
      using f by (auto simp: stms_append stm_free elim!: stms_consE)
    then show ?thesis
    proof cases
      case 1
      then show ?thesis using good [of t1 W_NEXT] by (simp add: good_def released_append) (simp add: released_def)
    next
      case 2
      then show ?thesis using good [of tr r] by (cases r) (auto simp: good_def)
    qed
  qed
qed

end
