(* ===== verification/ParseWorldProps.thy ===== *)
theory ParseWorldProps
  imports ParseWorldSound
begin

text \<open>World blocks: one release on every path, and the exits that the lowering overlooks.\<close>


definition call :: "string \<Rightarrow> node list \<Rightarrow> node" where
  "call f as = NODE_CALL 9 (NODE_IDENT f) as []"

definition state0 :: Parser where
  "state0 = parser_init (\<lambda>_. 0) [] []"

text \<open>A block that returns early, and its lowering.\<close>

definition early_ret :: "node list" where
  "early_ret = [NODE_IF (NODE_IDENT ''c'') (NODE_BLOCK [NODE_RETURN (Some (call ''len'' [NODE_IDENT ''g'']))]) None]"

definition freed :: "nat \<Rightarrow> node" where
  "freed i = NODE_EXPR_STMT (NODE_CALL i (NODE_IDENT ''world_free'') [NODE_IDENT ''g''] [])"

definition world_let :: node where
  "world_let = NODE_LET ''g'' False None (Some (NODE_CALL 0 (NODE_IDENT ''world_new'') [] []))"

lemmas lower_simps = w32_lower_def w32_inject_stmt.simps w32_inject_arm.simps w32_early_def w32_free_stmt_def
  w32_call1_def alloc_call_def w32_ident_def w32_temp_def w32_vec_exits_def state0_def parser_init_def call_def
  freed_def world_let_def

lemma early_lowered:
  "fst (w32_lower ''g'' early_ret state0) =
   NODE_BLOCK [world_let,
     NODE_IF (NODE_IDENT ''c'') (NODE_BLOCK
       [NODE_LET (''__w32t'' @ dec_str 0) False None (Some (call ''len'' [NODE_IDENT ''g''])), freed 1,
        NODE_RETURN (Some (NODE_IDENT (''__w32t'' @ dec_str 0)))]) None,
     freed 2]"
  by (simp add: lower_simps early_ret_def)

lemma early_run:
  "stms ''g'' [world_let,
     NODE_IF (NODE_IDENT ''c'') (NODE_BLOCK
       [NODE_LET (''__w32t'' @ dec_str 0) False None (Some (call ''len'' [NODE_IDENT ''g''])), freed 1,
        NODE_RETURN (Some (NODE_IDENT (''__w32t'' @ dec_str 0)))]) None,
     freed 2] [W_USE, W_FREE] W_LEAVE"
  by (simp add: run_simps reads_def call_def freed_def world_let_def is_free_def is_raise_def is_match_def)


text \<open>
  Code bugs at concrete blocks. In front of \<open>return g.size()\<close> the world is released
  before it is used, because the callee of a call is not searched for the world; and a
  \<open>break\<close> or a raise in an arm of a match leaves the block without a release, because the parser
  wraps a match in an expression statement, which the lowering does not enter.
\<close>

theorem world_exits_overlooked:
  "(\<exists>bs. fst (w32_lower ''g'' [NODE_RETURN (Some (NODE_CALL 9 (NODE_FIELD (NODE_IDENT ''g'') ''size'') [] []))] state0) = NODE_BLOCK bs \<and>
      stms ''g'' bs [W_FREE, W_USE] W_LEAVE) \<and>
   (\<exists>bs. fst (w32_lower ''g'' [NODE_EXPR_STMT (NODE_MATCH (NODE_IDENT ''x'') [(Some (NODE_INT_LIT 1), None, NODE_BLOCK [NODE_BREAK])])]
        state0) = NODE_BLOCK bs \<and> stms ''g'' bs [] W_BRK) \<and>
   (\<exists>bs. fst (w32_lower ''g'' [NODE_EXPR_STMT (NODE_MATCH (NODE_IDENT ''x'')
        [(None, None, NODE_BLOCK [NODE_EXPR_STMT (NODE_RAISE ''IO'' None)])])] state0) = NODE_BLOCK bs \<and> stms ''g'' bs [] W_LEAVE)"
  by (simp add: lower_simps run_simps reads_def is_free_def is_raise_def is_match_def arm_stmts_def)

end
