(* ===== verification/ParseTypes.thy ===== *)
theory ParseTypes
  imports ParseCore
begin

text \<open>
  The tokens of a type, with every closing bracket by itself, and that the parser of types
  reads them back however the lexer groups the brackets into \<open>>>\<close> and \<open>>>>\<close>, where no
  comma follows a group that closes a list of type arguments.
\<close>

section \<open>Brackets one by one\<close>

type_synonym view = "token_kind \<times> string option"

abbreviation gt :: view where
  "gt \<equiv> (TOK_GT, None)"

definition views :: "token \<Rightarrow> view list" where
  "views t =
     (if tk_kind t = TOK_RSHIFT then [gt, gt]
      else if tk_kind t = TOK_URSHIFT then [gt, gt, gt]
      else [(tk_kind t, if tk_kind t = TOK_IDENT then tk_text t else None)])"

definition behind :: "Parser \<Rightarrow> view list" where
  "behind p = concat (map views (drop (ps_pos p) (ps_tokens p)))"

text \<open>What the parser has before it, with the brackets that a consumed token still closes.\<close>

definition ahead :: "Parser \<Rightarrow> view list" where
  "ahead p = replicate (ps_gt_pending p) gt @ behind p"

lemma behind_cases:
  assumes "behind p \<noteq> []"
  shows "ps_pos p < length (ps_tokens p)" "behind p = views (cur p) @ behind (p\<lparr>ps_pos := Suc (ps_pos p)\<rparr>)"
proof -
  show l: "ps_pos p < length (ps_tokens p)" using assms by (auto simp: behind_def intro: ccontr)
  then show "behind p = views (cur p) @ behind (p\<lparr>ps_pos := Suc (ps_pos p)\<rparr>)"
    by (simp add: behind_def cur_def flip: Cons_nth_drop_Suc)
qed

lemma views_not_gt: "views t = v # vs \<Longrightarrow> v \<noteq> gt \<Longrightarrow> vs = [] \<and> tk_kind t = fst v \<and> (fst v = TOK_IDENT \<longrightarrow> tk_text t = snd v)"
  by (auto simp: views_def split: if_splits)

lemma views_gt: "views t = gt # vs \<Longrightarrow> tk_kind t \<in> {TOK_GT, TOK_RSHIFT, TOK_URSHIFT}"
  by (auto simp: views_def split: if_splits)

lemma advance_behind: "behind p = views (cur p) @ vs \<Longrightarrow> vs \<noteq> [] \<Longrightarrow>
  advance p = p\<lparr>ps_pos := Suc (ps_pos p)\<rparr> \<and> behind (advance p) = vs"
proof -
  assume b: "behind p = views (cur p) @ vs" "vs \<noteq> []"
  then have "behind p \<noteq> []" by simp
  note c = behind_cases [OF this]
  then have vs: "behind (p\<lparr>ps_pos := Suc (ps_pos p)\<rparr>) = vs" using b(1) by simp
  then have "Suc (ps_pos p) < length (ps_tokens p)" using b(2) behind_cases(1) [of "p\<lparr>ps_pos := Suc (ps_pos p)\<rparr>"] by simp
  then have "advance p = p\<lparr>ps_pos := Suc (ps_pos p)\<rparr>" by (simp add: advance_def)
  with vs show ?thesis by simp
qed

text \<open>A token that is not a bracket is read when nothing is pending.\<close>

definition same_errors :: "Parser \<Rightarrow> Parser \<Rightarrow> bool" where
  "same_errors p q \<longleftrightarrow> ps_errors q = ps_errors p \<and> ps_type_depth q = ps_type_depth p"

lemma same_errors_refl [simp]: "same_errors p p"
  by (simp add: same_errors_def)

lemma same_errors_trans: "same_errors p q \<Longrightarrow> same_errors q r \<Longrightarrow> same_errors p r"
  by (simp add: same_errors_def)

lemma ahead_not_gt: "ahead p = v # vs \<Longrightarrow> v \<noteq> gt \<Longrightarrow> ps_gt_pending p = 0 \<and> behind p = v # vs"
  by (cases "ps_gt_pending p") (auto simp: ahead_def)

lemma read_token:
  assumes "ahead p = v # vs" and "v \<noteq> gt" and "vs \<noteq> []"
  shows "peek_kind p = fst v" "fst v = TOK_IDENT \<Longrightarrow> tk_text (cur p) = snd v"
    "ahead (advance p) = vs" "same_errors p (advance p)" "ps_gt_pending (advance p) = 0"
proof -
  have b: "ps_gt_pending p = 0" "behind p = v # vs" using ahead_not_gt [OF assms(1,2)] by auto
  then have c: "views (cur p) @ behind (p\<lparr>ps_pos := Suc (ps_pos p)\<rparr>) = v # vs" using behind_cases(2) [of p] by simp
  moreover have "views (cur p) \<noteq> []" by (simp add: views_def)
  ultimately obtain us where us: "views (cur p) = v # us" by (metis append_Cons list.exhaust list.inject)
  from views_not_gt [OF this assms(2)] have k: "us = []" "tk_kind (cur p) = fst v" "fst v = TOK_IDENT \<longrightarrow> tk_text (cur p) = snd v"
    by auto
  have "behind p = views (cur p) @ vs" using b us k(1) by simp
  from advance_behind [OF this assms(3)]
  have "advance p = p\<lparr>ps_pos := Suc (ps_pos p)\<rparr>" "behind (advance p) = vs" by auto
  with b(1) show "ahead (advance p) = vs" "same_errors p (advance p)" "ps_gt_pending (advance p) = 0"
    by (simp_all add: ahead_def same_errors_def)
  show "peek_kind p = fst v" "fst v = TOK_IDENT \<Longrightarrow> tk_text (cur p) = snd v" using k by (auto simp: peek_kind_def)
qed

text \<open>A closing bracket is read from a group, or from what is pending.\<close>

lemma read_gt:
  assumes "ahead p = gt # vs" and "dropWhile ((=) gt) vs \<noteq> []"
  shows "ahead (expect_gt_split p) = vs" "same_errors p (expect_gt_split p)"
proof -
  have "ahead (expect_gt_split p) = vs \<and> same_errors p (expect_gt_split p)"
  proof (cases "ps_gt_pending p")
    case (Suc g)
    then show ?thesis using assms(1) by (simp add: expect_gt_split_def ahead_def behind_def same_errors_def)
  next
    case 0
    then have b: "behind p = gt # vs" using assms(1) by (simp add: ahead_def)
    then have c: "behind p = views (cur p) @ behind (p\<lparr>ps_pos := Suc (ps_pos p)\<rparr>)" using behind_cases(2) [of p] by simp
    then obtain us where us: "views (cur p) = gt # us"
      using b by (cases "views (cur p)") (auto simp: views_def split: if_splits)
    note k = views_gt [OF this]
    let ?r = "behind (p\<lparr>ps_pos := Suc (ps_pos p)\<rparr>)"
    have vs: "vs = us @ ?r" using b c us by simp
    have gts: "us = replicate (length us) gt" using us k by (auto simp: views_def)
    have "?r \<noteq> []"
    proof
      assume "?r = []"
      then have "vs = replicate (length us) gt" using vs gts by simp
      then show False using assms(2) by (metis dropWhile_replicate)
    qed
    from advance_behind [OF c this]
    have a: "advance p = p\<lparr>ps_pos := Suc (ps_pos p)\<rparr>" "behind (advance p) = ?r" by auto
    have "behind ((advance p)\<lparr>ps_gt_pending := g\<rparr>) = ?r" for g using a by (simp add: behind_def)
    then show ?thesis
      using k us vs a 0 gts
      by (auto simp: expect_gt_split_def expect_tok_def check_tok_def peek_kind_def ahead_def same_errors_def views_def
          numeral_2_eq_2 split: if_splits)
  qed
  then show "ahead (expect_gt_split p) = vs" "same_errors p (expect_gt_split p)" by auto
qed

section \<open>The tokens of a type\<close>

fun ttoks :: "tnode \<Rightarrow> view list" and tlist :: "tnode list \<Rightarrow> view list" where
  "ttoks (NODE_TYPE x i1 i2 us) =
     (TOK_IDENT, Some x) #
     (case i1 of
        None \<Rightarrow> if us = [] then [] else (TOK_LT, None) # tlist us @ [gt]
      | Some u \<Rightarrow> (TOK_LT, None) # ttoks u @
          (case i2 of None \<Rightarrow> [] | Some v \<Rightarrow> (TOK_COMMA, None) # ttoks v) @ [gt])"
| "ttoks (NODE_TYPE_REF u) = (TOK_AMP, None) # ttoks u"
| "ttoks (NODE_TYPE_ARRAY u) = (TOK_LBRACKET, None) # ttoks u @ [(TOK_RBRACKET, None)]"
| "ttoks (NODE_TYPE_FN ps r) =
     (TOK_FN, None) # (TOK_LPAREN, None) # tlist ps @ (TOK_RPAREN, None) # (TOK_ARROW, None) # ttoks r"
| "ttoks (NODE_TYPE_EFFECT t es) = ttoks t"
| "tlist [] = []"
| "tlist [u] = ttoks u"
| "tlist (u # v # us) = ttoks u @ (TOK_COMMA, None) # tlist (v # us)"

text \<open>The types that the parser makes, without effects.\<close>

fun type_ok :: "tnode \<Rightarrow> bool" where
  "type_ok (NODE_TYPE x i1 i2 us) \<longleftrightarrow>
     (if x = ''Vec'' then i1 \<noteq> None \<and> i2 = None \<and> us = []
      else if x = ''Map'' then i1 \<noteq> None \<and> i2 \<noteq> None \<and> us = []
      else i1 = None \<and> i2 = None) \<and>
     pred_option type_ok i1 \<and> pred_option type_ok i2 \<and> list_all type_ok us"
| "type_ok (NODE_TYPE_REF u) = type_ok u"
| "type_ok (NODE_TYPE_ARRAY u) = type_ok u"
| "type_ok (NODE_TYPE_FN ps r) \<longleftrightarrow> list_all type_ok ps \<and> type_ok r"
| "type_ok (NODE_TYPE_EFFECT t es) = False"

fun ends_gt :: "tnode \<Rightarrow> bool" where
  "ends_gt (NODE_TYPE x i1 i2 us) \<longleftrightarrow> i1 \<noteq> None \<or> us \<noteq> []"
| "ends_gt (NODE_TYPE_REF u) = ends_gt u"
| "ends_gt (NODE_TYPE_ARRAY u) = False"
| "ends_gt (NODE_TYPE_FN ps r) = ends_gt r"
| "ends_gt (NODE_TYPE_EFFECT t es) = False"

text \<open>
  \<open>b\<close> tells that a comma may follow the type and the brackets after it: then the last of
  its type arguments must not end with a bracket, which would be grouped with its own.
\<close>

fun gt_safe :: "bool \<Rightarrow> tnode \<Rightarrow> bool" and gt_safe_list :: "bool \<Rightarrow> tnode list \<Rightarrow> bool" where
  "gt_safe b (NODE_TYPE x i1 i2 us) \<longleftrightarrow>
     (case i1 of None \<Rightarrow> True | Some u \<Rightarrow> gt_safe (b \<or> i2 \<noteq> None) u) \<and>
     (case i2 of None \<Rightarrow> True | Some u \<Rightarrow> gt_safe b u) \<and> gt_safe_list b us"
| "gt_safe b (NODE_TYPE_REF u) = gt_safe b u"
| "gt_safe b (NODE_TYPE_ARRAY u) = gt_safe False u"
| "gt_safe b (NODE_TYPE_FN ps r) \<longleftrightarrow> gt_safe_list False ps \<and> gt_safe b r"
| "gt_safe b (NODE_TYPE_EFFECT t es) = gt_safe b t"
| "gt_safe_list b [] = True"
| "gt_safe_list b [u] \<longleftrightarrow> gt_safe b u \<and> \<not> (b \<and> ends_gt u)"
| "gt_safe_list b (u # v # us) \<longleftrightarrow> gt_safe True u \<and> gt_safe_list b (v # us)"

definition follows :: "bool \<Rightarrow> view list \<Rightarrow> bool" where
  "follows b ks \<longleftrightarrow>
     (case dropWhile ((=) gt) ks of
        [] \<Rightarrow> False
      | k # _ \<Rightarrow> fst k \<notin> {TOK_LT, TOK_DOT, TOK_BANG} \<and> (fst k = TOK_COMMA \<longrightarrow> b))"

lemma follows_gt [simp]: "follows b (gt # ks) = follows b ks"
  by (simp add: follows_def)

lemma follows_other [simp]:
  "fst k \<noteq> TOK_GT \<Longrightarrow> follows b (k # ks) \<longleftrightarrow> fst k \<notin> {TOK_LT, TOK_DOT, TOK_BANG} \<and> (fst k = TOK_COMMA \<longrightarrow> b)"
  by (cases k) (simp add: follows_def)

lemma follows_ne: "follows b ks \<Longrightarrow> dropWhile ((=) gt) ks \<noteq> [] \<and> ks \<noteq> []"
  by (cases "dropWhile ((=) gt) ks"; cases ks) (simp_all add: follows_def del: dropWhile_eq_Nil_conv)

text \<open>The tests after a type look at the next token, past what is pending.\<close>

lemma peek_after:
  assumes "follows b (ahead p)"
  shows "\<not> check_tok p TOK_LT" "\<not> check_tok p TOK_DOT" "\<not> check_tok p TOK_BANG"
    "check_tok p TOK_COMMA \<Longrightarrow> b \<and> (ps_gt_pending p = 0 \<longrightarrow> fst (hd (ahead p)) = TOK_COMMA)"
proof -
  have d: "dropWhile ((=) gt) (ahead p) = dropWhile ((=) gt) (behind p)"
    by (simp add: ahead_def dropWhile_append)
  then have ne: "behind p \<noteq> []" using follows_ne [OF assms] by auto
  obtain v vs where v: "views (cur p) = v # vs" by (cases "views (cur p)") (auto simp: views_def split: if_splits)
  then obtain ws where b: "behind p = v # ws" using behind_cases(2) [OF ne] by simp
  have "\<not> check_tok p TOK_LT \<and> \<not> check_tok p TOK_DOT \<and> \<not> check_tok p TOK_BANG \<and>
      (check_tok p TOK_COMMA \<longrightarrow> b \<and> (ps_gt_pending p = 0 \<longrightarrow> fst (hd (ahead p)) = TOK_COMMA))"
  proof (cases "v = gt")
    case True
    then show ?thesis using views_gt [of "cur p" vs] v by (auto simp: check_tok_def peek_kind_def)
  next
    case False
    then have "dropWhile ((=) gt) (ahead p) = v # ws" using d b by simp
    then show ?thesis
      using assms views_not_gt [OF v False] b by (auto simp: follows_def check_tok_def peek_kind_def ahead_def)
  qed
  then show "\<not> check_tok p TOK_LT" "\<not> check_tok p TOK_DOT" "\<not> check_tok p TOK_BANG"
    "check_tok p TOK_COMMA \<Longrightarrow> b \<and> (ps_gt_pending p = 0 \<longrightarrow> fst (hd (ahead p)) = TOK_COMMA)" by auto
qed

section \<open>Reading a type\<close>

definition reads_as :: "Parser \<Rightarrow> (tnode \<times> Parser) option \<Rightarrow> tnode \<Rightarrow> view list \<Rightarrow> bool" where
  "reads_as p r t ks \<longleftrightarrow>
     (\<exists>q. r = Some (t, q) \<and> ahead q = ks \<and> same_errors p q \<and> (ps_gt_pending q > 0 \<longrightarrow> ends_gt t))"

lemma reads_asI: "r = Some (t, q) \<Longrightarrow> ahead q = ks \<Longrightarrow> same_errors p q \<Longrightarrow> (ps_gt_pending q > 0 \<Longrightarrow> ends_gt t) \<Longrightarrow>
  reads_as p r t ks"
  by (auto simp: reads_as_def)

lemma reads_wrap:
  assumes "reads_as (p\<lparr>ps_type_depth := ps_type_depth p + 1\<rparr>)
      (parse_type_rec n (parse_type n) (p\<lparr>ps_type_depth := ps_type_depth p + 1\<rparr>)) t ks"
    and "0 < ps_type_depth p \<or> hd ks \<noteq> gt" and "ks \<noteq> []"
  shows "reads_as p (parse_type (Suc n) p) t ks"
proof -
  obtain q where q: "parse_type_rec n (parse_type n) (p\<lparr>ps_type_depth := ps_type_depth p + 1\<rparr>) = Some (t, q)"
    "ahead q = ks" "ps_errors q = ps_errors p" "ps_type_depth q = ps_type_depth p + 1" "ps_gt_pending q > 0 \<longrightarrow> ends_gt t"
    using assms(1) by (auto simp: reads_as_def same_errors_def)
  have upd: "ahead (q\<lparr>ps_type_depth := d\<rparr>) = ahead q" for d by (simp add: ahead_def behind_def)
  have pend: "ps_gt_pending q = 0" if "hd ks \<noteq> gt"
    using that q(2) assms(3) by (cases "ps_gt_pending q") (auto simp: ahead_def)
  show ?thesis
  proof (cases "ps_type_depth p = 0")
    case False
    then show ?thesis
      using q upd by (intro reads_asI [of _ _ "q\<lparr>ps_type_depth := ps_type_depth p\<rparr>"]) (simp_all add: same_errors_def)
  next
    case True
    then have "ps_gt_pending q = 0" using assms(2) pend by simp
    then have "q\<lparr>ps_type_depth := 0, ps_gt_pending := 0\<rparr> = q\<lparr>ps_type_depth := 0\<rparr>" by simp
    then show ?thesis
      using True q upd by (intro reads_asI [of _ _ "q\<lparr>ps_type_depth := 0\<rparr>"]) (simp_all add: same_errors_def)
  qed
qed

definition reads_ok :: "nat \<Rightarrow> tnode \<Rightarrow> bool" where
  "reads_ok n t \<longleftrightarrow> (\<forall>b p ks. gt_safe b t \<longrightarrow> ahead p = ttoks t @ ks \<longrightarrow> follows b ks \<longrightarrow>
     0 < ps_type_depth p \<or> hd ks \<noteq> gt \<longrightarrow> reads_as p (parse_type n p) t ks)"

lemma ttoks_start: "\<exists>k ks. ttoks t = k # ks \<and> fst k \<in> {TOK_IDENT, TOK_AMP, TOK_LBRACKET, TOK_FN}"
  by (induction t) auto

text \<open>A list of types, read by the loop over the commas.\<close>

lemma reads_list:
  assumes "\<And>u. u \<in> set us \<Longrightarrow> reads_ok n u" and "us \<noteq> []" and "gt_safe_list b us"
    and "ahead p = tlist us @ ks" and "follows b ks" and "fst (hd ks) \<noteq> TOK_COMMA" and "length us \<le> m"
    and "0 < ps_type_depth p"
  shows "\<exists>q. comma_sep m (parse_type n) p = Some (us, q) \<and> ahead q = ks \<and> same_errors p q"
  using assms
proof (induction us arbitrary: p m rule: induct_list012)
  case (2 u)
  then obtain k where m: "m = Suc k" by (cases m) auto
  from 2 obtain q where q: "parse_type n p = Some (u, q)" "ahead q = ks" "same_errors p q" "ps_gt_pending q > 0 \<longrightarrow> ends_gt u"
    unfolding reads_ok_def reads_as_def by (metis gt_safe_list.simps(2) list.set_intros(1) tlist.simps(2))
  have "follows b (ahead q)" using 2 q by simp
  from peek_after(4) [OF this] have "\<not> check_tok q TOK_COMMA" using 2 q by auto
  then show ?case using q m by simp
next
  case (3 u v us)
  then obtain k where m: "m = Suc k" by (cases m) auto
  let ?ks = "(TOK_COMMA, None) # tlist (v # us) @ ks"
  have "reads_as p (parse_type n p) u ?ks"
    using 3 unfolding reads_ok_def by auto
  then obtain q where q: "parse_type n p = Some (u, q)" "ahead q = ?ks" "same_errors p q" by (auto simp: reads_as_def)
  have "tlist (v # us) @ ks \<noteq> []" using follows_ne [OF 3(7)] by simp
  from read_token [OF q(2) _ this] have c: "peek_kind q = TOK_COMMA" "ahead (advance q) = tlist (v # us) @ ks" "same_errors q (advance q)"
    by auto
  have "0 < ps_type_depth (advance q)" using q(3) c(3) 3 by (simp add: same_errors_def)
  then have "\<exists>r. comma_sep k (parse_type n) (advance q) = Some (v # us, r) \<and> ahead r = ks \<and> same_errors (advance q) r"
    using 3 c m by (intro 3(2)) auto
  then obtain r where r: "comma_sep k (parse_type n) (advance q) = Some (v # us, r)" "ahead r = ks" "same_errors (advance q) r"
    by blast
  then show ?case using q c m by (auto simp: check_tok_def intro: same_errors_trans)
qed simp_all

section \<open>The forms of a type\<close>

lemma read_skip:
  assumes "ahead p = (k, x) # vs" and "k \<noteq> TOK_GT" and "vs \<noteq> []"
  shows "check_tok p k" "expect_tok k p = (cur p, advance p)" "ahead (advance p) = vs" "same_errors p (advance p)"
    "ps_gt_pending (advance p) = 0"
  using read_token [OF assms(1) _ assms(3)] assms(2) by (simp_all add: expect_tok_def check_tok_def)

lemma same_errors_depth: "same_errors p q \<Longrightarrow> ps_type_depth q = ps_type_depth p"
  by (simp add: same_errors_def)

lemma reads_okD:
  assumes "reads_ok n t" and "gt_safe b t" and "ahead p = ttoks t @ ks" and "follows b ks" and "0 < ps_type_depth p"
  obtains q where "parse_type n p = Some (t, q)" "ahead q = ks" "same_errors p q" "ps_gt_pending q > 0 \<longrightarrow> ends_gt t"
  using assms unfolding reads_ok_def reads_as_def by metis

lemma reads_ref:
  assumes "reads_ok n u" and "gt_safe b u" and "ahead p = ttoks (NODE_TYPE_REF u) @ ks" and "follows b ks" and "0 < ps_type_depth p"
  shows "reads_as p (parse_type_rec n (parse_type n) p) (NODE_TYPE_REF u) ks"
proof -
  have a: "ahead p = (TOK_AMP, None) # ttoks u @ ks" "ttoks u @ ks \<noteq> []" using assms(3) follows_ne [OF assms(4)] by auto
  note r = read_skip [OF a(1) _ a(2)]
  have "0 < ps_type_depth (advance p)" using assms(5) r(4) by (simp add: same_errors_def)
  with assms r obtain q where q: "parse_type n (advance p) = Some (u, q)" "ahead q = ks" "same_errors (advance p) q"
      "ps_gt_pending q > 0 \<longrightarrow> ends_gt u"
    by (elim reads_okD [of n u b "advance p" ks]) auto
  show ?thesis
    using q r by (intro reads_asI [of _ _ q]) (auto simp: parse_type_rec_def check_tok_def intro: same_errors_trans)
qed

lemma reads_array:
  assumes "reads_ok n u" and "gt_safe False u" and "ahead p = ttoks (NODE_TYPE_ARRAY u) @ ks" and "ks \<noteq> []" and "0 < ps_type_depth p"
  shows "reads_as p (parse_type_rec n (parse_type n) p) (NODE_TYPE_ARRAY u) ks"
proof -
  have a: "ahead p = (TOK_LBRACKET, None) # ttoks u @ (TOK_RBRACKET, None) # ks" using assms(3) by simp
  note r = read_skip [OF a]
  have "0 < ps_type_depth (advance p)" using assms(5) r(4) by (simp add: same_errors_def)
  with assms r obtain q where q: "parse_type n (advance p) = Some (u, q)" "ahead q = (TOK_RBRACKET, None) # ks" "same_errors (advance p) q"
    by (elim reads_okD [of n u False "advance p" "(TOK_RBRACKET, None) # ks"]) auto
  note s = read_skip [OF q(2) _ assms(4)]
  show ?thesis
    using q r s by (intro reads_asI [of _ _ "advance q"]) (auto simp: parse_type_rec_def check_tok_def intro: same_errors_trans)
qed

text \<open>Names, with the tests that follow them.\<close>

lemma name_read:
  assumes "ahead p = (TOK_IDENT, Some x) # vs" and "vs \<noteq> []" and "\<not> check_tok (advance p) TOK_DOT"
  shows "parse_type_rec n ty p = parse_named_type n ty p" "parse_type_name p = (x, advance p)"
  using read_token [OF assms(1) _ assms(2)] assms(3)
  by (simp_all add: parse_type_rec_def parse_type_name_def expect_tok_def check_tok_def text_or_def)

lemma reads_plain:
  assumes "ahead p = (TOK_IDENT, Some x) # ks" and "follows b ks"
  shows "reads_as p (parse_type_rec n (parse_type n) p) (NODE_TYPE x None None []) ks"
proof -
  have ne: "ks \<noteq> []" using follows_ne [OF assms(2)] by simp
  note r = read_skip [OF assms(1) _ ne]
  have "follows b (ahead (advance p))" using assms(2) r(3) by simp
  note k = peek_after [OF this]
  show ?thesis
    using r k name_read [OF assms(1) ne k(2)]
    by (intro reads_asI [of _ _ "advance p"]) (simp_all add: parse_named_type_def)
qed

text \<open>After a name with type arguments, the cursor past the bracket that opens them.\<close>

lemma name_args_read:
  assumes "ahead p = (TOK_IDENT, Some x) # (TOK_LT, None) # vs" and "vs \<noteq> []"
  shows "parse_type_rec n ty p = parse_named_type n ty p" "parse_type_name p = (x, advance p)"
    "check_tok (advance p) TOK_LT" "ahead (advance (advance p)) = vs" "same_errors p (advance (advance p))"
proof -
  note r = read_skip [OF assms(1)] note s = read_skip [OF r(3) _ assms(2)]
  have "\<not> check_tok (advance p) TOK_DOT" using s(1) by (simp add: check_tok_def)
  from name_read [OF assms(1) _ this] show "parse_type_rec n ty p = parse_named_type n ty p" "parse_type_name p = (x, advance p)"
    by simp_all
  show "check_tok (advance p) TOK_LT" "ahead (advance (advance p)) = vs" "same_errors p (advance (advance p))"
    using r s by (auto intro: same_errors_trans)
qed

lemma reads_args:
  assumes "\<And>u. u \<in> set us \<Longrightarrow> reads_ok n u" and "us \<noteq> []" and "gt_safe_list b us" and "length us \<le> n"
    and "ahead p = (TOK_IDENT, Some x) # (TOK_LT, None) # tlist us @ gt # ks" and "follows b ks" and "0 < ps_type_depth p"
    and "x \<noteq> ''Vec''" and "x \<noteq> ''Map''"
  shows "reads_as p (parse_type_rec n (parse_type n) p) (NODE_TYPE x None None us) ks"
proof -
  note r = name_args_read [OF assms(5)]
  have "0 < ps_type_depth (advance (advance p))" using assms(7) r(5) by (simp add: same_errors_def)
  then have "\<exists>q. comma_sep n (parse_type n) (advance (advance p)) = Some (us, q) \<and> ahead q = gt # ks \<and>
      same_errors (advance (advance p)) q"
    using assms r(4) by (intro reads_list [of us n b]) auto
  then obtain q where q: "comma_sep n (parse_type n) (advance (advance p)) = Some (us, q)" "ahead q = gt # ks"
      "same_errors (advance (advance p)) q" by blast
  note s = read_gt [OF q(2)]
  show ?thesis
    using q r s assms(2,6,8,9) follows_ne [OF assms(6)]
    by (intro reads_asI [of _ _ "expect_gt_split q"]) (auto simp: parse_named_type_def intro: same_errors_trans)
qed

lemma reads_vec:
  assumes "reads_ok n u" and "gt_safe b u" and "ahead p = ttoks (NODE_TYPE ''Vec'' (Some u) None []) @ ks"
    and "follows b ks" and "0 < ps_type_depth p"
  shows "reads_as p (parse_type_rec n (parse_type n) p) (NODE_TYPE ''Vec'' (Some u) None []) ks"
proof -
  have a: "ahead p = (TOK_IDENT, Some ''Vec'') # (TOK_LT, None) # ttoks u @ gt # ks" using assms(3) by simp
  note r = name_args_read [OF a]
  have "0 < ps_type_depth (advance (advance p))" using assms(5) r(5) by (simp add: same_errors_def)
  then obtain q where q: "parse_type n (advance (advance p)) = Some (u, q)" "ahead q = gt # ks"
      "same_errors (advance (advance p)) q"
    using assms r(4) by (elim reads_okD [of n u b "advance (advance p)" "gt # ks"]) auto
  note s = read_gt [OF q(2)]
  have "follows b (ahead (expect_gt_split q))" using s(1) follows_ne [OF assms(4)] assms(4) by simp
  from peek_after(1) [OF this] show ?thesis
    using q r s follows_ne [OF assms(4)]
    by (intro reads_asI [of _ _ "expect_gt_split q"]) (auto simp: parse_named_type_def intro: same_errors_trans)
qed

lemma reads_map:
  assumes "reads_ok n u" and "reads_ok n v" and "gt_safe True u" and "gt_safe b v"
    and "ahead p = ttoks (NODE_TYPE ''Map'' (Some u) (Some v) []) @ ks" and "follows b ks" and "0 < ps_type_depth p"
  shows "reads_as p (parse_type_rec n (parse_type n) p) (NODE_TYPE ''Map'' (Some u) (Some v) []) ks"
proof -
  have a: "ahead p = (TOK_IDENT, Some ''Map'') # (TOK_LT, None) # ttoks u @ (TOK_COMMA, None) # ttoks v @ gt # ks"
    using assms(5) by simp
  note r = name_args_read [OF a]
  have "0 < ps_type_depth (advance (advance p))" using assms(7) r(5) by (simp add: same_errors_def)
  then obtain q where q: "parse_type n (advance (advance p)) = Some (u, q)" "ahead q = (TOK_COMMA, None) # ttoks v @ gt # ks"
      "same_errors (advance (advance p)) q"
    using assms(1,3) r(4)
    by (elim reads_okD [of n u True "advance (advance p)" "(TOK_COMMA, None) # ttoks v @ gt # ks"]) auto
  note c = read_skip [OF q(2)]
  have "0 < ps_type_depth (advance q)" using assms(7) r(5) q(3) c(4) by (simp add: same_errors_def)
  then obtain q' where q': "parse_type n (advance q) = Some (v, q')" "ahead q' = gt # ks" "same_errors (advance q) q'"
    using assms(2,4,6) c(3) by (elim reads_okD [of n v b "advance q" "gt # ks"]) auto
  note s = read_gt [OF q'(2)]
  have "follows b (ahead (expect_gt_split q'))" using s(1) follows_ne [OF assms(6)] assms(6) by simp
  note nl = peek_after(1) [OF this]
  have "parse_type_rec n (parse_type n) p = Some (NODE_TYPE ''Map'' (Some u) (Some v) [], expect_gt_split q')"
    using q q' r c nl by (simp add: parse_named_type_def)
  moreover have "same_errors p (expect_gt_split q')"
    using r(5) q(3) c(4) q'(3) s(2) follows_ne [OF assms(6)] by (simp add: same_errors_def)
  ultimately show ?thesis using s(1) follows_ne [OF assms(6)] by (intro reads_asI) auto
qed

text \<open>A function type; the list of its parameters may be empty.\<close>

lemma reads_params:
  assumes "\<And>u. u \<in> set us \<Longrightarrow> reads_ok n u" and "gt_safe_list False us" and "length us \<le> n"
    and "ahead p = tlist us @ (TOK_RPAREN, None) # ks" and "ks \<noteq> []" and "0 < ps_type_depth p"
  shows "\<exists>q. opt_list n TOK_RPAREN (parse_type n) p = Some (us, q) \<and> ahead q = (TOK_RPAREN, None) # ks \<and> same_errors p q"
proof (cases us)
  case Nil
  then have "ahead p = (TOK_RPAREN, None) # ks" using assms(4) by simp
  with read_skip(1) [OF this _ assms(5)] Nil show ?thesis by (simp add: opt_list_def)
next
  case (Cons u vs)
  obtain k ws where k: "tlist us = k # ws" "fst k \<in> {TOK_IDENT, TOK_AMP, TOK_LBRACKET, TOK_FN}"
    using ttoks_start [of u] Cons by (cases vs) auto
  then have "ahead p = k # ws @ (TOK_RPAREN, None) # ks" "k \<noteq> gt" using assms(4) by auto
  from read_token(1) [OF this] k(2) have "\<not> check_tok p TOK_RPAREN" by (auto simp: check_tok_def)
  moreover have "\<exists>q. comma_sep n (parse_type n) p = Some (us, q) \<and> ahead q = (TOK_RPAREN, None) # ks \<and> same_errors p q"
    using assms Cons by (intro reads_list [of us n False]) auto
  ultimately show ?thesis by (simp add: opt_list_def)
qed

lemma reads_fn:
  assumes "\<And>u. u \<in> set us \<Longrightarrow> reads_ok n u" and "reads_ok n t" and "gt_safe_list False us" and "gt_safe b t"
    and "length us \<le> n" and "ahead p = ttoks (NODE_TYPE_FN us t) @ ks" and "follows b ks" and "0 < ps_type_depth p"
  shows "reads_as p (parse_type_rec n (parse_type n) p) (NODE_TYPE_FN us t) ks"
proof -
  let ?ks = "(TOK_ARROW, None) # ttoks t @ ks"
  have a: "ahead p = (TOK_FN, None) # (TOK_LPAREN, None) # tlist us @ (TOK_RPAREN, None) # ?ks" using assms(6) by simp
  note r = read_skip [OF a] note l = read_skip [OF r(3)]
  have "0 < ps_type_depth (advance (advance p))" using assms(8) r(4) l(4) by (simp add: same_errors_def)
  then have "\<exists>q. opt_list n TOK_RPAREN (parse_type n) (advance (advance p)) = Some (us, q) \<and>
      ahead q = (TOK_RPAREN, None) # ?ks \<and> same_errors (advance (advance p)) q"
    using assms(1,3,5) l(3) by (intro reads_params) auto
  then obtain q where q: "opt_list n TOK_RPAREN (parse_type n) (advance (advance p)) = Some (us, q)"
      "ahead q = (TOK_RPAREN, None) # ?ks" "same_errors (advance (advance p)) q" by blast
  note rp = read_skip [OF q(2)]
  have ne: "ttoks t @ ks \<noteq> []" using follows_ne [OF assms(7)] by simp
  have ar: "ahead (advance q) = (TOK_ARROW, None) # ttoks t @ ks" using rp(3) by simp
  note arr = read_skip [OF ar _ ne]
  have "0 < ps_type_depth (advance (advance q))" using assms(8) r(4) l(4) q(3) rp(4) arr(4) by (simp add: same_errors_def)
  then obtain q' where q': "parse_type n (advance (advance q)) = Some (t, q')" "ahead q' = ks" "same_errors (advance (advance q)) q'"
      "ps_gt_pending q' > 0 \<longrightarrow> ends_gt t"
    using assms(2,4,7) arr(3) by (elim reads_okD [of n t b "advance (advance q)" ks]) auto
  have "follows b (ahead q')" using q'(2) assms(7) by simp
  note nb = peek_after(3) [OF this]
  have "parse_type_rec n (parse_type n) p = Some (NODE_TYPE_FN us t, q')"
    using r l q rp arr q' nb by (simp add: parse_type_rec_def parse_fn_type_def parse_type_with_effects_def)
  moreover have "same_errors p q'"
    using r(4) l(4) q(3) rp(4) arr(4) q'(3) by (simp add: same_errors_def)
  ultimately show ?thesis using q' by (intro reads_asI [of _ _ q']) auto
qed

section \<open>The round trip\<close>

lemma size_list_length: "length xs \<le> size_list f xs"
  by (induction xs) auto

lemma reads_okI:
  assumes "\<And>b p ks. gt_safe b t \<Longrightarrow> ahead p = ttoks t @ ks \<Longrightarrow> follows b ks \<Longrightarrow> 0 < ps_type_depth p \<Longrightarrow>
    reads_as p (parse_type_rec n (parse_type n) p) t ks"
  shows "reads_ok (Suc n) t"
  unfolding reads_ok_def
proof (intro allI impI)
  fix b p ks
  assume a: "gt_safe b t" "ahead p = ttoks t @ ks" "follows b ks" "0 < ps_type_depth p \<or> hd ks \<noteq> gt"
  have "ahead (p\<lparr>ps_type_depth := ps_type_depth p + 1\<rparr>) = ahead p" by (simp add: ahead_def behind_def)
  then show "reads_as p (parse_type (Suc n) p) t ks"
    using a follows_ne [OF a(3)] by (intro reads_wrap assms [of b]) auto
qed

lemma size_member: "u \<in> set us \<Longrightarrow> size u \<le> size_list size us"
  by (rule size_list_estimation') auto

lemma reads_all: "type_ok t \<Longrightarrow> size t \<le> n \<Longrightarrow> reads_ok n t"
proof (induction t arbitrary: n)
  case (NODE_TYPE x i1 i2 us)
  then obtain m where n: "n = Suc m" by (cases n) auto
  have ih: "reads_ok m u" if "u \<in> set us \<or> i1 = Some u \<or> i2 = Some u" for u
    using NODE_TYPE n that size_member [of u us] by (auto simp: list_all_iff)
  have len: "length us \<le> m" using NODE_TYPE.prems(2) n size_list_length [of us size] by simp
  show ?case
    unfolding n
  proof (rule reads_okI)
    fix b p ks
    assume a: "gt_safe b (NODE_TYPE x i1 i2 us)" "ahead p = ttoks (NODE_TYPE x i1 i2 us) @ ks" "follows b ks"
      "0 < ps_type_depth p"
    consider (vec) u where "x = ''Vec''" "i1 = Some u" "i2 = None" "us = []"
      | (map) u v where "x = ''Map''" "i1 = Some u" "i2 = Some v" "us = []"
      | (plain) "i1 = None" "i2 = None" "us = []"
      | (args) "i1 = None" "i2 = None" "us \<noteq> []" "x \<noteq> ''Vec''" "x \<noteq> ''Map''"
      using NODE_TYPE.prems(1) by (auto split: if_splits)
    then show "reads_as p (parse_type_rec m (parse_type m) p) (NODE_TYPE x i1 i2 us) ks"
    proof cases
      case vec
      with a ih [of u] reads_vec [of m u b p ks] show ?thesis by simp
    next
      case map
      with a ih [of u] ih [of v] reads_map [of m u v b p ks] show ?thesis by simp
    next
      case plain
      with a reads_plain [of p x ks b m] show ?thesis by simp
    next
      case args
      have "reads_as p (parse_type_rec m (parse_type m) p) (NODE_TYPE x None None us) ks"
        using a args ih len by (intro reads_args) auto
      with args show ?thesis by simp
    qed
  qed
next
  case (NODE_TYPE_REF t)
  then obtain m where n: "n = Suc m" by (cases n) auto
  with NODE_TYPE_REF have "reads_ok m t" by simp
  then show ?case unfolding n by (intro reads_okI reads_ref) auto
next
  case (NODE_TYPE_ARRAY t)
  then obtain m where n: "n = Suc m" by (cases n) auto
  with NODE_TYPE_ARRAY have "reads_ok m t" by simp
  then show ?case unfolding n by (intro reads_okI reads_array) (auto dest: follows_ne)
next
  case (NODE_TYPE_EFFECT t es)
  then show ?case by simp
next
  case (NODE_TYPE_FN us t)
  then obtain m where n: "n = Suc m" by (cases n) auto
  have ih: "reads_ok m u" if "u \<in> set us \<or> u = t" for u
    using NODE_TYPE_FN n that size_member [of u us] by (auto simp: list_all_iff)
  moreover have "length us \<le> m" using NODE_TYPE_FN.prems(2) n size_list_length [of us size] by simp
  ultimately show ?case unfolding n by (intro reads_okI reads_fn) auto
qed


definition mk_tok :: "token_kind \<times> string \<Rightarrow> token" where
  "mk_tok = (\<lambda>(k, x). \<lparr>tk_kind = k, tk_pos = \<lparr>p_line = 1, p_col = 1, p_file = []\<rparr>, tk_text = Some x, tk_int = 0, tk_float = []\<rparr>)"

definition parser_at :: "(token_kind \<times> string) list \<Rightarrow> Parser" where
  "parser_at ks = parser_init (\<lambda>_. 0) (map mk_tok ks) []"

definition name_type :: "string \<Rightarrow> tnode list \<Rightarrow> tnode" where
  "name_type x us = NODE_TYPE x None None us"

definition vec_type :: "tnode \<Rightarrow> tnode" where
  "vec_type u = NODE_TYPE ''Vec'' (Some u) None []"

text \<open>\<open>Map<str, Pair<i64, Vec<f64>>> =\<close>.\<close>

definition nested_type :: tnode where
  "nested_type = NODE_TYPE ''Map'' (Some (name_type ''str'' []))
     (Some (name_type ''Pair'' [name_type ''i64'' [], vec_type (name_type ''f64'' [])])) []"

definition nested_tokens :: "(token_kind \<times> string) list" where
  "nested_tokens =
     [(TOK_IDENT, ''Map''), (TOK_LT, ''<''), (TOK_IDENT, ''str''), (TOK_COMMA, '',''), (TOK_IDENT, ''Pair''), (TOK_LT, ''<''),
      (TOK_IDENT, ''i64''), (TOK_COMMA, '',''), (TOK_IDENT, ''Vec''), (TOK_LT, ''<''), (TOK_IDENT, ''f64''),
      (TOK_URSHIFT, ''>>>''), (TOK_ASSIGN, ''='')]"


section \<open>A comma after a group of brackets\<close>

text \<open>
  Code bug: a group of brackets that closes a list of type arguments together with its
  last argument hides the end of the list from the test for a comma. The type
  \<open>F<G<A, Vec<B>>, C>\<close> is read as \<open>F<G<A, Vec<B>, C>>\<close>, without an error, for all names.
\<close>

theorem comma_after_group_misread:
  assumes "f \<notin> {''Vec'', ''Map''}" and "g \<notin> {''Vec'', ''Map''}"
    and "p = parser_at [(TOK_IDENT, f), (TOK_LT, []), (TOK_IDENT, g), (TOK_LT, []), (TOK_IDENT, x), (TOK_COMMA, []),
      (TOK_IDENT, ''Vec''), (TOK_LT, []), (TOK_IDENT, y), (TOK_RSHIFT, []), (TOK_COMMA, []), (TOK_IDENT, z), (TOK_GT, []),
      (TOK_ASSIGN, [])]"
  shows "ahead p = ttoks (name_type f [name_type g [name_type x [], vec_type (name_type y [])], name_type z []]) @
      [(TOK_ASSIGN, None)] \<and>
    (\<exists>q. parse_type 9 p = Some (name_type f [name_type g [name_type x [], vec_type (name_type y []), name_type z []]], q) \<and>
      ahead q = [(TOK_ASSIGN, None)] \<and> ps_errors q = [])"
  using assms
  by (simp add: ahead_def behind_def views_def parser_at_def parser_init_def mk_tok_def name_type_def vec_type_def
      parse_type_rec_def parse_named_type_def parse_type_name_def expect_tok_def check_tok_def peek_kind_def cur_def
      advance_def text_or_def expect_gt_split_def eval_nat_numeral Let_def)

lemma comma_after_group_misread_witness:
  "\<exists>q. parse_type 9 (parser_at [(TOK_IDENT, ''F''), (TOK_LT, []), (TOK_IDENT, ''G''), (TOK_LT, []), (TOK_IDENT, ''A''), (TOK_COMMA, []),
      (TOK_IDENT, ''Vec''), (TOK_LT, []), (TOK_IDENT, ''B''), (TOK_RSHIFT, []), (TOK_COMMA, []), (TOK_IDENT, ''C''), (TOK_GT, []),
      (TOK_ASSIGN, [])]) =
     Some (name_type ''F'' [name_type ''G'' [name_type ''A'' [], vec_type (name_type ''B'' []), name_type ''C'' []]], q)"
  using comma_after_group_misread [of "''F''" "''G''" _ "''A''" "''B''" "''C''", OF _ _ refl] by force

end
