(* ===== verification/ParseClone.thy ===== *)
theory ParseClone
  imports ParseWorld
begin

text \<open>
  The copy of an expression for the targets of \<open>+=\<close>, \<open>-=\<close>, \<open>*=\<close> and \<open>/=\<close>
  (\<open>clone_expr\<close>, \<open>parser_core.c\<close>).
\<close>

section \<open>Traversals\<close>

fun traverse :: "('a \<Rightarrow> Parser \<Rightarrow> ('b \<times> Parser) option) \<Rightarrow> 'a list \<Rightarrow> Parser \<Rightarrow> ('b list \<times> Parser) option" where
  "traverse f [] p = Some ([], p)"
| "traverse f (x # xs) p = do { (y, p) \<leftarrow> f x p; (ys, p) \<leftarrow> traverse f xs p; Some (y # ys, p) }"

lemma traverse_cong [fundef_cong]:
  "xs = ys \<Longrightarrow> p = q \<Longrightarrow> (\<And>x p. x \<in> set ys \<Longrightarrow> f x p = g x p) \<Longrightarrow> traverse f xs p = traverse g ys q"
  by (induction xs arbitrary: ys p q) (auto intro!: bind_option_cong)

fun traverse_opt :: "('a \<Rightarrow> Parser \<Rightarrow> ('b \<times> Parser) option) \<Rightarrow> 'a option \<Rightarrow> Parser \<Rightarrow> ('b option \<times> Parser) option" where
  "traverse_opt f None p = Some (None, p)"
| "traverse_opt f (Some x) p = do { (y, p) \<leftarrow> f x p; Some (Some y, p) }"

lemma traverse_opt_cong [fundef_cong]:
  "x = y \<Longrightarrow> p = q \<Longrightarrow> (\<And>z p. y = Some z \<Longrightarrow> f z p = g z p) \<Longrightarrow> traverse_opt f x p = traverse_opt g y q"
  by (cases y) auto

section \<open>The copy\<close>

text \<open>
  A type expression: the copy of a name loses its arguments, and the copies of an
  effect row and of a function type are nodes without children (\<open>None\<close>).
\<close>

fun clone_type :: "tnode \<Rightarrow> tnode option" where
  "clone_type (NODE_TYPE x i1 i2 us) = Some (NODE_TYPE x None None [])"
| "clone_type (NODE_TYPE_REF t) = map_option NODE_TYPE_REF (clone_type t)"
| "clone_type (NODE_TYPE_ARRAY t) = map_option NODE_TYPE_ARRAY (clone_type t)"
| "clone_type (NODE_TYPE_EFFECT t es) = None"
| "clone_type (NODE_TYPE_FN ts t) = None"

definition clone_opt_type :: "tnode option \<Rightarrow> tnode option option" where
  "clone_opt_type t = (case t of None \<Rightarrow> Some None | Some t \<Rightarrow> map_option Some (clone_type t))"

text \<open>
  The copy of a call is a new node, without type arguments; that of a \<open>catch\<close> has no
  binding and that of a structure literal no type arguments. The function has no case
  for a lambda, a raise and an assignment: it leaves an empty node (\<open>None\<close>).
\<close>

fun clone_expr :: "node \<Rightarrow> Parser \<Rightarrow> (node \<times> Parser) option" where
  "clone_expr e p =
     (case e of
        NODE_CALL i f as ts \<Rightarrow> do {
          let i = ps_heap p;
          (f, p) \<leftarrow> clone_expr f (p\<lparr>ps_heap := ps_heap p + 1\<rparr>);
          (as, p) \<leftarrow> traverse clone_expr as p;
          Some (NODE_CALL i f as [], p)
        }
      | NODE_BINARY b l r \<Rightarrow> do { (l, p) \<leftarrow> clone_expr l p; (r, p) \<leftarrow> clone_expr r p; Some (NODE_BINARY b l r, p) }
      | NODE_UNARY u e \<Rightarrow> do { (e, p) \<leftarrow> clone_expr e p; Some (NODE_UNARY u e, p) }
      | NODE_INDEX e i \<Rightarrow> do { (e, p) \<leftarrow> clone_expr e p; (i, p) \<leftarrow> clone_expr i p; Some (NODE_INDEX e i, p) }
      | NODE_ELEM_REF e \<Rightarrow> do { (e, p) \<leftarrow> clone_expr e p; Some (NODE_ELEM_REF e, p) }
      | NODE_FIELD e f \<Rightarrow> do { (e, p) \<leftarrow> clone_expr e p; Some (NODE_FIELD e f, p) }
      | NODE_RANGE l h \<Rightarrow> do { (l, p) \<leftarrow> clone_expr l p; (h, p) \<leftarrow> clone_expr h p; Some (NODE_RANGE l h, p) }
      | NODE_TRY e \<Rightarrow> do { (e, p) \<leftarrow> clone_expr e p; Some (NODE_TRY e, p) }
      | NODE_CATCH e x h bn \<Rightarrow> do { (e, p) \<leftarrow> clone_expr e p; (h, p) \<leftarrow> clone_expr h p; Some (NODE_CATCH e x h None, p) }
      | NODE_TO_STR e \<Rightarrow> do { (e, p) \<leftarrow> clone_expr e p; Some (NODE_TO_STR e, p) }
      | NODE_STRUCT_LIT x fs ts \<Rightarrow> do {
          (fs, p) \<leftarrow> traverse (\<lambda>(f, e) p. do { (e, p) \<leftarrow> clone_expr e p; Some ((f, e), p) }) fs p;
          Some (NODE_STRUCT_LIT x fs [], p)
        }
      | NODE_IF c t e \<Rightarrow> do {
          (c, p) \<leftarrow> clone_expr c p;
          (t, p) \<leftarrow> clone_expr t p;
          (e, p) \<leftarrow> traverse_opt clone_expr e p;
          Some (NODE_IF c t e, p)
        }
      | NODE_MATCH e arms \<Rightarrow> do {
          (e, p) \<leftarrow> clone_expr e p;
          (arms, p) \<leftarrow> traverse (\<lambda>(pat, bn, b) p. do {
              (pat, p) \<leftarrow> traverse_opt clone_expr pat p;
              (b, p) \<leftarrow> clone_expr b p;
              Some ((pat, bn, b), p)
            }) arms p;
          Some (NODE_MATCH e arms, p)
        }
      | NODE_BLOCK ss \<Rightarrow> do { (ss, p) \<leftarrow> traverse clone_expr ss p; Some (NODE_BLOCK ss, p) }
      | NODE_LET x m t v \<Rightarrow> do {
          t \<leftarrow> clone_opt_type t;
          (v, p) \<leftarrow> traverse_opt clone_expr v p;
          Some (NODE_LET x m t v, p)
        }
      | NODE_RETURN v \<Rightarrow> do { (v, p) \<leftarrow> traverse_opt clone_expr v p; Some (NODE_RETURN v, p) }
      | NODE_WHILE c b vs \<Rightarrow> do {
          (c, p) \<leftarrow> clone_expr c p;
          (b, p) \<leftarrow> clone_expr b p;
          (vs, p) \<leftarrow> traverse clone_expr vs p;
          Some (NODE_WHILE c b vs, p)
        }
      | NODE_FOR x i b \<Rightarrow> do { (i, p) \<leftarrow> clone_expr i p; (b, p) \<leftarrow> clone_expr b p; Some (NODE_FOR x i b, p) }
      | NODE_EXPR_STMT e \<Rightarrow> do { (e, p) \<leftarrow> clone_expr e p; Some (NODE_EXPR_STMT e, p) }
      | NODE_INVARIANT vs \<Rightarrow> do { (vs, p) \<leftarrow> traverse clone_expr vs p; Some (NODE_INVARIANT vs, p) }
      | NODE_LAMBDA cs ps r b \<Rightarrow> None
      | NODE_RAISE x v \<Rightarrow> None
      | NODE_ASSIGN l r \<Rightarrow> None
      | _ \<Rightarrow> Some (e, p))"

declare clone_expr.simps [simp del]

end
