(* ===== verification/ParseExpr.thy ===== *)
theory ParseExpr
  imports ParseClone
begin

text \<open>
  Expressions (\<open>parser_core.c\<close>): interpolated strings, primaries, postfix forms, operators
  by precedence climbing, and assignments. Each function of the code is a definition over
  the functions it calls recursively, which a record passes; \<open>ParseStmt\<close> ties the knot.
\<close>

record calls =
  c_unary :: "Parser \<Rightarrow> (node \<times> Parser) option"
  c_expr :: "Parser \<Rightarrow> (node \<times> Parser) option"
  c_block :: "Parser \<Rightarrow> (node \<times> Parser) option"

definition set_fault :: "Parser \<Rightarrow> Parser" where
  "set_fault p = p\<lparr>ps_fault := True\<rparr>"

section \<open>Interpolated strings\<close>

fun build_concat_chain :: "node list \<Rightarrow> Parser \<Rightarrow> node \<times> Parser" where
  "build_concat_chain [] p = (NODE_STR_LIT [], p)"
| "build_concat_chain [x] p = (x, p)"
| "build_concat_chain (x # xs) p =
     (let (acc, p) = build_concat_chain xs p in alloc_call (NODE_IDENT ''concat'') [x, acc] [] p)"

text \<open>The text up to the brace that closes an interpolation, and the text after it.\<close>

fun close_brace :: "nat \<Rightarrow> string \<Rightarrow> (string \<times> string) option" where
  "close_brace d [] = None"
| "close_brace d (x # xs) =
     (if x = CHR 0x7B then map_option (\<lambda>(b, r). (x # b, r)) (close_brace (d + 1) xs)
      else if x = CHR 0x7D then
        (if d = 1 then Some ([], xs) else map_option (\<lambda>(b, r). (x # b, r)) (close_brace (d - 1) xs))
      else map_option (\<lambda>(b, r). (x # b, r)) (close_brace d xs))"

lemma close_brace_length: "close_brace d s = Some (b, r) \<Longrightarrow> length b + length r < length s"
  by (induction d s arbitrary: b r rule: close_brace.induct) (fastforce split: if_splits)+

text \<open>\<open>Node *parts[256]\<close>: a write past its end is recorded.\<close>

definition MAX_PARTS :: nat where
  "MAX_PARTS = 256"

definition push_part :: "node \<Rightarrow> node list \<Rightarrow> Parser \<Rightarrow> node list \<times> Parser" where
  "push_part x ps p = (ps @ [x], if length ps \<ge> MAX_PARTS then set_fault p else p)"

definition flush_lit :: "string \<Rightarrow> node list \<Rightarrow> Parser \<Rightarrow> node list \<times> Parser" where
  "flush_lit lit ps p = (if lit \<noteq> [] then push_part (NODE_STR_LIT lit) ps p else (ps, p))"

text \<open>The expression of one interpolation, read by a parser of its own.\<close>

definition sub_parser :: "token list \<Rightarrow> Parser \<Rightarrow> Parser" where
  "sub_parser ts p = p\<lparr>ps_tokens := ts, ps_pos := 0, ps_gt_pending := 0, ps_type_depth := 0,
     ps_in_catch := False, ps_errors := []\<rparr>"

definition resume :: "Parser \<Rightarrow> Parser \<Rightarrow> Parser" where
  "resume p sub = p\<lparr>ps_heap := ps_heap sub, ps_w32_ctr := ps_w32_ctr sub, ps_fault := ps_fault sub\<rparr>"

definition parse_interp_expr :: "calls \<Rightarrow> string \<Rightarrow> Parser \<Rightarrow> (node option \<times> Parser) option" where
  "parse_interp_expr c s p =
     (case tokenize (lexer_init s (ps_filename p)) of
        Inl e \<Rightarrow> Some (None, parser_error p)
      | Inr ts \<Rightarrow> do {
          (e, sub) \<leftarrow> c_expr c (sub_parser ts p);
          let p = resume p sub;
          (if ps_errors sub \<noteq> [] \<or> peek_kind sub \<noteq> TOK_EOF then Some (None, parser_error p)
           else Some (Some (NODE_TO_STR e), p))
        })"

text \<open>The scan of the text: \<open>lit\<close> is the literal part in progress.\<close>

function interp_scan :: "calls \<Rightarrow> string \<Rightarrow> string \<Rightarrow> node list \<Rightarrow> Parser \<Rightarrow> (node list option \<times> Parser) option" where
  "interp_scan c s lit ps p =
     (case s of
        [] \<Rightarrow> (let (ps, p) = flush_lit lit ps p in Some (Some ps, p))
      | x # xs \<Rightarrow>
          if x = CHR ''$'' \<and> xs \<noteq> [] \<and> hd xs = CHR ''$'' then interp_scan c (tl xs) (lit @ ''$'') ps p
          else if x = CHR ''$'' \<and> xs \<noteq> [] \<and> hd xs = CHR 0x7B then
            (let (ps, p) = flush_lit lit ps p
             in case close_brace 1 (tl xs) of
                  None \<Rightarrow> Some (None, parser_error p)
                | Some (b, r) \<Rightarrow> do {
                    (e, p) \<leftarrow> parse_interp_expr c b p;
                    (case e of
                       None \<Rightarrow> Some (None, p)
                     | Some e \<Rightarrow> (let (ps, p) = push_part e ps p in interp_scan c r [] ps p))
                  })
          else interp_scan c xs (lit @ [x]) ps p)"
  by pat_completeness auto
termination
proof (relation "measure (\<lambda>(c, s, lit, ps, p). length s)", goal_cases)
  case (3 c s lit ps p x xs)
  then show ?case by (auto dest!: close_brace_length)
qed auto

declare interp_scan.simps [simp del]

definition parse_interp_string :: "calls \<Rightarrow> string \<Rightarrow> Parser \<Rightarrow> (node option \<times> Parser) option" where
  "parse_interp_string c s p =
     (if CHR ''$'' \<notin> set s then Some (Some (NODE_STR_LIT s), p)
      else do {
        (ps, p) \<leftarrow> interp_scan c s [] [] p;
        (case ps of
           None \<Rightarrow> Some (None, p)
         | Some ps \<Rightarrow> (let (e, p) = build_concat_chain ps p in Some (Some e, p)))
      })"

section \<open>Primaries\<close>

text \<open>\<open>world\<close>, a name and a brace: the start of a world block.\<close>

definition at_world :: "Parser \<Rightarrow> bool" where
  "at_world p \<longleftrightarrow> at_word p ''world'' \<and> kind_at p 1 = Some TOK_IDENT \<and> kind_at p 2 = Some TOK_LBRACE"

text \<open>A world block where an expression is expected: an error, and the block is skipped.\<close>

definition skip_world :: "calls \<Rightarrow> Parser \<Rightarrow> (node \<times> Parser) option" where
  "skip_world c p = do {
     let p = advance (parser_error_at (Some (tk_pos (cur p))) p);
     (b, p) \<leftarrow> c_block c (snd (expect_ident p));
     Some (NODE_INT_LIT 0, p)
   }"

text \<open>
  Whether \<open><\<close> opens the type arguments of a structure literal, by a scan of the tokens for
  the bracket that closes them and a brace after it.
\<close>

fun lit_args_ahead :: "int \<Rightarrow> token_kind list \<Rightarrow> bool" where
  "lit_args_ahead d [] = False"
| "lit_args_ahead d (k # ks) =
     (if k = TOK_LT then lit_args_ahead (d + 1) ks
      else if k = TOK_GT then
        (if d = 1 then ks \<noteq> [] \<and> hd ks = TOK_LBRACE else lit_args_ahead (d - 1) ks)
      else if k = TOK_RSHIFT \<or> k = TOK_URSHIFT then
        (let d = d - (if k = TOK_URSHIFT then 3 else 2)
         in if d = 0 then ks \<noteq> [] \<and> hd ks = TOK_LBRACE else if d < 0 then False else lit_args_ahead d ks)
      else if k = TOK_IDENT \<or> k = TOK_COMMA then lit_args_ahead d ks
      else False)"

definition kinds_ahead :: "Parser \<Rightarrow> token_kind list" where
  "kinds_ahead p = map tk_kind (drop (ps_pos p) (ps_tokens p))"

definition parse_lit_type_args :: "nat \<Rightarrow> Parser \<Rightarrow> (tnode list \<times> Parser) option" where
  "parse_lit_type_args n p =
     (if check_tok p TOK_LT \<and> lit_args_ahead 0 (kinds_ahead p) then do {
        let p = advance p;
        (us, p) \<leftarrow> comma_sep n (parse_type n) (p\<lparr>ps_type_depth := ps_type_depth p + 1\<rparr>);
        let p = expect_gt_split p;
        Some (us, p\<lparr>ps_type_depth := ps_type_depth p - 1\<rparr>)
      } else Some ([], p))"

definition not_closed :: "Parser \<Rightarrow> bool" where
  "not_closed p \<longleftrightarrow> \<not> check_tok p TOK_RBRACE \<and> \<not> check_tok p TOK_EOF"

definition lit_field :: "calls \<Rightarrow> Parser \<Rightarrow> ((string \<times> node) \<times> Parser) option" where
  "lit_field c p = do {
     let (x, p) = expect_ident p;
     (e, p) \<leftarrow> c_expr c (skip TOK_COLON p);
     Some ((x, e), if \<not> check_tok p TOK_RBRACE then snd (match_tok TOK_COMMA p) else p)
   }"

text \<open>The name at the start of a primary, qualified when it is that of a structure literal.\<close>

definition parse_prim_name :: "Parser \<Rightarrow> string \<times> Parser" where
  "parse_prim_name p =
     (let x = text_or [] (cur p); p = advance p
      in if check_tok p TOK_DOT \<and> kind_at p 1 = Some TOK_IDENT \<and> kind_at p 2 = Some TOK_LBRACE \<and>
            kind_at p 3 = Some TOK_IDENT \<and> kind_at p 4 = Some TOK_COLON
         then (let p = advance p in (x @ ''.'' @ text_or [] (cur p), advance p))
         else (x, p))"

definition parse_ident :: "nat \<Rightarrow> calls \<Rightarrow> Parser \<Rightarrow> (node \<times> Parser) option" where
  "parse_ident n c p = do {
     let (x, p) = parse_prim_name p;
     (us, p) \<leftarrow> parse_lit_type_args n p;
     (if check_tok p TOK_LBRACE \<and> kind_at p 1 = Some TOK_IDENT \<and> kind_at p 2 = Some TOK_COLON then do {
        (fs, p) \<leftarrow> collect_while n not_closed (lit_field c) (advance p);
        Some (NODE_STRUCT_LIT x fs us, skip TOK_RBRACE p)
      }
      else if check_tok p TOK_COLONCOLON then
        (let (t, p) = expect_tok TOK_IDENT (advance p) in Some (NODE_PATH x (text_or [] t), p))
      else Some (NODE_IDENT x, p))
   }"

text \<open>The branches of \<open>else if\<close>, each in a block of its own; the cursor is at \<open>if\<close>.\<close>

fun parse_elif :: "nat \<Rightarrow> calls \<Rightarrow> Parser \<Rightarrow> (node \<times> Parser) option" where
  "parse_elif 0 c p = None"
| "parse_elif (Suc n) c p = do {
     (cd, p) \<leftarrow> c_expr c (advance p);
     (th, p) \<leftarrow> c_block c p;
     (if check_tok p TOK_ELSE then do {
        let p = advance p;
        (el, p) \<leftarrow> (if check_tok p TOK_IF then parse_elif n c p else c_block c p);
        Some (NODE_BLOCK [NODE_IF cd th (Some el)], p)
      } else Some (NODE_BLOCK [NODE_IF cd th None], p))
   }"

definition parse_if :: "nat \<Rightarrow> calls \<Rightarrow> Parser \<Rightarrow> (node \<times> Parser) option" where
  "parse_if n c p = do {
     (cd, p) \<leftarrow> c_expr c (advance p);
     (th, p) \<leftarrow> c_block c p;
     (if check_tok p TOK_ELSE then do {
        let p = advance p;
        (el, p) \<leftarrow> (if check_tok p TOK_IF then parse_elif n c p else c_block c p);
        Some (NODE_IF cd th (Some el), p)
      } else Some (NODE_IF cd th None, p))
   }"

text \<open>The pattern of an arm and its binding.\<close>

definition parse_pattern :: "calls \<Rightarrow> Parser \<Rightarrow> ((node option \<times> string option) \<times> Parser) option" where
  "parse_pattern c p =
     (if check_tok p TOK_UNDERSCORE then Some ((None, None), advance p)
      else if check_tok p TOK_IDENT \<and> kind_at p 1 = Some TOK_COLONCOLON \<and> kind_at p 2 = Some TOK_IDENT \<and>
          kind_at p 3 = Some TOK_LPAREN then
        (let x = text_or [] (cur p);
             (v, p) = expect_tok TOK_IDENT (advance (advance p));
             (b, p) = expect_tok TOK_IDENT (advance p)
         in Some ((Some (NODE_PATH x (text_or [] v)), Some (text_or [] b)), skip TOK_RPAREN p))
      else if check_tok p TOK_IDENT \<and> kind_at p 1 = Some TOK_LPAREN then
        (let x = text_or [] (cur p);
             (b, p) = expect_tok TOK_IDENT (advance (advance p))
         in Some ((Some (NODE_IDENT x), Some (text_or [] b)), skip TOK_RPAREN p))
      else do { (e, p) \<leftarrow> c_unary c p; Some ((Some e, None), p) })"

definition parse_arm :: "calls \<Rightarrow> Parser \<Rightarrow> ((node option \<times> string option \<times> node) \<times> Parser) option" where
  "parse_arm c p = do {
     ((pat, bn), p) \<leftarrow> parse_pattern c p;
     let p = skip TOK_FAT_ARROW p;
     (b, p) \<leftarrow> (if check_tok p TOK_LBRACE then c_block c p
        else do { (e, p) \<leftarrow> c_expr c p; Some (NODE_BLOCK [NODE_RETURN (Some e)], p) });
     Some ((pat, bn, b), snd (match_tok TOK_COMMA p))
   }"

definition parse_match :: "nat \<Rightarrow> calls \<Rightarrow> Parser \<Rightarrow> (node \<times> Parser) option" where
  "parse_match n c p = do {
     (e, p) \<leftarrow> c_expr c (advance p);
     (arms, p) \<leftarrow> collect_while n not_closed (parse_arm c) (skip TOK_LBRACE p);
     Some (NODE_MATCH e arms, skip TOK_RBRACE p)
   }"

text \<open>A lambda \<open>fn [captures] (params) -> R { ... }\<close>.\<close>

definition capture :: "Parser \<Rightarrow> (string \<times> Parser) option" where
  "capture p = (let (t, p) = expect_tok TOK_IDENT p in Some (text_or [] t, p))"

definition typed_param :: "nat \<Rightarrow> Parser \<Rightarrow> (param \<times> Parser) option" where
  "typed_param n p = do {
     let (t, p) = expect_tok TOK_IDENT p;
     (u, p) \<leftarrow> parse_type n (skip TOK_COLON p);
     Some ((text_or [] t, Some u), p)
   }"

definition parse_result_type :: "nat \<Rightarrow> Parser \<Rightarrow> (tnode option \<times> Parser) option" where
  "parse_result_type n p =
     (if check_tok p TOK_ARROW then do {
        (u, p) \<leftarrow> parse_type n (advance p);
        (u, p) \<leftarrow> parse_type_with_effects n (parse_type n) u p;
        Some (Some u, p)
      } else Some (None, p))"

definition parse_lambda :: "nat \<Rightarrow> calls \<Rightarrow> Parser \<Rightarrow> (node \<times> Parser) option" where
  "parse_lambda n c p = do {
     let p = advance p;
     (cs, p) \<leftarrow> (if check_tok p TOK_LBRACKET then do {
          (cs, p) \<leftarrow> opt_list n TOK_RBRACKET capture (advance p);
          Some (cs, skip TOK_RBRACKET p)
        } else Some ([], p));
     (ps, p) \<leftarrow> opt_list n TOK_RPAREN (typed_param n) (skip TOK_LPAREN p);
     (r, p) \<leftarrow> parse_result_type n (skip TOK_RPAREN p);
     (b, p) \<leftarrow> c_block c p;
     Some (NODE_LAMBDA cs ps r b, p)
   }"

definition parse_paren :: "calls \<Rightarrow> Parser \<Rightarrow> (node \<times> Parser) option" where
  "parse_paren c p = do {
     let saved = ps_in_catch p;
     (e, p) \<leftarrow> c_expr c ((advance p)\<lparr>ps_in_catch := False\<rparr>);
     Some (e, skip TOK_RPAREN (p\<lparr>ps_in_catch := saved\<rparr>))
   }"

text \<open>A primary; the result is NULL for a bad interpolation only.\<close>

definition parse_primary :: "nat \<Rightarrow> calls \<Rightarrow> Parser \<Rightarrow> (node option \<times> Parser) option" where
  "parse_primary n c p =
     (let t = cur p; some = map_option (\<lambda>(e, p). (Some e, p))
      in if at_world p then some (skip_world c p)
      else if check_tok p TOK_INT_LIT then some (Some (NODE_INT_LIT (tk_int t), advance p))
      else if check_tok p TOK_FLOAT_LIT then some (Some (NODE_FLOAT_LIT (ps_strtod p (tk_float t)), advance p))
      else if check_tok p TOK_STR_LIT then parse_interp_string c (text_or [] t) (advance p)
      else if check_tok p TOK_BYTES_LIT then some (Some (NODE_BYTES_LIT (text_or [] t), advance p))
      else if check_tok p TOK_CHAR_LIT then some (Some (NODE_INT_LIT (tk_int t), advance p))
      else if check_tok p TOK_TRUE then some (Some (NODE_BOOL_LIT True, advance p))
      else if check_tok p TOK_FALSE then some (Some (NODE_BOOL_LIT False, advance p))
      else if check_tok p TOK_IDENT then some (parse_ident n c p)
      else if check_tok p TOK_LPAREN then some (parse_paren c p)
      else if check_tok p TOK_IF then some (parse_if n c p)
      else if check_tok p TOK_MATCH then some (parse_match n c p)
      else if check_tok p TOK_LBRACE then some (c_block c p)
      else if check_tok p TOK_FN then some (parse_lambda n c p)
      else some (Some (NODE_INT_LIT 0, advance (parser_error p))))"

section \<open>Postfix forms\<close>

text \<open>
  Whether \<open><\<close> opens the type arguments of a call: the same scan for a parenthesis, which
  stops at \<open>>>\<close> and \<open>>>>\<close>.
\<close>

fun call_args_ahead :: "int \<Rightarrow> token_kind list \<Rightarrow> bool" where
  "call_args_ahead d [] = False"
| "call_args_ahead d (k # ks) =
     (if k = TOK_LT then call_args_ahead (d + 1) ks
      else if k = TOK_GT then
        (if d = 1 then ks \<noteq> [] \<and> hd ks = TOK_LPAREN else call_args_ahead (d - 1) ks)
      else if k = TOK_IDENT \<or> k = TOK_COMMA then call_args_ahead d ks
      else False)"

definition new_addr :: "Parser \<Rightarrow> nat \<times> Parser" where
  "new_addr p = (ps_heap p, p\<lparr>ps_heap := ps_heap p + 1\<rparr>)"

definition parse_args :: "nat \<Rightarrow> calls \<Rightarrow> Parser \<Rightarrow> (node list \<times> Parser) option" where
  "parse_args n c p = do {
     (as, p) \<leftarrow> opt_list n TOK_RPAREN (c_expr c) p;
     Some (as, skip TOK_RPAREN p)
   }"

definition postfix_call :: "nat \<Rightarrow> calls \<Rightarrow> node \<Rightarrow> Parser \<Rightarrow> (node \<times> Parser) option" where
  "postfix_call n c e p = do {
     let (i, p) = new_addr (advance p);
     (as, p) \<leftarrow> parse_args n c p;
     Some (NODE_CALL i e as [], p)
   }"

definition postfix_generic_call :: "nat \<Rightarrow> calls \<Rightarrow> node \<Rightarrow> Parser \<Rightarrow> (node \<times> Parser) option" where
  "postfix_generic_call n c e p = do {
     let (i, p) = new_addr (advance p);
     (us, p) \<leftarrow> comma_sep n (parse_type n) p;
     (as, p) \<leftarrow> parse_args n c (skip TOK_LPAREN (expect_gt_split p));
     Some (NODE_CALL i e as us, p)
   }"

definition postfix_index :: "calls \<Rightarrow> node \<Rightarrow> Parser \<Rightarrow> (node \<times> Parser) option" where
  "postfix_index c e p =
     (let p = advance p
      in if check_tok p TOK_STAR then Some (NODE_ELEM_REF e, skip TOK_RBRACKET (advance p))
         else do { (i, p) \<leftarrow> c_expr c p; Some (NODE_INDEX e i, skip TOK_RBRACKET p) })"

text \<open>\<open>e catch !E(x) => handler\<close>; in a handler a further \<open>catch\<close> ends the expression.\<close>

definition postfix_catch :: "calls \<Rightarrow> node \<Rightarrow> Parser \<Rightarrow> (node \<times> Parser) option" where
  "postfix_catch c e p = do {
     let (t, p) = expect_tok TOK_IDENT (skip TOK_BANG (advance p));
     let (bn, p) = (if check_tok p TOK_LPAREN then
          (let (b, p) = expect_tok TOK_IDENT (advance p) in (Some (text_or [] b), skip TOK_RPAREN p))
        else (None, p));
     (h, p) \<leftarrow> c_unary c ((skip TOK_FAT_ARROW p)\<lparr>ps_in_catch := True\<rparr>);
     Some (NODE_CATCH e (text_or [] t) h bn, p\<lparr>ps_in_catch := False\<rparr>)
   }"

definition is_ident_node :: "node \<Rightarrow> bool" where
  "is_ident_node e = (case e of NODE_IDENT x \<Rightarrow> True | _ \<Rightarrow> False)"

text \<open>One postfix form, if one follows.\<close>

definition postfix_step :: "nat \<Rightarrow> calls \<Rightarrow> node \<Rightarrow> Parser \<Rightarrow> (node \<times> Parser) option option" where
  "postfix_step n c e p =
     (if is_ident_node e \<and> check_tok p TOK_LT \<and> call_args_ahead 0 (kinds_ahead p)
      then Some (postfix_generic_call n c e p)
      else if check_tok p TOK_LPAREN then Some (postfix_call n c e p)
      else if check_tok p TOK_LBRACKET then Some (postfix_index c e p)
      else if check_tok p TOK_DOTDOT then
        Some (do { (h, p) \<leftarrow> c_unary c (advance p); Some (NODE_RANGE e h, p) })
      else if check_tok p TOK_DOT then
        Some (let (t, p) = expect_tok TOK_IDENT (advance p) in Some (NODE_FIELD e (text_or [] t), p))
      else if check_tok p TOK_QUESTION then Some (Some (NODE_TRY e, advance p))
      else if check_tok p TOK_CATCH \<and> \<not> ps_in_catch p then Some (postfix_catch c e p)
      else None)"

fun postfix_loop :: "nat \<Rightarrow> nat \<Rightarrow> calls \<Rightarrow> node \<Rightarrow> Parser \<Rightarrow> (node \<times> Parser) option" where
  "postfix_loop 0 n c e p = None"
| "postfix_loop (Suc k) n c e p =
     (case postfix_step n c e p of
        None \<Rightarrow> Some (e, p)
      | Some r \<Rightarrow> do { (e, p) \<leftarrow> r; postfix_loop k n c e p })"

text \<open>The loop reads the kind of the primary: NULL is a fault.\<close>

definition parse_postfix :: "nat \<Rightarrow> calls \<Rightarrow> Parser \<Rightarrow> (node \<times> Parser) option" where
  "parse_postfix n c p = do {
     (e, p) \<leftarrow> parse_primary n c p;
     (case e of
        None \<Rightarrow> postfix_loop n n c (NODE_INT_LIT 0) (set_fault p)
      | Some e \<Rightarrow> postfix_loop n n c e p)
   }"

section \<open>Operators\<close>

definition unary_op :: "token_kind \<Rightarrow> unop option" where
  "unary_op k =
     (if k = TOK_MINUS then Some UOP_NEG else if k = TOK_BANG then Some UOP_NOT
      else if k = TOK_AMP then Some UOP_REF else if k = TOK_STAR then Some UOP_DEREF else None)"

definition parse_raise :: "calls \<Rightarrow> Parser \<Rightarrow> (node \<times> Parser) option" where
  "parse_raise c p = do {
     let (t, p) = expect_tok TOK_IDENT (skip TOK_BANG (advance p));
     (if check_tok p TOK_LPAREN then do {
        (e, p) \<leftarrow> c_expr c (advance p);
        Some (NODE_RAISE (text_or [] t) (Some e), skip TOK_RPAREN p)
      } else Some (NODE_RAISE (text_or [] t) None, p))
   }"

definition parse_unary :: "nat \<Rightarrow> calls \<Rightarrow> Parser \<Rightarrow> (node \<times> Parser) option" where
  "parse_unary n c p =
     (case unary_op (peek_kind p) of
        Some u \<Rightarrow> do { (e, p) \<leftarrow> c_unary c (advance p); Some (NODE_UNARY u e, p) }
      | None \<Rightarrow> if check_tok p TOK_RAISE then parse_raise c p else parse_postfix n c p)"

definition binop_precedence :: "token_kind \<Rightarrow> int" where
  "binop_precedence k =
     (if k = TOK_OR then 1 else if k = TOK_AND then 2 else if k = TOK_PIPE then 3
      else if k = TOK_CARET then 4 else if k = TOK_AMP then 5
      else if k \<in> {TOK_EQ, TOK_NEQ} then 6
      else if k \<in> {TOK_LT, TOK_GT, TOK_LE, TOK_GE} then 7
      else if k \<in> {TOK_LSHIFT, TOK_RSHIFT, TOK_URSHIFT} then 8
      else if k \<in> {TOK_PLUS, TOK_MINUS} then 9
      else if k \<in> {TOK_STAR, TOK_SLASH, TOK_PERCENT} then 10 else - 1)"

definition binop_table :: "(token_kind \<times> binop) list" where
  "binop_table = [(TOK_PLUS, OP_ADD), (TOK_MINUS, OP_SUB), (TOK_STAR, OP_MUL), (TOK_SLASH, OP_DIV),
     (TOK_PERCENT, OP_MOD), (TOK_EQ, OP_EQ), (TOK_NEQ, OP_NEQ), (TOK_LT, OP_LT), (TOK_GT, OP_GT),
     (TOK_LE, OP_LE), (TOK_GE, OP_GE), (TOK_AND, OP_AND), (TOK_OR, OP_OR), (TOK_AMP, OP_BIT_AND),
     (TOK_PIPE, OP_BIT_OR), (TOK_CARET, OP_BIT_XOR), (TOK_LSHIFT, OP_LSHIFT), (TOK_RSHIFT, OP_RSHIFT),
     (TOK_URSHIFT, OP_URSHIFT)]"

definition token_to_binop :: "token_kind \<Rightarrow> binop" where
  "token_to_binop k = (case map_of binop_table k of None \<Rightarrow> OP_ADD | Some b \<Rightarrow> b)"

text \<open>
  Precedence climbing. \<open>binop_higher\<close> is the inner loop, which extends the right operand
  while a stronger operator follows.
\<close>

fun parse_binop_rhs :: "nat \<Rightarrow> nat \<Rightarrow> calls \<Rightarrow> int \<Rightarrow> node \<Rightarrow> Parser \<Rightarrow> (node \<times> Parser) option"
  and binop_higher :: "nat \<Rightarrow> nat \<Rightarrow> calls \<Rightarrow> int \<Rightarrow> node \<Rightarrow> Parser \<Rightarrow> (node \<times> Parser) option" where
  "parse_binop_rhs 0 n c m l p = None"
| "parse_binop_rhs (Suc k) n c m l p =
     (let t = peek_kind p; prec = binop_precedence t
      in if prec < m then Some (l, p)
         else do {
           (r, p) \<leftarrow> parse_unary n c (advance p);
           (r, p) \<leftarrow> binop_higher k n c prec r p;
           parse_binop_rhs k n c m (NODE_BINARY (token_to_binop t) l r) p
         })"
| "binop_higher 0 n c prec r p = None"
| "binop_higher (Suc k) n c prec r p =
     (if binop_precedence (peek_kind p) > prec then do {
        (r, p) \<leftarrow> parse_binop_rhs k n c (prec + 1) r p;
        binop_higher k n c prec r p
      } else Some (r, p))"

section \<open>Assignments\<close>

definition assign_op :: "token_kind \<Rightarrow> binop option option" where
  "assign_op k =
     (if k = TOK_ASSIGN then Some None
      else if k = TOK_PLUS_ASSIGN then Some (Some OP_ADD)
      else if k = TOK_MINUS_ASSIGN then Some (Some OP_SUB)
      else if k = TOK_STAR_ASSIGN then Some (Some OP_MUL)
      else if k = TOK_SLASH_ASSIGN then Some (Some OP_DIV)
      else None)"

text \<open>The value of \<open>x op= v\<close> is \<open>x op v\<close> over a copy of \<open>x\<close>.\<close>

definition assign_value :: "binop option \<Rightarrow> node \<Rightarrow> node \<Rightarrow> Parser \<Rightarrow> node \<times> Parser" where
  "assign_value bo x v p =
     (case bo of
        None \<Rightarrow> (v, p)
      | Some b \<Rightarrow>
          (case clone_expr x p of
             Some (y, p) \<Rightarrow> (NODE_BINARY b y v, p)
           | None \<Rightarrow> (NODE_BINARY b x v, set_fault p)))"

definition parse_expr :: "nat \<Rightarrow> calls \<Rightarrow> Parser \<Rightarrow> (node \<times> Parser) option" where
  "parse_expr n c p = do {
     (e, p) \<leftarrow> parse_unary n c p;
     (e, p) \<leftarrow> parse_binop_rhs n n c 1 e p;
     (case assign_op (peek_kind p) of
        None \<Rightarrow> Some (e, p)
      | Some bo \<Rightarrow> do {
          (v, p) \<leftarrow> c_expr c (advance p);
          let (v, p) = assign_value bo e v p;
          Some (NODE_ASSIGN e v, p)
        })
   }"

end
