(* ===== verification/ParseStmt.thy ===== *)
theory ParseStmt
  imports ParseExpr
begin

text \<open>
  Blocks and statements (\<open>parser_decl.c\<close>), the knot of the recursive functions, and the
  parser of a single expression.
\<close>

section \<open>Statements\<close>

definition parse_let :: "nat \<Rightarrow> calls \<Rightarrow> Parser \<Rightarrow> (node \<times> Parser) option" where
  "parse_let n c p = do {
     let (m, p) = match_tok TOK_MUT (advance p);
     let (x, p) = expect_ident p;
     (t, p) \<leftarrow> (if check_tok p TOK_COLON then do {
          (t, p) \<leftarrow> parse_type n (advance p);
          Some (Some t, p)
        } else Some (None, p));
     let p = skip TOK_ASSIGN p;
     (if at_world p then do {
        (e, p) \<leftarrow> skip_world c p;
        Some (NODE_LET x m t (Some e), p)
      } else do {
        (e, p) \<leftarrow> parse_expr n c p;
        Some (NODE_LET x m t (Some e), snd (match_tok TOK_SEMICOLON p))
      })
   }"

definition parse_return :: "nat \<Rightarrow> calls \<Rightarrow> Parser \<Rightarrow> (node \<times> Parser) option" where
  "parse_return n c p = do {
     let p = advance p;
     (v, p) \<leftarrow> (if \<not> check_tok p TOK_RBRACE \<and> \<not> check_tok p TOK_SEMICOLON \<and> \<not> check_tok p TOK_EOF
        then do { (e, p) \<leftarrow> parse_expr n c p; Some (Some e, p) }
        else Some (None, p));
     Some (NODE_RETURN v, snd (match_tok TOK_SEMICOLON p))
   }"

definition parse_while :: "nat \<Rightarrow> calls \<Rightarrow> Parser \<Rightarrow> (node \<times> Parser) option" where
  "parse_while n c p = do {
     (e, p) \<leftarrow> parse_expr n c (advance p);
     (vs, p) \<leftarrow> (if at_word p ''invariant'' then comma_sep n (parse_expr n c) (advance p) else Some ([], p));
     (b, p) \<leftarrow> c_block c p;
     Some (NODE_WHILE e b vs, p)
   }"

definition parse_for :: "nat \<Rightarrow> calls \<Rightarrow> Parser \<Rightarrow> (node \<times> Parser) option" where
  "parse_for n c p = do {
     let (x, p) = expect_ident (advance p);
     (i, p) \<leftarrow> parse_expr n c (skip TOK_IN p);
     (b, p) \<leftarrow> c_block c p;
     Some (NODE_FOR x i b, p)
   }"

definition parse_stmt :: "nat \<Rightarrow> calls \<Rightarrow> Parser \<Rightarrow> (node \<times> Parser) option" where
  "parse_stmt n c p =
     (if check_tok p TOK_LET then parse_let n c p
      else if check_tok p TOK_RETURN then parse_return n c p
      else if check_tok p TOK_BREAK then Some (NODE_BREAK, snd (match_tok TOK_SEMICOLON (advance p)))
      else if check_tok p TOK_CONTINUE then Some (NODE_CONTINUE, snd (match_tok TOK_SEMICOLON (advance p)))
      else if at_word p ''invariant'' then do {
        (vs, p) \<leftarrow> comma_sep n (parse_expr n c) (advance p);
        Some (NODE_INVARIANT vs, snd (match_tok TOK_SEMICOLON p))
      }
      else if check_tok p TOK_WHILE then parse_while n c p
      else if check_tok p TOK_FOR then parse_for n c p
      else if check_tok p TOK_IF then parse_expr n c p
      else if check_tok p TOK_LBRACE then c_block c p
      else do {
        (e, p) \<leftarrow> parse_expr n c p;
        Some (NODE_EXPR_STMT e, snd (match_tok TOK_SEMICOLON p))
      })"

section \<open>Blocks\<close>

text \<open>A world block is lowered at once; calls that release its world by hand are errors.\<close>

definition parse_world :: "calls \<Rightarrow> Parser \<Rightarrow> (node \<times> Parser) option" where
  "parse_world c p = do {
     let (x, p) = expect_ident (advance p);
     (b, p) \<leftarrow> c_block c p;
     Some (w32_lower x (node_stmts b) (w32_check_free x b p))
   }"

definition block_item :: "nat \<Rightarrow> calls \<Rightarrow> Parser \<Rightarrow> (node \<times> Parser) option" where
  "block_item n c p = (if at_world p then parse_world c p else parse_stmt n c p)"

definition parse_block :: "nat \<Rightarrow> calls \<Rightarrow> Parser \<Rightarrow> (node \<times> Parser) option" where
  "parse_block n c p = do {
     (ss, p) \<leftarrow> collect_while n not_closed (block_item n c) (skip TOK_LBRACE p);
     Some (NODE_BLOCK ss, skip TOK_RBRACE p)
   }"

section \<open>The knot\<close>

fun knot :: "nat \<Rightarrow> calls" where
  "knot 0 = \<lparr>c_unary = \<lambda>p. None, c_expr = \<lambda>p. None, c_block = \<lambda>p. None\<rparr>"
| "knot (Suc n) =
     (let c = knot n in \<lparr>c_unary = parse_unary n c, c_expr = parse_expr n c, c_block = parse_block n c\<rparr>)"

text \<open>An expression from a text: \<open>None\<close> inside is NULL, for prose and partial input.\<close>

definition parse_expr_string :: "nat \<Rightarrow> (string \<Rightarrow> 64 word) \<Rightarrow> string \<Rightarrow> node option option" where
  "parse_expr_string n fl s =
     (case tokenize (lexer_init s ''<guarantee>'') of
        Inl e \<Rightarrow> Some None
      | Inr ts \<Rightarrow> do {
          (e, p) \<leftarrow> c_expr (knot n) (parser_init fl ts ''<guarantee>'');
          Some (if ps_errors p \<noteq> [] \<or> \<not> check_tok p TOK_EOF then None else Some e)
        })"

end
