(* ===== verification/ParseTotal.thy ===== *)
theory ParseTotal
  imports ParseStmt
begin

text \<open>
  The parser of expressions, statements and blocks ends: with fuel above a bound that is
  linear in the weight of the tokens left, each function returns, without moving back.
\<close>

section \<open>The measure\<close>

text \<open>
  A token weighs one, and a string in addition the length of its text, whose
  interpolations are parsed in turn. The last token, the end of the file, weighs nothing.
\<close>

definition tok_weight :: "token \<Rightarrow> nat" where
  "tok_weight t = 1 + (if tk_kind t = TOK_STR_LIT then length (text_or [] t) else 0)"

definition wt :: "Parser \<Rightarrow> nat" where
  "wt p = sum_list (map tok_weight (butlast (drop (ps_pos p) (ps_tokens p))))"

definition parser_ok :: "Parser \<Rightarrow> bool" where
  "parser_ok p \<longleftrightarrow> ps_pos p < length (ps_tokens p) \<and> tk_kind (last (ps_tokens p)) = TOK_EOF"

text \<open>A state that is reached from another one by parsing.\<close>

definition goes :: "Parser \<Rightarrow> Parser \<Rightarrow> bool" where
  "goes p q \<longleftrightarrow> parser_ok p \<and> ps_tokens q = ps_tokens p \<and> ps_filename q = ps_filename p \<and>
     ps_pos p \<le> ps_pos q \<and> ps_pos q < length (ps_tokens p)"

definition eats :: "Parser \<Rightarrow> Parser \<Rightarrow> bool" where
  "eats p q \<longleftrightarrow> goes p q \<and> ps_pos p < ps_pos q"

lemma goes_refl: "parser_ok p \<Longrightarrow> goes p p"
  by (simp add: goes_def parser_ok_def)

lemma goes_ok: "goes p q \<Longrightarrow> parser_ok q"
  by (auto simp: goes_def parser_ok_def)

lemma goes_trans: "goes p q \<Longrightarrow> goes q r \<Longrightarrow> goes p r"
  by (auto simp: goes_def)

lemma eats_goes: "eats p q \<Longrightarrow> goes p q"
  by (simp add: eats_def)

lemma goes_eats: "goes p q \<Longrightarrow> eats q r \<Longrightarrow> eats p r"
  by (auto simp: eats_def goes_def)

lemma eats_then: "eats p q \<Longrightarrow> goes q r \<Longrightarrow> eats p r"
  by (auto simp: eats_def goes_def)

lemma wt_mono_aux: "i \<le> j \<Longrightarrow> sum_list (map tok_weight (butlast (drop j ts))) \<le> sum_list (map tok_weight (butlast (drop i ts)))"
proof (induction j rule: dec_induct)
  case (step n)
  show ?case
  proof (cases "drop n ts")
    case (Cons t us)
    then have "drop (Suc n) ts = us" by (metis drop_Suc drop_tl list.sel(3))
    then show ?thesis using Cons step.IH by (cases us) auto
  qed (use step.IH in simp)
qed simp

lemma wt_mono: "goes p q \<Longrightarrow> wt q \<le> wt p"
  using wt_mono_aux by (auto simp: goes_def wt_def)

lemma wt_step: "Suc i < length ts \<Longrightarrow>
  sum_list (map tok_weight (butlast (drop i ts))) =
  tok_weight (ts ! i) + sum_list (map tok_weight (butlast (drop (Suc i) ts)))"
  by (simp flip: Cons_nth_drop_Suc)

lemma wt_eats: "eats p q \<Longrightarrow> wt q + tok_weight (cur p) \<le> wt p"
proof -
  assume e: "eats p q"
  then have "Suc (ps_pos p) < length (ps_tokens p)" "Suc (ps_pos p) \<le> ps_pos q" "ps_tokens q = ps_tokens p"
    by (auto simp: eats_def goes_def)
  with wt_step [of "ps_pos p" "ps_tokens p"] wt_mono_aux [of "Suc (ps_pos p)" "ps_pos q" "ps_tokens p"]
  show ?thesis by (simp add: wt_def cur_def)
qed

lemma wt_less: "eats p q \<Longrightarrow> wt q < wt p"
  using wt_eats [of p q] by (simp add: tok_weight_def)

section \<open>The cursor moves forward\<close>

lemma not_eof_advance: "parser_ok p \<Longrightarrow> peek_kind p \<noteq> TOK_EOF \<Longrightarrow> eats p (advance p)"
proof -
  assume ok: "parser_ok p" and k: "peek_kind p \<noteq> TOK_EOF"
  have "ps_pos p \<noteq> length (ps_tokens p) - 1"
  proof
    assume "ps_pos p = length (ps_tokens p) - 1"
    moreover have "ps_tokens p \<noteq> []" using ok by (auto simp: parser_ok_def)
    ultimately have "cur p = last (ps_tokens p)" by (simp add: cur_def last_conv_nth)
    then show False using ok k by (simp add: parser_ok_def peek_kind_def)
  qed
  then show ?thesis using ok by (auto simp: eats_def goes_def parser_ok_def advance_def)
qed

named_theorems goes_intros \<open>states reached by parsing\<close>

lemma goes_advance [goes_intros]: "goes p q \<Longrightarrow> goes p (advance q)"
  by (auto simp: goes_def advance_def)

lemma goes_error_at [goes_intros]: "goes p q \<Longrightarrow> goes p (parser_error_at x q)"
  by (auto simp: goes_def parser_error_at_def)

lemma goes_error [goes_intros]: "goes p q \<Longrightarrow> goes p (parser_error q)"
  by (simp add: parser_error_def goes_error_at)

lemma goes_expect [goes_intros]: "goes p q \<Longrightarrow> goes p (snd (expect_tok k q))"
  by (simp add: expect_tok_def goes_advance goes_error)

lemma goes_expect_ident [goes_intros]: "goes p q \<Longrightarrow> goes p (snd (expect_ident q))"
  by (simp add: expect_ident_def goes_expect)

lemma goes_match [goes_intros]: "goes p q \<Longrightarrow> goes p (snd (match_tok k q))"
  by (simp add: match_tok_def goes_advance)

lemma goes_fields [simp]:
  "goes p (q\<lparr>ps_gt_pending := g\<rparr>) \<longleftrightarrow> goes p q" "goes p (q\<lparr>ps_type_depth := d\<rparr>) \<longleftrightarrow> goes p q"
  "goes p (q\<lparr>ps_in_catch := b\<rparr>) \<longleftrightarrow> goes p q" "goes p (q\<lparr>ps_heap := h\<rparr>) \<longleftrightarrow> goes p q"
  "goes p (q\<lparr>ps_w32_ctr := c\<rparr>) \<longleftrightarrow> goes p q" "goes p (set_fault q) \<longleftrightarrow> goes p q"
  by (auto simp: goes_def set_fault_def)

lemmas goes_fieldsI [goes_intros] = goes_fields [THEN iffD2]

lemma goes_gt_split [goes_intros]: "goes p q \<Longrightarrow> goes p (expect_gt_split q)"
  by (simp add: expect_gt_split_def goes_intros)

lemma goes_if [goes_intros]: "goes p q \<Longrightarrow> goes p r \<Longrightarrow> goes p (if b then q else r)"
  by simp

section \<open>Results\<close>

text \<open>A function returns on a state: with a state further on, or strictly further on.\<close>

definition runs :: "Parser \<Rightarrow> ('a \<times> Parser) option \<Rightarrow> bool" where
  "runs p r \<longleftrightarrow> (\<exists>x q. r = Some (x, q) \<and> goes p q)"

definition runs_on :: "Parser \<Rightarrow> ('a \<times> Parser) option \<Rightarrow> bool" where
  "runs_on p r \<longleftrightarrow> (\<exists>x q. r = Some (x, q) \<and> eats p q)"

lemma runs_Some [simp]: "runs p (Some (x, q)) \<longleftrightarrow> goes p q"
  by (simp add: runs_def)

lemma runs_on_Some [simp]: "runs_on p (Some (x, q)) \<longleftrightarrow> eats p q"
  by (simp add: runs_on_def)

lemma runs_on_runs: "runs_on p r \<Longrightarrow> runs p r"
  by (auto simp: runs_def runs_on_def eats_goes)

lemma runs_weaken: "runs q r \<Longrightarrow> goes p q \<Longrightarrow> runs p r"
  by (auto simp: runs_def dest: goes_trans)

lemma runs_on_weaken: "runs q r \<Longrightarrow> eats p q \<Longrightarrow> runs_on p r"
  by (auto simp: runs_def runs_on_def dest: eats_then)

lemma runs_on_goes: "runs_on q r \<Longrightarrow> goes p q \<Longrightarrow> runs_on p r"
  by (auto simp: runs_on_def dest: goes_eats)

text \<open>The rules by which the body of a function runs, relative to an earlier state.\<close>

named_theorems runs_intros \<open>bodies that run\<close>

lemma runs_seq [runs_intros]:
  "runs p r \<Longrightarrow> (\<And>x q. goes p q \<Longrightarrow> runs p (f x q)) \<Longrightarrow> runs p (Option.bind r (\<lambda>(x, q). f x q))"
  by (auto simp: runs_def)

lemma runs_on_seq: "runs_on p r \<Longrightarrow> (\<And>x q. eats p q \<Longrightarrow> runs q (f x q)) \<Longrightarrow> runs_on p (Option.bind r (\<lambda>(x, q). f x q))"
  by (fastforce simp: runs_def runs_on_def dest: eats_then)

lemma runs_return [runs_intros]: "goes p q \<Longrightarrow> runs p (Some (x, q))"
  by simp

lemma runs_if [runs_intros]: "(b \<Longrightarrow> runs p r) \<Longrightarrow> (\<not> b \<Longrightarrow> runs p r') \<Longrightarrow> runs p (if b then r else r')"
  by simp

lemma runs_expect [runs_intros]:
  "goes p q \<Longrightarrow> (\<And>t q. goes p q \<Longrightarrow> runs p (f t q)) \<Longrightarrow> runs p (case expect_tok k q of (t, q) \<Rightarrow> f t q)"
  using goes_expect [of p q k] by (auto split: prod.split)

lemma runs_expect_ident [runs_intros]:
  "goes p q \<Longrightarrow> (\<And>t q. goes p q \<Longrightarrow> runs p (f t q)) \<Longrightarrow> runs p (case expect_ident q of (t, q) \<Rightarrow> f t q)"
  using goes_expect_ident [of p q] by (auto split: prod.split)

lemma runs_match [runs_intros]:
  "goes p q \<Longrightarrow> (\<And>t q. goes p q \<Longrightarrow> runs p (f t q)) \<Longrightarrow> runs p (case match_tok k q of (t, q) \<Rightarrow> f t q)"
  using goes_match [of p q k] by (auto split: prod.split)

lemma runs_pair: "(\<And>a b. runs p (f a b q)) \<Longrightarrow> runs p ((case x of (a, b) \<Rightarrow> f a b) q)"
  by (simp split: prod.split)

text \<open>A function that returns on every state from a given one on.\<close>

definition total_from :: "Parser \<Rightarrow> (Parser \<Rightarrow> ('a \<times> Parser) option) \<Rightarrow> bool" where
  "total_from p f \<longleftrightarrow> (\<forall>q. goes p q \<longrightarrow> runs q (f q))"

lemma runs_call: "total_from p f \<Longrightarrow> goes p q \<Longrightarrow> runs p (f q)"
  by (auto simp: total_from_def intro: runs_weaken)

lemma total_from_later: "total_from p f \<Longrightarrow> goes p q \<Longrightarrow> total_from q f"
  by (auto simp: total_from_def dest: goes_trans)

lemma total_fromI: "(\<And>q. goes p q \<Longrightarrow> runs q (f q)) \<Longrightarrow> total_from p f"
  by (simp add: total_from_def)

lemma total_comma_sep:
  assumes f: "total_from p f" and n: "wt p < n"
  shows "total_from p (comma_sep n f)"
proof (rule total_fromI)
  fix q
  assume "goes p q"
  then have "total_from q f" "wt q < n" "parser_ok q"
    using f n wt_mono total_from_later goes_ok by (auto intro: le_less_trans)
  then show "runs q (comma_sep n f q)"
  proof (induction n arbitrary: q)
    case (Suc n)
    from Suc.prems obtain x r where r: "f q = Some (x, r)" "goes q r"
      using goes_refl [of q] by (auto simp: total_from_def runs_def)
    show ?case
    proof (cases "check_tok r TOK_COMMA")
      case True
      then have e: "eats r (advance r)"
        using goes_ok [OF r(2)] by (intro not_eof_advance) (simp_all add: check_tok_def)
      have g: "goes q (advance r)" using r(2) eats_goes [OF e] by (rule goes_trans)
      have "wt (advance r) < n" using wt_less [OF e] wt_mono [OF r(2)] Suc.prems(2) by simp
      then have "runs (advance r) (comma_sep n f (advance r))"
        using Suc.prems(1) total_from_later g goes_ok by (intro Suc.IH) blast+
      from runs_weaken [OF this g] have "runs q (comma_sep n f (advance r))" .
      with True r show ?thesis by (auto simp: runs_def)
    qed (use r in \<open>simp add: runs_def\<close>)
  qed simp
qed

lemma total_opt_list: "total_from p f \<Longrightarrow> wt p < n \<Longrightarrow> total_from p (opt_list n k f)"
  using total_comma_sep [of p f n]
  by (auto simp: opt_list_def total_from_def intro: goes_refl goes_ok)

text \<open>A loop ends when each round eats a token.\<close>

lemma total_collect_while:
  assumes f: "\<And>q. goes p q \<Longrightarrow> c q \<Longrightarrow> runs_on q (f q)" and n: "wt p < n"
  shows "total_from p (collect_while n c f)"
proof (rule total_fromI)
  fix q
  assume "goes p q"
  then have "\<And>r. goes q r \<Longrightarrow> c r \<Longrightarrow> runs_on r (f r)" "wt q < n" "parser_ok q"
    using f n wt_mono goes_trans goes_ok by (blast, metis le_less_trans, blast)
  then show "runs q (collect_while n c f q)"
  proof (induction n arbitrary: q)
    case (Suc n)
    show ?case
    proof (cases "c q")
      case True
      with Suc.prems(1) [OF goes_refl [OF Suc.prems(3)]] obtain x r where r: "f q = Some (x, r)" "eats q r"
        by (auto simp: runs_on_def)
      note g = eats_goes [OF r(2)]
      have "runs r (collect_while n c f r)"
        using Suc.prems g goes_trans [OF g] goes_ok wt_less [OF r(2)] by (intro Suc.IH) auto
      from runs_weaken [OF this g] True r show ?thesis by (auto simp: runs_def)
    qed (use Suc.prems in \<open>simp add: goes_refl\<close>)
  qed simp
qed

section \<open>Types\<close>

lemma check_eats: "parser_ok p \<Longrightarrow> check_tok p k \<Longrightarrow> k \<noteq> TOK_EOF \<Longrightarrow> eats p (advance p)"
  by (rule not_eof_advance) (simp_all add: check_tok_def)

lemma effect_item_runs:
  assumes ty: "\<And>q. eats p q \<Longrightarrow> runs q (ty q)" and p: "parser_ok p" "check_tok p TOK_BANG"
  shows "runs_on p (effect_item ty p)"
proof -
  have e: "eats p (advance p)" using p by (rule check_eats) simp
  have ty': "goes (advance p) q \<Longrightarrow> runs (advance p) (ty q)" for q
    using ty [of q] eats_then [OF e] runs_weaken by blast
  have "runs (advance p) (effect_item ty p)"
    unfolding effect_item_def Let_def
    by (intro runs_intros ty' goes_intros goes_refl goes_ok [OF eats_goes [OF e]] | assumption)+
  with e show ?thesis by (rule runs_on_weaken [rotated])
qed

text \<open>From a state of weight below the fuel.\<close>

lemma total_with_effects:
  assumes ty: "total_from p ty" and n: "wt p < n"
  shows "goes p q \<Longrightarrow> runs p (parse_type_with_effects n ty t q)"
proof -
  assume q: "goes p q"
  have "total_from p (collect_while n (\<lambda>p. check_tok p TOK_BANG) (effect_item ty))"
  proof (rule total_collect_while)
    fix r
    assume r: "goes p r" "check_tok r TOK_BANG"
    show "runs_on r (effect_item ty r)"
    proof (rule effect_item_runs [OF _ goes_ok [OF r(1)] r(2)])
      fix r'
      assume "eats r r'"
      with r(1) show "runs r' (ty r')" using ty by (auto simp: total_from_def dest: eats_goes goes_trans)
    qed
  qed (rule n)
  from runs_call [OF this] q show ?thesis
    unfolding parse_type_with_effects_def
    by (intro runs_intros goes_intros | assumption)+
qed

lemma total_fn_type:
  assumes ty: "total_from p ty" and n: "wt p < n" and g: "goes p q"
  shows "runs p (parse_fn_type n ty q)"
  unfolding parse_fn_type_def Let_def
  by (intro runs_intros goes_intros runs_call [OF ty] runs_call [OF total_opt_list [OF ty n]]
      total_with_effects [OF ty n] | assumption | rule g)+

lemma parse_type_name_goes: "goes p q \<Longrightarrow> goes p (snd (parse_type_name q))"
  by (auto simp: parse_type_name_def Let_def split: prod.splits intro!: goes_intros)
    (metis goes_advance goes_expect snd_conv)+

lemma runs_type_name:
  "goes p q \<Longrightarrow> (\<And>x q. goes p q \<Longrightarrow> runs p (f x q)) \<Longrightarrow> runs p (case parse_type_name q of (x, q) \<Rightarrow> f x q)"
  using parse_type_name_goes [of p q] by (auto split: prod.splits)

text \<open>A branch that consumes the token it tests runs from the next token on.\<close>

lemma runs_if_check:
  "goes p q \<Longrightarrow> k \<noteq> TOK_EOF \<Longrightarrow>
   (eats p (advance q) \<Longrightarrow> goes (advance q) (advance q) \<Longrightarrow> runs (advance q) r) \<Longrightarrow> runs p r' \<Longrightarrow>
   runs p (if check_tok q k then r else r')"
  "goes p q \<Longrightarrow> k \<noteq> TOK_EOF \<Longrightarrow>
   (eats p (advance q) \<Longrightarrow> goes (advance q) (advance q) \<Longrightarrow> runs (advance q) r) \<Longrightarrow> runs p r' \<Longrightarrow>
   runs p (if b \<and> check_tok q k then r else r')"
  using check_eats [of q k] goes_eats [of p q "advance q"] goes_ok [of p q] goes_refl [of "advance q"]
  by (auto dest: eats_goes goes_ok intro: runs_weaken)

text \<open>What a type parser may call: itself on later states.\<close>

definition type_calls :: "nat \<Rightarrow> Parser \<Rightarrow> (Parser \<Rightarrow> (tnode \<times> Parser) option) \<Rightarrow> bool" where
  "type_calls n p ty \<longleftrightarrow> wt p \<le> n \<and> (\<forall>q. eats p q \<longrightarrow> runs q (ty q))"

lemma type_calls_total: "type_calls n p ty \<Longrightarrow> eats p q \<Longrightarrow> total_from q ty"
  by (auto simp: total_from_def type_calls_def dest: eats_then)

lemma type_calls_wt: "type_calls n p ty \<Longrightarrow> eats p q \<Longrightarrow> wt q < n"
  using wt_less by (auto simp: type_calls_def intro: less_le_trans)

lemma runs_ty: "type_calls n p ty \<Longrightarrow> eats p q \<Longrightarrow> goes q r \<Longrightarrow> runs q (ty r)"
  by (blast intro: runs_call type_calls_total)

lemma runs_tys: "type_calls n p ty \<Longrightarrow> eats p q \<Longrightarrow> goes q r \<Longrightarrow> runs q (comma_sep n ty r)"
  by (blast intro: runs_call total_comma_sep type_calls_total type_calls_wt)

lemma runs_fn_type: "type_calls n p ty \<Longrightarrow> eats p q \<Longrightarrow> goes q r \<Longrightarrow> runs q (parse_fn_type n ty r)"
  by (blast intro: total_fn_type type_calls_total type_calls_wt)

lemma runs_named_type: "type_calls n p ty \<Longrightarrow> goes p q \<Longrightarrow> runs p (parse_named_type n ty q)"
  unfolding parse_named_type_def Let_def
  by (assumption | rule runs_type_name runs_if_check runs_pair runs_seq runs_return goes_intros runs_ty runs_tys | simp)+

lemma total_type_rec: "type_calls n p ty \<Longrightarrow> goes p q \<Longrightarrow> runs p (parse_type_rec n ty q)"
  unfolding parse_type_rec_def
  by (assumption | rule runs_if_check runs_pair runs_seq runs_return goes_intros runs_ty runs_tys
      runs_fn_type runs_named_type | simp)+

lemma parse_type_runs: "parser_ok p \<Longrightarrow> wt p < n \<Longrightarrow> runs p (parse_type n p)"
proof (induction n arbitrary: p)
  case (Suc n)
  let ?p = "p\<lparr>ps_type_depth := ps_type_depth p + 1\<rparr>"
  have g: "goes p ?p" using goes_refl [OF Suc.prems(1)] by simp
  have "type_calls n p (parse_type n)"
    using Suc.prems Suc.IH goes_ok [OF eats_goes] wt_less unfolding type_calls_def
    by (metis less_Suc_eq_le less_le_trans)
  from total_type_rec [OF this g] show ?case
    by (auto simp: runs_def Let_def)
qed simp

end
