(* ===== verification/ParseTotalExpr.thy ===== *)
theory ParseTotalExpr
  imports ParseTotal LexerRead
begin

text \<open>The weight of the tokens of a text, and that the functions on expressions end.\<close>

section \<open>Tokens of a text\<close>

lemma str_nested_length:
  "length (sb_buf (snd (str_nested l b))) + left (fst (str_nested l b)) \<le> length (sb_buf b) + left l"
proof (induction l b rule: str_nested.induct)
  case (1 l b)
  then show ?case
    using left_pos_iff [of l] left_pos_iff [of "adv l"]
    by (subst (1 2) str_nested.simps) (auto simp: sb_push_buf)
qed

lemma str_interp_length:
  "length (sb_buf (snd (str_interp d l b))) + left (fst (str_interp d l b)) \<le> length (sb_buf b) + left l"
proof (induction d l b rule: str_interp.induct)
  case (1 d l b)
  then show ?case
    using left_pos_iff [of l] str_nested_length [of "adv l" "sb_push (getc l) b"]
    by (subst (1 2) str_interp.simps) auto
qed

lemma sb_put_buf [simp]: "sb_buf (sb_put c b) = sb_buf b @ [c]"
  by (simp add: sb_put_def)

lemma str_loop_length:
  "fst (str_loop l b) = None \<Longrightarrow>
   length (sb_buf (snd (snd (str_loop l b)))) + left (fst (snd (str_loop l b))) + 1 \<le> length (sb_buf b) + left l"
proof (induction l b rule: str_loop.induct)
  case (1 l b)
  let ?b = "sb_put (getc (adv l)) (sb_put (getc l) b)"
  show ?case
  proof (cases "lex_end l \<or> getc l = CHR 0x22")
    case True
    with 1 left_pos_iff [of l] show ?thesis by (subst (1 2) str_loop.simps) (auto simp: str_loop.simps [of l b])
  next
    case False
    note e = str_loop.simps [of l b]
    show ?thesis
      using 1 False left_pos_iff [of l] left_pos_iff [of "adv l"] str_interp_length [of 1 "adv (adv l)" ?b]
      by (auto simp: e Let_def split: if_splits sum.splits)
  qed
qed

lemma lex_string_weight:
  "tk_kind (fst (lex_string l st)) = TOK_STR_LIT \<Longrightarrow>
   tok_weight (fst (lex_string l st)) + left (snd (lex_string l st)) \<le> left l"
  using str_loop_length [of l sb_init]
  by (auto simp: lex_string_def lex_string_buf_def tok_weight_def text_or_def sb_init_def Let_def
      split: prod.splits option.splits)

lemma not_str_kinds:
  "keyword_kind s \<noteq> TOK_STR_LIT" "map_of two_char_ops s = Some k \<Longrightarrow> k \<noteq> TOK_STR_LIT"
  "map_of one_char_ops x = Some k \<Longrightarrow> k \<noteq> TOK_STR_LIT"
  by (auto simp: keyword_kind_def kw_table_def two_char_ops_def one_char_ops_def split: option.split if_splits)

lemma other_readers:
  "tk_kind (fst (lex_ident l st)) \<noteq> TOK_STR_LIT" "tk_kind (fst (lex_number l st)) \<noteq> TOK_STR_LIT"
  "tk_kind (fst (lex_char l st)) \<noteq> TOK_STR_LIT" "tk_kind (fst (lex_operator l st)) \<noteq> TOK_STR_LIT"
proof -
  show "tk_kind (fst (lex_ident l st)) \<noteq> TOK_STR_LIT"
    by (auto simp: lex_ident_def lex_bytes_def Let_def not_str_kinds)
  show "tk_kind (fst (lex_number l st)) \<noteq> TOK_STR_LIT"
    using lex_number_kind [of l st] by auto
  show "tk_kind (fst (lex_char l st)) \<noteq> TOK_STR_LIT"
    by (auto simp: lex_char_def lex_char_close_def Let_def make_error_def split: option.split)
  show "tk_kind (fst (lex_operator l st)) \<noteq> TOK_STR_LIT"
    by (auto simp: lex_operator_def Let_def make_error_def split: option.split dest: not_str_kinds(2,3))
qed

lemma lexer_next_weight:
  assumes "tk_kind (fst (lexer_next l)) \<noteq> TOK_EOF"
  shows "tok_weight (fst (lexer_next l)) + left (snd (lexer_next l)) \<le> left l"
proof (cases "tk_kind (fst (lexer_next l)) = TOK_STR_LIT")
  case False
  then show ?thesis using lexer_next_left [OF assms] by (simp add: tok_weight_def)
next
  case True
  define m where "m = skip_ws l"
  define st where "st = \<lparr>p_line = l_line m, p_col = l_col m, p_file = l_filename m\<rparr>"
  have "\<not> lex_end m" using assms by (simp add: lexer_next_eof_iff m_def)
  have eq: "lexer_next l = lex_string (adv m) st"
    using True other_readers assms by (auto simp: lexer_next_def Let_def m_def st_def split: if_splits)
  have "left m \<le> left l" using moves_left [OF moves_skip_ws] by (simp add: m_def)
  with lex_string_weight [of "adv m" st] True eq show ?thesis by simp
qed

lemma tokenize_weight:
  "tokenize l = Inr ts \<Longrightarrow> ts \<noteq> [] \<and> tk_kind (last ts) = TOK_EOF \<and> sum_list (map tok_weight (butlast ts)) \<le> left l"
proof (induction l arbitrary: ts rule: tokenize.induct)
  case (1 l)
  show ?case
  proof (cases "tk_kind (fst (lexer_next l)) = TOK_EOF")
    case True
    with 1(2) show ?thesis by (subst (asm) tokenize.simps) auto
  next
    case False
    then obtain us where us: "tk_kind (fst (lexer_next l)) \<noteq> TOK_ERROR" "tokenize (snd (lexer_next l)) = Inr us"
        "ts = fst (lexer_next l) # us"
      using 1(2) by (subst (asm) tokenize.simps) (auto split: if_splits sum.splits)
    with 1(1) [OF False us(1,2)] lexer_next_weight [OF False] show ?thesis by simp
  qed
qed

section \<open>Calls\<close>

text \<open>The result of a parser of expressions: it moves on unless it is at the end.\<close>

definition gets :: "Parser \<Rightarrow> ('a \<times> Parser) option \<Rightarrow> bool" where
  "gets p r \<longleftrightarrow> runs p r \<and> (peek_kind p \<noteq> TOK_EOF \<longrightarrow> runs_on p r)"

lemma gets_after: "gets q r \<Longrightarrow> goes p q \<Longrightarrow> peek_kind p \<noteq> TOK_EOF \<Longrightarrow> runs_on p r"
proof (cases "ps_pos q = ps_pos p")
  case True
  assume a: "gets q r" "goes p q" "peek_kind p \<noteq> TOK_EOF"
  then have "peek_kind q = peek_kind p" using True by (simp add: goes_def peek_kind_def cur_def)
  with a show ?thesis by (auto simp: gets_def intro: runs_on_goes)
next
  case False
  assume "gets q r" "goes p q"
  with False show ?thesis by (auto simp: gets_def eats_def goes_def intro: runs_on_weaken)
qed

text \<open>
  The recursive functions return on lighter states, and the parser of blocks reads a
  brace. \<open>expr_calls n c p\<close> holds while an expression that starts at \<open>p\<close> is read with fuel
  \<open>n\<close> for the loops.
\<close>

definition calls_ok :: "calls \<Rightarrow> nat \<Rightarrow> bool" where
  "calls_ok c m \<longleftrightarrow> (\<forall>q. parser_ok q \<longrightarrow> wt q < m \<longrightarrow>
     gets q (c_unary c q) \<and> gets q (c_expr c q) \<and> runs q (c_block c q))"

definition brace_ok :: "calls \<Rightarrow> Parser \<Rightarrow> bool" where
  "brace_ok c p \<longleftrightarrow> (check_tok p TOK_LBRACE \<longrightarrow> runs_on p (c_block c p))"

definition expr_calls :: "nat \<Rightarrow> calls \<Rightarrow> Parser \<Rightarrow> bool" where
  "expr_calls n c p \<longleftrightarrow> calls_ok c (wt p) \<and> 2 * wt p + 1 \<le> n"

lemma expr_calls_later: "expr_calls n c p \<Longrightarrow> goes p q \<Longrightarrow> expr_calls n c q"
  using wt_mono by (fastforce simp: expr_calls_def calls_ok_def)

lemma expr_calls_total:
  assumes "expr_calls n c p" "eats p q"
  shows "total_from q (c_unary c)" "total_from q (c_expr c)" "total_from q (c_block c)"
  using assms wt_less eats_then goes_ok by (fastforce simp: total_from_def expr_calls_def calls_ok_def gets_def)+

lemma expr_calls_wt: "expr_calls n c p \<Longrightarrow> goes p q \<Longrightarrow> wt q < n"
  using wt_mono by (fastforce simp: expr_calls_def)

lemma expr_calls_type: "expr_calls n c p \<Longrightarrow> goes p p \<Longrightarrow> total_from p (parse_type n)"
  by (auto simp: total_from_def intro: parse_type_runs goes_ok expr_calls_wt)

text \<open>The calls of a body that runs from \<open>q\<close> on, after the first token of \<open>p\<close>.\<close>

lemma run_calls:
  assumes "expr_calls n c p" "eats p q" "goes q r"
  shows "runs q (c_unary c r)" "runs q (c_expr c r)" "runs q (c_block c r)" "runs q (parse_type n r)"
    "runs q (comma_sep n (parse_type n) r)" "runs q (opt_list n k (c_expr c) r)"
    "runs q (parse_type_with_effects n (parse_type n) t r)"
proof -
  note ec = expr_calls_total [OF assms(1,2)]
  have w: "wt q < n" using assms(1,2) eats_goes expr_calls_wt by blast
  have ty: "total_from q (parse_type n)"
    using assms(1,2) by (meson eats_goes expr_calls_later expr_calls_type goes_ok goes_refl)
  show "runs q (c_unary c r)" "runs q (c_expr c r)" "runs q (c_block c r)" "runs q (parse_type n r)"
    "runs q (comma_sep n (parse_type n) r)" "runs q (opt_list n k (c_expr c) r)"
    "runs q (parse_type_with_effects n (parse_type n) t r)"
    using ec ty w assms(3)
    by (blast intro: runs_call total_comma_sep total_opt_list total_with_effects)+
qed

section \<open>Strings\<close>

lemma goes_resume: "goes p q \<Longrightarrow> goes p (resume q s)"
  by (simp add: resume_def goes_def)

lemma goes_flush: "goes p q \<Longrightarrow> goes p (snd (flush_lit l ps q))"
  by (simp add: flush_lit_def push_part_def)

lemma goes_push: "goes p q \<Longrightarrow> goes p (snd (push_part e ps q))"
  by (simp add: push_part_def)

lemma sub_parser_ok:
  "tokenize (lexer_init s f) = Inr ts \<Longrightarrow> parser_ok (sub_parser ts p) \<and> wt (sub_parser ts p) \<le> length s"
  using tokenize_weight [of "lexer_init s f" ts]
  by (auto simp: parser_ok_def sub_parser_def wt_def left_def lexer_init_def)

lemma interp_expr_runs:
  assumes "calls_ok c m" "length s < m" "goes p q"
  shows "runs p (parse_interp_expr c s q)"
proof (cases "tokenize (lexer_init s (ps_filename q))")
  case (Inr ts)
  have "runs (sub_parser ts q) (c_expr c (sub_parser ts q))"
    using sub_parser_ok [OF Inr, of q] assms(1,2) by (auto simp: calls_ok_def gets_def)
  then show ?thesis
    using Inr assms(3) by (auto simp: parse_interp_expr_def runs_def Let_def intro!: goes_error goes_resume)
qed (use assms(3) in \<open>simp add: parse_interp_expr_def goes_error\<close>)

lemma interp_scan_runs:
  assumes c: "calls_ok c m"
  shows "length s < m \<Longrightarrow> goes p q \<Longrightarrow> runs p (interp_scan c s lit ps q)"
proof (induction s arbitrary: lit ps q rule: measure_induct_rule [of length])
  case (less s)
  note eq = interp_scan.simps [of c s lit ps q]
  show ?case
  proof (cases s)
    case Nil
    obtain ps' q' where "flush_lit lit ps q = (ps', q')" "goes p q'"
      using goes_flush [OF less.prems(2)] by (metis prod.collapse)
    with Nil eq show ?thesis by simp
  next
    case (Cons x xs)
    show ?thesis
    proof (cases "x = CHR ''$'' \<and> xs \<noteq> [] \<and> hd xs = CHR 0x7B")
      case False
      with Cons less.prems less.IH [of xs] less.IH [of "tl xs"] eq show ?thesis by auto
    next
      case True
      obtain ps' q' where fl: "flush_lit lit ps q = (ps', q')" "goes p q'"
        using goes_flush [OF less.prems(2)] by (metis prod.collapse)
      show ?thesis
      proof (cases "close_brace 1 (tl xs)")
        case None
        with True Cons fl eq show ?thesis by (simp add: goes_error)
      next
        case (Some br)
        then obtain b r where br: "close_brace 1 (tl xs) = Some (b, r)" by (cases br) auto
        have len: "length b < m" "length r < length s" "length r < m"
          using close_brace_length [OF br] Cons less.prems(1) by auto
        obtain e q2 where e: "parse_interp_expr c b q' = Some (e, q2)" "goes p q2"
          using interp_expr_runs [OF c len(1) fl(2)] by (auto simp: runs_def)
        have "runs p (interp_scan c r [] (fst (push_part e' ps' q2)) (snd (push_part e' ps' q2)))" for e'
          using len goes_push [OF e(2)] by (intro less.IH) auto
        with True Cons fl br e eq show ?thesis
          by (cases e) (simp_all add: case_prod_beta)
      qed
    qed
  qed
qed

lemma build_chain_goes: "goes p q \<Longrightarrow> goes p (snd (build_concat_chain xs q))"
proof (induction xs q rule: build_concat_chain.induct)
  case (3 x y xs q)
  then show ?case by (auto simp: alloc_call_def split: prod.splits)
qed simp_all

lemma interp_string_runs:
  assumes "calls_ok c m" "length s < m" "goes p q"
  shows "runs p (parse_interp_string c s q)"
proof (cases "CHR ''$'' \<in> set s")
  case True
  obtain ps r where ps: "interp_scan c s [] [] q = Some (ps, r)" "goes p r"
    using interp_scan_runs [OF assms, of "[]" "[]"] unfolding runs_def by blast
  obtain e r' where "build_concat_chain (the ps) r = (e, r')" "goes p r'"
    using build_chain_goes [OF ps(2)] by (metis prod.collapse)
  with ps True show ?thesis by (cases ps) (simp_all add: parse_interp_string_def)
qed (use assms(3) in \<open>simp add: parse_interp_string_def\<close>)

section \<open>Primaries\<close>

lemma prim_name_runs:
  "goes p q \<Longrightarrow> (\<And>x q. goes p q \<Longrightarrow> runs p (f x q)) \<Longrightarrow> runs p (case parse_prim_name q of (x, q) \<Rightarrow> f x q)"
  by (simp add: parse_prim_name_def Let_def goes_intros)

lemma capture_runs: "total_from p capture"
  by (auto simp: total_from_def capture_def split: prod.splits intro: goes_refl goes_ok)
    (metis goes_expect goes_ok goes_refl snd_conv)

lemma call_gets:
  assumes "expr_calls n c p" "eats p q" "goes q r"
  shows "gets r (c_unary c r)" "gets r (c_expr c r)"
  using assms wt_less [of p r] goes_ok [of q r] eats_then [of p q r] by (auto simp: expr_calls_def calls_ok_def)

lemma not_closed_eof: "not_closed r \<Longrightarrow> peek_kind r \<noteq> TOK_EOF"
  by (simp add: not_closed_def check_tok_def)

lemma eats_match: "eats p q \<Longrightarrow> eats p (snd (match_tok k q))"
  by (rule eats_then) (auto intro!: goes_intros goes_refl dest: eats_goes goes_ok)

lemma lit_field_runs:
  assumes "expr_calls n c p" "eats p q" "goes q r" "not_closed r"
  shows "runs_on r (lit_field c r)"
proof -
  let ?s = "skip TOK_COLON (snd (expect_ident r))"
  have g: "goes r ?s" "goes q ?s"
    using assms(3) by (auto intro!: goes_intros goes_refl dest: goes_ok)
  from gets_after [OF call_gets(2) [OF assms(1,2) g(2)] g(1) not_closed_eof [OF assms(4)]]
  obtain e u where "c_expr c ?s = Some (e, u)" "eats r u" by (auto simp: runs_on_def)
  then show ?thesis by (auto simp: lit_field_def eats_match split: prod.splits)
qed

lemma lit_type_args_runs:
  assumes "expr_calls n c p" "eats p q" "goes q r"
  shows "runs q (parse_lit_type_args n r)"
proof -
  have g: "goes q ((advance r)\<lparr>ps_type_depth := ps_type_depth (advance r) + 1\<rparr>)"
    using assms(3) by (auto intro: goes_intros)
  show ?thesis
    unfolding parse_lit_type_args_def Let_def
    by (intro runs_if runs_seq run_calls(5) [OF assms(1,2) g] runs_return) (auto intro: goes_intros assms(3))
qed

lemma fields_runs:
  assumes "expr_calls n c p" "eats p q" "goes q r"
  shows "runs q (collect_while n not_closed (lit_field c) r)"
proof (rule runs_call [OF total_collect_while assms(3)])
  show "\<And>r. goes q r \<Longrightarrow> not_closed r \<Longrightarrow> runs_on r (lit_field c r)" by (rule lit_field_runs [OF assms(1,2)])
  show "wt q < n" using assms expr_calls_wt eats_goes by blast
qed

lemma ident_runs:
  assumes ec: "expr_calls n c p" "eats p (advance p)"
  shows "runs (advance p) (parse_ident n c p)"
proof -
  have g: "goes (advance p) (snd (parse_prim_name p))"
    using goes_ok [OF eats_goes [OF ec(2)], THEN goes_refl]
    by (auto simp: parse_prim_name_def Let_def intro!: goes_intros)
  obtain x q where x: "parse_prim_name p = (x, q)" "goes (advance p) q" using g by (cases "parse_prim_name p") auto
  show ?thesis
    unfolding parse_ident_def Let_def x prod.case
    by (assumption | rule x(2) lit_type_args_runs [OF ec] fields_runs [OF ec] runs_seq runs_if runs_expect runs_return
        goes_intros)+
qed

lemma elif_runs:
  assumes ec: "expr_calls n c p"
  shows "eats p q \<Longrightarrow> goes q r \<Longrightarrow> check_tok r TOK_IF \<Longrightarrow> wt r < k \<Longrightarrow> runs q (parse_elif k c r)"
proof (induction k arbitrary: q r)
  case (Suc k)
  let ?b = "advance r"
  have e: "eats r ?b" using Suc.prems by (intro check_eats) (auto dest: goes_ok)
  have b: "goes q ?b" "goes ?b ?b" "eats p ?b"
    using Suc.prems(1,2) eats_goes [OF e] e by (blast intro: goes_trans goes_refl goes_ok eats_then)+
  have el: "runs ?b (parse_elif k c s)" if "goes ?b s" "check_tok s TOK_IF" for s
    using Suc.IH [OF b(3) that] wt_less [OF e] wt_mono [OF that(1)] Suc.prems(4) by simp
  have "runs ?b (parse_elif (Suc k) c r)"
    unfolding parse_elif.simps Let_def
    by (assumption | rule b(2) el run_calls [OF ec b(3)] runs_seq runs_if runs_return goes_intros)+
  then show ?case using b(1) by (rule runs_weaken)
qed simp

text \<open>The primaries that start with a token of their own, from the next token on.\<close>

lemma if_runs:
  assumes ec: "expr_calls n c p" and e: "eats p (advance p)"
  shows "runs (advance p) (parse_if n c p)"
proof -
  have b: "goes (advance p) (advance p)" using e by (blast intro: goes_refl goes_ok eats_goes)
  have w: "wt r < n" if "goes (advance p) r" for r
    using expr_calls_wt [OF ec goes_trans [OF eats_goes [OF e] that]] .
  show ?thesis
    unfolding parse_if_def Let_def
    by (assumption | rule b elif_runs [OF ec e] w run_calls [OF ec e] runs_seq runs_if runs_return goes_intros)+
qed

lemma pattern_gets:
  assumes ec: "expr_calls n c p" "eats p q" "goes q r" "not_closed r"
  shows "runs_on r (parse_pattern c r)"
proof -
  have ok: "parser_ok r" using ec(3) by (rule goes_ok)
  have e: "eats r (advance r)" using ok not_closed_eof [OF ec(4)] by (rule not_eof_advance)
  have g: "goes (advance r) (advance r)" using e by (blast intro: goes_refl goes_ok eats_goes)
  have m: "goes q (advance r)" "goes r r" using ec(3) e by (blast intro: goes_trans eats_goes goes_refl goes_ok)+
  have u: "runs_on r (c_unary c r)"
    by (rule gets_after [OF call_gets(1) [OF ec(1-3)] m(2) not_closed_eof [OF ec(4)]])
  have p1: "eats r (skip TOK_RPAREN (snd (expect_tok TOK_IDENT (advance (snd (expect_tok TOK_IDENT (advance (advance r))))))))"
    and p2: "eats r (skip TOK_RPAREN (snd (expect_tok TOK_IDENT (advance (advance r)))))"
    by (rule eats_then [OF e], intro goes_intros g)+
  show ?thesis
    using u e p1 p2 by (auto simp: parse_pattern_def Let_def case_prod_beta runs_on_def)
qed

lemma arm_runs:
  assumes ec: "expr_calls n c p" "eats p q" "goes q r" "not_closed r"
  shows "runs_on r (parse_arm c r)"
proof -
  obtain pat bn s where s: "parse_pattern c r = Some ((pat, bn), s)" "eats r s"
    using pattern_gets [OF ec] by (auto simp: runs_on_def)
  have b: "goes s s" "eats p s" using s(2) ec(2,3)
    by (blast intro: goes_refl goes_ok eats_goes eats_then goes_eats goes_trans)+
  have "runs s (do { ((pat, bn), p) \<leftarrow> Some ((pat, bn), s); let p = skip TOK_FAT_ARROW p;
     (b, p) \<leftarrow> (if check_tok p TOK_LBRACE then c_block c p
        else do { (e, p) \<leftarrow> c_expr c p; Some (NODE_BLOCK [NODE_RETURN (Some e)], p) });
     Some ((pat, bn, b), snd (match_tok TOK_COMMA p)) })"
    unfolding Let_def Option.bind.bind_lunit prod.case
    by (assumption | rule b(1) run_calls [OF ec(1) b(2)] runs_seq runs_if runs_return goes_intros)+
  then have "runs s (parse_arm c r)" by (simp add: parse_arm_def s(1))
  then show ?thesis using s(2) by (rule runs_on_weaken)
qed

lemma match_runs:
  assumes ec: "expr_calls n c p" and e: "eats p (advance p)"
  shows "runs (advance p) (parse_match n c p)"
proof -
  have b: "goes (advance p) (advance p)" using e by (blast intro: goes_refl goes_ok eats_goes)
  have arms: "total_from (advance p) (collect_while n not_closed (parse_arm c))"
    by (rule total_collect_while [OF arm_runs [OF ec e]]) (use expr_calls_wt [OF ec eats_goes [OF e]] in simp_all)
  show ?thesis
    unfolding parse_match_def
    by (assumption | rule b runs_call [OF arms] run_calls [OF ec e] runs_seq runs_if runs_return goes_intros)+
qed

lemma typed_param_runs: "expr_calls n c p \<Longrightarrow> eats p q \<Longrightarrow> total_from q (typed_param n)"
proof (rule total_fromI)
  fix r
  assume a: "expr_calls n c p" "eats p q" "goes q r"
  then have b: "eats p r" "goes r r" by (blast intro: eats_then goes_refl goes_ok)+
  show "runs r (typed_param n r)"
    unfolding typed_param_def Let_def
    by (assumption | rule b run_calls [OF a(1)] runs_seq runs_expect runs_return goes_intros)+
qed

lemma lambda_runs:
  assumes ec: "expr_calls n c p" and e: "eats p (advance p)"
  shows "runs (advance p) (parse_lambda n c p)"
proof -
  have b: "goes (advance p) (advance p)" using e by (blast intro: goes_refl goes_ok eats_goes)
  have w: "wt (advance p) < n" using expr_calls_wt [OF ec eats_goes [OF e]] .
  show ?thesis
    unfolding parse_lambda_def parse_result_type_def Let_def
    by (assumption | rule b runs_call [OF total_opt_list [OF capture_runs w]]
        runs_call [OF total_opt_list [OF typed_param_runs [OF ec e] w]] run_calls [OF ec e]
        runs_seq runs_if runs_return goes_intros)+
qed

lemma paren_runs:
  assumes ec: "expr_calls n c p" and e: "eats p (advance p)"
  shows "runs (advance p) (parse_paren c p)"
proof -
  have b: "goes (advance p) (advance p)" using e by (blast intro: goes_refl goes_ok eats_goes)
  show ?thesis
    unfolding parse_paren_def Let_def
    by (assumption | rule b run_calls [OF ec e] runs_seq runs_if runs_return goes_intros)+
qed

lemma goes_past_error: "goes p p \<Longrightarrow> goes (advance p) (advance (parser_error_at x p))"
  by (auto simp: goes_def advance_def parser_error_at_def parser_ok_def)

lemma skip_world_runs:
  assumes ec: "expr_calls n c p" and e: "eats p (advance p)"
  shows "runs (advance p) (skip_world c p)"
proof -
  have b: "goes p p" using e by (auto simp: eats_def goes_def parser_ok_def)
  show ?thesis
    unfolding skip_world_def Let_def
    by (assumption | rule b run_calls [OF ec e] runs_seq runs_return goes_past_error goes_expect_ident)+
qed

lemma runs_some: "runs p r \<Longrightarrow> runs p (map_option (\<lambda>(e, q). (Some e, q)) r)"
  by (auto simp: runs_def)

lemma runs_on_some: "runs_on p r \<Longrightarrow> runs_on p (map_option (\<lambda>(e, q). (Some e, q)) r)"
  by (auto simp: runs_on_def)

lemma primary_gets:
  assumes ec: "expr_calls n c p" and br: "brace_ok c p" and ok: "parser_ok p"
  shows "gets p (parse_primary n c p)"
proof (cases "peek_kind p = TOK_EOF")
  case True
  then have "parse_primary n c p = Some (Some (NODE_INT_LIT 0), advance (parser_error p))"
    by (simp add: parse_primary_def at_world_def at_word_def check_tok_def)
  with True ok show ?thesis by (simp add: gets_def goes_intros goes_refl)
next
  case False
  have e: "eats p (advance p)" using ok False by (rule not_eof_advance)
  have b: "goes (advance p) (advance p)" using e by (blast intro: goes_refl goes_ok eats_goes)
  note on = runs_on_weaken [OF _ e]
  have str: "runs (advance p) (parse_interp_string c (text_or [] (cur p)) (advance p))" if "check_tok p TOK_STR_LIT"
  proof (rule interp_string_runs [OF _ _ b])
    show "calls_ok c (wt p)" using ec by (simp add: expr_calls_def)
    show "length (text_or [] (cur p)) < wt p"
      using wt_eats [OF e] that by (simp add: tok_weight_def check_tok_def peek_kind_def)
  qed
  have err: "eats p (advance (parser_error p))"
    using eats_then [OF e goes_past_error [OF goes_refl [OF ok]]] by (simp add: parser_error_def)
  have "runs_on p (parse_primary n c p)"
    unfolding parse_primary_def Let_def
    using br on [OF str] e err runs_on_some [OF on [OF skip_world_runs [OF ec e]]]
      runs_on_some [OF on [OF ident_runs [OF ec e]]] runs_on_some [OF on [OF paren_runs [OF ec e]]]
      runs_on_some [OF on [OF if_runs [OF ec e]]] runs_on_some [OF on [OF match_runs [OF ec e]]]
      runs_on_some [OF on [OF lambda_runs [OF ec e]]] runs_on_some [of p "c_block c p"]
    by (simp add: brace_ok_def)
  then show ?thesis by (simp add: gets_def runs_on_runs)
qed

end
