(* ===== verification/ParseTotalStmt.thy ===== *)
theory ParseTotalStmt
  imports ParseTotalExpr
begin

text \<open>Postfix forms, operators, statements and blocks end, and so does the knot.\<close>

definition all_calls :: "nat \<Rightarrow> calls \<Rightarrow> Parser \<Rightarrow> bool" where
  "all_calls n c p \<longleftrightarrow> expr_calls n c p \<and> (\<forall>q. goes p q \<longrightarrow> brace_ok c q)"

lemma all_calls_later: "all_calls n c p \<Longrightarrow> goes p q \<Longrightarrow> all_calls n c q"
  by (auto simp: all_calls_def dest: expr_calls_later goes_trans)

lemma all_calls_expr: "all_calls n c p \<Longrightarrow> expr_calls n c p"
  by (simp add: all_calls_def)

lemma step_base: "parser_ok p \<Longrightarrow> check_tok p k \<Longrightarrow> k \<noteq> TOK_EOF \<Longrightarrow> eats p (advance p) \<and> goes (advance p) (advance p)"
  using check_eats [of p k] by (auto dest: eats_goes goes_ok intro: goes_refl)

section \<open>Postfix forms\<close>

lemma args_runs:
  assumes "expr_calls n c p" "eats p q" "goes q r"
  shows "runs q (parse_args n c r)"
  unfolding parse_args_def
  by (assumption | rule assms(3) run_calls [OF assms(1,2)] runs_seq runs_return goes_intros)+

lemma new_addr_runs:
  "goes p q \<Longrightarrow> (\<And>i q. goes p q \<Longrightarrow> runs p (f i q)) \<Longrightarrow> runs p (case new_addr q of (i, q) \<Rightarrow> f i q)"
  by (simp add: new_addr_def)

lemma catch_binding_runs:
  "goes p q \<Longrightarrow> (\<And>b q. goes p q \<Longrightarrow> runs p (f b q)) \<Longrightarrow>
   runs p (case (if check_tok q TOK_LPAREN
       then (case expect_tok TOK_IDENT (advance q) of (b, q) \<Rightarrow> (Some (text_or [] b), skip TOK_RPAREN q))
       else (None, q)) of (bn, q) \<Rightarrow> f bn q)"
  by (simp add: case_prod_beta goes_intros)

lemma postfix_step_runs:
  assumes ec: "expr_calls n c p" and ok: "parser_ok p" and r: "postfix_step n c e p = Some r"
  shows "runs_on p r"
proof -
  have calls: "runs_on p (postfix_call n c e p)" "runs_on p (postfix_generic_call n c e p)"
    "runs_on p (postfix_index c e p)" "runs_on p (postfix_catch c e p)"
    "runs_on p (do { (h, p) \<leftarrow> c_unary c (advance p); Some (NODE_RANGE e h, p) })"
    "runs_on p (case expect_tok TOK_IDENT (advance p) of (t, p) \<Rightarrow> Some (NODE_FIELD e (text_or [] t), p))"
    "runs_on p (Some (NODE_TRY e, advance p))"
    if k: "check_tok p k" "k \<noteq> TOK_EOF" for k
  proof -
    from step_base [OF ok k] have e: "eats p (advance p)" and b: "goes (advance p) (advance p)" by auto
    show "runs_on p (postfix_call n c e p)" "runs_on p (postfix_generic_call n c e p)"
      "runs_on p (postfix_index c e p)" "runs_on p (postfix_catch c e p)"
      "runs_on p (do { (h, p) \<leftarrow> c_unary c (advance p); Some (NODE_RANGE e h, p) })"
      "runs_on p (case expect_tok TOK_IDENT (advance p) of (t, p) \<Rightarrow> Some (NODE_FIELD e (text_or [] t), p))"
      "runs_on p (Some (NODE_TRY e, advance p))"
      unfolding postfix_call_def postfix_generic_call_def postfix_index_def postfix_catch_def Let_def
      by (rule runs_on_weaken [OF _ e],
          (assumption | rule b args_runs [OF ec e] new_addr_runs catch_binding_runs run_calls [OF ec e]
            runs_seq runs_if runs_expect runs_return goes_intros)+)+
  qed
  from r show ?thesis
    unfolding postfix_step_def Let_def by (auto split: if_splits intro: calls)
qed

lemma postfix_loop_runs:
  "expr_calls n c p \<Longrightarrow> parser_ok p \<Longrightarrow> wt p < k \<Longrightarrow> runs p (postfix_loop k n c e p)"
proof (induction k arbitrary: p e)
  case (Suc k)
  show ?case
  proof (cases "postfix_step n c e p")
    case None
    then show ?thesis using Suc.prems(2) by (simp add: goes_refl)
  next
    case (Some r)
    from postfix_step_runs [OF Suc.prems(1,2) this] obtain e' q where q: "r = Some (e', q)" "eats p q"
      by (auto simp: runs_on_def)
    have "runs q (postfix_loop k n c e' q)"
      using Suc.prems eats_goes [OF q(2)] wt_less [OF q(2)] by (intro Suc.IH) (auto intro: expr_calls_later goes_ok)
    then show ?thesis using Some q by (auto intro: runs_weaken eats_goes)
  qed
qed simp

lemma postfix_gets:
  assumes ac: "all_calls n c p" and ok: "parser_ok p"
  shows "gets p (parse_postfix n c p)"
proof -
  have ec: "expr_calls n c p" "brace_ok c p" using ac goes_refl [OF ok] by (auto simp: all_calls_def)
  obtain e q where q: "parse_primary n c p = Some (e, q)" "goes p q" "peek_kind p \<noteq> TOK_EOF \<Longrightarrow> eats p q"
    using primary_gets [OF ec ok] by (auto simp: gets_def runs_def runs_on_def)
  have loop: "runs q' (postfix_loop n n c e' q')" if "goes p q'" for e' q'
    using that ec(1) by (intro postfix_loop_runs) (auto intro: expr_calls_later goes_ok expr_calls_wt)
  have "goes p (set_fault q)" "goes q (set_fault q)" using q(2) by (auto intro: goes_refl goes_ok)
  then have "runs q (postfix_loop n n c (NODE_INT_LIT 0) (set_fault q))" using loop runs_weaken by blast
  with loop [OF q(2)] have "runs q (case e of None \<Rightarrow> postfix_loop n n c (NODE_INT_LIT 0) (set_fault q)
      | Some e \<Rightarrow> postfix_loop n n c e q)"
    by (auto split: option.split)
  then show ?thesis
    using q by (auto simp: parse_postfix_def gets_def intro: runs_weaken runs_on_weaken)
qed

section \<open>Operators\<close>

lemma unary_op_eof: "unary_op k = Some u \<Longrightarrow> k \<noteq> TOK_EOF"
  by (auto simp: unary_op_def)

lemma unary_gets:
  assumes ac: "all_calls n c p" and ok: "parser_ok p"
  shows "gets p (parse_unary n c p)"
proof (cases "unary_op (peek_kind p) = None \<and> \<not> check_tok p TOK_RAISE")
  case True
  then show ?thesis using postfix_gets [OF assms] by (simp add: parse_unary_def)
next
  case False
  then have "peek_kind p \<noteq> TOK_EOF" by (auto simp: check_tok_def dest: unary_op_eof)
  with ok have e: "eats p (advance p)" by (intro not_eof_advance)
  then have b: "goes (advance p) (advance p)" by (blast intro: goes_refl goes_ok eats_goes)
  note ec = all_calls_expr [OF ac]
  have "runs (advance p) (parse_raise c p)"
    unfolding parse_raise_def Let_def
    by (assumption | rule b run_calls [OF ec e] runs_seq runs_if runs_expect runs_return goes_intros)+
  moreover have "runs (advance p) (do { (e, p) \<leftarrow> c_unary c (advance p); Some (NODE_UNARY u e, p) })" for u
    by (assumption | rule b run_calls [OF ec e] runs_seq runs_return goes_intros)+
  ultimately have "runs_on p (parse_unary n c p)"
    using False e by (auto simp: parse_unary_def split: option.split intro: runs_on_weaken)
  then show ?thesis by (simp add: gets_def runs_on_runs)
qed

lemma precedence_eof [simp]: "binop_precedence TOK_EOF = - 1"
  by (simp add: binop_precedence_def)

definition rhs_runs :: "nat \<Rightarrow> nat \<Rightarrow> calls \<Rightarrow> bool" where
  "rhs_runs k n c \<longleftrightarrow> (\<forall>p m l. all_calls n c p \<longrightarrow> parser_ok p \<longrightarrow> 1 \<le> m \<longrightarrow> 2 * wt p + 1 \<le> k \<longrightarrow>
     runs p (parse_binop_rhs k n c m l p) \<and> (m \<le> binop_precedence (peek_kind p) \<longrightarrow> runs_on p (parse_binop_rhs k n c m l p)))"

definition higher_runs :: "nat \<Rightarrow> nat \<Rightarrow> calls \<Rightarrow> bool" where
  "higher_runs k n c \<longleftrightarrow> (\<forall>p m l. all_calls n c p \<longrightarrow> parser_ok p \<longrightarrow> 1 \<le> m \<longrightarrow> 2 * wt p + 2 \<le> k \<longrightarrow>
     runs p (binop_higher k n c m l p))"

lemma rhs_runs_step:
  assumes ih: "rhs_runs k n c" "higher_runs k n c"
  shows "rhs_runs (Suc k) n c"
  unfolding rhs_runs_def
proof (intro allI impI)
  fix p and m :: int and l
  assume a: "all_calls n c p" "parser_ok p" "1 \<le> m" "2 * wt p + 1 \<le> Suc k"
  show "runs p (parse_binop_rhs (Suc k) n c m l p) \<and>
    (m \<le> binop_precedence (peek_kind p) \<longrightarrow> runs_on p (parse_binop_rhs (Suc k) n c m l p))"
  proof (cases "binop_precedence (peek_kind p) < m")
    case False
    let ?prec = "binop_precedence (peek_kind p)"
    have "peek_kind p \<noteq> TOK_EOF" using False a(3) by auto
    with a(2) have e: "eats p (advance p)" by (intro not_eof_advance)
    note ok = goes_ok [OF eats_goes [OF e]]
    obtain x q where x: "parse_unary n c (advance p) = Some (x, q)" "goes (advance p) q"
      using unary_gets [OF all_calls_later [OF a(1) eats_goes [OF e]] ok] by (auto simp: gets_def runs_def)
    have q: "all_calls n c q" "parser_ok q" "2 * wt q + 2 \<le> k" "eats p q"
      using a x(2) e wt_less [OF e] wt_mono [OF x(2)]
      by (auto intro: all_calls_later goes_ok goes_trans eats_goes eats_then)
    have "1 \<le> ?prec" using False a(3) by simp
    with ih(2) q(1-3) have "runs q (binop_higher k n c ?prec x q)" unfolding higher_runs_def by blast
    then obtain y s where y: "binop_higher k n c ?prec x q = Some (y, s)" "goes q s"
      by (auto simp: runs_def)
    have s: "all_calls n c s" "parser_ok s" "2 * wt s + 1 \<le> k" "eats p s"
      using q y(2) wt_mono [OF y(2)] by (auto intro: all_calls_later goes_ok eats_then)
    have "runs s (parse_binop_rhs k n c m (NODE_BINARY (token_to_binop (peek_kind p)) l y) s)"
      using ih(1) s(1-3) a(3) unfolding rhs_runs_def by blast
    then have "runs_on p (parse_binop_rhs (Suc k) n c m l p)"
      using False x y runs_on_weaken [OF _ s(4)] by (simp add: Let_def)
    then show ?thesis using runs_on_runs by blast
  qed (use a in \<open>simp add: goes_refl\<close>)
qed

lemma higher_runs_step:
  assumes ih: "rhs_runs k n c" "higher_runs k n c"
  shows "higher_runs (Suc k) n c"
  unfolding higher_runs_def
proof (intro allI impI)
  fix p and m :: int and l
  assume a: "all_calls n c p" "parser_ok p" "1 \<le> m" "2 * wt p + 2 \<le> Suc k"
  show "runs p (binop_higher (Suc k) n c m l p)"
  proof (cases "binop_precedence (peek_kind p) > m")
    case True
    then have "1 \<le> m + 1" "2 * wt p + 1 \<le> k" "m + 1 \<le> binop_precedence (peek_kind p)" using a(3,4) by simp_all
    with ih(1) a(1,2) have "runs_on p (parse_binop_rhs k n c (m + 1) l p)" unfolding rhs_runs_def by blast
    then obtain y s where y: "parse_binop_rhs k n c (m + 1) l p = Some (y, s)" "eats p s"
      by (auto simp: runs_on_def)
    have s: "all_calls n c s" "parser_ok s" "2 * wt s + 2 \<le> k"
      using a y(2) wt_less [OF y(2)] by (auto intro: all_calls_later goes_ok eats_goes)
    have "runs s (binop_higher k n c m y s)" using ih(2) s a(3) unfolding higher_runs_def by blast
    then show ?thesis using True y by (auto intro: runs_weaken eats_goes)
  qed (use a in \<open>simp add: goes_refl\<close>)
qed

lemma binop_runs: "rhs_runs k n c \<and> higher_runs k n c"
proof (induction k)
  case (Suc k)
  then show ?case using rhs_runs_step higher_runs_step by blast
qed (simp add: rhs_runs_def higher_runs_def)

section \<open>Changes that leave the cursor alone\<close>

definition still :: "Parser \<Rightarrow> Parser \<Rightarrow> bool" where
  "still p q \<longleftrightarrow> ps_tokens q = ps_tokens p \<and> ps_pos q = ps_pos p \<and> ps_filename q = ps_filename p"

lemma still_refl [simp]: "still p p"
  by (simp add: still_def)

lemma still_trans: "still p q \<Longrightarrow> still q r \<Longrightarrow> still p r"
  by (simp add: still_def)

lemma still_goes: "still q r \<Longrightarrow> goes p q \<Longrightarrow> goes p r"
  by (simp add: still_def goes_def)

definition stills :: "Parser \<Rightarrow> ('a \<times> Parser) option \<Rightarrow> bool" where
  "stills p r \<longleftrightarrow> (\<forall>x q. r = Some (x, q) \<longrightarrow> still p q)"

named_theorems stills_intros \<open>bodies that leave the cursor alone\<close>

lemma stills_bind [stills_intros]:
  "stills p r \<Longrightarrow> (\<And>x q. still p q \<Longrightarrow> stills p (f x q)) \<Longrightarrow> stills p (Option.bind r (\<lambda>(x, q). f x q))"
  by (auto simp: stills_def bind_eq_Some_conv)

lemma stills_Some [stills_intros]: "still p q \<Longrightarrow> stills p (Some (x, q))"
  by (simp add: stills_def)

lemma stills_None [stills_intros]: "stills p None"
  by (simp add: stills_def)

lemma stills_guard [stills_intros]: "(\<And>x. stills p (f x)) \<Longrightarrow> stills p (Option.bind (clone_opt_type t) f)"
  by (cases "clone_opt_type t") (simp_all add: stills_def)

lemma stills_weaken: "stills q r \<Longrightarrow> still p q \<Longrightarrow> stills p r"
  by (auto simp: stills_def intro: still_trans)

lemma still_heap [stills_intros]: "still p q \<Longrightarrow> still p (q\<lparr>ps_heap := h\<rparr>)"
  by (simp add: still_def)

lemma stills_traverse:
  "(\<And>x q. x \<in> set xs \<Longrightarrow> stills q (f x q)) \<Longrightarrow> still p q \<Longrightarrow> stills p (traverse f xs q)"
proof (induction xs arbitrary: q)
  case (Cons x xs)
  show ?case
    unfolding traverse.simps
  proof (intro stills_intros)
    show "stills p (f x q)" using Cons.prems by (auto intro: stills_weaken)
    show "still p r \<Longrightarrow> stills p (traverse f xs r)" for r using Cons by simp
  qed
qed (simp add: stills_Some)

lemma stills_traverse_opt:
  "(\<And>z q. x = Some z \<Longrightarrow> stills q (f z q)) \<Longrightarrow> still p q \<Longrightarrow> stills p (traverse_opt f x q)"
  by (cases x) (auto intro!: stills_intros intro: stills_weaken)

lemmas clone_eqs =
  clone_expr.simps [of "NODE_INT_LIT i" for i, unfolded node.case Let_def]
  clone_expr.simps [of "NODE_FLOAT_LIT f" for f, unfolded node.case Let_def]
  clone_expr.simps [of "NODE_STR_LIT s" for s, unfolded node.case Let_def]
  clone_expr.simps [of "NODE_BYTES_LIT s" for s, unfolded node.case Let_def]
  clone_expr.simps [of "NODE_BOOL_LIT b" for b, unfolded node.case Let_def]
  clone_expr.simps [of "NODE_IDENT y" for y, unfolded node.case Let_def]
  clone_expr.simps [of "NODE_PATH a b" for a b, unfolded node.case Let_def]
  clone_expr.simps [of "NODE_BINARY b l r" for b l r, unfolded node.case Let_def]
  clone_expr.simps [of "NODE_UNARY u e" for u e, unfolded node.case Let_def]
  clone_expr.simps [of "NODE_CALL i f as ts" for i f as ts, unfolded node.case Let_def]
  clone_expr.simps [of "NODE_IF c t e" for c t e, unfolded node.case Let_def]
  clone_expr.simps [of "NODE_BLOCK ss" for ss, unfolded node.case Let_def]
  clone_expr.simps [of "NODE_INDEX e i" for e i, unfolded node.case Let_def]
  clone_expr.simps [of "NODE_ELEM_REF e" for e, unfolded node.case Let_def]
  clone_expr.simps [of "NODE_FIELD e f" for e f, unfolded node.case Let_def]
  clone_expr.simps [of "NODE_ASSIGN l r" for l r, unfolded node.case Let_def]
  clone_expr.simps [of "NODE_RANGE l h" for l h, unfolded node.case Let_def]
  clone_expr.simps [of "NODE_STRUCT_LIT y fs ts" for y fs ts, unfolded node.case Let_def]
  clone_expr.simps [of "NODE_TRY e" for e, unfolded node.case Let_def]
  clone_expr.simps [of "NODE_CATCH e y h bn" for e y h bn, unfolded node.case Let_def]
  clone_expr.simps [of "NODE_RAISE y v" for y v, unfolded node.case Let_def]
  clone_expr.simps [of "NODE_TO_STR e" for e, unfolded node.case Let_def]
  clone_expr.simps [of "NODE_LAMBDA cs ps r b" for cs ps r b, unfolded node.case Let_def]
  clone_expr.simps [of "NODE_LET y m t v" for y m t v, unfolded node.case Let_def]
  clone_expr.simps [of "NODE_RETURN v" for v, unfolded node.case Let_def]
  clone_expr.simps [of "NODE_WHILE c b vs" for c b vs, unfolded node.case Let_def]
  clone_expr.simps [of "NODE_FOR y i b" for y i b, unfolded node.case Let_def]
  clone_expr.simps [of "NODE_MATCH e arms" for e arms, unfolded node.case Let_def]
  clone_expr.simps [of "NODE_BREAK", unfolded node.case Let_def]
  clone_expr.simps [of "NODE_CONTINUE", unfolded node.case Let_def]
  clone_expr.simps [of "NODE_EXPR_STMT e" for e, unfolded node.case Let_def]
  clone_expr.simps [of "NODE_INVARIANT vs" for vs, unfolded node.case Let_def]

lemma stills_clone: "still p q \<Longrightarrow> stills p (clone_expr e q)"
proof (induction e arbitrary: p q rule: measure_induct_rule [of size])
  case (less e)
  have rec: "size x < size e \<Longrightarrow> still p q \<Longrightarrow> stills p (clone_expr x q)" for x p q
    by (rule less.IH)
  have rec_list: "(\<And>x. x \<in> set xs \<Longrightarrow> size x < size e) \<Longrightarrow> still p q \<Longrightarrow> stills p (traverse clone_expr xs q)" for xs p q
    by (rule stills_traverse) (auto intro: rec)
  have rec_opt: "(\<And>x. v = Some x \<Longrightarrow> size x < size e) \<Longrightarrow> still p q \<Longrightarrow> stills p (traverse_opt clone_expr v q)" for v p q
    by (rule stills_traverse_opt) (auto intro: rec)
  have elem: "x \<in> set xs \<Longrightarrow> size x < size_list size xs" for x :: node and xs
    by (induction xs) auto
  have elem_pair: "(f, x) \<in> set xs \<Longrightarrow> size x < size_list (size_prod (\<lambda>_. 0) size) xs" for f :: string and x :: node and xs
    by (induction xs) auto
  have elem_arm: "(pat, bn, b) \<in> set xs \<Longrightarrow> size b < size_list (size_prod (size_option size) (size_prod (\<lambda>_. 0) size)) xs \<and>
      (\<forall>pt. pat = Some pt \<longrightarrow> size pt < size_list (size_prod (size_option size) (size_prod (\<lambda>_. 0) size)) xs)"
    for pat :: "node option" and bn :: "string option" and b and xs
    by (induction xs) auto
  have fields: "(\<And>f x. (f, x) \<in> set fs \<Longrightarrow> size x < size e) \<Longrightarrow> still p q \<Longrightarrow>
      stills p (traverse (\<lambda>(f, e) p. do { (e, p) \<leftarrow> clone_expr e p; Some ((f, e), p) }) fs q)"
    for fs :: "(string \<times> node) list" and p q
    by (rule stills_traverse) (auto intro!: stills_intros rec)
  have arms: "(\<And>pat bn b. (pat, bn, b) \<in> set as \<Longrightarrow> size b < size e \<and> (\<forall>pt. pat = Some pt \<longrightarrow> size pt < size e)) \<Longrightarrow> still p q \<Longrightarrow>
      stills p (traverse (\<lambda>(pat, bn, b) p. do {
              (pat, p) \<leftarrow> traverse_opt clone_expr pat p;
              (b, p) \<leftarrow> clone_expr b p;
              Some ((pat, bn, b), p)
            }) as q)"
    for as :: "(node option \<times> string option \<times> node) list" and p q
    by (rule stills_traverse) (auto intro!: stills_intros rec rec_opt)
  note q = less.prems
  show ?case
    by (cases e; simp only: clone_eqs;
        (assumption | rule q stills_intros rec rec_list rec_opt fields arms | force dest: elem elem_pair elem_arm)+)
qed

text \<open>The lowering of world blocks.\<close>

lemma still_small:
  "still p (snd (alloc_call f as ts p))" "still p (snd (w32_call1 x a p))" "still p (snd (w32_free_stmt x p))"
  "still p (snd (w32_temp p))" "still p (parser_error_at pos p)"
  by (simp_all add: still_def alloc_call_def w32_call1_def w32_free_stmt_def w32_temp_def parser_error_at_def)

lemma still_early: "still p (snd (w32_early x v mk p))"
proof -
  have "still p (snd (w32_free_stmt x (snd (w32_temp p))))"
    by (rule still_trans [OF still_small(4) still_small(3)])
  then show ?thesis
    using still_small(3) [of p x] by (auto simp: w32_early_def case_prod_beta split: option.split)
qed

lemma still_inject:
  "still p (snd (w32_inject_stmt x l s p))" "still p (snd (w32_inject_vec x l ss p))"
  "still p (snd (w32_inject_arm x l a p))" "still p (snd (w32_inject_match x l ss p))"
  "still p (snd (w32_inject_arms x l arms p))"
proof (induction x l s p and x l ss p and x l a p and x l ss p and x l arms p
    rule: w32_inject_stmt_w32_inject_vec_w32_inject_arm_w32_inject_match_w32_inject_arms.induct)
  case (1 x l s p)
  then show ?case
    using still_small(3) [of p x]
    by (subst w32_inject_stmt.simps)
      (auto simp: case_prod_beta still_early Let_def split: node.splits option.splits intro: still_trans,
        (metis prod.collapse still_trans)+)
next
  case (4 x l a p)
  then show ?case
    by (subst w32_inject_arm.simps)
      (auto simp: case_prod_beta Let_def split: node.splits option.splits intro: still_trans,
        (metis prod.collapse still_trans)+)
next
  case (8 x l pat bn b arms p)
  then show ?case
    by (auto simp: case_prod_beta Let_def split: node.splits intro: still_trans)
qed (auto simp: case_prod_beta Let_def intro: still_trans, (metis prod.collapse still_trans)+)

lemma still_lower: "still p (snd (w32_lower x ss p))"
proof -
  obtain c q where c: "w32_call1 ''world_new'' None p = (c, q)" "still p q"
    using still_small(2) [of p "''world_new''" None] by (metis prod.collapse)
  obtain us r where u: "w32_inject_vec x False ss q = (us, r)" "still q r"
    using still_inject(2) [of q x False ss] by (metis prod.collapse)
  have "still p r" "still p (snd (w32_free_stmt x r))"
    using c(2) u(2) still_small(3) [of r x] by (blast intro: still_trans)+
  then show ?thesis by (simp add: w32_lower_def c(1) u(1) case_prod_beta)
qed

lemma still_fold: "(\<And>y p. y \<in> set ys \<Longrightarrow> still p (f y p)) \<Longrightarrow> still p (fold f ys p)"
  by (induction ys arbitrary: p) (auto intro: still_trans)

lemma still_fold_from: "still p q \<Longrightarrow> (\<And>y p. y \<in> set ys \<Longrightarrow> still p (f y p)) \<Longrightarrow> still p (fold f ys q)"
  by (rule still_trans [OF _ still_fold])

lemma still_check_free: "still p q \<Longrightarrow> still p (w32_check_free x e q)"
proof (induction e arbitrary: p q rule: measure_induct_rule [of size])
  case (less e)
  have elem: "y \<in> set ys \<Longrightarrow> size y < size_list size ys" for y :: node and ys
    by (induction ys) auto
  have elem_arm: "(pat, bn, b) \<in> set xs \<Longrightarrow> size b < size_list (size_prod (size_option size) (size_prod (\<lambda>_. 0) size)) xs \<and>
      (\<forall>pt. pat = Some pt \<longrightarrow> size pt < size_list (size_prod (size_option size) (size_prod (\<lambda>_. 0) size)) xs)"
    for pat :: "node option" and bn :: "string option" and b and xs
    by (induction xs) auto
  have rec: "still p q \<Longrightarrow> size y < size e \<Longrightarrow> still p (w32_check_free x y q)" for y p q
    by (rule less.IH)
  have err: "still p (if b then parser_error_at None q else q)" for b
    using still_trans [OF less.prems still_small(5)] less.prems by simp
  have arms: "still p (fold (\<lambda>(pat, bn, b) q. w32_check_free x b (case pat of None \<Rightarrow> q | Some pt \<Rightarrow> w32_check_free x pt q)) as q)"
    if "still p q" "\<And>pat bn b. (pat, bn, b) \<in> set as \<Longrightarrow> size b < size e \<and> (\<forall>pt. pat = Some pt \<longrightarrow> size pt < size e)"
    for p q and as :: "(node option \<times> string option \<times> node) list"
    using that by (intro still_fold_from) (auto split: option.split intro!: rec)
  show ?case
    by (cases e; simp only: w32_check_free.simps Let_def split: option.split;
        (intro conjI impI allI)?; (assumption | rule less.prems err rec still_fold_from arms | rule still_refl | force dest: elem elem_arm)+)
qed

end
