(* ===== verification/ParseTotalKnot.thy ===== *)
theory ParseTotalKnot
  imports ParseTotalStmt
begin

text \<open>Expressions, statements and blocks return, and the knot of the parser with them.\<close>

section \<open>Expressions\<close>

lemma assign_value_goes: "goes p q \<Longrightarrow> goes p (snd (assign_value bo x v q))"
proof (cases "bo = None \<or> clone_expr x q = None")
  case False
  assume "goes p q"
  moreover obtain y r where "clone_expr x q = Some (y, r)" using False by fastforce
  moreover from this have "still q r" using stills_clone [OF still_refl [of q], of x] by (simp add: stills_def)
  ultimately show ?thesis using False by (auto simp: assign_value_def intro: still_goes)
qed (auto simp: assign_value_def split: option.splits)

lemma assign_op_eof: "assign_op k = Some bo \<Longrightarrow> k \<noteq> TOK_EOF"
  by (auto simp: assign_op_def)

lemma assign_value_runs:
  "goes p q \<Longrightarrow> (\<And>v q. goes p q \<Longrightarrow> runs p (f v q)) \<Longrightarrow> runs p (case assign_value bo x v q of (v, q) \<Rightarrow> f v q)"
  using assign_value_goes [of p q bo x v] by (auto split: prod.splits)

lemma expr_gets:
  assumes ac: "all_calls n c p" and ok: "parser_ok p"
  shows "gets p (parse_expr n c p)"
proof -
  obtain e q where q: "parse_unary n c p = Some (e, q)" "goes p q" "peek_kind p \<noteq> TOK_EOF \<Longrightarrow> eats p q"
    using unary_gets [OF assms] by (auto simp: gets_def runs_def runs_on_def)
  have acq: "all_calls n c q" "parser_ok q" using all_calls_later [OF ac q(2)] goes_ok [OF q(2)] .
  then have "2 * wt q + 1 \<le> n" by (simp add: all_calls_def expr_calls_def)
  then have "runs q (parse_binop_rhs n n c 1 e q)"
    using acq binop_runs [of n n c] unfolding rhs_runs_def by blast
  then obtain e' r where r: "parse_binop_rhs n n c 1 e q = Some (e', r)" "goes q r" by (auto simp: runs_def)
  have rest: "runs r (case assign_op (peek_kind r) of
        None \<Rightarrow> Some (e', r)
      | Some bo \<Rightarrow> do {
          (v, p) \<leftarrow> c_expr c (advance r);
          let (v, p) = assign_value bo e' v p;
          Some (NODE_ASSIGN e' v, p)
        })"
  proof (cases "assign_op (peek_kind r)")
    case None
    then show ?thesis using goes_refl [OF goes_ok [OF r(2)]] by simp
  next
    case (Some bo)
    with assign_op_eof have e: "eats r (advance r)" using goes_ok [OF r(2)] by (intro not_eof_advance) auto
    then have b: "goes (advance r) (advance r)" by (blast intro: goes_refl goes_ok eats_goes)
    note ec = all_calls_expr [OF all_calls_later [OF acq(1) r(2)]]
    have "runs (advance r) (do {
          (v, p) \<leftarrow> c_expr c (advance r);
          let (v, p) = assign_value bo e' v p;
          Some (NODE_ASSIGN e' v, p)
        })"
      unfolding Let_def
      by (assumption | rule b run_calls [OF ec e] runs_seq assign_value_runs runs_return goes_intros)+
    then show ?thesis using Some e by (auto intro: runs_weaken eats_goes)
  qed
  have "runs q (parse_expr n c p)" using runs_weaken [OF rest r(2)] q(1) r(1) by (simp add: parse_expr_def)
  then show ?thesis using q(2,3) by (auto simp: gets_def intro: runs_weaken runs_on_weaken)
qed

section \<open>Statements\<close>

text \<open>The expressions of a statement, after its first token.\<close>

lemma expr_runs: "all_calls n c p \<Longrightarrow> goes p q \<Longrightarrow> goes q r \<Longrightarrow> runs q (parse_expr n c r)"
  using expr_gets [of n c r] all_calls_later goes_ok goes_trans runs_weaken unfolding gets_def by metis

lemma exprs_runs: "all_calls n c p \<Longrightarrow> eats p q \<Longrightarrow> goes q r \<Longrightarrow> runs q (comma_sep n (parse_expr n c) r)"
proof (rule runs_call [OF total_comma_sep])
  assume a: "all_calls n c p" "eats p q"
  then show "total_from q (parse_expr n c)"
    by (auto simp: total_from_def dest: eats_goes intro!: expr_runs [OF _ goes_trans] goes_refl goes_ok)
  show "wt q < n" using a by (blast intro: expr_calls_wt all_calls_expr eats_goes)
qed

lemma at_word_eof: "at_word p w \<Longrightarrow> peek_kind p \<noteq> TOK_EOF"
  by (simp add: at_word_def check_tok_def)

lemma skip_world_later:
  assumes ac: "all_calls n c p" and e: "eats p q" and g: "goes q r" and w: "at_world r"
  shows "runs q (skip_world c r)"
proof -
  have "eats r (advance r)"
    using goes_ok [OF g] at_word_eof w by (intro not_eof_advance) (auto simp: at_world_def)
  moreover have "expr_calls n c r" using ac e g by (blast intro: all_calls_expr all_calls_later eats_goes goes_trans)
  ultimately have "runs (advance r) (skip_world c r)" by (intro skip_world_runs)
  then show ?thesis using g \<open>eats r (advance r)\<close> by (blast intro: runs_weaken goes_trans eats_goes)
qed

lemma stmt_runs_on:
  assumes ac: "all_calls n c p" and ok: "parser_ok p" and nc: "not_closed p"
  shows "runs_on p (parse_stmt n c p)"
proof -
  have e: "eats p (advance p)" using ok not_closed_eof [OF nc] by (rule not_eof_advance)
  then have b: "goes (advance p) (advance p)" by (blast intro: goes_refl goes_ok eats_goes)
  note ec = all_calls_expr [OF ac]
  note ex = expr_runs [OF ac eats_goes [OF e]] exprs_runs [OF ac e]
  note rules = b ex run_calls [OF ec e] runs_seq runs_if runs_expect_ident runs_match runs_return goes_intros
  have br: "check_tok p TOK_LBRACE \<Longrightarrow> runs_on p (c_block c p)"
    using ac goes_refl [OF ok] by (auto simp: all_calls_def brace_ok_def)
  note w = runs_on_weaken [OF _ e]
  have "runs_on p (parse_let n c p)"
    unfolding parse_let_def Let_def
    by (rule w) (assumption | rule skip_world_later [OF ac e] rules)+
  moreover have "runs_on p (parse_return n c p)"
    unfolding parse_return_def Let_def
    by (rule w) (assumption | rule rules)+
  moreover have "runs_on p (parse_while n c p)"
    unfolding parse_while_def
    by (rule w) (assumption | rule rules)+
  moreover have "runs_on p (parse_for n c p)"
    unfolding parse_for_def Let_def
    by (rule w) (assumption | rule rules)+
  moreover have "runs_on p (do {
        (vs, p) \<leftarrow> comma_sep n (parse_expr n c) (advance p);
        Some (NODE_INVARIANT vs, snd (match_tok TOK_SEMICOLON p)) })"
    by (rule w) (assumption | rule rules)+
  moreover have pe: "runs_on p (parse_expr n c p)"
    using expr_gets [OF ac ok] not_closed_eof [OF nc] by (simp add: gets_def)
  moreover have "runs_on p (do {
        (e, p) \<leftarrow> parse_expr n c p;
        Some (NODE_EXPR_STMT e, snd (match_tok TOK_SEMICOLON p)) })"
    using pe eats_match by (auto simp: runs_on_def)
  moreover have "eats p (snd (match_tok TOK_SEMICOLON (advance p)))" by (rule eats_match [OF e])
  ultimately show ?thesis
    using br unfolding parse_stmt_def by simp
qed

section \<open>Blocks\<close>

lemma world_runs_on:
  assumes ac: "all_calls n c p" and ok: "parser_ok p" and w: "at_world p"
  shows "runs_on p (parse_world c p)"
proof -
  have e: "eats p (advance p)" using ok w by (intro not_eof_advance) (auto simp: at_world_def dest: at_word_eof)
  then have b: "goes (advance p) (advance p)" by (blast intro: goes_refl goes_ok eats_goes)
  have low: "runs q (Some (w32_lower x (node_stmts t) (w32_check_free x t r)))" if "goes q r" for q x t r
    using still_goes [OF still_lower still_goes [OF still_check_free [OF still_refl] that]]
    by (metis prod.collapse runs_Some)
  have "runs (advance p) (parse_world c p)"
    unfolding parse_world_def Let_def
    by (assumption | rule b low run_calls [OF all_calls_expr [OF ac] e] runs_seq runs_expect_ident)+
  then show ?thesis using e by (rule runs_on_weaken)
qed

lemma items_runs:
  assumes "all_calls n c p" and "goes p q"
  shows "runs p (collect_while n not_closed (block_item n c) q)"
proof (rule runs_call [OF total_collect_while assms(2)])
  fix r
  assume r: "goes p r" "not_closed r"
  note ac = all_calls_later [OF assms(1) r(1)] and ok = goes_ok [OF r(1)]
  show "runs_on r (block_item n c r)"
    using stmt_runs_on [OF ac ok r(2)] world_runs_on [OF ac ok] by (simp add: block_item_def)
next
  have "goes p p" using assms(2) by (simp add: goes_def parser_ok_def)
  then show "wt p < n" using assms(1) by (blast intro: expr_calls_wt all_calls_expr)
qed

lemma block_runs:
  assumes ac: "all_calls n c p" and ok: "parser_ok p"
  shows "runs p (parse_block n c p)"
  unfolding parse_block_def
  by (assumption | rule items_runs [OF ac] goes_refl [OF ok] runs_seq runs_return goes_intros)+

lemma brace_runs_on:
  assumes ac: "all_calls n c (advance p)" and ok: "parser_ok p" and b: "check_tok p TOK_LBRACE"
  shows "runs_on p (parse_block n c p)"
proof -
  have e: "eats p (advance p)" using ok b by (rule check_eats) simp
  then have g: "goes (advance p) (advance p)" by (blast intro: goes_refl goes_ok eats_goes)
  have "skip TOK_LBRACE p = advance p" using b by (simp add: expect_tok_def)
  then have "runs (advance p) (parse_block n c p)"
    unfolding parse_block_def
    by (simp only:) (assumption | rule items_runs [OF ac] g runs_seq runs_return goes_intros)+
  then show ?thesis using e by (rule runs_on_weaken)
qed

section \<open>The knot\<close>

definition knot_ok :: "nat \<Rightarrow> bool" where
  "knot_ok n \<longleftrightarrow> (\<forall>p. parser_ok p \<longrightarrow>
     (2 * wt p + 2 \<le> n \<longrightarrow>
        gets p (c_unary (knot n) p) \<and> gets p (c_expr (knot n) p) \<and> runs p (c_block (knot n) p)) \<and>
     (2 * wt p + 1 \<le> n \<longrightarrow> check_tok p TOK_LBRACE \<longrightarrow> runs_on p (c_block (knot n) p)))"

lemma knot_all_calls:
  assumes k: "knot_ok n" and ok: "parser_ok p" and n: "2 * wt p + 1 \<le> n"
  shows "all_calls n (knot n) p"
proof -
  have "2 * wt q + 2 \<le> n" if "wt q < wt p" for q using n that by simp
  moreover have "2 * wt q + 1 \<le> n \<and> parser_ok q" if "goes p q" for q
    using n wt_mono [OF that] goes_ok [OF that] by simp
  ultimately show ?thesis
    using k n by (auto simp: all_calls_def expr_calls_def calls_ok_def brace_ok_def knot_ok_def)
qed

lemma knot_runs: "knot_ok n"
proof (induction n)
  case 0
  then show ?case by (simp add: knot_ok_def)
next
  case (Suc n)
  have calls: "gets p (parse_unary n (knot n) p) \<and> gets p (parse_expr n (knot n) p) \<and> runs p (parse_block n (knot n) p)"
    if "parser_ok p" "2 * wt p + 2 \<le> Suc n" for p
    using that knot_all_calls [OF Suc that(1)] by (simp add: unary_gets expr_gets block_runs)
  have "runs_on p (parse_block n (knot n) p)"
    if p: "parser_ok p" "2 * wt p + 1 \<le> Suc n" "check_tok p TOK_LBRACE" for p
  proof -
    have e: "eats p (advance p)" using p(1,3) by (rule check_eats) simp
    have "2 * wt (advance p) + 1 \<le> n" using wt_less [OF e] p(2) by simp
    with knot_all_calls [OF Suc goes_ok [OF eats_goes [OF e]]] p show ?thesis by (intro brace_runs_on) auto
  qed
  with calls show ?case by (simp add: knot_ok_def Let_def)
qed

end
