(* ===== verification/ParseDecl.thy ===== *)
theory ParseDecl
  imports ParseStmt
begin

text \<open>
  Top-level declarations (\<open>parser_decl.c\<close>): functions, structures, traits and their
  implementations, specifications, enumerations, and the program.
\<close>

section \<open>Declarations\<close>

record fn_item = fn_decl +
  fn_type_params :: "string list"
  fn_bounds :: "string option list"
  fn_trait :: "string option"

datatype (plugins only: code size) decl =
    NODE_FN fn_item
  | NODE_STRUCT string "(string \<times> tnode) list" "string list"
  | NODE_TRAIT string "fn_item list"
  | NODE_IMPL string tnode "fn_item list"
  | NODE_SPEC spec_decl
  | NODE_ENUM string "(string \<times> tnode option) list"

section \<open>Functions\<close>

text \<open>A type parameter with its bound.\<close>

definition type_param :: "Parser \<Rightarrow> ((string \<times> string option) \<times> Parser) option" where
  "type_param p =
     (let (t, p) = expect_tok TOK_IDENT p
      in if check_tok p TOK_COLON then
           (let (b, p) = expect_tok TOK_IDENT (advance p) in Some ((text_or ''T'' t, Some (text_or [] b)), p))
         else Some ((text_or ''T'' t, None), p))"

text \<open>A parameter; \<open>self\<close> may stand without a type.\<close>

definition fn_param :: "nat \<Rightarrow> Parser \<Rightarrow> (param \<times> Parser) option" where
  "fn_param n p = do {
     let (x, p) = expect_ident p;
     (if x = ''self'' \<and> \<not> check_tok p TOK_COLON then Some ((x, None), p)
      else do {
        (t, p) \<leftarrow> parse_type n (skip TOK_COLON p);
        Some ((x, Some t), p)
      })
   }"

definition parse_fn :: "nat \<Rightarrow> calls \<Rightarrow> Parser \<Rightarrow> (fn_item \<times> Parser) option" where
  "parse_fn n c p = do {
     let (x, p) = expect_ident (skip TOK_FN p);
     (tps, p) \<leftarrow> (if check_tok p TOK_LT then do {
          (us, p) \<leftarrow> comma_sep n type_param (advance p);
          Some (us, expect_gt_split p)
        } else Some ([], p));
     (ps, p) \<leftarrow> opt_list n TOK_RPAREN (fn_param n) (skip TOK_LPAREN p);
     (r, p) \<leftarrow> parse_result_type n (skip TOK_RPAREN p);
     (b, p) \<leftarrow> (if \<not> check_tok p TOK_LBRACE then Some (None, p)
        else do { (b, p) \<leftarrow> c_block c p; Some (Some b, p) });
     Some (\<lparr>fn_name = x, params = ps, ret_type = r, fn_body = b, is_extern = False,
            fn_type_params = map fst tps, fn_bounds = map snd tps, fn_trait = None\<rparr>, p)
   }"

section \<open>Structures, traits, implementations and enumerations\<close>

definition struct_param :: "Parser \<Rightarrow> (string \<times> Parser) option" where
  "struct_param p = (let (t, p) = expect_tok TOK_IDENT p in Some (text_or ''T'' t, p))"

definition struct_field :: "nat \<Rightarrow> Parser \<Rightarrow> ((string \<times> tnode) \<times> Parser) option" where
  "struct_field n p = do {
     let (x, p) = expect_ident p;
     (t, p) \<leftarrow> parse_type n (skip TOK_COLON p);
     Some ((x, t), if \<not> check_tok p TOK_RBRACE then snd (match_tok TOK_COMMA p) else p)
   }"

definition parse_struct :: "nat \<Rightarrow> Parser \<Rightarrow> (decl \<times> Parser) option" where
  "parse_struct n p = do {
     let (x, p) = expect_ident (skip TOK_STRUCT p);
     (us, p) \<leftarrow> (if check_tok p TOK_LT then do {
          (us, p) \<leftarrow> comma_sep n struct_param (advance p);
          Some (us, expect_gt_split p)
        } else Some ([], p));
     (fs, p) \<leftarrow> collect_while n not_closed (struct_field n) (skip TOK_LBRACE p);
     Some (NODE_STRUCT x fs us, skip TOK_RBRACE p)
   }"

definition parse_trait :: "nat \<Rightarrow> calls \<Rightarrow> Parser \<Rightarrow> (decl \<times> Parser) option" where
  "parse_trait n c p = do {
     let (x, p) = expect_ident (skip TOK_TRAIT p);
     (ms, p) \<leftarrow> collect_while n not_closed (parse_fn n c) (skip TOK_LBRACE p);
     Some (NODE_TRAIT x ms, skip TOK_RBRACE p)
   }"

definition parse_impl :: "nat \<Rightarrow> calls \<Rightarrow> Parser \<Rightarrow> (decl \<times> Parser) option" where
  "parse_impl n c p = do {
     let (x, p) = expect_ident (skip TOK_IMPL p);
     (t, p) \<leftarrow> parse_type n (skip TOK_FOR p);
     (ms, p) \<leftarrow> collect_while n not_closed (parse_fn n c) (skip TOK_LBRACE p);
     Some (NODE_IMPL x t (map (\<lambda>m. m\<lparr>fn_trait := Some x\<rparr>) ms), skip TOK_RBRACE p)
   }"

definition enum_variant :: "nat \<Rightarrow> Parser \<Rightarrow> ((string \<times> tnode option) \<times> Parser) option" where
  "enum_variant n p = do {
     let (x, p) = expect_ident p;
     (t, p) \<leftarrow> (if check_tok p TOK_LPAREN then do {
          (t, p) \<leftarrow> parse_type n (advance p);
          Some (Some t, skip TOK_RPAREN p)
        } else Some (None, p));
     Some ((x, t), if \<not> check_tok p TOK_RBRACE then snd (match_tok TOK_COMMA p) else p)
   }"

definition parse_enum :: "nat \<Rightarrow> Parser \<Rightarrow> (decl \<times> Parser) option" where
  "parse_enum n p = do {
     let (x, p) = expect_ident (skip TOK_ENUM p);
     (vs, p) \<leftarrow> collect_while n not_closed (enum_variant n) (skip TOK_LBRACE p);
     Some (NODE_ENUM x vs, skip TOK_RBRACE p)
   }"

section \<open>Specifications\<close>

definition spec_words :: "string list" where
  "spec_words = [''output'', ''guarantees'', ''requires'', ''ensures'', ''decreases'']"

definition spec_input :: "nat \<Rightarrow> Parser \<Rightarrow> (param \<times> Parser) option" where
  "spec_input n p = do {
     let (x, p) = expect_ident p;
     (t, p) \<leftarrow> parse_type n (skip TOK_COLON p);
     Some ((x, Some t), snd (match_tok TOK_COMMA p))
   }"

text \<open>A guarantee is the text of its tokens in a buffer of 256 bytes.\<close>

definition add_guarantee_text :: "string \<Rightarrow> token \<Rightarrow> string" where
  "add_guarantee_text buf t =
     (case tk_text t of
        None \<Rightarrow> buf
      | Some x \<Rightarrow>
          if length buf < 250 then
            (let buf = (if buf \<noteq> [] then buf @ '' '' else buf)
             in if length buf + length x < 250 then buf @ x else buf)
          else buf)"

definition guarantee_ends :: "Parser \<Rightarrow> bool" where
  "guarantee_ends p \<longleftrightarrow> check_tok p TOK_MINUS \<or> \<not> not_closed p \<or>
     at_word p ''requires'' \<or> at_word p ''decreases'' \<or> at_word p ''ensures''"

fun guarantee_text :: "nat \<Rightarrow> string \<Rightarrow> Parser \<Rightarrow> (string \<times> Parser) option" where
  "guarantee_text 0 buf p = None"
| "guarantee_text (Suc n) buf p =
     (if \<not> guarantee_ends p then guarantee_text n (add_guarantee_text buf (cur p)) (advance p)
      else Some (buf, p))"

text \<open>The text of an ensures clause, for messages, in a buffer of 512 bytes.\<close>

definition add_ensure_text :: "string \<Rightarrow> token \<Rightarrow> string" where
  "add_ensure_text buf t =
     (case tk_text t of
        None \<Rightarrow> buf
      | Some x \<Rightarrow>
          (let buf = (if buf \<noteq> [] \<and> length buf < 500 then buf @ '' '' else buf)
           in if length buf + length x < 500 then buf @ x else buf))"

definition tokens_between :: "Parser \<Rightarrow> Parser \<Rightarrow> token list" where
  "tokens_between p q = take (ps_pos q - ps_pos p) (drop (ps_pos p) (ps_tokens p))"

fun ensure_list :: "nat \<Rightarrow> nat \<Rightarrow> calls \<Rightarrow> Parser \<Rightarrow> ((string \<times> node) list \<times> Parser) option" where
  "ensure_list 0 n c p = None"
| "ensure_list (Suc k) n c p =
     (if not_closed p then do {
        (e, q) \<leftarrow> parse_expr n c p;
        let x = (foldl add_ensure_text [] (tokens_between p q), e);
        (if check_tok q TOK_COMMA then do {
           (xs, q) \<leftarrow> ensure_list k n c (advance q);
           Some (x # xs, q)
         } else Some ([x], q))
      } else Some ([], p))"

text \<open>One round of the loop over the clauses.\<close>

definition spec_clause :: "nat \<Rightarrow> calls \<Rightarrow> spec_decl \<Rightarrow> Parser \<Rightarrow> (spec_decl \<times> Parser) option" where
  "spec_clause n c s p =
     (if at_word p ''input'' then do {
        (ps, p) \<leftarrow> collect_while n (\<lambda>p. check_tok p TOK_IDENT \<and> text_or [] (cur p) \<notin> set spec_words) (spec_input n)
           (skip TOK_COLON (advance p));
        Some (s\<lparr>spec_inputs := spec_inputs s @ ps\<rparr>, p)
      }
      else if at_word p ''output'' then do {
        (t, p) \<leftarrow> parse_type n (skip TOK_COLON (advance p));
        Some (s\<lparr>spec_output := Some t\<rparr>, p)
      }
      else if at_word p ''guarantees'' then do {
        (gs, p) \<leftarrow> collect_while n (\<lambda>p. check_tok p TOK_MINUS) (\<lambda>p. guarantee_text n [] (advance p))
           (skip TOK_COLON (advance p));
        Some (s\<lparr>spec_guarantees := spec_guarantees s @ gs\<rparr>, p)
      }
      else if at_word p ''ensures'' then do {
        (es, p) \<leftarrow> ensure_list n n c (skip TOK_COLON (advance p));
        Some (s\<lparr>spec_ensures := spec_ensures s @ es\<rparr>, p)
      }
      else if at_word p ''requires'' then do {
        (es, p) \<leftarrow> ensure_list n n c (skip TOK_COLON (advance p));
        Some (s\<lparr>spec_requires := spec_requires s @ es\<rparr>, p)
      }
      else if at_word p ''decreases'' then do {
        (d, p) \<leftarrow> parse_expr n c (skip TOK_COLON (advance p));
        (if spec_decreases s \<noteq> None then Some (s, parser_error p)
         else Some (s\<lparr>spec_decreases := Some d\<rparr>, p))
      }
      else Some (s, advance p))"

fun spec_loop :: "nat \<Rightarrow> nat \<Rightarrow> calls \<Rightarrow> spec_decl \<Rightarrow> Parser \<Rightarrow> (spec_decl \<times> Parser) option" where
  "spec_loop 0 n c s p = None"
| "spec_loop (Suc k) n c s p =
     (if not_closed p then do { (s, p) \<leftarrow> spec_clause n c s p; spec_loop k n c s p } else Some (s, p))"

definition parse_spec :: "nat \<Rightarrow> calls \<Rightarrow> Parser \<Rightarrow> (decl \<times> Parser) option" where
  "parse_spec n c p = do {
     let (x, p) = expect_ident (skip TOK_SPEC p);
     (s, p) \<leftarrow> spec_loop n n c \<lparr>spec_name = x, spec_inputs = [], spec_output = None, spec_guarantees = [],
        spec_ensures = [], spec_requires = [], spec_decreases = None\<rparr> (skip TOK_LBRACE p);
     Some (NODE_SPEC s, skip TOK_RBRACE p)
   }"

section \<open>The program\<close>

definition as_fn :: "(fn_item \<times> Parser) option \<Rightarrow> (decl option \<times> Parser) option" where
  "as_fn r = map_option (\<lambda>(f, p). (Some (NODE_FN f), p)) r"

definition as_item :: "(decl \<times> Parser) option \<Rightarrow> (decl option \<times> Parser) option" where
  "as_item r = map_option (\<lambda>(d, p). (Some d, p)) r"

text \<open>One round of the loop over the declarations; an unexpected token is skipped.\<close>

definition program_item :: "nat \<Rightarrow> calls \<Rightarrow> Parser \<Rightarrow> (decl option \<times> Parser) option" where
  "program_item n c p =
     (if check_tok p TOK_FN then as_fn (parse_fn n c p)
      else if check_tok p TOK_EXTERN then
        as_fn (do {
          (f, p) \<leftarrow> parse_fn n c (advance p);
          Some (f\<lparr>is_extern := True\<rparr>, if fn_body f \<noteq> None then parser_error p else p)
        })
      else if check_tok p TOK_STRUCT then as_item (parse_struct n p)
      else if check_tok p TOK_TRAIT then as_item (parse_trait n c p)
      else if check_tok p TOK_IMPL then as_item (parse_impl n c p)
      else if check_tok p TOK_SPEC then as_item (parse_spec n c p)
      else if check_tok p TOK_ENUM then as_item (parse_enum n p)
      else Some (None, advance (parser_error p)))"

definition parse_program :: "nat \<Rightarrow> (string \<Rightarrow> 64 word) \<Rightarrow> token list \<Rightarrow> string \<Rightarrow> (decl list \<times> Parser) option" where
  "parse_program n fl ts fname = do {
     (ds, p) \<leftarrow> collect_while n (\<lambda>p. \<not> check_tok p TOK_EOF) (program_item n (knot n)) (parser_init fl ts fname);
     Some (List.map_filter (\<lambda>d. d) ds, p)
   }"

end
