(* ===== verification/ParseTotalDecl.thy ===== *)
theory ParseTotalDecl
  imports ParseTotalKnot ParseDecl
begin

text \<open>
  Functions and specifications return, and so does the loop over the declarations of a
  program without structures, traits, implementations and enumerations, whose loops may
  stay on a token.
\<close>

section \<open>Functions\<close>

lemma type_param_total: "total_from p type_param"
  unfolding type_param_def Let_def
  by (rule total_fromI)
    (assumption | rule goes_refl [OF goes_ok] runs_if runs_expect runs_return goes_intros)+

lemma fn_param_total: "expr_calls n c p \<Longrightarrow> eats p q \<Longrightarrow> total_from q (fn_param n)"
proof (rule total_fromI)
  fix r
  assume a: "expr_calls n c p" "eats p q" "goes q r"
  then have b: "eats p r" "goes r r" by (blast intro: eats_then goes_refl goes_ok)+
  show "runs r (fn_param n r)"
    unfolding fn_param_def Let_def
    by (assumption | rule b run_calls [OF a(1)] runs_seq runs_if runs_expect_ident runs_return goes_intros)+
qed

lemma result_type_runs:
  assumes ec: "expr_calls n c p" and e: "eats p q" and g: "goes q r"
  shows "runs q (parse_result_type n r)"
  unfolding parse_result_type_def
  by (assumption | rule g run_calls [OF ec e] runs_seq runs_if runs_return goes_intros)+

text \<open>The part of a function after its keyword.\<close>

lemma fn_tail_runs:
  assumes ec: "expr_calls n c p" and e: "eats p q" and g: "goes q (skip TOK_FN r)"
  shows "runs q (parse_fn n c r)"
proof -
  have w: "wt q < n" using expr_calls_wt [OF ec eats_goes [OF e]] .
  show ?thesis
    unfolding parse_fn_def Let_def
    by (assumption | rule g result_type_runs [OF ec e] runs_call [OF total_comma_sep [OF type_param_total w]]
        runs_call [OF total_opt_list [OF fn_param_total [OF ec e] w]] run_calls [OF ec e]
        runs_seq runs_if runs_expect_ident runs_return goes_intros)+
qed

lemma skip_check: "check_tok p k \<Longrightarrow> skip k p = advance p"
  by (simp add: expect_tok_def)

lemma fn_runs_on:
  assumes ec: "expr_calls n c p" and ok: "parser_ok p" and k: "check_tok p TOK_FN"
  shows "runs_on p (parse_fn n c p)"
  using step_base [OF ok k] fn_tail_runs [OF ec, of "advance p" p] skip_check [OF k]
  by (auto intro: runs_on_weaken)

section \<open>Specifications\<close>

lemma spec_input_runs_on:
  assumes ec: "expr_calls n c p" and e: "eats p q" and g: "goes q r" and k: "check_tok r TOK_IDENT"
  shows "runs_on r (spec_input n r)"
proof -
  have er: "eats r (advance r)" and b: "goes (advance r) (advance r)"
    using step_base [OF goes_ok [OF g] k] by auto
  have ep: "eats p (advance r)" using eats_then [OF e goes_trans [OF g eats_goes [OF er]]] .
  have "runs (advance r) (do {
      (t, p) \<leftarrow> parse_type n (skip TOK_COLON (advance r));
      Some ((x, Some t), snd (match_tok TOK_COMMA p)) })" for x
    by (assumption | rule b run_calls [OF ec ep] runs_seq runs_return goes_intros)+
  then have "runs (advance r) (spec_input n r)"
    using skip_check [OF k] by (simp add: spec_input_def expect_ident_def)
  then show ?thesis using er by (rule runs_on_weaken)
qed

lemma guarantee_text_runs: "parser_ok p \<Longrightarrow> wt p < n \<Longrightarrow> runs p (guarantee_text n buf p)"
proof (induction n arbitrary: buf p)
  case (Suc n)
  show ?case
  proof (cases "guarantee_ends p")
    case False
    then have e: "eats p (advance p)"
      using Suc.prems(1) by (intro not_eof_advance) (auto simp: guarantee_ends_def not_closed_def check_tok_def)
    have "runs (advance p) (guarantee_text n b (advance p))" for b
      using Suc.prems(2) wt_less [OF e] goes_ok [OF eats_goes [OF e]] by (intro Suc.IH) auto
    with False e show ?thesis by (auto intro: runs_weaken eats_goes)
  qed (use Suc.prems(1) in \<open>simp add: goes_refl\<close>)
qed simp

lemma ensure_list_runs:
  assumes ac: "all_calls n c p"
  shows "goes p q \<Longrightarrow> wt q < k \<Longrightarrow> runs q (ensure_list k n c q)"
proof (induction k arbitrary: q)
  case (Suc k)
  have ok: "parser_ok q" using Suc.prems(1) by (rule goes_ok)
  show ?case
  proof (cases "not_closed q")
    case True
    obtain e r where r: "parse_expr n c q = Some (e, r)" "eats q r"
      using expr_gets [OF all_calls_later [OF ac Suc.prems(1)] ok] not_closed_eof [OF True]
      by (auto simp: gets_def runs_on_def)
    have a: "goes q (advance r)" using goes_advance [OF eats_goes [OF r(2)]] .
    have "eats q (advance r)" using eats_then [OF r(2) goes_advance [OF goes_refl [OF goes_ok [OF eats_goes [OF r(2)]]]]] .
    then have "runs (advance r) (ensure_list k n c (advance r))"
      using Suc.prems a by (intro Suc.IH) (auto intro: goes_trans dest: wt_less)
    then have "runs q (ensure_list k n c (advance r))" using a by (rule runs_weaken)
    then show ?thesis using True r by (auto simp: runs_def Let_def dest: eats_goes)
  qed (use ok in \<open>simp add: goes_refl\<close>)
qed simp

lemma at_word_eats: "parser_ok p \<Longrightarrow> at_word p w \<Longrightarrow> eats p (advance p) \<and> goes (advance p) (advance p)"
  by (rule step_base) (auto simp: at_word_def)

text \<open>The lists of a specification, after the word that opens them.\<close>

lemma spec_lists_run:
  assumes ac: "all_calls n c p" and e: "eats p q" and g: "goes q r"
  shows "runs q (collect_while n (\<lambda>p. check_tok p TOK_IDENT \<and> text_or [] (cur p) \<notin> set spec_words) (spec_input n) r)"
    "runs q (collect_while n (\<lambda>p. check_tok p TOK_MINUS) (\<lambda>p. guarantee_text n [] (advance p)) r)"
    "runs q (ensure_list n n c r)"
    "runs q (parse_expr n c r)"
proof -
  note ec = all_calls_expr [OF ac]
  have w: "wt q < n" using expr_calls_wt [OF ec eats_goes [OF e]] .
  show "runs q (collect_while n (\<lambda>p. check_tok p TOK_IDENT \<and> text_or [] (cur p) \<notin> set spec_words) (spec_input n) r)"
    by (rule runs_call [OF total_collect_while [OF spec_input_runs_on [OF ec e] w] g]) auto
  have gt: "runs_on s (guarantee_text n [] (advance s))" if s: "goes q s" "check_tok s TOK_MINUS" for s
  proof -
    have es: "eats s (advance s)" "goes (advance s) (advance s)" using step_base [OF goes_ok [OF s(1)] s(2)] by auto
    then show ?thesis
      using guarantee_text_runs [of "advance s" n "[]"] w wt_mono [OF goes_trans [OF s(1) eats_goes [OF es(1)]]] goes_ok [OF es(2)]
      by (auto intro: runs_on_weaken)
  qed
  show "runs q (collect_while n (\<lambda>p. check_tok p TOK_MINUS) (\<lambda>p. guarantee_text n [] (advance p)) r)"
    by (rule runs_call [OF total_collect_while [OF gt w] g])
  have "wt r < n" using w wt_mono [OF g] by simp
  then show "runs q (ensure_list n n c r)"
    using ensure_list_runs [OF ac goes_trans [OF eats_goes [OF e] g]] g by (blast intro: runs_weaken)
  show "runs q (parse_expr n c r)" using expr_runs [OF ac eats_goes [OF e] g] .
qed

lemma spec_clause_runs_on:
  assumes ac: "all_calls n c p" and ok: "parser_ok p" and nc: "not_closed p"
  shows "runs_on p (spec_clause n c s p)"
proof -
  have e: "eats p (advance p)" using ok not_closed_eof [OF nc] by (rule not_eof_advance)
  then have b: "goes (advance p) (advance p)" by (blast intro: goes_refl goes_ok eats_goes)
  have "runs (advance p) (spec_clause n c s p)"
    unfolding spec_clause_def
    by (assumption | rule b spec_lists_run [OF ac e] run_calls [OF all_calls_expr [OF ac] e]
        runs_seq runs_if runs_return goes_intros)+
  then show ?thesis using e by (rule runs_on_weaken)
qed

lemma spec_loop_runs:
  assumes ac: "all_calls n c p"
  shows "goes p q \<Longrightarrow> wt q < k \<Longrightarrow> runs q (spec_loop k n c s q)"
proof (induction k arbitrary: q s)
  case (Suc k)
  have ok: "parser_ok q" using Suc.prems(1) by (rule goes_ok)
  show ?case
  proof (cases "not_closed q")
    case True
    obtain s' r where r: "spec_clause n c s q = Some (s', r)" "eats q r"
      using spec_clause_runs_on [OF all_calls_later [OF ac Suc.prems(1)] ok True] unfolding runs_on_def by blast
    have "runs r (spec_loop k n c s' r)"
      using Suc.prems wt_less [OF r(2)] goes_trans [OF Suc.prems(1) eats_goes [OF r(2)]] by (intro Suc.IH) auto
    then show ?thesis using True r by (auto intro: runs_weaken eats_goes)
  qed (use ok in \<open>simp add: goes_refl\<close>)
qed simp

lemma spec_runs_on:
  assumes ac: "all_calls n c p" and ok: "parser_ok p" and k: "check_tok p TOK_SPEC"
  shows "runs_on p (parse_spec n c p)"
proof -
  have e: "eats p (advance p)" and b: "goes (advance p) (advance p)" using step_base [OF ok k] by auto
  have l: "runs (advance p) (spec_loop n n c s r)" if r: "goes (advance p) r" for s r
    using spec_loop_runs [OF ac goes_trans [OF eats_goes [OF e] r]] r
      expr_calls_wt [OF all_calls_expr [OF ac] goes_trans [OF eats_goes [OF e] r]] by (blast intro: runs_weaken)
  have "runs (advance p) (parse_spec n c p)"
    unfolding parse_spec_def Let_def skip_check [OF k]
    by (assumption | rule b l runs_seq runs_expect_ident runs_return goes_intros)+
  then show ?thesis using e by (rule runs_on_weaken)
qed

section \<open>Programs\<close>

definition member_decls :: "token_kind set" where
  "member_decls = {TOK_STRUCT, TOK_TRAIT, TOK_IMPL, TOK_ENUM}"

lemma runs_on_as_fn: "runs_on p r \<Longrightarrow> runs_on p (as_fn r)"
  by (auto simp: as_fn_def runs_on_def)

lemma runs_on_as_item: "runs_on p r \<Longrightarrow> runs_on p (as_item r)"
  by (auto simp: as_item_def runs_on_def)

lemma program_item_runs_on:
  assumes ac: "all_calls n c p" and ok: "parser_ok p" and ne: "\<not> check_tok p TOK_EOF"
    and k: "peek_kind p \<notin> member_decls"
  shows "runs_on p (program_item n c p)"
proof -
  have e: "eats p (advance p)" using ok ne by (intro not_eof_advance) (simp_all add: check_tok_def)
  then have b: "goes (advance p) (advance p)" by (blast intro: goes_refl goes_ok eats_goes)
  note ec = all_calls_expr [OF ac]
  have x: "runs_on p (do { (f, p) \<leftarrow> parse_fn n c (advance p);
      Some (f\<lparr>is_extern := True\<rparr>, if fn_body f \<noteq> None then parser_error p else p) })"
    by (rule runs_on_weaken [OF _ e])
      (assumption | rule b fn_tail_runs [OF ec e] runs_seq runs_return goes_intros)+
  have err: "eats p (advance (parser_error p))"
    using eats_then [OF e goes_past_error [OF goes_refl [OF ok]]] by (simp add: parser_error_def)
  show ?thesis
    using runs_on_as_fn [OF fn_runs_on [OF ec ok]] runs_on_as_fn [OF x] runs_on_as_item [OF spec_runs_on [OF ac ok]] err k
    unfolding program_item_def by (simp add: member_decls_def check_tok_def)
qed

lemma program_loop_runs:
  assumes ok: "parser_ok p" and n: "2 * wt p + 1 \<le> n" and k: "member_decls \<inter> tk_kind ` set (ps_tokens p) = {}"
  shows "runs p (collect_while n (\<lambda>p. \<not> check_tok p TOK_EOF) (program_item n (knot n)) p)"
proof (rule runs_call [OF total_collect_while goes_refl [OF ok]])
  fix q
  assume q: "goes p q" "\<not> check_tok q TOK_EOF"
  have "peek_kind q \<in> tk_kind ` set (ps_tokens p)" using q(1) by (auto simp: goes_def peek_kind_def cur_def)
  then have "peek_kind q \<notin> member_decls" using k by auto
  moreover have "2 * wt q + 1 \<le> n" using n wt_mono [OF q(1)] by simp
  ultimately show "runs_on q (program_item n (knot n) q)"
    using knot_all_calls [OF knot_runs goes_ok [OF q(1)]] goes_ok [OF q(1)] q(2) by (intro program_item_runs_on)
qed (use n in simp)

end
