(* ===== verification/ParseProps.thy ===== *)
theory ParseProps
  imports ParseTotalDecl ParseTypes LexerProps
begin

text \<open>The parser returns on texts; where its loops stay on a token, and where it reads NULL.\<close>

section \<open>Texts\<close>

lemma init_ok:
  "tokenize (lexer_init s f) = Inr ts \<Longrightarrow> parser_ok (parser_init fl ts f) \<and> wt (parser_init fl ts f) \<le> length s"
  using tokenize_weight [of "lexer_init s f" ts]
  by (auto simp: parser_ok_def parser_init_def wt_def left_def lexer_init_def)

lemma collect_while_stops: "collect_while n c f p = Some (xs, q) \<Longrightarrow> \<not> c q"
  by (induction n arbitrary: p xs) (auto split: if_splits bind_splits)




lemma rest_init: "rest (lexer_init s f) = s"
  by (simp add: rest_def lexer_init_def)

definition fn_text :: "(token_kind \<times> string) list" where
  "fn_text = [(TOK_FN, ''fn''), (TOK_IDENT, ''f''), (TOK_LPAREN, ''(''), (TOK_RPAREN, '')'')]"

lemma fn_text_printable: "list_all printable fn_text"
proof -
  have "printable (TOK_FN, ''fn'')" "printable (TOK_IDENT, ''f'')"
    by (simp_all add: printable_def is_ident_start_def is_ident_char_def is_digit_def cbyte_def keyword_kind_def
        kw_table_def)
  moreover have "printable (TOK_LPAREN, ''('')" "printable (TOK_RPAREN, '')'')"
    by (simp_all add: printable_def operators_def one_char_ops_def)
  ultimately show ?thesis by (simp add: fn_text_def)
qed


section \<open>Loops that stay on a token\<close>

text \<open>The parser stands at a given place of its tokens.\<close>

definition stands :: "token list \<Rightarrow> nat \<Rightarrow> Parser \<Rightarrow> bool" where
  "stands ts i p \<longleftrightarrow> ps_tokens p = ts \<and> ps_pos p = i"

lemma stands_step:
  "stands ts i p \<Longrightarrow> Suc i < length ts \<Longrightarrow> stands ts (Suc i) (advance p)"
  by (simp add: stands_def advance_def)

lemma stands_kind: "stands ts i p \<Longrightarrow> i < length ts \<Longrightarrow> peek_kind p = tk_kind (ts ! i)"
  by (simp add: stands_def peek_kind_def cur_def)

lemma peek_update [simp]:
  "cur (p\<lparr>ps_gt_pending := g\<rparr>) = cur p" "cur (p\<lparr>ps_type_depth := d\<rparr>) = cur p" "cur (parser_error p) = cur p"
  "peek_kind (p\<lparr>ps_gt_pending := g\<rparr>) = peek_kind p" "peek_kind (p\<lparr>ps_type_depth := d\<rparr>) = peek_kind p"
  "peek_kind (parser_error p) = peek_kind p"
  "stands ts i (p\<lparr>ps_gt_pending := g\<rparr>) = stands ts i p" "stands ts i (p\<lparr>ps_type_depth := d\<rparr>) = stands ts i p"
  "stands ts i (parser_error p) = stands ts i p"
  by (simp_all add: stands_def parser_error_def parser_error_at_def peek_kind_def cur_def)

lemma stuck_loop:
  assumes "\<And>q x r. stands ts i q \<Longrightarrow> f q = Some (x, r) \<Longrightarrow> stands ts i r" and "\<And>q. stands ts i q \<Longrightarrow> c q"
  shows "stands ts i p \<Longrightarrow> collect_while n c f p = None"
proof (induction n arbitrary: p)
  case (Suc n)
  then show ?case using assms by (cases "f p") auto
qed simp

text \<open>The kinds of tokens that no member of a declaration can start with.\<close>

definition inert :: "token_kind \<Rightarrow> bool" where
  "inert k \<longleftrightarrow> k \<notin> {TOK_IDENT, TOK_COLON, TOK_COMMA, TOK_DOT, TOK_FN, TOK_AMP, TOK_LBRACKET, TOK_LT,
     TOK_LPAREN, TOK_RPAREN, TOK_ARROW, TOK_BANG, TOK_LBRACE, TOK_RBRACE, TOK_EOF}"

lemma inert_check [simp]:
  "inert (peek_kind p) \<Longrightarrow> \<not> inert k \<Longrightarrow> check_tok p k = False"
  "inert (peek_kind p) \<Longrightarrow> \<not> inert k \<Longrightarrow> expect_tok k p = (cur p, parser_error p)"
  "inert (peek_kind p) \<Longrightarrow> \<not> inert k \<Longrightarrow> match_tok k p = (False, p)"
  by (auto simp: check_tok_def expect_tok_def match_tok_def)

lemma members_not_inert [simp]:
  "\<not> inert TOK_IDENT" "\<not> inert TOK_COLON" "\<not> inert TOK_COMMA" "\<not> inert TOK_DOT" "\<not> inert TOK_FN" "\<not> inert TOK_AMP"
  "\<not> inert TOK_LBRACKET" "\<not> inert TOK_LT" "\<not> inert TOK_LPAREN" "\<not> inert TOK_RPAREN" "\<not> inert TOK_ARROW"
  "\<not> inert TOK_BANG" "\<not> inert TOK_LBRACE" "\<not> inert TOK_RBRACE" "\<not> inert TOK_EOF"
  by (simp_all add: inert_def)

text \<open>What reads a type, a field, a variant or a method at such a token stays on it.\<close>

lemma stuck_type:
  assumes "inert (peek_kind p)" and "parse_type n p = Some (t, q)"
  shows "stands ts i q = stands ts i p \<and> peek_kind q = peek_kind p"
proof (cases n)
  case (Suc m)
  then show ?thesis
    using assms
    by (auto simp: parse_type_rec_def parse_named_type_def parse_type_name_def Let_def split: if_splits)
qed (use assms(2) in simp)

lemma expect_ident_inert [simp]:
  "inert (peek_kind p) \<Longrightarrow> expect_ident p = (text_or err_name (cur p), parser_error p)"
  by (simp add: expect_ident_def)

lemma stuck_field:
  assumes "inert (peek_kind p)" and "struct_field n p = Some (x, q)"
  shows "stands ts i q = stands ts i p \<and> peek_kind q = peek_kind p"
  using assms stuck_type [of "parser_error (parser_error p)" n]
  by (auto simp: struct_field_def split: bind_splits)

lemma stuck_variant:
  assumes "inert (peek_kind p)" and "enum_variant n p = Some (x, q)"
  shows "stands ts i q = stands ts i p \<and> peek_kind q = peek_kind p"
  using assms by (auto simp: enum_variant_def)

lemma stuck_param:
  assumes "inert (peek_kind p)" and "fn_param n p = Some (x, q)"
  shows "stands ts i q = stands ts i p \<and> peek_kind q = peek_kind p"
  using assms stuck_type [of "parser_error (parser_error p)" n]
  by (auto simp: fn_param_def split: bind_splits if_splits)

lemma stuck_params:
  assumes "inert (peek_kind p)" and "comma_sep n (fn_param m) p = Some (xs, q)"
  shows "stands ts i q = stands ts i p \<and> peek_kind q = peek_kind p"
proof (cases n)
  case (Suc k)
  then show ?thesis using assms stuck_param [OF assms(1), of m] by (auto split: bind_splits if_splits)
qed (use assms(2) in simp)

lemma stuck_fn:
  assumes "inert (peek_kind p)" and "parse_fn n c p = Some (x, q)"
  shows "stands ts i q = stands ts i p \<and> peek_kind q = peek_kind p"
  using assms stuck_params [of "parser_error (parser_error (parser_error p))" n n]
  by (auto simp: parse_fn_def opt_list_def parse_result_type_def split: bind_splits if_splits)

lemma stuck_at:
  assumes f: "\<And>q x r. inert (peek_kind q) \<Longrightarrow> f q = Some (x, r) \<Longrightarrow> stands ts i r = stands ts i q \<and> peek_kind r = peek_kind q"
    and p: "stands ts i p" "i < length ts" "inert (tk_kind (ts ! i))"
  shows "collect_while n not_closed f p = None"
proof (rule stuck_loop [OF _ _ p(1)])
  fix q x r
  assume "stands ts i q" "f q = Some (x, r)"
  then show "stands ts i r" using f p stands_kind by metis
next
  fix q
  assume "stands ts i q"
  then have "inert (peek_kind q)" using p stands_kind by metis
  then show "not_closed q" by (simp add: not_closed_def)
qed

text \<open>The state after the keyword, the name and the brace of a declaration.\<close>

lemma header_stands:
  assumes "kind_at p 1 = Some TOK_IDENT" and "kind_at p 2 = Some TOK_LBRACE" and "kind_at p 3 = Some k"
  shows "peek_kind p = kw \<Longrightarrow> expect_ident (skip kw p) = (text_or err_name (cur (advance p)), advance (advance p))"
    "check_tok (advance (advance p)) TOK_LBRACE"
    "stands (ps_tokens p) (ps_pos p + 3) (skip TOK_LBRACE (advance (advance p)))"
    "ps_pos p + 3 < length (ps_tokens p)" "tk_kind (ps_tokens p ! (ps_pos p + 3)) = k"
proof -
  have len: "ps_pos p + 3 < length (ps_tokens p)" and k: "tk_kind (ps_tokens p ! (ps_pos p + 3)) = k"
    and "tk_kind (ps_tokens p ! Suc (ps_pos p)) = TOK_IDENT" "tk_kind (ps_tokens p ! Suc (Suc (ps_pos p))) = TOK_LBRACE"
    using assms by (simp_all add: kind_at_def split: if_splits)
  moreover have s: "stands (ps_tokens p) (Suc (ps_pos p)) (advance p)"
      "stands (ps_tokens p) (Suc (Suc (ps_pos p))) (advance (advance p))"
      "stands (ps_tokens p) (Suc (Suc (Suc (ps_pos p)))) (advance (advance (advance p)))"
    using len by (auto simp: stands_def advance_def)
  ultimately have "check_tok (advance p) TOK_IDENT" and b: "check_tok (advance (advance p)) TOK_LBRACE"
    using stands_kind [OF s(1)] stands_kind [OF s(2)] by (auto simp: check_tok_def)
  then show "peek_kind p = kw \<Longrightarrow> expect_ident (skip kw p) = (text_or err_name (cur (advance p)), advance (advance p))"
    by (auto simp: expect_ident_def expect_tok_def check_tok_def)
  show "check_tok (advance (advance p)) TOK_LBRACE" by (rule b)
  show "stands (ps_tokens p) (ps_pos p + 3) (skip TOK_LBRACE (advance (advance p)))"
    using s(3) skip_check [OF b] by (simp add: numeral_3_eq_3)
  show "ps_pos p + 3 < length (ps_tokens p)" "tk_kind (ps_tokens p ! (ps_pos p + 3)) = k" by fact+
qed

text \<open>
  C20. Code bug: the loops over the fields of a structure, the variants of an enumeration
  and the methods of a trait do not end when a member starts with a token that none of
  their readers consumes, a number or a semicolon say: the round reports errors, appends a
  member and stays on the token, and no amount of fuel makes the parser return.
\<close>

theorem member_loops_hang:
  assumes "peek_kind p \<in> {TOK_STRUCT, TOK_ENUM, TOK_TRAIT}" and "kind_at p 1 = Some TOK_IDENT"
    and "kind_at p 2 = Some TOK_LBRACE" and "kind_at p 3 = Some k" and "inert k"
  shows "program_item n c p = None"
proof -
  note h = header_stands [OF assms(2-4)]
  note stuck = stuck_at [OF _ h(3,4), unfolded h(5), OF _ assms(5)]
  have field: "collect_while n not_closed (struct_field n) (skip TOK_LBRACE (advance (advance p))) = None"
    by (rule stuck) (rule stuck_field)
  have variant: "collect_while n not_closed (enum_variant n) (skip TOK_LBRACE (advance (advance p))) = None"
    by (rule stuck) (rule stuck_variant)
  have fn: "collect_while n not_closed (parse_fn n c) (skip TOK_LBRACE (advance (advance p))) = None"
    by (rule stuck) (rule stuck_fn)
  have lt: "\<not> check_tok (advance (advance p)) TOK_LT" using h(2) by (simp add: check_tok_def)
  have "parse_struct n p = None" if "check_tok p TOK_STRUCT"
    using h(1) [of TOK_STRUCT] that lt field by (simp add: parse_struct_def check_tok_def)
  moreover have "parse_enum n p = None" if "check_tok p TOK_ENUM"
    using h(1) [of TOK_ENUM] that variant by (simp add: parse_enum_def check_tok_def)
  moreover have "parse_trait n c p = None" if "check_tok p TOK_TRAIT"
    using h(1) [of TOK_TRAIT] that fn by (simp add: parse_trait_def check_tok_def)
  ultimately show ?thesis using assms(1)
    by (auto simp: program_item_def check_tok_def as_item_def)
qed

text \<open>\<open>struct S { 1 }\<close> at the start of a file.\<close>

definition struct_one :: Parser where
  "struct_one = parser_at
     [(TOK_STRUCT, ''struct''), (TOK_IDENT, ''S''), (TOK_LBRACE, []), (TOK_INT_LIT, ''1''), (TOK_RBRACE, []), (TOK_EOF, [])]"

lemma member_loops_hang_witness: "program_item 1000 (knot 1000) struct_one = None"
  by (rule member_loops_hang [of _ TOK_INT_LIT])
    (simp_all add: struct_one_def parser_at_def parser_init_def mk_tok_def peek_kind_def cur_def kind_at_def inert_def)

text \<open>The same with the semicolon after a method, in the syntax of the comment on \<open>parse_trait\<close>.\<close>

lemma stands_expect:
  assumes "stands ts i p" and "Suc i < length ts" and "tk_kind (ts ! i) = k"
  shows "expect_tok k p = (cur p, advance p)" "stands ts (Suc i) (advance p)" "peek_kind p = k"
  using assms stands_step [OF assms(1,2)] stands_kind [OF assms(1)] by (simp_all add: expect_tok_def check_tok_def)

lemma method_semicolon_stands:
  assumes "stands ts i p" and "i + 4 < length ts"
    and "tk_kind (ts ! i) = TOK_FN" "tk_kind (ts ! Suc i) = TOK_IDENT" "tk_kind (ts ! Suc (Suc i)) = TOK_LPAREN"
      "tk_kind (ts ! Suc (Suc (Suc i))) = TOK_RPAREN" "tk_kind (ts ! Suc (Suc (Suc (Suc i)))) = TOK_SEMICOLON"
    and "parse_fn n c p = Some (x, q)"
  shows "stands ts (i + 4) q"
proof -
  note s1 = stands_expect [OF assms(1) _ assms(3)] note s2 = stands_expect [OF s1(2) _ assms(4)]
  note s3 = stands_expect [OF s2(2) _ assms(5)] note s4 = stands_expect [OF s3(2) _ assms(6)]
  have "peek_kind (advance (advance (advance (advance p)))) = TOK_SEMICOLON"
    using stands_kind [OF s4(2)] assms(2,7) by simp
  then have "q = advance (advance (advance (advance p)))"
    using assms(2,8) s1 s2 s3 s4
    by (simp add: parse_fn_def expect_ident_def check_tok_def opt_list_def parse_result_type_def)
  then show ?thesis using s4(2) assms(2) by (simp add: numeral_eq_Suc)
qed

lemma method_semicolon_hangs:
  assumes "peek_kind p = TOK_TRAIT" and "kind_at p 1 = Some TOK_IDENT" and "kind_at p 2 = Some TOK_LBRACE"
    and "kind_at p 3 = Some TOK_FN" "kind_at p 4 = Some TOK_IDENT" "kind_at p 5 = Some TOK_LPAREN"
      "kind_at p 6 = Some TOK_RPAREN" "kind_at p 7 = Some TOK_SEMICOLON"
  shows "program_item n c p = None"
proof -
  let ?q = "skip TOK_LBRACE (advance (advance p))" and ?i = "ps_pos p + 3"
  note h = header_stands [OF assms(2-4)]
  have at: "?i + 4 < length (ps_tokens p)" "tk_kind (ps_tokens p ! Suc ?i) = TOK_IDENT"
      "tk_kind (ps_tokens p ! Suc (Suc ?i)) = TOK_LPAREN" "tk_kind (ps_tokens p ! Suc (Suc (Suc ?i))) = TOK_RPAREN"
      "tk_kind (ps_tokens p ! Suc (Suc (Suc (Suc ?i)))) = TOK_SEMICOLON"
    using assms(5-8) by (simp_all add: kind_at_def numeral_eq_Suc split: if_splits)
  have nc: "not_closed ?q" using stands_kind [OF h(3,4)] h(5) by (simp add: not_closed_def check_tok_def)
  have "collect_while n not_closed (parse_fn n' c) ?q = None" for n n'
  proof (cases "n = 0 \<or> parse_fn n' c ?q = None")
    case False
    then obtain m x r where m: "n = Suc m" "parse_fn n' c ?q = Some (x, r)" by (cases n) auto
    have "stands (ps_tokens p) (?i + 4) r" using method_semicolon_stands [OF h(3) at(1) h(5) at(2-5) m(2)] .
    moreover have "inert (tk_kind (ps_tokens p ! (?i + 4)))" using at(5) by (simp add: numeral_eq_Suc inert_def)
    ultimately have "collect_while m not_closed (parse_fn n' c) r = None" using at(1) by (intro stuck_at stuck_fn)
    then show ?thesis using m nc by simp
  next
    case True
    then show ?thesis using nc by (cases n) auto
  qed
  then show ?thesis
    using h(1) [OF assms(1)] assms(1) by (simp add: program_item_def parse_trait_def as_item_def check_tok_def)
qed

section \<open>NULL nodes\<close>

lemma interp_scan_plain:
  "CHR ''$'' \<notin> set l \<Longrightarrow> interp_scan c (l @ s) lit ps p = interp_scan c s (lit @ l) ps p"
proof (induction l arbitrary: lit)
  case (Cons x l)
  then show ?case by (subst interp_scan.simps) auto
qed simp

lemma interp_unclosed:
  assumes "CHR ''$'' \<notin> set l" and "close_brace 1 r = None"
  shows "parse_interp_string c (l @ CHR ''$'' # CHR 0x7B # r) p = Some (None, parser_error p)"
proof -
  have "interp_scan c (l @ CHR ''$'' # CHR 0x7B # r) [] [] p = interp_scan c (CHR ''$'' # CHR 0x7B # r) l [] p"
    using interp_scan_plain [OF assms(1), of c _ "[]"] by simp
  also have "\<dots> = Some (None, parser_error p)"
    using assms(2) by (subst interp_scan.simps) (simp add: flush_lit_def push_part_def MAX_PARTS_def)
  finally show ?thesis by (simp add: parse_interp_string_def)
qed

text \<open>
  C21. Code bug: a null dereference. When the braces of an interpolation do not balance in
  the text of a string, \<open>parse_interp_string\<close> returns NULL and \<open>parse_postfix\<close> reads the
  kind of the node. The text is one that the lexer makes: it skips the strings inside of
  an interpolation, whose braces the parser counts.
\<close>

theorem null_primary_faults:
  assumes "check_tok p TOK_STR_LIT" and "tk_text (cur p) = Some (l @ CHR ''$'' # CHR 0x7B # r)"
    and "CHR ''$'' \<notin> set l" and "close_brace 1 r = None"
    and "kind_at p 1 = Some k" and "k \<notin> {TOK_LPAREN, TOK_LBRACKET, TOK_DOTDOT, TOK_DOT, TOK_QUESTION, TOK_CATCH}"
  shows "\<exists>e q. parse_postfix (Suc n) c p = Some (e, q) \<and> ps_fault q"
proof -
  let ?q = "set_fault (parser_error (advance p))"
  have "parse_primary (Suc n) c p = Some (None, parser_error (advance p))"
    using assms(1,2) interp_unclosed [OF assms(3,4)]
    by (simp add: parse_primary_def at_world_def at_word_def check_tok_def text_or_def)
  moreover have "peek_kind ?q = k"
    using assms(5) by (simp add: set_fault_def peek_kind_def cur_def parser_error_def parser_error_at_def
        advance_def kind_at_def split: if_splits) arith
  then have "postfix_step (Suc n) c (NODE_INT_LIT 0) ?q = None"
    using assms(6) by (simp add: postfix_step_def check_tok_def is_ident_node_def)
  ultimately have "parse_postfix (Suc n) c p = Some (NODE_INT_LIT 0, ?q)"
    by (simp add: parse_postfix_def)
  then show ?thesis by (simp add: set_fault_def)
qed

text \<open>The string \<open>${f("{")}\<close>.\<close>

definition brace_string :: string where
  "brace_string = ''${f('' @ [CHR 0x22, CHR 0x7B, CHR 0x22] @ '')}''"

lemma brace_string_buf:
  "sb_buf (snd (snd (lex_string_buf (adv (lexer_init (CHR 0x22 # brace_string @ [CHR 0x22]) []))))) = brace_string \<and>
   fst (lex_string_buf (adv (lexer_init (CHR 0x22 # brace_string @ [CHR 0x22]) []))) = None"
  by code_simp

lemma brace_string_lexed:
  "tk_kind (fst (lexer_next (lexer_init (CHR 0x22 # brace_string @ [CHR 0x22]) []))) = TOK_STR_LIT \<and>
   tk_text (fst (lexer_next (lexer_init (CHR 0x22 # brace_string @ [CHR 0x22]) []))) = Some brace_string"
proof -
  let ?l = "lexer_init (CHR 0x22 # brace_string @ [CHR 0x22]) []"
  have r: "rest ?l = CHR 0x22 # brace_string @ [CHR 0x22]" by (rule rest_init)
  have "skip_ws ?l = ?l" using r by (intro skip_ws_stop) (simp add: starts_token_def is_space_def)
  then have "lexer_next ?l = lex_string (adv ?l) \<lparr>p_line = l_line ?l, p_col = l_col ?l, p_file = l_filename ?l\<rparr>"
    using r quote_class by (simp add: lexer_next_def Let_def rest_simps)
  then show ?thesis
    using brace_string_buf by (auto simp: lex_string_def make_token_def split: prod.splits option.splits)
qed

lemma null_primary_faults_witness:
  "tk_text (fst (lexer_next (lexer_init (CHR 0x22 # brace_string @ [CHR 0x22]) []))) = Some brace_string \<and>
   (\<exists>e q. parse_postfix 5 (knot 5) (parser_at [(TOK_STR_LIT, brace_string), (TOK_EOF, [])]) = Some (e, q) \<and>
     ps_fault q)"
proof -
  let ?p = "parser_at [(TOK_STR_LIT, brace_string), (TOK_EOF, [])]"
  have "close_brace 1 (''f('' @ [CHR 0x22, CHR 0x7B, CHR 0x22] @ '')}'') = None" by simp
  then have "\<exists>e q. parse_postfix (Suc 4) (knot 5) ?p = Some (e, q) \<and> ps_fault q"
    by (intro null_primary_faults [of _ "[]" "''f('' @ [CHR 0x22, CHR 0x7B, CHR 0x22] @ '')}''" TOK_EOF])
      (simp_all add: parser_at_def parser_init_def mk_tok_def check_tok_def peek_kind_def cur_def kind_at_def brace_string_def)
  then show ?thesis using brace_string_lexed by simp
qed

end
