(* ===== verification/Linear.thy ===== *)
theory Linear
  imports Prelude "HOL-Library.Signed_Division"
begin

text \<open>
  The exact arithmetic under the verifier (\<open>src/verify_core.c\<close>): rationals
  with an overflow flag, linear forms over named variables, constraints, and
  the Fourier--Motzkin satisfiability test. An \<open>int64_t\<close> is an \<open>int\<close>; every
  operation that can leave the range is checked by the code and here, and the
  \<open>__int128\<close> intermediates stay inside their range.
\<close>

section \<open>Rationals\<close>

definition INT64_MAX :: int where "INT64_MAX = 9223372036854775807"
definition INT64_MIN :: int where "INT64_MIN = -9223372036854775808"

definition in_i64 :: "int \<Rightarrow> bool" where
  "in_i64 n \<longleftrightarrow> INT64_MIN \<le> n \<and> n \<le> INT64_MAX"

text \<open>The conversion of a wider integer to \<open>int64_t\<close>.\<close>

definition to_i64 :: "int \<Rightarrow> int" where
  "to_i64 n = (n + 9223372036854775808) mod 18446744073709551616 - 9223372036854775808"

record Rat =
  r_num :: int
  r_den :: int
  r_ovf :: bool

function euclid :: "int \<Rightarrow> int \<Rightarrow> int" where
  "euclid x y = (if y = 0 then x else euclid y (x smod y))"
  by pat_completeness auto
termination
proof (relation "measure (\<lambda>(x, y). nat \<bar>y\<bar>)", goal_cases)
  case (2 x y)
  then have "\<bar>x smod y\<bar> < \<bar>y\<bar>" by (auto simp: smod_int_alt_def abs_mult sgn_if)
  then show ?case by simp
qed simp

declare euclid.simps [simp del]

definition v_gcd :: "int \<Rightarrow> int \<Rightarrow> int" where
  "v_gcd a b = (let x = euclid \<bar>a\<bar> \<bar>b\<bar> in if x \<noteq> 0 then to_i64 x else 1)"

definition rat_bad :: Rat where
  "rat_bad = \<lparr>r_num = 0, r_den = 1, r_ovf = True\<rparr>"

definition rat_reduce :: "int \<Rightarrow> int \<Rightarrow> Rat" where
  "rat_reduce n d =
     (let g = v_gcd n d in \<lparr>r_num = n sdiv g, r_den = d sdiv g, r_ovf = False\<rparr>)"

definition rat_mk :: "int \<Rightarrow> int \<Rightarrow> Rat" where
  "rat_mk n d =
     (if d = 0 then rat_bad
      else if d < 0 then
        (if n = INT64_MIN \<or> d = INT64_MIN then rat_bad else rat_reduce (- n) (- d))
      else rat_reduce n d)"

definition rat_int :: "int \<Rightarrow> Rat" where
  "rat_int n = \<lparr>r_num = n, r_den = 1, r_ovf = False\<rparr>"

definition rat_zero :: Rat where "rat_zero = rat_int 0"

definition rat_neg :: "Rat \<Rightarrow> Rat" where
  "rat_neg a =
     (if r_ovf a \<or> r_num a = INT64_MIN then rat_bad else a\<lparr>r_num := - r_num a\<rparr>)"

definition rat_add :: "Rat \<Rightarrow> Rat \<Rightarrow> Rat" where
  "rat_add a b =
     (if r_ovf a \<or> r_ovf b \<or> r_den a = 0 \<or> r_den b = 0 then rat_bad
      else
        let g = v_gcd (r_den a) (r_den b);
            l1 = r_den a sdiv g; l2 = r_den b sdiv g;
            n = r_num a * l2 + r_num b * l1;
            d = r_den a * l2
        in if n > INT64_MAX \<or> n < INT64_MIN \<or> d > INT64_MAX then rat_bad else rat_mk n d)"

definition rat_sub :: "Rat \<Rightarrow> Rat \<Rightarrow> Rat" where
  "rat_sub a b = rat_add a (rat_neg b)"

definition rat_mul :: "Rat \<Rightarrow> Rat \<Rightarrow> Rat" where
  "rat_mul a b =
     (if r_ovf a \<or> r_ovf b \<or> r_den a = 0 \<or> r_den b = 0 then rat_bad
      else
        let n = r_num a * r_num b; d = r_den a * r_den b
        in if n > INT64_MAX \<or> n < INT64_MIN \<or> d > INT64_MAX then rat_bad else rat_mk n d)"

definition rat_cmp :: "Rat \<Rightarrow> Rat \<Rightarrow> int" where
  "rat_cmp a b =
     (if r_ovf a \<or> r_ovf b \<or> r_den a = 0 \<or> r_den b = 0 then 0
      else
        let l = r_num a * r_den b; r = r_num b * r_den a
        in if l < r then -1 else if l > r then 1 else 0)"

definition rat_is_neg :: "Rat \<Rightarrow> bool" where
  "rat_is_neg a \<longleftrightarrow> r_num a < 0"

section \<open>Linear forms\<close>

record Lin =
  lin_c :: Rat
  lin_terms :: "(string \<times> Rat) list"
  lin_ovf :: bool

definition lin_init :: Lin where
  "lin_init = \<lparr>lin_c = rat_zero, lin_terms = [], lin_ovf = False\<rparr>"

definition lin_bad :: Lin where
  "lin_bad = lin_init\<lparr>lin_ovf := True\<rparr>"

fun term_index :: "(string \<times> Rat) list \<Rightarrow> string \<Rightarrow> nat option" where
  "term_index [] v = None"
| "term_index ((w, k) # ts) v = (if w = v then Some 0 else map_option Suc (term_index ts v))"

text \<open>A removed term is overwritten by the last one.\<close>

definition term_remove :: "nat \<Rightarrow> (string \<times> Rat) list \<Rightarrow> (string \<times> Rat) list" where
  "term_remove i ts = butlast (ts[i := last ts])"

definition lin_push_raw :: "Lin \<Rightarrow> string \<Rightarrow> Rat \<Rightarrow> Lin" where
  "lin_push_raw l v k =
     (if r_ovf k then l\<lparr>lin_ovf := True\<rparr>
      else if r_num k = 0 then l
      else
        (case term_index (lin_terms l) v of
           None \<Rightarrow> l\<lparr>lin_terms := lin_terms l @ [(v, k)]\<rparr>
         | Some i \<Rightarrow>
             let s = rat_add (snd (lin_terms l ! i)) k;
                 ts = (lin_terms l)[i := (v, s)];
                 l1 = l\<lparr>lin_ovf := (lin_ovf l \<or> r_ovf s)\<rparr>
             in if r_num s = 0 then l1\<lparr>lin_terms := term_remove i ts\<rparr>
                else l1\<lparr>lin_terms := ts\<rparr>))"

definition lin_const :: "Rat \<Rightarrow> Lin" where
  "lin_const c = lin_init\<lparr>lin_c := c, lin_ovf := r_ovf c\<rparr>"

definition lin_var :: "string \<Rightarrow> Lin" where
  "lin_var v = lin_push_raw lin_init v (rat_int 1)"

text \<open>The loops that push the terms of a form, each through \<open>f\<close>.\<close>

definition push_terms :: "(Rat \<Rightarrow> Rat) \<Rightarrow> (string \<times> Rat) list \<Rightarrow> Lin \<Rightarrow> Lin" where
  "push_terms f ts r = fold (\<lambda>(v, k) l. lin_push_raw l v (f k)) ts r"

definition lin_add :: "Lin \<Rightarrow> Lin \<Rightarrow> Lin" where
  "lin_add a b =
     (if lin_ovf a \<or> lin_ovf b \<or> r_ovf (lin_c a) \<or> r_ovf (lin_c b) then lin_bad
      else
        let c = rat_add (lin_c a) (lin_c b); r = lin_init\<lparr>lin_c := c\<rparr> in
        if r_ovf c then r\<lparr>lin_ovf := True\<rparr>
        else push_terms (\<lambda>k. k) (lin_terms b) (push_terms (\<lambda>k. k) (lin_terms a) r))"

definition lin_sub :: "Lin \<Rightarrow> Lin \<Rightarrow> Lin" where
  "lin_sub a b =
     (if lin_ovf a \<or> lin_ovf b \<or> r_ovf (lin_c a) \<or> r_ovf (lin_c b) then lin_bad
      else
        let c = rat_sub (lin_c a) (lin_c b); r = lin_init\<lparr>lin_c := c\<rparr> in
        if r_ovf c then r\<lparr>lin_ovf := True\<rparr>
        else push_terms rat_neg (lin_terms b) (push_terms (\<lambda>k. k) (lin_terms a) r))"

definition lin_scale :: "Lin \<Rightarrow> Rat \<Rightarrow> Lin" where
  "lin_scale a k =
     (if lin_ovf a \<or> r_ovf k \<or> r_ovf (lin_c a) then lin_bad
      else
        let c = rat_mul (lin_c a) k; r = lin_init\<lparr>lin_c := c\<rparr> in
        if r_ovf c then r\<lparr>lin_ovf := True\<rparr>
        else push_terms (\<lambda>q. rat_mul q k) (lin_terms a) r)"

definition lin_neg :: "Lin \<Rightarrow> Lin" where
  "lin_neg a = lin_scale a (rat_int (-1))"

definition lin_is_const :: "Lin \<Rightarrow> bool" where
  "lin_is_const a \<longleftrightarrow> lin_terms a = []"

definition lin_coeff :: "Lin \<Rightarrow> string \<Rightarrow> Rat" where
  "lin_coeff l v =
     (case term_index (lin_terms l) v of None \<Rightarrow> rat_zero | Some i \<Rightarrow> snd (lin_terms l ! i))"

definition lin_clone :: "Lin \<Rightarrow> Lin" where
  "lin_clone a =
     push_terms (\<lambda>k. k) (lin_terms a) (lin_init\<lparr>lin_c := lin_c a, lin_ovf := lin_ovf a\<rparr>)"

definition lin_handle_var :: "Lin \<Rightarrow> string option" where
  "lin_handle_var l =
     (case lin_terms l of
        [(v, k)] \<Rightarrow> if r_num (lin_c l) \<noteq> 0 \<or> r_num k \<noteq> r_den k then None else Some v
      | _ \<Rightarrow> None)"

section \<open>Constraints\<close>

datatype cop = C_LT | C_LE

record Cons =
  c_lhs :: Lin
  c_op :: cop
  c_rhs :: Rat

definition mk_cons :: "Lin \<Rightarrow> cop \<Rightarrow> Rat \<Rightarrow> Cons" where
  "mk_cons l p r = \<lparr>c_lhs = l, c_op = p, c_rhs = r\<rparr>"

definition cons_clone :: "Cons \<Rightarrow> Cons" where
  "cons_clone c = mk_cons (lin_clone (c_lhs c)) (c_op c) (c_rhs c)"

definition cons_contradictory :: "Cons \<Rightarrow> bool" where
  "cons_contradictory c =
     (if \<not> lin_is_const (c_lhs c) then False
      else
        let s = rat_cmp (lin_c (c_lhs c)) (c_rhs c)
        in if c_op c = C_LT then \<not> s < 0 else \<not> s \<le> 0)"

section \<open>Fourier--Motzkin\<close>

record bound =
  b_rest :: Lin
  b_bound :: Rat
  b_strict :: bool
  b_lower :: bool

definition split_on :: "Cons \<Rightarrow> string \<Rightarrow> bound option" where
  "split_on c v =
     (let a = lin_coeff (c_lhs c) v in
      if r_num a = 0 then None
      else
        let rest = push_terms (\<lambda>k. k) (filter (\<lambda>(w, k). w \<noteq> v) (lin_terms (c_lhs c)))
              (lin_init\<lparr>lin_c := lin_c (c_lhs c), lin_ovf := lin_ovf (c_lhs c)\<rparr>);
            numer = lin_add (lin_neg rest) (lin_init\<lparr>lin_c := c_rhs c\<rparr>);
            inv = rat_mk (r_den a) (r_num a)
        in Some \<lparr>b_rest = lin_scale numer inv, b_bound = rat_zero,
                 b_strict = (c_op c = C_LT), b_lower = rat_is_neg a\<rparr>)"

definition combine :: "bound \<Rightarrow> bound \<Rightarrow> Cons" where
  "combine lo up =
     mk_cons (lin_sub (b_rest lo) (b_rest up))
       (if b_strict lo \<or> b_strict up then C_LT else C_LE) rat_zero"

definition cons_overflowed :: "Cons \<Rightarrow> bool" where
  "cons_overflowed c \<longleftrightarrow>
     lin_ovf (c_lhs c) \<or> r_ovf (lin_c (c_lhs c)) \<or> r_ovf (c_rhs c) \<or>
     (\<exists>t \<in> set (lin_terms (c_lhs c)). r_ovf (snd t))"

text \<open>The tightening of a strict inequality between integers.\<close>

definition tighten :: "Cons \<Rightarrow> Cons" where
  "tighten c =
     (if c_op c \<noteq> C_LT \<or> lin_ovf (c_lhs c) \<or> r_den (lin_c (c_lhs c)) \<noteq> 1 \<or> r_den (c_rhs c) \<noteq> 1
      then c
      else if \<not> (\<forall>t \<in> set (lin_terms (c_lhs c)). r_den (snd t) = 1) then c
      else c\<lparr>c_op := C_LE, c_rhs := rat_sub (c_rhs c) (rat_int 1)\<rparr>)"

text \<open>The variables in the order of their first occurrence.\<close>

definition add_names :: "string list \<Rightarrow> (string \<times> Rat) list \<Rightarrow> string list" where
  "add_names vs ts = fold (\<lambda>(v, k) xs. if v \<in> set xs then xs else xs @ [v]) ts vs"

definition cons_vars :: "string list \<Rightarrow> Cons list \<Rightarrow> string list" where
  "cons_vars vs sys = fold (\<lambda>c xs. add_names xs (lin_terms (c_lhs c))) sys vs"

definition neutral_cons :: "string \<Rightarrow> Cons list \<Rightarrow> Cons list" where
  "neutral_cons v sys = map (cons_clone \<circ> cons_clone) (filter (\<lambda>c. split_on c v = None) sys)"

definition bounds_of :: "bool \<Rightarrow> string \<Rightarrow> Cons list \<Rightarrow> bound list" where
  "bounds_of lower v sys =
     filter (\<lambda>b. b_lower b = lower) (List.map_filter (\<lambda>c. split_on c v) sys)"

text \<open>The pairs of a lower and an upper bound; \<open>None\<close> when one is contradictory.\<close>

fun combine_pairs :: "(bound \<times> bound) list \<Rightarrow> Cons list \<Rightarrow> Cons list option" where
  "combine_pairs [] acc = Some acc"
| "combine_pairs ((lo, up) # ps) acc =
     (if cons_contradictory (combine lo up) then None
      else combine_pairs ps (acc @ [combine lo up]))"

definition bound_pairs :: "string \<Rightarrow> Cons list \<Rightarrow> (bound \<times> bound) list" where
  "bound_pairs v sys = List.product (bounds_of True v sys) (bounds_of False v sys)"

definition fm_round :: "string \<Rightarrow> Cons list \<Rightarrow> Cons list option" where
  "fm_round v sys = combine_pairs (bound_pairs v sys) (neutral_cons v sys)"

fun fm_loop :: "string list \<Rightarrow> Cons list \<Rightarrow> bool" where
  "fm_loop [] sys = list_all (\<lambda>c. \<not> cons_contradictory c) sys"
| "fm_loop (v # vs) sys =
     (case fm_round v sys of None \<Rightarrow> False | Some sys' \<Rightarrow> fm_loop vs sys')"

text \<open>\<open>True\<close> is the answer SAT, which includes \<open>cannot decide\<close>.\<close>

definition fm_sat :: "Cons list \<Rightarrow> bool" where
  "fm_sat sys0 =
     (if list_ex cons_overflowed sys0 then True
      else
        let sys = map tighten sys0 in
        if list_ex cons_contradictory sys then False
        else fm_loop (cons_vars [] sys) sys)"

end
