(* ===== verification/LinearSem.thy ===== *)
theory LinearSem
  imports Complex_Main Linear "HOL-Library.Multiset"
begin

text \<open>
  The values of rationals, linear forms and constraints: every operation either
  raises the overflow flag or returns a reduced, in-range result with the exact
  value. \<open>rat_res\<close> and \<open>lin_res\<close> state that once for all operations.
\<close>

section \<open>Rationals\<close>

definition rat_val :: "Rat \<Rightarrow> rat" where
  "rat_val r = of_int (r_num r) / of_int (r_den r)"

definition rat_ok :: "Rat \<Rightarrow> bool" where
  "rat_ok r \<longleftrightarrow> \<not> r_ovf r \<and> 0 < r_den r \<and> r_den r \<le> INT64_MAX \<and> in_i64 (r_num r) \<and>
     coprime (r_num r) (r_den r)"

definition rat_res :: "Rat \<Rightarrow> rat \<Rightarrow> bool" where
  "rat_res r x \<longleftrightarrow> r = rat_bad \<or> rat_ok r \<and> rat_val r = x"

lemma rat_resE:
  "rat_res r x \<Longrightarrow> (r_ovf r \<Longrightarrow> r_num r = 0 \<Longrightarrow> P) \<Longrightarrow> (rat_ok r \<Longrightarrow> rat_val r = x \<Longrightarrow> P) \<Longrightarrow> P"
  by (auto simp: rat_res_def rat_bad_def)

lemma rat_bad_res [simp]: "rat_res rat_bad x"
  by (simp add: rat_res_def)

lemma rat_ok_res: "rat_ok r \<Longrightarrow> rat_res r (rat_val r)"
  by (simp add: rat_res_def)

lemma rat_res_ok: "rat_res r x \<Longrightarrow> \<not> r_ovf r \<Longrightarrow> rat_ok r \<and> rat_val r = x"
  by (auto simp: rat_res_def rat_bad_def)

lemma rat_okD: "rat_ok r \<Longrightarrow> \<not> r_ovf r \<and> 0 < r_den r \<and> r_den r \<noteq> 0"
  by (auto simp: rat_ok_def)

lemma euclid_gcd: "0 \<le> x \<Longrightarrow> 0 \<le> y \<Longrightarrow> euclid x y = gcd x y"
proof (induction x y rule: euclid.induct)
  case (1 x y)
  show ?case
  proof (cases "y = 0")
    case True
    then show ?thesis using 1(2) by (subst euclid.simps) simp
  next
    case False
    have "x smod y = x mod y" using 1(2,3) by (auto simp: smod_int_alt_def sgn_if)
    moreover have "0 \<le> x mod y" using 1(3) False by simp
    ultimately show ?thesis
      using 1 False by (subst euclid.simps) (simp add: gcd_red_int [symmetric] gcd.commute)
  qed
qed

lemma v_gcd_eq: "0 < b \<Longrightarrow> b \<le> INT64_MAX \<Longrightarrow> v_gcd a b = gcd a b"
proof -
  assume b: "0 < b" "b \<le> INT64_MAX"
  have g: "gcd a b \<le> b" "0 < gcd a b" using b gcd_le2_int [of b a] by auto
  have "0 \<le> gcd a b + 9223372036854775808" "gcd a b + 9223372036854775808 < 18446744073709551616"
    using g b unfolding INT64_MAX_def by linarith+
  then have "to_i64 (gcd a b) = gcd a b" by (simp add: to_i64_def)
  with g show ?thesis by (simp add: v_gcd_def Let_def euclid_gcd)
qed

lemma sdiv_exact: "0 < (g :: int) \<Longrightarrow> g dvd n \<Longrightarrow> n sdiv g = n div g"
  by (simp add: signed_divide_int_eq_divide_int)

lemma rat_reduce_res:
  assumes n: "in_i64 n" and d: "0 < d" "d \<le> INT64_MAX"
  shows "rat_ok (rat_reduce n d) \<and> rat_val (rat_reduce n d) = of_int n / of_int d"
proof -
  let ?g = "gcd n d"
  have g: "0 < ?g" "?g dvd n" "?g dvd d" using d by auto
  obtain a b where ab: "n = a * ?g" "d = b * ?g" "coprime a b"
    using gcd_coprime_exists [of n d] g by (metis less_irrefl)
  have e: "n sdiv ?g = a" "d sdiv ?g = b"
    using g ab(1,2) by (simp_all add: sdiv_exact) (metis g(1) less_irrefl nonzero_mult_div_cancel_right)+
  have b: "0 < b" using ab(2) d(1) g(1) by (metis zero_less_mult_pos2)
  have "\<bar>a\<bar> \<le> \<bar>n\<bar>" "b \<le> d"
    using ab(1,2) g(1) b by (metis abs_mult abs_of_pos mult_le_cancel_left1 abs_ge_zero int_one_le_iff_zero_less
        order_trans linorder_not_less mult.commute, metis b int_one_le_iff_zero_less mult_le_cancel_left1
        order_less_imp_not_less)
  moreover have "n < 0 \<longleftrightarrow> a < 0" using ab(1) g(1) by (metis mult_less_0_iff not_less_iff_gr_or_eq)
  ultimately have "in_i64 a" "b \<le> INT64_MAX"
    using n d by (auto simp: in_i64_def INT64_MIN_def INT64_MAX_def abs_if split: if_splits)
  moreover have "(of_int a :: rat) / of_int b = of_int n / of_int d"
  proof -
    have "(of_int n :: rat) = of_int a * of_int ?g" "(of_int d :: rat) = of_int b * of_int ?g"
      using ab(1,2) by (metis of_int_mult)+
    then show ?thesis using g(1) by simp
  qed
  ultimately show ?thesis
    using e ab(3) b v_gcd_eq [OF d, of n] by (simp add: rat_reduce_def Let_def rat_ok_def rat_val_def)
qed

lemma rat_mk_res:
  assumes "in_i64 n" "in_i64 d" "d \<noteq> 0"
  shows "rat_res (rat_mk n d) (of_int n / of_int d)"
proof (cases "d < 0")
  case True
  show ?thesis
  proof (cases "n = INT64_MIN \<or> d = INT64_MIN")
    case False
    then have "in_i64 (- n)" "0 < - d" "- d \<le> INT64_MAX"
      using assms True by (auto simp: in_i64_def INT64_MIN_def INT64_MAX_def)
    from rat_reduce_res [OF this] True False show ?thesis by (simp add: rat_mk_def rat_res_def)
  qed (use True in \<open>simp add: rat_mk_def\<close>)
next
  case False
  then have "0 < d" "d \<le> INT64_MAX" using assms by (auto simp: in_i64_def)
  from rat_reduce_res [OF assms(1) this] False assms(3) show ?thesis by (simp add: rat_mk_def rat_res_def)
qed

lemma rat_int_ok: "in_i64 n \<Longrightarrow> rat_ok (rat_int n)"
  by (simp add: rat_ok_def rat_int_def INT64_MAX_def)

lemma rat_int_val [lin_simps]: "rat_val (rat_int n) = of_int n"
  by (simp add: rat_val_def rat_int_def)

lemma rat_int_simps [simp]: "r_num (rat_int n) = n" "r_den (rat_int n) = 1" "\<not> r_ovf (rat_int n)"
  by (simp_all add: rat_int_def)

lemma rat_zero_ok: "rat_ok rat_zero" and rat_zero_val [lin_simps]: "rat_val rat_zero = 0"
  by (simp_all add: rat_zero_def rat_int_ok rat_int_val in_i64_def INT64_MIN_def INT64_MAX_def)

lemma rat_neg_res: "rat_ok a \<Longrightarrow> rat_res (rat_neg a) (- rat_val a)"
  by (auto simp: rat_neg_def rat_res_def rat_ok_def rat_val_def in_i64_def INT64_MIN_def INT64_MAX_def)

lemma in_range: "\<not> (n > INT64_MAX \<or> n < INT64_MIN) \<Longrightarrow> in_i64 n"
  by (auto simp: in_i64_def)

lemma rat_add_res:
  assumes a: "rat_ok a" and b: "rat_ok b"
  shows "rat_res (rat_add a b) (rat_val a + rat_val b)"
proof -
  let ?g = "gcd (r_den a) (r_den b)"
  let ?l1 = "r_den a sdiv ?g" and ?l2 = "r_den b sdiv ?g"
  let ?n = "r_num a * ?l2 + r_num b * ?l1" and ?d = "r_den a * ?l2"
  have p: "0 < r_den a" "0 < r_den b" "r_den b \<le> INT64_MAX" using a b by (simp_all add: rat_ok_def)
  have g: "0 < ?g" "?g dvd r_den a" "?g dvd r_den b" using p by auto
  have l: "?l1 * ?g = r_den a" "?l2 * ?g = r_den b" using g by (simp_all add: sdiv_exact)
  then have l2: "0 < ?l2" "?l1 \<noteq> 0" using p g(1) by (metis zero_less_mult_pos2, force)
  have eq: "rat_add a b = (if ?n > INT64_MAX \<or> ?n < INT64_MIN \<or> ?d > INT64_MAX then rat_bad else rat_mk ?n ?d)"
    using a b p by (simp add: rat_add_def Let_def rat_ok_def v_gcd_eq)
  show ?thesis
  proof (cases "?n > INT64_MAX \<or> ?n < INT64_MIN \<or> ?d > INT64_MAX")
    case True
    then show ?thesis by (simp add: eq)
  next
    case False
    have dpos: "0 < ?d" using p(1) l2 by simp
    then have "in_i64 ?n" "in_i64 ?d" using False by (auto simp: in_i64_def INT64_MIN_def)
    note r = rat_mk_res [OF this]
    let ?q = "of_int :: int \<Rightarrow> rat"
    have "?q ?n / ?q ?d = rat_val a + rat_val b"
    proof -
      have "?q (r_den b) = ?q ?l2 * ?q ?g" "?q (r_den a) = ?q ?l1 * ?q ?g" using l by (metis of_int_mult)+
      then have "?q (r_num b) / ?q (r_den b) = ?q (r_num b * ?l1) / ?q ?d"
        using g(1) l2 p by (simp add: field_simps)
      moreover have "?q (r_num a) / ?q (r_den a) = ?q (r_num a * ?l2) / ?q ?d" using l2 p by simp
      ultimately show ?thesis by (simp add: rat_val_def add_divide_distrib)
    qed
    with r dpos have "rat_res (rat_mk ?n ?d) (rat_val a + rat_val b)" by (metis less_irrefl)
    with False show ?thesis by (simp only: eq if_False)
  qed
qed

lemma rat_sub_res: "rat_ok a \<Longrightarrow> rat_ok b \<Longrightarrow> rat_res (rat_sub a b) (rat_val a - rat_val b)"
  using rat_neg_res [of b] rat_add_res [of a "rat_neg b"]
  by (auto simp: rat_sub_def rat_res_def rat_add_def rat_bad_def)

lemma rat_mul_res:
  assumes a: "rat_ok a" and b: "rat_ok b"
  shows "rat_res (rat_mul a b) (rat_val a * rat_val b)"
proof -
  let ?n = "r_num a * r_num b" and ?d = "r_den a * r_den b"
  have p: "0 < ?d" using a b by (simp add: rat_ok_def)
  show ?thesis
  proof (cases "?n > INT64_MAX \<or> ?n < INT64_MIN \<or> ?d > INT64_MAX")
    case False
    then have "in_i64 ?n" "in_i64 ?d" using p by (auto simp: in_i64_def INT64_MIN_def)
    from rat_mk_res [OF this] p False a b show ?thesis
      by (auto simp: rat_mul_def Let_def rat_ok_def rat_val_def)
  qed (use a b in \<open>auto simp: rat_mul_def Let_def\<close>)
qed

lemma rat_cmp_spec:
  assumes "rat_ok a" "rat_ok b"
  shows "(rat_cmp a b < 0 \<longleftrightarrow> rat_val a < rat_val b) \<and> (rat_cmp a b \<le> 0 \<longleftrightarrow> rat_val a \<le> rat_val b)"
proof -
  have p: "0 < r_den a" "0 < r_den b" using assms by (simp_all add: rat_ok_def)
  let ?q = "of_int :: int \<Rightarrow> rat"
  have "rat_val a < rat_val b \<longleftrightarrow> ?q (r_num a) * ?q (r_den b) < ?q (r_num b) * ?q (r_den a)"
    "rat_val a \<le> rat_val b \<longleftrightarrow> ?q (r_num a) * ?q (r_den b) \<le> ?q (r_num b) * ?q (r_den a)"
    using p by (simp_all add: rat_val_def divide_less_eq less_divide_eq divide_le_eq le_divide_eq mult.commute
        field_simps)
  then have "rat_val a < rat_val b \<longleftrightarrow> r_num a * r_den b < r_num b * r_den a"
    "rat_val a \<le> rat_val b \<longleftrightarrow> r_num a * r_den b \<le> r_num b * r_den a"
    by (metis of_int_less_iff of_int_mult, metis of_int_le_iff of_int_mult)
  with assms show ?thesis by (auto simp: rat_cmp_def Let_def rat_ok_def)
qed

lemma rat_num_sign:
  assumes "rat_ok a"
  shows "(r_num a < 0 \<longleftrightarrow> rat_val a < 0)" "(r_num a = 0 \<longleftrightarrow> rat_val a = 0)"
  using assms by (auto simp: rat_ok_def rat_val_def divide_less_0_iff)

section \<open>Linear forms\<close>

definition terms_val :: "(string \<Rightarrow> rat) \<Rightarrow> (string \<times> Rat) list \<Rightarrow> rat" where
  "terms_val \<nu> ts = sum_list (map (\<lambda>(v, k). rat_val k * \<nu> v) ts)"

definition lin_val :: "(string \<Rightarrow> rat) \<Rightarrow> Lin \<Rightarrow> rat" where
  "lin_val \<nu> l = rat_val (lin_c l) + terms_val \<nu> (lin_terms l)"

definition terms_ok :: "(string \<times> Rat) list \<Rightarrow> bool" where
  "terms_ok ts \<longleftrightarrow> distinct (map fst ts) \<and> (\<forall>t \<in> set ts. rat_ok (snd t) \<and> r_num (snd t) \<noteq> 0)"

definition lin_ok :: "Lin \<Rightarrow> bool" where
  "lin_ok l \<longleftrightarrow> \<not> lin_ovf l \<and> rat_ok (lin_c l) \<and> terms_ok (lin_terms l)"

text \<open>The result of an operation with exact value \<open>f\<close>.\<close>

definition lin_res :: "Lin \<Rightarrow> ((string \<Rightarrow> rat) \<Rightarrow> rat) \<Rightarrow> bool" where
  "lin_res l f \<longleftrightarrow> lin_ovf l \<or> lin_ok l \<and> (\<forall>\<nu>. lin_val \<nu> l = f \<nu>)"

lemma lin_res_ok: "lin_res l f \<Longrightarrow> \<not> lin_ovf l \<Longrightarrow> lin_ok l \<and> lin_val \<nu> l = f \<nu>"
  by (simp add: lin_res_def)

lemma lin_ok_res: "lin_ok l \<Longrightarrow> lin_res l (\<lambda>\<nu>. lin_val \<nu> l)"
  by (simp add: lin_res_def)

lemma lin_res_cong: "lin_res l f \<Longrightarrow> (\<And>\<nu>. f \<nu> = g \<nu>) \<Longrightarrow> lin_res l g"
  by (simp add: lin_res_def)

lemma terms_val_simps [lin_simps]:
  "terms_val \<nu> [] = 0" "terms_val \<nu> ((v, k) # ts) = rat_val k * \<nu> v + terms_val \<nu> ts"
  "terms_val \<nu> (ts @ us) = terms_val \<nu> ts + terms_val \<nu> us"
  by (simp_all add: terms_val_def)

lemma terms_val_mset: "mset ts = mset us \<Longrightarrow> terms_val \<nu> ts = terms_val \<nu> us"
proof -
  assume m: "mset ts = mset us"
  let ?f = "\<lambda>(v, k). rat_val k * \<nu> v"
  have "sum_list (map ?f xs) = sum_mset (image_mset ?f (mset xs))" for xs :: "(string \<times> Rat) list"
    by (simp add: sum_mset_sum_list flip: mset_map)
  then show ?thesis using m by (simp only: terms_val_def)
qed

lemma terms_ok_mset: "mset ts = mset us \<Longrightarrow> terms_ok ts \<longleftrightarrow> terms_ok us"
  unfolding terms_ok_def by (metis mset_eq_imp_distinct_iff mset_eq_setD mset_map)

lemma term_index_None: "term_index ts v = None \<longleftrightarrow> v \<notin> fst ` set ts"
  by (induction ts v rule: term_index.induct) auto

lemma term_index_Some:
  "term_index ts v = Some i \<Longrightarrow> i < length ts \<and> fst (ts ! i) = v \<and> (v, snd (ts ! i)) \<in> set ts"
proof (induction ts v arbitrary: i rule: term_index.induct)
  case (2 w k ts v)
  then show ?case by (auto split: if_splits)
qed simp

lemma mset_term_remove: "i < length ts \<Longrightarrow> mset (ts ! i # term_remove i ts) = mset ts"
proof -
  assume i: "i < length ts"
  let ?us = "ts[i := last ts]"
  have ne: "?us \<noteq> []" "ts \<noteq> []" using i by auto
  have l: "last ?us = last ts" using ne i by (simp add: last_conv_nth nth_list_update)
  have "mset ?us = add_mset (last ts) (mset (butlast ?us))"
    using ne l by (metis append_butlast_last_id mset_append mset.simps add.commute add_mset_add_single)
  moreover have "mset ?us = add_mset (last ts) (mset ts - {#ts ! i#})" using i by (rule mset_update)
  ultimately have "mset (term_remove i ts) = mset ts - {#ts ! i#}" by (simp add: term_remove_def)
  then show ?thesis using i by simp
qed

lemma mset_update_split: "i < length ts \<Longrightarrow> mset (ts ! i # ts[i := x]) = mset (x # ts)"
  using mset_update [of i ts x] by simp

lemma terms_val_update:
  "i < length ts \<Longrightarrow> ts ! i = (v, k) \<Longrightarrow>
   terms_val \<nu> (ts[i := (v, k')]) = terms_val \<nu> ts + (rat_val k' - rat_val k) * \<nu> v"
  using terms_val_mset [OF mset_update_split [of i ts "(v, k')"], of \<nu>]
  by (simp add: lin_simps algebra_simps)

lemma terms_val_remove:
  "i < length ts \<Longrightarrow> ts ! i = (v, k) \<Longrightarrow>
   terms_val \<nu> (term_remove i ts) = terms_val \<nu> ts - rat_val k * \<nu> v"
  using terms_val_mset [OF mset_term_remove [of i ts], of \<nu>] by (simp add: lin_simps algebra_simps)

lemma terms_ok_Cons: "terms_ok (t # ts) \<Longrightarrow> terms_ok ts"
  by (auto simp: terms_ok_def)

lemma terms_ok_update:
  assumes "terms_ok ts" "i < length ts" "fst (ts ! i) = v" "rat_ok k" "r_num k \<noteq> 0"
  shows "terms_ok (ts[i := (v, k)])"
proof -
  have "map fst (ts[i := (v, k)]) = map fst ts" using assms(2,3) by (simp add: map_update list_update_same_conv)
  with assms show ?thesis using set_update_subset_insert [of ts i "(v, k)"] by (auto simp: terms_ok_def)
qed

lemma lin_push_raw_res:
  assumes l: "lin_res l f" and k: "rat_res k x"
  shows "lin_res (lin_push_raw l v k) (\<lambda>\<nu>. f \<nu> + x * \<nu> v)"
proof (cases "r_ovf k \<or> lin_ovf l")
  case True
  then show ?thesis by (auto simp: lin_push_raw_def lin_res_def Let_def split: option.split)
next
  case False
  then have k: "rat_ok k" "rat_val k = x" using rat_res_ok [OF k] by auto
  have l: "lin_ok l" "\<And>\<nu>. lin_val \<nu> l = f \<nu>" using l False by (auto simp: lin_res_def)
  show ?thesis
  proof (cases "r_num k = 0")
    case True
    then show ?thesis using l k False by (simp add: lin_push_raw_def lin_res_def rat_val_def)
  next
    case nz: False
    show ?thesis
    proof (cases "term_index (lin_terms l) v")
      case None
      then have "terms_ok (lin_terms l @ [(v, k)])"
        using l(1) k nz by (auto simp: lin_ok_def terms_ok_def term_index_None)
      with None nz False l k show ?thesis
        by (auto simp: lin_push_raw_def lin_res_def lin_ok_def lin_val_def lin_simps)
    next
      case (Some i)
      let ?ts = "lin_terms l" let ?q = "snd (?ts ! i)" let ?s = "rat_add ?q k"
      have i: "i < length ?ts" "?ts ! i = (v, ?q)" and qs: "(v, ?q) \<in> set ?ts"
        using term_index_Some [OF Some] by (auto simp: prod_eq_iff)
      have q: "rat_ok ?q" using l(1) qs by (force simp: lin_ok_def terms_ok_def)
      show ?thesis
      proof (cases "r_ovf ?s")
        case True
        with Some nz False show ?thesis by (simp add: lin_push_raw_def lin_res_def Let_def)
      next
        case noovf: False
        then have s: "rat_ok ?s" "rat_val ?s = rat_val ?q + x"
          using rat_res_ok [OF rat_add_res [OF q k(1)]] k(2) by auto
        have tok: "terms_ok ?ts" using l(1) by (simp add: lin_ok_def)
        let ?us = "?ts[i := (v, ?s)]"
        have us: "terms_val \<nu> ?us = terms_val \<nu> ?ts + x * \<nu> v" for \<nu>
          using terms_val_update [OF i, of \<nu> ?s] s(2) by (simp add: algebra_simps)
        show ?thesis
        proof (cases "r_num ?s = 0")
          case True
          have iu: "i < length ?us" "?us ! i = (v, ?s)" using i(1) by auto
          have "mset (term_remove i ?us) = mset (term_remove i ?ts)"
            using mset_term_remove [OF iu(1)] mset_term_remove [OF i(1)] iu(2) mset_update [OF i(1), of "(v, ?s)"]
            by (metis add_mset_remove_trivial mset.simps(2))
          moreover have "terms_ok (term_remove i ?ts)"
            using terms_ok_mset [OF mset_term_remove [OF i(1)]] tok terms_ok_Cons by blast
          ultimately have "terms_ok (term_remove i ?us)" using terms_ok_mset by blast
          moreover have "rat_val ?s = 0" using True rat_num_sign(2) [OF s(1)] by simp
          then have "terms_val \<nu> (term_remove i ?us) = terms_val \<nu> ?ts + x * \<nu> v" for \<nu>
            using terms_val_remove [OF iu, of \<nu>] us [of \<nu>] by simp
          ultimately show ?thesis
            using Some nz False noovf True l s
            by (auto simp: lin_push_raw_def lin_res_def Let_def lin_ok_def lin_val_def)
        next
          case False
          then have "terms_ok ?us" using terms_ok_update [OF tok i(1) _ s(1)] i(2) by (metis fst_conv)
          with False us Some nz \<open>\<not> (r_ovf k \<or> lin_ovf l)\<close> noovf l s show ?thesis
            by (auto simp: lin_push_raw_def lin_res_def Let_def lin_ok_def lin_val_def)
        qed
      qed
    qed
  qed
qed

lemma push_terms_res:
  "lin_res r f \<Longrightarrow> (\<And>v k. (v, k) \<in> set ts \<Longrightarrow> rat_res (g k) (h * rat_val k)) \<Longrightarrow>
   lin_res (push_terms g ts r) (\<lambda>\<nu>. f \<nu> + h * terms_val \<nu> ts)"
proof (induction ts arbitrary: r f)
  case Nil
  then show ?case by (simp add: push_terms_def lin_simps)
next
  case (Cons t ts)
  obtain v k where t: "t = (v, k)" by (cases t)
  have "lin_res (lin_push_raw r v (g k)) (\<lambda>\<nu>. f \<nu> + h * rat_val k * \<nu> v)"
    using Cons.prems t by (intro lin_push_raw_res) auto
  moreover have "rat_res (g q) (h * rat_val q)" if "(w, q) \<in> set ts" for w q
    using Cons.prems(2) [of w q] that by simp
  ultimately have "lin_res (push_terms g ts (lin_push_raw r v (g k)))
      (\<lambda>\<nu>. f \<nu> + h * rat_val k * \<nu> v + h * terms_val \<nu> ts)"
    by (rule Cons.IH)
  with t show ?case by (simp add: push_terms_def lin_simps algebra_simps)
qed

lemma push_terms_id_res:
  "lin_res r f \<Longrightarrow> terms_ok ts \<Longrightarrow> lin_res (push_terms (\<lambda>k. k) ts r) (\<lambda>\<nu>. f \<nu> + terms_val \<nu> ts)"
  using push_terms_res [of r f ts "\<lambda>k. k" 1] by (force simp: terms_ok_def rat_ok_res)

lemma lin_start_res: "rat_ok c \<Longrightarrow> lin_res (lin_init\<lparr>lin_c := c\<rparr>) (\<lambda>\<nu>. rat_val c)"
  by (simp add: lin_res_def lin_ok_def lin_init_def terms_ok_def lin_val_def lin_simps)

lemma lin_bad_res [simp]: "lin_res lin_bad f"
  by (simp add: lin_res_def lin_bad_def)

lemma lin_res_case:
  "lin_res l f \<Longrightarrow> (lin_ovf l \<Longrightarrow> P) \<Longrightarrow> (lin_ok l \<Longrightarrow> \<not> lin_ovf l \<Longrightarrow> \<not> r_ovf (lin_c l) \<Longrightarrow> (\<And>\<nu>. f \<nu> = lin_val \<nu> l) \<Longrightarrow> P) \<Longrightarrow> P"
  by (auto simp: lin_res_def lin_ok_def rat_ok_def)

lemma lin_okD: "lin_ok l \<Longrightarrow> rat_ok (lin_c l) \<and> terms_ok (lin_terms l) \<and> \<not> lin_ovf l \<and> \<not> r_ovf (lin_c l)"
  by (simp add: lin_ok_def rat_ok_def)

lemma lin_add_res:
  assumes "lin_res a f" "lin_res b g"
  shows "lin_res (lin_add a b) (\<lambda>\<nu>. f \<nu> + g \<nu>)"
proof (cases "lin_ovf a \<or> lin_ovf b \<or> r_ovf (rat_add (lin_c a) (lin_c b))")
  case True
  then show ?thesis by (auto simp: lin_add_def lin_res_def lin_bad_def Let_def)
next
  case False
  then have ok: "lin_ok a" "lin_ok b" "\<And>\<nu>. f \<nu> = lin_val \<nu> a" "\<And>\<nu>. g \<nu> = lin_val \<nu> b"
    using assms by (auto simp: lin_res_def)
  let ?c = "rat_add (lin_c a) (lin_c b)"
  have c: "rat_ok ?c" "rat_val ?c = rat_val (lin_c a) + rat_val (lin_c b)"
    using rat_res_ok [OF rat_add_res] False lin_okD [OF ok(1)] lin_okD [OF ok(2)] by auto
  have "lin_res (push_terms (\<lambda>k. k) (lin_terms b) (push_terms (\<lambda>k. k) (lin_terms a) (lin_init\<lparr>lin_c := ?c\<rparr>)))
      (\<lambda>\<nu>. rat_val ?c + terms_val \<nu> (lin_terms a) + terms_val \<nu> (lin_terms b))"
    using lin_okD [OF ok(1)] lin_okD [OF ok(2)] lin_start_res [OF c(1)] by (intro push_terms_id_res) auto
  then show ?thesis
    using False ok lin_okD [OF ok(1)] lin_okD [OF ok(2)] c(2)
    by (auto simp: lin_add_def Let_def lin_val_def elim!: lin_res_cong)
qed

lemma lin_sub_res:
  assumes "lin_res a f" "lin_res b g"
  shows "lin_res (lin_sub a b) (\<lambda>\<nu>. f \<nu> - g \<nu>)"
proof (cases "lin_ovf a \<or> lin_ovf b \<or> r_ovf (rat_sub (lin_c a) (lin_c b))")
  case True
  then show ?thesis by (auto simp: lin_sub_def lin_res_def lin_bad_def Let_def)
next
  case False
  then have ok: "lin_ok a" "lin_ok b" "\<And>\<nu>. f \<nu> = lin_val \<nu> a" "\<And>\<nu>. g \<nu> = lin_val \<nu> b"
    using assms by (auto simp: lin_res_def)
  let ?c = "rat_sub (lin_c a) (lin_c b)"
  have c: "rat_ok ?c" "rat_val ?c = rat_val (lin_c a) - rat_val (lin_c b)"
    using rat_res_ok [OF rat_sub_res] False lin_okD [OF ok(1)] lin_okD [OF ok(2)] by auto
  have "lin_res (push_terms (\<lambda>k. k) (lin_terms a) (lin_init\<lparr>lin_c := ?c\<rparr>))
      (\<lambda>\<nu>. rat_val ?c + terms_val \<nu> (lin_terms a))"
    using lin_okD [OF ok(1)] lin_start_res [OF c(1)] by (intro push_terms_id_res) auto
  then have "lin_res (push_terms rat_neg (lin_terms b) (push_terms (\<lambda>k. k) (lin_terms a) (lin_init\<lparr>lin_c := ?c\<rparr>)))
      (\<lambda>\<nu>. (rat_val ?c + terms_val \<nu> (lin_terms a)) + (-1) * terms_val \<nu> (lin_terms b))"
    by (rule push_terms_res) (use lin_okD [OF ok(2)] rat_neg_res in \<open>force simp: terms_ok_def\<close>)
  then show ?thesis
    using False ok lin_okD [OF ok(1)] lin_okD [OF ok(2)] c(2)
    by (auto simp: lin_sub_def Let_def lin_val_def elim!: lin_res_cong)
qed

lemma lin_scale_res:
  assumes "lin_res a f" "rat_res k x"
  shows "lin_res (lin_scale a k) (\<lambda>\<nu>. f \<nu> * x)"
proof (cases "lin_ovf a \<or> r_ovf k \<or> r_ovf (rat_mul (lin_c a) k)")
  case True
  then show ?thesis by (auto simp: lin_scale_def lin_res_def lin_bad_def Let_def)
next
  case False
  then have ok: "lin_ok a" "\<And>\<nu>. f \<nu> = lin_val \<nu> a" "rat_ok k" "rat_val k = x"
    using assms rat_res_ok [OF assms(2)] by (auto simp: lin_res_def)
  let ?c = "rat_mul (lin_c a) k"
  have c: "rat_ok ?c" "rat_val ?c = rat_val (lin_c a) * x"
    using rat_res_ok [OF rat_mul_res] False lin_okD [OF ok(1)] ok by auto
  have "lin_res (push_terms (\<lambda>q. rat_mul q k) (lin_terms a) (lin_init\<lparr>lin_c := ?c\<rparr>))
      (\<lambda>\<nu>. rat_val ?c + x * terms_val \<nu> (lin_terms a))"
    by (rule push_terms_res [OF lin_start_res [OF c(1)]])
      (use lin_okD [OF ok(1)] rat_mul_res ok(3,4) in \<open>force simp: terms_ok_def mult.commute\<close>)
  then show ?thesis
    using False ok lin_okD [OF ok(1)] c(2)
    by (auto simp: lin_scale_def Let_def lin_val_def algebra_simps elim!: lin_res_cong)
qed

lemma lin_neg_res: "lin_res a f \<Longrightarrow> lin_res (lin_neg a) (\<lambda>\<nu>. - f \<nu>)"
  using lin_scale_res [of a f "rat_int (-1)" "-1"] rat_int_ok [of "-1"]
  by (simp add: lin_neg_def rat_res_def rat_int_val in_i64_def INT64_MIN_def INT64_MAX_def)

lemma lin_const_res: "rat_res c x \<Longrightarrow> lin_res (lin_const c) (\<lambda>\<nu>. x)"
  using lin_start_res [of c]
  by (auto simp: lin_const_def rat_res_def lin_res_def lin_ok_def lin_val_def lin_init_def rat_bad_def)

lemma lin_var_res: "lin_res (lin_var v) (\<lambda>\<nu>. \<nu> v)"
proof -
  have "rat_res (rat_int 1) 1"
    by (simp add: rat_res_def rat_int_val rat_int_ok in_i64_def INT64_MIN_def INT64_MAX_def)
  moreover have "lin_res lin_init (\<lambda>\<nu>. 0)"
    using lin_start_res [OF rat_zero_ok] by (simp add: lin_init_def lin_simps)
  ultimately have "lin_res (lin_var v) (\<lambda>\<nu>. 0 + 1 * \<nu> v)"
    unfolding lin_var_def by (intro lin_push_raw_res)
  then show ?thesis by simp
qed

text \<open>Cloning a well-formed form gives it back.\<close>

lemma push_terms_fresh:
  "terms_ok ts \<Longrightarrow> set (map fst ts) \<inter> set (map fst (lin_terms r)) = {} \<Longrightarrow>
   push_terms (\<lambda>k. k) ts r = r\<lparr>lin_terms := lin_terms r @ ts\<rparr>"
proof (induction ts arbitrary: r)
  case (Cons t ts)
  obtain v k where t: "t = (v, k)" by (cases t)
  have "term_index (lin_terms r) v = None" using Cons.prems t by (auto simp: term_index_None)
  then have "lin_push_raw r v k = r\<lparr>lin_terms := lin_terms r @ [(v, k)]\<rparr>"
    using Cons.prems t by (simp add: lin_push_raw_def terms_ok_def rat_ok_def)
  then show ?case
    using Cons.IH [of "r\<lparr>lin_terms := lin_terms r @ [(v, k)]\<rparr>"] Cons.prems t
    by (auto simp: push_terms_def terms_ok_def)
qed (simp add: push_terms_def)

lemma lin_clone_id: "terms_ok (lin_terms l) \<Longrightarrow> lin_clone l = l"
  by (simp add: lin_clone_def push_terms_fresh lin_init_def)

lemma lin_coeff_cases:
  assumes "terms_ok (lin_terms l)"
  shows "(r_num (lin_coeff l v) = 0 \<and> v \<notin> fst ` set (lin_terms l)) \<or>
    (v, lin_coeff l v) \<in> set (lin_terms l)"
  using assms term_index_Some [of "lin_terms l" v]
  by (auto simp: lin_coeff_def term_index_None rat_zero_def split: option.split)

lemma terms_val_filter:
  "distinct (map fst ts) \<Longrightarrow> (v, k) \<in> set ts \<Longrightarrow>
   terms_val \<nu> ts = rat_val k * \<nu> v + terms_val \<nu> (filter (\<lambda>(w, k). w \<noteq> v) ts)"
proof (induction ts)
  case (Cons t ts)
  show ?case
  proof (cases "t = (v, k)")
    case True
    then have "filter (\<lambda>(w, k). w \<noteq> v) ts = ts"
      using Cons.prems(1) by (force simp: filter_id_conv)
    with True show ?thesis by (simp add: lin_simps)
  next
    case False
    then have "(v, k) \<in> set ts" "fst t \<noteq> v" using Cons.prems by (auto simp: rev_image_eqI)
    with Cons show ?thesis by (cases t) (simp add: lin_simps)
  qed
qed simp

section \<open>Constraints\<close>

definition holds :: "(string \<Rightarrow> rat) \<Rightarrow> Cons \<Rightarrow> bool" where
  "holds \<nu> c \<longleftrightarrow>
     (case c_op c of
        C_LT \<Rightarrow> lin_val \<nu> (c_lhs c) < rat_val (c_rhs c)
      | C_LE \<Rightarrow> lin_val \<nu> (c_lhs c) \<le> rat_val (c_rhs c))"

definition cons_ok :: "Cons \<Rightarrow> bool" where
  "cons_ok c \<longleftrightarrow> lin_ok (c_lhs c) \<and> rat_ok (c_rhs c)"

definition all_hold :: "(string \<Rightarrow> rat) \<Rightarrow> Cons list \<Rightarrow> bool" where
  "all_hold \<nu> sys \<longleftrightarrow> (\<forall>c \<in> set sys. holds \<nu> c)"

lemma contradictory_iff:
  "cons_ok c \<Longrightarrow> lin_is_const (c_lhs c) \<Longrightarrow> cons_contradictory c \<longleftrightarrow> \<not> holds \<nu> c"
  using rat_cmp_spec [of "lin_c (c_lhs c)" "c_rhs c"]
  by (cases "c_op c")
    (auto simp: cons_contradictory_def Let_def cons_ok_def lin_ok_def holds_def lin_val_def lin_is_const_def lin_simps)

lemma contradictory_not_holds: "cons_ok c \<Longrightarrow> cons_contradictory c \<Longrightarrow> \<not> holds \<nu> c"
  using contradictory_iff [of c \<nu>] by (simp add: cons_contradictory_def split: if_splits)

lemma cons_clone_id: "cons_ok c \<Longrightarrow> cons_clone c = c"
  by (simp add: cons_clone_def mk_cons_def lin_clone_id cons_ok_def lin_ok_def)

lemma cons_ok_not_overflowed: "cons_ok c \<Longrightarrow> \<not> cons_overflowed c"
  by (auto simp: cons_ok_def cons_overflowed_def lin_ok_def terms_ok_def rat_ok_def)

end
