(* ===== verification/FmSound.thy ===== *)
theory FmSound
  imports LinearSem
begin

text \<open>
  The Fourier--Motzkin test against the rational solutions of its system. The
  code checks the overflow flag at entry only; \<open>fm_exact\<close> says that the rounds
  do not raise it, which is what its verdict needs.
\<close>

section \<open>Bounds\<close>

definition bound_holds :: "(string \<Rightarrow> rat) \<Rightarrow> string \<Rightarrow> bound \<Rightarrow> bool" where
  "bound_holds \<nu> v b \<longleftrightarrow>
     (let x = lin_val \<nu> (b_rest b) in
      if b_lower b then (if b_strict b then x < \<nu> v else x \<le> \<nu> v)
      else (if b_strict b then \<nu> v < x else \<nu> v \<le> x))"

lemma terms_ok_filter: "terms_ok ts \<Longrightarrow> terms_ok (filter P ts)"
  by (auto simp: terms_ok_def distinct_map_filter)

lemma split_on_None: "cons_ok c \<Longrightarrow> split_on c v = None \<longleftrightarrow> v \<notin> fst ` set (lin_terms (c_lhs c))"
  using lin_coeff_cases [of "c_lhs c" v]
  by (force simp: split_on_def Let_def cons_ok_def lin_ok_def terms_ok_def lin_coeff_def term_index_None
      rat_zero_def)

lemma split_on_Some:
  assumes c: "cons_ok c" and b: "split_on c v = Some b" and ovf: "\<not> lin_ovf (b_rest b)"
  shows "lin_ok (b_rest b) \<and> (holds \<nu> c \<longleftrightarrow> bound_holds \<nu> v b) \<and>
    lin_val (\<nu>(v := x)) (b_rest b) = lin_val \<nu> (b_rest b)"
proof -
  let ?l = "c_lhs c" let ?a = "lin_coeff ?l v" let ?fs = "filter (\<lambda>(w, k). w \<noteq> v) (lin_terms ?l)"
  let ?rest = "push_terms (\<lambda>k. k) ?fs (lin_init\<lparr>lin_c := lin_c ?l, lin_ovf := lin_ovf ?l\<rparr>)"
  let ?inv = "rat_mk (r_den ?a) (r_num ?a)"
  have l: "rat_ok (lin_c ?l)" "terms_ok (lin_terms ?l)" "\<not> lin_ovf ?l" "rat_ok (c_rhs c)"
    using c by (simp_all add: cons_ok_def lin_ok_def)
  have nz: "r_num ?a \<noteq> 0" using b by (auto simp: split_on_def Let_def split: if_splits)
  then have a: "(v, ?a) \<in> set (lin_terms ?l)" "rat_ok ?a"
    using lin_coeff_cases [OF l(2), of v] l(2) by (force simp: terms_ok_def)+
  have rest: "lin_res ?rest (\<lambda>\<nu>. rat_val (lin_c ?l) + terms_val \<nu> ?fs)"
    using push_terms_id_res [OF lin_start_res [OF l(1)] terms_ok_filter [OF l(2)]] l(3)
    by (simp add: lin_init_def)
  have rhs: "lin_res (lin_init\<lparr>lin_c := c_rhs c\<rparr>) (\<lambda>\<nu>. rat_val (c_rhs c))" by (rule lin_start_res [OF l(4)])
  have inv: "rat_res ?inv (1 / rat_val ?a)"
    using rat_mk_res [of "r_den ?a" "r_num ?a"] a(2) nz
    by (auto simp: rat_ok_def rat_val_def in_i64_def INT64_MIN_def)
  have bd: "b_rest b = lin_scale (lin_add (lin_neg ?rest) (lin_init\<lparr>lin_c := c_rhs c\<rparr>)) ?inv"
    "b_lower b = rat_is_neg ?a" "b_strict b = (c_op c = C_LT)"
    using b nz by (auto simp: split_on_def Let_def)
  have "lin_res (b_rest b)
      (\<lambda>\<nu>. (- (rat_val (lin_c ?l) + terms_val \<nu> ?fs) + rat_val (c_rhs c)) * (1 / rat_val ?a))"
    unfolding bd(1) by (intro lin_scale_res lin_add_res lin_neg_res rest rhs inv)
  then have r: "lin_ok (b_rest b)" "\<And>\<nu>. lin_val \<nu> (b_rest b) =
      (rat_val (c_rhs c) - rat_val (lin_c ?l) - terms_val \<nu> ?fs) / rat_val ?a"
    using ovf by (auto simp: lin_res_def)
  have "v \<notin> fst ` set ?fs" by auto
  then have indep: "terms_val (\<nu>(v := x)) ?fs = terms_val \<nu> ?fs"
    unfolding terms_val_def by (intro arg_cong [of _ _ sum_list] map_cong refl) (auto simp: rev_image_eqI)
  have val: "lin_val \<nu> ?l = rat_val (lin_c ?l) + rat_val ?a * \<nu> v + terms_val \<nu> ?fs"
    using terms_val_filter [OF _ a(1)] l(2) by (simp add: lin_val_def terms_ok_def)
  have sgn: "rat_val ?a \<noteq> 0" "rat_is_neg ?a \<longleftrightarrow> rat_val ?a < 0"
    using rat_num_sign [OF a(2)] nz by (simp_all add: rat_is_neg_def)
  let ?x = "lin_val \<nu> (b_rest b)"
  have x: "rat_val (c_rhs c) = rat_val ?a * ?x + (lin_val \<nu> ?l - rat_val ?a * \<nu> v)"
    using sgn val r(2) [of \<nu>] by simp
  have cmp: "lin_val \<nu> ?l < rat_val (c_rhs c) \<longleftrightarrow> rat_val ?a * \<nu> v < rat_val ?a * ?x"
    "lin_val \<nu> ?l \<le> rat_val (c_rhs c) \<longleftrightarrow> rat_val ?a * \<nu> v \<le> rat_val ?a * ?x"
    unfolding x by linarith+
  have "holds \<nu> c \<longleftrightarrow> bound_holds \<nu> v b"
  proof (cases "rat_val ?a < 0")
    case True
    then show ?thesis
      using bd(2,3) sgn(2) cmp
      by (cases "c_op c") (simp_all add: holds_def bound_holds_def Let_def mult_less_cancel_left_neg
        mult_le_cancel_left_neg)
  next
    case False
    then have "0 < rat_val ?a" using sgn by simp
    then show ?thesis
      using bd(2,3) sgn(2) cmp False
      by (cases "c_op c") (simp_all add: holds_def bound_holds_def Let_def mult_less_cancel_left_pos
        mult_le_cancel_left_pos)
  qed
  with r indep show ?thesis by simp
qed

lemma combine_spec:
  assumes "lin_ok (b_rest lo)" "lin_ok (b_rest up)" "\<not> lin_ovf (c_lhs (combine lo up))"
  shows "cons_ok (combine lo up) \<and>
    (holds \<nu> (combine lo up) \<longleftrightarrow>
       (if b_strict lo \<or> b_strict up then lin_val \<nu> (b_rest lo) < lin_val \<nu> (b_rest up)
        else lin_val \<nu> (b_rest lo) \<le> lin_val \<nu> (b_rest up)))"
  using lin_sub_res [OF lin_ok_res [OF assms(1)] lin_ok_res [OF assms(2)]] assms(3)
  by (auto simp: combine_def mk_cons_def lin_res_def cons_ok_def holds_def lin_simps rat_zero_ok)

lemma combine_overflow: "lin_ovf (b_rest lo) \<or> lin_ovf (b_rest up) \<Longrightarrow> lin_ovf (c_lhs (combine lo up))"
  by (auto simp: combine_def mk_cons_def lin_sub_def lin_bad_def)

section \<open>Rounds\<close>

definition round_exact :: "string \<Rightarrow> Cons list \<Rightarrow> bool" where
  "round_exact v sys \<longleftrightarrow>
     list_all (\<lambda>b. \<not> lin_ovf (b_rest b)) (bounds_of True v sys @ bounds_of False v sys) \<and>
     list_all (\<lambda>(lo, up). \<not> lin_ovf (c_lhs (combine lo up))) (bound_pairs v sys)"

fun loop_exact :: "string list \<Rightarrow> Cons list \<Rightarrow> bool" where
  "loop_exact [] sys \<longleftrightarrow> True"
| "loop_exact (v # vs) sys \<longleftrightarrow>
     round_exact v sys \<and> (case fm_round v sys of None \<Rightarrow> True | Some sys' \<Rightarrow> loop_exact vs sys')"

definition fm_exact :: "Cons list \<Rightarrow> bool" where
  "fm_exact sys \<longleftrightarrow>
     list_all (\<lambda>c. \<not> r_ovf (c_rhs (tighten c))) sys \<and>
     loop_exact (cons_vars [] (map tighten sys)) (map tighten sys)"

lemma combine_pairs_eq:
  "combine_pairs ps acc =
     (if list_ex (\<lambda>(lo, up). cons_contradictory (combine lo up)) ps then None
      else Some (acc @ map (\<lambda>(lo, up). combine lo up) ps))"
  by (induction ps acc rule: combine_pairs.induct) auto

lemma set_map_filter: "b \<in> set (List.map_filter f xs) \<longleftrightarrow> (\<exists>x \<in> set xs. f x = Some b)"
  by (force simp: map_filter_def)

lemma bounds_of_iff:
  "b \<in> set (bounds_of lw v sys) \<longleftrightarrow> (\<exists>c \<in> set sys. split_on c v = Some b) \<and> b_lower b = lw"
  by (auto simp: bounds_of_def set_map_filter)

lemma neutral_cons_eq:
  "\<forall>c \<in> set sys. cons_ok c \<Longrightarrow> neutral_cons v sys = filter (\<lambda>c. split_on c v = None) sys"
  unfolding neutral_cons_def by (rule map_idI) (auto simp: cons_clone_id)

text \<open>One round, on a system without overflow.\<close>

lemma fm_round_cases:
  assumes ok: "\<forall>c \<in> set sys. cons_ok c" and ex: "round_exact v sys"
  obtains (contra) lo up where "fm_round v sys = None" "lo \<in> set (bounds_of True v sys)"
      "up \<in> set (bounds_of False v sys)" "cons_contradictory (combine lo up)"
  | (next_sys) sys' where "fm_round v sys = Some sys'"
      "sys' = filter (\<lambda>c. split_on c v = None) sys @ map (\<lambda>(lo, up). combine lo up) (bound_pairs v sys)"
      "\<forall>c \<in> set sys'. cons_ok c"
proof (cases "list_ex (\<lambda>(lo, up). cons_contradictory (combine lo up)) (bound_pairs v sys)")
  case True
  then obtain lo up where "(lo, up) \<in> set (bound_pairs v sys)" "cons_contradictory (combine lo up)"
    by (auto simp: list_ex_iff)
  with True contra show ?thesis by (auto simp: fm_round_def combine_pairs_eq bound_pairs_def)
next
  case False
  have bok: "lin_ok (b_rest b)" if "b \<in> set (bounds_of lw v sys)" for b lw
  proof -
    have "\<not> lin_ovf (b_rest b)" using ex that by (cases lw) (auto simp: round_exact_def list_all_iff)
    then show ?thesis using that ok split_on_Some [of _ v b] by (auto simp: bounds_of_iff)
  qed
  let ?s = "filter (\<lambda>c. split_on c v = None) sys @ map (\<lambda>(lo, up). combine lo up) (bound_pairs v sys)"
  have "cons_ok (combine lo up)" if "(lo, up) \<in> set (bound_pairs v sys)" for lo up
    using that bok ex combine_spec [of lo up]
    by (auto simp: bound_pairs_def round_exact_def list_all_iff)
  with ok have "\<forall>c \<in> set ?s. cons_ok c" by auto
  moreover have "fm_round v sys = Some ?s"
    using False ok by (simp add: fm_round_def combine_pairs_eq neutral_cons_eq)
  ultimately show ?thesis by (rule next_sys [rotated 1, OF refl])
qed

lemma bound_of_holds:
  assumes "\<forall>c \<in> set sys. cons_ok c" "round_exact v sys" "all_hold \<nu> sys" "b \<in> set (bounds_of lw v sys)"
  shows "lin_ok (b_rest b) \<and> bound_holds \<nu> v b"
proof -
  have "\<not> lin_ovf (b_rest b)" using assms(2,4) by (cases lw) (auto simp: round_exact_def list_all_iff)
  with assms show ?thesis using split_on_Some [of _ v b \<nu>] by (auto simp: bounds_of_iff all_hold_def)
qed

lemma combine_holds:
  assumes ok: "\<forall>c \<in> set sys. cons_ok c" and ex: "round_exact v sys" and h: "all_hold \<nu> sys"
    and p: "lo \<in> set (bounds_of True v sys)" "up \<in> set (bounds_of False v sys)"
  shows "cons_ok (combine lo up) \<and> holds \<nu> (combine lo up)"
proof -
  have "\<not> lin_ovf (c_lhs (combine lo up))"
    using ex p by (auto simp: round_exact_def bound_pairs_def list_all_iff)
  moreover have "b_lower lo" "\<not> b_lower up" using p by (auto simp: bounds_of_iff)
  ultimately show ?thesis
    using bound_of_holds [OF ok ex h p(1)] bound_of_holds [OF ok ex h p(2)] combine_spec [of lo up \<nu>]
    by (auto simp: bound_holds_def Let_def split: if_splits)
qed

lemma loop_sound:
  "loop_exact vs sys \<Longrightarrow> \<forall>c \<in> set sys. cons_ok c \<Longrightarrow> all_hold \<nu> sys \<Longrightarrow> fm_loop vs sys"
proof (induction vs sys rule: fm_loop.induct)
  case (1 sys)
  then show ?case using contradictory_not_holds by (auto simp: all_hold_def list_all_iff)
next
  case (2 v vs sys)
  note ex = conjunct1 [OF 2(2) [unfolded loop_exact.simps]]
  show ?case
  proof (rule fm_round_cases [OF 2(3) ex])
    fix lo up
    assume "lo \<in> set (bounds_of True v sys)" "up \<in> set (bounds_of False v sys)"
      "cons_contradictory (combine lo up)"
    with combine_holds [OF 2(3) ex 2(4)] contradictory_not_holds show ?thesis by blast
  next
    fix sys'
    assume s: "fm_round v sys = Some sys'"
      "sys' = filter (\<lambda>c. split_on c v = None) sys @ map (\<lambda>(lo, up). combine lo up) (bound_pairs v sys)"
      "\<forall>c \<in> set sys'. cons_ok c"
    then have "all_hold \<nu> sys'"
      using 2(4) combine_holds [OF 2(3) ex 2(4)] by (auto simp: all_hold_def bound_pairs_def)
    with 2(1) [OF s(1)] 2(2) s show ?thesis by simp
  qed
qed

section \<open>Completeness of a round\<close>

text \<open>Finitely many lower bounds below finitely many upper bounds leave room for a value.\<close>

lemma between:
  fixes lows ups :: "(rat \<times> bool) list"
  assumes "\<And>x s y t. (x, s) \<in> set lows \<Longrightarrow> (y, t) \<in> set ups \<Longrightarrow> if s \<or> t then x < y else x \<le> y"
  shows "\<exists>z. (\<forall>(x, s) \<in> set lows. if s then x < z else x \<le> z) \<and> (\<forall>(y, t) \<in> set ups. if t then z < y else z \<le> y)"
proof -
  consider "lows = []" | "ups = []" | "lows \<noteq> []" "ups \<noteq> []" by blast
  then show ?thesis
  proof cases
    case 1
    define m where "m = (if ups = [] then 0 else Min (fst ` set ups)) - 1"
    have "m < y" if "(y, t) \<in> set ups" for y t
    proof -
      have "Min (fst ` set ups) \<le> y" using that by (intro Min_le) (auto simp: rev_image_eqI)
      then show ?thesis using that by (auto simp: m_def)
    qed
    with 1 show ?thesis by (intro exI [of _ m]) force
  next
    case 2
    define m where "m = (if lows = [] then 0 else Max (fst ` set lows)) + 1"
    have "x < m" if "(x, s) \<in> set lows" for x s
    proof -
      have "x \<le> Max (fst ` set lows)" using that by (intro Max_ge) (auto simp: rev_image_eqI)
      then show ?thesis using that by (auto simp: m_def)
    qed
    with 2 show ?thesis by (intro exI [of _ m]) force
  next
    case 3
    define l where "l = Max (fst ` set lows)"
    define u where "u = Min (fst ` set ups)"
    have "l \<in> fst ` set lows" "u \<in> fst ` set ups"
      using 3 by (auto simp: l_def u_def intro!: Max_in Min_in)
    then obtain sl tu where lu: "(l, sl) \<in> set lows" "(u, tu) \<in> set ups" by auto
    have le: "x \<le> l" if "(x, s) \<in> set lows" for x s
      using that by (auto simp: l_def rev_image_eqI intro!: Max_ge)
    have ge: "u \<le> y" if "(y, t) \<in> set ups" for y t
      using that by (auto simp: u_def rev_image_eqI intro!: Min_le)
    have "l \<le> u" using assms [OF lu] by (auto split: if_splits)
    then consider "l < u" | "l = u" by fastforce
    then show ?thesis
    proof cases
      case 1
      then obtain z where "l < z" "z < u" using dense by blast
      with le ge show ?thesis by (intro exI [of _ z]) (fastforce intro: le_less_trans less_le_trans)
    next
      case 2
      have "if s then x < l else x \<le> l" if "(x, s) \<in> set lows" for x s
        using assms [OF that lu(2)] le [OF that] 2 by (auto split: if_splits)
      moreover have "if t then l < y else l \<le> y" if "(y, t) \<in> set ups" for y t
        using assms [OF lu(1) that] ge [OF that] 2 by (auto split: if_splits)
      ultimately show ?thesis by (intro exI [of _ l]) fastforce
    qed
  qed
qed

lemma holds_indep:
  assumes "cons_ok c" "split_on c v = None"
  shows "holds (\<nu>(v := x)) c \<longleftrightarrow> holds \<nu> c"
proof -
  have "v \<notin> fst ` set (lin_terms (c_lhs c))" using split_on_None [OF assms(1)] assms(2) by simp
  then have "terms_val (\<nu>(v := x)) (lin_terms (c_lhs c)) = terms_val \<nu> (lin_terms (c_lhs c))"
    unfolding terms_val_def by (intro arg_cong [of _ _ sum_list] map_cong refl) (auto simp: rev_image_eqI)
  then show ?thesis by (simp add: holds_def lin_val_def split: cop.split)
qed

lemma round_complete:
  assumes ok: "\<forall>c \<in> set sys. cons_ok c" and ex: "round_exact v sys"
    and h: "all_hold \<nu> (filter (\<lambda>c. split_on c v = None) sys @ map (\<lambda>(lo, up). combine lo up) (bound_pairs v sys))"
  shows "\<exists>x. all_hold (\<nu>(v := x)) sys"
proof -
  let ?pt = "\<lambda>b. (lin_val \<nu> (b_rest b), b_strict b)"
  have bok: "lin_ok (b_rest b)" "\<not> lin_ovf (b_rest b)" if "b \<in> set (bounds_of lw v sys)" for b lw
  proof -
    show o: "\<not> lin_ovf (b_rest b)" using ex that by (cases lw) (auto simp: round_exact_def list_all_iff)
    then show "lin_ok (b_rest b)" using that ok split_on_Some [of _ v b] by (auto simp: bounds_of_iff)
  qed
  have "if s \<or> t then p < q else p \<le> q"
    if "(p, s) \<in> set (map ?pt (bounds_of True v sys))" "(q, t) \<in> set (map ?pt (bounds_of False v sys))" for p s q t
  proof -
    from that obtain lo up where b: "lo \<in> set (bounds_of True v sys)" "up \<in> set (bounds_of False v sys)"
      "(p, s) = ?pt lo" "(q, t) = ?pt up" by auto
    then have "(lo, up) \<in> set (bound_pairs v sys)" by (simp add: bound_pairs_def)
    then have "holds \<nu> (combine lo up)" "\<not> lin_ovf (c_lhs (combine lo up))"
      using h ex by (force simp: all_hold_def, auto simp: round_exact_def list_all_iff)
    with combine_spec [of lo up \<nu>] bok(1) [OF b(1)] bok(1) [OF b(2)] b(3,4) show ?thesis by simp
  qed
  from between [OF this] obtain x where x:
    "\<forall>(p, s) \<in> set (map ?pt (bounds_of True v sys)). if s then p < x else p \<le> x"
    "\<forall>(q, t) \<in> set (map ?pt (bounds_of False v sys)). if t then x < q else x \<le> q" by blast
  have "holds (\<nu>(v := x)) c" if c: "c \<in> set sys" for c
  proof (cases "split_on c v")
    case None
    with c h ok holds_indep show ?thesis by (auto simp: all_hold_def)
  next
    case (Some b)
    then have b: "b \<in> set (bounds_of (b_lower b) v sys)" using c by (auto simp: bounds_of_iff)
    note sp = split_on_Some [OF _ Some bok(2) [OF b]]
    have "lin_val (\<nu>(v := x)) (b_rest b) = lin_val \<nu> (b_rest b)" using sp ok c by blast
    moreover have "if b_lower b then (if b_strict b then lin_val \<nu> (b_rest b) < x else lin_val \<nu> (b_rest b) \<le> x)
        else (if b_strict b then x < lin_val \<nu> (b_rest b) else x \<le> lin_val \<nu> (b_rest b))"
      using x b by (cases "b_lower b") (auto split: if_splits)
    ultimately have "bound_holds (\<nu>(v := x)) v b" by (simp add: bound_holds_def)
    then show ?thesis using sp ok c by blast
  qed
  then show ?thesis by (auto simp: all_hold_def)
qed

definition cons_names :: "Cons \<Rightarrow> string set" where
  "cons_names c = fst ` set (lin_terms (c_lhs c))"

lemma push_raw_names: "fst ` set (lin_terms (lin_push_raw l w k)) \<subseteq> insert w (fst ` set (lin_terms l))"
proof -
  have up: "fst ` set (ts[i := (w, s)]) \<subseteq> insert w (fst ` set ts)" for ts :: "(string \<times> Rat) list" and i s
    using set_update_subset_insert [of ts i "(w, s)"] by auto
  have rm: "set (term_remove i ts) \<subseteq> set ts" if "i < length ts" for i and ts :: "(string \<times> Rat) list"
    using mset_eq_setD [OF mset_term_remove [OF that]] by auto
  show ?thesis
  proof (cases "term_index (lin_terms l) w")
    case None
    then show ?thesis by (auto simp: lin_push_raw_def)
  next
    case (Some i)
    note i = term_index_Some [OF Some]
    let ?s = "rat_add (snd (lin_terms l ! i)) k" let ?ts = "(lin_terms l)[i := (w, ?s)]"
    have "set (term_remove i ?ts) \<subseteq> set ?ts" using i by (intro rm) simp
    with up [of "lin_terms l" i ?s] Some show ?thesis by (auto simp: lin_push_raw_def Let_def)
  qed
qed

lemma push_terms_names:
  "fst ` set (lin_terms (push_terms g ts r)) \<subseteq> fst ` set (lin_terms r) \<union> fst ` set ts"
proof (induction ts arbitrary: r)
  case (Cons t ts)
  obtain w k where t: "t = (w, k)" by (cases t)
  from Cons [of "lin_push_raw r w (g k)"] push_raw_names [of r w "g k"] t show ?case
    by (auto simp: push_terms_def)
qed (simp add: push_terms_def)

lemma lin_op_names:
  "fst ` set (lin_terms (lin_add a b)) \<subseteq> fst ` set (lin_terms a) \<union> fst ` set (lin_terms b)"
  "fst ` set (lin_terms (lin_sub a b)) \<subseteq> fst ` set (lin_terms a) \<union> fst ` set (lin_terms b)"
  "fst ` set (lin_terms (lin_scale a k)) \<subseteq> fst ` set (lin_terms a)"
  "fst ` set (lin_terms (lin_neg a)) \<subseteq> fst ` set (lin_terms a)"
proof -
  have add: "fst ` set (lin_terms (push_terms g bs (push_terms f as (lin_init\<lparr>lin_c := c\<rparr>))))
      \<subseteq> fst ` set as \<union> fst ` set bs" for f g as bs c
    using push_terms_names [of g bs "push_terms f as (lin_init\<lparr>lin_c := c\<rparr>)"]
      push_terms_names [of f as "lin_init\<lparr>lin_c := c\<rparr>"] by (auto simp: lin_init_def)
  have scale: "fst ` set (lin_terms (push_terms f as (lin_init\<lparr>lin_c := c\<rparr>))) \<subseteq> fst ` set as" for f as c
    using push_terms_names [of f as "lin_init\<lparr>lin_c := c\<rparr>"] by (auto simp: lin_init_def)
  have b: "lin_terms lin_bad = []" "lin_terms (lin_init\<lparr>lin_c := c, lin_ovf := True\<rparr>) = []" for c
    by (simp_all add: lin_bad_def lin_init_def)
  show "fst ` set (lin_terms (lin_add a b)) \<subseteq> fst ` set (lin_terms a) \<union> fst ` set (lin_terms b)"
    using add b by (simp add: lin_add_def Let_def)
  show "fst ` set (lin_terms (lin_sub a b)) \<subseteq> fst ` set (lin_terms a) \<union> fst ` set (lin_terms b)"
    using add b by (simp add: lin_sub_def Let_def)
  show sc: "fst ` set (lin_terms (lin_scale a k)) \<subseteq> fst ` set (lin_terms a)" for k
    using scale b by (simp add: lin_scale_def Let_def)
  show "fst ` set (lin_terms (lin_neg a)) \<subseteq> fst ` set (lin_terms a)" by (simp add: lin_neg_def sc)
qed

lemma split_on_names:
  assumes "split_on c v = Some b"
  shows "fst ` set (lin_terms (b_rest b)) \<subseteq> cons_names c - {v}"
proof -
  let ?fs = "filter (\<lambda>(w, k). w \<noteq> v) (lin_terms (c_lhs c))"
  let ?rest = "push_terms (\<lambda>k. k) ?fs (lin_init\<lparr>lin_c := lin_c (c_lhs c), lin_ovf := lin_ovf (c_lhs c)\<rparr>)"
  have 1: "fst ` set (lin_terms ?rest) \<subseteq> fst ` set ?fs"
    using push_terms_names [of "\<lambda>k. k" ?fs "lin_init\<lparr>lin_c := lin_c (c_lhs c), lin_ovf := lin_ovf (c_lhs c)\<rparr>"]
    by (simp add: lin_init_def)
  have 2: "b_rest b = lin_scale (lin_add (lin_neg ?rest) (lin_init\<lparr>lin_c := c_rhs c\<rparr>))
      (rat_mk (r_den (lin_coeff (c_lhs c) v)) (r_num (lin_coeff (c_lhs c) v)))"
    using assms by (auto simp: split_on_def Let_def split: if_splits)
  have 3: "fst ` set (lin_terms (lin_scale (lin_add (lin_neg r) (lin_init\<lparr>lin_c := q\<rparr>)) k))
      \<subseteq> fst ` set (lin_terms r)" for r q k
    by (rule order_trans [OF lin_op_names(3) order_trans [OF lin_op_names(1)]])
      (simp add: lin_op_names(4) lin_init_def)
  have "fst ` set (lin_terms (b_rest b)) \<subseteq> fst ` set ?fs"
    unfolding 2 by (rule order_trans [OF 3 1])
  then show ?thesis by (auto simp: cons_names_def)
qed

lemma loop_complete:
  "loop_exact vs sys \<Longrightarrow> \<forall>c \<in> set sys. cons_ok c \<and> cons_names c \<subseteq> set vs \<Longrightarrow> fm_loop vs sys \<Longrightarrow>
   \<exists>\<nu>. all_hold \<nu> sys"
proof (induction vs sys rule: fm_loop.induct)
  case (1 sys)
  have "holds (\<lambda>_. 0) c" if "c \<in> set sys" for c
  proof -
    have "lin_is_const (c_lhs c)" using 1(2) that by (auto simp: cons_names_def lin_is_const_def)
    then show ?thesis using 1(2,3) that contradictory_iff [of c "\<lambda>_. 0"]
      by (auto simp: list_all_iff)
  qed
  then show ?case by (auto simp: all_hold_def)
next
  case (2 v vs sys)
  note ex = conjunct1 [OF 2(2) [unfolded loop_exact.simps]]
  have ok: "\<forall>c \<in> set sys. cons_ok c" using 2(3) by blast
  show ?case
  proof (rule fm_round_cases [OF ok ex])
    fix lo up
    assume "fm_round v sys = None"
    with 2(4) show ?thesis by simp
  next
    fix sys'
    assume s: "fm_round v sys = Some sys'"
      "sys' = filter (\<lambda>c. split_on c v = None) sys @ map (\<lambda>(lo, up). combine lo up) (bound_pairs v sys)"
      "\<forall>c \<in> set sys'. cons_ok c"
    have nb: "fst ` set (lin_terms (b_rest b)) \<subseteq> set vs" if "b \<in> set (bounds_of lw v sys)" for b lw
    proof -
      from that obtain c where "c \<in> set sys" "split_on c v = Some b" by (auto simp: bounds_of_iff)
      with split_on_names [of c v b] 2(3) show ?thesis by fastforce
    qed
    have "cons_names c \<subseteq> set vs" if "c \<in> set sys'" for c
    proof -
      from that s(2) consider "c \<in> set sys" "split_on c v = None"
        | lo up where "lo \<in> set (bounds_of True v sys)" "up \<in> set (bounds_of False v sys)" "c = combine lo up"
        by (auto simp: bound_pairs_def)
      then show ?thesis
      proof cases
        case 1
        then show ?thesis using split_on_None [of c v] ok 2(3) by (fastforce simp: cons_names_def)
      next
        case 2
        then show ?thesis
          using order_trans [OF lin_op_names(2) Un_least [OF nb [OF 2(1)] nb [OF 2(2)]]]
          by (simp add: cons_names_def combine_def mk_cons_def)
      qed
    qed
    moreover have "loop_exact vs sys'" "fm_loop vs sys'" using 2(2,4) s(1) by simp_all
    ultimately obtain \<nu> where "all_hold \<nu> sys'" using 2(1) [OF s(1)] s(3) by blast
    with round_complete [OF ok ex] s(2) show ?thesis by blast
  qed
qed

section \<open>Integer tightening\<close>

definition int_valued :: "(string \<Rightarrow> rat) \<Rightarrow> bool" where
  "int_valued \<nu> \<longleftrightarrow> (\<forall>v. \<nu> v \<in> \<int>)"

lemma tighten_spec:
  assumes c: "cons_ok c" and r: "\<not> r_ovf (c_rhs (tighten c))"
  shows "cons_ok (tighten c) \<and> c_lhs (tighten c) = c_lhs c \<and>
    (holds \<nu> (tighten c) \<longrightarrow> holds \<nu> c) \<and> (int_valued \<nu> \<longrightarrow> (holds \<nu> (tighten c) \<longleftrightarrow> holds \<nu> c))"
proof (cases "tighten c = c")
  case True
  with c show ?thesis by simp
next
  case False
  then have t: "c_op c = C_LT" "r_den (lin_c (c_lhs c)) = 1" "r_den (c_rhs c) = 1"
    "\<forall>t \<in> set (lin_terms (c_lhs c)). r_den (snd t) = 1"
    "tighten c = c\<lparr>c_op := C_LE, c_rhs := rat_sub (c_rhs c) (rat_int 1)\<rparr>"
    by (auto simp: tighten_def split: if_splits)
  have one: "rat_ok (rat_int 1)" by (rule rat_int_ok) (simp add: in_i64_def INT64_MIN_def INT64_MAX_def)
  have s: "rat_ok (rat_sub (c_rhs c) (rat_int 1))" "rat_val (rat_sub (c_rhs c) (rat_int 1)) = rat_val (c_rhs c) - 1"
    using rat_res_ok [OF rat_sub_res [OF _ one]] c r t(5) by (auto simp: cons_ok_def rat_int_val)
  have int: "lin_val \<nu> (c_lhs c) \<in> \<int>" if "int_valued \<nu>"
  proof -
    have "terms_val \<nu> ts \<in> \<int>" if "\<forall>t \<in> set ts. r_den (snd t) = 1" for ts
      using that \<open>int_valued \<nu>\<close> by (induction ts) (auto simp: lin_simps rat_val_def int_valued_def)
    from this [OF t(4)] t(2) show ?thesis by (simp add: lin_val_def rat_val_def)
  qed
  have rint: "rat_val (c_rhs c) \<in> \<int>" using t(3) by (simp add: rat_val_def)
  have "x < y \<longleftrightarrow> x \<le> y - 1" if "x \<in> \<int>" "y \<in> \<int>" for x y :: rat
    using that by (auto elim!: Ints_cases)
  with int rint have "int_valued \<nu> \<longrightarrow> (holds \<nu> (tighten c) \<longleftrightarrow> holds \<nu> c)"
    using t(1,5) s(2) by (auto simp: holds_def)
  moreover have "holds \<nu> (tighten c) \<longrightarrow> holds \<nu> c"
    using t(1,5) s(2) by (auto simp: holds_def)
  ultimately show ?thesis using t(5) s(1) c by (simp add: cons_ok_def)
qed

lemma cons_vars_names: "c \<in> set sys \<Longrightarrow> cons_names c \<subseteq> set (cons_vars vs sys)"
proof -
  have an: "set (add_names xs ts) = set xs \<union> fst ` set ts" for xs ts
    by (induction ts arbitrary: xs) (auto simp: add_names_def split: if_splits)
  have "set (cons_vars vs sys) = set vs \<union> (\<Union>c \<in> set sys. cons_names c)"
    by (induction sys arbitrary: vs) (auto simp: cons_vars_def an cons_names_def)
  then show "c \<in> set sys \<Longrightarrow> ?thesis" by auto
qed

end
