(* ===== verification/FmProps.thy ===== *)
theory FmProps
  imports FmSound
begin

text \<open>
  The properties of the rational arithmetic, the linear forms and the
  Fourier--Motzkin test.
\<close>

definition sys_ok :: "Cons list \<Rightarrow> bool" where
  "sys_ok sys \<longleftrightarrow> (\<forall>c \<in> set sys. cons_ok c)"

lemma tighten_all:
  assumes "sys_ok sys" "fm_exact sys"
  shows "sys_ok (map tighten sys)" "all_hold \<nu> (map tighten sys) \<Longrightarrow> all_hold \<nu> sys"
    "int_valued \<nu> \<Longrightarrow> all_hold \<nu> (map tighten sys) \<longleftrightarrow> all_hold \<nu> sys"
proof -
  have t: "cons_ok (tighten c) \<and> (holds \<nu> (tighten c) \<longrightarrow> holds \<nu> c) \<and>
      (int_valued \<nu> \<longrightarrow> (holds \<nu> (tighten c) \<longleftrightarrow> holds \<nu> c))" if "c \<in> set sys" for c \<nu>
    using that assms tighten_spec [of c \<nu>] by (simp add: sys_ok_def fm_exact_def list_all_iff)
  then show "sys_ok (map tighten sys)" "all_hold \<nu> (map tighten sys) \<Longrightarrow> all_hold \<nu> sys"
    "int_valued \<nu> \<Longrightarrow> all_hold \<nu> (map tighten sys) \<longleftrightarrow> all_hold \<nu> sys"
    by (simp_all add: sys_ok_def all_hold_def)
qed

lemma fm_sat_unfold:
  assumes "sys_ok sys"
  shows "fm_sat sys \<longleftrightarrow>
    \<not> list_ex cons_contradictory (map tighten sys) \<and> fm_loop (cons_vars [] (map tighten sys)) (map tighten sys)"
  using assms by (auto simp: fm_sat_def sys_ok_def list_ex_iff cons_ok_not_overflowed Let_def)

lemma fm_sat_iff_rational:
  assumes ok: "sys_ok sys" and ex: "fm_exact sys"
  shows "fm_sat sys \<longleftrightarrow> (\<exists>\<nu>. all_hold \<nu> (map tighten sys))"
proof
  let ?s = "map tighten sys"
  have s: "\<forall>c \<in> set ?s. cons_ok c" using tighten_all(1) [OF ok ex] by (simp add: sys_ok_def)
  have le: "loop_exact (cons_vars [] ?s) ?s" using ex by (simp add: fm_exact_def)
  show "\<exists>\<nu>. all_hold \<nu> ?s" if "fm_sat sys"
    using that fm_sat_unfold [OF ok] loop_complete [OF le] s cons_vars_names [of _ ?s "[]"] by blast
  show "fm_sat sys" if "\<exists>\<nu>. all_hold \<nu> ?s"
  proof -
    from that obtain \<nu> where h: "all_hold \<nu> ?s" by blast
    have "\<not> list_ex cons_contradictory ?s"
      using h s contradictory_not_holds unfolding list_ex_iff all_hold_def by blast
    with fm_sat_unfold [OF ok] loop_sound [OF le s h] show ?thesis by simp
  qed
qed

section \<open>Arithmetic\<close>

definition rat_small :: "Rat \<Rightarrow> bool" where
  "rat_small r \<longleftrightarrow> rat_ok r \<and> \<bar>r_num r\<bar> < 2147483648 \<and> r_den r < 2147483648"

lemma rat_mk_pos: "0 < d \<Longrightarrow> \<not> r_ovf (rat_mk n d)"
  by (simp add: rat_mk_def rat_reduce_def Let_def)

lemma small_prod: "\<bar>a\<bar> < 2147483648 \<Longrightarrow> \<bar>b\<bar> < 2147483648 \<Longrightarrow> \<bar>a * b\<bar> < (4611686018427387904 :: int)"
  using mult_strict_mono [of "\<bar>a\<bar>" 2147483648 "\<bar>b\<bar>" 2147483648] by (simp add: abs_mult)

lemma rat_mul_small: "rat_small a \<Longrightarrow> rat_small b \<Longrightarrow> \<not> r_ovf (rat_mul a b)"
  using small_prod [of "r_num a" "r_num b"] small_prod [of "r_den a" "r_den b"]
    rat_mk_pos [of "r_den a * r_den b"]
  by (auto simp: rat_mul_def rat_small_def rat_ok_def Let_def INT64_MAX_def INT64_MIN_def)

lemma rat_add_small:
  assumes "rat_small a" "rat_small b"
  shows "\<not> r_ovf (rat_add a b)"
proof -
  have ab: "0 < r_den a" "0 < r_den b" "r_den a < 2147483648" "r_den b < 2147483648" "\<not> r_ovf a" "\<not> r_ovf b"
    "\<bar>r_num a\<bar> < 2147483648" "\<bar>r_num b\<bar> < 2147483648"
    using assms by (auto simp: rat_small_def rat_ok_def)
  define g where "g = v_gcd (r_den a) (r_den b)"
  have g: "g = gcd (r_den a) (r_den b)" "0 < g"
    using ab v_gcd_eq [of "r_den b" "r_den a"] by (simp_all add: g_def INT64_MAX_def)
  have l: "r_den b sdiv g = r_den b div g" "r_den a sdiv g = r_den a div g"
    using g by (simp_all add: sdiv_exact)
  have "d div g \<le> d" if "0 < d" for d using zdiv_mono2 [of d 1 g] that g(2) by simp
  moreover have "0 < r_den b div g" "0 < r_den a div g"
    using g ab by (auto simp: pos_imp_zdiv_pos_iff)
  moreover note ab(1,2)
  ultimately have "0 < r_den b div g" "r_den b div g \<le> r_den b" "0 < r_den a div g" "r_den a div g \<le> r_den a"
    by blast+
  then have d: "0 < r_den b div g" "\<bar>r_den b div g\<bar> < 2147483648" "\<bar>r_den a div g\<bar> < 2147483648"
    using ab by auto
  have "\<bar>r_num a * (r_den b div g)\<bar> < 4611686018427387904" "\<bar>r_num b * (r_den a div g)\<bar> < 4611686018427387904"
    "\<bar>r_den a * (r_den b div g)\<bar> < 4611686018427387904"
    using ab d small_prod [of "r_num a" "r_den b div g"] small_prod [of "r_num b" "r_den a div g"]
      small_prod [of "r_den a" "r_den b div g"] by simp_all
  then show ?thesis
    using ab d rat_mk_pos [of "r_den a * (r_den b div g)"]
    by (simp add: rat_add_def Let_def l flip: g_def) (auto simp: INT64_MAX_def INT64_MIN_def)
qed

lemma rat_neg_small: "rat_small a \<Longrightarrow> rat_small (rat_neg a)"
  by (auto simp: rat_small_def rat_neg_def rat_ok_def in_i64_def INT64_MIN_def INT64_MAX_def)

lemma rat_sub_small: "rat_small a \<Longrightarrow> rat_small b \<Longrightarrow> \<not> r_ovf (rat_sub a b)"
  by (simp add: rat_sub_def rat_add_small rat_neg_small)

text \<open>
  The checked rational operations: on reduced operands the sum, the
  difference and the product are flagged, or they are reduced, in range and
  equal to the exact value; operands of at most 31 bits are never flagged.
\<close>

lemma rational_ops_exact:
  assumes "rat_ok a" "rat_ok b"
  shows "(\<not> r_ovf (rat_add a b) \<longrightarrow> rat_ok (rat_add a b) \<and> rat_val (rat_add a b) = rat_val a + rat_val b) \<and>
    (\<not> r_ovf (rat_sub a b) \<longrightarrow> rat_ok (rat_sub a b) \<and> rat_val (rat_sub a b) = rat_val a - rat_val b) \<and>
    (\<not> r_ovf (rat_mul a b) \<longrightarrow> rat_ok (rat_mul a b) \<and> rat_val (rat_mul a b) = rat_val a * rat_val b) \<and>
    (rat_cmp a b < 0 \<longleftrightarrow> rat_val a < rat_val b) \<and> (rat_cmp a b \<le> 0 \<longleftrightarrow> rat_val a \<le> rat_val b) \<and>
    (rat_small a \<and> rat_small b \<longrightarrow>
      \<not> r_ovf (rat_add a b) \<and> \<not> r_ovf (rat_sub a b) \<and> \<not> r_ovf (rat_mul a b))"
  using rat_res_ok [OF rat_add_res [OF assms]] rat_res_ok [OF rat_sub_res [OF assms]]
    rat_res_ok [OF rat_mul_res [OF assms]] rat_cmp_spec [OF assms]
    rat_add_small rat_sub_small rat_mul_small by blast

lemma rational_ops_exact_witness:
  "rat_add (rat_mk 1 6) (rat_mk 3 (-4)) = rat_mk (-7) 12 \<and>
   rat_val (rat_add (rat_mk 1 6) (rat_mk 3 (-4))) = rat_val (rat_mk 1 6) + rat_val (rat_mk 3 (-4))"
proof -
  have ok: "rat_ok (rat_mk 1 6)" "rat_ok (rat_mk 3 (-4))"
    using rat_mk_res [of 1 6] rat_mk_res [of 3 "-4"]
    by (auto simp: rat_res_def in_i64_def INT64_MIN_def INT64_MAX_def rat_mk_def rat_reduce_def rat_bad_def Let_def)
  have e: "rat_add (rat_mk 1 6) (rat_mk 3 (-4)) = rat_mk (-7) 12" "\<not> r_ovf (rat_mk (-7) 12)"
    by code_simp+
  from rational_ops_exact [OF ok] show ?thesis by (simp add: e)
qed

text \<open>
  The linear forms: from forms in normal form (distinct variables, reduced
  non-zero coefficients) the sum, the difference and the scaled form are
  flagged, or in normal form again with the exact value under every valuation.
\<close>

lemma linear_ops_value:
  assumes "lin_ok a" "lin_ok b" "rat_ok k"
  shows "(\<not> lin_ovf (lin_add a b) \<longrightarrow> lin_ok (lin_add a b) \<and> lin_val \<nu> (lin_add a b) = lin_val \<nu> a + lin_val \<nu> b) \<and>
    (\<not> lin_ovf (lin_sub a b) \<longrightarrow> lin_ok (lin_sub a b) \<and> lin_val \<nu> (lin_sub a b) = lin_val \<nu> a - lin_val \<nu> b) \<and>
    (\<not> lin_ovf (lin_scale a k) \<longrightarrow> lin_ok (lin_scale a k) \<and> lin_val \<nu> (lin_scale a k) = lin_val \<nu> a * rat_val k) \<and>
    lin_clone a = a"
  using lin_res_ok [OF lin_add_res [OF lin_ok_res [OF assms(1)] lin_ok_res [OF assms(2)]]]
    lin_res_ok [OF lin_sub_res [OF lin_ok_res [OF assms(1)] lin_ok_res [OF assms(2)]]]
    lin_res_ok [OF lin_scale_res [OF lin_ok_res [OF assms(1)] rat_ok_res [OF assms(3)]]]
    lin_clone_id [of a] lin_okD [OF assms(1)] by blast

definition ex_form :: Lin where
  "ex_form = lin_init\<lparr>lin_c := rat_int 5, lin_terms := [(''x'', rat_int 2), (''y'', rat_int (-1))]\<rparr>"

lemma ex_form_ok: "lin_ok ex_form" "rat_ok (rat_int 3)"
  by (auto simp: ex_form_def lin_ok_def terms_ok_def lin_init_def in_i64_def INT64_MIN_def INT64_MAX_def
      intro!: rat_int_ok)

lemma linear_ops_value_witness:
  "lin_terms (lin_sub ex_form ex_form) = [] \<and>
   lin_val (\<lambda>_. 1) (lin_scale ex_form (rat_int 3)) = lin_val (\<lambda>_. 1) ex_form * rat_val (rat_int 3)"
proof -
  have "lin_terms (lin_sub ex_form ex_form) = []" "\<not> lin_ovf (lin_scale ex_form (rat_int 3))" by code_simp+
  with linear_ops_value [OF ex_form_ok(1,1,2), of "\<lambda>_. 1"] show ?thesis by simp
qed

section \<open>The Fourier--Motzkin verdict\<close>

text \<open>
  C13. Soundness of UNSAT: when no round overflows, a system that the test
  refuses has no integer solution. Proven obligations rest on this direction.
\<close>

theorem fm_unsat_sound:
  assumes "sys_ok sys" "fm_exact sys" "\<not> fm_sat sys"
  shows "\<not> (\<exists>\<nu>. int_valued \<nu> \<and> all_hold \<nu> sys)"
  using fm_sat_iff_rational [OF assms(1,2)] assms(3) tighten_all(3) [OF assms(1,2)] by blast

definition ex_gap :: "Cons list" where
  "ex_gap = [mk_cons (lin_sub (lin_const (rat_int 0)) (lin_var ''n'')) C_LT rat_zero,
     mk_cons (lin_sub (lin_var ''n'') (lin_const (rat_int 1))) C_LT rat_zero]"

lemma rat_int_ok_small: "\<bar>n\<bar> < 9223372036854775807 \<Longrightarrow> rat_ok (rat_int n)"
  by (rule rat_int_ok) (auto simp: in_i64_def INT64_MIN_def INT64_MAX_def)

lemma sub_cons_ok:
  "lin_res a f \<Longrightarrow> lin_res b g \<Longrightarrow> \<not> lin_ovf (lin_sub a b) \<Longrightarrow> cons_ok (mk_cons (lin_sub a b) p rat_zero)"
  using lin_res_ok [OF lin_sub_res] by (auto simp: cons_ok_def mk_cons_def rat_zero_ok)

lemma const_res: "\<bar>n\<bar> < 9223372036854775807 \<Longrightarrow> lin_res (lin_const (rat_int n)) (\<lambda>_. of_int n)"
  using lin_const_res [of "rat_int n" "of_int n"] rat_int_ok_small [of n]
  by (simp add: rat_res_def rat_int_val)

lemma ex_gap_ok: "sys_ok ex_gap"
proof -
  have "\<not> lin_ovf (lin_sub (lin_const (rat_int 0)) (lin_var ''n''))"
    "\<not> lin_ovf (lin_sub (lin_var ''n'') (lin_const (rat_int 1)))" by code_simp+
  then show ?thesis
    unfolding sys_ok_def ex_gap_def
    by (auto intro!: sub_cons_ok lin_var_res const_res)
qed

theorem fm_unsat_sound_witness: "\<not> (\<exists>\<nu>. int_valued \<nu> \<and> all_hold \<nu> ex_gap)"
proof (rule fm_unsat_sound [OF ex_gap_ok])
  show "fm_exact ex_gap" by code_simp
  show "\<not> fm_sat ex_gap" by code_simp
qed

text \<open>
  C14. Completeness: when no round overflows, a system the test accepts has a
  rational solution, which also satisfies the tightened inequalities; so the
  test decides the tightened system over the rationals.
\<close>

theorem fm_sat_complete:
  assumes "sys_ok sys" "fm_exact sys"
  shows "(fm_sat sys \<longleftrightarrow> (\<exists>\<nu>. all_hold \<nu> (map tighten sys))) \<and>
    (fm_sat sys \<longrightarrow> (\<exists>\<nu>. all_hold \<nu> sys))"
  using fm_sat_iff_rational [OF assms] tighten_all(2) [OF assms] by blast

definition ex_open :: "Cons list" where
  "ex_open = [mk_cons (lin_sub (lin_const (rat_int 0)) (lin_var ''n'')) C_LT rat_zero,
     mk_cons (lin_sub (lin_var ''n'') (lin_var ''m'')) C_LE rat_zero]"

theorem fm_sat_complete_witness: "fm_sat ex_open \<and> (\<exists>\<nu>. all_hold \<nu> ex_open)"
proof -
  have "\<not> lin_ovf (lin_sub (lin_const (rat_int 0)) (lin_var ''n''))"
    "\<not> lin_ovf (lin_sub (lin_var ''n'') (lin_var ''m''))" by code_simp+
  then have ok: "sys_ok ex_open"
    unfolding sys_ok_def ex_open_def by (auto intro!: sub_cons_ok lin_var_res const_res)
  have "fm_exact ex_open" "fm_sat ex_open" by code_simp+
  with fm_sat_complete [OF ok] show ?thesis by blast
qed

definition ex_wide :: "Cons list" where
  "ex_wide =
     [mk_cons (lin_init\<lparr>lin_c := rat_int 5,
        lin_terms := [(''x'', rat_int (-1)), (''y'', rat_int 4611686018427387904)]\<rparr>) C_LE rat_zero,
      mk_cons (lin_init\<lparr>lin_terms := [(''x'', rat_int 1), (''y'', rat_int 4611686018427387904)]\<rparr>) C_LE rat_zero]"

text \<open>
  C15. The overflow flag is read at entry only: a system with the solution
  x = 0, y = -1 is refused, because the difference of two bounds overflows to a
  form without terms whose constant then looks contradictory.
\<close>

theorem fm_overflow_false_unsat:
  "sys_ok ex_wide \<and> \<not> fm_sat ex_wide \<and>
   int_valued ((\<lambda>_. 0)(''y'' := -1)) \<and> all_hold ((\<lambda>_. 0)(''y'' := -1)) ex_wide"
proof -
  have "sys_ok ex_wide"
    by (auto simp: sys_ok_def ex_wide_def mk_cons_def cons_ok_def lin_ok_def terms_ok_def lin_init_def
        rat_zero_ok intro!: rat_int_ok_small)
  moreover have "\<not> fm_sat ex_wide" by code_simp
  moreover have "all_hold ((\<lambda>_. 0)(''y'' := -1)) ex_wide"
    by (simp add: all_hold_def ex_wide_def mk_cons_def holds_def lin_val_def lin_init_def lin_simps)
  ultimately show ?thesis by (simp add: int_valued_def)
qed

end
