(* ===== verification/SymReads.thy ===== *)
theory SymReads
  imports Ast Linear
begin

text \<open>
  The symbolic state under the verifier's expressions (\<open>src/verify_core.c\<close>,
  \<open>src/verify_symexec.c\<close>): the environment of linear forms, the symbolic lengths
  of vectors, and the list of recorded values, in which a product, a quotient,
  a bit operation or a pair that is not linear gets a name of its own.
\<close>

section \<open>Environments\<close>

record Binding =
  b_lin :: Lin
  b_nonlinear :: bool

type_synonym SEnv = "(string \<times> Binding) list"

definition env_find :: "SEnv \<Rightarrow> string \<Rightarrow> Binding option" where
  "env_find e name = map_of e name"

definition env_bind :: "SEnv \<Rightarrow> string \<Rightarrow> Lin \<Rightarrow> bool \<Rightarrow> SEnv" where
  "env_bind e name l nonlinear =
     (if nonlinear \<or> lin_ovf l
      then alist_put e name \<lparr>b_lin = lin_init, b_nonlinear = True\<rparr>
      else alist_put e name \<lparr>b_lin = l, b_nonlinear = False\<rparr>)"

definition env_clone :: "SEnv \<Rightarrow> SEnv" where
  "env_clone src = fold (\<lambda>(name, b) dst. env_bind dst name (lin_clone (b_lin b)) (b_nonlinear b)) src []"

text \<open>A value: a linear form, unless \<open>s_nonlinear\<close>.\<close>

record Sym =
  s_lin :: Lin
  s_nonlinear :: bool

definition sym_nonlin :: Sym where
  "sym_nonlin = \<lparr>s_lin = lin_init, s_nonlinear = True\<rparr>"

definition sym_lin :: "Lin \<Rightarrow> Sym" where
  "sym_lin l = \<lparr>s_lin = l, s_nonlinear = lin_ovf l\<rparr>"

section \<open>Lengths of vectors\<close>

record VLenEntry =
  vl_len :: Lin
  vl_unknown :: bool

type_synonym VLenMap = "(string \<times> VLenEntry) list"

definition vlen_find :: "VLenMap \<Rightarrow> string \<Rightarrow> VLenEntry option" where
  "vlen_find m name = map_of m name"

definition vlen_set :: "VLenMap \<Rightarrow> string \<Rightarrow> Lin \<Rightarrow> bool \<Rightarrow> VLenMap" where
  "vlen_set m name len unknown =
     alist_put m name \<lparr>vl_len = (if unknown then lin_init else len), vl_unknown = unknown\<rparr>"

definition vlen_clone :: "VLenMap \<Rightarrow> VLenMap" where
  "vlen_clone src = fold (\<lambda>(name, e) dst. vlen_set dst name (lin_clone (vl_len e)) (vl_unknown e)) src []"

section \<open>Recorded values\<close>

text \<open>A call node is known by its address; the other entries have none.\<close>

record ReadEntry =
  re_call :: "nat option"
  re_var :: string
  re_fa :: Lin
  re_fb :: Lin
  is_prod :: bool
  is_div :: bool
  is_mod :: bool
  is_bitand1 :: bool
  is_pair :: bool
  is_bitand :: bool
  is_bitor :: bool
  mon_deg :: int
  mon_base :: Lin
  is_shr :: bool
  is_lshr :: bool

type_synonym ReadsList = "ReadEntry list"

definition lin_eq :: "Lin \<Rightarrow> Lin \<Rightarrow> bool" where
  "lin_eq a b = (let d = lin_sub a b in \<not> lin_ovf d \<and> lin_is_const d \<and> r_num (lin_c d) = 0)"

definition reads_slot :: "string \<Rightarrow> ReadEntry" where
  "reads_slot var =
     \<lparr>re_call = None, re_var = var, re_fa = lin_init, re_fb = lin_init, is_prod = False, is_div = False,
      is_mod = False, is_bitand1 = False, is_pair = False, is_bitand = False, is_bitor = False,
      mon_deg = 0, mon_base = lin_init, is_shr = False, is_lshr = False\<rparr>"

definition reads_push :: "ReadsList \<Rightarrow> nat \<Rightarrow> string \<Rightarrow> ReadsList" where
  "reads_push l call var = l @ [(reads_slot var)\<lparr>re_call := Some call\<rparr>]"

definition reads_find_prod_lin :: "ReadsList \<Rightarrow> Lin \<Rightarrow> ReadEntry option" where
  "reads_find_prod_lin l form =
     (case lin_handle_var form of
        None \<Rightarrow> None
      | Some v \<Rightarrow> List.find (\<lambda>e. is_prod e \<and> re_var e = v) l)"

text \<open>\<open>l\<close> holds the entries before \<open>e\<close>; \<open>e\<close> itself is never its own factor.\<close>

definition classify_monomial :: "ReadsList \<Rightarrow> ReadEntry \<Rightarrow> ReadEntry" where
  "classify_monomial l e =
     (if lin_eq (re_fa e) (re_fb e) then e\<lparr>mon_deg := 2, mon_base := lin_clone (re_fa e)\<rparr>
      else
        let pa = reads_find_prod_lin l (re_fa e);
            pb = reads_find_prod_lin l (re_fb e);
            power = (\<lambda>p. case p of None \<Rightarrow> 0 | Some q \<Rightarrow> mon_deg q);
            base = (\<lambda>p. case p of None \<Rightarrow> lin_init | Some q \<Rightarrow> mon_base q)
        in if 2 \<le> power pa \<and> lin_eq (re_fb e) (base pa)
           then e\<lparr>mon_deg := power pa + 1, mon_base := lin_clone (re_fb e)\<rparr>
           else if 2 \<le> power pb \<and> lin_eq (re_fa e) (base pb)
           then e\<lparr>mon_deg := power pb + 1, mon_base := lin_clone (re_fa e)\<rparr>
           else if 2 \<le> power pa \<and> 2 \<le> power pb \<and> lin_eq (base pa) (base pb)
           then e\<lparr>mon_deg := power pa + power pb, mon_base := lin_clone (base pa)\<rparr>
           else e)"

definition reads_push_prod :: "ReadsList \<Rightarrow> string \<Rightarrow> Lin \<Rightarrow> Lin \<Rightarrow> ReadsList" where
  "reads_push_prod l var fa fb =
     l @ [classify_monomial l ((reads_slot var)\<lparr>re_fa := fa, re_fb := fb, is_prod := True\<rparr>)]"

definition reads_push_div :: "ReadsList \<Rightarrow> string \<Rightarrow> Lin \<Rightarrow> Lin \<Rightarrow> ReadsList" where
  "reads_push_div l var fa fb = l @ [(reads_slot var)\<lparr>re_fa := fa, re_fb := fb, is_div := True\<rparr>]"

definition reads_push_mod :: "ReadsList \<Rightarrow> string \<Rightarrow> Lin \<Rightarrow> Lin \<Rightarrow> ReadsList" where
  "reads_push_mod l var fa fb = l @ [(reads_slot var)\<lparr>re_fa := fa, re_fb := fb, is_mod := True\<rparr>]"

definition reads_push_shr :: "ReadsList \<Rightarrow> string \<Rightarrow> Lin \<Rightarrow> Lin \<Rightarrow> ReadsList" where
  "reads_push_shr l var fa fb = l @ [(reads_slot var)\<lparr>re_fa := fa, re_fb := fb, is_shr := True\<rparr>]"

definition reads_push_lshr :: "ReadsList \<Rightarrow> string \<Rightarrow> Lin \<Rightarrow> Lin \<Rightarrow> ReadsList" where
  "reads_push_lshr l var fa fb = l @ [(reads_slot var)\<lparr>re_fa := fa, re_fb := fb, is_lshr := True\<rparr>]"

definition reads_push_bitmask :: "ReadsList \<Rightarrow> string \<Rightarrow> Lin \<Rightarrow> int \<Rightarrow> ReadsList" where
  "reads_push_bitmask l var fa msk =
     l @ [(reads_slot var)\<lparr>re_fa := fa, re_fb := lin_const (rat_int msk), is_bitand1 := True\<rparr>]"

definition reads_push_bitop :: "ReadsList \<Rightarrow> string \<Rightarrow> Lin \<Rightarrow> Lin \<Rightarrow> bool \<Rightarrow> ReadsList" where
  "reads_push_bitop l var fa fb is_or =
     l @ [(reads_slot var)\<lparr>re_fa := fa, re_fb := fb, is_bitor := is_or, is_bitand := \<not> is_or\<rparr>]"

definition reads_push_pair :: "ReadsList \<Rightarrow> string \<Rightarrow> Lin \<Rightarrow> Lin \<Rightarrow> ReadsList" where
  "reads_push_pair l var fa fb = l @ [(reads_slot var)\<lparr>re_fa := fa, re_fb := fb, is_pair := True\<rparr>]"

definition reads_find_pair :: "ReadsList \<Rightarrow> string \<Rightarrow> ReadEntry option" where
  "reads_find_pair l var = List.find (\<lambda>e. is_pair e \<and> re_var e = var) l"

definition reads_find :: "ReadsList \<Rightarrow> nat \<Rightarrow> string option" where
  "reads_find l call =
     map_option re_var
       (List.find (\<lambda>e. \<not> is_prod e \<and> \<not> is_div e \<and> \<not> is_mod e \<and> \<not> is_bitand1 e \<and> re_call e = Some call) l)"

text \<open>The mask of an \<open>is_bitand1\<close> entry, as the readers of the list take it.\<close>

definition entry_mask :: "Lin \<Rightarrow> int" where
  "entry_mask fb = (if lin_is_const fb \<and> r_den (lin_c fb) = 1 then r_num (lin_c fb) else 1)"

text \<open>An entry with no kind is the one of a call.\<close>

definition reads_clone_entry :: "ReadEntry \<Rightarrow> ReadsList \<Rightarrow> ReadsList" where
  "reads_clone_entry e dst =
     (let v = re_var e; fa = lin_clone (re_fa e); fb = lin_clone (re_fb e) in
      if is_prod e then reads_push_prod dst v fa fb
      else if is_div e then reads_push_div dst v fa fb
      else if is_mod e then reads_push_mod dst v fa fb
      else if is_shr e then reads_push_shr dst v fa fb
      else if is_lshr e then reads_push_lshr dst v fa fb
      else if is_bitand1 e then reads_push_bitmask dst v fa (entry_mask (re_fb e))
      else if is_bitand e \<or> is_bitor e then reads_push_bitop dst v fa fb (is_bitor e)
      else if is_pair e then reads_push_pair dst v fa fb
      else dst @ [(reads_slot v)\<lparr>re_call := re_call e\<rparr>])"

definition reads_clone :: "ReadsList \<Rightarrow> ReadsList" where
  "reads_clone src = fold reads_clone_entry src []"

record ProdEntry =
  p_var :: string
  p_fa :: Lin
  p_fb :: Lin
  p_is_div :: bool
  p_is_mod :: bool
  p_is_bitand1 :: bool
  p_is_bitand :: bool
  p_is_bitor :: bool
  p_is_shr :: bool
  p_is_lshr :: bool

definition prod_of_entry :: "ReadEntry \<Rightarrow> ProdEntry" where
  "prod_of_entry e =
     \<lparr>p_var = re_var e, p_fa = lin_clone (re_fa e), p_fb = lin_clone (re_fb e), p_is_div = is_div e,
      p_is_mod = is_mod e, p_is_bitand1 = is_bitand1 e, p_is_bitand = is_bitand e, p_is_bitor = is_bitor e,
      p_is_shr = is_shr e, p_is_lshr = is_lshr e\<rparr>"

definition prods_clone :: "ReadsList \<Rightarrow> ProdEntry list" where
  "prods_clone src =
     map prod_of_entry
       (filter (\<lambda>e. is_prod e \<or> is_div e \<or> is_mod e \<or> is_shr e \<or> is_lshr e \<or>
                    is_bitand1 e \<or> is_bitand e \<or> is_bitor e) src)"

end
