(* ===== verification/SymExpr.thy ===== *)
theory SymExpr
  imports SymReads "HOL-Library.Monad_Syntax"
begin

text \<open>
  The translation of an expression to a linear form (\<open>se_from_ast\<close> of
  \<open>src/verify_core.c\<close>). The counter \<open>g_prod_ctr\<close> and the list of recorded values
  are threaded through; a caller without a list passes \<open>None\<close>. The result is
  \<open>None\<close> where the C code would execute a division that traps: the smallest
  64-bit integer divided by -1.
\<close>

section \<open>Names of recorded values\<close>

text \<open>\<open>%d\<close> of a number that is not negative.\<close>

fun fmt_d :: "nat \<Rightarrow> string" where
  "fmt_d n = (if n < 10 then [char_of (48 + n)] else fmt_d (n div 10) @ [char_of (48 + n mod 10)])"

declare fmt_d.simps [simp del]

record SeState =
  g_prod_ctr :: nat
  se_reads :: "ReadsList option"

text \<open>Record a value under a fresh name with prefix \<open>p\<close>, if there is a list.\<close>

definition se_record :: "string \<Rightarrow> (ReadsList \<Rightarrow> string \<Rightarrow> ReadsList) \<Rightarrow> SeState \<Rightarrow> Sym \<times> SeState" where
  "se_record p push s =
     (case se_reads s of
        None \<Rightarrow> (sym_nonlin, s)
      | Some l \<Rightarrow>
          let v = p @ fmt_d (g_prod_ctr s)
          in (sym_lin (lin_var v), \<lparr>g_prod_ctr = Suc (g_prod_ctr s), se_reads = Some (push l v)\<rparr>))"

section \<open>Operators\<close>

text \<open>The form is the integer constant \<open>k\<close>.\<close>

definition is_k :: "int \<Rightarrow> Lin \<Rightarrow> bool" where
  "is_k k l \<longleftrightarrow> lin_is_const l \<and> r_num (lin_c l) = k \<and> r_den (lin_c l) = 1"

definition se_mul :: "Sym \<Rightarrow> Sym \<Rightarrow> SeState \<Rightarrow> Sym \<times> SeState" where
  "se_mul l r s =
     (let lc = lin_is_const (s_lin l); rc = lin_is_const (s_lin r);
          linear = (\<not> s_nonlinear l \<and> \<not> s_nonlinear r)
      in if linear \<and> lc \<and> rc then (sym_lin (lin_const (rat_mul (lin_c (s_lin l)) (lin_c (s_lin r)))), s)
         else if linear \<and> lc then (sym_lin (lin_scale (s_lin r) (lin_c (s_lin l))), s)
         else if linear \<and> rc then (sym_lin (lin_scale (s_lin l) (lin_c (s_lin r))), s)
         else if linear \<and> \<not> lin_ovf (s_lin l) \<and> \<not> lin_ovf (s_lin r)
         then se_record ''__p'' (\<lambda>rs v. reads_push_prod rs v (s_lin l) (s_lin r)) s
         else (sym_nonlin, s))"

definition se_divmod :: "bool \<Rightarrow> Sym \<Rightarrow> Sym \<Rightarrow> SeState \<Rightarrow> (Sym \<times> SeState) option" where
  "se_divmod is_quot l r s =
     (let linear = (\<not> s_nonlinear l \<and> \<not> s_nonlinear r);
          a = r_num (lin_c (s_lin l)); b = r_num (lin_c (s_lin r))
      in if linear \<and> lin_is_const (s_lin l) \<and> lin_is_const (s_lin r) \<and> b \<noteq> 0 then
           (if r_den (lin_c (s_lin r)) \<noteq> 1 then Some (sym_nonlin, s)
            else if a = INT64_MIN \<and> b = -1 then None
            else Some (sym_lin (lin_const (rat_int (if is_quot then a sdiv b else a smod b))), s))
         else if linear \<and> \<not> lin_ovf (s_lin l) \<and> \<not> lin_ovf (s_lin r) then
           (if is_k 0 (s_lin r) then Some (sym_nonlin, s)
            else if is_quot
            then Some (se_record ''__d'' (\<lambda>rs v. reads_push_div rs v (s_lin l) (s_lin r)) s)
            else Some (se_record ''__m'' (\<lambda>rs v. reads_push_mod rs v (s_lin l) (s_lin r)) s))
         else Some (sym_nonlin, s))"

text \<open>\<open>- n - 1\<close>.\<close>

definition se_complement :: "Lin \<Rightarrow> Sym" where
  "se_complement l =
     (let t = lin_neg l in
      if lin_ovf t then sym_nonlin
      else
        let c = rat_sub (lin_c t) (rat_int 1)
        in if r_ovf c then sym_nonlin else sym_lin (t\<lparr>lin_c := c\<rparr>))"

definition is_low_mask :: "Lin \<Rightarrow> bool" where
  "is_low_mask l \<longleftrightarrow>
     lin_is_const l \<and> r_den (lin_c l) = 1 \<and> 0 < r_num (lin_c l) \<and>
     (r_num (lin_c l) + 1) AND r_num (lin_c l) = 0"

definition bit_fold :: "binop \<Rightarrow> int \<Rightarrow> int \<Rightarrow> int" where
  "bit_fold op a b = (if op = OP_BIT_AND then a AND b else if op = OP_BIT_OR then a OR b else a XOR b)"

definition se_or :: "Lin \<Rightarrow> Lin \<Rightarrow> SeState \<Rightarrow> Sym \<times> SeState" where
  "se_or l r s =
     (if is_k 0 r then (sym_lin l, s)
      else if is_k 0 l then (sym_lin r, s)
      else if is_k (-1) r \<or> is_k (-1) l then (sym_lin (lin_const (rat_int (-1))), s)
      else if lin_eq l r then (sym_lin l, s)
      else if \<not> lin_ovf l \<and> \<not> lin_ovf r then se_record ''__b'' (\<lambda>rs v. reads_push_bitop rs v l r True) s
      else (sym_nonlin, s))"

definition se_and :: "Lin \<Rightarrow> Lin \<Rightarrow> SeState \<Rightarrow> Sym \<times> SeState" where
  "se_and l r s =
     (if is_k 0 r \<or> is_k 0 l then (sym_lin (lin_const (rat_int 0)), s)
      else if is_k (-1) r then (sym_lin l, s)
      else if is_k (-1) l then (sym_lin r, s)
      else if lin_eq l r then (sym_lin l, s)
      else if se_reads s \<noteq> None \<and> is_low_mask r
      then se_record ''__b'' (\<lambda>rs v. reads_push_bitmask rs v l (r_num (lin_c r))) s
      else if se_reads s \<noteq> None \<and> is_low_mask l
      then se_record ''__b'' (\<lambda>rs v. reads_push_bitmask rs v r (r_num (lin_c l))) s
      else if \<not> lin_ovf l \<and> \<not> lin_ovf r then se_record ''__b'' (\<lambda>rs v. reads_push_bitop rs v l r False) s
      else (sym_nonlin, s))"

definition se_xor :: "Lin \<Rightarrow> Lin \<Rightarrow> SeState \<Rightarrow> Sym \<times> SeState" where
  "se_xor l r s =
     (if is_k 0 r then (sym_lin l, s)
      else if is_k 0 l then (sym_lin r, s)
      else if lin_eq l r then (sym_lin (lin_const (rat_int 0)), s)
      else if is_k (-1) r then (se_complement l, s)
      else if is_k (-1) l then (se_complement r, s)
      else (sym_nonlin, s))"

definition se_bits :: "binop \<Rightarrow> Sym \<Rightarrow> Sym \<Rightarrow> SeState \<Rightarrow> Sym \<times> SeState" where
  "se_bits op l0 r0 s =
     (let l = s_lin l0; r = s_lin r0 in
      if s_nonlinear l0 \<or> s_nonlinear r0 then (sym_nonlin, s)
      else if lin_is_const l \<and> lin_is_const r \<and> r_den (lin_c l) = 1 \<and> r_den (lin_c r) = 1
      then (sym_lin (lin_const (rat_int (bit_fold op (r_num (lin_c l)) (r_num (lin_c r))))), s)
      else if op = OP_BIT_OR then se_or l r s
      else if op = OP_BIT_AND then se_and l r s
      else se_xor l r s)"

definition se_shift :: "binop \<Rightarrow> Sym \<Rightarrow> Sym \<Rightarrow> SeState \<Rightarrow> Sym \<times> SeState" where
  "se_shift op l0 r0 s =
     (let l = s_lin l0; r = s_lin r0; k = r_num (lin_c r) in
      if s_nonlinear l0 \<or> s_nonlinear r0 then (sym_nonlin, s)
      else if lin_is_const r \<and> r_den (lin_c r) = 1 \<and> 0 \<le> k \<and> k \<le> 62 then
        (if op = OP_LSHIFT then (sym_lin (lin_scale l (rat_int (2 ^ nat k))), s)
         else if lin_is_const l \<and> r_den (lin_c l) = 1 then
           (let n = word_of_int (r_num (lin_c l)); w = word_of_int k;
                v = (if op = OP_URSHIFT then baga_lshr_i64 n w else baga_ashr_i64 n w)
            in (sym_lin (lin_const (rat_int (sint v))), s))
         else if k = 0 then (sym_lin l, s)
         else if op = OP_URSHIFT
         then se_record ''__d'' (\<lambda>rs v. reads_push_lshr rs v l (lin_const (rat_int k))) s
         else se_record ''__d'' (\<lambda>rs v. reads_push_shr rs v l (lin_const (rat_int k))) s)
      else (sym_nonlin, s))"

definition se_linear :: "(Lin \<Rightarrow> Lin \<Rightarrow> Lin) \<Rightarrow> Sym \<Rightarrow> Sym \<Rightarrow> Sym" where
  "se_linear f l r =
     (if s_nonlinear l \<or> s_nonlinear r then sym_nonlin else sym_lin (f (s_lin l) (s_lin r)))"

definition se_binary :: "binop \<Rightarrow> Sym \<Rightarrow> Sym \<Rightarrow> SeState \<Rightarrow> (Sym \<times> SeState) option" where
  "se_binary op l r s =
     (case op of
        OP_ADD \<Rightarrow> Some (se_linear lin_add l r, s)
      | OP_SUB \<Rightarrow> Some (se_linear lin_sub l r, s)
      | OP_MUL \<Rightarrow> Some (se_mul l r s)
      | OP_DIV \<Rightarrow> se_divmod True l r s
      | OP_MOD \<Rightarrow> se_divmod False l r s
      | OP_BIT_OR \<Rightarrow> Some (se_bits op l r s)
      | OP_BIT_AND \<Rightarrow> Some (se_bits op l r s)
      | OP_BIT_XOR \<Rightarrow> Some (se_bits op l r s)
      | OP_LSHIFT \<Rightarrow> Some (se_shift op l r s)
      | OP_RSHIFT \<Rightarrow> Some (se_shift op l r s)
      | OP_URSHIFT \<Rightarrow> Some (se_shift op l r s)
      | _ \<Rightarrow> Some (sym_nonlin, s))"

section \<open>Calls\<close>

definition se_pair :: "Sym \<Rightarrow> Sym \<Rightarrow> SeState \<Rightarrow> Sym \<times> SeState" where
  "se_pair a b s =
     (if s_nonlinear a \<or> s_nonlinear b then (sym_nonlin, s)
      else se_record ''__q'' (\<lambda>rs v. reads_push_pair rs v (s_lin a) (s_lin b)) s)"

definition se_project :: "bool \<Rightarrow> Sym \<Rightarrow> SeState \<Rightarrow> Sym" where
  "se_project first p s =
     (if s_nonlinear p then sym_nonlin
      else
        (case lin_handle_var (s_lin p) of
           None \<Rightarrow> sym_nonlin
         | Some v \<Rightarrow>
             (case Option.bind (se_reads s) (\<lambda>l. reads_find_pair l v) of
                None \<Rightarrow> sym_nonlin
              | Some e \<Rightarrow> sym_lin (lin_clone (if first then re_fa e else re_fb e)))))"

definition len_name :: "string \<Rightarrow> string" where
  "len_name v = take 299 (''__len_'' @ v)"

definition se_vec_len :: "string \<Rightarrow> VLenMap \<Rightarrow> Sym" where
  "se_vec_len v vlen =
     (case vlen_find vlen v of
        None \<Rightarrow> sym_nonlin
      | Some e \<Rightarrow> sym_lin (if vl_unknown e then lin_var (len_name v) else lin_clone (vl_len e)))"

definition se_ident :: "string \<Rightarrow> SEnv \<Rightarrow> Sym" where
  "se_ident x env =
     (case env_find env x of
        None \<Rightarrow> sym_lin (lin_var x)
      | Some b \<Rightarrow> if b_nonlinear b then sym_nonlin else sym_lin (lin_clone (b_lin b)))"

section \<open>Expressions\<close>

fun se_from_ast :: "node \<Rightarrow> SEnv \<Rightarrow> VLenMap \<Rightarrow> SeState \<Rightarrow> (Sym \<times> SeState) option" where
  "se_from_ast (NODE_INT_LIT n) env vlen s = Some (sym_lin (lin_const (rat_int (sint n))), s)"
| "se_from_ast (NODE_IDENT x) env vlen s = Some (se_ident x env, s)"
| "se_from_ast (NODE_UNARY op e) env vlen s =
     (if op = UOP_NEG then
        do {
          (v, s1) \<leftarrow> se_from_ast e env vlen s;
          Some (if s_nonlinear v then v else sym_lin (lin_neg (s_lin v)), s1)
        }
      else Some (sym_nonlin, s))"
| "se_from_ast (NODE_CALL call callee args targs) env vlen s =
     (case Option.bind (se_reads s) (\<lambda>l. reads_find l call) of
        Some rv \<Rightarrow> Some (sym_lin (lin_var rv), s)
      | None \<Rightarrow>
          (case callee of
             NODE_IDENT pn \<Rightarrow>
               if pn = ''cell2'' then
                 (case args of
                    [a, b] \<Rightarrow>
                      if se_reads s = None then Some (sym_nonlin, s)
                      else do {
                        (x, s1) \<leftarrow> se_from_ast a env vlen s;
                        (y, s2) \<leftarrow> se_from_ast b env vlen s1;
                        Some (se_pair x y s2)
                      }
                  | _ \<Rightarrow> Some (sym_nonlin, s))
               else if pn = ''cell2_0'' \<or> pn = ''cell2_1'' then
                 (case args of
                    [a] \<Rightarrow>
                      if se_reads s = None then Some (sym_nonlin, s)
                      else do {
                        (p, s1) \<leftarrow> se_from_ast a env vlen s;
                        Some (se_project (pn = ''cell2_0'') p s1, s1)
                      }
                  | _ \<Rightarrow> Some (sym_nonlin, s))
               else if pn = ''vec_len'' then
                 (case args of
                    [NODE_IDENT v] \<Rightarrow> Some (se_vec_len v vlen, s)
                  | _ \<Rightarrow> Some (sym_nonlin, s))
               else Some (sym_nonlin, s)
           | _ \<Rightarrow> Some (sym_nonlin, s)))"
| "se_from_ast (NODE_BINARY op a b) env vlen s =
     do {
       (l, s1) \<leftarrow> se_from_ast a env vlen s;
       (r, s2) \<leftarrow> se_from_ast b env vlen s1;
       se_binary op l r s2
     }"
| "se_from_ast _ env vlen s = Some (sym_nonlin, s)"

end
