(* ===== verification/SymSem.thy ===== *)
theory SymSem
  imports SymExpr FmSound
begin

text \<open>
  What the translation of expressions means. The reference is the value of an
  expression over unbounded integers, with C's truncated division; a valuation
  of the symbols is related to it when every recorded value has the value its
  entry stands for. Each operation extends such a valuation to the names it
  creates and keeps the value.
\<close>

section \<open>The value of an expression\<close>

record zenv =
  z_var :: "string \<Rightarrow> int"
  z_call :: "nat \<Rightarrow> int option"
  z_len :: "string \<Rightarrow> int"
  z_pair :: "int \<Rightarrow> int \<Rightarrow> int"
  z_fst :: "int \<Rightarrow> int"
  z_snd :: "int \<Rightarrow> int"

definition zop :: "binop \<Rightarrow> int \<Rightarrow> int \<Rightarrow> int option" where
  "zop op a b =
     (case op of
        OP_ADD \<Rightarrow> Some (a + b)
      | OP_SUB \<Rightarrow> Some (a - b)
      | OP_MUL \<Rightarrow> Some (a * b)
      | OP_DIV \<Rightarrow> if b = 0 then None else Some (a sdiv b)
      | OP_MOD \<Rightarrow> if b = 0 then None else Some (a smod b)
      | OP_BIT_AND \<Rightarrow> Some (a AND b)
      | OP_BIT_OR \<Rightarrow> Some (a OR b)
      | OP_BIT_XOR \<Rightarrow> Some (a XOR b)
      | OP_LSHIFT \<Rightarrow> Some (a * 2 ^ nat (b mod 64))
      | OP_RSHIFT \<Rightarrow> Some (a div 2 ^ nat (b mod 64))
      | OP_URSHIFT \<Rightarrow>
          Some (if b mod 64 = 0 then a else (a mod 2 ^ 64) div 2 ^ nat (b mod 64))
      | _ \<Rightarrow> None)"

fun zval :: "zenv \<Rightarrow> node \<Rightarrow> int option" where
  "zval z (NODE_INT_LIT n) = Some (sint n)"
| "zval z (NODE_IDENT x) = Some (z_var z x)"
| "zval z (NODE_UNARY op e) = (if op = UOP_NEG then map_option uminus (zval z e) else None)"
| "zval z (NODE_BINARY op a b) =
     do { x \<leftarrow> zval z a; y \<leftarrow> zval z b; zop op x y }"
| "zval z (NODE_CALL call callee args targs) =
     (case z_call z call of
        Some v \<Rightarrow> Some v
      | None \<Rightarrow>
          (case callee of
             NODE_IDENT pn \<Rightarrow>
               if pn = ''cell2'' then
                 (case args of [a, b] \<Rightarrow> do { x \<leftarrow> zval z a; y \<leftarrow> zval z b; Some (z_pair z x y) } | _ \<Rightarrow> None)
               else if pn = ''cell2_0'' then (case args of [a] \<Rightarrow> map_option (z_fst z) (zval z a) | _ \<Rightarrow> None)
               else if pn = ''cell2_1'' then (case args of [a] \<Rightarrow> map_option (z_snd z) (zval z a) | _ \<Rightarrow> None)
               else if pn = ''vec_len'' then
                 (case args of [NODE_IDENT v] \<Rightarrow> Some (z_len z v) | _ \<Rightarrow> None)
               else None
           | _ \<Rightarrow> None))"
| "zval z _ = None"

text \<open>The identifiers an expression reads.\<close>

fun idents :: "node \<Rightarrow> string set" where
  "idents (NODE_IDENT x) = {x}"
| "idents (NODE_UNARY op e) = idents e"
| "idents (NODE_BINARY op a b) = idents a \<union> idents b"
| "idents (NODE_CALL call callee args targs) = \<Union> (set (map idents args))"
| "idents _ = {}"

section \<open>Fresh names\<close>

definition undec :: "string \<Rightarrow> nat" where
  "undec = foldl (\<lambda>n c. 10 * n + (of_char c - 48)) 0"

lemma undec_fmt_d: "undec (fmt_d n) = n"
proof (induction n rule: fmt_d.induct)
  case (1 n)
  show ?case
  proof (cases "n < 10")
    case True
    then show ?thesis by (subst fmt_d.simps) (simp add: undec_def of_char_of)
  next
    case False
    have "48 + n mod 10 < 256" by (rule less_trans [of _ 58]) simp_all
    then have "(of_char (char_of (48 + n mod 10) :: char) :: nat) = 48 + n mod 10"
      by (simp add: of_char_of)
    then have "undec (fmt_d n) = 10 * undec (fmt_d (n div 10)) + n mod 10"
      using False by (subst fmt_d.simps) (simp add: undec_def)
    with 1 False show ?thesis by simp
  qed
qed

definition record_prefixes :: "string list" where
  "record_prefixes = [''__q'', ''__p'', ''__d'', ''__m'', ''__b'']"

text \<open>Not one of the names that the counter still has to give out.\<close>

definition old :: "nat \<Rightarrow> string \<Rightarrow> bool" where
  "old c x \<longleftrightarrow> (\<forall>p \<in> set record_prefixes. \<forall>k \<ge> c. x \<noteq> p @ fmt_d k)"

lemma old_mono: "old c x \<Longrightarrow> c \<le> d \<Longrightarrow> old d x"
  by (auto simp: old_def)

lemma fresh_name:
  assumes "p \<in> set record_prefixes"
  shows "\<not> old c (p @ fmt_d c)" "old (Suc c) (p @ fmt_d c)"
proof -
  show "\<not> old c (p @ fmt_d c)" using assms by (auto simp: old_def)
  have "k = c" if "p @ fmt_d c = q @ fmt_d k" "q \<in> set record_prefixes" for q k
  proof -
    have "length p = length q" using assms that(2) by (auto simp: record_prefixes_def)
    with that(1) have "fmt_d c = fmt_d k" by simp
    then show ?thesis by (metis undec_fmt_d)
  qed
  then show "old (Suc c) (p @ fmt_d c)" by (fastforce simp: old_def)
qed

lemma old_len_name: "old c (len_name v)"
proof -
  have "take 3 (len_name v) = ''__l''" by (simp add: len_name_def)
  moreover have "take 3 (p @ fmt_d k) = p" if "p \<in> set record_prefixes" for p k
    using that by (auto simp: record_prefixes_def)
  ultimately show ?thesis by (fastforce simp: old_def record_prefixes_def)
qed

definition agree :: "nat \<Rightarrow> (string \<Rightarrow> rat) \<Rightarrow> (string \<Rightarrow> rat) \<Rightarrow> bool" where
  "agree c \<nu> \<nu>' \<longleftrightarrow> (\<forall>x. old c x \<longrightarrow> \<nu>' x = \<nu> x)"

lemma agree_same: "agree c \<nu> \<nu>" by (simp add: agree_def)

lemma agree_step: "agree c \<nu> \<nu>' \<Longrightarrow> c \<le> d \<Longrightarrow> agree d \<nu>' \<nu>'' \<Longrightarrow> agree c \<nu> \<nu>''"
  by (auto simp: agree_def dest: old_mono)

section \<open>Forms over the names given out so far\<close>

definition settled :: "nat \<Rightarrow> ((string \<Rightarrow> rat) \<Rightarrow> rat) \<Rightarrow> bool" where
  "settled c f \<longleftrightarrow> (\<forall>\<nu>. int_valued \<nu> \<longrightarrow> f \<nu> \<in> \<int>) \<and> (\<forall>\<nu> \<nu>'. agree c \<nu> \<nu>' \<longrightarrow> f \<nu>' = f \<nu>)"

definition good :: "nat \<Rightarrow> Lin \<Rightarrow> bool" where
  "good c l \<longleftrightarrow> lin_ok l \<and> settled c (\<lambda>\<nu>. lin_val \<nu> l)"

lemma settled_closed:
  "settled c f \<Longrightarrow> settled c g \<Longrightarrow> settled c (\<lambda>\<nu>. f \<nu> + g \<nu>)"
  "settled c f \<Longrightarrow> settled c g \<Longrightarrow> settled c (\<lambda>\<nu>. f \<nu> - g \<nu>)"
  "settled c f \<Longrightarrow> settled c g \<Longrightarrow> settled c (\<lambda>\<nu>. f \<nu> * g \<nu>)"
  "settled c f \<Longrightarrow> settled c (\<lambda>\<nu>. - f \<nu>)"
  "settled c (\<lambda>\<nu>. of_int k)" "old c x \<Longrightarrow> settled c (\<lambda>\<nu>. \<nu> x)"
proof -
  assume f: "settled c f"
  show "settled c (\<lambda>\<nu>. - f \<nu>)" using f unfolding settled_def by (metis Ints_minus)
  assume g: "settled c g"
  show "settled c (\<lambda>\<nu>. f \<nu> + g \<nu>)" using f g unfolding settled_def by (metis Ints_add)
  show "settled c (\<lambda>\<nu>. f \<nu> - g \<nu>)" using f g unfolding settled_def by (metis Ints_diff)
  show "settled c (\<lambda>\<nu>. f \<nu> * g \<nu>)" using f g unfolding settled_def by (metis Ints_mult)
next
  show "settled c (\<lambda>\<nu>. of_int k)" by (simp add: settled_def)
  show "settled c (\<lambda>\<nu>. \<nu> x)" if "old c x" using that by (auto simp: settled_def agree_def int_valued_def)
qed

lemma settled_mono: "settled c f \<Longrightarrow> c \<le> d \<Longrightarrow> settled d f"
proof -
  assume "c \<le> d"
  then have "agree c \<nu> \<nu>'" if "agree d \<nu> \<nu>'" for \<nu> \<nu>' using that by (auto simp: agree_def dest: old_mono)
  then show "settled c f \<Longrightarrow> settled d f" unfolding settled_def by metis
qed

lemma good_mono: "good c l \<Longrightarrow> c \<le> d \<Longrightarrow> good d l"
  by (auto simp: good_def intro: settled_mono)

lemma goodI: "lin_res l f \<Longrightarrow> \<not> lin_ovf l \<Longrightarrow> settled c f \<Longrightarrow> good c l \<and> (\<forall>\<nu>. lin_val \<nu> l = f \<nu>)"
  by (auto simp: good_def lin_res_def)

lemma good_res: "good c l \<Longrightarrow> lin_res l (\<lambda>\<nu>. lin_val \<nu> l)"
  by (simp add: good_def lin_ok_res)

lemma good_int: "good c l \<Longrightarrow> int_valued \<nu> \<Longrightarrow> \<exists>a. lin_val \<nu> l = of_int a"
  unfolding good_def settled_def by (metis Ints_cases)

lemma good_clone [simp]: "good c l \<Longrightarrow> lin_clone l = l"
  by (simp add: good_def lin_ok_def lin_clone_id)

lemma good_var: "old c x \<Longrightarrow> good c (lin_var x)" and lin_var_val: "lin_val \<nu> (lin_var x) = \<nu> x"
proof -
  have "\<not> lin_ovf (lin_var x)" by (simp add: lin_var_def lin_push_raw_def lin_init_def)
  with lin_var_res [of x] show "lin_val \<nu> (lin_var x) = \<nu> x" by (simp add: lin_res_def)
  from goodI [OF lin_var_res \<open>\<not> lin_ovf (lin_var x)\<close> settled_closed(6)]
  show "old c x \<Longrightarrow> good c (lin_var x)" by blast
qed

lemma lin_var_ovf [simp]: "\<not> lin_ovf (lin_var x)"
  by (simp add: lin_var_def lin_push_raw_def lin_init_def)

lemma rat_ok_int: "rat_ok r \<Longrightarrow> rat_val r = of_int a \<Longrightarrow> r_num r = a \<and> r_den r = 1"
proof -
  assume r: "rat_ok r" "rat_val r = of_int a"
  then have "(of_int (r_num r) :: rat) = of_int (a * r_den r)"
    by (simp add: rat_val_def rat_ok_def field_simps)
  then have n: "r_num r = a * r_den r" by (simp only: of_int_eq_iff)
  with r(1) have "coprime (a * r_den r) (r_den r)" "0 < r_den r" by (simp_all add: rat_ok_def)
  then have "is_unit (r_den r)" "0 < r_den r" by (simp_all add: coprime_mult_left_iff)
  then have "r_den r = 1" by (simp add: zdvd1_eq)
  with n show ?thesis by simp
qed

text \<open>A constant form has an integer constant in the range of \<open>int64_t\<close>.\<close>

lemma good_const:
  assumes "good c l" "lin_is_const l"
  shows "lin_val \<nu> l = of_int (r_num (lin_c l))" "r_den (lin_c l) = 1" "in_i64 (r_num (lin_c l))" "rat_ok (lin_c l)"
    "rat_val (lin_c l) = of_int (r_num (lin_c l))"
proof -
  have v: "lin_val \<mu> l = rat_val (lin_c l)" for \<mu>
    using assms(2) by (simp add: lin_val_def lin_is_const_def lin_simps)
  show ok: "rat_ok (lin_c l)" using assms(1) by (simp add: good_def lin_ok_def)
  have "int_valued (\<lambda>_. 0)" by (simp add: int_valued_def)
  from good_int [OF assms(1) this] v obtain a where "rat_val (lin_c l) = of_int a" by auto
  from rat_ok_int [OF ok this] this v
  show "lin_val \<nu> l = of_int (r_num (lin_c l))" "r_den (lin_c l) = 1" "rat_val (lin_c l) = of_int (r_num (lin_c l))"
    by simp_all
  show "in_i64 (r_num (lin_c l))" using ok by (simp add: rat_ok_def)
qed

lemma good_int_const: "in_i64 k \<Longrightarrow> good c (lin_const (rat_int k)) \<and> (\<forall>\<nu>. lin_val \<nu> (lin_const (rat_int k)) = of_int k)"
  using goodI [OF lin_const_res [OF rat_ok_res [OF rat_int_ok]], of k c]
  by (simp add: rat_int_val settled_closed lin_const_def)

lemma lin_const_int_ovf [simp]: "\<not> lin_ovf (lin_const (rat_int k))"
  by (simp add: lin_const_def)

lemma is_k_val: "is_k k l \<Longrightarrow> lin_val \<nu> l = of_int k"
  by (simp add: is_k_def lin_val_def lin_is_const_def lin_simps rat_val_def)

lemma lin_eq_val: "good c l \<Longrightarrow> good c r \<Longrightarrow> lin_eq l r \<Longrightarrow> lin_val \<nu> l = lin_val \<nu> r"
  using lin_sub_res [OF good_res good_res, of c l c r]
  by (auto simp: lin_eq_def Let_def lin_res_def lin_val_def lin_is_const_def lin_simps rat_val_def)

lemma handle_var_val:
  assumes "lin_ok l" "lin_handle_var l = Some v"
  shows "lin_val \<nu> l = \<nu> v"
proof -
  obtain k where k: "lin_terms l = [(v, k)]" "r_num (lin_c l) = 0" "r_num k = r_den k"
    using assms(2) by (auto simp: lin_handle_var_def split: list.splits if_splits)
  have "rat_ok k" using assms(1) k(1) by (simp add: lin_ok_def terms_ok_def)
  then have "rat_val k = 1" using k(3) by (simp add: rat_val_def rat_ok_def)
  with k show ?thesis by (simp add: lin_val_def lin_simps rat_val_def)
qed

end
