(* ===== verification/SymOps.thy ===== *)
theory SymOps
  imports SymSem
begin

text \<open>
  The step lemmas of the translation: recording a value extends every valuation
  to the new name, and each operator keeps the value of its operands.
\<close>

section \<open>Recorded values\<close>

definition entry_val :: "zenv \<Rightarrow> ReadEntry \<Rightarrow> int \<Rightarrow> int \<Rightarrow> int option" where
  "entry_val z e a b =
     (if is_pair e then Some (z_pair z a b)
      else if is_prod e then Some (a * b)
      else if is_div e then zop OP_DIV a b
      else if is_mod e then zop OP_MOD a b
      else if is_shr e then zop OP_RSHIFT a b
      else if is_lshr e then zop OP_URSHIFT a b
      else if is_bitand1 e \<or> is_bitand e then Some (a AND b)
      else if is_bitor e then Some (a OR b)
      else None)"

text \<open>The valuation gives the name of the entry the value the entry stands for.\<close>

definition entry_true :: "zenv \<Rightarrow> (string \<Rightarrow> rat) \<Rightarrow> ReadEntry \<Rightarrow> bool" where
  "entry_true z \<nu> e \<longleftrightarrow>
     (\<forall>call. re_call e = Some call \<longrightarrow> (\<exists>v. z_call z call = Some v \<and> \<nu> (re_var e) = of_int v)) \<and>
     (\<forall>a b v. lin_val \<nu> (re_fa e) = of_int a \<longrightarrow> lin_val \<nu> (re_fb e) = of_int b \<longrightarrow>
        entry_val z e a b = Some v \<longrightarrow> \<nu> (re_var e) = of_int v)"

definition entries :: "SeState \<Rightarrow> ReadsList" where
  "entries s = (case se_reads s of None \<Rightarrow> [] | Some l \<Rightarrow> l)"

definition all_true :: "zenv \<Rightarrow> (string \<Rightarrow> rat) \<Rightarrow> ReadsList \<Rightarrow> bool" where
  "all_true z \<nu> es \<longleftrightarrow> (\<forall>e \<in> set es. entry_true z \<nu> e)"

definition entry_ok :: "nat \<Rightarrow> ReadEntry \<Rightarrow> bool" where
  "entry_ok c e \<longleftrightarrow> old c (re_var e) \<and> good c (re_fa e) \<and> good c (re_fb e)"

definition st_ok :: "SeState \<Rightarrow> bool" where
  "st_ok s \<longleftrightarrow> (\<forall>e \<in> set (entries s). entry_ok (g_prod_ctr s) e)"

text \<open>From \<open>s\<close> to \<open>s'\<close> entries are appended, and every valuation extends to their names.\<close>

definition extends :: "zenv \<Rightarrow> SeState \<Rightarrow> SeState \<Rightarrow> bool" where
  "extends z s s' \<longleftrightarrow>
     g_prod_ctr s \<le> g_prod_ctr s' \<and> st_ok s' \<and> (\<exists>new. entries s' = entries s @ new) \<and>
     (\<forall>\<nu>. int_valued \<nu> \<longrightarrow> all_true z \<nu> (entries s) \<longrightarrow>
        (\<exists>\<nu>'. int_valued \<nu>' \<and> agree (g_prod_ctr s) \<nu> \<nu>' \<and> all_true z \<nu>' (entries s')))"

lemma extends_refl: "st_ok s \<Longrightarrow> extends z s s"
  unfolding extends_def using agree_same by auto

lemma extends_trans:
  assumes 1: "extends z s s1" and 2: "extends z s1 s2"
  shows "extends z s s2"
proof -
  have "\<exists>\<nu>'. int_valued \<nu>' \<and> agree (g_prod_ctr s) \<nu> \<nu>' \<and> all_true z \<nu>' (entries s2)"
    if "int_valued \<nu>" "all_true z \<nu> (entries s)" for \<nu>
  proof -
    from 1 that obtain \<mu> where m: "int_valued \<mu>" "agree (g_prod_ctr s) \<nu> \<mu>" "all_true z \<mu> (entries s1)"
      unfolding extends_def by blast
    with 2 obtain \<mu>' where "int_valued \<mu>'" "agree (g_prod_ctr s1) \<mu> \<mu>'" "all_true z \<mu>' (entries s2)"
      unfolding extends_def by blast
    moreover have "g_prod_ctr s \<le> g_prod_ctr s1" using 1 by (simp add: extends_def)
    ultimately show ?thesis using m(2) agree_step by blast
  qed
  moreover have "\<exists>new. entries s2 = entries s @ new" using 1 2 unfolding extends_def by (metis append.assoc)
  ultimately show ?thesis using 1 2 unfolding extends_def by (meson order_trans)
qed

lemma extendsD:
  "extends z s s' \<Longrightarrow> st_ok s'" "extends z s s' \<Longrightarrow> g_prod_ctr s \<le> g_prod_ctr s'"
  "extends z s s' \<Longrightarrow> all_true z \<nu> (entries s') \<Longrightarrow> all_true z \<nu> (entries s)"
  unfolding extends_def all_true_def by auto

lemma lin_val_agree: "good c l \<Longrightarrow> agree c \<nu> \<nu>' \<Longrightarrow> lin_val \<nu>' l = lin_val \<nu> l"
  unfolding good_def settled_def by blast

lemma entry_true_agree:
  assumes "entry_ok c e" "agree c \<nu> \<nu>'" "entry_true z \<nu> e"
  shows "entry_true z \<nu>' e"
proof -
  have "\<nu>' (re_var e) = \<nu> (re_var e)" "lin_val \<nu>' (re_fa e) = lin_val \<nu> (re_fa e)"
    "lin_val \<nu>' (re_fb e) = lin_val \<nu> (re_fb e)"
    using assms(1,2) lin_val_agree by (auto simp: entry_ok_def agree_def)
  then show ?thesis using assms(3) by (simp add: entry_true_def)
qed

text \<open>The result of a translation step: \<open>P\<close> holds of its value once all entries are true.\<close>

definition yields :: "zenv \<Rightarrow> SeState \<Rightarrow> ((string \<Rightarrow> rat) \<Rightarrow> rat \<Rightarrow> bool) \<Rightarrow> Sym \<times> SeState \<Rightarrow> bool" where
  "yields z s P r \<longleftrightarrow>
     (case r of (y, s') \<Rightarrow>
        extends z s s' \<and>
        (s_nonlinear y \<or> good (g_prod_ctr s') (s_lin y) \<and>
          (\<forall>\<nu>. int_valued \<nu> \<longrightarrow> all_true z \<nu> (entries s') \<longrightarrow> P \<nu> (lin_val \<nu> (s_lin y)))))"

lemma yields_nonlin: "st_ok s \<Longrightarrow> yields z s P (sym_nonlin, s)"
  by (simp add: yields_def extends_refl sym_nonlin_def)

lemma yields_lin:
  assumes "st_ok s" "lin_res l f" "settled (g_prod_ctr s) f"
    and "\<And>\<nu>. int_valued \<nu> \<Longrightarrow> all_true z \<nu> (entries s) \<Longrightarrow> P \<nu> (f \<nu>)"
  shows "yields z s P (sym_lin l, s)"
proof (cases "lin_ovf l")
  case False
  then show ?thesis
    using goodI [OF assms(2) False assms(3)] extends_refl [OF assms(1)] assms(4) by (simp add: yields_def sym_lin_def)
qed (simp add: yields_def sym_lin_def extends_refl assms(1))

lemma yields_good:
  assumes "st_ok s" "good (g_prod_ctr s) l"
    and "\<And>\<nu>. int_valued \<nu> \<Longrightarrow> all_true z \<nu> (entries s) \<Longrightarrow> P \<nu> (lin_val \<nu> l)"
  shows "yields z s P (sym_lin l, s)"
  using assms yields_lin [OF assms(1) good_res [OF assms(2)]] by (simp add: good_def)

lemma yields_int:
  assumes "st_ok s" "in_i64 k"
    and "\<And>\<nu>. int_valued \<nu> \<Longrightarrow> all_true z \<nu> (entries s) \<Longrightarrow> P \<nu> (of_int k)"
  shows "yields z s P (sym_lin (lin_const (rat_int k)), s)"
  using yields_good [OF assms(1), of "lin_const (rat_int k)" z P] good_int_const [OF assms(2)] assms(3) by simp

lemma yields_record:
  assumes s: "st_ok s" and p: "p \<in> set record_prefixes"
    and push: "\<And>l v. \<exists>e. push l v = l @ [e] \<and> re_var e = v \<and> re_call e = None \<and> re_fa e = fa \<and> re_fb e = fb \<and>
      (\<forall>a b. entry_val z e a b = g a b)"
    and fa: "good (g_prod_ctr s) fa" and fb: "good (g_prod_ctr s) fb"
    and P: "\<And>\<nu> a b w. lin_val \<nu> fa = of_int a \<Longrightarrow> lin_val \<nu> fb = of_int b \<Longrightarrow>
      (\<And>v. g a b = Some v \<Longrightarrow> w = of_int v) \<Longrightarrow> P \<nu> w"
  shows "yields z s P (se_record p push s)"
proof (cases "se_reads s")
  case None
  then show ?thesis using s by (simp add: se_record_def yields_nonlin)
next
  case (Some l)
  let ?c = "g_prod_ctr s" let ?v = "p @ fmt_d ?c"
  obtain e where e: "push l ?v = l @ [e]" "re_var e = ?v" "re_call e = None" "re_fa e = fa" "re_fb e = fb"
    "\<And>a b. entry_val z e a b = g a b" using push by blast
  let ?s = "\<lparr>g_prod_ctr = Suc ?c, se_reads = Some (l @ [e])\<rparr>"
  have r: "se_record p push s = (sym_lin (lin_var ?v), ?s)" by (simp add: se_record_def Some e(1))
  have es: "entries s = l" "entries ?s = l @ [e]" by (simp_all add: entries_def Some)
  have ok: "entry_ok ?c x" if "x \<in> set l" for x using s that by (simp add: st_ok_def es)
  have ok': "st_ok ?s"
    unfolding st_ok_def es
    using ok good_mono old_mono fresh_name(2) [OF p, of ?c] e(2,4,5) fa fb
    by (fastforce simp: entry_ok_def)
  have "\<exists>\<nu>'. int_valued \<nu>' \<and> agree ?c \<nu> \<nu>' \<and> all_true z \<nu>' (l @ [e])" if i: "int_valued \<nu>" and t: "all_true z \<nu> l" for \<nu>
  proof -
    obtain a b where ab: "lin_val \<nu> fa = of_int a" "lin_val \<nu> fb = of_int b"
      using good_int [OF fa i] good_int [OF fb i] by blast
    let ?w = "case g a b of Some v \<Rightarrow> v | None \<Rightarrow> 0"
    let ?n = "\<nu>(?v := of_int ?w)"
    have ag: "agree ?c \<nu> ?n" using fresh_name(1) [OF p] by (auto simp: agree_def)
    have "entry_true z ?n e"
      unfolding entry_true_def using ab lin_val_agree [OF fa ag] lin_val_agree [OF fb ag] by (simp add: e)
    moreover have "entry_true z ?n x" if "x \<in> set l" for x
      using entry_true_agree [OF ok [OF that] ag] t that by (simp add: all_true_def)
    moreover have "int_valued ?n" using i by (simp add: int_valued_def)
    ultimately show ?thesis using ag by (intro exI [of _ ?n]) (auto simp: all_true_def)
  qed
  then have ext: "extends z s ?s" using ok' by (simp add: extends_def es)
  have val: "P \<nu> (\<nu> ?v)" if i: "int_valued \<nu>" and t: "all_true z \<nu> (l @ [e])" for \<nu>
  proof -
    obtain a b where ab: "lin_val \<nu> fa = of_int a" "lin_val \<nu> fb = of_int b"
      using good_int [OF fa i] good_int [OF fb i] by blast
    have "\<nu> ?v = of_int v" if "g a b = Some v" for v
      using t ab that unfolding all_true_def entry_true_def by (simp add: e)
    with P [OF ab] show ?thesis by blast
  qed
  show ?thesis
    using ext val good_var [OF fresh_name(2) [OF p]]
    by (simp add: r yields_def sym_lin_def lin_var_val es)
qed

section \<open>Operators\<close>

text \<open>The value of a binary operation on the values of two forms.\<close>

definition op_result :: "binop \<Rightarrow> Lin \<Rightarrow> Lin \<Rightarrow> (string \<Rightarrow> rat) \<Rightarrow> rat \<Rightarrow> bool" where
  "op_result op l r \<nu> w \<longleftrightarrow>
     (\<forall>a b v. lin_val \<nu> l = of_int a \<longrightarrow> lin_val \<nu> r = of_int b \<longrightarrow> zop op a b = Some v \<longrightarrow> w = of_int v)"

lemma op_resultI:
  "(\<And>a b v. lin_val \<nu> l = of_int a \<Longrightarrow> lin_val \<nu> r = of_int b \<Longrightarrow> zop op a b = Some v \<Longrightarrow> w = of_int v) \<Longrightarrow>
   op_result op l r \<nu> w"
  by (simp add: op_result_def)

lemma push_entry:
  "\<exists>e. reads_push_div l v fa fb = l @ [e] \<and> re_var e = v \<and> re_call e = None \<and> re_fa e = fa \<and> re_fb e = fb \<and>
     (\<forall>a b. entry_val z e a b = zop OP_DIV a b)"
  "\<exists>e. reads_push_mod l v fa fb = l @ [e] \<and> re_var e = v \<and> re_call e = None \<and> re_fa e = fa \<and> re_fb e = fb \<and>
     (\<forall>a b. entry_val z e a b = zop OP_MOD a b)"
  "\<exists>e. reads_push_shr l v fa fb = l @ [e] \<and> re_var e = v \<and> re_call e = None \<and> re_fa e = fa \<and> re_fb e = fb \<and>
     (\<forall>a b. entry_val z e a b = zop OP_RSHIFT a b)"
  "\<exists>e. reads_push_lshr l v fa fb = l @ [e] \<and> re_var e = v \<and> re_call e = None \<and> re_fa e = fa \<and> re_fb e = fb \<and>
     (\<forall>a b. entry_val z e a b = zop OP_URSHIFT a b)"
  "\<exists>e. reads_push_bitmask l v fa k = l @ [e] \<and> re_var e = v \<and> re_call e = None \<and> re_fa e = fa \<and>
     re_fb e = lin_const (rat_int k) \<and> (\<forall>a b. entry_val z e a b = Some (a AND b))"
  "\<exists>e. reads_push_bitop l v fa fb True = l @ [e] \<and> re_var e = v \<and> re_call e = None \<and> re_fa e = fa \<and> re_fb e = fb \<and>
     (\<forall>a b. entry_val z e a b = Some (a OR b))"
  "\<exists>e. reads_push_bitop l v fa fb False = l @ [e] \<and> re_var e = v \<and> re_call e = None \<and> re_fa e = fa \<and> re_fb e = fb \<and>
     (\<forall>a b. entry_val z e a b = Some (a AND b))"
  "\<exists>e. reads_push_pair l v fa fb = l @ [e] \<and> re_var e = v \<and> re_call e = None \<and> re_fa e = fa \<and> re_fb e = fb \<and>
     (\<forall>a b. entry_val z e a b = Some (z_pair z a b))"
  "\<exists>e. reads_push_prod l v fa fb = l @ [e] \<and> re_var e = v \<and> re_call e = None \<and> re_fa e = fa \<and> re_fb e = fb \<and>
     (\<forall>a b. entry_val z e a b = Some (a * b))"
  by (simp_all add: reads_push_div_def reads_push_mod_def reads_push_shr_def reads_push_lshr_def
      reads_push_bitmask_def reads_push_bitop_def reads_push_pair_def reads_push_prod_def classify_monomial_def
      reads_slot_def entry_val_def Let_def)

text \<open>The sums of linear operands, and the operators with a case analysis of their own.\<close>

lemma rat_of_int_add: "(of_int a :: rat) + of_int b = of_int (a + b)"
  and rat_of_int_sub: "(of_int a :: rat) - of_int b = of_int (a - b)"
  and rat_of_int_mul: "(of_int a :: rat) * of_int b = of_int (a * b)"
  by simp_all

definition operands :: "SeState \<Rightarrow> Sym \<Rightarrow> Sym \<Rightarrow> bool" where
  "operands s l r \<longleftrightarrow> st_ok s \<and>
     (\<not> s_nonlinear l \<longrightarrow> good (g_prod_ctr s) (s_lin l)) \<and> (\<not> s_nonlinear r \<longrightarrow> good (g_prod_ctr s) (s_lin r))"

text \<open>An operator on operands of which one is not linear is not linear.\<close>

definition op_spec :: "zenv \<Rightarrow> SeState \<Rightarrow> binop \<Rightarrow> Sym \<Rightarrow> Sym \<Rightarrow> Sym \<times> SeState \<Rightarrow> bool" where
  "op_spec z s op l r res \<longleftrightarrow>
     (if s_nonlinear l \<or> s_nonlinear r then s_nonlinear (fst res) \<and> snd res = s
      else yields z s (op_result op (s_lin l) (s_lin r)) res)"

lemma se_linear_spec:
  assumes "operands s l r"
  shows "op_spec z s OP_ADD l r (se_linear lin_add l r, s)" "op_spec z s OP_SUB l r (se_linear lin_sub l r, s)"
proof -
  note yields_lin [OF _ lin_add_res [OF good_res good_res] settled_closed(1)]
    yields_lin [OF _ lin_sub_res [OF good_res good_res] settled_closed(2)]
  from this [of s _ "s_lin l" _ "s_lin r" z] assms
  show "op_spec z s OP_ADD l r (se_linear lin_add l r, s)" "op_spec z s OP_SUB l r (se_linear lin_sub l r, s)"
    by (auto simp: op_spec_def se_linear_def sym_nonlin_def operands_def op_result_def zop_def good_def)
qed

lemma se_mul_spec:
  assumes o: "operands s l r"
  shows "op_spec z s OP_MUL l r (se_mul l r s)"
proof (cases "s_nonlinear l \<or> s_nonlinear r")
  case True
  then show ?thesis by (auto simp: op_spec_def se_mul_def Let_def sym_nonlin_def)
next
  case False
  let ?l = "s_lin l" and ?r = "s_lin r"
  have ok: "st_ok s" "good (g_prod_ctr s) ?l" "good (g_prod_ctr s) ?r" using o False by (auto simp: operands_def)
  have prod: "op_result OP_MUL ?l ?r \<nu> (lin_val \<nu> ?l * lin_val \<nu> ?r)" for \<nu>
    by (rule op_resultI) (auto simp: zop_def)
  note set = settled_closed(3) [of "g_prod_ctr s" "\<lambda>\<nu>. lin_val \<nu> ?l" "\<lambda>\<nu>. lin_val \<nu> ?r"]
  have c: "lin_val \<nu> k = rat_val (lin_c k)" "rat_ok (lin_c k)" if "good (g_prod_ctr s) k" "lin_is_const k" for k \<nu>
    using good_const [OF that] by simp_all
  have "yields z s (op_result OP_MUL ?l ?r) (se_mul l r s)"
  proof (cases "lin_is_const ?l \<or> lin_is_const ?r")
    case True
    have "lin_res (lin_const (rat_mul (lin_c ?l) (lin_c ?r))) (\<lambda>\<nu>. lin_val \<nu> ?l * lin_val \<nu> ?r)"
      if "lin_is_const ?l" "lin_is_const ?r"
      using lin_const_res [OF rat_mul_res [OF c(2) c(2)]] ok that by (simp add: c(1))
    moreover have "lin_res (lin_scale ?r (lin_c ?l)) (\<lambda>\<nu>. lin_val \<nu> ?l * lin_val \<nu> ?r)" if "lin_is_const ?l"
      by (rule lin_res_cong [OF lin_scale_res [OF good_res [OF ok(3)] rat_ok_res [OF c(2)]]])
        (use ok that in \<open>simp_all add: c(1)\<close>)
    moreover have "lin_res (lin_scale ?l (lin_c ?r)) (\<lambda>\<nu>. lin_val \<nu> ?l * lin_val \<nu> ?r)" if "lin_is_const ?r"
      using lin_scale_res [OF good_res [OF ok(2)] rat_ok_res [OF c(2)]] ok that by (simp add: c(1))
    ultimately show ?thesis
      using yields_lin [OF ok(1) _ set] ok(2,3) False True prod
      by (auto simp: se_mul_def Let_def good_def)
  next
    case n: False
    have "yields z s (op_result OP_MUL ?l ?r) (se_record ''__p'' (\<lambda>rs v. reads_push_prod rs v ?l ?r) s)"
      by (rule yields_record [OF ok(1) _ push_entry(9) ok(2,3)])
        (auto simp: record_prefixes_def op_result_def zop_def)
    then show ?thesis using False n ok by (simp add: se_mul_def Let_def good_def lin_ok_def)
  qed
  then show ?thesis using False by (simp add: op_spec_def)
qed

lemma sdiv_range:
  assumes "in_i64 a" "in_i64 b" "b \<noteq> 0" "\<not> (a = INT64_MIN \<and> b = -1)"
  shows "in_i64 (a sdiv b)" "in_i64 (a smod b)"
proof -
  let ?q = "\<bar>a\<bar> div \<bar>b\<bar>" and ?m = "\<bar>a\<bar> mod \<bar>b\<bar>"
  have q: "0 \<le> ?q" "0 \<le> ?m" "?m < \<bar>b\<bar>" using assms(3) by (simp_all add: pos_imp_zdiv_nonneg_iff)
  have m: "a smod b = sgn a * ?m" by (simp add: smod_int_alt_def)
  then have "\<bar>a smod b\<bar> \<le> ?m" using q by (simp add: abs_mult abs_sgn_eq)
  then show "in_i64 (a smod b)" using q assms(2) unfolding in_i64_def INT64_MIN_def INT64_MAX_def by linarith
  have d: "a sdiv b = sgn a * sgn b * ?q" by (simp add: signed_divide_int_def)
  then have le: "\<bar>a sdiv b\<bar> \<le> ?q" using q by (simp add: abs_mult abs_sgn_eq)
  show "in_i64 (a sdiv b)"
  proof (cases "\<bar>b\<bar> = 1")
    case True
    then have "b = 1 \<or> b = -1" by linarith
    then have "a sdiv b = a \<or> b = -1 \<and> a sdiv b = - a" by (auto simp: d sgn_if)
    then show ?thesis using assms(1,4) by (auto simp: in_i64_def INT64_MIN_def INT64_MAX_def)
  next
    case False
    then have b: "2 \<le> \<bar>b\<bar>" using assms(3) by linarith
    have "?q \<le> \<bar>a\<bar> div 2" by (rule zdiv_mono2) (use b in simp_all)
    then show ?thesis using le assms(1) unfolding in_i64_def INT64_MIN_def INT64_MAX_def by linarith
  qed
qed

text \<open>Two constant operands: the forms have the values of their numerators.\<close>

lemma op_result_const:
  assumes "good c l" "lin_is_const l" "good c r" "lin_is_const r"
    and "zop op (r_num (lin_c l)) (r_num (lin_c r)) = Some k \<or> zop op (r_num (lin_c l)) (r_num (lin_c r)) = None"
  shows "op_result op l r \<nu> (of_int k)"
  using assms(5) good_const(1) [OF assms(1,2), of \<nu>] good_const(1) [OF assms(3,4), of \<nu>]
  by (auto simp: op_result_def)

lemma se_divmod_spec:
  assumes o: "operands s l r" and e: "se_divmod quot l r s = Some res"
  shows "op_spec z s (if quot then OP_DIV else OP_MOD) l r res"
proof (cases "s_nonlinear l \<or> s_nonlinear r")
  case True
  then show ?thesis using e by (auto simp: op_spec_def se_divmod_def Let_def sym_nonlin_def)
next
  case False
  let ?l = "s_lin l" and ?r = "s_lin r" let ?op = "if quot then OP_DIV else OP_MOD"
  have ok: "st_ok s" "good (g_prod_ctr s) ?l" "good (g_prod_ctr s) ?r" using o False by (auto simp: operands_def)
  note c = good_const [OF ok(2)] good_const [OF ok(3)]
  have rec: "yields z s (op_result OP_DIV ?l ?r) (se_record ''__d'' (\<lambda>rs v. reads_push_div rs v ?l ?r) s)"
    "yields z s (op_result OP_MOD ?l ?r) (se_record ''__m'' (\<lambda>rs v. reads_push_mod rs v ?l ?r) s)"
    by (rule yields_record [OF ok(1) _ push_entry(1) ok(2,3)] yields_record [OF ok(1) _ push_entry(2) ok(2,3)];
        auto simp: record_prefixes_def op_result_def)+
  have "yields z s (op_result ?op ?l ?r) res"
  proof (cases "lin_is_const ?l \<and> lin_is_const ?r \<and> r_num (lin_c ?r) \<noteq> 0")
    case True
    let ?a = "r_num (lin_c ?l)" and ?b = "r_num (lin_c ?r)" let ?k = "if quot then ?a sdiv ?b else ?a smod ?b"
    have "\<not> (?a = INT64_MIN \<and> ?b = -1)" "res = (sym_lin (lin_const (rat_int ?k)), s)"
      using e True False c(7) by (auto simp: se_divmod_def Let_def split: if_splits)
    moreover from this True have "in_i64 ?k" using c(3,8) sdiv_range by auto
    ultimately show ?thesis
      using True by (auto intro!: yields_int [OF ok(1)] op_result_const [OF ok(2) _ ok(3)] simp: zop_def)
  next
    case n: False
    then have "res = (sym_nonlin, s) \<or>
        res = (if quot then se_record ''__d'' (\<lambda>rs v. reads_push_div rs v ?l ?r) s
               else se_record ''__m'' (\<lambda>rs v. reads_push_mod rs v ?l ?r) s)"
      using e False ok by (auto simp: se_divmod_def Let_def split: if_splits)
    then show ?thesis using rec yields_nonlin [OF ok(1)] by (cases quot) auto
  qed
  then show ?thesis using False by (simp add: op_spec_def)
qed

section \<open>Bit operations\<close>

lemma in_i64_bits: "in_i64 a \<longleftrightarrow> signed_take_bit 63 a = a"
  by (auto simp: in_i64_def INT64_MIN_def INT64_MAX_def signed_take_bit_int_eq_self_iff)

lemma bit_fold_range:
  assumes "in_i64 a" "in_i64 b"
  shows "in_i64 (bit_fold op a b)"
proof -
  have "bit a n = bit a (min n 63)" "bit b n = bit b (min n 63)" for n
    using assms unfolding in_i64_bits by (metis bit_signed_take_bit_iff possible_bit_int min.commute)+
  then have "bit (bit_fold op a b) n = bit (bit_fold op a b) (min n 63)" for n
    unfolding bit_fold_def bit_simps if_distrib [of "\<lambda>x. bit x n"] if_distrib [of "\<lambda>x. bit x (min n 63)"] by auto
  then show ?thesis
    unfolding in_i64_bits by (intro bit_eqI) (metis bit_signed_take_bit_iff possible_bit_int min.commute)
qed

lemma zop_bits: "op \<in> {OP_BIT_AND, OP_BIT_OR, OP_BIT_XOR} \<Longrightarrow> zop op a b = Some (bit_fold op a b)"
  by (auto simp: zop_def bit_fold_def)

text \<open>The identities of the constants 0 and -1 and of equal operands.\<close>

lemma op_right_k: "is_k k r \<Longrightarrow> (\<And>a. zop op a k = Some a) \<Longrightarrow> op_result op l r \<nu> (lin_val \<nu> l)"
  and op_left_k: "is_k k l \<Longrightarrow> (\<And>a. zop op k a = Some a) \<Longrightarrow> op_result op l r \<nu> (lin_val \<nu> r)"
  and op_right_const: "is_k k r \<Longrightarrow> (\<And>a. zop op a k = Some m) \<Longrightarrow> op_result op l r \<nu> (of_int m)"
  and op_left_const: "is_k k l \<Longrightarrow> (\<And>a. zop op k a = Some m) \<Longrightarrow> op_result op l r \<nu> (of_int m)"
  by (auto simp: op_result_def is_k_val)

lemma is_k_int: "is_k k l \<Longrightarrow> lin_val \<nu> l = of_int a \<Longrightarrow> a = k"
  by (simp add: is_k_val)

lemma op_equal:
  assumes "good c l" "good c r" "lin_eq l r"
  shows "(\<And>a. zop op a a = Some a) \<Longrightarrow> op_result op l r \<nu> (lin_val \<nu> l)"
    and "(\<And>a. zop op a a = Some m) \<Longrightarrow> op_result op l r \<nu> (of_int m)"
  using lin_eq_val [OF assms, of \<nu>] by (auto simp: op_result_def)

lemma small_range: "in_i64 0" "in_i64 (-1)" "in_i64 1"
  by (simp_all add: in_i64_def INT64_MIN_def INT64_MAX_def)

lemma zop_identities:
  "zop OP_BIT_OR a 0 = Some a" "zop OP_BIT_OR 0 a = Some a" "zop OP_BIT_OR a (-1) = Some (-1)"
  "zop OP_BIT_OR (-1) a = Some (-1)" "zop OP_BIT_OR a a = Some a"
  "zop OP_BIT_AND a 0 = Some 0" "zop OP_BIT_AND 0 a = Some 0" "zop OP_BIT_AND a (-1) = Some a"
  "zop OP_BIT_AND (-1) a = Some a" "zop OP_BIT_AND a a = Some a"
  "zop OP_BIT_XOR a 0 = Some a" "zop OP_BIT_XOR 0 a = Some a" "zop OP_BIT_XOR a a = Some 0"
  "zop OP_BIT_XOR a (-1) = Some (- a - 1)" "zop OP_BIT_XOR (-1) a = Some (- a - 1)"
  "zop OP_RSHIFT a 0 = Some a" "zop OP_URSHIFT a 0 = Some a"
  by (simp_all add: zop_def not_int_def)

lemma se_or_spec:
  assumes ok: "st_ok s" "good (g_prod_ctr s) l" "good (g_prod_ctr s) r"
  shows "yields z s (op_result OP_BIT_OR l r) (se_or l r s)"
proof -
  have rec: "yields z s (op_result OP_BIT_OR l r) (se_record ''__b'' (\<lambda>rs v. reads_push_bitop rs v l r True) s)"
    by (rule yields_record [OF ok(1) _ push_entry(6) ok(2,3)]) (auto simp: record_prefixes_def op_result_def zop_def)
  have "yields z s (op_result OP_BIT_OR l r) (sym_lin l, s)" if "is_k 0 r \<or> lin_eq l r"
    using that op_right_k [of 0 r OP_BIT_OR] op_equal(1) [OF ok(2,3), of OP_BIT_OR]
    by (intro yields_good [OF ok(1,2)]) (auto simp: zop_identities)
  moreover have "yields z s (op_result OP_BIT_OR l r) (sym_lin r, s)" if "is_k 0 l"
    by (intro yields_good [OF ok(1,3)] op_left_k [OF that] zop_identities)
  moreover have "yields z s (op_result OP_BIT_OR l r) (sym_lin (lin_const (rat_int (-1))), s)"
    if "is_k (-1) r \<or> is_k (-1) l"
    using that op_right_const [of "-1" r OP_BIT_OR "-1"] op_left_const [of "-1" l OP_BIT_OR "-1"]
    by (intro yields_int [OF ok(1)] small_range) (auto simp: zop_identities)
  ultimately show ?thesis using rec yields_nonlin [OF ok(1)] by (auto simp: se_or_def)
qed

lemma se_and_spec:
  assumes ok: "st_ok s" "good (g_prod_ctr s) l" "good (g_prod_ctr s) r"
  shows "yields z s (op_result OP_BIT_AND l r) (se_and l r s)"
proof -
  have rec: "yields z s (op_result OP_BIT_AND l r) (se_record ''__b'' (\<lambda>rs v. reads_push_bitop rs v l r False) s)"
    by (rule yields_record [OF ok(1) _ push_entry(7) ok(2,3)]) (auto simp: record_prefixes_def op_result_def zop_def)
  have low: "good (g_prod_ctr s) (lin_const (rat_int (r_num (lin_c k))))"
    "lin_val \<nu> (lin_const (rat_int (r_num (lin_c k)))) = lin_val \<nu> k"
    if "good (g_prod_ctr s) k" "is_low_mask k" for k \<nu>
    using good_int_const [OF good_const(3) [OF that(1)]] good_const(1) [OF that(1)] that(2) by (auto simp: is_low_mask_def)
  have rec_r: "yields z s (op_result OP_BIT_AND l r)
      (se_record ''__b'' (\<lambda>rs v. reads_push_bitmask rs v l (r_num (lin_c r))) s)" if "is_low_mask r"
    by (rule yields_record [OF ok(1) _ push_entry(5) ok(2) low(1) [OF ok(3) that]])
      (auto simp: record_prefixes_def op_result_def zop_def low(2) [OF ok(3) that])
  have rec_l: "yields z s (op_result OP_BIT_AND l r)
      (se_record ''__b'' (\<lambda>rs v. reads_push_bitmask rs v r (r_num (lin_c l))) s)" if "is_low_mask l"
    by (rule yields_record [OF ok(1) _ push_entry(5) ok(3) low(1) [OF ok(2) that]])
      (auto simp: record_prefixes_def op_result_def zop_def low(2) [OF ok(2) that] and.commute)
  have "yields z s (op_result OP_BIT_AND l r) (sym_lin l, s)" if "is_k (-1) r \<or> lin_eq l r"
    using that op_right_k [of "-1" r OP_BIT_AND] op_equal(1) [OF ok(2,3), of OP_BIT_AND]
    by (intro yields_good [OF ok(1,2)]) (auto simp: zop_identities)
  moreover have "yields z s (op_result OP_BIT_AND l r) (sym_lin r, s)" if "is_k (-1) l"
    by (intro yields_good [OF ok(1,3)] op_left_k [OF that] zop_identities)
  moreover have "yields z s (op_result OP_BIT_AND l r) (sym_lin (lin_const (rat_int 0)), s)" if "is_k 0 r \<or> is_k 0 l"
    using that op_right_const [of 0 r OP_BIT_AND 0] op_left_const [of 0 l OP_BIT_AND 0]
    by (intro yields_int [OF ok(1)] small_range) (auto simp: zop_identities)
  ultimately show ?thesis using rec rec_r rec_l yields_nonlin [OF ok(1)] by (auto simp: se_and_def)
qed

lemma se_complement_spec:
  assumes ok: "st_ok s" "good (g_prod_ctr s) l"
    and P: "\<And>\<nu>. int_valued \<nu> \<Longrightarrow> all_true z \<nu> (entries s) \<Longrightarrow> P \<nu> (- lin_val \<nu> l - 1)"
  shows "yields z s P (se_complement l, s)"
proof (cases "lin_ovf (lin_neg l) \<or> r_ovf (rat_sub (lin_c (lin_neg l)) (rat_int 1))")
  case True
  then show ?thesis using yields_nonlin [OF ok(1)] by (auto simp: se_complement_def Let_def)
next
  case False
  let ?t = "lin_neg l" let ?c = "rat_sub (lin_c ?t) (rat_int 1)"
  have t: "lin_ok ?t" "lin_val \<nu> ?t = - lin_val \<nu> l" for \<nu>
    using lin_res_ok [OF lin_neg_res [OF good_res [OF ok(2)]]] False by auto
  have c: "rat_ok ?c" "rat_val ?c = rat_val (lin_c ?t) - 1"
    using rat_res_ok [OF rat_sub_res] t(1) False rat_int_ok [OF small_range(3)] by (auto simp: lin_ok_def rat_int_val)
  have "lin_res (?t\<lparr>lin_c := ?c\<rparr>) (\<lambda>\<nu>. - lin_val \<nu> l - 1)"
    using t c by (simp add: lin_res_def lin_ok_def lin_val_def)
  moreover have "settled (g_prod_ctr s) (\<lambda>\<nu>. - lin_val \<nu> l - 1)"
    using settled_closed(2) [OF settled_closed(4) settled_closed(5), of _ "\<lambda>\<nu>. lin_val \<nu> l" 1] ok(2) by (simp add: good_def)
  ultimately show ?thesis using yields_lin [OF ok(1)] P False by (simp add: se_complement_def Let_def)
qed

lemma se_xor_spec:
  assumes ok: "st_ok s" "good (g_prod_ctr s) l" "good (g_prod_ctr s) r"
  shows "yields z s (op_result OP_BIT_XOR l r) (se_xor l r s)"
proof -
  have "yields z s (op_result OP_BIT_XOR l r) (sym_lin l, s)" if "is_k 0 r"
    by (intro yields_good [OF ok(1,2)] op_right_k [OF that] zop_identities)
  moreover have "yields z s (op_result OP_BIT_XOR l r) (sym_lin r, s)" if "is_k 0 l"
    by (intro yields_good [OF ok(1,3)] op_left_k [OF that] zop_identities)
  moreover have "yields z s (op_result OP_BIT_XOR l r) (sym_lin (lin_const (rat_int 0)), s)" if "lin_eq l r"
    using that by (intro yields_int [OF ok(1)] small_range op_equal(2) [OF ok(2,3)] zop_identities)
  moreover have "yields z s (op_result OP_BIT_XOR l r) (se_complement l, s)" if "is_k (-1) r"
    by (intro se_complement_spec [OF ok(1,2)]) (auto simp: op_result_def zop_identities dest!: is_k_int [OF that])
  moreover have "yields z s (op_result OP_BIT_XOR l r) (se_complement r, s)" if "is_k (-1) l"
    by (intro se_complement_spec [OF ok(1,3)]) (auto simp: op_result_def zop_identities dest!: is_k_int [OF that])
  ultimately show ?thesis using yields_nonlin [OF ok(1)] by (auto simp: se_xor_def)
qed

lemma se_bits_spec:
  assumes o: "operands s l r" and op: "op \<in> {OP_BIT_AND, OP_BIT_OR, OP_BIT_XOR}"
  shows "op_spec z s op l r (se_bits op l r s)"
proof (cases "s_nonlinear l \<or> s_nonlinear r")
  case True
  then show ?thesis by (auto simp: op_spec_def se_bits_def Let_def sym_nonlin_def)
next
  case False
  then have ok: "st_ok s" "good (g_prod_ctr s) (s_lin l)" "good (g_prod_ctr s) (s_lin r)"
    using o by (auto simp: operands_def)
  have "yields z s (op_result op (s_lin l) (s_lin r))
      (sym_lin (lin_const (rat_int (bit_fold op (r_num (lin_c (s_lin l))) (r_num (lin_c (s_lin r)))))), s)"
    if "lin_is_const (s_lin l)" "lin_is_const (s_lin r)"
    using that good_const(3) [OF ok(2)] good_const(3) [OF ok(3)] zop_bits [OF op]
    by (intro yields_int [OF ok(1)] bit_fold_range op_result_const [OF ok(2) _ ok(3)]) auto
  then show ?thesis
    using False op se_or_spec [OF ok] se_and_spec [OF ok] se_xor_spec [OF ok]
    by (auto simp: op_spec_def se_bits_def Let_def)
qed

section \<open>Shifts\<close>

lemma shift_count:
  assumes "0 \<le> k" "k \<le> 62"
  shows "unat (word_of_int k AND 63 :: i64) = nat k"
proof -
  have "uint (word_of_int k :: i64) = k" using assms by (simp add: uint_word_of_int)
  then have "unat (word_of_int k :: i64) = nat k" by (metis nat_uint_eq)
  then show ?thesis using assms by (simp add: and_63_eq_mod)
qed

lemma sint_of_i64: "in_i64 a \<Longrightarrow> sint (word_of_int a :: i64) = a"
  by (simp add: sint_sbintrunc' in_i64_bits)

lemma ashr_const:
  assumes "in_i64 a" "0 \<le> k" "k \<le> 62"
  shows "sint (baga_ashr_i64 (word_of_int a) (word_of_int k)) = a div 2 ^ nat k"
proof -
  have "baga_ashr_i64 (word_of_int a) (word_of_int k) = signed_drop_bit (nat k) (word_of_int a)"
    by (simp only: baga_ashr_i64_eq shift_count [OF assms(2,3)])
  then show ?thesis by (simp only: sint_signed_drop_bit_eq sint_of_i64 [OF assms(1)] drop_bit_eq_div)
qed

lemma lshr_const:
  assumes "in_i64 a" "0 \<le> k" "k \<le> 62"
  shows "sint (baga_lshr_i64 (word_of_int a) (word_of_int k)) = (if k = 0 then a else (a mod 2 ^ 64) div 2 ^ nat k)"
proof -
  let ?w = "word_of_int a :: i64"
  have u: "uint (drop_bit (nat k) ?w) = (a mod 2 ^ 64) div 2 ^ nat k"
  proof -
    have "uint (drop_bit n v) = uint v div 2 ^ n" for n and v :: i64
    proof -
      have "uint v < 2 ^ 64" using uint_lt2p [of v] by simp
      then have "take_bit LENGTH(64) (uint v) = uint v" by (simp add: take_bit_eq_mod)
      then show ?thesis unfolding unsigned_drop_bit_eq by (simp only: drop_bit_eq_div)
    qed
    then show ?thesis by (simp add: uint_word_of_int)
  qed
  have lt: "(a mod 2 ^ 64) div 2 ^ nat k < 2 ^ 63" if "k \<noteq> 0"
  proof -
    have "(2 :: int) ^ 1 \<le> 2 ^ nat k" using that assms(2) by (intro power_increasing) auto
    then have "(a mod 2 ^ 64) div 2 ^ nat k \<le> (a mod 2 ^ 64) div 2" by (intro zdiv_mono2) auto
    moreover have "a mod 2 ^ 64 < (2 :: int) ^ 64" by simp
    ultimately show ?thesis by simp
  qed
  have pos: "0 \<le> (a mod 2 ^ 64) div 2 ^ nat k" by (simp add: pos_imp_zdiv_nonneg_iff)
  have "sint (drop_bit (nat k) ?w) = uint (drop_bit (nat k) ?w)" if "k \<noteq> 0"
    using lt [OF that] u pos by (simp add: sint_uint signed_take_bit_int_eq_self_iff)
  then show ?thesis
    using assms u by (auto simp: baga_lshr_i64_def shift_count sint_of_i64)
qed

lemma se_shift_spec:
  assumes o: "operands s l r" and op: "op \<in> {OP_LSHIFT, OP_RSHIFT, OP_URSHIFT}"
  shows "op_spec z s op l r (se_shift op l r s)"
proof (cases "s_nonlinear l \<or> s_nonlinear r")
  case True
  then show ?thesis by (auto simp: op_spec_def se_shift_def Let_def sym_nonlin_def)
next
  case False
  let ?l = "s_lin l" and ?r = "s_lin r" let ?k = "r_num (lin_c ?r)" let ?a = "r_num (lin_c ?l)"
  have ok: "st_ok s" "good (g_prod_ctr s) ?l" "good (g_prod_ctr s) ?r" using o False by (auto simp: operands_def)
  have "yields z s (op_result op ?l ?r) (se_shift op l r s)"
  proof (cases "lin_is_const ?r \<and> 0 \<le> ?k \<and> ?k \<le> 62")
    case n: False
    then show ?thesis using False yields_nonlin [OF ok(1)] by (auto simp: se_shift_def Let_def)
  next
    case k: True
    note kc = good_const [OF ok(3)]
    have m: "?k mod 64 = ?k" using k by simp
    have kr: "in_i64 ?k" "in_i64 (2 ^ nat ?k)"
    proof -
      have "(2 :: int) ^ nat ?k \<le> 2 ^ 62" using k by (intro power_increasing) auto
      then have "(2 :: int) ^ nat ?k \<le> 9223372036854775807" by (rule order_trans) simp
      moreover have "(0 :: int) \<le> 2 ^ nat ?k" by simp
      ultimately show "in_i64 (2 ^ nat ?k)" unfolding in_i64_def INT64_MIN_def INT64_MAX_def by (auto intro: order_trans [of _ 0])
      show "in_i64 ?k" using k unfolding in_i64_def INT64_MIN_def INT64_MAX_def by linarith
    qed
    have val: "op_result op ?l ?r \<nu> w" if "\<And>a v. lin_val \<nu> ?l = of_int a \<Longrightarrow> zop op a ?k = Some v \<Longrightarrow> w = of_int v" for \<nu> w
      using that kc(1) k by (auto simp: op_result_def)
    have left: "yields z s (op_result OP_LSHIFT ?l ?r) (sym_lin (lin_scale ?l (rat_int (2 ^ nat ?k))), s)"
      if "op = OP_LSHIFT"
    proof (rule yields_lin [OF ok(1)])
      show "lin_res (lin_scale ?l (rat_int (2 ^ nat ?k))) (\<lambda>\<nu>. lin_val \<nu> ?l * of_int (2 ^ nat ?k))"
        using lin_scale_res [OF good_res [OF ok(2)] rat_ok_res [OF rat_int_ok [OF kr(2)]]] by (simp add: rat_int_val)
      show "settled (g_prod_ctr s) (\<lambda>\<nu>. lin_val \<nu> ?l * of_int (2 ^ nat ?k))"
        by (rule settled_closed(3) [OF _ settled_closed(5)]) (use ok(2) in \<open>simp add: good_def\<close>)
      show "op_result OP_LSHIFT ?l ?r \<nu> (lin_val \<nu> ?l * of_int (2 ^ nat ?k))" for \<nu>
        unfolding that [symmetric] by (rule val) (auto simp: that zop_def m)
    qed
    have const: "yields z s (op_result op ?l ?r) (sym_lin (lin_const (rat_int v)), s)"
      if "lin_is_const ?l" "v = (if op = OP_URSHIFT then sint (baga_lshr_i64 (word_of_int ?a) (word_of_int ?k))
          else sint (baga_ashr_i64 (word_of_int ?a) (word_of_int ?k)))" "op \<noteq> OP_LSHIFT" for v
    proof -
      note lc = good_const [OF ok(2) that(1)]
      have v: "zop op ?a ?k = Some v"
        using that(2,3) op k ashr_const [OF lc(3)] lshr_const [OF lc(3)] by (auto simp: zop_def m)
      have "in_i64 (sint (w :: i64))" for w
        using sint_greater_eq [of w] sint_less [of w] by (simp add: in_i64_def INT64_MIN_def INT64_MAX_def)
      then have "in_i64 v" using that(2) by simp
      then show ?thesis
        by (rule yields_int [OF ok(1)]) (rule val, use v lc(1) in auto)
    qed
    have zero: "yields z s (op_result op ?l ?r) (sym_lin ?l, s)" if "?k = 0" "op \<noteq> OP_LSHIFT"
      by (rule yields_good [OF ok(1,2)]) (rule val, use that op in \<open>auto simp: zop_identities\<close>)
    note kg = good_int_const [OF kr(1), of "g_prod_ctr s"]
    have rec: "yields z s (op_result op ?l ?r) (se_record ''__d'' (\<lambda>rs v. reads_push_lshr rs v ?l (lin_const (rat_int ?k))) s)"
      if "op = OP_URSHIFT"
      by (rule yields_record [OF ok(1) _ push_entry(4) ok(2) conjunct1 [OF kg]])
        (use that kc(1) k kg in \<open>auto simp: record_prefixes_def op_result_def\<close>)
    have rec2: "yields z s (op_result op ?l ?r) (se_record ''__d'' (\<lambda>rs v. reads_push_shr rs v ?l (lin_const (rat_int ?k))) s)"
      if "op = OP_RSHIFT"
      by (rule yields_record [OF ok(1) _ push_entry(3) ok(2) conjunct1 [OF kg]])
        (use that kc(1) k kg in \<open>auto simp: record_prefixes_def op_result_def\<close>)
    show ?thesis
      using False k op left const zero rec rec2 kc(2) by (auto simp: se_shift_def Let_def)
  qed
  then show ?thesis using False by (simp add: op_spec_def)
qed

section \<open>All binary operators\<close>

lemma se_binary_spec:
  assumes "operands s l r" "se_binary op l r s = Some res"
  shows "op_spec z s op l r res \<or> s_nonlinear (fst res) \<and> snd res = s"
  using assms se_linear_spec [OF assms(1)] se_mul_spec [OF assms(1)] se_divmod_spec [OF assms(1), of True]
    se_divmod_spec [OF assms(1), of False] se_bits_spec [OF assms(1), of op] se_shift_spec [OF assms(1), of op]
  by (auto simp: se_binary_def sym_nonlin_def split: binop.splits)

end
