(* ===== verification/SymSound.thy ===== *)
theory SymSound
  imports SymOps
begin

text \<open>
  The translation of expressions keeps values: by induction on the expression,
  from the step lemmas of the operators.
\<close>

section \<open>Environments and valuations\<close>

definition env_ok :: "nat \<Rightarrow> SEnv \<Rightarrow> bool" where
  "env_ok c env \<longleftrightarrow> (\<forall>x b. env_find env x = Some b \<longrightarrow> \<not> b_nonlinear b \<longrightarrow> good c (b_lin b))"

definition vlen_ok :: "nat \<Rightarrow> VLenMap \<Rightarrow> bool" where
  "vlen_ok c vlen \<longleftrightarrow> (\<forall>v e. vlen_find vlen v = Some e \<longrightarrow> \<not> vl_unknown e \<longrightarrow> good c (vl_len e))"

text \<open>The inputs of the expression are not names the counter still gives out.\<close>

definition names_ok :: "nat \<Rightarrow> SEnv \<Rightarrow> string set \<Rightarrow> bool" where
  "names_ok c env X \<longleftrightarrow> (\<forall>x \<in> X. env_find env x = None \<longrightarrow> old c x)"

definition env_rel :: "zenv \<Rightarrow> (string \<Rightarrow> rat) \<Rightarrow> SEnv \<Rightarrow> string set \<Rightarrow> bool" where
  "env_rel z \<nu> env X \<longleftrightarrow>
     (\<forall>x \<in> X. case env_find env x of
        None \<Rightarrow> \<nu> x = of_int (z_var z x)
      | Some b \<Rightarrow> b_nonlinear b \<or> lin_val \<nu> (b_lin b) = of_int (z_var z x))"

definition vlen_rel :: "zenv \<Rightarrow> (string \<Rightarrow> rat) \<Rightarrow> VLenMap \<Rightarrow> bool" where
  "vlen_rel z \<nu> vlen \<longleftrightarrow>
     (\<forall>v e. vlen_find vlen v = Some e \<longrightarrow>
        (if vl_unknown e then \<nu> (len_name v) else lin_val \<nu> (vl_len e)) = of_int (z_len z v))"

definition pairs_ok :: "zenv \<Rightarrow> bool" where
  "pairs_ok z \<longleftrightarrow> (\<forall>a b. z_fst z (z_pair z a b) = a \<and> z_snd z (z_pair z a b) = b)"

text \<open>The values of calls are those of recorded calls.\<close>

definition calls_ok :: "zenv \<Rightarrow> SeState \<Rightarrow> bool" where
  "calls_ok z s \<longleftrightarrow> (\<forall>call. z_call z call \<noteq> None \<longrightarrow> reads_find (entries s) call \<noteq> None)"

lemma calls_ok_mono: "calls_ok z s \<Longrightarrow> extends z s s' \<Longrightarrow> calls_ok z s'"
proof -
  have "reads_find (l @ new) c \<noteq> None" if "reads_find l c \<noteq> None" for l new c
    using that by (auto simp: reads_find_def find_None_iff)
  then show "calls_ok z s \<Longrightarrow> extends z s s' \<Longrightarrow> calls_ok z s'"
    unfolding calls_ok_def extends_def by metis
qed

definition ctx_ok :: "zenv \<Rightarrow> SEnv \<Rightarrow> VLenMap \<Rightarrow> SeState \<Rightarrow> string set \<Rightarrow> bool" where
  "ctx_ok z env vlen s X \<longleftrightarrow> st_ok s \<and> pairs_ok z \<and> env_ok (g_prod_ctr s) env \<and> vlen_ok (g_prod_ctr s) vlen \<and>
     names_ok (g_prod_ctr s) env X \<and> calls_ok z s"

lemma ctx_ok_mono:
  assumes c: "ctx_ok z env vlen s X" and e: "extends z s s'" and X: "Y \<subseteq> X"
  shows "ctx_ok z env vlen s' Y"
proof -
  note le = extendsD(2) [OF e]
  have "env_ok (g_prod_ctr s') env" using c good_mono [OF _ le] unfolding ctx_ok_def env_ok_def by blast
  moreover have "vlen_ok (g_prod_ctr s') vlen" using c good_mono [OF _ le] unfolding ctx_ok_def vlen_ok_def by blast
  moreover have "names_ok (g_prod_ctr s') env Y" using c old_mono [OF _ le] X unfolding ctx_ok_def names_ok_def by blast
  ultimately show ?thesis using c extendsD(1) [OF e] calls_ok_mono [OF _ e] by (simp add: ctx_ok_def)
qed

text \<open>The value of the expression, for a valuation related to the inputs.\<close>

definition expr_holds :: "zenv \<Rightarrow> SEnv \<Rightarrow> VLenMap \<Rightarrow> node \<Rightarrow> (string \<Rightarrow> rat) \<Rightarrow> rat \<Rightarrow> bool" where
  "expr_holds z env vlen e \<nu> w \<longleftrightarrow>
     (env_rel z \<nu> env (idents e) \<longrightarrow> vlen_rel z \<nu> vlen \<longrightarrow> (\<forall>v. zval z e = Some v \<longrightarrow> w = of_int v))"

lemma env_rel_mono: "env_rel z \<nu> env X \<Longrightarrow> Y \<subseteq> X \<Longrightarrow> env_rel z \<nu> env Y"
  by (auto simp: env_rel_def)

lemma yields_trans: "extends z s s1 \<Longrightarrow> yields z s1 Q r \<Longrightarrow> yields z s Q r"
  using extends_trans by (auto simp: yields_def split: prod.splits)

lemma yieldsD:
  "yields z s P (y, s') \<Longrightarrow> extends z s s'"
  "yields z s P (y, s') \<Longrightarrow> \<not> s_nonlinear y \<Longrightarrow> good (g_prod_ctr s') (s_lin y)"
  "yields z s P (y, s') \<Longrightarrow> \<not> s_nonlinear y \<Longrightarrow> int_valued \<nu> \<Longrightarrow> all_true z \<nu> (entries s') \<Longrightarrow> P \<nu> (lin_val \<nu> (s_lin y))"
  by (auto simp: yields_def)

lemma yields_mono:
  assumes "yields z s P r"
    and "\<And>\<nu> w. int_valued \<nu> \<Longrightarrow> all_true z \<nu> (entries s) \<Longrightarrow> P \<nu> w \<Longrightarrow> Q \<nu> w"
  shows "yields z s Q r"
  using assms extendsD(3) [of z s] by (auto simp: yields_def split: prod.splits)

text \<open>Two operands, then an operator on them.\<close>

lemma yields_binary:
  assumes l: "yields z s P1 (l, s1)" and r: "yields z s1 P2 (r, s2)"
    and op: "op_spec z s2 op l r res \<or> s_nonlinear (fst res) \<and> snd res = s2"
    and Q: "\<And>\<nu> a b (w :: rat). P1 \<nu> a \<Longrightarrow> P2 \<nu> b \<Longrightarrow>
      (\<And>x y v. a = of_int x \<Longrightarrow> b = of_int y \<Longrightarrow> zop op x y = Some v \<Longrightarrow> w = of_int v) \<Longrightarrow> Q \<nu> w"
  shows "yields z s Q res"
proof -
  note e = extends_trans [OF yieldsD(1) [OF l] yieldsD(1) [OF r]]
  show ?thesis
  proof (cases "s_nonlinear (fst res) \<and> snd res = s2")
    case True
    with e show ?thesis by (cases res) (simp add: yields_def)
  next
    case False
    then have n: "\<not> s_nonlinear l" "\<not> s_nonlinear r" and y: "yields z s2 (op_result op (s_lin l) (s_lin r)) res"
      using op by (auto simp: op_spec_def split: if_splits)
    have "yields z s2 Q res"
    proof (rule yields_mono [OF y])
      fix \<nu> w assume \<nu>: "int_valued \<nu>" "all_true z \<nu> (entries s2)" "op_result op (s_lin l) (s_lin r) \<nu> w"
      have "P1 \<nu> (lin_val \<nu> (s_lin l))"
        using yieldsD(3) [OF l n(1) \<nu>(1)] extendsD(3) [OF yieldsD(1) [OF r] \<nu>(2)] .
      moreover have "P2 \<nu> (lin_val \<nu> (s_lin r))" using yieldsD(3) [OF r n(2) \<nu>(1,2)] .
      ultimately show "Q \<nu> w" by (rule Q) (use \<nu>(3) in \<open>auto simp: op_result_def\<close>)
    qed
    with e show ?thesis by (rule yields_trans)
  qed
qed

section \<open>Leaves\<close>

lemma ident_yields:
  assumes "ctx_ok z env vlen s {x}"
  shows "yields z s (expr_holds z env vlen (NODE_IDENT x)) (se_ident x env, s)"
proof (cases "env_find env x")
  case None
  then have "old (g_prod_ctr s) x" "st_ok s" using assms by (auto simp: ctx_ok_def names_ok_def)
  then show ?thesis
    unfolding se_ident_def None option.case
    by (intro yields_good good_var) (auto simp: expr_holds_def env_rel_def None lin_var_val)
next
  case (Some b)
  have s: "st_ok s" "env_ok (g_prod_ctr s) env" using assms by (auto simp: ctx_ok_def)
  show ?thesis
  proof (cases "b_nonlinear b")
    case False
    then have g: "good (g_prod_ctr s) (b_lin b)" using s(2) Some by (auto simp: env_ok_def)
    with s(1) False Some show ?thesis
      by (auto simp: se_ident_def expr_holds_def env_rel_def intro!: yields_good)
  qed (simp add: se_ident_def Some yields_nonlin s(1))
qed

lemma vec_len_yields:
  assumes "ctx_ok z env vlen s X"
  shows "yields z s (\<lambda>\<nu> w. vlen_rel z \<nu> vlen \<longrightarrow> w = of_int (z_len z v)) (se_vec_len v vlen, s)"
proof (cases "vlen_find vlen v")
  case None
  then show ?thesis using assms by (simp add: se_vec_len_def yields_nonlin ctx_ok_def)
next
  case (Some e)
  have s: "st_ok s" "vlen_ok (g_prod_ctr s) vlen" using assms by (auto simp: ctx_ok_def)
  show ?thesis
  proof (cases "vl_unknown e")
    case True
    then show ?thesis
      unfolding se_vec_len_def Some option.case if_P [OF True] using Some
      by (intro yields_good [OF s(1)] good_var old_len_name) (auto simp: vlen_rel_def lin_var_val)
  next
    case False
    then have g: "good (g_prod_ctr s) (vl_len e)" using s(2) Some by (auto simp: vlen_ok_def)
    with s(1) False Some show ?thesis
      by (auto simp: se_vec_len_def vlen_rel_def intro!: yields_good)
  qed
qed

lemma find_in: "List.find P l = Some e \<Longrightarrow> e \<in> set l \<and> P e"
  by (auto simp: find_Some_iff)

lemma call_yields:
  assumes "st_ok s" "se_reads s = Some l" "reads_find l call = Some rv"
  shows "yields z s (\<lambda>\<nu> w. \<exists>v. z_call z call = Some v \<and> w = of_int v) (sym_lin (lin_var rv), s)"
proof -
  obtain e where e: "e \<in> set l" "re_call e = Some call" "re_var e = rv"
    using assms(3) by (auto simp: reads_find_def dest!: find_in)
  then have "old (g_prod_ctr s) rv" "\<And>\<nu>. all_true z \<nu> (entries s) \<Longrightarrow> entry_true z \<nu> e"
    using assms(1,2) by (auto simp: st_ok_def entry_ok_def entries_def all_true_def)
  then show ?thesis
    using e(2,3) by (intro yields_good [OF assms(1)] good_var) (auto simp: entry_true_def lin_var_val)
qed

section \<open>Pairs\<close>

lemma pair_yields:
  assumes a: "yields z s P1 (x, s1)" and b: "yields z s1 P2 (y, s2)"
    and Q: "\<And>\<nu> u v (w :: rat). P1 \<nu> u \<Longrightarrow> P2 \<nu> v \<Longrightarrow>
      (\<And>i j. u = of_int i \<Longrightarrow> v = of_int j \<Longrightarrow> w = of_int (z_pair z i j)) \<Longrightarrow> Q \<nu> w"
  shows "yields z s Q (se_pair x y s2)"
proof -
  note e = extends_trans [OF yieldsD(1) [OF a] yieldsD(1) [OF b]]
  note ok = extendsD(1) [OF yieldsD(1) [OF b]]
  have "yields z s2 Q (se_pair x y s2)"
  proof (cases "s_nonlinear x \<or> s_nonlinear y")
    case True
    then show ?thesis by (simp add: se_pair_def yields_nonlin [OF ok])
  next
    case False
    then have n: "\<not> s_nonlinear x" "\<not> s_nonlinear y" by auto
    note g = good_mono [OF yieldsD(2) [OF a n(1)] extendsD(2) [OF yieldsD(1) [OF b]]] yieldsD(2) [OF b n(2)]
    have "yields z s2 (\<lambda>\<nu> w. \<forall>i j. lin_val \<nu> (s_lin x) = of_int i \<longrightarrow> lin_val \<nu> (s_lin y) = of_int j \<longrightarrow>
        w = of_int (z_pair z i j)) (se_record ''__q'' (\<lambda>rs v. reads_push_pair rs v (s_lin x) (s_lin y)) s2)"
      by (rule yields_record [OF ok _ push_entry(8) g]) (auto simp: record_prefixes_def)
    then have "yields z s2 Q (se_record ''__q'' (\<lambda>rs v. reads_push_pair rs v (s_lin x) (s_lin y)) s2)"
    proof (rule yields_mono)
      fix \<nu> and w :: rat assume \<nu>: "int_valued \<nu>" "all_true z \<nu> (entries s2)"
        and w: "\<forall>i j. lin_val \<nu> (s_lin x) = of_int i \<longrightarrow> lin_val \<nu> (s_lin y) = of_int j \<longrightarrow> w = of_int (z_pair z i j)"
      have "P1 \<nu> (lin_val \<nu> (s_lin x))"
        using yieldsD(3) [OF a n(1) \<nu>(1)] extendsD(3) [OF yieldsD(1) [OF b] \<nu>(2)] .
      moreover have "P2 \<nu> (lin_val \<nu> (s_lin y))" using yieldsD(3) [OF b n(2) \<nu>(1,2)] .
      ultimately show "Q \<nu> w" by (rule Q) (use w in auto)
    qed
    with False show ?thesis by (simp add: se_pair_def)
  qed
  with e show ?thesis by (rule yields_trans)
qed

lemma project_yields:
  assumes p: "yields z s P (y, s1)" and z: "pairs_ok z"
    and Q: "\<And>\<nu> u (w :: rat). P \<nu> u \<Longrightarrow> (\<And>h. u = of_int h \<Longrightarrow> w = of_int (if first then z_fst z h else z_snd z h)) \<Longrightarrow> Q \<nu> w"
  shows "yields z s Q (se_project first y s1, s1)"
proof -
  note ok = extendsD(1) [OF yieldsD(1) [OF p]]
  have "yields z s1 Q (se_project first y s1, s1)"
  proof (cases "s_nonlinear y \<or> lin_handle_var (s_lin y) = None \<or>
      Option.bind (se_reads s1) (\<lambda>l. reads_find_pair l (the (lin_handle_var (s_lin y)))) = None")
    case True
    then show ?thesis by (auto simp: se_project_def yields_nonlin [OF ok] split: option.split)
  next
    case False
    then obtain v l e where v: "\<not> s_nonlinear y" "lin_handle_var (s_lin y) = Some v" "se_reads s1 = Some l"
      "reads_find_pair l v = Some e" by (cases "se_reads s1") auto
    have e: "e \<in> set (entries s1)" "is_pair e" "re_var e = v"
      using v(3,4) by (auto simp: reads_find_pair_def entries_def dest!: find_in)
    then have g: "good (g_prod_ctr s1) (re_fa e)" "good (g_prod_ctr s1) (re_fb e)"
      using ok by (auto simp: st_ok_def entry_ok_def)
    let ?f = "if first then re_fa e else re_fb e"
    have "yields z s1 Q (sym_lin ?f, s1)"
    proof (rule yields_good [OF ok])
      show "good (g_prod_ctr s1) ?f" using g by simp
      fix \<nu> assume \<nu>: "int_valued \<nu>" "all_true z \<nu> (entries s1)"
      obtain a b where ab: "lin_val \<nu> (re_fa e) = of_int a" "lin_val \<nu> (re_fb e) = of_int b"
        using good_int [OF g(1) \<nu>(1)] good_int [OF g(2) \<nu>(1)] by blast
      have "\<nu> v = of_int (z_pair z a b)"
        using \<nu>(2) e ab by (auto simp: all_true_def entry_true_def entry_val_def)
      moreover have "lin_val \<nu> (s_lin y) = \<nu> v"
        using handle_var_val v(2) yieldsD(2) [OF p v(1)] by (auto simp: good_def)
      ultimately have h: "lin_val \<nu> (s_lin y) = of_int (z_pair z a b)" by simp
      show "Q \<nu> (lin_val \<nu> ?f)"
        by (rule Q [OF yieldsD(3) [OF p v(1) \<nu>]]) (use h ab z in \<open>auto simp: pairs_ok_def\<close>)
    qed
    with v g show ?thesis by (cases first) (auto simp: se_project_def)
  qed
  with yieldsD(1) [OF p] show ?thesis by (rule yields_trans)
qed

section \<open>Expressions\<close>

lemma list_of_two:
  assumes "xs = [] \<Longrightarrow> P" "\<And>a. xs = [a] \<Longrightarrow> P" "\<And>a b. xs = [a, b] \<Longrightarrow> P" "\<And>a b c ys. xs = a # b # c # ys \<Longrightarrow> P"
  shows P
  using assms by (cases xs rule: remdups_adj.cases) (auto, metis list.exhaust)

text \<open>The ways a call that is no recorded one is translated.\<close>

lemma se_call_cases:
  assumes e: "se_from_ast (NODE_CALL call callee args targs) env vlen s = Some r"
    and n: "reads_find (entries s) call = None"
  obtains (none) "r = (sym_nonlin, s)"
    | (pair) a b x s1 y s2 where "callee = NODE_IDENT ''cell2''" "args = [a, b]" "se_from_ast a env vlen s = Some (x, s1)"
        "se_from_ast b env vlen s1 = Some (y, s2)" "r = se_pair x y s2"
    | (proj) a p s1 f where "callee = NODE_IDENT (if f then ''cell2_0'' else ''cell2_1'')" "args = [a]"
        "se_from_ast a env vlen s = Some (p, s1)" "r = (se_project f p s1, s1)"
    | (len) v where "callee = NODE_IDENT ''vec_len''" "args = [NODE_IDENT v]" "r = (se_vec_len v vlen, s)"
proof -
  have rf: "Option.bind (se_reads s) (\<lambda>l. reads_find l call) = None"
    using n by (simp add: entries_def split: option.splits)
  show thesis
  proof (cases "\<exists>pn. callee = NODE_IDENT pn")
    case False
    then show thesis using e rf none by (cases callee) auto
  next
    case True
    then obtain pn where pn: "callee = NODE_IDENT pn" by blast
    consider "pn = ''cell2''" | f where "pn = (if f then ''cell2_0'' else ''cell2_1'')" | "pn = ''vec_len''"
      | "pn \<notin> {''cell2'', ''cell2_0'', ''cell2_1'', ''vec_len''}"
      by (metis (full_types) insert_iff empty_iff)
    then show thesis
    proof cases
      case 1
      then show thesis using e rf pn none pair
        by (cases args rule: list_of_two) (auto split: bind_splits if_splits)
    next
      case (2 f)
      then show thesis using e rf pn none proj [where f = f]
        by (cases args rule: list_of_two) (auto split: bind_splits if_splits)
    next
      case 3
      then show thesis using e rf pn none len
        by (cases args rule: list_of_two) (auto split: node.splits)
    next
      case 4
      then show thesis using e rf pn none by simp
    qed
  qed
qed

text \<open>A call that is not recorded, given the claim for its arguments.\<close>

lemma builtin_yields:
  assumes e: "se_from_ast (NODE_CALL call callee args targs) env vlen s = Some r"
    and c: "ctx_ok z env vlen s (idents (NODE_CALL call callee args targs))"
    and n: "reads_find (entries s) call = None"
    and IH: "\<And>a s r. a \<in> set args \<Longrightarrow> se_from_ast a env vlen s = Some r \<Longrightarrow> ctx_ok z env vlen s (idents a) \<Longrightarrow>
      yields z s (expr_holds z env vlen a) r"
  shows "yields z s (expr_holds z env vlen (NODE_CALL call callee args targs)) r" (is "yields z s ?H r")
proof -
  have s: "st_ok s" "pairs_ok z" and zc: "z_call z call = None" using c n by (auto simp: ctx_ok_def calls_ok_def)
  have arg: "ctx_ok z env vlen s' (idents a)" if "a \<in> set args" "extends z s s'" for a s'
    by (rule ctx_ok_mono [OF c that(2)]) (use that(1) in auto)
  have rel: "env_rel z \<nu> env (idents a)" if "env_rel z \<nu> env (idents (NODE_CALL call callee args targs))" "a \<in> set args" for a \<nu>
    by (rule env_rel_mono [OF that(1)]) (use that(2) in auto)
  note ext = extends_refl [OF s(1)]
  from e n show ?thesis
  proof (cases rule: se_call_cases)
    case none
    then show ?thesis by (simp add: yields_nonlin s(1))
  next
    case (pair a b x s1 y s2)
    have ya: "yields z s (expr_holds z env vlen a) (x, s1)" using IH [OF _ pair(3) arg [OF _ ext]] pair(2) by simp
    have yb: "yields z s1 (expr_holds z env vlen b) (y, s2)"
      using IH [OF _ pair(4) arg [OF _ yieldsD(1) [OF ya]]] pair(2) by simp
    show ?thesis unfolding pair(5)
    proof (rule pair_yields [OF ya yb])
      fix \<nu> and u v w :: rat
      assume "expr_holds z env vlen a \<nu> u" "expr_holds z env vlen b \<nu> v"
        "\<And>i j. u = of_int i \<Longrightarrow> v = of_int j \<Longrightarrow> w = of_int (z_pair z i j)"
      then show "?H \<nu> w" using rel zc pair(1,2) unfolding expr_holds_def by (auto split: bind_splits)
    qed
  next
    case (proj a p s1 f)
    have ya: "yields z s (expr_holds z env vlen a) (p, s1)" using IH [OF _ proj(3) arg [OF _ ext]] proj(2) by simp
    show ?thesis unfolding proj(4)
    proof (rule project_yields [OF ya s(2)])
      fix \<nu> and u w :: rat
      assume "expr_holds z env vlen a \<nu> u" "\<And>h. u = of_int h \<Longrightarrow> w = of_int (if f then z_fst z h else z_snd z h)"
      then show "?H \<nu> w" using rel zc proj(1,2) unfolding expr_holds_def by (cases f) auto
    qed
  next
    case (len v)
    have "yields z s (\<lambda>\<nu> w. vlen_rel z \<nu> vlen \<longrightarrow> w = of_int (z_len z v)) r"
      unfolding len(3) by (rule vec_len_yields [OF c])
    then show ?thesis by (rule yields_mono) (use len(1,2) zc in \<open>auto simp: expr_holds_def\<close>)
  qed
qed

theorem se_yields:
  "se_from_ast e env vlen s = Some r \<Longrightarrow> ctx_ok z env vlen s (idents e) \<Longrightarrow>
   yields z s (expr_holds z env vlen e) r"
proof (induction e arbitrary: s r)
  case (NODE_INT_LIT n)
  have "in_i64 (sint n)" using sint_greater_eq [of n] sint_less [of n] by (simp add: in_i64_def INT64_MIN_def INT64_MAX_def)
  with NODE_INT_LIT show ?case by (auto simp: expr_holds_def ctx_ok_def intro!: yields_int)
next
  case (NODE_IDENT x)
  then show ?case using ident_yields by auto
next
  case (NODE_UNARY op e)
  show ?case
  proof (cases "op = UOP_NEG")
    case True
    with NODE_UNARY(2) obtain v s1 where v: "se_from_ast e env vlen s = Some (v, s1)"
      "r = (if s_nonlinear v then v else sym_lin (lin_neg (s_lin v)), s1)" by (auto split: bind_splits)
    have y: "yields z s (expr_holds z env vlen e) (v, s1)" using NODE_UNARY(1,3) v(1) by simp
    show ?thesis
    proof (cases "s_nonlinear v")
      case True
      with y v(2) show ?thesis by (simp add: yields_def)
    next
      case False
      note g = yieldsD(2) [OF y False]
      have "yields z s1 (expr_holds z env vlen (NODE_UNARY op e)) (sym_lin (lin_neg (s_lin v)), s1)"
      proof (rule yields_lin [OF _ lin_neg_res [OF good_res [OF g]] settled_closed(4)])
        show "st_ok s1" using y by (blast dest: yieldsD extendsD)
        show "settled (g_prod_ctr s1) (\<lambda>\<nu>. lin_val \<nu> (s_lin v))" using g by (simp add: good_def)
        fix \<nu> assume "int_valued \<nu>" "all_true z \<nu> (entries s1)"
        from yieldsD(3) [OF y False this] True
        show "expr_holds z env vlen (NODE_UNARY op e) \<nu> (- lin_val \<nu> (s_lin v))" by (auto simp: expr_holds_def)
      qed
      with v(2) False yields_trans [OF yieldsD(1) [OF y]] show ?thesis by simp
    qed
  next
    case False
    with NODE_UNARY show ?thesis by (auto simp: ctx_ok_def intro: yields_nonlin)
  qed
next
  case (NODE_CALL call callee args targs)
  show ?case
  proof (cases "reads_find (entries s) call")
    case None
    show ?thesis by (rule builtin_yields [OF NODE_CALL(3,4) None NODE_CALL(2)])
  next
    case (Some rv)
    then obtain l where l: "se_reads s = Some l" "reads_find l call = Some rv"
      by (auto simp: entries_def reads_find_def split: option.splits)
    have "r = (sym_lin (lin_var rv), s)" "st_ok s" using NODE_CALL(3,4) l by (simp_all add: ctx_ok_def)
    with call_yields [OF _ l, of z] show ?thesis by (auto simp: expr_holds_def elim!: yields_mono)
  qed
next
  case (NODE_BINARY op a b)
  from NODE_BINARY(3) obtain l s1 x s2 where e: "se_from_ast a env vlen s = Some (l, s1)"
    "se_from_ast b env vlen s1 = Some (x, s2)" "se_binary op l x s2 = Some r" by (auto split: bind_splits)
  have ya: "yields z s (expr_holds z env vlen a) (l, s1)"
    by (rule NODE_BINARY(1) [OF e(1) ctx_ok_mono [OF NODE_BINARY(4) extends_refl]])
      (use NODE_BINARY(4) in \<open>auto simp: ctx_ok_def\<close>)
  have yb: "yields z s1 (expr_holds z env vlen b) (x, s2)"
    by (rule NODE_BINARY(2) [OF e(2) ctx_ok_mono [OF NODE_BINARY(4) yieldsD(1) [OF ya]]]) auto
  have "operands s2 l x"
    using yieldsD(2) [OF ya] yieldsD(2) [OF yb] good_mono extendsD [OF yieldsD(1) [OF yb]] by (auto simp: operands_def)
  note op = se_binary_spec [OF this e(3)]
  show ?case
  proof (rule yields_binary [OF ya yb op])
    fix \<nu> and a' b' w :: rat
    assume h: "expr_holds z env vlen a \<nu> a'" "expr_holds z env vlen b \<nu> b'"
      and w: "\<And>x y v. a' = of_int x \<Longrightarrow> b' = of_int y \<Longrightarrow> zop op x y = Some v \<Longrightarrow> w = of_int v"
    show "expr_holds z env vlen (NODE_BINARY op a b) \<nu> w"
      unfolding expr_holds_def
    proof (intro impI allI)
      fix v assume r: "env_rel z \<nu> env (idents (NODE_BINARY op a b))" "vlen_rel z \<nu> vlen"
        and v: "zval z (NODE_BINARY op a b) = Some v"
      then obtain i j where ij: "zval z a = Some i" "zval z b = Some j" "zop op i j = Some v"
        by (auto split: bind_splits)
      have "env_rel z \<nu> env (idents a)" "env_rel z \<nu> env (idents b)" using r(1) by (auto simp: env_rel_def)
      with h r(2) ij show "w = of_int v" by (intro w) (auto simp: expr_holds_def)
    qed
  qed
qed (auto simp: ctx_ok_def intro: yields_nonlin)

end
