(* ===== verification/SymDnf.thy ===== *)
theory SymDnf
  imports SymSound Interp
begin

text \<open>
  Conditions in disjunctive normal form (\<open>bool_to_dnf\<close> of
  \<open>src/verify_core.c\<close>): a \<open>Formula\<close> is a list of branches, a branch a list of
  constraints. A condition outside the fragment gives \<open>None\<close>, the return value
  0 of the code; the list of recorded values may have grown by then.
\<close>

section \<open>Translation\<close>

type_synonym ConsList = "Cons list"
type_synonym Formula = "ConsList list"

definition atom_to_cons :: "Lin \<Rightarrow> binop \<Rightarrow> Lin \<Rightarrow> bool \<Rightarrow> Cons option" where
  "atom_to_cons lhs cmp rhs negated =
     (case (case cmp of
              OP_LT \<Rightarrow> Some (lin_sub lhs rhs, C_LT)
            | OP_LE \<Rightarrow> Some (lin_sub lhs rhs, C_LE)
            | OP_GT \<Rightarrow> Some (lin_sub rhs lhs, C_LT)
            | OP_GE \<Rightarrow> Some (lin_sub rhs lhs, C_LE)
            | _ \<Rightarrow> None) of
        None \<Rightarrow> None
      | Some (d, op) \<Rightarrow>
          if lin_ovf d then None
          else if negated then Some (mk_cons (lin_neg d) (if op = C_LT then C_LE else C_LT) rat_zero)
          else Some (mk_cons d op rat_zero))"

fun is_elem_ref :: "node \<Rightarrow> bool" where
  "is_elem_ref (NODE_ELEM_REF v) = True"
| "is_elem_ref _ = False"

text \<open>The result of a conversion: the trap of \<open>se_from_ast\<close>, or a formula or failure.\<close>

type_synonym dnf = "(Formula option \<times> SeState) option"

definition cmp_to_formula ::
  "binop \<Rightarrow> node \<Rightarrow> node \<Rightarrow> SEnv \<Rightarrow> VLenMap \<Rightarrow> bool \<Rightarrow> SeState \<Rightarrow> dnf" where
  "cmp_to_formula op a b env vlen negated s =
     (if is_elem_ref a \<or> is_elem_ref b then Some (Some [[]], s)
      else do {
        (l, s1) \<leftarrow> se_from_ast a env vlen s;
        (r, s2) \<leftarrow> se_from_ast b env vlen s1;
        Some (if s_nonlinear l \<or> s_nonlinear r then None
              else map_option (\<lambda>c. [[c]]) (atom_to_cons (s_lin l) op (s_lin r) negated), s2)
      })"

fun call_named :: "string list \<Rightarrow> node \<Rightarrow> bool" where
  "call_named ns (NODE_CALL call (NODE_IDENT x) args targs) \<longleftrightarrow> x \<in> set ns"
| "call_named ns _ \<longleftrightarrow> False"

definition is_sorted_call :: "node \<Rightarrow> bool" where
  "is_sorted_call e = call_named [''sorted''] e"

definition is_world_contract_call :: "node \<Rightarrow> bool" where
  "is_world_contract_call e \<longleftrightarrow>
     call_named [''world_frozen'', ''world_mutable'', ''world_owned''] e \<and>
     (case e of NODE_CALL call f args targs \<Rightarrow> length args = 1 | _ \<Rightarrow> False)"

definition world_contract_of :: "node \<Rightarrow> nat" where
  "world_contract_of e =
     (case e of
        NODE_CALL call (NODE_IDENT nm) [NODE_IDENT x] targs \<Rightarrow>
          if nm = ''world_frozen'' then 1
          else if nm = ''world_mutable'' then 2
          else if nm = ''world_owned'' then 3 else 0
      | _ \<Rightarrow> 0)"

definition is_world_ghost_call :: "node \<Rightarrow> bool" where
  "is_world_ghost_call e \<longleftrightarrow> world_contract_of e \<noteq> 0"

definition f_product :: "Formula \<Rightarrow> Formula \<Rightarrow> Formula" where
  "f_product a b = map (\<lambda>(x, y). map cons_clone x @ map cons_clone y) (List.product a b)"

text \<open>Two conversions in a row; the second runs if the first succeeded.\<close>

definition dnf_both :: "(Formula \<Rightarrow> Formula \<Rightarrow> Formula) \<Rightarrow> dnf \<Rightarrow> (SeState \<Rightarrow> dnf) \<Rightarrow> dnf" where
  "dnf_both f x y =
     do {
       (l, s1) \<leftarrow> x;
       (case l of
          None \<Rightarrow> Some (None, s1)
        | Some a \<Rightarrow> do { (r, s2) \<leftarrow> y s1; Some (map_option (f a) r, s2) })
     }"

text \<open>The ghost predicates: true where they stand positively, not convertible under a negation.\<close>

definition ghost_formula :: "bool \<Rightarrow> SeState \<Rightarrow> dnf" where
  "ghost_formula negated s = Some (if negated then None else Some [[]], s)"

fun bool_to_dnf :: "node \<Rightarrow> SEnv \<Rightarrow> VLenMap \<Rightarrow> bool \<Rightarrow> SeState \<Rightarrow> dnf" where
  "bool_to_dnf (NODE_BOOL_LIT v) env vlen negated s = Some (Some (if v \<noteq> negated then [[]] else []), s)"
| "bool_to_dnf (NODE_CALL call f args targs) env vlen negated s =
     (if is_sorted_call (NODE_CALL call f args targs) \<or> is_world_contract_call (NODE_CALL call f args targs)
      then ghost_formula negated s else Some (None, s))"
| "bool_to_dnf (NODE_UNARY op e) env vlen negated s =
     (if op = UOP_NOT then bool_to_dnf e env vlen (\<not> negated) s else Some (None, s))"
| "bool_to_dnf (NODE_BINARY op a b) env vlen negated s =
     (if is_cmp op then cmp_to_formula op a b env vlen negated s
      else if op = OP_EQ then
        (if \<not> negated
         then dnf_both f_product (cmp_to_formula OP_LE a b env vlen False s)
                (cmp_to_formula OP_GE a b env vlen False)
         else dnf_both (@) (cmp_to_formula OP_LT a b env vlen False s)
                (cmp_to_formula OP_GT a b env vlen False))
      else if op = OP_AND \<or> op = OP_OR then
        dnf_both (if (op = OP_OR) \<noteq> negated then (@) else f_product)
          (bool_to_dnf a env vlen negated s) (bool_to_dnf b env vlen negated)
      else Some (None, s))"
| "bool_to_dnf _ env vlen negated s = Some (None, s)"

section \<open>The value of a condition\<close>

text \<open>
  The reference: comparisons of values, the connectives evaluated from the left
  as the language does. An element-wise comparison and the ghost predicates are
  not scalar conditions; \<open>g\<close> gives their truth.
\<close>

definition zcmp :: "binop \<Rightarrow> int \<Rightarrow> int \<Rightarrow> bool" where
  "zcmp op a b =
     (case op of OP_LT \<Rightarrow> a < b | OP_LE \<Rightarrow> a \<le> b | OP_GT \<Rightarrow> b < a | OP_GE \<Rightarrow> b \<le> a | _ \<Rightarrow> a = b)"

fun zbool :: "(node \<Rightarrow> bool option) \<Rightarrow> zenv \<Rightarrow> node \<Rightarrow> bool option" where
  "zbool g z (NODE_BOOL_LIT v) = Some v"
| "zbool g z (NODE_CALL call f args targs) = g (NODE_CALL call f args targs)"
| "zbool g z (NODE_UNARY op e) = (if op = UOP_NOT then map_option Not (zbool g z e) else None)"
| "zbool g z (NODE_BINARY op a b) =
     (if is_cmp op \<or> op = OP_EQ then
        (if is_elem_ref a \<or> is_elem_ref b then g (NODE_BINARY op a b)
         else do { x \<leftarrow> zval z a; y \<leftarrow> zval z b; Some (zcmp op x y) })
      else if op = OP_AND then
        (case zbool g z a of Some True \<Rightarrow> zbool g z b | r \<Rightarrow> r)
      else if op = OP_OR then
        (case zbool g z a of Some False \<Rightarrow> zbool g z b | r \<Rightarrow> r)
      else None)"
| "zbool g z _ = None"

text \<open>No part of the condition is a ghost predicate or an element-wise comparison.\<close>

fun scalar_cond :: "node \<Rightarrow> bool" where
  "scalar_cond (NODE_CALL call f args targs) = False"
| "scalar_cond (NODE_UNARY op e) = scalar_cond e"
| "scalar_cond (NODE_BINARY op a b) \<longleftrightarrow>
     (if is_cmp op \<or> op = OP_EQ then \<not> is_elem_ref a \<and> \<not> is_elem_ref b else scalar_cond a \<and> scalar_cond b)"
| "scalar_cond _ = True"

fun cond_idents :: "node \<Rightarrow> string set" where
  "cond_idents (NODE_UNARY op e) = cond_idents e"
| "cond_idents (NODE_BINARY op a b) =
     (if is_cmp op \<or> op = OP_EQ then (if is_elem_ref a \<or> is_elem_ref b then {} else idents a \<union> idents b)
      else cond_idents a \<union> cond_idents b)"
| "cond_idents _ = {}"

definition f_holds :: "(string \<Rightarrow> rat) \<Rightarrow> Formula \<Rightarrow> bool" where
  "f_holds \<nu> F \<longleftrightarrow> (\<exists>cl \<in> set F. all_hold \<nu> cl)"

definition f_ok :: "Formula \<Rightarrow> bool" where
  "f_ok F \<longleftrightarrow> (\<forall>cl \<in> set F. \<forall>k \<in> set cl. cons_ok k \<or> lin_ovf (c_lhs k))"

text \<open>No constraint of the formula overflowed when it was negated.\<close>

definition f_exact :: "Formula \<Rightarrow> bool" where
  "f_exact F \<longleftrightarrow> (\<forall>cl \<in> set F. \<forall>k \<in> set cl. \<not> lin_ovf (c_lhs k))"

section \<open>Formulas\<close>

lemma f_simps:
  "f_holds \<nu> (F @ G) \<longleftrightarrow> f_holds \<nu> F \<or> f_holds \<nu> G" "f_ok (F @ G) \<longleftrightarrow> f_ok F \<and> f_ok G"
  "f_exact (F @ G) \<longleftrightarrow> f_exact F \<and> f_exact G"
  "f_holds \<nu> [[]]" "\<not> f_holds \<nu> []" "f_ok []" "f_ok [[]]" "f_exact []"
  by (auto simp: f_holds_def f_ok_def f_exact_def all_hold_def)

lemma push_terms_ovf: "lin_ovf r \<Longrightarrow> lin_ovf (push_terms f ts r)"
  by (induction ts arbitrary: r) (auto simp: push_terms_def lin_push_raw_def Let_def split: option.splits)

lemma clone_cases:
  assumes "cons_ok k \<or> lin_ovf (c_lhs k)"
  shows "cons_clone k = k \<or> lin_ovf (c_lhs k) \<and> lin_ovf (c_lhs (cons_clone k))"
proof (cases "cons_ok k")
  case True
  then show ?thesis by (simp add: cons_clone_id)
next
  case False
  with assms show ?thesis by (simp add: cons_clone_def mk_cons_def lin_clone_def push_terms_ovf)
qed

lemma f_product_spec:
  assumes a: "f_ok A" and b: "f_ok B"
  shows "f_ok (f_product A B)"
    and "f_exact (f_product A B) \<Longrightarrow> A \<noteq> [] \<Longrightarrow> B \<noteq> [] \<Longrightarrow> f_exact A \<and> f_exact B"
    and "f_exact A \<Longrightarrow> f_exact B \<Longrightarrow> f_holds \<nu> (f_product A B) \<longleftrightarrow> f_holds \<nu> A \<and> f_holds \<nu> B"
proof -
  have kA: "cons_clone k = k \<or> lin_ovf (c_lhs k) \<and> lin_ovf (c_lhs (cons_clone k))" if "x \<in> set A" "k \<in> set x" for x k
    using a that clone_cases unfolding f_ok_def by blast
  have kB: "cons_clone k = k \<or> lin_ovf (c_lhs k) \<and> lin_ovf (c_lhs (cons_clone k))" if "x \<in> set B" "k \<in> set x" for x k
    using b that clone_cases unfolding f_ok_def by blast
  have mem: "set (f_product A B) = (\<lambda>(x, y). map cons_clone x @ map cons_clone y) ` (set A \<times> set B)"
    by (simp add: f_product_def)
  show "f_ok (f_product A B)"
  proof -
    have "cons_ok (cons_clone k) \<or> lin_ovf (c_lhs (cons_clone k))" if "x \<in> set A \<or> x \<in> set B" "k \<in> set x" for x k
      using that kA kB a b unfolding f_ok_def by metis
    then show ?thesis unfolding f_ok_def mem by auto
  qed
  show "f_exact A \<and> f_exact B" if e: "f_exact (f_product A B)" and n: "A \<noteq> []" "B \<noteq> []"
  proof -
    have "\<not> lin_ovf (c_lhs k)" if x: "x \<in> set A" "y \<in> set B" and k: "k \<in> set x \<union> set y" for x y k
    proof -
      have "cons_clone k \<in> set (map cons_clone x @ map cons_clone y)" using k by auto
      moreover have "map cons_clone x @ map cons_clone y \<in> set (f_product A B)" unfolding mem using x by force
      ultimately have "\<not> lin_ovf (c_lhs (cons_clone k))" using e unfolding f_exact_def by blast
      then show ?thesis using kA kB x k by (metis Un_iff)
    qed
    moreover obtain x y where "x \<in> set A" "y \<in> set B" using n by (meson last_in_set)
    ultimately show ?thesis unfolding f_exact_def by blast
  qed
  show "f_holds \<nu> (f_product A B) \<longleftrightarrow> f_holds \<nu> A \<and> f_holds \<nu> B" if e: "f_exact A" "f_exact B"
  proof -
    have "map cons_clone x = x" if "x \<in> set A \<or> x \<in> set B" for x
      using that kA kB e unfolding f_exact_def by (intro map_idI) blast
    then have "set (f_product A B) = (\<lambda>(x, y). x @ y) ` (set A \<times> set B)" unfolding mem by (intro image_cong) auto
    moreover have "all_hold \<nu> (x @ y) \<longleftrightarrow> all_hold \<nu> x \<and> all_hold \<nu> y" for x y by (auto simp: all_hold_def)
    ultimately show ?thesis by (auto simp: f_holds_def)
  qed
qed

section \<open>Meaning of a conversion\<close>

text \<open>
  The formula holds where the condition is true, and, when \<open>exact\<close>, only there,
  for every valuation that satisfies \<open>P\<close> and makes the recorded entries true.
\<close>

definition dnf_means ::
  "zenv \<Rightarrow> SeState \<Rightarrow> ((string \<Rightarrow> rat) \<Rightarrow> bool) \<Rightarrow> bool option \<Rightarrow> bool \<Rightarrow> Formula option \<times> SeState \<Rightarrow> bool" where
  "dnf_means z s P t exact r \<longleftrightarrow>
     (case r of (res, s') \<Rightarrow>
        extends z s s' \<and>
        (\<forall>F. res = Some F \<longrightarrow> f_ok F \<and>
          (f_exact F \<longrightarrow> (\<forall>\<nu> b. int_valued \<nu> \<longrightarrow> all_true z \<nu> (entries s') \<longrightarrow> P \<nu> \<longrightarrow> t = Some b \<longrightarrow>
            (b \<longrightarrow> f_holds \<nu> F) \<and> (exact \<longrightarrow> f_holds \<nu> F \<longrightarrow> b)))))"

lemma dnf_meansD:
  assumes "dnf_means z s P t exact (res, s')"
  shows "extends z s s'" "res = Some F \<Longrightarrow> f_ok F"
    "res = Some F \<Longrightarrow> f_exact F \<Longrightarrow> int_valued \<nu> \<Longrightarrow> all_true z \<nu> (entries s') \<Longrightarrow> P \<nu> \<Longrightarrow> t = Some b \<Longrightarrow>
      (b \<longrightarrow> f_holds \<nu> F) \<and> (exact \<longrightarrow> f_holds \<nu> F \<longrightarrow> b)"
  using assms by (auto simp: dnf_means_def)

lemma dnf_fail: "extends z s s' \<Longrightarrow> dnf_means z s P t exact (None, s')"
  by (simp add: dnf_means_def)

lemma dnf_both_means:
  assumes e: "dnf_both f x y = Some r"
    and x: "\<And>r. x = Some r \<Longrightarrow> dnf_means z s P1 t1 ex1 r"
    and y: "\<And>s1 r. extends z s s1 \<Longrightarrow> y s1 = Some r \<Longrightarrow> dnf_means z s1 P2 t2 ex2 r"
    and P: "\<And>\<nu>. P \<nu> \<Longrightarrow> P1 \<nu> \<and> P2 \<nu>" and ex: "exact \<Longrightarrow> ex1 \<and> ex2"
    and f: "f = (@) \<and> (\<forall>b. t = Some b \<longrightarrow> (if b then t1 = Some True \<or> t1 = Some False \<and> t2 = Some True
              else t1 = Some False \<and> t2 = Some False)) \<or>
            f = f_product \<and> (\<forall>b. t = Some b \<longrightarrow> (if b then t1 = Some True \<and> t2 = Some True
              else t1 = Some False \<or> t1 = Some True \<and> t2 = Some False))"
  shows "dnf_means z s P t exact r"
proof -
  from e obtain l s1 where l: "x = Some (l, s1)" by (auto simp: dnf_both_def split: bind_splits)
  note m1 = x [OF l]
  show ?thesis
  proof (cases l)
    case None
    then show ?thesis using e l dnf_fail [OF dnf_meansD(1) [OF m1]] by (simp add: dnf_both_def)
  next
    case (Some A)
    with e l obtain b s2 where b: "y s1 = Some (b, s2)" "r = (map_option (f A) b, s2)"
      by (auto simp: dnf_both_def split: bind_splits)
    note m2 = y [OF dnf_meansD(1) [OF m1] b(1)]
    note ext = extends_trans [OF dnf_meansD(1) [OF m1] dnf_meansD(1) [OF m2]]
    show ?thesis
    proof (cases b)
      case None
      then show ?thesis using dnf_fail [OF ext] b by simp
    next
      case B: (Some B)
      note ok = dnf_meansD(2) [OF m1 Some] dnf_meansD(2) [OF m2 B]
      have v1: "(b \<longrightarrow> f_holds \<nu> A) \<and> (exact \<longrightarrow> f_holds \<nu> A \<longrightarrow> b)"
        if "f_exact A" "int_valued \<nu>" "all_true z \<nu> (entries s2)" "P \<nu>" "t1 = Some b" for \<nu> b
        using dnf_meansD(3) [OF m1 Some that(1,2) extendsD(3) [OF dnf_meansD(1) [OF m2] that(3)] _ that(5)] P [OF that(4)] ex
        by blast
      have v2: "(b \<longrightarrow> f_holds \<nu> B) \<and> (exact \<longrightarrow> f_holds \<nu> B \<longrightarrow> b)"
        if "f_exact B" "int_valued \<nu>" "all_true z \<nu> (entries s2)" "P \<nu>" "t2 = Some b" for \<nu> b
        using dnf_meansD(3) [OF m2 B that(1,2,3) _ that(5)] P [OF that(4)] ex by blast
      have "f_ok (f A B)" using f ok f_product_spec(1) by (auto simp: f_simps)
      moreover have "(c \<longrightarrow> f_holds \<nu> (f A B)) \<and> (exact \<longrightarrow> f_holds \<nu> (f A B) \<longrightarrow> c)"
        if h: "f_exact (f A B)" "int_valued \<nu>" "all_true z \<nu> (entries s2)" "P \<nu>" "t = Some c" for \<nu> c
        using f
      proof (elim disjE conjE)
        assume g: "f = (@)" and t: "\<forall>b. t = Some b \<longrightarrow> (if b then t1 = Some True \<or> t1 = Some False \<and> t2 = Some True
              else t1 = Some False \<and> t2 = Some False)"
        then have "f_exact A" "f_exact B" using h(1) by (auto simp: f_simps)
        note w = v1 [OF this(1) h(2-4)] v2 [OF this(2) h(2-4)]
        show ?thesis using t h(5) w g by (cases c) (auto simp: f_simps split: if_splits)
      next
        assume g: "f = f_product" and t: "\<forall>b. t = Some b \<longrightarrow> (if b then t1 = Some True \<and> t2 = Some True
              else t1 = Some False \<or> t1 = Some True \<and> t2 = Some False)"
        show ?thesis
        proof (cases "A = [] \<or> B = []")
          case True
          then have "f A B = []" by (auto simp: g f_product_def simp flip: set_empty)
          moreover have "\<not> c" if c
            using True v1 [of \<nu> True] v2 [of \<nu> True] h t that by (auto simp: f_simps)
          ultimately show ?thesis by (auto simp: f_simps)
        next
          case False
          then have x: "f_exact A" "f_exact B" using f_product_spec(2) [OF ok] h(1) g by auto
          note w = v1 [OF x(1) h(2-4)] v2 [OF x(2) h(2-4)]
          show ?thesis
            using t h(5) w g f_product_spec(3) [OF ok x] by (cases c) (auto split: if_splits)
        qed
      qed
      ultimately show ?thesis unfolding dnf_means_def b(2) B prod.case option.map using ext by blast
    qed
  qed
qed

section \<open>Comparisons\<close>

lemma atom_spec:
  assumes l: "good c l" and r: "good c r" and op: "is_cmp op"
    and k: "atom_to_cons l op r negated = Some k"
  shows "cons_ok k \<or> lin_ovf (c_lhs k)"
    and "\<not> lin_ovf (c_lhs k) \<Longrightarrow> lin_val \<nu> l = of_int a \<Longrightarrow> lin_val \<nu> r = of_int b \<Longrightarrow>
      holds \<nu> k \<longleftrightarrow> (zcmp op a b \<noteq> negated)"
proof -
  let ?x = "if op = OP_LT \<or> op = OP_LE then l else r" and ?y = "if op = OP_LT \<or> op = OP_LE then r else l"
  let ?p = "if op = OP_LT \<or> op = OP_GT then C_LT else C_LE"
  let ?d = "lin_sub ?x ?y" let ?n = "lin_neg ?d"
  have d: "\<not> lin_ovf ?d" "k = (if negated then mk_cons ?n (if ?p = C_LT then C_LE else C_LT) rat_zero else mk_cons ?d ?p rat_zero)"
    using k op by (auto simp: atom_to_cons_def is_cmp_def split: if_splits)
  have dr: "lin_res ?d (\<lambda>\<nu>. lin_val \<nu> ?x - lin_val \<nu> ?y)" using l r by (intro lin_sub_res good_res [of c]) auto
  from lin_res_ok [OF dr d(1)] have dv: "lin_ok ?d" "lin_val \<nu> ?d = lin_val \<nu> ?x - lin_val \<nu> ?y" for \<nu> by auto
  have nr: "lin_res ?n (\<lambda>\<nu>. - lin_val \<nu> ?d)" by (rule lin_neg_res [OF lin_ok_res [OF dv(1)]])
  show "cons_ok k \<or> lin_ovf (c_lhs k)"
    using d(2) dv(1) nr rat_zero_ok by (auto simp: cons_ok_def mk_cons_def lin_res_def)
  assume ov: "\<not> lin_ovf (c_lhs k)" and v: "lin_val \<nu> l = of_int a" "lin_val \<nu> r = of_int b"
  have nv: "lin_val \<nu> ?n = - lin_val \<nu> ?d" if negated using lin_res_ok [OF nr] ov d(2) that by (simp add: mk_cons_def)
  have dvs: "lin_val \<nu> ?d = of_int (if op = OP_LT \<or> op = OP_LE then a - b else b - a)" using dv(2) [of \<nu>] v by simp
  have "holds \<nu> k \<longleftrightarrow> (if negated then (if ?p = C_LT then - lin_val \<nu> ?d \<le> 0 else - lin_val \<nu> ?d < 0)
      else (if ?p = C_LT then lin_val \<nu> ?d < 0 else lin_val \<nu> ?d \<le> 0))"
    using nv by (simp add: d(2) holds_def mk_cons_def rat_zero_val)
  also have "\<dots> \<longleftrightarrow> (zcmp op a b \<noteq> negated)" using op unfolding dvs by (auto simp: zcmp_def is_cmp_def)
  finally show "holds \<nu> k \<longleftrightarrow> (zcmp op a b \<noteq> negated)" .
qed

lemma cmp_means:
  assumes e: "cmp_to_formula op a b env vlen negated s = Some r" and op: "is_cmp op"
    and c: "ctx_ok z env vlen s (if is_elem_ref a \<or> is_elem_ref b then {} else idents a \<union> idents b)"
    and P: "\<And>\<nu>. \<not> is_elem_ref a \<Longrightarrow> \<not> is_elem_ref b \<Longrightarrow> P \<nu> \<Longrightarrow> env_rel z \<nu> env (idents a \<union> idents b) \<and> vlen_rel z \<nu> vlen"
    and t: "\<not> is_elem_ref a \<Longrightarrow> \<not> is_elem_ref b \<Longrightarrow>
      t = do { x \<leftarrow> zval z a; y \<leftarrow> zval z b; Some (zcmp op x y \<noteq> negated) }"
    and ex: "exact \<Longrightarrow> \<not> is_elem_ref a \<and> \<not> is_elem_ref b"
  shows "dnf_means z s P t exact r"
proof (cases "is_elem_ref a \<or> is_elem_ref b")
  case True
  then show ?thesis
    using e ex c by (auto simp: cmp_to_formula_def dnf_means_def extends_refl ctx_ok_def f_simps)
next
  case False
  from e False obtain l s1 x s2 where q: "se_from_ast a env vlen s = Some (l, s1)" "se_from_ast b env vlen s1 = Some (x, s2)"
    "r = (if s_nonlinear l \<or> s_nonlinear x then None
          else map_option (\<lambda>c. [[c]]) (atom_to_cons (s_lin l) op (s_lin x) negated), s2)"
    by (auto simp: cmp_to_formula_def split: bind_splits)
  have c: "ctx_ok z env vlen s (idents a \<union> idents b)" using c False by auto
  have ya: "yields z s (expr_holds z env vlen a) (l, s1)"
    by (rule se_yields [OF q(1) ctx_ok_mono [OF c extends_refl]]) (use c in \<open>auto simp: ctx_ok_def\<close>)
  have yb: "yields z s1 (expr_holds z env vlen b) (x, s2)"
    by (rule se_yields [OF q(2) ctx_ok_mono [OF c yieldsD(1) [OF ya]]]) auto
  note ext = extends_trans [OF yieldsD(1) [OF ya] yieldsD(1) [OF yb]]
  show ?thesis
  proof (cases "s_nonlinear l \<or> s_nonlinear x \<or> atom_to_cons (s_lin l) op (s_lin x) negated = None")
    case True
    then show ?thesis using q(3) dnf_fail [OF ext] by auto
  next
    case n: False
    then obtain k where k: "atom_to_cons (s_lin l) op (s_lin x) negated = Some k" by blast
    have n: "\<not> s_nonlinear l" "\<not> s_nonlinear x" using n by auto
    note g = good_mono [OF yieldsD(2) [OF ya n(1)] extendsD(2) [OF yieldsD(1) [OF yb]]] yieldsD(2) [OF yb n(2)]
    have "f_holds \<nu> [[k]] = b'" if ov: "\<not> lin_ovf (c_lhs k)" and i: "int_valued \<nu>" and tr: "all_true z \<nu> (entries s2)"
      and p: "P \<nu>" and tb: "t = Some b'" for \<nu> b'
    proof -
      obtain u v where uv: "zval z a = Some u" "zval z b = Some v" "b' = (zcmp op u v \<noteq> negated)"
        using t tb False by (auto split: bind_splits)
      have rel: "env_rel z \<nu> env (idents a)" "env_rel z \<nu> env (idents b)" "vlen_rel z \<nu> vlen"
        using P p False by (auto intro: env_rel_mono)
      have "lin_val \<nu> (s_lin l) = of_int u"
        using yieldsD(3) [OF ya n(1) i extendsD(3) [OF yieldsD(1) [OF yb] tr]] rel uv(1) by (auto simp: expr_holds_def)
      moreover have "lin_val \<nu> (s_lin x) = of_int v"
        using yieldsD(3) [OF yb n(2) i tr] rel uv(2) by (auto simp: expr_holds_def)
      ultimately show ?thesis
        using atom_spec(2) [OF g op k ov] uv(3) by (simp add: f_holds_def all_hold_def)
    qed
    moreover have "f_ok [[k]]" using atom_spec(1) [OF g op k] by (simp add: f_ok_def)
    ultimately show ?thesis using q(3) n k ext by (auto simp: dnf_means_def f_exact_def)
  qed
qed

section \<open>Conditions\<close>

theorem dnf_sound:
  "bool_to_dnf e env vlen negated s = Some r \<Longrightarrow> ctx_ok z env vlen s (cond_idents e) \<Longrightarrow>
   dnf_means z s (\<lambda>\<nu>. env_rel z \<nu> env (cond_idents e) \<and> vlen_rel z \<nu> vlen)
     (map_option (\<lambda>b. b \<noteq> negated) (zbool g z e)) (scalar_cond e) r"
proof (induction e arbitrary: negated s r)
  case (NODE_BOOL_LIT v)
  then show ?case by (cases v; cases negated) (auto simp: dnf_means_def extends_refl ctx_ok_def f_simps)
next
  case (NODE_CALL call f args targs)
  then show ?case
    by (auto simp: ghost_formula_def dnf_means_def extends_refl ctx_ok_def f_simps split: if_splits)
next
  case (NODE_UNARY op e)
  show ?case
  proof (cases "op = UOP_NOT")
    case True
    with NODE_UNARY.IH [of "\<not> negated" s r] NODE_UNARY.prems show ?thesis
      by (cases "zbool g z e") (simp_all add: dnf_means_def)
  next
    case False
    with NODE_UNARY.prems show ?thesis by (auto simp: dnf_means_def extends_refl ctx_ok_def)
  qed
next
  case (NODE_BINARY op a b)
  let ?P = "\<lambda>\<nu>. env_rel z \<nu> env (cond_idents (NODE_BINARY op a b)) \<and> vlen_rel z \<nu> vlen"
  show ?case
  proof (cases "is_cmp op \<or> op = OP_EQ")
    case cmp: True
    have c: "ctx_ok z env vlen s' (if is_elem_ref a \<or> is_elem_ref b then {} else idents a \<union> idents b)"
      if "extends z s s'" for s'
      using ctx_ok_mono [OF NODE_BINARY.prems(2) that] cmp by auto
    have P: "?P \<nu> \<Longrightarrow> env_rel z \<nu> env (idents a \<union> idents b) \<and> vlen_rel z \<nu> vlen"
      if "\<not> is_elem_ref a" "\<not> is_elem_ref b" for \<nu> using cmp that by auto
    have refl: "extends z s s" using NODE_BINARY.prems(2) by (auto simp: ctx_ok_def extends_refl)
    show ?thesis
    proof (cases "is_cmp op")
      case True
      then show ?thesis
        using NODE_BINARY.prems(1) c [OF refl] P
        by (intro cmp_means) (auto split: bind_splits simp: is_cmp_def)
    next
      case False
      with cmp have op: "op = OP_EQ" by simp
      define T where "T = map_option (\<lambda>b. b \<noteq> negated) (zbool g z (NODE_BINARY op a b))"
      let ?t = "\<lambda>op'. if is_elem_ref a \<or> is_elem_ref b then T
          else do { x \<leftarrow> zval z a; y \<leftarrow> zval z b; Some (zcmp op' x y \<noteq> False) }"
      let ?ex = "scalar_cond (NODE_BINARY op a b)"
      have m: "dnf_means z s' ?P (?t op') ?ex r"
        if "cmp_to_formula op' a b env vlen False s' = Some r" "extends z s s'" "is_cmp op'" for op' s' r
        using that(1,3) c [OF that(2)] P op by (intro cmp_means) auto
      have t: "T = do { x \<leftarrow> zval z a; y \<leftarrow> zval z b; Some ((x = y) \<noteq> negated) }"
        if "\<not> is_elem_ref a" "\<not> is_elem_ref b"
        using op that by (auto simp: T_def zcmp_def is_cmp_def split: bind_splits)
      have cmps: "is_cmp OP_LE" "is_cmp OP_GE" "is_cmp OP_LT" "is_cmp OP_GT" by (simp_all add: is_cmp_def)
      show ?thesis
      proof (cases negated)
        case True
        with NODE_BINARY.prems(1) op have e: "dnf_both (@) (cmp_to_formula OP_LT a b env vlen False s)
            (cmp_to_formula OP_GT a b env vlen False) = Some r" by (simp add: is_cmp_def)
        have "dnf_means z s ?P (T) ?ex r"
        proof (rule dnf_both_means [OF e])
          show "cmp_to_formula OP_LT a b env vlen False s = Some r \<Longrightarrow> dnf_means z s ?P (?t OP_LT) ?ex r" for r
            by (rule m [OF _ refl cmps(3)])
          show "extends z s s1 \<Longrightarrow> cmp_to_formula OP_GT a b env vlen False s1 = Some r \<Longrightarrow>
              dnf_means z s1 ?P (?t OP_GT) ?ex r" for s1 r by (rule m [OF _ _ cmps(4)])
        qed (use True in \<open>auto simp: t zcmp_def split: bind_splits\<close>)
        then show ?thesis by (simp only: T_def)
      next
        case False
        with NODE_BINARY.prems(1) op have e: "dnf_both f_product (cmp_to_formula OP_LE a b env vlen False s)
            (cmp_to_formula OP_GE a b env vlen False) = Some r" by (simp add: is_cmp_def)
        have "dnf_means z s ?P (T) ?ex r"
        proof (rule dnf_both_means [OF e])
          show "cmp_to_formula OP_LE a b env vlen False s = Some r \<Longrightarrow> dnf_means z s ?P (?t OP_LE) ?ex r" for r
            by (rule m [OF _ refl cmps(1)])
          show "extends z s s1 \<Longrightarrow> cmp_to_formula OP_GE a b env vlen False s1 = Some r \<Longrightarrow>
              dnf_means z s1 ?P (?t OP_GE) ?ex r" for s1 r by (rule m [OF _ _ cmps(2)])
        qed (use False in \<open>auto simp: t zcmp_def split: bind_splits\<close>)
        then show ?thesis by (simp only: T_def)
      qed
    qed
  next
    case False
    show ?thesis
    proof (cases "op = OP_AND \<or> op = OP_OR")
      case conn: True
      have ids: "cond_idents (NODE_BINARY op a b) = cond_idents a \<union> cond_idents b" using False by auto
      have refl: "extends z s s" using NODE_BINARY.prems(2) by (auto simp: ctx_ok_def extends_refl)
      from NODE_BINARY.prems(1) conn have e: "dnf_both (if (op = OP_OR) \<noteq> negated then (@) else f_product)
          (bool_to_dnf a env vlen negated s) (bool_to_dnf b env vlen negated) = Some r" by (auto simp: is_cmp_def)
      show ?thesis
      proof (rule dnf_both_means [OF e])
        show "bool_to_dnf a env vlen negated s = Some r \<Longrightarrow>
            dnf_means z s (\<lambda>\<nu>. env_rel z \<nu> env (cond_idents a) \<and> vlen_rel z \<nu> vlen)
              (map_option (\<lambda>b. b \<noteq> negated) (zbool g z a)) (scalar_cond a) r" for r
          by (rule NODE_BINARY.IH(1) [OF _ ctx_ok_mono [OF NODE_BINARY.prems(2) refl]])
            (assumption | simp only: ids Un_upper1)+
        show "extends z s s1 \<Longrightarrow> bool_to_dnf b env vlen negated s1 = Some r \<Longrightarrow>
            dnf_means z s1 (\<lambda>\<nu>. env_rel z \<nu> env (cond_idents b) \<and> vlen_rel z \<nu> vlen)
              (map_option (\<lambda>b. b \<noteq> negated) (zbool g z b)) (scalar_cond b) r" for s1 r
          by (rule NODE_BINARY.IH(2) [OF _ ctx_ok_mono [OF NODE_BINARY.prems(2)]])
            (assumption | simp only: ids Un_upper2)+
        show "?P \<nu> \<Longrightarrow> (env_rel z \<nu> env (cond_idents a) \<and> vlen_rel z \<nu> vlen) \<and>
            (env_rel z \<nu> env (cond_idents b) \<and> vlen_rel z \<nu> vlen)" for \<nu>
          unfolding ids by (auto intro: env_rel_mono)
        show "scalar_cond (NODE_BINARY op a b) \<Longrightarrow> scalar_cond a \<and> scalar_cond b" using False by auto
      qed (use conn in \<open>cases "zbool g z a"; cases "zbool g z b"; cases negated;
            auto simp: is_cmp_def split: if_splits bool.splits\<close>)
    next
      case n: False
      then show ?thesis using NODE_BINARY.prems False by (auto simp: dnf_means_def extends_refl ctx_ok_def)
    qed
  qed
qed (auto simp: dnf_means_def extends_refl ctx_ok_def)

end
