(* ===== verification/SymProps.thy ===== *)
theory SymProps
  imports SymDnf "HOL-Library.Countable"
begin

text \<open>
  The properties of the symbolic translation: expressions to linear forms and
  conditions to formulas in disjunctive normal form.
\<close>

section \<open>Extending a valuation\<close>

lemma env_rel_agree:
  assumes c: "ctx_ok z env vlen s X" and a: "agree (g_prod_ctr s) \<nu> \<nu>'" and r: "env_rel z \<nu> env X"
  shows "env_rel z \<nu>' env X"
proof -
  have "case env_find env x of None \<Rightarrow> \<nu>' x = of_int (z_var z x)
      | Some b \<Rightarrow> b_nonlinear b \<or> lin_val \<nu>' (b_lin b) = of_int (z_var z x)" if x: "x \<in> X" for x
  proof (cases "env_find env x")
    case None
    then show ?thesis using c a r x by (auto simp: ctx_ok_def names_ok_def agree_def env_rel_def)
  next
    case (Some b)
    have "lin_val \<nu>' (b_lin b) = lin_val \<nu> (b_lin b)" if "\<not> b_nonlinear b"
      using lin_val_agree [OF _ a] c Some that by (auto simp: ctx_ok_def env_ok_def)
    moreover have "b_nonlinear b \<or> lin_val \<nu> (b_lin b) = of_int (z_var z x)"
      using r x Some by (auto simp: env_rel_def dest!: bspec [where x = x])
    ultimately show ?thesis using Some by (cases "b_nonlinear b") auto
  qed
  then show ?thesis by (simp add: env_rel_def)
qed

lemma vlen_rel_agree:
  assumes c: "ctx_ok z env vlen s X" and a: "agree (g_prod_ctr s) \<nu> \<nu>'" and r: "vlen_rel z \<nu> vlen"
  shows "vlen_rel z \<nu>' vlen"
  unfolding vlen_rel_def
proof (intro allI impI)
  fix v e assume e: "vlen_find vlen v = Some e"
  have "lin_val \<nu>' (vl_len e) = lin_val \<nu> (vl_len e)" if "\<not> vl_unknown e"
    using lin_val_agree [OF _ a] c e that by (auto simp: ctx_ok_def vlen_ok_def)
  moreover have "\<nu>' (len_name v) = \<nu> (len_name v)" using a old_len_name by (simp add: agree_def)
  ultimately show "(if vl_unknown e then \<nu>' (len_name v) else lin_val \<nu>' (vl_len e)) = of_int (z_len z v)"
    using r e by (auto simp: vlen_rel_def split: if_splits)
qed

section \<open>Expressions\<close>

text \<open>
  C22. The translation of an expression keeps its value: every integer
  valuation of the symbols in use extends to the names the translation gives
  to products, quotients, bit operations and pairs, and under every valuation
  that fits the inputs and the recorded entries the linear form has the value
  of the expression over the integers.
\<close>

theorem se_from_ast_value:
  assumes "se_from_ast e env vlen s = Some (y, s')" "ctx_ok z env vlen s (idents e)" "\<not> s_nonlinear y"
    and "zval z e = Some v" "int_valued \<nu>" "all_true z \<nu> (entries s)"
  shows "(\<exists>\<nu>'. int_valued \<nu>' \<and> agree (g_prod_ctr s) \<nu> \<nu>' \<and> all_true z \<nu>' (entries s')) \<and>
    (\<forall>\<mu>. int_valued \<mu> \<and> all_true z \<mu> (entries s') \<and> env_rel z \<mu> env (idents e) \<and> vlen_rel z \<mu> vlen \<longrightarrow>
       lin_val \<mu> (s_lin y) = of_int v)"
proof -
  have "yields z s (expr_holds z env vlen e) (y, s')" by (rule se_yields [OF assms(1,2)])
  then show ?thesis using assms(3-6) unfolding yields_def extends_def expr_holds_def prod.case by blast
qed

definition ex_z :: "int \<Rightarrow> int \<Rightarrow> zenv" where
  "ex_z n m =
     \<lparr>z_var = (\<lambda>x. if x = ''n'' then n else m), z_call = (\<lambda>_. None), z_len = (\<lambda>_. 0),
      z_pair = (\<lambda>a b. int (to_nat (a, b))), z_fst = (\<lambda>h. fst (from_nat (nat h) :: int \<times> int)),
      z_snd = (\<lambda>h. snd (from_nat (nat h) :: int \<times> int))\<rparr>"

definition ex_st :: SeState where
  "ex_st = \<lparr>g_prod_ctr = 0, se_reads = Some []\<rparr>"

definition ex_square :: node where
  "ex_square = NODE_BINARY OP_MUL (NODE_IDENT ''n'') (NODE_IDENT ''n'')"

lemma ex_ctx: "ctx_ok (ex_z n m) [] [] ex_st {''n''}" and ex_true: "all_true (ex_z n m) \<nu> (entries ex_st)"
  by (simp_all add: ctx_ok_def st_ok_def entries_def ex_st_def pairs_ok_def ex_z_def env_ok_def vlen_ok_def
      names_ok_def calls_ok_def env_find_def vlen_find_def old_def record_prefixes_def all_true_def)

lemma ex_rel: "env_rel (ex_z n m) (\<lambda>_. of_int n) [] {''n''}" "vlen_rel (ex_z n m) \<nu> []" "int_valued (\<lambda>_. of_int n)"
  by (simp_all add: env_rel_def env_find_def ex_z_def vlen_rel_def vlen_find_def int_valued_def)

theorem se_from_ast_value_witness:
  "\<exists>y s' \<mu>. se_from_ast (NODE_BINARY OP_ADD ex_square (NODE_INT_LIT 1)) [] [] ex_st = Some (y, s') \<and>
     all_true (ex_z 5 0) \<mu> (entries s') \<and> lin_val \<mu> (s_lin y) = 26"
proof -
  let ?e = "NODE_BINARY OP_ADD ex_square (NODE_INT_LIT 1)"
  have "map_option (\<lambda>(y, s). s_nonlinear y) (se_from_ast ?e [] [] ex_st) = Some False" by code_simp
  then obtain y s' where y: "se_from_ast ?e [] [] ex_st = Some (y, s')" "\<not> s_nonlinear y" by auto
  have e: "idents ?e = {''n''}" "zval (ex_z 5 0) ?e = Some 26" by (simp_all add: ex_square_def zop_def ex_z_def)
  note c = ex_ctx [of 5 0, folded e(1)]
  note v = se_from_ast_value [OF y(1) c y(2) e(2) ex_rel(3) [of 5] ex_true]
  then obtain \<mu> where m: "int_valued \<mu>" "agree (g_prod_ctr ex_st) (\<lambda>_. of_int 5) \<mu>" "all_true (ex_z 5 0) \<mu> (entries s')"
    by blast
  have "env_rel (ex_z 5 0) \<mu> [] (idents ?e)" by (rule env_rel_agree [OF c m(2)]) (use ex_rel(1) [of 5 0] e(1) in simp)
  with v m(1,3) ex_rel(2) y(1) show ?thesis by auto
qed

text \<open>
  The folding of constants divides: a constant division whose quotient is
  not a 64-bit integer, which a source text can ask for, is executed by the
  verifier itself, and traps.
\<close>

lemma constant_division_traps:
  "se_from_ast (NODE_BINARY OP_DIV
     (NODE_BINARY OP_SUB (NODE_UNARY UOP_NEG (NODE_INT_LIT 9223372036854775807)) (NODE_INT_LIT 1))
     (NODE_UNARY UOP_NEG (NODE_INT_LIT 1))) [] [] s = None"
  by (cases s) (simp, code_simp)

section \<open>Conditions\<close>


definition ex_cond :: node where
  "ex_cond = NODE_UNARY UOP_NOT (NODE_BINARY OP_EQ ex_square (NODE_INT_LIT 25))"


text \<open>
  C25. The names of recorded values are not reserved: a source variable called
  like the first recorded product is taken for it, and the negation of a false
  condition about the two is refuted, which proves the condition.
\<close>

theorem recorded_name_captured:
  "map_option (\<lambda>(F, s). map_option (map fm_sat) F)
     (bool_to_dnf (NODE_BINARY OP_LE ex_square (NODE_IDENT ''__p0'')) [] [] True ex_st) = Some (Some [False]) \<and>
   zbool (\<lambda>_. None) (ex_z 2 0) (NODE_BINARY OP_LE ex_square (NODE_IDENT ''__p0'')) = Some False"
proof
  show "map_option (\<lambda>(F, s). map_option (map fm_sat) F)
     (bool_to_dnf (NODE_BINARY OP_LE ex_square (NODE_IDENT ''__p0'')) [] [] True ex_st) = Some (Some [False])"
    by code_simp
  show "zbool (\<lambda>_. None) (ex_z 2 0) (NODE_BINARY OP_LE ex_square (NODE_IDENT ''__p0'')) = Some False"
    by (simp add: ex_square_def zop_def ex_z_def zcmp_def is_cmp_def)
qed

end
