(* ===== verification/SymAxioms.thy ===== *)
theory SymAxioms
  imports SymDnf "HOL-Library.Sublist"
begin

text \<open>
  The facts that the symbolic executor adds to a path before it is tested
  (\<open>inject_prod_axioms\<close> of \<open>src/verify_invariants.c\<close>): what is known of the
  recorded products, quotients, remainders, shifts and bit operations. The
  function reads the fields \<open>reads\<close> and \<open>path\<close> of the state and extends \<open>path\<close>.
\<close>

section \<open>Queries to the path\<close>

definition cons_negate :: "Cons \<Rightarrow> Cons" where
  "cons_negate c = mk_cons (lin_neg (c_lhs c)) (if c_op c = C_LT then C_LE else C_LT) (c_rhs c)"

definition cl_implied_by :: "ConsList \<Rightarrow> ConsList \<Rightarrow> bool" where
  "cl_implied_by path cons = list_all (\<lambda>c. \<not> fm_sat (map cons_clone path @ [cons_negate c])) cons"

text \<open>A form with its constant moved by an integer, and the constraint \<open>t \<le> 0\<close>.\<close>

definition lin_plus :: "Lin \<Rightarrow> int \<Rightarrow> Lin" where
  "lin_plus l k = l\<lparr>lin_c := rat_add (lin_c l) (rat_int k)\<rparr>"

definition lin_minus :: "Lin \<Rightarrow> int \<Rightarrow> Lin" where
  "lin_minus l k = l\<lparr>lin_c := rat_sub (lin_c l) (rat_int k)\<rparr>"

definition cons_le0 :: "Lin \<Rightarrow> Cons" where
  "cons_le0 t = mk_cons t C_LE rat_zero"

definition path_proves_ge :: "ConsList \<Rightarrow> Lin \<Rightarrow> int \<Rightarrow> bool" where
  "path_proves_ge path fa k = cl_implied_by path [cons_le0 (lin_plus (lin_neg fa) k)]"

definition path_proves_le :: "ConsList \<Rightarrow> Lin \<Rightarrow> int \<Rightarrow> bool" where
  "path_proves_le path fa k = cl_implied_by path [cons_le0 (lin_minus (lin_clone fa) k)]"

section \<open>Facts\<close>

definition path_push_ge :: "ConsList \<Rightarrow> string \<Rightarrow> int \<Rightarrow> ConsList" where
  "path_push_ge path pv k = path @ [cons_le0 (lin_plus (lin_neg (lin_var pv)) k)]"

definition path_push_le :: "ConsList \<Rightarrow> string \<Rightarrow> int \<Rightarrow> ConsList" where
  "path_push_le path pv k = path @ [cons_le0 (lin_minus (lin_var pv) k)]"

definition path_push_ge_lin :: "ConsList \<Rightarrow> string \<Rightarrow> Lin \<Rightarrow> ConsList" where
  "path_push_ge_lin path pv fa = path @ [cons_le0 (lin_sub fa (lin_var pv))]"

definition path_push_le_lin :: "ConsList \<Rightarrow> string \<Rightarrow> Lin \<Rightarrow> ConsList" where
  "path_push_le_lin path pv fa = path @ [cons_le0 (lin_sub (lin_var pv) fa)]"

definition path_push_eq_zero :: "ConsList \<Rightarrow> Lin \<Rightarrow> ConsList" where
  "path_push_eq_zero path e = path @ [cons_le0 (lin_clone e), cons_le0 (lin_neg e)]"

section \<open>One recorded value\<close>

text \<open>\<open>x\<close> is the name of the value, \<open>fa\<close> and \<open>fb\<close> its operands.\<close>

definition inject_bitmask :: "string \<Rightarrow> Lin \<Rightarrow> ConsList \<Rightarrow> ConsList" where
  "inject_bitmask x fb path =
     (let hi = (if lin_is_const fb \<and> r_den (lin_c fb) = 1 \<and> r_num (lin_c fb) > 0 then r_num (lin_c fb) else 1)
      in path_push_le (path_push_ge path x 0) x hi)"

definition inject_bitop :: "bool \<Rightarrow> string \<Rightarrow> Lin \<Rightarrow> Lin \<Rightarrow> ConsList \<Rightarrow> ConsList" where
  "inject_bitop is_and x fa fb path =
     (if path_proves_ge path fa 0 \<and> path_proves_ge path fb 0 then
        let p = path_push_ge path x 0
        in if is_and then path_push_le_lin (path_push_le_lin p x fa) x fb
           else path_push_ge_lin (path_push_ge_lin p x fa) x fb
      else path)"

definition shift_amount :: "Lin \<Rightarrow> int" where
  "shift_amount fb =
     (if lin_is_const fb \<and> r_den (lin_c fb) = 1 \<and> 1 \<le> r_num (lin_c fb) \<and> r_num (lin_c fb) \<le> 62
      then r_num (lin_c fb) else 1)"

text \<open>\<open>d * q - n \<le> 0\<close>, and \<open>n - d * q \<le> d - 1\<close>.\<close>

definition times_var :: "int \<Rightarrow> string \<Rightarrow> Lin" where
  "times_var d x = lin_scale (lin_var x) (rat_int d)"

definition push_quotient :: "int \<Rightarrow> string \<Rightarrow> Lin \<Rightarrow> ConsList \<Rightarrow> ConsList" where
  "push_quotient d x fa path =
     path @ [cons_le0 (lin_sub (times_var d x) fa),
             cons_le0 (lin_minus (lin_sub fa (times_var d x)) (d - 1))]"

definition inject_shr :: "string \<Rightarrow> Lin \<Rightarrow> Lin \<Rightarrow> ConsList \<Rightarrow> ConsList" where
  "inject_shr x fa fb path =
     (let d = 2 ^ nat (shift_amount fb)
      in if path_proves_ge path fa 0 then push_quotient d x fa (path_push_ge path x 0)
         else if path_proves_le path fa 0
         then push_quotient d x fa (path_push_ge_lin (path_push_le path x 0) x fa)
         else path)"

definition inject_lshr :: "string \<Rightarrow> Lin \<Rightarrow> Lin \<Rightarrow> ConsList \<Rightarrow> ConsList" where
  "inject_lshr x fa fb path =
     (let k = shift_amount fb;
          d = 2 ^ nat k;
          hi = (if k = 1 then INT64_MAX else 2 ^ nat (64 - k) - 1);
          p = path_push_le (path_push_ge path x 0) x hi
      in if path_proves_ge p fa 0 then push_quotient d x fa p
         else if path_proves_le p fa (-1) then path_push_ge p x (2 ^ nat (63 - k))
         else p)"

text \<open>A quotient by the constant \<open>d\<close>, which is not 0, 1 or -1.\<close>

definition inject_div_const :: "int \<Rightarrow> string \<Rightarrow> Lin \<Rightarrow> bool \<Rightarrow> bool \<Rightarrow> ConsList \<Rightarrow> ConsList" where
  "inject_div_const d x fa n_ge0 n_le0 path =
     (if d > 0 then
        let p1 = (if n_ge0 then path_push_ge path x 0 else path);
            p2 = (if n_le0 then path_push_le p1 x 0 else p1);
            p3 = (if n_ge0 then push_quotient d x fa p2 else p2)
        in if n_le0 then p3 @ [cons_le0 (lin_sub fa (times_var d x))] else p3
      else
        let p1 = (if n_ge0 then path_push_le path x 0 else path)
        in if n_le0 then path_push_ge p1 x 0 else p1)"

definition int_const :: "Lin \<Rightarrow> bool" where
  "int_const l \<longleftrightarrow> lin_is_const l \<and> r_den (lin_c l) = 1 \<and> r_num (lin_c l) \<noteq> 0"

definition inject_div :: "string \<Rightarrow> Lin \<Rightarrow> Lin \<Rightarrow> ConsList \<Rightarrow> ConsList" where
  "inject_div x fa fb path =
     (let n_ge0 = path_proves_ge path fa 0;
          n_le0 = path_proves_le path fa 0;
          n_ge1 = path_proves_ge path fa 1;
          n_le_m1 = path_proves_le path fa (-1);
          d = r_num (lin_c fb)
      in if lin_eq fa fb \<and> (n_ge1 \<or> n_le_m1) then path_push_eq_zero path (lin_minus (lin_var x) 1)
         else if int_const fb then
           (if d = 1 then path_push_eq_zero path (lin_sub fa (lin_var x))
            else if d = -1 then path_push_eq_zero path (lin_add (lin_var x) fa)
            else inject_div_const d x fa n_ge0 n_le0 path)
         else if is_k 0 fa then
           (if path_proves_ge path fb 1 \<or> path_proves_le path fb (-1)
            then path_push_le (path_push_ge path x 0) x 0 else path)
         else if n_ge0 \<and> path_proves_ge path fb 1
         then path_push_le_lin (path_push_ge path x 0) x fa
         else path)"

definition inject_mod_const :: "int \<Rightarrow> string \<Rightarrow> bool \<Rightarrow> bool \<Rightarrow> ConsList \<Rightarrow> ConsList" where
  "inject_mod_const k x n_ge0 n_le0 path =
     (let ak = (if k < 0 then to_i64 (- k) else k)
      in if n_ge0 then
           (let p = path_push_ge path x 0 in if ak \<ge> 1 then path_push_le p x (ak - 1) else p)
         else if n_le0 then
           (let p = path_push_le path x 0 in if ak \<ge> 1 then path_push_ge p x (1 - ak) else p)
         else path)"

definition inject_mod :: "string \<Rightarrow> Lin \<Rightarrow> Lin \<Rightarrow> ConsList \<Rightarrow> ConsList" where
  "inject_mod x fa fb path =
     (let n_ge0 = path_proves_ge path fa 0;
          n_le0 = path_proves_le path fa 0;
          n_ge1 = path_proves_ge path fa 1;
          n_le_m1 = path_proves_le path fa (-1)
      in if lin_eq fa fb \<and> (n_ge1 \<or> n_le_m1) then path_push_le (path_push_ge path x 0) x 0
         else if int_const fb then inject_mod_const (r_num (lin_c fb)) x n_ge0 n_le0 path
         else if n_ge0 \<and> path_proves_ge path fb 1
         then path_push_ge path x 0 @ [cons_le0 (lin_plus (lin_sub (lin_var x) fb) 1)]
         else path)"

section \<open>Products\<close>

definition inject_square :: "string \<Rightarrow> Lin \<Rightarrow> ConsList \<Rightarrow> ConsList" where
  "inject_square x fa path =
     (let two = lin_scale fa (rat_int 2)
      in path_push_ge_lin (path_push_ge_lin (path_push_ge path x 0) x fa) x (lin_neg fa) @
           [cons_le0 (lin_minus (lin_sub two (lin_var x)) 1),
            cons_le0 (lin_minus (lin_sub (lin_neg two) (lin_var x)) 1)])"

definition inject_consecutive :: "string \<Rightarrow> Lin \<Rightarrow> Lin \<Rightarrow> ConsList \<Rightarrow> ConsList" where
  "inject_consecutive x fa fb path =
     (let d = lin_sub fa fb; k = r_num (lin_c d)
      in if \<not> lin_ovf d \<and> lin_is_const d \<and> r_den (lin_c d) = 1 \<and> \<not> r_ovf (lin_c d) \<and> (k = 1 \<or> k = -1)
         then path_push_ge_lin (path_push_ge path x 0) x (if k = -1 then fa else fb)
         else path)"

definition inject_signs :: "string \<Rightarrow> Lin \<Rightarrow> Lin \<Rightarrow> ConsList \<Rightarrow> ConsList" where
  "inject_signs x fa fb path =
     (let fa_ge1 = path_proves_ge path fa 1; fb_ge1 = path_proves_ge path fb 1;
          fa_le_m1 = path_proves_le path fa (-1); fb_le_m1 = path_proves_le path fb (-1);
          fa_ge0 = path_proves_ge path fa 0; fb_ge0 = path_proves_ge path fb 0;
          fa_le0 = path_proves_le path fa 0; fb_le0 = path_proves_le path fb 0;
          p1 = (if fa_ge1 \<and> fb_ge1 then path_push_ge path x 1
                else if fa_le_m1 \<and> fb_le_m1 then path_push_ge path x 1
                else if fa_ge0 \<and> fb_ge0 then path_push_ge path x 0
                else if fa_le0 \<and> fb_le0 then path_push_ge path x 0 else path);
          p2 = (if fa_ge1 \<and> fb_le_m1 then path_push_le p1 x (-1)
                else if fa_le_m1 \<and> fb_ge1 then path_push_le p1 x (-1)
                else if fa_ge0 \<and> fb_le0 then path_push_le p1 x 0
                else if fa_le0 \<and> fb_ge0 then path_push_le p1 x 0 else p1);
          p3 = (if fa_ge0 \<and> fb_ge1 then path_push_ge_lin p2 x fa else p2)
      in if fa_ge1 \<and> fb_ge0 then path_push_ge_lin p3 x fb else p3)"

text \<open>The value \<open>n ^ 2 * k\<close> is the square of a recorded \<open>n ^ k\<close>.\<close>

definition is_root :: "ReadEntry \<Rightarrow> ReadEntry \<Rightarrow> bool" where
  "is_root e s \<longleftrightarrow>
     is_prod s \<and> mon_deg s = mon_deg e div 2 \<and> mon_deg s \<ge> 2 \<and> lin_eq (mon_base s) (mon_base e)"

definition inject_root :: "string \<Rightarrow> ReadEntry \<Rightarrow> ConsList \<Rightarrow> ConsList" where
  "inject_root x s path =
     path_push_ge_lin (path_push_ge_lin path x (lin_var (re_var s))) x (lin_neg (lin_var (re_var s)))"

definition inject_even :: "ReadsList \<Rightarrow> nat \<Rightarrow> ConsList \<Rightarrow> ConsList" where
  "inject_even l i path =
     (let e = l ! i
      in if mon_deg e \<ge> 2 \<and> even (mon_deg e) then
           fold (\<lambda>j p. if j \<noteq> i \<and> is_root e (l ! j) then inject_root (re_var e) (l ! j) p else p)
             [0..<length l] (path_push_ge path (re_var e) 0)
         else path)"

definition inject_entry :: "ReadsList \<Rightarrow> nat \<Rightarrow> ConsList \<Rightarrow> ConsList" where
  "inject_entry l i path =
     (let e = l ! i; x = re_var e; fa = re_fa e; fb = re_fb e
      in if is_bitand1 e then inject_bitmask x fb path
         else if is_bitand e \<or> is_bitor e then inject_bitop (is_bitand e) x fa fb path
         else if is_shr e then inject_shr x fa fb path
         else if is_lshr e then inject_lshr x fa fb path
         else if is_div e then inject_div x fa fb path
         else if is_mod e then inject_mod x fa fb path
         else if \<not> is_prod e then path
         else if lin_eq fa fb then inject_square x fa path
         else inject_even l i (inject_signs x fa fb (inject_consecutive x fa fb path)))"

section \<open>Several recorded values\<close>

text \<open>A quotient \<open>d\<close> and a remainder \<open>m\<close> of the same division.\<close>

definition push_division :: "Lin \<Rightarrow> Lin \<Rightarrow> string \<Rightarrow> ConsList \<Rightarrow> ConsList" where
  "push_division n kq r path =
     path_push_eq_zero path (lin_sub (lin_sub (lin_clone n) kq) (lin_var r))"

definition is_multiple :: "ReadEntry \<Rightarrow> ReadEntry \<Rightarrow> bool" where
  "is_multiple d p \<longleftrightarrow> is_prod p \<and>
     (let q = lin_var (re_var d)
      in lin_eq (re_fa p) q \<and> lin_eq (re_fb p) (re_fb d) \<or> lin_eq (re_fb p) q \<and> lin_eq (re_fa p) (re_fb d))"

definition inject_multiple :: "ReadEntry \<Rightarrow> ReadEntry \<Rightarrow> ReadEntry \<Rightarrow> ConsList \<Rightarrow> ConsList" where
  "inject_multiple d m p path =
     (let path1 = push_division (re_fa d) (lin_var (re_var p)) (re_var m) path
      in if path_proves_ge path1 (re_fa d) 0 \<and> path_proves_ge path1 (re_fb d) 1
         then path_push_le_lin path1 (re_var p) (re_fa d) else path1)"

definition inject_divmod :: "ReadsList \<Rightarrow> ReadEntry \<Rightarrow> ReadEntry \<Rightarrow> ConsList \<Rightarrow> ConsList" where
  "inject_divmod l d m path =
     (if \<not> is_div d \<or> \<not> is_mod m \<or> \<not> lin_eq (re_fa d) (re_fa m) \<or> \<not> lin_eq (re_fb d) (re_fb m) then path
      else if int_const (re_fb d)
      then push_division (re_fa d) (times_var (r_num (lin_c (re_fb d))) (re_var d)) (re_var m) path
      else fold (\<lambda>p path. if is_multiple d p then inject_multiple d m p path else path) l path)"

definition is_square :: "ReadEntry \<Rightarrow> bool" where
  "is_square e \<longleftrightarrow> is_prod e \<and> lin_eq (re_fa e) (re_fb e)"

text \<open>\<open>a\<^sup>2 + b\<^sup>2 - 2 * a * b \<ge> 0\<close>.\<close>

definition inject_amgm :: "ReadEntry \<Rightarrow> ReadEntry \<Rightarrow> ReadEntry \<Rightarrow> ConsList \<Rightarrow> ConsList" where
  "inject_amgm sa sb p path =
     (if is_prod p \<and> \<not> lin_eq (re_fa p) (re_fb p) \<and>
         (lin_eq (re_fa p) (re_fa sa) \<and> lin_eq (re_fb p) (re_fa sb) \<or>
          lin_eq (re_fa p) (re_fa sb) \<and> lin_eq (re_fb p) (re_fa sa))
      then path @ [cons_le0 (lin_add (lin_neg (lin_add (lin_var (re_var sa)) (lin_var (re_var sb))))
                     (times_var 2 (re_var p)))]
      else path)"

definition inject_squares :: "ReadsList \<Rightarrow> ReadEntry \<Rightarrow> ReadEntry \<Rightarrow> ConsList \<Rightarrow> ConsList" where
  "inject_squares l sa sb path =
     (if is_square sa \<and> is_square sb \<and> \<not> lin_eq (re_fa sa) (re_fa sb)
      then fold (inject_amgm sa sb) l path else path)"

definition inject_prod_axioms :: "ReadsList \<Rightarrow> ConsList \<Rightarrow> ConsList" where
  "inject_prod_axioms l path =
     fold (\<lambda>sa. fold (\<lambda>sb. inject_squares l sa sb) l) l
       (fold (\<lambda>d. fold (\<lambda>m. inject_divmod l d m) l) l
         (fold (\<lambda>i. inject_entry l i) [0..<length l] path))"

end
