(* ===== verification/SymAxSound.thy ===== *)
theory SymAxSound
  imports SymAxioms FmProps
begin

text \<open>
  The facts added to a path are true: \<open>lin_may\<close> gives a form its value unless
  it is flagged, \<open>path_true\<close> says that every constraint of a path is flagged or
  holds, and each function of \<open>SymAxioms\<close> keeps it. The queries inside are
  answered rightly when the elimination does not overflow (\<open>fm_exact\<close>).
\<close>

section \<open>Forms and constraints that may be flagged\<close>

definition flagged :: "Lin \<Rightarrow> bool" where
  "flagged l \<longleftrightarrow> lin_ovf l \<or> r_ovf (lin_c l)"

definition lin_may :: "Lin \<Rightarrow> ((string \<Rightarrow> rat) \<Rightarrow> rat) \<Rightarrow> bool" where
  "lin_may l f \<longleftrightarrow> flagged l \<or> lin_ok l \<and> (\<forall>\<nu>. lin_val \<nu> l = f \<nu>)"

lemma lin_may_res: "lin_res l f \<Longrightarrow> lin_may l f"
  by (auto simp: lin_res_def lin_may_def flagged_def)

lemma flagged_bad:
  "flagged a \<Longrightarrow> lin_sub a b = lin_bad" "flagged b \<Longrightarrow> lin_sub a b = lin_bad"
  "flagged a \<Longrightarrow> lin_add a b = lin_bad" "flagged b \<Longrightarrow> lin_add a b = lin_bad"
  "flagged a \<Longrightarrow> lin_scale a k = lin_bad" "flagged a \<Longrightarrow> lin_neg a = lin_bad"
  by (auto simp: flagged_def lin_sub_def lin_add_def lin_scale_def lin_neg_def)

lemma lin_mayE:
  "lin_may l f \<Longrightarrow> (flagged l \<Longrightarrow> P) \<Longrightarrow> (lin_res l f \<Longrightarrow> P) \<Longrightarrow> P"
  by (auto simp: lin_may_def lin_res_def)

lemma lin_may_sub: "lin_may a f \<Longrightarrow> lin_may b g \<Longrightarrow> lin_may (lin_sub a b) (\<lambda>\<nu>. f \<nu> - g \<nu>)"
  by (elim lin_mayE) (auto simp: flagged_bad intro: lin_may_res lin_sub_res)

lemma lin_may_add: "lin_may a f \<Longrightarrow> lin_may b g \<Longrightarrow> lin_may (lin_add a b) (\<lambda>\<nu>. f \<nu> + g \<nu>)"
  by (elim lin_mayE) (auto simp: flagged_bad intro: lin_may_res lin_add_res)

lemma lin_may_neg: "lin_may a f \<Longrightarrow> lin_may (lin_neg a) (\<lambda>\<nu>. - f \<nu>)"
  by (elim lin_mayE) (auto simp: flagged_bad intro: lin_may_res lin_neg_res)

lemma lin_may_scale: "lin_may a f \<Longrightarrow> in_i64 k \<Longrightarrow> lin_may (lin_scale a (rat_int k)) (\<lambda>\<nu>. f \<nu> * of_int k)"
  using lin_scale_res [OF _ rat_ok_res [OF rat_int_ok]]
  by (elim lin_mayE) (auto simp: flagged_bad rat_int_val intro: lin_may_res)

lemma lin_may_var: "lin_may (lin_var x) (\<lambda>\<nu>. \<nu> x)"
  by (rule lin_may_res [OF lin_var_res])

lemma lin_may_ok: "lin_ok l \<Longrightarrow> lin_may l (\<lambda>\<nu>. lin_val \<nu> l)"
  by (simp add: lin_may_def)

lemma rat_ok_flag: "rat_ok a \<Longrightarrow> \<not> r_ovf a"
  by (simp add: rat_ok_def)

lemma lin_may_plus:
  assumes "lin_may l f" "in_i64 k"
  shows "lin_may (lin_plus l k) (\<lambda>\<nu>. f \<nu> + of_int k)"
proof (cases "flagged (lin_plus l k)")
  case False
  then have "\<not> flagged l" "\<not> r_ovf (rat_add (lin_c l) (rat_int k))"
    by (auto simp: flagged_def lin_plus_def rat_add_def rat_bad_def)
  with assms have l: "lin_ok l" "\<And>\<nu>. lin_val \<nu> l = f \<nu>" by (auto simp: lin_may_def)
  then have "rat_ok (rat_add (lin_c l) (rat_int k))" "rat_val (rat_add (lin_c l) (rat_int k)) = rat_val (lin_c l) + of_int k"
    using rat_res_ok [OF rat_add_res [OF _ rat_int_ok [OF assms(2)]]] \<open>\<not> r_ovf _\<close>
    by (auto simp: lin_ok_def rat_int_val)
  with l show ?thesis by (simp add: lin_may_def lin_plus_def lin_ok_def lin_val_def flip: l(2))
qed (simp add: lin_may_def)

lemma lin_may_minus:
  assumes "lin_may l f" "in_i64 k"
  shows "lin_may (lin_minus l k) (\<lambda>\<nu>. f \<nu> - of_int k)"
proof (cases "flagged (lin_minus l k)")
  case False
  then have "\<not> flagged l" "\<not> r_ovf (rat_sub (lin_c l) (rat_int k))"
    by (auto simp: flagged_def lin_minus_def rat_sub_def rat_add_def rat_bad_def)
  with assms have l: "lin_ok l" "\<And>\<nu>. lin_val \<nu> l = f \<nu>" by (auto simp: lin_may_def)
  then have "rat_ok (rat_sub (lin_c l) (rat_int k))" "rat_val (rat_sub (lin_c l) (rat_int k)) = rat_val (lin_c l) - of_int k"
    using rat_res_ok [OF rat_sub_res [OF _ rat_int_ok [OF assms(2)]]] \<open>\<not> r_ovf _\<close>
    by (auto simp: lin_ok_def rat_int_val)
  with l show ?thesis by (simp add: lin_may_def lin_minus_def lin_ok_def lin_val_def flip: l(2))
qed (simp add: lin_may_def)

lemma push_raw_flag: "flagged l \<Longrightarrow> flagged (lin_push_raw l v k)"
  by (auto simp: flagged_def lin_push_raw_def Let_def split: option.split)

lemma push_terms_flag: "flagged l \<Longrightarrow> flagged (push_terms f ts l)"
  unfolding push_terms_def by (induction ts arbitrary: l) (auto intro: push_raw_flag split: prod.split)

lemma clone_flag: "flagged l \<Longrightarrow> flagged (lin_clone l)"
  unfolding lin_clone_def by (rule push_terms_flag) (simp add: flagged_def)

lemma lin_may_clone: "lin_may l f \<Longrightarrow> lin_may (lin_clone l) f"
  using clone_flag by (auto simp: lin_may_def lin_ok_def lin_clone_id)

definition sound_cons :: "(string \<Rightarrow> rat) \<Rightarrow> Cons \<Rightarrow> bool" where
  "sound_cons \<nu> c \<longleftrightarrow> flagged (c_lhs c) \<or> cons_ok c \<and> holds \<nu> c"

definition path_true :: "(string \<Rightarrow> rat) \<Rightarrow> ConsList \<Rightarrow> bool" where
  "path_true \<nu> path \<longleftrightarrow> (\<forall>c \<in> set path. sound_cons \<nu> c)"

lemma path_true_simps [simp]:
  "path_true \<nu> []" "path_true \<nu> (c # p) \<longleftrightarrow> sound_cons \<nu> c \<and> path_true \<nu> p"
  "path_true \<nu> (p @ q) \<longleftrightarrow> path_true \<nu> p \<and> path_true \<nu> q"
  by (auto simp: path_true_def)

lemma le0_sound: "lin_may t f \<Longrightarrow> f \<nu> \<le> 0 \<Longrightarrow> sound_cons \<nu> (cons_le0 t)"
  by (auto simp: lin_may_def sound_cons_def cons_le0_def mk_cons_def cons_ok_def holds_def rat_zero_ok
    rat_zero_val)

section \<open>Queries\<close>

lemma query_sound:
  assumes "path_true \<nu> path" "int_valued \<nu>" "lin_may (c_lhs c) f" "c_rhs c = rat_zero"
    and ex: "fm_exact (map cons_clone path @ [cons_negate c])" and un: "\<not> fm_sat (map cons_clone path @ [cons_negate c])"
  shows "cons_ok c \<and> holds \<nu> c"
proof -
  let ?sys = "map cons_clone path @ [cons_negate c]"
  have no: "\<not> cons_overflowed k" if "k \<in> set ?sys" for k
    using un that by (auto simp: fm_sat_def list_ex_iff split: if_splits)
  have "\<not> flagged (c_lhs k)" if "k \<in> set path" for k
    using no [of "cons_clone k"] that clone_flag [of "c_lhs k"]
    by (auto simp: cons_overflowed_def cons_clone_def mk_cons_def flagged_def)
  then have p: "cons_ok k" "holds \<nu> k" if "k \<in> set path" for k
    using assms(1) that by (auto simp: path_true_def sound_cons_def)
  then have map: "map cons_clone path = path" by (intro map_idI) (simp add: cons_clone_id)
  have neg: "\<not> flagged (lin_neg (c_lhs c))"
    using no [of "cons_negate c"] by (simp add: cons_overflowed_def cons_negate_def mk_cons_def flagged_def)
  then have c: "\<not> flagged (c_lhs c)" using flagged_bad(6) [of "c_lhs c"] by (auto simp: lin_bad_def flagged_def)
  then have ok: "lin_ok (c_lhs c)" using assms(3) by (simp add: lin_may_def)
  have n: "lin_ok (lin_neg (c_lhs c))" "lin_val \<nu> (lin_neg (c_lhs c)) = - lin_val \<nu> (c_lhs c)"
    using lin_may_neg [OF lin_may_ok [OF ok]] neg by (auto simp: lin_may_def)
  have "sys_ok ?sys"
    using p n(1) assms(4) rat_zero_ok by (simp add: sys_ok_def map cons_ok_def cons_negate_def mk_cons_def)
  from fm_sat_iff_rational [OF this ex] tighten_all(3) [OF this ex assms(2)] un
  have "\<not> all_hold \<nu> ?sys" by blast
  then have "\<not> holds \<nu> (cons_negate c)" using p by (auto simp: all_hold_def map)
  then show ?thesis
    using n(2) ok assms(4) by (cases "c_op c") (auto simp: holds_def cons_negate_def mk_cons_def cons_ok_def rat_zero_ok
        rat_zero_val)
qed

text \<open>The system that a query tests, and the queries of all facts about two operands.\<close>

definition implied_query :: "ConsList \<Rightarrow> Cons \<Rightarrow> Cons list" where
  "implied_query path c = map cons_clone path @ [cons_negate c]"

lemma cl_implied_by_holds:
  assumes "path_true \<nu> path" "int_valued \<nu>" "cl_implied_by path cons" "c \<in> set cons"
    and "lin_may (c_lhs c) f" "c_rhs c = rat_zero" "fm_exact (implied_query path c)"
  shows "cons_ok c \<and> holds \<nu> c"
  using query_sound [OF assms(1,2,5,6)] assms(3,4,7) by (simp add: cl_implied_by_def list_all_iff implied_query_def)

definition ge_cons :: "Lin \<Rightarrow> int \<Rightarrow> Cons" where
  "ge_cons fa k = cons_le0 (lin_plus (lin_neg fa) k)"

definition le_cons :: "Lin \<Rightarrow> int \<Rightarrow> Cons" where
  "le_cons fa k = cons_le0 (lin_minus (lin_clone fa) k)"

definition lin_exact :: "ConsList \<Rightarrow> Lin \<Rightarrow> bool" where
  "lin_exact path fa \<longleftrightarrow>
     list_all (\<lambda>k. fm_exact (implied_query path (ge_cons fa k)) \<and> fm_exact (implied_query path (le_cons fa k)))
       [-1, 0, 1]"

text \<open>The signs of the operands matter for every kind of entry but masks and squares.\<close>

definition queried :: "ReadEntry \<Rightarrow> bool" where
  "queried e \<longleftrightarrow>
     is_bitand e \<or> is_bitor e \<or> is_shr e \<or> is_lshr e \<or> is_div e \<or> is_mod e \<or>
     is_prod e \<and> \<not> lin_eq (re_fa e) (re_fb e)"

definition reads_exact :: "ReadsList \<Rightarrow> ConsList \<Rightarrow> bool" where
  "reads_exact l path \<longleftrightarrow> list_all (\<lambda>e. queried e \<longrightarrow> lin_exact path (re_fa e) \<and> lin_exact path (re_fb e)) l"

lemma in_i64_small: "\<bar>k\<bar> \<le> 4611686018427387904 \<Longrightarrow> in_i64 k"
  by (auto simp: in_i64_def INT64_MIN_def INT64_MAX_def)

lemma proves:
  assumes "path_true \<nu> path" "int_valued \<nu>" "lin_ok fa" "lin_exact path fa" "k \<in> {-1, 0, 1}"
  shows "path_proves_ge path fa k \<Longrightarrow> of_int k \<le> lin_val \<nu> fa"
    and "path_proves_le path fa k \<Longrightarrow> lin_val \<nu> fa \<le> of_int k"
proof -
  have k: "in_i64 k" using assms(5) by (intro in_i64_small) auto
  have ex: "fm_exact (implied_query path (ge_cons fa k))" "fm_exact (implied_query path (le_cons fa k))"
    using assms(4,5) by (auto simp: lin_exact_def)
  have c: "c_lhs (cons_le0 t) = t" "c_rhs (cons_le0 t) = rat_zero" for t by (simp_all add: cons_le0_def mk_cons_def)
  note may = lin_may_plus [OF lin_may_neg [OF lin_may_ok [OF assms(3)]] k]
    lin_may_minus [OF lin_may_clone [OF lin_may_ok [OF assms(3)]] k]
  show "of_int k \<le> lin_val \<nu> fa" if "path_proves_ge path fa k"
  proof -
    have "cons_ok (ge_cons fa k) \<and> holds \<nu> (ge_cons fa k)"
      by (rule cl_implied_by_holds [OF assms(1,2), where cons = "[ge_cons fa k]" and f = "\<lambda>\<nu>. - lin_val \<nu> fa + of_int k"])
        (use that ex(1) may(1) in \<open>simp_all add: path_proves_ge_def ge_cons_def c\<close>)
    then show ?thesis using may(1)
      by (auto simp: ge_cons_def holds_def cons_ok_def c cons_le0_def mk_cons_def lin_may_def flagged_def
          lin_ok_def rat_zero_val rat_ok_def)
  qed
  show "lin_val \<nu> fa \<le> of_int k" if "path_proves_le path fa k"
  proof -
    have "cons_ok (le_cons fa k) \<and> holds \<nu> (le_cons fa k)"
      by (rule cl_implied_by_holds [OF assms(1,2), where cons = "[le_cons fa k]" and f = "\<lambda>\<nu>. lin_val \<nu> fa - of_int k"])
        (use that ex(2) may(2) in \<open>simp_all add: path_proves_le_def le_cons_def c\<close>)
    then show ?thesis using may(2)
      by (auto simp: le_cons_def holds_def cons_ok_def c cons_le0_def mk_cons_def lin_may_def flagged_def
          lin_ok_def rat_zero_val rat_ok_def)
  qed
qed

section \<open>Facts\<close>

text \<open>What each push needs; \<open>path_true\<close> then follows by rewriting.\<close>

lemma push_const_true:
  assumes "in_i64 k"
  shows "of_int k \<le> \<nu> x \<Longrightarrow> path_true \<nu> p \<Longrightarrow> path_true \<nu> (path_push_ge p x k)"
    and "\<nu> x \<le> of_int k \<Longrightarrow> path_true \<nu> p \<Longrightarrow> path_true \<nu> (path_push_le p x k)"
  using le0_sound [OF lin_may_plus [OF lin_may_neg [OF lin_may_var] assms]]
    le0_sound [OF lin_may_minus [OF lin_may_var assms]]
  by (simp_all add: path_push_ge_def path_push_le_def)

lemma push_lin_true:
  assumes "lin_may fa f"
  shows "f \<nu> \<le> \<nu> x \<Longrightarrow> path_true \<nu> p \<Longrightarrow> path_true \<nu> (path_push_ge_lin p x fa)"
    and "\<nu> x \<le> f \<nu> \<Longrightarrow> path_true \<nu> p \<Longrightarrow> path_true \<nu> (path_push_le_lin p x fa)"
  using le0_sound [OF lin_may_sub [OF assms lin_may_var]] le0_sound [OF lin_may_sub [OF lin_may_var assms]]
  by (simp_all add: path_push_ge_lin_def path_push_le_lin_def)

lemma push_eq_true:
  "lin_may e f \<Longrightarrow> f \<nu> = 0 \<Longrightarrow> path_true \<nu> p \<Longrightarrow> path_true \<nu> (path_push_eq_zero p e)"
  using le0_sound [OF lin_may_clone] le0_sound [OF lin_may_neg] by (force simp: path_push_eq_zero_def)

lemma times_var_may: "in_i64 d \<Longrightarrow> lin_may (times_var d x) (\<lambda>\<nu>. \<nu> x * of_int d)"
  unfolding times_var_def by (rule lin_may_scale [OF lin_may_var])

lemma push_quotient_true:
  assumes "lin_may fa f" "in_i64 d" "in_i64 (d - 1)"
  shows "\<nu> x * of_int d \<le> f \<nu> \<Longrightarrow> f \<nu> - \<nu> x * of_int d \<le> of_int (d - 1) \<Longrightarrow> path_true \<nu> p \<Longrightarrow>
    path_true \<nu> (push_quotient d x fa p)"
  using le0_sound [OF lin_may_sub [OF times_var_may [OF assms(2)] assms(1)]]
    le0_sound [OF lin_may_minus [OF lin_may_sub [OF assms(1) times_var_may [OF assms(2)]] assms(3)]]
  by (simp add: push_quotient_def)

text \<open>Every function extends the path.\<close>

lemma push_prefix [simp]:
  assumes "prefix p q"
  shows "prefix p (path_push_ge q x k)" "prefix p (path_push_le q x k)" "prefix p (path_push_ge_lin q x l)"
    "prefix p (path_push_le_lin q x l)" "prefix p (path_push_eq_zero q l)" "prefix p (push_quotient d x l q)"
    "prefix p (q @ r)"
  using assms by (simp_all add: path_push_ge_def path_push_le_def path_push_ge_lin_def path_push_le_lin_def
      path_push_eq_zero_def push_quotient_def)

section \<open>One recorded value\<close>

definition operand :: "(string \<Rightarrow> rat) \<Rightarrow> Lin \<Rightarrow> int \<Rightarrow> bool" where
  "operand \<nu> l a \<longleftrightarrow> lin_ok l \<and> lin_val \<nu> l = of_int a"

text \<open>The answers of the path about a form of value \<open>a\<close> are right.\<close>

definition query_ok :: "ConsList \<Rightarrow> Lin \<Rightarrow> int \<Rightarrow> bool" where
  "query_ok p l a \<longleftrightarrow>
     (\<forall>k \<in> {-1, 0, 1}. (path_proves_ge p l k \<longrightarrow> k \<le> a) \<and> (path_proves_le p l k \<longrightarrow> a \<le> k))"

lemma query_okI:
  "path_true \<nu> p \<Longrightarrow> int_valued \<nu> \<Longrightarrow> operand \<nu> l a \<Longrightarrow> lin_exact p l \<Longrightarrow> query_ok p l a"
  using proves [of \<nu> p l] unfolding query_ok_def operand_def by (metis of_int_le_iff)

lemma query_okD:
  assumes "query_ok p l a"
  shows "path_proves_ge p l 0 \<Longrightarrow> 0 \<le> a" "path_proves_ge p l 1 \<Longrightarrow> 1 \<le> a"
    "path_proves_le p l 0 \<Longrightarrow> a \<le> 0" "path_proves_le p l (-1) \<Longrightarrow> a \<le> -1"
  using assms by (auto simp: query_ok_def)

lemma operand_may: "operand \<nu> l a \<Longrightarrow> lin_may l (\<lambda>\<nu>. lin_val \<nu> l)"
  by (simp add: operand_def lin_may_ok)

lemma operand_val: "operand \<nu> l a \<Longrightarrow> lin_val \<nu> l = of_int a"
  by (simp add: operand_def)

lemma operand_const:
  "operand \<nu> l a \<Longrightarrow> lin_is_const l \<Longrightarrow> r_den (lin_c l) = 1 \<Longrightarrow> r_num (lin_c l) = a \<and> in_i64 a"
  by (auto simp: operand_def lin_val_def lin_is_const_def lin_simps rat_val_def lin_ok_def rat_ok_def)

lemma operand_eq: "operand \<nu> l a \<Longrightarrow> operand \<nu> r b \<Longrightarrow> lin_eq l r \<Longrightarrow> a = b"
  using lin_sub_res [OF lin_ok_res lin_ok_res, of l r]
  by (auto simp: operand_def lin_eq_def Let_def lin_res_def lin_val_def lin_is_const_def lin_simps rat_val_def)

lemma int_const_operand: "operand \<nu> l a \<Longrightarrow> int_const l \<Longrightarrow> r_num (lin_c l) = a \<and> in_i64 a \<and> a \<noteq> 0"
  using operand_const by (fastforce simp: int_const_def)

lemma in_i64_consts: "in_i64 0" "in_i64 1" "in_i64 (-1)" "in_i64 2"
  by (simp_all add: in_i64_small)

text \<open>The pushes about a name of value \<open>v\<close>.\<close>

definition var_is :: "(string \<Rightarrow> rat) \<Rightarrow> string \<Rightarrow> int \<Rightarrow> bool" where
  "var_is \<nu> x v \<longleftrightarrow> \<nu> x = of_int v"

lemma pushes:
  assumes "var_is \<nu> x v"
  shows "in_i64 k \<Longrightarrow> k \<le> v \<Longrightarrow> path_true \<nu> p \<Longrightarrow> path_true \<nu> (path_push_ge p x k)"
    and "in_i64 k \<Longrightarrow> v \<le> k \<Longrightarrow> path_true \<nu> p \<Longrightarrow> path_true \<nu> (path_push_le p x k)"
    and "operand \<nu> l a \<Longrightarrow> a \<le> v \<Longrightarrow> path_true \<nu> p \<Longrightarrow> path_true \<nu> (path_push_ge_lin p x l)"
    and "operand \<nu> l a \<Longrightarrow> v \<le> a \<Longrightarrow> path_true \<nu> p \<Longrightarrow> path_true \<nu> (path_push_le_lin p x l)"
    and "operand \<nu> l a \<Longrightarrow> in_i64 d \<Longrightarrow> in_i64 (d - 1) \<Longrightarrow> v * d \<le> a \<Longrightarrow> a - v * d \<le> d - 1 \<Longrightarrow> path_true \<nu> p \<Longrightarrow>
      path_true \<nu> (push_quotient d x l p)"
proof -
  have "lin_val \<nu> l - \<nu> x * of_int d \<le> of_int (d - 1) \<longleftrightarrow> a - v * d \<le> d - 1"
    "\<nu> x * of_int d \<le> lin_val \<nu> l \<longleftrightarrow> v * d \<le> a" if "operand \<nu> l a"
    using assms [unfolded var_is_def] operand_val [OF that]
    by (simp_all only: of_int_le_iff flip: of_int_mult of_int_diff)
  then show "operand \<nu> l a \<Longrightarrow> in_i64 d \<Longrightarrow> in_i64 (d - 1) \<Longrightarrow> v * d \<le> a \<Longrightarrow> a - v * d \<le> d - 1 \<Longrightarrow> path_true \<nu> p \<Longrightarrow>
      path_true \<nu> (push_quotient d x l p)"
    by (intro push_quotient_true [OF operand_may]) auto
qed (use assms [unfolded var_is_def] in \<open>auto simp: operand_val intro: push_const_true push_lin_true [OF operand_may]\<close>)

lemma inject_bitmask_true:
  assumes "path_true \<nu> p" "var_is \<nu> x (a AND b)" "operand \<nu> fb b" "lin_is_const fb" "0 < b"
  shows "path_true \<nu> (inject_bitmask x fb p)"
proof -
  have d: "r_den (lin_c fb) = 1 \<and> r_num (lin_c fb) = b" 
    using rat_ok_int [of "lin_c fb" b] assms(3,4)
    by (auto simp: operand_def lin_ok_def lin_val_def lin_is_const_def lin_simps)
  then have "in_i64 b" using operand_const [OF assms(3,4)] by blast
  then show ?thesis
    using assms(1,5) d assms(4) AND_upper2 [of b a] pushes [OF assms(2)] by (simp add: inject_bitmask_def in_i64_consts)
qed

lemma inject_bitop_true:
  assumes "path_true \<nu> p" "operand \<nu> fa a" "operand \<nu> fb b" "var_is \<nu> x (if is_and then a AND b else a OR b)"
    and "query_ok p fa a" "query_ok p fb b"
  shows "path_true \<nu> (inject_bitop is_and x fa fb p)"
proof (cases "path_proves_ge p fa 0 \<and> path_proves_ge p fb 0")
  case True
  then have "0 \<le> a" "0 \<le> b" using query_okD(1) assms(5,6) by blast+
  moreover have "a \<le> a OR b" "b \<le> a OR b" if "0 \<le> a" "0 \<le> b"
    using that or_greater_eq [of b a] or_greater_eq [of a b] by (simp_all add: or.commute)
  ultimately show ?thesis
    using True assms(1) pushes [OF assms(4)] assms(2,3)
    by (simp add: inject_bitop_def Let_def in_i64_consts AND_upper1 AND_upper2)
qed (use assms(1) in \<open>auto simp: inject_bitop_def\<close>)

lemma shift_amount_val:
  assumes "operand \<nu> fb k" "lin_is_const fb" "1 \<le> k" "k \<le> 62"
  shows "shift_amount fb = k"
proof -
  have "r_num (lin_c fb) = k \<and> r_den (lin_c fb) = 1"
    using rat_ok_int [of "lin_c fb" k] assms(1,2)
    by (auto simp: operand_def lin_ok_def lin_val_def lin_is_const_def lin_simps)
  with assms show ?thesis by (simp add: shift_amount_def)
qed

lemma pow_i64: "1 \<le> k \<Longrightarrow> k \<le> 62 \<Longrightarrow> in_i64 (2 ^ nat k) \<and> in_i64 (2 ^ nat k - 1)"
proof -
  assume k: "1 \<le> k" "k \<le> 62"
  then have "(2 :: int) ^ nat k \<le> 2 ^ 62" by (intro power_increasing) auto
  moreover have "(1 :: int) \<le> 2 ^ nat k" by simp
  ultimately show ?thesis by (auto intro!: in_i64_small)
qed

lemma floor_facts:
  fixes a d :: int
  assumes "0 < d"
  shows "(a div d) * d \<le> a" "a - (a div d) * d \<le> d - 1" "0 \<le> a \<Longrightarrow> 0 \<le> a div d" "a \<le> 0 \<Longrightarrow> a div d \<le> 0"
    "a \<le> 0 \<Longrightarrow> a \<le> a div d"
proof -
  have "a mod d < d" "0 \<le> a mod d" using assms by simp_all
  moreover have "a = (a div d) * d + a mod d" by simp
  ultimately show q: "(a div d) * d \<le> a" "a - (a div d) * d \<le> d - 1" by linarith+
  show "0 \<le> a \<Longrightarrow> 0 \<le> a div d" using assms by (simp add: pos_imp_zdiv_nonneg_iff)
  show "a \<le> 0 \<Longrightarrow> a div d \<le> 0" using assms by (simp add: div_nonpos_pos_le0)
  assume "a \<le> 0"
  then have "a * d \<le> a" using assms mult_left_mono_neg [of 1 d a] by simp
  then have "(a * d) div d \<le> a div d" using assms by (rule zdiv_mono1)
  then show "a \<le> a div d" using assms by simp
qed

lemma inject_shr_true:
  assumes "path_true \<nu> p" "operand \<nu> fa a" "operand \<nu> fb k" "lin_is_const fb" "1 \<le> k" "k \<le> 62"
    and x: "var_is \<nu> x (a div 2 ^ nat k)" and "query_ok p fa a"
  shows "path_true \<nu> (inject_shr x fa fb p)"
proof -
  let ?d = "2 ^ nat k :: int"
  note f = floor_facts [of ?d a] and d = pow_i64 [OF assms(5,6)] and q = query_okD [OF assms(8)]
  show ?thesis
    using f q d assms(1,2) pushes [OF x]
    by (simp add: inject_shr_def Let_def shift_amount_val [OF assms(3-6)] in_i64_consts)
qed

lemma lshr_facts:
  assumes "1 \<le> k" "k \<le> 62" "in_i64 a"
  defines "q \<equiv> (a mod 2 ^ 64) div 2 ^ nat k"
  shows "0 \<le> q" "q \<le> (if k = 1 then INT64_MAX else 2 ^ nat (64 - k) - 1)" "0 \<le> a \<Longrightarrow> q = a div 2 ^ nat k"
    "a \<le> -1 \<Longrightarrow> 2 ^ nat (63 - k) \<le> q"
proof -
  let ?d = "2 ^ nat k :: int"
  have r: "-9223372036854775808 \<le> a" "a \<le> 9223372036854775807"
    using assms(3) by (simp_all add: in_i64_def INT64_MIN_def INT64_MAX_def)
  have p: "(2 :: int) ^ (63 - nat k) * ?d = 2 ^ 63" "(2 :: int) ^ (64 - nat k) * ?d = 2 ^ 64"
    using assms(1,2) by (simp_all add: nat_le_iff flip: power_add)
  have n: "nat (63 - k) = 63 - nat k" "nat (64 - k) = 64 - nat k" using assms(1) by (simp_all add: nat_diff_distrib)
  show "0 \<le> q" by (simp add: q_def pos_imp_zdiv_nonneg_iff)
  have "q * ?d \<le> a mod 2 ^ 64" unfolding q_def by (rule floor_facts) simp
  moreover have "a mod 2 ^ 64 < (2 :: int) ^ 64" by simp
  ultimately have "q * ?d < 2 ^ (64 - nat k) * ?d" using p(2) by linarith
  then have "q < 2 ^ (64 - nat k)" by (simp add: mult_less_cancel_right)
  then show "q \<le> (if k = 1 then INT64_MAX else 2 ^ nat (64 - k) - 1)"
    by (auto simp: n INT64_MAX_def)
  show "q = a div 2 ^ nat k" if "0 \<le> a" using that r by (simp add: q_def)
  assume "a \<le> -1"
  then have "a mod 2 ^ 64 = a + 2 ^ 64"
    using r mod_pos_pos_trivial [of "a + 2 ^ 64" "2 ^ 64"] by simp
  then have "(2 ^ (63 - nat k) * ?d) div ?d \<le> q"
    unfolding q_def p(1) using r(1) by (intro zdiv_mono1) simp_all
  then show "2 ^ nat (63 - k) \<le> q" by (simp add: n)
qed

lemma inject_lshr_true:
  assumes "path_true \<nu> p" "operand \<nu> fa a" "operand \<nu> fb k" "lin_is_const fb" "1 \<le> k" "k \<le> 62" "in_i64 a"
    and x: "var_is \<nu> x ((a mod 2 ^ 64) div 2 ^ nat k)"
    and q: "\<And>r. prefix p r \<Longrightarrow> prefix r (inject_lshr x fa fb p) \<Longrightarrow> path_true \<nu> r \<Longrightarrow> query_ok r fa a"
  shows "path_true \<nu> (inject_lshr x fa fb p)"
proof -
  let ?hi = "if k = 1 then INT64_MAX else 2 ^ nat (64 - k) - 1"
  let ?p = "path_push_le (path_push_ge p x 0) x ?hi"
  note f = lshr_facts [OF assms(5-7)] and d = pow_i64 [OF assms(5,6)]
  have hi: "in_i64 ?hi" "in_i64 (2 ^ nat (63 - k))"
  proof -
    have "k \<noteq> 1 \<Longrightarrow> in_i64 (2 ^ nat (64 - k) - 1)" "in_i64 (2 ^ nat (63 - k))"
      using pow_i64 [of "64 - k"] pow_i64 [of "63 - k"] assms(5,6) by auto
    then show "in_i64 ?hi" "in_i64 (2 ^ nat (63 - k))" by (auto simp: in_i64_def INT64_MAX_def INT64_MIN_def)
  qed
  have t: "path_true \<nu> ?p" using f(1,2) hi(1) assms(1) pushes [OF x] in_i64_consts by simp
  have i: "inject_lshr x fa fb p =
      (if path_proves_ge ?p fa 0 then push_quotient (2 ^ nat k) x fa ?p
       else if path_proves_le ?p fa (-1) then path_push_ge ?p x (2 ^ nat (63 - k)) else ?p)"
    by (simp add: inject_lshr_def Let_def shift_amount_val [OF assms(3-6)])
  have "prefix p ?p" by simp
  then have "query_ok ?p fa a" by (intro q t) (simp_all add: i)
  note Q = query_okD [OF this]
  show ?thesis
    unfolding i using Q f(3,4) t d hi(2) assms(2) pushes [OF x] floor_facts [of "2 ^ nat k" a] by auto
qed

text \<open>Division.\<close>

lemma sdiv_nonneg: "0 \<le> a \<Longrightarrow> 0 < d \<Longrightarrow> (a :: int) sdiv d = a div d"
  by (cases "a = 0") (simp_all add: signed_divide_int_def)

lemma sdiv_neg: "(a :: int) sdiv (- d) = - (a sdiv d)" "(- a :: int) sdiv d = - (a sdiv d)"
  by (simp_all add: signed_divide_int_def sgn_minus)

lemma sdiv_unit: "(a :: int) sdiv 1 = a" "(a :: int) sdiv -1 = - a" "a \<noteq> 0 \<Longrightarrow> a sdiv a = 1" "(0 :: int) sdiv d = 0"
proof -
  show "a sdiv 1 = a" by (simp add: signed_divide_int_def sgn_mult_abs)
  then show "a sdiv -1 = - a" using sdiv_neg(1) [of a 1] by simp
  show "a \<noteq> 0 \<Longrightarrow> a sdiv a = 1" by (simp add: signed_divide_int_def flip: sgn_mult)
qed (simp add: signed_divide_int_def)

lemma sdiv_sign:
  fixes a d :: int
  assumes "0 < d"
  shows "0 \<le> a \<Longrightarrow> 0 \<le> a sdiv d" "a \<le> 0 \<Longrightarrow> a sdiv d \<le> 0"
    "0 \<le> a \<Longrightarrow> (a sdiv d) * d \<le> a" "0 \<le> a \<Longrightarrow> a - (a sdiv d) * d \<le> d - 1" "a \<le> 0 \<Longrightarrow> a \<le> (a sdiv d) * d"
    "0 \<le> a \<Longrightarrow> a sdiv d \<le> a"
proof -
  note f = floor_facts [OF assms]
  show "0 \<le> a \<Longrightarrow> 0 \<le> a sdiv d" "0 \<le> a \<Longrightarrow> (a sdiv d) * d \<le> a" "0 \<le> a \<Longrightarrow> a - (a sdiv d) * d \<le> d - 1"
    using f [of a] sdiv_nonneg [OF _ assms] by simp_all
  show "0 \<le> a \<Longrightarrow> a sdiv d \<le> a"
    using sdiv_nonneg [OF _ assms] f(1) [of a] f(3) [of a] assms mult_left_mono [of 1 d "a div d"] by simp
  have s: "a sdiv d = - ((- a) sdiv d)" using sdiv_neg(2) [of a d] by simp
  show "a \<le> 0 \<Longrightarrow> a sdiv d \<le> 0" "a \<le> 0 \<Longrightarrow> a \<le> (a sdiv d) * d"
    unfolding s using f(1,3) [of "- a"] sdiv_nonneg [OF _ assms, of "- a"] by simp_all
qed

lemma inject_div_const_true:
  assumes "path_true \<nu> p" "operand \<nu> fa a" "in_i64 d" "d \<noteq> 0" and x: "var_is \<nu> x (a sdiv d)"
    and s: "ge0 \<Longrightarrow> 0 \<le> a" "le0 \<Longrightarrow> a \<le> 0"
  shows "path_true \<nu> (inject_div_const d x fa ge0 le0 p)"
proof (cases "0 < d")
  case True
  have d1: "in_i64 (d - 1)" using assms(3) True by (simp add: in_i64_def INT64_MIN_def)
  note f = sdiv_sign [OF True, of a]
  have last: "path_true \<nu> [cons_le0 (lin_sub fa (times_var d x))]" if "a \<le> 0"
    using le0_sound [OF lin_may_sub [OF operand_may [OF assms(2)] times_var_may [OF assms(3)]], of \<nu> x] f(5) [OF that]
      operand_val [OF assms(2)] x
    by (simp add: var_is_def flip: of_int_mult)
  show ?thesis
    using True s f(1-4) last d1 assms(1-3) pushes [OF x] in_i64_consts
    by (cases ge0; cases le0) (simp_all add: inject_div_const_def Let_def)
next
  case False
  then have "0 < - d" using assms(4) by simp
  note f = sdiv_sign(1,2) [OF this, of a, unfolded sdiv_neg(1)]
  show ?thesis
    using False s f assms(1) pushes [OF x] in_i64_consts
    by (cases ge0; cases le0) (simp_all add: inject_div_const_def)
qed

lemma eq_zero_true:
  assumes "var_is \<nu> x v" "path_true \<nu> p"
  shows "v = 1 \<Longrightarrow> path_true \<nu> (path_push_eq_zero p (lin_minus (lin_var x) 1))"
    and "operand \<nu> fa a \<Longrightarrow> v = a \<Longrightarrow> path_true \<nu> (path_push_eq_zero p (lin_sub fa (lin_var x)))"
    and "operand \<nu> fa a \<Longrightarrow> v = - a \<Longrightarrow> path_true \<nu> (path_push_eq_zero p (lin_add (lin_var x) fa))"
  using assms
    push_eq_true [OF lin_may_minus [OF lin_may_var in_i64_consts(2)], of \<nu> x p]
    push_eq_true [OF lin_may_sub [OF operand_may lin_may_var], of \<nu> fa a \<nu> x p]
    push_eq_true [OF lin_may_add [OF lin_may_var operand_may], of \<nu> fa a \<nu> x p]
  by (auto simp: var_is_def operand_val)

lemma inject_div_true:
  assumes p: "path_true \<nu> p" and a: "operand \<nu> fa a" and b: "operand \<nu> fb b"
    and x: "var_is \<nu> x v" "b \<noteq> 0 \<Longrightarrow> v = a sdiv b" and q: "query_ok p fa a" "query_ok p fb b"
  shows "path_true \<nu> (inject_div x fa fb p)"
proof -
  note A = query_okD [OF q(1)] and B = query_okD [OF q(2)]
  consider (self) "lin_eq fa fb" "path_proves_ge p fa 1 \<or> path_proves_le p fa (-1)"
    | (const) "\<not> (lin_eq fa fb \<and> (path_proves_ge p fa 1 \<or> path_proves_le p fa (-1)))" "int_const fb"
    | (other) "\<not> (lin_eq fa fb \<and> (path_proves_ge p fa 1 \<or> path_proves_le p fa (-1)))" "\<not> int_const fb"
    by blast
  then show ?thesis
  proof cases
    case self
    then have "a \<noteq> 0" "a = b" using A(2,4) operand_eq [OF a b] by auto
    then show ?thesis
      using self x(2) sdiv_unit(3) eq_zero_true(1) [OF x(1) p] by (simp add: inject_div_def Let_def)
  next
    case const
    note c = int_const_operand [OF b const(2)]
    have v: "v = a sdiv b" using c x(2) by blast
    show ?thesis
      using const c A(1,3) eq_zero_true(2,3) [OF x(1) p a] inject_div_const_true [OF p a _ _ x(1) [unfolded v]]
      by (auto simp: inject_div_def Let_def v sdiv_unit)
  next
    case other
    have z: "a = 0" if "is_k 0 fa" using is_k_val [OF that, of \<nu>] operand_val [OF a] by simp
    have zero: "path_true \<nu> (path_push_le (path_push_ge p x 0) x 0)"
      if "is_k 0 fa" "path_proves_ge p fb 1 \<or> path_proves_le p fb (-1)"
    proof -
      have "v = 0" using x(2) z [OF that(1)] B(2,4) that(2) sdiv_unit(4) by auto
      then show ?thesis using pushes(1,2) [OF x(1) in_i64_consts(1)] p by simp
    qed
    have var: "path_true \<nu> (path_push_le_lin (path_push_ge p x 0) x fa)"
      if "path_proves_ge p fa 0" "path_proves_ge p fb 1"
    proof -
      have "0 \<le> v" "v \<le> a" using x(2) sdiv_sign(1,6) [of b a] A(1) B(2) that by auto
      then show ?thesis using pushes(1) [OF x(1) in_i64_consts(1)] pushes(4) [OF x(1) a] p by simp
    qed
    show ?thesis using other zero var p by (auto simp: inject_div_def Let_def)
  qed
qed

text \<open>Remainder.\<close>

lemma smod_facts:
  fixes a b :: int
  assumes "b \<noteq> 0"
  shows "0 \<le> a \<Longrightarrow> 0 \<le> a smod b" "a \<le> 0 \<Longrightarrow> a smod b \<le> 0" "a smod b \<le> \<bar>b\<bar> - 1" "1 - \<bar>b\<bar> \<le> a smod b"
proof -
  have m: "0 \<le> \<bar>a\<bar> mod \<bar>b\<bar>" "\<bar>a\<bar> mod \<bar>b\<bar> < \<bar>b\<bar>" using assms by simp_all
  have s: "a smod b = sgn a * (\<bar>a\<bar> mod \<bar>b\<bar>)" by (rule smod_int_alt_def)
  show "0 \<le> a \<Longrightarrow> 0 \<le> a smod b" "a \<le> 0 \<Longrightarrow> a smod b \<le> 0" "a smod b \<le> \<bar>b\<bar> - 1" "1 - \<bar>b\<bar> \<le> a smod b"
    using m unfolding s by (auto simp: sgn_if)
qed

lemma inject_mod_const_true:
  assumes "path_true \<nu> p" "in_i64 k" "k \<noteq> 0" and x: "var_is \<nu> x (a smod k)"
    and s: "ge0 \<Longrightarrow> 0 \<le> a" "le0 \<Longrightarrow> a \<le> 0"
  shows "path_true \<nu> (inject_mod_const k x ge0 le0 p)"
proof -
  let ?ak = "if k < 0 then to_i64 (- k) else k"
  have ak: "?ak = \<bar>k\<bar> \<or> ?ak < 1" "in_i64 ?ak"
  proof -
    have "to_i64 (- k) = - k" if "k < 0" "k \<noteq> INT64_MIN"
      using assms(2) that by (simp add: to_i64_def in_i64_def INT64_MIN_def INT64_MAX_def)
    moreover have "to_i64 (- INT64_MIN) = INT64_MIN" by (simp add: to_i64_def INT64_MIN_def)
    ultimately show "?ak = \<bar>k\<bar> \<or> ?ak < 1" "in_i64 ?ak"
      using assms(2,3) by (cases "k = INT64_MIN"; simp add: in_i64_def INT64_MIN_def INT64_MAX_def)+
  qed
  have i: "in_i64 (?ak - 1)" "in_i64 (1 - ?ak)" if "1 \<le> ?ak"
    using ak(2) that by (simp_all only: in_i64_def INT64_MIN_def INT64_MAX_def) linarith+
  define n where "n = ?ak"
  have n: "n = \<bar>k\<bar>" "in_i64 (n - 1)" "in_i64 (1 - n)" if "1 \<le> n" using ak(1) i that by (simp_all only: n_def) linarith
  note f = smod_facts [OF assms(3), of a] and P = pushes(1,2) [OF x]
  show ?thesis
    unfolding inject_mod_const_def Let_def n_def [symmetric]
    using f(1,2) s assms(1) in_i64_consts(1) f(3,4) n
    by (auto intro!: P)
qed

lemma inject_mod_true:
  assumes p: "path_true \<nu> p" and a: "operand \<nu> fa a" and b: "operand \<nu> fb b"
    and x: "var_is \<nu> x v" "b \<noteq> 0 \<Longrightarrow> v = a smod b" and q: "query_ok p fa a" "query_ok p fb b"
  shows "path_true \<nu> (inject_mod x fa fb p)"
proof -
  note A = query_okD [OF q(1)] and B = query_okD [OF q(2)]
  have self: "v = 0" if "lin_eq fa fb" "path_proves_ge p fa 1 \<or> path_proves_le p fa (-1)"
  proof -
    have "a \<noteq> 0" "a = b" using A(2,4) operand_eq [OF a b that(1)] that(2) by auto
    then show ?thesis using x(2) by (simp add: smod_int_alt_def)
  qed
  have const: "path_true \<nu> (inject_mod_const (r_num (lin_c fb)) x
      (path_proves_ge p fa 0) (path_proves_le p fa 0) p)" if "int_const fb"
  proof -
    note c = int_const_operand [OF b that]
    then have "v = a smod b" using x(2) by blast
    then show ?thesis using c inject_mod_const_true [OF p _ _ x(1) [unfolded \<open>v = a smod b\<close>]] A(1,3) by simp
  qed
  have var: "path_true \<nu> (path_push_ge p x 0 @ [cons_le0 (lin_plus (lin_sub (lin_var x) fb) 1)])"
    if "path_proves_ge p fa 0" "path_proves_ge p fb 1"
  proof -
    have ab: "0 \<le> a" "1 \<le> b" using A(1) B(2) that by auto
    then have v: "0 \<le> v" "v \<le> b - 1" using smod_facts [of b a] x(2) by auto
    have "sound_cons \<nu> (cons_le0 (lin_plus (lin_sub (lin_var x) fb) 1))"
      by (rule le0_sound [OF lin_may_plus [OF lin_may_sub [OF lin_may_var operand_may [OF b]] in_i64_consts(2)]])
        (use v(2) x(1) operand_val [OF b] in \<open>simp add: var_is_def flip: of_int_diff of_int_add\<close>)
    then show ?thesis using v(1) pushes(1) [OF x(1) in_i64_consts(1)] p by simp
  qed
  show ?thesis
    using self const var p pushes(1,2) [OF x(1) in_i64_consts(1)] by (auto simp: inject_mod_def Let_def)
qed

text \<open>Products.\<close>

lemma sq_facts: "(a :: int) \<le> a * a" "- a \<le> a * a" "2 * a - a * a - 1 \<le> 0" "- (2 * a) - a * a - 1 \<le> 0"
proof -
  have "0 \<le> (a - 1) * (a - 1)" "0 \<le> (a + 1) * (a + 1)" by simp_all
  then show "2 * a - a * a - 1 \<le> 0" "- (2 * a) - a * a - 1 \<le> 0" by (simp_all add: algebra_simps)
  have "\<bar>a\<bar> \<le> \<bar>a\<bar> * \<bar>a\<bar>"
  proof (cases "a = 0")
    case False
    then have "1 \<le> \<bar>a\<bar>" by linarith
    from mult_left_mono [OF this, of "\<bar>a\<bar>"] show ?thesis by simp
  qed simp
  then have "\<bar>a\<bar> \<le> a * a" by (simp only: abs_mult_self_eq)
  then show "a \<le> a * a" "- a \<le> a * a" by linarith+
qed

lemma push_neg_true:
  "var_is \<nu> x v \<Longrightarrow> operand \<nu> l a \<Longrightarrow> - a \<le> v \<Longrightarrow> path_true \<nu> p \<Longrightarrow> path_true \<nu> (path_push_ge_lin p x (lin_neg l))"
  using push_lin_true(1) [OF lin_may_neg [OF operand_may]] by (force simp: var_is_def operand_val)

lemma inject_square_true:
  assumes p: "path_true \<nu> p" and a: "operand \<nu> fa a" and x: "var_is \<nu> x (a * a)"
  shows "path_true \<nu> (inject_square x fa p)"
proof -
  note f = sq_facts [of a]
  have two: "lin_may (lin_scale fa (rat_int 2)) (\<lambda>\<nu>. lin_val \<nu> fa * of_int 2)"
    by (rule lin_may_scale [OF operand_may [OF a] in_i64_consts(4)])
  note t = le0_sound [OF lin_may_minus [OF lin_may_sub [OF two lin_may_var] in_i64_consts(2)], of \<nu> x]
    le0_sound [OF lin_may_minus [OF lin_may_sub [OF lin_may_neg [OF two] lin_may_var] in_i64_consts(2)], of \<nu> x]
  have "lin_val \<nu> fa * of_int 2 - \<nu> x - of_int 1 = of_int (2 * a - a * a - 1)"
    "- (lin_val \<nu> fa * of_int 2) - \<nu> x - of_int 1 = of_int (- (2 * a) - a * a - 1)"
    using operand_val [OF a] x by (simp_all add: var_is_def)
  with t f(3,4) have "sound_cons \<nu> (cons_le0 (lin_minus (lin_sub (lin_scale fa (rat_int 2)) (lin_var x)) 1))"
    "sound_cons \<nu> (cons_le0 (lin_minus (lin_sub (lin_neg (lin_scale fa (rat_int 2))) (lin_var x)) 1))"
    by (simp_all only: of_int_le_0_iff)
  then show ?thesis
    using p f(1,2) pushes [OF x] push_neg_true [OF x a] a in_i64_consts
    by (simp add: inject_square_def Let_def)
qed

lemma inject_consecutive_true:
  assumes p: "path_true \<nu> p" and a: "operand \<nu> fa a" and b: "operand \<nu> fb b" and x: "var_is \<nu> x (a * b)"
  shows "path_true \<nu> (inject_consecutive x fa fb p)"
proof -
  let ?d = "lin_sub fa fb" let ?k = "r_num (lin_c ?d)"
  have "a - b = ?k" if "\<not> lin_ovf ?d" "lin_is_const ?d" "r_den (lin_c ?d) = 1"
  proof -
    have "operand \<nu> ?d (a - b)"
      using lin_res_ok [OF lin_sub_res [OF lin_ok_res lin_ok_res] that(1), of \<nu>] a b by (simp add: operand_def)
    from operand_const [OF this that(2,3)] show ?thesis by simp
  qed
  moreover have "0 \<le> a * b" "a \<le> a * b" if "b = a + 1"
    using sq_facts(2) [of a] by (simp_all add: that algebra_simps)
  moreover have "0 \<le> a * b" "b \<le> a * b" if "a = b + 1"
    using sq_facts(2) [of b] by (simp_all add: that algebra_simps)
  ultimately show ?thesis
    using p a b pushes [OF x] in_i64_consts unfolding inject_consecutive_def Let_def
    by (smt (verit) minus_equation_iff)
qed

lemma first_of_four:
  "(c1 \<Longrightarrow> P r1) \<Longrightarrow> (c2 \<Longrightarrow> P r2) \<Longrightarrow> (c3 \<Longrightarrow> P r3) \<Longrightarrow> (c4 \<Longrightarrow> P r4) \<Longrightarrow> P r5 \<Longrightarrow>
   P (if c1 then r1 else if c2 then r2 else if c3 then r3 else if c4 then r4 else r5)"
  by simp

lemma inject_signs_true:
  assumes p: "path_true \<nu> p" and a: "operand \<nu> fa a" and b: "operand \<nu> fb b" and x: "var_is \<nu> x (a * b)"
    and q: "query_ok p fa a" "query_ok p fb b"
  shows "path_true \<nu> (inject_signs x fa fb p)"
proof -
  have pos: "c \<le> c * d" if "0 \<le> c" "1 \<le> d" for c d :: int using mult_left_mono [of 1 d c] that by simp
  have ge1: "1 \<le> c * d" if "1 \<le> c" "1 \<le> d" for c d :: int using pos [of c d] that by linarith
  have f: "1 \<le> a \<Longrightarrow> 1 \<le> b \<Longrightarrow> 1 \<le> a * b" "a \<le> -1 \<Longrightarrow> b \<le> -1 \<Longrightarrow> 1 \<le> a * b"
    "0 \<le> a \<Longrightarrow> 0 \<le> b \<Longrightarrow> 0 \<le> a * b" "a \<le> 0 \<Longrightarrow> b \<le> 0 \<Longrightarrow> 0 \<le> a * b"
    "1 \<le> a \<Longrightarrow> b \<le> -1 \<Longrightarrow> a * b \<le> -1" "a \<le> -1 \<Longrightarrow> 1 \<le> b \<Longrightarrow> a * b \<le> -1"
    "0 \<le> a \<Longrightarrow> b \<le> 0 \<Longrightarrow> a * b \<le> 0" "a \<le> 0 \<Longrightarrow> 0 \<le> b \<Longrightarrow> a * b \<le> 0"
    "0 \<le> a \<Longrightarrow> 1 \<le> b \<Longrightarrow> a \<le> a * b" "1 \<le> a \<Longrightarrow> 0 \<le> b \<Longrightarrow> b \<le> a * b"
    using ge1 [of a b] ge1 [of "- a" "- b"] ge1 [of a "- b"] ge1 [of "- a" b] pos [of a b] pos [of b a]
    by (simp_all add: mult_nonneg_nonneg mult_nonpos_nonpos mult_nonneg_nonpos mult_nonpos_nonneg mult.commute)
  note A = query_okD [OF q(1)] and B = query_okD [OF q(2)]
  have p1: "path_true \<nu> (if path_proves_ge p fa 1 \<and> path_proves_ge p fb 1 then path_push_ge p x 1
      else if path_proves_le p fa (-1) \<and> path_proves_le p fb (-1) then path_push_ge p x 1
      else if path_proves_ge p fa 0 \<and> path_proves_ge p fb 0 then path_push_ge p x 0
      else if path_proves_le p fa 0 \<and> path_proves_le p fb 0 then path_push_ge p x 0 else p)" (is "path_true \<nu> ?p1")
    by (rule first_of_four [of _ "path_true \<nu>"])
      (simp_all add: pushes(1) [OF x _ _ p] in_i64_consts p f(1-4) A B)
  have p2: "path_true \<nu> (if path_proves_ge p fa 1 \<and> path_proves_le p fb (-1) then path_push_le r x (-1)
      else if path_proves_le p fa (-1) \<and> path_proves_ge p fb 1 then path_push_le r x (-1)
      else if path_proves_ge p fa 0 \<and> path_proves_le p fb 0 then path_push_le r x 0
      else if path_proves_le p fa 0 \<and> path_proves_ge p fb 0 then path_push_le r x 0 else r)"
    if "path_true \<nu> r" for r
    by (rule first_of_four [of _ "path_true \<nu>"])
      (simp_all add: pushes(2) [OF x _ _ that] in_i64_consts that f(5-8) A B)
  have p3: "path_true \<nu> (if path_proves_ge p fa 0 \<and> path_proves_ge p fb 1 then path_push_ge_lin r x fa else r)"
    "path_true \<nu> (if path_proves_ge p fa 1 \<and> path_proves_ge p fb 0 then path_push_ge_lin r x fb else r)"
    if "path_true \<nu> r" for r
    using pushes(3) [OF x a f(9) that] pushes(3) [OF x b f(10) that] A(1,2) B(1,2) that by auto
  show ?thesis unfolding inject_signs_def Let_def by (intro p3 p2 p1)
qed

section \<open>What an entry says\<close>

definition mon_sem :: "(string \<Rightarrow> rat) \<Rightarrow> ReadEntry \<Rightarrow> bool" where
  "mon_sem \<nu> e \<longleftrightarrow>
     (is_prod e \<longrightarrow> 2 \<le> mon_deg e \<longrightarrow>
        (\<exists>b. operand \<nu> (mon_base e) b \<and> var_is \<nu> (re_var e) (b ^ nat (mon_deg e))))"

definition kind_sem :: "ReadEntry \<Rightarrow> int \<Rightarrow> int \<Rightarrow> int \<Rightarrow> bool" where
  "kind_sem e a b v \<longleftrightarrow>
     (is_prod e \<longrightarrow> v = a * b) \<and>
     (is_div e \<longrightarrow> b \<noteq> 0 \<longrightarrow> v = a sdiv b) \<and>
     (is_mod e \<longrightarrow> v = (if b = 0 then a else a smod b)) \<and>
     (is_shr e \<longrightarrow> lin_is_const (re_fb e) \<and> 1 \<le> b \<and> b \<le> 62 \<and> v = a div 2 ^ nat b) \<and>
     (is_lshr e \<longrightarrow> lin_is_const (re_fb e) \<and> 1 \<le> b \<and> b \<le> 62 \<and> in_i64 a \<and> v = (a mod 2 ^ 64) div 2 ^ nat b) \<and>
     (is_bitand1 e \<longrightarrow> lin_is_const (re_fb e) \<and> 0 < b \<and> v = a AND b) \<and>
     (is_bitand e \<longrightarrow> v = a AND b) \<and>
     (is_bitor e \<longrightarrow> \<not> is_bitand e \<longrightarrow> v = a OR b)"

definition entry_sem :: "(string \<Rightarrow> rat) \<Rightarrow> ReadEntry \<Rightarrow> bool" where
  "entry_sem \<nu> e \<longleftrightarrow>
     mon_sem \<nu> e \<and>
     (\<exists>a b v. operand \<nu> (re_fa e) a \<and> operand \<nu> (re_fb e) b \<and> var_is \<nu> (re_var e) v \<and> kind_sem e a b v)"

lemma entry_semD:
  "\<forall>e \<in> set l. entry_sem \<nu> e \<Longrightarrow> e \<in> set l \<Longrightarrow>
   \<exists>a b v. operand \<nu> (re_fa e) a \<and> operand \<nu> (re_fb e) b \<and> var_is \<nu> (re_var e) v \<and> (is_prod e \<longrightarrow> v = a * b) \<and>
     (is_div e \<longrightarrow> b \<noteq> 0 \<longrightarrow> v = a sdiv b) \<and> (is_mod e \<longrightarrow> v = (if b = 0 then a else a smod b))"
  unfolding entry_sem_def kind_sem_def by blast

lemma var_operand: "var_is \<nu> x v \<Longrightarrow> operand \<nu> (lin_var x) v"
  using lin_res_ok [OF lin_var_res, of x \<nu>] by (simp add: var_is_def operand_def)

lemma inject_even_true:
  assumes sem: "\<forall>e \<in> set l. mon_sem \<nu> e" and i: "i < length l" "is_prod (l ! i)" and p: "path_true \<nu> p"
  shows "path_true \<nu> (inject_even l i p)"
proof (cases "2 \<le> mon_deg (l ! i) \<and> even (mon_deg (l ! i))")
  case True
  let ?e = "l ! i" let ?h = "nat (mon_deg ?e div 2)"
  from sem i True obtain b where b: "operand \<nu> (mon_base ?e) b" "var_is \<nu> (re_var ?e) (b ^ nat (mon_deg ?e))"
    by (force simp: mon_sem_def)
  have "nat (mon_deg ?e) = ?h + ?h" using True by (auto elim!: evenE)
  then have x: "var_is \<nu> (re_var ?e) (b ^ ?h * b ^ ?h)" using b(2) by (simp add: power_add)
  note f = sq_facts [of "b ^ ?h"]
  have root: "path_true \<nu> (inject_root (re_var ?e) s q)" if s: "s \<in> set l" "is_root ?e s" and q: "path_true \<nu> q" for s q
  proof -
    from sem s obtain c where c: "operand \<nu> (mon_base s) c" "var_is \<nu> (re_var s) (c ^ nat (mon_deg s))"
      by (force simp: mon_sem_def is_root_def)
    moreover have "c = b" using operand_eq [OF c(1) b(1)] s(2) by (simp add: is_root_def)
    ultimately have "operand \<nu> (lin_var (re_var s)) (b ^ ?h)"
      using var_operand s(2) by (simp add: is_root_def)
    then show ?thesis
      unfolding inject_root_def using f(1,2) pushes(3) [OF x] push_neg_true [OF x] q by blast
  qed
  have "path_true \<nu> (fold (\<lambda>j p. if j \<noteq> i \<and> is_root ?e (l ! j) then inject_root (re_var ?e) (l ! j) p else p) js q)"
    if "set js \<subseteq> {..<length l}" "path_true \<nu> q" for js q
    using that
  proof (induction js arbitrary: q)
    case (Cons j js)
    then show ?case using root [of "l ! j" q] by simp
  qed simp
  moreover have "path_true \<nu> (path_push_ge p (re_var ?e) 0)"
    using pushes(1) [OF x in_i64_consts(1) _ p] by simp
  ultimately show ?thesis using True by (simp add: inject_even_def Let_def atLeast0LessThan)
qed (use p in \<open>auto simp: inject_even_def Let_def\<close>)

section \<open>Steps\<close>

text \<open>
  From \<open>p\<close> to \<open>p'\<close> the path is extended by true facts, if the queries to the
  paths between are exact.
\<close>

definition step :: "(string \<Rightarrow> rat) \<Rightarrow> ReadsList \<Rightarrow> ConsList \<Rightarrow> ConsList \<Rightarrow> bool" where
  "step \<nu> l p p' \<longleftrightarrow> prefix p p' \<and>
     (path_true \<nu> p \<longrightarrow> (\<forall>r. prefix p r \<longrightarrow> prefix r p' \<longrightarrow> reads_exact l r) \<longrightarrow> path_true \<nu> p')"

lemma step_same [simp]: "step \<nu> l p p" by (simp add: step_def)

lemma step_then: "step \<nu> l p q \<Longrightarrow> step \<nu> l q r \<Longrightarrow> step \<nu> l p r"
  unfolding step_def by (meson prefix_order.trans)

lemma step_fold: "(\<And>x p. x \<in> set xs \<Longrightarrow> step \<nu> l p (f x p)) \<Longrightarrow> step \<nu> l p (fold f xs p)"
  by (induction xs arbitrary: p) (auto intro: step_then)

lemma stepI:
  assumes "prefix p p'"
    and "path_true \<nu> p \<Longrightarrow> (\<And>r. prefix p r \<Longrightarrow> prefix r p' \<Longrightarrow> reads_exact l r) \<Longrightarrow> path_true \<nu> p'"
  shows "step \<nu> l p p'"
  using assms unfolding step_def by blast

lemma fold_prefix: "(\<And>x q. prefix p q \<Longrightarrow> prefix p (f x q)) \<Longrightarrow> prefix p q \<Longrightarrow> prefix p (fold f xs q)"
  by (induction xs arbitrary: q) auto

lemma inject_prefix [simp]:
  assumes "prefix p q"
  shows "prefix p (inject_bitmask x fb q)" "prefix p (inject_bitop is_and x fa fb q)" "prefix p (inject_shr x fa fb q)"
    "prefix p (inject_lshr x fa fb q)" "prefix p (inject_div x fa fb q)" "prefix p (inject_mod x fa fb q)"
    "prefix p (inject_square x fa q)" "prefix p (inject_consecutive x fa fb q)" "prefix p (inject_signs x fa fb q)"
    "prefix p (inject_even l i q)"
  using assms
  by (simp_all add: inject_bitmask_def inject_bitop_def inject_shr_def inject_lshr_def inject_div_def inject_div_const_def
      inject_mod_def inject_mod_const_def inject_square_def inject_consecutive_def inject_signs_def inject_even_def
      inject_root_def fold_prefix Let_def)

lemma query_of_reads:
  "reads_exact l r \<Longrightarrow> e \<in> set l \<Longrightarrow> queried e \<Longrightarrow> path_true \<nu> r \<Longrightarrow> int_valued \<nu> \<Longrightarrow> operand \<nu> (re_fa e) a \<Longrightarrow> operand \<nu> (re_fb e) b \<Longrightarrow>
   query_ok r (re_fa e) a \<and> query_ok r (re_fb e) b"
  by (auto simp: reads_exact_def list_all_iff intro: query_okI)

lemma inject_entry_step:
  assumes sem: "\<forall>e \<in> set l. entry_sem \<nu> e" and i: "i < length l" and iv: "int_valued \<nu>"
  shows "step \<nu> l p (inject_entry l i p)"
proof -
  let ?e = "l ! i" let ?x = "re_var ?e" and ?fa = "re_fa ?e" and ?fb = "re_fb ?e"
  have e: "?e \<in> set l" using i by simp
  from sem e obtain a b v where s: "operand \<nu> ?fa a" "operand \<nu> ?fb b" "var_is \<nu> ?x v" "kind_sem ?e a b v"
    by (auto simp: entry_sem_def)
  note k = s(4) [unfolded kind_sem_def]
  have q: "query_ok r ?fa a" "query_ok r ?fb b" if "reads_exact l r" "path_true \<nu> r" "queried ?e" for r
    using query_of_reads [OF that(1) e that(3,2) iv s(1,2)] by simp_all
  have at_p: "step \<nu> l p (f p)"
    if "prefix p (f p)" "queried ?e" "\<And>q. path_true \<nu> p \<Longrightarrow> query_ok p ?fa a \<Longrightarrow> query_ok p ?fb b \<Longrightarrow> path_true \<nu> (f p)" for f
    using that q [of p] by (intro stepI) simp_all
  have x: "var_is \<nu> ?x w" if "v = w" for w using s(3) that by simp
  have bm: "step \<nu> l p (inject_bitmask ?x ?fb p)" if "is_bitand1 ?e"
    by (rule stepI) (use that k inject_bitmask_true [OF _ x s(2)] in simp_all)
  have bo: "step \<nu> l p (inject_bitop (is_bitand ?e) ?x ?fa ?fb p)" if "is_bitand ?e \<or> is_bitor ?e"
  proof -
    have "v = (if is_bitand ?e then a AND b else a OR b)" using that k by auto
    then show ?thesis by (intro at_p) (use that in \<open>auto simp: queried_def intro: inject_bitop_true [OF _ s(1,2) x]\<close>)
  qed
  have sr: "step \<nu> l p (inject_shr ?x ?fa ?fb p)" if "is_shr ?e"
    by (rule at_p) (use that k inject_shr_true [OF _ s(1,2) _ _ _ x] in \<open>simp_all add: queried_def\<close>)
  have lr: "step \<nu> l p (inject_lshr ?x ?fa ?fb p)" if "is_lshr ?e"
    by (rule stepI) (use that k q inject_lshr_true [OF _ s(1,2) _ _ _ _ x] in \<open>simp_all add: queried_def\<close>)
  have dv: "step \<nu> l p (inject_div ?x ?fa ?fb p)" if "is_div ?e"
    by (rule at_p) (use that k inject_div_true [OF _ s(1-3)] in \<open>simp_all add: queried_def\<close>)
  have md: "step \<nu> l p (inject_mod ?x ?fa ?fb p)" if "is_mod ?e"
    by (rule at_p) (use that k inject_mod_true [OF _ s(1-3)] in \<open>simp_all add: queried_def\<close>)
  have pr: "step \<nu> l p (inject_square ?x ?fa p)" if "is_prod ?e" "lin_eq ?fa ?fb"
    by (rule stepI) (use that k operand_eq [OF s(1,2)] inject_square_true [OF _ s(1) x] in simp_all)
  have mo: "\<forall>e \<in> set l. mon_sem \<nu> e" using sem by (simp add: entry_sem_def)
  have ps: "step \<nu> l p (inject_even l i (inject_signs ?x ?fa ?fb (inject_consecutive ?x ?fa ?fb p)))"
    if pe: "is_prod ?e" "\<not> lin_eq ?fa ?fb"
  proof -
    have x: "var_is \<nu> ?x (a * b)" using pe k s(3) by simp
    have qe: "queried ?e" using pe by (simp add: queried_def)
    have "step \<nu> l p (inject_consecutive ?x ?fa ?fb p)"
      by (rule stepI) (simp_all add: inject_consecutive_true [OF _ s(1,2) x])
    moreover have "step \<nu> l r (inject_signs ?x ?fa ?fb r)" for r
      by (rule stepI) (use q [of r] qe inject_signs_true [OF _ s(1,2) x, of r] in auto)
    moreover have "step \<nu> l r (inject_even l i r)" for r
      by (rule stepI) (simp_all add: inject_even_true [OF mo i pe(1)])
    ultimately show ?thesis by (meson step_then)
  qed
  show ?thesis using bm bo sr lr dv md pr ps by (simp add: inject_entry_def Let_def)
qed

section \<open>Facts about several entries\<close>

lemma push_division_true:
  assumes "operand \<nu> n a" "lin_may kq f" "f \<nu> = of_int c" "var_is \<nu> r w" "a = c + w" "path_true \<nu> p"
  shows "path_true \<nu> (push_division n kq r p)"
  unfolding push_division_def
  by (rule push_eq_true [OF lin_may_sub [OF lin_may_sub [OF lin_may_clone [OF operand_may [OF assms(1)]] assms(2)] lin_may_var]])
    (use assms(3-6) operand_val [OF assms(1)] in \<open>simp_all add: var_is_def\<close>)

lemma sdiv_smod: "(a :: int) = (a sdiv b) * b + a smod b"
  using sdiv_mult_smod_eq [of a b] by simp

lemma inject_divmod_step:
  assumes sem: "\<forall>e \<in> set l. entry_sem \<nu> e" and d: "d \<in> set l" and m: "m \<in> set l" and iv: "int_valued \<nu>"
  shows "step \<nu> l p (inject_divmod l d m p)"
proof (cases "is_div d \<and> is_mod m \<and> lin_eq (re_fa d) (re_fa m) \<and> lin_eq (re_fb d) (re_fb m)")
  case True
  from entry_semD [OF sem d] obtain a b q where D: "operand \<nu> (re_fa d) a" "operand \<nu> (re_fb d) b" "var_is \<nu> (re_var d) q"
    "b \<noteq> 0 \<Longrightarrow> q = a sdiv b"
    using True by blast
  from entry_semD [OF sem m] obtain a' b' r where M: "operand \<nu> (re_fa m) a'" "operand \<nu> (re_fb m) b'" "var_is \<nu> (re_var m) r"
    "r = (if b' = 0 then a' else a' smod b')"
    using True by blast
  have ab: "a' = a" "b' = b" using True operand_eq [OF D(1) M(1)] operand_eq [OF D(2) M(2)] by auto
  have eq: "a = q * b + r" using D(4) M(4) sdiv_smod [of a b] by (auto simp: ab)
  have const: "step \<nu> l p (push_division (re_fa d) (times_var (r_num (lin_c (re_fb d))) (re_var d)) (re_var m) p)"
    if "int_const (re_fb d)"
  proof (rule stepI)
    have c: "r_num (lin_c (re_fb d)) = b" "in_i64 b" using int_const_operand [OF D(2) that] by simp_all
    show "path_true \<nu> (push_division (re_fa d) (times_var (r_num (lin_c (re_fb d))) (re_var d)) (re_var m) p)"
      if "path_true \<nu> p"
      unfolding c(1)
      by (rule push_division_true [OF D(1) times_var_may [OF c(2)] _ M(3) eq that]) (use D(3) in \<open>simp add: var_is_def\<close>)
  qed (simp add: push_division_def)
  have mult: "step \<nu> l p' (inject_multiple d m e p')" if e: "e \<in> set l" "is_multiple d e" for e p'
  proof -
    have pe: "is_prod e" using e(2) by (simp add: is_multiple_def)
    from entry_semD [OF sem e(1)] obtain x y w where
      E: "operand \<nu> (re_fa e) x" "operand \<nu> (re_fb e) y" "var_is \<nu> (re_var e) w" "w = x * y"
      using pe by blast
    have w: "w = q * b"
      using e(2) operand_eq [OF E(1) var_operand [OF D(3)]] operand_eq [OF E(2) D(2)]
        operand_eq [OF E(2) var_operand [OF D(3)]] operand_eq [OF E(1) D(2)] E(4)
      by (auto simp: is_multiple_def Let_def mult.commute)
    let ?p1 = "push_division (re_fa d) (lin_var (re_var e)) (re_var m) p'"
    have p1: "step \<nu> l p' ?p1"
    proof (rule stepI)
      show "path_true \<nu> ?p1" if "path_true \<nu> p'"
        using push_division_true [OF D(1) lin_may_var _ M(3) _ that, of "re_var e" w] E(3) eq w by (simp add: var_is_def)
    qed (simp add: push_division_def)
    have "step \<nu> l ?p1 (inject_multiple d m e p')"
    proof (rule stepI)
      assume t: "path_true \<nu> ?p1" and "\<And>r. prefix ?p1 r \<Longrightarrow> prefix r (inject_multiple d m e p') \<Longrightarrow> reads_exact l r"
      then have "reads_exact l ?p1" by (simp add: inject_multiple_def Let_def)
      moreover have "queried d" using True by (simp add: queried_def)
      ultimately have Q: "query_ok ?p1 (re_fa d) a \<and> query_ok ?p1 (re_fb d) b"
        by (rule query_of_reads [OF _ d _ t iv D(1,2)])
      have "w \<le> a" if "0 \<le> a" "1 \<le> b"
        using sdiv_sign(3) [of b a] D(4) that by (simp add: w)
      then show "path_true \<nu> (inject_multiple d m e p')"
        using t pushes(4) [OF E(3) D(1)] query_okD(1) [OF conjunct1 [OF Q]] query_okD(2) [OF conjunct2 [OF Q]]
        by (simp add: inject_multiple_def Let_def)
    qed (simp add: inject_multiple_def Let_def)
    with p1 show ?thesis by (rule step_then)
  qed
  have "step \<nu> l p (fold (\<lambda>e p. if is_multiple d e then inject_multiple d m e p else p) l p)"
    by (rule step_fold) (simp add: mult)
  with True const show ?thesis by (simp add: inject_divmod_def)
qed (auto simp: inject_divmod_def)

lemma inject_squares_step:
  assumes sem: "\<forall>e \<in> set l. entry_sem \<nu> e" and s: "sa \<in> set l" "sb \<in> set l"
  shows "step \<nu> l p (inject_squares l sa sb p)"
proof (cases "is_square sa \<and> is_square sb")
  case True
  have sq: "\<exists>a. operand \<nu> (re_fa s) a \<and> var_is \<nu> (re_var s) (a * a)" if "is_square s" "s \<in> set l" for s
    using entry_semD [OF sem that(2)] that(1) operand_eq unfolding is_square_def by blast
  from sq True s obtain a b where A: "operand \<nu> (re_fa sa) a" "var_is \<nu> (re_var sa) (a * a)"
    and B: "operand \<nu> (re_fa sb) b" "var_is \<nu> (re_var sb) (b * b)" by meson
  have "step \<nu> l r (inject_amgm sa sb e r)" if e: "e \<in> set l" for e r
  proof (rule stepI)
    let ?t = "lin_add (lin_neg (lin_add (lin_var (re_var sa)) (lin_var (re_var sb)))) (times_var 2 (re_var e))"
    have "sound_cons \<nu> (cons_le0 ?t)"
      if p: "is_prod e" and c: "lin_eq (re_fa e) (re_fa sa) \<and> lin_eq (re_fb e) (re_fa sb) \<or>
          lin_eq (re_fa e) (re_fa sb) \<and> lin_eq (re_fb e) (re_fa sa)"
    proof -
      from entry_semD [OF sem e] p obtain x y where
        E: "operand \<nu> (re_fa e) x" "operand \<nu> (re_fb e) y" "var_is \<nu> (re_var e) (x * y)"
        by blast
      have "x * y = a * b"
        using c operand_eq [OF E(1) A(1)] operand_eq [OF E(2) B(1)] operand_eq [OF E(1) B(1)] operand_eq [OF E(2) A(1)]
        by (auto simp: mult.commute)
      moreover have "0 \<le> (a - b) * (a - b)" by simp
      ultimately have "- (a * a + b * b) + (x * y) * 2 \<le> 0" by (simp add: algebra_simps)
      then show ?thesis
        by (intro le0_sound [OF lin_may_add [OF lin_may_neg [OF lin_may_add [OF lin_may_var lin_may_var]]
              times_var_may [OF in_i64_consts(4)]]])
          (use A(2) B(2) E(3) in \<open>simp add: var_is_def flip: of_int_mult of_int_add of_int_minus\<close>)
    qed
    then show "path_true \<nu> (inject_amgm sa sb e r)" if "path_true \<nu> r" using that by (simp add: inject_amgm_def)
  qed (simp add: inject_amgm_def)
  then show ?thesis by (simp add: inject_squares_def step_fold)
qed (auto simp: inject_squares_def)

lemma inject_step:
  assumes "\<forall>e \<in> set l. entry_sem \<nu> e" "int_valued \<nu>"
  shows "step \<nu> l p (inject_prod_axioms l p)"
proof -
  have "step \<nu> l q (fold (\<lambda>i. inject_entry l i) [0..<length l] q)" for q
    by (rule step_fold) (simp add: inject_entry_step [OF assms(1) _ assms(2)])
  moreover have "step \<nu> l q (fold (\<lambda>d. fold (\<lambda>m. inject_divmod l d m) l) l q)" for q
    by (intro step_fold inject_divmod_step assms)
  moreover have "step \<nu> l q (fold (\<lambda>sa. fold (\<lambda>sb. inject_squares l sa sb) l) l q)" for q
    by (intro step_fold inject_squares_step assms)
  ultimately show ?thesis unfolding inject_prod_axioms_def by (meson step_then)
qed

end
