(* ===== verification/SymAxProps.thy ===== *)
theory SymAxProps
  imports SymAxSound SymProps
begin

text \<open>
  The lists of recorded values that the translation builds, what their entries
  say of a valuation, and the property of \<open>inject_prod_axioms\<close>.
\<close>

section \<open>Lists built by the translation\<close>

inductive reads_built :: "ReadsList \<Rightarrow> bool" where
  built_nil: "reads_built []"
| built_call: "reads_built l \<Longrightarrow> reads_built (reads_push l call v)"
| built_prod: "reads_built l \<Longrightarrow> reads_built (reads_push_prod l v fa fb)"
| built_div: "reads_built l \<Longrightarrow> reads_built (reads_push_div l v fa fb)"
| built_mod: "reads_built l \<Longrightarrow> reads_built (reads_push_mod l v fa fb)"
| built_shr: "reads_built l \<Longrightarrow> 1 \<le> k \<Longrightarrow> k \<le> 62 \<Longrightarrow> reads_built (reads_push_shr l v fa (lin_const (rat_int k)))"
| built_lshr: "reads_built l \<Longrightarrow> 1 \<le> k \<Longrightarrow> k \<le> 62 \<Longrightarrow> reads_built (reads_push_lshr l v fa (lin_const (rat_int k)))"
| built_bitmask: "reads_built l \<Longrightarrow> 0 < m \<Longrightarrow> reads_built (reads_push_bitmask l v fa m)"
| built_bitop: "reads_built l \<Longrightarrow> reads_built (reads_push_bitop l v fa fb is_or)"
| built_pair: "reads_built l \<Longrightarrow> reads_built (reads_push_pair l v fa fb)"

lemma record_built:
  assumes "reads_built (entries s)" "\<And>l v. reads_built l \<Longrightarrow> reads_built (push l v)"
  shows "reads_built (entries (snd (se_record p push s)))"
  using assms by (auto simp: se_record_def entries_def Let_def split: option.split)

lemma binary_built:
  assumes b: "reads_built (entries s)" and r: "se_binary op l r s = Some res"
  shows "reads_built (entries (snd res))"
proof -
  note rec = record_built [OF b]
  have mul: "reads_built (entries (snd (se_mul l r s)))"
    using rec b by (simp add: se_mul_def Let_def built_prod)
  have dm: "reads_built (entries (snd res))" if "se_divmod q l r s = Some res" for q
    using that rec b by (auto simp: se_divmod_def Let_def built_div built_mod split: if_splits)
  have bits: "reads_built (entries (snd (se_bits op l r s)))"
    using rec b
    by (simp add: se_bits_def se_or_def se_and_def se_xor_def Let_def built_bitmask built_bitop is_low_mask_def)
  have sh: "reads_built (entries (snd (se_shift op l r s)))"
    using rec b by (simp add: se_shift_def Let_def built_shr built_lshr)
  show ?thesis using r b mul dm bits sh by (cases op) (auto simp: se_binary_def)
qed

text \<open>The translation of an expression keeps the list built.\<close>

lemma se_built:
  "se_from_ast e env vlen s = Some r \<Longrightarrow> reads_built (entries s) \<Longrightarrow> reads_built (entries (snd r))"
proof (induction e arbitrary: s r)
  case (NODE_UNARY op e)
  then show ?case by (fastforce simp: bind_eq_Some_conv split: if_splits)
next
  case (NODE_BINARY op a b)
  then obtain x s1 y s2 where "se_from_ast a env vlen s = Some (x, s1)" "se_from_ast b env vlen s1 = Some (y, s2)"
    "se_binary op x y s2 = Some r" by (auto simp: bind_eq_Some_conv)
  with NODE_BINARY.IH(1) [of s "(x, s1)"] NODE_BINARY.IH(2) [of s1 "(y, s2)"] NODE_BINARY.prems(2)
  show ?case using binary_built by simp
next
  case (NODE_CALL call callee args targs)
  show ?case
  proof (cases "reads_find (entries s) call")
    case None
    with NODE_CALL.prems(1) show ?thesis
    proof (cases rule: se_call_cases)
      case none
      then show ?thesis using NODE_CALL.prems(2) by simp
    next
      case (pair a b x s1 y s2)
      have "reads_built (entries s2)"
        using NODE_CALL.IH(2) [of b s1 "(y, s2)"] NODE_CALL.IH(2) [of a s "(x, s1)"] pair NODE_CALL.prems(2) by simp
      then show ?thesis using pair(5) by (simp add: se_pair_def record_built built_pair)
    next
      case (proj a p s1 f)
      then show ?thesis using NODE_CALL.IH(2) [of a s "(p, s1)"] NODE_CALL.prems(2) by simp
    next
      case (len v)
      then show ?thesis using NODE_CALL.prems(2) by simp
    qed
  next
    case (Some rv)
    then have "Option.bind (se_reads s) (\<lambda>l. reads_find l call) = Some rv"
      by (simp add: entries_def reads_find_def split: option.splits)
    then show ?thesis using NODE_CALL.prems by auto
  qed
qed auto

section \<open>The shape of an entry\<close>

definition entry_shape :: "ReadEntry \<Rightarrow> bool" where
  "entry_shape e \<longleftrightarrow>
     (is_prod e \<longrightarrow> \<not> is_pair e) \<and>
     (is_div e \<longrightarrow> \<not> is_pair e \<and> \<not> is_prod e) \<and>
     (is_mod e \<longrightarrow> \<not> is_pair e \<and> \<not> is_prod e \<and> \<not> is_div e) \<and>
     (is_shr e \<longrightarrow> \<not> is_pair e \<and> \<not> is_prod e \<and> \<not> is_div e \<and> \<not> is_mod e \<and>
        (\<exists>k. 1 \<le> k \<and> k \<le> 62 \<and> re_fb e = lin_const (rat_int k))) \<and>
     (is_lshr e \<longrightarrow> \<not> is_pair e \<and> \<not> is_prod e \<and> \<not> is_div e \<and> \<not> is_mod e \<and> \<not> is_shr e \<and>
        (\<exists>k. 1 \<le> k \<and> k \<le> 62 \<and> re_fb e = lin_const (rat_int k))) \<and>
     (is_bitand1 e \<longrightarrow> (\<exists>m. 0 < m \<and> re_fb e = lin_const (rat_int m))) \<and>
     (is_bitand1 e \<or> is_bitand e \<or> is_bitor e \<longrightarrow>
        \<not> is_pair e \<and> \<not> is_prod e \<and> \<not> is_div e \<and> \<not> is_mod e \<and> \<not> is_shr e \<and> \<not> is_lshr e) \<and>
     (is_bitor e \<longrightarrow> \<not> is_bitand1 e)"

lemma entry_shapeD:
  "entry_shape e \<Longrightarrow> is_shr e \<Longrightarrow> \<exists>k. 1 \<le> k \<and> k \<le> 62 \<and> re_fb e = lin_const (rat_int k)"
  "entry_shape e \<Longrightarrow> is_lshr e \<Longrightarrow> \<exists>k. 1 \<le> k \<and> k \<le> 62 \<and> re_fb e = lin_const (rat_int k)"
  "entry_shape e \<Longrightarrow> is_bitand1 e \<Longrightarrow> \<exists>m. 0 < m \<and> re_fb e = lin_const (rat_int m)"
  by (simp_all add: entry_shape_def)

lemma classify_fields [simp]:
  "re_var (classify_monomial l e) = re_var e" "re_fa (classify_monomial l e) = re_fa e"
  "re_fb (classify_monomial l e) = re_fb e" "is_prod (classify_monomial l e) = is_prod e"
  "is_div (classify_monomial l e) = is_div e" "is_mod (classify_monomial l e) = is_mod e"
  "is_shr (classify_monomial l e) = is_shr e" "is_lshr (classify_monomial l e) = is_lshr e"
  "is_bitand1 (classify_monomial l e) = is_bitand1 e" "is_bitand (classify_monomial l e) = is_bitand e"
  "re_call (classify_monomial l e) = re_call e" "is_bitor (classify_monomial l e) = is_bitor e" "is_pair (classify_monomial l e) = is_pair e"
  by (simp_all add: classify_monomial_def Let_def)

lemma built_shape: "reads_built l \<Longrightarrow> \<forall>e \<in> set l. entry_shape e"
  by (induction rule: reads_built.induct)
    (auto simp: reads_push_def reads_push_prod_def reads_push_div_def reads_push_mod_def reads_push_shr_def
      reads_push_lshr_def reads_push_bitmask_def reads_push_bitop_def reads_push_pair_def reads_slot_def entry_shape_def)

lemma int_valued_var: "int_valued \<nu> \<Longrightarrow> \<exists>v. var_is \<nu> x v"
  unfolding int_valued_def var_is_def by (metis Ints_cases)

lemma good_operand: "good c l \<Longrightarrow> int_valued \<nu> \<Longrightarrow> \<exists>a. operand \<nu> l a"
  using good_int by (auto simp: operand_def good_def)

text \<open>The operands and the value of a true entry.\<close>

lemma entry_values:
  assumes "entry_ok c e" "int_valued \<nu>" "entry_true z \<nu> e"
  shows "\<exists>a b v. operand \<nu> (re_fa e) a \<and> operand \<nu> (re_fb e) b \<and> var_is \<nu> (re_var e) v \<and>
    (\<forall>w. entry_val z e a b = Some w \<longrightarrow> v = w)"
proof -
  obtain a b v where o: "operand \<nu> (re_fa e) a" "operand \<nu> (re_fb e) b" "var_is \<nu> (re_var e) v"
    using good_operand int_valued_var assms(1,2) unfolding entry_ok_def by meson
  moreover have "v = w" if "entry_val z e a b = Some w" for w
    using assms(3) that o unfolding entry_true_def operand_def var_is_def by (metis of_int_eq_iff)
  ultimately show ?thesis by blast
qed

section \<open>Powers\<close>

lemma find_prod:
  "reads_find_prod_lin l form = Some q \<Longrightarrow> q \<in> set l \<and> is_prod q \<and> lin_handle_var form = Some (re_var q)"
  by (auto simp: reads_find_prod_lin_def find_Some_iff split: option.splits)

definition power_of :: "ReadEntry option \<Rightarrow> int" where
  "power_of p = (case p of None \<Rightarrow> 0 | Some q \<Rightarrow> mon_deg q)"

definition base_of :: "ReadEntry option \<Rightarrow> Lin" where
  "base_of p = (case p of None \<Rightarrow> lin_init | Some q \<Rightarrow> mon_base q)"

lemma classify_eq:
  "classify_monomial l e =
     (let pa = reads_find_prod_lin l (re_fa e); pb = reads_find_prod_lin l (re_fb e)
      in if lin_eq (re_fa e) (re_fb e) then e\<lparr>mon_deg := 2, mon_base := lin_clone (re_fa e)\<rparr>
         else if 2 \<le> power_of pa \<and> lin_eq (re_fb e) (base_of pa)
         then e\<lparr>mon_deg := power_of pa + 1, mon_base := lin_clone (re_fb e)\<rparr>
         else if 2 \<le> power_of pb \<and> lin_eq (re_fa e) (base_of pb)
         then e\<lparr>mon_deg := power_of pb + 1, mon_base := lin_clone (re_fa e)\<rparr>
         else if 2 \<le> power_of pa \<and> 2 \<le> power_of pb \<and> lin_eq (base_of pa) (base_of pb)
         then e\<lparr>mon_deg := power_of pa + power_of pb, mon_base := lin_clone (base_of pa)\<rparr>
         else e)"
  by (simp only: classify_monomial_def Let_def power_of_def base_of_def)

lemma factor_power:
  assumes m: "\<forall>q \<in> set l. mon_sem \<nu> q" and a: "operand \<nu> form a" and d: "2 \<le> power_of (reads_find_prod_lin l form)"
  shows "\<exists>b. operand \<nu> (base_of (reads_find_prod_lin l form)) b \<and> a = b ^ nat (power_of (reads_find_prod_lin l form))"
proof -
  obtain q where f: "reads_find_prod_lin l form = Some q" "2 \<le> mon_deg q"
    using d by (auto simp: power_of_def split: option.splits)
  note q = find_prod [OF f(1)]
  with m f(2) obtain b where b: "operand \<nu> (mon_base q) b" "var_is \<nu> (re_var q) (b ^ nat (mon_deg q))"
    by (force simp: mon_sem_def)
  have "lin_val \<nu> form = \<nu> (re_var q)" using handle_var_val [of form "re_var q" \<nu>] a q by (simp add: operand_def)
  with a b f(1) show ?thesis by (auto simp: operand_def var_is_def power_of_def base_of_def)
qed

lemma mon_semI:
  "operand \<nu> b c \<Longrightarrow> var_is \<nu> (re_var e) (c ^ nat n) \<Longrightarrow> mon_sem \<nu> (e\<lparr>mon_deg := n, mon_base := lin_clone b\<rparr>)"
  by (auto simp: mon_sem_def operand_def lin_ok_def lin_clone_id)

lemma classify_power:
  assumes m: "\<forall>q \<in> set l. mon_sem \<nu> q" and a: "operand \<nu> (re_fa e) a" and b: "operand \<nu> (re_fb e) b"
    and x: "var_is \<nu> (re_var e) (a * b)" and d: "mon_deg e = 0"
  shows "mon_sem \<nu> (classify_monomial l e)"
proof -
  define pa pb where "pa = reads_find_prod_lin l (re_fa e)" and "pb = reads_find_prod_lin l (re_fb e)"
  note F = factor_power [OF m a, folded pa_def] factor_power [OF m b, folded pb_def]
  have square: "mon_sem \<nu> (e\<lparr>mon_deg := 2, mon_base := lin_clone (re_fa e)\<rparr>)" if "lin_eq (re_fa e) (re_fb e)"
    using operand_eq [OF a b that] x by (intro mon_semI [OF a]) (simp add: power2_eq_square)
  have left: "mon_sem \<nu> (e\<lparr>mon_deg := power_of pa + 1, mon_base := lin_clone (re_fb e)\<rparr>)"
    if "2 \<le> power_of pa" "lin_eq (re_fb e) (base_of pa)"
  proof (rule mon_semI [OF b])
    from F(1) [OF that(1)] operand_eq [OF b _ that(2)] have "a = b ^ nat (power_of pa)" by auto
    then show "var_is \<nu> (re_var e) (b ^ nat (power_of pa + 1))" using x that(1) by (simp add: nat_add_distrib mult.commute)
  qed
  have right: "mon_sem \<nu> (e\<lparr>mon_deg := power_of pb + 1, mon_base := lin_clone (re_fa e)\<rparr>)"
    if "2 \<le> power_of pb" "lin_eq (re_fa e) (base_of pb)"
  proof (rule mon_semI [OF a])
    from F(2) [OF that(1)] operand_eq [OF a _ that(2)] have "b = a ^ nat (power_of pb)" by auto
    then show "var_is \<nu> (re_var e) (a ^ nat (power_of pb + 1))" using x that(1) by (simp add: nat_add_distrib)
  qed
  have both: "mon_sem \<nu> (e\<lparr>mon_deg := power_of pa + power_of pb, mon_base := lin_clone (base_of pa)\<rparr>)"
    if "2 \<le> power_of pa" "2 \<le> power_of pb" "lin_eq (base_of pa) (base_of pb)"
  proof -
    from F(1) [OF that(1)] F(2) [OF that(2)] obtain c d where
      c: "operand \<nu> (base_of pa) c" "a = c ^ nat (power_of pa)" and d: "operand \<nu> (base_of pb) d" "b = d ^ nat (power_of pb)"
      by blast
    have "c = d" by (rule operand_eq [OF c(1) d(1) that(3)])
    then have "a * b = c ^ nat (power_of pa + power_of pb)"
      using c(2) d(2) that(1,2) by (simp add: nat_add_distrib power_add)
    then show ?thesis using mon_semI [OF c(1)] x by simp
  qed
  have "mon_sem \<nu> e" using d by (simp add: mon_sem_def)
  then show ?thesis
    unfolding classify_eq Let_def pa_def [symmetric] pb_def [symmetric] using square left right both
    by (simp split: if_split)
qed

lemma push_defs:
  "reads_push l call v = l @ [(reads_slot v)\<lparr>re_call := Some call\<rparr>]"
  "reads_push_prod l v fa fb = l @ [classify_monomial l ((reads_slot v)\<lparr>re_fa := fa, re_fb := fb, is_prod := True\<rparr>)]"
  by (simp_all add: reads_push_def reads_push_prod_def)

lemma mon_of_true:
  assumes "reads_built l" "\<forall>e \<in> set l. entry_ok c e" "int_valued \<nu>" "all_true z \<nu> l"
  shows "\<forall>e \<in> set l. mon_sem \<nu> e"
  using assms(1,2,4)
proof (induction rule: reads_built.induct)
  case (built_prod l v fa fb)
  let ?e = "(reads_slot v)\<lparr>re_fa := fa, re_fb := fb, is_prod := True\<rparr>"
  let ?c = "classify_monomial l ?e"
  have l: "\<forall>e \<in> set l. mon_sem \<nu> e" using built_prod by (simp add: push_defs all_true_def)
  have "entry_ok c ?c" "entry_true z \<nu> ?c" using built_prod.prems by (simp_all add: push_defs all_true_def)
  from entry_values [OF this(1) assms(3) this(2)] obtain a b w where
    o: "operand \<nu> fa a" "operand \<nu> fb b" "var_is \<nu> v w" "\<forall>u. entry_val z ?c a b = Some u \<longrightarrow> w = u"
    by (auto simp: reads_slot_def)
  have "entry_val z ?c a b = Some (a * b)" by (simp add: entry_val_def reads_slot_def)
  then have "mon_sem \<nu> ?c" using o by (intro classify_power [OF l, of _ a b]) (simp_all add: reads_slot_def)
  with l show ?case by (simp add: push_defs)
qed (auto simp: reads_push_def reads_push_div_def reads_push_mod_def reads_push_shr_def reads_push_lshr_def
    reads_push_bitmask_def reads_push_bitop_def reads_push_pair_def reads_slot_def mon_sem_def all_true_def)

section \<open>The property\<close>

text \<open>
  The operands of \<open>>>>\<close> are 64-bit integers, and a remainder by zero, which no
  run computes, is read as the dividend.
\<close>

definition reads_in_range :: "(string \<Rightarrow> rat) \<Rightarrow> ReadsList \<Rightarrow> bool" where
  "reads_in_range \<nu> l \<longleftrightarrow>
     (\<forall>e \<in> set l. (is_lshr e \<longrightarrow> (\<exists>a. in_i64 a \<and> lin_val \<nu> (re_fa e) = of_int a)) \<and>
        (is_mod e \<longrightarrow> lin_val \<nu> (re_fb e) = 0 \<longrightarrow> \<nu> (re_var e) = lin_val \<nu> (re_fa e)))"

lemma const_operand: "operand \<nu> (lin_const (rat_int k)) b \<Longrightarrow> b = k \<and> lin_is_const (lin_const (rat_int k))"
  by (simp add: operand_def lin_const_def lin_init_def lin_val_def lin_is_const_def lin_simps rat_int_val)

lemma entry_sem_of_true:
  assumes b: "reads_built l" and ok: "\<forall>e \<in> set l. entry_ok c e" and iv: "int_valued \<nu>" and t: "all_true z \<nu> l"
    and r: "reads_in_range \<nu> l"
  shows "\<forall>e \<in> set l. entry_sem \<nu> e"
proof
  fix e assume e: "e \<in> set l"
  from entry_values [of c e \<nu> z] ok iv t e obtain a b v where
    o: "operand \<nu> (re_fa e) a" "operand \<nu> (re_fb e) b" "var_is \<nu> (re_var e) v"
      "\<And>w. entry_val z e a b = Some w \<Longrightarrow> v = w" by (auto simp: all_true_def)
  have sh: "entry_shape e" using built_shape [OF b] e by simp
  have zero: "is_mod e \<Longrightarrow> b = 0 \<Longrightarrow> v = a"
    using r e o(1-3) by (auto simp: reads_in_range_def operand_def var_is_def)
  have range: "is_lshr e \<Longrightarrow> in_i64 a" using r e o(1) by (auto simp: reads_in_range_def operand_def)
  have count: "lin_is_const (re_fb e) \<and> 1 \<le> b \<and> b \<le> 62" if k: "is_shr e \<or> is_lshr e"
  proof -
    obtain k where "1 \<le> k" "k \<le> 62" "re_fb e = lin_const (rat_int k)" using k entry_shapeD(1,2) [OF sh] by blast
    with const_operand [of \<nu> k b] o(2) show ?thesis by simp
  qed
  have mask: "lin_is_const (re_fb e) \<and> 0 < b" if k: "is_bitand1 e"
  proof -
    obtain k where "0 < k" "re_fb e = lin_const (rat_int k)" using entry_shapeD(3) [OF sh k] by blast
    with const_operand [of \<nu> k b] o(2) show ?thesis by simp
  qed
  note sh = sh [unfolded entry_shape_def]
  have "v = a * b" if "is_prod e" using o(4) sh that by (simp add: entry_val_def)
  moreover have "v = a sdiv b" if "is_div e" "b \<noteq> 0" using o(4) sh that by (simp add: entry_val_def zop_def)
  moreover have "v = a smod b" if "is_mod e" "b \<noteq> 0" using o(4) sh that by (simp add: entry_val_def zop_def)
  moreover have "v = a div 2 ^ nat b" if "is_shr e"
  proof (rule o(4))
    have "entry_val z e a b = zop OP_RSHIFT a b" using sh that by (simp add: entry_val_def)
    also have "\<dots> = Some (a div 2 ^ nat b)" using count that by (simp add: zop_def)
    finally show "entry_val z e a b = Some (a div 2 ^ nat b)" .
  qed
  moreover have "v = (a mod 2 ^ 64) div 2 ^ nat b" if "is_lshr e"
  proof (rule o(4))
    have "entry_val z e a b = zop OP_URSHIFT a b" using sh that by (simp add: entry_val_def)
    also have "\<dots> = Some ((a mod 2 ^ 64) div 2 ^ nat b)" using count that by (simp add: zop_def)
    finally show "entry_val z e a b = Some ((a mod 2 ^ 64) div 2 ^ nat b)" .
  qed
  moreover have bit: "\<not> is_pair e \<and> \<not> is_prod e \<and> \<not> is_div e \<and> \<not> is_mod e \<and> \<not> is_shr e \<and> \<not> is_lshr e"
    if "is_bitand1 e \<or> is_bitand e \<or> is_bitor e" using sh that by blast
  moreover have "v = a AND b" if "is_bitand1 e \<or> is_bitand e"
  proof -
    have "is_bitand1 e \<or> is_bitand e \<or> is_bitor e" using that by blast
    from bit [OF this] show ?thesis using o(4) [of "a AND b"] that by (simp add: entry_val_def)
  qed
  moreover have "v = a OR b" if "is_bitor e" "\<not> is_bitand e"
  proof -
    have "\<not> is_bitand1 e" using sh that(1) by blast
    moreover have "is_bitand1 e \<or> is_bitand e \<or> is_bitor e" using that(1) by blast
    ultimately show ?thesis using o(4) [of "a OR b"] bit that by (simp add: entry_val_def)
  qed
  ultimately have "kind_sem e a b v" using zero range count mask unfolding kind_sem_def by simp
  then show "entry_sem \<nu> e" using o(1-3) mon_of_true [OF b ok iv t] e unfolding entry_sem_def by blast
qed

text \<open>Every query on the way is answered by an elimination without overflow.\<close>

definition axioms_exact :: "ReadsList \<Rightarrow> ConsList \<Rightarrow> bool" where
  "axioms_exact l p \<longleftrightarrow>
     (let p' = inject_prod_axioms l p
      in list_all (\<lambda>n. reads_exact l (take n p')) [length p..<Suc (length p')])"


text \<open>The square of 5: four facts follow for \<open>n * n\<close>.\<close>

definition ex_reads :: ReadsList where
  "ex_reads = reads_push_prod [] ''__p0'' (lin_var ''n'') (lin_var ''n'')"


end
