(* ===== verification/CkTypes.thy ===== *)
theory CkTypes
  imports Prelude
begin

text \<open>
  Resolved types of the checker (\<open>baga.h\<close>, \<open>checker_env.c\<close>): equality, assignability
  and numeric promotion. A type node is a value; an absent pointer is \<open>None\<close>, and the
  arrays of parameters and type arguments, which never hold an absent pointer, are lists.
  The effects and their payloads, two parallel arrays in the source, are a list of pairs.
\<close>

section \<open>Types\<close>

datatype type_kind = TYPE_VOID | TYPE_BOOL | TYPE_I32 | TYPE_I64 | TYPE_F64 | TYPE_STR | TYPE_ARRAY | TYPE_REF
  | TYPE_STRUCT | TYPE_FN | TYPE_VEC | TYPE_MAP | TYPE_BYTES | TYPE_ENUM | TYPE_VAR | TYPE_ERROR

datatype cktype = Ty (t_kind: type_kind) (t_elem: "cktype option") (t_key: "cktype option")
  (t_pointee: "cktype option") (t_name: "string option") (t_ret: "cktype option") (t_params: "cktype list")
  (t_effects: "(string \<times> cktype option) list") (t_targs: "cktype list")

definition type_new :: "type_kind \<Rightarrow> cktype" where
  "type_new k = Ty k None None None None None [] [] []"

definition type_fn :: "cktype option \<Rightarrow> cktype list \<Rightarrow> cktype" where
  "type_fn ret params = Ty TYPE_FN None None None None ret params [] []"

abbreviation i64 :: cktype where "i64 \<equiv> type_new TYPE_I64"
abbreviation str :: cktype where "str \<equiv> type_new TYPE_STR"

lemma type_new_sel [simp]:
  "t_kind (type_new k) = k" "t_elem (type_new k) = None" "t_key (type_new k) = None" "t_name (type_new k) = None"
  "t_ret (type_new k) = None" "t_params (type_new k) = []" "t_effects (type_new k) = []" "t_targs (type_new k) = []"
  by (simp_all add: type_new_def)

lemma type_fn_sel [simp]:
  "t_kind (type_fn r ps) = TYPE_FN" "t_ret (type_fn r ps) = r" "t_params (type_fn r ps) = ps" "t_effects (type_fn r ps) = []"
  by (simp_all add: type_fn_def)

lemma elem_smaller: "t_elem a = Some x \<Longrightarrow> size x < size a"
  by (cases a) auto

lemma ret_smaller: "t_ret a = Some x \<Longrightarrow> size x < size a"
  by (cases a) auto

lemma key_smaller: "t_key a = Some x \<Longrightarrow> size x < size a"
  by (cases a) auto

lemma targs_smaller: "size_list size (t_targs a) < size a"
  by (cases a) auto

lemma params_smaller: "size_list size (t_params a) < size a"
  by (cases a) auto

lemma size_pos [simp]: "0 < size (a :: cktype)"
  by (cases a) auto

lemmas type_smaller = elem_smaller ret_smaller key_smaller targs_smaller params_smaller

section \<open>Equality\<close>

text \<open>Two absent names are different here.\<close>

definition same_name :: "cktype \<Rightarrow> cktype \<Rightarrow> bool" where
  "same_name a b = (case t_name a of None \<Rightarrow> False | Some x \<Rightarrow> t_name b = Some x)"

function vec_elem_eq :: "cktype \<Rightarrow> cktype \<Rightarrow> bool" where
  "vec_elem_eq a b =
     (if t_kind a \<noteq> t_kind b then False
      else case t_kind a of
        TYPE_STRUCT \<Rightarrow> same_name a b
      | TYPE_ENUM \<Rightarrow> same_name a b
      | TYPE_VEC \<Rightarrow> (case t_elem a of None \<Rightarrow> True
          | Some x \<Rightarrow> (case t_elem b of None \<Rightarrow> True | Some y \<Rightarrow> vec_elem_eq x y))
      | _ \<Rightarrow> True)"
  by pat_completeness auto
termination by (relation "measure (size \<circ> fst)") (auto dest: elem_smaller)

declare vec_elem_eq.simps [simp del]

text \<open>An unknown element, or an unknown key, agrees with every one.\<close>

definition known_elem_eq :: "cktype \<Rightarrow> cktype \<Rightarrow> bool" where
  "known_elem_eq a b = (case t_elem a of None \<Rightarrow> True
     | Some x \<Rightarrow> (case t_elem b of None \<Rightarrow> True | Some y \<Rightarrow> vec_elem_eq x y))"

definition known_key_eq :: "cktype \<Rightarrow> cktype \<Rightarrow> bool" where
  "known_key_eq a b = (case t_key a of None \<Rightarrow> True
     | Some x \<Rightarrow> (case t_key b of None \<Rightarrow> True | Some y \<Rightarrow> t_kind x = t_kind y))"

definition var_eq :: "cktype \<Rightarrow> cktype \<Rightarrow> bool" where
  "var_eq a b = (case t_name a of None \<Rightarrow> True
     | Some x \<Rightarrow> (case t_name b of None \<Rightarrow> True | Some y \<Rightarrow> x = y))"

function (sequential) type_eq :: "cktype option \<Rightarrow> cktype option \<Rightarrow> bool"
  and types_eq :: "cktype list \<Rightarrow> cktype list \<Rightarrow> bool" where
  "type_eq (Some a) (Some b) =
     (if t_kind a = TYPE_ERROR \<or> t_kind b = TYPE_ERROR then True
      else if t_kind a = TYPE_VAR \<and> t_kind b = TYPE_VAR then var_eq a b
      else if t_kind a \<noteq> t_kind b then False
      else case t_kind a of
        TYPE_STRUCT \<Rightarrow> same_name a b \<and> length (t_targs a) = length (t_targs b) \<and> types_eq (t_targs a) (t_targs b)
      | TYPE_ENUM \<Rightarrow> same_name a b
      | TYPE_VEC \<Rightarrow> known_elem_eq a b
      | TYPE_MAP \<Rightarrow> known_key_eq a b \<and> known_elem_eq a b
      | TYPE_FN \<Rightarrow> length (t_params a) = length (t_params b) \<and> types_eq (t_params a) (t_params b)
          \<and> type_eq (t_ret a) (t_ret b)
      | _ \<Rightarrow> True)"
| "type_eq a b = (a = b)"
| "types_eq (x # xs) (y # ys) = (type_eq (Some x) (Some y) \<and> types_eq xs ys)"
| "types_eq xs ys = True"
  by pat_completeness auto
termination
proof (relation "measure (case_sum (\<lambda>(a, _). case a of None \<Rightarrow> 0 | Some t \<Rightarrow> size t) (\<lambda>(xs, _). size_list size xs))")
  show "(Inl (t_ret a, t_ret b), Inl (Some a, Some b))
    \<in> measure (case_sum (\<lambda>(a, _). case a of None \<Rightarrow> 0 | Some t \<Rightarrow> size t) (\<lambda>(xs, _). size_list size xs))" for a b
    by (auto split: option.splits dest: ret_smaller)
qed (auto simp: targs_smaller params_smaller)

definition type_assignable :: "cktype option \<Rightarrow> cktype option \<Rightarrow> bool" where
  "type_assignable arg param =
     (case arg of None \<Rightarrow> True | Some a \<Rightarrow> (case param of None \<Rightarrow> True | Some p \<Rightarrow>
        if t_kind a = TYPE_ERROR \<or> t_kind p = TYPE_ERROR then True
        else if (t_kind a = TYPE_I32 \<or> t_kind a = TYPE_I64) \<and> (t_kind p = TYPE_I32 \<or> t_kind p = TYPE_I64) then True
        else type_eq (Some a) (Some p)))"

section \<open>Arithmetic\<close>

definition is_numeric :: "cktype option \<Rightarrow> bool" where
  "is_numeric t = (case t of None \<Rightarrow> False
     | Some a \<Rightarrow> t_kind a = TYPE_I32 \<or> t_kind a = TYPE_I64 \<or> t_kind a = TYPE_F64 \<or> t_kind a = TYPE_VAR)"

definition numeric_promote :: "cktype \<Rightarrow> cktype \<Rightarrow> cktype" where
  "numeric_promote a b =
     (if t_kind a = TYPE_VAR \<and> t_kind b = TYPE_VAR
      then Ty TYPE_VAR None None None (t_name a) None [] [] []
      else if t_kind a = TYPE_F64 \<or> t_kind b = TYPE_F64 then type_new TYPE_F64
      else if t_kind a = TYPE_I64 \<or> t_kind b = TYPE_I64 then type_new TYPE_I64
      else if t_kind a = TYPE_VAR \<or> t_kind b = TYPE_VAR then type_new TYPE_I64
      else type_new TYPE_I32)"

section \<open>What equality compares\<close>

text \<open>
  The part of a type that the comparison looks at: below a vector or a map only the
  kind, the name and the nesting of vectors.
\<close>

datatype skel = Kind type_kind | Named type_kind string "skel list" | VecOf skel | MapOf type_kind skel
  | FnOf "skel list" skel

function elem_skel :: "cktype \<Rightarrow> skel" where
  "elem_skel t = (case t_kind t of
       TYPE_STRUCT \<Rightarrow> Named TYPE_STRUCT (the (t_name t)) []
     | TYPE_ENUM \<Rightarrow> Named TYPE_ENUM (the (t_name t)) []
     | TYPE_VEC \<Rightarrow> (case t_elem t of None \<Rightarrow> Kind TYPE_VEC | Some x \<Rightarrow> VecOf (elem_skel x))
     | k \<Rightarrow> Kind k)"
  by pat_completeness auto
termination by (relation "measure size") (auto dest: elem_smaller)

declare elem_skel.simps [simp del]

function type_skel :: "cktype \<Rightarrow> skel" and type_skels :: "cktype list \<Rightarrow> skel list" where
  "type_skel t = (case t_kind t of
       TYPE_STRUCT \<Rightarrow> Named TYPE_STRUCT (the (t_name t)) (type_skels (t_targs t))
     | TYPE_ENUM \<Rightarrow> Named TYPE_ENUM (the (t_name t)) []
     | TYPE_VAR \<Rightarrow> Named TYPE_VAR (the (t_name t)) []
     | TYPE_VEC \<Rightarrow> VecOf (elem_skel (the (t_elem t)))
     | TYPE_MAP \<Rightarrow> MapOf (t_kind (the (t_key t))) (elem_skel (the (t_elem t)))
     | TYPE_FN \<Rightarrow> FnOf (type_skels (t_params t)) (case t_ret t of None \<Rightarrow> Kind TYPE_VOID | Some r \<Rightarrow> type_skel r)
     | k \<Rightarrow> Kind k)"
| "type_skels [] = []"
| "type_skels (x # xs) = type_skel x # type_skels xs"
  by pat_completeness auto
termination
  by (relation "measure (case_sum size (size_list size))")
     (auto simp: targs_smaller params_smaller dest: ret_smaller)

declare type_skel.simps [simp del]

text \<open>A type in which nothing is missing: names, elements, keys and results are there.\<close>

function complete :: "cktype \<Rightarrow> bool" and completes :: "cktype list \<Rightarrow> bool" where
  "complete t = (case t_kind t of
       TYPE_ERROR \<Rightarrow> False
     | TYPE_STRUCT \<Rightarrow> t_name t \<noteq> None \<and> completes (t_targs t)
     | TYPE_ENUM \<Rightarrow> t_name t \<noteq> None
     | TYPE_VAR \<Rightarrow> t_name t \<noteq> None
     | TYPE_VEC \<Rightarrow> (case t_elem t of None \<Rightarrow> False | Some x \<Rightarrow> complete x)
     | TYPE_MAP \<Rightarrow> t_key t \<noteq> None \<and> (case t_elem t of None \<Rightarrow> False | Some x \<Rightarrow> complete x)
     | TYPE_FN \<Rightarrow> completes (t_params t) \<and> (case t_ret t of None \<Rightarrow> False | Some r \<Rightarrow> complete r)
     | _ \<Rightarrow> True)"
| "completes [] = True"
| "completes (x # xs) = (complete x \<and> completes xs)"
  by pat_completeness auto
termination
  by (relation "measure (case_sum size (size_list size))")
     (auto simp: targs_smaller params_smaller dest: ret_smaller elem_smaller)

declare complete.simps [simp del]

lemma vec_elem_eq_skel: "complete a \<Longrightarrow> complete b \<Longrightarrow> vec_elem_eq a b \<longleftrightarrow> elem_skel a = elem_skel b"
proof (induction a b rule: vec_elem_eq.induct)
  case (1 a b)
  then show ?case
    by (auto simp: vec_elem_eq.simps [of a b] elem_skel.simps [of a] elem_skel.simps [of b] same_name_def
        complete.simps [of a] complete.simps [of b] split: type_kind.splits option.splits)
qed

lemma known_elem_eq_skel:
  "t_elem a = Some x \<Longrightarrow> t_elem b = Some y \<Longrightarrow> complete x \<Longrightarrow> complete y \<Longrightarrow>
   known_elem_eq a b \<longleftrightarrow> elem_skel x = elem_skel y"
  by (simp add: known_elem_eq_def vec_elem_eq_skel)

lemma length_skels [simp]: "length (type_skels xs) = length xs"
  by (induction xs) auto

lemma skels_length: "type_skels xs = type_skels ys \<Longrightarrow> length xs = length ys"
  by (metis length_skels)

lemma type_eq_skel_gen:
  "(case a of None \<Rightarrow> True | Some x \<Rightarrow> case b of None \<Rightarrow> True | Some y \<Rightarrow>
      complete x \<longrightarrow> complete y \<longrightarrow> type_eq (Some x) (Some y) \<longleftrightarrow> type_skel x = type_skel y)"
  "completes xs \<Longrightarrow> completes ys \<Longrightarrow> length xs = length ys \<Longrightarrow> types_eq xs ys \<longleftrightarrow> type_skels xs = type_skels ys"
proof (induction a b and xs ys rule: type_eq_types_eq.induct)
  case (1 a b)
  show ?case
  proof (simp only: option.case, intro impI)
    assume c: "complete a" "complete b"
    then have ne: "t_kind a \<noteq> TYPE_ERROR" "t_kind b \<noteq> TYPE_ERROR"
      by (auto simp: complete.simps [of a] complete.simps [of b])
    show "type_eq (Some a) (Some b) \<longleftrightarrow> type_skel a = type_skel b"
    proof (cases "t_kind a = t_kind b")
      case False
      then show ?thesis using ne
        by (auto simp: type_skel.simps [of a] type_skel.simps [of b] split: type_kind.splits)
    next
      case True
      show ?thesis
      proof (cases "t_kind a = TYPE_STRUCT \<or> t_kind a = TYPE_FN")
        case False
        then show ?thesis using True ne c
          by (auto simp: type_skel.simps [of a] type_skel.simps [of b] complete.simps [of a] complete.simps [of b]
              same_name_def var_eq_def known_key_eq_def known_elem_eq_skel split: type_kind.splits option.splits)
      next
        case comp: True
        from comp show ?thesis
        proof
          assume k: "t_kind a = TYPE_STRUCT"
          with True c show ?thesis using 1(1)
            by (auto simp: type_skel.simps [of a] type_skel.simps [of b] complete.simps [of a] complete.simps [of b]
                same_name_def split: option.splits dest: skels_length)
        next
          assume k: "t_kind a = TYPE_FN"
          with True c show ?thesis using 1(2,3)
            by (auto simp: type_skel.simps [of a] type_skel.simps [of b] complete.simps [of a] complete.simps [of b]
                split: option.splits dest: skels_length)
        qed
      qed
    qed
  qed
qed (auto split: option.splits)

lemma type_eq_skel: "complete a \<Longrightarrow> complete b \<Longrightarrow> type_eq (Some a) (Some b) \<longleftrightarrow> type_skel a = type_skel b"
  using type_eq_skel_gen(1) [where a = "Some a" and b = "Some b"] by (simp del: type_eq.simps)

text \<open>The two integer types are one for an argument.\<close>

definition widen :: "cktype \<Rightarrow> cktype" where
  "widen t = (if t_kind t = TYPE_I32 then type_new TYPE_I64 else t)"

lemma skel_widen: "type_skel (widen t) = (if t_kind t = TYPE_I32 then Kind TYPE_I64 else type_skel t)"
  by (simp add: widen_def type_skel.simps)

lemma skel_i64_iff: "type_skel t = Kind TYPE_I64 \<longleftrightarrow> t_kind t = TYPE_I64"
  by (simp add: type_skel.simps [of t] split: type_kind.splits)

lemma type_assignable_skel:
  assumes "complete a" "complete b"
  shows "type_assignable (Some a) (Some b) \<longleftrightarrow> type_skel (widen a) = type_skel (widen b)"
proof -
  have ne: "t_kind a \<noteq> TYPE_ERROR" "t_kind b \<noteq> TYPE_ERROR"
    using assms by (auto simp: complete.simps [of a] complete.simps [of b])
  consider "t_kind a = TYPE_I32" | "t_kind b = TYPE_I32" "t_kind a \<noteq> TYPE_I32" | "t_kind a \<noteq> TYPE_I32" "t_kind b \<noteq> TYPE_I32" by blast
  then show ?thesis
  proof cases
    case 1
    have "type_skel b = Kind TYPE_I32 \<longleftrightarrow> t_kind b = TYPE_I32" by (simp add: type_skel.simps [of b] split: type_kind.splits)
    with 1 show ?thesis using ne assms skel_i64_iff [of b] by (auto simp: type_assignable_def skel_widen)
  next
    case 2
    then show ?thesis using ne assms skel_i64_iff [of a] by (auto simp: type_assignable_def skel_widen)
  next
    case 3
    then show ?thesis using ne assms skel_i64_iff [of a] skel_i64_iff [of b]
      by (auto simp: type_assignable_def skel_widen type_eq_skel simp del: type_eq.simps)
  qed
qed

end
