(* ===== verification/CkEffects.thy ===== *)
theory CkEffects
  imports CkTypes
begin

text \<open>
  Effects (\<open>checker_env.c\<close>, \<open>checker_infer.c\<close>, \<open>checker_expr.c\<close>, \<open>checker_fn.c\<close>): the
  effect rows that types carry, and what the checker does with them at calls, raise,
  catch, the postfix question mark, interpolation, lambdas and the end of a function.
\<close>

section \<open>Effect rows\<close>

definition set_effects :: "(string \<times> cktype option) list \<Rightarrow> cktype \<Rightarrow> cktype" where
  "set_effects es t = Ty (t_kind t) (t_elem t) (t_key t) (t_pointee t) (t_name t) (t_ret t) (t_params t) es (t_targs t)"

lemma set_effects_sel [simp]:
  "t_effects (set_effects es t) = es" "t_kind (set_effects es t) = t_kind t" "t_elem (set_effects es t) = t_elem t"
  "t_key (set_effects es t) = t_key t" "t_name (set_effects es t) = t_name t" "t_ret (set_effects es t) = t_ret t"
  "t_params (set_effects es t) = t_params t" "t_targs (set_effects es t) = t_targs t"
  by (simp_all add: set_effects_def)

definition has_effect :: "cktype \<Rightarrow> string \<Rightarrow> bool" where
  "has_effect t e = list_ex (\<lambda>(x, _). x = e) (t_effects t)"

definition type_has_effect :: "cktype option \<Rightarrow> string \<Rightarrow> bool" where
  "type_has_effect t e = (case t of None \<Rightarrow> False | Some a \<Rightarrow> has_effect a e)"

fun first_payload :: "(string \<times> cktype option) list \<Rightarrow> string \<Rightarrow> cktype option" where
  "first_payload [] e = None"
| "first_payload ((x, pl) # es) e = (if x = e then pl else first_payload es e)"

definition type_effect_payload :: "cktype option \<Rightarrow> string \<Rightarrow> cktype option" where
  "type_effect_payload t e = (case t of None \<Rightarrow> None | Some a \<Rightarrow> first_payload (t_effects a) e)"

definition type_add_effect :: "string \<Rightarrow> cktype \<Rightarrow> cktype" where
  "type_add_effect e t = (if has_effect t e then t else set_effects (t_effects t @ [(e, None)]) t)"

fun remove_first :: "string \<Rightarrow> (string \<times> cktype option) list \<Rightarrow> (string \<times> cktype option) list" where
  "remove_first e [] = []"
| "remove_first e ((x, pl) # es) = (if x = e then es else (x, pl) # remove_first e es)"

definition type_remove_effect :: "string \<Rightarrow> cktype \<Rightarrow> cktype" where
  "type_remove_effect e t = set_effects (remove_first e (t_effects t)) t"

text \<open>The loop that overwrites the payload of every entry of that name.\<close>

definition set_payload :: "string \<Rightarrow> cktype option \<Rightarrow> cktype \<Rightarrow> cktype" where
  "set_payload e pl t = set_effects (map (\<lambda>(x, q). if x = e then (x, pl) else (x, q)) (t_effects t)) t"

definition merge_effect :: "string \<times> cktype option \<Rightarrow> cktype \<Rightarrow> cktype" where
  "merge_effect en dst =
     (let (e, pl) = en
      in if has_effect dst e
         then (if first_payload (t_effects dst) e = None \<and> pl \<noteq> None then set_payload e pl dst else dst)
         else (let d = type_add_effect e dst
               in set_effects ((t_effects d)[length (t_effects d) - 1 := (e, pl)]) d))"

definition type_merge_effects :: "cktype \<Rightarrow> cktype \<Rightarrow> cktype" where
  "type_merge_effects dst src = fold merge_effect (t_effects src) dst"

definition fn_effects_subset :: "cktype option \<Rightarrow> cktype option \<Rightarrow> bool" where
  "fn_effects_subset val annot =
     (let ve = (case val of Some v \<Rightarrow> if t_kind v = TYPE_FN then t_ret v else None | None \<Rightarrow> None);
          ae = (case annot of Some a \<Rightarrow> if t_kind a = TYPE_FN then t_ret a else None | None \<Rightarrow> None)
      in case ve of None \<Rightarrow> True
         | Some r \<Rightarrow> list_all (\<lambda>(e, _). case ae of None \<Rightarrow> False | Some _ \<Rightarrow> type_has_effect ae e) (t_effects r))"

section \<open>The result types of calls and handlers\<close>

text \<open>The fields that are copied; the key of a map is not among them.\<close>

definition call_result :: "cktype \<Rightarrow> cktype" where
  "call_result ret = type_merge_effects
     (Ty (t_kind ret) (t_elem ret) None None (t_name ret) (t_ret ret) (t_params ret) [] (t_targs ret)) ret"

definition try_result :: "cktype \<Rightarrow> cktype" where
  "try_result et = type_merge_effects (Ty (t_kind et) (t_elem et) None None (t_name et) None [] [] []) et"

definition catch_copy :: "string \<Rightarrow> string \<times> cktype option \<Rightarrow> cktype \<Rightarrow> cktype" where
  "catch_copy caught en t = (let (e, pl) = en in if e = caught then t else set_payload e pl (type_add_effect e t))"

definition catch_result :: "string \<Rightarrow> cktype \<Rightarrow> cktype" where
  "catch_result caught et =
     fold (catch_copy caught) (t_effects et) (Ty (t_kind et) (t_elem et) None None (t_name et) None [] [] [])"

section \<open>Inference of effects\<close>

datatype eff_error = BadPayload | NotDeclared string | NeedsPayload string | NoPayload string | PayloadMismatch string
  | DeadCatch string | NeedsBinding string | ExcessBinding string | BadInterpolation | ArmMismatch
  | Unhandled string | PayloadUndeclared string | BodyPayloadMismatch string

record eff_ctx =
  ec_ret :: "cktype option"
  ec_acc :: "cktype option"
  ec_errs :: "eff_error list"

definition note_if :: "bool \<Rightarrow> eff_error \<Rightarrow> eff_ctx \<Rightarrow> eff_ctx" where
  "note_if b e c = (if b then c\<lparr>ec_errs := ec_errs c @ [e]\<rparr> else c)"

definition acc_upd :: "(cktype \<Rightarrow> cktype) \<Rightarrow> eff_ctx \<Rightarrow> eff_ctx" where
  "acc_upd f c = c\<lparr>ec_acc := map_option f (ec_acc c)\<rparr>"

definition infer_raise :: "string \<Rightarrow> cktype option \<Rightarrow> eff_ctx \<Rightarrow> cktype \<times> eff_ctx" where
  "infer_raise e pl c0 =
     (let c1 = (case pl of None \<Rightarrow> c0
           | Some p \<Rightarrow> note_if (t_kind p \<notin> {TYPE_I64, TYPE_STR, TYPE_BYTES, TYPE_BOOL, TYPE_F64}) BadPayload c0);
          decl = type_effect_payload (ec_ret c1) e;
          c2 = note_if (ec_ret c1 \<noteq> None \<and> \<not> type_has_effect (ec_ret c1) e) (NotDeclared e) c1;
          c3 = note_if (decl \<noteq> None \<and> pl = None) (NeedsPayload e) c2;
          c4 = note_if (decl = None \<and> pl \<noteq> None) (NoPayload e) c3;
          c5 = note_if (decl \<noteq> None \<and> pl \<noteq> None \<and> \<not> type_eq decl pl) (PayloadMismatch e) c4
      in (type_new TYPE_ERROR, acc_upd (\<lambda>a. set_payload e decl (type_add_effect e a)) c5))"

definition infer_call_effects :: "cktype \<Rightarrow> eff_ctx \<Rightarrow> cktype \<times> eff_ctx" where
  "infer_call_effects ret c = (call_result ret, acc_upd (\<lambda>a. type_merge_effects a ret) c)"

definition infer_try :: "cktype \<Rightarrow> eff_ctx \<Rightarrow> cktype \<times> eff_ctx" where
  "infer_try et c = (try_result et, acc_upd (\<lambda>a. type_merge_effects a et) c)"

definition infer_to_str :: "cktype \<Rightarrow> eff_ctx \<Rightarrow> cktype \<times> eff_ctx" where
  "infer_to_str et c0 =
     (let c1 = note_if (t_kind et \<notin> {TYPE_STR, TYPE_I64, TYPE_I32, TYPE_F64, TYPE_BOOL, TYPE_ERROR}) BadInterpolation c0
      in (type_merge_effects (type_new TYPE_STR) et, acc_upd (\<lambda>a. type_merge_effects a et) c1))"

text \<open>What a catch tests between the guarded expression and the handler, and what it does after both.\<close>

definition catch_tests :: "string \<Rightarrow> string option \<Rightarrow> cktype \<Rightarrow> eff_ctx \<Rightarrow> eff_ctx" where
  "catch_tests e binding et c0 =
     (let c1 = note_if (t_kind et \<noteq> TYPE_ERROR \<and> \<not> has_effect et e) (DeadCatch e) c0;
          pl = type_effect_payload (Some et) e;
          c2 = note_if (pl \<noteq> None \<and> binding = None) (NeedsBinding e) c1
      in note_if (pl = None \<and> binding \<noteq> None) (ExcessBinding e) c2)"

definition infer_catch :: "string \<Rightarrow> cktype \<Rightarrow> eff_ctx \<Rightarrow> cktype \<times> eff_ctx" where
  "infer_catch e et c = (catch_result e et, acc_upd (type_remove_effect e) c)"

text \<open>
  The expressions in which effects matter. \<open>E_PURE\<close> is any other expression without
  parts, with its type; \<open>E_CALL\<close> has the arguments and the declared result type of the
  function; the last part of a block gives its type. While an arm of a match is inferred
  the declared result type of the function is set aside.
\<close>

datatype enode = E_PURE cktype | E_CALL "enode list" cktype | E_RAISE string "enode option"
  | E_CATCH enode string "string option" enode | E_TRY enode | E_TO_STR enode | E_BLOCK "enode list"
  | E_LAMBDA "cktype list" cktype "enode list" | E_MATCH enode "enode list"

fun infer :: "enode \<Rightarrow> eff_ctx \<Rightarrow> cktype \<times> eff_ctx" and infer_all :: "enode list \<Rightarrow> cktype \<Rightarrow> eff_ctx \<Rightarrow> cktype \<times> eff_ctx"
  and infer_arms :: "enode list \<Rightarrow> cktype option \<Rightarrow> eff_ctx \<Rightarrow> cktype option \<times> eff_ctx" where
  "infer (E_PURE t) c = (t, c)"
| "infer (E_CALL args ret) c = (let (_, c1) = infer_all args (type_new TYPE_VOID) c in infer_call_effects ret c1)"
| "infer (E_RAISE e None) c = infer_raise e None c"
| "infer (E_RAISE e (Some p)) c = (let (t, c1) = infer p c in infer_raise e (Some t) c1)"
| "infer (E_CATCH g e b h) c =
     (let (et, c1) = infer g c; (_, c2) = infer h (catch_tests e b et c1) in infer_catch e et c2)"
| "infer (E_TRY g) c = (let (et, c1) = infer g c in infer_try et c1)"
| "infer (E_TO_STR g) c = (let (et, c1) = infer g c in infer_to_str et c1)"
| "infer (E_BLOCK ss) c = infer_all ss (type_new TYPE_VOID) c"
| "infer (E_LAMBDA params ret ss) c =
     (let (_, c1) = infer_all ss (type_new TYPE_VOID) (c\<lparr>ec_ret := Some ret, ec_acc := Some (type_new TYPE_VOID)\<rparr>);
          r = (case ec_acc c1 of None \<Rightarrow> ret | Some a \<Rightarrow> type_merge_effects ret a)
      in (type_fn (Some r) params, c1\<lparr>ec_ret := ec_ret c, ec_acc := ec_acc c\<rparr>))"
| "infer (E_MATCH g arms) c =
     (let (_, c1) = infer g c; (t, c2) = infer_arms arms None c1
      in (case t of None \<Rightarrow> type_new TYPE_VOID | Some bt \<Rightarrow> bt, c2))"
| "infer_all [] t c = (t, c)"
| "infer_all (s # ss) t c = (let (t1, c1) = infer s c in infer_all ss t1 c1)"
| "infer_arms [] t c = (t, c)"
| "infer_arms (a # as) t c =
     (let (bt, c1) = infer a (c\<lparr>ec_ret := None\<rparr>); c2 = c1\<lparr>ec_ret := ec_ret c\<rparr>
      in case t of None \<Rightarrow> infer_arms as (Some bt) c2
         | Some t0 \<Rightarrow> infer_arms as t (note_if (\<not> type_eq (Some bt) (Some t0)) ArmMismatch c2))"

text \<open>The comparison of the accumulated effects with the declared ones at the end of a function.\<close>

definition check_declared :: "cktype \<Rightarrow> string \<times> cktype option \<Rightarrow> eff_ctx \<Rightarrow> eff_ctx" where
  "check_declared ret en c =
     (let (e, bp) = en; dp = type_effect_payload (Some ret) e
      in if \<not> type_has_effect (Some ret) e then note_if True (Unhandled e) c
         else if bp \<noteq> None \<and> dp = None then note_if True (PayloadUndeclared e) c
         else note_if (bp \<noteq> None \<and> dp \<noteq> None \<and> \<not> type_eq bp dp) (BodyPayloadMismatch e) c)"

definition check_fn_effects :: "cktype \<Rightarrow> enode list \<Rightarrow> eff_ctx \<Rightarrow> eff_ctx" where
  "check_fn_effects ret body c =
     (let (_, c1) = infer_all body (type_new TYPE_VOID) (c\<lparr>ec_ret := Some ret, ec_acc := Some (type_new TYPE_VOID)\<rparr>);
          c2 = (case ec_acc c1 of None \<Rightarrow> c1 | Some a \<Rightarrow> fold (check_declared ret) (t_effects a) c1)
      in c2\<lparr>ec_ret := ec_ret c, ec_acc := ec_acc c\<rparr>)"

end
