(* ===== verification/CkEffSound.thy ===== *)
theory CkEffSound
  imports CkEffects
begin

text \<open>
  Effect rows as finite maps, and the runs of an expression: which effect, if any, ends
  it. The effects that may leave an expression are computed by \<open>escapes\<close>.
\<close>

section \<open>Rows as maps\<close>

definition row :: "cktype \<Rightarrow> string \<rightharpoonup> cktype option" where
  "row t = map_of (t_effects t)"

definition row_ok :: "cktype \<Rightarrow> bool" where
  "row_ok t \<longleftrightarrow> distinct (map fst (t_effects t))"

text \<open>The payload of the left row stays, unless it has none.\<close>

definition join_rows :: "(string \<rightharpoonup> 'p option) \<Rightarrow> (string \<rightharpoonup> 'p option) \<Rightarrow> (string \<rightharpoonup> 'p option)" where
  "join_rows f g e = (case f e of None \<Rightarrow> g e | Some None \<Rightarrow> Some (case g e of None \<Rightarrow> None | Some q \<Rightarrow> q)
     | Some (Some p) \<Rightarrow> Some (Some p))"

lemma dom_join_rows [simp]: "dom (join_rows f g) = dom f \<union> dom g"
  by (auto simp: join_rows_def split: option.splits)

locale effect_row =
  fixes lookup_of :: "'t \<Rightarrow> string \<rightharpoonup> 'p option"
    and good :: "'t \<Rightarrow> bool"
    and add :: "string \<Rightarrow> 't \<Rightarrow> 't"
    and remove :: "string \<Rightarrow> 't \<Rightarrow> 't"
    and merge :: "'t \<Rightarrow> 't \<Rightarrow> 't"
  assumes add_row: "lookup_of (add e t) = (if e \<in> dom (lookup_of t) then lookup_of t else (lookup_of t)(e \<mapsto> None))"
    and remove_row: "good t \<Longrightarrow> lookup_of (remove e t) = (lookup_of t)(e := None)"
    and merge_row: "good s \<Longrightarrow> lookup_of (merge t s) = join_rows (lookup_of t) (lookup_of s)"
    and good_add: "good t \<Longrightarrow> good (add e t)"
    and good_remove: "good t \<Longrightarrow> good (remove e t)"
    and good_merge: "good t \<Longrightarrow> good (merge t s)"
begin

lemma merge_twice: "good s \<Longrightarrow> lookup_of (merge (merge t s) s) = lookup_of (merge t s)"
  by (auto simp: merge_row join_rows_def split: option.splits intro!: ext)

lemma merge_assoc:
  "good s \<Longrightarrow> good u \<Longrightarrow> lookup_of (merge (merge t s) u) = lookup_of (merge t (merge s u))"
  by (auto simp: merge_row good_merge join_rows_def fun_eq_iff split: option.splits)

lemma merge_removed:
  "good t \<Longrightarrow> good s \<Longrightarrow>
   dom (lookup_of (remove e (merge t s))) = dom (lookup_of t) \<union> dom (lookup_of s) - {e}"
  by (auto simp: merge_row remove_row good_merge)

lemma merge_all:
  "\<forall>s \<in> set ss. good s \<Longrightarrow> dom (lookup_of (fold (\<lambda>s t. merge t s) ss t)) = dom (lookup_of t) \<union> (\<Union>s \<in> set ss. dom (lookup_of s))"
  by (induction ss arbitrary: t) (auto simp: merge_row)

end

lemma has_effect_row: "has_effect t e \<longleftrightarrow> e \<in> dom (row t)"
  by (force simp: has_effect_def row_def list_ex_iff dom_map_of_conv_image_fst)

lemma first_payload_map: "first_payload es e = (case map_of es e of None \<Rightarrow> None | Some pl \<Rightarrow> pl)"
  by (induction es e rule: first_payload.induct) auto

lemma payload_row: "type_effect_payload (Some t) e = (case row t e of None \<Rightarrow> None | Some pl \<Rightarrow> pl)"
  by (simp add: type_effect_payload_def row_def first_payload_map)

lemma map_of_append_new: "map_of (es @ [(e, v)]) = (if e \<in> dom (map_of es) then map_of es else (map_of es)(e \<mapsto> v))"
  by (auto simp: map_add_def fun_eq_iff split: option.splits)

lemma add_effect_row: "row (type_add_effect e t) = (if e \<in> dom (row t) then row t else (row t)(e \<mapsto> None))"
  by (simp add: type_add_effect_def has_effect_row) (simp add: row_def map_of_append_new del: map_of_append)

lemma map_of_remove_first: "distinct (map fst es) \<Longrightarrow> map_of (remove_first e es) = (map_of es)(e := None)"
proof (induction es)
  case (Cons x es)
  then have "map_of es (fst x) = None" by (simp add: map_of_eq_None_iff)
  with Cons show ?case by (cases x) (auto simp: fun_eq_iff)
qed auto

lemma set_remove_first: "set (map fst (remove_first e es)) \<subseteq> set (map fst es)"
  by (induction e es rule: remove_first.induct) auto

lemma distinct_remove_first: "distinct (map fst es) \<Longrightarrow> distinct (map fst (remove_first e es))"
proof (induction es)
  case (Cons x es)
  then show ?case using set_remove_first [of e es] by (cases x) auto
qed auto

lemma map_of_set_payload:
  "map_of (map (\<lambda>(x, q). if x = e then (x, pl) else (x, q)) es) =
   (if e \<in> dom (map_of es) then (map_of es)(e \<mapsto> pl) else map_of es)"
  by (induction es) (auto simp: fun_eq_iff)

lemma set_payload_row: "row (set_payload e pl t) = (if e \<in> dom (row t) then (row t)(e \<mapsto> pl) else row t)"
  unfolding row_def set_payload_def by (simp add: map_of_set_payload)

lemma merge_effect_row:
  "row (merge_effect (e, pl) t) = join_rows (row t) [e \<mapsto> pl]"
proof (cases "e \<in> dom (row t)")
  case True
  then obtain q where q: "row t e = Some q" by blast
  then have "first_payload (t_effects t) e = q" by (simp add: first_payload_map row_def)
  then show ?thesis using q
    by (auto simp: merge_effect_def has_effect_row set_payload_row join_rows_def fun_eq_iff split: option.splits)
next
  case False
  then have "t_effects (type_add_effect e t) = t_effects t @ [(e, None)]" by (simp add: type_add_effect_def has_effect_row)
  then have "row (merge_effect (e, pl) t) = map_of (t_effects t @ [(e, pl)])"
    using False by (simp add: merge_effect_def has_effect_row Let_def row_def)
  then show ?thesis using False
    by (auto simp: map_of_append_new row_def join_rows_def fun_eq_iff simp del: map_of_append split: option.splits)
qed

lemma join_rows_assoc: "join_rows (join_rows f g) h = join_rows f (join_rows g h)"
  by (auto simp: join_rows_def fun_eq_iff split: option.splits)

lemma join_rows_cons: "e \<notin> dom (map_of es) \<Longrightarrow> join_rows [e \<mapsto> pl] (map_of es) = map_of ((e, pl) # es)"
  by (auto simp: join_rows_def fun_eq_iff domIff split: option.splits)

lemma fold_merge_row:
  "distinct (map fst es) \<Longrightarrow> row (fold merge_effect es t) = join_rows (row t) (map_of es)"
proof (induction es arbitrary: t)
  case (Cons x es)
  obtain e pl where x: "x = (e, pl)" by fastforce
  with Cons.prems have e: "e \<notin> dom (map_of es)" "distinct (map fst es)" by (simp_all add: dom_map_of_conv_image_fst)
  have "row (fold merge_effect (x # es) t) = join_rows (join_rows (row t) [e \<mapsto> pl]) (map_of es)"
    using Cons.IH [OF e(2)] by (simp add: x merge_effect_row)
  also have "\<dots> = join_rows (row t) (map_of (x # es))"
    unfolding join_rows_assoc x join_rows_cons [OF e(1)] ..
  finally show ?case .
qed (simp add: join_rows_def fun_eq_iff split: option.splits)

lemma names_merge_effect: "map fst (t_effects (merge_effect (e, pl) t)) = (if e \<in> dom (row t) then map fst (t_effects t) else map fst (t_effects t) @ [e])"
proof -
  have "map fst (t_effects (set_payload e pl t)) = map fst (t_effects t)" by (auto simp: set_payload_def)
  then show ?thesis by (simp add: merge_effect_def has_effect_row type_add_effect_def)
qed

lemma row_ok_merge_effect: "row_ok t \<Longrightarrow> row_ok (merge_effect en t)"
  by (cases en) (auto simp: row_ok_def names_merge_effect row_def dom_map_of_conv_image_fst)

lemma row_ok_merge: "row_ok t \<Longrightarrow> row_ok (type_merge_effects t s)"
proof -
  have "row_ok t \<Longrightarrow> row_ok (fold merge_effect es t)" for es
    by (induction es arbitrary: t) (simp_all add: row_ok_merge_effect)
  then show "row_ok t \<Longrightarrow> row_ok (type_merge_effects t s)" by (simp add: type_merge_effects_def)
qed

interpretation er: effect_row row row_ok type_add_effect type_remove_effect type_merge_effects
proof
  show "row (type_add_effect e t) = (if e \<in> dom (row t) then row t else (row t)(e \<mapsto> None))" for e t
    by (rule add_effect_row)
  show "row (type_remove_effect e t) = (row t)(e := None)" if "row_ok t" for e t
    using that by (simp add: row_def row_ok_def type_remove_effect_def map_of_remove_first)
  show "row (type_merge_effects t s) = join_rows (row t) (row s)" if "row_ok s" for t s
    using that by (simp add: type_merge_effects_def row_ok_def fold_merge_row) (simp add: row_def)
  show "row_ok (type_add_effect e t)" if "row_ok t" for e t
    using that by (auto simp: row_ok_def type_add_effect_def has_effect_row row_def dom_map_of_conv_image_fst)
  show "row_ok (type_remove_effect e t)" if "row_ok t" for e t
    using that by (simp add: row_ok_def type_remove_effect_def distinct_remove_first)
  show "row_ok (type_merge_effects t s)" if "row_ok t" for t s
    using that by (rule row_ok_merge)
qed

section \<open>Names of a row, without the invariant\<close>

definition names :: "cktype \<Rightarrow> string set" where
  "names t = fst ` set (t_effects t)"

lemma names_row: "names t = dom (row t)"
  by (simp add: names_def row_def dom_map_of_conv_image_fst)

lemma has_effect_names: "has_effect t e \<longleftrightarrow> e \<in> names t"
  by (simp add: has_effect_row names_row)

lemma names_merge_one [simp]: "names (merge_effect en t) = insert (fst en) (names t)"
  by (cases en) (auto simp: names_row merge_effect_row)

lemma names_merge [simp]: "names (type_merge_effects t s) = names t \<union> names s"
proof -
  have "names (fold merge_effect es t) = names t \<union> fst ` set es" for es
    by (induction es arbitrary: t) auto
  then show ?thesis by (simp add: type_merge_effects_def names_def)
qed

lemma names_add [simp]: "names (type_add_effect e t) = insert e (names t)"
  by (auto simp: names_row add_effect_row)

lemma names_set_payload [simp]: "names (set_payload e pl t) = names t"
  by (auto simp: names_row set_payload_row)

lemma names_remove: "names t - {e} \<subseteq> names (type_remove_effect e t)"
proof -
  have "fst ` set es - {e} \<subseteq> fst ` set (remove_first e es)" for es
    by (induction e es rule: remove_first.induct) auto
  then show ?thesis by (simp add: names_def type_remove_effect_def)
qed

lemma names_new [simp]: "names (type_new k) = {}"
  by (simp add: names_def)

section \<open>Runs\<close>

text \<open>A run ends with no effect or with one; a call may end with any effect of its result type.\<close>

inductive outcome :: "enode \<Rightarrow> string option \<Rightarrow> bool" and outcomes :: "enode list \<Rightarrow> string option \<Rightarrow> bool" where
  pure: "outcome (E_PURE t) None"
| call_arg: "outcomes args (Some x) \<Longrightarrow> outcome (E_CALL args ret) (Some x)"
| call_ok: "outcomes args None \<Longrightarrow> outcome (E_CALL args ret) None"
| call_ends: "outcomes args None \<Longrightarrow> has_effect ret e \<Longrightarrow> outcome (E_CALL args ret) (Some e)"
| raises: "outcome (E_RAISE e None) (Some e)"
| raises_pl: "outcome p None \<Longrightarrow> outcome (E_RAISE e (Some p)) (Some e)"
| raise_pl: "outcome p (Some x) \<Longrightarrow> outcome (E_RAISE e (Some p)) (Some x)"
| catch_ok: "outcome g None \<Longrightarrow> outcome (E_CATCH g e b h) None"
| catch_other: "outcome g (Some x) \<Longrightarrow> x \<noteq> e \<Longrightarrow> outcome (E_CATCH g e b h) (Some x)"
| catch_handled: "outcome g (Some e) \<Longrightarrow> outcome h r \<Longrightarrow> outcome (E_CATCH g e b h) r"
| tries: "outcome g r \<Longrightarrow> outcome (E_TRY g) r"
| to_str: "outcome g r \<Longrightarrow> outcome (E_TO_STR g) r"
| block: "outcomes ss r \<Longrightarrow> outcome (E_BLOCK ss) r"
| lambda: "outcome (E_LAMBDA ps ret ss) None"
| match_head: "outcome g (Some x) \<Longrightarrow> outcome (E_MATCH g arms) (Some x)"
| match_arm: "outcome g None \<Longrightarrow> a \<in> set arms \<Longrightarrow> outcome a r \<Longrightarrow> outcome (E_MATCH g arms) r"
| none: "outcomes [] None"
| first: "outcome s (Some x) \<Longrightarrow> outcomes (s # ss) (Some x)"
| rest: "outcome s None \<Longrightarrow> outcomes ss r \<Longrightarrow> outcomes (s # ss) r"

fun escapes :: "enode \<Rightarrow> string set" and all_escapes :: "enode list \<Rightarrow> string set" where
  "escapes (E_PURE t) = {}"
| "escapes (E_CALL args ret) = all_escapes args \<union> names ret"
| "escapes (E_RAISE e None) = {e}"
| "escapes (E_RAISE e (Some p)) = insert e (escapes p)"
| "escapes (E_CATCH g e b h) = (escapes g - {e}) \<union> escapes h"
| "escapes (E_TRY g) = escapes g"
| "escapes (E_TO_STR g) = escapes g"
| "escapes (E_BLOCK ss) = all_escapes ss"
| "escapes (E_LAMBDA ps ret ss) = {}"
| "escapes (E_MATCH g arms) = escapes g \<union> all_escapes arms"
| "all_escapes [] = {}"
| "all_escapes (s # ss) = escapes s \<union> all_escapes ss"

lemma all_escapes_Union: "all_escapes ss = (\<Union>s \<in> set ss. escapes s)"
  by (induction ss) auto

lemma outcome_escapes:
  "outcome g r \<Longrightarrow> (case r of None \<Rightarrow> True | Some x \<Rightarrow> x \<in> escapes g)"
  "outcomes ss r \<Longrightarrow> (case r of None \<Rightarrow> True | Some x \<Rightarrow> x \<in> all_escapes ss)"
  by (induction rule: outcome_outcomes.inducts) (auto simp: has_effect_names all_escapes_Union split: option.splits)

section \<open>Catches that cannot hide an effect\<close>

text \<open>
  \<open>P\<close> holds the effects that have already left: a catch is clean when the effect it
  names is not among them and does not leave its handler.
\<close>

fun clean :: "string set \<Rightarrow> enode \<Rightarrow> bool" and clean_all :: "string set \<Rightarrow> enode list \<Rightarrow> bool" where
  "clean P (E_PURE t) = True"
| "clean P (E_CALL args ret) = clean_all P args"
| "clean P (E_RAISE e None) = True"
| "clean P (E_RAISE e (Some p)) = clean P p"
| "clean P (E_CATCH g e b h) =
     (clean P g \<and> clean (P \<union> escapes g) h \<and> e \<notin> P \<and> e \<notin> escapes h)"
| "clean P (E_TRY g) = clean P g"
| "clean P (E_TO_STR g) = clean P g"
| "clean P (E_BLOCK ss) = clean_all P ss"
| "clean P (E_LAMBDA ps ret ss) = clean_all {} ss"
| "clean P (E_MATCH g arms) = (clean P g \<and> clean_all (P \<union> escapes g) arms)"
| "clean_all P [] = True"
| "clean_all P (s # ss) = (clean P s \<and> clean_all (P \<union> escapes s) ss)"

definition acc_names :: "eff_ctx \<Rightarrow> string set" where
  "acc_names c = (case ec_acc c of None \<Rightarrow> {} | Some a \<Rightarrow> names a)"

text \<open>The accumulator is there, and it holds every effect of \<open>P\<close>.\<close>

definition holds :: "string set \<Rightarrow> eff_ctx \<Rightarrow> bool" where
  "holds P c \<longleftrightarrow> ec_acc c \<noteq> None \<and> P \<subseteq> acc_names c"

lemma holds_mono: "holds P c \<Longrightarrow> Q \<subseteq> P \<Longrightarrow> holds Q c"
  by (auto simp: holds_def)

lemma holds_note_if [simp]: "holds P (note_if b e c) = holds P c"
  by (simp add: holds_def note_if_def acc_names_def)

lemma holds_acc_upd:
  "holds P c \<Longrightarrow> (\<And>a. names a \<union> Q \<subseteq> names (f a)) \<Longrightarrow> holds (P \<union> Q) (acc_upd f c)"
  by (simp add: holds_def acc_upd_def acc_names_def split: option.splits) blast

lemma holds_remove: "holds P c \<Longrightarrow> e \<notin> P \<Longrightarrow> holds P (acc_upd (type_remove_effect e) c)"
  using names_remove by (fastforce simp: holds_def acc_upd_def acc_names_def)

lemma holds_raise: "holds P c \<Longrightarrow> holds (insert e P) (snd (infer_raise e pl c))"
proof -
  assume h: "holds P c"
  have "holds P (case pl of None \<Rightarrow> c | Some p \<Rightarrow> note_if (t_kind p \<notin> {TYPE_I64, TYPE_STR, TYPE_BYTES, TYPE_BOOL, TYPE_F64}) BadPayload c)"
    using h by (simp split: option.splits)
  then have "holds (P \<union> {e}) (snd (infer_raise e pl c))"
    unfolding infer_raise_def Let_def snd_conv by (intro holds_acc_upd) simp_all
  then show ?thesis by simp
qed

lemma holds_call: "holds P c \<Longrightarrow> holds (P \<union> names r) (snd (infer_call_effects r c))"
  unfolding infer_call_effects_def snd_conv by (intro holds_acc_upd) simp_all

lemma holds_try: "holds P c \<Longrightarrow> holds P (snd (infer_try r c))"
  using holds_acc_upd [of P c "{}"] by (simp add: infer_try_def le_supI1)

lemma holds_to_str: "holds P c \<Longrightarrow> holds P (snd (infer_to_str r c))"
  using holds_acc_upd [of P "note_if b BadInterpolation c" "{}" for b] by (simp add: infer_to_str_def Let_def le_supI1)

lemma holds_catch_tests [simp]: "holds P (catch_tests e b et c) = holds P c"
  by (simp add: catch_tests_def Let_def)

lemma infer_holds:
  "holds P c \<Longrightarrow> clean P g \<Longrightarrow> holds (P \<union> escapes g) (snd (infer g c))"
  "holds P c \<Longrightarrow> clean_all P ss \<Longrightarrow> holds (P \<union> all_escapes ss) (snd (infer_all ss t c))"
  "holds P c \<Longrightarrow> clean_all P arms \<Longrightarrow> holds (P \<union> all_escapes arms) (snd (infer_arms arms t' c))"
proof (induction g c and ss t c and arms t' c arbitrary: P and P and P rule: infer_infer_all_infer_arms.induct)
  case (2 args ret c)
  then have "holds (P \<union> all_escapes args) (snd (infer_all args (type_new TYPE_VOID) c))" by simp
  from holds_call [OF this, of ret] show ?case by (simp add: case_prod_beta Un_assoc)
next
  case (4 e p c)
  then have "holds (P \<union> escapes p) (snd (infer p c))" by simp
  from holds_raise [OF this] show ?case by (simp add: case_prod_beta)
next
  case (5 g e b h c)
  obtain et c1 where g: "infer g c = (et, c1)" by fastforce
  obtain ht c2 where h: "infer h (catch_tests e b et c1) = (ht, c2)" by fastforce
  have "holds (P \<union> escapes g) c1" using 5 g by fastforce
  then have "holds (P \<union> escapes g \<union> escapes h) c2"
    using 5(2) [OF g [symmetric] refl, of "P \<union> escapes g"] 5(4) h by simp
  then have "holds (P \<union> (escapes g - {e}) \<union> escapes h) c2" by (rule holds_mono) blast
  then have "holds (P \<union> (escapes g - {e}) \<union> escapes h) (acc_upd (type_remove_effect e) c2)"
    using 5(4) by (intro holds_remove) auto
  then show ?case by (simp add: g h infer_catch_def Un_assoc)
next
  case (6 g c)
  then show ?case using holds_try by (simp add: case_prod_beta)
next
  case (7 g c)
  then show ?case using holds_to_str by (simp add: case_prod_beta)
next
  case (9 params ret ss c)
  then show ?case by (simp add: holds_def acc_names_def case_prod_beta Let_def)
next
  case (10 g arms c)
  obtain t c1 where g: "infer g c = (t, c1)" by fastforce
  have "holds (P \<union> escapes g) c1" using 10 g by fastforce
  then show ?case using 10(2) [OF g [symmetric] refl, of "P \<union> escapes g"] 10(4) g by (simp add: case_prod_beta Let_def Un_assoc)
next
  case (12 s ss t c)
  obtain t1 c1 where s: "infer s c = (t1, c1)" by fastforce
  have "holds (P \<union> escapes s) c1" using 12 s by fastforce
  then show ?case using 12(2) [OF s [symmetric] refl, of "P \<union> escapes s"] 12(4) s by (simp add: Un_assoc)
next
  case (14 a as t c)
  obtain bt c1 where a: "infer a (c\<lparr>ec_ret := None\<rparr>) = (bt, c1)" by fastforce
  have "holds P (c\<lparr>ec_ret := None\<rparr>)" using 14(4) by (simp add: holds_def acc_names_def)
  then have "holds (P \<union> escapes a) c1" using 14(1) 14(5) a by fastforce
  then have h: "holds (P \<union> escapes a) (c1\<lparr>ec_ret := ec_ret c\<rparr>)" by (simp add: holds_def acc_names_def)
  show ?case
  proof (cases t)
    case None
    then show ?thesis using 14(2) [OF a [symmetric] refl refl None h] 14(5) by (simp add: a Let_def Un_assoc)
  next
    case (Some t0)
    then show ?thesis using 14(3) [OF a [symmetric] refl refl Some, of "P \<union> escapes a"] h 14(5) by (simp add: a Let_def Un_assoc)
  qed
qed (auto simp: holds_raise)

end
