(* ===== verification/CkProps.thy ===== *)
theory CkProps
  imports CkEffSound
begin

text \<open>What the comparison of types and the accounting of effects guarantee, and where they fail.\<close>

section \<open>Types\<close>

text \<open>
  C28. On complete types, equality is equality of what the comparison looks at, and an
  argument may be passed when that agrees after the two integer types are identified.
  Both are therefore equivalence relations there; equality with an erroneous type and
  of vectors and maps whose element is not known is always true.
\<close>

theorem type_eq_skeleton:
  assumes "complete a" "complete b"
  shows "(type_eq (Some a) (Some b) \<longleftrightarrow> type_skel a = type_skel b) \<and>
    (type_assignable (Some a) (Some b) \<longleftrightarrow> type_skel (widen a) = type_skel (widen b))"
  using type_eq_skel [OF assms] type_assignable_skel [OF assms] by blast+

definition ty_vec :: "cktype \<Rightarrow> cktype" where
  "ty_vec t = Ty TYPE_VEC (Some t) None None None None [] [] []"

definition ty_map :: "cktype \<Rightarrow> cktype \<Rightarrow> cktype" where
  "ty_map k t = Ty TYPE_MAP (Some t) (Some k) None None None [] [] []"

definition ty_struct :: "string \<Rightarrow> cktype list \<Rightarrow> cktype" where
  "ty_struct n ts = Ty TYPE_STRUCT None None None (Some n) None [] [] ts"

lemmas ty_defs = ty_vec_def ty_map_def ty_struct_def same_name_def known_elem_eq_def known_key_eq_def

lemma complete_struct [simp]: "complete (ty_struct n ts) = completes ts"
  by (simp add: complete.simps ty_struct_def)

lemma complete_atom [simp]: "complete i64" "complete str"
  by (simp_all add: complete.simps)

lemma complete_vec [simp]: "complete (ty_vec t) = complete t"
  by (simp add: complete.simps [of "ty_vec t"]) (simp add: ty_vec_def)

theorem type_eq_skeleton_witness:
  "\<not> type_eq (Some (ty_struct ''Box'' [i64])) (Some (ty_struct ''Box'' [str]))
   \<and> type_assignable (Some (type_new TYPE_I32)) (Some i64)"
proof
  have "type_skel (ty_struct ''Box'' [i64]) \<noteq> type_skel (ty_struct ''Box'' [str])"
    by (simp add: type_skel.simps) (simp add: ty_struct_def type_skel.simps)
  then show "\<not> type_eq (Some (ty_struct ''Box'' [i64])) (Some (ty_struct ''Box'' [str]))"
    using type_eq_skeleton [of "ty_struct ''Box'' [i64]" "ty_struct ''Box'' [str]"] by simp
  show "type_assignable (Some (type_new TYPE_I32)) (Some i64)"
    using type_eq_skeleton [of "type_new TYPE_I32" i64] by (simp add: complete.simps widen_def)
qed

text \<open>
  Code bug at concrete types. A vector of \<open>Box<i64>\<close> may be passed for a vector of
  \<open>Box<str>\<close>, although the two structures are different types; the result of a call
  forgets the key of a map, so that a map from strings is taken for one from integers;
  and the postfix question mark forgets the type arguments, so that its value is
  refused where the value it came from is accepted.
\<close>

theorem type_arguments_lost:
  "type_assignable (Some (ty_vec (ty_struct ''Box'' [i64]))) (Some (ty_vec (ty_struct ''Box'' [str])))
   \<and> \<not> type_assignable (Some (ty_struct ''Box'' [i64])) (Some (ty_struct ''Box'' [str]))
   \<and> type_eq (Some (ty_map i64 i64)) (Some (call_result (ty_map str i64)))
   \<and> \<not> type_eq (Some (ty_map i64 i64)) (Some (ty_map str i64))
   \<and> \<not> type_eq (Some (ty_struct ''Box'' [i64])) (Some (try_result (ty_struct ''Box'' [i64])))"
  by (simp add: ty_defs type_assignable_def vec_elem_eq.simps call_result_def try_result_def type_merge_effects_def)

section \<open>Effects\<close>

lemma effect_row_facts:
  assumes "row_ok t" "row_ok s" "row_ok u"
  shows "type_has_effect (Some t) e \<longleftrightarrow> e \<in> dom (row t)"
    and "type_effect_payload (Some t) e = (case row t e of None \<Rightarrow> None | Some pl \<Rightarrow> pl)"
    and "row (type_add_effect e t) = (if e \<in> dom (row t) then row t else (row t)(e \<mapsto> None))"
    and "row (type_remove_effect e t) = (row t)(e := None)"
    and "row (type_merge_effects t s) = join_rows (row t) (row s)"
    and "row (type_merge_effects (type_merge_effects t s) s) = row (type_merge_effects t s)"
    and "row (type_merge_effects (type_merge_effects t s) u) = row (type_merge_effects t (type_merge_effects s u))"
    and "row_ok (type_add_effect e t) \<and> row_ok (type_remove_effect e t) \<and> row_ok (type_merge_effects t s)"
proof -
  show "row (type_merge_effects (type_merge_effects t s) s) = row (type_merge_effects t s)"
    using assms by (intro er.merge_twice)
  show "row (type_merge_effects (type_merge_effects t s) u) = row (type_merge_effects t (type_merge_effects s u))"
    using assms by (intro er.merge_assoc)
qed (use assms in \<open>simp_all add: type_has_effect_def has_effect_row payload_row er.add_row er.remove_row er.merge_row
      er.good_add er.good_remove er.good_merge\<close>)

text \<open>
  C29. The operations on effect rows act as on finite maps from effects to payloads:
  adding keeps what is there, removing deletes, merging adds what is missing and keeps
  the payload of the left row unless it has none. Merging is associative and merging
  twice is merging once, in rows.
\<close>

theorem effect_rows_are_maps:
  assumes "row_ok t" "row_ok s" "row_ok u"
  shows "(type_has_effect (Some t) e \<longleftrightarrow> e \<in> dom (row t)) \<and>
    (type_effect_payload (Some t) e = (case row t e of None \<Rightarrow> None | Some pl \<Rightarrow> pl)) \<and>
    (row (type_add_effect e t) = (if e \<in> dom (row t) then row t else (row t)(e \<mapsto> None))) \<and>
    (row (type_remove_effect e t) = (row t)(e := None)) \<and>
    (row (type_merge_effects t s) = join_rows (row t) (row s)) \<and>
    (row (type_merge_effects (type_merge_effects t s) s) = row (type_merge_effects t s)) \<and>
    (row (type_merge_effects (type_merge_effects t s) u) = row (type_merge_effects t (type_merge_effects s u))) \<and>
    (row_ok (type_add_effect e t) \<and> row_ok (type_remove_effect e t) \<and> row_ok (type_merge_effects t s))"
  using effect_row_facts [OF assms] by simp

theorem effect_rows_are_maps_witness:
  "row (type_merge_effects (set_effects [(''E'', None), (''F'', Some i64)] i64) (set_effects [(''E'', Some str), (''F'', Some str)] i64))
   = [''F'' \<mapsto> Some i64, ''E'' \<mapsto> Some str]"
proof -
  let ?t = "set_effects [(''E'', None), (''F'', Some i64)] i64" and ?s = "set_effects [(''E'', Some str), (''F'', Some str)] i64"
  have "row_ok ?t" "row_ok ?s" by (simp_all add: row_ok_def)
  from effect_rows_are_maps [OF this this(1)] show ?thesis
    by (auto simp: row_def join_rows_def fun_eq_iff)
qed

text \<open>Errors are only added.\<close>

lemma errs_note_if: "length (ec_errs c) \<le> length (ec_errs (note_if b e c))"
  by (simp add: note_if_def)

lemma errs_catch_tests: "length (ec_errs c) \<le> length (ec_errs (catch_tests e b et c))"
  by (auto simp: catch_tests_def Let_def note_if_def)

lemma errs_ops:
  "length (ec_errs c) \<le> length (ec_errs (snd (infer_raise e pl c)))"
  "ec_errs (snd (infer_call_effects r c)) = ec_errs c" "ec_errs (snd (infer_try r c)) = ec_errs c"
  "length (ec_errs c) \<le> length (ec_errs (snd (infer_to_str r c)))" "ec_errs (snd (infer_catch e r c)) = ec_errs c"
  by (auto simp: infer_raise_def infer_call_effects_def infer_try_def infer_to_str_def infer_catch_def acc_upd_def
      note_if_def Let_def split: option.splits)

lemma errs_infer:
  "length (ec_errs c) \<le> length (ec_errs (snd (infer g c)))"
  "length (ec_errs c) \<le> length (ec_errs (snd (infer_all ss t c)))"
  "length (ec_errs c) \<le> length (ec_errs (snd (infer_arms arms t' c)))"
proof (induction g c and ss t c and arms t' c rule: infer_infer_all_infer_arms.induct)
  case (5 g e b h c)
  obtain et c1 where g: "infer g c = (et, c1)" by fastforce
  obtain ht c2 where h: "infer h (catch_tests e b et c1) = (ht, c2)" by fastforce
  show ?case using 5(1) 5(2) [OF g [symmetric] refl] errs_catch_tests [of c1 e b et] by (simp add: g h errs_ops)
next
  case (10 g arms c)
  obtain t c1 where g: "infer g c = (t, c1)" by fastforce
  show ?case using 10(1) 10(2) [OF g [symmetric] refl] by (simp add: g case_prod_beta Let_def)
next
  case (12 s ss t c)
  obtain t1 c1 where s: "infer s c = (t1, c1)" by fastforce
  show ?case using 12(1) 12(2) [OF s [symmetric] refl] by (simp add: s)
next
  case (14 a as t c)
  obtain bt c1 where a: "infer a (c\<lparr>ec_ret := None\<rparr>) = (bt, c1)" by fastforce
  have 1: "length (ec_errs c) \<le> length (ec_errs (c1\<lparr>ec_ret := ec_ret c\<rparr>))" using 14(1) by (simp add: a)
  show ?case
  proof (cases t)
    case None
    then show ?thesis using 14(2) [OF a [symmetric] refl refl None] 1 by (simp add: a Let_def)
  next
    case (Some t0)
    then show ?thesis using 14(3) [OF a [symmetric] refl refl Some] 1
        errs_note_if [of "c1\<lparr>ec_ret := ec_ret c\<rparr>" "\<not> type_eq (Some bt) (Some t0)" ArmMismatch]
      by (simp add: a Let_def)
  qed
qed (auto simp: errs_ops case_prod_beta Let_def intro: order_trans [OF _ errs_ops(1)] order_trans [OF _ errs_ops(4)])

lemma errs_check_declared:
  "length (ec_errs c) \<le> length (ec_errs (check_declared ret en c))"
  "ec_errs (check_declared ret en c) = ec_errs c \<Longrightarrow> has_effect ret (fst en)"
  by (auto simp: check_declared_def Let_def note_if_def type_has_effect_def split: if_splits prod.splits)

lemma errs_fold_declared:
  "length (ec_errs c) \<le> length (ec_errs (fold (check_declared ret) es c)) \<and>
   (length (ec_errs (fold (check_declared ret) es c)) = length (ec_errs c) \<longrightarrow> (\<forall>en \<in> set es. has_effect ret (fst en)))"
proof (induction es arbitrary: c)
  case (Cons en es)
  let ?d = "check_declared ret en c"
  have le: "length (ec_errs c) \<le> length (ec_errs ?d)" by (rule errs_check_declared(1))
  have "has_effect ret (fst en)" if "length (ec_errs ?d) = length (ec_errs c)"
    using that by (intro errs_check_declared(2))
      (auto simp: check_declared_def Let_def note_if_def split: if_splits prod.splits)
  with le Cons.IH [of ?d] show ?case by auto
qed simp

text \<open>
  C26. Effects are sound where no catch hides an effect: when the checker reports nothing
  for a function and every catch in its body names an effect that has not already left
  and does not leave the handler, then every run of the body ends without an effect or
  with one that the function declares.
\<close>

theorem accepted_effects_sound:
  assumes "clean_all {} body"
    and "ec_errs (check_fn_effects ret body c) = ec_errs c"
    and "outcomes body (Some x)"
  shows "type_has_effect (Some ret) x"
proof -
  let ?c = "c\<lparr>ec_ret := Some ret, ec_acc := Some (type_new TYPE_VOID)\<rparr>"
  obtain t c1 where r: "infer_all body (type_new TYPE_VOID) ?c = (t, c1)" by fastforce
  have "holds {} ?c" by (simp add: holds_def)
  from infer_holds(2) [OF this assms(1), of "type_new TYPE_VOID"] have "holds (all_escapes body) c1" by (simp add: r)
  moreover have "x \<in> all_escapes body" using outcome_escapes(2) [OF assms(3)] by simp
  ultimately obtain a where a: "ec_acc c1 = Some a" "x \<in> names a" by (auto simp: holds_def acc_names_def split: option.splits)
  have "length (ec_errs c) \<le> length (ec_errs c1)" using errs_infer(2) [of ?c body "type_new TYPE_VOID"] by (simp add: r)
  moreover have "ec_errs (fold (check_declared ret) (t_effects a) c1) = ec_errs c"
    using assms(2) a by (simp add: check_fn_effects_def r)
  ultimately have "\<forall>en \<in> set (t_effects a). has_effect ret (fst en)"
    using errs_fold_declared [of c1 ret "t_effects a"] by simp
  with a(2) show ?thesis by (auto simp: names_def type_has_effect_def)
qed

definition fails :: enode where
  "fails = E_CALL [] (set_effects [(''Fail'', None)] i64)"

definition eff_ctx0 :: eff_ctx where
  "eff_ctx0 = \<lparr>ec_ret = None, ec_acc = None, ec_errs = []\<rparr>"

lemmas run_defs = check_fn_effects_def infer_call_effects_def infer_catch_def catch_tests_def call_result_def catch_result_def
  catch_copy_def acc_upd_def note_if_def type_merge_effects_def merge_effect_def type_add_effect_def type_remove_effect_def
  has_effect_def type_effect_payload_def check_declared_def type_has_effect_def set_payload_def

theorem accepted_effects_sound_witness:
  "type_has_effect (Some (set_effects [(''Fail'', None)] i64)) ''Fail''"
proof (rule accepted_effects_sound [where body = "[E_CATCH fails ''Fail'' None (E_PURE i64), fails]" and c = eff_ctx0])
  show "clean_all {} [E_CATCH fails ''Fail'' None (E_PURE i64), fails]" by (simp add: fails_def)
  show "ec_errs (check_fn_effects (set_effects [(''Fail'', None)] i64) [E_CATCH fails ''Fail'' None (E_PURE i64), fails] eff_ctx0)
    = ec_errs eff_ctx0"
    by (simp add: run_defs fails_def eff_ctx0_def Let_def)
  have "outcome fails None" "outcome fails (Some ''Fail'')"
    unfolding fails_def by (simp_all add: none call_ok call_ends has_effect_def)
  then show "outcomes [E_CATCH fails ''Fail'' None (E_PURE i64), fails] (Some ''Fail'')"
    by (blast intro: catch_ok catch_handled pure first rest)
qed

text \<open>
  C27. Code bugs at concrete functions. A catch removes its effect from everything that
  the function has accumulated: a body that calls a failing function and then calls it
  again under a catch is accepted for a function that declares no effect, and it has a
  run that ends with the effect. In an arm of a match the declared payload is not seen:
  a raise with the declared payload is accepted in the body and refused in an arm.
\<close>

theorem effects_misjudged:
  "ec_errs (check_fn_effects i64 [fails, E_CATCH fails ''Fail'' None (E_PURE i64)] eff_ctx0) = []
   \<and> outcomes [fails, E_CATCH fails ''Fail'' None (E_PURE i64)] (Some ''Fail'')
   \<and> \<not> type_has_effect (Some i64) ''Fail''
   \<and> ec_errs (check_fn_effects (set_effects [(''E'', Some str)] i64) [E_RAISE ''E'' (Some (E_PURE str))] eff_ctx0) = []
   \<and> ec_errs (check_fn_effects (set_effects [(''E'', Some str)] i64)
     [E_MATCH (E_PURE i64) [E_RAISE ''E'' (Some (E_PURE str))]] eff_ctx0) = [NoPayload ''E'']"
proof (intro conjI)
  show "ec_errs (check_fn_effects i64 [fails, E_CATCH fails ''Fail'' None (E_PURE i64)] eff_ctx0) = []"
    by (simp add: run_defs fails_def eff_ctx0_def Let_def)
  have "outcome fails (Some ''Fail'')"
    unfolding fails_def by (simp add: none call_ends has_effect_def)
  then show "outcomes [fails, E_CATCH fails ''Fail'' None (E_PURE i64)] (Some ''Fail'')"
    by (rule first)
  show "\<not> type_has_effect (Some i64) ''Fail''" by (simp add: type_has_effect_def has_effect_def)
  show "ec_errs (check_fn_effects (set_effects [(''E'', Some str)] i64) [E_RAISE ''E'' (Some (E_PURE str))] eff_ctx0) = []"
    by (simp add: run_defs infer_raise_def eff_ctx0_def Let_def)
  show "ec_errs (check_fn_effects (set_effects [(''E'', Some str)] i64)
     [E_MATCH (E_PURE i64) [E_RAISE ''E'' (Some (E_PURE str))]] eff_ctx0) = [NoPayload ''E'']"
    by (simp add: run_defs infer_raise_def eff_ctx0_def Let_def)
qed

end
