(* ===== verification/CkScope.thy ===== *)
theory CkScope
  imports CkTypes
begin

text \<open>
  The scopes of the checker (\<open>checker_env.c\<close>, \<open>checker_impl.h\<close>): entries, the scope
  stack, definition and lookup of names, messages, and the leak scan at the end of a
  scope. Entries keep their place in memory when a scope is closed: scopes are a
  function from the depth, the entries of a scope a function from the index, and a
  pointer to an entry is the pair of the two.
\<close>

section \<open>State\<close>

definition ENV_MAX :: nat where "ENV_MAX = 64"
definition ENV_VARS :: nat where "ENV_VARS = 256"
definition BAGA_MAX_ERRORS :: nat where "BAGA_MAX_ERRORS = 64"
definition W35_TAINT_MAX :: nat where "W35_TAINT_MAX = 4"

type_synonym place = "nat \<times> nat"   \<comment> \<open>line and column\<close>
type_synonym addr = "nat \<times> nat"    \<comment> \<open>depth and index of an entry\<close>

record EnvEntry =
  ee_name :: string
  ee_type :: cktype
  ee_is_mut :: bool
  ee_dropped :: bool
  ee_is_world :: bool
  ee_world_frozen :: bool
  ee_is_param :: bool
  ee_captured :: bool
  ee_scope_depth :: nat
  ee_is_arena :: bool
  ee_arena_id :: int
  ee_region_id :: int
  ee_taint :: "int list"
  ee_ktaint :: "int list"
  ee_pos :: place

record EnvScope =
  sc_entries :: "nat \<Rightarrow> EnvEntry"
  sc_count :: nat

datatype message = Redefinition string | Leak string | ArenaLeak string | ArenaNotFreed string
  | TaintedContainer string string | NotLocal string | DropUnsupported string | DropTwice string | DropParam string | DropCaptured string
  | DropInLoop string | UseAfterFree string | FreeTwice string | FreeParam string | FreeInLoop string
  | UseAfterArenaFree string | FreezeTwice string | MutateFrozen string | WorldFreeInLoop string

record CheckCtx =
  cc_scopes :: "nat \<Rightarrow> EnvScope"
  cc_depth :: nat
  cc_errors :: "(place \<times> message) list"
  cc_warnings :: "(place \<times> message) list"
  cc_warn_leaks :: bool
  cc_drop_log :: "addr list"
  cc_drop_log_overflowed :: bool
  cc_freeze_log :: "addr list"
  cc_freeze_log_overflowed :: bool
  cc_loop_depth :: nat
  cc_next_arena_id :: int
  cc_arena_freed_ids :: "nat \<Rightarrow> int"
  cc_n_arena_freed :: nat

definition ent :: "CheckCtx \<Rightarrow> addr \<Rightarrow> EnvEntry" where
  "ent c a = sc_entries (cc_scopes c (fst a)) (snd a)"

definition ent_upd :: "addr \<Rightarrow> (EnvEntry \<Rightarrow> EnvEntry) \<Rightarrow> CheckCtx \<Rightarrow> CheckCtx" where
  "ent_upd a f c = c\<lparr>cc_scopes := (cc_scopes c)(fst a := (cc_scopes c (fst a))\<lparr>sc_entries :=
     (sc_entries (cc_scopes c (fst a)))(snd a := f (ent c a))\<rparr>)\<rparr>"

definition count_at :: "CheckCtx \<Rightarrow> nat \<Rightarrow> nat" where
  "count_at c d = sc_count (cc_scopes c d)"

section \<open>Messages\<close>

text \<open>A message that repeats the one before it at the same place is not kept.\<close>

definition push_message :: "place \<times> message \<Rightarrow> (place \<times> message) list \<Rightarrow> (place \<times> message) list" where
  "push_message m ms =
     (if length ms \<ge> BAGA_MAX_ERRORS then ms
      else let ms' = ms @ [m]
           in if length ms' \<ge> 2 \<and> ms' ! (length ms' - 2) = m then ms else ms')"

definition check_error :: "place \<Rightarrow> message \<Rightarrow> CheckCtx \<Rightarrow> CheckCtx" where
  "check_error p m c = c\<lparr>cc_errors := push_message (p, m) (cc_errors c)\<rparr>"

definition check_warn :: "place \<Rightarrow> message \<Rightarrow> CheckCtx \<Rightarrow> CheckCtx" where
  "check_warn p m c = c\<lparr>cc_warnings := push_message (p, m) (cc_warnings c)\<rparr>"

section \<open>Definition and lookup\<close>

definition new_entry :: "string \<Rightarrow> cktype \<Rightarrow> bool \<Rightarrow> nat \<Rightarrow> place \<Rightarrow> EnvEntry" where
  "new_entry name ty mut depth p =
     \<lparr>ee_name = name, ee_type = ty, ee_is_mut = mut, ee_dropped = False, ee_is_world = False, ee_world_frozen = False,
      ee_is_param = False, ee_captured = False, ee_scope_depth = depth, ee_is_arena = False, ee_arena_id = 0,
      ee_region_id = 0, ee_taint = [], ee_ktaint = [], ee_pos = p\<rparr>"

definition env_define_mut :: "string \<Rightarrow> cktype \<Rightarrow> bool \<Rightarrow> place \<Rightarrow> CheckCtx \<Rightarrow> CheckCtx" where
  "env_define_mut name ty mut p c =
     (if cc_depth c = 0 then c
      else let d = cc_depth c - 1; n = count_at c d
           in if list_ex (\<lambda>i. ee_name (ent c (d, i)) = name) [0..<n] then check_error p (Redefinition name) c
              else if n < ENV_VARS
              then let c' = ent_upd (d, n) (\<lambda>_. new_entry name ty mut (cc_depth c) p) c
                   in c'\<lparr>cc_scopes := (cc_scopes c')(d := (cc_scopes c' d)\<lparr>sc_count := n + 1\<rparr>)\<rparr>
              else c)"

definition env_define :: "string \<Rightarrow> cktype \<Rightarrow> place \<Rightarrow> CheckCtx \<Rightarrow> CheckCtx" where
  "env_define name ty p c = env_define_mut name ty True p c"

text \<open>The entries of a scope from the last to the first, the scopes from the inside out.\<close>

definition scope_addrs :: "CheckCtx \<Rightarrow> nat \<Rightarrow> addr list" where
  "scope_addrs c d = map (\<lambda>i. (d, i)) [0..<count_at c d]"

definition live_addrs :: "CheckCtx \<Rightarrow> addr list" where
  "live_addrs c = concat (map (scope_addrs c) [0..<cc_depth c])"

definition ck_env_find :: "CheckCtx \<Rightarrow> string \<Rightarrow> addr option" where
  "ck_env_find c name = List.find (\<lambda>a. ee_name (ent c a) = name) (rev (live_addrs c))"

definition env_lookup :: "CheckCtx \<Rightarrow> string \<Rightarrow> cktype option" where
  "env_lookup c name = (case ck_env_find c name of None \<Rightarrow> None | Some a \<Rightarrow> Some (ee_type (ent c a)))"

definition env_is_mut :: "CheckCtx \<Rightarrow> string \<Rightarrow> bool" where
  "env_is_mut c name = (case ck_env_find c name of None \<Rightarrow> True | Some a \<Rightarrow> ee_is_mut (ent c a))"

section \<open>The leak scan\<close>

definition type_is_drop_owned :: "cktype \<Rightarrow> bool" where
  "type_is_drop_owned t \<longleftrightarrow> t_kind t = TYPE_VEC \<or> t_kind t = TYPE_MAP \<or> t_kind t = TYPE_BYTES \<or> t_kind t = TYPE_FN"

definition arena_was_freed :: "CheckCtx \<Rightarrow> int \<Rightarrow> bool" where
  "arena_was_freed c k \<longleftrightarrow> 0 < k \<and> list_ex (\<lambda>i. cc_arena_freed_ids c i = k) [0..<cc_n_arena_freed c]"

definition arena_note_freed :: "int \<Rightarrow> CheckCtx \<Rightarrow> CheckCtx" where
  "arena_note_freed k c =
     (if k \<le> 0 \<or> arena_was_freed c k then c
      else if cc_n_arena_freed c < 128
      then c\<lparr>cc_arena_freed_ids := (cc_arena_freed_ids c)(cc_n_arena_freed c := k), cc_n_arena_freed := cc_n_arena_freed c + 1\<rparr>
      else c)"

definition arena_live_outer :: "CheckCtx \<Rightarrow> int \<Rightarrow> bool" where
  "arena_live_outer c k \<longleftrightarrow> 0 < k \<and> 2 \<le> cc_depth c \<and>
     list_ex (\<lambda>a. ee_is_arena (ent c a) \<and> ee_arena_id (ent c a) = k \<and> \<not> ee_dropped (ent c a))
       (concat (map (scope_addrs c) [0..<cc_depth c - 1]))"

text \<open>The identity of the arena that the function returns: that of the last match.\<close>

definition skip_arena :: "CheckCtx \<Rightarrow> string option \<Rightarrow> int" where
  "skip_arena c skip = (case skip of None \<Rightarrow> 0
     | Some s \<Rightarrow> fold (\<lambda>a k. if ee_name (ent c a) = s \<and> ee_is_arena (ent c a) then ee_arena_id (ent c a) else k)
         (scope_addrs c (cc_depth c - 1)) 0)"

text \<open>The identities seen are kept in an array of 64.\<close>

definition leak_entry :: "string option \<Rightarrow> int \<Rightarrow> addr \<Rightarrow> CheckCtx \<times> int list \<Rightarrow> CheckCtx \<times> int list" where
  "leak_entry skip skip_aid a cs =
     (let (c, seen) = cs; e = ent c a
      in if ee_is_param e \<or> ee_dropped e then (c, seen)
         else if skip = Some (ee_name e) then (c, seen)
         else if skip_aid \<noteq> 0 \<and> ee_is_arena e \<and> ee_arena_id e = skip_aid then (c, seen)
         else let c1 = (if cc_warn_leaks c \<and> type_is_drop_owned (ee_type e) then check_warn (ee_pos e) (Leak (ee_name e)) c else c)
              in if \<not> ee_is_arena e then (c1, seen)
                 else if ee_arena_id e \<in> set seen then (c1, seen)
                 else let seen1 = (if length seen < 64 then seen @ [ee_arena_id e] else seen)
                      in if arena_live_outer c1 (ee_arena_id e) then (c1, seen1)
                         else if arena_was_freed c1 (ee_arena_id e)
                         then (if cc_warn_leaks c1 then check_warn (ee_pos e) (ArenaLeak (ee_name e)) c1 else c1, seen1)
                         else (check_error (ee_pos e) (ArenaNotFreed (ee_name e)) c1, seen1))"

definition leak_scan_scope :: "string option \<Rightarrow> CheckCtx \<Rightarrow> CheckCtx" where
  "leak_scan_scope skip c =
     (if cc_depth c = 0 then c
      else fst (fold (leak_entry skip (skip_arena c skip)) (scope_addrs c (cc_depth c - 1)) (c, [])))"

section \<open>The scope stack\<close>

definition push_scope :: "CheckCtx \<Rightarrow> CheckCtx" where
  "push_scope c =
     (if cc_depth c < ENV_MAX
      then c\<lparr>cc_scopes := (cc_scopes c)(cc_depth c := (cc_scopes c (cc_depth c))\<lparr>sc_count := 0\<rparr>),
             cc_depth := cc_depth c + 1\<rparr>
      else c)"

definition pop_scope_skip :: "string option \<Rightarrow> CheckCtx \<Rightarrow> CheckCtx" where
  "pop_scope_skip skip c = (let c1 = leak_scan_scope skip c in c1\<lparr>cc_depth := cc_depth c1 - 1\<rparr>)"

definition pop_scope :: "CheckCtx \<Rightarrow> CheckCtx" where
  "pop_scope c = pop_scope_skip None c"

section \<open>Functions\<close>

text \<open>
  A parameter is defined in the fresh scope; an \<open>i64\<close> one may be a handle and gets an
  identity of its own. A function is checked in the scopes that are open when its check
  is asked for.
\<close>

definition define_param :: "string \<times> cktype \<times> place \<Rightarrow> CheckCtx \<Rightarrow> CheckCtx" where
  "define_param prm c =
     (let (name, ty, p) = prm; c1 = env_define name ty p c
      in case ck_env_find c1 name of
           None \<Rightarrow> c1
         | Some a \<Rightarrow>
             let c2 = ent_upd a (\<lambda>e. e\<lparr>ee_is_param := True\<rparr>) c1
             in if t_kind ty = TYPE_I64
                then let k = cc_next_arena_id c2 + 1
                     in ent_upd a (\<lambda>e. e\<lparr>ee_arena_id := k, ee_is_world := True\<rparr>) (c2\<lparr>cc_next_arena_id := k\<rparr>)
                else c2)"

text \<open>
  Of the record of freed arenas only the number is put back; the logs are put back as a
  whole.
\<close>

definition check_fn_scope :: "(string \<times> cktype \<times> place) list \<Rightarrow> (CheckCtx \<Rightarrow> CheckCtx) \<Rightarrow> string option \<Rightarrow>
    CheckCtx \<Rightarrow> CheckCtx" where
  "check_fn_scope params body returned c =
     (let c1 = fold define_param params (push_scope c);
          c2 = c1\<lparr>cc_drop_log := [], cc_drop_log_overflowed := False, cc_freeze_log := [],
                  cc_freeze_log_overflowed := False, cc_n_arena_freed := 0\<rparr>;
          c3 = pop_scope_skip returned (body c2)
      in c3\<lparr>cc_drop_log := cc_drop_log c, cc_drop_log_overflowed := cc_drop_log_overflowed c,
            cc_freeze_log := cc_freeze_log c, cc_freeze_log_overflowed := cc_freeze_log_overflowed c,
            cc_loop_depth := cc_loop_depth c, cc_n_arena_freed := cc_n_arena_freed c\<rparr>)"

end
