(* ===== verification/CkDrop.thy ===== *)
theory CkDrop
  imports CkScope
begin

text \<open>
  The drop and freeze seat belts (\<open>checker_env.c\<close>, \<open>checker_infer.c\<close>,
  \<open>checker_expr.c\<close>): the flags of entries, the logs of the entries whose flag was set,
  the joins of the logs where paths meet, and the operations that set flags.
\<close>

definition LOG_MAX :: nat where "LOG_MAX = 256"

section \<open>Setting a flag\<close>

abbreviation dropped :: "CheckCtx \<Rightarrow> addr \<Rightarrow> bool" where
  "dropped c a \<equiv> ee_dropped (ent c a)"

abbreviation frozen :: "CheckCtx \<Rightarrow> addr \<Rightarrow> bool" where
  "frozen c a \<equiv> ee_world_frozen (ent c a)"

definition set_dropped :: "bool \<Rightarrow> addr \<Rightarrow> CheckCtx \<Rightarrow> CheckCtx" where
  "set_dropped b a c = ent_upd a (\<lambda>e. e\<lparr>ee_dropped := b\<rparr>) c"

definition set_frozen :: "bool \<Rightarrow> addr \<Rightarrow> CheckCtx \<Rightarrow> CheckCtx" where
  "set_frozen b a c = ent_upd a (\<lambda>e. e\<lparr>ee_world_frozen := b\<rparr>) c"

definition mem3_note_dropped :: "addr \<Rightarrow> CheckCtx \<Rightarrow> CheckCtx" where
  "mem3_note_dropped a c =
     (if dropped c a then c
      else let c1 = set_dropped True a c
           in if length (cc_drop_log c1) < LOG_MAX then c1\<lparr>cc_drop_log := cc_drop_log c1 @ [a]\<rparr>
              else c1\<lparr>cc_drop_log_overflowed := True\<rparr>)"

definition world_note_frozen :: "addr \<Rightarrow> CheckCtx \<Rightarrow> CheckCtx" where
  "world_note_frozen a c =
     (if frozen c a then c
      else let c1 = set_frozen True a c
           in if length (cc_freeze_log c1) < LOG_MAX then c1\<lparr>cc_freeze_log := cc_freeze_log c1 @ [a]\<rparr>
              else c1\<lparr>cc_freeze_log_overflowed := True\<rparr>)"

section \<open>Joins\<close>

definition drop_lift_from :: "nat \<Rightarrow> CheckCtx \<Rightarrow> CheckCtx" where
  "drop_lift_from base c = fold (set_dropped False) (drop base (cc_drop_log c)) c"

text \<open>The entries that keep their flag, each once, in the order of the log.\<close>

definition kept :: "('a \<Rightarrow> bool) \<Rightarrow> 'a list \<Rightarrow> 'a list" where
  "kept f xs = fold (\<lambda>a w. if f a \<and> a \<notin> set w then w @ [a] else w) xs []"

definition drop_join2 :: "nat \<Rightarrow> nat \<Rightarrow> CheckCtx \<Rightarrow> CheckCtx" where
  "drop_join2 base mid c =
     (if cc_drop_log_overflowed c
      then (drop_lift_from base c)\<lparr>cc_drop_log := take base (cc_drop_log c), cc_drop_log_overflowed := False\<rparr>
      else let first = drop base (take mid (cc_drop_log c)); second = drop mid (cc_drop_log c);
               c1 = fold (\<lambda>a. set_dropped (a \<in> set first) a) second c
           in c1\<lparr>cc_drop_log := take base (cc_drop_log c) @ kept (dropped c1) second\<rparr>)"

text \<open>The parts of the log that the arms wrote, from the base and the ends of the arms.\<close>

fun segments :: "'a list \<Rightarrow> nat \<Rightarrow> nat list \<Rightarrow> 'a list list" where
  "segments log from [] = []"
| "segments log from (e # es) = drop from (take e log) # segments log e es"

text \<open>
  The first loop decides the entries of the first arm and writes the survivors over the
  beginning of its part of the log; the second clears the flags of the later arms.
\<close>

definition arms_first :: "addr list list \<Rightarrow> addr list \<Rightarrow> CheckCtx \<times> addr list \<Rightarrow> CheckCtx \<times> addr list" where
  "arms_first later first cw = fold (\<lambda>a (c, w).
     let everywhere = list_all (\<lambda>s. a \<in> set s) later
     in (set_dropped everywhere a c, if everywhere \<and> a \<notin> set w then w @ [a] else w)) first cw"

definition drop_join_arms :: "nat \<Rightarrow> nat list option \<Rightarrow> CheckCtx \<Rightarrow> CheckCtx" where
  "drop_join_arms base ends c =
     (case ends of
        Some (e # es) \<Rightarrow>
          if cc_drop_log_overflowed c
          then (drop_lift_from base c)\<lparr>cc_drop_log := take base (cc_drop_log c), cc_drop_log_overflowed := False\<rparr>
          else let first = drop base (take e (cc_drop_log c)); later = segments (cc_drop_log c) e es;
                   (c1, w) = arms_first later first (c, []);
                   first' = w @ drop (length w) first;
                   c2 = fold (\<lambda>a d. if dropped d a \<and> a \<notin> set first' then set_dropped False a d else d) (concat later) c1
               in c2\<lparr>cc_drop_log := take base (cc_drop_log c) @ w\<rparr>
      | _ \<Rightarrow> (drop_lift_from base c)\<lparr>cc_drop_log := take base (cc_drop_log c), cc_drop_log_overflowed := False\<rparr>)"

definition freeze_lift_from :: "nat \<Rightarrow> CheckCtx \<Rightarrow> CheckCtx" where
  "freeze_lift_from base c = fold (set_frozen False) (drop base (cc_freeze_log c)) c"

definition freeze_join2 :: "nat \<Rightarrow> nat \<Rightarrow> CheckCtx \<Rightarrow> CheckCtx" where
  "freeze_join2 base mid c =
     (if cc_freeze_log_overflowed c
      then (freeze_lift_from base c)\<lparr>cc_freeze_log := take base (cc_freeze_log c), cc_freeze_log_overflowed := False\<rparr>
      else let first = drop base (take mid (cc_freeze_log c)); second = drop mid (cc_freeze_log c);
               c1 = fold (\<lambda>a. set_frozen (a \<in> set first) a) second c
           in c1\<lparr>cc_freeze_log := take base (cc_freeze_log c) @ kept (frozen c1) second\<rparr>)"

definition freeze_arms_first :: "addr list list \<Rightarrow> addr list \<Rightarrow> CheckCtx \<times> addr list \<Rightarrow> CheckCtx \<times> addr list" where
  "freeze_arms_first later first cw = fold (\<lambda>a (c, w).
     let everywhere = list_all (\<lambda>s. a \<in> set s) later
     in (set_frozen everywhere a c, if everywhere \<and> a \<notin> set w then w @ [a] else w)) first cw"

definition freeze_join_arms :: "nat \<Rightarrow> nat list option \<Rightarrow> CheckCtx \<Rightarrow> CheckCtx" where
  "freeze_join_arms base ends c =
     (case ends of
        Some (e # es) \<Rightarrow>
          if cc_freeze_log_overflowed c
          then (freeze_lift_from base c)\<lparr>cc_freeze_log := take base (cc_freeze_log c), cc_freeze_log_overflowed := False\<rparr>
          else let first = drop base (take e (cc_freeze_log c)); later = segments (cc_freeze_log c) e es;
                   (c1, w) = freeze_arms_first later first (c, []);
                   first' = w @ drop (length w) first;
                   c2 = fold (\<lambda>a d. if frozen d a \<and> a \<notin> set first' then set_frozen False a d else d) (concat later) c1
               in c2\<lparr>cc_freeze_log := take base (cc_freeze_log c) @ w\<rparr>
      | _ \<Rightarrow> (freeze_lift_from base c)\<lparr>cc_freeze_log := take base (cc_freeze_log c), cc_freeze_log_overflowed := False\<rparr>)"

section \<open>Releasing handles\<close>

definition mem3_invalidate_region :: "int \<Rightarrow> CheckCtx \<Rightarrow> CheckCtx" where
  "mem3_invalidate_region k c =
     (if k \<le> 0 then c
      else fold (\<lambda>a d. if ee_region_id (ent d a) = k then mem3_note_dropped a d else d) (live_addrs c) c)"

definition mem3_report_tainted :: "int \<Rightarrow> place \<Rightarrow> string \<Rightarrow> CheckCtx \<Rightarrow> CheckCtx" where
  "mem3_report_tainted k p what c =
     (if k \<le> 0 then c
      else fold (\<lambda>a d. if dropped d a then d
                  else if k \<in> set (ee_taint (ent d a)) \<or> k \<in> set (ee_ktaint (ent d a))
                  then check_error p (TaintedContainer (ee_name (ent d a)) what) d else d) (live_addrs c) c)"

definition mem3_drop_handle :: "addr \<Rightarrow> place \<Rightarrow> CheckCtx \<Rightarrow> CheckCtx" where
  "mem3_drop_handle h p c =
     (let k = ee_arena_id (ent c h);
          c1 = mem3_invalidate_region k (arena_note_freed k c);
          c2 = (if 0 < k then mem3_report_tainted k p (ee_name (ent c h)) c1 else c1)
      in if k \<le> 0 then mem3_note_dropped h c2
         else fold (\<lambda>a d. if ee_is_arena (ent d a) \<and> ee_arena_id (ent d a) = k then mem3_note_dropped a d else d)
                (live_addrs c2) c2)"

definition mem3_free_world :: "addr \<Rightarrow> place \<Rightarrow> CheckCtx \<Rightarrow> CheckCtx" where
  "mem3_free_world h p c =
     (let k = ee_arena_id (ent c h); c1 = mem3_note_dropped h c
      in if k \<le> 0 then c1
         else let c2 = mem3_report_tainted k p (ee_name (ent c h)) (mem3_invalidate_region k c1)
              in fold (\<lambda>a d. if ee_is_world (ent d a) \<and> ee_arena_id (ent d a) = k then mem3_note_dropped a d else d)
                   (live_addrs c2) c2)"

definition w35_taint_entry :: "addr \<Rightarrow> int \<Rightarrow> bool \<Rightarrow> CheckCtx \<Rightarrow> CheckCtx" where
  "w35_taint_entry a rid key c =
     (if rid \<le> 0 then c
      else let xs = (if key then ee_ktaint (ent c a) else ee_taint (ent c a))
           in if length xs \<ge> W35_TAINT_MAX \<or> rid \<in> set xs then c
              else ent_upd a (\<lambda>e. if key then e\<lparr>ee_ktaint := xs @ [rid]\<rparr> else e\<lparr>ee_taint := xs @ [rid]\<rparr>) c)"

section \<open>The calls\<close>

definition in_loop :: "CheckCtx \<Rightarrow> addr \<Rightarrow> bool" where
  "in_loop c a \<longleftrightarrow> cc_loop_depth c \<noteq> 0 \<and> ee_scope_depth (ent c a) \<le> cc_loop_depth c"

definition call_drop :: "string \<Rightarrow> place \<Rightarrow> CheckCtx \<Rightarrow> CheckCtx" where
  "call_drop name p c = (case ck_env_find c name of
     None \<Rightarrow> check_error p (NotLocal name) c
   | Some a \<Rightarrow>
       if \<not> type_is_drop_owned (ee_type (ent c a)) then check_error p (DropUnsupported name) c
       else if dropped c a then check_error p (DropTwice name) c
       else if ee_is_param (ent c a) then check_error p (DropParam name) c
       else if ee_captured (ent c a) then check_error p (DropCaptured name) c
       else if in_loop c a then check_error p (DropInLoop name) c
       else if length (cc_drop_log c) < LOG_MAX
       then (set_dropped True a c)\<lparr>cc_drop_log := cc_drop_log c @ [a]\<rparr>
       else c\<lparr>cc_drop_log_overflowed := True\<rparr>)"

definition call_arena_free :: "string \<Rightarrow> place \<Rightarrow> CheckCtx \<Rightarrow> CheckCtx" where
  "call_arena_free name p c = (case ck_env_find c name of
     None \<Rightarrow> c
   | Some a \<Rightarrow>
       if dropped c a then check_error p (FreeTwice name) c
       else if ee_is_param (ent c a) then check_error p (FreeParam name) c
       else if in_loop c a then check_error p (FreeInLoop name) c
       else mem3_drop_handle a p c)"

definition call_arena_use :: "string \<Rightarrow> place \<Rightarrow> CheckCtx \<Rightarrow> CheckCtx" where
  "call_arena_use name p c = (case ck_env_find c name of
     None \<Rightarrow> c
   | Some a \<Rightarrow> if dropped c a then check_error p (UseAfterArenaFree name) c else c)"

datatype world_call = W_FREE | W_FREEZE | W_MUTATE

definition call_world :: "world_call \<Rightarrow> string \<Rightarrow> place \<Rightarrow> CheckCtx \<Rightarrow> CheckCtx" where
  "call_world w name p c = (case ck_env_find c name of
     None \<Rightarrow> c
   | Some a \<Rightarrow>
       if ee_is_world (ent c a) \<and> \<not> dropped c a
       then (case w of
           W_FREE \<Rightarrow> if in_loop c a then check_error p (WorldFreeInLoop name) c else mem3_free_world a p c
         | W_FREEZE \<Rightarrow> if frozen c a then check_error p (FreezeTwice name) c else world_note_frozen a c
         | W_MUTATE \<Rightarrow> if frozen c a then check_error p (MutateFrozen name) c else c)
       else c)"

definition use_ident :: "string \<Rightarrow> place \<Rightarrow> CheckCtx \<Rightarrow> CheckCtx" where
  "use_ident name p c = (case ck_env_find c name of
     None \<Rightarrow> c
   | Some a \<Rightarrow> if dropped c a then check_error p (UseAfterFree name) c else c)"

section \<open>Where paths meet\<close>

text \<open>The positions of both logs, and the operations on both logs in a row.\<close>

definition log_marks :: "CheckCtx \<Rightarrow> nat \<times> nat" where
  "log_marks c = (length (cc_drop_log c), length (cc_freeze_log c))"

definition lift_both :: "nat \<times> nat \<Rightarrow> CheckCtx \<Rightarrow> CheckCtx" where
  "lift_both b c = freeze_lift_from (snd b) (drop_lift_from (fst b) c)"

definition join2_both :: "nat \<times> nat \<Rightarrow> nat \<times> nat \<Rightarrow> CheckCtx \<Rightarrow> CheckCtx" where
  "join2_both b m c = freeze_join2 (snd b) (snd m) (drop_join2 (fst b) (fst m) c)"

definition cut_both :: "nat \<times> nat \<Rightarrow> CheckCtx \<Rightarrow> CheckCtx" where
  "cut_both b c = c\<lparr>cc_drop_log := take (fst b) (cc_drop_log c), cc_drop_log_overflowed := False,
     cc_freeze_log := take (snd b) (cc_freeze_log c), cc_freeze_log_overflowed := False\<rparr>"

definition arms_both :: "nat \<times> nat \<Rightarrow> (nat \<times> nat) list \<Rightarrow> CheckCtx \<Rightarrow> CheckCtx" where
  "arms_both b ends c =
     (let few = length ends \<le> 64
      in freeze_join_arms (snd b) (if few then Some (map snd ends) else None)
           (drop_join_arms (fst b) (if few then Some (map fst ends) else None) c))"

definition infer_if :: "(CheckCtx \<Rightarrow> CheckCtx) \<Rightarrow> (CheckCtx \<Rightarrow> CheckCtx) option \<Rightarrow> CheckCtx \<Rightarrow> CheckCtx" where
  "infer_if then_br else_br c =
     (let base = log_marks c; c1 = then_br c; mid = log_marks c1; c2 = lift_both base c1
      in case else_br of
           Some els \<Rightarrow> join2_both base mid (els c2)
         | None \<Rightarrow> cut_both base c2)"

definition infer_arm :: "nat \<times> nat \<Rightarrow> (CheckCtx \<Rightarrow> CheckCtx) \<Rightarrow> CheckCtx \<times> (nat \<times> nat) list \<Rightarrow> CheckCtx \<times> (nat \<times> nat) list" where
  "infer_arm base body ce =
     (let (c, ends) = ce; c1 = pop_scope (body (push_scope (lift_both base c)))
      in (c1, ends @ [log_marks c1]))"

definition infer_match :: "(CheckCtx \<Rightarrow> CheckCtx) list \<Rightarrow> CheckCtx \<Rightarrow> CheckCtx" where
  "infer_match arms c =
     (let base = log_marks c; (c1, ends) = fold (infer_arm base) arms (c, [])
      in arms_both base ends c1)"

text \<open>
  A match on anything but a sum type opens no scope for an arm; without a wildcard no arm
  need run, and everything is lifted.
\<close>

definition infer_switch_arm :: "nat \<times> nat \<Rightarrow> (CheckCtx \<Rightarrow> CheckCtx) \<Rightarrow> CheckCtx \<times> (nat \<times> nat) list \<Rightarrow> CheckCtx \<times> (nat \<times> nat) list" where
  "infer_switch_arm base body ce =
     (let (c, ends) = ce; c1 = body (lift_both base c) in (c1, ends @ [log_marks c1]))"

definition infer_switch :: "bool \<Rightarrow> (CheckCtx \<Rightarrow> CheckCtx) list \<Rightarrow> CheckCtx \<Rightarrow> CheckCtx" where
  "infer_switch has_wild arms c =
     (let base = log_marks c; (c1, ends) = fold (infer_switch_arm base) arms (c, [])
      in if has_wild then arms_both base ends c1 else cut_both base (lift_both base c1))"

definition infer_catch_join :: "(CheckCtx \<Rightarrow> CheckCtx) \<Rightarrow> (CheckCtx \<Rightarrow> CheckCtx) \<Rightarrow> CheckCtx \<Rightarrow> CheckCtx" where
  "infer_catch_join guarded handler c =
     (let base = log_marks c; c1 = guarded c; mid = log_marks c1
      in join2_both base mid (pop_scope (handler (push_scope (lift_both base c1)))))"

definition infer_while :: "(CheckCtx \<Rightarrow> CheckCtx) \<Rightarrow> CheckCtx \<Rightarrow> CheckCtx" where
  "infer_while body c =
     (let c1 = body (c\<lparr>cc_loop_depth := cc_depth c\<rparr>) in c1\<lparr>cc_loop_depth := cc_loop_depth c\<rparr>)"

definition infer_block :: "(CheckCtx \<Rightarrow> CheckCtx) \<Rightarrow> CheckCtx \<Rightarrow> CheckCtx" where
  "infer_block body c = pop_scope (body (push_scope c))"

end
