(* ===== verification/CkDropView.thy ===== *)
theory CkDropView
  imports CkDrop
begin

text \<open>
  The flags, the log and the overflow mark of one seat belt as a triple, and the joins
  on triples. The two seat belts of the checker both interpret the locale \<open>flag_log\<close>.
\<close>

section \<open>Access to entries\<close>

lemma ent_ent_upd: "ent (ent_upd a f c) b = (if b = a then f (ent c a) else ent c b)"
  by (cases a; cases b) (auto simp: ent_def ent_upd_def)

lemma ent_upd_sel [simp]:
  "cc_depth (ent_upd a f c) = cc_depth c" "cc_errors (ent_upd a f c) = cc_errors c"
  "cc_drop_log (ent_upd a f c) = cc_drop_log c" "cc_drop_log_overflowed (ent_upd a f c) = cc_drop_log_overflowed c"
  "cc_freeze_log (ent_upd a f c) = cc_freeze_log c" "cc_freeze_log_overflowed (ent_upd a f c) = cc_freeze_log_overflowed c"
  "cc_loop_depth (ent_upd a f c) = cc_loop_depth c" "count_at (ent_upd a f c) d = count_at c d"
  "cc_arena_freed_ids (ent_upd a f c) = cc_arena_freed_ids c" "cc_n_arena_freed (ent_upd a f c) = cc_n_arena_freed c"
  "cc_next_arena_id (ent_upd a f c) = cc_next_arena_id c" "cc_warn_leaks (ent_upd a f c) = cc_warn_leaks c"
  by (simp_all add: ent_upd_def count_at_def)

lemma ent_fields [simp]:
  "ent (c\<lparr>cc_drop_log := l\<rparr>) a = ent c a" "ent (c\<lparr>cc_drop_log_overflowed := b\<rparr>) a = ent c a"
  "ent (c\<lparr>cc_freeze_log := l\<rparr>) a = ent c a" "ent (c\<lparr>cc_freeze_log_overflowed := b\<rparr>) a = ent c a"
  "ent (c\<lparr>cc_loop_depth := k\<rparr>) a = ent c a" "ent (c\<lparr>cc_depth := k\<rparr>) a = ent c a" "ent (c\<lparr>cc_errors := e\<rparr>) a = ent c a"
  "ent (c\<lparr>cc_warnings := e\<rparr>) a = ent c a" "ent (c\<lparr>cc_arena_freed_ids := i\<rparr>) a = ent c a"
  "ent (c\<lparr>cc_n_arena_freed := n\<rparr>) a = ent c a" "ent (c\<lparr>cc_next_arena_id := k2\<rparr>) a = ent c a"
  by (simp_all add: ent_def)

lemma count_fields [simp]:
  "count_at (c\<lparr>cc_drop_log := l\<rparr>) d = count_at c d" "count_at (c\<lparr>cc_drop_log_overflowed := b\<rparr>) d = count_at c d"
  "count_at (c\<lparr>cc_freeze_log := l\<rparr>) d = count_at c d" "count_at (c\<lparr>cc_freeze_log_overflowed := b\<rparr>) d = count_at c d"
  "count_at (c\<lparr>cc_loop_depth := k\<rparr>) d = count_at c d" "count_at (c\<lparr>cc_depth := k\<rparr>) d = count_at c d"
  "count_at (c\<lparr>cc_errors := e\<rparr>) d = count_at c d" "count_at (c\<lparr>cc_warnings := e\<rparr>) d = count_at c d"
  "count_at (c\<lparr>cc_arena_freed_ids := i\<rparr>) d = count_at c d"
  "count_at (c\<lparr>cc_n_arena_freed := n\<rparr>) d = count_at c d" "count_at (c\<lparr>cc_next_arena_id := k2\<rparr>) d = count_at c d"
  by (simp_all add: count_at_def)

section \<open>The part of the state that flags do not touch\<close>

definition plain :: "EnvEntry \<Rightarrow> EnvEntry" where
  "plain e = e\<lparr>ee_dropped := False, ee_world_frozen := False\<rparr>"

definition same_env :: "CheckCtx \<Rightarrow> CheckCtx \<Rightarrow> bool" where
  "same_env c d \<longleftrightarrow> cc_depth d = cc_depth c \<and> cc_loop_depth d = cc_loop_depth c \<and>
     (\<forall>k < cc_depth c. count_at d k = count_at c k) \<and> (\<forall>a. fst a < cc_depth c \<longrightarrow> plain (ent d a) = plain (ent c a))"

lemma same_env_refl [simp]: "same_env c c"
  by (simp add: same_env_def)

lemma same_env_trans: "same_env c d \<Longrightarrow> same_env d e \<Longrightarrow> same_env c e"
  by (simp add: same_env_def)

lemma same_env_fields [simp]:
  "same_env c (d\<lparr>cc_drop_log := l\<rparr>) = same_env c d" "same_env c (d\<lparr>cc_drop_log_overflowed := b\<rparr>) = same_env c d"
  "same_env c (d\<lparr>cc_freeze_log := l\<rparr>) = same_env c d" "same_env c (d\<lparr>cc_freeze_log_overflowed := b\<rparr>) = same_env c d"
  "same_env c (check_error p m d) = same_env c d"
  by (simp_all add: same_env_def check_error_def)

lemma same_env_set [simp]:
  "same_env c (set_dropped b a d) = same_env c d" "same_env c (set_frozen b a d) = same_env c d"
  by (auto simp: same_env_def set_dropped_def set_frozen_def ent_ent_upd plain_def)

lemma same_env_fold: "(\<And>x d. x \<in> set xs \<Longrightarrow> same_env c d \<Longrightarrow> same_env c (f x d)) \<Longrightarrow> same_env c d \<Longrightarrow> same_env c (fold f xs d)"
  by (induction xs arbitrary: d) auto

lemma same_env_lift [simp]:
  "same_env c (drop_lift_from b d) = same_env c d" "same_env c (freeze_lift_from b d) = same_env c d"
proof -
  have "same_env c (fold (set_dropped False) xs d) = same_env c d" "same_env c (fold (set_frozen False) xs d) = same_env c d" for xs
    by (induction xs arbitrary: d) auto
  then show "same_env c (drop_lift_from b d) = same_env c d" "same_env c (freeze_lift_from b d) = same_env c d"
    by (simp_all add: drop_lift_from_def freeze_lift_from_def)
qed

lemma same_env_arms_first:
  "same_env c d \<Longrightarrow> same_env c (fst (arms_first later xs (d, w)))"
  "same_env c d \<Longrightarrow> same_env c (fst (freeze_arms_first later xs (d, w)))"
proof -
  have "same_env c d \<Longrightarrow> same_env c (fst (fold (\<lambda>a (c, w). (set_dropped (f a) a c, g a w)) xs (d, w)))" for f g
    by (induction xs arbitrary: d w) auto
  moreover have "same_env c d \<Longrightarrow> same_env c (fst (fold (\<lambda>a (c, w). (set_frozen (f a) a c, g a w)) xs (d, w)))" for f g
    by (induction xs arbitrary: d w) auto
  ultimately show "same_env c d \<Longrightarrow> same_env c (fst (arms_first later xs (d, w)))"
    "same_env c d \<Longrightarrow> same_env c (fst (freeze_arms_first later xs (d, w)))"
    by (simp_all add: arms_first_def freeze_arms_first_def Let_def)
qed

lemma same_env_joins:
  "same_env c d \<Longrightarrow> same_env c (drop_join2 b m d)" "same_env c d \<Longrightarrow> same_env c (freeze_join2 b m d)"
  by (auto simp: drop_join2_def freeze_join2_def Let_def intro!: same_env_fold)

lemma same_env_join_arms:
  assumes "same_env c d"
  shows "same_env c (drop_join_arms b ends d)" "same_env c (freeze_join_arms b ends d)"
  using assms same_env_arms_first [OF assms]
  by (auto simp: drop_join_arms_def freeze_join_arms_def Let_def case_prod_beta intro!: same_env_fold split: option.splits list.splits)

section \<open>Triples\<close>

type_synonym 'a fview = "('a \<Rightarrow> bool) \<times> 'a list \<times> bool"

definition lifted :: "nat \<Rightarrow> ('a \<Rightarrow> bool) \<Rightarrow> 'a list \<Rightarrow> 'a \<Rightarrow> bool" where
  "lifted base f l a \<longleftrightarrow> f a \<and> a \<notin> set (drop base l)"

definition v_lift :: "nat \<Rightarrow> 'a fview \<Rightarrow> 'a fview" where
  "v_lift base v = (case v of (f, l, o1) \<Rightarrow> (lifted base f l, l, o1))"

definition v_join2 :: "nat \<Rightarrow> nat \<Rightarrow> 'a fview \<Rightarrow> 'a fview" where
  "v_join2 base mid v = (case v of (f, l, o1) \<Rightarrow>
     if o1 then (lifted base f l, take base l, False)
     else let first = set (drop base (take mid l)); f1 = (\<lambda>a. if a \<in> set (drop mid l) then a \<in> first else f a)
          in (f1, take base l @ kept f1 (drop mid l), False))"

definition v_arms :: "nat \<Rightarrow> nat list option \<Rightarrow> 'a fview \<Rightarrow> 'a fview" where
  "v_arms base ends v = (case v of (f, l, o1) \<Rightarrow>
     (case ends of
        Some (e # es) \<Rightarrow>
          if o1 then (lifted base f l, take base l, False)
          else let first = drop base (take e l); later = segments l e es; ev = (\<lambda>a. \<forall>s \<in> set later. a \<in> set s);
                   f1 = (\<lambda>a. if a \<in> set first then ev a else f a); w = kept ev first;
                   first' = w @ drop (length w) first
               in (\<lambda>a. f1 a \<and> \<not> (a \<in> set (concat later) \<and> a \<notin> set first'), take base l @ w, False)
      | _ \<Rightarrow> (lifted base f l, take base l, False)))"

lemma set_kept [simp]: "set (kept f xs) = {a \<in> set xs. f a}"
proof -
  have "set (fold (\<lambda>a w. if f a \<and> a \<notin> set w then w @ [a] else w) xs w) = set w \<union> {a \<in> set xs. f a}" for w
    by (induction xs arbitrary: w) auto
  then show ?thesis by (simp add: kept_def)
qed

lemma length_kept: "length (kept f xs) \<le> length xs"
proof -
  have "length (fold (\<lambda>a w. if f a \<and> a \<notin> set w then w @ [a] else w) xs w) \<le> length w + length xs" for w
  proof (induction xs arbitrary: w)
    case (Cons x xs)
    show ?case using Cons [of w] Cons [of "w @ [x]"] by auto
  qed simp
  from this [of "[]"] show ?thesis by (simp add: kept_def)
qed

lemma kept_cong: "(\<And>a. a \<in> set xs \<Longrightarrow> f a = g a) \<Longrightarrow> kept f xs = kept g xs"
  unfolding kept_def by (rule fold_cong) auto

locale flag_log =
  fixes view :: "'c \<Rightarrow> 'a fview"
    and lift :: "nat \<Rightarrow> 'c \<Rightarrow> 'c"
    and join2 :: "nat \<Rightarrow> nat \<Rightarrow> 'c \<Rightarrow> 'c"
    and join_arms :: "nat \<Rightarrow> nat list option \<Rightarrow> 'c \<Rightarrow> 'c"
  assumes view_lift: "view (lift b c) = v_lift b (view c)"
    and view_join2: "view (join2 b m c) = v_join2 b m (view c)"
    and view_arms: "view (join_arms b ends c) = v_arms b ends (view c)"

definition drop_view :: "CheckCtx \<Rightarrow> addr fview" where
  "drop_view c = (dropped c, cc_drop_log c, cc_drop_log_overflowed c)"

definition freeze_view :: "CheckCtx \<Rightarrow> addr fview" where
  "freeze_view c = (frozen c, cc_freeze_log c, cc_freeze_log_overflowed c)"

lemma view_set:
  "drop_view (set_dropped b a c) = ((dropped c)(a := b), cc_drop_log c, cc_drop_log_overflowed c)"
  "freeze_view (set_frozen b a c) = ((frozen c)(a := b), cc_freeze_log c, cc_freeze_log_overflowed c)"
  "drop_view (set_frozen b a c) = drop_view c" "freeze_view (set_dropped b a c) = freeze_view c"
  by (auto simp: drop_view_def freeze_view_def set_dropped_def set_frozen_def ent_ent_upd)

lemma set_sel [simp]:
  "cc_drop_log (set_dropped b a c) = cc_drop_log c" "cc_drop_log_overflowed (set_dropped b a c) = cc_drop_log_overflowed c"
  "cc_freeze_log (set_frozen b a c) = cc_freeze_log c" "cc_freeze_log_overflowed (set_frozen b a c) = cc_freeze_log_overflowed c"
  by (simp_all add: set_dropped_def set_frozen_def)

lemma flag_set [simp]:
  "dropped (set_dropped b a c) x = (if x = a then b else dropped c x)"
  "frozen (set_frozen b a c) x = (if x = a then b else frozen c x)"
  by (auto simp: set_dropped_def set_frozen_def ent_ent_upd)

lemma drop_fold_set [simp]:
  "dropped (fold (\<lambda>a. set_dropped (g a) a) xs c) b = (if b \<in> set xs then g b else dropped c b)"
  "cc_drop_log (fold (\<lambda>a. set_dropped (g a) a) xs c) = cc_drop_log c"
  "cc_drop_log_overflowed (fold (\<lambda>a. set_dropped (g a) a) xs c) = cc_drop_log_overflowed c"
  by (induction xs arbitrary: c) auto

lemma freeze_fold_set [simp]:
  "frozen (fold (\<lambda>a. set_frozen (g a) a) xs c) b = (if b \<in> set xs then g b else frozen c b)"
  "cc_freeze_log (fold (\<lambda>a. set_frozen (g a) a) xs c) = cc_freeze_log c"
  "cc_freeze_log_overflowed (fold (\<lambda>a. set_frozen (g a) a) xs c) = cc_freeze_log_overflowed c"
  by (induction xs arbitrary: c) auto

lemma drop_fold_clear [simp]:
  "dropped (fold (\<lambda>a d. if dropped d a \<and> P a then set_dropped False a d else d) xs c) b \<longleftrightarrow> dropped c b \<and> \<not> (b \<in> set xs \<and> P b)"
  "cc_drop_log (fold (\<lambda>a d. if dropped d a \<and> P a then set_dropped False a d else d) xs c) = cc_drop_log c"
  "cc_drop_log_overflowed (fold (\<lambda>a d. if dropped d a \<and> P a then set_dropped False a d else d) xs c) = cc_drop_log_overflowed c"
  by (induction xs arbitrary: c) auto

lemma freeze_fold_clear [simp]:
  "frozen (fold (\<lambda>a d. if frozen d a \<and> P a then set_frozen False a d else d) xs c) b \<longleftrightarrow> frozen c b \<and> \<not> (b \<in> set xs \<and> P b)"
  "cc_freeze_log (fold (\<lambda>a d. if frozen d a \<and> P a then set_frozen False a d else d) xs c) = cc_freeze_log c"
  "cc_freeze_log_overflowed (fold (\<lambda>a d. if frozen d a \<and> P a then set_frozen False a d else d) xs c) = cc_freeze_log_overflowed c"
  by (induction xs arbitrary: c) auto

lemma fold_pair: "fold (\<lambda>a (c, w). (f a c, g a w)) xs (c, w) = (fold f xs c, fold g xs w)"
  by (induction xs arbitrary: c w) auto

lemma arms_first_eq:
  "arms_first later xs (c, []) = (fold (\<lambda>a. set_dropped (list_all (\<lambda>s. a \<in> set s) later) a) xs c, kept (\<lambda>a. list_all (\<lambda>s. a \<in> set s) later) xs)"
  "freeze_arms_first later xs (c, []) = (fold (\<lambda>a. set_frozen (list_all (\<lambda>s. a \<in> set s) later) a) xs c, kept (\<lambda>a. list_all (\<lambda>s. a \<in> set s) later) xs)"
  by (simp_all add: arms_first_def freeze_arms_first_def Let_def fold_pair kept_def)

lemma drop_lift_sel [simp]:
  "dropped (drop_lift_from b c) a \<longleftrightarrow> dropped c a \<and> a \<notin> set (drop b (cc_drop_log c))"
  "cc_drop_log (drop_lift_from b c) = cc_drop_log c"
  "cc_drop_log_overflowed (drop_lift_from b c) = cc_drop_log_overflowed c"
  using drop_fold_set [of "\<lambda>_. False" "drop b (cc_drop_log c)" c] by (simp_all add: drop_lift_from_def)

lemma view_drop_lift: "drop_view (drop_lift_from b c) = v_lift b (drop_view c)"
  by (simp add: drop_view_def v_lift_def lifted_def fun_eq_iff)

lemma view_drop_join2: "drop_view (drop_join2 b m c) = v_join2 b m (drop_view c)"
  by (simp add: drop_join2_def drop_view_def v_join2_def Let_def lifted_def fun_eq_iff)

lemma view_drop_arms: "drop_view (drop_join_arms b ends c) = v_arms b ends (drop_view c)"
proof (cases "\<exists>e es. ends = Some (e # es) \<and> \<not> cc_drop_log_overflowed c")
  case True
  then obtain e es where "ends = Some (e # es)" "\<not> cc_drop_log_overflowed c" by blast
  then show ?thesis
    by (simp add: drop_join_arms_def arms_first_eq drop_view_def v_arms_def Let_def list_all_iff del: set_concat)
next
  case False
  then show ?thesis
    by (auto simp: drop_join_arms_def drop_view_def v_arms_def lifted_def split: option.splits list.splits)
qed

lemma freeze_lift_sel [simp]:
  "frozen (freeze_lift_from b c) a \<longleftrightarrow> frozen c a \<and> a \<notin> set (drop b (cc_freeze_log c))"
  "cc_freeze_log (freeze_lift_from b c) = cc_freeze_log c"
  "cc_freeze_log_overflowed (freeze_lift_from b c) = cc_freeze_log_overflowed c"
  using freeze_fold_set [of "\<lambda>_. False" "drop b (cc_freeze_log c)" c] by (simp_all add: freeze_lift_from_def)

lemma view_freeze_lift: "freeze_view (freeze_lift_from b c) = v_lift b (freeze_view c)"
  by (simp add: freeze_view_def v_lift_def lifted_def fun_eq_iff)

lemma view_freeze_join2: "freeze_view (freeze_join2 b m c) = v_join2 b m (freeze_view c)"
  by (simp add: freeze_join2_def freeze_view_def v_join2_def Let_def lifted_def fun_eq_iff)

lemma view_freeze_arms: "freeze_view (freeze_join_arms b ends c) = v_arms b ends (freeze_view c)"
proof (cases "\<exists>e es. ends = Some (e # es) \<and> \<not> cc_freeze_log_overflowed c")
  case True
  then obtain e es where "ends = Some (e # es)" "\<not> cc_freeze_log_overflowed c" by blast
  then show ?thesis
    by (simp add: freeze_join_arms_def arms_first_eq freeze_view_def v_arms_def Let_def list_all_iff del: set_concat)
next
  case False
  then show ?thesis
    by (auto simp: freeze_join_arms_def freeze_view_def v_arms_def lifted_def split: option.splits list.splits)
qed

interpretation dl: flag_log drop_view drop_lift_from drop_join2 drop_join_arms
  by unfold_locales (rule view_drop_lift view_drop_join2 view_drop_arms)+

interpretation fl: flag_log freeze_view freeze_lift_from freeze_join2 freeze_join_arms
  by unfold_locales (rule view_freeze_lift view_freeze_join2 view_freeze_arms)+

end
