(* ===== verification/CkDropPaths.thy ===== *)
theory CkDropPaths
  imports CkDropView
begin

text \<open>
  What a piece of a body does to the flags, in terms of the alternatives it has: each
  alternative is the set of entries that its path releases. \<open>paths\<close> is the contract of
  a piece; the lemmas of the locale \<open>flag_log\<close> say that the joins compose contracts.
\<close>

definition paths :: "'a set set \<Rightarrow> nat \<Rightarrow> 'a fview \<Rightarrow> 'a fview \<Rightarrow> bool" where
  "paths T n v v' \<longleftrightarrow> (\<exists>new.
     fst (snd v') = fst (snd v) @ new \<and> (\<forall>a. fst v' a \<longleftrightarrow> fst v a \<or> a \<in> set new) \<and> (\<forall>a \<in> set new. \<not> fst v a) \<and>
     (\<forall>X \<in> T. set new \<subseteq> X) \<and>
     (\<not> snd (snd v) \<and> length (fst (snd v)) + n \<le> LOG_MAX \<longrightarrow>
        \<not> snd (snd v') \<and> length new \<le> n \<and> (\<forall>a. (\<forall>X \<in> T. a \<in> X) \<longrightarrow> fst v' a)))"

lemma pathsE:
  assumes "paths T n (f, l, b) v'"
  obtains new b' where "v' = (\<lambda>a. f a \<or> a \<in> set new, l @ new, b')" "\<And>a. a \<in> set new \<Longrightarrow> \<not> f a"
    "\<And>X. X \<in> T \<Longrightarrow> set new \<subseteq> X"
    "\<not> b \<Longrightarrow> length l + n \<le> LOG_MAX \<Longrightarrow> \<not> b' \<and> length new \<le> n \<and> (\<forall>a. (\<forall>X \<in> T. a \<in> X) \<longrightarrow> f a \<or> a \<in> set new)"
proof -
  obtain f' l' b' where v': "v' = (f', l', b')" by (cases v')
  from assms obtain new where n: "l' = l @ new" "\<forall>a. f' a \<longleftrightarrow> f a \<or> a \<in> set new" "\<forall>a \<in> set new. \<not> f a" "\<forall>X \<in> T. set new \<subseteq> X"
    "\<not> b \<and> length l + n \<le> LOG_MAX \<longrightarrow> \<not> b' \<and> length new \<le> n \<and> (\<forall>a. (\<forall>X \<in> T. a \<in> X) \<longrightarrow> f' a)"
    unfolding paths_def v' by auto
  have "f' = (\<lambda>a. f a \<or> a \<in> set new)" using n(2) by blast
  with n v' show ?thesis by (intro that [of new b']) auto
qed

lemma pathsI:
  assumes "\<And>a. a \<in> set new \<Longrightarrow> \<not> f a" "\<And>X. X \<in> T \<Longrightarrow> set new \<subseteq> X" "\<And>a. f' a \<longleftrightarrow> f a \<or> a \<in> set new"
    and "\<not> b \<Longrightarrow> length l + n \<le> LOG_MAX \<Longrightarrow> \<not> b' \<and> length new \<le> n \<and> (\<forall>a. (\<forall>X \<in> T. a \<in> X) \<longrightarrow> f a \<or> a \<in> set new)"
  shows "paths T n (f, l, b) (f', l @ new, b')"
  unfolding paths_def using assms by (intro exI [of _ new]) auto

lemma paths_id: "{} \<in> T \<Longrightarrow> paths T n v v"
  by (cases v) (auto simp: paths_def)

lemma paths_mono: "paths T n v v' \<Longrightarrow> n \<le> m \<Longrightarrow> paths T m v v'"
  by (force simp: paths_def)

definition both_of :: "'a set set \<Rightarrow> 'a set set \<Rightarrow> 'a set set" where
  "both_of A B = {x \<union> y | x y. x \<in> A \<and> y \<in> B}"

lemma paths_seq:
  assumes "paths T1 n1 v v1" "paths T2 n2 v1 v2"
  shows "paths (both_of T1 T2) (n1 + n2) v v2"
proof -
  obtain f l b where v: "v = (f, l, b)" by (cases v)
  from assms(1) obtain x b1 where x: "v1 = (\<lambda>a. f a \<or> a \<in> set x, l @ x, b1)" "\<And>a. a \<in> set x \<Longrightarrow> \<not> f a"
      "\<And>X. X \<in> T1 \<Longrightarrow> set x \<subseteq> X"
      "\<not> b \<Longrightarrow> length l + n1 \<le> LOG_MAX \<Longrightarrow> \<not> b1 \<and> length x \<le> n1 \<and> (\<forall>a. (\<forall>X \<in> T1. a \<in> X) \<longrightarrow> f a \<or> a \<in> set x)"
    unfolding v by (rule pathsE) blast
  from assms(2) obtain y b2 where y: "v2 = (\<lambda>a. (f a \<or> a \<in> set x) \<or> a \<in> set y, (l @ x) @ y, b2)"
      "\<And>a. a \<in> set y \<Longrightarrow> \<not> (f a \<or> a \<in> set x)" "\<And>X. X \<in> T2 \<Longrightarrow> set y \<subseteq> X"
      "\<not> b1 \<Longrightarrow> length (l @ x) + n2 \<le> LOG_MAX \<Longrightarrow>
        \<not> b2 \<and> length y \<le> n2 \<and> (\<forall>a. (\<forall>X \<in> T2. a \<in> X) \<longrightarrow> (f a \<or> a \<in> set x) \<or> a \<in> set y)"
    unfolding x(1) by (rule pathsE) blast
  have "paths (both_of T1 T2) (n1 + n2) (f, l, b) (\<lambda>a. (f a \<or> a \<in> set x) \<or> a \<in> set y, l @ (x @ y), b2)"
  proof (rule pathsI)
    show "\<not> f a" if "a \<in> set (x @ y)" for a using that x(2) y(2) by auto
    show "set (x @ y) \<subseteq> X" if "X \<in> both_of T1 T2" for X
    proof -
      from that obtain p q where "X = p \<union> q" "p \<in> T1" "q \<in> T2" by (auto simp: both_of_def)
      with x(3) [OF this(2)] y(3) [OF this(3)] show ?thesis by auto
    qed
    assume no: "\<not> b" "length l + (n1 + n2) \<le> LOG_MAX"
    then have 1: "\<not> b1 \<and> length x \<le> n1 \<and> (\<forall>a. (\<forall>X \<in> T1. a \<in> X) \<longrightarrow> f a \<or> a \<in> set x)" by (intro x(4)) auto
    then have 2: "\<not> b2 \<and> length y \<le> n2 \<and> (\<forall>a. (\<forall>X \<in> T2. a \<in> X) \<longrightarrow> (f a \<or> a \<in> set x) \<or> a \<in> set y)"
      using no by (intro y(4)) auto
    have "f a \<or> a \<in> set (x @ y)" if a: "\<forall>X \<in> both_of T1 T2. a \<in> X" for a
    proof (cases "\<forall>X \<in> T1. a \<in> X")
      case False
      then obtain p where "p \<in> T1" "a \<notin> p" by blast
      have "a \<in> q" if "q \<in> T2" for q
      proof -
        have "p \<union> q \<in> both_of T1 T2" using that \<open>p \<in> T1\<close> unfolding both_of_def by blast
        with a \<open>a \<notin> p\<close> show ?thesis by blast
      qed
      with 2 show ?thesis by auto
    qed (use 1 in auto)
    with 1 2 show "\<not> b2 \<and> length (x @ y) \<le> n1 + n2 \<and> (\<forall>a. (\<forall>X \<in> both_of T1 T2. a \<in> X) \<longrightarrow> f a \<or> a \<in> set (x @ y))" by auto
  qed auto
  then show ?thesis by (simp add: v y(1))
qed

text \<open>Lifting what a piece set brings the flags of its start back.\<close>

lemma v_lift_paths:
  assumes "v' = (\<lambda>a. f a \<or> a \<in> set new, l @ new, b)" "\<And>a. a \<in> set new \<Longrightarrow> \<not> f a"
  shows "v_lift (length l) v' = (f, l @ new, b)"
  using assms(2) by (auto simp: assms(1) v_lift_def lifted_def fun_eq_iff)

context flag_log
begin

lemma join_paths:
  assumes v: "view c = (f, l, b)" and 1: "paths T1 n1 (view c) (view c1)"
    and 2: "paths T2 n2 (view (lift (length l) c1)) (view c2)" and m: "m = length (fst (snd (view c1)))"
  shows "paths (T1 \<union> T2) (n1 + n2) (view c) (view (join2 (length l) m c2))"
proof -
  from 1 obtain x b1 where x: "view c1 = (\<lambda>a. f a \<or> a \<in> set x, l @ x, b1)" "\<And>a. a \<in> set x \<Longrightarrow> \<not> f a"
      "\<And>X. X \<in> T1 \<Longrightarrow> set x \<subseteq> X"
      "\<not> b \<Longrightarrow> length l + n1 \<le> LOG_MAX \<Longrightarrow> \<not> b1 \<and> length x \<le> n1 \<and> (\<forall>a. (\<forall>X \<in> T1. a \<in> X) \<longrightarrow> f a \<or> a \<in> set x)"
    unfolding v by (rule pathsE) blast
  have "view (lift (length l) c1) = (f, l @ x, b1)" unfolding view_lift by (rule v_lift_paths [OF x(1,2)])
  with 2 have "paths T2 n2 (f, l @ x, b1) (view c2)" by simp
  then obtain y b2 where y: "view c2 = (\<lambda>a. f a \<or> a \<in> set y, (l @ x) @ y, b2)" "\<And>a. a \<in> set y \<Longrightarrow> \<not> f a"
      "\<And>X. X \<in> T2 \<Longrightarrow> set y \<subseteq> X"
      "\<not> b1 \<Longrightarrow> length (l @ x) + n2 \<le> LOG_MAX \<Longrightarrow> \<not> b2 \<and> length y \<le> n2 \<and> (\<forall>a. (\<forall>X \<in> T2. a \<in> X) \<longrightarrow> f a \<or> a \<in> set y)"
    by (rule pathsE) blast
  have m': "m = length l + length x" by (simp add: m x(1))
  show ?thesis
  proof (cases b2)
    case True
    then have "view (join2 (length l) m c2) = (f, l @ [], False)"
      using x(2) y(2) by (auto simp: view_join2 v_join2_def y(1) lifted_def fun_eq_iff)
    moreover have "\<not> (\<not> b \<and> length l + (n1 + n2) \<le> LOG_MAX)" using x(4) y(4) True by auto
    ultimately show ?thesis unfolding v by (simp only:) (rule pathsI [where new = "[]"], auto)
  next
    case False
    define k where "k = kept (\<lambda>a. if a \<in> set y then a \<in> set x else f a \<or> a \<in> set y) y"
    have k: "set k = set x \<inter> set y" by (auto simp: k_def)
    have "view (join2 (length l) m c2) = (\<lambda>a. if a \<in> set y then a \<in> set x else f a \<or> a \<in> set y, l @ k, False)"
      using False by (simp add: view_join2 v_join2_def y(1) m' k_def Let_def)
    moreover have "paths (T1 \<union> T2) (n1 + n2) (f, l, b) (\<lambda>a. if a \<in> set y then a \<in> set x else f a \<or> a \<in> set y, l @ k, False)"
    proof (rule pathsI)
      show "\<not> f a" if "a \<in> set k" for a using that k x(2) by auto
      show "set k \<subseteq> X" if "X \<in> T1 \<union> T2" for X using that k x(3) y(3) by blast
      show "(if a \<in> set y then a \<in> set x else f a \<or> a \<in> set y) \<longleftrightarrow> f a \<or> a \<in> set k" for a using k x(2) y(2) by auto
      assume "\<not> b" "length l + (n1 + n2) \<le> LOG_MAX"
      then show "\<not> False \<and> length k \<le> n1 + n2 \<and> (\<forall>a. (\<forall>X \<in> T1 \<union> T2. a \<in> X) \<longrightarrow> f a \<or> a \<in> set k)"
        using x(4) y(4) k length_kept [of "\<lambda>a. if a \<in> set y then a \<in> set x else f a \<or> a \<in> set y" y, folded k_def] by fastforce
    qed
    ultimately show ?thesis by (simp add: v)
  qed
qed

text \<open>
  The arms of a match: \<open>news\<close> are the parts of the log that they wrote, each holding
  entries whose flag was clear at the start and which every alternative of its arm
  releases.
\<close>

definition arms_state :: "('a \<Rightarrow> bool) \<Rightarrow> 'a list \<Rightarrow> bool \<Rightarrow> ('a set set \<times> nat) list \<Rightarrow> 'a list list \<Rightarrow> nat list \<Rightarrow> 'c \<Rightarrow> bool" where
  "arms_state f l b Ts news ends c \<longleftrightarrow>
     (\<exists>g b'. view c = (g, l @ concat news, b') \<and> (\<forall>a. f a \<longrightarrow> g a) \<and> (\<forall>a. g a \<longrightarrow> f a \<or> a \<in> set (concat news)) \<and>
        (\<forall>a \<in> set (concat news). \<not> f a) \<and> length news = length Ts \<and>
        ends = map (\<lambda>i. length l + length (concat (take (Suc i) news))) [0..<length Ts] \<and>
        (\<forall>i < length Ts. \<forall>X \<in> fst (Ts ! i). set (news ! i) \<subseteq> X) \<and>
        (\<not> b \<and> length l + sum_list (map snd Ts) \<le> LOG_MAX \<longrightarrow>
           \<not> b' \<and> length (concat news) \<le> sum_list (map snd Ts) \<and>
           (\<forall>i < length Ts. \<forall>a. (\<forall>X \<in> fst (Ts ! i). a \<in> X) \<longrightarrow> f a \<or> a \<in> set (news ! i))))"

lemma arms_start: "view c = (f, l, b) \<Longrightarrow> arms_state f l b [] [] [] c"
  by (simp add: arms_state_def)

lemma arms_lift:
  assumes "arms_state f l b Ts news ends c"
  shows "\<exists>b'. view (lift (length l) c) = (f, l @ concat news, b')"
proof -
  from assms obtain g b' where g: "view c = (g, l @ concat news, b')" "\<forall>a. f a \<longrightarrow> g a"
      "\<forall>a. g a \<longrightarrow> f a \<or> a \<in> set (concat news)" "\<forall>a \<in> set (concat news). \<not> f a"
    unfolding arms_state_def by blast
  have "lifted (length l) g (l @ concat news) = f" using g(2-4) by (auto simp: lifted_def fun_eq_iff)
  then show ?thesis by (simp add: view_lift v_lift_def g(1))
qed

lemma arms_step:
  assumes s: "arms_state f l b Ts news ends c" and p: "paths T n (view (lift (length l) c)) (view c')"
  shows "\<exists>new. arms_state f l b (Ts @ [(T, n)]) (news @ [new]) (ends @ [length (fst (snd (view c')))]) c'"
proof -
  from s obtain g b1 where g: "view c = (g, l @ concat news, b1)" "\<forall>a \<in> set (concat news). \<not> f a" "length news = length Ts"
      "ends = map (\<lambda>i. length l + length (concat (take (Suc i) news))) [0..<length Ts]"
      "\<forall>i < length Ts. \<forall>X \<in> fst (Ts ! i). set (news ! i) \<subseteq> X"
      "\<not> b \<and> length l + sum_list (map snd Ts) \<le> LOG_MAX \<longrightarrow>
           \<not> b1 \<and> length (concat news) \<le> sum_list (map snd Ts) \<and>
           (\<forall>i < length Ts. \<forall>a. (\<forall>X \<in> fst (Ts ! i). a \<in> X) \<longrightarrow> f a \<or> a \<in> set (news ! i))"
      "\<forall>a. f a \<longrightarrow> g a" "\<forall>a. g a \<longrightarrow> f a \<or> a \<in> set (concat news)"
    unfolding arms_state_def by blast
  have "lifted (length l) g (l @ concat news) = f" using g(2,7,8) by (auto simp: lifted_def fun_eq_iff)
  then have "view (lift (length l) c) = (f, l @ concat news, b1)" by (simp add: view_lift v_lift_def g(1))
  with p have "paths T n (f, l @ concat news, b1) (view c')" by simp
  then obtain new b2 where n: "view c' = (\<lambda>a. f a \<or> a \<in> set new, (l @ concat news) @ new, b2)" "\<And>a. a \<in> set new \<Longrightarrow> \<not> f a"
      "\<And>X. X \<in> T \<Longrightarrow> set new \<subseteq> X"
      "\<not> b1 \<Longrightarrow> length (l @ concat news) + n \<le> LOG_MAX \<Longrightarrow>
         \<not> b2 \<and> length new \<le> n \<and> (\<forall>a. (\<forall>X \<in> T. a \<in> X) \<longrightarrow> f a \<or> a \<in> set new)"
    by (rule pathsE) blast
  have e: "ends @ [length (fst (snd (view c')))] =
      map (\<lambda>i. length l + length (concat (take (Suc i) (news @ [new])))) [0..<length (Ts @ [(T, n)])]"
    using g(3) by (simp add: g(4) n(1))
  have bound: "\<not> b2 \<and> length (concat (news @ [new])) \<le> sum_list (map snd (Ts @ [(T, n)])) \<and>
      (\<forall>i < length (Ts @ [(T, n)]). \<forall>a. (\<forall>X \<in> fst ((Ts @ [(T, n)]) ! i). a \<in> X) \<longrightarrow> f a \<or> a \<in> set ((news @ [new]) ! i))"
    if "\<not> b \<and> length l + sum_list (map snd (Ts @ [(T, n)])) \<le> LOG_MAX"
  proof -
    from that g(6) have 1: "\<not> b1" "length (concat news) \<le> sum_list (map snd Ts)"
      "\<forall>i < length Ts. \<forall>a. (\<forall>X \<in> fst (Ts ! i). a \<in> X) \<longrightarrow> f a \<or> a \<in> set (news ! i)" by auto
    with that have 2: "\<not> b2 \<and> length new \<le> n \<and> (\<forall>a. (\<forall>X \<in> T. a \<in> X) \<longrightarrow> f a \<or> a \<in> set new)" by (intro n(4)) auto
    with 1 g(3) show ?thesis by (auto simp: nth_append less_Suc_eq)
  qed
  have sub: "\<forall>i < length (Ts @ [(T, n)]). \<forall>X \<in> fst ((Ts @ [(T, n)]) ! i). set ((news @ [new]) ! i) \<subseteq> X"
    using g(3,5) n(3) by (auto simp: nth_append less_Suc_eq)
  show ?thesis unfolding arms_state_def
    using n(1,2) g(2,3) e bound sub by (intro exI conjI) auto
qed

lemma segments_concat:
  "segments (p @ concat news) (length p) (map (\<lambda>i. length p + length (concat (take (Suc i) news))) [0..<length news]) = news"
proof (induction news arbitrary: p)
  case (Cons x news)
  have "map (\<lambda>i. length p + length (concat (take (Suc i) (x # news)))) [0..<length (x # news)] =
      (length p + length x) # map (\<lambda>i. length (p @ x) + length (concat (take (Suc i) news))) [0..<length news]"
    by (simp add: upt_conv_Cons map_Suc_upt [symmetric] comp_def del: upt_Suc)
  with Cons.IH [of "p @ x"] show ?case by simp
qed simp

text \<open>A join that keeps nothing, for too many arms or after an overflow.\<close>

lemma arms_dropped:
  assumes "arms_state f l b Ts news ends c"
  shows "view (join_arms (length l) None c) = (f, l @ [], False)"
    and "snd (snd (view c)) \<Longrightarrow> view (join_arms (length l) (Some ends) c) = (f, l @ [], False)"
proof -
  from assms obtain g b' where g: "view c = (g, l @ concat news, b')" "\<forall>a. f a \<longrightarrow> g a"
      "\<forall>a. g a \<longrightarrow> f a \<or> a \<in> set (concat news)" "\<forall>a \<in> set (concat news). \<not> f a"
    unfolding arms_state_def by blast
  have l: "lifted (length l) g (l @ concat news) = f" using g(2-4) by (auto simp: lifted_def fun_eq_iff)
  then show "view (join_arms (length l) None c) = (f, l @ [], False)" by (simp add: view_arms v_arms_def g(1))
  show "view (join_arms (length l) (Some ends) c) = (f, l @ [], False)" if "snd (snd (view c))"
    using that l by (simp add: view_arms v_arms_def g(1) split: list.splits)
qed

lemma arms_join_paths:
  assumes s: "arms_state f l b Ts news ends c" and ne: "Ts \<noteq> []"
  shows "paths (\<Union> (fst ` set Ts)) (sum_list (map snd Ts)) (f, l, b) (view (join_arms (length l) (Some ends) c))"
proof -
  let ?T = "\<Union> (fst ` set Ts)" and ?n = "sum_list (map snd Ts)"
  from s obtain g b1 where g: "view c = (g, l @ concat news, b1)" "\<forall>a \<in> set (concat news). \<not> f a" "length news = length Ts"
      "ends = map (\<lambda>i. length l + length (concat (take (Suc i) news))) [0..<length Ts]"
      "\<forall>i < length Ts. \<forall>X \<in> fst (Ts ! i). set (news ! i) \<subseteq> X"
      "\<not> b \<and> length l + ?n \<le> LOG_MAX \<longrightarrow> \<not> b1 \<and> length (concat news) \<le> ?n \<and>
           (\<forall>i < length Ts. \<forall>a. (\<forall>X \<in> fst (Ts ! i). a \<in> X) \<longrightarrow> f a \<or> a \<in> set (news ! i))"
      "\<forall>a. f a \<longrightarrow> g a" "\<forall>a. g a \<longrightarrow> f a \<or> a \<in> set (concat news)"
    unfolding arms_state_def by blast
  show ?thesis
  proof (cases b1)
    case True
    then have "view (join_arms (length l) (Some ends) c) = (f, l @ [], False)"
      using arms_dropped(2) [OF s] by (simp add: g(1))
    moreover have "\<not> (\<not> b \<and> length l + ?n \<le> LOG_MAX)" using g(6) True by blast
    ultimately show ?thesis by (simp only:) (rule pathsI, auto)
  next
    case False
    obtain x ns where xs: "news = x # ns" using ne g(3) by (cases news) auto
    have len: "length Ts = Suc (length ns)" using g(3) xs by simp
    define rest where "rest = map (\<lambda>i. length (l @ x) + length (concat (take (Suc i) ns))) [0..<length ns]"
    have ends: "ends = (length l + length x) # rest"
      by (simp add: g(4) len xs rest_def upt_conv_Cons map_Suc_upt [symmetric] comp_def del: upt_Suc)
    have seg: "segments (l @ x @ concat ns) (length l + length x) rest = ns"
      using segments_concat [of "l @ x" ns] by (simp add: rest_def)
    define ev where "ev a \<longleftrightarrow> (\<forall>s \<in> set ns. a \<in> set s)" for a
    define w where "w = kept ev x"
    define h where "h a \<longleftrightarrow> (if a \<in> set x then ev a else g a) \<and> \<not> (a \<in> set (concat ns) \<and> a \<notin> set (w @ drop (length w) x))" for a
    have view: "view (join_arms (length l) (Some ends) c) = (h, l @ w, False)"
      using False by (simp add: view_arms v_arms_def g(1) ends seg Let_def xs w_def ev_def [abs_def] h_def [abs_def])
    have w: "set w = {a \<in> set x. ev a}" by (simp add: w_def)
    have all: "a \<in> set x \<and> ev a \<longleftrightarrow> (\<forall>i < length Ts. a \<in> set (news ! i))" for a
      by (auto simp: ev_def xs len all_set_conv_all_nth nth_Cons' less_Suc_eq_0_disj)
    have h: "h a \<longleftrightarrow> f a \<or> a \<in> set w" for a
    proof (cases "a \<in> set x")
      case True
      then have "\<not> f a" using g(2) xs by simp
      with True show ?thesis by (auto simp: h_def w)
    next
      case False
      then have "a \<notin> set (w @ drop (length w) x)" using w set_drop_subset [of "length w" x] by auto
      then have "h a \<longleftrightarrow> g a \<and> a \<notin> set (concat ns)" using False by (simp add: h_def)
      moreover have "f a \<Longrightarrow> a \<notin> set (concat ns)" using g(2) xs by auto
      ultimately show ?thesis using g(7,8) False w xs by auto
    qed
    have "paths ?T ?n (f, l, b) (h, l @ w, False)"
    proof (rule pathsI)
      show "\<not> f a" if "a \<in> set w" for a using that g(2) w xs by auto
      show "set w \<subseteq> X" if "X \<in> ?T" for X
      proof -
        from that obtain i where "i < length Ts" "X \<in> fst (Ts ! i)" by (auto simp: in_set_conv_nth)
        with g(5) have "set (news ! i) \<subseteq> X" by blast
        with all w \<open>i < length Ts\<close> show ?thesis by blast
      qed
      show "h a \<longleftrightarrow> f a \<or> a \<in> set w" for a by (rule h)
      assume "\<not> b" "length l + ?n \<le> LOG_MAX"
      with g(6) have 1: "length (concat news) \<le> ?n"
        "\<forall>i < length Ts. \<forall>a. (\<forall>X \<in> fst (Ts ! i). a \<in> X) \<longrightarrow> f a \<or> a \<in> set (news ! i)" by auto
      have "length w \<le> ?n" using 1(1) length_kept [of ev x] xs w_def by simp
      moreover have "f a \<or> a \<in> set w" if a: "\<forall>X \<in> ?T. a \<in> X" for a
      proof -
        have "f a \<or> a \<in> set (news ! i)" if "i < length Ts" for i
        proof -
          have "\<forall>X \<in> fst (Ts ! i). a \<in> X" using a that nth_mem by blast
          with 1(2) that show ?thesis by blast
        qed
        with all [of a] w show ?thesis by blast
      qed
      ultimately show "\<not> False \<and> length w \<le> ?n \<and> (\<forall>a. (\<forall>X \<in> ?T. a \<in> X) \<longrightarrow> f a \<or> a \<in> set w)" by blast
    qed
    then show ?thesis by (simp only: view)
  qed
qed

end

end
