(* ===== verification/CkDropSound.thy ===== *)
theory CkDropSound
  imports CkDropPaths
begin

text \<open>
  Bodies built from drops, uses and the constructs that join paths, as the checker
  walks them, and the contract of every such body.
\<close>

section \<open>Bodies\<close>

datatype dprog = D_DROP string place | D_USE string place | D_IF dprog "dprog option" | D_MATCH "dprog list"
  | D_SWITCH bool "dprog list"
  | D_CATCH dprog dprog | D_WHILE dprog | D_BLOCK "dprog list"

text \<open>The argument of a drop is itself a use of the name.\<close>

primrec check :: "dprog \<Rightarrow> CheckCtx \<Rightarrow> CheckCtx" where
  "check (D_DROP n p) = (\<lambda>c. call_drop n p (use_ident n p c))"
| "check (D_USE n p) = use_ident n p"
| "check (D_IF p q) = infer_if (check p) (map_option check q)"
| "check (D_MATCH ps) = infer_match (map check ps)"
| "check (D_SWITCH w ps) = infer_switch w (map check ps)"
| "check (D_CATCH g h) = infer_catch_join (check g) (check h)"
| "check (D_WHILE b) = infer_while (check b)"
| "check (D_BLOCK ps) = infer_block (fold (\<lambda>f. f) (map check ps))"

text \<open>The entry that a drop of a name would release.\<close>

definition target :: "CheckCtx \<Rightarrow> string \<Rightarrow> addr option" where
  "target c n = (case ck_env_find c n of None \<Rightarrow> None
     | Some a \<Rightarrow> if type_is_drop_owned (ee_type (ent c a)) \<and> \<not> ee_is_param (ent c a) \<and> \<not> ee_captured (ent c a) \<and> \<not> in_loop c a
         then Some a else None)"

text \<open>
  The alternatives of a body: for each path the entries that it releases. A loop runs
  or does not run; inside it no entry from outside can be released.
\<close>

primrec alts :: "dprog \<Rightarrow> (string \<Rightarrow> addr option) \<Rightarrow> addr set set" where
  "alts (D_DROP n p) = (\<lambda>E. {set_option (E n)})"
| "alts (D_USE n p) = (\<lambda>E. {{}})"
| "alts (D_IF p q) = (\<lambda>E. alts p E \<union> (case map_option alts q of None \<Rightarrow> {{}} | Some A \<Rightarrow> A E))"
| "alts (D_MATCH ps) = (\<lambda>E. if ps = [] then {{}} else \<Union> (set (map (\<lambda>A. A E) (map alts ps))))"
| "alts (D_SWITCH w ps) = (\<lambda>E. (if w \<and> ps \<noteq> [] then {} else {{}}) \<union> \<Union> (set (map (\<lambda>A. A E) (map alts ps))))"
| "alts (D_CATCH g h) = (\<lambda>E. alts g E \<union> alts h E)"
| "alts (D_WHILE b) = (\<lambda>E. insert {} (alts b (\<lambda>_. None)))"
| "alts (D_BLOCK ps) = (\<lambda>E. fold (\<lambda>A B. both_of B (A E)) (map alts ps) {{}})"

text \<open>
  The entries that the log may have to hold for a body. A match of more than 64 arms
  keeps nothing at its join; it counts as more than the log holds.
\<close>

primrec need :: "dprog \<Rightarrow> nat" where
  "need (D_DROP n p) = 1"
| "need (D_USE n p) = 0"
| "need (D_IF p q) = need p + (case map_option need q of None \<Rightarrow> 0 | Some k \<Rightarrow> k)"
| "need (D_MATCH ps) = (if length ps > 64 then Suc LOG_MAX else sum_list (map need ps))"
| "need (D_SWITCH w ps) = (if length ps > 64 then Suc LOG_MAX else sum_list (map need ps))"
| "need (D_CATCH g h) = need g + need h"
| "need (D_WHILE b) = need b"
| "need (D_BLOCK ps) = sum_list (map need ps)"

primrec nest :: "dprog \<Rightarrow> nat" where
  "nest (D_DROP n p) = 0"
| "nest (D_USE n p) = 0"
| "nest (D_IF p q) = max (nest p) (case map_option nest q of None \<Rightarrow> 0 | Some k \<Rightarrow> k)"
| "nest (D_MATCH ps) = Suc (fold max (map nest ps) 0)"
| "nest (D_SWITCH w ps) = fold max (map nest ps) 0"
| "nest (D_CATCH g h) = max (nest g) (Suc (nest h))"
| "nest (D_WHILE b) = nest b"
| "nest (D_BLOCK ps) = Suc (fold max (map nest ps) 0)"

lemma le_fold_max: "x \<in> set xs \<Longrightarrow> x \<le> fold max xs (k :: nat)"
proof -
  have "k \<le> fold max xs k" for xs and k :: nat
    by (induction xs arbitrary: k) (auto intro: le_trans [OF max.cobounded2])
  then show "x \<in> set xs \<Longrightarrow> x \<le> fold max xs k"
    by (induction xs arbitrary: k) (auto intro: le_trans [OF max.cobounded1])
qed

lemma both_of_unit [simp]: "both_of A {{}} = A" "both_of {{}} A = A"
  by (auto simp: both_of_def)

lemma alts_none: "alts p (\<lambda>_. None) = {{}}"
proof (induction p)
  case (D_IF p q)
  then show ?case by (cases q) auto
next
  case (D_MATCH ps)
  then show ?case by (cases ps) auto
next
  case (D_SWITCH w ps)
  then show ?case by (cases ps) auto
next
  case (D_BLOCK ps)
  then have "fold (\<lambda>A B. both_of B (A (\<lambda>_. None))) (map alts ps) {{}} = {{}}"
    by (induction ps) auto
  then show ?case by simp
qed auto

section \<open>The environment\<close>

lemma live_addrs_mem: "a \<in> set (live_addrs c) \<longleftrightarrow> fst a < cc_depth c \<and> snd a < count_at c (fst a)"
  by (cases a) (force simp: live_addrs_def scope_addrs_def)

lemma live_addrs_cong: "cc_depth d = cc_depth c \<Longrightarrow> (\<And>k. k < cc_depth c \<Longrightarrow> count_at d k = count_at c k) \<Longrightarrow> live_addrs d = live_addrs c"
  by (auto simp: live_addrs_def scope_addrs_def intro!: arg_cong [where f = concat])

lemma same_env_live: "same_env c d \<Longrightarrow> live_addrs d = live_addrs c"
  by (rule live_addrs_cong) (simp_all add: same_env_def)

lemma plainD:
  "plain e = plain e' \<Longrightarrow> ee_name e = ee_name e' \<and> ee_type e = ee_type e' \<and> ee_is_param e = ee_is_param e' \<and>
     ee_captured e = ee_captured e' \<and> ee_scope_depth e = ee_scope_depth e'"
  by (cases e; cases e') (simp add: plain_def)

lemma find_cong_names:
  "(\<And>a. a \<in> set xs \<Longrightarrow> f a = g a) \<Longrightarrow> List.find (\<lambda>a. f a = n) xs = List.find (\<lambda>a. g a = n) xs"
  by (induction xs) auto

lemma same_env_entry: "same_env c d \<Longrightarrow> a \<in> set (live_addrs c) \<Longrightarrow> plain (ent d a) = plain (ent c a)"
  by (simp add: same_env_def live_addrs_mem del: split_paired_All)

lemma same_env_find:
  assumes "same_env c d"
  shows "ck_env_find d n = ck_env_find c n"
proof -
  have "ee_name (ent d a) = ee_name (ent c a)" if "a \<in> set (rev (live_addrs c))" for a
    using plainD [OF same_env_entry [OF assms]] that by simp
  then show ?thesis unfolding ck_env_find_def same_env_live [OF assms] by (rule find_cong_names)
qed

lemma find_live: "ck_env_find c n = Some a \<Longrightarrow> a \<in> set (live_addrs c)"
  by (auto simp: ck_env_find_def find_Some_iff rev_nth)

lemma same_env_target: "same_env c d \<Longrightarrow> target d = target c"
proof
  fix n assume e: "same_env c d"
  show "target d n = target c n"
  proof (cases "ck_env_find c n")
    case (Some a)
    from plainD [OF same_env_entry [OF e find_live [OF Some]]] e Some show ?thesis
      by (simp add: target_def same_env_find in_loop_def) (simp add: same_env_def)
  qed (simp add: target_def same_env_find [OF e])
qed

definition wf_depths :: "CheckCtx \<Rightarrow> bool" where
  "wf_depths c \<longleftrightarrow> (\<forall>a \<in> set (live_addrs c). ee_scope_depth (ent c a) \<le> cc_depth c)"

lemma same_env_wf: "same_env c d \<Longrightarrow> wf_depths c \<Longrightarrow> wf_depths d"
  using plainD [OF same_env_entry] by (fastforce simp: wf_depths_def same_env_live same_env_def)

section \<open>Scopes\<close>

text \<open>The leak scan only adds messages.\<close>

definition only_messages :: "CheckCtx \<Rightarrow> CheckCtx \<Rightarrow> bool" where
  "only_messages c d \<longleftrightarrow> d = c\<lparr>cc_errors := cc_errors d, cc_warnings := cc_warnings d\<rparr>"

lemma only_messages_refl [simp]: "only_messages c c"
  by (simp add: only_messages_def)

lemma only_messages_trans: "only_messages c d \<Longrightarrow> only_messages d e \<Longrightarrow> only_messages c e"
  unfolding only_messages_def by (cases c; cases d; cases e) simp

lemma only_messages_check [simp]: "only_messages c (check_error p m c)" "only_messages c (check_warn p m c)"
  by (simp_all add: only_messages_def check_error_def check_warn_def)

lemma only_messages_entry: "only_messages c (fst (leak_entry s k a (c, seen)))"
proof -
  define d where "d = (if cc_warn_leaks c \<and> type_is_drop_owned (ee_type (ent c a))
     then check_warn (ee_pos (ent c a)) (Leak (ee_name (ent c a))) c else c)"
  have "only_messages c d" by (simp add: d_def)
  then have "only_messages c (check_error p m d)" "only_messages c (check_warn p m d)" for p m
    by (blast intro: only_messages_trans only_messages_check)+
  with \<open>only_messages c d\<close> show ?thesis by (simp add: leak_entry_def Let_def d_def [symmetric])
qed

lemma leak_scan_only: "only_messages c (leak_scan_scope s c)"
proof -
  have "only_messages c (fst (fold (leak_entry s k) xs (d, seen)))" if "only_messages c d" for k xs d seen
    using that
  proof (induction xs arbitrary: d seen)
    case (Cons a xs)
    obtain d' seen' where e: "leak_entry s k a (d, seen) = (d', seen')" by fastforce
    then have "only_messages c d'" using only_messages_entry [of d s k a seen] only_messages_trans [OF Cons.prems] by simp
    with Cons.IH e show ?case by simp
  qed simp
  then show ?thesis by (simp add: leak_scan_scope_def)
qed

lemma pop_scope_eq: "\<exists>e w. pop_scope c = c\<lparr>cc_errors := e, cc_warnings := w, cc_depth := cc_depth c - 1\<rparr>"
proof -
  have "leak_scan_scope None c = c\<lparr>cc_errors := cc_errors (leak_scan_scope None c), cc_warnings := cc_warnings (leak_scan_scope None c)\<rparr>"
    using leak_scan_only unfolding only_messages_def .
  then obtain e w where "leak_scan_scope None c = c\<lparr>cc_errors := e, cc_warnings := w\<rparr>" by blast
  then show ?thesis by (intro exI [of _ e] exI [of _ w]) (simp add: pop_scope_def pop_scope_skip_def)
qed

lemma drop_view_fields [simp]:
  "drop_view (c\<lparr>cc_errors := e\<rparr>) = drop_view c" "drop_view (c\<lparr>cc_warnings := w\<rparr>) = drop_view c"
  "drop_view (c\<lparr>cc_depth := k\<rparr>) = drop_view c" "drop_view (c\<lparr>cc_loop_depth := k\<rparr>) = drop_view c"
  "drop_view (c\<lparr>cc_freeze_log := l\<rparr>) = drop_view c" "drop_view (c\<lparr>cc_freeze_log_overflowed := b\<rparr>) = drop_view c"
  "drop_view (check_error p m c) = drop_view c"
  by (simp_all add: drop_view_def check_error_def)

lemma ent_push [simp]: "ent (push_scope c) a = ent c a"
  by (simp add: push_scope_def ent_def)

lemma drop_view_scope [simp]: "drop_view (push_scope c) = drop_view c" "drop_view (pop_scope c) = drop_view c"
proof -
  show "drop_view (push_scope c) = drop_view c" by (simp add: drop_view_def) (simp add: push_scope_def)
  show "drop_view (pop_scope c) = drop_view c" using pop_scope_eq [of c] by fastforce
qed

lemma push_scope_env:
  assumes "cc_depth c < ENV_MAX"
  shows "live_addrs (push_scope c) = live_addrs c" "cc_depth (push_scope c) = Suc (cc_depth c)"
    "cc_loop_depth (push_scope c) = cc_loop_depth c" "\<And>d. d < cc_depth c \<Longrightarrow> count_at (push_scope c) d = count_at c d"
proof -
  have c: "count_at (push_scope c) d = (if d = cc_depth c then 0 else count_at c d)" for d
    using assms by (simp add: push_scope_def count_at_def)
  show d: "cc_depth (push_scope c) = Suc (cc_depth c)" using assms by (simp add: push_scope_def)
  show "cc_loop_depth (push_scope c) = cc_loop_depth c" by (simp add: push_scope_def)
  show "\<And>d. d < cc_depth c \<Longrightarrow> count_at (push_scope c) d = count_at c d" by (simp add: c)
  show "live_addrs (push_scope c) = live_addrs c"
    by (auto simp: live_addrs_def d scope_addrs_def c intro!: arg_cong [where f = concat])
qed

lemma push_scope_target: "cc_depth c < ENV_MAX \<Longrightarrow> target (push_scope c) = target c"
  by (auto simp: target_def ck_env_find_def push_scope_env in_loop_def fun_eq_iff split: option.splits)

lemma push_scope_wf: "cc_depth c < ENV_MAX \<Longrightarrow> wf_depths c \<Longrightarrow> wf_depths (push_scope c)"
  by (auto simp: wf_depths_def push_scope_env)

lemma same_env_pop:
  assumes "cc_depth c < ENV_MAX" "same_env (push_scope c) d"
  shows "same_env c (pop_scope d)"
proof -
  obtain e w where p: "pop_scope d = d\<lparr>cc_errors := e, cc_warnings := w, cc_depth := cc_depth d - 1\<rparr>" using pop_scope_eq by blast
  show ?thesis using assms(2) push_scope_env [OF assms(1)] by (simp add: p same_env_def)
qed

section \<open>The other log\<close>

lemma drop_view_frozen [simp]: "drop_view (set_frozen b a c) = drop_view c"
  by (rule view_set(3))

lemma drop_view_freeze [simp]:
  "drop_view (freeze_lift_from b c) = drop_view c" "drop_view (freeze_join2 b m c) = drop_view c"
  "drop_view (freeze_join_arms b ends c) = drop_view c"
proof -
  have 1: "drop_view (fold (\<lambda>a. set_frozen (g a) a) xs d) = drop_view d" for g xs d
    by (induction xs arbitrary: d) auto
  from this [of "\<lambda>_. False"] show l: "drop_view (freeze_lift_from b c) = drop_view c" for b c by (simp add: freeze_lift_from_def)
  show "drop_view (freeze_join2 b m c) = drop_view c" using l 1 by (simp add: freeze_join2_def Let_def)
  have 2: "drop_view (fold (\<lambda>a d. if frozen d a \<and> P a then set_frozen False a d else d) xs d) = drop_view d" for P xs d
    by (induction xs arbitrary: d) auto
  show "drop_view (freeze_join_arms b ends c) = drop_view c"
    using l 1 2 by (simp add: freeze_join_arms_def arms_first_eq Let_def split: option.splits list.splits)
qed

lemma marks_view: "fst (log_marks c) = length (fst (snd (drop_view c)))"
  by (simp add: log_marks_def drop_view_def)

lemma both_view:
  "drop_view (lift_both b c) = drop_view (drop_lift_from (fst b) c)"
  "drop_view (join2_both b m c) = drop_view (drop_join2 (fst b) (fst m) c)"
  "drop_view (arms_both b ends c) = drop_view (drop_join_arms (fst b) (if length ends \<le> 64 then Some (map fst ends) else None) c)"
  by (simp_all add: lift_both_def join2_both_def arms_both_def Let_def)

lemma both_env:
  "same_env c d \<Longrightarrow> same_env c (lift_both b d)" "same_env c d \<Longrightarrow> same_env c (join2_both b m d)"
  "same_env c d \<Longrightarrow> same_env c (arms_both b ends d)" "same_env c d \<Longrightarrow> same_env c (cut_both b d)"
  by (simp_all add: lift_both_def join2_both_def arms_both_def cut_both_def Let_def same_env_joins same_env_join_arms)

end
