(* ===== verification/CkDropCheck.thy ===== *)
theory CkDropCheck
  imports CkDropSound
begin

text \<open>The contract of every body: what the checker flags is what every alternative releases.\<close>

definition contract :: "dprog \<Rightarrow> bool" where
  "contract p \<longleftrightarrow> (\<forall>c. wf_depths c \<longrightarrow> cc_depth c + nest p \<le> ENV_MAX \<longrightarrow>
     paths (alts p (target c)) (need p) (drop_view c) (drop_view (check p c)) \<and> same_env c (check p c))"

lemma contractD:
  assumes "contract p" "wf_depths c" "cc_depth c + nest p \<le> ENV_MAX"
  shows "paths (alts p (target c)) (need p) (drop_view c) (drop_view (check p c))" "same_env c (check p c)"
  using assms by (simp_all add: contract_def)

text \<open>The same from a state that has the environment of another.\<close>

lemma contract_env:
  assumes "contract p" "wf_depths c" "cc_depth c + nest p \<le> ENV_MAX" "same_env c d"
  shows "paths (alts p (target c)) (need p) (drop_view d) (drop_view (check p d))" "same_env c (check p d)"
proof -
  have "cc_depth d = cc_depth c" using assms(4) by (simp add: same_env_def)
  with assms have "wf_depths d" "cc_depth d + nest p \<le> ENV_MAX" by (simp_all add: same_env_wf)
  from contractD [OF assms(1) this] show "paths (alts p (target c)) (need p) (drop_view d) (drop_view (check p d))" "same_env c (check p d)"
    using same_env_target [OF assms(4)] same_env_trans [OF assms(4)] by simp_all
qed

lemma drop_view_use [simp]: "drop_view (use_ident n p c) = drop_view c"
  by (simp add: use_ident_def split: option.splits)

lemma same_env_use [simp]: "same_env c (use_ident n p d) = same_env c d"
  by (simp add: use_ident_def split: option.splits)

lemma contract_use: "contract (D_USE n p)"
  by (simp add: contract_def paths_id)

lemma contract_drop: "contract (D_DROP n p)"
  unfolding contract_def
proof (intro allI impI)
  fix c
  let ?c = "use_ident n p c"
  have e: "same_env c ?c" by simp
  have tt: "target ?c = target c" using same_env_target [OF e] .
  have v: "drop_view ?c = drop_view c" by simp
  have "same_env ?c (call_drop n p ?c)" by (simp add: call_drop_def split: option.splits)
  then have env: "same_env c (call_drop n p ?c)" using same_env_trans [OF e] by blast
  have "paths {set_option (target ?c n)} 1 (drop_view ?c) (drop_view (call_drop n p ?c))"
  proof (cases "ck_env_find ?c n")
    case None
    then show ?thesis by (simp add: target_def call_drop_def paths_id)
  next
    case (Some a)
    show ?thesis
    proof (cases "target ?c n")
      case None
      then have "drop_view (call_drop n p ?c) = drop_view ?c"
        using Some by (auto simp: target_def call_drop_def split: if_splits)
      with None show ?thesis by (simp add: paths_id del: drop_view_use)
    next
      case t: (Some b)
      then have ab: "b = a" and g: "type_is_drop_owned (ee_type (ent ?c a))" "\<not> ee_is_param (ent ?c a)" "\<not> ee_captured (ent ?c a)" "\<not> in_loop ?c a"
        using Some by (simp_all add: target_def split: if_splits)
      consider "dropped ?c a" | "\<not> dropped ?c a" "length (cc_drop_log ?c) < LOG_MAX" | "\<not> dropped ?c a" "\<not> length (cc_drop_log ?c) < LOG_MAX" by blast
      then show ?thesis
      proof cases
        case 1
        then have "drop_view (call_drop n p ?c) = drop_view ?c" using Some g by (simp add: call_drop_def del: drop_view_use)
        then show ?thesis using 1 by (simp add: t ab del: drop_view_use) (auto simp: paths_def drop_view_def)
      next
        case 2
        then have "drop_view (call_drop n p ?c) = ((dropped ?c)(a := True), cc_drop_log ?c @ [a], cc_drop_log_overflowed ?c)"
          using Some g by (auto simp: call_drop_def drop_view_def fun_eq_iff)
        then show ?thesis using 2 unfolding t ab drop_view_def [of ?c] by (simp only:) (rule pathsI, auto)
      next
        case 3
        then have "drop_view (call_drop n p ?c) = (dropped ?c, cc_drop_log ?c @ [], True)"
          using Some g by (auto simp: call_drop_def drop_view_def fun_eq_iff)
        then show ?thesis using 3 unfolding t ab drop_view_def [of ?c] by (simp only:) (rule pathsI, auto)
      qed
    qed
  qed
  with env show "paths (alts (D_DROP n p) (target c)) (need (D_DROP n p)) (drop_view c) (drop_view (check (D_DROP n p) c)) \<and>
      same_env c (check (D_DROP n p) c)"
    by (simp add: tt)
qed

lemma drop_view_triple: obtains f l b where "drop_view c = (f, l, b)" "fst (log_marks c) = length l"
  by (cases "drop_view c") (simp add: marks_view)

lemma view_lift_both: "drop_view (lift_both b c) = drop_view (drop_lift_from (fst b) c)"
  by (rule both_view)

lemma contract_if:
  assumes p: "contract p" and q: "\<And>r. q = Some r \<Longrightarrow> contract r"
  shows "contract (D_IF p q)"
  unfolding contract_def
proof (intro allI impI)
  fix c assume w: "wf_depths c" and d: "cc_depth c + nest (D_IF p q) \<le> ENV_MAX"
  obtain f l b where v: "drop_view c = (f, l, b)" "fst (log_marks c) = length l" by (rule drop_view_triple)
  let ?c1 = "check p c" and ?m = "log_marks c" let ?c2 = "lift_both ?m ?c1"
  have 1: "paths (alts p (target c)) (need p) (drop_view c) (drop_view ?c1)" "same_env c ?c1"
    using contractD [OF p w] d by simp_all
  have e2: "same_env c ?c2" using both_env(1) [OF 1(2)] .
  have v2: "drop_view ?c2 = drop_view (drop_lift_from (length l) ?c1)" by (simp add: both_view v)
  show "paths (alts (D_IF p q) (target c)) (need (D_IF p q)) (drop_view c) (drop_view (check (D_IF p q) c)) \<and> same_env c (check (D_IF p q) c)"
  proof (cases q)
    case None
    from 1(1) obtain x b1 where "drop_view ?c1 = (\<lambda>a. f a \<or> a \<in> set x, l @ x, b1)" "\<And>a. a \<in> set x \<Longrightarrow> \<not> f a"
      unfolding v(1) by (rule pathsE) blast
    then have "drop_view ?c2 = (f, l @ x, b1)" unfolding v2 dl.view_lift by (rule v_lift_paths)
    then have "drop_view (cut_both ?m ?c2) = (f, l, False)"
      using v(2) by (simp add: cut_both_def drop_view_def)
    moreover have "paths (alts p (target c) \<union> {{}}) (need p) (f, l, b) (f, l @ [], False)" by (rule pathsI) auto
    ultimately show ?thesis using both_env(4) [OF e2] by (simp add: None infer_if_def Let_def v)
  next
    case (Some r)
    let ?c3 = "check r ?c2"
    have 2: "paths (alts r (target c)) (need r) (drop_view ?c2) (drop_view ?c3)" "same_env c ?c3"
      using contract_env [OF q [OF Some] w _ e2] d Some by simp_all
    have "drop_view (join2_both ?m (log_marks ?c1) ?c3) = drop_view (drop_join2 (length l) (length (fst (snd (drop_view ?c1)))) ?c3)"
      by (simp add: both_view v marks_view)
    moreover have "paths (alts p (target c) \<union> alts r (target c)) (need p + need r) (drop_view c)
        (drop_view (drop_join2 (length l) (length (fst (snd (drop_view ?c1)))) ?c3))"
      using 2(1) unfolding v2 by (intro dl.join_paths [OF v(1) 1(1)]) auto
    ultimately show ?thesis using both_env(2) [OF 2(2)] by (simp add: Some infer_if_def Let_def)
  qed
qed

text \<open>A body inside a fresh scope.\<close>

lemma contract_scope:
  assumes p: "contract p" and w: "wf_depths c" and d: "cc_depth c + Suc (nest p) \<le> ENV_MAX" and e: "same_env c d'"
  shows "paths (alts p (target c)) (need p) (drop_view d') (drop_view (pop_scope (check p (push_scope d'))))"
    "same_env c (pop_scope (check p (push_scope d')))"
proof -
  have dep: "cc_depth d' = cc_depth c" using e by (simp add: same_env_def)
  then have lt: "cc_depth d' < ENV_MAX" using d by simp
  have "wf_depths (push_scope d')" using push_scope_wf [OF lt] same_env_wf [OF e w] by blast
  moreover have "cc_depth (push_scope d') + nest p \<le> ENV_MAX" using push_scope_env(2) [OF lt] d dep by simp
  ultimately have 1: "paths (alts p (target (push_scope d'))) (need p) (drop_view (push_scope d')) (drop_view (check p (push_scope d')))"
      "same_env (push_scope d') (check p (push_scope d'))"
    by (rule contractD [OF p])+
  show "paths (alts p (target c)) (need p) (drop_view d') (drop_view (pop_scope (check p (push_scope d'))))"
    using 1(1) by (simp add: push_scope_target [OF lt] same_env_target [OF e])
  show "same_env c (pop_scope (check p (push_scope d')))"
    using same_env_trans [OF e same_env_pop [OF lt 1(2)]] .
qed

lemma contract_catch:
  assumes "contract g" "contract h"
  shows "contract (D_CATCH g h)"
  unfolding contract_def
proof (intro allI impI)
  fix c assume w: "wf_depths c" and d: "cc_depth c + nest (D_CATCH g h) \<le> ENV_MAX"
  obtain f l b where v: "drop_view c = (f, l, b)" "fst (log_marks c) = length l" by (rule drop_view_triple)
  let ?c1 = "check g c" and ?m = "log_marks c" let ?c2 = "lift_both ?m ?c1" let ?c3 = "pop_scope (check h (push_scope ?c2))"
  have 1: "paths (alts g (target c)) (need g) (drop_view c) (drop_view ?c1)" "same_env c ?c1"
    using contractD [OF assms(1) w] d by simp_all
  have e2: "same_env c ?c2" using both_env(1) [OF 1(2)] .
  have v2: "drop_view ?c2 = drop_view (drop_lift_from (length l) ?c1)" by (simp add: both_view v)
  have 2: "paths (alts h (target c)) (need h) (drop_view ?c2) (drop_view ?c3)" "same_env c ?c3"
    using contract_scope [OF assms(2) w _ e2] d by simp_all
  have "drop_view (join2_both ?m (log_marks ?c1) ?c3) = drop_view (drop_join2 (length l) (length (fst (snd (drop_view ?c1)))) ?c3)"
    by (simp add: both_view v marks_view)
  moreover have "paths (alts g (target c) \<union> alts h (target c)) (need g + need h) (drop_view c)
      (drop_view (drop_join2 (length l) (length (fst (snd (drop_view ?c1)))) ?c3))"
    using 2(1) unfolding v2 by (intro dl.join_paths [OF v(1) 1(1)]) auto
  ultimately show "paths (alts (D_CATCH g h) (target c)) (need (D_CATCH g h)) (drop_view c) (drop_view (check (D_CATCH g h) c)) \<and>
      same_env c (check (D_CATCH g h) c)"
    using both_env(2) [OF 2(2)] by (simp add: infer_catch_join_def Let_def)
qed

lemma contract_while:
  assumes "contract p"
  shows "contract (D_WHILE p)"
  unfolding contract_def
proof (intro allI impI)
  fix c assume w: "wf_depths c" and d: "cc_depth c + nest (D_WHILE p) \<le> ENV_MAX"
  let ?c = "c\<lparr>cc_loop_depth := cc_depth c\<rparr>"
  have live: "live_addrs ?c = live_addrs c" by (rule live_addrs_cong) simp_all
  have "target ?c n = None" for n
  proof (cases "ck_env_find ?c n")
    case (Some a)
    then have a: "a \<in> set (live_addrs c)" using find_live live by metis
    then have "in_loop ?c a" using w by (auto simp: in_loop_def wf_depths_def live_addrs_mem)
    with Some show ?thesis by (simp add: target_def)
  qed (simp add: target_def)
  then have t: "target ?c = (\<lambda>_. None)" by blast
  have "wf_depths ?c" using w live by (simp add: wf_depths_def)
  then have 1: "paths (alts p (target ?c)) (need p) (drop_view ?c) (drop_view (check p ?c))" "same_env ?c (check p ?c)"
    using contractD [OF assms, of ?c] d by simp_all
  have "same_env c ((check p ?c)\<lparr>cc_loop_depth := cc_loop_depth c\<rparr>)" using 1(2) by (simp add: same_env_def)
  then show "paths (alts (D_WHILE p) (target c)) (need (D_WHILE p)) (drop_view c) (drop_view (check (D_WHILE p) c)) \<and> same_env c (check (D_WHILE p) c)"
    using 1(1) by (simp add: infer_while_def t alts_none)
qed

lemma contract_seq:
  assumes "\<forall>p \<in> set ps. contract p \<and> cc_depth c + nest p \<le> ENV_MAX" and w: "wf_depths c"
    and "paths T k v (drop_view d)" "same_env c d"
  shows "paths (fold (\<lambda>A B. both_of B (A (target c))) (map alts ps) T) (k + sum_list (map need ps)) v (drop_view (fold (\<lambda>f. f) (map check ps) d)) \<and>
    same_env c (fold (\<lambda>f. f) (map check ps) d)"
  using assms
proof (induction ps arbitrary: T k d)
  case (Cons p ps)
  from Cons.prems have p: "contract p" "cc_depth c + nest p \<le> ENV_MAX" by auto
  have 1: "paths (alts p (target c)) (need p) (drop_view d) (drop_view (check p d))" "same_env c (check p d)"
    using contract_env [OF p(1) w p(2) Cons.prems(4)] by simp_all
  from Cons.IH [OF _ w paths_seq [OF Cons.prems(3) 1(1)] 1(2)] Cons.prems(1) show ?case by (simp add: add.assoc)
qed simp

lemma contract_block:
  assumes "\<forall>p \<in> set ps. contract p"
  shows "contract (D_BLOCK ps)"
  unfolding contract_def
proof (intro allI impI)
  fix c assume w: "wf_depths c" and d: "cc_depth c + nest (D_BLOCK ps) \<le> ENV_MAX"
  then have lt: "cc_depth c < ENV_MAX" by simp
  have n: "cc_depth (push_scope c) + nest p \<le> ENV_MAX" if "p \<in> set ps" for p
    using d le_fold_max [of "nest p" "map nest ps" 0] that by (simp add: push_scope_env [OF lt])
  have "paths {{}} 0 (drop_view c) (drop_view (push_scope c))" by (simp add: paths_id)
  from contract_seq [OF _ push_scope_wf [OF lt w] this same_env_refl] n assms
  have "paths (alts (D_BLOCK ps) (target c)) (need (D_BLOCK ps)) (drop_view c) (drop_view (fold (\<lambda>f. f) (map check ps) (push_scope c)))"
    "same_env (push_scope c) (fold (\<lambda>f. f) (map check ps) (push_scope c))"
    by (simp_all add: push_scope_target [OF lt])
  then show "paths (alts (D_BLOCK ps) (target c)) (need (D_BLOCK ps)) (drop_view c) (drop_view (check (D_BLOCK ps) c)) \<and> same_env c (check (D_BLOCK ps) c)"
    using same_env_pop [OF lt] by (simp add: infer_block_def)
qed

lemma arms_fold:
  assumes "\<forall>p \<in> set ps. contract p \<and> cc_depth c + Suc (nest p) \<le> ENV_MAX" and w: "wf_depths c"
    and m: "fst m = length l" and "dl.arms_state f l b Ts news (map fst ends) d" "same_env c d"
    and "fold (infer_arm m) (map check ps) (d, ends) = (d', ends')"
  shows "(\<exists>news'. dl.arms_state f l b (Ts @ map (\<lambda>p. (alts p (target c), need p)) ps) news' (map fst ends') d') \<and>
    same_env c d' \<and> length ends' = length ends + length ps"
  using assms
proof (induction ps arbitrary: Ts news ends d)
  case (Cons p ps)
  from Cons.prems have p: "contract p" "cc_depth c + Suc (nest p) \<le> ENV_MAX" by auto
  let ?d = "lift_both m d" let ?e = "pop_scope (check p (push_scope ?d))"
  have 1: "paths (alts p (target c)) (need p) (drop_view ?d) (drop_view ?e)" "same_env c ?e"
    using contract_scope [OF p(1) w p(2) both_env(1) [OF Cons.prems(5)]] by simp_all
  then have "paths (alts p (target c)) (need p) (drop_view (drop_lift_from (length l) d)) (drop_view ?e)"
    by (simp add: both_view m)
  from dl.arms_step [OF Cons.prems(4) this] obtain new where
    "dl.arms_state f l b (Ts @ [(alts p (target c), need p)]) (news @ [new]) (map fst (ends @ [log_marks ?e])) ?e"
    by (auto simp: marks_view)
  from Cons.IH [OF _ w m this 1(2)] Cons.prems(1,6) show ?case by (simp add: infer_arm_def Let_def)
qed auto

lemma cut_view: "drop_view (cut_both m x) = (fst (drop_view x), take (fst m) (fst (snd (drop_view x))), False)"
  by (simp add: cut_both_def drop_view_def)

lemma switch_fold:
  assumes "\<forall>p \<in> set ps. contract p \<and> cc_depth c + nest p \<le> ENV_MAX" and w: "wf_depths c"
    and m: "fst m = length l" and "dl.arms_state f l b Ts news (map fst ends) d" "same_env c d"
    and "fold (infer_switch_arm m) (map check ps) (d, ends) = (d', ends')"
  shows "(\<exists>news'. dl.arms_state f l b (Ts @ map (\<lambda>p. (alts p (target c), need p)) ps) news' (map fst ends') d') \<and>
    same_env c d' \<and> length ends' = length ends + length ps"
  using assms
proof (induction ps arbitrary: Ts news ends d)
  case (Cons p ps)
  from Cons.prems have p: "contract p" "cc_depth c + nest p \<le> ENV_MAX" by auto
  let ?e = "check p (lift_both m d)"
  have 1: "paths (alts p (target c)) (need p) (drop_view (lift_both m d)) (drop_view ?e)" "same_env c ?e"
    using contract_env [OF p(1) w p(2) both_env(1) [OF Cons.prems(5)]] by simp_all
  then have "paths (alts p (target c)) (need p) (drop_view (drop_lift_from (length l) d)) (drop_view ?e)"
    by (simp add: both_view m)
  from dl.arms_step [OF Cons.prems(4) this] obtain new where
    "dl.arms_state f l b (Ts @ [(alts p (target c), need p)]) (news @ [new]) (map fst (ends @ [log_marks ?e])) ?e"
    by (auto simp: marks_view)
  from Cons.IH [OF _ w m this 1(2)] Cons.prems(1,6) show ?case by (simp add: infer_switch_arm_def Let_def)
qed auto

text \<open>Both kinds of match end with the same join.\<close>

lemma arms_both_paths:
  assumes a: "dl.arms_state f l b (map (\<lambda>p. (alts p E, need p)) ps) news (map fst ends) d" and m: "fst m = length l"
    and len: "length ends = length ps"
  shows "paths (if ps = [] then {{}} else \<Union> (set (map (\<lambda>A. A E) (map alts ps))))
     (if length ps > 64 then Suc LOG_MAX else sum_list (map need ps)) (f, l, b) (drop_view (arms_both m ends d))"
    (is "paths ?T ?n _ _")
proof -
  let ?Ts = "map (\<lambda>p. (alts p E, need p)) ps"
  have view: "drop_view (arms_both m ends d) = drop_view (drop_join_arms (length l) (if length ps \<le> 64 then Some (map fst ends) else None) d)"
    by (simp add: both_view m len)
  show ?thesis
  proof (cases "ps = [] \<or> length ps > 64")
    case True
    then have "drop_join_arms (length l) (if length ps \<le> 64 then Some (map fst ends) else None) d = drop_join_arms (length l) None d"
      using len by (auto simp: drop_join_arms_def)
    then have "drop_view (arms_both m ends d) = (f, l @ [], False)"
      unfolding view using dl.arms_dropped(1) [OF a] by simp
    moreover have "\<not> length l + ?n \<le> LOG_MAX \<or> ?T = {{}}" using True by auto
    ultimately show ?thesis by (simp only:) (rule pathsI, auto)
  next
    case False
    then have "?T = \<Union> (fst ` set ?Ts)" "?n = sum_list (map snd ?Ts)"
      by (auto simp: comp_def)
    then show ?thesis using dl.arms_join_paths [OF a] False view by simp
  qed
qed

lemma contract_match:
  assumes "\<forall>p \<in> set ps. contract p"
  shows "contract (D_MATCH ps)"
  unfolding contract_def
proof (intro allI impI)
  fix c assume w: "wf_depths c" and d: "cc_depth c + nest (D_MATCH ps) \<le> ENV_MAX"
  obtain f l b where v: "drop_view c = (f, l, b)" "fst (log_marks c) = length l" by (rule drop_view_triple)
  obtain d' ends where r: "fold (infer_arm (log_marks c)) (map check ps) (c, []) = (d', ends)" by fastforce
  have n: "cc_depth c + Suc (nest p) \<le> ENV_MAX" if "p \<in> set ps" for p
    using d le_fold_max [of "nest p" "map nest ps" 0] that by simp
  obtain news where a: "dl.arms_state f l b (map (\<lambda>p. (alts p (target c), need p)) ps) news (map fst ends) d'"
      and e: "same_env c d'" and len: "length ends = length ps"
    using arms_fold [OF _ w v(2) _ same_env_refl r, of f b "[]" "[]"] dl.arms_start [OF v(1)] n assms by auto
  have c: "check (D_MATCH ps) c = arms_both (log_marks c) ends d'" by (simp add: infer_match_def r)
  from arms_both_paths [OF a v(2) len] both_env(3) [OF e]
  show "paths (alts (D_MATCH ps) (target c)) (need (D_MATCH ps)) (drop_view c) (drop_view (check (D_MATCH ps) c)) \<and>
      same_env c (check (D_MATCH ps) c)"
    unfolding c v(1) alts.simps need.simps by blast
qed

lemma contract_switch:
  assumes "\<forall>p \<in> set ps. contract p"
  shows "contract (D_SWITCH wild ps)"
  unfolding contract_def
proof (intro allI impI)
  fix c assume w: "wf_depths c" and d: "cc_depth c + nest (D_SWITCH wild ps) \<le> ENV_MAX"
  obtain f l b where v: "drop_view c = (f, l, b)" "fst (log_marks c) = length l" by (rule drop_view_triple)
  obtain d' ends where r: "fold (infer_switch_arm (log_marks c)) (map check ps) (c, []) = (d', ends)" by fastforce
  have n: "cc_depth c + nest p \<le> ENV_MAX" if "p \<in> set ps" for p
    using d le_fold_max [of "nest p" "map nest ps" 0] that by simp
  obtain news where a: "dl.arms_state f l b (map (\<lambda>p. (alts p (target c), need p)) ps) news (map fst ends) d'"
      and e: "same_env c d'" and len: "length ends = length ps"
    using switch_fold [OF _ w v(2) _ same_env_refl r, of f b "[]" "[]"] dl.arms_start [OF v(1)] n assms by auto
  show "paths (alts (D_SWITCH wild ps) (target c)) (need (D_SWITCH wild ps)) (drop_view c) (drop_view (check (D_SWITCH wild ps) c)) \<and>
      same_env c (check (D_SWITCH wild ps) c)"
  proof (cases wild)
    case True
    have c: "check (D_SWITCH wild ps) c = arms_both (log_marks c) ends d'" using True by (simp add: infer_switch_def r)
    have t: "alts (D_SWITCH wild ps) (target c) = (if ps = [] then {{}} else \<Union> (set (map (\<lambda>A. A (target c)) (map alts ps))))"
      using True by auto
    from arms_both_paths [OF a v(2) len] both_env(3) [OF e] show ?thesis unfolding c v(1) t need.simps by blast
  next
    case False
    obtain b' where "drop_view (drop_lift_from (length l) d') = (f, l @ concat news, b')" using dl.arms_lift [OF a] by blast
    then have "drop_view (check (D_SWITCH wild ps) c) = (f, l @ [], False)"
      using False v(2) by (simp add: infer_switch_def r cut_view both_view Let_def)
    moreover have "paths (alts (D_SWITCH wild ps) (target c)) (need (D_SWITCH wild ps)) (f, l, b) (f, l @ [], False)"
      by (rule pathsI) (use False in auto)
    moreover have "same_env c (check (D_SWITCH wild ps) c)"
      using False both_env(4) [OF both_env(1) [OF e]] by (simp add: infer_switch_def r Let_def)
    ultimately show ?thesis unfolding v(1) by simp
  qed
qed

lemma check_contract: "contract p"
proof (induction p)
  case (D_IF p q)
  show ?case by (rule contract_if [OF D_IF(1)]) (use D_IF(2) in auto)
qed (auto intro: contract_drop contract_use contract_match contract_switch contract_catch contract_while contract_block)

end
