(* ===== verification/CkDropProps.thy ===== *)
theory CkDropProps
  imports CkDropCheck
begin

text \<open>What the drop seat belt guarantees, and where it invents an error.\<close>

section \<open>Bodies\<close>

lemma check_flags:
  assumes "wf_depths c" "cc_depth c + nest p \<le> ENV_MAX"
  shows "dropped (check p c) a \<Longrightarrow> dropped c a \<or> (\<forall>X \<in> alts p (target c). a \<in> X)"
    and "\<not> cc_drop_log_overflowed c \<Longrightarrow> length (cc_drop_log c) + need p \<le> LOG_MAX \<Longrightarrow>
      dropped (check p c) a \<longleftrightarrow> dropped c a \<or> (\<forall>X \<in> alts p (target c). a \<in> X)"
proof -
  have "paths (alts p (target c)) (need p) (drop_view c) (drop_view (check p c))"
    using contractD(1) [OF check_contract assms] .
  then have "paths (alts p (target c)) (need p) (dropped c, cc_drop_log c, cc_drop_log_overflowed c) (drop_view (check p c))"
    by (simp add: drop_view_def [of c])
  then obtain new b where n: "drop_view (check p c) = (\<lambda>a. dropped c a \<or> a \<in> set new, cc_drop_log c @ new, b)"
      "\<And>X. X \<in> alts p (target c) \<Longrightarrow> set new \<subseteq> X"
      "\<not> cc_drop_log_overflowed c \<Longrightarrow> length (cc_drop_log c) + need p \<le> LOG_MAX \<Longrightarrow>
        \<not> b \<and> length new \<le> need p \<and> (\<forall>a. (\<forall>X \<in> alts p (target c). a \<in> X) \<longrightarrow> dropped c a \<or> a \<in> set new)"
    by (rule pathsE) blast
  have d: "dropped (check p c) a \<longleftrightarrow> dropped c a \<or> a \<in> set new" for a
    using n(1) by (simp add: drop_view_def fun_eq_iff del: split_paired_All)
  show "dropped (check p c) a \<Longrightarrow> dropped c a \<or> (\<forall>X \<in> alts p (target c). a \<in> X)"
    using d n(2) by blast
  show "\<not> cc_drop_log_overflowed c \<Longrightarrow> length (cc_drop_log c) + need p \<le> LOG_MAX \<Longrightarrow>
      dropped (check p c) a \<longleftrightarrow> dropped c a \<or> (\<forall>X \<in> alts p (target c). a \<in> X)"
    using d n(2,3) by blast
qed


text \<open>A function with two vectors; both are released on one path, one on the other.\<close>

definition entry0 :: EnvEntry where
  "entry0 = new_entry '''' (type_new TYPE_VOID) False 0 (0, 0)"

definition ctx0 :: CheckCtx where
  "ctx0 = \<lparr>cc_scopes = (\<lambda>_. \<lparr>sc_entries = (\<lambda>_. entry0), sc_count = 0\<rparr>), cc_depth = 0, cc_errors = [], cc_warnings = [],
     cc_warn_leaks = False, cc_drop_log = [], cc_drop_log_overflowed = False, cc_freeze_log = [],
     cc_freeze_log_overflowed = False, cc_loop_depth = 0, cc_next_arena_id = 0, cc_arena_freed_ids = (\<lambda>_. 0), cc_n_arena_freed = 0\<rparr>"

definition two_vectors :: CheckCtx where
  "two_vectors = env_define ''y'' (type_new TYPE_VEC) (2, 1) (env_define ''x'' (type_new TYPE_VEC) (1, 1) (push_scope ctx0))"

definition drop_some :: dprog where
  "drop_some = D_IF (D_BLOCK [D_DROP ''x'' (3, 1), D_DROP ''y'' (4, 1)]) (Some (D_BLOCK [D_DROP ''x'' (5, 1)]))"

lemma two_vectors_state:
  "cc_depth two_vectors = 1" "count_at two_vectors 0 = 2" "ee_name (ent two_vectors (0, 0)) = ''x''" "ee_name (ent two_vectors (0, 1)) = ''y''"
  "t_kind (ee_type (ent two_vectors (0, i))) = (if i < 2 then TYPE_VEC else TYPE_VOID)" "ee_is_param (ent two_vectors (0, i)) = False"
  "ee_captured (ent two_vectors (0, i)) = False" "cc_loop_depth two_vectors = 0" "cc_drop_log two_vectors = []"
  "cc_drop_log_overflowed two_vectors = False" "dropped two_vectors (0, i) = False" "ee_scope_depth (ent two_vectors (0, 0)) = 1"
  "ee_scope_depth (ent two_vectors (0, 1)) = 1"
  by (auto simp: two_vectors_def env_define_def env_define_mut_def push_scope_def ctx0_def ENV_MAX_def ENV_VARS_def count_at_def
      ent_def ent_upd_def new_entry_def Let_def entry0_def)

lemma two_vectors_target:
  "target two_vectors ''x'' = Some (0, 0)" "target two_vectors ''y'' = Some (0, 1)" "live_addrs two_vectors = [(0, 0), (0, 1)]"
proof -
  show l: "live_addrs two_vectors = [(0, 0), (0, 1)]"
    by (simp add: live_addrs_def scope_addrs_def two_vectors_state upt_rec)
  show "target two_vectors ''x'' = Some (0, 0)" "target two_vectors ''y'' = Some (0, 1)"
    using two_vectors_state(5) [of 1]
    by (simp_all add: target_def ck_env_find_def l two_vectors_state in_loop_def type_is_drop_owned_def del: One_nat_def)
qed


section \<open>Handles\<close>

text \<open>Flags that are set one after the other.\<close>

lemma ent_note [simp]:
  "ent (mem3_note_dropped a c) b = (if b = a then (ent c b)\<lparr>ee_dropped := True\<rparr> else ent c b)"
  by (auto simp: mem3_note_dropped_def Let_def set_dropped_def ent_ent_upd)

lemma note_sel [simp]:
  "cc_depth (mem3_note_dropped a c) = cc_depth c" "count_at (mem3_note_dropped a c) d = count_at c d"
  "cc_errors (mem3_note_dropped a c) = cc_errors c"
  by (simp_all add: mem3_note_dropped_def Let_def set_dropped_def)

definition note_where :: "(EnvEntry \<Rightarrow> bool) \<Rightarrow> addr list \<Rightarrow> CheckCtx \<Rightarrow> CheckCtx" where
  "note_where P xs c = fold (\<lambda>a d. if P (ent d a) then mem3_note_dropped a d else d) xs c"

lemma note_where_full: "LOG_MAX \<le> length (cc_drop_log c) \<Longrightarrow> cc_drop_log (note_where P xs c) = cc_drop_log c"
proof (induction xs arbitrary: c)
  case (Cons a xs)
  have "cc_drop_log (mem3_note_dropped a c) = cc_drop_log c" using Cons.prems by (auto simp: mem3_note_dropped_def Let_def)
  with Cons show ?case by (simp add: note_where_def)
qed (simp add: note_where_def)

lemma note_where_ent:
  assumes "\<And>e. P (e\<lparr>ee_dropped := True\<rparr>) = P e"
  shows "ent (note_where P xs c) b = (if b \<in> set xs \<and> P (ent c b) then (ent c b)\<lparr>ee_dropped := True\<rparr> else ent c b)"
  using assms by (induction xs arbitrary: c) (auto simp: note_where_def)

lemma note_where_sel [simp]:
  "cc_depth (note_where P xs c) = cc_depth c" "count_at (note_where P xs c) d = count_at c d" "cc_errors (note_where P xs c) = cc_errors c"
proof -
  have "cc_depth (note_where P xs c) = cc_depth c \<and> count_at (note_where P xs c) d = count_at c d \<and> cc_errors (note_where P xs c) = cc_errors c"
    by (induction xs arbitrary: c) (auto simp: note_where_def)
  then show "cc_depth (note_where P xs c) = cc_depth c" "count_at (note_where P xs c) d = count_at c d" "cc_errors (note_where P xs c) = cc_errors c"
    by simp_all
qed

lemma live_note [simp]: "live_addrs (note_where P xs c) = live_addrs c"
  by (rule live_addrs_cong) simp_all

lemma invalidate_eq:
  "mem3_invalidate_region k c = (if k \<le> 0 then c else note_where (\<lambda>e. ee_region_id e = k) (live_addrs c) c)"
  by (simp add: mem3_invalidate_region_def note_where_def)

text \<open>The reports: one message for every live container that holds something of the region.\<close>

definition tainted_by :: "int \<Rightarrow> EnvEntry \<Rightarrow> bool" where
  "tainted_by k e \<longleftrightarrow> \<not> ee_dropped e \<and> (k \<in> set (ee_taint e) \<or> k \<in> set (ee_ktaint e))"

lemma report_eq:
  "0 < k \<Longrightarrow> mem3_report_tainted k p what c =
     c\<lparr>cc_errors := fold push_message (map (\<lambda>a. (p, TaintedContainer (ee_name (ent c a)) what))
        (filter (\<lambda>a. tainted_by k (ent c a)) (live_addrs c))) (cc_errors c)\<rparr>"
proof -
  have "fold (\<lambda>a d. if dropped d a then d else if k \<in> set (ee_taint (ent d a)) \<or> k \<in> set (ee_ktaint (ent d a))
           then check_error p (TaintedContainer (ee_name (ent d a)) what) d else d) xs (c\<lparr>cc_errors := es\<rparr>) =
      c\<lparr>cc_errors := fold push_message (map (\<lambda>a. (p, TaintedContainer (ee_name (ent c a)) what))
          (filter (\<lambda>a. tainted_by k (ent c a)) xs)) es\<rparr>" for xs es
  proof (induction xs arbitrary: es)
    case (Cons a xs)
    show ?case by (simp add: check_error_def tainted_by_def Cons.IH)
  qed simp
  from this [of "live_addrs c" "cc_errors c"] show "0 < k \<Longrightarrow> ?thesis" by (simp add: mem3_report_tainted_def)
qed

text \<open>What dies with an arena: what was allocated from it and its handles.\<close>

definition dies_with :: "int \<Rightarrow> EnvEntry \<Rightarrow> bool" where
  "dies_with k e \<longleftrightarrow> ee_region_id e = k \<or> ee_is_arena e \<and> ee_arena_id e = k"

lemma note_freed_sel [simp]:
  "ent (arena_note_freed k c) a = ent c a" "cc_depth (arena_note_freed k c) = cc_depth c" "count_at (arena_note_freed k c) d = count_at c d"
  "cc_errors (arena_note_freed k c) = cc_errors c" "cc_drop_log (arena_note_freed k c) = cc_drop_log c"
  by (simp_all add: arena_note_freed_def)

lemma live_note_freed [simp]: "live_addrs (arena_note_freed k c) = live_addrs c"
  by (rule live_addrs_cong) simp_all

lemma drop_handle_eq:
  assumes "0 < ee_arena_id (ent c h)"
  defines "k \<equiv> ee_arena_id (ent c h)"
  defines "d \<equiv> note_where (\<lambda>e. ee_region_id e = k) (live_addrs c) (arena_note_freed k c)"
  shows "mem3_drop_handle h p c = note_where (\<lambda>e. ee_is_arena e \<and> ee_arena_id e = k) (live_addrs c)
     (d\<lparr>cc_errors := fold push_message (map (\<lambda>a. (p, TaintedContainer (ee_name (ent d a)) (ee_name (ent c h))))
        (filter (\<lambda>a. tainted_by k (ent d a)) (live_addrs c))) (cc_errors c)\<rparr>)"
proof -
  have live: "live_addrs (d\<lparr>cc_errors := es\<rparr>) = live_addrs c" "live_addrs d = live_addrs c" for es
    by (rule live_addrs_cong; simp add: d_def)+
  have i: "mem3_invalidate_region k (arena_note_freed k c) = d"
    using assms(1) by (simp add: invalidate_eq d_def k_def)
  have e: "cc_errors d = cc_errors c" by (simp add: d_def)
  have r: "mem3_report_tainted k p (ee_name (ent c h)) d =
      d\<lparr>cc_errors := fold push_message (map (\<lambda>a. (p, TaintedContainer (ee_name (ent d a)) (ee_name (ent c h))))
        (filter (\<lambda>a. tainted_by k (ent d a)) (live_addrs c))) (cc_errors c)\<rparr>" (is "_ = ?d2")
    using assms(1) by (simp add: report_eq k_def [symmetric] live e)
  have "mem3_drop_handle h p c = note_where (\<lambda>e. ee_is_arena e \<and> ee_arena_id e = k) (live_addrs ?d2) ?d2"
    using assms(1) unfolding mem3_drop_handle_def Let_def k_def [symmetric] i r note_where_def by simp
  then show ?thesis by (simp only: live)
qed

lemma drop_handle_facts:
  assumes "0 < ee_arena_id (ent c h)"
  defines "k \<equiv> ee_arena_id (ent c h)"
  shows "dropped (mem3_drop_handle h p c) a \<longleftrightarrow> dropped c a \<or> a \<in> set (live_addrs c) \<and> dies_with k (ent c a)"
    and "cc_errors (mem3_drop_handle h p c) = fold push_message
      (map (\<lambda>a. (p, TaintedContainer (ee_name (ent c a)) (ee_name (ent c h))))
        (filter (\<lambda>a. tainted_by k (ent c a) \<and> ee_region_id (ent c a) \<noteq> k) (live_addrs c))) (cc_errors c)"
proof -
  let ?d = "note_where (\<lambda>e. ee_region_id e = k) (live_addrs c) (arena_note_freed k c)"
  note eq = drop_handle_eq [OF assms(1), of p, folded k_def]
  have d: "ent ?d a = (if a \<in> set (live_addrs c) \<and> ee_region_id (ent c a) = k then (ent c a)\<lparr>ee_dropped := True\<rparr> else ent c a)" for a
    by (simp add: note_where_ent)
  show "dropped (mem3_drop_handle h p c) a \<longleftrightarrow> dropped c a \<or> a \<in> set (live_addrs c) \<and> dies_with k (ent c a)"
    unfolding eq by (subst note_where_ent) (auto simp: d dies_with_def)
  have "ee_name (ent ?d a) = ee_name (ent c a)" for a by (simp add: d)
  moreover have "filter (\<lambda>a. tainted_by k (ent ?d a)) (live_addrs c) = filter (\<lambda>a. tainted_by k (ent c a) \<and> ee_region_id (ent c a) \<noteq> k) (live_addrs c)"
    by (rule filter_cong) (simp_all add: d tainted_by_def)
  ultimately show "cc_errors (mem3_drop_handle h p c) = fold push_message
      (map (\<lambda>a. (p, TaintedContainer (ee_name (ent c a)) (ee_name (ent c h))))
        (filter (\<lambda>a. tainted_by k (ent c a) \<and> ee_region_id (ent c a) \<noteq> k) (live_addrs c))) (cc_errors c)"
    unfolding eq by simp
qed

text \<open>
  C31. Releasing an arena handle flags exactly its aliases and what was allocated from the
  arena, and reports exactly the live containers that still hold something of it.
\<close>

theorem release_kills_aliases:
  assumes "ee_arena_id (ent c h) = k" "0 < k"
  shows "(\<forall>a. dropped (mem3_drop_handle h p c) a = (dropped c a \<or> a \<in> set (live_addrs c) \<and> dies_with k (ent c a))) \<and>
    cc_errors (mem3_drop_handle h p c) = fold push_message
      (map (\<lambda>a. (p, TaintedContainer (ee_name (ent c a)) (ee_name (ent c h))))
        (filter (\<lambda>a. tainted_by k (ent c a) \<and> ee_region_id (ent c a) \<noteq> k) (live_addrs c))) (cc_errors c)"
  using drop_handle_facts [of c h] assms by simp

text \<open>An arena with an alias, a string from it, and a vector that holds such a string.\<close>

definition arena_ctx :: CheckCtx where
  "arena_ctx =
     ent_upd (0, 2) (\<lambda>e. e\<lparr>ee_taint := [1]\<rparr>) (env_define ''v'' (type_new TYPE_VEC) (3, 1)
    (ent_upd (0, 1) (\<lambda>e. e\<lparr>ee_region_id := 1\<rparr>) (env_define ''s'' (type_new TYPE_STR) (2, 1)
    (ent_upd (0, 0) (\<lambda>e. e\<lparr>ee_is_arena := True, ee_arena_id := 1\<rparr>) (env_define ''r'' (type_new TYPE_I64) (1, 1) (push_scope ctx0))))))"

lemmas ctx_defs = env_define_def env_define_mut_def push_scope_def ctx0_def ENV_MAX_def ENV_VARS_def count_at_def
  ent_def ent_upd_def new_entry_def Let_def entry0_def

lemma arena_ctx_state:
  "cc_depth arena_ctx = 1" "count_at arena_ctx 0 = 3" "cc_errors arena_ctx = []" "cc_loop_depth arena_ctx = 0"
  "ent arena_ctx (0, 0) = (new_entry ''r'' (type_new TYPE_I64) True 1 (1, 1))\<lparr>ee_is_arena := True, ee_arena_id := 1\<rparr>"
  "ent arena_ctx (0, 1) = (new_entry ''s'' (type_new TYPE_STR) True 1 (2, 1))\<lparr>ee_region_id := 1\<rparr>"
  "ent arena_ctx (0, 2) = (new_entry ''v'' (type_new TYPE_VEC) True 1 (3, 1))\<lparr>ee_taint := [1]\<rparr>"
  by (simp_all add: arena_ctx_def ctx_defs)

lemma arena_ctx_live: "live_addrs arena_ctx = [(0, 0), (0, 1), (0, 2)]"
  by (simp add: live_addrs_def scope_addrs_def arena_ctx_state upt_rec)

theorem release_kills_aliases_witness:
  "dropped (mem3_drop_handle (0, 0) (9, 1) arena_ctx) (0, 1)
   \<and> cc_errors (mem3_drop_handle (0, 0) (9, 1) arena_ctx) = [((9, 1), TaintedContainer ''v'' ''r'')]"
proof -
  have k: "ee_arena_id (ent arena_ctx (0, 0)) = 1" by (simp add: arena_ctx_state)
  show ?thesis
    using release_kills_aliases [OF k, of "(9, 1)"]
    by (simp add: arena_ctx_live del: One_nat_def split_paired_All)
       (simp add: arena_ctx_state dies_with_def tainted_by_def new_entry_def push_message_def BAGA_MAX_ERRORS_def del: One_nat_def)
qed

section \<open>A full log\<close>

text \<open>
  Code bug: when the log is full, an arena that is released in a branch without an
  else stays flagged after it, although the path around the branch does not release it.
  The flag is set before the log is tested, so it is not lifted; a later use of the
  arena is reported as an error that does not exist.
\<close>

theorem full_log_invents_error:
  assumes "LOG_MAX \<le> length (cc_drop_log c)"
    and "ck_env_find c n = Some a" "ee_is_arena (ent c a)" "0 < ee_arena_id (ent c a)"
    and "\<not> dropped c a" "\<not> ee_is_param (ent c a)" "\<not> in_loop c a"
  shows "dropped (infer_if (call_arena_free n p) None c) a"
proof -
  let ?c = "call_arena_free n p c" and ?k = "ee_arena_id (ent c a)"
  have e: "?c = mem3_drop_handle a p c" using assms by (simp add: call_arena_free_def)
  have "a \<in> set (live_addrs c)" using assms(2) by (rule find_live)
  then have d: "dropped ?c a" unfolding e drop_handle_facts(1) [OF assms(4)] using assms(3) by (simp add: dies_with_def)
  have "cc_drop_log ?c = cc_drop_log c"
    unfolding e drop_handle_eq [OF assms(4)] using assms(1) by (subst note_where_full; simp add: note_where_full)+
  then have "dropped (drop_lift_from (length (cc_drop_log c)) ?c) a" using d by simp
  moreover have "dropped (cut_both b (freeze_lift_from m x)) a = dropped x a" for b m x
    using drop_view_freeze(1) [of m x] by (simp add: cut_both_def drop_view_def fun_eq_iff del: split_paired_All)
  ultimately show ?thesis by (simp add: infer_if_def Let_def lift_both_def log_marks_def)
qed

theorem full_log_invents_error_witness:
  "dropped (infer_if (call_arena_free ''r'' (9, 1)) None (arena_ctx\<lparr>cc_drop_log := replicate 256 (0, 1)\<rparr>)) (0, 0)"
proof (rule full_log_invents_error)
  let ?c = "arena_ctx\<lparr>cc_drop_log := replicate 256 (0, 1)\<rparr>"
  show "LOG_MAX \<le> length (cc_drop_log ?c)" by (simp add: LOG_MAX_def)
  have "live_addrs ?c = live_addrs arena_ctx" by (rule live_addrs_cong) simp_all
  then show "ck_env_find ?c ''r'' = Some (0, 0)"
    by (simp add: ck_env_find_def arena_ctx_live arena_ctx_state new_entry_def del: One_nat_def)
qed (simp_all add: arena_ctx_state new_entry_def in_loop_def)

end
