(* ===== verification/CkScopeProps.thy ===== *)
theory CkScopeProps
  imports CkDropProps
begin

text \<open>The scope stack as a stack of maps, and what breaks it.\<close>

section \<open>The contract of a scope stack\<close>

type_synonym binding = "cktype \<times> bool"

locale scope_stack =
  fixes maps :: "'s \<Rightarrow> (string \<rightharpoonup> 'v) list"
    and push :: "'s \<Rightarrow> 's"
    and pop :: "'s \<Rightarrow> 's"
    and bind :: "string \<Rightarrow> 'v \<Rightarrow> 's \<Rightarrow> 's"
    and limit :: nat
  assumes maps_push: "length (maps s) < limit \<Longrightarrow> maps (push s) = Map.empty # maps s"
    and maps_pop: "maps (pop s) = tl (maps s)"
    and maps_bind: "maps s = m # ms \<Longrightarrow> maps (bind n v s) = m # ms \<or> (n \<notin> dom m \<and> maps (bind n v s) = m(n \<mapsto> v) # ms)"
begin

lemma binds_keep_rest: "maps s = m # ms \<Longrightarrow> \<exists>m'. m \<subseteq>\<^sub>m m' \<and> maps (fold (\<lambda>(n, v). bind n v) bs s) = m' # ms"
proof (induction bs arbitrary: s m)
  case (Cons b bs)
  obtain n v where b: "b = (n, v)" by fastforce
  from maps_bind [OF Cons.prems, of n v] obtain m1 where m1: "maps (bind n v s) = m1 # ms" "m \<subseteq>\<^sub>m m1"
    by (auto simp: map_le_def dom_def)
  from Cons.IH [OF m1(1)] m1(2) show ?case by (auto simp: b intro: map_le_trans)
qed auto

text \<open>A scope that is opened, filled and closed leaves the scopes around it as they were.\<close>

lemma block_restores: "length (maps s) < limit \<Longrightarrow> maps (pop (fold (\<lambda>(n, v). bind n v) bs (push s))) = maps s"
  using binds_keep_rest [of "push s" Map.empty "maps s" bs] by (auto simp: maps_push maps_pop)

end

section \<open>The scopes of the checker\<close>

definition scope_map :: "CheckCtx \<Rightarrow> nat \<Rightarrow> string \<rightharpoonup> binding" where
  "scope_map c d = map_of (map (\<lambda>a. (ee_name (ent c a), (ee_type (ent c a), ee_is_mut (ent c a)))) (rev (scope_addrs c d)))"

definition scope_maps :: "CheckCtx \<Rightarrow> (string \<rightharpoonup> binding) list" where
  "scope_maps c = map (scope_map c) (rev [0..<cc_depth c])"

fun lookup_maps :: "(string \<rightharpoonup> 'v) list \<Rightarrow> string \<Rightarrow> 'v option" where
  "lookup_maps [] n = None"
| "lookup_maps (m # ms) n = (case m n of None \<Rightarrow> lookup_maps ms n | Some v \<Rightarrow> Some v)"

lemma scope_maps_length [simp]: "length (scope_maps c) = cc_depth c"
  by (simp add: scope_maps_def)

lemma find_map_of:
  "(case List.find (\<lambda>a. f a = n) xs of None \<Rightarrow> None | Some a \<Rightarrow> Some (g a)) = map_of (map (\<lambda>a. (f a, g a)) xs) n"
  by (induction xs) auto

lemma find_append: "List.find P (xs @ ys) = (case List.find P xs of None \<Rightarrow> List.find P ys | Some a \<Rightarrow> Some a)"
  by (induction xs) auto

lemma find_rev_concat:
  "(case List.find (\<lambda>a. f a = n) (rev (concat xss)) of None \<Rightarrow> None | Some a \<Rightarrow> Some (g a)) =
   lookup_maps (map (\<lambda>xs. map_of (map (\<lambda>a. (f a, g a)) (rev xs))) (rev xss)) n"
proof (induction xss rule: rev_induct)
  case (snoc xs xss)
  then show ?case
    using find_map_of [where f = f and n = n and g = g and xs = "rev xs", symmetric] by (auto simp: find_append split: option.splits)
qed simp

lemma env_find_maps:
  "(case ck_env_find c n of None \<Rightarrow> None | Some a \<Rightarrow> Some (ee_type (ent c a), ee_is_mut (ent c a))) = lookup_maps (scope_maps c) n"
  unfolding ck_env_find_def live_addrs_def find_rev_concat scope_maps_def rev_map map_map scope_map_def
  by (simp add: comp_def)

lemma env_lookup_maps: "env_lookup c n = map_option fst (lookup_maps (scope_maps c) n)"
  unfolding env_find_maps [symmetric] by (simp add: env_lookup_def split: option.splits)

lemma env_is_mut_maps: "env_is_mut c n = (case lookup_maps (scope_maps c) n of None \<Rightarrow> True | Some v \<Rightarrow> snd v)"
  unfolding env_find_maps [symmetric] by (simp add: env_is_mut_def split: option.splits)

lemma scope_map_cong:
  "count_at d k = count_at c k \<Longrightarrow> (\<And>i. i < count_at c k \<Longrightarrow> ent d (k, i) = ent c (k, i)) \<Longrightarrow> scope_map d k = scope_map c k"
  by (auto simp: scope_map_def scope_addrs_def rev_map intro!: arg_cong [where f = map_of])

lemma scope_maps_push: "cc_depth c < ENV_MAX \<Longrightarrow> scope_maps (push_scope c) = Map.empty # scope_maps c"
proof -
  assume lt: "cc_depth c < ENV_MAX"
  have "scope_map (push_scope c) (cc_depth c) = Map.empty"
    using lt by (simp add: scope_map_def scope_addrs_def push_scope_def count_at_def)
  moreover have "scope_map (push_scope c) k = scope_map c k" if "k < cc_depth c" for k
    using push_scope_env(4) [OF lt that] by (intro scope_map_cong) simp_all
  ultimately show ?thesis by (simp add: scope_maps_def push_scope_env [OF lt])
qed

lemma scope_maps_pop: "scope_maps (pop_scope c) = tl (scope_maps c)"
proof -
  obtain e w where p: "pop_scope c = c\<lparr>cc_errors := e, cc_warnings := w, cc_depth := cc_depth c - 1\<rparr>" using pop_scope_eq by blast
  have "scope_map (pop_scope c) k = scope_map c k" for k by (rule scope_map_cong) (simp_all add: p)
  moreover have "cc_depth (pop_scope c) = cc_depth c - 1" by (simp add: p)
  ultimately show ?thesis by (cases "cc_depth c") (simp_all add: scope_maps_def)
qed

text \<open>A definition binds a new name in the innermost scope, when that has room.\<close>

lemma defined_in_scope: "list_ex (\<lambda>i. ee_name (ent c (d, i)) = n) [0..<count_at c d] \<longleftrightarrow> n \<in> dom (scope_map c d)"
  by (auto simp: scope_map_def dom_map_of_conv_image_fst list_ex_iff scope_addrs_def image_iff)

lemma scope_maps_define:
  assumes "scope_maps c = m # ms"
  shows "scope_maps (env_define_mut n t mut p c) = (if n \<in> dom m \<or> ENV_VARS \<le> count_at c (cc_depth c - 1) then m else m(n \<mapsto> (t, mut))) # ms"
    and "n \<in> dom m \<Longrightarrow> env_define_mut n t mut p c = check_error p (Redefinition n) c"
proof -
  have "length (scope_maps c) = Suc (length ms)" by (simp add: assms del: scope_maps_length)
  then have dep: "cc_depth c \<noteq> 0" by simp
  then obtain d where d: "cc_depth c = Suc d" by (cases "cc_depth c") auto
  have m: "m = scope_map c d" "ms = map (scope_map c) (rev [0..<d])" using assms by (simp_all add: scope_maps_def d)
  show "n \<in> dom m \<Longrightarrow> env_define_mut n t mut p c = check_error p (Redefinition n) c"
    using defined_in_scope [of c d n] by (simp add: env_define_mut_def d m(1) Let_def)
  show "scope_maps (env_define_mut n t mut p c) = (if n \<in> dom m \<or> ENV_VARS \<le> count_at c (cc_depth c - 1) then m else m(n \<mapsto> (t, mut))) # ms"
  proof (cases "n \<in> dom m \<or> ENV_VARS \<le> count_at c d")
    case True
    have "scope_maps (check_error p x c) = scope_maps c" for x
    proof -
      have "scope_map (check_error p x c) k = scope_map c k" for k by (rule scope_map_cong) (simp_all add: check_error_def)
      then show ?thesis by (simp add: scope_maps_def check_error_def)
    qed
    then have "scope_maps (env_define_mut n t mut p c) = scope_maps c"
      using True defined_in_scope [of c d n] by (auto simp: env_define_mut_def d m(1) Let_def)
    with True show ?thesis by (simp add: assms d)
  next
    case False
    define c' where "c' = env_define_mut n t mut p c"
    have nd: "\<not> list_ex (\<lambda>i. ee_name (ent c (d, i)) = n) [0..<count_at c d]"
      using False unfolding defined_in_scope m(1) by blast
    then have e: "ent c' a = (if a = (d, count_at c d) then new_entry n t mut (Suc d) p else ent c a)"
      and k: "count_at c' k = (if k = d then Suc (count_at c d) else count_at c k)" and dep: "cc_depth c' = Suc d" for a k
      using False by (cases a; auto simp: c'_def env_define_mut_def d Let_def ent_def ent_upd_def count_at_def)+
    have "scope_map c' d = m(n \<mapsto> (t, mut))"
      by (auto simp: scope_map_def scope_addrs_def k e m(1) new_entry_def rev_map intro!: arg_cong [where f = map_of] arg_cong2 [where f = "\<lambda>x y. y(n \<mapsto> x)"])
    moreover have "scope_map c' j = scope_map c j" if "j < d" for j
      using that by (intro scope_map_cong) (simp_all add: k e)
    ultimately show ?thesis using False by (simp add: c'_def [symmetric] scope_maps_def dep d m)
  qed
qed

definition define_binding :: "string \<Rightarrow> binding \<Rightarrow> CheckCtx \<Rightarrow> CheckCtx" where
  "define_binding n v c = env_define_mut n (fst v) (snd v) (0, 0) c"

interpretation sc: scope_stack scope_maps push_scope pop_scope define_binding ENV_MAX
proof
  fix s :: CheckCtx and m ms n and v :: binding
  show "length (scope_maps s) < ENV_MAX \<Longrightarrow> scope_maps (push_scope s) = Map.empty # scope_maps s"
    by (simp add: scope_maps_push)
  show "scope_maps (pop_scope s) = tl (scope_maps s)" by (rule scope_maps_pop)
  assume "scope_maps s = m # ms"
  from scope_maps_define(1) [OF this, of n "fst v" "snd v" "(0, 0)"]
  show "scope_maps (define_binding n v s) = m # ms \<or> (n \<notin> dom m \<and> scope_maps (define_binding n v s) = m(n \<mapsto> v) # ms)"
    by (cases v) (auto simp: define_binding_def split: if_splits)
qed

lemma scope_facts:
  assumes "cc_depth c < ENV_MAX"
  shows "env_lookup c x = map_option fst (lookup_maps (scope_maps c) x)"
    and "scope_maps (push_scope c) = Map.empty # scope_maps c"
    and "scope_maps (pop_scope c) = tl (scope_maps c)"
    and "scope_maps c = m # ms \<Longrightarrow> x \<notin> dom m \<Longrightarrow> count_at c (cc_depth c - 1) < ENV_VARS \<Longrightarrow>
      scope_maps (env_define_mut x t mut p c) = m(x \<mapsto> (t, mut)) # ms"
    and "scope_maps c = m # ms \<Longrightarrow> x \<in> dom m \<Longrightarrow> env_define_mut x t mut p c = check_error p (Redefinition x) c"
    and "scope_maps (pop_scope (fold (\<lambda>(n, v). define_binding n v) bs (push_scope c))) = scope_maps c"
proof -
  show "scope_maps (pop_scope (fold (\<lambda>(n, v). define_binding n v) bs (push_scope c))) = scope_maps c"
    using assms by (intro sc.block_restores) simp
qed (use assms scope_maps_define [of c m ms x t mut p] in \<open>simp_all add: env_lookup_maps scope_maps_push scope_maps_pop\<close>)



section \<open>What breaks it\<close>

text \<open>At the limit the closing of a scope that was never opened removes the scope around it.\<close>

lemma push_at_limit: "cc_depth c = ENV_MAX \<Longrightarrow> push_scope c = c"
  by (simp add: push_scope_def)

definition deep_ctx :: CheckCtx where
  "deep_ctx = env_define ''x'' i64 (1, 1) (ctx0\<lparr>cc_depth := 64\<rparr>)"

text \<open>A caller with an arena that it may have released, and a function that releases its own.\<close>

definition caller :: CheckCtx where
  "caller = arena_note_freed 1 (ent_upd (0, 0) (\<lambda>e. e\<lparr>ee_is_arena := True, ee_arena_id := 1\<rparr>)
     (env_define ''r'' i64 (1, 1) (push_scope ctx0)))"

definition callee :: "CheckCtx \<Rightarrow> CheckCtx" where
  "callee c = check_fn_scope []
     (\<lambda>c. call_arena_free ''q'' (5, 1) (ent_upd (1, 0) (\<lambda>e. e\<lparr>ee_is_arena := True, ee_arena_id := 2\<rparr>) (env_define ''q'' i64 (4, 1) c)))
     None c"

lemmas leak_defs = leak_scan_scope_def leak_entry_def skip_arena_def arena_was_freed_def arena_live_outer_def check_warn_def
  check_error_def push_message_def pop_scope_def pop_scope_skip_def scope_addrs_def arena_note_freed_def BAGA_MAX_ERRORS_def

lemma deep_ctx_lookup: "env_lookup deep_ctx ''x'' = Some i64" "env_lookup (deep_ctx\<lparr>cc_depth := 63\<rparr>) ''x'' = None"
proof -
  have maps: "scope_maps (deep_ctx\<lparr>cc_depth := k\<rparr>) = map (scope_map deep_ctx) (rev [0..<k])" for k
  proof -
    have "scope_map (deep_ctx\<lparr>cc_depth := k\<rparr>) j = scope_map deep_ctx j" for j by (rule scope_map_cong) simp_all
    then show ?thesis by (simp add: scope_maps_def)
  qed
  have e: "scope_map deep_ctx d = (if d = 63 then [''x'' \<mapsto> (i64, True)] else Map.empty)" for d
    by (simp add: scope_map_def scope_addrs_def deep_ctx_def ctx_defs upt_rec)
  have none: "lookup_maps (map (scope_map deep_ctx) (rev [0..<k])) n = None" if "k \<le> 63" for k n
    using that by (induction k) (simp_all add: e)
  show "env_lookup (deep_ctx\<lparr>cc_depth := 63\<rparr>) ''x'' = None" using none by (simp add: env_lookup_maps maps)
  have d: "cc_depth deep_ctx = 64" by (simp add: deep_ctx_def ctx_defs)
  have "rev [0..<64] = 63 # rev [0..<63]" by (simp add: upt_rec)
  then show "env_lookup deep_ctx ''x'' = Some i64" by (simp add: env_lookup_maps scope_maps_def d e del: upt_rec_numeral)
qed

text \<open>
  Code bugs at concrete states. A block at the limit of nesting closes the scope
  around it, so that a variable in scope is no longer found; a function that is checked
  on demand sees the variables of the function that calls it; and its releases replace
  the record of the arenas that the caller has released, so that an error is reported
  for the caller which is not reported without the call.
\<close>

theorem scopes_disturbed:
  "env_lookup deep_ctx ''x'' = Some i64
   \<and> env_lookup (infer_block (\<lambda>c. c) deep_ctx) ''x'' = None
   \<and> cc_errors (check_fn_scope [] (\<lambda>d. if env_lookup d ''r'' = None then check_error (7, 1) (NotLocal ''r'') d else d) None caller) = []
   \<and> cc_errors (pop_scope caller) = []
   \<and> cc_errors (pop_scope (callee caller)) = [((1, 1), ArenaNotFreed ''r'')]"
proof (intro conjI)
  show "env_lookup deep_ctx ''x'' = Some i64" by (rule deep_ctx_lookup)
  have "push_scope deep_ctx = deep_ctx" by (rule push_at_limit) (simp add: deep_ctx_def ctx_defs)
  moreover have "pop_scope deep_ctx = deep_ctx\<lparr>cc_depth := 63\<rparr>"
    by (simp add: leak_defs deep_ctx_def ctx_defs upt_rec type_is_drop_owned_def)
  ultimately show "env_lookup (infer_block (\<lambda>c. c) deep_ctx) ''x'' = None"
    using deep_ctx_lookup(2) by (simp add: infer_block_def)
  show "cc_errors (pop_scope caller) = []" by code_simp
  show "cc_errors (check_fn_scope [] (\<lambda>d. if env_lookup d ''r'' = None then check_error (7, 1) (NotLocal ''r'') d else d) None caller) = []"
    by code_simp
  show "cc_errors (pop_scope (callee caller)) = [((1, 1), ArenaNotFreed ''r'')]" by code_simp
qed

end
