(* ===== verification/ParChan.thy ===== *)
theory ParChan
  imports Prelude
begin

text \<open>
  The concurrency runtime (\<open>src/baga_par_rt.c\<close>): pairs on the heap, channels
  as ring buffers under a mutex, and the two-way select. An \<open>int64_t\<close> payload
  or handle is an \<open>int\<close>, since the runtime does no arithmetic on it; 0 is the
  null handle. What happens between taking and releasing a mutex is one step.
  An operation that waits on a condition is \<open>Wait\<close>, and is tried again from a
  later state; following a handle that was never handed out is \<open>Fault\<close>.
\<close>

datatype 'a run = Ret 'a | Wait | Fault

section \<open>Vectors\<close>

record Vec =
  v_data :: "int list"
  v_len :: nat
  v_cap :: nat

definition par_vec_grow :: "(nat \<Rightarrow> int) \<Rightarrow> Vec \<Rightarrow> Vec" where
  "par_vec_grow junk v =
     (if v_len v = v_cap v
      then v\<lparr>v_cap := 2 * v_cap v, v_data := v_data v @ map junk [v_cap v..<2 * v_cap v]\<rparr>
      else v)"

definition par_vec_new :: "(nat \<Rightarrow> int) \<Rightarrow> Vec" where
  "par_vec_new junk = \<lparr>v_data = map junk [0..<8], v_len = 0, v_cap = 8\<rparr>"

definition par_vec_push :: "(nat \<Rightarrow> int) \<Rightarrow> Vec \<Rightarrow> int \<Rightarrow> Vec" where
  "par_vec_push junk v x =
     (let w = par_vec_grow junk v
      in w\<lparr>v_data := (v_data w)[v_len w := x], v_len := Suc (v_len w)\<rparr>)"

definition par_vec_get :: "Vec \<Rightarrow> int \<Rightarrow> int" where
  "par_vec_get v i = v_data v ! nat i"

definition par_vec_set :: "Vec \<Rightarrow> int \<Rightarrow> int \<Rightarrow> Vec" where
  "par_vec_set v i x = v\<lparr>v_data := (v_data v)[nat i := x]\<rparr>"

definition par_vec_len :: "Vec \<Rightarrow> int" where
  "par_vec_len v = int (v_len v)"

definition vec_ok :: "Vec \<Rightarrow> bool" where
  "vec_ok v \<longleftrightarrow> length (v_data v) = v_cap v \<and> v_len v \<le> v_cap v \<and> 0 < v_cap v"

definition vec_list :: "Vec \<Rightarrow> int list" where
  "vec_list v = take (v_len v) (v_data v)"

lemma par_vec_new_ok [simp]: "vec_ok (par_vec_new junk)" "vec_list (par_vec_new junk) = []"
  by (simp_all add: par_vec_new_def vec_ok_def vec_list_def)

lemma par_vec_push_ok:
  "vec_ok v \<Longrightarrow> vec_ok (par_vec_push junk v x) \<and> vec_list (par_vec_push junk v x) = vec_list v @ [x]"
  by (auto simp: vec_ok_def vec_list_def par_vec_push_def par_vec_grow_def Let_def take_Suc_conv_app_nth
      nth_append)

lemma par_vec_set_ok:
  "vec_ok v \<Longrightarrow> vec_ok (par_vec_set v i x) \<and> vec_list (par_vec_set v i x) = (vec_list v)[nat i := x]"
  by (simp add: vec_ok_def vec_list_def par_vec_set_def take_update_swap)

lemma par_vec_get_eq: "0 \<le> i \<Longrightarrow> i < int (v_len v) \<Longrightarrow> par_vec_get v i = vec_list v ! nat i"
  by (simp add: par_vec_get_def vec_list_def nat_less_iff)

section \<open>Pairs\<close>

text \<open>A handle is the position of its cell, counted from 1; a freed cell is \<open>None\<close>.\<close>

type_synonym cells = "(int \<times> int) option list"

definition baga_cell2 :: "cells \<Rightarrow> int \<Rightarrow> int \<Rightarrow> cells \<times> int" where
  "baga_cell2 cs a b = (cs @ [Some (a, b)], int (length cs) + 1)"

definition cell_at :: "cells \<Rightarrow> int \<Rightarrow> (int \<times> int) option" where
  "cell_at cs h = (if 1 \<le> h \<and> h \<le> int (length cs) then cs ! nat (h - 1) else None)"

definition baga_cell2_0 :: "cells \<Rightarrow> int \<Rightarrow> int option" where
  "baga_cell2_0 cs h = map_option fst (cell_at cs h)"

definition baga_cell2_1 :: "cells \<Rightarrow> int \<Rightarrow> int option" where
  "baga_cell2_1 cs h = map_option snd (cell_at cs h)"

definition baga_cell2_free :: "cells \<Rightarrow> int \<Rightarrow> cells" where
  "baga_cell2_free cs h = (if h \<noteq> 0 then cs[nat (h - 1) := None] else cs)"

lemma cell_at_new: "cell_at (fst (baga_cell2 cs a b)) (snd (baga_cell2 cs a b)) = Some (a, b)"
  by (simp add: cell_at_def baga_cell2_def)

lemma cell_at_mono: "cell_at cs h = Some p \<Longrightarrow> cell_at (fst (baga_cell2 cs a b)) h = Some p"
  by (auto simp: cell_at_def baga_cell2_def nth_append split: if_splits)

section \<open>Channels\<close>

record Chan =
  ch_buf :: "int list"
  ch_cap :: nat
  ch_len :: nat
  ch_head :: nat
  ch_closed :: bool

record rt =
  rt_cells :: cells
  rt_chans :: "Chan list"

text \<open>\<open>junk\<close> is what the fresh buffer happens to hold.\<close>

definition new_chan :: "(nat \<Rightarrow> int) \<Rightarrow> int \<Rightarrow> Chan" where
  "new_chan junk cap0 =
     (let cap = (if cap0 < 1 then 1 else cap0)
      in \<lparr>ch_buf = map junk [0..<nat cap], ch_cap = nat cap, ch_len = 0, ch_head = 0, ch_closed = False\<rparr>)"

definition baga_chan_new :: "(nat \<Rightarrow> int) \<Rightarrow> rt \<Rightarrow> int \<Rightarrow> rt \<times> int" where
  "baga_chan_new junk s cap =
     (s\<lparr>rt_chans := rt_chans s @ [new_chan junk cap]\<rparr>, int (length (rt_chans s)) + 1)"

definition chan_at :: "rt \<Rightarrow> int \<Rightarrow> Chan option" where
  "chan_at s h = (if 1 \<le> h \<and> h \<le> int (length (rt_chans s)) then Some (rt_chans s ! nat (h - 1)) else None)"

definition chan_upd :: "int \<Rightarrow> Chan \<Rightarrow> rt \<Rightarrow> rt" where
  "chan_upd h c s = s\<lparr>rt_chans := (rt_chans s)[nat (h - 1) := c]\<rparr>"

definition mk_pair :: "rt \<Rightarrow> int \<Rightarrow> int \<Rightarrow> rt \<times> int" where
  "mk_pair s a b = (let (cs, h) = baga_cell2 (rt_cells s) a b in (s\<lparr>rt_cells := cs\<rparr>, h))"

text \<open>The accesses to the ring, which the operations below share.\<close>

definition chan_put :: "Chan \<Rightarrow> int \<Rightarrow> Chan" where
  "chan_put c v =
     c\<lparr>ch_buf := (ch_buf c)[(ch_head c + ch_len c) mod ch_cap c := v], ch_len := ch_len c + 1\<rparr>"

definition chan_front :: "Chan \<Rightarrow> int" where
  "chan_front c = ch_buf c ! ch_head c"

definition chan_drop :: "Chan \<Rightarrow> Chan" where
  "chan_drop c = c\<lparr>ch_head := (ch_head c + 1) mod ch_cap c, ch_len := ch_len c - 1\<rparr>"

definition baga_chan_send :: "rt \<Rightarrow> int \<Rightarrow> int \<Rightarrow> (rt \<times> int) run" where
  "baga_chan_send s ch v =
     (if ch = 0 then Ret (s, -1)
      else
        (case chan_at s ch of
           None \<Rightarrow> Fault
         | Some c \<Rightarrow>
             if ch_len c = ch_cap c \<and> \<not> ch_closed c then Wait
             else if ch_closed c then Ret (s, -1)
             else Ret (chan_upd ch (chan_put c v) s, 0)))"

definition baga_chan_recv :: "rt \<Rightarrow> int \<Rightarrow> (rt \<times> int) run" where
  "baga_chan_recv s ch =
     (if ch = 0 then Ret (s, 0)
      else
        (case chan_at s ch of
           None \<Rightarrow> Fault
         | Some c \<Rightarrow>
             if ch_len c = 0 \<and> \<not> ch_closed c then Wait
             else if ch_len c = 0 then Ret (s, 0)
             else Ret (chan_upd ch (chan_drop c) s, chan_front c)))"

definition baga_chan_recv2 :: "rt \<Rightarrow> int \<Rightarrow> (rt \<times> int) run" where
  "baga_chan_recv2 s ch =
     (if ch = 0 then Ret (mk_pair s 0 0)
      else
        (case chan_at s ch of
           None \<Rightarrow> Fault
         | Some c \<Rightarrow>
             if ch_len c = 0 \<and> \<not> ch_closed c then Wait
             else if ch_len c = 0 then Ret (mk_pair s 0 0)
             else Ret (mk_pair (chan_upd ch (chan_drop c) s) 1 (chan_front c))))"

definition baga_chan_try_recv :: "rt \<Rightarrow> int \<Rightarrow> (rt \<times> int) run" where
  "baga_chan_try_recv s ch =
     (if ch = 0 then Ret (mk_pair s 2 0)
      else
        (case chan_at s ch of
           None \<Rightarrow> Fault
         | Some c \<Rightarrow>
             if ch_len c = 0 then Ret (mk_pair s (if ch_closed c then 2 else 0) 0)
             else Ret (mk_pair (chan_upd ch (chan_drop c) s) 1 (chan_front c))))"

text \<open>\<open>expired\<close>: the timed wait came back with \<open>ETIMEDOUT\<close>.\<close>

definition baga_chan_recv_timeout :: "bool \<Rightarrow> rt \<Rightarrow> int \<Rightarrow> (rt \<times> int) run" where
  "baga_chan_recv_timeout expired s ch =
     (if ch = 0 then Ret (mk_pair s 2 0)
      else
        (case chan_at s ch of
           None \<Rightarrow> Fault
         | Some c \<Rightarrow>
             if ch_len c = 0 \<and> \<not> ch_closed c then (if expired then Ret (mk_pair s 0 0) else Wait)
             else if ch_len c = 0 then Ret (mk_pair s 2 0)
             else Ret (mk_pair (chan_upd ch (chan_drop c) s) 1 (chan_front c))))"

definition baga_chan_close :: "rt \<Rightarrow> int \<Rightarrow> (rt \<times> int) run" where
  "baga_chan_close s ch =
     (if ch = 0 then Ret (s, -1)
      else
        (case chan_at s ch of
           None \<Rightarrow> Fault
         | Some c \<Rightarrow> Ret (chan_upd ch (c\<lparr>ch_closed := True\<rparr>) s, 0)))"

definition baga_chan_len :: "rt \<Rightarrow> int \<Rightarrow> (rt \<times> int) run" where
  "baga_chan_len s ch =
     (if ch = 0 then Ret (s, 0)
      else (case chan_at s ch of None \<Rightarrow> Fault | Some c \<Rightarrow> Ret (s, int (ch_len c))))"

section \<open>Select\<close>

text \<open>
  \<open>env i\<close> is what the other threads do between the critical sections of one
  call; \<open>id\<close> is a call that nobody interrupts.
\<close>

definition peek_chan :: "rt \<Rightarrow> int \<Rightarrow> (nat \<times> bool) run" where
  "peek_chan s h =
     (if h = 0 then Ret (0, True)
      else (case chan_at s h of None \<Rightarrow> Fault | Some c \<Rightarrow> Ret (ch_len c, ch_closed c)))"

text \<open>Take from \<open>h\<close>; \<open>Inl\<close> when another thread was faster.\<close>

definition select_take :: "int \<Rightarrow> rt \<Rightarrow> int \<Rightarrow> (rt + rt \<times> int) run" where
  "select_take which s h =
     (case baga_chan_try_recv s h of
        Ret (s', pr) \<Rightarrow>
          (case cell_at (rt_cells s') pr of
             None \<Rightarrow> Fault
           | Some (st, v) \<Rightarrow> if st = 1 then Ret (Inr (mk_pair s' which v)) else Ret (Inl s'))
      | Wait \<Rightarrow> Wait
      | Fault \<Rightarrow> Fault)"

fun select_try :: "(nat \<Rightarrow> rt \<Rightarrow> rt) \<Rightarrow> nat \<Rightarrow> (bool \<times> int \<times> int) list \<Rightarrow> rt \<Rightarrow> (rt \<times> int) run" where
  "select_try env i [] s = Ret (mk_pair s 2 0)"
| "select_try env i ((guard, which, h) # ts) s =
     (if guard then
        (case select_take which (env i s) h of
           Ret (Inr r) \<Rightarrow> Ret r
         | Ret (Inl s') \<Rightarrow> select_try env (Suc i) ts s'
         | Wait \<Rightarrow> Wait
         | Fault \<Rightarrow> Fault)
      else select_try env i ts s)"

definition baga_chan_select2 :: "(nat \<Rightarrow> rt \<Rightarrow> rt) \<Rightarrow> rt \<Rightarrow> int \<Rightarrow> int \<Rightarrow> (rt \<times> int) run" where
  "baga_chan_select2 env s c0 c1 =
     (if c0 = 0 \<and> c1 = 0 then Ret (mk_pair s 3 0)
      else
        (case peek_chan s c0 of
           Ret (la, ca) \<Rightarrow>
             (let s1 = env 0 s in
              case peek_chan s1 c1 of
                Ret (lb, cb) \<Rightarrow>
                  if la = 0 \<and> lb = 0 then
                    (if (c0 = 0 \<or> ca) \<and> (c1 = 0 \<or> cb) then Ret (mk_pair s1 3 0)
                     else Ret (mk_pair s1 2 0))
                  else
                    select_try env 1
                      [(lb \<le> la \<and> 0 < la, 0, c0), (0 < lb, 1, c1), (0 < la, 0, c0)] s1
              | Wait \<Rightarrow> Wait
              | Fault \<Rightarrow> Fault)
         | Wait \<Rightarrow> Wait
         | Fault \<Rightarrow> Fault))"

text \<open>The channel on which the waiting forms sleep before they try again.\<close>

definition select2_target :: "bool \<Rightarrow> int \<Rightarrow> int \<Rightarrow> int" where
  "select2_target flip a b =
     (let (wa, wb) =
        (if a \<noteq> 0 \<and> b \<noteq> 0 then (if a < b then (a, b) else (b, a))
         else (if a \<noteq> 0 then a else b, 0))
      in if flip \<and> wb \<noteq> 0 then wb else wa)"

text \<open>
  One turn of the loops: the result, or the channel slept on and the next
  \<open>flip\<close>. \<open>late\<close>: the deadline has passed; without a deadline it is \<open>False\<close>.
\<close>

definition select2_turn ::
  "(nat \<Rightarrow> rt \<Rightarrow> rt) \<Rightarrow> bool \<Rightarrow> bool \<Rightarrow> rt \<Rightarrow> int \<Rightarrow> int \<Rightarrow> (rt \<times> int + rt \<times> int \<times> bool) run" where
  "select2_turn env late flip s c0 c1 =
     (case baga_chan_select2 env s c0 c1 of
        Ret (s', r) \<Rightarrow>
          (if baga_cell2_0 (rt_cells s') r \<noteq> Some 2 then Ret (Inl (s', r))
           else if late then Ret (Inl (mk_pair s' 2 0))
           else
             let wait = select2_target flip c0 c1
             in if wait = 0 then Ret (Inl (mk_pair s' 3 0)) else Ret (Inr (s', wait, \<not> flip)))
      | Wait \<Rightarrow> Wait
      | Fault \<Rightarrow> Fault)"

end
