(* ===== verification/ParChanSpec.thy ===== *)
theory ParChanSpec
  imports ParChan
begin

text \<open>
  Channels against their abstract specification: a bounded queue with a closed
  flag. The order in which values come out is proved once for every bounded
  queue and obtained for the ring buffer by interpretation.
\<close>

section \<open>Bounded queues\<close>

text \<open>
  A history: \<open>Some v\<close> tries to put \<open>v\<close>, \<open>None\<close> tries to take; a refused call
  leaves the queue alone. The result is what was accepted, what came out, and
  the queue left.
\<close>

fun history ::
  "('q \<Rightarrow> 'a \<Rightarrow> 'q) \<Rightarrow> ('q \<Rightarrow> 'a) \<Rightarrow> ('q \<Rightarrow> 'q) \<Rightarrow> ('q \<Rightarrow> bool) \<Rightarrow> ('q \<Rightarrow> bool) \<Rightarrow>
   'a option list \<Rightarrow> 'q \<Rightarrow> 'a list \<times> 'a list \<times> 'q" where
  "history put front nxt room some [] q = ([], [], q)"
| "history put front nxt room some (Some v # es) q =
     (if room q
      then (let (xs, ys, q') = history put front nxt room some es (put q v) in (v # xs, ys, q'))
      else history put front nxt room some es q)"
| "history put front nxt room some (None # es) q =
     (if some q
      then (let (xs, ys, q') = history put front nxt room some es (nxt q) in (xs, front q # ys, q'))
      else history put front nxt room some es q)"

locale bounded_queue =
  fixes put :: "'q \<Rightarrow> 'a \<Rightarrow> 'q"
    and front :: "'q \<Rightarrow> 'a"
    and nxt :: "'q \<Rightarrow> 'q"
    and room :: "'q \<Rightarrow> bool"
    and some :: "'q \<Rightarrow> bool"
    and items :: "'q \<Rightarrow> 'a list"
    and ok :: "'q \<Rightarrow> bool"
  assumes put_items: "ok q \<Longrightarrow> room q \<Longrightarrow> ok (put q v) \<and> items (put q v) = items q @ [v]"
    and nxt_items: "ok q \<Longrightarrow> some q \<Longrightarrow> ok (nxt q) \<and> items q = front q # items (nxt q)"
    and some_iff: "ok q \<Longrightarrow> some q \<longleftrightarrow> items q \<noteq> []"
begin

lemma history_order:
  assumes "ok q"
  shows "case history put front nxt room some es q of (xs, ys, q') \<Rightarrow>
    ok q' \<and> items q @ xs = ys @ items q'"
  using assms
proof (induction es arbitrary: q)
  case (Cons e es)
  show ?case
  proof (cases e)
    case None
    then show ?thesis using Cons.IH [of "nxt q"] nxt_items [OF Cons.prems] Cons.IH [OF Cons.prems]
      by (auto split: prod.splits)
  next
    case (Some v)
    then show ?thesis using Cons.IH [of "put q v"] put_items [OF Cons.prems] Cons.IH [OF Cons.prems]
      by (auto split: prod.splits)
  qed
qed simp

end

section \<open>The ring buffer\<close>

definition chan_ok :: "Chan \<Rightarrow> bool" where
  "chan_ok c \<longleftrightarrow> 0 < ch_cap c \<and> length (ch_buf c) = ch_cap c \<and> ch_len c \<le> ch_cap c \<and> ch_head c < ch_cap c"

definition chan_items :: "Chan \<Rightarrow> int list" where
  "chan_items c = map (\<lambda>i. ch_buf c ! ((ch_head c + i) mod ch_cap c)) [0..<ch_len c]"

definition chan_room :: "Chan \<Rightarrow> bool" where
  "chan_room c \<longleftrightarrow> ch_len c \<noteq> ch_cap c \<and> \<not> ch_closed c"

definition chan_some :: "Chan \<Rightarrow> bool" where
  "chan_some c \<longleftrightarrow> ch_len c \<noteq> 0"

lemma length_chan_items [simp]: "length (chan_items c) = ch_len c"
  by (simp add: chan_items_def)

lemma chan_items_Nil [simp]: "chan_items c = [] \<longleftrightarrow> ch_len c = 0"
  by (simp add: chan_items_def)

lemma new_chan_ok [simp]:
  "chan_ok (new_chan junk n)" "chan_items (new_chan junk n) = []" "ch_closed (new_chan junk n) = False"
  "ch_cap (new_chan junk n) = nat (max 1 n)"
  by (auto simp: chan_ok_def new_chan_def Let_def chan_items_def max_def)

lemma ring_index_neq:
  "i < n \<Longrightarrow> j < n \<Longrightarrow> i \<noteq> j \<Longrightarrow> (h + i) mod n \<noteq> (h + j) mod (n :: nat)"
proof (induction i j rule: linorder_less_wlog)
  case (less i j)
  then have "\<not> n dvd (h + j) - (h + i)" by (simp add: nat_dvd_not_less)
  then show ?case using mod_eq_dvd_iff_nat [of "h + i" "h + j" n] less by auto
qed auto

lemma chan_put_items:
  assumes "chan_ok c" "ch_len c < ch_cap c"
  shows "chan_ok (chan_put c v) \<and> chan_items (chan_put c v) = chan_items c @ [v]"
  using assms by (auto simp: chan_ok_def chan_put_def chan_items_def nth_list_update ring_index_neq)

lemma chan_drop_items:
  assumes "chan_ok c" "ch_len c \<noteq> 0"
  shows "chan_ok (chan_drop c) \<and> chan_items c = chan_front c # chan_items (chan_drop c)"
proof -
  obtain k where k: "ch_len c = Suc k" using assms(2) by (cases "ch_len c") auto
  have "((h + 1) mod n + i) mod n = (h + Suc i) mod n" for h i n :: nat
    by (simp add: mod_add_left_eq)
  then show ?thesis
    using assms(1) by (auto simp: chan_ok_def chan_drop_def chan_items_def chan_front_def k
        upt_conv_Cons map_Suc_upt [symmetric] simp del: upt_Suc)
qed

interpretation ring: bounded_queue chan_put chan_front chan_drop chan_room chan_some chan_items chan_ok
proof
  show "chan_ok (chan_put c v) \<and> chan_items (chan_put c v) = chan_items c @ [v]"
    if "chan_ok c" "chan_room c" for c v
    using that by (intro chan_put_items) (auto simp: chan_room_def chan_ok_def)
  show "chan_ok (chan_drop c) \<and> chan_items c = chan_front c # chan_items (chan_drop c)"
    if "chan_ok c" "chan_some c" for c
    using that by (intro chan_drop_items) (auto simp: chan_some_def)
qed (simp add: chan_some_def)

section \<open>The abstract channel\<close>

record aq =
  aq_items :: "int list"
  aq_cap :: nat
  aq_closed :: bool

definition abs_chan :: "Chan \<Rightarrow> aq" where
  "abs_chan c = \<lparr>aq_items = chan_items c, aq_cap = ch_cap c, aq_closed = ch_closed c\<rparr>"

definition aq_send :: "aq \<Rightarrow> int \<Rightarrow> (aq \<times> int) run" where
  "aq_send q v =
     (if aq_closed q then Ret (q, -1)
      else if length (aq_items q) < aq_cap q then Ret (q\<lparr>aq_items := aq_items q @ [v]\<rparr>, 0)
      else Wait)"

text \<open>Taking a value, with the answers for an open and for a closed empty channel.\<close>

definition aq_take :: "(int \<Rightarrow> 'r) \<Rightarrow> 'r run \<Rightarrow> 'r \<Rightarrow> aq \<Rightarrow> (aq \<times> 'r) run" where
  "aq_take got open_empty closed_empty q =
     (case aq_items q of
        v # vs \<Rightarrow> Ret (q\<lparr>aq_items := vs\<rparr>, got v)
      | [] \<Rightarrow>
          if aq_closed q then Ret (q, closed_empty)
          else (case open_empty of Ret r \<Rightarrow> Ret (q, r) | Wait \<Rightarrow> Wait | Fault \<Rightarrow> Fault))"

text \<open>How a result of the code looks on the abstract side, for plain results and for pairs.\<close>

definition seen :: "int \<Rightarrow> (rt \<times> int) run \<Rightarrow> (aq \<times> int) run" where
  "seen ch r =
     (case r of
        Ret (s, x) \<Rightarrow> (case chan_at s ch of Some c \<Rightarrow> Ret (abs_chan c, x) | None \<Rightarrow> Fault)
      | Wait \<Rightarrow> Wait | Fault \<Rightarrow> Fault)"

definition seen_pair :: "int \<Rightarrow> (rt \<times> int) run \<Rightarrow> (aq \<times> int \<times> int) run" where
  "seen_pair ch r =
     (case r of
        Ret (s, x) \<Rightarrow>
          (case (chan_at s ch, cell_at (rt_cells s) x) of
             (Some c, Some p) \<Rightarrow> Ret (abs_chan c, p) | _ \<Rightarrow> Fault)
      | Wait \<Rightarrow> Wait | Fault \<Rightarrow> Fault)"

lemma chan_at_upd:
  "chan_at s ch = Some c \<Longrightarrow>
   chan_at (chan_upd ch c' s) h = (if h = ch then Some c' else chan_at s h)"
  by (auto simp: chan_at_def chan_upd_def nat_eq_iff split: if_splits)

lemma chan_at_pair [simp]: "chan_at (fst (mk_pair s a b)) h = chan_at s h"
  by (simp add: mk_pair_def baga_cell2_def chan_at_def)

lemma cell_at_pair [simp]: "cell_at (rt_cells (fst (mk_pair s a b))) (snd (mk_pair s a b)) = Some (a, b)"
  by (simp add: mk_pair_def baga_cell2_def cell_at_def)

lemma chan_at_nonzero: "chan_at s ch = Some c \<Longrightarrow> ch \<noteq> 0"
  by (auto simp: chan_at_def split: if_splits)

lemma seen_simps [simp]:
  "seen ch Wait = Wait" "seen ch (Ret (s, x)) = (case chan_at s ch of Some c \<Rightarrow> Ret (abs_chan c, x) | None \<Rightarrow> Fault)"
  "seen_pair ch Wait = Wait"
  by (simp_all add: seen_def seen_pair_def)

lemma seen_mk_pair [simp]:
  "seen_pair ch (Ret (mk_pair s a b)) = (case chan_at s ch of Some c \<Rightarrow> Ret (abs_chan c, (a, b)) | None \<Rightarrow> Fault)"
proof -
  obtain s' x where p: "mk_pair s a b = (s', x)" by (cases "mk_pair s a b")
  then show ?thesis
    using chan_at_pair [of s a b ch] cell_at_pair [of s a b] by (simp add: seen_pair_def split: option.split)
qed

lemma abs_chan_put:
  "chan_ok c \<Longrightarrow> ch_len c < ch_cap c \<Longrightarrow>
   abs_chan (chan_put c v) = (abs_chan c)\<lparr>aq_items := chan_items c @ [v]\<rparr>"
  using chan_put_items [of c v] by (simp add: abs_chan_def chan_put_def)

lemma abs_chan_drop:
  "chan_ok c \<Longrightarrow> ch_len c \<noteq> 0 \<Longrightarrow>
   chan_items c = chan_front c # chan_items (chan_drop c) \<and>
   abs_chan (chan_drop c) = (abs_chan c)\<lparr>aq_items := chan_items (chan_drop c)\<rparr>"
  using chan_drop_items [of c] by (simp add: abs_chan_def chan_drop_def)

lemma abs_chan_sel [simp]:
  "aq_items (abs_chan c) = chan_items c" "aq_cap (abs_chan c) = ch_cap c" "aq_closed (abs_chan c) = ch_closed c"
  by (simp_all add: abs_chan_def)

lemma seen_send:
  assumes "chan_at s ch = Some c" "chan_ok c"
  shows "seen ch (baga_chan_send s ch v) = aq_send (abs_chan c) v"
  using assms chan_at_nonzero [OF assms(1)] abs_chan_put [OF assms(2), of v]
  by (auto simp: baga_chan_send_def aq_send_def chan_at_upd chan_ok_def abs_chan_def)

text \<open>The four ways to take a value, by the same case analysis.\<close>

lemma seen_takes:
  assumes c: "chan_at s ch = Some c" "chan_ok c"
  shows "seen ch (baga_chan_recv s ch) = aq_take (\<lambda>v. v) Wait 0 (abs_chan c)"
    "seen_pair ch (baga_chan_recv2 s ch) = aq_take (Pair 1) Wait (0, 0) (abs_chan c)"
    "seen_pair ch (baga_chan_try_recv s ch) = aq_take (Pair 1) (Ret (0, 0)) (2, 0) (abs_chan c)"
    "seen_pair ch (baga_chan_recv_timeout x s ch) =
       aq_take (Pair 1) (if x then Ret (0, 0) else Wait) (2, 0) (abs_chan c)"
proof -
  note nz = chan_at_nonzero [OF c(1)]
  consider "ch_len c = 0" "chan_items c = []"
    | "ch_len c \<noteq> 0" "chan_items c = chan_front c # chan_items (chan_drop c)"
        "abs_chan (chan_drop c) = (abs_chan c)\<lparr>aq_items := chan_items (chan_drop c)\<rparr>"
    using abs_chan_drop [OF c(2)] by (cases "ch_len c = 0") auto
  then have "seen ch (baga_chan_recv s ch) = aq_take (\<lambda>v. v) Wait 0 (abs_chan c) \<and>
    seen_pair ch (baga_chan_recv2 s ch) = aq_take (Pair 1) Wait (0, 0) (abs_chan c) \<and>
    seen_pair ch (baga_chan_try_recv s ch) = aq_take (Pair 1) (Ret (0, 0)) (2, 0) (abs_chan c) \<and>
    seen_pair ch (baga_chan_recv_timeout x s ch) =
       aq_take (Pair 1) (if x then Ret (0, 0) else Wait) (2, 0) (abs_chan c)"
  proof cases
    case 1
    then show ?thesis
      by (simp add: baga_chan_recv_def baga_chan_recv2_def baga_chan_try_recv_def
        baga_chan_recv_timeout_def aq_take_def c nz del: chan_items_Nil)
  next
    case 2
    then show ?thesis
      by (simp add: baga_chan_recv_def baga_chan_recv2_def baga_chan_try_recv_def
        baga_chan_recv_timeout_def aq_take_def chan_at_upd [OF c(1)] c nz)
  qed
  then show "seen ch (baga_chan_recv s ch) = aq_take (\<lambda>v. v) Wait 0 (abs_chan c)"
    "seen_pair ch (baga_chan_recv2 s ch) = aq_take (Pair 1) Wait (0, 0) (abs_chan c)"
    "seen_pair ch (baga_chan_try_recv s ch) = aq_take (Pair 1) (Ret (0, 0)) (2, 0) (abs_chan c)"
    "seen_pair ch (baga_chan_recv_timeout x s ch) =
       aq_take (Pair 1) (if x then Ret (0, 0) else Wait) (2, 0) (abs_chan c)"
    by blast+
qed

lemma seen_close:
  "chan_at s ch = Some c \<Longrightarrow> seen ch (baga_chan_close s ch) = Ret ((abs_chan c)\<lparr>aq_closed := True\<rparr>, 0)"
  using chan_at_nonzero [of s ch c]
  by (simp add: baga_chan_close_def chan_at_upd abs_chan_def chan_items_def)

text \<open>Only the channel named is changed, and it stays well formed.\<close>

definition rt_ok :: "rt \<Rightarrow> bool" where
  "rt_ok s \<longleftrightarrow> (\<forall>c \<in> set (rt_chans s). chan_ok c)"

definition touches :: "int \<Rightarrow> rt \<Rightarrow> rt \<Rightarrow> bool" where
  "touches ch s s' \<longleftrightarrow>
     (\<forall>h. h \<noteq> ch \<longrightarrow> chan_at s' h = chan_at s h) \<and>
     (\<forall>h p. cell_at (rt_cells s) h = Some p \<longrightarrow> cell_at (rt_cells s') h = Some p) \<and>
     (rt_ok s \<longrightarrow> rt_ok s')"

lemma rt_ok_chan: "rt_ok s \<Longrightarrow> chan_at s h = Some c \<Longrightarrow> chan_ok c"
  by (auto simp: rt_ok_def chan_at_def split: if_splits)

lemma rt_ok_upd: "rt_ok s \<Longrightarrow> chan_ok c \<Longrightarrow> rt_ok (chan_upd ch c s)"
  by (auto simp: rt_ok_def chan_upd_def dest: set_update_subset_insert [THEN subsetD])

lemma touches_refl [simp]: "touches ch s s"
  by (simp add: touches_def)

lemma touches_upd:
  "chan_at s ch = Some c \<Longrightarrow> (rt_ok s \<Longrightarrow> chan_ok c') \<Longrightarrow> touches ch s (chan_upd ch c' s)"
  by (auto simp: touches_def chan_at_upd rt_ok_upd) (simp add: chan_upd_def)

lemma touches_pair: "touches ch s s' \<Longrightarrow> touches ch s (fst (mk_pair s' a b))"
  by (auto simp: touches_def rt_ok_def)
    (auto simp: mk_pair_def baga_cell2_def cell_at_def nth_append split: if_splits)

lemma chan_ok_close: "chan_ok c \<Longrightarrow> chan_ok (c\<lparr>ch_closed := True\<rparr>)"
  by (simp add: chan_ok_def)

lemma mk_pair_eq: "mk_pair s a b = (s', x) \<Longrightarrow> s' = fst (mk_pair s a b)"
  by simp

lemma calls_touch:
  "baga_chan_send s ch v = Ret (s', x) \<Longrightarrow> touches ch s s'"
  "baga_chan_recv s ch = Ret (s', x) \<Longrightarrow> touches ch s s'"
  "baga_chan_recv2 s ch = Ret (s', x) \<Longrightarrow> touches ch s s'"
  "baga_chan_try_recv s ch = Ret (s', x) \<Longrightarrow> touches ch s s'"
  "baga_chan_recv_timeout e s ch = Ret (s', x) \<Longrightarrow> touches ch s s'"
  "baga_chan_close s ch = Ret (s', x) \<Longrightarrow> touches ch s s'"
proof -
  have put: "touches ch s (chan_upd ch (chan_put c v) s)"
    if "chan_at s ch = Some c" "\<not> (ch_len c = ch_cap c)" for c v
    using that rt_ok_chan [of s ch c] chan_put_items [of c v]
    by (intro touches_upd) (auto simp: chan_ok_def)
  have drop: "touches ch s (chan_upd ch (chan_drop c) s)"
    if "chan_at s ch = Some c" "ch_len c \<noteq> 0" for c
    using that rt_ok_chan [of s ch c] chan_drop_items [of c] by (intro touches_upd) auto
  have close: "touches ch s (chan_upd ch (c\<lparr>ch_closed := True\<rparr>) s)" if "chan_at s ch = Some c" for c
    using that rt_ok_chan [of s ch c] chan_ok_close [of c] by (intro touches_upd) auto
  note intros = touches_pair [OF drop] touches_pair [OF touches_refl] put drop close
  show "baga_chan_send s ch v = Ret (s', x) \<Longrightarrow> touches ch s s'"
    by (auto simp: baga_chan_send_def intro: intros split: if_splits option.splits)
  show "baga_chan_recv s ch = Ret (s', x) \<Longrightarrow> touches ch s s'"
    by (auto simp: baga_chan_recv_def intro: intros split: if_splits option.splits)
  show "baga_chan_recv2 s ch = Ret (s', x) \<Longrightarrow> touches ch s s'"
    by (auto simp: baga_chan_recv2_def intro: intros split: if_splits option.splits dest!: mk_pair_eq)
  show "baga_chan_try_recv s ch = Ret (s', x) \<Longrightarrow> touches ch s s'"
    by (auto simp: baga_chan_try_recv_def intro: intros split: if_splits option.splits dest!: mk_pair_eq)
  show "baga_chan_recv_timeout e s ch = Ret (s', x) \<Longrightarrow> touches ch s s'"
    by (auto simp: baga_chan_recv_timeout_def intro: intros split: if_splits option.splits dest!: mk_pair_eq)
  show "baga_chan_close s ch = Ret (s', x) \<Longrightarrow> touches ch s s'"
    by (auto simp: baga_chan_close_def intro: intros split: if_splits option.splits)
qed

end
