(* ===== verification/ParPool.thy ===== *)
theory ParPool
  imports ParChanSpec "HOL-Library.Multiset"
begin

text \<open>
  \<open>baga_pool_map\<close> (\<open>src/baga_par_rt.c\<close>): worker threads that take indices from
  one channel and send pairs to another, and the parent that feeds, closes,
  collects and joins. Every thread is a program counter; a step runs one thread
  up to its next access to shared state, in any order.
\<close>

datatype wpc = W_RECV | W_RUN int | W_PAIR int int | W_SEND int | W_EXIT

datatype mpc = M_GO nat | M_SEND nat | M_CLOSE | M_RECV nat | M_JOIN nat | M_RET

record pool =
  pl_rt :: rt
  pl_workers :: "wpc list"
  pl_main :: mpc
  pl_out :: Vec

definition jobs_ch :: int where "jobs_ch = 1"
definition results_ch :: int where "results_ch = 2"

text \<open>One step of a worker; \<open>None\<close> while it waits.\<close>

fun baga_pool_worker :: "(int \<Rightarrow> int) \<Rightarrow> Vec \<Rightarrow> rt \<Rightarrow> wpc \<Rightarrow> (rt \<times> wpc) option" where
  "baga_pool_worker f xs s W_RECV =
     (case baga_chan_recv2 s jobs_ch of
        Ret (s', pr) \<Rightarrow>
          (case (baga_cell2_0 (rt_cells s') pr, baga_cell2_1 (rt_cells s') pr) of
             (Some st, Some i) \<Rightarrow> Some (s', if st = 0 then W_EXIT else W_RUN i)
           | _ \<Rightarrow> None)
      | _ \<Rightarrow> None)"
| "baga_pool_worker f xs s (W_RUN i) = Some (s, W_PAIR i (f (par_vec_get xs i)))"
| "baga_pool_worker f xs s (W_PAIR i r) = (let (s', h) = mk_pair s i r in Some (s', W_SEND h))"
| "baga_pool_worker f xs s (W_SEND h) =
     (case baga_chan_send s results_ch h of Ret (s', r) \<Rightarrow> Some (s', W_RECV) | _ \<Rightarrow> None)"
| "baga_pool_worker f xs s W_EXIT = None"

text \<open>The thread count after clamping.\<close>

definition pool_nw :: "Vec \<Rightarrow> int \<Rightarrow> nat" where
  "pool_nw xs nw0 =
     (let n = par_vec_len xs; nw = (if nw0 < 1 then 1 else nw0) in nat (if nw > n then n else nw))"

fun push_zeros :: "(nat \<Rightarrow> int) \<Rightarrow> nat \<Rightarrow> Vec \<Rightarrow> Vec" where
  "push_zeros junk 0 v = v"
| "push_zeros junk (Suc k) v = push_zeros junk k (par_vec_push junk v 0)"

text \<open>The state once the channels exist; \<open>None\<close> is the early return of an empty vector.\<close>

definition pool_start :: "(nat \<Rightarrow> int) \<Rightarrow> Vec \<Rightarrow> pool option" where
  "pool_start junk xs =
     (if par_vec_len xs \<le> 0 then None
      else
        let n = par_vec_len xs;
            (s1, jobs) = baga_chan_new junk \<lparr>rt_cells = [], rt_chans = []\<rparr> n;
            (s2, results) = baga_chan_new junk s1 n
        in Some \<lparr>pl_rt = s2, pl_workers = [], pl_main = M_GO 0,
                 pl_out = push_zeros junk (nat n) (par_vec_new junk)\<rparr>)"

fun baga_pool_map :: "nat \<Rightarrow> nat \<Rightarrow> pool \<Rightarrow> pool option" where
  "baga_pool_map n nw p =
     (case pl_main p of
        M_GO w \<Rightarrow>
          Some (if w < nw then p\<lparr>pl_workers := pl_workers p @ [W_RECV], pl_main := M_GO (w + 1)\<rparr>
                else p\<lparr>pl_main := M_SEND 0\<rparr>)
      | M_SEND i \<Rightarrow>
          (if i < n then
             (case baga_chan_send (pl_rt p) jobs_ch (int i) of
                Ret (s', r) \<Rightarrow> Some (p\<lparr>pl_rt := s', pl_main := M_SEND (i + 1)\<rparr>)
              | _ \<Rightarrow> None)
           else Some (p\<lparr>pl_main := M_CLOSE\<rparr>))
      | M_CLOSE \<Rightarrow>
          (case baga_chan_close (pl_rt p) jobs_ch of
             Ret (s', r) \<Rightarrow> Some (p\<lparr>pl_rt := s', pl_main := M_RECV 0\<rparr>) | _ \<Rightarrow> None)
      | M_RECV i \<Rightarrow>
          (if i < n then
             (case baga_chan_recv (pl_rt p) results_ch of
                Ret (s', pair) \<Rightarrow>
                  (case (baga_cell2_0 (rt_cells s') pair, baga_cell2_1 (rt_cells s') pair) of
                     (Some idx, Some r) \<Rightarrow>
                       Some (p\<lparr>pl_rt := s', pl_main := M_RECV (i + 1),
                               pl_out := (if 0 \<le> idx \<and> idx < int n then par_vec_set (pl_out p) idx r
                                          else pl_out p)\<rparr>)
                   | _ \<Rightarrow> None)
              | _ \<Rightarrow> None)
           else Some (p\<lparr>pl_main := M_JOIN 0\<rparr>))
      | M_JOIN w \<Rightarrow>
          (if w < nw then (if pl_workers p ! w = W_EXIT then Some (p\<lparr>pl_main := M_JOIN (w + 1)\<rparr>) else None)
           else Some (p\<lparr>pl_main := M_RET\<rparr>))
      | M_RET \<Rightarrow> None)"

inductive pool_step :: "(int \<Rightarrow> int) \<Rightarrow> Vec \<Rightarrow> nat \<Rightarrow> pool \<Rightarrow> pool \<Rightarrow> bool" for f xs nw where
  worker: "i < length (pl_workers p) \<Longrightarrow>
    baga_pool_worker f xs (pl_rt p) (pl_workers p ! i) = Some (s', w') \<Longrightarrow>
    pool_step f xs nw p (p\<lparr>pl_rt := s', pl_workers := (pl_workers p)[i := w']\<rparr>)"
| parent: "baga_pool_map (v_len xs) nw p = Some p' \<Longrightarrow> pool_step f xs nw p p'"

inductive_cases pool_stepE: "pool_step f xs nw p p'"

section \<open>What the channel calls give\<close>

lemma recv2_result:
  assumes "baga_chan_recv2 s ch = Ret (s', pr)" "chan_at s ch = Some c" "chan_ok c"
  shows "\<exists>c' st v. chan_at s' ch = Some c' \<and> cell_at (rt_cells s') pr = Some (st, v) \<and>
    ch_cap c' = ch_cap c \<and> ch_closed c' = ch_closed c \<and>
    (if ch_len c = 0 then ch_closed c \<and> st = 0 \<and> chan_items c' = []
     else st = 1 \<and> chan_items c = v # chan_items c')"
  using seen_takes(2) [OF assms(2,3)] assms(1)
  by (fastforce simp: aq_take_def seen_pair_def abs_chan_def split: list.splits option.splits if_splits
      simp flip: chan_items_Nil)

lemma recv_result:
  assumes "baga_chan_recv s ch = Ret (s', x)" "chan_at s ch = Some c" "chan_ok c" "\<not> ch_closed c"
  shows "\<exists>c'. chan_at s' ch = Some c' \<and> ch_cap c' = ch_cap c \<and> \<not> ch_closed c' \<and>
    chan_items c = x # chan_items c'"
  using seen_takes(1) [OF assms(2,3)] assms(1,4)
  by (fastforce simp: aq_take_def seen_def abs_chan_def split: list.splits option.splits if_splits)

lemma send_result:
  assumes "baga_chan_send s ch v = Ret (s', x)" "chan_at s ch = Some c" "chan_ok c" "\<not> ch_closed c"
  shows "\<exists>c'. chan_at s' ch = Some c' \<and> ch_cap c' = ch_cap c \<and> \<not> ch_closed c' \<and>
    chan_items c' = chan_items c @ [v]"
  using seen_send [OF assms(2,3), of v] assms(1,4)
  by (fastforce simp: aq_send_def seen_def abs_chan_def split: option.splits if_splits)

lemma close_result:
  assumes "baga_chan_close s ch = Ret (s', x)" "chan_at s ch = Some c"
  shows "\<exists>c'. chan_at s' ch = Some c' \<and> ch_cap c' = ch_cap c \<and> ch_closed c' \<and>
    chan_items c' = chan_items c"
  using seen_close [OF assms(2)] assms(1)
  by (fastforce simp: seen_def abs_chan_def split: option.splits)

section \<open>The invariant\<close>

definition cell_index :: "cells \<Rightarrow> int \<Rightarrow> int" where
  "cell_index cs h = fst (the (cell_at cs h))"

definition good_cell :: "(int \<Rightarrow> int) \<Rightarrow> Vec \<Rightarrow> cells \<Rightarrow> int \<Rightarrow> bool" where
  "good_cell f xs cs h \<longleftrightarrow> (\<exists>i. cell_at cs h = Some (i, f (par_vec_get xs i)))"

text \<open>The indices a worker holds.\<close>

fun held :: "cells \<Rightarrow> wpc \<Rightarrow> int multiset" where
  "held cs W_RECV = {#}"
| "held cs (W_RUN i) = {#i#}"
| "held cs (W_PAIR i r) = {#i#}"
| "held cs (W_SEND h) = {#cell_index cs h#}"
| "held cs W_EXIT = {#}"

fun worker_ok :: "(int \<Rightarrow> int) \<Rightarrow> Vec \<Rightarrow> rt \<Rightarrow> wpc \<Rightarrow> bool" where
  "worker_ok f xs s (W_PAIR i r) \<longleftrightarrow> r = f (par_vec_get xs i)"
| "worker_ok f xs s (W_SEND h) \<longleftrightarrow> good_cell f xs (rt_cells s) h"
| "worker_ok f xs s W_EXIT \<longleftrightarrow> (\<exists>c. chan_at s jobs_ch = Some c \<and> ch_closed c \<and> ch_len c = 0)"
| "worker_ok f xs s w \<longleftrightarrow> True"

fun sent :: "nat \<Rightarrow> mpc \<Rightarrow> nat" where
  "sent n (M_GO w) = 0" | "sent n (M_SEND i) = i" | "sent n m = n"

fun received :: "nat \<Rightarrow> mpc \<Rightarrow> nat" where
  "received n (M_RECV i) = i" | "received n (M_JOIN w) = n" | "received n M_RET = n" | "received n m = 0"

fun spawned :: "nat \<Rightarrow> mpc \<Rightarrow> nat" where
  "spawned nw (M_GO w) = w" | "spawned nw m = nw"

fun feeding :: "mpc \<Rightarrow> bool" where
  "feeding (M_GO w) = True" | "feeding (M_SEND i) = True" | "feeding M_CLOSE = True" | "feeding m = False"

definition flight :: "cells \<Rightarrow> wpc list \<Rightarrow> Chan \<Rightarrow> Chan \<Rightarrow> int multiset" where
  "flight cs ws cj cr =
     mset (chan_items cj) + sum_list (map (held cs) ws) + mset (map (cell_index cs) (chan_items cr))"

definition chans_ok :: "nat \<Rightarrow> mpc \<Rightarrow> rt \<Rightarrow> Chan \<Rightarrow> Chan \<Rightarrow> bool" where
  "chans_ok n m s cj cr \<longleftrightarrow>
     rt_ok s \<and> chan_at s jobs_ch = Some cj \<and> chan_at s results_ch = Some cr \<and>
     ch_cap cj = n \<and> ch_cap cr = n \<and> (ch_closed cj \<longleftrightarrow> \<not> feeding m) \<and> \<not> ch_closed cr"

definition pool_at :: "(int \<Rightarrow> int) \<Rightarrow> Vec \<Rightarrow> nat \<Rightarrow> pool \<Rightarrow> Chan \<Rightarrow> Chan \<Rightarrow> int multiset \<Rightarrow> bool" where
  "pool_at f xs nw p cj cr D \<longleftrightarrow>
     chans_ok (v_len xs) (pl_main p) (pl_rt p) cj cr \<and>
     mset (map int [0..<sent (v_len xs) (pl_main p)]) = flight (rt_cells (pl_rt p)) (pl_workers p) cj cr + D \<and>
     size D = received (v_len xs) (pl_main p) \<and>
     (\<forall>i \<in># D. vec_list (pl_out p) ! nat i = f (par_vec_get xs i)) \<and>
     (\<forall>h \<in> set (chan_items cr). good_cell f xs (rt_cells (pl_rt p)) h) \<and>
     (\<forall>w \<in> set (pl_workers p). worker_ok f xs (pl_rt p) w) \<and>
     vec_ok (pl_out p) \<and> v_len (pl_out p) = v_len xs \<and>
     length (pl_workers p) = spawned nw (pl_main p) \<and>
     spawned nw (pl_main p) \<le> nw \<and> sent (v_len xs) (pl_main p) \<le> v_len xs \<and>
     received (v_len xs) (pl_main p) \<le> v_len xs"

definition pool_inv :: "(int \<Rightarrow> int) \<Rightarrow> Vec \<Rightarrow> nat \<Rightarrow> pool \<Rightarrow> bool" where
  "pool_inv f xs nw p \<longleftrightarrow> (\<exists>cj cr D. pool_at f xs nw p cj cr D)"

definition rt_grows :: "rt \<Rightarrow> rt \<Rightarrow> bool" where
  "rt_grows s s' \<longleftrightarrow>
     (\<forall>h p. cell_at (rt_cells s) h = Some p \<longrightarrow> cell_at (rt_cells s') h = Some p) \<and>
     (\<forall>c. chan_at s jobs_ch = Some c \<and> ch_closed c \<and> ch_len c = 0 \<longrightarrow>
        (\<exists>c'. chan_at s' jobs_ch = Some c' \<and> ch_closed c' \<and> ch_len c' = 0))"

lemma rt_grows_refl: "rt_grows s s"
  by (simp add: rt_grows_def)

lemma good_cell_grows:
  "rt_grows s s' \<Longrightarrow> good_cell f xs (rt_cells s) h \<Longrightarrow>
   good_cell f xs (rt_cells s') h \<and> cell_index (rt_cells s') h = cell_index (rt_cells s) h"
  by (fastforce simp: rt_grows_def good_cell_def cell_index_def)

lemma worker_grows:
  "rt_grows s s' \<Longrightarrow> worker_ok f xs s w \<Longrightarrow>
   worker_ok f xs s' w \<and> held (rt_cells s') w = held (rt_cells s) w"
  using good_cell_grows [of s s' f xs] by (cases w) (auto simp: rt_grows_def)

lemma workers_grow:
  "rt_grows s s' \<Longrightarrow> \<forall>w \<in> set ws. worker_ok f xs s w \<Longrightarrow>
   (\<forall>w \<in> set ws. worker_ok f xs s' w) \<and>
   sum_list (map (held (rt_cells s')) ws) = sum_list (map (held (rt_cells s)) ws)"
  using worker_grows [of s s' f xs] by (induction ws) auto

lemma results_grow:
  "rt_grows s s' \<Longrightarrow> \<forall>h \<in> set hs. good_cell f xs (rt_cells s) h \<Longrightarrow>
   (\<forall>h \<in> set hs. good_cell f xs (rt_cells s') h) \<and>
   image_mset (cell_index (rt_cells s')) (mset hs) = image_mset (cell_index (rt_cells s)) (mset hs)"
  using good_cell_grows [of s s' f xs] by (induction hs) auto

lemma touches_other: "touches ch s s' \<Longrightarrow> h \<noteq> ch \<Longrightarrow> chan_at s' h = chan_at s h"
  by (simp add: touches_def)

lemma touches_rt_ok: "touches ch s s' \<Longrightarrow> rt_ok s \<Longrightarrow> rt_ok s'"
  by (simp add: touches_def)

lemma rt_grows_results: "touches results_ch s s' \<Longrightarrow> rt_grows s s'"
  by (auto simp: touches_def rt_grows_def jobs_ch_def results_ch_def)

lemma rt_grows_pair: "rt_grows s (fst (mk_pair s a b))"
  using touches_pair [OF touches_refl, of 0 s a b] by (auto simp: rt_grows_def touches_def)

lemma handles_neq [simp]: "jobs_ch \<noteq> results_ch" "results_ch \<noteq> jobs_ch"
  by (simp_all add: jobs_ch_def results_ch_def)

lemma cell_at_index: "cell_at cs h = Some (i, r) \<Longrightarrow> cell_index cs h = i"
  by (simp add: cell_index_def)

section \<open>A worker's step\<close>

text \<open>A step of one worker keeps the balance if it does so around that worker.\<close>

lemma worker_balance:
  assumes inv: "pool_at f xs nw p cj cr D" and ws: "pl_workers p = us @ w # vs"
    and g: "rt_grows (pl_rt p) s'" and ch: "chans_ok (v_len xs) (pl_main p) s' cj' cr'"
    and bal: "mset (chan_items cj') + held (rt_cells s') w' + mset (map (cell_index (rt_cells s')) (chan_items cr'))
      = mset (chan_items cj) + held (rt_cells (pl_rt p)) w
        + mset (map (cell_index (rt_cells (pl_rt p))) (chan_items cr))"
    and w': "worker_ok f xs s' w'" and good: "\<forall>h \<in> set (chan_items cr'). good_cell f xs (rt_cells s') h"
  shows "pool_at f xs nw (p\<lparr>pl_rt := s', pl_workers := us @ w' # vs\<rparr>) cj' cr' D"
proof -
  have ok: "\<forall>w \<in> set us. worker_ok f xs (pl_rt p) w" "\<forall>w \<in> set vs. worker_ok f xs (pl_rt p) w"
    using inv ws by (auto simp: pool_at_def)
  note gr = workers_grow [OF g ok(1)] workers_grow [OF g ok(2)]
  have "flight (rt_cells s') (us @ w' # vs) cj' cr' = flight (rt_cells (pl_rt p)) (us @ w # vs) cj cr"
    using bal gr by (simp add: flight_def ac_simps)
  with inv ws ch gr w' good show ?thesis by (simp add: pool_at_def ball_Un)
qed

lemma worker_inv:
  assumes inv: "pool_at f xs nw p cj cr D" and ws: "pl_workers p = us @ w # vs"
    and st: "baga_pool_worker f xs (pl_rt p) w = Some (s', w')"
  shows "\<exists>cj' cr'. pool_at f xs nw (p\<lparr>pl_rt := s', pl_workers := us @ w' # vs\<rparr>) cj' cr' D"
proof -
  let ?s = "pl_rt p" let ?n = "v_len xs"
  note bal = worker_balance [OF inv ws]
  have ch: "chans_ok ?n (pl_main p) ?s cj cr" and good: "\<forall>h \<in> set (chan_items cr). good_cell f xs (rt_cells ?s) h"
    and wok: "worker_ok f xs ?s w" using inv ws by (auto simp: pool_at_def)
  have c: "rt_ok ?s" "chan_at ?s jobs_ch = Some cj" "chan_at ?s results_ch = Some cr" "\<not> ch_closed cr"
    using ch by (auto simp: chans_ok_def)
  note cok = rt_ok_chan [OF c(1,2)] rt_ok_chan [OF c(1,3)]
  show ?thesis
  proof (cases w)
    case W_RECV
    from st obtain pr where r: "baga_chan_recv2 ?s jobs_ch = Ret (s', pr)"
      by (auto simp: W_RECV split: run.splits option.splits prod.splits)
    from recv2_result [OF r c(2) cok(1)] obtain cj' a v where cj':
      "chan_at s' jobs_ch = Some cj'" "cell_at (rt_cells s') pr = Some (a, v)" "ch_cap cj' = ch_cap cj"
      "ch_closed cj' = ch_closed cj"
      "if ch_len cj = 0 then ch_closed cj \<and> a = 0 \<and> chan_items cj' = [] else a = 1 \<and> chan_items cj = v # chan_items cj'"
      by blast
    note t = calls_touch(3) [OF r]
    have g: "rt_grows ?s s'" using t cj' c(2) by (auto simp: rt_grows_def touches_def simp flip: chan_items_Nil)
    have ch': "chans_ok ?n (pl_main p) s' cj' cr"
      using ch cj' touches_other [OF t, of results_ch] touches_rt_ok [OF t] by (auto simp: chans_ok_def)
    note rg = results_grow [OF g good]
    have w': "w' = (if a = 0 then W_EXIT else W_RUN v)"
      using st r cj'(2) by (auto simp: W_RECV baga_cell2_0_def baga_cell2_1_def)
    show ?thesis
    proof (cases "ch_len cj = 0")
      case True
      then have "ch_len cj' = 0" "chan_items cj = []" using cj'(5) by (simp_all flip: chan_items_Nil)
      with True have "pool_at f xs nw (p\<lparr>pl_rt := s', pl_workers := us @ w' # vs\<rparr>) cj' cr D"
        using cj' w' rg by (intro bal [OF g ch']) (auto simp: W_RECV simp del: chan_items_Nil)
      then show ?thesis by blast
    next
      case False
      then have "pool_at f xs nw (p\<lparr>pl_rt := s', pl_workers := us @ w' # vs\<rparr>) cj' cr D"
        using cj' w' rg by (intro bal [OF g ch']) (auto simp: W_RECV)
      then show ?thesis by blast
    qed
  next
    case (W_RUN i)
    have "pool_at f xs nw (p\<lparr>pl_rt := s', pl_workers := us @ w' # vs\<rparr>) cj cr D"
      using st good ch by (intro bal) (auto simp: W_RUN rt_grows_refl)
    then show ?thesis by blast
  next
    case (W_PAIR i r)
    have s': "s' = fst (mk_pair ?s i r)" "w' = W_SEND (snd (mk_pair ?s i r))"
      using st by (auto simp: W_PAIR split: prod.splits)
    have g: "rt_grows ?s s'" by (simp add: s' rt_grows_pair)
    have cell: "cell_at (rt_cells s') (snd (mk_pair ?s i r)) = Some (i, f (par_vec_get xs i))"
      using wok by (simp add: s' W_PAIR)
    have ch': "chans_ok ?n (pl_main p) s' cj cr"
      using ch touches_rt_ok [OF touches_pair [OF touches_refl]] by (simp add: chans_ok_def s')
    have "pool_at f xs nw (p\<lparr>pl_rt := s', pl_workers := us @ w' # vs\<rparr>) cj cr D"
      using results_grow [OF g good] cell cell_at_index [OF cell]
      by (intro bal [OF g ch']) (auto simp: W_PAIR s'(2) good_cell_def)
    then show ?thesis by blast
  next
    case (W_SEND h)
    from st obtain x where r: "baga_chan_send ?s results_ch h = Ret (s', x)" and w': "w' = W_RECV"
      by (auto simp: W_SEND split: run.splits prod.splits)
    from send_result [OF r c(3) cok(2) c(4)] obtain cr' where cr':
      "chan_at s' results_ch = Some cr'" "ch_cap cr' = ch_cap cr" "\<not> ch_closed cr'"
      "chan_items cr' = chan_items cr @ [h]" by blast
    note t = calls_touch(1) [OF r]
    note g = rt_grows_results [OF t]
    have h: "good_cell f xs (rt_cells ?s) h" using wok by (simp add: W_SEND)
    have ch': "chans_ok ?n (pl_main p) s' cj cr'"
      using ch cr' touches_other [OF t, of jobs_ch] touches_rt_ok [OF t] by (auto simp: chans_ok_def)
    have "pool_at f xs nw (p\<lparr>pl_rt := s', pl_workers := us @ w' # vs\<rparr>) cj cr' D"
      using results_grow [OF g good] good_cell_grows [OF g h] cr'(4)
      by (intro bal [OF g ch']) (auto simp: W_SEND w')
    then show ?thesis by blast
  qed (use st in simp)
qed

section \<open>A step of the parent\<close>

lemma pool_at_out:
  "pool_at f xs nw p cj cr D \<Longrightarrow> vec_ok (pl_out p) \<and> length (vec_list (pl_out p)) = v_len xs"
  by (auto simp: pool_at_def vec_ok_def vec_list_def)

text \<open>The steps that only move the parent's counter.\<close>

lemma parent_counter:
  "pool_at f xs nw p cj cr D \<Longrightarrow> sent (v_len xs) m = sent (v_len xs) (pl_main p) \<Longrightarrow>
   received (v_len xs) m = received (v_len xs) (pl_main p) \<Longrightarrow>
   spawned nw m = spawned nw (pl_main p) \<Longrightarrow> feeding m = feeding (pl_main p) \<Longrightarrow>
   pool_at f xs nw (p\<lparr>pl_main := m\<rparr>) cj cr D"
  by (simp add: pool_at_def chans_ok_def)

lemma parent_send:
  assumes inv: "pool_at f xs nw p cj cr D" and m: "pl_main p = M_SEND i" "i < v_len xs"
    and r: "baga_chan_send (pl_rt p) jobs_ch (int i) = Ret (s', x)"
  shows "\<exists>cj'. pool_at f xs nw (p\<lparr>pl_rt := s', pl_main := M_SEND (i + 1)\<rparr>) cj' cr D"
proof -
  have ch: "chans_ok (v_len xs) (pl_main p) (pl_rt p) cj cr"
    and good: "\<forall>h \<in> set (chan_items cr). good_cell f xs (rt_cells (pl_rt p)) h"
    and wok: "\<forall>w \<in> set (pl_workers p). worker_ok f xs (pl_rt p) w" using inv by (auto simp: pool_at_def)
  have c: "rt_ok (pl_rt p)" "chan_at (pl_rt p) jobs_ch = Some cj" "\<not> ch_closed cj" using ch m by (auto simp: chans_ok_def)
  from send_result [OF r c(2) rt_ok_chan [OF c(1,2)] c(3)] obtain cj' where cj':
    "chan_at s' jobs_ch = Some cj'" "ch_cap cj' = ch_cap cj" "\<not> ch_closed cj'"
    "chan_items cj' = chan_items cj @ [int i]" by blast
  note t = calls_touch(1) [OF r]
  have g: "rt_grows (pl_rt p) s'" using t c by (auto simp: rt_grows_def touches_def)
  have "chans_ok (v_len xs) (M_SEND (i + 1)) s' cj' cr"
    using ch m cj' touches_other [OF t, of results_ch] touches_rt_ok [OF t] by (auto simp: chans_ok_def)
  moreover have "flight (rt_cells s') (pl_workers p) cj' cr =
      add_mset (int i) (flight (rt_cells (pl_rt p)) (pl_workers p) cj cr)"
    using workers_grow [OF g wok] results_grow [OF g good] cj'(4) by (simp add: flight_def)
  ultimately have "pool_at f xs nw (p\<lparr>pl_rt := s', pl_main := M_SEND (i + 1)\<rparr>) cj' cr D"
    using inv m workers_grow [OF g wok] results_grow [OF g good] by (simp add: pool_at_def)
  then show ?thesis by blast
qed

lemma parent_close:
  assumes inv: "pool_at f xs nw p cj cr D" and m: "pl_main p = M_CLOSE"
    and r: "baga_chan_close (pl_rt p) jobs_ch = Ret (s', x)"
  shows "\<exists>cj'. pool_at f xs nw (p\<lparr>pl_rt := s', pl_main := M_RECV 0\<rparr>) cj' cr D"
proof -
  have ch: "chans_ok (v_len xs) (pl_main p) (pl_rt p) cj cr"
    and good: "\<forall>h \<in> set (chan_items cr). good_cell f xs (rt_cells (pl_rt p)) h"
    and wok: "\<forall>w \<in> set (pl_workers p). worker_ok f xs (pl_rt p) w" using inv by (auto simp: pool_at_def)
  have c: "chan_at (pl_rt p) jobs_ch = Some cj" "\<not> ch_closed cj" using ch m by (auto simp: chans_ok_def)
  from close_result [OF r c(1)] obtain cj' where cj':
    "chan_at s' jobs_ch = Some cj'" "ch_cap cj' = ch_cap cj" "ch_closed cj'" "chan_items cj' = chan_items cj" by blast
  note t = calls_touch(6) [OF r]
  have g: "rt_grows (pl_rt p) s'" using t c by (auto simp: rt_grows_def touches_def)
  have "chans_ok (v_len xs) (M_RECV 0) s' cj' cr"
    using ch m cj' touches_other [OF t, of results_ch] touches_rt_ok [OF t] by (auto simp: chans_ok_def)
  moreover have "flight (rt_cells s') (pl_workers p) cj' cr = flight (rt_cells (pl_rt p)) (pl_workers p) cj cr"
    using workers_grow [OF g wok] results_grow [OF g good] cj'(4) by (simp add: flight_def)
  ultimately have "pool_at f xs nw (p\<lparr>pl_rt := s', pl_main := M_RECV 0\<rparr>) cj' cr D"
    using inv m workers_grow [OF g wok] results_grow [OF g good] by (simp add: pool_at_def)
  then show ?thesis by blast
qed

end
