(* ===== verification/ParPoolRun.thy ===== *)
theory ParPoolRun
  imports ParPool
begin

text \<open>
  Runs of the worker pool: the invariant holds in every state, the result is
  the mapped vector, no state is stuck, and every schedule ends.
\<close>

section \<open>Collecting\<close>

lemma sent_range:
  assumes "mset (map int [0..<k]) = M + D" "i \<in># M + D" "k \<le> n"
  shows "0 \<le> i \<and> i < int n"
proof -
  have "i \<in># mset (map int [0..<k])" using assms(2) unfolding assms(1) .
  then show ?thesis using assms(3) by auto
qed

lemma parent_recv:
  assumes inv: "pool_at f xs nw p cj cr D" and m: "pl_main p = M_RECV i" "i < v_len xs"
    and r: "baga_chan_recv (pl_rt p) results_ch = Ret (s', h)"
    and cell: "baga_cell2_0 (rt_cells s') h = Some idx" "baga_cell2_1 (rt_cells s') h = Some v"
  shows "\<exists>cr' D'. pool_at f xs nw (p\<lparr>pl_rt := s', pl_main := M_RECV (i + 1),
    pl_out := (if 0 \<le> idx \<and> idx < int (v_len xs) then par_vec_set (pl_out p) idx v else pl_out p)\<rparr>) cj cr' D'"
proof -
  let ?n = "v_len xs" let ?F = "\<lambda>i. f (par_vec_get xs i)"
  have ch: "chans_ok ?n (pl_main p) (pl_rt p) cj cr"
    and good: "\<forall>h \<in> set (chan_items cr). good_cell f xs (rt_cells (pl_rt p)) h"
    and wok: "\<forall>w \<in> set (pl_workers p). worker_ok f xs (pl_rt p) w"
    and bal: "mset (map int [0..<?n]) = flight (rt_cells (pl_rt p)) (pl_workers p) cj cr + D"
    using inv m by (auto simp: pool_at_def)
  have c: "rt_ok (pl_rt p)" "chan_at (pl_rt p) results_ch = Some cr" "\<not> ch_closed cr" using ch by (auto simp: chans_ok_def)
  from recv_result [OF r c(2) rt_ok_chan [OF c(1,2)] c(3)] obtain cr' where cr':
    "chan_at s' results_ch = Some cr'" "ch_cap cr' = ch_cap cr" "\<not> ch_closed cr'"
    "chan_items cr = h # chan_items cr'" by blast
  note t = calls_touch(2) [OF r]
  note g = rt_grows_results [OF t]
  have ch': "chans_ok ?n (M_RECV (i + 1)) s' cj cr'"
    using ch m cr' touches_other [OF t, of jobs_ch] touches_rt_ok [OF t] by (auto simp: chans_ok_def)
  have "good_cell f xs (rt_cells (pl_rt p)) h" using good cr' by simp
  then have idx: "v = ?F idx" "cell_index (rt_cells (pl_rt p)) h = idx"
    using good_cell_grows [OF g, of f xs h] cell cell_at_index [of "rt_cells s'" h]
    by (auto simp: good_cell_def baga_cell2_0_def baga_cell2_1_def)
  have fl: "flight (rt_cells (pl_rt p)) (pl_workers p) cj cr =
      add_mset idx (flight (rt_cells s') (pl_workers p) cj cr')"
    using workers_grow [OF g wok] results_grow [OF g, of "chan_items cr'" f xs] good cr'(4) idx(2)
    by (simp add: flight_def)
  then have bal': "mset (map int [0..<?n]) = flight (rt_cells s') (pl_workers p) cj cr' + add_mset idx D"
    using bal by simp
  have rng: "0 \<le> j \<and> j < int ?n" if "j \<in># add_mset idx D" for j
    using sent_range [OF bal', of j ?n] that by auto
  let ?out = "par_vec_set (pl_out p) idx v"
  have vo: "vec_ok (pl_out p)" "v_len (pl_out p) = ?n" using inv by (auto simp: pool_at_def)
  have out: "vec_ok ?out" "vec_list ?out = (vec_list (pl_out p))[nat idx := v]" "v_len ?out = ?n"
    using par_vec_set_ok [OF vo(1)] vo(2) by (simp_all add: par_vec_set_def)
  have "vec_list ?out ! nat j = ?F j" if "j \<in># add_mset idx D" for j
  proof (cases "j = idx")
    case True
    then show ?thesis using rng [OF that] pool_at_out [OF inv] out(2) idx(1) by (simp add: nat_less_iff)
  next
    case False
    then have "nat j \<noteq> nat idx" using rng [OF that] rng [of idx] by auto
    then show ?thesis using that False inv out(2) by (auto simp: pool_at_def)
  qed
  moreover have "0 \<le> idx \<and> idx < int ?n" using rng [of idx] by simp
  ultimately have "pool_at f xs nw (p\<lparr>pl_rt := s', pl_main := M_RECV (i + 1),
    pl_out := (if 0 \<le> idx \<and> idx < int ?n then ?out else pl_out p)\<rparr>) cj cr' (add_mset idx D)"
    using inv m ch' bal' out workers_grow [OF g wok] results_grow [OF g, of "chan_items cr'" f xs] good cr'(4)
    by (simp add: pool_at_def)
  then show ?thesis by blast
qed

lemma parent_inv:
  assumes inv: "pool_at f xs nw p cj cr D" and st: "baga_pool_map (v_len xs) nw p = Some p'"
  shows "pool_inv f xs nw p'"
proof (cases "pl_main p")
  case (M_GO w)
  show ?thesis
  proof (cases "w < nw")
    case True
    then have "pool_at f xs nw p' cj cr D"
      using inv st M_GO by (auto simp: pool_at_def chans_ok_def flight_def)
    then show ?thesis by (auto simp: pool_inv_def)
  next
    case False
    then have "p' = p\<lparr>pl_main := M_SEND 0\<rparr>" "w = nw" using st M_GO inv by (auto simp: pool_at_def)
    with parent_counter [OF inv, of "M_SEND 0"] M_GO show ?thesis by (auto simp: pool_inv_def)
  qed
next
  case (M_SEND i)
  show ?thesis
  proof (cases "i < v_len xs")
    case True
    with st M_SEND obtain s' x where "baga_chan_send (pl_rt p) jobs_ch (int i) = Ret (s', x)"
      "p' = p\<lparr>pl_rt := s', pl_main := M_SEND (i + 1)\<rparr>" by (auto split: run.splits)
    with parent_send [OF inv M_SEND True] show ?thesis by (auto simp: pool_inv_def)
  next
    case False
    then have "p' = p\<lparr>pl_main := M_CLOSE\<rparr>" "i = v_len xs" using st M_SEND inv by (auto simp: pool_at_def)
    with parent_counter [OF inv, of M_CLOSE] M_SEND show ?thesis by (auto simp: pool_inv_def)
  qed
next
  case M_CLOSE
  with st obtain s' x where "baga_chan_close (pl_rt p) jobs_ch = Ret (s', x)"
    "p' = p\<lparr>pl_rt := s', pl_main := M_RECV 0\<rparr>" by (auto split: run.splits)
  with parent_close [OF inv M_CLOSE] show ?thesis by (auto simp: pool_inv_def)
next
  case (M_RECV i)
  show ?thesis
  proof (cases "i < v_len xs")
    case True
    with st M_RECV obtain s' h idx v where "baga_chan_recv (pl_rt p) results_ch = Ret (s', h)"
      "baga_cell2_0 (rt_cells s') h = Some idx" "baga_cell2_1 (rt_cells s') h = Some v"
      "p' = p\<lparr>pl_rt := s', pl_main := M_RECV (i + 1),
         pl_out := (if 0 \<le> idx \<and> idx < int (v_len xs) then par_vec_set (pl_out p) idx v else pl_out p)\<rparr>"
      by (auto split: run.splits option.splits)
    with parent_recv [OF inv M_RECV True] show ?thesis unfolding pool_inv_def by blast
  next
    case False
    then have "p' = p\<lparr>pl_main := M_JOIN 0\<rparr>" "i = v_len xs" using st M_RECV inv by (auto simp: pool_at_def)
    with parent_counter [OF inv, of "M_JOIN 0"] M_RECV show ?thesis by (auto simp: pool_inv_def)
  qed
next
  case (M_JOIN w)
  then have "p' = p\<lparr>pl_main := M_JOIN (w + 1)\<rparr> \<or> p' = p\<lparr>pl_main := M_RET\<rparr>" using st by (auto split: if_splits)
  with parent_counter [OF inv, of "M_JOIN (w + 1)"] parent_counter [OF inv, of M_RET] M_JOIN
  show ?thesis by (auto simp: pool_inv_def)
qed (use st in simp)

lemma pool_inv_step: "pool_inv f xs nw p \<Longrightarrow> pool_step f xs nw p p' \<Longrightarrow> pool_inv f xs nw p'"
proof (erule pool_stepE, goal_cases)
  case (1 i s' w')
  then obtain cj cr D where inv: "pool_at f xs nw p cj cr D" by (auto simp: pool_inv_def)
  have ws: "pl_workers p = take i (pl_workers p) @ (pl_workers p ! i) # drop (Suc i) (pl_workers p)"
    using 1 by (simp add: id_take_nth_drop)
  show ?case
    using worker_inv [OF inv ws 1(4)] 1(2,3) by (auto simp: pool_inv_def upd_conv_take_nth_drop)
next
  case 2
  then show ?case using parent_inv by (auto simp: pool_inv_def)
qed

section \<open>The start\<close>

lemma push_zeros_ok: "vec_ok v \<Longrightarrow> vec_ok (push_zeros junk k v) \<and> v_len (push_zeros junk k v) = v_len v + k"
proof (induction k arbitrary: v)
  case (Suc k)
  have "v_len (par_vec_push junk v 0) = Suc (v_len v)"
    by (simp add: par_vec_push_def par_vec_grow_def Let_def)
  with Suc.IH [of "par_vec_push junk v 0"] par_vec_push_ok [OF Suc.prems, of junk 0] show ?case by simp
qed simp

lemma pool_start_inv:
  assumes "pool_start junk xs = Some p"
  shows "pool_inv f xs nw p \<and> 0 < v_len xs"
proof -
  have n: "0 < v_len xs" using assms by (auto simp: pool_start_def par_vec_len_def split: if_splits)
  let ?c = "new_chan junk (int (v_len xs))"
  have p: "p = \<lparr>pl_rt = \<lparr>rt_cells = [], rt_chans = [?c, ?c]\<rparr>, pl_workers = [], pl_main = M_GO 0,
      pl_out = push_zeros junk (v_len xs) (par_vec_new junk)\<rparr>"
    using assms n by (simp add: pool_start_def par_vec_len_def baga_chan_new_def Let_def)
  have "ch_cap ?c = v_len xs" using n by simp
  then have "pool_at f xs nw p ?c ?c {#}"
    using push_zeros_ok [of "par_vec_new junk" junk "v_len xs"]
    by (simp add: p pool_at_def chans_ok_def rt_ok_def chan_at_def jobs_ch_def results_ch_def flight_def)
      (simp add: par_vec_new_def)
  then show ?thesis using n by (auto simp: pool_inv_def)
qed

lemma pool_inv_reach:
  assumes "pool_start junk xs = Some p" "(pool_step f xs nw)\<^sup>*\<^sup>* p q"
  shows "pool_inv f xs nw q"
  using assms(2)
proof (induction rule: rtranclp_induct)
  case base
  show ?case using pool_start_inv [OF assms(1)] by blast
qed (rule pool_inv_step)

section \<open>The result\<close>

lemma all_received:
  assumes inv: "pool_at f xs nw p cj cr D" and m: "\<not> feeding (pl_main p)" "received (v_len xs) (pl_main p) = v_len xs"
  shows "flight (rt_cells (pl_rt p)) (pl_workers p) cj cr = {#}" "D = mset (map int [0..<v_len xs])"
proof -
  have s: "sent (v_len xs) (pl_main p) = v_len xs" using m(1) by (cases "pl_main p") auto
  have b: "mset (map int [0..<v_len xs]) = flight (rt_cells (pl_rt p)) (pl_workers p) cj cr + D" "size D = v_len xs"
    using inv m(2) s by (auto simp: pool_at_def)
  from arg_cong [OF b(1), of size] b(2) show "flight (rt_cells (pl_rt p)) (pl_workers p) cj cr = {#}" by simp
  with b(1) show "D = mset (map int [0..<v_len xs])" by simp
qed

lemma pool_result:
  assumes inv: "pool_inv f xs nw p" and xs: "vec_ok xs" and m: "pl_main p = M_RET"
  shows "vec_list (pl_out p) = map f (vec_list xs)"
proof -
  from inv obtain cj cr D where at: "pool_at f xs nw p cj cr D" by (auto simp: pool_inv_def)
  have D: "D = mset (map int [0..<v_len xs])" using all_received(2) [OF at] m by simp
  have len: "length (vec_list (pl_out p)) = v_len xs" "length (vec_list xs) = v_len xs"
    using pool_at_out [OF at] xs by (auto simp: vec_ok_def vec_list_def)
  show ?thesis
  proof (rule nth_equalityI)
    fix k assume "k < length (vec_list (pl_out p))"
    then have k: "k < v_len xs" using len by simp
    then have "int k \<in># D" using D by auto
    then have "vec_list (pl_out p) ! k = f (par_vec_get xs (int k))" using at by (force simp: pool_at_def)
    then show "vec_list (pl_out p) ! k = map f (vec_list xs) ! k"
      using k len par_vec_get_eq [of "int k" xs] by simp
  qed (simp add: len)
qed

section \<open>No thread waits for ever\<close>

lemma recv2_enabled:
  assumes "chan_at s ch = Some c" "ch_len c \<noteq> 0 \<or> ch_closed c"
  shows "\<exists>s' pr st v. baga_chan_recv2 s ch = Ret (s', pr) \<and> cell_at (rt_cells s') pr = Some (st, v)"
proof -
  have "\<exists>s' pr st v. mk_pair t a b = (s', pr) \<and> cell_at (rt_cells s') pr = Some (st, v)" for t a b
    using cell_at_pair [of t a b] by (metis prod.collapse)
  then show ?thesis using assms chan_at_nonzero [OF assms(1)] by (auto simp: baga_chan_recv2_def)
qed

lemma recv_enabled:
  "chan_at s ch = Some c \<Longrightarrow> ch_len c \<noteq> 0 \<Longrightarrow>
   baga_chan_recv s ch = Ret (chan_upd ch (chan_drop c) s, chan_front c)"
  using chan_at_nonzero [of s ch c] by (simp add: baga_chan_recv_def)

lemma send_enabled:
  "chan_at s ch = Some c \<Longrightarrow> ch_len c \<noteq> ch_cap c \<Longrightarrow> \<not> ch_closed c \<Longrightarrow>
   baga_chan_send s ch v = Ret (chan_upd ch (chan_put c v) s, 0)"
  using chan_at_nonzero [of s ch c] by (simp add: baga_chan_send_def)

definition worker_can :: "(int \<Rightarrow> int) \<Rightarrow> Vec \<Rightarrow> rt \<Rightarrow> wpc \<Rightarrow> bool" where
  "worker_can f xs s w \<longleftrightarrow> baga_pool_worker f xs s w \<noteq> None"

lemma worker_can_step:
  assumes "w \<in> set (pl_workers p)" "worker_can f xs (pl_rt p) w"
  shows "\<exists>p'. pool_step f xs nw p p'"
proof -
  from assms(1) obtain i where "i < length (pl_workers p)" "pl_workers p ! i = w" by (auto simp: in_set_conv_nth)
  with assms(2) show ?thesis using pool_step.worker [of i p f xs] by (auto simp: worker_can_def)
qed

lemma worker_can_cases:
  assumes ch: "chans_ok n m s cj cr"
  shows "worker_can f xs s (W_RUN i)" "worker_can f xs s (W_PAIR i r)"
    "ch_len cj \<noteq> 0 \<or> ch_closed cj \<Longrightarrow> worker_can f xs s W_RECV"
    "ch_len cr < n \<Longrightarrow> worker_can f xs s (W_SEND h)"
proof -
  have c: "chan_at s jobs_ch = Some cj" "chan_at s results_ch = Some cr" "\<not> ch_closed cr" "ch_cap cr = n"
    using ch by (auto simp: chans_ok_def)
  show "worker_can f xs s (W_RUN i)" "worker_can f xs s (W_PAIR i r)"
    by (simp_all add: worker_can_def split: prod.split)
  show "worker_can f xs s W_RECV" if "ch_len cj \<noteq> 0 \<or> ch_closed cj"
    using recv2_enabled [OF c(1) that] by (auto simp: worker_can_def baga_cell2_0_def baga_cell2_1_def)
  show "worker_can f xs s (W_SEND h)" if "ch_len cr < n"
    using send_enabled [OF c(2)] that c(3,4) by (simp add: worker_can_def)
qed

lemma held_idle: "sum_list (map (held cs) ws) = {#} \<Longrightarrow> w \<in> set ws \<Longrightarrow> w = W_RECV \<or> w = W_EXIT"
  by (induction ws) (auto elim: held.elims)

lemma held_exit: "\<forall>w \<in> set ws. w = W_EXIT \<Longrightarrow> sum_list (map (held cs) ws) = {#}"
  by (induction ws) auto

text \<open>While the parent collects, some worker can go on unless a result is there.\<close>

lemma collecting_progress:
  assumes at: "pool_at f xs nw p cj cr D" and m: "pl_main p = M_RECV i" "i < v_len xs"
    and empty: "ch_len cr = 0" and nw: "0 < nw"
  shows "\<exists>w \<in> set (pl_workers p). worker_can f xs (pl_rt p) w"
proof (rule ccontr)
  assume no: "\<not> ?thesis"
  have ch: "chans_ok (v_len xs) (pl_main p) (pl_rt p) cj cr" using at by (simp add: pool_at_def)
  then have closed: "ch_closed cj" "chan_at (pl_rt p) jobs_ch = Some cj" using m by (auto simp: chans_ok_def)
  have all: "w = W_EXIT" if "w \<in> set (pl_workers p)" for w
    using no that worker_can_cases [OF ch, of f xs] closed(1) empty m(2) by (cases w) auto
  have "pl_workers p \<noteq> []" using at m nw by (auto simp: pool_at_def)
  then obtain w where w: "w \<in> set (pl_workers p)" by (cases "pl_workers p") auto
  then have "worker_ok f xs (pl_rt p) w" using at by (simp add: pool_at_def)
  then have "worker_ok f xs (pl_rt p) W_EXIT" using all [OF w] by simp
  then have "chan_items cj = []" using closed by (simp flip: chan_items_Nil)
  moreover have "sum_list (map (held (rt_cells (pl_rt p))) (pl_workers p)) = {#}"
    using all by (intro held_exit) blast
  moreover have "chan_items cr = []" using empty by simp
  ultimately have "flight (rt_cells (pl_rt p)) (pl_workers p) cj cr = {#}" by (simp add: flight_def)
  then have "mset (map int [0..<v_len xs]) = D" "size D = i" using at m by (simp_all add: pool_at_def)
  from arg_cong [OF this(1), of size] this(2) m(2) show False by simp
qed

lemma joining_progress:
  assumes at: "pool_at f xs nw p cj cr D" and m: "pl_main p = M_JOIN w" "w < nw"
  shows "pl_workers p ! w = W_EXIT \<or> worker_can f xs (pl_rt p) (pl_workers p ! w)"
proof -
  have ch: "chans_ok (v_len xs) (pl_main p) (pl_rt p) cj cr" using at by (simp add: pool_at_def)
  have "flight (rt_cells (pl_rt p)) (pl_workers p) cj cr = {#}" using all_received(1) [OF at] m by simp
  then have "sum_list (map (held (rt_cells (pl_rt p))) (pl_workers p)) = {#}" by (simp add: flight_def)
  moreover have "pl_workers p ! w \<in> set (pl_workers p)" using at m by (auto simp: pool_at_def)
  ultimately have "pl_workers p ! w = W_RECV \<or> pl_workers p ! w = W_EXIT" by (rule held_idle)
  then show ?thesis using worker_can_cases(3) [OF ch, of f xs] ch m by (auto simp: chans_ok_def)
qed

lemma pool_progress:
  assumes inv: "pool_inv f xs nw p" and nw: "0 < nw" and m: "pl_main p \<noteq> M_RET"
  shows "\<exists>p'. pool_step f xs nw p p'"
proof -
  from inv obtain cj cr D where at: "pool_at f xs nw p cj cr D" by (auto simp: pool_inv_def)
  then have ch: "chans_ok (v_len xs) (pl_main p) (pl_rt p) cj cr" by (simp add: pool_at_def)
  have c: "chan_at (pl_rt p) jobs_ch = Some cj" "chan_at (pl_rt p) results_ch = Some cr" "rt_ok (pl_rt p)"
    "ch_cap cj = v_len xs" "\<not> ch_closed cr" using ch by (auto simp: chans_ok_def)
  have parent: ?thesis if "baga_pool_map (v_len xs) nw p \<noteq> None"
    using that pool_step.parent [of xs nw p _ f] by auto
  show ?thesis
  proof (cases "pl_main p")
    case (M_SEND i)
    have "ch_len cj < ch_cap cj" if "i < v_len xs"
    proof -
      have "mset (map int [0..<i]) = flight (rt_cells (pl_rt p)) (pl_workers p) cj cr + D"
        using at M_SEND by (simp add: pool_at_def)
      from arg_cong [OF this, of size] have "ch_len cj \<le> i" by (simp add: flight_def)
      with that c(4) show ?thesis by simp
    qed
    then show ?thesis using send_enabled [OF c(1)] ch M_SEND by (intro parent) (auto simp: chans_ok_def)
  next
    case M_CLOSE
    then show ?thesis using c(1) chan_at_nonzero [OF c(1)] by (intro parent) (simp add: baga_chan_close_def)
  next
    case (M_RECV i)
    show ?thesis
    proof (cases "i < v_len xs \<and> ch_len cr = 0")
      case True
      then obtain w where "w \<in> set (pl_workers p)" "worker_can f xs (pl_rt p) w"
        using collecting_progress [OF at M_RECV _ _ nw] by blast
      then show ?thesis by (rule worker_can_step)
    next
      case False
      have "\<exists>a b. cell_at (rt_cells (pl_rt p)) (chan_front cr) = Some (a, b)" if "ch_len cr \<noteq> 0"
      proof -
        have "chan_front cr \<in> set (chan_items cr)"
          using chan_drop_items [OF rt_ok_chan [OF c(3,2)] that] by simp
        then show ?thesis using at by (auto simp: pool_at_def good_cell_def)
      qed
      then show ?thesis using False recv_enabled [OF c(2)] M_RECV
        by (intro parent) (auto simp: baga_cell2_0_def baga_cell2_1_def chan_upd_def)
    qed
  next
    case (M_JOIN w)
    show ?thesis
    proof (cases "w < nw \<and> pl_workers p ! w \<noteq> W_EXIT")
      case True
      then have "pl_workers p ! w \<in> set (pl_workers p)" using at M_JOIN by (auto simp: pool_at_def)
      then show ?thesis using joining_progress [OF at M_JOIN] True by (intro worker_can_step) auto
    next
      case False
      then show ?thesis using M_JOIN by (intro parent) auto
    qed
  qed (use m parent in auto)
qed

section \<open>Every schedule ends\<close>

fun worker_weight :: "wpc \<Rightarrow> nat" where
  "worker_weight W_EXIT = 0"
| "worker_weight W_RECV = 1"
| "worker_weight (W_SEND h) = 3"
| "worker_weight (W_PAIR i r) = 4"
| "worker_weight (W_RUN i) = 5"

fun parent_weight :: "nat \<Rightarrow> nat \<Rightarrow> mpc \<Rightarrow> nat" where
  "parent_weight n nw (M_GO w) = 2 * (nw - w) + 6 * n + nw + 5"
| "parent_weight n nw (M_SEND i) = 6 * (n - i) + nw + 4"
| "parent_weight n nw M_CLOSE = nw + 3"
| "parent_weight n nw (M_RECV i) = nw + 2"
| "parent_weight n nw (M_JOIN w) = nw - w + 1"
| "parent_weight n nw M_RET = 0"

definition queued :: "rt \<Rightarrow> int \<Rightarrow> nat" where
  "queued s ch = (case chan_at s ch of Some c \<Rightarrow> ch_len c | None \<Rightarrow> 0)"

definition pool_weight :: "nat \<Rightarrow> nat \<Rightarrow> pool \<Rightarrow> nat" where
  "pool_weight n nw p =
     parent_weight n nw (pl_main p) + 5 * queued (pl_rt p) jobs_ch + queued (pl_rt p) results_ch +
     sum_list (map worker_weight (pl_workers p))"

lemma queued_eq: "chan_at s ch = Some c \<Longrightarrow> queued s ch = length (chan_items c)"
  by (simp add: queued_def)

lemma queued_pair [simp]: "queued (fst (mk_pair s a b)) ch = queued s ch"
  by (simp add: queued_def)

lemma worker_weight_step:
  assumes ch: "chans_ok n m s cj cr" and st: "baga_pool_worker f xs s w = Some (s', w')"
  shows "5 * queued s' jobs_ch + queued s' results_ch + worker_weight w' <
    5 * queued s jobs_ch + queued s results_ch + worker_weight w"
proof (cases w)
  case W_RECV
  from st obtain pr where r: "baga_chan_recv2 s jobs_ch = Ret (s', pr)"
    by (auto simp: W_RECV split: run.splits option.splits prod.splits)
  have c: "rt_ok s" "chan_at s jobs_ch = Some cj" "chan_at s results_ch = Some cr" using ch by (auto simp: chans_ok_def)
  from recv2_result [OF r c(2) rt_ok_chan [OF c(1,2)]] obtain cj' a v where cj':
    "chan_at s' jobs_ch = Some cj'" "cell_at (rt_cells s') pr = Some (a, v)"
    "if ch_len cj = 0 then ch_closed cj \<and> a = 0 \<and> chan_items cj' = [] else a = 1 \<and> chan_items cj = v # chan_items cj'"
    by blast
  have "queued s' results_ch = queued s results_ch"
    using touches_other [OF calls_touch(3) [OF r], of results_ch] by (simp add: queued_def)
  moreover have "w' = (if a = 0 then W_EXIT else W_RUN v)"
    using st r cj'(2) by (auto simp: W_RECV baga_cell2_0_def baga_cell2_1_def)
  moreover have "ch_len cj \<noteq> 0 \<Longrightarrow> ch_len cj = Suc (ch_len cj')"
    using cj'(3) by (metis length_Cons length_chan_items)
  ultimately show ?thesis
    using cj' queued_eq [OF cj'(1)] queued_eq [OF c(2)] by (auto simp: W_RECV split: if_splits)
next
  case (W_SEND h)
  from st obtain x where r: "baga_chan_send s results_ch h = Ret (s', x)" and w': "w' = W_RECV"
    by (auto simp: W_SEND split: run.splits prod.splits)
  have c: "rt_ok s" "chan_at s results_ch = Some cr" "\<not> ch_closed cr" using ch by (auto simp: chans_ok_def)
  from send_result [OF r c(2) rt_ok_chan [OF c(1,2)] c(3)] obtain cr' where
    "chan_at s' results_ch = Some cr'" "chan_items cr' = chan_items cr @ [h]" by blast
  moreover have "queued s' jobs_ch = queued s jobs_ch"
    using touches_other [OF calls_touch(1) [OF r], of jobs_ch] by (simp add: queued_def)
  ultimately show ?thesis using queued_eq [of s' results_ch] queued_eq [OF c(2)]
    by (simp add: W_SEND w' del: length_chan_items)
next
  case (W_PAIR i r)
  then have "s' = fst (mk_pair s i r)" "w' = W_SEND (snd (mk_pair s i r))" using st by (auto split: prod.splits)
  then show ?thesis by (simp add: W_PAIR)
qed (use st in auto)

lemma parent_weight_step:
  assumes at: "pool_at f xs nw p cj cr D" and st: "baga_pool_map (v_len xs) nw p = Some p'"
  shows "pool_weight (v_len xs) nw p' < pool_weight (v_len xs) nw p"
proof -
  have ch: "chans_ok (v_len xs) (pl_main p) (pl_rt p) cj cr" using at by (simp add: pool_at_def)
  then have c: "chan_at (pl_rt p) jobs_ch = Some cj" "chan_at (pl_rt p) results_ch = Some cr" "rt_ok (pl_rt p)"
    "\<not> ch_closed cr" by (auto simp: chans_ok_def)
  show ?thesis
  proof (cases "pl_main p")
    case (M_SEND i)
    show ?thesis
    proof (cases "i < v_len xs")
      case True
      with st M_SEND obtain s' x where r: "baga_chan_send (pl_rt p) jobs_ch (int i) = Ret (s', x)"
        and p': "p' = p\<lparr>pl_rt := s', pl_main := M_SEND (i + 1)\<rparr>" by (auto split: run.splits)
      have "\<not> ch_closed cj" using ch M_SEND by (simp add: chans_ok_def)
      with send_result [OF r c(1) rt_ok_chan [OF c(3,1)]] obtain cj' where
        "chan_at s' jobs_ch = Some cj'" "chan_items cj' = chan_items cj @ [int i]" by blast
      then have "queued s' jobs_ch = Suc (queued (pl_rt p) jobs_ch)" using c(1) by (simp add: queued_eq del: length_chan_items)
      moreover have "queued s' results_ch = queued (pl_rt p) results_ch"
        using touches_other [OF calls_touch(1) [OF r], of results_ch] by (simp add: queued_def)
      ultimately show ?thesis using True M_SEND by (simp add: pool_weight_def p')
    next
      case False
      then show ?thesis using st M_SEND by (auto simp: pool_weight_def)
    qed
  next
    case M_CLOSE
    with st obtain s' x where r: "baga_chan_close (pl_rt p) jobs_ch = Ret (s', x)"
      and p': "p' = p\<lparr>pl_rt := s', pl_main := M_RECV 0\<rparr>" by (auto split: run.splits)
    from close_result [OF r c(1)] obtain cj' where
      "chan_at s' jobs_ch = Some cj'" "chan_items cj' = chan_items cj" by blast
    then have "queued s' jobs_ch = queued (pl_rt p) jobs_ch" using c(1) by (simp add: queued_eq del: length_chan_items)
    moreover have "queued s' results_ch = queued (pl_rt p) results_ch"
      using touches_other [OF calls_touch(6) [OF r], of results_ch] by (simp add: queued_def)
    ultimately show ?thesis using M_CLOSE by (simp add: pool_weight_def p')
  next
    case (M_RECV i)
    show ?thesis
    proof (cases "i < v_len xs")
      case True
      with st M_RECV obtain s' h out where r: "baga_chan_recv (pl_rt p) results_ch = Ret (s', h)"
        and p': "p' = p\<lparr>pl_rt := s', pl_main := M_RECV (i + 1), pl_out := out\<rparr>"
        by (auto split: run.splits option.splits)
      from recv_result [OF r c(2) rt_ok_chan [OF c(3,2)] c(4)] obtain cr' where
        "chan_at s' results_ch = Some cr'" "chan_items cr = h # chan_items cr'" by blast
      then have "queued (pl_rt p) results_ch = Suc (queued s' results_ch)" using c(2) by (simp add: queued_eq del: length_chan_items)
      moreover have "queued s' jobs_ch = queued (pl_rt p) jobs_ch"
        using touches_other [OF calls_touch(2) [OF r], of jobs_ch] by (simp add: queued_def)
      ultimately show ?thesis using M_RECV by (simp add: pool_weight_def p')
    next
      case False
      then show ?thesis using st M_RECV by (auto simp: pool_weight_def)
    qed
  qed (use st at in \<open>auto simp: pool_weight_def pool_at_def split: if_splits\<close>)
qed

lemma pool_weight_step:
  assumes "pool_inv f xs nw p" "pool_step f xs nw p p'"
  shows "pool_weight (v_len xs) nw p' < pool_weight (v_len xs) nw p"
proof -
  from assms(1) obtain cj cr D where at: "pool_at f xs nw p cj cr D" by (auto simp: pool_inv_def)
  from assms(2) show ?thesis
  proof (rule pool_stepE, goal_cases)
    case (1 i s' w')
    have ws: "pl_workers p = take i (pl_workers p) @ (pl_workers p ! i) # drop (Suc i) (pl_workers p)"
      "(pl_workers p)[i := w'] = take i (pl_workers p) @ w' # drop (Suc i) (pl_workers p)"
      using 1(2) by (simp_all add: id_take_nth_drop upd_conv_take_nth_drop)
    have "chans_ok (v_len xs) (pl_main p) (pl_rt p) cj cr" using at by (simp add: pool_at_def)
    note d = worker_weight_step [OF this 1(3)]
    have "sum_list (map worker_weight (pl_workers p)) + worker_weight w' =
        sum_list (map worker_weight ((pl_workers p)[i := w'])) + worker_weight (pl_workers p ! i)"
      by (subst ws(1), subst ws(2)) simp
    with d show ?thesis by (simp add: 1(1) pool_weight_def)
  next
    case 2
    with parent_weight_step [OF at] show ?thesis by simp
  qed
qed

lemma pool_run_bound:
  "pool_inv f xs nw p \<Longrightarrow> (pool_step f xs nw ^^ k) p q \<Longrightarrow>
   k + pool_weight (v_len xs) nw q \<le> pool_weight (v_len xs) nw p \<and> pool_inv f xs nw q"
proof (induction k arbitrary: q)
  case (Suc k)
  then obtain r where "(pool_step f xs nw ^^ k) p r" "pool_step f xs nw r q" by auto
  with Suc pool_weight_step [of f xs nw r q] pool_inv_step [of f xs nw r q] show ?case by fastforce
qed simp

end
