(* ===== verification/ParJoin.thy ===== *)
theory ParJoin
  imports Prelude
begin

text \<open>
  The life of a join handle (\<open>src/baga_par_rt.c\<close>): the thread function and the
  parent's \<open>join\<close> or \<open>detach\<close> run concurrently on one heap block, and each of
  their steps is one access to it. The model counts the calls of \<open>free\<close> on
  the block and remembers an access after the first.
\<close>

datatype tpc = T_RUN | T_STORED | T_FREE | T_END

datatype ppc = P_IDLE | P_WAIT | P_TAKE | P_DETACHED | P_FREE | P_RET int | P_EXIT

datatype call = JOIN | DETACH

record JoinHandle =
  jh_result :: int
  jh_joined :: bool
  jh_detached :: nat
  jh_frees :: nat
  jh_bad :: bool
  jh_t :: tpc
  jh_p :: ppc

definition touch :: "JoinHandle \<Rightarrow> JoinHandle" where
  "touch h = h\<lparr>jh_bad := (jh_bad h \<or> 0 < jh_frees h)\<rparr>"

definition jh_free :: "JoinHandle \<Rightarrow> JoinHandle" where
  "jh_free h = (touch h)\<lparr>jh_frees := Suc (jh_frees h)\<rparr>"

definition baga_go :: JoinHandle where
  "baga_go = \<lparr>jh_result = 0, jh_joined = False, jh_detached = 0, jh_frees = 0, jh_bad = False,
     jh_t = T_RUN, jh_p = P_IDLE\<rparr>"

definition baga_go_bg :: JoinHandle where
  "baga_go_bg = baga_go\<lparr>jh_detached := 1\<rparr>"

text \<open>The thread: store the result, swap the flag, free if the parent had let go.\<close>

fun baga_par_trampoline :: "(int \<Rightarrow> int) \<Rightarrow> int \<Rightarrow> JoinHandle \<Rightarrow> JoinHandle option" where
  "baga_par_trampoline f arg h =
     (case jh_t h of
        T_RUN \<Rightarrow> Some ((touch h)\<lparr>jh_result := f arg, jh_t := T_STORED\<rparr>)
      | T_STORED \<Rightarrow> Some ((touch h)\<lparr>jh_detached := 2, jh_t := (if jh_detached h = 1 then T_FREE else T_END)\<rparr>)
      | T_FREE \<Rightarrow> Some ((jh_free h)\<lparr>jh_t := T_END\<rparr>)
      | T_END \<Rightarrow> None)"

text \<open>\<open>pthread_join\<close> returns once the thread has ended.\<close>

fun baga_join :: "JoinHandle \<Rightarrow> JoinHandle option" where
  "baga_join h =
     (case jh_p h of
        P_IDLE \<Rightarrow>
          Some ((touch h)\<lparr>jh_p := (if jh_detached h = 1 then P_EXIT else if jh_joined h then P_TAKE else P_WAIT)\<rparr>)
      | P_WAIT \<Rightarrow> (if jh_t h = T_END then Some ((touch h)\<lparr>jh_joined := True, jh_p := P_TAKE\<rparr>) else None)
      | P_TAKE \<Rightarrow> Some ((jh_free h)\<lparr>jh_p := P_RET (jh_result h)\<rparr>)
      | _ \<Rightarrow> None)"

fun baga_detach :: "JoinHandle \<Rightarrow> JoinHandle option" where
  "baga_detach h =
     (case jh_p h of
        P_IDLE \<Rightarrow>
          (if jh_joined h then Some ((touch h)\<lparr>jh_p := P_RET (-1)\<rparr>)
           else
             Some ((touch h)\<lparr>jh_detached := 1,
               jh_p := (if jh_detached h = 2 then P_FREE
                        else if jh_detached h = 1 then P_RET 0 else P_DETACHED)\<rparr>))
      | P_FREE \<Rightarrow> Some ((jh_free h)\<lparr>jh_p := P_RET 0\<rparr>)
      | P_DETACHED \<Rightarrow> Some ((touch h)\<lparr>jh_p := P_RET 0\<rparr>)
      | _ \<Rightarrow> None)"

inductive jh_step :: "(int \<Rightarrow> int) \<Rightarrow> int \<Rightarrow> call \<Rightarrow> JoinHandle \<Rightarrow> JoinHandle \<Rightarrow> bool" for f arg where
  thread: "baga_par_trampoline f arg h = Some h' \<Longrightarrow> jh_step f arg c h h'"
| join: "baga_join h = Some h' \<Longrightarrow> jh_step f arg JOIN h h'"
| detach: "baga_detach h = Some h' \<Longrightarrow> jh_step f arg DETACH h h'"

inductive_simps jh_step_join: "jh_step f arg JOIN h h'"
inductive_simps jh_step_detach: "jh_step f arg DETACH h h'"

section \<open>Joining\<close>

definition join_inv :: "(int \<Rightarrow> int) \<Rightarrow> int \<Rightarrow> JoinHandle \<Rightarrow> bool" where
  "join_inv f arg h \<longleftrightarrow>
     \<not> jh_bad h \<and> jh_t h \<noteq> T_FREE \<and> jh_detached h \<noteq> 1 \<and>
     (jh_t h \<noteq> T_RUN \<longrightarrow> jh_result h = f arg) \<and>
     (case jh_p h of
        P_IDLE \<Rightarrow> jh_frees h = 0 \<and> \<not> jh_joined h
      | P_WAIT \<Rightarrow> jh_frees h = 0
      | P_TAKE \<Rightarrow> jh_frees h = 0 \<and> jh_t h = T_END
      | P_RET r \<Rightarrow> jh_frees h = 1 \<and> jh_t h = T_END \<and> r = f arg
      | _ \<Rightarrow> False)"

lemma join_inv_step: "join_inv f arg h \<Longrightarrow> jh_step f arg JOIN h h' \<Longrightarrow> join_inv f arg h'"
  by (auto simp: join_inv_def jh_step_join touch_def jh_free_def split: tpc.splits ppc.splits if_splits)

lemma join_inv_reach: "(jh_step f arg JOIN)\<^sup>*\<^sup>* baga_go h \<Longrightarrow> join_inv f arg h"
proof (induction rule: rtranclp_induct)
  case base
  show ?case by (simp add: join_inv_def baga_go_def)
qed (rule join_inv_step)

lemma join_progress:
  "join_inv f arg h \<Longrightarrow> \<forall>r. jh_p h \<noteq> P_RET r \<Longrightarrow> \<exists>h'. jh_step f arg JOIN h h'"
  by (auto simp: join_inv_def jh_step_join split: tpc.splits ppc.splits)

section \<open>Detaching\<close>

definition detach_inv :: "JoinHandle \<Rightarrow> bool" where
  "detach_inv h \<longleftrightarrow>
     \<not> jh_joined h \<and>
     (case jh_p h of
        P_IDLE \<Rightarrow> jh_frees h = 0 \<and> jh_t h \<noteq> T_FREE \<and> (jh_t h = T_END \<longleftrightarrow> jh_detached h = 2) \<and> jh_detached h \<noteq> 1
      | P_FREE \<Rightarrow> jh_frees h = 0 \<and> jh_t h = T_END
      | P_DETACHED \<Rightarrow> (if jh_t h = T_END then jh_frees h = 1 else jh_frees h = 0) \<and>
          (jh_t h = T_RUN \<or> jh_t h = T_STORED \<longrightarrow> jh_detached h = 1)
      | P_RET r \<Rightarrow> (if jh_t h = T_END then jh_frees h = 1 else jh_frees h = 0) \<and>
          (jh_t h = T_RUN \<or> jh_t h = T_STORED \<longrightarrow> jh_detached h = 1)
      | _ \<Rightarrow> False)"

lemma detach_inv_step: "detach_inv h \<Longrightarrow> jh_step f arg DETACH h h' \<Longrightarrow> detach_inv h'"
  by (auto simp: detach_inv_def jh_step_detach touch_def jh_free_def split: tpc.splits ppc.splits if_splits)

lemma detach_inv_reach: "(jh_step f arg DETACH)\<^sup>*\<^sup>* baga_go h \<Longrightarrow> detach_inv h"
proof (induction rule: rtranclp_induct)
  case base
  show ?case by (simp add: detach_inv_def baga_go_def)
qed (rule detach_inv_step)

text \<open>The schedule in which the thread ends between the swap and \<open>pthread_detach\<close>.\<close>

lemma detach_race_run:
  fixes f :: "int \<Rightarrow> int" and arg :: int
  defines "h1 \<equiv> the (baga_detach (the (baga_par_trampoline f arg baga_go)))"
  defines "h2 \<equiv> the (baga_par_trampoline f arg h1)"
  defines "h3 \<equiv> the (baga_par_trampoline f arg h2)"
  shows "(jh_step f arg DETACH)\<^sup>*\<^sup>* baga_go h3" "jh_p h3 = P_DETACHED" "jh_frees h3 = 1"
    "jh_bad (the (baga_detach h3))" "jh_step f arg DETACH h3 (the (baga_detach h3))"
proof -
  note defs = h1_def h2_def h3_def baga_go_def touch_def jh_free_def
  have "jh_step f arg DETACH baga_go (the (baga_par_trampoline f arg baga_go))"
    "jh_step f arg DETACH (the (baga_par_trampoline f arg baga_go)) h1"
    "jh_step f arg DETACH h1 h2" "jh_step f arg DETACH h2 h3"
    by (simp_all add: jh_step_detach defs)
  then show "(jh_step f arg DETACH)\<^sup>*\<^sup>* baga_go h3" by (meson rtranclp.rtrancl_into_rtrancl rtranclp.rtrancl_refl)
  show "jh_p h3 = P_DETACHED" "jh_frees h3 = 1" "jh_bad (the (baga_detach h3))"
    "jh_step f arg DETACH h3 (the (baga_detach h3))"
    by (simp_all add: jh_step_detach defs)
qed

end
