(* ===== verification/ParLog.thy ===== *)
theory ParLog
  imports Prelude "HOL-Library.Monad_Syntax"
begin

text \<open>
  The allocation log of the runtime (\<open>src/baga_par_rt.c\<close>): per thread an
  open-addressing hash table of live blocks with tombstones, the list of blocks
  in the order of allocation, and byte counters. \<open>malloc\<close> and \<open>realloc\<close> of the
  C library are represented by the address they return, an argument of the
  operation; a probe that never ends has the value \<open>None\<close>. Byte counts are
  unbounded: the sum of the live blocks fits the address space.
\<close>

type_synonym addr = "64 word"

record LmEnt =
  e_p :: addr
  e_n :: nat
  e_persist :: bool
  e_alive :: bool

record LmLog =
  lm_tab :: "LmEnt list"
  lm_cap :: nat
  lm_used :: nat
  lm_fill :: nat
  lm_v :: "addr list"
  lm_vcap :: nat
  lm_live :: int
  lm_peak :: int
  lm_live_p :: int

definition BAGA_LM_TOMB :: addr where "BAGA_LM_TOMB = 1"

definition empty_ent :: LmEnt where
  "empty_ent = \<lparr>e_p = 0, e_n = 0, e_persist = False, e_alive = False\<rparr>"

definition new_log :: LmLog where
  "new_log = \<lparr>lm_tab = [], lm_cap = 0, lm_used = 0, lm_fill = 0, lm_v = [], lm_vcap = 0,
     lm_live = 0, lm_peak = 0, lm_live_p = 0\<rparr>"

section \<open>The hash table\<close>

definition baga_lm_hash :: "addr \<Rightarrow> addr" where
  "baga_lm_hash p =
     (let x1 = p XOR drop_bit 33 p;
          x2 = x1 * 0xff51afd7ed558ccd;
          x3 = x2 XOR drop_bit 33 x2;
          x4 = x3 * 0xc4ceb9fe1a85ec53
      in x4 XOR drop_bit 33 x4)"

text \<open>The probe loop; \<open>tomb\<close> is the first tombstone passed.\<close>

partial_function (option) lm_probe ::
  "LmEnt list \<Rightarrow> nat \<Rightarrow> addr \<Rightarrow> bool \<Rightarrow> nat \<Rightarrow> nat option \<Rightarrow> nat option" where
  "lm_probe tab msk p for_insert i tomb =
     (let q = e_p (tab ! i) in
      if q = 0 then Some (if for_insert then (case tomb of Some t \<Rightarrow> t | None \<Rightarrow> i) else i)
      else if q = BAGA_LM_TOMB then
        lm_probe tab msk p for_insert (Suc i AND msk) (if tomb = None then Some i else tomb)
      else if q = p then Some i
      else lm_probe tab msk p for_insert (Suc i AND msk) tomb)"

declare lm_probe.simps [code]

definition baga_lm_slot :: "LmLog \<Rightarrow> addr \<Rightarrow> bool \<Rightarrow> nat option" where
  "baga_lm_slot L p for_insert =
     (let msk = lm_cap L - 1
      in lm_probe (lm_tab L) msk p for_insert (unat (baga_lm_hash p AND of_nat msk)) None)"

definition baga_lm_put_raw :: "LmLog \<Rightarrow> addr \<Rightarrow> nat \<Rightarrow> bool \<Rightarrow> LmLog option" where
  "baga_lm_put_raw L p n persist =
     do {
       i \<leftarrow> baga_lm_slot L p True;
       Some (L\<lparr>lm_fill := (if e_p (lm_tab L ! i) = 0 then Suc (lm_fill L) else lm_fill L),
               lm_tab := (lm_tab L)[i := \<lparr>e_p = p, e_n = n, e_persist = persist, e_alive = True\<rparr>],
               lm_used := Suc (lm_used L)\<rparr>)
     }"

fun lm_put_all :: "LmEnt list \<Rightarrow> LmLog \<Rightarrow> LmLog option" where
  "lm_put_all [] L = Some L"
| "lm_put_all (e # es) L =
     (if e_p e \<noteq> 0 \<and> e_p e \<noteq> BAGA_LM_TOMB
      then do { L' \<leftarrow> baga_lm_put_raw L (e_p e) (e_n e) (e_persist e); lm_put_all es L' }
      else lm_put_all es L)"

definition baga_lm_rehash :: "LmLog \<Rightarrow> nat \<Rightarrow> LmLog option" where
  "baga_lm_rehash L ncap =
     lm_put_all (lm_tab L)
       (L\<lparr>lm_tab := replicate ncap empty_ent, lm_cap := ncap, lm_used := 0, lm_fill := 0\<rparr>)"

definition lm_init_tab :: "LmLog \<Rightarrow> LmLog" where
  "lm_init_tab L =
     (if lm_cap L = 0 then L\<lparr>lm_cap := 1024, lm_tab := replicate 1024 empty_ent\<rparr> else L)"

definition baga_lm_put :: "LmLog \<Rightarrow> addr \<Rightarrow> nat \<Rightarrow> bool \<Rightarrow> LmLog option" where
  "baga_lm_put L0 p n persist =
     (let L = lm_init_tab L0 in
      if (lm_fill L + 1) * 10 > lm_cap L * 7
      then do { L' \<leftarrow> baga_lm_rehash L (lm_cap L * 2); baga_lm_put_raw L' p n persist }
      else baga_lm_put_raw L p n persist)"

text \<open>The inner option is \<open>(size_t)-1\<close>.\<close>

definition baga_lm_find :: "LmLog \<Rightarrow> addr \<Rightarrow> nat option option" where
  "baga_lm_find L p =
     (if lm_cap L = 0 then Some None
      else do {
        i \<leftarrow> baga_lm_slot L p False;
        Some (if e_p (lm_tab L ! i) = p then Some i else None)
      })"

definition lm_bury :: "nat \<Rightarrow> LmLog \<Rightarrow> LmLog" where
  "lm_bury i L =
     L\<lparr>lm_tab := (lm_tab L)[i := (lm_tab L ! i)\<lparr>e_p := BAGA_LM_TOMB\<rparr>], lm_used := lm_used L - 1\<rparr>"

section \<open>The list of blocks\<close>

definition baga_lm_log_push :: "LmLog \<Rightarrow> addr \<Rightarrow> LmLog" where
  "baga_lm_log_push L p =
     L\<lparr>lm_vcap := (if length (lm_v L) = lm_vcap L then (if lm_vcap L \<noteq> 0 then lm_vcap L * 2 else 256)
                   else lm_vcap L),
       lm_v := lm_v L @ [p]\<rparr>"

text \<open>The last occurrence is replaced.\<close>

fun replace_first :: "addr \<Rightarrow> addr \<Rightarrow> addr list \<Rightarrow> addr list" where
  "replace_first old np [] = []"
| "replace_first old np (x # xs) = (if x = old then np # xs else x # replace_first old np xs)"

definition baga_lm_log_replace :: "LmLog \<Rightarrow> addr \<Rightarrow> addr \<Rightarrow> LmLog" where
  "baga_lm_log_replace L old np = L\<lparr>lm_v := rev (replace_first old np (rev (lm_v L)))\<rparr>"

text \<open>The counters.\<close>

definition lm_account :: "bool \<Rightarrow> int \<Rightarrow> LmLog \<Rightarrow> LmLog" where
  "lm_account persist d L =
     (if \<not> persist then
        L\<lparr>lm_live := lm_live L + d,
          lm_peak := (if lm_live L + d > lm_peak L then lm_live L + d else lm_peak L)\<rparr>
      else L\<lparr>lm_live_p := lm_live_p L + d\<rparr>)"

definition lm_unaccount :: "bool \<Rightarrow> int \<Rightarrow> LmLog \<Rightarrow> LmLog" where
  "lm_unaccount persist d L =
     (if \<not> persist then L\<lparr>lm_live := lm_live L - d\<rparr> else L\<lparr>lm_live_p := lm_live_p L - d\<rparr>)"

section \<open>The threads' logs\<close>

text \<open>
  \<open>w_logs\<close> is the registry, oldest log first; \<open>w_tl\<close> and \<open>w_depth\<close> belong to the
  calling thread; \<open>w_freed\<close> collects what is handed to \<open>free\<close>.
\<close>

record World =
  w_logs :: "LmLog list"
  w_tl :: "nat option"
  w_depth :: nat
  w_freed :: "addr list"

definition baga_lm_get :: "World \<Rightarrow> World \<times> nat" where
  "baga_lm_get w =
     (case w_tl w of
        Some k \<Rightarrow> (w, k)
      | None \<Rightarrow> (w\<lparr>w_logs := w_logs w @ [new_log], w_tl := Some (length (w_logs w))\<rparr>, length (w_logs w)))"

definition log_upd :: "nat \<Rightarrow> LmLog \<Rightarrow> World \<Rightarrow> World" where
  "log_upd k L w = w\<lparr>w_logs := (w_logs w)[k := L]\<rparr>"

definition lm_size :: "int \<Rightarrow> nat" where
  "lm_size n = (if n > 0 then nat n else 1)"

definition lm_record :: "LmLog \<Rightarrow> addr \<Rightarrow> nat \<Rightarrow> bool \<Rightarrow> LmLog option" where
  "lm_record L p sz persist =
     do {
       L' \<leftarrow> baga_lm_put L p sz persist;
       Some (baga_lm_log_push (lm_account persist (int sz) L') p)
     }"

definition baga_lm_malloc :: "int \<Rightarrow> addr \<Rightarrow> World \<Rightarrow> World option" where
  "baga_lm_malloc n p w0 =
     (let sz = lm_size n; (w, k) = baga_lm_get w0 in
      do {
        L \<leftarrow> lm_record (w_logs w ! k) p sz (0 < w_depth w);
        Some (log_upd k L w)
      })"

definition lm_move :: "LmLog \<Rightarrow> nat \<Rightarrow> addr \<Rightarrow> addr \<Rightarrow> nat \<Rightarrow> LmLog option" where
  "lm_move L i p np sz =
     (let oldn = e_n (lm_tab L ! i); persist = e_persist (lm_tab L ! i);
          L1 = lm_bury i (lm_account persist (int sz - int oldn) L) in
      do {
        L2 \<leftarrow> baga_lm_put L1 np sz persist;
        Some (baga_lm_log_replace L2 p np)
      })"

definition lm_drop :: "LmLog \<Rightarrow> nat \<Rightarrow> LmLog" where
  "lm_drop L i = lm_bury i (lm_unaccount (e_persist (lm_tab L ! i)) (int (e_n (lm_tab L ! i))) L)"

text \<open>The registry walk, newest log first, past the thread's own.\<close>

fun lm_search :: "LmLog list \<Rightarrow> nat \<Rightarrow> addr \<Rightarrow> nat list \<Rightarrow> (nat \<times> nat) option option" where
  "lm_search logs own p [] = Some None"
| "lm_search logs own p (k # ks) =
     (if k = own then lm_search logs own p ks
      else do {
        r \<leftarrow> baga_lm_find (logs ! k) p;
        (case r of Some j \<Rightarrow> Some (Some (k, j)) | None \<Rightarrow> lm_search logs own p ks)
      })"

definition lm_locate :: "World \<Rightarrow> nat \<Rightarrow> addr \<Rightarrow> (nat \<times> nat) option option" where
  "lm_locate w k p =
     do {
       r \<leftarrow> baga_lm_find (w_logs w ! k) p;
       (case r of
          Some i \<Rightarrow> Some (Some (k, i))
        | None \<Rightarrow> lm_search (w_logs w) k p (rev [0..<length (w_logs w)]))
     }"

definition baga_lm_realloc :: "addr \<Rightarrow> int \<Rightarrow> addr \<Rightarrow> World \<Rightarrow> World option" where
  "baga_lm_realloc p n np w0 =
     (let sz = lm_size n; (w, k) = baga_lm_get w0 in
      do {
        r \<leftarrow> lm_locate w k p;
        (case r of
           Some (j, i) \<Rightarrow> do { L \<leftarrow> lm_move (w_logs w ! j) i p np sz; Some (log_upd j L w) }
         | None \<Rightarrow> Some w)
      })"

definition baga_lm_free :: "addr \<Rightarrow> World \<Rightarrow> World option" where
  "baga_lm_free p w0 =
     (if p = 0 then Some w0
      else
        let (w, k) = baga_lm_get w0 in
        do {
          r \<leftarrow> lm_locate w k p;
          Some ((case r of Some (j, i) \<Rightarrow> log_upd j (lm_drop (w_logs w ! j) i) w | None \<Rightarrow> w)
                \<lparr>w_freed := w_freed w @ [p]\<rparr>)
        })"

definition baga_lm_mark :: "World \<Rightarrow> int" where
  "baga_lm_mark w = (case w_tl w of Some k \<Rightarrow> int (length (lm_v (w_logs w ! k))) | None \<Rightarrow> 0)"

text \<open>The loop of the rewind: \<open>k\<close> is where the next kept block goes.\<close>

fun lm_rewind_loop :: "nat list \<Rightarrow> nat \<Rightarrow> LmLog \<Rightarrow> addr list \<Rightarrow> (nat \<times> LmLog \<times> addr list) option" where
  "lm_rewind_loop [] k L freed = Some (k, L, freed)"
| "lm_rewind_loop (i # is) k L freed =
     (let p = lm_v L ! i in
      do {
        r \<leftarrow> baga_lm_find L p;
        (case r of
           None \<Rightarrow> lm_rewind_loop is k L freed
         | Some j \<Rightarrow>
             if e_persist (lm_tab L ! j)
             then lm_rewind_loop is (Suc k) (L\<lparr>lm_v := (lm_v L)[k := p]\<rparr>) freed
             else lm_rewind_loop is k
               (lm_bury j (L\<lparr>lm_live := lm_live L - int (e_n (lm_tab L ! j))\<rparr>)) (freed @ [p]))
      })"

definition baga_lm_rewind :: "int \<Rightarrow> World \<Rightarrow> World option" where
  "baga_lm_rewind mark w =
     (case w_tl w of
        None \<Rightarrow> Some w
      | Some t \<Rightarrow>
          (let L = w_logs w ! t in
           if mark < 0 \<or> nat mark > length (lm_v L) then Some w
           else do {
             (k, L', freed) \<leftarrow> lm_rewind_loop [nat mark..<length (lm_v L)] (nat mark) L (w_freed w);
             Some (log_upd t (L'\<lparr>lm_v := take k (lm_v L')\<rparr>) w \<lparr>w_freed := freed\<rparr>)
           }))"

definition baga_lm_persist_begin :: "World \<Rightarrow> World" where
  "baga_lm_persist_begin w = w\<lparr>w_depth := Suc (w_depth w)\<rparr>"

definition baga_lm_persist_end :: "World \<Rightarrow> World" where
  "baga_lm_persist_end w = (if w_depth w > 0 then w\<lparr>w_depth := w_depth w - 1\<rparr> else w)"

definition baga_lm_arena_bytes :: "World \<Rightarrow> int" where
  "baga_lm_arena_bytes w = (case w_tl w of Some k \<Rightarrow> lm_live (w_logs w ! k) | None \<Rightarrow> 0)"

definition baga_lm_peak_bytes :: "World \<Rightarrow> int" where
  "baga_lm_peak_bytes w = (case w_tl w of Some k \<Rightarrow> lm_peak (w_logs w ! k) | None \<Rightarrow> 0)"

definition baga_lm_persist_bytes :: "World \<Rightarrow> int" where
  "baga_lm_persist_bytes w = (case w_tl w of Some k \<Rightarrow> lm_live_p (w_logs w ! k) | None \<Rightarrow> 0)"

end
