(* ===== verification/ParLogTab.thy ===== *)
theory ParLogTab
  imports ParLog
begin

text \<open>
  The hash table of the allocation log as a map from addresses to sizes: the
  probe loop ends because the load factor leaves an empty slot, and the
  tombstones keep every key reachable from its home slot.
\<close>

abbreviation key :: "LmEnt list \<Rightarrow> nat \<Rightarrow> addr" where
  "key tab i \<equiv> e_p (tab ! i)"

definition block :: "addr \<Rightarrow> bool" where
  "block p \<longleftrightarrow> p \<noteq> 0 \<and> p \<noteq> BAGA_LM_TOMB"

lemma block_simps [simp]: "\<not> block 0" "\<not> block BAGA_LM_TOMB" "BAGA_LM_TOMB \<noteq> 0"
  by (simp_all add: block_def BAGA_LM_TOMB_def)

lemma not_block: "\<not> block p \<longleftrightarrow> p = 0 \<or> p = BAGA_LM_TOMB"
  by (auto simp: block_def)

definition pos :: "nat \<Rightarrow> addr \<Rightarrow> nat \<Rightarrow> nat" where
  "pos cap p t = (unat (baga_lm_hash p) + t) mod cap"

lemma pos_less [simp]: "0 < cap \<Longrightarrow> pos cap p t < cap"
  by (simp add: pos_def)

lemma pos_onto:
  assumes "i < cap"
  shows "\<exists>t. pos cap p t = i"
proof -
  let ?h = "unat (baga_lm_hash p) mod cap"
  have "?h < cap" using assms by simp
  then have "?h + (cap - ?h + i) = cap + i" by simp
  then have "(?h + (cap - ?h + i)) mod cap = i" using assms by simp
  then have "pos cap p (cap - ?h + i) = i" unfolding pos_def by (metis mod_add_left_eq)
  then show ?thesis by blast
qed

lemma home_slot: "unat (baga_lm_hash p AND of_nat (2 ^ k - 1)) = pos (2 ^ k) p 0"
proof -
  have "of_nat (2 ^ k - 1) = (mask k :: addr)" by (simp add: mask_eq_exp_minus_1 of_nat_diff)
  then have "baga_lm_hash p AND of_nat (2 ^ k - 1) = take_bit k (baga_lm_hash p)" by (simp add: take_bit_eq_mask)
  then have "unat (baga_lm_hash p AND of_nat (2 ^ k - 1)) = take_bit k (unat (baga_lm_hash p))"
    by (simp only: unsigned_take_bit_eq)
  then show ?thesis by (simp only: pos_def take_bit_eq_mod add_0_right)
qed

lemma next_slot: "Suc (pos (2 ^ k) p t) AND (2 ^ k - 1) = pos (2 ^ k) p (Suc t)"
proof -
  have "Suc (pos (2 ^ k) p t) AND (2 ^ k - 1) = take_bit k (Suc (pos (2 ^ k) p t))"
    by (simp add: take_bit_eq_mask mask_eq_exp_minus_1)
  then show ?thesis by (simp add: pos_def take_bit_eq_mod mod_Suc_eq)
qed

section \<open>The probe loop\<close>

lemma probe_run:
  assumes p: "block p" and path: "\<And>u. u < m \<Longrightarrow> key tab (pos (2 ^ k) p u) \<notin> {0, p}"
    and stop: "key tab (pos (2 ^ k) p m) \<in> {0, p}"
  shows "t \<le> m \<Longrightarrow> \<exists>r. lm_probe tab (2 ^ k - 1) p ins (pos (2 ^ k) p t) tomb = Some r \<and>
    (r = pos (2 ^ k) p m \<or> ins \<and> key tab (pos (2 ^ k) p m) = 0 \<and>
       (tomb = Some r \<or> (\<exists>u. u < m \<and> r = pos (2 ^ k) p u \<and> key tab r = BAGA_LM_TOMB)))"
proof (induction "m - t" arbitrary: t tomb)
  case 0
  then have "t = m" by simp
  then show ?case using stop p by (subst lm_probe.simps) (auto simp: block_def split: option.splits)
next
  case (Suc d)
  then have t: "t < m" "d = m - Suc t" "Suc t \<le> m" by auto
  note IH = Suc.hyps(1) [OF t(2,3)]
  have ne: "key tab (pos (2 ^ k) p t) \<noteq> 0" "key tab (pos (2 ^ k) p t) \<noteq> p" using path [OF t(1)] by auto
  show ?case
  proof (cases "key tab (pos (2 ^ k) p t) = BAGA_LM_TOMB")
    case True
    obtain tomb' where tomb': "tomb' = (if tomb = None then Some (pos (2 ^ k) p t) else tomb)" by blast
    have "lm_probe tab (2 ^ k - 1) p ins (pos (2 ^ k) p t) tomb =
        lm_probe tab (2 ^ k - 1) p ins (pos (2 ^ k) p (Suc t)) tomb'"
      using True by (subst lm_probe.simps) (simp add: tomb' next_slot [simplified])
    then show ?thesis using IH [of tomb'] True t(1) by (auto simp: tomb' split: if_splits)
  next
    case False
    have "lm_probe tab (2 ^ k - 1) p ins (pos (2 ^ k) p t) tomb =
        lm_probe tab (2 ^ k - 1) p ins (pos (2 ^ k) p (Suc t)) tomb"
      using False ne by (subst lm_probe.simps) (simp add: next_slot [simplified])
    then show ?thesis using IH [of tomb] by simp
  qed
qed

section \<open>Well-formed tables\<close>

definition reachable_key :: "LmEnt list \<Rightarrow> nat \<Rightarrow> nat \<Rightarrow> bool" where
  "reachable_key tab cap i \<longleftrightarrow>
     (\<exists>t. i = pos cap (key tab i) t \<and> (\<forall>u < t. key tab (pos cap (key tab i) u) \<noteq> 0))"

definition tab_ok :: "LmEnt list \<Rightarrow> nat \<Rightarrow> bool" where
  "tab_ok tab cap \<longleftrightarrow>
     (\<exists>k. cap = 2 ^ k) \<and> length tab = cap \<and>
     (\<forall>i < cap. block (key tab i) \<longrightarrow> reachable_key tab cap i) \<and>
     (\<forall>i < cap. \<forall>j < cap. block (key tab i) \<longrightarrow> key tab i = key tab j \<longrightarrow> i = j)"

definition keys :: "LmEnt list \<Rightarrow> addr set" where
  "keys tab = {p. block p \<and> p \<in> e_p ` set tab}"

lemma keys_iff: "p \<in> keys tab \<longleftrightarrow> block p \<and> (\<exists>i < length tab. key tab i = p)"
  by (force simp: keys_def set_conv_nth)

lemma slot_spec:
  assumes ok: "tab_ok (lm_tab L) (lm_cap L)" and e: "e < lm_cap L" "key (lm_tab L) e = 0" and p: "block p"
  shows "\<exists>r < lm_cap L. baga_lm_slot L p ins = Some r \<and>
    (p \<in> keys (lm_tab L) \<longrightarrow> key (lm_tab L) r = p) \<and>
    (p \<notin> keys (lm_tab L) \<longrightarrow> \<not> block (key (lm_tab L) r) \<and> (\<not> ins \<longrightarrow> key (lm_tab L) r = 0) \<and>
      (\<exists>t. r = pos (lm_cap L) p t \<and> (\<forall>u < t. key (lm_tab L) (pos (lm_cap L) p u) \<noteq> 0)))"
proof -
  let ?tab = "lm_tab L" let ?cap = "lm_cap L"
  from ok obtain k where k: "?cap = 2 ^ k" and len: "length ?tab = ?cap" by (auto simp: tab_ok_def)
  have pos: "0 < ?cap" using e by simp
  define m where "m = (LEAST t. key ?tab (pos ?cap p t) \<in> {0, p})"
  from pos_onto [OF e(1), of p] obtain t0 where "key ?tab (pos ?cap p t0) \<in> {0, p}" using e by auto
  then have stop: "key ?tab (pos ?cap p m) \<in> {0, p}" unfolding m_def by (rule LeastI)
  have path: "key ?tab (pos ?cap p u) \<notin> {0, p}" if "u < m" for u
    using not_less_Least [OF that [unfolded m_def]] .
  from probe_run [OF p path [unfolded k] stop [unfolded k], of 0 ins None]
  obtain r where r: "baga_lm_slot L p ins = Some r"
    "r = pos ?cap p m \<or> ins \<and> key ?tab (pos ?cap p m) = 0 \<and>
       (\<exists>u. u < m \<and> r = pos ?cap p u \<and> key ?tab r = BAGA_LM_TOMB)"
    by (auto simp: baga_lm_slot_def k Let_def home_slot [simplified])
  have found: "key ?tab (pos ?cap p m) = p" if "p \<in> keys ?tab"
  proof -
    from that len obtain i where i: "i < ?cap" "key ?tab i = p" by (auto simp: keys_iff)
    then obtain t where t: "i = pos ?cap p t" "\<forall>u < t. key ?tab (pos ?cap p u) \<noteq> 0"
      using ok p by (auto simp: tab_ok_def reachable_key_def)
    have "m \<le> t" unfolding m_def using t(1) i(2) by (intro Least_le) simp
    then show ?thesis using t i(2) stop by (cases "m = t") auto
  qed
  have absent: "key ?tab (pos ?cap p m) = 0" if "p \<notin> keys ?tab"
    using that stop p len pos by (auto simp: keys_iff)
  show ?thesis
  proof (rule exI [of _ r], intro conjI impI)
    show "r < ?cap" using r(2) pos by auto
    show "baga_lm_slot L p ins = Some r" by (rule r(1))
    show "key ?tab r = p" if "p \<in> keys ?tab" using found [OF that] r(2) p by auto
    show "\<not> block (key ?tab r)" if "p \<notin> keys ?tab" using absent [OF that] r(2) by auto
    show "key ?tab r = 0" if "p \<notin> keys ?tab" "\<not> ins" using absent r(2) that by auto
    show "\<exists>t. r = pos ?cap p t \<and> (\<forall>u < t. key ?tab (pos ?cap p u) \<noteq> 0)"
    proof -
      from r(2) obtain u where "u \<le> m" "r = pos ?cap p u" by (metis less_imp_le order_refl)
      then show ?thesis using path by (intro exI [of _ u]) auto
    qed
  qed
qed

section \<open>The table as a map\<close>

definition tab_map :: "LmEnt list \<Rightarrow> addr \<Rightarrow> (nat \<times> bool) option" where
  "tab_map tab p =
     (if block p then map_option (\<lambda>e. (e_n e, e_persist e)) (find (\<lambda>e. e_p e = p) tab) else None)"

lemma tab_map_nth:
  assumes "tab_ok tab cap" "i < cap" "block (key tab i)"
  shows "tab_map tab (key tab i) = Some (e_n (tab ! i), e_persist (tab ! i))"
proof -
  have "tab ! i \<in> set tab" using assms(1,2) by (intro nth_mem) (auto simp: tab_ok_def)
  then have "find (\<lambda>e. e_p e = key tab i) tab \<noteq> None" unfolding find_None_iff by blast
  then obtain e where e: "find (\<lambda>e. e_p e = key tab i) tab = Some e" by blast
  then obtain j where "j < length tab" "e = tab ! j" "key tab j = key tab i" by (auto simp: find_Some_iff)
  then have "e = tab ! i" using assms by (auto simp: tab_ok_def)
  with e assms(3) show ?thesis by (simp add: tab_map_def)
qed

lemma tab_map_None: "tab_map tab p = None \<longleftrightarrow> p \<notin> keys tab"
  by (auto simp: tab_map_def keys_def find_None_iff)

lemma tab_map_eqI:
  assumes "tab_ok tab cap" "\<And>i. i < cap \<Longrightarrow> block (key tab i) \<Longrightarrow> m (key tab i) = Some (e_n (tab ! i), e_persist (tab ! i))"
    "\<And>p. p \<notin> keys tab \<Longrightarrow> m p = None"
  shows "tab_map tab = m"
proof
  fix p
  show "tab_map tab p = m p"
  proof (cases "p \<in> keys tab")
    case True
    then obtain i where "i < cap" "key tab i = p" "block p" using assms(1) by (auto simp: keys_iff tab_ok_def)
    with tab_map_nth [OF assms(1)] assms(2) show ?thesis by metis
  next
    case False
    then show ?thesis using assms(3) tab_map_None by metis
  qed
qed

text \<open>Filling a free slot on the path of a new key, and burying a key.\<close>

lemma reachable_upd:
  assumes "reachable_key tab cap i" "i \<noteq> r" "length tab = cap" "0 < cap" "e_p e \<noteq> 0"
  shows "reachable_key (tab[r := e]) cap i"
proof -
  from assms(1) obtain t where t: "i = pos cap (key tab i) t" "\<forall>u < t. key tab (pos cap (key tab i) u) \<noteq> 0"
    by (auto simp: reachable_key_def)
  have "key (tab[r := e]) i = key tab i" using assms(2) by simp
  moreover have "key (tab[r := e]) (pos cap (key tab i) u) \<noteq> 0" if "u < t" for u
    using t(2) that assms(3-5) by (cases "r = pos cap (key tab i) u") auto
  ultimately show ?thesis using t(1) unfolding reachable_key_def by auto
qed

lemma tab_insert:
  assumes ok: "tab_ok tab cap" and r: "r < cap" "\<not> block (key tab r)"
    and path: "r = pos cap p t" "\<forall>u < t. key tab (pos cap p u) \<noteq> 0"
    and p: "block p" "p \<notin> keys tab" and e: "e_p e = p"
  shows "tab_ok (tab[r := e]) cap \<and> tab_map (tab[r := e]) = (tab_map tab)(p \<mapsto> (e_n e, e_persist e))"
proof
  have len: "length tab = cap" and pos: "0 < cap" using ok r by (auto simp: tab_ok_def)
  have ne: "e_p e \<noteq> 0" using p e by (auto simp: block_def)
  have new: "reachable_key (tab[r := e]) cap r"
    unfolding reachable_key_def
  proof (intro exI [of _ t] conjI allI impI)
    show "r = pos cap (key (tab[r := e]) r) t" using path(1) e r len by simp
    fix u assume "u < t"
    then show "key (tab[r := e]) (pos cap (key (tab[r := e]) r) u) \<noteq> 0"
      using path(2) e r len ne pos by (cases "r = pos cap p u") auto
  qed
  have absent: "key tab i \<noteq> p" if "i < cap" for i using p that len by (auto simp: keys_iff)
  show ok': "tab_ok (tab[r := e]) cap"
    unfolding tab_ok_def
  proof (intro conjI allI impI)
    show "\<exists>k. cap = 2 ^ k" "length (tab[r := e]) = cap" using ok by (auto simp: tab_ok_def)
    show "reachable_key (tab[r := e]) cap i" if "i < cap" "block (key (tab[r := e]) i)" for i
      using that new ok len pos ne reachable_upd [of tab cap i r e] by (cases "i = r") (auto simp: tab_ok_def)
    show "i = j" if "i < cap" "j < cap" "block (key (tab[r := e]) i)" "key (tab[r := e]) i = key (tab[r := e]) j" for i j
      using that ok len e absent [of i] absent [of j]
      by (cases "i = r"; cases "j = r") (auto simp: tab_ok_def)
  qed
  show "tab_map (tab[r := e]) = (tab_map tab)(p \<mapsto> (e_n e, e_persist e))"
  proof (rule tab_map_eqI [OF ok'])
    fix i assume i: "i < cap" "block (key (tab[r := e]) i)"
    show "((tab_map tab)(p \<mapsto> (e_n e, e_persist e))) (key (tab[r := e]) i) =
        Some (e_n (tab[r := e] ! i), e_persist (tab[r := e] ! i))"
      using i e len absent [OF i(1)] tab_map_nth [OF ok, of i] by (cases "i = r") auto
  next
    fix q assume q: "q \<notin> keys (tab[r := e])"
    have "key (tab[r := e]) r = p" using r len e by simp
    then have "q \<noteq> p" using q p r len by (auto simp: keys_iff)
    moreover have "q \<notin> keys tab"
    proof
      assume "q \<in> keys tab"
      then obtain i where "block q" "i < cap" "key tab i = q" using len by (auto simp: keys_iff)
      then show False using q r len by (cases "i = r") (auto simp: keys_iff)
    qed
    ultimately show "((tab_map tab)(p \<mapsto> (e_n e, e_persist e))) q = None" using tab_map_None by simp
  qed
qed

lemma tab_bury:
  assumes ok: "tab_ok tab cap" and r: "r < cap" "block (key tab r)" and e: "e_p e = BAGA_LM_TOMB"
  shows "tab_ok (tab[r := e]) cap \<and> tab_map (tab[r := e]) = (tab_map tab)(key tab r := None)"
proof
  have len: "length tab = cap" and pos: "0 < cap" using ok r by (auto simp: tab_ok_def)
  have other: "i \<noteq> r \<and> key (tab[r := e]) i = key tab i" if "block (key (tab[r := e]) i)" for i
    using that e r len by (cases "i = r") auto
  show ok': "tab_ok (tab[r := e]) cap"
    unfolding tab_ok_def
  proof (intro conjI allI impI)
    show "\<exists>k. cap = 2 ^ k" "length (tab[r := e]) = cap" using ok by (auto simp: tab_ok_def)
    show "reachable_key (tab[r := e]) cap i" if "i < cap" "block (key (tab[r := e]) i)" for i
      using that other [OF that(2)] ok len pos e reachable_upd [of tab cap i r e] by (auto simp: tab_ok_def)
    show "i = j" if "i < cap" "j < cap" "block (key (tab[r := e]) i)" "key (tab[r := e]) i = key (tab[r := e]) j" for i j
      using that other [of i] other [of j] ok by (auto simp: tab_ok_def)
  qed
  show "tab_map (tab[r := e]) = (tab_map tab)(key tab r := None)"
  proof (rule tab_map_eqI [OF ok'])
    fix i assume i: "i < cap" "block (key (tab[r := e]) i)"
    have "key tab i \<noteq> key tab r" using other [OF i(2)] i ok r by (auto simp: tab_ok_def)
    then show "((tab_map tab)(key tab r := None)) (key (tab[r := e]) i) =
        Some (e_n (tab[r := e] ! i), e_persist (tab[r := e] ! i))"
      using i other [OF i(2)] tab_map_nth [OF ok, of i] by auto
  next
    fix q assume q: "q \<notin> keys (tab[r := e])"
    show "((tab_map tab)(key tab r := None)) q = None"
    proof (cases "q = key tab r")
      case False
      have "q \<notin> keys tab"
      proof
        assume "q \<in> keys tab"
        then obtain i where "block q" "i < cap" "key tab i = q" using len by (auto simp: keys_iff)
        then show False using q False r len by (cases "i = r") (auto simp: keys_iff)
      qed
      then show ?thesis using tab_map_None by simp
    qed simp
  qed
qed

end
