(* ===== verification/ParLogMap.thy ===== *)
theory ParLogMap
  imports ParLogTab
begin

text \<open>
  The operations of the allocation log on its table: they end, keep the counts
  and the load factor, and act as a finite map. The interface is a locale,
  interpreted on the model's operations.
\<close>

section \<open>Sums over the table\<close>

definition total :: "(LmEnt \<Rightarrow> int) \<Rightarrow> LmEnt list \<Rightarrow> int" where
  "total g tab = sum_list (map g tab)"

lemma total_simps [simp]: "total g [] = 0" "total g (e # es) = g e + total g es"
  by (simp_all add: total_def)

lemma total_upd: "i < length tab \<Longrightarrow> total g (tab[i := e]) = total g tab - g (tab ! i) + g e"
proof -
  assume i: "i < length tab"
  have "total g tab = total g (take i tab @ (tab ! i) # drop (Suc i) tab)" using i by (simp add: id_take_nth_drop [symmetric])
  then show ?thesis using i by (simp add: upd_conv_take_nth_drop total_def)
qed

lemma total_mono: "(\<And>e. g e \<le> h e) \<Longrightarrow> total g tab \<le> total h tab"
  by (induction tab) (simp_all add: add_mono)

definition ent_full :: "LmEnt \<Rightarrow> int" where
  "ent_full e = (if e_p e \<noteq> 0 then 1 else 0)"

definition ent_live :: "LmEnt \<Rightarrow> int" where
  "ent_live e = (if block (e_p e) then 1 else 0)"

definition ent_bytes :: "bool \<Rightarrow> LmEnt \<Rightarrow> int" where
  "ent_bytes persist e = (if block (e_p e) \<and> e_persist e = persist then int (e_n e) else 0)"

lemma live_le_full: "total ent_live tab \<le> total ent_full tab"
  by (rule total_mono) (auto simp: ent_live_def ent_full_def block_def)

lemma full_table: "\<forall>e \<in> set tab. e_p e \<noteq> 0 \<Longrightarrow> total ent_full tab = int (length tab)"
  by (induction tab) (auto simp: ent_full_def)

lemma empty_slot:
  assumes "total ent_full tab < int (length tab)"
  shows "\<exists>i < length tab. key tab i = 0"
proof (rule ccontr)
  assume "\<not> ?thesis"
  then have "\<forall>e \<in> set tab. e_p e \<noteq> 0" by (auto simp: in_set_conv_nth)
  with full_table assms show False by fastforce
qed

section \<open>Well-formed logs\<close>

definition counts_ok :: "LmLog \<Rightarrow> bool" where
  "counts_ok L \<longleftrightarrow>
     tab_ok (lm_tab L) (lm_cap L) \<and> int (lm_fill L) = total ent_full (lm_tab L) \<and>
     int (lm_used L) = total ent_live (lm_tab L) \<and> 10 * lm_fill L \<le> 7 * lm_cap L \<and> 1024 \<le> lm_cap L"

definition table_ok :: "LmLog \<Rightarrow> bool" where
  "table_ok L \<longleftrightarrow> lm_cap L = 0 \<and> lm_tab L = [] \<and> lm_fill L = 0 \<and> lm_used L = 0 \<or> counts_ok L"

definition lookup :: "LmLog \<Rightarrow> addr \<Rightarrow> (nat \<times> bool) option" where
  "lookup L = tab_map (lm_tab L)"

definition bytes :: "bool \<Rightarrow> LmLog \<Rightarrow> int" where
  "bytes persist L = total (ent_bytes persist) (lm_tab L)"

text \<open>The fields the table operations leave alone.\<close>

definition lm_rest :: "LmLog \<Rightarrow> addr list \<times> nat \<times> int \<times> int \<times> int" where
  "lm_rest L = (lm_v L, lm_vcap L, lm_live L, lm_peak L, lm_live_p L)"

lemma lookup_None: "lookup L p = None \<longleftrightarrow> p \<notin> keys (lm_tab L)"
  by (simp add: lookup_def tab_map_None)

lemma keys_dom: "keys (lm_tab L) = dom (lookup L)"
  by (rule set_eqI) (metis domIff lookup_None)

lemma lookup_block: "lookup L p = Some x \<Longrightarrow> block p"
  by (auto simp: lookup_def tab_map_def split: if_splits)

lemma slot_exists: "counts_ok L \<Longrightarrow> \<exists>e < lm_cap L. key (lm_tab L) e = 0"
  using empty_slot [of "lm_tab L"] by (auto simp: counts_ok_def tab_ok_def)

lemma put_raw_spec:
  assumes ok: "counts_ok L" and room: "10 * (lm_fill L + 1) \<le> 7 * lm_cap L"
    and p: "block p" "lookup L p = None"
  shows "\<exists>L'. baga_lm_put_raw L p n pst = Some L' \<and> counts_ok L' \<and>
    lookup L' = (lookup L)(p \<mapsto> (n, pst)) \<and> lm_rest L' = lm_rest L \<and> lm_cap L' = lm_cap L \<and>
    lm_fill L' \<le> lm_fill L + 1 \<and>
    bytes b L' = bytes b L + (if pst = b then int n else 0)"
proof -
  let ?tab = "lm_tab L" let ?e = "\<lparr>e_p = p, e_n = n, e_persist = pst, e_alive = True\<rparr>"
  have tab: "tab_ok ?tab (lm_cap L)" and len: "length ?tab = lm_cap L" using ok by (auto simp: counts_ok_def tab_ok_def)
  have np: "p \<notin> keys ?tab" using p(2) by (simp add: lookup_None)
  from slot_exists [OF ok] obtain e where "e < lm_cap L" "key ?tab e = 0" by blast
  from slot_spec [OF tab this p(1), of True] np obtain r t where r: "r < lm_cap L"
    "baga_lm_slot L p True = Some r" "\<not> block (key ?tab r)"
    "r = pos (lm_cap L) p t" "\<forall>u < t. key ?tab (pos (lm_cap L) p u) \<noteq> 0" by blast
  define L' where "L' = L\<lparr>lm_fill := (if key ?tab r = 0 then Suc (lm_fill L) else lm_fill L),
      lm_tab := ?tab[r := ?e], lm_used := Suc (lm_used L)\<rparr>"
  have put: "baga_lm_put_raw L p n pst = Some L'" using r(2) by (simp add: baga_lm_put_raw_def L'_def)
  note ins = tab_insert [OF tab r(1,3,4,5) p(1) np, of ?e, simplified]
  have "e_p ?e \<noteq> 0" using p(1) by (auto simp: block_def)
  then have "counts_ok L'"
    using ok room ins r(1,3) p(1) len
    by (auto simp: counts_ok_def L'_def total_upd ent_full_def ent_live_def)
  moreover have "bytes b L' = bytes b L + (if pst = b then int n else 0)"
    using r(1,3) p(1) len by (simp add: bytes_def L'_def total_upd ent_bytes_def)
  ultimately show ?thesis
    using put ins by (intro exI [of _ L']) (simp add: L'_def lookup_def lm_rest_def)
qed

lemma tab_map_Cons:
  "tab_map (e # es) = (if block (e_p e) then (tab_map es)(e_p e \<mapsto> (e_n e, e_persist e)) else tab_map es)"
  by (rule ext) (auto simp: tab_map_def)

lemma keys_Cons: "keys (e # es) = (if block (e_p e) then insert (e_p e) (keys es) else keys es)"
  by (auto simp: keys_def)

lemma put_all_spec:
  "counts_ok L \<Longrightarrow> 10 * (int (lm_fill L) + total ent_live es) \<le> 7 * int (lm_cap L) \<Longrightarrow>
   distinct (map e_p (filter (\<lambda>e. block (e_p e)) es)) \<Longrightarrow> keys es \<inter> keys (lm_tab L) = {} \<Longrightarrow>
   \<exists>L'. lm_put_all es L = Some L' \<and> counts_ok L' \<and> lookup L' = lookup L ++ tab_map es \<and>
     lm_rest L' = lm_rest L \<and> lm_cap L' = lm_cap L \<and> int (lm_fill L') \<le> int (lm_fill L) + total ent_live es \<and>
     bytes b L' = bytes b L + total (ent_bytes b) es"
proof (induction es arbitrary: L)
  case Nil
  have "tab_map [] = Map.empty" by (auto simp: tab_map_def fun_eq_iff)
  with Nil show ?case by simp
next
  case (Cons e es)
  have nn: "0 \<le> total ent_live es" by (induction es) (auto simp: ent_live_def)
  show ?case
  proof (cases "block (e_p e)")
    case True
    have "lookup L (e_p e) = None" using Cons.prems(4) True by (simp add: lookup_None keys_Cons)
    moreover have el: "ent_live e = 1" using True by (simp add: ent_live_def)
    then have "10 * (lm_fill L + 1) \<le> 7 * lm_cap L" using Cons.prems(2) nn by simp
    ultimately obtain L1 where L1: "baga_lm_put_raw L (e_p e) (e_n e) (e_persist e) = Some L1" "counts_ok L1"
      "lookup L1 = (lookup L)(e_p e \<mapsto> (e_n e, e_persist e))" "lm_rest L1 = lm_rest L" "lm_cap L1 = lm_cap L"
      "lm_fill L1 \<le> lm_fill L + 1" "bytes b L1 = bytes b L + (if e_persist e = b then int (e_n e) else 0)"
      using put_raw_spec [OF Cons.prems(1) _ True, of "e_n e" "e_persist e" b] by blast
    have new: "e_p e \<notin> keys es" using Cons.prems(3) True by (auto simp: keys_def image_iff)
    have "keys (lm_tab L1) = insert (e_p e) (keys (lm_tab L))"
      by (simp add: keys_dom L1(3))
    then have "keys es \<inter> keys (lm_tab L1) = {}" using Cons.prems(4) new True by (auto simp: keys_Cons)
    moreover have "distinct (map e_p (filter (\<lambda>e. block (e_p e)) es))" using Cons.prems(3) True by simp
    moreover have "10 * (int (lm_fill L1) + total ent_live es) \<le> 7 * int (lm_cap L1)"
      using Cons.prems(2) L1(5,6) el by simp
    ultimately obtain L' where L': "lm_put_all es L1 = Some L'" "counts_ok L'" "lookup L' = lookup L1 ++ tab_map es"
      "lm_rest L' = lm_rest L1" "lm_cap L' = lm_cap L1" "int (lm_fill L') \<le> int (lm_fill L1) + total ent_live es"
      "bytes b L' = bytes b L1 + total (ent_bytes b) es" using Cons.IH [OF L1(2)] by blast
    have "e_p e \<notin> dom (tab_map es)" using new tab_map_None by (simp add: domIff)
    then have "lookup L' = lookup L ++ tab_map (e # es)"
      using L'(3) L1(3) True by (simp add: tab_map_Cons map_add_upd_left)
    moreover have "lm_put_all (e # es) L = Some L'" using True L1(1) L'(1) by (simp add: block_def)
    moreover have "ent_bytes b e = (if e_persist e = b then int (e_n e) else 0)"
      using True by (simp add: ent_bytes_def)
    ultimately show ?thesis
      using L1(4-7) L'(2,4-7) el by (intro exI [of _ L']) (simp del: lm_put_all.simps)
  next
    case False
    then have "lm_put_all (e # es) L = lm_put_all es L" by (auto simp: block_def)
    then show ?thesis
      using Cons.IH [OF Cons.prems(1)] Cons.prems(2-4) False
      by (simp add: tab_map_Cons keys_Cons ent_live_def ent_bytes_def)
  qed
qed

lemma distinct_keys:
  "(\<And>i j. i < length tab \<Longrightarrow> j < length tab \<Longrightarrow> block (key tab i) \<Longrightarrow> key tab i = key tab j \<Longrightarrow> i = j) \<Longrightarrow>
   distinct (map e_p (filter (\<lambda>e. block (e_p e)) tab))"
proof (induction tab)
  case (Cons e es)
  have "distinct (map e_p (filter (\<lambda>e. block (e_p e)) es))"
  proof (rule Cons.IH)
    fix i j assume "i < length es" "j < length es" "block (key es i)" "key es i = key es j"
    then show "i = j" using Cons.prems [of "Suc i" "Suc j"] by simp
  qed
  moreover have "e_p e \<notin> e_p ` set es" if "block (e_p e)"
  proof
    assume "e_p e \<in> e_p ` set es"
    then obtain j where "j < length es" "key es j = e_p e" by (force simp: set_conv_nth)
    then show False using Cons.prems [of 0 "Suc j"] that by simp
  qed
  ultimately show ?case by auto
qed simp

lemma blank_table:
  assumes "1024 \<le> cap" "\<exists>k. cap = 2 ^ k"
  shows "counts_ok (L\<lparr>lm_tab := replicate cap empty_ent, lm_cap := cap, lm_used := 0, lm_fill := 0\<rparr>)"
    "lookup (L\<lparr>lm_tab := replicate cap empty_ent, lm_cap := cap, lm_used := 0, lm_fill := 0\<rparr>) = Map.empty"
    "bytes b (L\<lparr>lm_tab := replicate cap empty_ent, lm_cap := cap, lm_used := 0, lm_fill := 0\<rparr>) = 0"
proof -
  have z: "g empty_ent = 0 \<Longrightarrow> total g (replicate cap empty_ent) = 0" for g
    by (simp add: total_def sum_list_replicate)
  have e: "e_p empty_ent = 0" "ent_full empty_ent = 0" "ent_live empty_ent = 0" "ent_bytes b empty_ent = 0"
    by (simp_all add: empty_ent_def ent_full_def ent_live_def ent_bytes_def)
  have "find (\<lambda>e. e_p e = p) (replicate n empty_ent) = None" if "block p" for p n
    using that by (induction n) (auto simp: empty_ent_def block_def)
  then show "lookup (L\<lparr>lm_tab := replicate cap empty_ent, lm_cap := cap, lm_used := 0, lm_fill := 0\<rparr>) = Map.empty"
    by (auto simp: lookup_def tab_map_def)
  show "counts_ok (L\<lparr>lm_tab := replicate cap empty_ent, lm_cap := cap, lm_used := 0, lm_fill := 0\<rparr>)"
    using assms by (simp add: counts_ok_def tab_ok_def z e)
  show "bytes b (L\<lparr>lm_tab := replicate cap empty_ent, lm_cap := cap, lm_used := 0, lm_fill := 0\<rparr>) = 0"
    by (simp add: bytes_def z e)
qed

lemma rehash_spec:
  assumes ok: "counts_ok L"
  shows "\<exists>L'. baga_lm_rehash L (lm_cap L * 2) = Some L' \<and> counts_ok L' \<and> lookup L' = lookup L \<and>
    lm_rest L' = lm_rest L \<and> lm_cap L' = lm_cap L * 2 \<and> lm_fill L' \<le> lm_fill L \<and> bytes b L' = bytes b L"
proof -
  let ?c = "lm_cap L * 2"
  let ?B = "L\<lparr>lm_tab := replicate ?c empty_ent, lm_cap := ?c, lm_used := 0, lm_fill := 0\<rparr>"
  from ok obtain k where k: "lm_cap L = 2 ^ k" by (auto simp: counts_ok_def tab_ok_def)
  have big: "1024 \<le> ?c" "\<exists>k. ?c = 2 ^ k" using ok k by (auto simp: counts_ok_def intro: exI [of _ "Suc k"])
  note blank = blank_table(1,2) [OF big, of L] blank_table(3) [OF big, of b L]
  have live: "total ent_live (lm_tab L) \<le> int (lm_fill L)" "10 * lm_fill L \<le> 7 * lm_cap L"
    using ok live_le_full [of "lm_tab L"] by (simp_all add: counts_ok_def)
  have "distinct (map e_p (filter (\<lambda>e. block (e_p e)) (lm_tab L)))"
    using ok by (intro distinct_keys) (auto simp: counts_ok_def tab_ok_def)
  moreover have "keys (lm_tab L) \<inter> keys (lm_tab ?B) = {}"
    using blank(2) lookup_None [of ?B] by auto
  moreover have "10 * (int (lm_fill ?B) + total ent_live (lm_tab L)) \<le> 7 * int (lm_cap ?B)"
    using live by simp
  ultimately obtain L' where "lm_put_all (lm_tab L) ?B = Some L'" "counts_ok L'"
    "lookup L' = lookup ?B ++ tab_map (lm_tab L)" "lm_rest L' = lm_rest ?B" "lm_cap L' = lm_cap ?B"
    "int (lm_fill L') \<le> int (lm_fill ?B) + total ent_live (lm_tab L)"
    "bytes b L' = bytes b ?B + total (ent_bytes b) (lm_tab L)" using put_all_spec [OF blank(1)] by blast
  then show ?thesis
    using blank(2,3) live(1) by (intro exI [of _ L']) (simp add: baga_lm_rehash_def lookup_def lm_rest_def bytes_def)
qed

lemma init_tab_spec:
  "table_ok L \<Longrightarrow> counts_ok (lm_init_tab L) \<and> lookup (lm_init_tab L) = lookup L \<and>
     lm_rest (lm_init_tab L) = lm_rest L \<and> bytes b (lm_init_tab L) = bytes b L"
proof (cases "lm_cap L = 0")
  case True
  assume "table_ok L"
  then have L: "lm_tab L = []" "lm_fill L = 0" "lm_used L = 0" using True by (auto simp: table_ok_def counts_ok_def)
  then have e: "lm_init_tab L = L\<lparr>lm_tab := replicate 1024 empty_ent, lm_cap := 1024, lm_used := 0, lm_fill := 0\<rparr>"
    using True by (simp add: lm_init_tab_def)
  have k: "\<exists>k. 1024 = (2 :: nat) ^ k" by (rule exI [of _ 10]) simp
  have "lookup L = Map.empty" using L by (auto simp: lookup_def tab_map_def)
  then show ?thesis
    using blank_table(1,2) [OF order_refl k, of L] blank_table(3) [OF order_refl k, of b L] L unfolding e
    by (auto simp: lm_rest_def bytes_def)
next
  case False
  assume "table_ok L"
  then show ?thesis using False by (simp add: lm_init_tab_def table_ok_def)
qed

lemma put_spec:
  assumes ok: "table_ok L" and p: "block p" "lookup L p = None"
  shows "\<exists>L'. baga_lm_put L p n pst = Some L' \<and> counts_ok L' \<and> lookup L' = (lookup L)(p \<mapsto> (n, pst)) \<and>
    lm_rest L' = lm_rest L \<and> bytes b L' = bytes b L + (if pst = b then int n else 0)"
proof -
  let ?I = "lm_init_tab L"
  note init = init_tab_spec [OF ok, of b]
  have pI: "lookup ?I p = None" using init p by simp
  show ?thesis
  proof (cases "(lm_fill ?I + 1) * 10 > lm_cap ?I * 7")
    case True
    from init rehash_spec [of ?I b] obtain R where R: "baga_lm_rehash ?I (lm_cap ?I * 2) = Some R" "counts_ok R"
      "lookup R = lookup ?I" "lm_rest R = lm_rest ?I" "lm_cap R = lm_cap ?I * 2" "lm_fill R \<le> lm_fill ?I"
      "bytes b R = bytes b ?I" by blast
    have "10 * lm_fill ?I \<le> 7 * lm_cap ?I" "1024 \<le> lm_cap ?I" using init by (simp_all add: counts_ok_def)
    then have "10 * (lm_fill R + 1) \<le> 7 * lm_cap R" using R(5,6) by simp
    with put_raw_spec [OF R(2) _ p(1), of n pst b] R pI True init show ?thesis
      by (auto simp: baga_lm_put_def Let_def)
  next
    case False
    then have "10 * (lm_fill ?I + 1) \<le> 7 * lm_cap ?I" by simp
    with put_raw_spec [OF _ _ p(1) pI, of n pst b] init False show ?thesis
      by (auto simp: baga_lm_put_def Let_def)
  qed
qed

lemma find_spec:
  assumes ok: "table_ok L" and p: "block p"
  shows "\<exists>r. baga_lm_find L p = Some r \<and>
    (case r of None \<Rightarrow> lookup L p = None
     | Some i \<Rightarrow> i < lm_cap L \<and> key (lm_tab L) i = p \<and> counts_ok L \<and>
         lookup L p = Some (e_n (lm_tab L ! i), e_persist (lm_tab L ! i)))"
proof (cases "lm_cap L = 0")
  case True
  then have "lm_tab L = []" using ok by (auto simp: table_ok_def counts_ok_def)
  then show ?thesis using True by (simp add: baga_lm_find_def lookup_def tab_map_def)
next
  case False
  then have c: "counts_ok L" using ok by (simp add: table_ok_def)
  then have tab: "tab_ok (lm_tab L) (lm_cap L)" by (simp add: counts_ok_def)
  from slot_exists [OF c] obtain e where "e < lm_cap L" "key (lm_tab L) e = 0" by blast
  from slot_spec [OF tab this p, of False] obtain r where r: "r < lm_cap L" "baga_lm_slot L p False = Some r"
    "p \<in> keys (lm_tab L) \<longrightarrow> key (lm_tab L) r = p" "p \<notin> keys (lm_tab L) \<longrightarrow> key (lm_tab L) r = 0" by blast
  have f: "baga_lm_find L p = Some (if key (lm_tab L) r = p then Some r else None)"
    using False r(2) by (simp add: baga_lm_find_def)
  show ?thesis
  proof (cases "p \<in> keys (lm_tab L)")
    case True
    then have "key (lm_tab L) r = p" using r(3) by simp
    then show ?thesis using f r(1) c tab_map_nth [OF tab r(1)] p by (simp add: lookup_def)
  next
    case False
    then have "key (lm_tab L) r \<noteq> p" using r(4) p by auto
    then show ?thesis using f False by (simp add: lookup_None)
  qed
qed

lemma bury_spec:
  assumes ok: "counts_ok L" and i: "i < lm_cap L" "block (key (lm_tab L) i)"
  shows "counts_ok (lm_bury i L) \<and> lookup (lm_bury i L) = (lookup L)(key (lm_tab L) i := None) \<and>
    lm_rest (lm_bury i L) = lm_rest L \<and>
    bytes b (lm_bury i L) = bytes b L - (if e_persist (lm_tab L ! i) = b then int (e_n (lm_tab L ! i)) else 0)"
proof -
  let ?tab = "lm_tab L" let ?e = "(?tab ! i)\<lparr>e_p := BAGA_LM_TOMB\<rparr>"
  have tab: "tab_ok ?tab (lm_cap L)" and len: "length ?tab = lm_cap L" using ok by (auto simp: counts_ok_def tab_ok_def)
  note bury = tab_bury [OF tab i, of ?e, simplified]
  have ne: "key ?tab i \<noteq> 0" using i(2) by auto
  have "total ent_live (?tab[i := ?e]) = total ent_live ?tab - 1"
    using i len by (simp add: total_upd ent_live_def)
  moreover have "total ent_full (?tab[i := ?e]) = total ent_full ?tab"
    using i len ne by (simp add: total_upd ent_full_def)
  moreover have "0 \<le> total ent_live (?tab[i := ?e])" unfolding total_def by (intro sum_list_nonneg) (auto simp: ent_live_def)
  ultimately have "counts_ok (lm_bury i L)" using ok bury by (simp add: counts_ok_def lm_bury_def)
  then show ?thesis
    using bury i len by (simp add: lm_bury_def lookup_def lm_rest_def bytes_def total_upd ent_bytes_def)
qed

end
