(* ===== verification/ParLogOps.thy ===== *)
theory ParLogOps
  imports ParLogMap
begin

text \<open>
  The operations of the allocation log: allocation, reallocation and release
  keep the byte counters equal to the sums over the live blocks, and the rewind
  releases the blocks logged since the mark that are not persistent.
\<close>

section \<open>The table as a finite map\<close>

definition lm_remove :: "LmLog \<Rightarrow> addr \<Rightarrow> LmLog option" where
  "lm_remove L p =
     do { r \<leftarrow> baga_lm_find L p; Some (case r of Some i \<Rightarrow> lm_bury i L | None \<Rightarrow> L) }"

datatype edit = PUT addr nat bool | DEL addr

fun run_edits ::
  "('s \<Rightarrow> addr \<Rightarrow> nat \<Rightarrow> bool \<Rightarrow> 's option) \<Rightarrow> ('s \<Rightarrow> addr \<Rightarrow> 's option) \<Rightarrow> edit list \<Rightarrow> 's \<Rightarrow> 's option" where
  "run_edits put del [] s = Some s"
| "run_edits put del (PUT p n b # es) s = do { s' \<leftarrow> put s p n b; run_edits put del es s' }"
| "run_edits put del (DEL p # es) s = do { s' \<leftarrow> del s p; run_edits put del es s' }"

text \<open>The same edits on a map; a put must be of an absent block.\<close>

fun map_edits :: "edit list \<Rightarrow> (addr \<rightharpoonup> nat \<times> bool) \<Rightarrow> (addr \<rightharpoonup> nat \<times> bool) option" where
  "map_edits [] m = Some m"
| "map_edits (PUT p n b # es) m = (if block p \<and> m p = None then map_edits es (m(p \<mapsto> (n, b))) else None)"
| "map_edits (DEL p # es) m = (if block p then map_edits es (m(p := None)) else None)"

locale block_map =
  fixes ok :: "'s \<Rightarrow> bool"
    and look :: "'s \<Rightarrow> addr \<rightharpoonup> nat \<times> bool"
    and put :: "'s \<Rightarrow> addr \<Rightarrow> nat \<Rightarrow> bool \<Rightarrow> 's option"
    and del :: "'s \<Rightarrow> addr \<Rightarrow> 's option"
  assumes put_law: "ok s \<Longrightarrow> block p \<Longrightarrow> look s p = None \<Longrightarrow>
      \<exists>s'. put s p n b = Some s' \<and> ok s' \<and> look s' = (look s)(p \<mapsto> (n, b))"
    and del_law: "ok s \<Longrightarrow> block p \<Longrightarrow> \<exists>s'. del s p = Some s' \<and> ok s' \<and> look s' = (look s)(p := None)"
begin

lemma edits_refine:
  "ok s \<Longrightarrow> map_edits es (look s) = Some m \<Longrightarrow> \<exists>s'. run_edits put del es s = Some s' \<and> ok s' \<and> look s' = m"
proof (induction es arbitrary: s)
  case (Cons e es)
  show ?case
  proof (cases e)
    case (PUT p n b)
    with Cons.prems have p: "block p" "look s p = None" "map_edits es ((look s)(p \<mapsto> (n, b))) = Some m"
      by (auto split: if_splits)
    from put_law [OF Cons.prems(1) p(1,2)] obtain s' where
      "put s p n b = Some s'" "ok s'" "look s' = (look s)(p \<mapsto> (n, b))" by blast
    then have "map_edits es (look s') = Some m" using p(3) by (simp only:)
    with Cons.IH \<open>ok s'\<close> \<open>put s p n b = Some s'\<close> PUT show ?thesis by simp
  next
    case (DEL p)
    with Cons.prems have p: "block p" "map_edits es ((look s)(p := None)) = Some m"
      by (auto split: if_splits)
    from del_law [OF Cons.prems(1) p(1)] obtain s' where
      "del s p = Some s'" "ok s'" "look s' = (look s)(p := None)" by blast
    then have "map_edits es (look s') = Some m" using p(2) by (simp only:)
    with Cons.IH \<open>ok s'\<close> \<open>del s p = Some s'\<close> DEL show ?thesis by simp
  qed
qed simp

end

lemma remove_spec:
  assumes "table_ok L" "block p"
  shows "\<exists>L'. lm_remove L p = Some L' \<and> table_ok L' \<and> lookup L' = (lookup L)(p := None)"
proof -
  from find_spec [OF assms] obtain r where r: "baga_lm_find L p = Some r"
    "case r of None \<Rightarrow> lookup L p = None
     | Some i \<Rightarrow> i < lm_cap L \<and> key (lm_tab L) i = p \<and> counts_ok L \<and>
         lookup L p = Some (e_n (lm_tab L ! i), e_persist (lm_tab L ! i))" by blast
  show ?thesis
  proof (cases r)
    case None
    then show ?thesis using r assms(1) by (simp add: lm_remove_def fun_upd_idem)
  next
    case (Some i)
    then show ?thesis using r assms(2) bury_spec [of L i] by (auto simp: lm_remove_def table_ok_def)
  qed
qed

interpretation lm: block_map table_ok lookup baga_lm_put lm_remove
proof
  show "\<exists>s'. baga_lm_put s p n b = Some s' \<and> table_ok s' \<and> lookup s' = (lookup s)(p \<mapsto> (n, b))"
    if "table_ok s" "block p" "lookup s p = None" for s p n b
    using put_spec [OF that, of n b] by (auto simp: table_ok_def)
qed (rule remove_spec)

section \<open>The counters\<close>

definition log_ok :: "LmLog \<Rightarrow> bool" where
  "log_ok L \<longleftrightarrow>
     table_ok L \<and> lm_live L = bytes False L \<and> lm_live_p L = bytes True L \<and> lm_live L \<le> lm_peak L \<and>
     dom (lookup L) \<subseteq> set (lm_v L) \<and> (\<forall>p \<in> set (lm_v L). block p)"

lemma new_log_ok: "log_ok new_log" "lookup new_log = Map.empty"
  by (auto simp: log_ok_def table_ok_def new_log_def bytes_def lookup_def tab_map_def)

lemma table_ok_other [simp]:
  "table_ok (L\<lparr>lm_v := v\<rparr>) = table_ok L" "table_ok (L\<lparr>lm_vcap := c\<rparr>) = table_ok L"
  "table_ok (L\<lparr>lm_live := x\<rparr>) = table_ok L" "table_ok (L\<lparr>lm_peak := x\<rparr>) = table_ok L"
  "table_ok (L\<lparr>lm_live_p := x\<rparr>) = table_ok L"
  by (simp_all add: table_ok_def counts_ok_def)

lemma counts_ok_other [simp]:
  "counts_ok (L\<lparr>lm_v := v\<rparr>) = counts_ok L" "counts_ok (L\<lparr>lm_vcap := c\<rparr>) = counts_ok L"
  "counts_ok (L\<lparr>lm_live := x\<rparr>) = counts_ok L" "counts_ok (L\<lparr>lm_peak := x\<rparr>) = counts_ok L"
  "counts_ok (L\<lparr>lm_live_p := x\<rparr>) = counts_ok L"
  by (simp_all add: counts_ok_def)

lemma lookup_other [simp]:
  "lookup (L\<lparr>lm_v := v\<rparr>) = lookup L" "lookup (L\<lparr>lm_vcap := c\<rparr>) = lookup L"
  "lookup (L\<lparr>lm_live := x\<rparr>) = lookup L" "lookup (L\<lparr>lm_peak := x\<rparr>) = lookup L"
  "lookup (L\<lparr>lm_live_p := x\<rparr>) = lookup L"
  by (simp_all add: lookup_def)

lemma bytes_other [simp]:
  "bytes b (L\<lparr>lm_v := v\<rparr>) = bytes b L" "bytes b (L\<lparr>lm_vcap := c\<rparr>) = bytes b L"
  "bytes b (L\<lparr>lm_live := x\<rparr>) = bytes b L" "bytes b (L\<lparr>lm_peak := x\<rparr>) = bytes b L"
  "bytes b (L\<lparr>lm_live_p := x\<rparr>) = bytes b L"
  by (simp_all add: bytes_def)

lemma account_simps [simp]:
  "lm_tab (lm_account b d L) = lm_tab L" "lm_cap (lm_account b d L) = lm_cap L" "lm_v (lm_account b d L) = lm_v L"
  "counts_ok (lm_account b d L) = counts_ok L" "table_ok (lm_account b d L) = table_ok L"
  "lookup (lm_account b d L) = lookup L" "bytes c (lm_account b d L) = bytes c L"
  by (simp_all add: lm_account_def)

lemma unaccount_simps [simp]:
  "lm_tab (lm_unaccount b d L) = lm_tab L" "lm_cap (lm_unaccount b d L) = lm_cap L"
  "counts_ok (lm_unaccount b d L) = counts_ok L" "lookup (lm_unaccount b d L) = lookup L"
  "bytes c (lm_unaccount b d L) = bytes c L"
  by (simp_all add: lm_unaccount_def)

lemma log_push_simps [simp]:
  "lookup (baga_lm_log_push L p) = lookup L" "lm_v (baga_lm_log_push L p) = lm_v L @ [p]"
  by (simp_all add: baga_lm_log_push_def)

lemma lm_rest_simps:
  "lm_rest L = lm_rest M \<Longrightarrow> lm_v L = lm_v M \<and> lm_live L = lm_live M \<and> lm_peak L = lm_peak M \<and> lm_live_p L = lm_live_p M"
  by (simp add: lm_rest_def)

lemma record_spec:
  assumes ok: "log_ok L" and p: "block p" "lookup L p = None"
  shows "\<exists>L'. lm_record L p n b = Some L' \<and> log_ok L' \<and> lookup L' = (lookup L)(p \<mapsto> (n, b)) \<and>
    lm_v L' = lm_v L @ [p]"
proof -
  from ok have t: "table_ok L" by (simp add: log_ok_def)
  from put_spec [OF t p, of n b] obtain M where M: "baga_lm_put L p n b = Some M" "counts_ok M"
    "lookup M = (lookup L)(p \<mapsto> (n, b))" "lm_rest M = lm_rest L" by blast
  have byt: "bytes c M = bytes c L + (if b = c then int n else 0)" for c
    using put_spec [OF t p, of n b c] M(1) by auto
  let ?L' = "baga_lm_log_push (lm_account b (int n) M) p"
  have "log_ok ?L'"
    using ok M byt lm_rest_simps [OF M(4)] p(1)
    by (cases b) (auto simp: log_ok_def baga_lm_log_push_def lm_account_def table_ok_def)
  moreover have "lm_record L p n b = Some ?L'" by (simp add: lm_record_def M(1))
  ultimately show ?thesis using M(3) lm_rest_simps [OF M(4)] by (intro exI [of _ ?L']) simp
qed

lemma replace_first_set:
  "x \<in> set xs \<Longrightarrow> x \<noteq> old \<Longrightarrow> x \<in> set (replace_first old np xs)"
  "old \<in> set xs \<Longrightarrow> np \<in> set (replace_first old np xs)"
  "set (replace_first old np xs) \<subseteq> insert np (set xs)"
  by (induction xs) auto

lemma drop_spec:
  assumes ok: "log_ok L" and i: "i < lm_cap L" "key (lm_tab L) i = p" "block p" "counts_ok L"
  shows "log_ok (lm_drop L i) \<and> lookup (lm_drop L i) = (lookup L)(p := None)"
proof -
  let ?b = "e_persist (lm_tab L ! i)" let ?n = "int (e_n (lm_tab L ! i))"
  let ?U = "lm_unaccount ?b ?n L"
  have U: "counts_ok ?U" using i(4) by simp
  have bury: "counts_ok (lm_drop L i)" "lookup (lm_drop L i) = (lookup L)(p := None)" "lm_rest (lm_drop L i) = lm_rest ?U"
    "bytes c (lm_drop L i) = bytes c L - (if ?b = c then ?n else 0)" for c
    using bury_spec [OF U, of i c] i by (simp_all add: lm_drop_def)
  have "log_ok (lm_drop L i)"
    using ok bury(1,2) bury(4) lm_rest_simps [OF bury(3)]
    by (cases ?b) (auto simp: log_ok_def lm_unaccount_def table_ok_def)
  with bury(2) show ?thesis by simp
qed

lemma move_spec:
  assumes ok: "log_ok L" and i: "i < lm_cap L" "key (lm_tab L) i = p" "block p" "counts_ok L"
    and np: "block np" "np = p \<or> lookup L np = None"
  shows "\<exists>L'. lm_move L i p np n = Some L' \<and> log_ok L' \<and>
    lookup L' = (lookup L)(p := None, np \<mapsto> (n, e_persist (lm_tab L ! i)))"
proof -
  let ?b = "e_persist (lm_tab L ! i)" let ?n = "int (e_n (lm_tab L ! i))"
  let ?A = "lm_account ?b (int n - ?n) L" let ?B = "lm_bury i ?A"
  have A: "counts_ok ?A" using i(4) by simp
  have B: "counts_ok ?B" "lookup ?B = (lookup L)(p := None)" "lm_rest ?B = lm_rest ?A"
    "bytes c ?B = bytes c L - (if ?b = c then ?n else 0)" for c
    using bury_spec [OF A, of i c] i by simp_all
  have t: "table_ok ?B" using B(1) by (simp add: table_ok_def)
  have fresh: "lookup ?B np = None" using np(2) B(2) by auto
  from put_spec [OF t np(1) fresh, of n ?b] obtain M where M: "baga_lm_put ?B np n ?b = Some M" "counts_ok M"
    "lookup M = (lookup ?B)(np \<mapsto> (n, ?b))" "lm_rest M = lm_rest ?B" by blast
  have byt: "bytes c M = bytes c ?B + (if ?b = c then int n else 0)" for c
    using put_spec [OF t np(1) fresh, of n ?b c] M(1) by auto
  let ?L' = "baga_lm_log_replace M p np"
  have v: "lm_v M = lm_v L" using lm_rest_simps [OF M(4)] lm_rest_simps [OF B(3)] by (simp add: lm_account_def)
  have "lookup L p \<noteq> None"
    using tab_map_nth [of "lm_tab L" "lm_cap L" i] i by (auto simp: lookup_def counts_ok_def)
  then have pv: "p \<in> set (lm_v L)" using ok by (auto simp: log_ok_def)
  have "dom (lookup ?L') \<subseteq> set (lm_v ?L')"
  proof
    fix q assume "q \<in> dom (lookup ?L')"
    then have "q = np \<or> q \<noteq> p \<and> q \<in> dom (lookup L)"
      using M(3) B(2) by (auto simp: baga_lm_log_replace_def split: if_splits)
    then show "q \<in> set (lm_v ?L')"
      using pv ok v replace_first_set(1) [of q "rev (lm_v L)" p np] replace_first_set(2) [of p "rev (lm_v L)" np]
      by (auto simp: baga_lm_log_replace_def log_ok_def)
  qed
  moreover have "\<forall>q \<in> set (lm_v ?L'). block q"
    using ok v np(1) replace_first_set(3) [of p np "rev (lm_v L)"]
    by (auto simp: baga_lm_log_replace_def log_ok_def)
  ultimately have "log_ok ?L'"
    using ok M(2) byt B(4) lm_rest_simps [OF M(4)] lm_rest_simps [OF B(3)]
    by (cases ?b) (auto simp: log_ok_def lm_account_def table_ok_def baga_lm_log_replace_def)
  then show ?thesis using M B(2) by (simp add: lm_move_def Let_def baga_lm_log_replace_def)
qed

section \<open>The rewind\<close>

definition kept :: "LmLog \<Rightarrow> bool \<Rightarrow> addr \<Rightarrow> bool" where
  "kept L b p \<longleftrightarrow> (\<exists>n. lookup L p = Some (n, b))"

lemma rewind_spec:
  "table_ok L \<Longrightarrow> i \<le> length (lm_v L) \<Longrightarrow> k \<le> i \<Longrightarrow> \<forall>p \<in> set (lm_v L). block p \<Longrightarrow>
   \<exists>k' L' fs. lm_rewind_loop [i..<length (lm_v L)] k L freed = Some (k', L', freed @ fs) \<and>
     table_ok L' \<and> take k' (lm_v L') = take k (lm_v L) @ filter (kept L True) (drop i (lm_v L)) \<and>
     distinct fs \<and> set fs = {p \<in> set (drop i (lm_v L)). kept L False p} \<and>
     lookup L' = (\<lambda>p. if p \<in> set fs then None else lookup L p) \<and>
     lm_live L' - bytes False L' = lm_live L - bytes False L \<and> bytes True L' = bytes True L \<and>
     lm_live L' \<le> lm_live L \<and> lm_peak L' = lm_peak L \<and> lm_live_p L' = lm_live_p L"
proof (induction "length (lm_v L) - i" arbitrary: i k L freed)
  case 0
  then show ?case by (intro exI [of _ k] exI [of _ L] exI [of _ "[]"]) simp
next
  case (Suc d)
  let ?n = "length (lm_v L)" let ?p = "lm_v L ! i"
  have i: "i < ?n" "d = ?n - Suc i" using Suc.hyps(2) by simp_all
  have idx: "[i..<?n] = i # [Suc i..<?n]" using i(1) by (rule upt_conv_Cons)
  have dr: "drop i (lm_v L) = ?p # drop (Suc i) (lm_v L)" using i(1) by (simp add: Cons_nth_drop_Suc)
  have p: "block ?p" using Suc.prems(4) i(1) by simp
  from find_spec [OF Suc.prems(1) p] obtain r where r: "baga_lm_find L ?p = Some r"
    "case r of None \<Rightarrow> lookup L ?p = None
     | Some j \<Rightarrow> j < lm_cap L \<and> key (lm_tab L) j = ?p \<and> counts_ok L \<and>
         lookup L ?p = Some (e_n (lm_tab L ! j), e_persist (lm_tab L ! j))" by blast
  show ?case
  proof (cases r)
    case None
    then have k: "\<not> kept L b ?p" for b using r(2) by (simp add: kept_def)
    have run: "lm_rewind_loop [i..<?n] k L freed = lm_rewind_loop [Suc i..<?n] k L freed"
      using r(1) None by (simp add: idx)
    have lm_rest: "filter (kept L True) (drop i (lm_v L)) = filter (kept L True) (drop (Suc i) (lm_v L))"
      "{p \<in> set (drop i (lm_v L)). kept L False p} = {p \<in> set (drop (Suc i) (lm_v L)). kept L False p}"
      using k by (auto simp: dr)
    show ?thesis
      unfolding run lm_rest by (rule Suc.hyps(1) [OF i(2) Suc.prems(1) _ _ Suc.prems(4)]) (use i(1) Suc.prems(3) in simp_all)
  next
    case (Some j)
    let ?e = "lm_tab L ! j"
    have j: "j < lm_cap L" "key (lm_tab L) j = ?p" "counts_ok L" "lookup L ?p = Some (e_n ?e, e_persist ?e)"
      using r(2) Some by auto
    show ?thesis
    proof (cases "e_persist ?e")
      case True
      let ?M = "L\<lparr>lm_v := (lm_v L)[k := ?p]\<rparr>"
      have k: "kept L True ?p" "\<not> kept L False ?p" using j(4) True by (auto simp: kept_def)
      have run: "lm_rewind_loop [i..<?n] k L freed = lm_rewind_loop [Suc i..<length (lm_v ?M)] (Suc k) ?M freed"
        using r(1) Some True by (simp add: idx Let_def)
      have tk: "take (Suc k) (lm_v ?M) = take k (lm_v L) @ [?p]" and dM: "drop (Suc i) (lm_v ?M) = drop (Suc i) (lm_v L)"
        using Suc.prems(3) i(1) by (simp_all add: take_Suc_conv_app_nth)
      have "\<forall>p \<in> set (lm_v ?M). block p"
        using Suc.prems(4) p set_update_subset_insert [of "lm_v L" k ?p] by auto
      moreover have kM: "kept ?M b = kept L b" for b by (simp add: kept_def fun_eq_iff)
      moreover have "table_ok ?M" using Suc.prems(1) by simp
      moreover have "d = length (lm_v ?M) - Suc i" "Suc i \<le> length (lm_v ?M)" "Suc k \<le> Suc i"
        using i Suc.prems(3) by simp_all
      ultimately obtain k' L' fs where IH: "lm_rewind_loop [Suc i..<length (lm_v ?M)] (Suc k) ?M freed = Some (k', L', freed @ fs)"
        "table_ok L'" "take k' (lm_v L') = take (Suc k) (lm_v ?M) @ filter (kept ?M True) (drop (Suc i) (lm_v ?M))"
        "distinct fs" "set fs = {p \<in> set (drop (Suc i) (lm_v ?M)). kept ?M False p}"
        "lookup L' = (\<lambda>p. if p \<in> set fs then None else lookup ?M p)"
        "lm_live L' - bytes False L' = lm_live ?M - bytes False ?M" "bytes True L' = bytes True ?M"
        "lm_live L' \<le> lm_live ?M" "lm_peak L' = lm_peak ?M" "lm_live_p L' = lm_live_p ?M"
        using Suc.hyps(1) [of ?M "Suc i" "Suc k" freed] by blast
      have "filter (kept L True) (drop i (lm_v L)) = ?p # filter (kept L True) (drop (Suc i) (lm_v L))"
        "{p \<in> set (drop i (lm_v L)). kept L False p} = {p \<in> set (drop (Suc i) (lm_v L)). kept L False p}"
        using k by (auto simp: dr)
      then show ?thesis
        using run IH(1,2,4,7-11) IH(3) [unfolded tk dM kM] IH(5) [unfolded dM kM] IH(6) [unfolded lookup_other]
        by (intro exI [of _ k'] exI [of _ L'] exI [of _ fs]) simp
    next
      case False
      let ?A = "L\<lparr>lm_live := lm_live L - int (e_n ?e)\<rparr>" let ?M = "lm_bury j ?A"
      have A: "counts_ok ?A" using j(3) by simp
      have M: "counts_ok ?M" "lookup ?M = (lookup L)(?p := None)" "lm_rest ?M = lm_rest ?A"
        "bytes c ?M = bytes c L - (if e_persist ?e = c then int (e_n ?e) else 0)" for c
        using bury_spec [OF A, of j c] j p by simp_all
      have v: "lm_v ?M = lm_v L" using lm_rest_simps [OF M(3)] by simp
      have k: "\<not> kept L True ?p" "kept L False ?p" using j(4) False by (auto simp: kept_def)
      have run: "lm_rewind_loop [i..<?n] k L freed = lm_rewind_loop [Suc i..<length (lm_v ?M)] k ?M (freed @ [?p])"
        using r(1) Some False v by (simp add: idx Let_def)
      have "table_ok ?M" using M(1) by (simp add: table_ok_def)
      from Suc.hyps(1) [of ?M "Suc i" k "freed @ [?p]", OF _ this] i Suc.prems(3,4) v
      obtain k' L' fs where IH: "lm_rewind_loop [Suc i..<length (lm_v ?M)] k ?M (freed @ [?p]) = Some (k', L', (freed @ [?p]) @ fs)"
        "table_ok L'" "take k' (lm_v L') = take k (lm_v L) @ filter (kept ?M True) (drop (Suc i) (lm_v L))"
        "distinct fs" "set fs = {p \<in> set (drop (Suc i) (lm_v L)). kept ?M False p}"
        "lookup L' = (\<lambda>p. if p \<in> set fs then None else lookup ?M p)"
        "lm_live L' - bytes False L' = lm_live ?M - bytes False ?M" "bytes True L' = bytes True ?M"
        "lm_live L' \<le> lm_live ?M" "lm_peak L' = lm_peak ?M" "lm_live_p L' = lm_live_p ?M" by auto
      have kM: "kept ?M b q \<longleftrightarrow> q \<noteq> ?p \<and> kept L b q" for b q by (simp add: kept_def M(2))
      have "filter (kept ?M True) (drop (Suc i) (lm_v L)) = filter (kept L True) (drop i (lm_v L))"
        using k by (auto simp: dr kM intro!: filter_cong)
      moreover have "set (?p # fs) = {p \<in> set (drop i (lm_v L)). kept L False p}"
        using IH(5) k(2) by (auto simp: dr kM)
      moreover have "distinct (?p # fs)" using IH(4,5) by (auto simp: kM)
      moreover have "lookup L' = (\<lambda>p. if p \<in> set (?p # fs) then None else lookup L p)"
        using IH(6) by (auto simp: M(2) fun_eq_iff)
      ultimately show ?thesis
        using run IH(1-3,7-11) M(4) [of True] M(4) [of False] lm_rest_simps [OF M(3)] False
        by (intro exI [of _ k'] exI [of _ L'] exI [of _ "?p # fs"]) simp
    qed
  qed
qed

end
