(* ===== verification/ParLogWorld.thy ===== *)
theory ParLogWorld
  imports ParLogOps
begin

text \<open>
  The logs of all threads together: every block has one owner, and allocation,
  reallocation and release act on one map from blocks to sizes, whichever
  thread calls them.
\<close>

declare not_None_eq [simp del]

definition world_look :: "World \<Rightarrow> addr \<Rightarrow> (nat \<times> bool) option" where
  "world_look w p = (case find (\<lambda>L. lookup L p \<noteq> None) (w_logs w) of Some L \<Rightarrow> lookup L p | None \<Rightarrow> None)"

definition world_ok :: "World \<Rightarrow> bool" where
  "world_ok w \<longleftrightarrow>
     (\<forall>k < length (w_logs w). log_ok (w_logs w ! k)) \<and>
     (\<forall>k < length (w_logs w). \<forall>j < length (w_logs w). \<forall>p.
        lookup (w_logs w ! k) p \<noteq> None \<longrightarrow> lookup (w_logs w ! j) p \<noteq> None \<longrightarrow> k = j) \<and>
     (\<forall>k. w_tl w = Some k \<longrightarrow> k < length (w_logs w))"

lemma world_look_Some:
  assumes "world_ok w" "k < length (w_logs w)" "lookup (w_logs w ! k) p = Some x"
  shows "world_look w p = Some x"
proof -
  have "w_logs w ! k \<in> set (w_logs w)" using assms(2) by simp
  then have "find (\<lambda>L. lookup L p \<noteq> None) (w_logs w) \<noteq> None" using assms(3) unfolding find_None_iff by auto
  then obtain L where L: "find (\<lambda>L. lookup L p \<noteq> None) (w_logs w) = Some L" by blast
  then obtain j where "j < length (w_logs w)" "L = w_logs w ! j" "lookup (w_logs w ! j) p \<noteq> None"
    by (auto simp: find_Some_iff)
  moreover have "lookup (w_logs w ! k) p \<noteq> None" using assms(3) by simp
  ultimately have "L = w_logs w ! k" using assms(1,2) unfolding world_ok_def by blast
  with L assms(3) show ?thesis by (simp add: world_look_def)
qed

lemma world_look_None:
  "world_look w p = None \<longleftrightarrow> (\<forall>k < length (w_logs w). lookup (w_logs w ! k) p = None)"
proof -
  have "world_look w p = None \<longleftrightarrow> find (\<lambda>L. lookup L p \<noteq> None) (w_logs w) = None"
  proof (cases "find (\<lambda>L. lookup L p \<noteq> None) (w_logs w)")
    case (Some L)
    then have "lookup L p \<noteq> None" unfolding find_Some_iff by blast
    with Some show ?thesis by (simp add: world_look_def)
  qed (simp add: world_look_def)
  also have "\<dots> \<longleftrightarrow> (\<forall>L \<in> set (w_logs w). lookup L p = None)" by (auto simp: find_None_iff)
  finally show ?thesis by (simp add: all_set_conv_all_nth)
qed

lemma world_look_iff:
  "world_ok w \<Longrightarrow> world_look w p = Some x \<longleftrightarrow> (\<exists>k < length (w_logs w). lookup (w_logs w ! k) p = Some x)"
  by (metis not_Some_eq option.inject world_look_None world_look_Some)

lemma world_look_eqI:
  assumes "world_ok w" "\<And>k p x. k < length (w_logs w) \<Longrightarrow> lookup (w_logs w ! k) p = Some x \<Longrightarrow> m p = Some x"
    "\<And>p. (\<forall>k < length (w_logs w). lookup (w_logs w ! k) p = None) \<Longrightarrow> m p = None"
  shows "world_look w = m"
proof
  fix p
  show "world_look w p = m p"
    using assms world_look_iff [OF assms(1), of p] world_look_None [of w p] by (cases "world_look w p") auto
qed

text \<open>Replacing one log.\<close>

lemma world_upd:
  assumes w: "world_ok w" and k: "k < length (w_logs w)" and L: "log_ok L'"
    and new: "\<And>q. lookup L' q \<noteq> None \<Longrightarrow> lookup (w_logs w ! k) q = None \<Longrightarrow> world_look w q = None"
  shows "world_ok (log_upd k L' w) \<and>
    world_look (log_upd k L' w) =
      (\<lambda>q. if lookup (w_logs w ! k) q \<noteq> None \<or> lookup L' q \<noteq> None then lookup L' q else world_look w q)"
proof
  let ?w = "log_upd k L' w" let ?L = "w_logs w ! k"
  have nth: "w_logs ?w ! j = (if j = k then L' else w_logs w ! j)" "length (w_logs ?w) = length (w_logs w)" for j
    using k by (simp_all add: log_upd_def nth_list_update)
  have other: "lookup (w_logs w ! j) q = None" if "j \<noteq> k" "j < length (w_logs w)" "lookup L' q \<noteq> None" for j q
  proof (cases "lookup ?L q")
    case None
    with new [OF that(3)] that(2) show ?thesis by (simp add: world_look_None)
  next
    case (Some x)
    then have "lookup ?L q \<noteq> None" by simp
    with w k that show ?thesis unfolding world_ok_def by blast
  qed
  show ok: "world_ok ?w"
    unfolding world_ok_def
  proof (intro conjI allI impI)
    show "log_ok (w_logs ?w ! j)" if "j < length (w_logs ?w)" for j
      using that w L by (simp add: nth world_ok_def)
    show "j < length (w_logs ?w)" if "w_tl ?w = Some j" for j
      using that w nth(2) by (simp add: world_ok_def log_upd_def)
    show "i = j" if "i < length (w_logs ?w)" "j < length (w_logs ?w)" "lookup (w_logs ?w ! i) p \<noteq> None"
      "lookup (w_logs ?w ! j) p \<noteq> None" for i j p
    proof (cases "i = k \<or> j = k")
      case True
      then show ?thesis using that other [of i p] other [of j p] nth by (cases "i = k"; cases "j = k") auto
    next
      case False
      then show ?thesis using that w unfolding nth world_ok_def by auto
    qed
  qed
  show "world_look ?w =
      (\<lambda>q. if lookup ?L q \<noteq> None \<or> lookup L' q \<noteq> None then lookup L' q else world_look w q)"
  proof (rule world_look_eqI [OF ok])
    fix j p x assume j: "j < length (w_logs ?w)" "lookup (w_logs ?w ! j) p = Some x"
    show "(if lookup ?L p \<noteq> None \<or> lookup L' p \<noteq> None then lookup L' p else world_look w p) = Some x"
    proof (cases "j = k")
      case True
      then show ?thesis using j(2) nth by simp
    next
      case False
      then have x: "lookup (w_logs w ! j) p = Some x" "j < length (w_logs w)" using j nth by simp_all
      have "lookup L' p = None" using other [OF False x(2), of p] x(1) by (cases "lookup L' p") simp_all
      moreover have "lookup ?L p = None"
        using w k False x unfolding world_ok_def by (metis option.distinct(1))
      ultimately show ?thesis using world_look_Some [OF w x(2,1)] by simp
    qed
  next
    fix p assume none: "\<forall>j < length (w_logs ?w). lookup (w_logs ?w ! j) p = None"
    then have "lookup L' p = None" using k nth by (metis (full_types))
    moreover have "world_look w p = None" if "lookup ?L p = None"
      unfolding world_look_None
    proof (intro allI impI)
      fix j assume "j < length (w_logs w)"
      then show "lookup (w_logs w ! j) p = None" using none that nth by (cases "j = k") auto
    qed
    ultimately show "(if lookup ?L p \<noteq> None \<or> lookup L' p \<noteq> None then lookup L' p else world_look w p) = None"
      by auto
  qed
qed

lemma get_spec:
  assumes "world_ok w" "baga_lm_get w = (w', k)"
  shows "world_ok w' \<and> k < length (w_logs w') \<and> world_look w' = world_look w \<and> w_tl w' = Some k \<and>
    w_depth w' = w_depth w \<and> w_freed w' = w_freed w"
proof (cases "w_tl w")
  case (Some j)
  then show ?thesis using assms by (auto simp: baga_lm_get_def world_ok_def)
next
  case None
  then have w': "w' = w\<lparr>w_logs := w_logs w @ [new_log], w_tl := Some (length (w_logs w))\<rparr>" "k = length (w_logs w)"
    using assms(2) by (auto simp: baga_lm_get_def)
  have ok: "world_ok w'"
    using assms(1) new_log_ok unfolding w' world_ok_def by (auto simp: nth_append less_Suc_eq)
  have "world_look w' = world_look w"
  proof (rule world_look_eqI [OF ok])
    fix j p x assume "j < length (w_logs w')" "lookup (w_logs w' ! j) p = Some x"
    then show "world_look w p = Some x"
      using new_log_ok(2) world_look_Some [OF assms(1), of j p x] by (auto simp: w' nth_append split: if_splits)
  next
    fix p assume "\<forall>j < length (w_logs w'). lookup (w_logs w' ! j) p = None"
    then have "lookup (w_logs w ! k) p = None" if "k < length (w_logs w)" for k
      using that by (auto simp: w' nth_append dest: spec [of _ k])
    then show "world_look w p = None" by (simp add: world_look_None)
  qed
  with ok show ?thesis by (simp add: w')
qed

lemma malloc_spec:
  assumes w: "world_ok w" and p: "block p" "world_look w p = None"
  shows "\<exists>w'. baga_lm_malloc n p w = Some w' \<and> world_ok w' \<and>
    world_look w' = (world_look w)(p \<mapsto> (lm_size n, 0 < w_depth w))"
proof -
  obtain v k where g: "baga_lm_get w = (v, k)" by (cases "baga_lm_get w")
  note gs = get_spec [OF w g]
  have ok: "log_ok (w_logs v ! k)" using gs by (simp add: world_ok_def)
  have "world_look v p = None" "k < length (w_logs v)" using gs p by simp_all
  then have none: "lookup (w_logs v ! k) p = None" using world_look_None [of v p] by blast
  from record_spec [OF ok p(1) none, of "lm_size n" "0 < w_depth v"] obtain L' where L':
    "lm_record (w_logs v ! k) p (lm_size n) (0 < w_depth v) = Some L'" "log_ok L'"
    "lookup L' = (lookup (w_logs v ! k))(p \<mapsto> (lm_size n, 0 < w_depth v))" by blast
  have new: "world_look v q = None" if "lookup L' q \<noteq> None" "lookup (w_logs v ! k) q = None" for q
    using that L'(3) p(2) gs by (auto split: if_splits)
  from world_upd [OF _ _ L'(2) new] gs L'(3) p(2) world_look_Some [of v k]
  have "world_ok (log_upd k L' v) \<and> world_look (log_upd k L' v) = (world_look w)(p \<mapsto> (lm_size n, 0 < w_depth w))"
    by (fastforce simp: fun_eq_iff)
  then show ?thesis using g L'(1) by (simp add: baga_lm_malloc_def Let_def)
qed

lemma search_spec:
  assumes w: "world_ok w" and p: "block p" and own: "lookup (w_logs w ! own) p = None"
  shows "\<forall>k \<in> set ks. k < length (w_logs w) \<Longrightarrow> \<exists>r. lm_search (w_logs w) own p ks = Some r \<and>
    (case r of
       None \<Rightarrow> \<forall>k \<in> set ks. lookup (w_logs w ! k) p = None
     | Some (k, i) \<Rightarrow> k < length (w_logs w) \<and> i < lm_cap (w_logs w ! k) \<and> key (lm_tab (w_logs w ! k)) i = p \<and>
         counts_ok (w_logs w ! k) \<and>
         lookup (w_logs w ! k) p = Some (e_n (lm_tab (w_logs w ! k) ! i), e_persist (lm_tab (w_logs w ! k) ! i)))"
proof (induction ks)
  case (Cons k ks)
  then have k: "k < length (w_logs w)" by simp
  then have t: "table_ok (w_logs w ! k)" using w by (simp add: world_ok_def log_ok_def)
  from find_spec [OF t p] obtain r where "baga_lm_find (w_logs w ! k) p = Some r"
    "case r of None \<Rightarrow> lookup (w_logs w ! k) p = None
     | Some i \<Rightarrow> i < lm_cap (w_logs w ! k) \<and> key (lm_tab (w_logs w ! k)) i = p \<and> counts_ok (w_logs w ! k) \<and>
         lookup (w_logs w ! k) p = Some (e_n (lm_tab (w_logs w ! k) ! i), e_persist (lm_tab (w_logs w ! k) ! i))"
    by blast
  note r = this
  show ?case
  proof (cases "k = own")
    case True
    from Cons obtain q where "lm_search (w_logs w) own p ks = Some q"
      "case q of
         None \<Rightarrow> \<forall>k \<in> set ks. lookup (w_logs w ! k) p = None
       | Some (k, i) \<Rightarrow> k < length (w_logs w) \<and> i < lm_cap (w_logs w ! k) \<and> key (lm_tab (w_logs w ! k)) i = p \<and>
           counts_ok (w_logs w ! k) \<and>
           lookup (w_logs w ! k) p = Some (e_n (lm_tab (w_logs w ! k) ! i), e_persist (lm_tab (w_logs w ! k) ! i))"
      by auto
    then show ?thesis using own True by (intro exI [of _ q]) (simp split: option.splits prod.splits)
  next
    case False
    note ne = False
    show ?thesis
    proof (cases r)
      case None
      then have s: "lm_search (w_logs w) own p (k # ks) = lm_search (w_logs w) own p ks"
        using r(1) ne by simp
      from Cons obtain q where "lm_search (w_logs w) own p ks = Some q"
        "case q of
           None \<Rightarrow> \<forall>k \<in> set ks. lookup (w_logs w ! k) p = None
         | Some (k, i) \<Rightarrow> k < length (w_logs w) \<and> i < lm_cap (w_logs w ! k) \<and> key (lm_tab (w_logs w ! k)) i = p \<and>
             counts_ok (w_logs w ! k) \<and>
             lookup (w_logs w ! k) p = Some (e_n (lm_tab (w_logs w ! k) ! i), e_persist (lm_tab (w_logs w ! k) ! i))"
        by auto
      then show ?thesis unfolding s using r(2) None by (intro exI [of _ q]) (simp split: option.splits prod.splits)
    next
      case (Some i)
      then show ?thesis using r ne k by simp
    qed
  qed
qed simp

lemma locate_spec:
  assumes w: "world_ok w" and p: "block p" and k: "k < length (w_logs w)"
  shows "\<exists>r. lm_locate w k p = Some r \<and>
    (case r of
       None \<Rightarrow> world_look w p = None
     | Some (j, i) \<Rightarrow> j < length (w_logs w) \<and> i < lm_cap (w_logs w ! j) \<and> key (lm_tab (w_logs w ! j)) i = p \<and>
         counts_ok (w_logs w ! j) \<and>
         lookup (w_logs w ! j) p = Some (e_n (lm_tab (w_logs w ! j) ! i), e_persist (lm_tab (w_logs w ! j) ! i)))"
proof -
  have t: "table_ok (w_logs w ! k)" using w k by (simp add: world_ok_def log_ok_def)
  from find_spec [OF t p] obtain r where r: "baga_lm_find (w_logs w ! k) p = Some r"
    "case r of None \<Rightarrow> lookup (w_logs w ! k) p = None
     | Some i \<Rightarrow> i < lm_cap (w_logs w ! k) \<and> key (lm_tab (w_logs w ! k)) i = p \<and> counts_ok (w_logs w ! k) \<and>
         lookup (w_logs w ! k) p = Some (e_n (lm_tab (w_logs w ! k) ! i), e_persist (lm_tab (w_logs w ! k) ! i))"
    by blast
  show ?thesis
  proof (cases r)
    case None
    then have "lookup (w_logs w ! k) p = None" using r(2) by simp
    from search_spec [OF w p this, of "rev [0..<length (w_logs w)]"] None r(1) show ?thesis
      by (fastforce simp: lm_locate_def world_look_None split: option.splits)
  qed (use r k in \<open>simp add: lm_locate_def\<close>)
qed

lemma free_spec:
  assumes w: "world_ok w" and p: "block p"
  shows "\<exists>w'. baga_lm_free p w = Some w' \<and> world_ok w' \<and> world_look w' = (world_look w)(p := None) \<and>
    w_freed w' = w_freed w @ [p]"
proof -
  obtain v k where g: "baga_lm_get w = (v, k)" by (cases "baga_lm_get w")
  note gs = get_spec [OF w g]
  have nz: "p \<noteq> 0" using p by auto
  have frz: "world_ok (u\<lparr>w_freed := fs\<rparr>) = world_ok u" "world_look (u\<lparr>w_freed := fs\<rparr>) = world_look u" for u fs
    by (simp_all add: world_ok_def world_look_def fun_eq_iff)
  from locate_spec [OF _ p, of v k] gs obtain r where r: "lm_locate v k p = Some r"
    "case r of
       None \<Rightarrow> world_look v p = None
     | Some (j, i) \<Rightarrow> j < length (w_logs v) \<and> i < lm_cap (w_logs v ! j) \<and> key (lm_tab (w_logs v ! j)) i = p \<and>
         counts_ok (w_logs v ! j) \<and>
         lookup (w_logs v ! j) p = Some (e_n (lm_tab (w_logs v ! j) ! i), e_persist (lm_tab (w_logs v ! j) ! i))"
    by blast
  show ?thesis
  proof (cases r)
    case None
    then show ?thesis using r gs g nz frz by (simp add: baga_lm_free_def fun_upd_idem)
  next
    case (Some q)
    obtain j i where q: "q = (j, i)" by (cases q)
    then have j: "j < length (w_logs v)" "i < lm_cap (w_logs v ! j)" "key (lm_tab (w_logs v ! j)) i = p"
      "counts_ok (w_logs v ! j)" "lookup (w_logs v ! j) p \<noteq> None" using r(2) Some by auto
    have ok: "log_ok (w_logs v ! j)" using gs j(1) by (simp add: world_ok_def)
    note d = drop_spec [OF ok j(2,3) p j(4)]
    have "world_ok (log_upd j (lm_drop (w_logs v ! j) i) v) \<and>
      world_look (log_upd j (lm_drop (w_logs v ! j) i) v) = (world_look v)(p := None)"
      using world_upd [of v j "lm_drop (w_logs v ! j) i"] gs j(1,5) d world_look_Some [of v j]
      by (fastforce simp: fun_eq_iff split: if_splits)
    then show ?thesis using r(1) gs g nz frz Some q by (simp add: baga_lm_free_def log_upd_def)
  qed
qed

lemma realloc_spec:
  assumes w: "world_ok w" and p: "block p" and np: "block np" "np = p \<or> world_look w np = None"
  shows "\<exists>w'. baga_lm_realloc p n np w = Some w' \<and> world_ok w' \<and>
    world_look w' =
      (case world_look w p of
         None \<Rightarrow> world_look w
       | Some (m, b) \<Rightarrow> (world_look w)(p := None, np \<mapsto> (lm_size n, b)))"
proof -
  obtain v k where g: "baga_lm_get w = (v, k)" by (cases "baga_lm_get w")
  note gs = get_spec [OF w g]
  from locate_spec [OF _ p, of v k] gs obtain r where r: "lm_locate v k p = Some r"
    "case r of
       None \<Rightarrow> world_look v p = None
     | Some (j, i) \<Rightarrow> j < length (w_logs v) \<and> i < lm_cap (w_logs v ! j) \<and> key (lm_tab (w_logs v ! j)) i = p \<and>
         counts_ok (w_logs v ! j) \<and>
         lookup (w_logs v ! j) p = Some (e_n (lm_tab (w_logs v ! j) ! i), e_persist (lm_tab (w_logs v ! j) ! i))"
    by blast
  show ?thesis
  proof (cases r)
    case None
    then show ?thesis using r gs g by (simp add: baga_lm_realloc_def)
  next
    case (Some q)
    obtain j i where q: "q = (j, i)" by (cases q)
    let ?L = "w_logs v ! j" let ?b = "e_persist (lm_tab (w_logs v ! j) ! i)"
    from q r(2) Some have j: "j < length (w_logs v)" "i < lm_cap ?L" "key (lm_tab ?L) i = p" "counts_ok ?L"
      "lookup ?L p = Some (e_n (lm_tab ?L ! i), ?b)" by auto
    have ok: "log_ok ?L" using gs j(1) by (simp add: world_ok_def)
    have fresh: "np = p \<or> lookup ?L np = None" using np(2) gs j(1) world_look_None [of v np] by auto
    from move_spec [OF ok j(2,3) p j(4) np(1) fresh, of "lm_size n"] obtain L' where L':
      "lm_move ?L i p np (lm_size n) = Some L'" "log_ok L'"
      "lookup L' = (lookup ?L)(p := None, np \<mapsto> (lm_size n, ?b))" by blast
    have wp: "world_look w p = Some (e_n (lm_tab ?L ! i), ?b)"
      using world_look_Some [OF _ j(1,5)] gs by simp
    have "world_ok (log_upd j L' v) \<and>
        world_look (log_upd j L' v) = (world_look v)(p := None, np \<mapsto> (lm_size n, ?b))"
    proof -
      have new: "world_look v q = None" if "lookup L' q \<noteq> None" "lookup ?L q = None" for q
        using that L'(3) np(2) j(5) gs by (auto split: if_splits)
      have eq: "lookup ?L q = world_look v q" if "lookup ?L q \<noteq> None" for q
        using that world_look_Some [of v j q] gs j(1) by auto
      have m: "(\<lambda>q. if lookup ?L q \<noteq> None \<or> lookup L' q \<noteq> None then lookup L' q else world_look v q) =
          (world_look v)(p := None, np \<mapsto> (lm_size n, ?b))"
      proof
        fix q
        show "(if lookup ?L q \<noteq> None \<or> lookup L' q \<noteq> None then lookup L' q else world_look v q) =
          ((world_look v)(p := None, np \<mapsto> (lm_size n, ?b))) q"
        proof (cases "lookup ?L q = None")
          case True
          then have "q \<noteq> p" using j(5) by auto
          with True show ?thesis by (simp add: L'(3))
        next
          case False
          then show ?thesis using eq [OF False] by (simp add: L'(3))
        qed
      qed
      have "world_ok v" using gs by blast
      from world_upd [OF this j(1) L'(2) new] show ?thesis unfolding m .
    qed
    then show ?thesis using r(1) gs g L'(1) Some q wp by (simp add: baga_lm_realloc_def Let_def)
  qed
qed

declare not_None_eq [simp]

end
