(* ===== verification/ParProps.thy ===== *)
theory ParProps
  imports ParPoolRun ParJoin ParLogWorld
begin

text \<open>
  The properties of the concurrency runtime: channels, join handles, the worker
  pool and the allocation log.
\<close>

section \<open>Channels\<close>

text \<open>
  C33. Every channel call refines the bounded queue with a closed flag: sending
  waits only on a full open channel, receiving only on an empty open one, the
  status of a pair distinguishes a value, an empty and a closed channel, and no
  other channel or pair is changed.
\<close>

theorem channel_refines_queue:
  assumes "rt_ok s" "chan_at s ch = Some c"
  shows "seen ch (baga_chan_send s ch v) = aq_send (abs_chan c) v \<and>
    seen ch (baga_chan_recv s ch) = aq_take (\<lambda>v. v) Wait 0 (abs_chan c) \<and>
    seen_pair ch (baga_chan_recv2 s ch) = aq_take (Pair 1) Wait (0, 0) (abs_chan c) \<and>
    seen_pair ch (baga_chan_try_recv s ch) = aq_take (Pair 1) (Ret (0, 0)) (2, 0) (abs_chan c) \<and>
    seen_pair ch (baga_chan_recv_timeout x s ch) =
      aq_take (Pair 1) (if x then Ret (0, 0) else Wait) (2, 0) (abs_chan c) \<and>
    seen ch (baga_chan_close s ch) = Ret ((abs_chan c)\<lparr>aq_closed := True\<rparr>, 0) \<and>
    (\<forall>s' r. Ret (s', r) \<in> {baga_chan_send s ch v, baga_chan_recv s ch, baga_chan_recv2 s ch,
        baga_chan_try_recv s ch, baga_chan_recv_timeout x s ch, baga_chan_close s ch} \<longrightarrow>
      touches ch s s' \<and> rt_ok s')"
proof -
  note ok = rt_ok_chan [OF assms]
  have t: "touches ch s s' \<and> rt_ok s'"
    if "Ret (s', r) \<in> {baga_chan_send s ch v, baga_chan_recv s ch, baga_chan_recv2 s ch,
        baga_chan_try_recv s ch, baga_chan_recv_timeout x s ch, baga_chan_close s ch}" for s' r
  proof -
    have "touches ch s s'" using that calls_touch [where s = s and ch = ch and s' = s'] by (elim insertE) (metis, metis, metis, metis, metis, metis, simp)
    with assms(1) touches_rt_ok show ?thesis by blast
  qed
  show ?thesis
    using seen_send [OF assms(2) ok] seen_takes [OF assms(2) ok] seen_close [OF assms(2)] t by blast
qed

definition ex_rt :: rt where
  "ex_rt = \<lparr>rt_cells = [], rt_chans = [chan_put (new_chan (\<lambda>_. 0) 2) 7]\<rparr>"

theorem channel_refines_queue_witness:
  "seen_pair 1 (baga_chan_recv2 ex_rt 1) = Ret (\<lparr>aq_items = [], aq_cap = 2, aq_closed = False\<rparr>, 1, 7)"
proof -
  have "rt_ok ex_rt" "chan_at ex_rt 1 = Some (chan_put (new_chan (\<lambda>_. 0) 2) 7)"
    using chan_put_items [of "new_chan (\<lambda>_. 0) 2" 7] by (simp_all add: ex_rt_def rt_ok_def chan_at_def)
      (simp add: new_chan_def Let_def)
  note q = channel_refines_queue [OF this, of 0 False]
  have "abs_chan (chan_put (new_chan (\<lambda>_. 0) 2) 7) = \<lparr>aq_items = [7], aq_cap = 2, aq_closed = False\<rparr>"
    by (simp add: abs_chan_def chan_put_def new_chan_def chan_items_def Let_def)
  with q show ?thesis by (simp add: aq_take_def)
qed

text \<open>
  First in, first out: over any history of attempts to send and to receive
  on a new channel, what was accepted is what came out followed by what is
  still buffered, in this order.
\<close>

lemma channel_fifo:
  "case history chan_put chan_front chan_drop chan_room chan_some es (new_chan junk n) of
     (acc, got, c) \<Rightarrow> chan_ok c \<and> acc = got @ chan_items c"
  using ring.history_order [OF new_chan_ok(1), of junk n es] by (simp add: split_beta)

section \<open>Join handles\<close>

text \<open>
  C34. A handle that is joined: in every interleaving with its thread the block
  is never touched after it was freed, the join returns the thread's result
  with the block freed once, and until it returns some step is possible.
\<close>

theorem join_frees_once:
  assumes "(jh_step f arg JOIN)\<^sup>*\<^sup>* baga_go h"
  shows "\<not> jh_bad h \<and> jh_frees h \<le> 1 \<and>
    (\<forall>r. jh_p h = P_RET r \<longrightarrow> r = f arg \<and> jh_frees h = 1) \<and>
    ((\<forall>r. jh_p h \<noteq> P_RET r) \<longrightarrow> (\<exists>h'. jh_step f arg JOIN h h'))"
  using join_inv_reach [OF assms] join_progress [of f arg h]
  by (auto simp: join_inv_def split: ppc.splits)

theorem join_frees_once_witness:
  "\<not> jh_bad baga_go \<and> (\<exists>h'. jh_step (\<lambda>x. x) 0 JOIN baga_go h')"
  using join_frees_once [OF rtranclp.rtrancl_refl, of "\<lambda>x. x" 0] by (simp add: baga_go_def)

text \<open>
  A handle that is detached is freed at most once, and exactly once when
  both sides are through; but when the thread ends between the parent's swap of
  the flag and its call of \<open>pthread_detach\<close>, the parent reads the freed block.
\<close>

theorem detach_reads_freed_block:
  "(\<forall>h. (jh_step f arg DETACH)\<^sup>*\<^sup>* baga_go h \<longrightarrow>
      jh_frees h \<le> 1 \<and> (jh_t h = T_END \<and> (\<exists>r. jh_p h = P_RET r) \<longrightarrow> jh_frees h = 1)) \<and>
   (\<exists>h. (jh_step f arg DETACH)\<^sup>*\<^sup>* baga_go h \<and> jh_bad h)"
proof
  have "jh_frees h \<le> 1 \<and> (jh_t h = T_END \<and> (\<exists>r. jh_p h = P_RET r) \<longrightarrow> jh_frees h = 1)" if "detach_inv h" for h
    using that by (cases "jh_p h") (auto simp: detach_inv_def split: if_splits)
  then show "\<forall>h. (jh_step f arg DETACH)\<^sup>*\<^sup>* baga_go h \<longrightarrow>
      jh_frees h \<le> 1 \<and> (jh_t h = T_END \<and> (\<exists>r. jh_p h = P_RET r) \<longrightarrow> jh_frees h = 1)"
    using detach_inv_reach by blast
  show "\<exists>h. (jh_step f arg DETACH)\<^sup>*\<^sup>* baga_go h \<and> jh_bad h"
    using detach_race_run(1,4,5) [of f arg] by (meson rtranclp.rtrancl_into_rtrancl)
qed

theorem detach_reads_freed_block_witness:
  "\<exists>h. (jh_step (\<lambda>x. x) 1 DETACH)\<^sup>*\<^sup>* baga_go h \<and> jh_bad h \<and> jh_frees h \<le> 1"
  using detach_reads_freed_block [of "\<lambda>x. x" 1] by blast

section \<open>The worker pool\<close>

lemma pool_nw_pos: "0 < v_len xs \<Longrightarrow> 0 < pool_nw xs nw"
  by (auto simp: pool_nw_def par_vec_len_def Let_def)

text \<open>
  C35. The pool computes the mapped vector: under every schedule of the workers
  and the parent, the vector returned is the input mapped by the function, and
  a state in which the parent has not returned is never stuck.
\<close>

theorem pool_map_correct:
  assumes "vec_ok xs" "pool_start junk xs = Some p" "(pool_step f xs (pool_nw xs nw))\<^sup>*\<^sup>* p q"
  shows "(pl_main q = M_RET \<longrightarrow> vec_list (pl_out q) = map f (vec_list xs)) \<and>
    (pl_main q \<noteq> M_RET \<longrightarrow> (\<exists>q'. pool_step f xs (pool_nw xs nw) q q'))"
proof -
  note inv = pool_inv_reach [OF assms(2,3)]
  have "0 < pool_nw xs nw" using pool_start_inv [OF assms(2), of f 0] by (intro pool_nw_pos) blast
  then show ?thesis using pool_result [OF inv assms(1)] pool_progress [OF inv] by blast
qed

definition ex_vec :: Vec where
  "ex_vec = par_vec_push (\<lambda>_. 0) (par_vec_push (\<lambda>_. 0) (par_vec_new (\<lambda>_. 0)) 3) 4"

lemma ex_vec_ok: "vec_ok ex_vec" "vec_list ex_vec = [3, 4]" "v_len ex_vec = 2"
proof -
  let ?v = "par_vec_new (\<lambda>_. 0)"
  note push = par_vec_push_ok [of ?v "\<lambda>_. 0" 3] par_vec_push_ok [of "par_vec_push (\<lambda>_. 0) ?v 3" "\<lambda>_. 0" 4]
  then show "vec_ok ex_vec" "vec_list ex_vec = [3, 4]" by (simp_all add: ex_vec_def)
  then show "v_len ex_vec = 2"
    by (simp add: ex_vec_def par_vec_push_def par_vec_grow_def par_vec_new_def Let_def)
qed

lemma ex_pool: "\<exists>p. pool_start (\<lambda>_. 0) ex_vec = Some p"
  by (simp add: pool_start_def par_vec_len_def ex_vec_ok Let_def split: prod.split)

theorem pool_map_correct_witness:
  "\<exists>p. pool_start (\<lambda>_. 0) ex_vec = Some p \<and>
     (pl_main p = M_RET \<or> (\<exists>q. pool_step (\<lambda>x. x * x) ex_vec (pool_nw ex_vec 4) p q))"
proof -
  obtain p where p: "pool_start (\<lambda>_. 0) ex_vec = Some p" using ex_pool by blast
  from pool_map_correct [OF ex_vec_ok(1) p rtranclp.rtrancl_refl, of "\<lambda>x. x * x" 4] p show ?thesis by blast
qed

text \<open>
  C36. The pool ends: no schedule has more than 6 n + 3 w + 5 steps, for n
  elements and w workers.
\<close>

theorem pool_map_ends:
  assumes "pool_start junk xs = Some p" "(pool_step f xs w ^^ k) p q"
  shows "k \<le> 6 * v_len xs + 3 * w + 5"
proof -
  from pool_start_inv [OF assms(1)] have inv: "pool_inv f xs w p" by blast
  have p: "pl_main p = M_GO 0" "pl_workers p = []" "queued (pl_rt p) c = 0" for c
    using assms(1) by (auto simp: pool_start_def Let_def baga_chan_new_def queued_def chan_at_def new_chan_def
        nth_Cons split: if_splits option.splits nat.splits)
  have "pool_weight (v_len xs) w p = 6 * v_len xs + 3 * w + 5" by (simp add: pool_weight_def p)
  with pool_run_bound [OF inv assms(2)] show ?thesis by linarith
qed

theorem pool_map_ends_witness:
  "\<exists>p q. pool_start (\<lambda>_. 0) ex_vec = Some p \<and> pool_step (\<lambda>x. x * x) ex_vec 1 p q \<and> 1 \<le> 6 * v_len ex_vec + 3 * 1 + 5"
proof -
  obtain p where p: "pool_start (\<lambda>_. 0) ex_vec = Some p" using ex_pool by blast
  then have "pl_main p = M_GO 0" by (auto simp: pool_start_def Let_def split: if_splits prod.splits)
  then have "baga_pool_map (v_len ex_vec) 1 p = Some (p\<lparr>pl_workers := pl_workers p @ [W_RECV], pl_main := M_GO 1\<rparr>)" by simp
  then obtain q where q: "pool_step (\<lambda>x. x * x) ex_vec 1 p q" using pool_step.parent by blast
  then have "(pool_step (\<lambda>x. x * x) ex_vec 1 ^^ 1) p q" by (simp only: relpowp_1)
  from pool_map_ends [OF p this] p q show ?thesis by blast
qed

section \<open>The allocation log\<close>

text \<open>
  C37. The hash table of the log is a finite map: any sequence of insertions of
  absent blocks and of removals ends (no probe runs for ever, rehashing
  included) and leaves the map those edits leave.
\<close>

theorem log_table_is_map:
  assumes "map_edits es Map.empty = Some m"
  shows "\<exists>L. run_edits baga_lm_put lm_remove es new_log = Some L \<and> table_ok L \<and> lookup L = m"
  using lm.edits_refine [of new_log es m] assms new_log_ok by (simp add: log_ok_def)

theorem log_table_is_map_witness:
  "\<exists>L. run_edits baga_lm_put lm_remove [PUT 4096 8 False, PUT 8192 16 True, DEL 4096] new_log = Some L \<and>
     lookup L 4096 = None \<and> lookup L 8192 = Some (16, True)"
proof -
  have "map_edits [PUT 4096 8 False, PUT 8192 16 True, DEL 4096] Map.empty = Some ([8192 \<mapsto> (16, True)])"
    by (simp add: block_def BAGA_LM_TOMB_def fun_eq_iff)
  from log_table_is_map [OF this] show ?thesis by auto
qed

text \<open>
  C38. The logs of all threads are one map from live blocks to their sizes:
  allocation adds a block, reallocation moves it and keeps its persistence,
  release removes it, from whichever thread; each ends and keeps the byte
  counters equal to the sums over the blocks.
\<close>

theorem log_ops_refine_map:
  assumes "world_ok w" "block p" "block q"
  shows "(world_look w p = None \<longrightarrow> (\<exists>w'. baga_lm_malloc n p w = Some w' \<and> world_ok w' \<and>
      world_look w' = (world_look w)(p \<mapsto> (lm_size n, 0 < w_depth w)))) \<and>
    (q = p \<or> world_look w q = None \<longrightarrow> (\<exists>w'. baga_lm_realloc p n q w = Some w' \<and> world_ok w' \<and>
      world_look w' = (case world_look w p of None \<Rightarrow> world_look w
        | Some (m, b) \<Rightarrow> (world_look w)(p := None, q \<mapsto> (lm_size n, b))))) \<and>
    (\<exists>w'. baga_lm_free p w = Some w' \<and> world_ok w' \<and> world_look w' = (world_look w)(p := None))"
  using malloc_spec [OF assms(1,2)] realloc_spec [OF assms] free_spec [OF assms(1,2)] by blast

definition ex_world :: World where
  "ex_world = \<lparr>w_logs = [], w_tl = None, w_depth = 0, w_freed = []\<rparr>"

lemma ex_world_ok: "world_ok ex_world" "world_look ex_world = Map.empty" "block 4096" "block 8192"
  by (auto simp: ex_world_def world_ok_def world_look_def block_def BAGA_LM_TOMB_def)

theorem log_ops_refine_map_witness:
  "\<exists>w. baga_lm_malloc 8 4096 ex_world = Some w \<and> world_look w = [4096 \<mapsto> (8, False)]"
  using log_ops_refine_map [OF ex_world_ok(1,3,4), of 8] ex_world_ok(2)
  by (auto simp: lm_size_def ex_world_def)

lemma rewind_world:
  assumes w: "world_ok w" and t: "w_tl w = Some t" and m: "0 \<le> m" "nat m \<le> length (lm_v (w_logs w ! t))"
  shows "\<exists>w' fs. baga_lm_rewind m w = Some w' \<and> world_ok w' \<and> w_freed w' = w_freed w @ fs \<and> distinct fs \<and>
    set fs = {p \<in> set (drop (nat m) (lm_v (w_logs w ! t))). kept (w_logs w ! t) False p} \<and>
    world_look w' = (\<lambda>p. if p \<in> set fs then None else world_look w p) \<and>
    lm_v (w_logs w' ! t) =
      take (nat m) (lm_v (w_logs w ! t)) @ filter (kept (w_logs w ! t) True) (drop (nat m) (lm_v (w_logs w ! t)))"
proof -
  let ?L = "w_logs w ! t"
  have tl: "t < length (w_logs w)" using w t by (simp add: world_ok_def)
  then have ok: "log_ok ?L" using w by (simp add: world_ok_def)
  from rewind_spec [of ?L "nat m" "nat m" "w_freed w"] ok m obtain k L' fs where r:
    "lm_rewind_loop [nat m..<length (lm_v ?L)] (nat m) ?L (w_freed w) = Some (k, L', w_freed w @ fs)" "table_ok L'"
    "take k (lm_v L') = take (nat m) (lm_v ?L) @ filter (kept ?L True) (drop (nat m) (lm_v ?L))" "distinct fs"
    "set fs = {p \<in> set (drop (nat m) (lm_v ?L)). kept ?L False p}"
    "lookup L' = (\<lambda>p. if p \<in> set fs then None else lookup ?L p)"
    "lm_live L' - bytes False L' = lm_live ?L - bytes False ?L" "bytes True L' = bytes True ?L"
    "lm_live L' \<le> lm_live ?L" "lm_peak L' = lm_peak ?L" "lm_live_p L' = lm_live_p ?L"
    unfolding log_ok_def by blast
  let ?M = "L'\<lparr>lm_v := take k (lm_v L')\<rparr>"
  have dom: "q \<in> set (lm_v ?M)" if "lookup L' q \<noteq> None" for q
  proof -
    from that have q: "q \<notin> set fs" "lookup ?L q \<noteq> None" by (auto simp: r(6) split: if_splits)
    then have "q \<in> set (take (nat m) (lm_v ?L)) \<or> q \<in> set (drop (nat m) (lm_v ?L))"
      using ok by (metis UnE append_take_drop_id domIff log_ok_def set_append subsetD)
    moreover have "kept ?L True q \<or> kept ?L False q"
      using q(2) by (cases "lookup ?L q") (auto simp: kept_def)
    ultimately show ?thesis using q(1) r(3,5) by auto
  qed
  have blk: "\<forall>q \<in> set (lm_v ?M). block q"
    using ok r(3) by (auto simp: log_ok_def dest: in_set_takeD in_set_dropD)
  have M: "log_ok ?M"
    using ok r(2,7-11) dom blk unfolding log_ok_def by (auto simp: domIff)
  have new: "world_look w q = None" if "lookup ?M q \<noteq> None" "lookup ?L q = None" for q
    using that by (auto simp: r(6) split: if_splits)
  have wu: "world_ok (log_upd t ?M w) \<and> world_look (log_upd t ?M w) =
      (\<lambda>q. if lookup ?L q \<noteq> None \<or> lookup ?M q \<noteq> None then lookup ?M q else world_look w q)"
    by (rule world_upd [OF w tl M]) (rule new)
  note u = conjunct1 [OF wu] conjunct2 [OF wu, unfolded lookup_other]
  have "world_look (log_upd t ?M w) = (\<lambda>p. if p \<in> set fs then None else world_look w p)"
  proof
    fix q
    show "world_look (log_upd t ?M w) q = (if q \<in> set fs then None else world_look w q)"
    proof (cases "lookup ?L q")
      case None
      moreover have "q \<notin> set fs" using None r(5) by (simp add: kept_def)
      ultimately show ?thesis by (simp add: u(2) r(6))
    next
      case (Some x)
      then show ?thesis using world_look_Some [OF w tl Some] by (simp add: u(2) r(6))
    qed
  qed
  moreover have "world_ok (u\<lparr>w_freed := gs\<rparr>) = world_ok u" "world_look (u\<lparr>w_freed := gs\<rparr>) = world_look u" for u gs
    by (simp_all add: world_ok_def world_look_def fun_eq_iff)
  moreover have "baga_lm_rewind m w = Some (log_upd t ?M w\<lparr>w_freed := w_freed w @ fs\<rparr>)"
    using t m r(1) by (simp add: baga_lm_rewind_def Let_def)
  ultimately show ?thesis
    using u(1) r(3-5) tl by (intro exI [of _ "log_upd t ?M w\<lparr>w_freed := w_freed w @ fs\<rparr>"] exI [of _ fs])
      (simp add: log_upd_def)
qed

text \<open>
  C39. The rewind ends and releases, each once, exactly the live blocks that
  are logged at or after the mark and not persistent; every other block stays,
  and the log keeps its part before the mark and the persistent blocks.
\<close>

theorem rewind_frees_arena:
  assumes "world_ok w" "w_tl w = Some t" "0 \<le> m" "nat m \<le> length (lm_v (w_logs w ! t))"
  shows "\<exists>w' fs. baga_lm_rewind m w = Some w' \<and> world_ok w' \<and> w_freed w' = w_freed w @ fs \<and> distinct fs \<and>
    set fs = {p \<in> set (drop (nat m) (lm_v (w_logs w ! t))). \<exists>n. lookup (w_logs w ! t) p = Some (n, False)} \<and>
    world_look w' = (\<lambda>p. if p \<in> set fs then None else world_look w p) \<and>
    lm_v (w_logs w' ! t) = take (nat m) (lm_v (w_logs w ! t)) @
      filter (\<lambda>p. \<exists>n. lookup (w_logs w ! t) p = Some (n, True)) (drop (nat m) (lm_v (w_logs w ! t)))"
  using rewind_world [OF assms] unfolding kept_def .

definition ex_arena :: "World option" where
  "ex_arena = baga_lm_malloc 8 4096 ex_world"

theorem rewind_frees_arena_witness:
  "\<exists>w w'. ex_arena = Some w \<and> baga_lm_rewind 0 w = Some w' \<and> w_freed w' = [4096]"
proof -
  from malloc_spec [OF ex_world_ok(1,3), of 8] ex_world_ok(2)
  obtain w where w: "ex_arena = Some w" "world_ok w" by (auto simp: ex_arena_def)
  have "map_option (\<lambda>w. (w_tl w, map lm_v (w_logs w), w_freed w, map (\<lambda>L. lookup L 4096) (w_logs w))) ex_arena =
      Some (Some 0, [[4096]], [], [Some (8, False)])" by code_simp
  then have v: "w_tl w = Some 0" "map lm_v (w_logs w) = [[4096]]" "w_freed w = []"
    "map (\<lambda>L. lookup L 4096) (w_logs w) = [Some (8, False)]" by (simp_all add: w(1))
  then obtain L where f: "w_tl w = Some 0" "w_freed w = []" "w_logs w = [L]" "lm_v L = [4096]"
    "lookup L 4096 = Some (8, False)" by (auto simp: map_eq_Cons_conv)
  from rewind_frees_arena [OF w(2) f(1), of 0] f obtain w' fs where r: "baga_lm_rewind 0 w = Some w'" "w_freed w' = fs"
    "distinct fs" "set fs = {4096}" by auto
  then have "fs = [4096]" by (cases fs; cases "tl fs") (auto simp: subset_singleton_iff)
  with w r show ?thesis by blast
qed

text \<open>
  C40. A released block stays in the list: a block allocated before the mark
  and reallocated inside the arena to the address of a block released there is
  released by the rewind, although it belongs to the part before the mark.
\<close>

theorem rewind_frees_survivor:
  "do {
     w1 \<leftarrow> baga_lm_malloc 8 4096 ex_world;
     w2 \<leftarrow> baga_lm_malloc 8 8192 w1;
     w3 \<leftarrow> baga_lm_free 8192 w2;
     w4 \<leftarrow> baga_lm_realloc 4096 64 8192 w3;
     w5 \<leftarrow> baga_lm_rewind (baga_lm_mark w1) w4;
     Some (baga_lm_mark w1, lookup (w_logs w4 ! 0) 8192, w_freed w5)
   } = Some (1, Some (64, False), [8192, 8192])"
  by code_simp

end
